(* ===== verification/GT_Prelude.thy ===== *)
theory GT_Prelude
  imports Main "HOL-Library.Word" "HOL-Library.Monad_Syntax" "HOL-Library.Multiset"
begin

text \<open>
  Shared vocabulary of the G-Tran development: the machine integer types of the C++ code, the
  \<open>CHECK\<close>/\<open>assert\<close> discipline, and the generic lemmas on words, options and lists that several
  components use.

  A failed \<open>CHECK\<close> (glog) or \<open>assert\<close> ends the process. Every operation that contains one returns
  an \<open>option\<close>, and \<open>None\<close> stands for "the process died here". The do-notation of
  \<open>HOL-Library.Monad_Syntax\<close> sequences such operations.
\<close>

unbundle bit_operations_syntax

type_synonym u8 = "8 word"
type_synonym u16 = "16 word"
type_synonym u32 = "32 word"
type_synonym u64 = "64 word"

named_theorems bitfield_defs \<open>definitions of the bit-field packings\<close>
named_theorems chain_intros \<open>introduction rules for chains through a next-offset array\<close>

section \<open>Checks\<close>

definition CHECK :: "bool \<Rightarrow> unit option" where
  "CHECK b = (if b then Some () else None)"

lemma CHECK_True [simp]: "CHECK True = Some ()"
  by (simp add: CHECK_def)

lemma CHECK_False [simp]: "CHECK False = None"
  by (simp add: CHECK_def)

lemma CHECK_eq_Some [simp]: "CHECK b = Some u \<longleftrightarrow> b"
  by (cases b) simp_all

lemma CHECK_eq_None [simp]: "CHECK b = None \<longleftrightarrow> \<not> b"
  by (cases b) simp_all

lemma CHECK_bind_eq_Some [simp]: "CHECK b \<bind> f = Some r \<longleftrightarrow> b \<and> f () = Some r"
  by (cases b) simp_all

section \<open>Words\<close>

lemma word_push_bit_ge: "LENGTH('a) \<le> n \<Longrightarrow> push_bit n (x :: 'a::len word) = 0"
  by (rule bit_word_eqI) (simp add: bit_simps)

lemma word_drop_bit_ge: "LENGTH('a) \<le> n \<Longrightarrow> drop_bit n (x :: 'a::len word) = 0"
  by (rule bit_word_eqI) (auto simp: bit_simps dest: bit_imp_le_length)

lemma word_not_eq: "NOT (x :: 'a::len word) = - x - 1"
  by (simp add: not_eq_complement)

lemma word_less_exp_bit:
  fixes n :: "'a::len word"
  assumes "uint n < 2 ^ k" "bit n i"
  shows "i < k"
proof -
  have "take_bit k (uint n) = uint n" using assms(1) by (simp add: take_bit_int_eq_self_iff)
  moreover have "bit (uint n) i" using assms(2) by (simp add: bit_uint_iff bit_imp_le_length)
  ultimately have "bit (take_bit k (uint n)) i" by simp
  then show ?thesis by (simp add: bit_take_bit_iff)
qed

text \<open>Packing two bit-fields side by side and reading them back.\<close>

lemma ucast_pack_high:
  fixes a :: "'h::len word" and b :: "'l::len word"
  assumes "LENGTH('h) + LENGTH('l) \<le> LENGTH('w::len)"
  shows "(ucast (drop_bit LENGTH('l) (push_bit LENGTH('l) (ucast a) + ucast b :: 'w word)) :: 'h word) = a"
proof -
  have "push_bit LENGTH('l) (ucast a) + ucast b = (push_bit LENGTH('l) (ucast a) OR ucast b :: 'w word)"
    by (rule disjunctive_add) (auto simp: bit_simps dest: bit_imp_le_length)
  then show ?thesis using assms
    by (intro bit_word_eqI) (auto simp: bit_simps dest: bit_imp_le_length)
qed

lemma drop_pack:
  fixes a :: "'w::len word" and b :: "'l::len word"
  assumes "LENGTH('l) \<le> LENGTH('w)"
  shows "drop_bit LENGTH('l) (push_bit LENGTH('l) a + ucast b :: 'w word) = take_bit (LENGTH('w) - LENGTH('l)) a"
proof -
  have "push_bit LENGTH('l) a + ucast b = (push_bit LENGTH('l) a OR ucast b :: 'w word)"
    by (rule disjunctive_add) (auto simp: bit_simps dest: bit_imp_le_length)
  then show ?thesis using assms
    by (intro bit_word_eqI) (auto simp: bit_simps dest: bit_imp_le_length)
qed

lemma ucast_pack_low:
  fixes a :: "'w::len word" and b :: "'l::len word"
  assumes "LENGTH('l) \<le> LENGTH('w::len)"
  shows "(ucast (push_bit LENGTH('l) a + ucast b :: 'w word) :: 'l word) = b"
proof -
  have "push_bit LENGTH('l) a + ucast b = (push_bit LENGTH('l) a OR ucast b :: 'w word)"
    by (rule disjunctive_add) (auto simp: bit_simps dest: bit_imp_le_length)
  then show ?thesis using assms
    by (intro bit_word_eqI) (auto simp: bit_simps dest: bit_imp_le_length)
qed

text \<open>Subtracting a number whose low bits are zero does not change the low bits.\<close>

lemma ucast_diff_low_zero:
  fixes v m :: "'a::len word"
  assumes z: "\<And>k. k < LENGTH('b) \<Longrightarrow> \<not> bit m k" and l: "LENGTH('b::len) \<le> LENGTH('a)"
  shows "(ucast (v - m) :: 'b word) = ucast v"
proof -
  have m0: "take_bit LENGTH('b) (uint m) = 0"
    using z by (intro bit_eqI) (auto simp: bit_simps bit_uint_iff)
  have "take_bit LENGTH('b) (take_bit LENGTH('a) (uint v - uint m)) = take_bit LENGTH('b) (uint v - uint m)"
    using l by (simp add: min_def)
  also have "\<dots> = take_bit LENGTH('b) (take_bit LENGTH('b) (uint v) - take_bit LENGTH('b) (uint m))"
    by (simp add: take_bit_diff)
  finally have "take_bit LENGTH('b) (uint (v - m)) = take_bit LENGTH('b) (uint v)"
    using m0 by (simp add: uint_word_arith_bintrs)
  then show ?thesis
    by (intro word_uint_eqI) (simp add: unsigned_ucast_eq)
qed

lemma unat_less: "unat (w :: 'a::len word) < 2 ^ LENGTH('a)"
  by (rule unsigned_less)

lemma unat_u8_less [simp]: "unat (b :: u8) < 256"
  using unat_less [of b] by simp

lemma unat_of_nat_less: "n < 2 ^ LENGTH('a) \<Longrightarrow> unat (of_nat n :: 'a::len word) = n"
  by (simp add: unat_of_nat)

lemma of_nat_word_inject:
  "m < 2 ^ LENGTH('a) \<Longrightarrow> n < 2 ^ LENGTH('a) \<Longrightarrow> (of_nat m :: 'a::len word) = of_nat n \<longleftrightarrow> m = n"
  by (metis unat_of_nat_less)

lemma sint_inject: "sint x = sint y \<longleftrightarrow> x = (y :: 'a::len word)"
  by (rule word_eq_iff_signed [symmetric])

end
