(* ===== verification/GT_Ids.thy ===== *)
theory GT_Ids
  imports GT_Prelude
begin

text \<open>
  Identifiers (src/base/type.hpp, src/base/type.cpp), their placement on workers
  (src/core/id_mapper.hpp), the integer hash (src/utils/mymath.hpp), transaction ids
  (src/core/coordinator.cpp) and timestamps (src/utils/distributed_clock.cpp).

  A bit-field of width \<open>w\<close> is a \<open>w word\<close>. A bit-field narrower than \<open>int\<close> is promoted to
  \<open>int\<close> before a shift, so \<open>eid.dst_v << VID_BITS\<close> is a 32-bit shift whose result is then
  sign-extended to 64 bits; \<open>shl_promoted\<close> writes this out.
\<close>

section \<open>Identifiers\<close>

record ptr_t =
  ptr_size :: "28 word"
  ptr_off :: "36 word"

record eid_t =
  dst_v :: "26 word"
  src_v :: "26 word"

record vpid_t =
  vp_vid :: "26 word"
  vp_pid :: "12 word"

record epid_t =
  ep_dst_vid :: "26 word"
  ep_src_vid :: "26 word"
  ep_pid :: "12 word"

type_synonym vid_t = "26 word"

definition shl_promoted :: "nat \<Rightarrow> 26 word \<Rightarrow> u64" where
  "shl_promoted n x = scast (push_bit n (ucast x :: u32))"

definition ptr_t_value :: "ptr_t \<Rightarrow> u64" where
  "ptr_t_value p = push_bit 28 (0 + ucast (ptr_off p)) + ucast (ptr_size p)"

definition uint2ptr_t :: "u64 \<Rightarrow> ptr_t" where
  "uint2ptr_t v = \<lparr>ptr_size = ucast (v AND 0xFFFFFFF), ptr_off = ucast (drop_bit 28 v)\<rparr>"

definition vid_t_of_int :: "int \<Rightarrow> vid_t" where
  "vid_t_of_int i = word_of_int i"

definition vid_t_value :: "vid_t \<Rightarrow> u32" where
  "vid_t_value v = ucast v"

definition uint2vid_t :: "u32 \<Rightarrow> vid_t" where
  "uint2vid_t v = ucast v"

definition eid_t_value :: "eid_t \<Rightarrow> u64" where
  "eid_t_value e = push_bit 26 (0 + ucast (dst_v e)) + ucast (src_v e)"

definition uint2eid_t :: "u64 \<Rightarrow> eid_t" where
  "uint2eid_t v =
     (let d = (ucast (drop_bit 26 v) :: 26 word)
      in \<lparr>dst_v = d, src_v = ucast (v - shl_promoted 26 d)\<rparr>)"

definition vpid_t_value :: "vpid_t \<Rightarrow> u64" where
  "vpid_t_value p = push_bit 12 (push_bit 26 (0 + ucast (vp_vid p))) + ucast (vp_pid p)"

definition uint2vpid_t :: "u64 \<Rightarrow> vpid_t" where
  "uint2vpid_t v =
     (let w = (ucast (drop_bit 26 (drop_bit 12 v)) :: 26 word)
      in \<lparr>vp_vid = w, vp_pid = ucast (v - scast (push_bit 26 (push_bit 12 (ucast w :: u32))))\<rparr>)"

definition epid_t_value :: "epid_t \<Rightarrow> u64" where
  "epid_t_value p =
     push_bit 12 (push_bit 26 (0 + ucast (ep_dst_vid p)) + ucast (ep_src_vid p)) + ucast (ep_pid p)"

definition uint2epid_t :: "u64 \<Rightarrow> epid_t" where
  "uint2epid_t v =
     (let d = (ucast (drop_bit 26 (drop_bit 12 v)) :: 26 word)
      in \<lparr>ep_dst_vid = d,
          ep_src_vid = ucast (drop_bit 12 v - shl_promoted 26 d),
          ep_pid = ucast (v - push_bit 12 (drop_bit 12 v))\<rparr>)"

text \<open>
  \<open>GetAllEdges\<close> (src/layout/data_storage.cpp) reads an edge-map key through a pointer to
  \<open>eid_t\<close>: the first bit-field \<open>dst_v\<close> then holds the low 26 bits, so the code swaps the fields.
\<close>

definition reinterpret_eid_t :: "u64 \<Rightarrow> eid_t" where
  "reinterpret_eid_t v = \<lparr>dst_v = ucast v, src_v = ucast (drop_bit 26 v)\<rparr>"

definition eid_t_of_map_key :: "u64 \<Rightarrow> eid_t" where
  "eid_t_of_map_key v = (let t = reinterpret_eid_t v in \<lparr>dst_v = src_v t, src_v = dst_v t\<rparr>)"

subsection \<open>Query, aggregate and message keys\<close>

record qid_t =
  q_trxid :: u64
  q_id :: u8

definition qid_t_value :: "qid_t \<Rightarrow> u64" where
  "qid_t_value q = q_trxid q + ucast (q_id q)"

definition uint2qid_t :: "u64 \<Rightarrow> qid_t" where
  "uint2qid_t v = \<lparr>q_trxid = v AND 0xFFFFFFFFFFFFFF00, q_id = ucast (v AND 0xFF)\<rparr>"

record agg_t =
  agg_trxid :: u64
  agg_label_key :: u8

definition agg_t_make :: "u64 \<Rightarrow> int \<Rightarrow> agg_t" where
  "agg_t_make qid_value label_key =
     \<lparr>agg_trxid = qid_value AND 0xFFFFFFFFFFFFFF00, agg_label_key = word_of_int label_key\<rparr>"

definition agg_t_value :: "agg_t \<Rightarrow> u64" where
  "agg_t_value a = agg_trxid a + ucast (agg_label_key a)"

datatype mkey_t = mkey_t (mk_qid: u64) (mk_mid: u64) (mk_index: int)

definition mkey_t_less :: "mkey_t \<Rightarrow> mkey_t \<Rightarrow> bool" where
  "mkey_t_less x y =
     (if mk_qid x < mk_qid y then True
      else if mk_qid x = mk_qid y then
        (if mk_mid x < mk_mid y then True
         else if mk_mid x = mk_mid y then mk_index x < mk_index y
         else False)
      else False)"

section \<open>Hashing\<close>

definition hash_u64 :: "u64 \<Rightarrow> u64" where
  "hash_u64 key0 =
     (let key = NOT key0 + push_bit 21 key0;
          key = key XOR drop_bit 24 key;
          key = (key + push_bit 3 key) + push_bit 8 key;
          key = key XOR drop_bit 14 key;
          key = (key + push_bit 2 key) + push_bit 4 key;
          key = key XOR drop_bit 28 key;
          key = key + push_bit 31 key
      in key)"

definition inverse_hash_u64 :: "u64 \<Rightarrow> u64" where
  "inverse_hash_u64 key0 =
     (let tmp = key0 - push_bit 31 key0;
          key = key0 - push_bit 31 tmp;
          tmp = key XOR drop_bit 28 key;
          key = key XOR drop_bit 28 tmp;
          key = key * 14933078535860113213;
          tmp = key XOR drop_bit 14 key;
          tmp = key XOR drop_bit 14 tmp;
          tmp = key XOR drop_bit 14 tmp;
          key = key XOR drop_bit 14 tmp;
          key = key * 15244667743933553977;
          tmp = key XOR drop_bit 24 key;
          key = key XOR drop_bit 24 tmp;
          tmp = NOT key;
          tmp = NOT (key - push_bit 21 tmp);
          tmp = NOT (key - push_bit 21 tmp);
          key = NOT (key - push_bit 21 tmp)
      in key)"

definition hash_mod :: "u64 \<Rightarrow> int \<Rightarrow> int option" where
  "hash_mod n m = do { CHECK (m \<noteq> 0); Some (sint (ucast (n mod word_of_int m) :: u32)) }"

section \<open>Placement of elements on workers\<close>

text \<open>\<open>sz\<close> is the number of workers, \<open>my_node_.get_local_size()\<close>.\<close>

definition GetMachineIdForVertex :: "int \<Rightarrow> vid_t \<Rightarrow> int" where
  "GetMachineIdForVertex sz v = uint (vid_t_value v) mod sz"

definition GetMachineIdForEdge :: "int \<Rightarrow> eid_t \<Rightarrow> bool \<Rightarrow> int" where
  "GetMachineIdForEdge sz e considerDstVtx =
     (if considerDstVtx then uint (dst_v e) mod sz else uint (src_v e) mod sz)"

definition GetMachineIdForVProperty :: "int \<Rightarrow> vpid_t \<Rightarrow> int" where
  "GetMachineIdForVProperty sz p = uint (vp_vid p) mod sz"

definition GetMachineIdForEProperty :: "int \<Rightarrow> epid_t \<Rightarrow> int" where
  "GetMachineIdForEProperty sz p = uint (ep_src_vid p) mod sz"

text \<open>The hash-based mapper, which the interface also allows.\<close>

definition Naive_GetMachineIdForVertex :: "int \<Rightarrow> vid_t \<Rightarrow> int option" where
  "Naive_GetMachineIdForVertex sz v = hash_mod (hash_u64 (ucast (vid_t_value v))) sz"

definition Naive_GetMachineIdForEdge :: "int \<Rightarrow> eid_t \<Rightarrow> int option" where
  "Naive_GetMachineIdForEdge sz e = hash_mod (hash_u64 (eid_t_value e)) sz"

section \<open>Transaction ids\<close>

definition TRX_ID_MASK :: u64 where
  "TRX_ID_MASK = 0x8000000000000000"

definition MAX_TIMESTAMP :: u64 where
  "MAX_TIMESTAMP = 0x7FFFFFFFFFFFFFFF"

definition IS_VALID_TRX_ID :: "u64 \<Rightarrow> bool" where
  "IS_VALID_TRX_ID trx_id = (trx_id AND TRX_ID_MASK \<noteq> 0)"

definition TrxIDHash :: "u64 \<Rightarrow> u64" where
  "TrxIDHash trx_id = drop_bit 8 trx_id"

record coordinator =
  next_trx_id :: u64
  comm_sz :: int
  my_rank :: int

definition RegisterTrx :: "coordinator \<Rightarrow> u64 \<times> coordinator" where
  "RegisterTrx c =
     (TRX_ID_MASK OR push_bit 8 (next_trx_id c * word_of_int (comm_sz c) + word_of_int (my_rank c)),
      c\<lparr>next_trx_id := next_trx_id c + 1\<rparr>)"

definition Coordinator_Init :: "int \<Rightarrow> int \<Rightarrow> coordinator" where
  "Coordinator_Init sz rank = \<lparr>next_trx_id = 1, comm_sz = sz, my_rank = rank\<rparr>"

definition GetWorkerFromTrxID :: "coordinator \<Rightarrow> u64 \<Rightarrow> int option" where
  "GetWorkerFromTrxID c trx_id =
     do { CHECK (IS_VALID_TRX_ID trx_id);
          Some (sint (ucast (drop_bit 8 (trx_id XOR TRX_ID_MASK) mod word_of_int (comm_sz c)) :: u32)) }"

section \<open>Timestamps\<close>

text \<open>
  \<open>nano_sec\<close> is what \<open>GetRefinedNS\<close> reads from the calibrated time-stamp counter; \<open>last_ts_\<close> is
  initialised to 0 and never written.
\<close>

definition GetTimestamp :: "int \<Rightarrow> u64 \<Rightarrow> u64 option" where
  "GetTimestamp rank nano_sec =
     do { CHECK (drop_bit (64 - 1 - 8) nano_sec = 0);
          let ret = push_bit 8 nano_sec + word_of_int rank;
          CHECK (0 < ret);
          Some ret }"

datatype DiffPosPair = DiffPosPair (dp_diff: int) (dp_pos: int)

definition DiffPosPair_less :: "DiffPosPair \<Rightarrow> DiffPosPair \<Rightarrow> bool" where
  "DiffPosPair_less l r = (if dp_diff l < dp_diff r then True else dp_pos l < dp_pos r)"

section \<open>What the coordinator guarantees\<close>

text \<open>
  \<open>trx_seq\<close> is the sequence number packed into a transaction id, as an unbounded integer, and
  \<open>coordinator_ok\<close> says that the worker's rank is legal and that the number still fits the 55 bits
  between \<open>TRX_ID_MASK\<close> and the 8 bits of the query number.
\<close>

definition trx_seq :: "coordinator \<Rightarrow> int" where
  "trx_seq c = uint (next_trx_id c) * comm_sz c + my_rank c"

definition coordinator_ok :: "coordinator \<Rightarrow> bool" where
  "coordinator_ok c \<longleftrightarrow> 0 \<le> my_rank c \<and> my_rank c < comm_sz c \<and> comm_sz c < 2 ^ 31 \<and>
     trx_seq c < 2 ^ 55"

section \<open>Round trips of the identifiers\<close>

lemma shl_promoted_low: "k < n \<Longrightarrow> n \<le> 31 \<Longrightarrow> \<not> bit (shl_promoted n x) k"
  by (auto simp: shl_promoted_def bit_simps)

lemma vid_t_roundtrip: "uint2vid_t (vid_t_value v) = v"
  by (rule bit_word_eqI) (auto simp: uint2vid_t_def vid_t_value_def bit_simps dest: bit_imp_le_length)

lemma eid_t_value_high: "(ucast (drop_bit 26 (eid_t_value e)) :: 26 word) = dst_v e"
  using ucast_pack_high [of "dst_v e" "src_v e", where 'w = 64] by (simp add: eid_t_value_def)

lemma eid_t_value_low: "(ucast (eid_t_value e) :: 26 word) = src_v e"
  using ucast_pack_low [of "ucast (dst_v e) :: u64" "src_v e"] by (simp add: eid_t_value_def)

lemma eid_t_roundtrip: "uint2eid_t (eid_t_value e) = e"
proof -
  have "(ucast (eid_t_value e - shl_promoted 26 (dst_v e)) :: 26 word) = ucast (eid_t_value e)"
    by (rule ucast_diff_low_zero) (auto simp: shl_promoted_low)
  then show ?thesis
    by (simp add: uint2eid_t_def eid_t_value_high eid_t_value_low)
qed

lemma eid_t_of_map_key_value: "eid_t_of_map_key (eid_t_value e) = e"
  by (simp add: eid_t_of_map_key_def reinterpret_eid_t_def eid_t_value_high eid_t_value_low)

lemma ptr_t_roundtrip: "uint2ptr_t (ptr_t_value p) = p"
proof -
  have 1: "(ucast (drop_bit 28 (ptr_t_value p)) :: 36 word) = ptr_off p"
    using ucast_pack_high [of "ptr_off p" "ptr_size p", where 'w = 64] by (simp add: ptr_t_value_def)
  have 2: "(ucast (ptr_t_value p) :: 28 word) = ptr_size p"
    using ucast_pack_low [of "ucast (ptr_off p) :: u64" "ptr_size p"] by (simp add: ptr_t_value_def)
  have "ptr_t_value p AND 0xFFFFFFF = take_bit 28 (ptr_t_value p)"
    by (simp add: take_bit_eq_mask mask_eq_exp_minus_1)
  then have "(ucast (ptr_t_value p AND 0xFFFFFFF) :: 28 word) = ucast (ptr_t_value p)"
    by (intro bit_word_eqI) (auto simp: bit_simps)
  then show ?thesis using 1 2 by (simp add: uint2ptr_t_def)
qed

lemma vpid_t_roundtrip: "uint2vpid_t (vpid_t_value p) = p"
proof -
  have v: "vpid_t_value p = push_bit 12 (push_bit 26 (ucast (vp_vid p))) + ucast (vp_pid p)"
    by (simp add: vpid_t_value_def)
  have d: "drop_bit 12 (vpid_t_value p) = take_bit 52 (push_bit 26 (ucast (vp_vid p)))"
    using drop_pack [of "push_bit 26 (ucast (vp_vid p)) :: u64" "vp_pid p"] by (simp add: v)
  have 1: "(ucast (drop_bit 26 (drop_bit 12 (vpid_t_value p))) :: 26 word) = vp_vid p"
    unfolding d by (rule bit_word_eqI) (auto simp: bit_simps dest: bit_imp_le_length)
  have 2: "(ucast (vpid_t_value p) :: 12 word) = vp_pid p"
    using ucast_pack_low [of "push_bit 26 (ucast (vp_vid p)) :: u64" "vp_pid p"] by (simp add: v)
  have "(ucast (vpid_t_value p - scast (push_bit 26 (push_bit 12 (ucast (vp_vid p) :: u32)))) :: 12 word)
      = ucast (vpid_t_value p)"
    by (rule ucast_diff_low_zero) (auto simp: bit_simps)
  then show ?thesis by (simp add: uint2vpid_t_def Let_def 1 2 del: drop_bit_drop_bit push_bit_push_bit)
qed

lemma epid_t_roundtrip: "uint2epid_t (epid_t_value p) = p"
proof -
  let ?e = "\<lparr>dst_v = ep_dst_vid p, src_v = ep_src_vid p\<rparr>"
  have v: "epid_t_value p = push_bit 12 (eid_t_value ?e) + ucast (ep_pid p)"
    by (simp add: epid_t_value_def eid_t_value_def)
  have e52: "take_bit 52 (eid_t_value ?e) = eid_t_value ?e"
  proof -
    have "eid_t_value ?e = push_bit 26 (ucast (ep_dst_vid p)) OR ucast (ep_src_vid p)"
      unfolding eid_t_value_def by (simp, rule disjunctive_add) (auto simp: bit_simps dest: bit_imp_le_length)
    then show ?thesis
      by (intro bit_word_eqI) (auto simp: bit_simps dest: bit_imp_le_length)
  qed
  have d: "drop_bit 12 (epid_t_value p) = eid_t_value ?e"
    using drop_pack [of "eid_t_value ?e" "ep_pid p"] e52 by (simp add: v)
  have 2: "(ucast (epid_t_value p) :: 12 word) = ep_pid p"
    using ucast_pack_low [of "eid_t_value ?e" "ep_pid p"] by (simp add: v)
  have "(ucast (epid_t_value p - push_bit 12 (eid_t_value ?e)) :: 12 word) = ucast (epid_t_value p)"
    by (rule ucast_diff_low_zero) (auto simp: bit_simps)
  moreover have "(ucast (eid_t_value ?e - shl_promoted 26 (ep_dst_vid p)) :: 26 word) = ucast (eid_t_value ?e)"
    by (rule ucast_diff_low_zero) (auto simp: shl_promoted_low)
  ultimately show ?thesis
    using eid_t_value_high [of ?e] eid_t_value_low [of ?e] 2
    by (simp add: uint2epid_t_def Let_def d del: drop_bit_drop_bit)
qed

text \<open>
  C23. Every packed identifier is recovered from its integer: vertex, edge, vertex-property,
  edge-property ids and value-store pointers survive \<open>value()\<close> followed by the \<open>uint2...\<close>
  function, although the code shifts the promoted 32-bit value.
\<close>

theorem ids_roundtrip:
  "uint2vid_t (vid_t_value v) = v \<and> uint2eid_t (eid_t_value e) = e \<and>
   uint2vpid_t (vpid_t_value vp) = vp \<and> uint2epid_t (epid_t_value ep) = ep \<and>
   uint2ptr_t (ptr_t_value p) = p \<and> eid_t_of_map_key (eid_t_value e) = e"
  by (simp add: vid_t_roundtrip eid_t_roundtrip vpid_t_roundtrip epid_t_roundtrip ptr_t_roundtrip
      eid_t_of_map_key_value)

section \<open>Keys and hashes\<close>

text \<open>\<open>mkey_t::operator<\<close> is a linear order, so the keys can index an ordered map.\<close>

instantiation mkey_t :: linorder
begin
definition less_mkey_t :: "mkey_t \<Rightarrow> mkey_t \<Rightarrow> bool" where
  "less_mkey_t x y = mkey_t_less x y"
definition less_eq_mkey_t :: "mkey_t \<Rightarrow> mkey_t \<Rightarrow> bool" where
  "less_eq_mkey_t x y = (mkey_t_less x y \<or> x = y)"
instance
proof
  fix x y z :: mkey_t
  show "x \<le> y \<or> y \<le> x"
    by (cases x; cases y) (auto simp: less_eq_mkey_t_def mkey_t_less_def)
qed (auto simp: less_mkey_t_def less_eq_mkey_t_def mkey_t_less_def split: if_splits)

end

lemma xorshift_inv28:
  fixes x :: u64
  shows "(x XOR drop_bit 28 x) XOR drop_bit 28 ((x XOR drop_bit 28 x) XOR drop_bit 28 (x XOR drop_bit 28 x)) = x"
  by (rule bit_word_eqI) (auto simp: bit_simps dest: bit_imp_le_length)

lemma xorshift_inv24:
  fixes x :: u64
  shows "(x XOR drop_bit 24 x) XOR drop_bit 24 ((x XOR drop_bit 24 x) XOR drop_bit 24 (x XOR drop_bit 24 x)) = x"
  by (rule bit_word_eqI) (auto simp: bit_simps dest: bit_imp_le_length)

lemma xorshift_step:
  fixes x :: u64
  shows "(x XOR drop_bit n x) XOR drop_bit n (x XOR drop_bit m x) = x XOR drop_bit (n + m) x"
  by (rule bit_word_eqI) (auto simp: bit_simps ac_simps)

lemma hash_step1_inv:
  fixes k :: u64
  defines "y \<equiv> NOT k + push_bit 21 k"
  shows "NOT (y - push_bit 21 (NOT (y - push_bit 21 (NOT (y - push_bit 21 (NOT y)))))) = k"
proof -
  have z: "(19342813113834066795298816 :: u64) = 0" by simp
  show ?thesis
    unfolding y_def word_not_eq push_bit_eq_mult by (simp add: algebra_simps z)
qed

lemma hash_step7_inv:
  fixes k :: u64
  defines "y \<equiv> k + push_bit 31 k"
  shows "y - push_bit 31 (y - push_bit 31 y) = k"
proof -
  have z: "(9903520314283042199192993792 :: u64) = 0" by simp
  show ?thesis
    unfolding y_def push_bit_eq_mult by (simp add: algebra_simps z)
qed

lemma hash_mul265: fixes k::u64 shows "((k + push_bit 3 k) + push_bit 8 k) * 15244667743933553977 = k"
proof -
  have z: "(4039836952142391803904 :: u64) = 0" by simp
  show ?thesis
    unfolding push_bit_eq_mult by (simp add: algebra_simps z)
qed

lemma hash_mul21: fixes k::u64 shows "((k + push_bit 2 k) + push_bit 4 k) * 14933078535860113213 = k"
proof -
  have z: "(313594649253062377472 :: u64) = 0" by simp
  show ?thesis
    unfolding push_bit_eq_mult by (simp add: algebra_simps z)
qed

lemma inverse_hash_u64_hash_u64: "inverse_hash_u64 (hash_u64 k) = k"
proof -
  define a where "a = NOT k + push_bit 21 k"
  define b where "b = a XOR drop_bit 24 a"
  define c where "c = (b + push_bit 3 b) + push_bit 8 b"
  define d where "d = c XOR drop_bit 14 c"
  define e where "e = (d + push_bit 2 d) + push_bit 4 d"
  define f where "f = e XOR drop_bit 28 e"
  define g where "g = f + push_bit 31 f"
  have h: "hash_u64 k = g"
    by (simp add: hash_u64_def Let_def a_def b_def c_def d_def e_def f_def g_def)
  have 1: "g - push_bit 31 (g - push_bit 31 g) = f"
    unfolding g_def by (rule hash_step7_inv)
  have 2: "f XOR drop_bit 28 (f XOR drop_bit 28 f) = e"
    unfolding f_def by (rule xorshift_inv28)
  have 3: "e * 14933078535860113213 = d"
    unfolding e_def by (rule hash_mul21)
  have 4: "d XOR drop_bit 14 (d XOR drop_bit 14 (d XOR drop_bit 14 (d XOR drop_bit 14 d))) = c"
    unfolding d_def xorshift_step by (simp add: word_drop_bit_ge)
  have 5: "c * 15244667743933553977 = b"
    unfolding c_def by (rule hash_mul265)
  have 6: "b XOR drop_bit 24 (b XOR drop_bit 24 b) = a"
    unfolding b_def by (rule xorshift_inv24)
  have 7: "NOT (a - push_bit 21 (NOT (a - push_bit 21 (NOT (a - push_bit 21 (NOT a)))))) = k"
    unfolding a_def by (rule hash_step1_inv)
  show ?thesis
    unfolding h inverse_hash_u64_def Let_def 1 2 3 4 5 6 7 by (rule refl)
qed

text \<open>
  \<open>mymath::inverse_hash_u64\<close> undoes \<open>mymath::hash_u64\<close> on every 64-bit key, and so the hash has
  no collisions.
\<close>

lemma hash_u64_bijective: "inverse_hash_u64 (hash_u64 k) = k \<and> bij hash_u64"
proof -
  have i: "inj hash_u64" by (rule inj_on_inverseI [of _ inverse_hash_u64]) (rule inverse_hash_u64_hash_u64)
  then have "surj hash_u64" by (rule finite_UNIV_inj_surj [OF finite])
  with i show ?thesis by (simp add: bij_def inverse_hash_u64_hash_u64)
qed

section \<open>Transaction ids and timestamps\<close>

lemma TRX_ID_MASK_bit: "bit TRX_ID_MASK n \<longleftrightarrow> n = 63"
proof -
  have m: "TRX_ID_MASK = push_bit 63 1" by (simp add: TRX_ID_MASK_def)
  show ?thesis unfolding m bit_push_bit_iff by (auto simp: bit_1_iff)
qed

lemma IS_VALID_TRX_ID_bit: "IS_VALID_TRX_ID x \<longleftrightarrow> bit x 63"
proof -
  have "x AND TRX_ID_MASK = (if bit x 63 then TRX_ID_MASK else 0)"
    by (rule bit_word_eqI) (auto simp: bit_simps TRX_ID_MASK_bit)
  then show ?thesis by (simp add: IS_VALID_TRX_ID_def TRX_ID_MASK_def)
qed

lemma bit63_iff: "bit (x::u64) 63 \<longleftrightarrow> MAX_TIMESTAMP < x"
proof -
  have "bit x 63 \<longleftrightarrow> bit (uint x) 63" by (simp add: bit_uint_iff)
  also have "\<dots> \<longleftrightarrow> odd (uint x div 2 ^ 63)" by (simp add: bit_iff_odd)
  also have "\<dots> \<longleftrightarrow> 2 ^ 63 \<le> uint x"
  proof -
    have "uint x < 2 ^ 64" using uint_lt2p [of x] by simp
    then have "uint x div 2 ^ 63 < 2" by (simp add: div_less_iff_less_mult)
    moreover have "0 \<le> uint x div 2 ^ 63" by (rule div_int_pos_iff [THEN iffD2]) simp
    ultimately have "uint x div 2 ^ 63 = 0 \<or> uint x div 2 ^ 63 = 1" by linarith
    then show ?thesis by auto
  qed
  also have "\<dots> \<longleftrightarrow> MAX_TIMESTAMP < x" 
    unfolding MAX_TIMESTAMP_def word_less_def by simp linarith
  finally show ?thesis .
qed

lemma IS_VALID_TRX_ID_iff: "IS_VALID_TRX_ID x \<longleftrightarrow> MAX_TIMESTAMP < x"
  by (simp add: IS_VALID_TRX_ID_bit bit63_iff)

lemma trx_seq_word:
  assumes "coordinator_ok c"
  shows "uint (next_trx_id c * word_of_int (comm_sz c) + word_of_int (my_rank c)) = trx_seq c"
proof -
  have "next_trx_id c * word_of_int (comm_sz c) + word_of_int (my_rank c) = word_of_int (trx_seq c)"
    by (simp add: trx_seq_def)
  moreover have "0 \<le> trx_seq c" "trx_seq c < 2 ^ 64"
    using assms by (auto simp: coordinator_ok_def trx_seq_def)
  ultimately show ?thesis by (simp add: uint_word_of_int)
qed

lemma RegisterTrx_unmask:
  assumes "coordinator_ok c"
  shows "drop_bit 8 (fst (RegisterTrx c) XOR TRX_ID_MASK) = word_of_int (trx_seq c)"
proof -
  let ?n = "next_trx_id c * word_of_int (comm_sz c) + word_of_int (my_rank c)"
  have "uint ?n < 2 ^ 55"
    using assms by (simp add: trx_seq_word) (simp add: coordinator_ok_def)
  note lt = word_less_exp_bit [OF this]
  have "drop_bit 8 ((TRX_ID_MASK OR push_bit 8 ?n) XOR TRX_ID_MASK) = ?n"
    by (rule bit_word_eqI) (auto simp: bit_simps TRX_ID_MASK_bit dest: lt)
  then show ?thesis by (simp add: RegisterTrx_def trx_seq_def)
qed

lemma RegisterTrx_valid: "IS_VALID_TRX_ID (fst (RegisterTrx c))"
  by (simp add: RegisterTrx_def IS_VALID_TRX_ID_bit bit_simps TRX_ID_MASK_bit)

lemma RegisterTrx_qid_room: "fst (RegisterTrx c) AND 0xFF = 0"
proof -
  have "(0xFF :: u64) = mask 8" by (simp add: mask_eq_exp_minus_1)
  then show ?thesis unfolding RegisterTrx_def
    by (simp only: fst_conv flip: take_bit_eq_mask)
       (rule bit_word_eqI, auto simp: bit_simps TRX_ID_MASK_bit)
qed

lemma RegisterTrx_owner:
  assumes "coordinator_ok c"
  shows "GetWorkerFromTrxID c (fst (RegisterTrx c)) = Some (my_rank c)"
proof -
  have b: "0 \<le> my_rank c" "my_rank c < comm_sz c" "comm_sz c < 2 ^ 31" "0 \<le> trx_seq c" "trx_seq c < 2 ^ 64"
    using assms by (auto simp: coordinator_ok_def trx_seq_def)
  have "word_of_int (trx_seq c) mod word_of_int (comm_sz c) = (word_of_int (my_rank c) :: u64)"
    using b by (intro word_uint_eqI) (simp add: uint_mod uint_word_of_int, simp add: trx_seq_def)
  moreover have "sint (ucast (word_of_int (my_rank c) :: u64) :: u32) = my_rank c"
    using b by (simp add: signed_ucast_eq uint_word_of_int signed_take_bit_int_eq_self)
  ultimately show ?thesis
    by (simp add: GetWorkerFromTrxID_def RegisterTrx_valid RegisterTrx_unmask [OF assms] del: drop_bit_xor)
qed

lemma RegisterTrx_inj:
  assumes "coordinator_ok c" "coordinator_ok d" "comm_sz c = comm_sz d"
    and "fst (RegisterTrx c) = fst (RegisterTrx d)"
  shows "my_rank c = my_rank d \<and> next_trx_id c = next_trx_id d"
proof -
  have "(word_of_int (trx_seq c) :: u64) = word_of_int (trx_seq d)"
    using assms RegisterTrx_unmask by metis
  then have s: "trx_seq c = trx_seq d"
    using trx_seq_word assms(1,2) by (metis trx_seq_def wi_hom_syms(1) wi_hom_syms(3) word_of_int_uint)
  have "trx_seq c mod comm_sz c = my_rank c" "trx_seq d mod comm_sz d = my_rank d"
    using assms(1,2) by (auto simp: coordinator_ok_def trx_seq_def)
  then have r: "my_rank c = my_rank d" using s assms(3) by simp
  then have "uint (next_trx_id c) = uint (next_trx_id d)"
    using s assms by (auto simp: coordinator_ok_def trx_seq_def)
  with r show ?thesis by (simp add: word_uint_eq_iff)
qed

lemma GetTimestamp_uint:
  assumes "GetTimestamp r ns = Some t" "0 \<le> r" "r < 256"
  shows "uint t = uint ns * 256 + r" "uint ns < 2 ^ 55"
proof -
  have d: "drop_bit 55 ns = 0" and t: "t = push_bit 8 ns + word_of_int r"
    using assms(1) by (auto simp: GetTimestamp_def Let_def)
  have "uint (drop_bit 55 ns) = 0" using d by simp
  then have "uint ns div 2 ^ 55 = 0" by (simp add: drop_bit_eq_div uint_div)
  then show lt: "uint ns < 2 ^ 55"
    using uint_ge_0 [of ns] by (auto simp: zdiv_eq_0_iff simp del: uint_ge_0)
  have w: "t = word_of_int (uint ns * 256 + r)"
    by (simp add: t push_bit_eq_mult mult.commute)
  show "uint t = uint ns * 256 + r"
    unfolding w uint_word_of_int using lt assms(2,3) by simp
qed

lemma GetTimestamp_not_trx_id:
  assumes "GetTimestamp r ns = Some t" "0 \<le> r" "r < 256"
  shows "\<not> IS_VALID_TRX_ID t \<and> 0 < t"
proof -
  have "uint t < 2 ^ 63" using GetTimestamp_uint [OF assms] assms(2,3) by simp
  then show ?thesis using assms(1)
    by (auto simp: IS_VALID_TRX_ID_iff MAX_TIMESTAMP_def word_less_def GetTimestamp_def Let_def)
qed

lemma GetTimestamp_mono:
  assumes "GetTimestamp r ns = Some t" "GetTimestamp r' ns' = Some t'"
    "0 \<le> r" "r < 256" "0 \<le> r'" "r' < 256"
  shows "t < t' \<longleftrightarrow> ns < ns' \<or> ns = ns' \<and> r < r'"
proof -
  have "uint t = uint ns * 256 + r" "uint t' = uint ns' * 256 + r'"
    by (rule GetTimestamp_uint(1) [OF assms(1,3,4)], rule GetTimestamp_uint(1) [OF assms(2,5,6)])
  moreover have "uint ns * 256 + r < uint ns' * 256 + r' \<longleftrightarrow> uint ns < uint ns' \<or> uint ns = uint ns' \<and> r < r'"
    using assms(3-6) by (cases "uint ns" "uint ns'" rule: linorder_cases) linarith+
  ultimately show ?thesis by (simp add: word_less_def word_uint_eq_iff)
qed

lemma GetTimestamp_inj:
  assumes "GetTimestamp r ns = Some t" "GetTimestamp r' ns' = Some t"
    "0 \<le> r" "r < 256" "0 \<le> r'" "r' < 256"
  shows "r = r' \<and> ns = ns'"
proof -
  have "uint ns * 256 + r = uint ns' * 256 + r'"
    using GetTimestamp_uint(1) [OF assms(1,3,4)] GetTimestamp_uint(1) [OF assms(2,5,6)] by simp
  with assms(3-6) have "uint ns = uint ns' \<and> r = r'"
    by (cases "uint ns" "uint ns'" rule: linorder_cases) linarith+
  then show ?thesis by (simp add: word_uint_eq_iff)
qed

lemma GetTimestamp_total:
  assumes "uint ns < 2 ^ 55" "0 < ns" "0 \<le> r" "r < 256"
  shows "\<exists>t. GetTimestamp r ns = Some t"
proof -
  have d: "drop_bit 55 ns = 0"
    using word_less_exp_bit [OF assms(1)] by (intro bit_word_eqI) (auto simp: bit_simps)
  have w: "push_bit 8 ns + word_of_int r = word_of_int (uint ns * 256 + r)"
    by (simp add: push_bit_eq_mult mult.commute)
  have "uint (push_bit 8 ns + word_of_int r) = uint ns * 256 + r"
    unfolding w uint_word_of_int using assms by simp
  moreover have "0 < uint ns" using assms(2) by (simp add: word_less_def)
  ultimately have "0 < push_bit 8 ns + word_of_int r"
    using assms(3) unfolding word_less_def by simp
  with d show ?thesis by (simp add: GetTimestamp_def Let_def)
qed

text \<open>
  Calls of \<open>RegisterTrx\<close> on the workers of a cluster, in the order they happen: the ranks of the workers
  that call, and the coordinator of every worker.
\<close>

fun register_all :: "int list \<Rightarrow> (int \<Rightarrow> coordinator) \<Rightarrow> u64 list" where
  "register_all [] cs = []"
| "register_all (r # rs) cs = (let (trx_id, c) = RegisterTrx (cs r) in trx_id # register_all rs (cs(r := c)))"

definition issued_by :: "int \<Rightarrow> (int \<Rightarrow> coordinator) \<Rightarrow> int \<Rightarrow> u64 \<Rightarrow> bool" where
  "issued_by sz cs r x \<longleftrightarrow> (\<exists>c. coordinator_ok c \<and> my_rank c = r \<and> comm_sz c = sz \<and>
     uint (next_trx_id (cs r)) \<le> uint (next_trx_id c) \<and> x = fst (RegisterTrx c))"

lemma register_all_issued:
  assumes "0 < sz" "sz < 2 ^ 31" "N * sz \<le> 2 ^ 55"
  shows "\<forall>r. my_rank (cs r) = r \<and> comm_sz (cs r) = sz \<and> uint (next_trx_id (cs r)) + int (length rs) < N \<Longrightarrow>
    \<forall>r\<in>set rs. 0 \<le> r \<and> r < sz \<Longrightarrow>
    list_all2 (issued_by sz cs) rs (register_all rs cs) \<and> distinct (register_all rs cs)"
proof (induction rs arbitrary: cs)
  case (Cons r rs)
  let ?c = "cs r" and ?cs = "cs(r := snd (RegisterTrx (cs r)))"
  let ?n = "uint (next_trx_id ?c)"
  have N: "0 \<le> ?n" "?n + 1 < N" using Cons.prems(1) [rule_format, of r] by simp_all
  have "N * 1 \<le> N * sz" by (rule mult_left_mono) (use N assms(1) in linarith)+
  moreover have "(2 :: int) ^ 55 < 2 ^ 64" by simp
  ultimately have n: "?n + 1 < 2 ^ 64" using N assms(3) by linarith
  then have s: "uint (next_trx_id ?c + 1) = ?n + 1" by (simp add: uint_word_ariths)
  have "?n * sz + r < N * sz"
  proof -
    have "(?n + 1) * sz \<le> N * sz" using Cons.prems(1) [rule_format, of r] assms(1) by (intro mult_right_mono) auto
    then show ?thesis using Cons.prems(2) by (simp add: distrib_right)
  qed
  then have c: "coordinator_ok ?c"
    using Cons.prems assms(2,3) by (simp add: coordinator_ok_def trx_seq_def)
  have IH: "list_all2 (issued_by sz ?cs) rs (register_all rs ?cs) \<and> distinct (register_all rs ?cs)"
  proof (rule Cons.IH, intro allI)
    fix q
    show "my_rank (?cs q) = q \<and> comm_sz (?cs q) = sz \<and> uint (next_trx_id (?cs q)) + int (length rs) < N"
      using Cons.prems(1) [rule_format, of q] s by (cases "q = r") (simp_all add: RegisterTrx_def)
  qed (use Cons.prems(2) in simp)
  have "issued_by sz cs r' x" if "issued_by sz ?cs r' x" for r' x
    using that s by (auto simp: issued_by_def RegisterTrx_def split: if_splits)
  then have "list_all2 (issued_by sz cs) rs (register_all rs ?cs)" using IH by (auto elim: list_all2_mono)
  moreover have "fst (RegisterTrx ?c) \<noteq> x" if x: "issued_by sz ?cs r' x" for r' x
  proof
    assume e: "fst (RegisterTrx ?c) = x"
    obtain d where d: "coordinator_ok d" "my_rank d = r'" "comm_sz d = sz" "uint (next_trx_id (?cs r')) \<le> uint (next_trx_id d)"
      "x = fst (RegisterTrx d)" using x by (auto simp: issued_by_def)
    have "my_rank ?c = my_rank d \<and> next_trx_id ?c = next_trx_id d"
      by (rule RegisterTrx_inj [OF c d(1)]) (use e d Cons.prems in auto)
    then show False using d s Cons.prems by (auto simp: RegisterTrx_def)
  qed
  moreover have "issued_by sz cs r (fst (RegisterTrx ?c))" using c Cons.prems by (auto simp: issued_by_def)
  moreover from calculation(2) have "fst (RegisterTrx ?c) \<notin> set (register_all rs ?cs)"
    using IH by (metis in_set_conv_nth list_all2_nthD2)
  ultimately show ?case using IH by (simp add: split_beta)
qed simp

text \<open>
  C24. Over any sequence of \<open>RegisterTrx\<close> calls on the workers of a cluster, from their start and in any order, all ids
  issued are different. Each is valid, leaves its low 8 bits free for the query number, and every worker reads
  from it the rank of the worker that issued it. This holds while the sequence numbers fit the 55 bits of an
  id that are left for them.
\<close>

theorem trx_ids_unique_and_owned:
  assumes "0 < sz" "sz < 2 ^ 31" "\<forall>r\<in>set rs. 0 \<le> r \<and> r < sz" "(int (length rs) + 2) * sz \<le> 2 ^ 55"
  shows "distinct (register_all rs (Coordinator_Init sz)) \<and>
    list_all2 (\<lambda>r trx_id. IS_VALID_TRX_ID trx_id \<and> trx_id AND 0xFF = 0 \<and>
        (\<forall>r'. GetWorkerFromTrxID (Coordinator_Init sz r') trx_id = Some r))
      rs (register_all rs (Coordinator_Init sz))"
proof -
  let ?cs = "Coordinator_Init sz"
  have R: "list_all2 (issued_by sz ?cs) rs (register_all rs ?cs)" "distinct (register_all rs ?cs)"
    using register_all_issued [OF assms(1,2,4), of ?cs rs] assms(3) by (simp_all add: Coordinator_Init_def)
  have "IS_VALID_TRX_ID x \<and> x AND 0xFF = 0 \<and> (\<forall>r'. GetWorkerFromTrxID (?cs r') x = Some r)" if i: "issued_by sz ?cs r x" for r x
  proof -
    obtain c where c: "coordinator_ok c" "my_rank c = r" "comm_sz c = sz" "x = fst (RegisterTrx c)"
      using i by (auto simp: issued_by_def)
    have "GetWorkerFromTrxID (?cs r') x = GetWorkerFromTrxID c x" for r'
      using c(3) by (simp add: GetWorkerFromTrxID_def Coordinator_Init_def)
    then show ?thesis using RegisterTrx_valid [of c] RegisterTrx_qid_room [of c] RegisterTrx_owner [OF c(1)] c by simp
  qed
  then show ?thesis using R by (auto elim: list_all2_mono)
qed

theorem trx_ids_unique_and_owned_witness:
  "distinct (register_all [1, 0, 1, 1, 2] (Coordinator_Init 3)) \<and>
   GetWorkerFromTrxID (Coordinator_Init 3 2) (register_all [1, 0, 1, 1, 2] (Coordinator_Init 3) ! 3) = Some 1"
proof -
  note W = trx_ids_unique_and_owned [of 3 "[1, 0, 1, 1, 2]", simplified]
  show ?thesis using W list_all2_nthD2 [OF conjunct2 [OF W], of 3] by (auto simp: split_beta)
qed

text \<open>
  Timestamps taken on any two workers are ordered by their clock readings and, for equal
  readings, by rank; none is zero, none can be mistaken for a transaction id, and while the clock
  reading fits 55 bits the call succeeds.
\<close>

lemma timestamps_ordered:
  assumes "uint ns < 2 ^ 55" "uint ns' < 2 ^ 55" "0 < ns" "0 < ns'"
    "0 \<le> r" "r < 256" "0 \<le> r'" "r' < 256"
  shows "\<exists>t t'. GetTimestamp r ns = Some t \<and> GetTimestamp r' ns' = Some t' \<and>
    0 < t \<and> \<not> IS_VALID_TRX_ID t \<and>
    (t < t' \<longleftrightarrow> ns < ns' \<or> ns = ns' \<and> r < r') \<and> (t = t' \<longleftrightarrow> ns = ns' \<and> r = r')"
proof -
  obtain t where t: "GetTimestamp r ns = Some t"
    using GetTimestamp_total assms by blast
  obtain t' where t': "GetTimestamp r' ns' = Some t'"
    using GetTimestamp_total assms by blast
  have "0 < t \<and> \<not> IS_VALID_TRX_ID t"
    using GetTimestamp_not_trx_id [OF t] assms by simp
  moreover have "t < t' \<longleftrightarrow> ns < ns' \<or> ns = ns' \<and> r < r'"
    by (rule GetTimestamp_mono [OF t t' assms(5-8)])
  moreover have "t = t' \<longleftrightarrow> ns = ns' \<and> r = r'"
    using GetTimestamp_inj [of r ns t r' ns'] t t' assms(5-8) by auto
  ultimately show ?thesis using t t' by blast
qed

lemma timestamps_ordered_example:
  "\<exists>t t'. GetTimestamp 3 1000 = Some t \<and> GetTimestamp 1 1001 = Some t' \<and> t < t'"
  using timestamps_ordered [of 1000 1001 3 1] by auto

end
