(* ===== verification/Offset_Chain.thy ===== *)
theory Offset_Chain
  imports GT_Prelude
begin

text \<open>
  Chains through a next-offset array. \<open>ConcurrentMemPool\<close> and \<open>MVCCValueStore\<close> keep their free cells
  (and the value store also the cells of one value) as singly linked lists threaded through the
  array \<open>next_offset_\<close>. \<open>chain nx h xs t\<close> says that following \<open>nx\<close> from \<open>h\<close> visits exactly the cells
  \<open>xs\<close> and that the last of them is \<open>t\<close>; the value of \<open>nx t\<close> does not matter.
\<close>

fun chain :: "(nat \<Rightarrow> nat) \<Rightarrow> nat \<Rightarrow> nat list \<Rightarrow> nat \<Rightarrow> bool" where
  "chain nx h [] t = False"
| "chain nx h [x] t = (h = x \<and> t = x)"
| "chain nx h (x # y # ys) t = (h = x \<and> chain nx (nx x) (y # ys) t)"

text \<open>The loop \<open>for (i = 0; i < n; i++) p = next_offset_[p];\<close>\<close>

primrec walk :: "(nat \<Rightarrow> nat) \<Rightarrow> nat \<Rightarrow> nat \<Rightarrow> nat" where
  "walk nx 0 p = p"
| "walk nx (Suc n) p = walk nx n (nx p)"

section \<open>Reading a chain\<close>

lemma chain_head: "chain nx h xs t \<Longrightarrow> h = hd xs"
  by (induction nx h xs t rule: chain.induct) auto

lemma chain_tail: "chain nx h xs t \<Longrightarrow> t = last xs"
  by (induction nx h xs t rule: chain.induct) auto

lemma chain_not_Nil: "chain nx h xs t \<Longrightarrow> xs \<noteq> []"
  by auto

lemma chain_head_in: "chain nx h xs t \<Longrightarrow> h \<in> set xs"
  by (metis chain_head chain_not_Nil hd_in_set)

lemma chain_tail_in: "chain nx h xs t \<Longrightarrow> t \<in> set xs"
  by (metis chain_tail chain_not_Nil last_in_set)

lemma chain_walk: "chain nx h xs t \<Longrightarrow> n < length xs \<Longrightarrow> walk nx n h = xs ! n"
proof (induction nx h xs t arbitrary: n rule: chain.induct)
  case (3 nx h x y ys t)
  then show ?case by (cases n) auto
qed auto

lemma chain_next: "chain nx h xs t \<Longrightarrow> Suc i < length xs \<Longrightarrow> nx (xs ! i) = xs ! Suc i"
proof (induction nx h xs t arbitrary: i rule: chain.induct)
  case (3 nx h x y ys t)
  then show ?case using chain_head [of nx "nx x" "y # ys" t] by (cases i) auto
qed auto

lemma chain_next_iff_last:
  assumes "chain nx h xs t" "distinct xs" "2 \<le> length xs"
  shows "nx h = t \<longleftrightarrow> length xs = 2"
proof -
  from assms(1,3) obtain x y ys where xs: "xs = x # y # ys"
    by (cases xs rule: remdups_adj.cases) auto
  with assms(1) have "nx h = y" "t = last (y # ys)"
    using chain_head [of nx "nx x" "y # ys" t] chain_tail [of nx "nx x" "y # ys" t] by auto
  then show ?thesis using assms(2) xs last_in_set [of ys] by (cases ys) auto
qed

section \<open>Cutting and joining chains\<close>

lemma chain_take [chain_intros]:
  "chain nx h xs t \<Longrightarrow> 0 < n \<Longrightarrow> n \<le> length xs \<Longrightarrow> chain nx h (take n xs) (xs ! (n - 1))"
proof (induction nx h xs t arbitrary: n rule: chain.induct)
  case (3 nx h x y ys t)
  show ?case
  proof (cases "n = 1")
    case True
    then show ?thesis using 3 by simp
  next
    case False
    then obtain k where k: "n = Suc (Suc k)"
      using 3(3) by (metis One_nat_def gr0_implies_Suc not0_implies_Suc)
    then show ?thesis using 3(1) [of "Suc k"] 3(2,4) by simp
  qed
qed auto

lemma chain_drop [chain_intros]:
  "chain nx h xs t \<Longrightarrow> n < length xs \<Longrightarrow> chain nx (walk nx n h) (drop n xs) t"
proof (induction nx h xs t arbitrary: n rule: chain.induct)
  case (3 nx h x y ys t)
  then show ?case by (cases n) auto
qed auto

lemma chain_append [chain_intros]:
  "chain nx h xs t \<Longrightarrow> chain nx (nx t) ys t' \<Longrightarrow> chain nx h (xs @ ys) t'"
proof (induction nx h xs t rule: chain.induct)
  case (2 nx h x t)
  then show ?case by (cases ys) auto
qed auto

lemma chain_upd [simp]:
  "c \<notin> set (butlast xs) \<Longrightarrow> chain (nx(c := v)) h xs t = chain nx h xs t"
  by (induction nx h xs t rule: chain.induct) auto

lemma chain_cong_next:
  "\<forall>x\<in>set (butlast xs). nx' x = nx x \<Longrightarrow> chain nx' h xs t = chain nx h xs t"
  by (induction nx h xs t rule: chain.induct) auto

lemma last_notin_butlast: "distinct xs \<Longrightarrow> last xs \<notin> set (butlast xs)"
  by (induction xs) auto

lemma chain_upd_tail [simp]:
  "chain nx h xs t \<Longrightarrow> distinct xs \<Longrightarrow> chain (nx(t := v)) h xs t"
  using chain_tail [of nx h xs t] by (simp add: last_notin_butlast)

text \<open>Linking the tail of one chain to the head of another.\<close>

lemma chain_link [chain_intros]:
  assumes "chain nx h xs t" "chain nx h' ys t'" "distinct (xs @ ys)"
  shows "chain (nx(t := h')) h (xs @ ys) t'"
proof -
  have "t \<in> set xs" using chain_tail_in assms(1) .
  then have "t \<notin> set (butlast ys)" using assms(3) by (auto dest: in_set_butlastD)
  then show ?thesis using assms by (intro chain_append [where t = t]) auto
qed

section \<open>Free cells as a multiset\<close>

lemma mset_concat_update:
  "i < length bl \<Longrightarrow> mset (concat (bl[i := xs])) + mset (bl ! i) = mset (concat bl) + mset xs"
proof (induction bl arbitrary: i)
  case (Cons b bl)
  then show ?case by (cases i) (simp_all add: ac_simps)
qed simp

lemma set_nth_concat: "i < length bl \<Longrightarrow> set (bl ! i) \<subseteq> set (concat bl)"
  by (simp, rule subsetI, rule UN_I [of "bl ! i"]) simp_all

lemma distinct_concat_nth:
  assumes "distinct (concat bl)" "i < j" "j < length bl"
  shows "set (bl ! i) \<inter> set (bl ! j) = {}"
proof -
  have "bl = take i bl @ bl ! i # drop (Suc i) bl"
    using assms by (simp add: id_take_nth_drop)
  then have "distinct (concat (take i bl @ bl ! i # drop (Suc i) bl))"
    using assms(1) by simp
  then have "set (bl ! i) \<inter> (\<Union>b\<in>set (drop (Suc i) bl). set b) = {}"
    by simp
  moreover have "bl ! j \<in> set (drop (Suc i) bl)"
    using assms(2,3) nth_mem [of "j - Suc i" "drop (Suc i) bl"] by simp
  ultimately show ?thesis by blast
qed

lemma distinct_concat_nth_neq:
  "distinct (concat bl) \<Longrightarrow> i < length bl \<Longrightarrow> j < length bl \<Longrightarrow> i \<noteq> j \<Longrightarrow> set (bl ! i) \<inter> set (bl ! j) = {}"
  using distinct_concat_nth [of bl i j] distinct_concat_nth [of bl j i]
  by (cases i j rule: linorder_cases) (simp_all add: Int_commute)

end
