(* ===== verification/Mem_Pool.thy ===== *)
theory Mem_Pool
  imports Offset_Chain
begin

text \<open>
  \<open>ConcurrentMemPool\<close> (src/layout/concurrent_mem_pool.hpp and .tpp). Cells are numbered
  \<open>0 ..< cell_count\<close>; a cell pointer \<open>attached_mem_ + off\<close> is the offset \<open>off\<close>. Offsets are \<open>nat\<close>:
  \<open>Init\<close> asserts that \<open>cell_count\<close> fits \<open>OffsetT\<close>, and the representation invariant below keeps every
  offset below it. The utilisation counters are 32-bit words, since nothing bounds them.

  The template parameter \<open>BLOCK_SIZE\<close> is a field. \<open>Get\<close> and \<open>Free\<close> of one thread touch the shared
  list only inside \<open>lock_\<close>, and otherwise only the thread's own block, so that an execution is a
  sequence of whole calls.
\<close>

section \<open>State\<close>

record thread_block =
  block_head :: nat
  block_tail :: nat
  free_cell_count :: nat
  get_counter :: u32
  free_counter :: u32

record mem_pool =
  next_offset :: "nat \<Rightarrow> nat"
  cell_count :: nat
  nthreads :: nat
  utilization_record :: bool
  shared_head :: nat
  shared_tail :: nat
  thread_local_block :: "thread_block list"
  BLOCK_SIZE :: nat

section \<open>Operations\<close>

fun init_blocks :: "nat \<Rightarrow> nat \<Rightarrow> nat \<Rightarrow> thread_block list \<times> nat" where
  "init_blocks B 0 h = ([], h)"
| "init_blocks B (Suc n) h =
     (let b = \<lparr>block_head = h, block_tail = h + B - 1, free_cell_count = B, get_counter = 0, free_counter = 0\<rparr>;
          (bs, h') = init_blocks B n (h + B)
      in (b # bs, h'))"

definition MemPool_Init :: "nat \<Rightarrow> nat \<Rightarrow> nat \<Rightarrow> bool \<Rightarrow> mem_pool option" where
  "MemPool_Init B cells threads rec =
     do { CHECK (threads * (B + 2) < cells);
          CHECK (unat (word_of_nat cells :: u32) = cells);
          let (bs, h) = init_blocks B threads 0;
          Some \<lparr>next_offset = Suc, cell_count = cells, nthreads = threads, utilization_record = rec,
                shared_head = h, shared_tail = cells - 1, thread_local_block = bs, BLOCK_SIZE = B\<rparr> }"

text \<open>
  The loop that walks \<open>BLOCK_SIZE\<close> cells down the shared list: it remembers the last cell taken as
  the new block tail and asserts before each step is complete that the shared list is not used up.
  The counter is the number of iterations left.
\<close>

fun fetch_loop :: "(nat \<Rightarrow> nat) \<Rightarrow> nat \<Rightarrow> nat \<Rightarrow> nat \<Rightarrow> nat \<Rightarrow> (nat \<times> nat) option" where
  "fetch_loop nx stl 0 tmp_head bt = Some (tmp_head, bt)"
| "fetch_loop nx stl (Suc k) tmp_head bt =
     (let bt' = (if k = 0 then tmp_head else bt);
          tmp_head' = nx tmp_head
      in if tmp_head' \<noteq> stl then fetch_loop nx stl k tmp_head' bt' else None)"

definition fetch_block :: "'a mem_pool_scheme \<Rightarrow> thread_block \<Rightarrow> ('a mem_pool_scheme \<times> thread_block) option" where
  "fetch_block p lb =
     (let nx = (next_offset p)(block_tail lb := shared_head p)
      in case fetch_loop nx (shared_tail p) (BLOCK_SIZE p) (shared_head p) (block_tail lb) of
           None \<Rightarrow> None
         | Some (h, bt) \<Rightarrow>
             Some (p\<lparr>next_offset := nx, shared_head := h\<rparr>,
                   lb\<lparr>block_tail := bt, free_cell_count := free_cell_count lb + BLOCK_SIZE p\<rparr>))"

definition pop_cell :: "'a mem_pool_scheme \<Rightarrow> thread_block \<Rightarrow> nat \<Rightarrow> nat \<times> 'a mem_pool_scheme" where
  "pop_cell p lb tid =
     (let ret = block_head lb;
          lb1 = lb\<lparr>block_head := next_offset p (block_head lb), free_cell_count := free_cell_count lb - 1\<rparr>;
          lb2 = (if utilization_record p then lb1\<lparr>get_counter := get_counter lb1 + 1\<rparr> else lb1)
      in (ret, p\<lparr>thread_local_block := (thread_local_block p)[tid := lb2]\<rparr>))"

definition MemPool_Get :: "'a mem_pool_scheme \<Rightarrow> nat \<Rightarrow> (nat \<times> 'a mem_pool_scheme) option" where
  "MemPool_Get p tid =
     (let lb = thread_local_block p ! tid
      in if next_offset p (block_head lb) = block_tail lb
         then (case fetch_block p lb of
                 None \<Rightarrow> None
               | Some (p', lb') \<Rightarrow> Some (pop_cell p' lb' tid))
         else Some (pop_cell p lb tid))"

text \<open>
  Moving \<open>n\<close> cells from the head of the thread-local block to the tail of the shared list.
\<close>

definition give_back :: "nat \<Rightarrow> 'a mem_pool_scheme \<Rightarrow> thread_block \<Rightarrow> 'a mem_pool_scheme \<times> thread_block" where
  "give_back n p lb =
     (let tmp_head = block_head lb;
          tmp_tail = walk (next_offset p) (n - 1) tmp_head
      in (p\<lparr>next_offset := (next_offset p)(shared_tail p := tmp_head), shared_tail := tmp_tail\<rparr>,
          lb\<lparr>block_head := next_offset p tmp_tail, free_cell_count := free_cell_count lb - n\<rparr>))"

definition MemPool_Free :: "'a mem_pool_scheme \<Rightarrow> nat \<Rightarrow> nat \<Rightarrow> 'a mem_pool_scheme" where
  "MemPool_Free p0 mem_off tid =
     (let lb0 = thread_local_block p0 ! tid;
          p1 = p0\<lparr>next_offset := (next_offset p0)(block_tail lb0 := mem_off)\<rparr>;
          lb1 = lb0\<lparr>block_tail := mem_off, free_cell_count := free_cell_count lb0 + 1\<rparr>;
          (p2, lb2) = (if free_cell_count lb1 = 2 * BLOCK_SIZE p1
                       then give_back (BLOCK_SIZE p1) p1 lb1 else (p1, lb1));
          lb3 = (if utilization_record p2 then lb2\<lparr>free_counter := free_counter lb2 + 1\<rparr> else lb2)
      in p2\<lparr>thread_local_block := (thread_local_block p2)[tid := lb3]\<rparr>)"

definition MemPool_GetUsage :: "'a mem_pool_scheme \<Rightarrow> u32 \<times> u32" where
  "MemPool_GetUsage p =
     (fold (\<lambda>b s. s + get_counter b) (take (nthreads p) (thread_local_block p)) 0,
      fold (\<lambda>b s. s + free_counter b) (take (nthreads p) (thread_local_block p)) 0)"

section \<open>Representation\<close>

text \<open>
  \<open>pool_rep p bl sh\<close>: the free cells of thread \<open>i\<close> are the chain \<open>bl ! i\<close>, those of the shared list
  the chain \<open>sh\<close>; all of them are different and in range. A block never has fewer than two cells,
  which is what keeps \<open>block_head\<close> and \<open>block_tail\<close> apart.
\<close>

definition block_rep :: "(nat \<Rightarrow> nat) \<Rightarrow> thread_block \<Rightarrow> nat list \<Rightarrow> bool" where
  "block_rep nx b xs \<longleftrightarrow>
     chain nx (block_head b) xs (block_tail b) \<and> free_cell_count b = length xs \<and> 2 \<le> length xs"

definition pool_rep :: "'a mem_pool_scheme \<Rightarrow> nat list list \<Rightarrow> nat list \<Rightarrow> bool" where
  "pool_rep p bl sh \<longleftrightarrow>
     2 \<le> BLOCK_SIZE p \<and> nthreads p = length bl \<and> length (thread_local_block p) = length bl \<and>
     (\<forall>i<length bl. block_rep (next_offset p) (thread_local_block p ! i) (bl ! i)) \<and>
     chain (next_offset p) (shared_head p) sh (shared_tail p) \<and> 2 \<le> length sh \<and>
     distinct (concat bl @ sh) \<and> set (concat bl @ sh) \<subseteq> {..<cell_count p}"

definition free_set :: "nat list list \<Rightarrow> nat list \<Rightarrow> nat set" where
  "free_set bl sh = set (concat bl) \<union> set sh"

text \<open>
  Between calls no block has \<open>2 * BLOCK_SIZE\<close> cells. \<open>pool_used p U\<close>: the cells handed out and not yet
  returned are exactly \<open>U\<close>.
\<close>

definition bounded_blocks :: "nat \<Rightarrow> nat list list \<Rightarrow> bool" where
  "bounded_blocks B bl \<longleftrightarrow> (\<forall>b\<in>set bl. length b < 2 * B)"

definition pool_used :: "'a mem_pool_scheme \<Rightarrow> nat set \<Rightarrow> bool" where
  "pool_used p U \<longleftrightarrow>
     (\<exists>bl sh. pool_rep p bl sh \<and> bounded_blocks (BLOCK_SIZE p) bl \<and> U = {..<cell_count p} - free_set bl sh)"

section \<open>The allocator interface\<close>

text \<open>
  What the clients of a pool rely on. \<open>used p U\<close> is the abstraction: the client owns exactly the cells
  \<open>U\<close>. \<open>alloc_run\<close> is an execution of any interleaving of the threads' calls in which the client
  frees only cells it owns.
\<close>

inductive alloc_run :: "('p \<Rightarrow> nat \<Rightarrow> (nat \<times> 'p) option) \<Rightarrow> ('p \<Rightarrow> nat \<Rightarrow> nat \<Rightarrow> 'p) \<Rightarrow> ('p \<Rightarrow> nat) \<Rightarrow>
    'p \<times> nat set \<Rightarrow> 'p \<times> nat set \<Rightarrow> bool" for get free threads where
  run_refl: "alloc_run get free threads s s"
| run_get: "alloc_run get free threads s (p, U) \<Longrightarrow> tid < threads p \<Longrightarrow> get p tid = Some (c, p') \<Longrightarrow>
    alloc_run get free threads s (p', insert c U)"
| run_free: "alloc_run get free threads s (p, U) \<Longrightarrow> tid < threads p \<Longrightarrow> c \<in> U \<Longrightarrow>
    alloc_run get free threads s (free p c tid, U - {c})"

locale cell_allocator =
  fixes get :: "'p \<Rightarrow> nat \<Rightarrow> (nat \<times> 'p) option"
    and free :: "'p \<Rightarrow> nat \<Rightarrow> nat \<Rightarrow> 'p"
    and used :: "'p \<Rightarrow> nat set \<Rightarrow> bool"
    and threads :: "'p \<Rightarrow> nat"
    and capacity :: "'p \<Rightarrow> nat"
  assumes get_fresh: "used p U \<Longrightarrow> tid < threads p \<Longrightarrow> get p tid = Some (c, p') \<Longrightarrow>
      c \<notin> U \<and> c < capacity p \<and> used p' (insert c U) \<and> threads p' = threads p \<and> capacity p' = capacity p"
    and free_used: "used p U \<Longrightarrow> tid < threads p \<Longrightarrow> c \<in> U \<Longrightarrow>
      used (free p c tid) (U - {c}) \<and> threads (free p c tid) = threads p \<and> capacity (free p c tid) = capacity p"
begin

lemma run_keeps_used:
  assumes "alloc_run get free threads (p0, U0) (p, U)" "used p0 U0"
  shows "used p U \<and> threads p = threads p0 \<and> capacity p = capacity p0"
  using assms
proof (induction "(p0, U0)" "(p, U)" arbitrary: p U rule: alloc_run.induct)
  case (run_get p U tid c p')
  then show ?case using get_fresh by metis
next
  case (run_free p U tid c)
  then show ?case using free_used by metis
qed simp

lemma run_get_fresh:
  assumes "alloc_run get free threads (p0, U0) (p, U)" "used p0 U0" "tid < threads p0" "get p tid = Some (c, p')"
  shows "c \<notin> U \<and> c < capacity p0 \<and> used p' (insert c U)"
  using run_keeps_used [OF assms(1,2)] get_fresh [of p U tid c p'] assms(3,4) by auto

text \<open>A cell that was freed can be handed out again, but a cell never has two owners.\<close>

lemma get_twice_distinct:
  assumes "used p U" "tid < threads p" "tid' < threads p" "get p tid = Some (c, p')" "get p' tid' = Some (c', p'')"
  shows "c \<noteq> c' \<and> used p'' (insert c' (insert c U))"
  using get_fresh [OF assms(1,2,4)] get_fresh [of p' "insert c U" tid' c' p''] assms(3,5) by auto

end

section \<open>Steps on the representation\<close>

lemma distinct_sub_mset: "mset xs \<subseteq># mset ys \<Longrightarrow> distinct ys \<Longrightarrow> distinct xs"
proof -
  assume s: "mset xs \<subseteq># mset ys" and d: "distinct ys"
  obtain zs where "mset ys = mset xs + mset zs"
    using s by (metis ex_mset subset_mset.add_diff_inverse)
  then have "mset ys = mset (xs @ zs)" by simp
  with d have "distinct (xs @ zs)" by (metis mset_eq_imp_distinct_iff)
  then show "distinct xs" by simp
qed

lemma mset_take_drop: "mset (drop n xs) \<subseteq># mset xs"
  by (metis append_take_drop_id mset_append mset_subset_eq_add_right)

lemma free_mset_update:
  assumes "i < length bl"
  shows "mset (concat (bl[i := xs]) @ sh') + mset (bl ! i @ sh) = mset (concat bl @ sh) + mset (xs @ sh')"
  using mset_concat_update [OF assms, of xs] by (simp add: ac_simps)

text \<open>
  One step of a thread: it replaces its own block and the shared list, keeps the links of the other
  blocks, and neither invents nor duplicates cells.
\<close>

lemma pool_rep_step:
  assumes rep: "pool_rep p bl sh" and i: "i < length bl"
    and same: "BLOCK_SIZE p' = BLOCK_SIZE p" "nthreads p' = nthreads p" "cell_count p' = cell_count p"
    and tlb: "thread_local_block p' = (thread_local_block p)[i := lb']"
    and own: "block_rep (next_offset p') lb' xs'"
    and shared: "chain (next_offset p') (shared_head p') sh' (shared_tail p')" "2 \<le> length sh'"
    and frame: "\<And>x. x \<notin> set (bl ! i) \<Longrightarrow> x \<notin> set sh \<Longrightarrow> next_offset p' x = next_offset p x"
    and cells: "mset (xs' @ sh') \<subseteq># mset (bl ! i @ sh) + mset new"
    and new: "distinct new" "set new \<inter> free_set bl sh = {}" "set new \<subseteq> {..<cell_count p}"
  shows "pool_rep p' (bl[i := xs']) sh'"
proof -
  have "mset (concat (bl[i := xs']) @ sh') + mset (bl ! i @ sh) = mset (concat bl @ sh) + mset (xs' @ sh')"
    by (rule free_mset_update [OF i])
  also have "\<dots> \<subseteq># mset (concat bl @ sh) + (mset (bl ! i @ sh) + mset new)"
    using cells by (rule subset_mset.add_left_mono)
  also have "\<dots> = mset (concat bl @ sh @ new) + mset (bl ! i @ sh)" by (simp add: ac_simps)
  finally have sub: "mset (concat (bl[i := xs']) @ sh') \<subseteq># mset (concat bl @ sh @ new)"
    by (simp only: subset_mset.add_le_cancel_right)
  have "distinct (concat bl @ sh @ new)"
    using rep new by (auto simp: pool_rep_def free_set_def)
  from distinct_sub_mset [OF sub this] have d: "distinct (concat (bl[i := xs']) @ sh')" .
  have "set (concat (bl[i := xs']) @ sh') \<subseteq> set (concat bl @ sh @ new)"
    using set_mset_mono [OF sub] by (simp only: set_mset_mset)
  also have "\<dots> \<subseteq> {..<cell_count p}" using rep new by (auto simp: pool_rep_def)
  finally have r: "set (concat (bl[i := xs']) @ sh') \<subseteq> {..<cell_count p'}" by (simp add: same)
  have "block_rep (next_offset p') (thread_local_block p' ! j) (bl[i := xs'] ! j)" if j: "j < length bl" for j
  proof (cases "j = i")
    case True
    then show ?thesis using own tlb i rep by (simp add: pool_rep_def)
  next
    case False
    have "set (bl ! i) \<inter> set (bl ! j) = {}" "set (bl ! j) \<inter> set sh = {}"
      using rep distinct_concat_nth_neq [of bl i j] i j False set_nth_concat [OF j]
      by (auto simp: pool_rep_def)
    then have "chain (next_offset p') h (bl ! j) t = chain (next_offset p) h (bl ! j) t" for h t
      by (intro chain_cong_next ballI frame) (auto dest: in_set_butlastD)
    then show ?thesis using rep j False by (simp add: pool_rep_def block_rep_def tlb)
  qed
  then show ?thesis using rep same shared d r by (simp add: pool_rep_def tlb)
qed

lemma fetch_loop_chain:
  "chain nx h xs t \<Longrightarrow> distinct xs \<Longrightarrow> 2 \<le> length xs \<Longrightarrow>
   fetch_loop nx t k h bt =
     (if k + 1 < length xs then Some (xs ! k, if k = 0 then bt else xs ! (k - 1)) else None)"
proof (induction k arbitrary: h xs bt)
  case 0
  then show ?case using chain_head [of nx h xs t] by (cases xs) auto
next
  case (Suc k)
  from Suc.prems obtain x y ys where xs: "xs = x # y # ys"
    by (cases xs rule: remdups_adj.cases) auto
  then have c: "chain nx y (y # ys) t" "nx h = y" "h = x"
    using Suc.prems chain_head [of nx "nx x" "y # ys" t] by auto
  show ?case
  proof (cases ys)
    case Nil
    then show ?thesis using c xs by simp
  next
    case (Cons z zs)
    moreover have "t \<in> set ys" using c(1) chain_tail_in [of nx "nx y" "z # zs" t] Cons by auto
    ultimately show ?thesis
      using c xs Suc.prems Suc.IH [OF c(1), of "if k = 0 then h else bt"] by (auto simp: Let_def)
  qed
qed

lemma block_rep_counters [simp]:
  "block_rep nx (b\<lparr>get_counter := g\<rparr>) xs = block_rep nx b xs"
  "block_rep nx (b\<lparr>free_counter := f\<rparr>) xs = block_rep nx b xs"
  by (simp_all add: block_rep_def)

lemma pool_rep_block:
  assumes "pool_rep p bl sh" "i < length bl"
  shows "chain (next_offset p) (block_head (thread_local_block p ! i)) (bl ! i) (block_tail (thread_local_block p ! i))"
    "free_cell_count (thread_local_block p ! i) = length (bl ! i)" "2 \<le> length (bl ! i)"
    "block_tail (thread_local_block p ! i) \<in> set (bl ! i)"
    "distinct (bl ! i @ sh)" "set (bl ! i) \<subseteq> free_set bl sh" "i < length (thread_local_block p)"
proof -
  show c: "chain (next_offset p) (block_head (thread_local_block p ! i)) (bl ! i) (block_tail (thread_local_block p ! i))"
    "free_cell_count (thread_local_block p ! i) = length (bl ! i)" "2 \<le> length (bl ! i)"
    using assms by (simp_all add: pool_rep_def block_rep_def)
  show "block_tail (thread_local_block p ! i) \<in> set (bl ! i)" using c(1) by (rule chain_tail_in)
  show "distinct (bl ! i @ sh)" "set (bl ! i) \<subseteq> free_set bl sh" "i < length (thread_local_block p)"
    using assms set_nth_concat [OF assms(2)] by (auto simp: pool_rep_def distinct_concat_iff free_set_def)
qed

lemma pool_rep_shared:
  assumes "pool_rep p bl sh"
  shows "chain (next_offset p) (shared_head p) sh (shared_tail p)" "2 \<le> length sh" "2 \<le> BLOCK_SIZE p"
    "shared_tail p \<in> set sh" "distinct sh" "set sh \<subseteq> free_set bl sh"
  using assms chain_tail_in by (auto simp: pool_rep_def free_set_def)

definition fetched_pool :: "'a mem_pool_scheme \<Rightarrow> thread_block \<Rightarrow> nat list \<Rightarrow> 'a mem_pool_scheme" where
  "fetched_pool p lb sh = p\<lparr>next_offset := (next_offset p)(block_tail lb := shared_head p), shared_head := sh ! BLOCK_SIZE p\<rparr>"

definition fetched_block :: "'a mem_pool_scheme \<Rightarrow> thread_block \<Rightarrow> nat list \<Rightarrow> thread_block" where
  "fetched_block p lb sh = lb\<lparr>block_tail := sh ! (BLOCK_SIZE p - 1), free_cell_count := free_cell_count lb + BLOCK_SIZE p\<rparr>"

lemma shared_chain_unlinked:
  assumes "pool_rep p bl sh" "i < length bl"
  shows "chain ((next_offset p)(block_tail (thread_local_block p ! i) := v)) (shared_head p) sh (shared_tail p)"
  using pool_rep_shared [OF assms(1)] pool_rep_block [OF assms] by (subst chain_upd) (auto dest: in_set_butlastD)

lemma fetch_block_eq_tail:
  assumes rep: "pool_rep p bl sh" and i: "i < length bl"
    and lb: "block_tail lb = block_tail (thread_local_block p ! i)"
  shows "fetch_block p lb =
    (if BLOCK_SIZE p + 2 \<le> length sh then Some (fetched_pool p lb sh, fetched_block p lb sh) else None)"
  using fetch_loop_chain [OF shared_chain_unlinked [OF rep i], of "shared_head p" "BLOCK_SIZE p" "block_tail lb"]
    pool_rep_shared [OF rep]
  by (auto simp: fetch_block_def fetched_pool_def fetched_block_def lb)

lemma fetch_block_eq:
  assumes "pool_rep p bl sh" "i < length bl" "lb = thread_local_block p ! i"
  shows "fetch_block p lb =
    (if BLOCK_SIZE p + 2 \<le> length sh then Some (fetched_pool p lb sh, fetched_block p lb sh) else None)"
  using fetch_block_eq_tail [OF assms(1,2)] assms(3) by simp

lemma fetched_rep:
  assumes rep: "pool_rep p bl sh" and i: "i < length bl" and lb: "lb = thread_local_block p ! i"
    and l: "BLOCK_SIZE p + 2 \<le> length sh"
  shows "pool_rep ((fetched_pool p lb sh)\<lparr>thread_local_block := (thread_local_block p)[i := fetched_block p lb sh]\<rparr>)
    (bl[i := bl ! i @ take (BLOCK_SIZE p) sh]) (drop (BLOCK_SIZE p) sh)"
proof (rule pool_rep_step [OF rep i, where new = "[]" and lb' = "fetched_block p lb sh"])
  let ?B = "BLOCK_SIZE p" and ?nx = "(next_offset p)(block_tail lb := shared_head p)"
  note own = pool_rep_block [OF rep i, folded lb] and sh = pool_rep_shared [OF rep]
  have "chain (next_offset p) (shared_head p) (take ?B sh) (sh ! (?B - 1))"
    using sh l by (intro chain_take) auto
  then have "chain ?nx (block_head lb) (bl ! i @ take ?B sh) (sh ! (?B - 1))"
    using own by (intro chain_link) (auto dest: in_set_takeD)
  then show "block_rep (next_offset ((fetched_pool p lb sh)\<lparr>thread_local_block := (thread_local_block p)[i := fetched_block p lb sh]\<rparr>))
      (fetched_block p lb sh) (bl ! i @ take ?B sh)"
    using own l by (simp add: block_rep_def fetched_pool_def fetched_block_def)
  have c: "chain ?nx (shared_head p) sh (shared_tail p)"
    using shared_chain_unlinked [OF rep i] by (simp add: lb)
  then have "chain ?nx (walk ?nx ?B (shared_head p)) (drop ?B sh) (shared_tail p)"
    using l by (intro chain_drop) auto
  with chain_walk [OF c, of ?B] l
  show "chain (next_offset ((fetched_pool p lb sh)\<lparr>thread_local_block := (thread_local_block p)[i := fetched_block p lb sh]\<rparr>))
      (shared_head ((fetched_pool p lb sh)\<lparr>thread_local_block := (thread_local_block p)[i := fetched_block p lb sh]\<rparr>))
      (drop ?B sh)
      (shared_tail ((fetched_pool p lb sh)\<lparr>thread_local_block := (thread_local_block p)[i := fetched_block p lb sh]\<rparr>))"
    by (simp add: fetched_pool_def)
  show "mset ((bl ! i @ take ?B sh) @ drop ?B sh) \<subseteq># mset (bl ! i @ sh) + mset []"
    by simp
qed (use pool_rep_block(4) [OF rep i] l in \<open>auto simp: fetched_pool_def lb\<close>)

text \<open>Taking \<open>n\<close> cells off the head of the own block.\<close>

lemma take_rep:
  assumes rep: "pool_rep p bl sh" and i: "i < length bl" and lb: "lb = thread_local_block p ! i"
    and n: "n + 2 \<le> length (bl ! i)"
  shows "pool_rep (p\<lparr>thread_local_block := (thread_local_block p)[i :=
      lb\<lparr>block_head := walk (next_offset p) n (block_head lb), free_cell_count := free_cell_count lb - n\<rparr>]\<rparr>)
    (bl[i := drop n (bl ! i)]) sh"
proof (rule pool_rep_step [OF rep i, where new = "[]" and
      lb' = "lb\<lparr>block_head := walk (next_offset p) n (block_head lb), free_cell_count := free_cell_count lb - n\<rparr>"])
  show "mset (drop n (bl ! i) @ sh) \<subseteq># mset (bl ! i @ sh) + mset []"
    using mset_take_drop [of n "bl ! i"] by simp
qed (use pool_rep_block [OF rep i, folded lb] pool_rep_shared [OF rep] n in \<open>auto simp: block_rep_def intro: chain_drop\<close>)

text \<open>Linking a chain of cells behind the own block.\<close>

lemma append_rep:
  assumes rep: "pool_rep p bl sh" and i: "i < length bl" and lb: "lb = thread_local_block p ! i"
    and c: "chain (next_offset p) h cs t" "distinct cs" "set cs \<inter> free_set bl sh = {}" "set cs \<subseteq> {..<cell_count p}"
  shows "pool_rep (p\<lparr>next_offset := (next_offset p)(block_tail lb := h),
      thread_local_block := (thread_local_block p)[i := lb\<lparr>block_tail := t, free_cell_count := free_cell_count lb + length cs\<rparr>]\<rparr>)
    (bl[i := bl ! i @ cs]) sh"
proof (rule pool_rep_step [OF rep i, where new = cs and
      lb' = "lb\<lparr>block_tail := t, free_cell_count := free_cell_count lb + length cs\<rparr>"])
  note own = pool_rep_block [OF rep i, folded lb]
  have "distinct (bl ! i @ cs)" using own(5,6) c by auto
  then have "chain ((next_offset p)(block_tail lb := h)) (block_head lb) (bl ! i @ cs) t"
    by (rule chain_link [OF own(1) c(1)])
  then show "block_rep (next_offset (p\<lparr>next_offset := (next_offset p)(block_tail lb := h),
      thread_local_block := (thread_local_block p)[i := lb\<lparr>block_tail := t, free_cell_count := free_cell_count lb + length cs\<rparr>]\<rparr>))
      (lb\<lparr>block_tail := t, free_cell_count := free_cell_count lb + length cs\<rparr>) (bl ! i @ cs)"
    using own by (simp add: block_rep_def)
  show "mset ((bl ! i @ cs) @ sh) \<subseteq># mset (bl ! i @ sh) + mset cs" by (simp add: ac_simps)
qed (use pool_rep_block(4) [OF rep i] pool_rep_shared [OF rep] c shared_chain_unlinked [OF rep i] in \<open>auto simp: lb\<close>)

lemma walk_Suc: "walk nx (Suc n) p = nx (walk nx n p)"
  by (induction n arbitrary: p) auto

lemma give_back_rep:
  assumes rep: "pool_rep p bl sh" and i: "i < length bl" and lb: "lb = thread_local_block p ! i"
    and n: "0 < n" "n + 2 \<le> length (bl ! i)"
    and g: "give_back n p lb = (p', lb')"
  shows "pool_rep (p'\<lparr>thread_local_block := (thread_local_block p')[i := lb']\<rparr>) (bl[i := drop n (bl ! i)]) (sh @ take n (bl ! i))"
proof -
  let ?nx = "(next_offset p)(shared_tail p := block_head lb)"
  note own = pool_rep_block [OF rep i, folded lb] and sh = pool_rep_shared [OF rep]
  have w: "walk (next_offset p) (n - 1) (block_head lb) = bl ! i ! (n - 1)"
    using chain_walk [OF own(1), of "n - 1"] n by simp
  have w': "next_offset p (bl ! i ! (n - 1)) = walk (next_offset p) n (block_head lb)"
    using walk_Suc [of "next_offset p" "n - 1" "block_head lb"] w n by simp
  have p': "p' = p\<lparr>next_offset := ?nx, shared_tail := bl ! i ! (n - 1)\<rparr>"
    and lb': "lb' = lb\<lparr>block_head := walk (next_offset p) n (block_head lb), free_cell_count := length (bl ! i) - n\<rparr>"
    using g own(2) w w' by (auto simp: give_back_def Let_def)
  have t: "shared_tail p \<notin> set (bl ! i)" using sh(4) own(5) by auto
  have "chain (next_offset p) (block_head lb) (take n (bl ! i)) (bl ! i ! (n - 1))"
    using own(1) n by (intro chain_take) auto
  then have 1: "chain ?nx (shared_head p) (sh @ take n (bl ! i)) (bl ! i ! (n - 1))"
    using sh(1) own(5) by (intro chain_link) (auto dest: in_set_takeD)
  have "chain (next_offset p) (walk (next_offset p) n (block_head lb)) (drop n (bl ! i)) (block_tail lb)"
    using own(1) n by (intro chain_drop) auto
  then have 2: "chain ?nx (walk (next_offset p) n (block_head lb)) (drop n (bl ! i)) (block_tail lb)"
    using t by (subst chain_upd) (auto dest: in_set_butlastD in_set_dropD)
  have 3: "mset (drop n (bl ! i) @ sh @ take n (bl ! i)) = mset (bl ! i @ sh)"
    by (metis append_take_drop_id mset_append add.commute add.left_commute)
  show ?thesis
    by (rule pool_rep_step [OF rep i, where new = "[]" and lb' = lb'])
       (use 1 2 3 sh own n in \<open>auto simp: p' lb' block_rep_def\<close>)
qed

section \<open>Get and Free on the representation\<close>

lemma pool_rep_counters:
  assumes rep: "pool_rep (p\<lparr>thread_local_block := (thread_local_block p)[i := lb]\<rparr>) bl sh"
    and same: "block_head lb' = block_head lb" "block_tail lb' = block_tail lb" "free_cell_count lb' = free_cell_count lb"
  shows "pool_rep (p\<lparr>thread_local_block := (thread_local_block p)[i := lb']\<rparr>) bl sh"
proof -
  have "block_rep nx ((thread_local_block p)[i := lb'] ! j) xs = block_rep nx ((thread_local_block p)[i := lb] ! j) xs" for nx j xs
    using same by (cases "j = i \<and> i < length (thread_local_block p)")
      (auto simp: block_rep_def list_update_beyond not_less)
  then show ?thesis using rep by (simp add: pool_rep_def)
qed

lemma pop_cell_rep:
  assumes rep: "pool_rep (p\<lparr>thread_local_block := (thread_local_block p)[i := lb]\<rparr>) bl sh"
    and i: "i < length bl" and l: "2 < length (bl ! i)" and pop: "pop_cell p lb i = (c, p')"
  shows "c = hd (bl ! i)" "pool_rep p' (bl[i := tl (bl ! i)]) sh"
    "cell_count p' = cell_count p" "nthreads p' = nthreads p" "BLOCK_SIZE p' = BLOCK_SIZE p"
    "next_offset p' = next_offset p"
proof -
  let ?q = "p\<lparr>thread_local_block := (thread_local_block p)[i := lb]\<rparr>"
  have lb: "lb = thread_local_block ?q ! i" using pool_rep_block(7) [OF rep i] by simp
  note own = pool_rep_block [OF rep i, folded lb]
  show "c = hd (bl ! i)" using chain_head [OF own(1)] pop by (simp add: pop_cell_def Let_def)
  have "pool_rep (p\<lparr>thread_local_block := (thread_local_block p)[i :=
      lb\<lparr>block_head := next_offset p (block_head lb), free_cell_count := free_cell_count lb - 1\<rparr>]\<rparr>)
      (bl[i := tl (bl ! i)]) sh"
    using take_rep [OF rep i lb, of 1] l by (simp add: drop_Suc)
  from pool_rep_counters [OF this, of "snd (lb, lb\<lparr>block_head := next_offset p (block_head lb),
      free_cell_count := free_cell_count lb - 1, get_counter := get_counter lb + 1\<rparr>)"] this
  show "pool_rep p' (bl[i := tl (bl ! i)]) sh"
    using pop by (auto simp: pop_cell_def Let_def split: if_splits)
  show "cell_count p' = cell_count p" "nthreads p' = nthreads p" "BLOCK_SIZE p' = BLOCK_SIZE p"
    "next_offset p' = next_offset p"
    using pop by (auto simp: pop_cell_def Let_def)
qed

text \<open>
  \<open>Get\<close> hands out the head of the thread's block; when only the two reserved cells are left it first
  moves \<open>BLOCK_SIZE\<close> cells over from the shared list, and dies when the shared list cannot give them.
\<close>

definition get_blocks :: "nat \<Rightarrow> nat list list \<Rightarrow> nat list \<Rightarrow> nat \<Rightarrow> (nat list list \<times> nat list) option" where
  "get_blocks B bl sh i =
     (if 2 < length (bl ! i) then Some (bl[i := tl (bl ! i)], sh)
      else if B + 2 \<le> length sh then Some (bl[i := tl (bl ! i @ take B sh)], drop B sh)
      else None)"

lemma MemPool_Get_None:
  assumes "pool_rep p bl sh" "i < length bl" "get_blocks (BLOCK_SIZE p) bl sh i = None"
  shows "MemPool_Get p i = None"
  using assms fetch_block_eq [OF assms(1,2) refl] pool_rep_block [OF assms(1,2)]
    chain_next_iff_last [OF pool_rep_block(1) [OF assms(1,2)]]
  by (auto simp: MemPool_Get_def get_blocks_def Let_def split: if_splits)

lemma MemPool_Get_rep:
  assumes rep: "pool_rep p bl sh" and i: "i < length bl" and g: "get_blocks (BLOCK_SIZE p) bl sh i = Some (bl', sh')"
  obtains p' where "MemPool_Get p i = Some (hd (bl ! i), p')" "pool_rep p' bl' sh'"
    "cell_count p' = cell_count p" "nthreads p' = nthreads p" "BLOCK_SIZE p' = BLOCK_SIZE p"
    "\<forall>x. x \<notin> free_set bl sh \<longrightarrow> next_offset p' x = next_offset p x"
proof -
  define lb where "lb = thread_local_block p ! i"
  note own = pool_rep_block [OF rep i, folded lb_def] and B = pool_rep_shared(3) [OF rep]
  have two: "next_offset p (block_head lb) = block_tail lb \<longleftrightarrow> length (bl ! i) = 2"
    using chain_next_iff_last [OF own(1)] own by auto
  show thesis
  proof (cases "2 < length (bl ! i)")
    case True
    obtain p' where pop: "pop_cell p lb i = (hd (bl ! i), p')"
      using pop_cell_rep(1) [of p i lb bl sh] rep i True by (metis lb_def list_update_id surj_pair mem_pool.surjective mem_pool.update_convs(7))
    moreover have "MemPool_Get p i = Some (pop_cell p lb i)"
      using two True by (simp add: MemPool_Get_def lb_def Let_def)
    ultimately show thesis
      using pop_cell_rep [OF _ i True pop] rep True g that by (simp add: lb_def get_blocks_def)
  next
    case False
    then have l: "length (bl ! i) = 2" and r: "BLOCK_SIZE p + 2 \<le> length sh"
      and bl': "bl' = bl[i := tl (bl ! i @ take (BLOCK_SIZE p) sh)]" "sh' = drop (BLOCK_SIZE p) sh"
      using g own(3) by (auto simp: get_blocks_def split: if_splits)
    let ?P = "fetched_pool p lb sh" and ?L = "fetched_block p lb sh"
    have rep': "pool_rep (?P\<lparr>thread_local_block := (thread_local_block ?P)[i := ?L]\<rparr>)
        (bl[i := bl ! i @ take (BLOCK_SIZE p) sh]) (drop (BLOCK_SIZE p) sh)"
      using fetched_rep [OF rep i lb_def r] by (simp add: fetched_pool_def)
    have "MemPool_Get p i = Some (pop_cell ?P ?L i)"
      using two l r fetch_block_eq [OF rep i lb_def] by (simp add: MemPool_Get_def lb_def Let_def)
    moreover obtain c p' where pop: "pop_cell ?P ?L i = (c, p')" by fastforce
    moreover have "block_tail lb \<in> free_set bl sh" "bl ! i \<noteq> []" using own(4,6) by auto
    ultimately show thesis
      using pop_cell_rep [OF rep' _ _ pop] i l r B that bl'
      by (auto simp: fetched_pool_def hd_append)
  qed
qed

definition free_blocks :: "nat \<Rightarrow> nat list list \<Rightarrow> nat list \<Rightarrow> nat \<Rightarrow> nat \<Rightarrow> nat list list \<times> nat list" where
  "free_blocks B bl sh c i =
     (let b = bl ! i @ [c]
      in if length b = 2 * B then (bl[i := drop B b], sh @ take B b) else (bl[i := b], sh))"

lemma MemPool_Free_rep:
  assumes rep: "pool_rep p bl sh" and i: "i < length bl" and c: "c < cell_count p" "c \<notin> free_set bl sh"
    and f: "free_blocks (BLOCK_SIZE p) bl sh c i = (bl', sh')"
  shows "pool_rep (MemPool_Free p c i) bl' sh'"
    "cell_count (MemPool_Free p c i) = cell_count p" "nthreads (MemPool_Free p c i) = nthreads p"
    "BLOCK_SIZE (MemPool_Free p c i) = BLOCK_SIZE p"
    "\<forall>x. x \<notin> free_set bl sh \<longrightarrow> next_offset (MemPool_Free p c i) x = next_offset p x"
proof -
  define lb where "lb = thread_local_block p ! i"
  let ?P = "p\<lparr>next_offset := (next_offset p)(block_tail lb := c)\<rparr>"
  let ?L = "lb\<lparr>block_tail := c, free_cell_count := free_cell_count lb + 1\<rparr>"
  let ?Q = "?P\<lparr>thread_local_block := (thread_local_block p)[i := ?L]\<rparr>"
  let ?B = "BLOCK_SIZE p" and ?b = "bl ! i @ [c]"
  note own = pool_rep_block [OF rep i, folded lb_def] and sh = pool_rep_shared [OF rep]
  have rep1: "pool_rep ?Q (bl[i := ?b]) sh"
    using append_rep [OF rep i lb_def, of c "[c]" c] c by simp
  have i': "i < length (bl[i := ?b])" and lbQ: "?L = thread_local_block ?Q ! i"
    using i pool_rep_block(7) [OF rep i] by simp_all
  show "cell_count (MemPool_Free p c i) = cell_count p" "nthreads (MemPool_Free p c i) = nthreads p"
    "BLOCK_SIZE (MemPool_Free p c i) = BLOCK_SIZE p"
    "\<forall>x. x \<notin> free_set bl sh \<longrightarrow> next_offset (MemPool_Free p c i) x = next_offset p x"
    using own(4,6) sh(4,6)
    by (auto simp: MemPool_Free_def Let_def give_back_def lb_def split: prod.splits if_splits)
  show "pool_rep (MemPool_Free p c i) bl' sh'"
  proof (cases "length ?b = 2 * ?B")
    case False
    then have "MemPool_Free p c i = ?P\<lparr>thread_local_block := (thread_local_block ?P)[i :=
        if utilization_record p then ?L\<lparr>free_counter := free_counter lb + 1\<rparr> else ?L]\<rparr>"
      using own(2) by (simp add: MemPool_Free_def Let_def lb_def)
    moreover have "pool_rep (?P\<lparr>thread_local_block := (thread_local_block ?P)[i :=
        if utilization_record p then ?L\<lparr>free_counter := free_counter lb + 1\<rparr> else ?L]\<rparr>) (bl[i := ?b]) sh"
      by (rule pool_rep_counters [where lb = ?L]) (use rep1 in auto)
    ultimately show ?thesis using f False by (simp add: free_blocks_def)
  next
    case True
    obtain p2 lb2 where g: "give_back ?B ?Q ?L = (p2, lb2)" by fastforce
    have rep2: "pool_rep (p2\<lparr>thread_local_block := (thread_local_block p2)[i := lb2]\<rparr>)
        (bl[i := drop ?B ?b]) (sh @ take ?B ?b)"
      using give_back_rep [OF rep1 i' lbQ _ _ g] sh(3) i True by simp
    have "MemPool_Free p c i = p2\<lparr>thread_local_block := (thread_local_block p2)[i :=
        if utilization_record p then lb2\<lparr>free_counter := free_counter lb2 + 1\<rparr> else lb2]\<rparr>"
      using own(2) True g by (auto simp: MemPool_Free_def Let_def lb_def give_back_def)
    moreover have "pool_rep (p2\<lparr>thread_local_block := (thread_local_block p2)[i :=
        if utilization_record p then lb2\<lparr>free_counter := free_counter lb2 + 1\<rparr> else lb2]\<rparr>)
        (bl[i := drop ?B ?b]) (sh @ take ?B ?b)"
      by (rule pool_rep_counters [OF rep2]) auto
    ultimately show ?thesis using f True by (simp add: free_blocks_def Let_def)
  qed
qed

section \<open>Initialisation\<close>

lemma chain_upt: "a < b \<Longrightarrow> chain Suc a [a..<b] (b - 1)"
proof (induction "b - a" arbitrary: a)
  case (Suc n)
  show ?case
  proof (cases "Suc a = b")
    case True
    then show ?thesis by auto
  next
    case False
    then have "chain Suc (Suc a) [Suc a..<b] (b - 1)" using Suc by simp
    then show ?thesis using Suc.prems False
      by (simp add: upt_conv_Cons [of a b] upt_conv_Cons [of "Suc a" b])
  qed
qed simp

lemma init_blocks_rep:
  assumes "2 \<le> B"
  shows "init_blocks B n h = (bs, h') \<Longrightarrow>
    h' = h + n * B \<and> length bs = n \<and> (\<forall>i<n. block_rep Suc (bs ! i) [h + i * B..<h + Suc i * B])"
proof (induction n arbitrary: h bs h')
  case (Suc n)
  obtain bs1 where b: "init_blocks B n (h + B) = (bs1, h')" and
    bs: "bs = \<lparr>block_head = h, block_tail = h + B - 1, free_cell_count = B, get_counter = 0, free_counter = 0\<rparr> # bs1"
    using Suc.prems by (auto simp: Let_def split: prod.splits)
  have "block_rep Suc (bs ! 0) [h..<h + B]"
    using assms chain_upt [of h "h + B"] by (simp add: bs block_rep_def)
  moreover have "block_rep Suc (bs ! Suc i) [h + Suc i * B..<h + Suc (Suc i) * B]" if "i < n" for i
    using Suc.IH [OF b] that by (simp add: bs add.assoc)
  ultimately have "\<forall>i<Suc n. block_rep Suc (bs ! i) [h + i * B..<h + Suc i * B]"
    by (auto simp: less_Suc_eq_0_disj)
  then show ?case using Suc.IH [OF b] by (simp add: bs algebra_simps)
qed simp

lemma concat_intervals: "concat (map (\<lambda>i. [i * B..<Suc i * B]) [0..<n]) = [0..<n * B]"
proof (induction n)
  case (Suc n)
  then show ?case using upt_add_eq_append [of 0 "n * B" B] by (simp add: ac_simps)
qed simp

lemma MemPool_Init_rep:
  assumes "MemPool_Init B cells threads rec = Some p" "2 \<le> B" "0 < threads"
  shows "pool_rep p (map (\<lambda>i. [i * B..<Suc i * B]) [0..<threads]) [threads * B..<cells]"
    "cell_count p = cells" "nthreads p = threads" "BLOCK_SIZE p = B"
proof -
  obtain bs h where b: "init_blocks B threads 0 = (bs, h)" by fastforce
  have lt: "threads * (B + 2) < cells" using assms(1) by (auto simp: MemPool_Init_def split: if_splits)
  have p: "p = \<lparr>next_offset = Suc, cell_count = cells, nthreads = threads, utilization_record = rec,
      shared_head = h, shared_tail = cells - 1, thread_local_block = bs, BLOCK_SIZE = B\<rparr>"
    using assms(1) b by (simp add: MemPool_Init_def)
  show "cell_count p = cells" "nthreads p = threads" "BLOCK_SIZE p = B" by (simp_all add: p)
  have bs: "h = threads * B" "length bs = threads" "\<forall>i<threads. block_rep Suc (bs ! i) [i * B..<Suc i * B]"
    using init_blocks_rep [OF assms(2) b] by simp_all
  have l: "threads * B + 2 \<le> cells" using lt assms(3) by (cases threads) (auto simp: algebra_simps)
  then show "pool_rep p (map (\<lambda>i. [i * B..<Suc i * B]) [0..<threads]) [threads * B..<cells]"
    using assms(2) bs chain_upt [of "threads * B" cells]
    by (auto simp: pool_rep_def p concat_intervals simp del: mult_Suc)
qed

section \<open>The pool is an allocator\<close>

lemma free_set_mset: "free_set bl sh = set_mset (mset (concat bl @ sh))"
  by (simp add: free_set_def)

lemma get_blocks_mset:
  assumes "get_blocks B bl sh i = Some (bl', sh')" "i < length bl" "bl ! i \<noteq> []"
  shows "mset (concat bl @ sh) = add_mset (hd (bl ! i)) (mset (concat bl' @ sh'))"
proof -
  define xs where "xs = (if 2 < length (bl ! i) then tl (bl ! i) else tl (bl ! i @ take B sh))"
  have b: "bl' = bl[i := xs]" using assms(1) by (auto simp: get_blocks_def xs_def split: if_splits)
  obtain c ys where h: "bl ! i = c # ys" using assms(3) by (cases "bl ! i") auto
  have "mset (bl ! i @ sh) = add_mset (hd (bl ! i)) (mset (xs @ sh'))"
    using assms(1) h
    by (auto simp: get_blocks_def xs_def simp flip: mset_append split: if_splits)
  moreover have "mset (concat bl' @ sh') + mset (bl ! i @ sh) = mset (concat bl @ sh) + mset (xs @ sh')"
    unfolding b by (rule free_mset_update [OF assms(2)])
  ultimately have "mset (concat bl @ sh) + mset (xs @ sh') =
      add_mset (hd (bl ! i)) (mset (concat bl' @ sh')) + mset (xs @ sh')"
    by (metis union_mset_add_mset_left union_mset_add_mset_right)
  then show ?thesis by (rule add_right_imp_eq)
qed

lemma free_blocks_mset:
  assumes "free_blocks B bl sh c i = (bl', sh')" "i < length bl"
  shows "mset (concat bl' @ sh') = add_mset c (mset (concat bl @ sh))"
proof -
  define xs where "xs = (if length (bl ! i @ [c]) = 2 * B then drop B (bl ! i @ [c]) else bl ! i @ [c])"
  have b: "bl' = bl[i := xs]" using assms(1) by (auto simp: free_blocks_def xs_def Let_def split: if_splits)
  have "mset (xs @ sh') = add_mset c (mset (bl ! i @ sh))"
  proof (cases "length (bl ! i @ [c]) = 2 * B")
    case True
    then have "mset (xs @ sh') = mset (drop B (bl ! i @ [c])) + (mset sh + mset (take B (bl ! i @ [c])))"
      using assms(1) by (auto simp: free_blocks_def xs_def Let_def)
    also have "\<dots> = mset (take B (bl ! i @ [c]) @ drop B (bl ! i @ [c])) + mset sh"
      by (simp only: mset_append ac_simps)
    finally show ?thesis by (simp only: append_take_drop_id) simp
  next
    case False
    then show ?thesis using assms(1) by (auto simp: free_blocks_def xs_def Let_def)
  qed
  moreover have "mset (concat bl' @ sh') + mset (bl ! i @ sh) = mset (concat bl @ sh) + mset (xs @ sh')"
    unfolding b by (rule free_mset_update [OF assms(2)])
  ultimately have "mset (concat bl' @ sh') + mset (bl ! i @ sh) =
      add_mset c (mset (concat bl @ sh)) + mset (bl ! i @ sh)"
    by simp
  then show ?thesis by (rule add_right_imp_eq)
qed

lemma pool_rep_free_range: "pool_rep p bl sh \<Longrightarrow> free_set bl sh \<subseteq> {..<cell_count p}"
  by (simp add: pool_rep_def free_set_def)

lemma bounded_blocks_update:
  "bounded_blocks B bl \<Longrightarrow> length xs < 2 * B \<Longrightarrow> bounded_blocks B (bl[i := xs])"
  using set_update_subset_insert [of bl i xs] by (auto simp: bounded_blocks_def)

lemma get_blocks_bounded:
  assumes "get_blocks B bl sh i = Some (bl', sh')" "bounded_blocks B bl" "2 \<le> B" "i < length bl"
  shows "bounded_blocks B bl'"
proof -
  have "length (bl ! i) < 2 * B" using assms by (simp add: bounded_blocks_def)
  then show ?thesis using assms
    by (auto simp: get_blocks_def split: if_splits intro!: bounded_blocks_update)
qed

lemma free_blocks_bounded:
  assumes "free_blocks B bl sh c i = (bl', sh')" "bounded_blocks B bl" "2 \<le> B" "i < length bl"
  shows "bounded_blocks B bl'"
proof -
  have "length (bl ! i) < 2 * B" using assms by (simp add: bounded_blocks_def)
  then show ?thesis using assms
    by (auto simp: free_blocks_def Let_def split: if_splits intro!: bounded_blocks_update)
qed

lemma pool_used_get:
  assumes u: "pool_used p U" and tid: "tid < nthreads p" and g: "MemPool_Get p tid = Some (c, p')"
  shows "c \<notin> U \<and> c < cell_count p \<and> pool_used p' (insert c U) \<and> nthreads p' = nthreads p \<and>
    cell_count p' = cell_count p \<and> BLOCK_SIZE p' = BLOCK_SIZE p \<and> (\<forall>x\<in>U. next_offset p' x = next_offset p x)"
proof -
  obtain bl sh where rep: "pool_rep p bl sh" and b: "bounded_blocks (BLOCK_SIZE p) bl"
    and U: "U = {..<cell_count p} - free_set bl sh"
    using u by (auto simp: pool_used_def)
  have i: "tid < length bl" using rep tid by (simp add: pool_rep_def)
  obtain bl' sh' where gb: "get_blocks (BLOCK_SIZE p) bl sh tid = Some (bl', sh')"
    using MemPool_Get_None [OF rep i] g by fastforce
  obtain q where q: "MemPool_Get p tid = Some (hd (bl ! tid), q)" "pool_rep q bl' sh'"
    "cell_count q = cell_count p" "nthreads q = nthreads p" "BLOCK_SIZE q = BLOCK_SIZE p"
    "\<forall>x. x \<notin> free_set bl sh \<longrightarrow> next_offset q x = next_offset p x"
    by (rule MemPool_Get_rep [OF rep i gb])
  have ne: "bl ! tid \<noteq> []" using pool_rep_block(3) [OF rep i] by auto
  have m: "mset (concat bl @ sh) = add_mset c (mset (concat bl' @ sh'))"
    using get_blocks_mset [OF gb i ne] q(1) g by simp
  have "distinct (concat bl @ sh)" using rep by (simp add: pool_rep_def)
  then have "distinct (c # concat bl' @ sh')"
    by (metis m mset.simps(2) mset_eq_imp_distinct_iff)
  then have c: "c \<notin> free_set bl' sh'" by (simp add: free_set_def)
  have f: "free_set bl sh = insert c (free_set bl' sh')" using m by (simp only: free_set_mset set_mset_add_mset_insert)
  have "c < cell_count p" using pool_rep_free_range [OF rep] f by auto
  then show ?thesis
    using q g c f U get_blocks_bounded [OF gb b pool_rep_shared(3) [OF rep] i]
    by (auto simp: pool_used_def intro!: exI [of _ bl'] exI [of _ sh'])
qed

lemma pool_used_free:
  assumes u: "pool_used p U" and tid: "tid < nthreads p" and c: "c \<in> U"
  shows "pool_used (MemPool_Free p c tid) (U - {c}) \<and> nthreads (MemPool_Free p c tid) = nthreads p \<and>
    cell_count (MemPool_Free p c tid) = cell_count p \<and> BLOCK_SIZE (MemPool_Free p c tid) = BLOCK_SIZE p \<and>
    (\<forall>x\<in>U. next_offset (MemPool_Free p c tid) x = next_offset p x)"
proof -
  obtain bl sh where rep: "pool_rep p bl sh" and b: "bounded_blocks (BLOCK_SIZE p) bl"
    and U: "U = {..<cell_count p} - free_set bl sh"
    using u by (auto simp: pool_used_def)
  have i: "tid < length bl" using rep tid by (simp add: pool_rep_def)
  obtain bl' sh' where fb: "free_blocks (BLOCK_SIZE p) bl sh c tid = (bl', sh')" by fastforce
  have c': "c < cell_count p" "c \<notin> free_set bl sh" using c U by auto
  note F = MemPool_Free_rep [OF rep i c' fb]
  have "free_set bl' sh' = insert c (free_set bl sh)"
    using free_blocks_mset [OF fb i] by (simp only: free_set_mset set_mset_add_mset_insert)
  then show ?thesis
    using F U free_blocks_bounded [OF fb b pool_rep_shared(3) [OF rep] i]
    by (auto simp: pool_used_def intro!: exI [of _ bl'] exI [of _ sh'])
qed

interpretation mp: cell_allocator MemPool_Get MemPool_Free pool_used nthreads cell_count
  by unfold_locales (use pool_used_get pool_used_free in blast)+

lemma MemPool_Init_used:
  assumes "MemPool_Init B cells threads rec = Some p" "2 \<le> B" "0 < threads"
  shows "pool_used p {}" "nthreads p = threads" "cell_count p = cells" "BLOCK_SIZE p = B"
proof -
  note I = MemPool_Init_rep [OF assms]
  have "threads * B \<le> cells" using assms(1) by (auto simp: MemPool_Init_def algebra_simps split: if_splits)
  then have "free_set (map (\<lambda>i. [i * B..<Suc i * B]) [0..<threads]) [threads * B..<cells] = {..<cells}"
    by (auto simp: free_set_def concat_intervals simp del: mult_Suc)
  moreover have "bounded_blocks B (map (\<lambda>i. [i * B..<Suc i * B]) [0..<threads])"
    using assms(2) by (auto simp: bounded_blocks_def)
  ultimately show "pool_used p {}" using I unfolding pool_used_def by blast
  show "nthreads p = threads" "cell_count p = cells" "BLOCK_SIZE p = B" using I by simp_all
qed

lemma run_block_size:
  assumes "alloc_run MemPool_Get MemPool_Free nthreads (p0, U0) (p, U)" "pool_used p0 U0"
  shows "BLOCK_SIZE p = BLOCK_SIZE p0"
  using assms
proof (induction "(p0, U0)" "(p, U)" arbitrary: p U rule: alloc_run.induct)
  case (run_get p U tid c p')
  then show ?case using pool_used_get mp.run_keeps_used by metis
next
  case (run_free p U tid c)
  then show ?case using pool_used_free mp.run_keeps_used by metis
qed simp

lemma sum_list_bound: "(\<forall>b\<in>set bl. length b \<le> k) \<Longrightarrow> length (concat bl) \<le> length bl * k"
  by (induction bl) auto

lemma length_concat_bound:
  assumes "i < length bl" "\<forall>b\<in>set bl. length b \<le> k"
  shows "length (concat bl) \<le> length (bl ! i) + (length bl - 1) * k"
proof -
  have "length (concat (bl[i := []])) + length (bl ! i) = length (concat bl)"
    using arg_cong [OF mset_concat_update [OF assms(1), of "[]"], of size] by simp
  moreover have "length (concat (bl[i := []])) \<le> (length bl - 1) * k"
  proof -
    have "length (concat (bl[i := []])) = length (concat (take i bl)) + length (concat (drop (Suc i) bl))"
      using assms(1) by (simp add: upd_conv_take_nth_drop)
    also have "\<dots> \<le> i * k + (length bl - Suc i) * k"
      using assms sum_list_bound [of "take i bl" k] sum_list_bound [of "drop (Suc i) bl" k]
      by (auto dest: in_set_takeD in_set_dropD intro!: add_mono)
    also have "\<dots> = (length bl - 1) * k" using assms(1) by (simp flip: add_mult_distrib)
    finally show ?thesis .
  qed
  ultimately show ?thesis by simp
qed

lemma MemPool_Get_succeeds:
  assumes u: "pool_used p U" and tid: "tid < nthreads p"
    and room: "card U + (nthreads p - 1) * (2 * BLOCK_SIZE p - 1) + BLOCK_SIZE p + 3 < cell_count p"
  shows "\<exists>c p'. MemPool_Get p tid = Some (c, p')"
proof -
  obtain bl sh where rep: "pool_rep p bl sh" and b: "bounded_blocks (BLOCK_SIZE p) bl"
    and U: "U = {..<cell_count p} - free_set bl sh"
    using u by (auto simp: pool_used_def)
  have i: "tid < length bl" and n: "nthreads p = length bl" using rep tid by (simp_all add: pool_rep_def)
  note fs = pool_rep_free_range [OF rep]
  have "card (free_set bl sh) = length (concat bl @ sh)"
    using rep distinct_card [of "concat bl @ sh"] by (simp add: pool_rep_def free_set_def)
  moreover have "card U = cell_count p - card (free_set bl sh)"
    using card_Diff_subset [OF finite_subset [OF fs] fs] by (simp add: U)
  ultimately have l: "cell_count p \<le> card U + length (concat bl) + length sh" by simp
  have "get_blocks (BLOCK_SIZE p) bl sh tid \<noteq> None"
  proof
    assume "get_blocks (BLOCK_SIZE p) bl sh tid = None"
    then have "length (bl ! tid) \<le> 2" "length sh \<le> BLOCK_SIZE p + 1"
      by (auto simp: get_blocks_def split: if_splits)
    moreover have "length (concat bl) \<le> length (bl ! tid) + (length bl - 1) * (2 * BLOCK_SIZE p - 1)"
      using b by (intro length_concat_bound [OF i]) (auto simp: bounded_blocks_def)
    ultimately show False using l room n by simp
  qed
  then show ?thesis using MemPool_Get_rep [OF rep i] by (metis option.exhaust prod.exhaust)
qed

section \<open>Properties\<close>

text \<open>
  C14. The pool never hands out a cell twice: in any interleaving of the threads' calls after a
  successful \<open>Init\<close>, in which cells are freed only by who owns them, \<open>Get\<close> returns a cell inside the
  pool that nobody owns, and it becomes owned.
\<close>

theorem pool_never_double_allocates:
  assumes "MemPool_Init B cells threads rec = Some p0" "2 \<le> B" "0 < threads"
    and "alloc_run MemPool_Get MemPool_Free nthreads (p0, {}) (p, U)"
    and "tid < threads" "MemPool_Get p tid = Some (c, p')"
  shows "c \<notin> U \<and> c < cells \<and> pool_used p' (insert c U)"
  using mp.run_get_fresh [OF assms(4)] MemPool_Init_used [OF assms(1-3)] assms(5,6) by simp

theorem pool_never_double_allocates_witness:
  "\<exists>p0 c p1 d p2. MemPool_Init 2 7 1 False = Some p0 \<and>
     MemPool_Get p0 0 = Some (c, p1) \<and> MemPool_Get p1 0 = Some (d, p2) \<and> d \<notin> {c} \<and> d < 7"
proof -
  have "(case MemPool_Init 2 7 1 False of None \<Rightarrow> False | Some p0 \<Rightarrow>
      case MemPool_Get p0 0 of None \<Rightarrow> False | Some (c, p1) \<Rightarrow>
      case MemPool_Get p1 0 of None \<Rightarrow> False | Some (d, p2) \<Rightarrow> True)" by code_simp
  then obtain p0 c p1 d p2 where 0: "MemPool_Init 2 7 1 False = Some p0"
    and 1: "MemPool_Get p0 0 = Some (c, p1)" and 2: "MemPool_Get p1 0 = Some (d, p2)"
    by (auto split: option.splits prod.splits)
  have "alloc_run MemPool_Get MemPool_Free nthreads (p0, {}) (p1, {c})"
    using run_get [of MemPool_Get MemPool_Free nthreads "(p0, {})" p0 "{}" 0 c p1] 1 MemPool_Init_used(2) [OF 0]
    by (simp add: run_refl)
  from pool_never_double_allocates [OF 0 _ _ this _ 2] show ?thesis using 0 1 2 by auto
qed

text \<open>
  A pool with enough free cells never dies in \<open>Get\<close>: at most \<open>2 * BLOCK_SIZE - 1\<close> cells sit in
  each other thread's block, and \<open>BLOCK_SIZE + 3\<close> in the caller's block and the shared list together
  when the assertion fires.
\<close>

lemma pool_get_succeeds:
  assumes "MemPool_Init B cells threads rec = Some p0" "2 \<le> B" "0 < threads"
    and "alloc_run MemPool_Get MemPool_Free nthreads (p0, {}) (p, U)" "tid < threads"
    and "card U + (threads - 1) * (2 * B - 1) + B + 3 < cells"
  shows "\<exists>c p'. MemPool_Get p tid = Some (c, p')"
  using MemPool_Get_succeeds [of p U tid] mp.run_keeps_used [OF assms(4)] run_block_size [OF assms(4)]
    MemPool_Init_used [OF assms(1-3)] assms(5,6) by simp

lemma pool_get_succeeds_example:
  "\<exists>p0 c p'. MemPool_Init 2 11 2 False = Some p0 \<and> MemPool_Get p0 1 = Some (c, p')"
proof -
  have "MemPool_Init 2 11 2 False \<noteq> None" by code_simp
  then obtain p0 where p0: "MemPool_Init 2 11 2 False = Some p0" by blast
  from pool_get_succeeds [OF p0 _ _ run_refl, of 1] show ?thesis using p0 by auto
qed

end
