(* ===== verification/Value_Store.thy ===== *)
theory Value_Store
  imports Mem_Pool
begin

text \<open>
  \<open>MVCCValueStore\<close> (src/layout/mvcc_value_store.hpp and .cpp): property values of any length in
  8-byte cells. The free cells are kept exactly as in \<open>ConcurrentMemPool\<close>, so the state extends
  \<open>mem_pool\<close> with the byte memory \<open>attached_mem_\<close>; the cells of one value stay linked through
  \<open>next_offset_\<close>. \<open>byte_count\<close> and \<open>value_len\<close> are 32-bit in the code, so they wrap at
  \<open>2 ^ 32\<close>: the lemmas on stored values are about values whose size with the type byte is below that (\<open>fits\<close>).
\<close>

section \<open>State\<close>

record value_t =
  v_type :: u8
  v_content :: "u8 list"

record ValueHeader =
  head_offset :: nat
  byte_count :: nat

definition MEM_CELL_SIZE :: nat where
  "MEM_CELL_SIZE = 8"

definition IsEmpty :: "ValueHeader \<Rightarrow> bool" where
  "IsEmpty h = (byte_count h = 0)"

definition GetCellCount :: "ValueHeader \<Rightarrow> nat" where
  "GetCellCount h =
     (let cell_count = byte_count h div MEM_CELL_SIZE
      in if cell_count * MEM_CELL_SIZE \<noteq> byte_count h then cell_count + 1 else cell_count)"

record value_store = mem_pool +
  attached_mem :: "nat \<Rightarrow> u8"

section \<open>Allocation of several cells\<close>

definition ValueStore_Init :: "(nat \<Rightarrow> u8) \<Rightarrow> nat \<Rightarrow> nat \<Rightarrow> nat \<Rightarrow> bool \<Rightarrow> value_store option" where
  "ValueStore_Init mem B cells threads rec =
     (case MemPool_Init B cells threads rec of None \<Rightarrow> None
      | Some p \<Rightarrow> Some (mem_pool.extend p (value_store.fields mem)))"

definition count_get :: "nat \<Rightarrow> 'a mem_pool_scheme \<Rightarrow> thread_block \<Rightarrow> thread_block" where
  "count_get n p lb = (if utilization_record p then lb\<lparr>get_counter := get_counter lb + of_nat n\<rparr> else lb)"

definition count_free :: "nat \<Rightarrow> 'a mem_pool_scheme \<Rightarrow> thread_block \<Rightarrow> thread_block" where
  "count_free n p lb = (if utilization_record p then lb\<lparr>free_counter := free_counter lb + of_nat n\<rparr> else lb)"

definition set_block :: "'a mem_pool_scheme \<Rightarrow> nat \<Rightarrow> thread_block \<Rightarrow> 'a mem_pool_scheme" where
  "set_block p tid lb = p\<lparr>thread_local_block := (thread_local_block p)[tid := lb]\<rparr>"

definition pop_cells :: "nat \<Rightarrow> 'a mem_pool_scheme \<Rightarrow> thread_block \<Rightarrow> nat \<Rightarrow> nat \<times> 'a mem_pool_scheme" where
  "pop_cells n p lb tid =
     (block_head lb,
      set_block p tid (lb\<lparr>block_head := walk (next_offset p) n (block_head lb),
                          free_cell_count := free_cell_count lb - n\<rparr>))"

definition ValueStore_Get :: "'a mem_pool_scheme \<Rightarrow> nat \<Rightarrow> nat \<Rightarrow> (nat \<times> 'a mem_pool_scheme) option" where
  "ValueStore_Get p n tid =
     (let lb = count_get n p (thread_local_block p ! tid)
      in if BLOCK_SIZE p < n \<and> free_cell_count lb < n + 2
         then (case fetch_loop (next_offset p) (shared_tail p) n (shared_head p) 0 of
                 None \<Rightarrow> None
               | Some (h, _) \<Rightarrow> Some (shared_head p, set_block (p\<lparr>shared_head := h\<rparr>) tid lb))
         else if free_cell_count lb < n + 2
         then (case fetch_block p lb of
                 None \<Rightarrow> None
               | Some (p', lb') \<Rightarrow> Some (pop_cells n p' lb' tid))
         else Some (pop_cells n p lb tid))"

definition ValueStore_Free :: "'a mem_pool_scheme \<Rightarrow> nat \<Rightarrow> nat \<Rightarrow> nat \<Rightarrow> 'a mem_pool_scheme" where
  "ValueStore_Free p offset n tid =
     (let lb = count_free n p (thread_local_block p ! tid)
      in if BLOCK_SIZE p < n \<and> 2 * BLOCK_SIZE p \<le> free_cell_count lb + n
         then set_block
                (p\<lparr>next_offset := (next_offset p)(shared_tail p := offset),
                   shared_tail := walk (next_offset p) (n - 1) offset\<rparr>) tid lb
         else
           (let p1 = p\<lparr>next_offset := (next_offset p)(block_tail lb := offset)\<rparr>;
                lb1 = lb\<lparr>free_cell_count := free_cell_count lb + n,
                         block_tail := walk (next_offset p1) n (block_tail lb)\<rparr>;
                (p2, lb2) = (if 2 * BLOCK_SIZE p \<le> free_cell_count lb1
                             then give_back (free_cell_count lb1 - BLOCK_SIZE p) p1 lb1 else (p1, lb1))
            in set_block p2 tid lb2))"

section \<open>Values\<close>

text \<open>\<open>memcpy\<close> of the bytes \<open>bs\<close> to address \<open>a\<close>.\<close>

definition write_bytes :: "(nat \<Rightarrow> u8) \<Rightarrow> nat \<Rightarrow> u8 list \<Rightarrow> nat \<Rightarrow> u8" where
  "write_bytes mem a bs = (\<lambda>x. if a \<le> x \<and> x < a + length bs then bs ! (x - a) else mem x)"

definition read_bytes :: "(nat \<Rightarrow> u8) \<Rightarrow> nat \<Rightarrow> nat \<Rightarrow> u8 list" where
  "read_bytes mem a n = map (\<lambda>i. mem (a + i)) [0..<n]"

definition GetCellPtr :: "nat \<Rightarrow> nat" where
  "GetCellPtr offset = offset * MEM_CELL_SIZE"

text \<open>The body of the loop of \<open>InsertValue\<close> for iteration \<open>i\<close>.\<close>

definition insert_cell :: "value_t \<Rightarrow> nat \<Rightarrow> nat \<Rightarrow> nat \<Rightarrow> nat \<Rightarrow> (nat \<Rightarrow> u8) \<Rightarrow> (nat \<Rightarrow> u8) \<times> nat" where
  "insert_cell v cells i offset value_off mem =
     (let cell_ptr = GetCellPtr offset; value_len = unat (of_nat (length (v_content v)) :: u32)
      in if i = 0 then
           (let mem1 = write_bytes mem cell_ptr [v_type v]
            in if value_len < MEM_CELL_SIZE - 1
               then (write_bytes mem1 (cell_ptr + 1) (take value_len (drop value_off (v_content v))), value_off)
               else (write_bytes mem1 (cell_ptr + 1) (take (MEM_CELL_SIZE - 1) (drop value_off (v_content v))),
                     value_off + (MEM_CELL_SIZE - 1)))
         else if i = cells - 1 then
           (write_bytes mem cell_ptr (take (value_len - value_off) (drop value_off (v_content v))), value_off)
         else
           (write_bytes mem cell_ptr (take MEM_CELL_SIZE (drop value_off (v_content v))),
            value_off + MEM_CELL_SIZE))"

fun insert_cells :: "(nat \<Rightarrow> nat) \<Rightarrow> value_t \<Rightarrow> nat \<Rightarrow> nat \<Rightarrow> nat \<Rightarrow> nat \<Rightarrow> (nat \<Rightarrow> u8) \<Rightarrow> (nat \<Rightarrow> u8)" where
  "insert_cells nx v cells 0 offset value_off mem = mem"
| "insert_cells nx v cells (Suc left) offset value_off mem =
     (let (mem', value_off') = insert_cell v cells (cells - Suc left) offset value_off mem
      in insert_cells nx v cells left (nx offset) value_off' mem')"

definition InsertValue :: "value_store \<Rightarrow> value_t \<Rightarrow> nat \<Rightarrow> (ValueHeader \<times> value_store) option" where
  "InsertValue s v tid =
     (let bytes = unat (of_nat (length (v_content v)) + 1 :: u32);
          cells = GetCellCount \<lparr>head_offset = 0, byte_count = bytes\<rparr>
      in case ValueStore_Get s cells tid of
           None \<Rightarrow> None
         | Some (h, s') \<Rightarrow>
             Some (\<lparr>head_offset = h, byte_count = bytes\<rparr>,
                   s'\<lparr>attached_mem := insert_cells (next_offset s') v cells cells h 0 (attached_mem s')\<rparr>))"

definition overwrite :: "u8 list \<Rightarrow> nat \<Rightarrow> u8 list \<Rightarrow> u8 list" where
  "overwrite xs n bs = take n xs @ bs @ drop (n + length bs) xs"

definition read_cell :: "(nat \<Rightarrow> u8) \<Rightarrow> nat \<Rightarrow> nat \<Rightarrow> nat \<Rightarrow> nat \<Rightarrow> nat \<Rightarrow> value_t \<Rightarrow> value_t \<times> nat" where
  "read_cell mem value_len cells i offset value_off v =
     (let cell_ptr = GetCellPtr offset
      in if i = 0 then
           (let v1 = v\<lparr>v_type := mem cell_ptr\<rparr>
            in if value_len < MEM_CELL_SIZE - 1
               then (v1\<lparr>v_content := overwrite (v_content v1) value_off (read_bytes mem (cell_ptr + 1) value_len)\<rparr>, value_off)
               else (v1\<lparr>v_content := overwrite (v_content v1) value_off (read_bytes mem (cell_ptr + 1) (MEM_CELL_SIZE - 1))\<rparr>,
                     value_off + (MEM_CELL_SIZE - 1)))
         else if i = cells - 1 then
           (v\<lparr>v_content := overwrite (v_content v) value_off (read_bytes mem cell_ptr (value_len - value_off))\<rparr>, value_off)
         else
           (v\<lparr>v_content := overwrite (v_content v) value_off (read_bytes mem cell_ptr MEM_CELL_SIZE)\<rparr>,
            value_off + MEM_CELL_SIZE))"

fun read_cells :: "(nat \<Rightarrow> nat) \<Rightarrow> (nat \<Rightarrow> u8) \<Rightarrow> nat \<Rightarrow> nat \<Rightarrow> nat \<Rightarrow> nat \<Rightarrow> nat \<Rightarrow> value_t \<Rightarrow> value_t" where
  "read_cells nx mem value_len cells 0 offset value_off v = v"
| "read_cells nx mem value_len cells (Suc left) offset value_off v =
     (let (v', value_off') = read_cell mem value_len cells (cells - Suc left) offset value_off v
      in read_cells nx mem value_len cells left (nx offset) value_off' v')"

text \<open>\<open>vector::resize\<close> pads with zero bytes. The argument \<open>v\<close> is the caller's object, overwritten.\<close>

definition resize :: "nat \<Rightarrow> u8 list \<Rightarrow> u8 list" where
  "resize n xs = take n xs @ replicate (n - length xs) 0"

definition ReadValue :: "value_store \<Rightarrow> ValueHeader \<Rightarrow> value_t \<Rightarrow> value_t" where
  "ReadValue s h v =
     (if byte_count h = 0 then v
      else let value_len = byte_count h - 1; cells = GetCellCount h
           in read_cells (next_offset s) (attached_mem s) value_len cells cells (head_offset h) 0
                (v\<lparr>v_content := resize value_len (v_content v)\<rparr>))"

definition FreeValue :: "value_store \<Rightarrow> ValueHeader \<Rightarrow> nat \<Rightarrow> value_store" where
  "FreeValue s h tid = ValueStore_Free s (head_offset h) (GetCellCount h) tid"

section \<open>The bytes of a value in its cells\<close>

definition value_bytes :: "value_t \<Rightarrow> u8 list" where
  "value_bytes v = v_type v # v_content v"

definition fits :: "value_t \<Rightarrow> bool" where
  "fits v \<longleftrightarrow> length (v_content v) + 1 < 2 ^ 32"

definition cells_for :: "nat \<Rightarrow> nat" where
  "cells_for n = (n + 7) div 8"

lemma GetCellCount_eq: "GetCellCount h = cells_for (byte_count h)"
proof -
  obtain q r where "byte_count h = 8 * q + r" "r < 8"
    by (metis mod_less_divisor mult_div_mod_eq zero_less_numeral)
  then show ?thesis by (auto simp: GetCellCount_def cells_for_def MEM_CELL_SIZE_def Let_def)
qed

text \<open>\<open>value_off\<close> at the start of iteration \<open>i\<close>.\<close>

definition off_at :: "nat \<Rightarrow> nat" where
  "off_at i = 8 * i - 1"

lemma write_bytes_cell:
  assumes "k + length bs \<le> 8"
  shows "write_bytes mem (offset * 8 + k) bs x =
    (if x div 8 = offset \<and> k \<le> x mod 8 \<and> x mod 8 < k + length bs then bs ! (x mod 8 - k) else mem x)"
proof -
  obtain q b where x: "x = 8 * q + b" "b < 8" by (metis mod_less_divisor mult_div_mod_eq zero_less_numeral)
  then have d: "x div 8 = q" "x mod 8 = b" by auto
  show ?thesis using assms x unfolding d write_bytes_def
    by (cases q offset rule: linorder_cases) auto
qed

lemmas write_bytes_cell0 = write_bytes_cell [where k = 0, simplified]
  and write_bytes_cell1 = write_bytes_cell [where k = 1, simplified]

lemma fits_mod:
  "fits v \<Longrightarrow> unat (of_nat (length (v_content v)) :: u32) = length (v_content v)"
  "fits v \<Longrightarrow> unat (of_nat (length (v_content v)) + 1 :: u32) = length (v_content v) + 1"
proof -
  assume f: "fits v"
  show "unat (of_nat (length (v_content v)) :: u32) = length (v_content v)"
    by (rule unat_of_nat_less) (use f in \<open>simp add: fits_def\<close>)
  have "unat (of_nat (length (v_content v) + 1) :: u32) = length (v_content v) + 1"
    by (rule unat_of_nat_less) (use f in \<open>simp add: fits_def\<close>)
  then show "unat (of_nat (length (v_content v)) + 1 :: u32) = length (v_content v) + 1" by (simp only: of_nat_add of_nat_1)
qed

lemma insert_cell_effect:
  assumes f: "fits v" and n: "n = length (v_content v) + 1" and c: "cells = cells_for n" "i < cells"
    and r: "insert_cell v cells i offset (off_at i) mem = (mem', off')"
  shows "mem' x = (if x div 8 = offset \<and> 8 * i + x mod 8 < n then value_bytes v ! (8 * i + x mod 8) else mem x)"
    and "Suc i < cells \<Longrightarrow> off' = off_at (Suc i)"
proof -
  have last: "i = cells - 1 \<longleftrightarrow> n \<le> 8 * i + 8" using c by (auto simp: cells_for_def)
  have lt: "8 * i < n" using c by (auto simp: cells_for_def)
  show "mem' x = (if x div 8 = offset \<and> 8 * i + x mod 8 < n then value_bytes v ! (8 * i + x mod 8) else mem x)"
  proof (cases "i = 0")
    case True
    then show ?thesis using r n
      by (auto simp: insert_cell_def fits_mod [OF f] Let_def GetCellPtr_def MEM_CELL_SIZE_def off_at_def value_bytes_def
          write_bytes_cell0 write_bytes_cell1 nth_Cons' split: if_splits)
  next
    case False
    then obtain e where e: "8 * i = Suc e" by (cases i) auto
    show ?thesis using r n lt False
      by (auto simp: insert_cell_def fits_mod [OF f] Let_def GetCellPtr_def MEM_CELL_SIZE_def off_at_def value_bytes_def
          write_bytes_cell0 nth_Cons' last [unfolded One_nat_def] e split: if_splits)
  qed
  show "Suc i < cells \<Longrightarrow> off' = off_at (Suc i)"
    using r n c by (auto simp: insert_cell_def fits_mod [OF f] Let_def MEM_CELL_SIZE_def off_at_def cells_for_def split: if_splits)
qed


lemma insert_cells_other:
  assumes f: "fits v" and n: "n = length (v_content v) + 1" and c: "cells = cells_for n"
  shows "chain nx offset cs t \<Longrightarrow> left = length cs \<Longrightarrow> left \<le> cells \<Longrightarrow> x div 8 \<notin> set cs \<Longrightarrow>
    insert_cells nx v cells left offset (off_at (cells - left)) mem x = mem x"
proof (induction left arbitrary: offset cs mem)
  case (Suc left)
  obtain m o' where b: "insert_cell v cells (cells - Suc left) offset (off_at (cells - Suc left)) mem = (m, o')"
    by fastforce
  have i: "cells - Suc left < cells" "cells - left = Suc (cells - Suc left)" using Suc.prems by simp_all
  note e = insert_cell_effect [OF f n c i(1) b]
  have u: "insert_cells nx v cells (Suc left) offset (off_at (cells - Suc left)) mem =
      insert_cells nx v cells left (nx offset) o' m" by (simp add: b)
  have "offset \<in> set cs" using Suc.prems(1) by (rule chain_head_in)
  then have m: "m x = mem x" using e(1) [of x] Suc.prems(4) by auto
  show ?case
  proof (cases left)
    case 0
    then show ?thesis using m unfolding u by simp
  next
    case (Suc k)
    then obtain y ys where cs: "cs = offset # y # ys" "chain nx (nx offset) (y # ys) t"
      using Suc.prems(1,2) by (cases cs rule: remdups_adj.cases) auto
    have "o' = off_at (cells - left)" using e(2) Suc Suc.prems(3) i by simp
    then show ?thesis
      using Suc.IH [OF cs(2), of m] Suc.prems cs m unfolding u by simp
  qed
qed simp

lemma insert_cells_value:
  assumes f: "fits v" and n: "n = length (v_content v) + 1" and c: "cells = cells_for n"
  shows "chain nx offset cs t \<Longrightarrow> distinct cs \<Longrightarrow> left = length cs \<Longrightarrow> left \<le> cells \<Longrightarrow> j < left \<Longrightarrow> b < 8 \<Longrightarrow>
    8 * (cells - left + j) + b < n \<Longrightarrow>
    insert_cells nx v cells left offset (off_at (cells - left)) mem (8 * cs ! j + b) =
      value_bytes v ! (8 * (cells - left + j) + b)"
proof (induction left arbitrary: offset cs mem j)
  case (Suc left)
  obtain m o' where ic: "insert_cell v cells (cells - Suc left) offset (off_at (cells - Suc left)) mem = (m, o')"
    by fastforce
  have i: "cells - Suc left < cells" "cells - left = Suc (cells - Suc left)" using Suc.prems by simp_all
  note e = insert_cell_effect [OF f n c i(1) ic]
  have u: "insert_cells nx v cells (Suc left) offset (off_at (cells - Suc left)) mem =
      insert_cells nx v cells left (nx offset) o' m" by (simp add: ic)
  have h: "cs ! 0 = offset" using Suc.prems(1) chain_head chain_not_Nil by (metis hd_conv_nth)
  show ?case
  proof (cases left)
    case 0
    then have j: "j = 0" using Suc.prems by simp
    have "m (8 * offset + b) = value_bytes v ! (8 * (cells - Suc left + j) + b)"
      using e(1) [of "8 * offset + b"] Suc.prems(6,7) j by simp
    then show ?thesis using 0 h unfolding u j by simp
  next
    case (Suc k)
    then obtain y ys where cs: "cs = offset # y # ys" "chain nx (nx offset) (y # ys) t"
      using Suc.prems(1,3) by (cases cs rule: remdups_adj.cases) auto
    have o': "o' = off_at (cells - left)" using e(2) Suc Suc.prems(4) i by simp
    show ?thesis
    proof (cases j)
      case 0
      have "insert_cells nx v cells left (nx offset) (off_at (cells - left)) m (8 * offset + b) = m (8 * offset + b)"
        using Suc.prems cs by (intro insert_cells_other [OF f n c cs(2)]) auto
      then show ?thesis using 0 e(1) [of "8 * offset + b"] h Suc.prems o' unfolding u by simp
    next
      case (Suc j')
      then have s: "cells - Suc left + j = cells - left + j'" "8 * cs ! j = 8 * (y # ys) ! j'" using i(2) cs by simp_all
      show ?thesis
        unfolding u s o' by (rule Suc.IH [OF cs(2)]) (use Suc Suc.prems cs s in auto)
    qed
  qed
qed simp

lemma overwrite_nth:
  assumes "n + length bs \<le> length xs" "j < length xs"
  shows "overwrite xs n bs ! j = (if n \<le> j \<and> j < n + length bs then bs ! (j - n) else xs ! j)"
  using assms by (auto simp: overwrite_def nth_append)

lemma overwrite_length: "n + length bs \<le> length xs \<Longrightarrow> length (overwrite xs n bs) = length xs"
  by (simp add: overwrite_def)

lemma read_bytes_nth [simp]: "i < n \<Longrightarrow> read_bytes mem a n ! i = mem (a + i)" "length (read_bytes mem a n) = n"
  by (simp_all add: read_bytes_def)

lemma read_cell_effect:
  assumes n: "n = len + 1" and c: "cells = cells_for n" "i < cells" and l: "length (v_content v) = len"
    and r: "read_cell mem len cells i offset (off_at i) v = (v', off')"
  shows "length (v_content v') = len"
    and "j < len \<Longrightarrow> v_content v' ! j = (if Suc j div 8 = i then mem (8 * offset + Suc j mod 8) else v_content v ! j)"
    and "v_type v' = (if i = 0 then mem (8 * offset) else v_type v)"
    and "Suc i < cells \<Longrightarrow> off' = off_at (Suc i)"
proof -
  have last: "i = cells - 1 \<longleftrightarrow> n \<le> 8 * i + 8" using c by (auto simp: cells_for_def)
  have lt: "8 * i < n" using c by (auto simp: cells_for_def)
  show "v_type v' = (if i = 0 then mem (8 * offset) else v_type v)"
    using r by (auto simp: read_cell_def Let_def GetCellPtr_def MEM_CELL_SIZE_def mult.commute split: if_splits)
  show "Suc i < cells \<Longrightarrow> off' = off_at (Suc i)"
    using r n c by (auto simp: read_cell_def Let_def MEM_CELL_SIZE_def off_at_def cells_for_def split: if_splits)
  show "length (v_content v') = len"
    using r n l lt last by (auto simp: read_cell_def Let_def MEM_CELL_SIZE_def off_at_def overwrite_length split: if_splits)
  assume j: "j < len"
  obtain q b where x: "Suc j = 8 * q + b" "b < 8" by (metis mod_less_divisor mult_div_mod_eq zero_less_numeral)
  then have d: "Suc j div 8 = q" "Suc j mod 8 = b" by auto
  show "v_content v' ! j = (if Suc j div 8 = i then mem (8 * offset + Suc j mod 8) else v_content v ! j)"
  proof (cases "i = 0")
    case True
    then show ?thesis using r n l j x unfolding d
      by (cases q) (auto simp: read_cell_def Let_def GetCellPtr_def MEM_CELL_SIZE_def off_at_def overwrite_nth mult.commute split: if_splits)
  next
    case False
    then obtain e where e: "8 * i = Suc e" by (cases i) auto
    then show ?thesis using r n l j x False lt unfolding d
      by (auto simp: read_cell_def Let_def GetCellPtr_def MEM_CELL_SIZE_def off_at_def overwrite_nth mult.commute
          last [unfolded One_nat_def] e split: if_splits)
  qed
qed

lemma read_cells_effect:
  assumes n: "n = len + 1" and c: "cells = cells_for n"
  shows "chain nx offset cs t \<Longrightarrow> left = length cs \<Longrightarrow> left \<le> cells \<Longrightarrow> length (v_content v) = len \<Longrightarrow>
    w = read_cells nx mem len cells left offset (off_at (cells - left)) v \<Longrightarrow>
    length (v_content w) = len \<and>
    v_type w = (if cells = left then mem (8 * cs ! 0) else v_type v) \<and>
    (\<forall>j<len. v_content w ! j =
      (if cells - left \<le> Suc j div 8 then mem (8 * cs ! (Suc j div 8 - (cells - left)) + Suc j mod 8) else v_content v ! j))"
proof (induction left arbitrary: offset cs v)
  case (Suc left)
  obtain v1 o1 where b: "read_cell mem len cells (cells - Suc left) offset (off_at (cells - Suc left)) v = (v1, o1)"
    by fastforce
  have i: "cells - Suc left < cells" "cells - left = Suc (cells - Suc left)" using Suc.prems by simp_all
  note e = read_cell_effect [OF n c i(1) Suc.prems(4) b]
  have w: "w = read_cells nx mem len cells left (nx offset) o1 v1" using Suc.prems(5) by (simp add: b)
  have h: "cs ! 0 = offset" using Suc.prems(1) chain_head chain_not_Nil by (metis hd_conv_nth)
  have q: "Suc j div 8 < cells" if "j < len" for j using that n c by (auto simp: cells_for_def)
  show ?case
  proof (cases left)
    case 0
    then have "w = v1" "cells - Suc left \<le> Suc j div 8 \<longleftrightarrow> Suc j div 8 = cells - Suc left" if "j < len" for j
      using w q [OF that] by auto
    moreover have "w = v1" using w 0 by simp
    ultimately show ?thesis using e h i 0 by auto
  next
    case (Suc k)
    then obtain y ys where cs: "cs = offset # y # ys" "chain nx (nx offset) (y # ys) t"
      using Suc.prems(1,2) by (cases cs rule: remdups_adj.cases) auto
    have o1: "o1 = off_at (cells - left)" using e(4) Suc Suc.prems(3) i by simp
    have l: "left = length (y # ys)" "left \<le> cells" "cells \<noteq> left" using Suc.prems cs by simp_all
    note IH = Suc.IH [OF cs(2) l(1,2) e(1) w [unfolded o1]]
    have "v_content w ! j = (if cells - Suc left \<le> Suc j div 8
        then mem (8 * cs ! (Suc j div 8 - (cells - Suc left)) + Suc j mod 8) else v_content v ! j)" if j: "j < len" for j
    proof (cases "Suc j div 8" "cells - Suc left" rule: linorder_cases)
      case greater
      then have "Suc j div 8 - (cells - Suc left) = Suc (Suc j div 8 - (cells - left))" using i(2) by simp
      then show ?thesis using IH j greater i(2) cs(1) by simp
    qed (use IH e(2) [OF j] j i(2) h in auto)
    then show ?thesis using IH e h l i by auto
  qed
qed simp

section \<open>What a header stands for\<close>

definition value_at :: "value_store \<Rightarrow> ValueHeader \<Rightarrow> nat list \<Rightarrow> value_t \<Rightarrow> bool" where
  "value_at s h cs v \<longleftrightarrow>
     (\<exists>t. chain (next_offset s) (head_offset h) cs t) \<and> distinct cs \<and> length cs = GetCellCount h \<and>
     byte_count h = length (v_content v) + 1 \<and>
     (\<forall>k<byte_count h. attached_mem s (8 * cs ! (k div 8) + k mod 8) = value_bytes v ! k)"

lemma ReadValue_value_at:
  assumes "value_at s h cs v"
  shows "ReadValue s h v0 = v"
proof -
  define len where "len = length (v_content v)"
  let ?cells = "cells_for (len + 1)"
  obtain t where ch: "chain (next_offset s) (head_offset h) cs t" and l: "length cs = ?cells"
    and bc: "byte_count h = len + 1"
    and m: "\<And>k. k < len + 1 \<Longrightarrow> attached_mem s (8 * cs ! (k div 8) + k mod 8) = value_bytes v ! k"
    using assms by (auto simp: value_at_def GetCellCount_eq len_def)
  define v1 where "v1 = v0\<lparr>v_content := resize len (v_content v0)\<rparr>"
  define w where "w = read_cells (next_offset s) (attached_mem s) len ?cells (length cs) (head_offset h)
      (off_at (?cells - length cs)) v1"
  have "length (v_content v1) = len" by (simp add: v1_def resize_def)
  note E = read_cells_effect [OF refl refl ch refl _ this w_def]
  have r: "ReadValue s h v0 = w"
    by (simp add: ReadValue_def bc GetCellCount_eq w_def v1_def l off_at_def Let_def)
  have "v_content w = v_content v"
  proof (rule nth_equalityI)
    show "length (v_content w) = length (v_content v)" using E l by (simp add: len_def)
    fix j assume "j < length (v_content w)"
    then have j: "j < len" using E l by simp
    then show "v_content w ! j = v_content v ! j"
      using E l m [of "Suc j"] by (simp add: value_bytes_def)
  qed
  moreover have "v_type w = v_type v" using E l m [of 0] by (simp add: value_bytes_def)
  ultimately show ?thesis unfolding r by simp
qed

section \<open>Allocating and freeing chains\<close>

definition same_block :: "thread_block \<Rightarrow> thread_block \<Rightarrow> bool" where
  "same_block b b' \<longleftrightarrow> block_head b = block_head b' \<and> block_tail b = block_tail b' \<and> free_cell_count b = free_cell_count b'"

lemma same_block_count [simp]: "same_block (count_get n p b) b" "same_block (count_free n p b) b"
  by (simp_all add: same_block_def count_get_def count_free_def)

lemma set_block_simps [simp]:
  "next_offset (set_block p i b) = next_offset p" "cell_count (set_block p i b) = cell_count p"
  "nthreads (set_block p i b) = nthreads p" "BLOCK_SIZE (set_block p i b) = BLOCK_SIZE p"
  "set_block (set_block p i b) i b' = set_block p i b'"
  by (simp_all add: set_block_def)

lemma set_block_rep:
  assumes "pool_rep (set_block p i b) bl sh" "same_block b' b"
  shows "pool_rep (set_block p i b') bl sh"
  using pool_rep_counters [of p i b bl sh b'] assms by (simp add: set_block_def same_block_def)

lemma set_block_rep_same:
  assumes "pool_rep p bl sh" "same_block b' (thread_local_block p ! i)"
  shows "pool_rep (set_block p i b') bl sh"
proof -
  have "set_block p i (thread_local_block p ! i) = p" by (simp add: set_block_def)
  then show ?thesis using set_block_rep [of p i "thread_local_block p ! i" bl sh b'] assms by simp
qed

lemma fetch_block_set:
  assumes rep: "pool_rep p bl sh" and i: "i < length bl" and lb: "same_block lb (thread_local_block p ! i)"
  shows "fetch_block p lb =
      (if BLOCK_SIZE p + 2 \<le> length sh then Some (fetched_pool p lb sh, fetched_block p lb sh) else None)"
    and "BLOCK_SIZE p + 2 \<le> length sh \<Longrightarrow>
      pool_rep (set_block (fetched_pool p lb sh) i (fetched_block p lb sh))
        (bl[i := bl ! i @ take (BLOCK_SIZE p) sh]) (drop (BLOCK_SIZE p) sh)"
proof -
  let ?b = "thread_local_block p ! i"
  have fp: "fetched_pool p lb sh = fetched_pool p ?b sh" using lb by (simp add: fetched_pool_def same_block_def)
  have tlb: "thread_local_block (fetched_pool p ?b sh) = thread_local_block p" by (simp add: fetched_pool_def)
  have sb: "same_block (fetched_block p lb sh) (fetched_block p ?b sh)"
    using lb by (simp add: fetched_block_def same_block_def)
  assume l: "BLOCK_SIZE p + 2 \<le> length sh"
  have "pool_rep (set_block (fetched_pool p ?b sh) i (fetched_block p ?b sh))
      (bl[i := bl ! i @ take (BLOCK_SIZE p) sh]) (drop (BLOCK_SIZE p) sh)"
    unfolding set_block_def tlb by (rule fetched_rep [OF rep i refl l])
  then show "pool_rep (set_block (fetched_pool p lb sh) i (fetched_block p lb sh))
        (bl[i := bl ! i @ take (BLOCK_SIZE p) sh]) (drop (BLOCK_SIZE p) sh)"
    unfolding fp using sb by (rule set_block_rep)
next
  show "fetch_block p lb =
      (if BLOCK_SIZE p + 2 \<le> length sh then Some (fetched_pool p lb sh, fetched_block p lb sh) else None)"
    using fetch_block_eq_tail [OF rep i] lb by (simp add: same_block_def)
qed

lemma pop_cells_rep:
  assumes rep: "pool_rep (set_block p i lb) bl sh" and i: "i < length bl"
    and n: "0 < n" "n + 2 \<le> length (bl ! i)" and pop: "pop_cells n p lb i = (h, p')"
  shows "chain (next_offset p') h (take n (bl ! i)) (bl ! i ! (n - 1))" "pool_rep p' (bl[i := drop n (bl ! i)]) sh"
    "next_offset p' = next_offset p" "cell_count p' = cell_count p" "nthreads p' = nthreads p"
    "BLOCK_SIZE p' = BLOCK_SIZE p"
proof -
  have lb: "lb = thread_local_block (set_block p i lb) ! i"
    using pool_rep_block(7) [OF rep i] by (simp add: set_block_def)
  note own = pool_rep_block [OF rep i, folded lb]
  show "next_offset p' = next_offset p" "cell_count p' = cell_count p" "nthreads p' = nthreads p"
    "BLOCK_SIZE p' = BLOCK_SIZE p"
    using pop by (auto simp: pop_cells_def)
  show "chain (next_offset p') h (take n (bl ! i)) (bl ! i ! (n - 1))"
    using chain_take [OF own(1) n(1)] n pop by (auto simp: pop_cells_def)
  show "pool_rep p' (bl[i := drop n (bl ! i)]) sh"
    using take_rep [OF rep i lb n(2)] pop by (auto simp: pop_cells_def set_block_def)
qed

lemma shared_take_rep:
  assumes rep: "pool_rep p bl sh" and n: "n + 2 \<le> length sh"
  shows "pool_rep (p\<lparr>shared_head := sh ! n\<rparr>) bl (drop n sh)"
proof -
  have c: "chain (next_offset p) (shared_head p) sh (shared_tail p)" using rep by (simp add: pool_rep_def)
  have "chain (next_offset p) (sh ! n) (drop n sh) (shared_tail p)"
    using chain_drop [OF c, of n] chain_walk [OF c, of n] n by simp
  then show ?thesis using rep n set_drop_subset [of n sh] by (auto simp: pool_rep_def)
qed

lemma shared_append_rep:
  assumes rep: "pool_rep p bl sh"
    and c: "chain (next_offset p) h cs t" "distinct cs" "set cs \<inter> free_set bl sh = {}" "set cs \<subseteq> {..<cell_count p}"
  shows "pool_rep (p\<lparr>next_offset := (next_offset p)(shared_tail p := h), shared_tail := t\<rparr>) bl (sh @ cs)"
proof -
  note s = pool_rep_shared [OF rep]
  have "distinct (sh @ cs)" using s c by auto
  then have "chain ((next_offset p)(shared_tail p := h)) (shared_head p) (sh @ cs) t"
    by (rule chain_link [OF s(1) c(1)])
  moreover have "block_rep ((next_offset p)(shared_tail p := h)) b (bl ! i) = block_rep (next_offset p) b (bl ! i)"
    if "i < length bl" for i b
  proof -
    have "shared_tail p \<notin> set (bl ! i)" using pool_rep_block(5) [OF rep that] s(4) by auto
    then have "shared_tail p \<notin> set (butlast (bl ! i))" by (auto dest: in_set_butlastD)
    then show ?thesis by (simp add: block_rep_def)
  qed
  ultimately show ?thesis using rep c by (auto simp: pool_rep_def free_set_def)
qed

text \<open>Moving cells between the free lists and the client.\<close>

lemma used_after_get:
  assumes rep: "pool_rep p bl sh" and U: "U = {..<cell_count p} - free_set bl sh"
    and rep': "pool_rep p' bl' sh'" "bounded_blocks (BLOCK_SIZE p') bl'" "cell_count p' = cell_count p"
    and m: "mset (concat bl @ sh) = mset cs + mset (concat bl' @ sh')"
  shows "distinct cs" "set cs \<inter> U = {}" "pool_used p' (U \<union> set cs)"
proof -
  have "mset (concat bl @ sh) = mset (cs @ concat bl' @ sh')" using m by simp
  then have d: "distinct (cs @ concat bl' @ sh')"
    using rep by (metis mset_eq_imp_distinct_iff pool_rep_def)
  then show "distinct cs" by simp
  have f: "free_set bl sh = set cs \<union> free_set bl' sh'"
    using arg_cong [OF m, of set_mset] by (simp add: free_set_def)
  then show "set cs \<inter> U = {}" using U by auto
  have "set cs \<inter> free_set bl' sh' = {}" using d by (auto simp: free_set_def)
  then have "U \<union> set cs = {..<cell_count p'} - free_set bl' sh'"
    using U f pool_rep_free_range [OF rep] rep'(3) by auto
  then show "pool_used p' (U \<union> set cs)" using rep' by (auto simp: pool_used_def)
qed

lemma used_after_free:
  assumes rep: "pool_rep p bl sh" and U: "U = {..<cell_count p} - free_set bl sh"
    and rep': "pool_rep p' bl' sh'" "bounded_blocks (BLOCK_SIZE p') bl'" "cell_count p' = cell_count p"
    and m: "mset (concat bl' @ sh') = mset cs + mset (concat bl @ sh)"
  shows "pool_used p' (U - set cs)"
proof -
  have "free_set bl' sh' = set cs \<union> free_set bl sh"
    using arg_cong [OF m, of set_mset] by (simp add: free_set_def)
  then have "U - set cs = {..<cell_count p'} - free_set bl' sh'" using U rep'(3) by auto
  then show ?thesis using rep' by (auto simp: pool_used_def)
qed

lemma block_update_mset:
  assumes "i < length bl" "mset (bl ! i @ sh) = mset cs + mset (xs @ sh')"
  shows "mset (concat bl @ sh) = mset cs + mset (concat (bl[i := xs]) @ sh')"
proof -
  have "mset (concat bl @ sh) + mset (xs @ sh') = mset (concat (bl[i := xs]) @ sh') + (mset cs + mset (xs @ sh'))"
    unfolding assms(2) [symmetric] by (rule free_mset_update [OF assms(1), symmetric])
  also have "\<dots> = mset cs + mset (concat (bl[i := xs]) @ sh') + mset (xs @ sh')" by (simp only: ac_simps)
  finally show ?thesis by (rule add_right_imp_eq)
qed

lemma mset_split: "mset xs = mset (take n xs) + mset (drop n xs)"
  by (metis append_take_drop_id mset_append)

lemma mset_rotate: "mset (xs @ ys) = mset (drop n xs @ ys @ take n xs)"
  using mset_split [of xs n] by simp

text \<open>The outcome of a multi-cell allocation, as the client sees it.\<close>

definition got_cells :: "'a mem_pool_scheme \<Rightarrow> nat set \<Rightarrow> nat \<Rightarrow> nat \<Rightarrow> 'a mem_pool_scheme \<Rightarrow> nat list \<Rightarrow> bool" where
  "got_cells p U n h p' cs \<longleftrightarrow>
     (\<exists>t. chain (next_offset p') h cs t) \<and> length cs = n \<and> distinct cs \<and> set cs \<inter> U = {} \<and>
     pool_used p' (U \<union> set cs) \<and> nthreads p' = nthreads p \<and> cell_count p' = cell_count p \<and>
     (\<forall>x\<in>U. next_offset p' x = next_offset p x)"

lemma pop_cells_got:
  assumes rep0: "pool_rep p0 bl0 sh0" and U: "U = {..<cell_count p0} - free_set bl0 sh0"
    and rep: "pool_rep (set_block p i lb) bl sh" and i: "i < length bl"
    and b: "length (bl ! i) < 2 * BLOCK_SIZE p + n" "\<forall>j<length bl. j \<noteq> i \<longrightarrow> length (bl ! j) < 2 * BLOCK_SIZE p"
    and n: "0 < n" "n + 2 \<le> length (bl ! i)"
    and same: "cell_count p = cell_count p0" "nthreads p = nthreads p0" "\<forall>x\<in>U. next_offset p x = next_offset p0 x"
    and m: "mset (concat bl @ sh) = mset (concat bl0 @ sh0)"
    and pop: "pop_cells n p lb i = (h, p')"
  shows "got_cells p0 U n h p' (take n (bl ! i))"
proof -
  note P = pop_cells_rep [OF rep i n pop]
  have "mset (concat bl0 @ sh0) = mset (take n (bl ! i)) + mset (concat (bl[i := drop n (bl ! i)]) @ sh)"
    unfolding m [symmetric] by (rule block_update_mset [OF i]) (simp flip: mset_append append_assoc)
  moreover have "bounded_blocks (BLOCK_SIZE p') (bl[i := drop n (bl ! i)])"
    using b n i P(6) by (auto simp: bounded_blocks_def all_set_conv_all_nth nth_list_update less_diff_conv2)
  ultimately show ?thesis
    using used_after_get [OF rep0 U P(2)] P same n by (auto simp: got_cells_def)
qed

lemma ValueStore_Get_got:
  assumes u: "pool_used p U" and tid: "tid < nthreads p" and n: "0 < n"
    and g: "ValueStore_Get p n tid = Some (h, p')"
  shows "\<exists>cs. got_cells p U n h p' cs"
proof -
  obtain bl sh where rep: "pool_rep p bl sh" and b: "bounded_blocks (BLOCK_SIZE p) bl"
    and U: "U = {..<cell_count p} - free_set bl sh"
    using u by (auto simp: pool_used_def)
  have i: "tid < length bl" using rep tid by (simp add: pool_rep_def)
  define lb where "lb = count_get n p (thread_local_block p ! tid)"
  have sb: "same_block lb (thread_local_block p ! tid)" by (simp add: lb_def)
  note own = pool_rep_block [OF rep i] and s = pool_rep_shared [OF rep]
  have f: "free_cell_count lb = length (bl ! tid)" using sb own(2) by (simp add: same_block_def)
  have bt: "length (bl ! tid) < 2 * BLOCK_SIZE p + n" using b i by (auto simp: bounded_blocks_def intro: trans_less_add1)
  consider (shared) "BLOCK_SIZE p < n" "length (bl ! tid) < n + 2"
    | (refill) "n \<le> BLOCK_SIZE p" "length (bl ! tid) < n + 2" | (own) "n + 2 \<le> length (bl ! tid)" by linarith
  then show ?thesis
  proof cases
    case shared
    then have "n + 2 \<le> length sh" and p': "h = shared_head p" "p' = set_block (p\<lparr>shared_head := sh ! n\<rparr>) tid lb"
      using g f fetch_loop_chain [OF s(1,5,2), of n 0]
      by (auto simp: ValueStore_Get_def lb_def [symmetric] Let_def split: if_splits)
    note r = shared_take_rep [OF rep this(1)]
    have rep': "pool_rep p' bl (drop n sh)" unfolding p'(2) using r sb by (intro set_block_rep_same) auto
    have "chain (next_offset p') h (take n sh) (sh ! (n - 1))"
      using chain_take [OF s(1) n] \<open>n + 2 \<le> length sh\<close> p' by simp
    moreover have "mset (concat bl @ sh) = mset (take n sh) + mset (concat bl @ drop n sh)"
      using mset_split [of sh n] by simp
    ultimately have "got_cells p U n h p' (take n sh)"
      using used_after_get [OF rep U rep'] b p' \<open>n + 2 \<le> length sh\<close> by (auto simp: got_cells_def)
    then show ?thesis ..
  next
    case refill
    then have l: "BLOCK_SIZE p + 2 \<le> length sh"
      and pop: "pop_cells n (fetched_pool p lb sh) (fetched_block p lb sh) tid = (h, p')"
      using g f fetch_block_set(1) [OF rep i sb]
      by (auto simp: ValueStore_Get_def lb_def [symmetric] Let_def split: if_splits)
    have bt: "block_tail lb \<notin> U" using own(4,6) sb U by (auto simp: same_block_def)
    have "got_cells p U n h p' (take n (bl[tid := bl ! tid @ take (BLOCK_SIZE p) sh] ! tid))"
    proof (rule pop_cells_got [OF rep U fetch_block_set(2) [OF rep i sb l] _ _ _ n _ _ _ _ _ pop])
      show "mset (concat (bl[tid := bl ! tid @ take (BLOCK_SIZE p) sh]) @ drop (BLOCK_SIZE p) sh) = mset (concat bl @ sh)"
        using block_update_mset [OF i, of sh "[]" "bl ! tid @ take (BLOCK_SIZE p) sh" "drop (BLOCK_SIZE p) sh"]
          mset_split [of sh "BLOCK_SIZE p"] by simp
    qed (use i own l refill s b bt in \<open>auto simp: fetched_pool_def bounded_blocks_def nth_list_update\<close>)
    then show ?thesis ..
  next
    case own
    then have pop: "pop_cells n p lb tid = (h, p')"
      using g f by (auto simp: ValueStore_Get_def lb_def [symmetric] Let_def split: if_splits)
    have "got_cells p U n h p' (take n (bl ! tid))"
      by (rule pop_cells_got [OF rep U set_block_rep_same [OF rep sb] i _ _ n own _ _ _ _ pop])
         (use b i bt in \<open>auto simp: bounded_blocks_def\<close>)
    then show ?thesis ..
  qed
qed


lemma walk_link:
  assumes "chain nx h cs t" "b \<notin> set cs"
  shows "walk (nx(b := h)) (length cs) b = t"
proof -
  have c: "chain (nx(b := h)) h cs t" using assms by (subst chain_upd) (auto dest: in_set_butlastD)
  have "walk (nx(b := h)) (Suc (length cs - 1)) b = walk (nx(b := h)) (length cs - 1) h" by simp
  also have "\<dots> = cs ! (length cs - 1)" using chain_not_Nil [OF assms(1)] by (intro chain_walk [OF c]) simp
  also have "\<dots> = t" using chain_tail [OF assms(1)] chain_not_Nil [OF assms(1)] by (simp add: last_conv_nth)
  finally show ?thesis using chain_not_Nil [OF assms(1)] by simp
qed

text \<open>The local branch of \<open>Free\<close>: append to the own block, then give back what is above \<open>BLOCK_SIZE\<close>.\<close>

lemma ValueStore_Free_local:
  assumes rep: "pool_rep p bl sh" and i: "i < length bl" and b: "bounded_blocks (BLOCK_SIZE p) bl"
    and U: "U = {..<cell_count p} - free_set bl sh"
    and c: "chain (next_offset p) h cs t" "distinct cs" "set cs \<subseteq> U"
    and lb: "same_block lb (thread_local_block p ! i)"
    and p1: "p1 = p\<lparr>next_offset := (next_offset p)(block_tail lb := h)\<rparr>"
    and lb1: "lb1 = lb\<lparr>free_cell_count := free_cell_count lb + length cs, block_tail := t\<rparr>"
    and r: "(p2, lb2) = (if 2 * BLOCK_SIZE p \<le> free_cell_count lb1
        then give_back (free_cell_count lb1 - BLOCK_SIZE p) p1 lb1 else (p1, lb1))"
  shows "pool_used (set_block p2 i lb2) (U - set cs)"
proof -
  have c': "set cs \<inter> free_set bl sh = {}" "set cs \<subseteq> {..<cell_count p}" using c(3) U by auto
  let ?b = "bl ! i @ cs" and ?bl = "bl[i := bl ! i @ cs]" and ?B = "BLOCK_SIZE p"
  note own = pool_rep_block [OF rep i] and s = pool_rep_shared [OF rep]
  have "pool_rep (set_block p1 i ((thread_local_block p ! i)\<lparr>block_tail := t,
      free_cell_count := free_cell_count (thread_local_block p ! i) + length cs\<rparr>)) ?bl sh"
    using append_rep [OF rep i refl c(1,2) c'] lb by (simp add: p1 set_block_def same_block_def)
  then have rep1: "pool_rep (set_block p1 i lb1) ?bl sh"
    by (rule set_block_rep) (use lb in \<open>simp add: lb1 same_block_def\<close>)
  have f: "free_cell_count lb1 = length ?b" using own(2) lb by (simp add: lb1 same_block_def)
  have m1: "mset (concat ?bl @ sh) = mset cs + mset (concat bl @ sh)"
    using mset_concat_update [OF i, of ?b] by (simp add: ac_simps)
  have same: "BLOCK_SIZE p1 = ?B" "cell_count p1 = cell_count p" by (simp_all add: p1)
  show ?thesis
  proof (cases "2 * ?B \<le> length ?b")
    case False
    then have "p2 = p1" "lb2 = lb1" using r f by simp_all
    moreover have "bounded_blocks ?B ?bl" using b False by (intro bounded_blocks_update) auto
    ultimately show ?thesis using used_after_free [OF rep U rep1 _ _ m1] same by simp
  next
    case True
    define n where "n = length ?b - ?B"
    have n: "0 < n" "n + 2 \<le> length (?bl ! i)" using True s(3) i by (auto simp: n_def)
    have g: "give_back n (set_block p1 i lb1) lb1 = (set_block p2 i lb1, lb2)"
      using r f True by (auto simp: n_def give_back_def Let_def set_block_def)
    have lbe: "lb1 = thread_local_block (set_block p1 i lb1) ! i"
      using own(7) by (simp add: set_block_def p1)
    have "pool_rep (set_block (set_block p2 i lb1) i lb2) (?bl[i := drop n (?bl ! i)]) (sh @ take n (?bl ! i))"
      using give_back_rep [OF rep1 _ lbe n g] i by (simp add: set_block_def)
    then have rep2: "pool_rep (set_block p2 i lb2) (bl[i := drop n ?b]) (sh @ take n ?b)"
      using i by simp
    have "mset (?bl ! i @ sh) = mset [] + mset (drop n ?b @ sh @ take n ?b)"
      using i mset_rotate [of ?b sh n] by (simp only: nth_list_update_eq mset.simps add_0)
    from block_update_mset [OF _ this] i
    have "mset (concat (bl[i := drop n ?b]) @ sh @ take n ?b) = mset (concat ?bl @ sh)" by simp
    moreover have "bounded_blocks ?B (bl[i := drop n ?b])"
      using b True s(3) by (intro bounded_blocks_update) (auto simp: n_def)
    moreover have "BLOCK_SIZE p2 = ?B" "cell_count p2 = cell_count p"
      using r same by (auto simp: give_back_def Let_def split: if_splits)
    ultimately show ?thesis using used_after_free [OF rep U rep2] m1 by simp
  qed
qed

lemma ValueStore_Free_used:
  assumes u: "pool_used p U" and tid: "tid < nthreads p"
    and c: "chain (next_offset p) h cs t" "distinct cs" "set cs \<subseteq> U"
  shows "pool_used (ValueStore_Free p h (length cs) tid) (U - set cs)"
proof -
  obtain bl sh where rep: "pool_rep p bl sh" and b: "bounded_blocks (BLOCK_SIZE p) bl"
    and U: "U = {..<cell_count p} - free_set bl sh"
    using u by (auto simp: pool_used_def)
  have i: "tid < length bl" using rep tid by (simp add: pool_rep_def)
  define lb where "lb = count_free (length cs) p (thread_local_block p ! tid)"
  have sb: "same_block lb (thread_local_block p ! tid)" by (simp add: lb_def)
  note own = pool_rep_block [OF rep i] and s = pool_rep_shared [OF rep]
  have ne: "cs \<noteq> []" using c(1) by (rule chain_not_Nil)
  show ?thesis
  proof (cases "BLOCK_SIZE p < length cs \<and> 2 * BLOCK_SIZE p \<le> free_cell_count lb + length cs")
    case True
    let ?q = "p\<lparr>next_offset := (next_offset p)(shared_tail p := h), shared_tail := t\<rparr>"
    have "walk (next_offset p) (length cs - 1) h = t"
      using chain_walk [OF c(1), of "length cs - 1"] chain_tail [OF c(1)] ne by (simp add: last_conv_nth)
    then have F: "ValueStore_Free p h (length cs) tid = set_block ?q tid lb"
      using True by (simp add: ValueStore_Free_def lb_def [symmetric] Let_def)
    have "pool_rep ?q bl (sh @ cs)" using c U by (intro shared_append_rep [OF rep c(1,2)]) auto
    then have "pool_rep (set_block ?q tid lb) bl (sh @ cs)" using sb by (intro set_block_rep_same) auto
    then show ?thesis unfolding F using used_after_free [OF rep U, of "set_block ?q tid lb" bl "sh @ cs" cs] b
      by (simp add: ac_simps)
  next
    case False
    have "block_tail lb \<notin> set cs" using c(3) U own(4,6) sb by (auto simp: same_block_def)
    note w = walk_link [OF c(1) this]
    obtain p2 lb2 where r: "(p2, lb2) = (if 2 * BLOCK_SIZE p \<le> free_cell_count lb + length cs
        then give_back (free_cell_count lb + length cs - BLOCK_SIZE p) (p\<lparr>next_offset := (next_offset p)(block_tail lb := h)\<rparr>)
          (lb\<lparr>free_cell_count := free_cell_count lb + length cs, block_tail := t\<rparr>)
        else (p\<lparr>next_offset := (next_offset p)(block_tail lb := h)\<rparr>,
          lb\<lparr>free_cell_count := free_cell_count lb + length cs, block_tail := t\<rparr>))" by (metis surj_pair)
    then have F: "ValueStore_Free p h (length cs) tid = set_block p2 tid lb2"
      using False w by (auto simp: ValueStore_Free_def lb_def [symmetric] Let_def split: prod.splits if_splits)
    show ?thesis unfolding F
      by (rule ValueStore_Free_local [OF rep i b U c sb refl refl]) (use r in simp)
  qed
qed

lemma ValueStore_Free_frame:
  assumes u: "pool_used p U" and tid: "tid < nthreads p" and x: "x \<in> U"
  shows "next_offset (ValueStore_Free p h n tid) x = next_offset p x"
    "nthreads (ValueStore_Free p h n tid) = nthreads p" "cell_count (ValueStore_Free p h n tid) = cell_count p"
proof -
  obtain bl sh where rep: "pool_rep p bl sh" and U: "U = {..<cell_count p} - free_set bl sh"
    using u by (auto simp: pool_used_def)
  have i: "tid < length bl" using rep tid by (simp add: pool_rep_def)
  have "x \<noteq> block_tail (thread_local_block p ! tid)" "x \<noteq> shared_tail p"
    using x U pool_rep_block(4,6) [OF rep i] pool_rep_shared(4,6) [OF rep] by auto
  then show "next_offset (ValueStore_Free p h n tid) x = next_offset p x"
    "nthreads (ValueStore_Free p h n tid) = nthreads p" "cell_count (ValueStore_Free p h n tid) = cell_count p"
    by (auto simp: ValueStore_Free_def count_free_def give_back_def Let_def split: prod.splits if_splits)
qed

section \<open>The store as a map from headers to values\<close>

text \<open>
  What the property lists rely on: the store behaves as a finite map from the headers it has handed
  out to the values they stand for. \<open>store_run\<close> is any interleaving of insertions of values that fit and
  of deletions of values that are present.
\<close>

inductive store_run :: "('v \<Rightarrow> bool) \<Rightarrow> ('s \<Rightarrow> 'v \<Rightarrow> nat \<Rightarrow> ('h \<times> 's) option) \<Rightarrow> ('s \<Rightarrow> 'h \<Rightarrow> nat \<Rightarrow> 's) \<Rightarrow> ('s \<Rightarrow> nat) \<Rightarrow>
    's \<times> ('h \<rightharpoonup> 'v) \<Rightarrow> 's \<times> ('h \<rightharpoonup> 'v) \<Rightarrow> bool" for fit insert free threads where
  store_refl: "store_run fit insert free threads c c"
| store_insert: "store_run fit insert free threads c (s, M) \<Longrightarrow> tid < threads s \<Longrightarrow> fit v \<Longrightarrow> insert s v tid = Some (h, s') \<Longrightarrow>
    store_run fit insert free threads c (s', M(h \<mapsto> v))"
| store_free: "store_run fit insert free threads c (s, M) \<Longrightarrow> tid < threads s \<Longrightarrow> M h \<noteq> None \<Longrightarrow>
    store_run fit insert free threads c (free s h tid, M(h := None))"

locale value_storage =
  fixes fit :: "'v \<Rightarrow> bool"
    and insert :: "'s \<Rightarrow> 'v \<Rightarrow> nat \<Rightarrow> ('h \<times> 's) option"
    and read :: "'s \<Rightarrow> 'h \<Rightarrow> 'v \<Rightarrow> 'v"
    and free :: "'s \<Rightarrow> 'h \<Rightarrow> nat \<Rightarrow> 's"
    and abs :: "'s \<Rightarrow> ('h \<rightharpoonup> 'v) \<Rightarrow> bool"
    and threads :: "'s \<Rightarrow> nat"
  assumes insert_law: "abs s M \<Longrightarrow> tid < threads s \<Longrightarrow> fit v \<Longrightarrow> insert s v tid = Some (h, s') \<Longrightarrow>
      M h = None \<and> abs s' (M(h \<mapsto> v)) \<and> threads s' = threads s"
    and read_law: "abs s M \<Longrightarrow> M h = Some v \<Longrightarrow> read s h w = v"
    and free_law: "abs s M \<Longrightarrow> tid < threads s \<Longrightarrow> M h \<noteq> None \<Longrightarrow>
      abs (free s h tid) (M(h := None)) \<and> threads (free s h tid) = threads s"
begin

lemma run_abs:
  assumes "store_run fit insert free threads (s0, M0) (s, M)" "abs s0 M0"
  shows "abs s M \<and> threads s = threads s0"
  using assms
proof (induction "(s0, M0)" "(s, M)" arbitrary: s M rule: store_run.induct)
  case (store_insert s M tid v h s')
  then show ?case using insert_law by metis
next
  case (store_free s M tid h)
  then show ?case using free_law by metis
qed simp

lemma run_read:
  assumes "store_run fit insert free threads (s0, M0) (s, M)" "abs s0 M0" "M h = Some v"
  shows "read s h w = v"
  using run_abs [OF assms(1,2)] read_law assms(3) by blast

lemma insert_read:
  assumes "abs s M" "tid < threads s" "fit v" "insert s v tid = Some (h, s')"
  shows "read s' h w = v" "M h' = Some v' \<Longrightarrow> read s' h' w = v'"
  using insert_law [OF assms] by (auto intro!: read_law)

end

definition store_abs :: "value_store \<Rightarrow> (ValueHeader \<rightharpoonup> value_t) \<Rightarrow> bool" where
  "store_abs s M \<longleftrightarrow>
     (\<exists>cells. (\<forall>h v. M h = Some v \<longrightarrow> value_at s h (cells h) v) \<and>
        (\<forall>h\<in>dom M. \<forall>h'\<in>dom M. h \<noteq> h' \<longrightarrow> set (cells h) \<inter> set (cells h') = {}) \<and>
        pool_used s (\<Union>h\<in>dom M. set (cells h)))"

lemma value_at_frame:
  assumes "value_at s h cs v"
    and nx: "\<And>x. x \<in> set cs \<Longrightarrow> next_offset s' x = next_offset s x"
    and mem: "\<And>x b. x \<in> set cs \<Longrightarrow> b < 8 \<Longrightarrow> attached_mem s' (8 * x + b) = attached_mem s (8 * x + b)"
  shows "value_at s' h cs v"
proof -
  obtain t where "chain (next_offset s) (head_offset h) cs t" using assms(1) by (auto simp: value_at_def)
  then have "chain (next_offset s') (head_offset h) cs t"
    by (subst chain_cong_next) (auto simp: nx dest: in_set_butlastD)
  moreover have "attached_mem s' (8 * cs ! (k div 8) + k mod 8) = attached_mem s (8 * cs ! (k div 8) + k mod 8)"
    if "k < byte_count h" for k
  proof (rule mem)
    show "cs ! (k div 8) \<in> set cs"
      using that assms(1) by (intro nth_mem) (auto simp: value_at_def GetCellCount_eq cells_for_def)
  qed simp
  ultimately show ?thesis using assms(1) by (auto simp: value_at_def)
qed

lemma value_at_head: "value_at s h cs v \<Longrightarrow> head_offset h \<in> set cs"
  by (auto simp: value_at_def intro: chain_head_in)

lemma ValueStore_Get_mem:
  "ValueStore_Get s n tid = Some (h, s') \<Longrightarrow> attached_mem s' = attached_mem s"
  by (auto simp: ValueStore_Get_def pop_cells_def set_block_def fetch_block_def Let_def split: if_splits option.splits)

lemma ValueStore_Free_mem: "attached_mem (ValueStore_Free s h n tid) = attached_mem s"
  by (auto simp: ValueStore_Free_def set_block_def give_back_def Let_def split: prod.splits if_splits)

lemma InsertValue_value_at:
  assumes f: "fits v" and u: "pool_used s U" and tid: "tid < nthreads s" and r: "InsertValue s v tid = Some (h, s')"
  shows "\<exists>cs. value_at s' h cs v \<and> set cs \<inter> U = {} \<and> pool_used s' (U \<union> set cs) \<and> nthreads s' = nthreads s \<and>
    (\<forall>x\<in>U. next_offset s' x = next_offset s x) \<and>
    (\<forall>x\<in>U. \<forall>b<8. attached_mem s' (8 * x + b) = attached_mem s (8 * x + b))"
proof -
  define n where "n = length (v_content v) + 1"
  define cells where "cells = cells_for n"
  obtain o' s1 where g: "ValueStore_Get s cells tid = Some (o', s1)"
    and h: "h = \<lparr>head_offset = o', byte_count = n\<rparr>"
    and s': "s' = s1\<lparr>attached_mem := insert_cells (next_offset s1) v cells cells o' 0 (attached_mem s1)\<rparr>"
    using r fits_mod(2) [OF f] by (auto simp: InsertValue_def GetCellCount_eq cells_def n_def Let_def split: option.splits)
  have "0 < cells" by (simp add: cells_def cells_for_def n_def)
  then obtain cs t where c: "chain (next_offset s1) o' cs t" "length cs = cells" "distinct cs" "set cs \<inter> U = {}"
    "pool_used s1 (U \<union> set cs)" "nthreads s1 = nthreads s" "\<forall>x\<in>U. next_offset s1 x = next_offset s x"
    using ValueStore_Get_got [OF u tid _ g] by (auto simp: got_cells_def)
  have off: "0 = off_at (cells - cells)" by (simp add: off_at_def)
  have "attached_mem s' (8 * cs ! (k div 8) + k mod 8) = value_bytes v ! k" if "k < n" for k
    using insert_cells_value [OF f n_def cells_def c(1,3), of cells "k div 8" "k mod 8" "attached_mem s1"] that c(2) off
    by (simp add: s' cells_def cells_for_def)
  then have v: "value_at s' h cs v"
    using c by (auto simp: value_at_def h GetCellCount_eq cells_def n_def s')
  have "pool_used s' (U \<union> set cs)" using c(5) by (simp add: s' pool_used_def pool_rep_def)
  moreover have "attached_mem s' (8 * x + b) = attached_mem s (8 * x + b)" if "x \<in> U" "b < 8" for x b
  proof -
    have "(8 * x + b) div 8 = x" using that(2) by simp
    then show ?thesis
      using insert_cells_other [OF f n_def cells_def c(1), of cells "8 * x + b" "attached_mem s1"] that c(2,4) off
        ValueStore_Get_mem [OF g] by (auto simp: s')
  qed
  ultimately show ?thesis using v c by (intro exI [of _ cs]) (simp add: s')
qed

lemma store_abs_insert:
  assumes a: "store_abs s M" and tid: "tid < nthreads s" and f: "fits v" and r: "InsertValue s v tid = Some (h, s')"
  shows "M h = None \<and> store_abs s' (M(h \<mapsto> v)) \<and> nthreads s' = nthreads s"
proof -
  obtain cells where A: "\<forall>h v. M h = Some v \<longrightarrow> value_at s h (cells h) v"
    "\<forall>h\<in>dom M. \<forall>h'\<in>dom M. h \<noteq> h' \<longrightarrow> set (cells h) \<inter> set (cells h') = {}"
    "pool_used s (\<Union>h\<in>dom M. set (cells h))"
    using a unfolding store_abs_def by blast
  define U where "U = (\<Union>h\<in>dom M. set (cells h))"
  obtain cs where c: "value_at s' h cs v" "set cs \<inter> U = {}" "pool_used s' (U \<union> set cs)" "nthreads s' = nthreads s"
    "\<forall>x\<in>U. next_offset s' x = next_offset s x"
    "\<forall>x\<in>U. \<forall>b<8. attached_mem s' (8 * x + b) = attached_mem s (8 * x + b)"
    using InsertValue_value_at [OF f A(3) tid r, folded U_def] by (elim exE conjE)
  have U: "set (cells k) \<subseteq> U" if "k \<in> dom M" for k using that by (auto simp: U_def)
  have new: "h \<notin> dom M"
  proof
    assume "h \<in> dom M"
    then have "head_offset h \<in> U" using A(1) value_at_head U by blast
    then show False using value_at_head [OF c(1)] c(2) by blast
  qed
  have old: "value_at s' h' (cells h') v'" if "M h' = Some v'" for h' v'
  proof (rule value_at_frame)
    show "value_at s h' (cells h') v'" using A(1) that by simp
    have "set (cells h') \<subseteq> U" using that by (intro U) auto
    then show "\<And>x. x \<in> set (cells h') \<Longrightarrow> next_offset s' x = next_offset s x"
      "\<And>x b. x \<in> set (cells h') \<Longrightarrow> b < 8 \<Longrightarrow> attached_mem s' (8 * x + b) = attached_mem s (8 * x + b)"
      using c(5,6) by (simp_all add: subset_iff)
  qed
  have "store_abs s' (M(h \<mapsto> v))"
    unfolding store_abs_def
  proof (intro exI [of _ "cells(h := cs)"] conjI)
    show "\<forall>k w. (M(h \<mapsto> v)) k = Some w \<longrightarrow> value_at s' k ((cells(h := cs)) k) w"
      using old c(1) by auto
    show "\<forall>k\<in>dom (M(h \<mapsto> v)). \<forall>k'\<in>dom (M(h \<mapsto> v)). k \<noteq> k' \<longrightarrow>
        set ((cells(h := cs)) k) \<inter> set ((cells(h := cs)) k') = {}"
    proof (intro ballI impI)
      fix k k' assume k: "k \<in> dom (M(h \<mapsto> v))" "k' \<in> dom (M(h \<mapsto> v))" "k \<noteq> k'"
      show "set ((cells(h := cs)) k) \<inter> set ((cells(h := cs)) k') = {}"
      proof (cases "k = h \<or> k' = h")
        case True
        then consider "k = h" "k' \<in> dom M" | "k' = h" "k \<in> dom M" using k by auto
        then show ?thesis using k(3) c(2) U [of k] U [of k'] by cases (simp_all, blast+)
      next
        case False
        then show ?thesis using k A(2) by auto
      qed
    qed
    have "(\<Union>k\<in>dom (M(h \<mapsto> v)). set ((cells(h := cs)) k)) = U \<union> set cs"
    proof -
      have "dom (M(h \<mapsto> v)) = insert h (dom M)" by simp
      moreover have "(\<Union>k\<in>dom M. set ((cells(h := cs)) k)) = U"
        unfolding U_def using new by (intro SUP_cong) auto
      ultimately show ?thesis by (simp add: Un_commute)
    qed
    then show "pool_used s' (\<Union>k\<in>dom (M(h \<mapsto> v)). set ((cells(h := cs)) k))" using c(3) by simp
  qed
  then show ?thesis using new c(4) by blast
qed

lemma store_abs_free:
  assumes a: "store_abs s M" and tid: "tid < nthreads s" and h: "M h \<noteq> None"
  shows "store_abs (FreeValue s h tid) (M(h := None)) \<and> nthreads (FreeValue s h tid) = nthreads s"
proof -
  obtain cells v where A: "\<forall>h v. M h = Some v \<longrightarrow> value_at s h (cells h) v"
    "\<forall>h\<in>dom M. \<forall>h'\<in>dom M. h \<noteq> h' \<longrightarrow> set (cells h) \<inter> set (cells h') = {}"
    "pool_used s (\<Union>h\<in>dom M. set (cells h))" and v: "M h = Some v"
    using a h unfolding store_abs_def by blast
  let ?s' = "FreeValue s h tid"
  have "value_at s h (cells h) v" using A(1) v by simp
  then obtain t where c: "chain (next_offset s) (head_offset h) (cells h) t" "distinct (cells h)"
    "length (cells h) = GetCellCount h" by (auto simp: value_at_def)
  have sub: "set (cells h) \<subseteq> (\<Union>h\<in>dom M. set (cells h))" using v by blast
  have u: "pool_used ?s' ((\<Union>h\<in>dom M. set (cells h)) - set (cells h))"
    using ValueStore_Free_used [OF A(3) tid c(1,2) sub] c(3) by (simp add: FreeValue_def)
  have fr: "x \<in> (\<Union>h\<in>dom M. set (cells h)) \<Longrightarrow> next_offset ?s' x = next_offset s x" for x
    using ValueStore_Free_frame(1) [OF A(3) tid] by (simp add: FreeValue_def)
  have old: "value_at ?s' h' (cells h') v'" if "M h' = Some v'" for h' v'
  proof (rule value_at_frame)
    show "value_at s h' (cells h') v'" using A(1) that by simp
    show "\<And>x. x \<in> set (cells h') \<Longrightarrow> next_offset ?s' x = next_offset s x"
      using that by (intro fr) blast
  qed (simp add: FreeValue_def ValueStore_Free_mem)
  have "store_abs ?s' (M(h := None))"
    unfolding store_abs_def
  proof (intro exI [of _ cells] conjI)
    show "\<forall>k w. (M(h := None)) k = Some w \<longrightarrow> value_at ?s' k (cells k) w" using old by simp
    show "\<forall>k\<in>dom (M(h := None)). \<forall>k'\<in>dom (M(h := None)). k \<noteq> k' \<longrightarrow> set (cells k) \<inter> set (cells k') = {}"
      using A(2) by auto
    have "(\<Union>k\<in>dom (M(h := None)). set (cells k)) = (\<Union>k\<in>dom M. set (cells k)) - set (cells h)"
    proof -
      have "set (cells k) \<inter> set (cells h) = {}" if "k \<in> dom M - {h}" for k using that A(2) v by blast
      then show ?thesis by auto
    qed
    then show "pool_used ?s' (\<Union>k\<in>dom (M(h := None)). set (cells k))" using u by simp
  qed
  moreover have "nthreads ?s' = nthreads s"
  proof -
    have "head_offset h \<in> (\<Union>h\<in>dom M. set (cells h))" using sub chain_head_in [OF c(1)] by (rule subsetD)
    from ValueStore_Free_frame(2) [OF A(3) tid this] show ?thesis by (simp add: FreeValue_def)
  qed
  ultimately show ?thesis by blast
qed

lemma store_abs_read: "store_abs s M \<Longrightarrow> M h = Some v \<Longrightarrow> ReadValue s h w = v"
  unfolding store_abs_def using ReadValue_value_at by blast

interpretation vs: value_storage fits InsertValue ReadValue FreeValue store_abs nthreads
  by unfold_locales (use store_abs_insert store_abs_free store_abs_read in blast)+

lemma ValueStore_Init_abs:
  assumes "ValueStore_Init mem B cells threads rec = Some s" "2 \<le> B" "0 < threads"
  shows "store_abs s Map.empty" "nthreads s = threads"
proof -
  obtain p where p: "MemPool_Init B cells threads rec = Some p" and s: "s = mem_pool.extend p (value_store.fields mem)"
    using assms(1) by (auto simp: ValueStore_Init_def split: option.splits)
  have "pool_used s {}" "nthreads s = threads"
    using MemPool_Init_used [OF p assms(2,3)]
    by (simp_all add: s pool_used_def pool_rep_def mem_pool.defs)
  then show "store_abs s Map.empty" "nthreads s = threads" by (simp_all add: store_abs_def)
qed

section \<open>Properties\<close>

text \<open>
  C11. The value store is a map: after any interleaving of the threads' insertions and deletions, a
  value that was inserted and not freed is read back whole through its header, whatever the other
  threads stored or freed meanwhile. The values inserted are those whose size with the type byte is below
  \<open>2 ^ 32\<close>, the range of \<open>byte_count\<close>.
\<close>

theorem value_store_roundtrip:
  assumes "ValueStore_Init mem B cells threads rec = Some s0" "2 \<le> B" "0 < threads"
    and "store_run fits InsertValue FreeValue nthreads (s0, Map.empty) (s, M)" "M h = Some v"
  shows "ReadValue s h w = v"
  using vs.run_read [OF assms(4) ValueStore_Init_abs(1) [OF assms(1-3)] assms(5)] .

theorem value_store_roundtrip_witness:
  "\<exists>s0 h s1. ValueStore_Init (\<lambda>_. 0) 2 9 1 False = Some s0 \<and>
     InsertValue s0 \<lparr>v_type = 4, v_content = [10, 20, 30, 40, 50, 60, 70, 80, 90]\<rparr> 0 = Some (h, s1) \<and>
     ReadValue s1 h \<lparr>v_type = 0, v_content = []\<rparr> = \<lparr>v_type = 4, v_content = [10, 20, 30, 40, 50, 60, 70, 80, 90]\<rparr>"
proof -
  let ?v = "\<lparr>v_type = 4, v_content = [10, 20, 30, 40, 50, 60, 70, 80, 90]\<rparr>"
  have "(case ValueStore_Init (\<lambda>_. 0) 2 9 1 False of None \<Rightarrow> False | Some s0 \<Rightarrow>
      (case InsertValue s0 ?v 0 of None \<Rightarrow> False | Some (h, s1) \<Rightarrow> True))" by code_simp
  then obtain s0 h s1 where 0: "ValueStore_Init (\<lambda>_. 0) 2 9 1 False = Some s0" and 1: "InsertValue s0 ?v 0 = Some (h, s1)"
    by (auto split: option.splits)
  have "store_run fits InsertValue FreeValue nthreads (s0, Map.empty) (s1, Map.empty(h \<mapsto> ?v))"
    using store_insert [of fits InsertValue FreeValue nthreads "(s0, Map.empty)" s0 Map.empty 0 ?v h s1] 1
      ValueStore_Init_abs(2) [OF 0] by (simp add: store_refl fits_def)
  from value_store_roundtrip [OF 0 _ _ this] show ?thesis using 0 1 by auto
qed

end
