(* ===== verification/Trx_Status.thy ===== *)
theory Trx_Status
  imports GT_Ids
begin

text \<open>
  The transaction status table: one slot (\<open>TidStatus\<close>, src/core/common.hpp) per transaction, in a
  bucketed hash table with indirect buckets (src/core/transaction_status_table.cpp). Seven slots of a
  bucket hold transactions; the eighth holds the number of the next bucket of the chain, or 0.

  The table array is a function from slot numbers. \<open>find_trx\<close> and \<open>insert_single_trx\<close> follow bucket
  links in unbounded loops, which are \<open>partial_function\<close>s here; that they end is proved from the
  table invariant. \<open>None\<close> is a failed \<open>CHECK\<close>. The garbage-collection lists of \<open>TsPtrNode\<close> are lists.
\<close>

section \<open>One slot\<close>

datatype TRX_STAT = PROCESSING | VALIDATING | ABORT | COMMITTED

record TidStatus =
  slot_trx_id :: u64
  stP :: bool
  stV :: bool
  stC :: bool
  stA :: bool
  occupied :: bool
  erased :: bool
  ct :: u64

definition enterProcessState :: "u64 \<Rightarrow> TidStatus \<Rightarrow> TidStatus option" where
  "enterProcessState t s =
     do { CHECK (\<not> occupied s \<or> erased s);
          Some \<lparr>slot_trx_id = t, stP = True, stV = False, stC = False, stA = False, occupied = True,
                erased = False, ct = 0\<rparr> }"

definition enterValidationState :: "TidStatus \<Rightarrow> TidStatus option" where
  "enterValidationState s =
     do { CHECK (stP s \<and> \<not> stV s \<and> \<not> stC s \<and> \<not> stA s \<and> occupied s); Some (s\<lparr>stV := True\<rparr>) }"

definition enterAbortState :: "TidStatus \<Rightarrow> TidStatus option" where
  "enterAbortState s = do { CHECK (stP s \<and> \<not> stC s \<and> occupied s); Some (s\<lparr>stA := True\<rparr>) }"

definition enterCommitState :: "TidStatus \<Rightarrow> TidStatus option" where
  "enterCommitState s =
     do { CHECK (stP s \<and> stV s \<and> \<not> stC s \<and> \<not> stA s \<and> occupied s); Some (s\<lparr>stC := True\<rparr>) }"

definition enterCommitTime :: "u64 \<Rightarrow> TidStatus \<Rightarrow> TidStatus option" where
  "enterCommitTime c s =
     do { CHECK (stP s \<and> \<not> stV s \<and> \<not> stC s \<and> \<not> stA s \<and> occupied s); Some (s\<lparr>ct := c\<rparr>) }"

definition markErased :: "TidStatus \<Rightarrow> TidStatus" where
  "markErased s = s\<lparr>erased := True\<rparr>"

text \<open>A slot with no flag set makes \<open>getState\<close> fall off its end: \<open>None\<close>.\<close>

definition getState :: "TidStatus \<Rightarrow> TRX_STAT option" where
  "getState s =
     do { CHECK (\<not> (stA s \<and> stC s));
          if stA s then Some ABORT else if stC s then Some COMMITTED
          else if stV s then Some VALIDATING else if stP s then Some PROCESSING else None }"

definition getCT :: "TidStatus \<Rightarrow> u64 option" where
  "getCT s = do { CHECK (stP s \<and> stV s \<and> occupied s); Some (ct s) }"

section \<open>The table\<close>

text \<open>
  A node of the erasure lists: the time stamp and the slot. The slot of a node is \<open>None\<close> when
  \<open>record_nro_trx_with_et\<close> did not find the transaction, a case the code does not test.
\<close>

type_synonym TsPtrNode = "u64 \<times> nat option"

record trx_table =
  slots :: "nat \<Rightarrow> TidStatus"
  last_ext :: nat
  num_main_buckets :: nat
  num_indirect_buckets :: nat
  num_slots :: nat
  ro_trxs :: "TsPtrNode list"
  nro_trxs :: "TsPtrNode list"

definition ASSOCIATIVITY :: nat where
  "ASSOCIATIVITY = 8"

definition bucket_of :: "trx_table \<Rightarrow> u64 \<Rightarrow> nat" where
  "bucket_of tab t = unat (TrxIDHash t) mod num_main_buckets tab"

text \<open>The inner loops over the seven slots of a bucket; \<open>k\<close> slots are left, from \<open>s\<close> on.\<close>

fun find_in_bucket :: "(nat \<Rightarrow> TidStatus) \<Rightarrow> u64 \<Rightarrow> nat \<Rightarrow> nat \<Rightarrow> nat option" where
  "find_in_bucket sl t 0 s = None"
| "find_in_bucket sl t (Suc k) s = (if slot_trx_id (sl s) = t then Some s else find_in_bucket sl t k (Suc s))"

partial_function (option) find_loop :: "(nat \<Rightarrow> TidStatus) \<Rightarrow> u64 \<Rightarrow> nat \<Rightarrow> nat option option" where
  "find_loop sl t b =
     (case find_in_bucket sl t (ASSOCIATIVITY - 1) (b * ASSOCIATIVITY) of
        Some s \<Rightarrow> Some (Some s)
      | None \<Rightarrow>
          let link = slot_trx_id (sl (b * ASSOCIATIVITY + (ASSOCIATIVITY - 1)))
          in if link = 0 then Some None else find_loop sl t (unat link))"

definition find_trx :: "trx_table \<Rightarrow> u64 \<Rightarrow> nat option option" where
  "find_trx tab t = do { CHECK (IS_VALID_TRX_ID t); find_loop (slots tab) t (bucket_of tab t) }"

datatype scan_result = AlreadyExists | FreeSlot nat | BucketFull

fun scan_bucket :: "(nat \<Rightarrow> TidStatus) \<Rightarrow> u64 \<Rightarrow> nat \<Rightarrow> nat \<Rightarrow> scan_result" where
  "scan_bucket sl t 0 s = BucketFull"
| "scan_bucket sl t (Suc k) s =
     (if slot_trx_id (sl s) = t then AlreadyExists
      else if \<not> occupied (sl s) \<or> erased (sl s) then FreeSlot s
      else scan_bucket sl t k (Suc s))"

definition set_slot :: "trx_table \<Rightarrow> nat \<Rightarrow> TidStatus \<Rightarrow> trx_table" where
  "set_slot tab s x = tab\<lparr>slots := (slots tab)(s := x)\<rparr>"

definition record_ro_trx_with_bt :: "trx_table \<Rightarrow> nat \<Rightarrow> u64 \<Rightarrow> trx_table" where
  "record_ro_trx_with_bt tab s bt = tab\<lparr>ro_trxs := ro_trxs tab @ [(bt, Some s)]\<rparr>"

text \<open>
  The outer loop of \<open>insert_single_trx\<close>, up to the label \<open>done\<close>; the result carries the final \<open>slot_id\<close>.
\<close>

partial_function (option) insert_loop :: "u64 \<Rightarrow> u64 \<Rightarrow> bool \<Rightarrow> trx_table \<Rightarrow> nat \<Rightarrow> (trx_table \<times> nat) option" where
  "insert_loop t bt readonly tab slot_id =
     (if slot_id < num_slots tab then
        (case scan_bucket (slots tab) t (ASSOCIATIVITY - 1) slot_id of
           AlreadyExists \<Rightarrow> None
         | FreeSlot s \<Rightarrow>
             (case enterProcessState t (slots tab s) of None \<Rightarrow> None
              | Some x \<Rightarrow>
                  Some (if readonly then record_ro_trx_with_bt (set_slot tab s x) s bt else set_slot tab s x, s))
         | BucketFull \<Rightarrow>
             let hdr = slot_id + (ASSOCIATIVITY - 1)
             in if slot_trx_id (slots tab hdr) \<noteq> 0
                then insert_loop t bt readonly tab (unat (slot_trx_id (slots tab hdr)) * ASSOCIATIVITY)
                else if num_indirect_buckets tab \<le> last_ext tab then None
                else
                  let nb = num_main_buckets tab + last_ext tab;
                      tab1 = set_slot tab hdr ((slots tab hdr)\<lparr>slot_trx_id := of_nat nb\<rparr>);
                      tab2 = tab1\<lparr>last_ext := last_ext tab + 1\<rparr>;
                      s = nb * ASSOCIATIVITY
                  in (case enterProcessState t (slots tab2 s) of None \<Rightarrow> None
                      | Some x \<Rightarrow> Some (set_slot tab2 s x, s)))
      else Some (tab, slot_id))"

definition insert_single_trx :: "trx_table \<Rightarrow> u64 \<Rightarrow> u64 \<Rightarrow> bool \<Rightarrow> trx_table option" where
  "insert_single_trx tab t bt readonly =
     do { (tab', s) \<leftarrow> insert_loop t bt readonly tab (bucket_of tab t * ASSOCIATIVITY);
          CHECK (s < num_slots tab');
          CHECK (slot_trx_id (slots tab' s) = t);
          Some tab' }"

text \<open>The queries return \<open>Some None\<close> when the transaction is not in the table.\<close>

definition query_ct :: "trx_table \<Rightarrow> u64 \<Rightarrow> u64 option option" where
  "query_ct tab t =
     do { CHECK (IS_VALID_TRX_ID t);
          r \<leftarrow> find_trx tab t;
          (case r of None \<Rightarrow> Some None | Some s \<Rightarrow> Some (Some (ct (slots tab s)))) }"

definition query_status :: "trx_table \<Rightarrow> u64 \<Rightarrow> TRX_STAT option option" where
  "query_status tab t =
     do { CHECK (IS_VALID_TRX_ID t);
          r \<leftarrow> find_trx tab t;
          (case r of None \<Rightarrow> Some None | Some s \<Rightarrow> do { st \<leftarrow> getState (slots tab s); Some (Some st) }) }"

definition register_ct :: "trx_table \<Rightarrow> u64 \<Rightarrow> u64 \<Rightarrow> (bool \<times> trx_table) option" where
  "register_ct tab t c =
     do { CHECK (IS_VALID_TRX_ID t);
          r \<leftarrow> find_trx tab t;
          (case r of None \<Rightarrow> Some (False, tab)
           | Some s \<Rightarrow> do { x \<leftarrow> enterCommitTime c (slots tab s); Some (True, set_slot tab s x) }) }"

definition enter_state :: "TRX_STAT \<Rightarrow> TidStatus \<Rightarrow> TidStatus option" where
  "enter_state new_status s =
     (case new_status of
        VALIDATING \<Rightarrow> enterValidationState s
      | ABORT \<Rightarrow> enterAbortState s
      | COMMITTED \<Rightarrow> enterCommitState s
      | PROCESSING \<Rightarrow> None)"

definition modify_status :: "trx_table \<Rightarrow> u64 \<Rightarrow> TRX_STAT \<Rightarrow> (bool \<times> trx_table) option" where
  "modify_status tab t new_status =
     do { CHECK (IS_VALID_TRX_ID t);
          r \<leftarrow> find_trx tab t;
          (case r of None \<Rightarrow> Some (False, tab)
           | Some s \<Rightarrow>
               do { _ \<leftarrow> getState (slots tab s);
                    x \<leftarrow> enter_state new_status (slots tab s);
                    Some (True, set_slot tab s x) }) }"

definition modify_status_ct :: "trx_table \<Rightarrow> u64 \<Rightarrow> TRX_STAT \<Rightarrow> u64 \<Rightarrow> (bool \<times> trx_table) option" where
  "modify_status_ct tab t new_status c =
     do { CHECK (IS_VALID_TRX_ID t);
          (ok, tab') \<leftarrow> register_ct tab t c;
          if \<not> ok then Some (False, tab') else modify_status tab' t new_status }"

section \<open>Erasure of finished transactions\<close>

definition record_nro_trx_with_et :: "trx_table \<Rightarrow> u64 \<Rightarrow> u64 \<Rightarrow> trx_table option" where
  "record_nro_trx_with_et tab t endtime =
     do { r \<leftarrow> find_trx tab t; Some (tab\<lparr>nro_trxs := nro_trxs tab @ [(endtime, r)]\<rparr>) }"

text \<open>
  The loop of \<open>erase\<close> on the list from \<open>head\<close> to \<open>tail\<close>: it stops when two nodes are left or when the
  first node is too young, and returns the slots, the remaining nodes and the ids of the erased slots.
  Following a node without a slot is undefined: \<open>None\<close>.
\<close>

fun erase :: "u64 \<Rightarrow> (nat \<Rightarrow> TidStatus) \<Rightarrow> TsPtrNode list \<Rightarrow>
    ((nat \<Rightarrow> TidStatus) \<times> TsPtrNode list \<times> u64 list) option" where
  "erase min_bt sl ((ts, p) # b # c # rest) =
     (if min_bt \<le> ts then Some (sl, (ts, p) # b # c # rest, [])
      else case p of None \<Rightarrow> None
           | Some s \<Rightarrow>
               (case erase min_bt (sl(s := markErased (sl s))) (b # c # rest) of None \<Rightarrow> None
                | Some (sl', l', ids) \<Rightarrow> Some (sl', l', slot_trx_id (sl s) # ids)))"
| "erase min_bt sl l = Some (sl, l, [])"

definition erase_trx_via_min_bt :: "trx_table \<Rightarrow> u64 \<Rightarrow> (u64 list \<times> trx_table) option" where
  "erase_trx_via_min_bt tab min_bt =
     do { (sl1, ro, _) \<leftarrow> erase min_bt (slots tab) (ro_trxs tab);
          (sl2, nro, ids) \<leftarrow> erase min_bt sl1 (nro_trxs tab);
          Some (ids, tab\<lparr>slots := sl2, ro_trxs := ro, nro_trxs := nro\<rparr>) }"

text \<open>The zero-initialised table of the constructor.\<close>

definition TransactionStatusTable_init :: "nat \<Rightarrow> nat \<Rightarrow> trx_table" where
  "TransactionStatusTable_init main indirect =
     \<lparr>slots = (\<lambda>_. \<lparr>slot_trx_id = 0, stP = False, stV = False, stC = False, stA = False, occupied = False,
                  erased = False, ct = 0\<rparr>),
      last_ext = 0, num_main_buckets = main, num_indirect_buckets = indirect,
      num_slots = (main + indirect) * ASSOCIATIVITY, ro_trxs = [], nro_trxs = []\<rparr>"

section \<open>Searching a bucket chain\<close>

text \<open>
  \<open>table_ok\<close>: every used bucket's link is 0 or leads to a later used bucket, and the buckets after the
  last one handed out are blank.
\<close>

definition header_of :: "nat \<Rightarrow> nat" where
  "header_of b = b * ASSOCIATIVITY + (ASSOCIATIVITY - 1)"

definition used_buckets :: "trx_table \<Rightarrow> nat" where
  "used_buckets tab = num_main_buckets tab + last_ext tab"

definition table_ok :: "trx_table \<Rightarrow> bool" where
  "table_ok tab \<longleftrightarrow>
     0 < num_main_buckets tab \<and> last_ext tab \<le> num_indirect_buckets tab \<and>
     num_slots tab = (num_main_buckets tab + num_indirect_buckets tab) * ASSOCIATIVITY \<and>
     num_main_buckets tab + num_indirect_buckets tab < 2 ^ 63 \<and>
     (\<forall>b<used_buckets tab. let l = slot_trx_id (slots tab (header_of b))
        in l = 0 \<or> b < unat l \<and> unat l < used_buckets tab) \<and>
     (\<forall>s. used_buckets tab * ASSOCIATIVITY \<le> s \<longrightarrow> slot_trx_id (slots tab s) = 0 \<and> \<not> occupied (slots tab s)) \<and>
     (\<forall>s. s mod ASSOCIATIVITY < ASSOCIATIVITY - 1 \<and> slot_trx_id (slots tab s) \<noteq> 0 \<longrightarrow> occupied (slots tab s))"

lemma find_in_bucket_None:
  "find_in_bucket sl t k s = None \<longleftrightarrow> (\<forall>i<k. slot_trx_id (sl (s + i)) \<noteq> t)"
  by (induction sl t k s rule: find_in_bucket.induct) (auto simp: All_less_Suc2)

lemma find_in_bucket_Some:
  "i < k \<Longrightarrow> slot_trx_id (sl (s + i)) = t \<Longrightarrow> \<forall>j<i. slot_trx_id (sl (s + j)) \<noteq> t \<Longrightarrow>
   find_in_bucket sl t k s = Some (s + i)"
proof (induction sl t k s arbitrary: i rule: find_in_bucket.induct)
  case (2 sl t k s)
  then show ?case by (cases i) (auto simp: All_less_Suc2)
qed simp

lemma find_in_bucket_stable:
  assumes "\<And>x. x mod 8 < 7 \<Longrightarrow> slot_trx_id (sl' x) = t \<Longrightarrow> slot_trx_id (sl x) = t" "slot_trx_id (sl' r) = t" "k \<le> 7 - s mod 8"
  shows "find_in_bucket sl t k s = None \<Longrightarrow> find_in_bucket sl' t k s = None"
    and "find_in_bucket sl t k s = Some r \<Longrightarrow> find_in_bucket sl' t k s = Some r"
  using assms(3)
proof (induction k arbitrary: s)
  case (Suc k)
  { case 1
    have "s mod 8 < 7" "k \<le> 7 - Suc s mod 8" using 1(2) by (auto simp: mod_Suc)
    then show ?case using 1 Suc.IH(1) [of "Suc s"] assms(1) [of s] by (auto split: if_splits) }
  { case 2
    have "s mod 8 < 7" "k \<le> 7 - Suc s mod 8" using 2(2) by (auto simp: mod_Suc)
    then show ?case using 2 Suc.IH(2) [of "Suc s"] assms(1) [of s] assms(2) by (auto split: if_splits) }
qed simp_all

lemma find_in_bucket_SomeD:
  "find_in_bucket sl t k s = Some r \<Longrightarrow> s \<le> r \<and> r < s + k \<and> slot_trx_id (sl r) = t"
  by (induction sl t k s rule: find_in_bucket.induct) (auto split: if_splits)

lemma scan_bucket_Free:
  "scan_bucket sl t k s = FreeSlot r \<Longrightarrow>
     \<exists>i<k. r = s + i \<and> (\<not> occupied (sl r) \<or> erased (sl r)) \<and> (\<forall>j<Suc i. slot_trx_id (sl (s + j)) \<noteq> t)"
proof (induction sl t k s rule: scan_bucket.induct)
  case (2 sl t k s)
  then show ?case by (auto simp: Ex_less_Suc2 All_less_Suc2 split: if_splits)
qed simp

lemma scan_bucket_Full:
  "scan_bucket sl t k s = BucketFull \<Longrightarrow> \<forall>i<k. slot_trx_id (sl (s + i)) \<noteq> t"
  by (induction sl t k s rule: scan_bucket.induct) (auto simp: All_less_Suc2 split: if_splits)

lemma scan_bucket_Exists:
  "scan_bucket sl t k s = AlreadyExists \<Longrightarrow> find_in_bucket sl t k s \<noteq> None"
  by (induction sl t k s rule: scan_bucket.induct) (auto split: if_splits)

lemma table_okD:
  assumes "table_ok tab"
  shows "0 < num_main_buckets tab" "last_ext tab \<le> num_indirect_buckets tab"
    "num_slots tab = (num_main_buckets tab + num_indirect_buckets tab) * 8"
    "num_main_buckets tab + num_indirect_buckets tab < 2 ^ 63"
    "\<And>b. b < used_buckets tab \<Longrightarrow> slot_trx_id (slots tab (header_of b)) \<noteq> 0 \<Longrightarrow>
      b < unat (slot_trx_id (slots tab (header_of b))) \<and>
      unat (slot_trx_id (slots tab (header_of b))) < used_buckets tab"
    "\<And>s. used_buckets tab * 8 \<le> s \<Longrightarrow> slot_trx_id (slots tab s) = 0 \<and> \<not> occupied (slots tab s)"
    "\<And>s. s mod 8 < 7 \<Longrightarrow> slot_trx_id (slots tab s) \<noteq> 0 \<Longrightarrow> occupied (slots tab s)"
  using assms by (auto simp: table_ok_def ASSOCIATIVITY_def Let_def)

lemma bucket_of_used: "table_ok tab \<Longrightarrow> bucket_of tab t < used_buckets tab"
  using table_okD(1) [of tab] by (auto simp: bucket_of_def used_buckets_def intro: trans_less_add1)

lemma find_loop_unfold:
  "find_loop sl t b =
     (case find_in_bucket sl t 7 (b * 8) of
        Some s \<Rightarrow> Some (Some s)
      | None \<Rightarrow> if slot_trx_id (sl (header_of b)) = 0 then Some None
                else find_loop sl t (unat (slot_trx_id (sl (header_of b)))))"
  by (subst find_loop.simps) (auto simp: ASSOCIATIVITY_def header_of_def Let_def split: option.splits)

lemma find_loop_next:
  assumes "find_in_bucket sl t (ASSOCIATIVITY - 1) (b * ASSOCIATIVITY) = None" "find_loop sl t b = Some (Some s)"
  shows "slot_trx_id (sl (header_of b)) \<noteq> 0 \<and> find_loop sl t (unat (slot_trx_id (sl (header_of b)))) = Some (Some s)"
  using assms(2) assms(1) by (subst (asm) find_loop_unfold) (auto simp: ASSOCIATIVITY_def split: if_splits)

text \<open>The search ends, because links lead to later buckets.\<close>

lemma find_loop_ends:
  assumes "table_ok tab" "b < used_buckets tab"
  shows "\<exists>r. find_loop (slots tab) t b = Some r"
  using assms(2)
proof (induction "used_buckets tab - b" arbitrary: b rule: less_induct)
  case less
  let ?l = "slot_trx_id (slots tab (header_of b))"
  show ?case
  proof (cases "find_in_bucket (slots tab) t (ASSOCIATIVITY - 1) (b * ASSOCIATIVITY) = None \<and> ?l \<noteq> 0")
    case True
    then have "b < unat ?l" "unat ?l < used_buckets tab" using table_okD(5) [OF assms(1) less.prems] by auto
    then have "\<exists>r. find_loop (slots tab) t (unat ?l) = Some r" by (intro less.hyps) auto
    then show ?thesis using True by (subst find_loop.simps) (simp add: header_of_def Let_def)
  next
    case False
    then show ?thesis by (subst find_loop.simps) (auto simp: header_of_def Let_def split: option.splits)
  qed
qed

text \<open>A search that succeeds is not disturbed by writing other slots or by extending a chain.\<close>

lemma find_loop_stable:
  assumes ok: "table_ok tab" and b: "b < used_buckets tab"
    and ids: "\<And>x. x mod 8 < 7 \<Longrightarrow> slot_trx_id (sl' x) = t \<Longrightarrow> slot_trx_id (slots tab x) = t"
    and kept: "slot_trx_id (sl' s) = t"
    and links: "\<And>b. slot_trx_id (slots tab (header_of b)) \<noteq> 0 \<Longrightarrow>
      slot_trx_id (sl' (header_of b)) = slot_trx_id (slots tab (header_of b))"
    and found: "find_loop (slots tab) t b = Some (Some s)"
  shows "find_loop sl' t b = Some (Some s)"
  using b found
proof (induction "used_buckets tab - b" arbitrary: b rule: less_induct)
  case less
  let ?l = "slot_trx_id (slots tab (header_of b))"
  note F = find_in_bucket_stable [of sl' t "slots tab" s 7 "b * 8", OF ids kept]
  show ?case
  proof (cases "find_in_bucket (slots tab) t (ASSOCIATIVITY - 1) (b * ASSOCIATIVITY)")
    case None
    then have l: "?l \<noteq> 0" "find_loop (slots tab) t (unat ?l) = Some (Some s)"
      using find_loop_next [OF None less.prems(2)] by auto
    then have "b < unat ?l" "unat ?l < used_buckets tab" using table_okD(5) [OF ok less.prems(1)] by auto
    then have "find_loop sl' t (unat ?l) = Some (Some s)" using l by (intro less.hyps) auto
    then show ?thesis using l links [of b] None F(1) by (subst find_loop_unfold) (simp add: ASSOCIATIVITY_def)
  next
    case (Some r)
    then have "r = s" using less.prems(2) by (subst (asm) find_loop.simps) simp
    then show ?thesis using Some F(2) by (subst find_loop_unfold) (simp add: ASSOCIATIVITY_def)
  qed
qed

lemma find_loop_slot:
  assumes ok: "table_ok tab" and b: "b < used_buckets tab" and found: "find_loop (slots tab) t b = Some (Some s)"
  shows "slot_trx_id (slots tab s) = t" "s mod 8 < 7" "s < used_buckets tab * 8"
proof -
  have "slot_trx_id (slots tab s) = t \<and> s mod 8 < 7 \<and> s < used_buckets tab * 8"
    using b found
  proof (induction "used_buckets tab - b" arbitrary: b rule: less_induct)
    case less
    let ?l = "slot_trx_id (slots tab (header_of b))"
    show ?case
    proof (cases "find_in_bucket (slots tab) t (ASSOCIATIVITY - 1) (b * ASSOCIATIVITY)")
      case None
      then have l: "?l \<noteq> 0" "find_loop (slots tab) t (unat ?l) = Some (Some s)"
        using find_loop_next [OF None less.prems(2)] by auto
      then have "b < unat ?l" "unat ?l < used_buckets tab" using table_okD(5) [OF ok less.prems(1)] by auto
      then show ?thesis using l by (intro less.hyps) auto
    next
      case (Some r)
      then have r: "r = s" using less.prems(2) by (subst (asm) find_loop.simps) simp
      have "b * 8 \<le> s" "s < b * 8 + 7" "slot_trx_id (slots tab s) = t"
        using find_in_bucket_SomeD [OF Some] r by (auto simp: ASSOCIATIVITY_def)
      moreover from this obtain i where "s = b * 8 + i" "i < 7" by (metis add_less_cancel_left le_iff_add)
      moreover have "b * 8 + 8 \<le> used_buckets tab * 8" using less.prems(1) by simp
      ultimately show ?thesis by auto
    qed
  qed
  then show "slot_trx_id (slots tab s) = t" "s mod 8 < 7" "s < used_buckets tab * 8" by auto
qed

section \<open>Insertion\<close>

definition new_slot :: "u64 \<Rightarrow> TidStatus" where
  "new_slot t = \<lparr>slot_trx_id = t, stP = True, stV = False, stC = False, stA = False, occupied = True, erased = False, ct = 0\<rparr>"

lemma enterProcessState_eq: "enterProcessState t s = (if \<not> occupied s \<or> erased s then Some (new_slot t) else None)"
  by (auto simp: enterProcessState_def new_slot_def)

text \<open>
  What a successful insertion does: it reuses a free slot \<open>s\<close> of a bucket, or hangs a blank bucket
  behind bucket \<open>b'\<close> and uses its first slot.
\<close>

definition insert_reuses :: "trx_table \<Rightarrow> u64 \<Rightarrow> nat \<Rightarrow> trx_table \<Rightarrow> nat \<Rightarrow> bool" where
  "insert_reuses tab t b tab' s \<longleftrightarrow>
     b * 8 \<le> s \<and> s mod 8 < 7 \<and> s < used_buckets tab * 8 \<and> (\<not> occupied (slots tab s) \<or> erased (slots tab s)) \<and>
     slots tab' = (slots tab)(s := new_slot t) \<and> last_ext tab' = last_ext tab"

definition insert_extends :: "trx_table \<Rightarrow> u64 \<Rightarrow> nat \<Rightarrow> trx_table \<Rightarrow> nat \<Rightarrow> bool" where
  "insert_extends tab t b tab' s \<longleftrightarrow>
     (\<exists>b'. b \<le> b' \<and> b' < used_buckets tab \<and> slot_trx_id (slots tab (header_of b')) = 0 \<and>
        last_ext tab < num_indirect_buckets tab \<and> s = used_buckets tab * 8 \<and>
        slots tab' = (slots tab)(header_of b' := (slots tab (header_of b'))\<lparr>slot_trx_id := of_nat (used_buckets tab)\<rparr>,
                                 s := new_slot t) \<and>
        last_ext tab' = last_ext tab + 1)"

lemma header_of_div: "header_of b div 8 = b" "header_of b mod 8 = 7"
  by (simp_all add: header_of_def ASSOCIATIVITY_def)

lemma bucket_slot: "i < 7 \<Longrightarrow> (b * 8 + i) div 8 = b" "i < 7 \<Longrightarrow> (b * 8 + i) mod 8 = (i::nat)"
  by simp_all

lemma slot_lt_iff: "s < n * 8 \<longleftrightarrow> s div 8 < (n::nat)"
  by (simp add: div_less_iff_less_mult)

lemma insert_loop_unfold:
  "insert_loop t bt ro tab (b * 8) =
     (if b * 8 < num_slots tab then
        (case scan_bucket (slots tab) t 7 (b * 8) of
           AlreadyExists \<Rightarrow> None
         | FreeSlot s \<Rightarrow>
             if \<not> occupied (slots tab s) \<or> erased (slots tab s)
             then Some (if ro then record_ro_trx_with_bt (set_slot tab s (new_slot t)) s bt else set_slot tab s (new_slot t), s)
             else None
         | BucketFull \<Rightarrow>
             if slot_trx_id (slots tab (header_of b)) \<noteq> 0
             then insert_loop t bt ro tab (unat (slot_trx_id (slots tab (header_of b))) * 8)
             else if num_indirect_buckets tab \<le> last_ext tab then None
             else
               let tab2 = (set_slot tab (header_of b) ((slots tab (header_of b))\<lparr>slot_trx_id := of_nat (used_buckets tab)\<rparr>))
                            \<lparr>last_ext := last_ext tab + 1\<rparr>;
                   s = used_buckets tab * 8
               in if \<not> occupied (slots tab2 s) \<or> erased (slots tab2 s) then Some (set_slot tab2 s (new_slot t), s) else None)
      else Some (tab, b * 8))"
  by (subst insert_loop.simps)
     (simp add: ASSOCIATIVITY_def header_of_def Let_def enterProcessState_eq used_buckets_def split: scan_result.splits)

lemma insert_reuses_mono: "insert_reuses tab t b' tab' s \<Longrightarrow> b \<le> b' \<Longrightarrow> insert_reuses tab t b tab' s"
  by (auto simp: insert_reuses_def)

lemma insert_extends_mono: "insert_extends tab t b' tab' s \<Longrightarrow> b \<le> b' \<Longrightarrow> insert_extends tab t b tab' s"
  unfolding insert_extends_def by (meson le_trans)

lemma insert_low:
  assumes "insert_reuses tab t b tab' s \<or> insert_extends tab t b tab' s" "x < b * 8"
  shows "slots tab' x = slots tab x"
proof -
  have "header_of b' \<noteq> x" if "b \<le> b'" for b' using that assms(2) by (auto simp: header_of_def ASSOCIATIVITY_def)
  then show ?thesis using assms by (fastforce simp: insert_reuses_def insert_extends_def)
qed

lemma insert_effect_slots:
  assumes "insert_reuses tab t b tab' s \<or> insert_extends tab t b tab' s"
  shows "slots tab' s = new_slot t" "s mod 8 < 7" "x mod 8 < 7 \<Longrightarrow> x \<noteq> s \<Longrightarrow> slots tab' x = slots tab x"
  using assms header_of_div(2) by (auto simp: insert_reuses_def insert_extends_def)

lemma used_buckets_word:
  assumes "table_ok tab" "last_ext tab < num_indirect_buckets tab"
  shows "unat (of_nat (used_buckets tab) :: u64) = used_buckets tab" "(of_nat (used_buckets tab) :: u64) \<noteq> 0"
proof -
  have "used_buckets tab < 2 ^ 64" "0 < used_buckets tab"
    using table_okD [OF assms(1)] assms(2) by (auto simp: used_buckets_def)
  then show u: "unat (of_nat (used_buckets tab) :: u64) = used_buckets tab" 
    by (simp add: unsigned_of_nat take_bit_nat_eq_self)
  then show "(of_nat (used_buckets tab) :: u64) \<noteq> 0" using \<open>0 < used_buckets tab\<close> by (metis less_irrefl unat_0)
qed

lemma find_extended:
  assumes ok: "table_ok tab" and b: "b < used_buckets tab" and l: "last_ext tab < num_indirect_buckets tab"
    and full: "\<forall>i<7. slot_trx_id (slots tab (b * 8 + i)) \<noteq> t"
    and sl': "sl' = (slots tab)(header_of b := (slots tab (header_of b))\<lparr>slot_trx_id := of_nat (used_buckets tab)\<rparr>,
        used_buckets tab * 8 := new_slot t)"
  shows "find_loop sl' t b = Some (Some (used_buckets tab * 8))"
proof -
  have ne: "header_of b \<noteq> used_buckets tab * 8"
    using header_of_div(2) [of b] by (metis mod_mult_self2_is_0 zero_neq_numeral)
  have "sl' (b * 8 + i) = slots tab (b * 8 + i)" if "i < 7" for i
    using that b by (auto simp: sl' header_of_def ASSOCIATIVITY_def)
  then have 1: "find_in_bucket sl' t 7 (b * 8) = None" using full by (simp add: find_in_bucket_None)
  have 2: "find_in_bucket sl' t 7 (used_buckets tab * 8) = Some (used_buckets tab * 8)"
    using find_in_bucket_Some [of 0 7 sl' "used_buckets tab * 8" t] by (simp add: sl' new_slot_def)
  have "slot_trx_id (sl' (header_of b)) = of_nat (used_buckets tab)" using ne by (simp add: sl')
  then show ?thesis
    using 1 2 used_buckets_word [OF ok l] find_loop_unfold [of sl' t "used_buckets tab"]
    by (subst find_loop_unfold) simp
qed

lemma insert_loop_effect:
  assumes ok: "table_ok tab"
  shows "b < used_buckets tab \<Longrightarrow> insert_loop t bt ro tab (b * 8) = Some (tab', s) \<Longrightarrow>
    (insert_reuses tab t b tab' s \<or> insert_extends tab t b tab' s) \<and>
    find_loop (slots tab') t b = Some (Some s) \<and>
    num_main_buckets tab' = num_main_buckets tab \<and> num_indirect_buckets tab' = num_indirect_buckets tab \<and>
    num_slots tab' = num_slots tab"
proof (induction "used_buckets tab - b" arbitrary: b rule: less_induct)
  case less
  let ?l = "slot_trx_id (slots tab (header_of b))"
  have bs: "b * 8 < num_slots tab" using less.prems(1) table_okD(2,3) [OF ok] by (simp add: used_buckets_def)
  show ?case
  proof (cases "scan_bucket (slots tab) t 7 (b * 8)")
    case AlreadyExists
    then show ?thesis using less.prems(2) bs by (subst (asm) insert_loop_unfold) simp
  next
    case (FreeSlot x)
    from scan_bucket_Free [OF this] obtain i where i: "i < 7" "x = b * 8 + i"
      "\<not> occupied (slots tab x) \<or> erased (slots tab x)" "\<forall>j<Suc i. slot_trx_id (slots tab (b * 8 + j)) \<noteq> t" by blast
    have r: "s = x" "slots tab' = (slots tab)(s := new_slot t)" "last_ext tab' = last_ext tab"
      "num_main_buckets tab' = num_main_buckets tab \<and> num_indirect_buckets tab' = num_indirect_buckets tab \<and>
       num_slots tab' = num_slots tab"
      using less.prems(2) bs FreeSlot i(3)
      by (subst (asm) insert_loop_unfold, auto simp: record_ro_trx_with_bt_def set_slot_def split: if_splits)+
    have "find_in_bucket (slots tab') t 7 (b * 8) = Some s"
      using i find_in_bucket_Some [of i 7 "slots tab'" "b * 8" t] by (simp add: r(1,2) new_slot_def)
    then have "find_loop (slots tab') t b = Some (Some s)" by (subst find_loop_unfold) simp
    moreover have "insert_reuses tab t b tab' s"
      using i r bucket_slot [OF i(1), of b] less.prems(1) by (simp add: insert_reuses_def slot_lt_iff)
    ultimately show ?thesis using r by blast
  next
    case BucketFull
    note full = scan_bucket_Full [OF this]
    show ?thesis
    proof (cases "?l = 0")
      case False
      then have l: "b < unat ?l" "unat ?l < used_buckets tab" using table_okD(5) [OF ok less.prems(1)] by auto
      have "insert_loop t bt ro tab (unat ?l * 8) = Some (tab', s)"
        using less.prems(2) bs BucketFull False by (subst (asm) insert_loop_unfold) simp
      note IH = less.hyps [OF _ l(2) this]
      have e: "(insert_reuses tab t (unat ?l) tab' s \<or> insert_extends tab t (unat ?l) tab' s) \<and>
          find_loop (slots tab') t (unat ?l) = Some (Some s)" using IH l less.prems(1) by linarith
      have low: "slots tab' x = slots tab x" if "x < b * 8 + 8" for x
        using that l(1) e by (intro insert_low [of tab t "unat ?l" tab' s]) auto
      have "find_in_bucket (slots tab') t 7 (b * 8) = None" using full low by (simp add: find_in_bucket_None)
      moreover have "slots tab' (header_of b) = slots tab (header_of b)"
        by (rule low) (simp add: header_of_def ASSOCIATIVITY_def)
      ultimately have "find_loop (slots tab') t b = Some (Some s)"
        using e False by (subst find_loop_unfold) simp
      moreover have "insert_reuses tab t b tab' s \<or> insert_extends tab t b tab' s"
        using e l(1) insert_reuses_mono insert_extends_mono by (meson less_imp_le)
      ultimately show ?thesis using IH l less.prems(1) by linarith
    next
      case True
      define tab2 where "tab2 = (set_slot tab (header_of b) ((slots tab (header_of b))\<lparr>slot_trx_id := of_nat (used_buckets tab)\<rparr>))
          \<lparr>last_ext := last_ext tab + 1\<rparr>"
      let ?s = "used_buckets tab * 8"
      have "insert_loop t bt ro tab (b * 8) = (if num_indirect_buckets tab \<le> last_ext tab then None
          else if \<not> occupied (slots tab2 ?s) \<or> erased (slots tab2 ?s) then Some (set_slot tab2 ?s (new_slot t), ?s) else None)"
        by (subst insert_loop_unfold) (simp add: bs BucketFull True tab2_def Let_def)
      then have l: "last_ext tab < num_indirect_buckets tab" and r: "s = ?s" "tab' = set_slot tab2 s (new_slot t)"
        using less.prems(2) by (simp_all split: if_splits)
      have sl: "slots tab' = (slots tab)(header_of b := (slots tab (header_of b))\<lparr>slot_trx_id := of_nat (used_buckets tab)\<rparr>,
          used_buckets tab * 8 := new_slot t)" by (simp add: r tab2_def set_slot_def)
      have "insert_extends tab t b tab' s"
        unfolding insert_extends_def
        by (intro exI [of _ b]) (use less.prems(1) True l r sl in \<open>auto simp: tab2_def set_slot_def\<close>)
      moreover have "find_loop (slots tab') t b = Some (Some s)"
        using find_extended [OF ok less.prems(1) l full sl] r by simp
      ultimately show ?thesis by (simp add: r tab2_def set_slot_def)
    qed
  qed
qed

lemma table_okI:
  assumes "0 < num_main_buckets tab" "last_ext tab \<le> num_indirect_buckets tab"
    "num_slots tab = (num_main_buckets tab + num_indirect_buckets tab) * 8"
    "num_main_buckets tab + num_indirect_buckets tab < 2 ^ 63"
    "\<And>b. b < used_buckets tab \<Longrightarrow> slot_trx_id (slots tab (header_of b)) \<noteq> 0 \<Longrightarrow>
      b < unat (slot_trx_id (slots tab (header_of b))) \<and>
      unat (slot_trx_id (slots tab (header_of b))) < used_buckets tab"
    "\<And>s. used_buckets tab * 8 \<le> s \<Longrightarrow> slot_trx_id (slots tab s) = 0 \<and> \<not> occupied (slots tab s)"
    "\<And>s. s mod 8 < 7 \<Longrightarrow> slot_trx_id (slots tab s) \<noteq> 0 \<Longrightarrow> occupied (slots tab s)"
  shows "table_ok tab"
  using assms by (auto simp: table_ok_def ASSOCIATIVITY_def Let_def)

lemma header_inj: "header_of b = header_of b' \<longleftrightarrow> b = b'"
  by (simp add: header_of_def ASSOCIATIVITY_def)

lemma insert_reuses_ok:
  assumes ok: "table_ok tab" and i: "insert_reuses tab t b tab' s"
    and same: "num_main_buckets tab' = num_main_buckets tab" "num_indirect_buckets tab' = num_indirect_buckets tab"
      "num_slots tab' = num_slots tab"
  shows "table_ok tab'"
proof (rule table_okI)
  note D = table_okD [OF ok]
  have u: "used_buckets tab' = used_buckets tab" and sl: "slots tab' = (slots tab)(s := new_slot t)"
    and s: "s mod 8 < 7" "s < used_buckets tab * 8"
    using i same by (auto simp: insert_reuses_def used_buckets_def)
  have h: "slots tab' (header_of b) = slots tab (header_of b)" for b
    using s(1) header_of_div(2) [of b] by (auto simp: sl)
  show "b < unat (slot_trx_id (slots tab' (header_of b))) \<and>
      unat (slot_trx_id (slots tab' (header_of b))) < used_buckets tab'"
    if "b < used_buckets tab'" "slot_trx_id (slots tab' (header_of b)) \<noteq> 0" for b
    using that D(5) [of b] by (simp add: h u)
qed (use table_okD [OF ok] i same in \<open>auto simp: insert_reuses_def used_buckets_def new_slot_def\<close>)

lemma insert_extends_ok:
  assumes ok: "table_ok tab" and i: "insert_extends tab t b tab' s"
    and same: "num_main_buckets tab' = num_main_buckets tab" "num_indirect_buckets tab' = num_indirect_buckets tab"
      "num_slots tab' = num_slots tab"
  shows "table_ok tab'"
proof -
  note D = table_okD [OF ok]
  let ?n = "used_buckets tab"
  obtain b' where b': "b' < ?n" "last_ext tab < num_indirect_buckets tab" "s = ?n * 8"
    "slots tab' = (slots tab)(header_of b' := (slots tab (header_of b'))\<lparr>slot_trx_id := of_nat ?n\<rparr>, s := new_slot t)"
    "last_ext tab' = last_ext tab + 1"
    using i by (auto simp: insert_extends_def)
  have u: "used_buckets tab' = Suc ?n" using same b'(5) by (simp add: used_buckets_def)
  have hb: "header_of c < ?n * 8 \<longleftrightarrow> c < ?n" for c by (simp add: slot_lt_iff header_of_div)
  have hs: "header_of c \<noteq> s" for c
    using header_of_div(2) [of c] b'(3) by (metis mod_mult_self2_is_0 zero_neq_numeral)
  show ?thesis
  proof (rule table_okI)
    show "c < unat (slot_trx_id (slots tab' (header_of c))) \<and>
        unat (slot_trx_id (slots tab' (header_of c))) < used_buckets tab'"
      if c: "c < used_buckets tab'" "slot_trx_id (slots tab' (header_of c)) \<noteq> 0" for c
    proof (cases "c = b'")
      case True
      then show ?thesis using b' u hs used_buckets_word [OF ok b'(2)] by simp
    next
      case False
      then have e: "slots tab' (header_of c) = slots tab (header_of c)" using hs b'(4) by (simp add: header_inj)
      then have "c < ?n" using c u D(6) [of "header_of c"] hb [of c] by (metis less_SucE linorder_not_le less_irrefl)
      then show ?thesis using c D(5) [of c] u e by simp
    qed
    show "slot_trx_id (slots tab' x) = 0 \<and> \<not> occupied (slots tab' x)" if "used_buckets tab' * 8 \<le> x" for x
      using that u b' D(6) [of x] hb [of b'] by auto
    show "occupied (slots tab' x)" if "x mod 8 < 7" "slot_trx_id (slots tab' x) \<noteq> 0" for x
      using that D(7) [of x] b'(4) header_of_div(2) [of b'] by (auto simp: new_slot_def)
  qed (use D same b' in auto)
qed

lemma insert_single_trx_loop:
  assumes "insert_single_trx tab t bt ro = Some tab'"
  obtains s where "insert_loop t bt ro tab (bucket_of tab t * 8) = Some (tab', s)"
  using assms by (auto simp: insert_single_trx_def ASSOCIATIVITY_def Option.bind_eq_Some_conv)

lemma insert_single_trx_ok:
  assumes ok: "table_ok tab" and r: "insert_single_trx tab t bt ro = Some tab'"
  shows "table_ok tab'"
proof -
  obtain s where l: "insert_loop t bt ro tab (bucket_of tab t * 8) = Some (tab', s)"
    using r by (rule insert_single_trx_loop)
  from insert_loop_effect [OF ok bucket_of_used [OF ok] l] show ?thesis
    using insert_reuses_ok [OF ok] insert_extends_ok [OF ok] by blast
qed

lemma valid_trx_id_nonzero: "IS_VALID_TRX_ID t \<Longrightarrow> t \<noteq> 0"
  by (auto simp: IS_VALID_TRX_ID_def)

lemma find_trx_eq: "IS_VALID_TRX_ID t \<Longrightarrow> find_trx tab t = find_loop (slots tab) t (bucket_of tab t)"
  by (simp add: find_trx_def)

lemma find_trx_valid: "find_trx tab t = Some r \<Longrightarrow> IS_VALID_TRX_ID t"
  by (auto simp: find_trx_def)

lemma insert_single_trx_found:
  assumes ok: "table_ok tab" and v: "IS_VALID_TRX_ID t" and r: "insert_single_trx tab t bt ro = Some tab'"
  shows "\<exists>s. find_trx tab' t = Some (Some s) \<and> slots tab' s = new_slot t"
proof -
  obtain s where l: "insert_loop t bt ro tab (bucket_of tab t * 8) = Some (tab', s)"
    using r by (rule insert_single_trx_loop)
  note e = insert_loop_effect [OF ok bucket_of_used [OF ok] l]
  have "slots tab' s = new_slot t" using e by (auto simp: insert_reuses_def insert_extends_def)
  moreover have "bucket_of tab' t = bucket_of tab t" using e by (simp add: bucket_of_def)
  ultimately show ?thesis using e v by (auto simp: find_trx_eq)
qed

lemma insert_single_trx_others:
  assumes ok: "table_ok tab" and v: "IS_VALID_TRX_ID t" and r: "insert_single_trx tab t bt ro = Some tab'"
    and o: "t' \<noteq> t" "find_trx tab t' = Some (Some s')" "\<not> erased (slots tab s')"
  shows "find_trx tab' t' = Some (Some s') \<and> slots tab' s' = slots tab s'"
proof -
  obtain s where l: "insert_loop t bt ro tab (bucket_of tab t * 8) = Some (tab', s)"
    using r by (rule insert_single_trx_loop)
  note e = insert_loop_effect [OF ok bucket_of_used [OF ok] l]
  have v': "IS_VALID_TRX_ID t'" using o(2) by (rule find_trx_valid)
  have f: "find_loop (slots tab) t' (bucket_of tab t') = Some (Some s')" using o(2) v' by (simp add: find_trx_eq)
  note s' = find_loop_slot [OF ok bucket_of_used [OF ok] f]
  have occ: "occupied (slots tab s')" using table_okD(7) [OF ok s'(2)] s'(1) valid_trx_id_nonzero [OF v'] by simp
  have s: "slots tab' s = new_slot t" "s mod 8 < 7" "s \<noteq> s'"
    using e o(3) occ s'(3) by (auto simp: insert_reuses_def insert_extends_def)
  note low = insert_effect_slots(3) [OF conjunct1 [OF e]]
  have link: "slot_trx_id (slots tab' (header_of b)) = slot_trx_id (slots tab (header_of b))"
    if "slot_trx_id (slots tab (header_of b)) \<noteq> 0" for b
    using e that header_of_div(2) [of b] s(2)
    by (auto simp: insert_reuses_def insert_extends_def header_inj)
  have "find_loop (slots tab') t' (bucket_of tab t') = Some (Some s')"
  proof (rule find_loop_stable [OF ok bucket_of_used [OF ok] _ _ link f])
    show "slot_trx_id (slots tab x) = t'" if "x mod 8 < 7" "slot_trx_id (slots tab' x) = t'" for x
      using that low [of x] s(1) o(1) by (cases "x = s") (auto simp: new_slot_def)
    show "slot_trx_id (slots tab' s') = t'" using low [OF s'(2)] s(3) s'(1) by simp
  qed
  moreover have "bucket_of tab' t' = bucket_of tab t'" using e by (simp add: bucket_of_def)
  ultimately show ?thesis using v' low [OF s'(2)] s(3) by (simp add: find_trx_eq)
qed

lemma insert_single_trx_succeeds:
  assumes ok: "table_ok tab" and v: "IS_VALID_TRX_ID t" and new: "find_trx tab t = Some None"
    and room: "last_ext tab < num_indirect_buckets tab"
  shows "\<exists>tab'. insert_single_trx tab t bt ro = Some tab'"
proof -
  have f: "find_loop (slots tab) t (bucket_of tab t) = Some None" using new v by (simp add: find_trx_eq)
  have "\<exists>r. insert_loop t bt ro tab (b * 8) = Some r" if "b < used_buckets tab" "find_loop (slots tab) t b = Some None" for b
    using that
  proof (induction "used_buckets tab - b" arbitrary: b rule: less_induct)
    case less
    let ?l = "slot_trx_id (slots tab (header_of b))"
    have nf: "find_in_bucket (slots tab) t 7 (b * 8) = None" "?l \<noteq> 0 \<Longrightarrow> find_loop (slots tab) t (unat ?l) = Some None"
      using less.prems(2) by (subst (asm) find_loop_unfold, simp split: option.splits if_splits)+
    show ?case
    proof (cases "scan_bucket (slots tab) t 7 (b * 8)")
      case AlreadyExists
      then show ?thesis using scan_bucket_Exists nf(1) by blast
    next
      case (FreeSlot x)
      then show ?thesis using scan_bucket_Free [OF FreeSlot] by (subst insert_loop_unfold) auto
    next
      case BucketFull
      have blank: "\<not> occupied (slots tab (used_buckets tab * 8))" using table_okD(6) [OF ok] by simp
      have "header_of b \<noteq> used_buckets tab * 8"
        using header_of_div(2) [of b] by (metis mod_mult_self2_is_0 zero_neq_numeral)
      then show ?thesis
        using BucketFull blank room nf(2) table_okD(5) [OF ok less.prems(1)] less.hyps [of "unat ?l"]
        by (subst insert_loop_unfold) (auto simp: Let_def set_slot_def)
    qed
  qed
  then obtain tab' s where l: "insert_loop t bt ro tab (bucket_of tab t * 8) = Some (tab', s)"
    using bucket_of_used [OF ok] f by fastforce
  note e = insert_loop_effect [OF ok bucket_of_used [OF ok] l]
  have "slots tab' s = new_slot t" using e by (auto simp: insert_reuses_def insert_extends_def)
  moreover have "s < num_slots tab'"
    using e table_okD(2,3) [OF ok] by (auto simp: insert_reuses_def insert_extends_def used_buckets_def)
  ultimately show ?thesis using l by (simp add: insert_single_trx_def ASSOCIATIVITY_def new_slot_def)
qed

lemma init_table_ok:
  "0 < m \<Longrightarrow> m + i < 2 ^ 63 \<Longrightarrow> table_ok (TransactionStatusTable_init m i)"
  by (rule table_okI) (auto simp: TransactionStatusTable_init_def ASSOCIATIVITY_def)

lemma find_loop_blank:
  assumes "\<And>x. slot_trx_id (sl x) = 0" "t \<noteq> 0"
  shows "find_loop sl t b = Some None"
proof -
  have "find_in_bucket sl t 7 (b * 8) = None" using assms by (simp add: find_in_bucket_None)
  then show ?thesis using assms(1) by (subst find_loop_unfold) simp
qed

section \<open>The status machine\<close>

text \<open>The transitions listed in the comment above \<open>TidStatus\<close>.\<close>

fun documented_step :: "TRX_STAT \<Rightarrow> TRX_STAT \<Rightarrow> bool" where
  "documented_step PROCESSING VALIDATING = True"
| "documented_step VALIDATING ABORT = True"
| "documented_step VALIDATING COMMITTED = True"
| "documented_step _ _ = False"

definition flags_ok :: "TidStatus \<Rightarrow> bool" where
  "flags_ok x \<longleftrightarrow> stP x \<and> (stC x \<longrightarrow> stV x) \<and> \<not> (stA x \<and> stC x) \<and> occupied x"

definition status_ok :: "trx_table \<Rightarrow> bool" where
  "status_ok tab \<longleftrightarrow> table_ok tab \<and> (\<forall>s. s mod 8 < 7 \<and> slot_trx_id (slots tab s) \<noteq> 0 \<longrightarrow> flags_ok (slots tab s))"

lemmas state_defs = enterValidationState_def enterAbortState_def enterCommitState_def enter_state_def

lemma getState_flags: "flags_ok x \<Longrightarrow>
    getState x = Some (if stA x then ABORT else if stC x then COMMITTED else if stV x then VALIDATING else PROCESSING)"
  by (auto simp: flags_ok_def getState_def)

lemma enter_state_accepts:
  assumes "flags_ok x" "getState x = Some st"
  shows "enter_state ns x \<noteq> None \<longleftrightarrow> documented_step st ns \<or> ns = ABORT \<and> (st = PROCESSING \<or> st = ABORT)"
  using assms(2) assms(1) getState_flags [OF assms(1)]
  by (cases ns) (auto simp: state_defs flags_ok_def split: if_splits)

lemma enter_state_result:
  assumes "flags_ok x" "enter_state ns x = Some x'"
  shows "flags_ok x' \<and> getState x' = Some ns \<and> slot_trx_id x' = slot_trx_id x \<and> ct x' = ct x \<and> erased x' = erased x"
  using assms by (cases ns) (auto simp: state_defs flags_ok_def getState_def)

lemma find_loop_cong:
  assumes ok: "table_ok tab" and b: "b < used_buckets tab"
    and ids: "\<And>x. slot_trx_id (sl' x) = slot_trx_id (slots tab x)"
  shows "find_loop sl' t b = find_loop (slots tab) t b"
  using b
proof (induction "used_buckets tab - b" arbitrary: b rule: less_induct)
  case less
  let ?l = "slot_trx_id (slots tab (header_of b))"
  have "find_in_bucket sl' t k s = find_in_bucket (slots tab) t k s" for k s
    by (induction k arbitrary: s) (simp_all add: ids)
  moreover have "?l \<noteq> 0 \<Longrightarrow> find_loop sl' t (unat ?l) = find_loop (slots tab) t (unat ?l)"
    using table_okD(5) [OF ok less.prems] by (intro less.hyps) auto
  ultimately show ?case
    by (subst (1 2) find_loop_unfold) (auto simp: ids split: option.splits)
qed

lemma set_slot_find:
  assumes "table_ok tab" "slot_trx_id x = slot_trx_id (slots tab s)"
  shows "find_trx (set_slot tab s x) t = find_trx tab t"
  using find_loop_cong [OF assms(1) bucket_of_used [OF assms(1)], of "(slots tab)(s := x)"] assms(2)
  by (simp add: find_trx_def set_slot_def bucket_of_def)

lemma set_slot_ok:
  assumes ok: "table_ok tab" and x: "slot_trx_id x = slot_trx_id (slots tab s)" "occupied x = occupied (slots tab s)"
  shows "table_ok (set_slot tab s x)"
proof -
  have i: "slot_trx_id (slots (set_slot tab s x) y) = slot_trx_id (slots tab y)"
    "occupied (slots (set_slot tab s x) y) = occupied (slots tab y)" for y
    using x by (simp_all add: set_slot_def)
  show ?thesis using ok unfolding table_ok_def i by (simp add: set_slot_def used_buckets_def)
qed

lemma set_slot_status_ok:
  assumes ok: "status_ok tab" and x: "slot_trx_id x = slot_trx_id (slots tab s)" "flags_ok x" "flags_ok (slots tab s)"
  shows "status_ok (set_slot tab s x)"
proof -
  have "table_ok (set_slot tab s x)" using ok x by (intro set_slot_ok) (auto simp: status_ok_def flags_ok_def)
  then show ?thesis using ok x by (auto simp: status_ok_def set_slot_def)
qed

lemma init_status_ok: "0 < m \<Longrightarrow> m + i < 2 ^ 63 \<Longrightarrow> status_ok (TransactionStatusTable_init m i)"
  using init_table_ok by (simp add: status_ok_def TransactionStatusTable_init_def)

lemma insert_single_trx_status_ok:
  assumes ok: "status_ok tab" and r: "insert_single_trx tab t bt ro = Some tab'"
  shows "status_ok tab'"
proof -
  have tok: "table_ok tab" using ok by (simp add: status_ok_def)
  obtain s where l: "insert_loop t bt ro tab (bucket_of tab t * 8) = Some (tab', s)"
    using r by (rule insert_single_trx_loop)
  note e = insert_loop_effect [OF tok bucket_of_used [OF tok] l]
  have "slots tab' x = slots tab x \<or> flags_ok (slots tab' x)" if "x mod 8 < 7" for x
    using insert_effect_slots [OF conjunct1 [OF e]] that
    by (cases "x = s") (auto simp: new_slot_def flags_ok_def)
  then show ?thesis using ok insert_single_trx_ok [OF tok r] unfolding status_ok_def by metis
qed

lemma find_trx_flags:
  assumes ok: "status_ok tab" and f: "find_trx tab t = Some (Some s)"
  shows "flags_ok (slots tab s)" "slot_trx_id (slots tab s) = t"
proof -
  have tok: "table_ok tab" using ok by (simp add: status_ok_def)
  have v: "IS_VALID_TRX_ID t" using f by (rule find_trx_valid)
  then have "find_loop (slots tab) t (bucket_of tab t) = Some (Some s)" using f by (simp add: find_trx_eq)
  note s = find_loop_slot [OF tok bucket_of_used [OF tok] this]
  then show "flags_ok (slots tab s)" "slot_trx_id (slots tab s) = t"
    using ok valid_trx_id_nonzero [OF v] by (auto simp: status_ok_def)
qed

lemma query_status_found:
  assumes "status_ok tab" "query_status tab t = Some (Some st)"
  obtains s where "find_trx tab t = Some (Some s)" "getState (slots tab s) = Some st"
    "flags_ok (slots tab s)" "slot_trx_id (slots tab s) = t"
  using assms find_trx_flags by (auto simp: query_status_def Option.bind_eq_Some_conv split: option.splits)

lemma find_trx_inj:
  assumes "status_ok tab" "find_trx tab t = Some (Some s)" "find_trx tab t' = Some (Some s)"
  shows "t = t'"
  using find_trx_flags(2) [OF assms(1,2)] find_trx_flags(2) [OF assms(1,3)] by simp

lemma query_status_set_slot:
  assumes ok: "status_ok tab" and f: "find_trx tab t = Some (Some s)"
    and x: "slot_trx_id x = slot_trx_id (slots tab s)" and n: "t' \<noteq> t"
  shows "query_status (set_slot tab s x) t' = query_status tab t'"
proof -
  have tok: "table_ok tab" using ok by (simp add: status_ok_def)
  have "slots (set_slot tab s x) r = slots tab r" if "find_trx tab t' = Some (Some r)" for r
    using find_trx_inj [OF ok f] that n by (auto simp: set_slot_def)
  then show ?thesis using set_slot_find [OF tok x] find_trx_valid
    by (auto simp: query_status_def Option.bind_eq_Some_conv split: option.splits bind_splits)
qed

lemma insert_loop_ro:
  assumes ok: "table_ok tab"
  shows "b < used_buckets tab \<Longrightarrow> insert_loop t bt ro tab (b * 8) = Some (tab', s) \<Longrightarrow>
    ro_trxs tab' = (if ro \<and> last_ext tab' = last_ext tab then ro_trxs tab @ [(bt, Some s)] else ro_trxs tab)"
proof (induction "used_buckets tab - b" arbitrary: b rule: less_induct)
  case less
  let ?l = "slot_trx_id (slots tab (header_of b))"
  have bs: "b * 8 < num_slots tab" using less.prems(1) table_okD(2,3) [OF ok] by (simp add: used_buckets_def)
  show ?case
  proof (cases "scan_bucket (slots tab) t 7 (b * 8) = BucketFull \<and> ?l \<noteq> 0")
    case True
    then have "b < unat ?l" "unat ?l < used_buckets tab" using table_okD(5) [OF ok less.prems(1)] by auto
    moreover have "insert_loop t bt ro tab (unat ?l * 8) = Some (tab', s)"
      using less.prems(2) bs True by (subst (asm) insert_loop_unfold) simp
    ultimately show ?thesis using less.prems(1) by (intro less.hyps) auto
  next
    case False
    then show ?thesis using less.prems(2) bs
      by (subst (asm) insert_loop_unfold)
         (auto simp: record_ro_trx_with_bt_def set_slot_def Let_def split: if_splits scan_result.splits)
  qed
qed

section \<open>Properties\<close>

text \<open>
  C25. \<open>insert_single_trx\<close> works: on a well-formed table, a new valid transaction id is inserted
  whenever an indirect bucket is left; afterwards \<open>find_trx\<close> ends and finds it in state
  \<open>PROCESSING\<close>, the table is still well formed, and every other transaction that is not erased is
  found in the same slot with the same contents.
\<close>

theorem trx_table_insert:
  assumes "table_ok tab" "IS_VALID_TRX_ID t" "find_trx tab t = Some None" "last_ext tab < num_indirect_buckets tab"
  shows "\<exists>tab' s. insert_single_trx tab t bt readonly = Some tab' \<and> table_ok tab' \<and>
    find_trx tab' t = Some (Some s) \<and> getState (slots tab' s) = Some PROCESSING \<and>
    (\<forall>t' s'. t' \<noteq> t \<and> find_trx tab t' = Some (Some s') \<and> \<not> erased (slots tab s') \<longrightarrow>
       find_trx tab' t' = Some (Some s') \<and> slots tab' s' = slots tab s')"
proof -
  obtain tab' where r: "insert_single_trx tab t bt readonly = Some tab'"
    using insert_single_trx_succeeds [OF assms] by blast
  obtain s where s: "find_trx tab' t = Some (Some s)" "slots tab' s = new_slot t"
    using insert_single_trx_found [OF assms(1,2) r] by blast
  show ?thesis
    by (intro exI [of _ tab'] exI [of _ s] conjI)
       (use r s insert_single_trx_ok [OF assms(1) r] insert_single_trx_others [OF assms(1,2) r] in
         \<open>auto simp: getState_def new_slot_def\<close>)
qed

theorem trx_table_insert_witness:
  "\<exists>tab' s. insert_single_trx (TransactionStatusTable_init 2 1) 0x8000000000000500 7 False = Some tab' \<and>
     find_trx tab' 0x8000000000000500 = Some (Some s) \<and> getState (slots tab' s) = Some PROCESSING"
proof -
  let ?tab = "TransactionStatusTable_init 2 1"
  have "find_trx ?tab 0x8000000000000500 = Some None"
    by (simp add: find_trx_def find_loop_blank IS_VALID_TRX_ID_def TRX_ID_MASK_def TransactionStatusTable_init_def)
  then show ?thesis
    using trx_table_insert [of ?tab "0x8000000000000500" 7 False] init_table_ok [of 2 1]
    by (auto simp: TransactionStatusTable_init_def IS_VALID_TRX_ID_def TRX_ID_MASK_def)
qed



text \<open>
  A read-only transaction that lands in a reused slot is recorded for erasure, but one for which a
  new indirect bucket is opened is not: the branch that allocates the bucket does not call
  \<open>record_ro_trx_with_bt\<close>, so nothing ever marks that slot as erased.
\<close>

lemma readonly_trx_recorded_only_in_reused_slot:
  assumes "table_ok tab" "insert_single_trx tab t bt True = Some tab'"
  shows "(last_ext tab' = last_ext tab \<longrightarrow> (\<exists>s. ro_trxs tab' = ro_trxs tab @ [(bt, Some s)])) \<and>
    (last_ext tab' \<noteq> last_ext tab \<longrightarrow> ro_trxs tab' = ro_trxs tab)"
proof -
  obtain s where l: "insert_loop t bt True tab (bucket_of tab t * 8) = Some (tab', s)"
    using assms(2) by (rule insert_single_trx_loop)
  show ?thesis using insert_loop_ro [OF assms(1) bucket_of_used [OF assms(1)] l] by auto
qed

lemma readonly_trx_recorded_only_in_reused_slot_example:
  "\<exists>tab'. insert_single_trx (TransactionStatusTable_init 2 1) 0x8000000000000500 7 True = Some tab' \<and>
     (last_ext tab' = 0 \<longrightarrow> (\<exists>s. ro_trxs tab' = [(7, Some s)]))"
proof -
  let ?tab = "TransactionStatusTable_init 2 1"
  have ok: "table_ok ?tab" using init_table_ok [of 2 1] by simp
  have "find_trx ?tab 0x8000000000000500 = Some None"
    by (simp add: find_trx_def find_loop_blank IS_VALID_TRX_ID_def TRX_ID_MASK_def TransactionStatusTable_init_def)
  then obtain tab' where r: "insert_single_trx ?tab 0x8000000000000500 7 True = Some tab'"
    using insert_single_trx_succeeds [OF ok, of "0x8000000000000500" 7 True]
    by (auto simp: TransactionStatusTable_init_def IS_VALID_TRX_ID_def TRX_ID_MASK_def)
  from readonly_trx_recorded_only_in_reused_slot [OF ok r] r show ?thesis
    by (auto simp: TransactionStatusTable_init_def)
qed

end
