(* ===== verification/MVCC_List.thy ===== *)
theory MVCC_List
  imports Mem_Pool Trx_Status
begin

text \<open>
  \<open>MVCCList\<close> (src/layout/mvcc_list.hpp and .tpp) over \<open>AbstractMVCCItem\<close>
  (src/layout/mvcc_definition.hpp): the version chain of one vertex, edge or property.

  The items of all lists of one type live in one heap (\<open>items\<close>), whose cells the memory pool hands
  out; pointers are cell numbers, \<open>nullptr\<close> is \<open>None\<close>. The template parameter is the value type \<open>'v\<close>
  with its \<open>NeedGC\<close>/\<open>ValueGC\<close>, which act on a store \<open>'s\<close> outside the list (the value store or the
  edge property rows). Every operation holds the list's spin lock, so calls on one list are atomic.
  Dereferencing \<open>nullptr\<close> and a failed \<open>CHECK\<close> are \<open>None\<close>. The loop that looks for a visible version
  and the one that clears a list are \<open>partial_function\<close>s; that they end is proved below.
\<close>

section \<open>Items\<close>

record 'v mvcc_item =
  begin_time :: u64
  end_time :: u64
  next_item :: "nat option"
  val :: 'v

abbreviation MIN_TIME :: u64 where
  "MIN_TIME \<equiv> 0"

abbreviation MAX_TIME :: u64 where
  "MAX_TIME \<equiv> MAX_TIMESTAMP"

definition GetTransactionID :: "'v mvcc_item \<Rightarrow> u64" where
  "GetTransactionID it = (if IS_VALID_TRX_ID (begin_time it) then begin_time it else 0)"

definition GetEndTime :: "'v mvcc_item \<Rightarrow> u64" where
  "GetEndTime it = (if GetTransactionID it > 0 then MIN_TIME else end_time it)"

definition NextIsUncommitted :: "'v mvcc_item \<Rightarrow> bool" where
  "NextIsUncommitted it = IS_VALID_TRX_ID (end_time it)"

definition Item_Init :: "u64 \<Rightarrow> u64 \<Rightarrow> 'v mvcc_item \<Rightarrow> 'v mvcc_item" where
  "Item_Init trx_id bt it = it\<lparr>begin_time := trx_id, end_time := bt, next_item := None\<rparr>"

definition AppendNextVersion :: "nat \<Rightarrow> 'v mvcc_item \<Rightarrow> 'v mvcc_item \<Rightarrow> 'v mvcc_item" where
  "AppendNextVersion a new_version it = it\<lparr>next_item := Some a, end_time := begin_time new_version\<rparr>"

definition AbortNextVersion :: "'v mvcc_item \<Rightarrow> 'v mvcc_item" where
  "AbortNextVersion it = it\<lparr>next_item := None, end_time := MAX_TIME\<rparr>"

section \<open>Lists\<close>

record ('v, 's) mvcc_mem =
  items :: "nat \<Rightarrow> 'v mvcc_item"
  item_pool :: mem_pool
  val_store :: 's

record mvcc_list =
  head :: "nat option"
  tail :: "nat option"
  pre_tail :: "nat option"
  tmp_pre_tail :: "nat option"

definition empty_list :: mvcc_list where
  "empty_list = \<lparr>head = None, tail = None, pre_tail = None, tmp_pre_tail = None\<rparr>"

definition upd_item :: "nat \<Rightarrow> ('v mvcc_item \<Rightarrow> 'v mvcc_item) \<Rightarrow> ('v, 's) mvcc_mem \<Rightarrow> ('v, 's) mvcc_mem" where
  "upd_item a f m = m\<lparr>items := (items m)(a := f (items m a))\<rparr>"

text \<open>\<open>Commit\<close> of an item: the previous item, when there is another one, ends where this one begins.\<close>

definition Item_Commit :: "nat \<Rightarrow> nat option \<Rightarrow> u64 \<Rightarrow> ('v, 's) mvcc_mem \<Rightarrow> ('v, 's) mvcc_mem" where
  "Item_Commit a previous commit_time m =
     (let m1 = upd_item a (\<lambda>it. it\<lparr>end_time := MAX_TIME, begin_time := commit_time\<rparr>) m
      in case previous of
           None \<Rightarrow> m1
         | Some b \<Rightarrow> if b \<noteq> a then upd_item b (\<lambda>it. it\<lparr>end_time := commit_time\<rparr>) m1 else m1)"

definition gc_value :: "('v \<Rightarrow> bool) \<Rightarrow> ('v \<Rightarrow> 's \<Rightarrow> 's) \<Rightarrow> nat \<Rightarrow> ('v, 's) mvcc_mem \<Rightarrow> ('v, 's) mvcc_mem" where
  "gc_value NeedGC ValueGC a m =
     (if NeedGC (val (items m a)) then m\<lparr>val_store := ValueGC (val (items m a)) (val_store m)\<rparr> else m)"

subsection \<open>Writing\<close>

text \<open>
  The result of \<open>AppendVersion\<close>: the cell whose value the caller fills in (\<open>None\<close> for \<open>nullptr\<close>, the
  write-write conflict), the old value when the code copies it out, the flag \<open>*old_val_exists\<close> (which the
  caller presets to true), and the new memory and list.
\<close>

record ('v, 's) append_result =
  app_item :: "nat option"
  app_old :: "'v option"
  app_old_exists :: bool
  app_mem :: "('v, 's) mvcc_mem"
  app_list :: mvcc_list

definition AppendVersion :: "('v \<Rightarrow> bool) \<Rightarrow> ('v \<Rightarrow> 's \<Rightarrow> 's) \<Rightarrow> nat \<Rightarrow> u64 \<Rightarrow> u64 \<Rightarrow>
    ('v, 's) mvcc_mem \<Rightarrow> mvcc_list \<Rightarrow> ('v, 's) append_result option" where
  "AppendVersion NeedGC ValueGC tid trx_id bt m l =
     (case head l of
        None \<Rightarrow>
          do { (a, p) \<leftarrow> MemPool_Get (item_pool m) tid;
               Some \<lparr>app_item = Some a, app_old = None, app_old_exists = False,
                     app_mem = upd_item a (Item_Init trx_id bt) (m\<lparr>item_pool := p\<rparr>),
                     app_list = \<lparr>head = Some a, tail = Some a, pre_tail = Some a, tmp_pre_tail = Some a\<rparr>\<rparr> }
      | Some _ \<Rightarrow>
          (case tail l of
             None \<Rightarrow> None
           | Some t \<Rightarrow>
               if begin_time (items m t) > MAX_TIME then
                 (if GetTransactionID (items m t) = trx_id
                  then Some \<lparr>app_item = Some t, app_old = None, app_old_exists = True,
                              app_mem = gc_value NeedGC ValueGC t m, app_list = l\<rparr>
                  else Some \<lparr>app_item = None, app_old = None, app_old_exists = True, app_mem = m, app_list = l\<rparr>)
               else
                 do { (a, p) \<leftarrow> MemPool_Get (item_pool m) tid;
                      let m1 = upd_item a (Item_Init trx_id bt) (m\<lparr>item_pool := p\<rparr>);
                      let m2 = upd_item t (AppendNextVersion a (items m1 a)) m1;
                      Some \<lparr>app_item = Some a, app_old = Some (val (items m2 t)), app_old_exists = True, app_mem = m2,
                            app_list = l\<lparr>tmp_pre_tail := pre_tail l, pre_tail := Some t, tail := Some a\<rparr>\<rparr> }))"

text \<open>The caller's assignment through the returned pointer.\<close>

definition write_val :: "nat \<Rightarrow> 'v \<Rightarrow> ('v, 's) mvcc_mem \<Rightarrow> ('v, 's) mvcc_mem" where
  "write_val a v m = upd_item a (\<lambda>it. it\<lparr>val := v\<rparr>) m"

definition AppendInitialVersion :: "nat \<Rightarrow> ('v, 's) mvcc_mem \<Rightarrow> mvcc_list \<Rightarrow> (nat \<times> ('v, 's) mvcc_mem \<times> mvcc_list) option" where
  "AppendInitialVersion tid m l =
     do { (a, p) \<leftarrow> MemPool_Get (item_pool m) tid;
          Some (a, upd_item a (Item_Init MIN_TIME MAX_TIME) (m\<lparr>item_pool := p\<rparr>),
                l\<lparr>head := Some a, tail := Some a, pre_tail := Some a\<rparr>) }"

definition CommitVersion :: "u64 \<Rightarrow> u64 \<Rightarrow> ('v, 's) mvcc_mem \<Rightarrow> mvcc_list \<Rightarrow> (('v, 's) mvcc_mem \<times> mvcc_list) option" where
  "CommitVersion trx_id commit_time m l =
     do { t \<leftarrow> tail l;
          CHECK (GetTransactionID (items m t) = trx_id);
          Some (Item_Commit t (pre_tail l) commit_time m, l\<lparr>tmp_pre_tail := None\<rparr>) }"

definition AbortVersion :: "('v \<Rightarrow> bool) \<Rightarrow> ('v \<Rightarrow> 's \<Rightarrow> 's) \<Rightarrow> nat \<Rightarrow> u64 \<Rightarrow>
    ('v, 's) mvcc_mem \<Rightarrow> mvcc_list \<Rightarrow> (('v, 's) mvcc_mem \<times> mvcc_list) option" where
  "AbortVersion NeedGC ValueGC tid trx_id m l =
     do { t \<leftarrow> tail l;
          CHECK (GetTransactionID (items m t) = trx_id);
          let m1 = gc_value NeedGC ValueGC t m;
          let m2 = m1\<lparr>item_pool := MemPool_Free (item_pool m1) t tid\<rparr>;
          if tail l \<noteq> pre_tail l then
            do { b \<leftarrow> pre_tail l;
                 Some (upd_item b AbortNextVersion m2,
                       l\<lparr>tail := pre_tail l, pre_tail := tmp_pre_tail l, tmp_pre_tail := None\<rparr>) }
          else Some (m2, l\<lparr>tail := None, head := None, pre_tail := None, tmp_pre_tail := None\<rparr>) }"

partial_function (option) gc_loop :: "('v \<Rightarrow> bool) \<Rightarrow> ('v \<Rightarrow> 's \<Rightarrow> 's) \<Rightarrow> nat \<Rightarrow>
    nat option \<Rightarrow> ('v, 's) mvcc_mem \<Rightarrow> ('v, 's) mvcc_mem option" where
  "gc_loop NeedGC ValueGC tid h m =
     (case h of
        None \<Rightarrow> Some m
      | Some a \<Rightarrow>
          let m1 = gc_value NeedGC ValueGC a m;
              tmp_next = next_item (items m1 a);
              m2 = m1\<lparr>item_pool := MemPool_Free (item_pool m1) a tid\<rparr>
          in gc_loop NeedGC ValueGC tid tmp_next m2)"

definition SelfGarbageCollect :: "('v \<Rightarrow> bool) \<Rightarrow> ('v \<Rightarrow> 's \<Rightarrow> 's) \<Rightarrow> nat \<Rightarrow>
    ('v, 's) mvcc_mem \<Rightarrow> mvcc_list \<Rightarrow> (('v, 's) mvcc_mem \<times> mvcc_list) option" where
  "SelfGarbageCollect NeedGC ValueGC tid m l =
     do { m' \<leftarrow> gc_loop NeedGC ValueGC tid (head l) m;
          Some (m', l\<lparr>head := None, tail := None, pre_tail := None, tmp_pre_tail := None\<rparr>) }"

subsection \<open>Reading\<close>

text \<open>The loop that locates the version with \<open>begin_time < GetEndTime\<close>, from cell \<open>a\<close> on.\<close>

partial_function (option) find_version :: "(nat \<Rightarrow> 'v mvcc_item) \<Rightarrow> nat option \<Rightarrow> u64 \<Rightarrow> nat \<Rightarrow> nat option" where
  "find_version I tp bt a =
     (if bt < GetEndTime (I a) then Some a
      else if Some a = tp then None
      else case next_item (I a) of None \<Rightarrow> None | Some b \<Rightarrow> find_version I tp bt b)"

text \<open>\<open>Some None\<close>: no version visible.\<close>

definition SnapshotLevelGetVisibleVersion :: "u64 \<Rightarrow> u64 \<Rightarrow> (nat \<Rightarrow> 'v mvcc_item) \<Rightarrow> mvcc_list \<Rightarrow> 'v option option" where
  "SnapshotLevelGetVisibleVersion trx_id bt I l =
     (case head l of
        None \<Rightarrow> Some None
      | Some h \<Rightarrow>
          do { t \<leftarrow> tail l;
               if GetTransactionID (I t) = trx_id then Some (Some (val (I t)))
               else if GetTransactionID (I h) \<noteq> 0 \<or> begin_time (I h) > bt then Some None
               else do { a \<leftarrow> find_version I (tail l) bt h; Some (Some (val (I a))) } })"

text \<open>
  Pre-reading: \<open>read_ct\<close> is the status service's answer for the transaction that owns the uncommitted
  tail; \<open>deps\<close> maps a transaction to its homogeneous and heterogeneous dependencies (\<open>dep_trx_map\<close>).
\<close>

record depend_trx_lists =
  homo_trx_list :: "u64 set"
  hetero_trx_list :: "u64 set"

type_synonym dep_trx_map = "u64 \<Rightarrow> depend_trx_lists option"

definition dep_entry :: "dep_trx_map \<Rightarrow> u64 \<Rightarrow> depend_trx_lists" where
  "dep_entry deps t = (case deps t of None \<Rightarrow> \<lparr>homo_trx_list = {}, hetero_trx_list = {}\<rparr> | Some d \<Rightarrow> d)"

definition add_homo :: "u64 \<Rightarrow> u64 \<Rightarrow> dep_trx_map \<Rightarrow> dep_trx_map" where
  "add_homo t other deps =
     deps(t \<mapsto> (dep_entry deps t)\<lparr>homo_trx_list := insert other (homo_trx_list (dep_entry deps t))\<rparr>)"

definition add_hetero :: "u64 \<Rightarrow> u64 \<Rightarrow> dep_trx_map \<Rightarrow> dep_trx_map" where
  "add_hetero t other deps =
     deps(t \<mapsto> (dep_entry deps t)\<lparr>hetero_trx_list := insert other (hetero_trx_list (dep_entry deps t))\<rparr>)"

definition TryPreReadUncommittedTail :: "bool \<Rightarrow> (u64 \<Rightarrow> TRX_STAT \<times> u64) \<Rightarrow> u64 \<Rightarrow> u64 \<Rightarrow> bool \<Rightarrow>
    'v mvcc_item \<Rightarrow> dep_trx_map \<Rightarrow> ((bool \<times> bool) \<times> dep_trx_map) option" where
  "TryPreReadUncommittedTail opt_preread read_ct trx_id bt read_only tail_item deps =
     (if \<not> opt_preread then Some ((False, False), deps)
      else do { let tail_trx_id = GetTransactionID tail_item;
                CHECK (tail_trx_id \<noteq> 0);
                let (cur_stat, tail_trx_ct) = read_ct tail_trx_id;
                (case cur_stat of
                   VALIDATING \<Rightarrow>
                     if bt > tail_trx_ct then Some ((True, True), add_homo trx_id tail_trx_id deps)
                     else Some ((True, False), if read_only then deps else add_hetero trx_id tail_trx_id deps)
                 | COMMITTED \<Rightarrow>
                     if bt > tail_trx_ct then Some ((True, True), deps)
                     else if \<not> read_only then Some ((False, False), deps)
                     else Some ((True, False), deps)
                 | _ \<Rightarrow> Some ((True, False), deps)) })"

text \<open>The answer of a read: the pair of the code with the value that was assigned to \<open>ret\<close>.\<close>

datatype 'v read_result = ReadAbort | NoVersion | Visible 'v

definition SerializableLevelGetVisibleVersion :: "bool \<Rightarrow> (u64 \<Rightarrow> TRX_STAT \<times> u64) \<Rightarrow> u64 \<Rightarrow> u64 \<Rightarrow> bool \<Rightarrow>
    (nat \<Rightarrow> 'v mvcc_item) \<Rightarrow> mvcc_list \<Rightarrow> dep_trx_map \<Rightarrow> ('v read_result \<times> dep_trx_map) option" where
  "SerializableLevelGetVisibleVersion opt_preread read_ct trx_id bt read_only I l deps =
     (case head l of
        None \<Rightarrow> Some (NoVersion, deps)
      | Some h \<Rightarrow>
          do { t \<leftarrow> tail l;
               if GetTransactionID (I t) = trx_id then Some (Visible (val (I t)), deps)
               else if GetTransactionID (I h) \<noteq> 0 then
                 do { (pr, deps') \<leftarrow> TryPreReadUncommittedTail opt_preread read_ct trx_id bt read_only (I t) deps;
                      Some (if \<not> fst pr then ReadAbort else if snd pr then Visible (val (I h)) else NoVersion, deps') }
               else if begin_time (I h) > bt then Some (if read_only then NoVersion else ReadAbort, deps)
               else
                 do { a \<leftarrow> find_version I (tail l) bt h;
                      if NextIsUncommitted (I a) then
                        do { (pr, deps') \<leftarrow> TryPreReadUncommittedTail opt_preread read_ct trx_id bt read_only (I t) deps;
                             Some (if \<not> fst pr then ReadAbort
                                   else if snd pr then Visible (val (I t)) else Visible (val (I a)), deps') }
                      else if \<not> read_only \<and> next_item (I a) \<noteq> None then Some (ReadAbort, deps)
                      else Some (Visible (val (I a)), deps) } })"

datatype ISOLATION_LEVEL = SERIALIZABLE | SNAPSHOT

definition GetVisibleVersion :: "ISOLATION_LEVEL \<Rightarrow> bool \<Rightarrow> (u64 \<Rightarrow> TRX_STAT \<times> u64) \<Rightarrow> u64 \<Rightarrow> u64 \<Rightarrow> bool \<Rightarrow>
    (nat \<Rightarrow> 'v mvcc_item) \<Rightarrow> mvcc_list \<Rightarrow> dep_trx_map \<Rightarrow> ('v read_result \<times> dep_trx_map) option" where
  "GetVisibleVersion level opt_preread read_ct trx_id bt read_only I l deps =
     (case level of
        SERIALIZABLE \<Rightarrow> SerializableLevelGetVisibleVersion opt_preread read_ct trx_id bt read_only I l deps
      | SNAPSHOT \<Rightarrow>
          do { r \<leftarrow> SnapshotLevelGetVisibleVersion trx_id bt I l;
               Some (case r of None \<Rightarrow> NoVersion | Some v \<Rightarrow> Visible v, deps) })"

section \<open>Abstract version lists\<close>

text \<open>
  A list stands for its committed versions \<open>vs\<close> (commit time and value, oldest first) and its pending
  version \<open>u\<close> (transaction id, begin time of the transaction, value), if there is one.
  \<open>vers_rep I as vs u\<close>: the cells \<open>as\<close> hold exactly these versions; each version ends where the next one
  begins, the newest committed one at \<open>MAX_TIME\<close> or at the id of the pending transaction.
\<close>

type_synonym 'v versions = "(u64 \<times> 'v) list"
type_synonym 'v pending = "(u64 \<times> u64 \<times> 'v) option"

definition first_cell :: "nat list \<Rightarrow> nat option" where
  "first_cell as = (case as of [] \<Rightarrow> None | a # _ \<Rightarrow> Some a)"

definition last_cell :: "nat list \<Rightarrow> nat option" where
  "last_cell as = first_cell (rev as)"

text \<open>\<open>pre_tail_\<close>: the last cell but one, or the only cell.\<close>

definition pre_cell :: "nat list \<Rightarrow> nat option" where
  "pre_cell as = (case rev as of [] \<Rightarrow> None | [a] \<Rightarrow> Some a | _ # b # _ \<Rightarrow> Some b)"

definition until :: "'v versions \<Rightarrow> 'v pending \<Rightarrow> u64" where
  "until vs u = (case vs of (c, _) # _ \<Rightarrow> c | [] \<Rightarrow> (case u of None \<Rightarrow> MAX_TIME | Some (t, _, _) \<Rightarrow> t))"

fun vers_rep :: "(nat \<Rightarrow> 'v mvcc_item) \<Rightarrow> nat list \<Rightarrow> 'v versions \<Rightarrow> 'v pending \<Rightarrow> bool" where
  "vers_rep I [] [] None = True"
| "vers_rep I [a] [] (Some (t, b, v)) = (I a = \<lparr>begin_time = t, end_time = b, next_item = None, val = v\<rparr>)"
| "vers_rep I (a # as) ((c, v) # vs) u =
     (I a = \<lparr>begin_time = c, end_time = until vs u, next_item = first_cell as, val = v\<rparr> \<and> vers_rep I as vs u)"
| "vers_rep I as vs u = False"

text \<open>Commit times increase and are proper time stamps; the pending owner is a transaction id.\<close>

definition times_ok :: "'v versions \<Rightarrow> 'v pending \<Rightarrow> bool" where
  "times_ok vs u \<longleftrightarrow> sorted_wrt (<) (map fst vs) \<and> (\<forall>c\<in>set (map fst vs). c < MAX_TIME) \<and>
     (case u of None \<Rightarrow> True | Some (t, b, _) \<Rightarrow> IS_VALID_TRX_ID t)"

definition list_rep :: "(nat \<Rightarrow> 'v mvcc_item) \<Rightarrow> mvcc_list \<Rightarrow> nat list \<Rightarrow> 'v versions \<Rightarrow> 'v pending \<Rightarrow> bool" where
  "list_rep I l as vs u \<longleftrightarrow>
     vers_rep I as vs u \<and> distinct as \<and> times_ok vs u \<and>
     head l = first_cell as \<and> tail l = last_cell as \<and> pre_tail l = pre_cell as \<and>
     (u \<noteq> None \<and> vs \<noteq> [] \<longrightarrow> tmp_pre_tail l = pre_cell (butlast as))"

text \<open>The abstract operations.\<close>

definition visible_at :: "u64 \<Rightarrow> 'v versions \<Rightarrow> 'v option" where
  "visible_at bt vs = (case rev (filter (\<lambda>(c, _). c \<le> bt) vs) of [] \<Rightarrow> None | (_, v) # _ \<Rightarrow> Some v)"

definition snapshot_read :: "u64 \<Rightarrow> u64 \<Rightarrow> 'v versions \<Rightarrow> 'v pending \<Rightarrow> 'v option" where
  "snapshot_read trx_id bt vs u =
     (case u of Some (t, _, v) \<Rightarrow> if t = trx_id then Some v else visible_at bt vs | None \<Rightarrow> visible_at bt vs)"

section \<open>Facts about the representation\<close>

lemma cell_simps [simp]:
  "first_cell [] = None" "first_cell (a # as) = Some a" "last_cell [] = None" "last_cell (as @ [a]) = Some a"
  "pre_cell [] = None" "pre_cell [a] = Some a" "pre_cell (as @ [b, a]) = Some b"
  by (simp_all add: first_cell_def last_cell_def pre_cell_def)

lemma last_cell_eq: "as \<noteq> [] \<Longrightarrow> last_cell as = Some (last as)"
  by (cases as rule: rev_cases) simp_all

lemma pre_cell_snoc: "as \<noteq> [] \<Longrightarrow> pre_cell (as @ [a]) = last_cell as"
  by (cases as rule: rev_cases) simp_all

lemma vers_rep_length: "vers_rep I as vs u \<Longrightarrow> length as = length vs + (if u = None then 0 else 1)"
  by (induction I as vs u rule: vers_rep.induct) auto

lemma vers_rep_Nil: "vers_rep I [] vs u \<longleftrightarrow> vs = [] \<and> u = None"
  by (cases "(I, [] :: nat list, vs, u)" rule: vers_rep.cases) auto

lemma vers_rep_Nil2:
  "vers_rep I as [] None \<longleftrightarrow> as = []"
  "vers_rep I as [] (Some (t, b, v)) \<longleftrightarrow> (\<exists>a. as = [a] \<and> I a = \<lparr>begin_time = t, end_time = b, next_item = None, val = v\<rparr>)"
  by (cases "(I, as, [] :: 'a versions, None :: 'a pending)" rule: vers_rep.cases; simp)
     (cases "(I, as, [] :: 'a versions, Some (t, b, v))" rule: vers_rep.cases; simp)

lemma vers_rep_frame: "\<forall>a\<in>set as. I' a = I a \<Longrightarrow> vers_rep I' as vs u = vers_rep I as vs u"
  by (induction I as vs u rule: vers_rep.induct) auto

lemma vers_rep_pending:
  "vers_rep I as vs (Some (t, b, v)) \<Longrightarrow>
   \<exists>as'. as = as' @ [last as] \<and> length as' = length vs \<and>
     I (last as) = \<lparr>begin_time = t, end_time = b, next_item = None, val = v\<rparr>"
proof (induction I as vs "Some (t, b, v)" rule: vers_rep.induct)
  case (3 I a as c w vs)
  then obtain as' where "as = as' @ [last as]" "length as' = length vs"
    "I (last as) = \<lparr>begin_time = t, end_time = b, next_item = None, val = v\<rparr>" by auto
  moreover from this have "as \<noteq> []" by auto
  ultimately show ?case by (intro exI [of _ "a # as'"]) auto
qed auto

lemma vers_rep_newest:
  "vers_rep I as vs None \<Longrightarrow> vs \<noteq> [] \<Longrightarrow>
   I (last as) = \<lparr>begin_time = fst (last vs), end_time = MAX_TIME, next_item = None, val = snd (last vs)\<rparr>"
proof (induction I as vs "None :: 'a pending" rule: vers_rep.induct)
  case (3 I a as c v vs)
  show ?case
  proof (cases vs)
    case Nil
    then show ?thesis using 3(2) by (cases as) (auto simp: until_def vers_rep_Nil vers_rep_Nil2)
  next
    case (Cons x xs)
    then have "as \<noteq> []" using 3(2) by (auto simp: vers_rep_Nil vers_rep_Nil2)
    then show ?thesis using 3 Cons by auto
  qed
qed auto

text \<open>Appending a pending version, committing it, taking it back.\<close>

lemma vers_rep_append:
  "vers_rep I as vs None \<Longrightarrow> vs \<noteq> [] \<Longrightarrow> distinct as \<Longrightarrow> a \<notin> set as \<Longrightarrow>
   vers_rep (I(a := \<lparr>begin_time = t, end_time = b, next_item = None, val = v\<rparr>,
      last as := (I (last as))\<lparr>next_item := Some a, end_time := t\<rparr>)) (as @ [a]) vs (Some (t, b, v))"
proof (induction I as vs "None :: 'a pending" rule: vers_rep.induct)
  case (3 I x as c w vs)
  show ?case
  proof (cases vs)
    case Nil
    then show ?thesis using 3 by (auto simp: until_def vers_rep_Nil vers_rep_Nil2)
  next
    case (Cons y ys)
    then have as: "as \<noteq> []" using 3(2) by (auto simp: vers_rep_Nil vers_rep_Nil2)
    then have "vers_rep (I(a := \<lparr>begin_time = t, end_time = b, next_item = None, val = v\<rparr>,
        last as := (I (last as))\<lparr>next_item := Some a, end_time := t\<rparr>)) (as @ [a]) vs (Some (t, b, v))"
      using 3 Cons by simp
    moreover have "x \<noteq> last as" "x \<noteq> a" using 3(4,5) as last_in_set [OF as] by auto
    ultimately show ?thesis using 3(2) as Cons by (cases as) (auto simp: until_def)
  qed
qed auto

lemma vers_rep_commit:
  "vers_rep I (as @ [a]) vs (Some (t, b, v)) \<Longrightarrow> distinct (as @ [a]) \<Longrightarrow>
   J a = (I a)\<lparr>end_time := MAX_TIME, begin_time := c\<rparr> \<Longrightarrow>
   (as \<noteq> [] \<Longrightarrow> J (last as) = (I (last as))\<lparr>end_time := c\<rparr>) \<Longrightarrow>
   (\<And>x. x \<in> set (butlast as) \<Longrightarrow> J x = I x) \<Longrightarrow>
   vers_rep J (as @ [a]) (vs @ [(c, v)]) None"
proof (induction as arbitrary: vs)
  case Nil
  then show ?case by (cases vs) (auto simp: until_def vers_rep_Nil vers_rep_Nil2)
next
  case (Cons x as)
  then obtain d w vs' where vs: "vs = (d, w) # vs'" by (cases vs) (auto simp: vers_rep_Nil vers_rep_Nil2)
  have "vers_rep J (as @ [a]) (vs' @ [(c, v)]) None" using Cons vs by (intro Cons.IH) (auto split: if_splits)
  moreover have "J x = \<lparr>begin_time = d, end_time = until (vs' @ [(c, v)]) None, next_item = first_cell (as @ [a]), val = w\<rparr>"
  proof (cases as)
    case Nil
    then show ?thesis using Cons vs by (cases vs') (auto simp: until_def vers_rep_Nil vers_rep_Nil2)
  next
    case (Cons y ys)
    then have "vs' \<noteq> []" using Cons.prems(1) vs by (auto simp: vers_rep_Nil vers_rep_Nil2)
    then show ?thesis using Cons Cons.prems vs by (cases vs') (auto simp: until_def)
  qed
  ultimately show ?case using vs by simp
qed

lemma vers_rep_abort:
  "vers_rep I (as @ [a]) vs (Some (t, b, v)) \<Longrightarrow> as \<noteq> [] \<Longrightarrow> distinct as \<Longrightarrow>
   J (last as) = (I (last as))\<lparr>next_item := None, end_time := MAX_TIME\<rparr> \<Longrightarrow>
   (\<And>x. x \<in> set (butlast as) \<Longrightarrow> J x = I x) \<Longrightarrow> vers_rep J as vs None"
proof (induction as arbitrary: vs)
  case (Cons x as)
  then obtain d w vs' where vs: "vs = (d, w) # vs'" by (cases vs) (auto simp: vers_rep_Nil vers_rep_Nil2)
  show ?case
  proof (cases as)
    case Nil
    then show ?thesis using Cons vs by (cases vs') (auto simp: until_def vers_rep_Nil vers_rep_Nil2)
  next
    case (Cons y ys)
    then have "vs' \<noteq> []" using Cons.prems(1) vs by (auto simp: vers_rep_Nil vers_rep_Nil2)
    moreover have "vers_rep J as vs' None" using Cons Cons.prems vs by (intro Cons.IH) auto
    ultimately show ?thesis using Cons Cons.prems vs by (cases vs') (auto simp: until_def)
  qed
qed simp

section \<open>The operations on represented lists\<close>

text \<open>
  \<open>mvcc_inv m U l as vs u\<close>: the pool's cells in use are \<open>U\<close>, the list \<open>l\<close> owns the cells \<open>as\<close> and
  represents \<open>vs\<close> and \<open>u\<close>. \<open>keeps_others\<close>: a step on this list leaves the cells of all other lists alone.
\<close>

definition mvcc_inv :: "('v, 's) mvcc_mem \<Rightarrow> nat set \<Rightarrow> mvcc_list \<Rightarrow> nat list \<Rightarrow> 'v versions \<Rightarrow> 'v pending \<Rightarrow> bool" where
  "mvcc_inv m U l as vs u \<longleftrightarrow> pool_used (item_pool m) U \<and> set as \<subseteq> U \<and> list_rep (items m) l as vs u"

definition keeps_others :: "('v, 's) mvcc_mem \<Rightarrow> nat set \<Rightarrow> nat list \<Rightarrow> ('v, 's) mvcc_mem \<Rightarrow> nat set \<Rightarrow> nat list \<Rightarrow> bool" where
  "keeps_others m U as m' U' as' \<longleftrightarrow>
     U' - set as' = U - set as \<and> (\<forall>x\<in>U - set as. items m' x = items m x) \<and>
     nthreads (item_pool m') = nthreads (item_pool m)"

lemma list_rep_empty: "list_rep I l [] [] None \<longleftrightarrow> head l = None \<and> tail l = None \<and> pre_tail l = None"
  by (auto simp: list_rep_def times_ok_def)

lemma list_rep_cells:
  assumes "list_rep I l as vs u"
  shows "as = [] \<longleftrightarrow> vs = [] \<and> u = None" "distinct as" "head l = first_cell as"
    "as \<noteq> [] \<Longrightarrow> tail l = Some (last as)"
  using assms vers_rep_length [of I as vs u] last_cell_eq [of as]
  by (auto simp: list_rep_def vers_rep_Nil split: if_splits)

lemma other_list_kept:
  assumes "list_rep (items m) l2 bs ws w" "set bs \<subseteq> U - set as" "keeps_others m U as m' U' as'"
  shows "list_rep (items m') l2 bs ws w" "set bs \<subseteq> U' - set as'"
  using assms vers_rep_frame [of bs "items m'" "items m" ws w]
  by (auto simp: list_rep_def keeps_others_def subset_iff)

lemma GetTransactionID_pending:
  "IS_VALID_TRX_ID t \<Longrightarrow> GetTransactionID \<lparr>begin_time = t, end_time = b, next_item = n, val = v\<rparr> = t"
  by (simp add: GetTransactionID_def)

lemma committed_time:
  assumes "times_ok vs u" "c \<in> set (map fst vs)"
  shows "\<not> IS_VALID_TRX_ID c" "c \<le> MAX_TIME"
  using assms by (auto simp: times_ok_def IS_VALID_TRX_ID_iff)

lemma tail_pending:
  assumes "list_rep I l as vs (Some (t, b, v))"
  shows "tail l = Some (last as)" "I (last as) = \<lparr>begin_time = t, end_time = b, next_item = None, val = v\<rparr>"
    "GetTransactionID (I (last as)) = t" "begin_time (I (last as)) > MAX_TIME" "IS_VALID_TRX_ID t" "as \<noteq> []"
proof -
  show n: "as \<noteq> []" and t: "tail l = Some (last as)" using list_rep_cells [OF assms] by auto
  show v: "IS_VALID_TRX_ID t" using assms by (simp add: list_rep_def times_ok_def)
  show i: "I (last as) = \<lparr>begin_time = t, end_time = b, next_item = None, val = v\<rparr>"
    using assms vers_rep_pending [of I as vs t b v] by (auto simp: list_rep_def)
  show "GetTransactionID (I (last as)) = t" "begin_time (I (last as)) > MAX_TIME"
    using v by (simp_all add: i GetTransactionID_def IS_VALID_TRX_ID_iff)
qed

lemma tail_committed:
  assumes "list_rep I l as vs None" "as \<noteq> []"
  shows "tail l = Some (last as)" "vs \<noteq> []"
    "I (last as) = \<lparr>begin_time = fst (last vs), end_time = MAX_TIME, next_item = None, val = snd (last vs)\<rparr>"
    "\<not> begin_time (I (last as)) > MAX_TIME" "GetTransactionID (I (last as)) = 0"
proof -
  show t: "tail l = Some (last as)" "vs \<noteq> []" using list_rep_cells [OF assms(1)] assms(2) by auto
  show i: "I (last as) = \<lparr>begin_time = fst (last vs), end_time = MAX_TIME, next_item = None, val = snd (last vs)\<rparr>"
    using assms vers_rep_newest [of I as vs] t by (simp add: list_rep_def)
  have "fst (last vs) \<in> set (map fst vs)" using t(2) by simp
  then have "\<not> IS_VALID_TRX_ID (fst (last vs))" "fst (last vs) \<le> MAX_TIME"
    using assms(1) committed_time [of vs None "fst (last vs)"] by (simp_all add: list_rep_def)
  then show "\<not> begin_time (I (last as)) > MAX_TIME" "GetTransactionID (I (last as)) = 0"
    by (simp_all add: i GetTransactionID_def)
qed

lemma first_cell_snoc: "as \<noteq> [] \<Longrightarrow> first_cell (as @ [a]) = first_cell as"
  by (cases as) auto

subsection \<open>AppendVersion\<close>

lemma AppendVersion_conflict:
  assumes "list_rep (items m) l as vs (Some (t, b, v))" "t \<noteq> trx_id"
  shows "AppendVersion G F tid trx_id bt m l =
    Some \<lparr>app_item = None, app_old = None, app_old_exists = True, app_mem = m, app_list = l\<rparr>"
proof -
  note T = tail_pending [OF assms(1)]
  have "head l = Some (hd as)" using list_rep_cells(3) [OF assms(1)] T(6) by (cases as) auto
  then show ?thesis using T assms(2) by (simp add: AppendVersion_def)
qed

lemma AppendVersion_own:
  assumes "list_rep (items m) l as vs (Some (trx_id, b, v))"
  shows "AppendVersion G F tid trx_id bt m l =
    Some \<lparr>app_item = Some (last as), app_old = None, app_old_exists = True, app_mem = gc_value G F (last as) m, app_list = l\<rparr>"
proof -
  note T = tail_pending [OF assms(1)]
  have "head l = Some (hd as)" using list_rep_cells(3) [OF assms(1)] T(6) by (cases as) auto
  then show ?thesis using T by (simp add: AppendVersion_def)
qed

lemma gc_value_simps [simp]: "items (gc_value G F a m) = items m" "item_pool (gc_value G F a m) = item_pool m"
  by (simp_all add: gc_value_def)

lemma Item_Init_eq:
  "Item_Init trx_id bt it = \<lparr>begin_time = trx_id, end_time = bt, next_item = None, val = val it\<rparr>"
  by (cases it) (simp add: Item_Init_def)

lemma AppendVersion_new:
  assumes inv: "mvcc_inv m U l as vs None" and tid: "tid < nthreads (item_pool m)" and v: "IS_VALID_TRX_ID trx_id"
    and g: "MemPool_Get (item_pool m) tid = Some (a, p)"
  obtains r where "AppendVersion G F tid trx_id bt m l = Some r" "app_item r = Some a"
    "mvcc_inv (app_mem r) (insert a U) (app_list r) (as @ [a]) vs (Some (trx_id, bt, val (items m a)))"
    "keeps_others m U as (app_mem r) (insert a U) (as @ [a])" "app_old r = (if vs = [] then None else Some (snd (last vs)))"
    "val_store (app_mem r) = val_store m"
proof -
  have u: "pool_used (item_pool m) U" and sub: "set as \<subseteq> U" and rep: "list_rep (items m) l as vs None"
    using inv by (auto simp: mvcc_inv_def)
  have P: "a \<notin> U" "pool_used p (insert a U)" "nthreads p = nthreads (item_pool m)"
    using pool_used_get [OF u tid g] by auto
  note C = list_rep_cells [OF rep]
  have d: "distinct (as @ [a])" using C(2) P(1) sub by auto
  have U: "insert a U - set (as @ [a]) = U - set as" using P(1) sub by auto
  let ?new = "\<lparr>begin_time = trx_id, end_time = bt, next_item = None, val = val (items m a)\<rparr>"
  show thesis
  proof (cases "as = []")
    case True
    then have vs: "vs = []" and h: "head l = None" using C by auto
    show thesis
      by (rule that [of "\<lparr>app_item = Some a, app_old = None, app_old_exists = False,
          app_mem = upd_item a (Item_Init trx_id bt) (m\<lparr>item_pool := p\<rparr>),
          app_list = \<lparr>head = Some a, tail = Some a, pre_tail = Some a, tmp_pre_tail = Some a\<rparr>\<rparr>"])
         (use True vs h g P v in \<open>auto simp: AppendVersion_def mvcc_inv_def list_rep_def times_ok_def upd_item_def Item_Init_def
            keeps_others_def last_cell_def\<close>)
  next
    case False
    note T = tail_committed [OF rep False]
    have h: "head l = Some (hd as)" using C(3) False by (cases as) auto
    let ?t = "last as"
    have ta: "?t \<noteq> a" using d False by auto
    define I where "I = (items m)(a := ?new, ?t := (items m ?t)\<lparr>next_item := Some a, end_time := trx_id\<rparr>)"
    have vr: "vers_rep I (as @ [a]) vs (Some (trx_id, bt, val (items m a)))"
      unfolding I_def using rep T(2) d by (intro vers_rep_append) (auto simp: list_rep_def)
    have to: "times_ok vs (Some (trx_id, bt, val (items m a)))" using rep v by (simp add: list_rep_def times_ok_def)
    let ?l = "l\<lparr>tmp_pre_tail := pre_tail l, pre_tail := Some ?t, tail := Some a\<rparr>"
    let ?m = "m\<lparr>item_pool := p, items := I\<rparr>"
    have lr: "list_rep I ?l (as @ [a]) vs (Some (trx_id, bt, val (items m a)))"
      using vr to d C(3) rep False
      by (simp add: list_rep_def pre_cell_snoc last_cell_eq first_cell_snoc)
    have "AppendVersion G F tid trx_id bt m l =
        Some \<lparr>app_item = Some a, app_old = Some (snd (last vs)), app_old_exists = True, app_mem = ?m, app_list = ?l\<rparr>"
      using g T h ta by (auto simp: AppendVersion_def upd_item_def AppendNextVersion_def Item_Init_eq I_def)
    then show thesis
      by (rule that) (use lr P sub U T(2) ta last_in_set [OF False] in \<open>auto simp: mvcc_inv_def keeps_others_def I_def\<close>)
  qed
qed

lemma vers_rep_write:
  "vers_rep I as vs (Some (t, b, v)) \<Longrightarrow> distinct as \<Longrightarrow>
   vers_rep (I(last as := (I (last as))\<lparr>val := w\<rparr>)) as vs (Some (t, b, w))"
proof (induction as arbitrary: vs)
  case (Cons x as)
  show ?case
  proof (cases vs)
    case Nil
    then show ?thesis using Cons.prems by (auto simp: vers_rep_Nil2)
  next
    case (Cons y vs')
    obtain d z where y: "y = (d, z)" by (cases y)
    have as: "as \<noteq> []" using Cons.prems(1) Cons y by (auto simp: vers_rep_Nil)
    then have "x \<noteq> last as" using Cons.prems(2) last_in_set [OF as] by auto
    moreover have "until vs' (Some (t, b, v)) = until vs' (Some (t, b, w))" by (simp add: until_def split: list.splits)
    ultimately show ?thesis using Cons.IH [of vs'] Cons.prems Cons y as by simp
  qed
qed (simp add: vers_rep_Nil)

lemma write_val_pending:
  assumes "mvcc_inv m U l as vs (Some (t, b, v))"
  shows "mvcc_inv (write_val (last as) w m) U l as vs (Some (t, b, w))"
    "keeps_others m U as (write_val (last as) w m) U as" "val_store (write_val (last as) w m) = val_store m"
proof -
  have "as \<noteq> []" using tail_pending(6) [of "items m" l as vs t b v] assms by (simp add: mvcc_inv_def)
  then show "mvcc_inv (write_val (last as) w m) U l as vs (Some (t, b, w))"
    "keeps_others m U as (write_val (last as) w m) U as" "val_store (write_val (last as) w m) = val_store m"
    using assms vers_rep_write [of "items m" as vs t b v w]
    by (auto simp: mvcc_inv_def list_rep_def write_val_def upd_item_def times_ok_def keeps_others_def)
qed

subsection \<open>CommitVersion and AbortVersion\<close>

lemma CommitVersion_rep:
  assumes inv: "mvcc_inv m U l as vs (Some (t, b, v))"
    and ct: "c < MAX_TIME" "\<forall>d\<in>set (map fst vs). d < c"
  obtains m' l' where "CommitVersion t c m l = Some (m', l')" "mvcc_inv m' U l' as (vs @ [(c, v)]) None"
    "keeps_others m U as m' U as" "val_store m' = val_store m"
proof -
  have rep: "list_rep (items m) l as vs (Some (t, b, v))" using inv by (simp add: mvcc_inv_def)
  note T = tail_pending [OF rep]
  obtain as' a where as: "as = as' @ [a]" using T(6) by (cases as rule: rev_cases) auto
  let ?m = "Item_Commit a (pre_tail l) c m"
  have d: "distinct (as' @ [a])" and vr: "vers_rep (items m) (as' @ [a]) vs (Some (t, b, v))"
    and pt: "pre_tail l = pre_cell (as' @ [a])" and to: "times_ok vs (Some (t, b, v))"
    using rep as by (simp_all add: list_rep_def)
  have I: "items ?m a = (items m a)\<lparr>end_time := MAX_TIME, begin_time := c\<rparr>"
    "as' \<noteq> [] \<Longrightarrow> items ?m (last as') = (items m (last as'))\<lparr>end_time := c\<rparr>"
    "x \<noteq> a \<Longrightarrow> as' = [] \<or> x \<noteq> last as' \<Longrightarrow> items ?m x = items m x" for x
    using d pt last_in_set [of as'] by (cases "as' = []"; auto simp: Item_Commit_def upd_item_def pre_cell_snoc last_cell_eq Let_def)+
  have bl: "x \<noteq> last as'" if "x \<in> set (butlast as')" for x
    using that d last_notin_butlast [of as'] by auto
  have "vers_rep (items ?m) (as' @ [a]) (vs @ [(c, v)]) None"
    by (rule vers_rep_commit [OF vr d I(1,2)]) (use d bl in \<open>auto intro!: I(3) dest: in_set_butlastD\<close>)
  moreover have "times_ok (vs @ [(c, v)]) None" using to ct by (auto simp: times_ok_def sorted_wrt_append)
  ultimately have lr: "list_rep (items ?m) (l\<lparr>tmp_pre_tail := None\<rparr>) as (vs @ [(c, v)]) None"
    using rep as by (simp add: list_rep_def)
  have pool: "item_pool ?m = item_pool m" "val_store ?m = val_store m"
    by (simp_all add: Item_Commit_def upd_item_def Let_def split: option.splits)
  have fr: "items ?m x = items m x" if "x \<notin> set as" for x
    using that as last_in_set [of as'] by (intro I(3)) auto
  have "CommitVersion t c m l = Some (?m, l\<lparr>tmp_pre_tail := None\<rparr>)"
    using T(1,3) as by (simp add: CommitVersion_def)
  then show thesis
    by (rule that) (use lr pool fr inv in \<open>auto simp: mvcc_inv_def keeps_others_def\<close>)
qed

lemma AbortVersion_rep:
  assumes inv: "mvcc_inv m U l as vs (Some (t, b, v))" and tid: "tid < nthreads (item_pool m)"
  obtains m' l' where "AbortVersion G F tid t m l = Some (m', l')" "mvcc_inv m' (U - {last as}) l' (butlast as) vs None"
    "keeps_others m U as m' (U - {last as}) (butlast as)"
    "val_store m' = (if G v then F v (val_store m) else val_store m)"
proof -
  have rep: "list_rep (items m) l as vs (Some (t, b, v))" and u: "pool_used (item_pool m) U" and sub: "set as \<subseteq> U"
    using inv by (simp_all add: mvcc_inv_def)
  note T = tail_pending [OF rep]
  obtain as' a where as: "as = as' @ [a]" using T(6) by (cases as rule: rev_cases) auto
  have d: "distinct (as' @ [a])" and vr: "vers_rep (items m) (as' @ [a]) vs (Some (t, b, v))"
    and pt: "pre_tail l = pre_cell (as' @ [a])" and to: "times_ok vs (Some (t, b, v))"
    and tp: "vs \<noteq> [] \<longrightarrow> tmp_pre_tail l = pre_cell as'" and hd: "head l = first_cell (as' @ [a])"
    using rep as by (simp_all add: list_rep_def)
  have aU: "a \<in> U" using sub as by auto
  note P = pool_used_free [OF u tid aU]
  let ?m = "(gc_value G F a m)\<lparr>item_pool := MemPool_Free (item_pool m) a tid\<rparr>"
  have vst: "val_store ?m = (if G v then F v (val_store m) else val_store m)"
    using T(2) as by (simp add: gc_value_def)
  have U: "U - {a} - set as' = U - set as" using as by auto
  have sub': "set as' \<subseteq> U - {a}" using sub d as by auto
  have to': "times_ok vs None" using to by (simp add: times_ok_def)
  show thesis
  proof (cases "as' = []")
    case True
    then have vs: "vs = []" using vr by (cases vs) (auto simp: vers_rep_Nil)
    have "AbortVersion G F tid t m l = Some (?m, l\<lparr>tail := None, head := None, pre_tail := None, tmp_pre_tail := None\<rparr>)"
      using T(1,3) as True pt by (simp add: AbortVersion_def)
    then show thesis
      by (rule that) (use True vs P vst U as in \<open>auto simp: mvcc_inv_def keeps_others_def list_rep_empty\<close>)
  next
    case False
    let ?b = "last as'"
    have pb: "pre_tail l = Some ?b" using pt False by (simp add: pre_cell_snoc last_cell_eq)
    have ab: "a \<noteq> ?b" using d False by auto
    let ?m2 = "upd_item ?b AbortNextVersion ?m"
    let ?l = "l\<lparr>tail := pre_tail l, pre_tail := tmp_pre_tail l, tmp_pre_tail := None\<rparr>"
    have vr2: "vers_rep (items ?m2) as' vs None"
      by (rule vers_rep_abort [OF vr False])
         (use d last_notin_butlast [of as'] in \<open>auto simp: upd_item_def AbortNextVersion_def\<close>)
    have vs: "vs \<noteq> []" using vr2 False by (auto simp: vers_rep_Nil2)
    have lr: "list_rep (items ?m2) ?l as' vs None"
      using vr2 d to' hd tp vs pb False by (simp add: list_rep_def first_cell_snoc last_cell_eq)
    have "AbortVersion G F tid t m l = Some (?m2, ?l)"
      using T(1,3) as pb ab by (simp add: AbortVersion_def)
    then show thesis
      by (rule that)
         (use lr P vst U sub' as False in \<open>auto simp: mvcc_inv_def keeps_others_def upd_item_def\<close>)
  qed
qed

subsection \<open>Reading\<close>

lemma visible_at_Nil [simp]: "visible_at bt [] = None"
  by (simp add: visible_at_def)

lemma visible_at_Cons:
  "visible_at bt ((c, v) # vs) = (case visible_at bt vs of Some w \<Rightarrow> Some w | None \<Rightarrow> if c \<le> bt then Some v else None)"
  by (auto simp: visible_at_def split: list.splits)

lemma visible_at_append:
  "visible_at bt (vs @ [(c, v)]) = (if c \<le> bt then Some v else visible_at bt vs)"
  by (simp add: visible_at_def)

lemma visible_at_none: "\<forall>c\<in>set (map fst vs). bt < c \<Longrightarrow> visible_at bt vs = None"
  by (induction vs) (auto simp: visible_at_Cons)

lemma visible_at_newest: "vs \<noteq> [] \<Longrightarrow> fst (last vs) \<le> bt \<Longrightarrow> visible_at bt vs = Some (snd (last vs))"
  by (cases vs rule: rev_cases) (auto simp: visible_at_append split: prod.splits)

lemma find_version_unfold:
  "find_version I tp bt a =
     (if bt < GetEndTime (I a) then Some a
      else if Some a = tp then None
      else case next_item (I a) of None \<Rightarrow> None | Some b \<Rightarrow> find_version I tp bt b)"
  by (rule find_version.simps)

lemma times_ok_Cons:
  "times_ok ((c, v) # vs) u \<Longrightarrow> times_ok vs u \<and> c < MAX_TIME \<and> (\<forall>d\<in>set (map fst vs). c < d) \<and> \<not> IS_VALID_TRX_ID c"
  by (auto simp: times_ok_def IS_VALID_TRX_ID_iff)

lemma find_version_rep:
  assumes bt: "bt < MAX_TIME"
  shows "vers_rep I (a # as) ((c, v) # vs) u \<Longrightarrow> times_ok ((c, v) # vs) u \<Longrightarrow> distinct (a # as) \<Longrightarrow> c \<le> bt \<Longrightarrow>
    \<exists>x. find_version I (last_cell (a # as)) bt a = Some x \<and> x \<in> set (a # as) \<and>
      visible_at bt ((c, v) # vs) = Some (val (I x)) \<and>
      (NextIsUncommitted (I x) \<longleftrightarrow> u \<noteq> None \<and> fst (last ((c, v) # vs)) \<le> bt) \<and>
      (next_item (I x) = None \<longleftrightarrow> u = None \<and> fst (last ((c, v) # vs)) \<le> bt)"
proof (induction vs arbitrary: a as c v)
  case Nil
  note D = times_ok_Cons [OF Nil.prems(2)]
  have e: "GetEndTime (I a) = until [] u" using Nil.prems(1) D by (simp add: GetEndTime_def GetTransactionID_def)
  have t: "\<And>t b w. u = Some (t, b, w) \<Longrightarrow> MAX_TIME < t \<and> IS_VALID_TRX_ID t"
    using Nil.prems(2) by (auto simp: times_ok_def IS_VALID_TRX_ID_iff)
  then have "bt < until [] u" using bt by (fastforce simp: until_def split: option.splits)
  then have "find_version I (last_cell (a # as)) bt a = Some a" using e by (subst find_version_unfold) simp
  moreover have "NextIsUncommitted (I a) \<longleftrightarrow> u \<noteq> None"
    using Nil.prems(1) t by (auto simp: NextIsUncommitted_def until_def IS_VALID_TRX_ID_iff split: option.splits)
  moreover have "next_item (I a) = None \<longleftrightarrow> u = None"
    using Nil.prems(1) by (cases u) (auto simp: vers_rep_Nil2)
  ultimately show ?case using Nil.prems by (auto simp: visible_at_Cons)
next
  case (Cons y vs)
  obtain d w where y: "y = (d, w)" by (cases y)
  note D = times_ok_Cons [OF Cons.prems(2)]
  have D2: "times_ok ((d, w) # vs) u" "c < d" "\<forall>z\<in>set (map fst vs). d < z"
    using D y times_ok_Cons [of d w vs u] by auto
  obtain b as' where as: "as = b # as'" using Cons.prems(1) y by (cases as) (auto simp: vers_rep_Nil)
  have a: "I a = \<lparr>begin_time = c, end_time = d, next_item = Some b, val = v\<rparr>" "vers_rep I (b # as') ((d, w) # vs) u"
    using Cons.prems(1) y as by (auto simp: until_def)
  have e: "GetEndTime (I a) = d" using a D by (simp add: GetEndTime_def GetTransactionID_def)
  have lc: "last_cell (a # as) = last_cell (b # as')" "Some a \<noteq> last_cell (a # as)"
    using Cons.prems(3) as last_in_set [of "b # as'"] by (auto simp: last_cell_eq)
  show ?case
  proof (cases "bt < d")
    case True
    have nl: "\<not> fst (last ((c, v) # y # vs)) \<le> bt"
    proof -
      have "fst (last ((d, w) # vs)) = d \<or> fst (last ((d, w) # vs)) \<in> set (map fst vs)" by auto
      then show ?thesis using True D2(3) y by fastforce
    qed
    have "visible_at bt ((d, w) # vs) = None" using True D2(3) by (intro visible_at_none) fastforce
    moreover have "find_version I (last_cell (a # as)) bt a = Some a" using e True by (subst find_version_unfold) simp
    moreover have "\<not> IS_VALID_TRX_ID d" using times_ok_Cons [OF D2(1)] by simp
    ultimately show ?thesis using a nl Cons.prems(4) y by (auto simp: visible_at_Cons NextIsUncommitted_def)
  next
    case False
    then have "d \<le> bt" by (rule leI)
    then obtain x where x: "find_version I (last_cell (b # as')) bt b = Some x" "x \<in> set (b # as')"
      "visible_at bt ((d, w) # vs) = Some (val (I x))"
      "NextIsUncommitted (I x) \<longleftrightarrow> u \<noteq> None \<and> fst (last ((d, w) # vs)) \<le> bt"
      "next_item (I x) = None \<longleftrightarrow> u = None \<and> fst (last ((d, w) # vs)) \<le> bt"
      using Cons.IH [OF a(2) D2(1)] Cons.prems(3) as by fastforce
    have "find_version I (last_cell (a # as)) bt a = Some x"
      using e False lc a(1) x(1) by (subst find_version_unfold) simp
    then show ?thesis using x as y by (intro exI [of _ x]) (auto simp: visible_at_Cons)
  qed
qed

lemma SnapshotLevel_rep:
  assumes rep: "list_rep I l as vs u" and bt: "bt < MAX_TIME" and t: "IS_VALID_TRX_ID trx_id"
  shows "SnapshotLevelGetVisibleVersion trx_id bt I l = Some (snapshot_read trx_id bt vs u)"
proof (cases as)
  case Nil
  then show ?thesis using list_rep_cells [OF rep] by (simp add: SnapshotLevelGetVisibleVersion_def snapshot_read_def)
next
  case (Cons h as')
  have hd: "head l = Some h" "tail l = Some (last as)" "tail l = last_cell as"
    using rep Cons by (simp_all add: list_rep_def last_cell_eq)
  have t0: "trx_id \<noteq> 0" using t by (rule valid_trx_id_nonzero)
  show ?thesis
  proof (cases vs)
    case Nil
    then obtain s b v where u: "u = Some (s, b, v)" using rep Cons by (cases u) (auto simp: list_rep_def vers_rep_Nil2)
    note T = tail_pending [OF rep [unfolded u]]
    have "as' = []" using rep Cons Nil u by (auto simp: list_rep_def vers_rep_Nil2)
    then show ?thesis using T hd Cons Nil u valid_trx_id_nonzero [OF T(5)]
      by (auto simp: SnapshotLevelGetVisibleVersion_def snapshot_read_def)
  next
    case (Cons y vs')
    obtain c v where y: "y = (c, v)" by (cases y)
    have vr: "vers_rep I (h # as') ((c, v) # vs') u" "times_ok ((c, v) # vs') u" "distinct (h # as')"
      using rep \<open>as = h # as'\<close> Cons y by (simp_all add: list_rep_def)
    have i: "GetTransactionID (I h) = 0" "begin_time (I h) = c"
      using vr times_ok_Cons [OF vr(2)] by (simp_all add: GetTransactionID_def)
    have own: "GetTransactionID (I (last as)) = trx_id \<longleftrightarrow> (\<exists>b w. u = Some (trx_id, b, w))"
      "u = Some (trx_id, b, w) \<Longrightarrow> val (I (last as)) = w" for b w
      using tail_pending [of I l as vs] tail_committed [of I l as vs] rep t0 \<open>as = h # as'\<close> by (cases u; auto)+
    have none: "bt < c \<Longrightarrow> visible_at bt vs = None"
      using times_ok_Cons [OF vr(2)] Cons y by (intro visible_at_none) fastforce
    have fv: "\<exists>x. find_version I (tail l) bt h = Some x \<and> visible_at bt vs = Some (val (I x))" if "c \<le> bt"
      using find_version_rep [OF bt vr that] hd \<open>as = h # as'\<close> Cons y by auto
    show ?thesis
    proof (cases "\<exists>b w. u = Some (trx_id, b, w)")
      case True
      then show ?thesis using own hd by (auto simp: SnapshotLevelGetVisibleVersion_def snapshot_read_def)
    next
      case False
      then have s: "snapshot_read trx_id bt vs u = visible_at bt vs"
        by (auto simp: snapshot_read_def split: option.splits)
      show ?thesis
      proof (cases "bt < c")
        case True
        then show ?thesis using s none hd i own False by (simp add: SnapshotLevelGetVisibleVersion_def)
      next
        case le: False
        then obtain x where "find_version I (tail l) bt h = Some x" "visible_at bt vs = Some (val (I x))"
          using fv leI by blast
        then show ?thesis using s hd i own False le by (simp add: SnapshotLevelGetVisibleVersion_def)
      qed
    qed
  qed
qed

text \<open>
  What a serializable read answers, on the abstract list. A pending version of another transaction
  is looked at only when the newest committed version is the visible one.
\<close>

definition preread :: "bool \<Rightarrow> (u64 \<Rightarrow> TRX_STAT \<times> u64) \<Rightarrow> u64 \<Rightarrow> u64 \<Rightarrow> bool \<Rightarrow> u64 \<Rightarrow> dep_trx_map \<Rightarrow> (bool \<times> bool) \<times> dep_trx_map" where
  "preread opt read_ct trx_id bt read_only t deps =
     (if \<not> opt then ((False, False), deps)
      else case read_ct t of
        (VALIDATING, c) \<Rightarrow>
          if bt > c then ((True, True), add_homo trx_id t deps)
          else ((True, False), if read_only then deps else add_hetero trx_id t deps)
      | (COMMITTED, c) \<Rightarrow>
          if bt > c then ((True, True), deps) else (if read_only then (True, False) else (False, False), deps)
      | (_, _) \<Rightarrow> ((True, False), deps))"

definition serial_read :: "bool \<Rightarrow> (u64 \<Rightarrow> TRX_STAT \<times> u64) \<Rightarrow> u64 \<Rightarrow> u64 \<Rightarrow> bool \<Rightarrow> 'v versions \<Rightarrow> 'v pending \<Rightarrow>
    dep_trx_map \<Rightarrow> 'v read_result \<times> dep_trx_map" where
  "serial_read opt read_ct trx_id bt read_only vs u deps =
     (case u of
        Some (t, _, w) \<Rightarrow>
          if t = trx_id then (Visible w, deps)
          else if vs = [] \<or> fst (last vs) \<le> bt then
            (let (pr, deps') = preread opt read_ct trx_id bt read_only t deps
             in (if \<not> fst pr then ReadAbort else if snd pr then Visible w
                 else if vs = [] then NoVersion else Visible (snd (last vs)), deps'))
          else (case visible_at bt vs of
                  None \<Rightarrow> if read_only then NoVersion else ReadAbort
                | Some v \<Rightarrow> if read_only then Visible v else ReadAbort, deps)
      | None \<Rightarrow>
          (if vs = [] then NoVersion
           else case visible_at bt vs of
                  None \<Rightarrow> if read_only then NoVersion else ReadAbort
                | Some v \<Rightarrow> if read_only \<or> fst (last vs) \<le> bt then Visible v else ReadAbort, deps))"

lemma TryPreRead_eq:
  assumes "GetTransactionID it = t" "t \<noteq> 0"
  shows "TryPreReadUncommittedTail opt read_ct trx_id bt read_only it deps = Some (preread opt read_ct trx_id bt read_only t deps)"
  using assms by (auto simp: TryPreReadUncommittedTail_def preread_def split: prod.splits TRX_STAT.splits)

lemma SerializableLevel_rep:
  assumes rep: "list_rep I l as vs u" and bt: "bt < MAX_TIME" and t: "IS_VALID_TRX_ID trx_id"
  shows "SerializableLevelGetVisibleVersion opt read_ct trx_id bt read_only I l deps =
    Some (serial_read opt read_ct trx_id bt read_only vs u deps)"
proof (cases as)
  case Nil
  then show ?thesis using list_rep_cells [OF rep] by (simp add: SerializableLevelGetVisibleVersion_def serial_read_def)
next
  case (Cons h as')
  note asC = Cons
  have hd: "head l = Some h" "tail l = Some (last as)" "tail l = last_cell as"
    using rep Cons by (simp_all add: list_rep_def last_cell_eq)
  have t0: "trx_id \<noteq> 0" using t by (rule valid_trx_id_nonzero)
  show ?thesis
  proof (cases vs)
    case Nil
    then obtain s b v where u: "u = Some (s, b, v)" using rep Cons by (cases u) (auto simp: list_rep_def vers_rep_Nil2)
    note T = tail_pending [OF rep [unfolded u]]
    have "as' = []" using rep Cons Nil u by (auto simp: list_rep_def vers_rep_Nil2)
    then show ?thesis using T hd Cons Nil u valid_trx_id_nonzero [OF T(5)] TryPreRead_eq [OF T(3) valid_trx_id_nonzero [OF T(5)]]
      by (auto simp: SerializableLevelGetVisibleVersion_def serial_read_def split: prod.splits)
  next
    case (Cons y vs')
    obtain c v where y: "y = (c, v)" by (cases y)
    have vr: "vers_rep I (h # as') ((c, v) # vs') u" "times_ok ((c, v) # vs') u" "distinct (h # as')"
      using rep asC Cons y by (simp_all add: list_rep_def)
    have i: "GetTransactionID (I h) = 0" "begin_time (I h) = c"
      using vr times_ok_Cons [OF vr(2)] by (simp_all add: GetTransactionID_def)
    have ne: "vs \<noteq> []" using Cons by simp
    have lo: "c \<le> fst (last vs)" using times_ok_Cons [OF vr(2)] Cons y by (cases "vs' = []") (auto intro: less_imp_le)
    have none: "bt < c \<Longrightarrow> visible_at bt vs = None"
      using times_ok_Cons [OF vr(2)] Cons y by (intro visible_at_none) fastforce
    have fv: "\<exists>x. find_version I (tail l) bt h = Some x \<and> visible_at bt vs = Some (val (I x)) \<and>
        (NextIsUncommitted (I x) \<longleftrightarrow> u \<noteq> None \<and> fst (last vs) \<le> bt) \<and>
        (next_item (I x) = None \<longleftrightarrow> u = None \<and> fst (last vs) \<le> bt)" if "c \<le> bt"
      using find_version_rep [OF bt vr that] hd asC Cons y by auto
    show ?thesis
    proof (cases u)
      case None
      note T = tail_committed [OF rep [unfolded None]]
      have tid: "GetTransactionID (I (last as)) = 0" using T(5) asC by simp
      show ?thesis
      proof (cases "bt < c")
        case True
        then show ?thesis using none hd i tid t0 None ne
          by (simp add: SerializableLevelGetVisibleVersion_def serial_read_def)
      next
        case False
        then have "c \<le> bt" by (simp add: not_less)
        from fv [OF this] obtain x where "find_version I (tail l) bt h = Some x" "visible_at bt vs = Some (val (I x))"
          "\<not> NextIsUncommitted (I x)" "next_item (I x) = None \<longleftrightarrow> fst (last vs) \<le> bt"
          unfolding None by (elim exE conjE) simp
        then show ?thesis using hd i tid t0 None ne False
          by (simp add: SerializableLevelGetVisibleVersion_def serial_read_def)
      qed
    next
      case (Some z)
      obtain s b w where z: "z = (s, b, w)" by (cases z)
      note T = tail_pending [OF rep [unfolded Some z]]
      note pr = TryPreRead_eq [OF T(3) valid_trx_id_nonzero [OF T(5)]]
      show ?thesis
      proof (cases "s = trx_id \<or> bt < c")
        case True
        then show ?thesis using none hd i T ne lo Some z
          by (auto simp: SerializableLevelGetVisibleVersion_def serial_read_def)
      next
        case False
        then have "c \<le> bt" by (simp add: not_less)
        from fv [OF this] obtain x where x: "find_version I (tail l) bt h = Some x" "visible_at bt vs = Some (val (I x))"
          "NextIsUncommitted (I x) \<longleftrightarrow> fst (last vs) \<le> bt" "next_item (I x) \<noteq> None"
          unfolding Some by (elim exE conjE) simp
        show ?thesis
        proof (cases "fst (last vs) \<le> bt")
          case True
          then have "val (I x) = snd (last vs)" using x(2) visible_at_newest [OF ne True] by simp
          then show ?thesis using x hd i T False True Some z pr ne
            by (simp add: SerializableLevelGetVisibleVersion_def serial_read_def split: prod.splits)
        next
          case nl: False
          then show ?thesis using x hd i T False Some z ne
            by (simp add: SerializableLevelGetVisibleVersion_def serial_read_def)
        qed
      qed
    qed
  qed
qed

end
