(* ===== verification/MVCC_Run.thy ===== *)
theory MVCC_Run
  imports MVCC_List
begin

text \<open>
  Runs of one version list against its specification: the steps a list goes through (loading, writing,
  committing, aborting) are simulated by steps on the abstract list of versions, and the reads of the
  code answer what the specification answers. The theorems on isolation follow from the specification.
\<close>

section \<open>Runs of a list\<close>

text \<open>
  A list starts empty or with the version that the data loader puts there. Its steps are those its
  callers make: writing, committing and aborting. \<open>now\<close> is the latest commit time given out; commit times grow. A caller that writes assigns the value through the
  pointer it gets.
\<close>

type_synonym ('v, 's) list_state = "('v, 's) mvcc_mem \<times> mvcc_list \<times> u64"
type_synonym 'v spec_state = "'v versions \<times> 'v pending \<times> u64"

definition list_start :: "('v, 's) mvcc_mem \<Rightarrow> ('v, 's) list_state \<Rightarrow> bool" where
  "list_start m0 s \<longleftrightarrow>
     s = (m0, empty_list, 0) \<or>
     (\<exists>tid a m l v. tid < nthreads (item_pool m0) \<and> AppendInitialVersion tid m0 empty_list = Some (a, m, l) \<and>
        s = (write_val a v m, l, 0))"

inductive list_step :: "('v \<Rightarrow> bool) \<Rightarrow> ('v \<Rightarrow> 's \<Rightarrow> 's) \<Rightarrow> ('v, 's) list_state \<Rightarrow> ('v, 's) list_state \<Rightarrow> bool"
  for NeedGC ValueGC where
  append: "tid < nthreads (item_pool m) \<Longrightarrow> IS_VALID_TRX_ID t \<Longrightarrow> AppendVersion NeedGC ValueGC tid t bt m l = Some r \<Longrightarrow>
    app_item r = Some a \<Longrightarrow> list_step NeedGC ValueGC (m, l, now) (write_val a v (app_mem r), app_list r, now)"
| commit: "IS_VALID_TRX_ID t \<Longrightarrow> now < c \<Longrightarrow> c < MAX_TIME \<Longrightarrow> CommitVersion t c m l = Some (m', l') \<Longrightarrow>
    list_step NeedGC ValueGC (m, l, now) (m', l', c)"
| abort: "tid < nthreads (item_pool m) \<Longrightarrow> IS_VALID_TRX_ID t \<Longrightarrow> AbortVersion NeedGC ValueGC tid t m l = Some (m', l') \<Longrightarrow>
    list_step NeedGC ValueGC (m, l, now) (m', l', now)"

text \<open>
  The same steps with their actions: which transaction does what, with the value it writes or its commit time, and the
  answer it gets. A write is accepted (\<open>Do_write\<close>) or refused (\<open>Do_refuse\<close>). \<open>list_init m0 i\<close> is the start of a list that
  was loaded with \<open>i\<close>.
\<close>

datatype 'v list_action = Do_write u64 u64 'v | Do_refuse u64 u64 | Do_commit u64 u64 | Do_abort u64

definition list_init :: "('v, 's) mvcc_mem \<Rightarrow> 'v option \<Rightarrow> ('v, 's) list_state \<Rightarrow> bool" where
  "list_init m0 i s \<longleftrightarrow> (case i of
     None \<Rightarrow> s = (m0, empty_list, 0)
   | Some v \<Rightarrow> \<exists>tid a m l. tid < nthreads (item_pool m0) \<and> AppendInitialVersion tid m0 empty_list = Some (a, m, l) \<and>
       s = (write_val a v m, l, 0))"

inductive list_act :: "('v \<Rightarrow> bool) \<Rightarrow> ('v \<Rightarrow> 's \<Rightarrow> 's) \<Rightarrow> 'v list_action \<Rightarrow> ('v, 's) list_state \<Rightarrow> ('v, 's) list_state \<Rightarrow> bool"
  for NeedGC ValueGC where
  accept: "tid < nthreads (item_pool m) \<Longrightarrow> IS_VALID_TRX_ID t \<Longrightarrow> AppendVersion NeedGC ValueGC tid t bt m l = Some r \<Longrightarrow>
    app_item r = Some a \<Longrightarrow> list_act NeedGC ValueGC (Do_write t bt v) (m, l, now) (write_val a v (app_mem r), app_list r, now)"
| refuse: "tid < nthreads (item_pool m) \<Longrightarrow> IS_VALID_TRX_ID t \<Longrightarrow> AppendVersion NeedGC ValueGC tid t bt m l = Some r \<Longrightarrow>
    app_item r = None \<Longrightarrow> list_act NeedGC ValueGC (Do_refuse t bt) (m, l, now) (app_mem r, app_list r, now)"
| commit: "IS_VALID_TRX_ID t \<Longrightarrow> now < c \<Longrightarrow> c < MAX_TIME \<Longrightarrow> CommitVersion t c m l = Some (m', l') \<Longrightarrow>
    list_act NeedGC ValueGC (Do_commit t c) (m, l, now) (m', l', c)"
| abort: "tid < nthreads (item_pool m) \<Longrightarrow> IS_VALID_TRX_ID t \<Longrightarrow> AbortVersion NeedGC ValueGC tid t m l = Some (m', l') \<Longrightarrow>
    list_act NeedGC ValueGC (Do_abort t) (m, l, now) (m', l', now)"

text \<open>
  The specification: committed versions in the order of their times and at most one pending one. Every action has one
  outcome; an action that a state does not allow is \<open>None\<close>.
\<close>

definition spec_init :: "'v option \<Rightarrow> 'v spec_state" where
  "spec_init i = (case i of None \<Rightarrow> [] | Some v \<Rightarrow> [(0, v)], None, 0)"

fun spec_act :: "'v list_action \<Rightarrow> 'v spec_state \<Rightarrow> 'v spec_state option" where
  "spec_act (Do_write t bt v) (vs, None, now) = Some (vs, Some (t, bt, v), now)"
| "spec_act (Do_write t bt v) (vs, Some (s, b, w), now) = (if s = t then Some (vs, Some (t, b, v), now) else None)"
| "spec_act (Do_refuse t bt) (vs, Some (s, b, w), now) = (if s = t then None else Some (vs, Some (s, b, w), now))"
| "spec_act (Do_commit t c) (vs, Some (s, b, w), now) = (if s = t \<and> now < c then Some (vs @ [(c, w)], None, c) else None)"
| "spec_act (Do_abort t) (vs, Some (s, b, w), now) = (if s = t then Some (vs, None, now) else None)"
| "spec_act _ (vs, None, now) = None"

text \<open>A run of labelled steps, and the run of a function on the same actions.\<close>

fun run :: "('l \<Rightarrow> 'c \<Rightarrow> 'c \<Rightarrow> bool) \<Rightarrow> 'l list \<Rightarrow> 'c \<Rightarrow> 'c \<Rightarrow> bool" where
  "run step [] s s' = (s' = s)"
| "run step (l # ls) s s' = (\<exists>s1. step l s s1 \<and> run step ls s1 s')"

fun do_all :: "('l \<Rightarrow> 'a \<Rightarrow> 'a option) \<Rightarrow> 'l list \<Rightarrow> 'a \<Rightarrow> 'a option" where
  "do_all f [] a = Some a"
| "do_all f (l # ls) a = do { a \<leftarrow> f l a; do_all f ls a }"

lemma run_append: "run step (ls @ ks) s s' \<longleftrightarrow> (\<exists>s1. run step ls s s1 \<and> run step ks s1 s')"
  by (induction ls arbitrary: s) auto

lemma do_all_append: "do_all f (ls @ ks) a = do { a \<leftarrow> do_all f ls a; do_all f ks a }"
  by (induction ls arbitrary: a) (auto split: bind_splits)

definition list_abs :: "(nat \<Rightarrow> 'v mvcc_item) \<Rightarrow> nat set \<Rightarrow> ('v, 's) list_state \<Rightarrow> 'v spec_state \<Rightarrow> bool" where
  "list_abs I0 U0 s a \<longleftrightarrow>
     (case (s, a) of ((m, l, now), (vs, u, now')) \<Rightarrow>
        now' = now \<and> (\<forall>c\<in>set (map fst vs). c \<le> now) \<and>
        (\<exists>U as. mvcc_inv m U l as vs u \<and> U - set as = U0 \<and> (\<forall>x\<in>U0. items m x = I0 x)))"

lemma list_absI:
  "mvcc_inv m U l as vs u \<Longrightarrow> U - set as = U0 \<Longrightarrow> (\<forall>x\<in>U0. items m x = I0 x) \<Longrightarrow> (\<forall>c\<in>set (map fst vs). c \<le> now) \<Longrightarrow>
   list_abs I0 U0 (m, l, now) (vs, u, now)"
  by (auto simp: list_abs_def)

lemma list_absE:
  assumes "list_abs I0 U0 (m, l, now) (vs, u, now')"
  obtains U as where "mvcc_inv m U l as vs u" "U - set as = U0" "\<forall>x\<in>U0. items m x = I0 x" "now' = now"
    "\<forall>c\<in>set (map fst vs). c \<le> now" "list_rep (items m) l as vs u"
  using assms by (auto simp: list_abs_def mvcc_inv_def)

lemma keeps_others_frame:
  "keeps_others m U as m' U' as' \<Longrightarrow> U - set as = U0 \<Longrightarrow> \<forall>x\<in>U0. items m x = I0 x \<Longrightarrow>
   U' - set as' = U0 \<and> (\<forall>x\<in>U0. items m' x = I0 x)"
  by (auto simp: keeps_others_def)

lemma keeps_others_trans:
  "keeps_others m U as m' U' as' \<Longrightarrow> keeps_others m' U' as' m'' U'' as'' \<Longrightarrow> keeps_others m U as m'' U'' as''"
  by (auto simp: keeps_others_def)

lemma pending_owner:
  assumes "list_rep I l as vs u" "tail l = Some x" "GetTransactionID (I x) = t" "IS_VALID_TRX_ID t"
  shows "\<exists>b v. u = Some (t, b, v)"
proof (cases u)
  case None
  have "as \<noteq> []" using assms(1,2) by (auto simp: list_rep_def)
  then show ?thesis using tail_committed [OF assms(1) [unfolded None]] assms valid_trx_id_nonzero [OF assms(4)] by auto
next
  case (Some z)
  then obtain s b v where "u = Some (s, b, v)" by (cases z) auto
  then show ?thesis using tail_pending [of I l as vs s b v] assms by auto
qed

lemma gc_value_inv:
  "mvcc_inv (gc_value G F a m) U l as vs u = mvcc_inv m U l as vs u"
  "keeps_others m U as (gc_value G F a m) U as"
  by (auto simp: mvcc_inv_def keeps_others_def)

lemma write_step_pending:
  assumes R: "list_abs I0 U0 (m, l, now) (vs, u, now)" and tid: "tid < nthreads (item_pool m)" and t: "IS_VALID_TRX_ID t"
    and r: "AppendVersion G F tid t bt m l = Some r" "app_item r = Some a"
  shows "\<exists>b0. list_abs I0 U0 (write_val a v (app_mem r), app_list r, now) (vs, Some (t, b0, v), now) \<and>
    (u = None \<and> b0 = bt \<or> (\<exists>w. u = Some (t, b0, w)))"
proof -
  obtain U as where A: "mvcc_inv m U l as vs u" "U - set as = U0" "\<forall>x\<in>U0. items m x = I0 x"
    "\<forall>c\<in>set (map fst vs). c \<le> now" "list_rep (items m) l as vs u" using R by (rule list_absE)
  show ?thesis
  proof (cases u)
    case None
    have "\<exists>x p. MemPool_Get (item_pool m) tid = Some (x, p)"
    proof (cases "as = []")
      case True
      then show ?thesis using r list_rep_cells [OF A(5)] by (auto simp: AppendVersion_def split: option.splits prod.splits bind_splits)
    next
      case False
      then have "head l \<noteq> None" using list_rep_cells(3) [OF A(5)] by (cases as) auto
      then show ?thesis using r tail_committed [OF A(5) [unfolded None] False]
        by (auto simp: AppendVersion_def split: option.splits prod.splits bind_splits)
    qed
    then obtain x p where g: "MemPool_Get (item_pool m) tid = Some (x, p)" by blast
    obtain r' where r': "AppendVersion G F tid t bt m l = Some r'" "app_item r' = Some x"
      "mvcc_inv (app_mem r') (insert x U) (app_list r') (as @ [x]) vs (Some (t, bt, val (items m x)))"
      "keeps_others m U as (app_mem r') (insert x U) (as @ [x])"
      by (rule AppendVersion_new [OF A(1) [unfolded None] tid t g])
    have rr: "r' = r" "x = a" using r r' by simp_all
    note W = write_val_pending [OF r'(3), of v]
    have "list_abs I0 U0 (write_val a v (app_mem r), app_list r, now) (vs, Some (t, bt, v), now)"
      using W keeps_others_frame [OF keeps_others_trans [OF r'(4) W(2)] A(2,3)] A(4) rr by (intro list_absI) auto
    then show ?thesis using None by blast
  next
    case (Some z)
    obtain s b w where u: "u = Some (s, b, w)" using Some by (cases z) auto
    have s: "s = t" using AppendVersion_conflict [OF A(5) [unfolded u], of t G F tid bt] r by (cases "s = t") auto
    have rr: "app_mem r = gc_value G F (last as) m" "app_list r = l" "a = last as"
      using AppendVersion_own [OF A(5) [unfolded u s], of G F tid bt] r by auto
    have i: "mvcc_inv (gc_value G F (last as) m) U l as vs (Some (s, b, w))" using A(1) u by (simp add: gc_value_inv)
    note W = write_val_pending [OF i, of v]
    have "list_abs I0 U0 (write_val a v (app_mem r), app_list r, now) (vs, Some (s, b, v), now)"
      using W keeps_others_frame [OF keeps_others_trans [OF gc_value_inv(2) W(2)] A(2,3)] A(4) rr
      by (intro list_absI) auto
    then show ?thesis using u s by blast
  qed
qed

lemma write_step_sim:
  assumes "list_abs I0 U0 (m, l, now) (vs, u, now)" "tid < nthreads (item_pool m)" "IS_VALID_TRX_ID t"
    and "AppendVersion G F tid t bt m l = Some r" "app_item r = Some a"
  shows "\<exists>a'. spec_act (Do_write t bt v) (vs, u, now) = Some a' \<and> list_abs I0 U0 (write_val a v (app_mem r), app_list r, now) a'"
  using write_step_pending [OF assms, of v] by auto

lemma refuse_step_sim:
  assumes R: "list_abs I0 U0 (m, l, now) (vs, u, now)" and tid: "tid < nthreads (item_pool m)" and t: "IS_VALID_TRX_ID t"
    and r: "AppendVersion G F tid t bt m l = Some r" "app_item r = None"
  shows "\<exists>a'. spec_act (Do_refuse t bt) (vs, u, now) = Some a' \<and> list_abs I0 U0 (app_mem r, app_list r, now) a'"
proof -
  obtain U as where A: "mvcc_inv m U l as vs u" "list_rep (items m) l as vs u" using R by (rule list_absE)
  have "begin_time (items m x) > MAX_TIME \<and> GetTransactionID (items m x) \<noteq> t" if "tail l = Some x" for x
    using r that by (auto simp: AppendVersion_def Let_def split: option.splits if_splits bind_splits)
  moreover have "as \<noteq> []"
  proof
    assume "as = []"
    then have "head l = None" using list_rep_cells(3) [OF A(2)] by simp
    then show False using r by (auto simp: AppendVersion_def split: bind_splits)
  qed
  ultimately obtain s b w where u: "u = Some (s, b, w)" "s \<noteq> t"
    using tail_committed [of "items m" l as vs] tail_pending [of "items m" l as vs] A(2) by (cases u) fastforce+
  then show ?thesis using AppendVersion_conflict [OF A(2) [unfolded u(1)], of t G F tid bt] r R by auto
qed

lemma AppendVersion_nthreads:
  assumes "list_abs I0 U0 (m, l, now) (vs, u, now)" "tid < nthreads (item_pool m)" "IS_VALID_TRX_ID t"
    and "AppendVersion G F tid t bt m l = Some r" "app_item r = Some a"
  shows "nthreads (item_pool (write_val a v (app_mem r))) = nthreads (item_pool m)"
proof -
  have u: "\<exists>U. pool_used (item_pool m) U" using assms(1) by (auto simp: list_abs_def mvcc_inv_def)
  then show ?thesis using assms(2,4) pool_used_get
    by (fastforce simp: AppendVersion_def write_val_def upd_item_def Let_def split: option.splits prod.splits if_splits bind_splits)
qed

lemma load_abs:
  assumes u: "pool_used (item_pool m0) U" and tid: "tid < nthreads (item_pool m0)"
    and r: "AppendInitialVersion tid m0 empty_list = Some (a, m, l)"
  shows "list_abs (items m0) U (write_val a v m, l, 0) ([(0, v)], None, 0)"
proof -
  obtain p where p: "MemPool_Get (item_pool m0) tid = Some (a, p)"
    "m = upd_item a (Item_Init MIN_TIME MAX_TIME) (m0\<lparr>item_pool := p\<rparr>)"
    "l = empty_list\<lparr>head := Some a, tail := Some a, pre_tail := Some a\<rparr>"
    using r by (auto simp: AppendInitialVersion_def split: bind_splits)
  note P = pool_used_get [OF u tid p(1)]
  have "mvcc_inv (write_val a v m) (insert a U) l [a] [(0, v)] None"
    using P by (simp add: mvcc_inv_def list_rep_def times_ok_def write_val_def upd_item_def p(2,3) Item_Init_eq until_def
        last_cell_def MAX_TIMESTAMP_def)
  moreover have "insert a U - set [a] = U" "\<forall>x\<in>U. items (write_val a v m) x = items m0 x"
    using P by (auto simp: write_val_def upd_item_def p(2))
  ultimately show ?thesis by (intro list_absI) auto
qed

lemma commit_step_sim:
  assumes R: "list_abs I0 U0 (m, l, now) (vs, u, now)" and t: "IS_VALID_TRX_ID t" and c: "now < c" "c < MAX_TIME"
    and r: "CommitVersion t c m l = Some (m', l')"
  shows "\<exists>a'. spec_act (Do_commit t c) (vs, u, now) = Some a' \<and> list_abs I0 U0 (m', l', c) a'"
proof -
  obtain U as where A: "mvcc_inv m U l as vs u" "U - set as = U0" "\<forall>x\<in>U0. items m x = I0 x"
    "\<forall>c\<in>set (map fst vs). c \<le> now" "list_rep (items m) l as vs u" using R by (rule list_absE)
  obtain b v where u: "u = Some (t, b, v)"
    using r pending_owner [OF A(5) _ _ t] by (cases "tail l") (auto simp: CommitVersion_def CHECK_def split: if_splits)
  have lt: "\<forall>d\<in>set (map fst vs). d < c" using A(4) c(1) by (auto intro: le_less_trans)
  obtain m2 l2 where C: "CommitVersion t c m l = Some (m2, l2)" "mvcc_inv m2 U l2 as (vs @ [(c, v)]) None"
    "keeps_others m U as m2 U as" by (rule CommitVersion_rep [OF A(1) [unfolded u] c(2) lt])
  have "list_abs I0 U0 (m', l', c) (vs @ [(c, v)], None, c)"
    using C r keeps_others_frame [OF C(3) A(2,3)] lt by (intro list_absI) (auto intro: less_imp_le)
  then show ?thesis using u c(1) by simp
qed

lemma abort_step_sim:
  assumes R: "list_abs I0 U0 (m, l, now) (vs, u, now)" and tid: "tid < nthreads (item_pool m)" and t: "IS_VALID_TRX_ID t"
    and r: "AbortVersion G F tid t m l = Some (m', l')"
  shows "\<exists>b v. u = Some (t, b, v) \<and> list_abs I0 U0 (m', l', now) (vs, None, now)"
proof -
  obtain U as where A: "mvcc_inv m U l as vs u" "U - set as = U0" "\<forall>x\<in>U0. items m x = I0 x"
    "\<forall>c\<in>set (map fst vs). c \<le> now" "list_rep (items m) l as vs u" using R by (rule list_absE)
  obtain b v where u: "u = Some (t, b, v)"
    using r pending_owner [OF A(5) _ _ t]
    by (cases "tail l"; cases "GetTransactionID (items m (the (tail l))) = t") (auto simp: AbortVersion_def CHECK_def)
  obtain m2 l2 where C: "AbortVersion G F tid t m l = Some (m2, l2)" "mvcc_inv m2 (U - {last as}) l2 (butlast as) vs None"
    "keeps_others m U as m2 (U - {last as}) (butlast as)" by (rule AbortVersion_rep [OF A(1) [unfolded u] tid])
  have "list_abs I0 U0 (m', l', now) (vs, None, now)"
    using C r keeps_others_frame [OF C(3) A(2,3)] A(4) by (intro list_absI) auto
  then show ?thesis using u by blast
qed

lemma list_act_sim:
  assumes "list_act G F x s s'" "list_abs I0 U0 s a"
  shows "\<exists>a'. spec_act x a = Some a' \<and> list_abs I0 U0 s' a'"
proof -
  obtain vs u k where a: "a = (vs, u, k)" by (cases a)
  from assms(1) show ?thesis
  proof cases
    case (accept tid m t bt l r y v now)
    then show ?thesis using write_step_sim [of I0 U0 m l now vs u tid t G F bt r y v] assms(2) a by (auto simp: list_abs_def)
  next
    case (refuse tid m t bt l r now)
    then show ?thesis using refuse_step_sim [of I0 U0 m l now vs u tid t G F bt r] assms(2) a by (auto simp: list_abs_def)
  next
    case (commit t now c m l m' l')
    then show ?thesis using commit_step_sim [of I0 U0 m l now vs u t c m' l'] assms(2) a by (auto simp: list_abs_def)
  next
    case (abort tid m t l m' l' now)
    then show ?thesis using abort_step_sim [of I0 U0 m l now vs u tid t G F m' l'] assms(2) a
      by (fastforce simp: list_abs_def)
  qed
qed

text \<open>
  An implementation and a specification with a simulation relation: a run of the one is matched by the run of the
  other on the same actions.
\<close>

locale simulation =
  fixes cstep :: "'l \<Rightarrow> 'c \<Rightarrow> 'c \<Rightarrow> bool" and astep :: "'l \<Rightarrow> 'a \<Rightarrow> 'a option" and R :: "'c \<Rightarrow> 'a \<Rightarrow> bool"
  assumes sim: "cstep l s s' \<Longrightarrow> R s a \<Longrightarrow> \<exists>a'. astep l a = Some a' \<and> R s' a'"
begin

lemma run_sim: "run cstep ls s s' \<Longrightarrow> R s a \<Longrightarrow> \<exists>a'. do_all astep ls a = Some a' \<and> R s' a'"
proof (induction ls arbitrary: s a)
  case (Cons l ls)
  then obtain s1 where s1: "cstep l s s1" "run cstep ls s1 s'" by auto
  then obtain a1 where "astep l a = Some a1" "R s1 a1" using sim Cons.prems(2) by blast
  then show ?case using Cons.IH [OF s1(2)] by simp
qed simp

end

interpretation ml: simulation "list_act G F" spec_act "list_abs I0 U0" for G F I0 U0
  by unfold_locales (rule list_act_sim)

lemma list_step_act: "list_step G F s s' \<Longrightarrow> \<exists>x. list_act G F x s s'"
  by (erule list_step.cases) (auto intro: list_act.intros)

lemma list_steps_acts: "(list_step G F)\<^sup>*\<^sup>* s s' \<Longrightarrow> \<exists>xs. run (list_act G F) xs s s'"
proof (induction rule: rtranclp_induct)
  case (step y z)
  then obtain xs x where "run (list_act G F) xs s y" "list_act G F x y z" using list_step_act by blast
  then show ?case by (intro exI [of _ "xs @ [x]"]) (unfold run_append run.simps, blast)
qed (auto intro: exI [of _ "[]"])

lemma list_abs_empty:
  "pool_used (item_pool m) U \<Longrightarrow> list_abs (items m) U (m, empty_list, 0) ([], None, 0)"
  by (rule list_absI [of m U empty_list "[]"]) (auto simp: mvcc_inv_def list_rep_empty empty_list_def)

lemma list_init_abs: "pool_used (item_pool m0) U \<Longrightarrow> list_init m0 i s0 \<Longrightarrow> list_abs (items m0) U s0 (spec_init i)"
  by (auto simp: list_init_def spec_init_def list_abs_empty load_abs split: option.splits)

lemma list_start_init: "list_start m0 s0 \<longleftrightarrow> (\<exists>i. list_init m0 i s0)"
  unfolding list_start_def list_init_def split_option_ex option.case by blast

lemma list_reach_abs:
  assumes "pool_used (item_pool m0) U" "list_start m0 s0" "(list_step G F)\<^sup>*\<^sup>* s0 s"
  shows "\<exists>a. list_abs (items m0) U s a"
  using list_steps_acts [OF assms(3)] list_init_abs [OF assms(1)] assms(2) ml.run_sim [of G F _ s0 s]
  unfolding list_start_init by blast

text \<open>Commits with later times do not change what a transaction reads.\<close>

lemma spec_act_visible:
  "spec_act x (vs, u, now) = Some (vs', u', now') \<Longrightarrow> (\<forall>t c. x = Do_commit t c \<longrightarrow> bt < c) \<Longrightarrow> visible_at bt vs' = visible_at bt vs"
  by (cases x; cases u) (auto simp: visible_at_append not_le [symmetric] split: if_splits)

lemma spec_run_visible:
  assumes "do_all spec_act xs a = Some a'" "\<forall>t c. Do_commit t c \<in> set xs \<longrightarrow> bt < c"
  shows "visible_at bt (fst a') = visible_at bt (fst a)"
  using assms
proof (induction xs arbitrary: a)
  case (Cons x xs)
  obtain vs u n where a: "a = (vs, u, n)" by (cases a)
  obtain vs1 u1 n1 where a1: "spec_act x a = Some (vs1, u1, n1)" "do_all spec_act xs (vs1, u1, n1) = Some a'"
    using Cons.prems(1) by (auto simp: Option.bind_eq_Some_conv)
  show ?case using Cons.IH [OF a1(2)] spec_act_visible [OF a1(1) [unfolded a], of bt] Cons.prems(2) a by auto
qed simp

lemma list_abs_snapshot:
  assumes "list_abs I0 U (m, l, now) (vs, u, now')" "IS_VALID_TRX_ID t" "bt < MAX_TIME"
  shows "SnapshotLevelGetVisibleVersion t bt (items m) l = Some (snapshot_read t bt vs u)"
  using assms(1) by (rule list_absE) (rule SnapshotLevel_rep [OF _ assms(3,2)])

lemma list_abs_serializable:
  assumes "list_abs I0 U (m, l, now) (vs, u, now')" "IS_VALID_TRX_ID t" "bt < MAX_TIME"
  shows "SerializableLevelGetVisibleVersion opt read_ct t bt ro (items m) l deps = Some (serial_read opt read_ct t bt ro vs u deps)"
  using assms(1) by (rule list_absE) (rule SerializableLevel_rep [OF _ assms(3,2)])

text \<open>\<open>owns_pending\<close>: the tail is an uncommitted version of \<open>t\<close>.\<close>

definition owns_pending :: "u64 \<Rightarrow> (nat \<Rightarrow> 'v mvcc_item) \<Rightarrow> mvcc_list \<Rightarrow> bool" where
  "owns_pending t I l = (case tail l of None \<Rightarrow> False | Some x \<Rightarrow> GetTransactionID (I x) = t)"

lemma owns_pending_iff:
  assumes "list_rep I l as vs u" "IS_VALID_TRX_ID t"
  shows "owns_pending t I l \<longleftrightarrow> (\<exists>b v. u = Some (t, b, v))"
proof
  assume "owns_pending t I l"
  then show "\<exists>b v. u = Some (t, b, v)" using pending_owner [OF assms(1) _ _ assms(2)]
    by (auto simp: owns_pending_def split: option.splits)
next
  assume "\<exists>b v. u = Some (t, b, v)"
  then show "owns_pending t I l" using tail_pending [of I l as vs t] assms(1) by (auto simp: owns_pending_def)
qed

lemma list_abs_owner:
  assumes "list_abs I0 U (m, l, now) (vs, u, now')" "IS_VALID_TRX_ID t"
  shows "owns_pending t (items m) l \<longleftrightarrow> (\<exists>b v. u = Some (t, b, v))"
  using assms(1) by (rule list_absE) (rule owns_pending_iff [OF _ assms(2)])

lemma snapshot_read_other: "\<nexists>b v. u = Some (t, b, v) \<Longrightarrow> snapshot_read t bt vs u = visible_at bt vs"
  by (auto simp: snapshot_read_def split: option.splits)

subsection \<open>Clearing a list\<close>

definition all_values :: "'v versions \<Rightarrow> 'v pending \<Rightarrow> 'v list" where
  "all_values vs u = map snd vs @ (case u of None \<Rightarrow> [] | Some (_, _, v) \<Rightarrow> [v])"

definition collect_value :: "('v \<Rightarrow> bool) \<Rightarrow> ('v \<Rightarrow> 's \<Rightarrow> 's) \<Rightarrow> 'v \<Rightarrow> 's \<Rightarrow> 's" where
  "collect_value G F v s = (if G v then F v s else s)"

lemma gc_value_store: "val_store (gc_value G F a m) = collect_value G F (val (items m a)) (val_store m)"
  by (simp add: gc_value_def collect_value_def)

lemma vers_rep_ConsE:
  assumes "vers_rep I (a # as) vs u"
  obtains vs' u' where "vers_rep I as vs' u'" "next_item (I a) = first_cell as" "all_values vs u = val (I a) # all_values vs' u'"
proof (cases vs)
  case Nil
  then obtain t b v where u: "u = Some (t, b, v)" using assms by (cases u) (auto simp: vers_rep_Nil2)
  show thesis by (rule that [of "[]" None]) (use assms Nil u in \<open>auto simp: vers_rep_Nil2 all_values_def\<close>)
next
  case (Cons y vs')
  obtain c v where "y = (c, v)" by (cases y)
  show thesis by (rule that [of vs' u]) (use assms Cons \<open>y = (c, v)\<close> in \<open>auto simp: all_values_def\<close>)
qed

lemma gc_loop_unfold:
  "gc_loop G F tid None m = Some m"
  "gc_loop G F tid (Some a) m =
     gc_loop G F tid (next_item (items m a))
       ((gc_value G F a m)\<lparr>item_pool := MemPool_Free (item_pool m) a tid\<rparr>)"
proof -
  show "gc_loop G F tid None m = Some m" by (subst gc_loop.simps) simp
  show "gc_loop G F tid (Some a) m = gc_loop G F tid (next_item (items m a))
      ((gc_value G F a m)\<lparr>item_pool := MemPool_Free (item_pool m) a tid\<rparr>)"
    by (rule trans [OF gc_loop.simps]) (simp add: Let_def)
qed

lemma gc_loop_rep:
  assumes "vers_rep (items m) as vs u" "distinct as" "set as \<subseteq> U" "pool_used (item_pool m) U" "tid < nthreads (item_pool m)"
  shows "\<exists>m'. gc_loop G F tid (first_cell as) m = Some m' \<and> pool_used (item_pool m') (U - set as) \<and> items m' = items m \<and>
    val_store m' = fold (collect_value G F) (all_values vs u) (val_store m)"
  using assms
proof (induction as arbitrary: m U vs u)
  case Nil
  then show ?case by (auto simp: vers_rep_Nil gc_loop_unfold all_values_def)
next
  case (Cons a as)
  obtain vs' u' where V: "vers_rep (items m) as vs' u'" "next_item (items m a) = first_cell as"
    "all_values vs u = val (items m a) # all_values vs' u'" using Cons.prems(1) by (rule vers_rep_ConsE)
  let ?m = "(gc_value G F a m)\<lparr>item_pool := MemPool_Free (item_pool m) a tid\<rparr>"
  have aU: "a \<in> U" using Cons.prems(3) by simp
  note P = pool_used_free [OF Cons.prems(4,5) aU]
  have "\<exists>m'. gc_loop G F tid (first_cell as) ?m = Some m' \<and> pool_used (item_pool m') (U - {a} - set as) \<and> items m' = items ?m \<and>
      val_store m' = fold (collect_value G F) (all_values vs' u') (val_store ?m)"
    by (rule Cons.IH) (use V(1) Cons.prems P in auto)
  moreover have "U - {a} - set as = U - set (a # as)" by auto
  ultimately show ?case using V by (simp add: gc_loop_unfold gc_value_store)
qed

lemma vers_rep_pre:
  "vers_rep I (as @ [a]) vs (Some (t, b, v)) \<Longrightarrow> vs \<noteq> [] \<Longrightarrow> as \<noteq> [] \<and> val (I (last as)) = snd (last vs)"
proof (induction as arbitrary: vs)
  case Nil
  then show ?case by (cases vs) (auto simp: vers_rep_Nil)
next
  case (Cons x as)
  then obtain d w vs' where vs: "vs = (d, w) # vs'" by (cases vs) auto
  show ?case
  proof (cases "vs' = []")
    case True
    then show ?thesis using Cons.prems(1) vs by (auto simp: vers_rep_Nil2)
  next
    case False
    then show ?thesis using Cons.IH [of vs'] Cons.prems(1) vs by simp
  qed
qed

lemma pre_tail_pending:
  assumes "list_rep I l as vs (Some (t, b, v))" "vs \<noteq> []"
  shows "\<exists>y. pre_tail l = Some y \<and> val (I y) = snd (last vs)"
proof -
  have "as \<noteq> []" using tail_pending(6) [OF assms(1)] .
  then obtain as' a where as: "as = as' @ [a]" by (cases as rule: rev_cases) auto
  then show ?thesis using assms vers_rep_pre [of I as' a vs t b v] by (auto simp: list_rep_def pre_cell_snoc last_cell_eq)
qed

section \<open>A run\<close>

text \<open>
  A concrete run, on which the theorems below are applied: on an empty list of numbers in a pool of seven
  cells, a transaction writes 42 and commits at time 5; a second one then writes 43 and commits at time 12.
\<close>

definition ex_mem :: "(nat, unit) mvcc_mem" where
  "ex_mem = \<lparr>items = (\<lambda>_. \<lparr>begin_time = 0, end_time = 0, next_item = None, val = 0\<rparr>),
     item_pool = the (MemPool_Init 2 7 1 False), val_store = ()\<rparr>"

definition ex_trx :: u64 where
  "ex_trx = 9223372036854776064"

definition ex_append :: "(nat, unit) append_result" where
  "ex_append = the (AppendVersion (\<lambda>_. False) (\<lambda>_ s. s) 0 ex_trx 3 ex_mem empty_list)"

definition ex_written :: "(nat, unit) mvcc_mem" where
  "ex_written = write_val (the (app_item ex_append)) 42 (app_mem ex_append)"

definition ex_committed :: "(nat, unit) mvcc_mem \<times> mvcc_list" where
  "ex_committed = the (CommitVersion ex_trx 5 ex_written (app_list ex_append))"

definition ex_append2 :: "(nat, unit) append_result" where
  "ex_append2 = the (AppendVersion (\<lambda>_. False) (\<lambda>_ s. s) 0 (ex_trx + 256) 7 (fst ex_committed) (snd ex_committed))"

definition ex_written2 :: "(nat, unit) mvcc_mem" where
  "ex_written2 = write_val (the (app_item ex_append2)) 43 (app_mem ex_append2)"

definition ex_committed2 :: "(nat, unit) mvcc_mem \<times> mvcc_list" where
  "ex_committed2 = the (CommitVersion (ex_trx + 256) 12 ex_written2 (app_list ex_append2))"

definition ex_actions :: "nat list_action list" where
  "ex_actions = [Do_write ex_trx 3 42, Do_commit ex_trx 5]"

definition ex_actions2 :: "nat list_action list" where
  "ex_actions2 = [Do_write (ex_trx + 256) 7 43, Do_commit (ex_trx + 256) 12]"

abbreviation ex_steps :: "(nat, unit) list_state \<Rightarrow> (nat, unit) list_state \<Rightarrow> bool" where
  "ex_steps \<equiv> (list_step (\<lambda>_. False) (\<lambda>_ s. s))\<^sup>*\<^sup>*"

declare find_version.simps [code]

lemma ex_trx_valid: "IS_VALID_TRX_ID ex_trx"
  by code_simp

lemma ex_start: "pool_used (item_pool ex_mem) {}" "list_start ex_mem (ex_mem, empty_list, 0)" "nthreads (item_pool ex_mem) = 1"
  "list_init ex_mem None (ex_mem, empty_list, 0)"
proof -
  have "MemPool_Init 2 7 1 False \<noteq> None" by code_simp
  then obtain p where p: "MemPool_Init 2 7 1 False = Some p" by blast
  show "pool_used (item_pool ex_mem) {}" "nthreads (item_pool ex_mem) = 1"
    using MemPool_Init_used [OF p] p by (simp_all add: ex_mem_def)
qed (simp_all add: list_start_def list_init_def)

lemma ex_append_eq:
  "AppendVersion (\<lambda>_. False) (\<lambda>_ s. s) 0 ex_trx 3 ex_mem empty_list = Some ex_append"
  "app_item ex_append = Some 0"
proof -
  have "(case AppendVersion (\<lambda>_. False) (\<lambda>_ s. s) 0 ex_trx 3 ex_mem empty_list of None \<Rightarrow> False | Some r \<Rightarrow> app_item r = Some 0)"
    by code_simp
  then show "AppendVersion (\<lambda>_. False) (\<lambda>_ s. s) 0 ex_trx 3 ex_mem empty_list = Some ex_append" "app_item ex_append = Some 0"
    unfolding ex_append_def by (auto split: option.splits)
qed

lemma ex_commit_eq: "CommitVersion ex_trx 5 ex_written (app_list ex_append) = Some ex_committed"
proof -
  have "(case CommitVersion ex_trx 5 ex_written (app_list ex_append) of None \<Rightarrow> False | Some _ \<Rightarrow> True)" by code_simp
  then show ?thesis unfolding ex_committed_def by (auto split: option.splits)
qed

lemma ex_run:
  "ex_steps (ex_mem, empty_list, 0) (ex_written, app_list ex_append, 0)"
  "ex_steps (ex_written, app_list ex_append, 0) (fst ex_committed, snd ex_committed, 5)"
  "ex_steps (ex_mem, empty_list, 0) (fst ex_committed, snd ex_committed, 5)"
proof -
  have "list_step (\<lambda>_. False) (\<lambda>_ s. s) (ex_mem, empty_list, 0) (write_val 0 42 (app_mem ex_append), app_list ex_append, 0)"
    by (rule list_step.append [OF _ ex_trx_valid ex_append_eq]) (simp add: ex_start)
  then show 1: "ex_steps (ex_mem, empty_list, 0) (ex_written, app_list ex_append, 0)"
    by (simp add: ex_written_def ex_append_eq(2) r_into_rtranclp)
  have "list_step (\<lambda>_. False) (\<lambda>_ s. s) (ex_written, app_list ex_append, 0) (fst ex_committed, snd ex_committed, 5)"
    by (rule list_step.commit [OF ex_trx_valid]) (simp_all add: ex_commit_eq MAX_TIMESTAMP_def)
  then show 2: "ex_steps (ex_written, app_list ex_append, 0) (fst ex_committed, snd ex_committed, 5)" by blast
  show "ex_steps (ex_mem, empty_list, 0) (fst ex_committed, snd ex_committed, 5)" using 1 2 by (rule rtranclp_trans)
qed

lemma ex_append2_eq:
  "AppendVersion (\<lambda>_. False) (\<lambda>_ s. s) 0 (ex_trx + 256) 7 (fst ex_committed) (snd ex_committed) = Some ex_append2"
  "app_item ex_append2 \<noteq> None"
proof -
  have "(case AppendVersion (\<lambda>_. False) (\<lambda>_ s. s) 0 (ex_trx + 256) 7 (fst ex_committed) (snd ex_committed) of None \<Rightarrow> False
     | Some r \<Rightarrow> app_item r \<noteq> None)" by code_simp
  then show "AppendVersion (\<lambda>_. False) (\<lambda>_ s. s) 0 (ex_trx + 256) 7 (fst ex_committed) (snd ex_committed) = Some ex_append2"
    "app_item ex_append2 \<noteq> None" unfolding ex_append2_def by (auto split: option.splits)
qed

lemma ex_commit2_eq: "CommitVersion (ex_trx + 256) 12 ex_written2 (app_list ex_append2) = Some ex_committed2"
proof -
  have "(case CommitVersion (ex_trx + 256) 12 ex_written2 (app_list ex_append2) of None \<Rightarrow> False | Some _ \<Rightarrow> True)" by code_simp
  then show ?thesis unfolding ex_committed2_def by (auto split: option.splits)
qed

abbreviation ex_act :: "nat list_action \<Rightarrow> (nat, unit) list_state \<Rightarrow> (nat, unit) list_state \<Rightarrow> bool" where
  "ex_act \<equiv> list_act (\<lambda>_. False) (\<lambda>_ s. s)"

lemma ex_acts:
  "run ex_act ex_actions (ex_mem, empty_list, 0) (fst ex_committed, snd ex_committed, 5)"
  "run ex_act ex_actions2 (fst ex_committed, snd ex_committed, 5) (fst ex_committed2, snd ex_committed2, 12)"
  "run ex_act (ex_actions @ ex_actions2) (ex_mem, empty_list, 0) (fst ex_committed2, snd ex_committed2, 12)"
proof -
  have "ex_act (Do_write ex_trx 3 42) (ex_mem, empty_list, 0) (write_val 0 42 (app_mem ex_append), app_list ex_append, 0)"
    by (rule list_act.accept [OF _ ex_trx_valid ex_append_eq]) (simp add: ex_start)
  moreover have "ex_act (Do_commit ex_trx 5) (ex_written, app_list ex_append, 0) (fst ex_committed, snd ex_committed, 5)"
    by (rule list_act.commit [OF ex_trx_valid]) (simp_all add: ex_commit_eq MAX_TIMESTAMP_def)
  ultimately show 1: "run ex_act ex_actions (ex_mem, empty_list, 0) (fst ex_committed, snd ex_committed, 5)"
    by (auto simp: ex_actions_def ex_written_def ex_append_eq(2))
  have v: "IS_VALID_TRX_ID (ex_trx + 256)" "nthreads (item_pool (fst ex_committed)) = 1" by code_simp+
  have "ex_act (Do_write (ex_trx + 256) 7 43) (fst ex_committed, snd ex_committed, 5) (ex_written2, app_list ex_append2, 5)"
    unfolding ex_written2_def by (rule list_act.accept [OF _ v(1) ex_append2_eq(1)]) (use v(2) ex_append2_eq(2) in auto)
  moreover have "ex_act (Do_commit (ex_trx + 256) 12) (ex_written2, app_list ex_append2, 5) (fst ex_committed2, snd ex_committed2, 12)"
    by (rule list_act.commit [OF v(1)]) (simp_all add: ex_commit2_eq MAX_TIMESTAMP_def)
  ultimately show 2: "run ex_act ex_actions2 (fst ex_committed, snd ex_committed, 5) (fst ex_committed2, snd ex_committed2, 12)"
    by (auto simp: ex_actions2_def)
  show "run ex_act (ex_actions @ ex_actions2) (ex_mem, empty_list, 0) (fst ex_committed2, snd ex_committed2, 12)"
    using 1 2 by (auto simp: run_append)
qed

section \<open>Properties\<close>

text \<open>
  When an operation on a list is possible: only the transaction whose version is pending can commit or abort, any write
  gets an answer as long as the pool has a cell, and it is refused when the version of another transaction is pending.
\<close>

lemma list_abs_possible:
  assumes R: "list_abs I0 U0 (m, l, now) (vs, u, now)" and tid: "tid < nthreads (item_pool m)" and t: "IS_VALID_TRX_ID t"
  shows "AbortVersion G F tid t m l \<noteq> None \<longleftrightarrow> (\<exists>b v. u = Some (t, b, v))"
    and "now < c \<Longrightarrow> c < MAX_TIME \<Longrightarrow> CommitVersion t c m l \<noteq> None \<longleftrightarrow> (\<exists>b v. u = Some (t, b, v))"
    and "MemPool_Get (item_pool m) tid \<noteq> None \<Longrightarrow>
      \<exists>r. AppendVersion G F tid t bt m l = Some r \<and> (app_item r = None \<longleftrightarrow> (\<exists>s b v. u = Some (s, b, v) \<and> s \<noteq> t))"
proof -
  obtain U as where A: "mvcc_inv m U l as vs u" "\<forall>c\<in>set (map fst vs). c \<le> now" "list_rep (items m) l as vs u"
    using R by (rule list_absE)
  show "AbortVersion G F tid t m l \<noteq> None \<longleftrightarrow> (\<exists>b v. u = Some (t, b, v))"
  proof
    show "AbortVersion G F tid t m l \<noteq> None \<Longrightarrow> \<exists>b v. u = Some (t, b, v)"
      using abort_step_sim [OF R tid t, of G F] by (cases "AbortVersion G F tid t m l") auto
    assume "\<exists>b v. u = Some (t, b, v)"
    then obtain b v where u: "u = Some (t, b, v)" by blast
    show "AbortVersion G F tid t m l \<noteq> None" by (rule AbortVersion_rep [OF A(1) [unfolded u] tid, of G F]) simp
  qed
  show "now < c \<Longrightarrow> c < MAX_TIME \<Longrightarrow> CommitVersion t c m l \<noteq> None \<longleftrightarrow> (\<exists>b v. u = Some (t, b, v))"
  proof
    assume c: "now < c" "c < MAX_TIME"
    show "CommitVersion t c m l \<noteq> None \<Longrightarrow> \<exists>b v. u = Some (t, b, v)"
      using commit_step_sim [OF R t c] by (cases u) (auto split: if_splits)
    have "\<forall>d\<in>set (map fst vs). d < c" using A(2) c(1) by (auto intro: le_less_trans)
    moreover assume "\<exists>b v. u = Some (t, b, v)"
    then obtain b v where u: "u = Some (t, b, v)" by blast
    ultimately obtain m' l' where "CommitVersion t c m l = Some (m', l')" by (metis CommitVersion_rep [OF A(1) [unfolded u] c(2)])
    then show "CommitVersion t c m l \<noteq> None" by simp
  qed
  assume "MemPool_Get (item_pool m) tid \<noteq> None"
  then obtain x p where g: "MemPool_Get (item_pool m) tid = Some (x, p)" by auto
  show "\<exists>r. AppendVersion G F tid t bt m l = Some r \<and> (app_item r = None \<longleftrightarrow> (\<exists>s b v. u = Some (s, b, v) \<and> s \<noteq> t))"
  proof (cases u)
    case None
    then show ?thesis using AppendVersion_new [OF A(1) [unfolded None] tid t g, of G F bt] by fastforce
  next
    case (Some z)
    then obtain s b w where u: "u = Some (s, b, w)" by (cases z) auto
    then show ?thesis
      using AppendVersion_conflict [of m l as vs s b w t G F tid bt] AppendVersion_own [of m l as vs t b w G F tid bt] A(3)
      by (cases "s = t") simp_all
  qed
qed

text \<open>
  C3. A version list implements its specification. However a list was loaded, written, committed and aborted, refused
  writes included, the specification allows the same actions in the same order, with the same answers, and they determine
  the committed versions and the pending one that the list stands for. A read at either isolation level then ends
  without failing a check and answers what the specification answers. A transaction can commit or abort exactly when the
  pending version is its own, and as long as the pool has a cell a write gets an answer, a refusal exactly when the
  pending version is another transaction's. The cells of all other lists are untouched.
\<close>

theorem mvcc_list_refines_spec:
  assumes "pool_used (item_pool m0) U" "list_init m0 i s0" "run (list_act G F) actions s0 (m, l, now)"
  shows "\<exists>vs u. do_all spec_act actions (spec_init i) = Some (vs, u, now) \<and>
    (\<forall>t bt. IS_VALID_TRX_ID t \<and> bt < MAX_TIME \<longrightarrow>
       SnapshotLevelGetVisibleVersion t bt (items m) l = Some (snapshot_read t bt vs u) \<and>
       (\<forall>opt read_ct ro deps. SerializableLevelGetVisibleVersion opt read_ct t bt ro (items m) l deps =
          Some (serial_read opt read_ct t bt ro vs u deps))) \<and>
    (\<forall>t tid. IS_VALID_TRX_ID t \<and> tid < nthreads (item_pool m) \<longrightarrow>
       (AbortVersion G F tid t m l \<noteq> None \<longleftrightarrow> (\<exists>b v. u = Some (t, b, v))) \<and>
       (\<forall>c. now < c \<and> c < MAX_TIME \<longrightarrow> (CommitVersion t c m l \<noteq> None \<longleftrightarrow> (\<exists>b v. u = Some (t, b, v)))) \<and>
       (MemPool_Get (item_pool m) tid \<noteq> None \<longrightarrow> (\<forall>bt. \<exists>r. AppendVersion G F tid t bt m l = Some r \<and>
          (app_item r = None \<longleftrightarrow> (\<exists>s b v. u = Some (s, b, v) \<and> s \<noteq> t))))) \<and>
    (\<forall>x\<in>U. items m x = items m0 x)"
proof -
  obtain a where A: "do_all spec_act actions (spec_init i) = Some a" "list_abs (items m0) U (m, l, now) a"
    using ml.run_sim [OF assms(3) list_init_abs [OF assms(1,2)]] by blast
  obtain vs u n where a: "a = (vs, u, n)" by (cases a)
  have n: "n = now" "\<forall>x\<in>U. items m x = items m0 x" using A(2) a by (auto simp: list_abs_def)
  note B = A(2) [unfolded a n(1)]
  have "CommitVersion t c m l \<noteq> None \<longleftrightarrow> (\<exists>b v. u = Some (t, b, v))"
    if "IS_VALID_TRX_ID t \<and> tid < nthreads (item_pool m)" "now < c \<and> c < MAX_TIME" for t tid c
    using list_abs_possible(2) [OF B, of tid t c] that by blast
  then show ?thesis
    using A(1) a n list_abs_snapshot [OF B] list_abs_serializable [OF B] list_abs_possible(1,3) [OF B]
    by (intro exI [of _ vs] exI [of _ u] conjI allI impI) (simp_all del: not_None_eq)
qed

theorem mvcc_list_refines_spec_witness:
  "SnapshotLevelGetVisibleVersion (ex_trx + 512) 9 (items (fst ex_committed2)) (snd ex_committed2) = Some (Some 42) \<and>
   SnapshotLevelGetVisibleVersion (ex_trx + 512) 20 (items (fst ex_committed2)) (snd ex_committed2) = Some (Some 43)"
proof -
  let ?m = "fst ex_committed2" and ?l = "snd ex_committed2"
  obtain vs u where S: "do_all spec_act (ex_actions @ ex_actions2) (spec_init None) = Some (vs, u, 12)"
    "\<forall>t bt. IS_VALID_TRX_ID t \<and> bt < MAX_TIME \<longrightarrow> SnapshotLevelGetVisibleVersion t bt (items ?m) ?l = Some (snapshot_read t bt vs u)"
    using mvcc_list_refines_spec [OF ex_start(1,4) ex_acts(3)] by (elim exE conjE) simp
  have "vs = [(5, 42), (12, 43)]" "u = None" using S(1) by (simp_all add: spec_init_def ex_actions_def ex_actions2_def)
  moreover have "IS_VALID_TRX_ID (ex_trx + 512)" "snapshot_read (ex_trx + 512) 9 [(5, 42 :: nat), (12, 43)] None = Some 42"
    "snapshot_read (ex_trx + 512) 20 [(5, 42 :: nat), (12, 43)] None = Some 43" by code_simp+
  moreover have "(9 :: u64) < MAX_TIME" "(20 :: u64) < MAX_TIME" by (simp_all add: MAX_TIMESTAMP_def)
  ultimately show ?thesis using S(2) by auto
qed



lemma reach_abs3:
  assumes "pool_used (item_pool m0) U" "list_start m0 s0" "(list_step G F)\<^sup>*\<^sup>* s0 (m, l, now)"
  obtains vs u where "list_abs (items m0) U (m, l, now) (vs, u, now)"
proof -
  obtain a where a: "list_abs (items m0) U (m, l, now) a" using list_reach_abs [OF assms] by blast
  obtain vs u n where "a = (vs, u, n)" by (cases a)
  moreover from this a have "n = now" by (simp add: list_abs_def)
  ultimately show thesis using a by (intro that) simp
qed

text \<open>
  C13. An update transaction never reads an overwritten version under serializable isolation: what it
  reads is the tail of the list, or the newest committed version below an uncommitted tail. When that
  tail belongs to another transaction that is validating, the dependency is recorded.
\<close>

theorem serializable_update_reads_newest:
  assumes "pool_used (item_pool m0) U" "list_start m0 s0" "(list_step G F)\<^sup>*\<^sup>* s0 (m, l, now)"
    and "IS_VALID_TRX_ID t" "bt < MAX_TIME"
    and "SerializableLevelGetVisibleVersion opt read_ct t bt False (items m) l deps = Some (Visible v, deps')"
  shows "\<exists>x. tail l = Some x \<and>
    (v = val (items m x) \<or> begin_time (items m x) > MAX_TIME \<and> (\<exists>y. pre_tail l = Some y \<and> v = val (items m y))) \<and>
    (\<forall>c. begin_time (items m x) > MAX_TIME \<and> begin_time (items m x) \<noteq> t \<and> read_ct (begin_time (items m x)) = (VALIDATING, c) \<longrightarrow>
       deps' = (if bt > c then add_homo else add_hetero) t (begin_time (items m x)) deps)"
proof -
  obtain vs u where A: "list_abs (items m0) U (m, l, now) (vs, u, now)" using assms(1-3) by (rule reach_abs3)
  then obtain as where rep: "list_rep (items m) l as vs u" by (rule list_absE)
  have r: "serial_read opt read_ct t bt False vs u deps = (Visible v, deps')"
    using list_abs_serializable [OF A assms(4,5)] assms(6) by simp
  show ?thesis
  proof (cases u)
    case None
    then have "as \<noteq> []" "v = snd (last vs)" using r list_rep_cells [OF rep] visible_at_newest [of vs bt]
      by (auto simp: serial_read_def split: if_splits option.splits)
    then show ?thesis using tail_committed [OF rep [unfolded None]] by auto
  next
    case (Some z)
    obtain s b w where u: "u = Some (s, b, w)" using Some by (cases z) auto
    note T = tail_pending [OF rep [unfolded u]]
    have "v = w \<or> vs \<noteq> [] \<and> v = snd (last vs)"
      using r u by (auto simp: serial_read_def Let_def split: if_splits option.splits prod.splits)
    moreover have "\<exists>y. pre_tail l = Some y \<and> val (items m y) = snd (last vs)" if "vs \<noteq> []"
      using pre_tail_pending [OF rep [unfolded u] that] by blast
    moreover have "deps' = (if bt > c then add_homo else add_hetero) t s deps" if "read_ct s = (VALIDATING, c)" "s \<noteq> t" for c
      using r u that by (auto simp: serial_read_def preread_def Let_def split: if_splits option.splits)
    ultimately show ?thesis using T by auto
  qed
qed

theorem serializable_update_reads_newest_witness:
  "SerializableLevelGetVisibleVersion True (\<lambda>_. (VALIDATING, 5)) (ex_trx + 256) 9 False (items ex_written) (app_list ex_append) Map.empty =
     Some (Visible 42, add_homo (ex_trx + 256) ex_trx Map.empty)"
proof -
  let ?read = "SerializableLevelGetVisibleVersion True (\<lambda>_. (VALIDATING, 5)) (ex_trx + 256) 9 False (items ex_written) (app_list ex_append) Map.empty"
  have "(case ?read of None \<Rightarrow> False | Some (v, d) \<Rightarrow> v = Visible 42)" by code_simp
  then obtain d where r: "?read = Some (Visible 42, d)" by (auto split: option.splits)
  have "tail (app_list ex_append) = Some 0" "begin_time (items ex_written 0) = ex_trx" "IS_VALID_TRX_ID (ex_trx + 256)" by code_simp+
  moreover have "(9 :: u64) < MAX_TIME" "ex_trx > MAX_TIME" "ex_trx \<noteq> ex_trx + 256" by (simp_all add: MAX_TIMESTAMP_def ex_trx_def)
  ultimately show ?thesis using serializable_update_reads_newest [OF ex_start(1,2) ex_run(1) _ _ r] r by auto
qed

text \<open>
  C26. Write-write conflicts. Once a transaction has written the list, every other transaction's write is
  refused without any change to the list or the memory, and the writer reads its own value back at both
  isolation levels.
\<close>

theorem write_write_conflict:
  assumes "pool_used (item_pool m0) U" "list_start m0 s0" "(list_step G F)\<^sup>*\<^sup>* s0 (m, l, now)"
    and "IS_VALID_TRX_ID t" "tid < nthreads (item_pool m)" "AppendVersion G F tid t bt m l = Some r" "app_item r = Some a"
    and "t' \<noteq> t" "bt' < MAX_TIME"
  shows "AppendVersion G F tid' t' b (write_val a v (app_mem r)) (app_list r) =
      Some \<lparr>app_item = None, app_old = None, app_old_exists = True, app_mem = write_val a v (app_mem r), app_list = app_list r\<rparr> \<and>
    SnapshotLevelGetVisibleVersion t bt' (items (write_val a v (app_mem r))) (app_list r) = Some (Some v) \<and>
    SerializableLevelGetVisibleVersion opt read_ct t bt' ro (items (write_val a v (app_mem r))) (app_list r) deps =
      Some (Visible v, deps)"
proof -
  obtain vs u where A: "list_abs (items m0) U (m, l, now) (vs, u, now)" using assms(1-3) by (rule reach_abs3)
  obtain b0 where B: "list_abs (items m0) U (write_val a v (app_mem r), app_list r, now) (vs, Some (t, b0, v), now)"
    using write_step_pending [OF A assms(5,4,6,7), of v] by blast
  then obtain as where rep: "list_rep (items (write_val a v (app_mem r))) (app_list r) as vs (Some (t, b0, v))"
    by (rule list_absE)
  show ?thesis
    using AppendVersion_conflict [OF rep, of t'] list_abs_snapshot [OF B assms(4,9)] list_abs_serializable [OF B assms(4,9)] assms(8)
    by (simp add: snapshot_read_def serial_read_def)
qed

theorem write_write_conflict_witness:
  "\<exists>r. AppendVersion (\<lambda>_. False) (\<lambda>_ s. s) 0 (ex_trx + 256) 4 ex_written (app_list ex_append) = Some r \<and> app_item r = None"
proof -
  have "ex_trx + 256 \<noteq> ex_trx" "(9 :: u64) < MAX_TIME" by (simp_all add: ex_trx_def MAX_TIMESTAMP_def)
  with write_write_conflict [OF ex_start(1,2) rtranclp.rtrancl_refl ex_trx_valid _ ex_append_eq, where v = 42 and bt' = 9]
  show ?thesis by (simp add: ex_start(3) ex_written_def ex_append_eq(2))
qed

text \<open>
  C27. Aborting takes a write back: after a transaction's first write to a list and its abort, the list
  answers every snapshot read as before, for every transaction and every time, and the abort does not
  fail.
\<close>

theorem abort_restores_list:
  assumes "pool_used (item_pool m0) U" "list_start m0 s0" "(list_step G F)\<^sup>*\<^sup>* s0 (m, l, now)"
    and "IS_VALID_TRX_ID t" "tid < nthreads (item_pool m)" "AppendVersion G F tid t bt m l = Some r" "app_item r = Some a"
    and "\<not> owns_pending t (items m) l"
  shows "\<exists>m' l'. AbortVersion G F tid t (write_val a v (app_mem r)) (app_list r) = Some (m', l') \<and>
    (\<forall>t' bt'. IS_VALID_TRX_ID t' \<and> bt' < MAX_TIME \<longrightarrow>
       SnapshotLevelGetVisibleVersion t' bt' (items m') l' = SnapshotLevelGetVisibleVersion t' bt' (items m) l)"
proof -
  obtain vs u where A: "list_abs (items m0) U (m, l, now) (vs, u, now)" using assms(1-3) by (rule reach_abs3)
  obtain b0 where B: "list_abs (items m0) U (write_val a v (app_mem r), app_list r, now) (vs, Some (t, b0, v), now)"
    "u = None \<or> (\<exists>b w. u = Some (t, b, w))"
    using write_step_pending [OF A assms(5,4,6,7), of v] by blast
  then have u: "u = None" using list_abs_owner [OF A assms(4)] assms(8) by auto
  have tid: "tid < nthreads (item_pool (write_val a v (app_mem r)))"
    using AppendVersion_nthreads [OF A assms(5,4,6,7)] assms(5) by simp
  obtain as U' where i: "mvcc_inv (write_val a v (app_mem r)) U' (app_list r) as vs (Some (t, b0, v))"
    using B(1) by (rule list_absE)
  obtain m' l' where C: "AbortVersion G F tid t (write_val a v (app_mem r)) (app_list r) = Some (m', l')"
    by (rule AbortVersion_rep [OF i tid])
  have D: "list_abs (items m0) U (m', l', now) (vs, None, now)" using abort_step_sim [OF B(1) tid assms(4) C] by blast
  show ?thesis using C list_abs_snapshot [OF D] list_abs_snapshot [OF A] u by auto
qed

theorem abort_restores_list_witness:
  "\<exists>m' l'. AbortVersion (\<lambda>_. False) (\<lambda>_ s. s) 0 ex_trx ex_written (app_list ex_append) = Some (m', l') \<and>
     SnapshotLevelGetVisibleVersion ex_trx 9 (items m') l' = SnapshotLevelGetVisibleVersion ex_trx 9 (items ex_mem) empty_list"
proof -
  have "\<not> owns_pending ex_trx (items ex_mem) empty_list" by (simp add: owns_pending_def empty_list_def)
  moreover have "(9 :: u64) < MAX_TIME" by (simp add: MAX_TIMESTAMP_def)
  ultimately show ?thesis
    using abort_restores_list [OF ex_start(1,2) rtranclp.rtrancl_refl ex_trx_valid _ ex_append_eq, where v = 42] ex_trx_valid
    by (auto simp: ex_start(3) ex_written_def ex_append_eq(2))
qed

text \<open>
  C28. Clearing a list returns it empty and gives every cell of it back to the pool, after handing each of
  its values to the collector once, oldest first.
\<close>

theorem self_garbage_collect_frees_all:
  assumes "pool_used (item_pool m0) U" "list_start m0 s0" "(list_step G F)\<^sup>*\<^sup>* s0 (m, l, now)"
    and "tid < nthreads (item_pool m)"
  shows "\<exists>m' vs u. SelfGarbageCollect G F tid m l = Some (m', empty_list) \<and> pool_used (item_pool m') U \<and>
    val_store m' = fold (collect_value G F) (all_values vs u) (val_store m) \<and>
    (\<forall>t bt. IS_VALID_TRX_ID t \<and> bt < MAX_TIME \<longrightarrow>
       SnapshotLevelGetVisibleVersion t bt (items m) l = Some (snapshot_read t bt vs u))"
proof -
  obtain vs u where A: "list_abs (items m0) U (m, l, now) (vs, u, now)" using assms(1-3) by (rule reach_abs3)
  then obtain U' as where i: "mvcc_inv m U' l as vs u" "U' - set as = U" by (rule list_absE)
  have "\<exists>m'. gc_loop G F tid (first_cell as) m = Some m' \<and> pool_used (item_pool m') (U' - set as) \<and> items m' = items m \<and>
      val_store m' = fold (collect_value G F) (all_values vs u) (val_store m)"
    by (rule gc_loop_rep) (use i(1) assms(4) in \<open>auto simp: mvcc_inv_def list_rep_def\<close>)
  moreover have "head l = first_cell as" using i(1) by (simp add: mvcc_inv_def list_rep_def)
  ultimately obtain m' where "SelfGarbageCollect G F tid m l = Some (m', empty_list)" "pool_used (item_pool m') U"
    "val_store m' = fold (collect_value G F) (all_values vs u) (val_store m)"
    using i(2) by (auto simp: SelfGarbageCollect_def empty_list_def)
  then show ?thesis using list_abs_snapshot [OF A] by blast
qed

theorem self_garbage_collect_frees_all_witness:
  "\<exists>m'. SelfGarbageCollect (\<lambda>_. False) (\<lambda>_ s. s) 0 (fst ex_committed) (snd ex_committed) = Some (m', empty_list) \<and>
     pool_used (item_pool m') {}"
proof -
  have "nthreads (item_pool (fst ex_committed)) = 1" by code_simp
  then show ?thesis using self_garbage_collect_frees_all [OF ex_start(1,2) ex_run(3), of 0] by auto
qed

end
