(* ===== verification/Text_Util.thy ===== *)
theory Text_Util
  imports GT_Prelude
begin

text \<open>
  Text as the code handles it: the string helpers of \<open>Tool\<close> (src/utils/tool.hpp) and the number
  conversions of the C and C++ libraries they use. Strings are lists of characters. An exception that
  escapes (\<open>stoull\<close> on text without digits or out of range) is \<open>None\<close>.
\<close>

section \<open>Characters and numbers\<close>

definition TAB :: char where
  "TAB = CHR 0x09"

definition is_digit :: "char \<Rightarrow> bool" where
  "is_digit c \<longleftrightarrow> 48 \<le> (of_char c :: nat) \<and> (of_char c :: nat) \<le> 57"

definition is_space :: "char \<Rightarrow> bool" where
  "is_space c \<longleftrightarrow> c = CHR '' '' \<or> 9 \<le> (of_char c :: nat) \<and> (of_char c :: nat) \<le> 13"

definition digit :: "nat \<Rightarrow> char" where
  "digit d = char_of (48 + d)"

definition digits_val :: "string \<Rightarrow> nat" where
  "digits_val = foldl (\<lambda>a c. 10 * a + (of_char c - 48)) 0"

text \<open>\<open>std::to_string\<close> of an unsigned and of a signed integer.\<close>

fun nat_str :: "nat \<Rightarrow> string" where
  "nat_str n = (if n < 10 then [digit n] else nat_str (n div 10) @ [digit (n mod 10)])"

declare nat_str.simps [simp del]

definition int_str :: "int \<Rightarrow> string" where
  "int_str i = (if i < 0 then CHR ''-'' # nat_str (nat (- i)) else nat_str (nat i))"

text \<open>The sign and the digits at the front of a text, after white space.\<close>

definition scan_number :: "string \<Rightarrow> bool \<times> string" where
  "scan_number s =
     (let t = dropWhile is_space s
      in case t of
           [] \<Rightarrow> (False, [])
         | c # r \<Rightarrow> if c = CHR ''-'' then (True, takeWhile is_digit r)
                   else if c = CHR ''+'' then (False, takeWhile is_digit r)
                   else (False, takeWhile is_digit t))"

text \<open>
  \<open>atoi\<close> is \<open>strtol\<close>, which saturates at the bounds of a 64-bit \<open>long\<close>, cut to 32 bits. \<open>stoull\<close> raises
  an exception without digits and beyond 64 bits, and negates modulo \<open>2^64\<close>.
\<close>

definition strtol :: "string \<Rightarrow> int" where
  "strtol s =
     (let (neg, ds) = scan_number s; v = int (digits_val ds)
      in max (- (2 ^ 63)) (min (2 ^ 63 - 1) (if neg then - v else v)))"

definition atoi :: "string \<Rightarrow> int" where
  "atoi s = sint (word_of_int (strtol s) :: u32)"

definition stoull :: "string \<Rightarrow> u64 option" where
  "stoull s =
     (let (neg, ds) = scan_number s; v = digits_val ds
      in if ds = [] \<or> 2 ^ 64 \<le> v then None else Some (if neg then - of_nat v else of_nat v))"

section \<open>Splitting and trimming\<close>

text \<open>
  \<open>Tool::split\<close>: skip separators, take the run of other characters, and so on. \<open>splitWithEscape\<close> does not
  split between double quotes; the quote state runs on from one token to the next.
\<close>

function (sequential) split :: "string \<Rightarrow> string \<Rightarrow> string list" where
  "split [] sep = []"
| "split s sep =
     (let t = dropWhile (\<lambda>c. c \<in> set sep) s;
          tok = takeWhile (\<lambda>c. c \<notin> set sep) t;
          rest = dropWhile (\<lambda>c. c \<notin> set sep) t
      in if tok \<noteq> [] then tok # split rest sep else split rest sep)"
  by pat_completeness auto

lemma dropWhile_shorter: "s \<noteq> [] \<Longrightarrow> length (dropWhile (\<lambda>c. \<not> P c) (dropWhile P s)) < length s"
proof -
  assume s: "s \<noteq> []"
  let ?t = "dropWhile P s"
  have l: "length ?t \<le> length s" "length (dropWhile (\<lambda>c. \<not> P c) ?t) \<le> length ?t" by (rule length_dropWhile_le)+
  show ?thesis
  proof (cases ?t)
    case Nil
    have "length (dropWhile (\<lambda>c. \<not> P c) ?t) = 0" unfolding Nil by simp
    moreover have "0 < length s" using s by simp
    ultimately show ?thesis by linarith
  next
    case (Cons c r)
    then have "\<not> P c" using dropWhile_eq_Cons_conv [of P s c r] by blast
    then have "length (dropWhile (\<lambda>c. \<not> P c) ?t) \<le> length r" using Cons length_dropWhile_le [of "\<lambda>c. \<not> P c" r] by simp
    then show ?thesis using l(1) Cons by simp
  qed
qed

termination split
proof (relation "measure (\<lambda>(s, _). length s)")
  fix c s sep t tok rest
  assume "t = dropWhile (\<lambda>c. c \<in> set sep) (c # s)" "rest = dropWhile (\<lambda>c. c \<notin> set sep) t"
  then show "((rest, sep), (c # s, sep)) \<in> measure (\<lambda>(s, _). length s)"
    "((rest, sep), (c # s, sep)) \<in> measure (\<lambda>(s, _). length s)"
    using dropWhile_shorter [of "c # s" "\<lambda>c. c \<in> set sep"] by simp_all
qed simp

fun escaped_token :: "bool \<Rightarrow> string \<Rightarrow> string \<Rightarrow> string \<times> string \<times> bool" where
  "escaped_token in_quote sep [] = ([], [], in_quote)"
| "escaped_token in_quote sep (c # s) =
     (let q = (if c = CHR 0x22 then \<not> in_quote else in_quote)
      in if \<not> q \<and> c \<in> set sep then ([], c # s, q)
         else let (tok, rest, q') = escaped_token q sep s in (c # tok, rest, q'))"

lemma escaped_token_length: "escaped_token q sep s = (tok, rest, q') \<Longrightarrow> tok @ rest = s"
proof (induction s arbitrary: q tok rest q')
  case (Cons c s)
  let ?q = "if c = CHR 0x22 then \<not> q else q"
  obtain tok1 rest1 q1 where r: "escaped_token ?q sep s = (tok1, rest1, q1)" by (metis prod_cases3)
  then show ?case using Cons.IH [OF r] Cons.prems by (cases "\<not> ?q \<and> c \<in> set sep") (auto simp: Let_def)
qed simp

function (sequential) split_escape_loop :: "bool \<Rightarrow> string \<Rightarrow> string \<Rightarrow> string list" where
  "split_escape_loop q [] sep = []"
| "split_escape_loop q s sep =
     (let e = escaped_token q sep (dropWhile (\<lambda>c. c \<in> set sep) s);
          tok = fst e; rest = fst (snd e); q' = snd (snd e)
      in if tok \<noteq> [] then tok # split_escape_loop q' rest sep else split_escape_loop q' rest sep)"
  by pat_completeness auto

lemma escaped_token_progress:
  assumes "escaped_token q sep (dropWhile (\<lambda>c. c \<in> set sep) s) = ([], rest, q')"
  shows "rest = []"
proof (cases "dropWhile (\<lambda>c. c \<in> set sep) s")
  case (Cons c r)
  then have "c \<notin> set sep" by (simp add: dropWhile_eq_Cons_conv)
  then have "fst (escaped_token q sep (c # r)) \<noteq> []"
    by (cases "escaped_token (if c = CHR 0x22 then \<not> q else q) sep r") (simp add: Let_def)
  then show ?thesis using assms Cons by simp
next
  case Nil
  show ?thesis using assms unfolding Nil by simp
qed

termination split_escape_loop
proof (relation "measure (\<lambda>(_, s, _). length s)")
  fix q :: bool and c s sep e tok rest q'
  assume e: "e = escaped_token q sep (dropWhile (\<lambda>c. c \<in> set sep) (c # s))" "tok = fst e" "rest = fst (snd e)" "q' = snd (snd e)"
  have le: "length (dropWhile (\<lambda>c. c \<in> set sep) (c # s)) \<le> length (c # s)" by (rule length_dropWhile_le)
  have r: "escaped_token q sep (dropWhile (\<lambda>c. c \<in> set sep) (c # s)) = (tok, rest, q')" using e by simp
  have tr: "tok @ rest = dropWhile (\<lambda>c. c \<in> set sep) (c # s)" by (rule escaped_token_length [OF r])
  have "tok = [] \<Longrightarrow> rest = []" using escaped_token_progress r by blast
  moreover have "tok \<noteq> [] \<Longrightarrow> length rest < length (tok @ rest)" by simp
  ultimately have "length rest < length (c # s)" using le unfolding tr [symmetric] by (cases "tok = []") (simp, linarith)
  then show "((q', rest, sep), (q, c # s, sep)) \<in> measure (\<lambda>(_, s, _). length s)"
    "((q', rest, sep), (q, c # s, sep)) \<in> measure (\<lambda>(_, s, _). length s)" by simp_all
qed simp

definition splitWithEscape :: "string \<Rightarrow> string \<Rightarrow> string list" where
  "splitWithEscape s sep = split_escape_loop False s sep"

definition trim :: "string \<Rightarrow> string \<Rightarrow> string" where
  "trim s sub = rev (dropWhile (\<lambda>c. c \<in> set sub) (rev (dropWhile (\<lambda>c. c \<in> set sub) s)))"

section \<open>Types of literals\<close>

text \<open>
  \<open>Tool::checktype\<close>. The regular expression is \<open>[(-|+)]?[0-9]+\<close>; inside the brackets \<open>(-|\<close> is the range
  of the characters from 0x28 to 0x7C, so the optional first character may be any of these.
\<close>

definition integer_regex :: "string \<Rightarrow> bool" where
  "integer_regex s =
     (case s of [] \<Rightarrow> False
      | c # r \<Rightarrow> (is_digit c \<or> 0x28 \<le> (of_char c :: nat) \<and> (of_char c :: nat) \<le> 0x7C \<and> r \<noteq> []) \<and> list_all is_digit r)"

definition quoted :: "char \<Rightarrow> string \<Rightarrow> bool" where
  "quoted q s \<longleftrightarrow> s \<noteq> [] \<and> hd s = q \<and> last s = q"

definition checktype :: "string \<Rightarrow> int option" where
  "checktype s =
     (if quoted (CHR 0x22) s then Some 4
      else if quoted (CHR 0x27) s \<and> length s = 3 then Some 3
      else if CHR ''.'' \<in> set s then Some 2
      else if integer_regex s then
        do { num \<leftarrow> stoull s; Some (if drop_bit 32 num = 0 then 1 else 5) }
      else Some (-1))"

section \<open>Round trips\<close>

lemma of_char_digit: "d < 10 \<Longrightarrow> (of_char (digit d) :: nat) = 48 + d"
  by (simp add: digit_def)

lemma is_digit_digit [simp]: "d < 10 \<Longrightarrow> is_digit (digit d)"
  by (simp add: is_digit_def of_char_digit)

lemma digits_val_snoc: "digits_val (ds @ [c]) = 10 * digits_val ds + (of_char c - 48)"
  by (simp add: digits_val_def)

lemma nat_str_digits: "list_all is_digit (nat_str n) \<and> nat_str n \<noteq> [] \<and> digits_val (nat_str n) = n"
proof (induction n rule: nat_str.induct)
  case (1 n)
  show ?case
  proof (cases "n < 10")
    case True
    then show ?thesis using of_char_digit [of n] by (simp add: nat_str.simps [of n] digits_val_def)
  next
    case False
    then show ?thesis using 1 [OF False] of_char_digit [of "n mod 10"]
      by (simp add: nat_str.simps [of n] digits_val_snoc)
  qed
qed

lemma nat_str_inject [simp]: "nat_str m = nat_str n \<longleftrightarrow> m = n"
  using nat_str_digits [of m] nat_str_digits [of n] by metis

lemma digit_not_special: "is_digit c \<Longrightarrow> \<not> is_space c \<and> c \<noteq> CHR ''-'' \<and> c \<noteq> CHR ''+'' \<and> c \<noteq> TAB \<and> c \<noteq> CHR ''.''"
  by (auto simp: is_digit_def is_space_def TAB_def)

lemma scan_digits:
  assumes "list_all is_digit ds" "ds \<noteq> []"
  shows "scan_number ds = (False, ds)" "scan_number (CHR ''-'' # ds) = (True, ds)"
proof -
  obtain c r where ds: "ds = c # r" using assms(2) by (cases ds) auto
  have tw: "takeWhile is_digit ds = ds" using assms(1) by (simp add: list_all_iff takeWhile_eq_all_conv)
  have c: "is_digit c" using assms(1) ds by simp
  have "\<not> is_space (CHR ''-'')" by (simp add: is_space_def)
  then show "scan_number (CHR ''-'' # ds) = (True, ds)" using tw by (simp add: scan_number_def)
  show "scan_number ds = (False, ds)"
    using digit_not_special [OF c] c tw ds by (simp add: scan_number_def)
qed

lemma atoi_int_str:
  assumes "- (2 ^ 31) \<le> i" "i < 2 ^ 31"
  shows "atoi (int_str i) = i"
proof -
  note D = nat_str_digits [of "nat (- i)"] nat_str_digits [of "nat i"]
  have "strtol (int_str i) = i"
    using D scan_digits [of "nat_str (nat (- i))"] scan_digits [of "nat_str (nat i)"] assms
    by (auto simp: strtol_def int_str_def)
  then show ?thesis using assms by (simp add: atoi_def sint_sbintrunc' signed_take_bit_int_eq_self)
qed

end
