(* ===== verification/Values.thy ===== *)
theory Values
  imports Text_Util Value_Store
begin

text \<open>
  Property values: their binary contents and conversions (\<open>Tool\<close> in src/utils/tool.hpp, \<open>value_t\<close> in
  src/base/type.hpp and type.cpp), the comparison operators and the predicates of a query
  (src/base/predicate.cpp).

  An \<open>int\<close> is an integer, a \<open>double\<close> its 64-bit pattern, compared as IEEE 754 says. Reading more bytes
  than the content has is undefined in the code: \<open>None\<close>. \<open>atof\<close>, the decimal-to-binary conversion of the
  C library, is an argument of the definitions that reach it.
\<close>

section \<open>Bytes\<close>

fun bytes_le :: "nat \<Rightarrow> nat \<Rightarrow> u8 list" where
  "bytes_le 0 x = []"
| "bytes_le (Suc n) x = of_nat (x mod 256) # bytes_le n (x div 256)"

fun nat_le :: "u8 list \<Rightarrow> nat" where
  "nat_le [] = 0"
| "nat_le (b # bs) = unat b + 256 * nat_le bs"

definition byte_char :: "u8 \<Rightarrow> char" where
  "byte_char b = char_of (unat b)"

definition char_byte :: "char \<Rightarrow> u8" where
  "char_byte c = of_nat (of_char c)"

section \<open>Doubles\<close>

datatype dbl = NotANumber | Inf bool | Fin int int

text \<open>\<open>Fin m e\<close> is \<open>m * 2^e\<close>; \<open>Inf True\<close> is minus infinity.\<close>

definition dbl_of_bits :: "u64 \<Rightarrow> dbl" where
  "dbl_of_bits w =
     (let ex = unat (take_bit 11 (drop_bit 52 w)); fr = int (unat (take_bit 52 w));
          sgn = (\<lambda>m. if bit w 63 then - m else m)
      in if ex = 2047 then (if fr = 0 then Inf (bit w 63) else NotANumber)
         else if ex = 0 then Fin (sgn fr) (- 1074)
         else Fin (sgn (2 ^ 52 + fr)) (int ex - 1075))"

definition fin_less :: "int \<Rightarrow> int \<Rightarrow> int \<Rightarrow> int \<Rightarrow> bool" where
  "fin_less m1 e1 m2 e2 = (let k = min e1 e2 in m1 * 2 ^ nat (e1 - k) < m2 * 2 ^ nat (e2 - k))"

fun dbl_less :: "dbl \<Rightarrow> dbl \<Rightarrow> bool" where
  "dbl_less NotANumber _ = False"
| "dbl_less _ NotANumber = False"
| "dbl_less (Inf s) (Inf t) = (s \<and> \<not> t)"
| "dbl_less (Inf s) (Fin _ _) = s"
| "dbl_less (Fin _ _) (Inf t) = (\<not> t)"
| "dbl_less (Fin m1 e1) (Fin m2 e2) = fin_less m1 e1 m2 e2"

definition dbl_leq :: "dbl \<Rightarrow> dbl \<Rightarrow> bool" where
  "dbl_leq a b \<longleftrightarrow> a \<noteq> NotANumber \<and> b \<noteq> NotANumber \<and> \<not> dbl_less b a"

text \<open>\<open>std::to_string\<close> of a double: six decimals, rounded to nearest with ties to even.\<close>

definition round_half_even :: "nat \<Rightarrow> nat \<Rightarrow> nat" where
  "round_half_even n d =
     (let q = n div d; r = n mod d
      in if 2 * r < d then q else if d < 2 * r then q + 1 else if even q then q else q + 1)"

definition six_digits :: "nat \<Rightarrow> string" where
  "six_digits n = map (\<lambda>k. digit (n div 10 ^ k mod 10)) [5, 4, 3, 2, 1, 0]"

definition dbl_str :: "u64 \<Rightarrow> string" where
  "dbl_str w =
     (if bit w 63 then ''-'' else '''') @
     (case dbl_of_bits w of
        NotANumber \<Rightarrow> ''nan''
      | Inf _ \<Rightarrow> ''inf''
      | Fin m e \<Rightarrow>
          let micro = (if 0 \<le> e then nat \<bar>m\<bar> * 2 ^ nat e * 10 ^ 6
                       else round_half_even (nat \<bar>m\<bar> * 10 ^ 6) (2 ^ nat (- e)))
          in nat_str (micro div 10 ^ 6) @ ''.'' @ six_digits (micro mod 10 ^ 6))"

section \<open>Conversions\<close>

definition new_value :: value_t where
  "new_value = \<lparr>v_type = 0, v_content = []\<rparr>"

definition value_t2int :: "value_t \<Rightarrow> int option" where
  "value_t2int v =
     (if 4 \<le> length (v_content v) then Some (sint (of_nat (nat_le (take 4 (v_content v))) :: u32)) else None)"

definition value_t2double :: "value_t \<Rightarrow> u64 option" where
  "value_t2double v =
     (if 8 \<le> length (v_content v) then Some (of_nat (nat_le (take 8 (v_content v)))) else None)"

definition value_t2uint64_t :: "value_t \<Rightarrow> u64 option" where
  "value_t2uint64_t v =
     (if 8 \<le> length (v_content v) then Some (of_nat (nat_le (take 8 (v_content v)))) else None)"

definition value_t2char :: "value_t \<Rightarrow> u8 option" where
  "value_t2char v = (case v_content v of [] \<Rightarrow> None | c # _ \<Rightarrow> Some c)"

definition value_t2string :: "value_t \<Rightarrow> string" where
  "value_t2string v = map byte_char (v_content v)"

definition str_bytes :: "string \<Rightarrow> u8 list" where
  "str_bytes s = map char_byte s"

text \<open>The conversions into a value append to its content.\<close>

definition add_content :: "u8 list \<Rightarrow> u8 \<Rightarrow> value_t \<Rightarrow> value_t" where
  "add_content bs ty v = v\<lparr>v_content := v_content v @ bs, v_type := ty\<rparr>"

definition int2value_t :: "int \<Rightarrow> value_t \<Rightarrow> value_t" where
  "int2value_t i = add_content (bytes_le 4 (unat (word_of_int i :: u32))) 1"

definition double2value_t :: "u64 \<Rightarrow> value_t \<Rightarrow> value_t" where
  "double2value_t d = add_content (bytes_le 8 (unat d)) 2"

definition uint64_t2value_t :: "u64 \<Rightarrow> value_t \<Rightarrow> value_t" where
  "uint64_t2value_t u = add_content (bytes_le 8 (unat u)) 5"

definition str2str :: "string \<Rightarrow> value_t \<Rightarrow> value_t" where
  "str2str s = add_content (str_bytes s) 4"

definition str2char :: "string \<Rightarrow> value_t \<Rightarrow> value_t" where
  "str2char s = add_content [case s of [] \<Rightarrow> 0 | c # _ \<Rightarrow> char_byte c] 3"

definition str2int :: "string \<Rightarrow> value_t \<Rightarrow> value_t" where
  "str2int s = int2value_t (atoi s)"

definition str2double :: "(string \<Rightarrow> u64) \<Rightarrow> string \<Rightarrow> value_t \<Rightarrow> value_t" where
  "str2double atof s = double2value_t (atof s)"

definition str2uint64_t :: "string \<Rightarrow> value_t \<Rightarrow> value_t option" where
  "str2uint64_t s v = do { u \<leftarrow> stoull s; Some (uint64_t2value_t u v) }"

text \<open>\<open>str2value_t\<close> answers whether the text is a literal; the value is unchanged if it is not.\<close>

definition str2value_t :: "(string \<Rightarrow> u64) \<Rightarrow> string \<Rightarrow> value_t \<Rightarrow> (bool \<times> value_t) option" where
  "str2value_t atof s v =
     do { ty \<leftarrow> checktype s;
          if ty = 5 then do { v' \<leftarrow> str2uint64_t s v; Some (True, v') }
          else if ty = 4 then Some (True, str2str (trim s [CHR 0x22]) v)
          else if ty = 3 then Some (True, str2char (trim s [CHR 0x27]) v)
          else if ty = 2 then Some (True, str2double atof s v)
          else if ty = 1 then Some (True, str2int s v)
          else Some (False, v) }"

record kv_pair =
  kv_key :: u32
  kv_value :: value_t

definition get_kvpair :: "(string \<Rightarrow> u64) \<Rightarrow> string \<Rightarrow> string \<Rightarrow> int \<Rightarrow> kv_pair \<Rightarrow> kv_pair" where
  "get_kvpair atof key value ty kv =
     (let s = trim value '' ''; v = kv_value kv
      in \<lparr>kv_key = word_of_int (atoi (trim key '' '')),
          kv_value =
            (if ty = 4 then str2str (trim s [CHR 0x22]) v
             else if ty = 3 then str2char (trim s [CHR 0x27]) v
             else if ty = 2 then str2double atof s v
             else if ty = 1 then str2int s v
             else v)\<rparr>)"

text \<open>Collections: the elements of one type, joined by tab characters; the type is marked by the bit 16.\<close>

fun vec2value_loop :: "(string \<Rightarrow> u64) \<Rightarrow> int \<Rightarrow> string list \<Rightarrow> value_t \<Rightarrow> (bool \<times> value_t) option" where
  "vec2value_loop atof ty [] v = Some (True, v)"
| "vec2value_loop atof ty (s # ss) v =
     do { let s_value = trim s '' '';
          ct \<leftarrow> checktype s_value;
          if ct \<noteq> ty then Some (False, v)
          else do { (_, v') \<leftarrow> str2value_t atof s_value v;
                    vec2value_loop atof ty ss (v'\<lparr>v_content := v_content v' @ [9]\<rparr>) } }"

definition vec2value_t :: "(string \<Rightarrow> u64) \<Rightarrow> string list \<Rightarrow> int \<Rightarrow> value_t \<Rightarrow> (bool \<times> value_t) option" where
  "vec2value_t atof ss ty v =
     (if ss = [] then Some (False, v)
      else do { (ok, v') \<leftarrow> vec2value_loop atof ty ss v;
                if \<not> ok then Some (False, v')
                else Some (True, v'\<lparr>v_content := butlast (v_content v'), v_type := 16 OR word_of_int ty\<rparr>) })"

text \<open>The variant for a vector of values inserts each element in front and the tab at the end.\<close>

fun values2value_loop :: "u8 \<Rightarrow> value_t list \<Rightarrow> value_t \<Rightarrow> bool \<times> value_t" where
  "values2value_loop ty [] v = (True, v)"
| "values2value_loop ty (x # xs) v =
     (if v_type x \<noteq> ty then (False, v)
      else values2value_loop ty xs (v\<lparr>v_content := v_content x @ v_content v @ [9]\<rparr>))"

definition values2value_t :: "value_t list \<Rightarrow> value_t \<Rightarrow> bool \<times> value_t" where
  "values2value_t xs v =
     (case xs of [] \<Rightarrow> (False, v)
      | x # _ \<Rightarrow>
          let (ok, v') = values2value_loop (v_type x) xs v
          in if \<not> ok then (False, v')
             else (True, v'\<lparr>v_content := butlast (v_content v'), v_type := 16 OR v_type x\<rparr>))"

definition value_t2vec :: "value_t \<Rightarrow> value_t list" where
  "value_t2vec v =
     (let ty = v_type v AND 0xF; value = value_t2string v;
          values = (if ty = 4 then splitWithEscape value [TAB] else split value [TAB])
      in if v_type v < 0xF then [v]
         else map (\<lambda>s. (str2str s new_value)\<lparr>v_type := ty\<rparr>) values)"

definition kvmap2value_t :: "(string \<times> string) list \<Rightarrow> value_t list" where
  "kvmap2value_t m = map (\<lambda>(k, x). str2str (''{'' @ k @ '':'' @ x @ ''}'') new_value) m"

definition vec_pair2value_t :: "(u64 \<times> string) list \<Rightarrow> value_t list" where
  "vec_pair2value_t ps = map (\<lambda>(p, s). (str2str s (uint64_t2value_t p new_value))\<lparr>v_type := 6\<rparr>) ps"

record elem_t =
  e_type :: u8
  e_sz :: u32
  e_content :: "u8 list"

definition elem_t2value_t :: "elem_t \<Rightarrow> value_t \<Rightarrow> value_t" where
  "elem_t2value_t e v =
     v\<lparr>v_content := resize (unat (e_sz e)) (v_content v) @ take (unat (e_sz e)) (e_content e), v_type := e_type e\<rparr>"

definition int64_to_2int32_str :: "u64 \<Rightarrow> string" where
  "int64_to_2int32_str x =
     int_str (sint (ucast (drop_bit 32 x) :: u32)) @ '' '' @ int_str (sint (ucast (x AND 0xFFFFFFFF) :: u32))"

text \<open>
  \<open>DebugString\<close>. The recursion for collections does not end for a value whose scalar type is none of 1
  to 6; the first argument bounds its depth.
\<close>

definition strip_zeros :: "string \<Rightarrow> string" where
  "strip_zeros s =
     (let t = rev (dropWhile (\<lambda>c. c = CHR ''0'') (rev s))
      in if t \<noteq> [] \<and> last t = CHR ''.'' then t @ ''0'' else t)"

fun DebugString_depth :: "nat \<Rightarrow> value_t \<Rightarrow> string option" where
  "DebugString_depth 0 v = None"
| "DebugString_depth (Suc n) v =
     (if v_type v = 6 then do { _ \<leftarrow> value_t2uint64_t v; Some (map byte_char (drop 8 (v_content v))) }
      else if v_type v = 5 then do { u \<leftarrow> value_t2uint64_t v; Some (nat_str (unat u)) }
      else if v_type v = 4 \<or> v_type v = 3 then Some (value_t2string v)
      else if v_type v = 2 then do { d \<leftarrow> value_t2double v; Some (strip_zeros (dbl_str d)) }
      else if v_type v = 1 then do { i \<leftarrow> value_t2int v; Some (int_str i) }
      else do { ss \<leftarrow> those (map (DebugString_depth n) (value_t2vec v));
                Some (trim (''['' @ concat (map (\<lambda>s. s @ '', '') ss)) '', '' @ '']'') })"

definition DebugString :: "value_t \<Rightarrow> string option" where
  "DebugString = DebugString_depth (Suc (Suc 0))"

section \<open>Comparison\<close>

text \<open>\<open>vector<char>\<close> compares lexicographically, and \<open>char\<close> is signed.\<close>

fun content_less :: "u8 list \<Rightarrow> u8 list \<Rightarrow> bool" where
  "content_less [] ys = (ys \<noteq> [])"
| "content_less (x # xs) [] = False"
| "content_less (x # xs) (y # ys) = (sint x < sint y \<or> x = y \<and> content_less xs ys)"

definition value_eq :: "value_t \<Rightarrow> value_t \<Rightarrow> bool option" where
  "value_eq v1 v2 =
     (if v_type v1 \<noteq> v_type v2 then
        (if v_type v1 = 1 \<and> v_type v2 = 2 \<or> v_type v1 = 2 \<and> v_type v2 = 1
         then do { a \<leftarrow> DebugString v1; b \<leftarrow> DebugString v2; Some (a = b) }
         else Some False)
      else Some (v_content v1 = v_content v2))"

definition value_neq :: "value_t \<Rightarrow> value_t \<Rightarrow> bool option" where
  "value_neq v1 v2 =
     (if v_type v1 \<noteq> v_type v2 then
        (if v_type v1 = 1 \<and> v_type v2 = 2 \<or> v_type v1 = 2 \<and> v_type v2 = 1
         then do { a \<leftarrow> DebugString v1; b \<leftarrow> DebugString v2; Some (a \<noteq> b) }
         else Some True)
      else Some (v_content v1 \<noteq> v_content v2))"

text \<open>The shape that \<open><\<close>, \<open>>\<close>, \<open><=\<close> and \<open>>=\<close> share, for the relation on each kind of content.\<close>

definition value_rel :: "(int \<Rightarrow> int \<Rightarrow> bool) \<Rightarrow> (dbl \<Rightarrow> dbl \<Rightarrow> bool) \<Rightarrow> (u64 \<Rightarrow> u64 \<Rightarrow> bool) \<Rightarrow>
    (u8 list \<Rightarrow> u8 list \<Rightarrow> bool) \<Rightarrow> value_t \<Rightarrow> value_t \<Rightarrow> bool option" where
  "value_rel irel drel urel crel v1 v2 =
     (if v_type v1 \<noteq> v_type v2 then
        (if v_type v1 = 1 \<and> v_type v2 = 2
         then do { i \<leftarrow> value_t2int v1; d \<leftarrow> value_t2double v2; Some (drel (Fin i 0) (dbl_of_bits d)) }
         else if v_type v1 = 2 \<and> v_type v2 = 1
         then do { d \<leftarrow> value_t2double v1; i \<leftarrow> value_t2int v2; Some (drel (dbl_of_bits d) (Fin i 0)) }
         else Some (crel (v_content v1) (v_content v2)))
      else if v_type v1 = 1 then do { i \<leftarrow> value_t2int v1; j \<leftarrow> value_t2int v2; Some (irel i j) }
      else if v_type v1 = 2
      then do { d \<leftarrow> value_t2double v1; e \<leftarrow> value_t2double v2; Some (drel (dbl_of_bits d) (dbl_of_bits e)) }
      else if v_type v1 = 5 then do { u \<leftarrow> value_t2uint64_t v1; w \<leftarrow> value_t2uint64_t v2; Some (urel u w) }
      else Some (crel (v_content v1) (v_content v2)))"

definition value_less :: "value_t \<Rightarrow> value_t \<Rightarrow> bool option" where
  "value_less = value_rel (<) dbl_less (<) content_less"

definition value_greater :: "value_t \<Rightarrow> value_t \<Rightarrow> bool option" where
  "value_greater = value_rel (>) (\<lambda>a b. dbl_less b a) (>) (\<lambda>a b. content_less b a)"

definition value_leq :: "value_t \<Rightarrow> value_t \<Rightarrow> bool option" where
  "value_leq = value_rel (\<le>) dbl_leq (\<le>) (\<lambda>a b. \<not> content_less b a)"

definition value_geq :: "value_t \<Rightarrow> value_t \<Rightarrow> bool option" where
  "value_geq = value_rel (\<ge>) (\<lambda>a b. dbl_leq b a) (\<ge>) (\<lambda>a b. \<not> content_less a b)"

section \<open>Predicates\<close>

datatype Predicate_T = ANY | NONE | EQ | NEQ | LT | LTE | GT | GTE | INSIDE | OUTSIDE | BETWEEN | WITHIN | WITHOUT

record PredicateValue =
  pred_type :: Predicate_T
  pred_values :: "value_t list"

definition PredicateValue_of_value :: "Predicate_T \<Rightarrow> value_t \<Rightarrow> PredicateValue" where
  "PredicateValue_of_value p v = \<lparr>pred_type = p, pred_values = value_t2vec v\<rparr>"

text \<open>Evaluation of \<open>&&\<close> and \<open>||\<close> stops at the first operand that decides.\<close>

definition and_then :: "bool option \<Rightarrow> bool option \<Rightarrow> bool option" where
  "and_then a b = do { x \<leftarrow> a; if x then b else Some False }"

definition or_else :: "bool option \<Rightarrow> bool option \<Rightarrow> bool option" where
  "or_else a b = do { x \<leftarrow> a; if x then Some True else b }"

fun any_equal :: "value_t list \<Rightarrow> value_t \<Rightarrow> bool option" where
  "any_equal [] x = Some False"
| "any_equal (v # vs) x = do { e \<leftarrow> value_eq v x; if e then Some True else any_equal vs x }"

definition Evaluate :: "PredicateValue \<Rightarrow> value_t option \<Rightarrow> bool option" where
  "Evaluate pv value =
     do { CHECK (0 < length (pred_values pv));
          let vs = pred_values pv;
          (case value of
             None \<Rightarrow> Some (pred_type pv = NONE)
           | Some x \<Rightarrow>
               (case pred_type pv of
                  ANY \<Rightarrow> Some True
                | NONE \<Rightarrow> Some False
                | EQ \<Rightarrow> value_eq x (vs ! 0)
                | NEQ \<Rightarrow> value_neq x (vs ! 0)
                | LT \<Rightarrow> value_less x (vs ! 0)
                | LTE \<Rightarrow> value_leq x (vs ! 0)
                | GT \<Rightarrow> value_greater x (vs ! 0)
                | GTE \<Rightarrow> value_geq x (vs ! 0)
                | INSIDE \<Rightarrow> do { CHECK (length vs = 2); and_then (value_greater x (vs ! 0)) (value_less x (vs ! 1)) }
                | OUTSIDE \<Rightarrow> do { CHECK (length vs = 2); or_else (value_less x (vs ! 0)) (value_greater x (vs ! 1)) }
                | BETWEEN \<Rightarrow> do { CHECK (length vs = 2); and_then (value_geq x (vs ! 0)) (value_leq x (vs ! 1)) }
                | WITHIN \<Rightarrow> any_equal vs x
                | WITHOUT \<Rightarrow> map_option Not (any_equal vs x))) }"

definition Evaluate2 :: "Predicate_T \<Rightarrow> value_t \<Rightarrow> value_t \<Rightarrow> bool option" where
  "Evaluate2 p v1 v2 =
     (case p of
        ANY \<Rightarrow> Some True
      | NONE \<Rightarrow> Some False
      | EQ \<Rightarrow> value_eq v1 v2
      | NEQ \<Rightarrow> value_neq v1 v2
      | LT \<Rightarrow> value_less v1 v2
      | LTE \<Rightarrow> value_leq v1 v2
      | GT \<Rightarrow> value_greater v1 v2
      | GTE \<Rightarrow> value_geq v1 v2
      | _ \<Rightarrow> None)"

section \<open>Facts about contents\<close>

lemma length_bytes_le [simp]: "length (bytes_le n x) = n"
  by (induction n arbitrary: x) auto

lemma nat_le_bytes_le: "nat_le (bytes_le n x) = x mod 256 ^ n"
proof (induction n arbitrary: x)
  case (Suc n)
  have "x mod (256 * 256 ^ n) = 256 * (x div 256 mod 256 ^ n) + x mod 256" by (rule mod_mult2_eq)
  then show ?case using Suc by (simp add: unat_of_nat)
qed simp

lemma bytes_le_nat_le: "bytes_le (length bs) (nat_le bs) = bs"
proof (induction bs)
  case (Cons b bs)
  have "unat b < 256" using unat_less [of b] by simp
  then show ?case using Cons by simp
qed simp

lemma nat_le_less: "nat_le bs < 256 ^ length bs"
proof (induction bs)
  case (Cons b bs)
  have e: "nat_le (b # bs) = unat b + 256 * nat_le bs" "256 ^ length (b # bs) = 256 * (256 ^ length bs :: nat)" by simp_all
  show ?case unfolding e using Cons unat_u8_less [of b] by linarith
qed simp

lemma byte_char_inverse [simp]: "char_byte (byte_char b) = b" "byte_char (char_byte c) = c"
proof -
  have "unat b < 256" using unat_less [of b] by simp
  then show "char_byte (byte_char b) = b" by (simp add: char_byte_def byte_char_def)
  have "unat (of_nat (of_char c) :: u8) = (of_char c :: nat)" by (simp add: unat_of_nat)
  then show "byte_char (char_byte c) = c" by (simp add: char_byte_def byte_char_def)
qed

lemma value_t2int_int2value:
  assumes "- (2 ^ 31) \<le> i" "i < 2 ^ 31"
  shows "value_t2int (int2value_t i new_value) = Some i"
proof -
  have "nat_le (bytes_le 4 (unat (word_of_int i :: u32))) = unat (word_of_int i :: u32)"
    using unat_less [of "word_of_int i :: u32"] by (simp add: nat_le_bytes_le)
  then show ?thesis using assms
    by (simp add: value_t2int_def int2value_t_def add_content_def new_value_def sint_sbintrunc' signed_take_bit_int_eq_self)
qed

lemma value_t2uint64_uint64: "value_t2uint64_t (uint64_t2value_t u new_value) = Some u"
proof -
  have "nat_le (bytes_le 8 (unat u)) = unat u" using unat_less [of u] by (simp add: nat_le_bytes_le)
  then show ?thesis by (simp add: value_t2uint64_t_def uint64_t2value_t_def add_content_def new_value_def)
qed

lemma value_t2double_double: "value_t2double (double2value_t u new_value) = Some u"
proof -
  have "nat_le (bytes_le 8 (unat u)) = unat u" using unat_less [of u] by (simp add: nat_le_bytes_le)
  then show ?thesis by (simp add: value_t2double_def double2value_t_def add_content_def new_value_def)
qed

lemma type_of_new [simp]:
  "v_type (int2value_t i v) = 1" "v_type (double2value_t d v) = 2" "v_type (uint64_t2value_t u v) = 5"
  by (simp_all add: int2value_t_def double2value_t_def uint64_t2value_t_def add_content_def)

lemma bytes_le_4: "bytes_le 4 x = map of_nat [x mod 256, x div 256 mod 256, x div 256 div 256 mod 256, x div 256 div 256 div 256 mod 256]"
proof -
  have "4 = Suc (Suc (Suc (Suc 0)))" by simp
  then show ?thesis by (simp only: bytes_le.simps list.map)
qed

subsection \<open>The order of contents\<close>

lemma content_less_irrefl [simp]: "\<not> content_less xs xs"
  by (induction xs) auto

lemma content_less_trans: "content_less xs ys \<Longrightarrow> content_less ys zs \<Longrightarrow> content_less xs zs"
proof (induction xs ys arbitrary: zs rule: content_less.induct)
  case (1 ys)
  then show ?case by (cases ys; cases zs) auto
next
  case (3 x xs y ys)
  then show ?case by (cases zs) auto
qed auto

lemma content_less_total: "content_less xs ys \<or> xs = ys \<or> content_less ys xs"
proof (induction xs ys rule: content_less.induct)
  case (3 x xs y ys)
  have "sint x < sint y \<or> x = y \<or> sint y < sint x" using sint_inject [of x y] by linarith
  then show ?case using 3 by auto
qed auto

definition wf_value :: "value_t \<Rightarrow> bool" where
  "wf_value v \<longleftrightarrow> (v_type v = 1 \<longrightarrow> length (v_content v) = 4) \<and>
     (v_type v = 2 \<or> v_type v = 5 \<longrightarrow> length (v_content v) = 8)"

lemma wf_int:
  assumes "wf_value v" "v_type v = 1"
  shows "value_t2int v = Some (sint (of_nat (nat_le (v_content v)) :: u32))"
  using assms by (simp add: wf_value_def value_t2int_def)

lemma wf_uint:
  assumes "wf_value v" "v_type v = 5"
  shows "value_t2uint64_t v = Some (of_nat (nat_le (v_content v)))"
  using assms by (simp add: wf_value_def value_t2uint64_t_def)

lemma nat_le_inject:
  assumes "length xs = length ys" "nat_le xs = nat_le ys"
  shows "xs = ys"
  using assms bytes_le_nat_le by metis

lemma int_content_inject:
  assumes "length xs = 4" "length ys = 4" "sint (of_nat (nat_le xs) :: u32) = sint (of_nat (nat_le ys) :: u32)"
  shows "xs = ys"
proof -
  have "(of_nat (nat_le xs) :: u32) = of_nat (nat_le ys)" using assms(3) by (simp add: sint_inject)
  moreover have "nat_le xs < 2 ^ LENGTH(32)" "nat_le ys < 2 ^ LENGTH(32)"
    using nat_le_less [of xs] nat_le_less [of ys] assms by simp_all
  ultimately have "nat_le xs = nat_le ys" by (simp add: of_nat_word_inject)
  then show ?thesis using assms by (intro nat_le_inject) simp_all
qed

lemma uint_content_inject:
  assumes "length xs = 8" "length ys = 8" "(of_nat (nat_le xs) :: u64) = of_nat (nat_le ys)"
  shows "xs = ys"
proof -
  have "nat_le xs < 2 ^ LENGTH(64)" "nat_le ys < 2 ^ LENGTH(64)"
    using nat_le_less [of xs] nat_le_less [of ys] assms by simp_all
  then have "nat_le xs = nat_le ys" using assms(3) by (simp add: of_nat_word_inject)
  then show ?thesis using assms(1,2) by (intro nat_le_inject) simp_all
qed

text \<open>
  Values of one type, doubles apart, compare like the elements of a linear order: the six operators are
  those of a strict order \<open>lt\<close>.
\<close>

lemmas value_ops_defs = value_less_def value_greater_def value_leq_def value_geq_def value_eq_def value_neq_def value_rel_def

lemma order_dual_cases:
  "x = y \<longleftrightarrow> \<not> x < y \<and> \<not> y < (x :: 'a::linorder)" "x \<le> y \<longleftrightarrow> \<not> y < x" "\<not> (x < y \<and> y < x)"
  by auto

lemma value_ops_order:
  assumes "wf_value a" "wf_value b" "v_type a = v_type b" "v_type a \<noteq> 2"
  shows "\<exists>l g. value_less a b = Some l \<and> value_greater a b = Some g \<and> value_leq a b = Some (\<not> g) \<and>
    value_geq a b = Some (\<not> l) \<and> value_eq a b = Some (\<not> l \<and> \<not> g) \<and> value_neq a b = Some (l \<or> g) \<and> \<not> (l \<and> g) \<and>
    value_less b a = Some g"
proof (cases "v_type a = 1")
  case True
  let ?i = "sint (of_nat (nat_le (v_content a)) :: u32)" and ?j = "sint (of_nat (nat_le (v_content b)) :: u32)"
  have "v_content a = v_content b \<longleftrightarrow> ?i = ?j"
    using assms True int_content_inject [of "v_content a" "v_content b"] by (auto simp: wf_value_def)
  then show ?thesis using assms True
    by (cases ?i ?j rule: linorder_cases) (auto simp: value_ops_defs wf_int)
next
  case not1: False
  show ?thesis
  proof (cases "v_type a = 5")
    case True
    let ?i = "of_nat (nat_le (v_content a)) :: u64" and ?j = "of_nat (nat_le (v_content b)) :: u64"
    have "v_content a = v_content b \<longleftrightarrow> ?i = ?j"
      using assms True uint_content_inject [of "v_content a" "v_content b"] by (auto simp: wf_value_def)
    moreover have "?i = ?j \<longleftrightarrow> \<not> ?i < ?j \<and> \<not> ?j < ?i" "?i \<le> ?j \<longleftrightarrow> \<not> ?j < ?i" "?j \<le> ?i \<longleftrightarrow> \<not> ?i < ?j" "\<not> (?i < ?j \<and> ?j < ?i)"
      by (rule order_dual_cases)+
    ultimately show ?thesis using assms True
      by (intro exI [of _ "?i < ?j"] exI [of _ "?j < ?i"]) (simp add: value_ops_defs wf_uint)
  next
    case False
    then show ?thesis using assms not1 content_less_total [of "v_content a" "v_content b"]
        content_less_trans [of "v_content a" "v_content b" "v_content a"]
      by (auto simp: value_ops_defs)
  qed
qed

lemma value_less_trans:
  assumes "wf_value a" "wf_value b" "wf_value c" "v_type a = v_type b" "v_type b = v_type c" "v_type a \<noteq> 2"
    and "value_less a b = Some True" "value_less b c = Some True"
  shows "value_less a c = Some True"
  using assms content_less_trans
  by (auto simp: value_less_def value_rel_def wf_int wf_uint split: if_splits)

subsection \<open>Integers and doubles as text\<close>

lemma int_str_chars: "c \<in> set (int_str i) \<Longrightarrow> is_digit c \<or> c = CHR ''-''"
  using nat_str_digits [of "nat i"] nat_str_digits [of "nat (- i)"]
  by (auto simp: int_str_def list_all_iff split: if_splits)

lemma strip_zeros_keeps: "c \<in> set s \<Longrightarrow> c \<noteq> CHR ''0'' \<Longrightarrow> c \<in> set (strip_zeros s)"
proof -
  assume c: "c \<in> set s" "c \<noteq> CHR ''0''"
  have "c \<in> set (takeWhile (\<lambda>c. c = CHR ''0'') (rev s)) \<or> c \<in> set (dropWhile (\<lambda>c. c = CHR ''0'') (rev s))"
    using c(1) set_append [of "takeWhile (\<lambda>c. c = CHR ''0'') (rev s)" "dropWhile (\<lambda>c. c = CHR ''0'') (rev s)"]
    by (simp add: takeWhile_dropWhile_id)
  moreover have "c \<notin> set (takeWhile (\<lambda>c. c = CHR ''0'') (rev s))" using c(2) by (auto dest: set_takeWhileD)
  ultimately show ?thesis by (simp add: strip_zeros_def Let_def)
qed

lemma dbl_str_no_int: "\<exists>c\<in>set (strip_zeros (dbl_str w)). \<not> is_digit c \<and> c \<noteq> CHR ''-''"
proof -
  have "CHR ''.'' \<in> set (dbl_str w) \<or> CHR ''n'' \<in> set (dbl_str w)"
    by (simp add: dbl_str_def Let_def split: dbl.splits)
  moreover have "\<not> is_digit (CHR ''.'')" "\<not> is_digit (CHR ''n'')" by (simp_all add: is_digit_def)
  moreover have "CHR ''.'' \<in> set (dbl_str w) \<Longrightarrow> CHR ''.'' \<in> set (strip_zeros (dbl_str w))"
    "CHR ''n'' \<in> set (dbl_str w) \<Longrightarrow> CHR ''n'' \<in> set (strip_zeros (dbl_str w))" by (rule strip_zeros_keeps; simp)+
  ultimately show ?thesis by (elim disjE) (rule bexI; simp)+
qed

lemma DebugString_int: "v_type v = 1 \<Longrightarrow> DebugString v = map_option int_str (value_t2int v)"
  by (simp add: DebugString_def map_option_case split: option.splits)

lemma DebugString_double: "v_type v = 2 \<Longrightarrow> DebugString v = map_option (strip_zeros \<circ> dbl_str) (value_t2double v)"
  by (simp add: DebugString_def map_option_case split: option.splits)

subsection \<open>Literals\<close>

lemma nat_str_plain:
  "CHR ''.'' \<notin> set (nat_str n)" "\<not> quoted (CHR 0x22) (nat_str n)" "\<not> quoted (CHR 0x27) (nat_str n)"
  "integer_regex (nat_str n)"
proof -
  obtain c r where c: "nat_str n = c # r" "is_digit c" "list_all is_digit r"
    using nat_str_digits [of n] by (cases "nat_str n") auto
  then have d: "\<forall>x\<in>set (nat_str n). is_digit x" by (simp add: list_all_iff)
  then show "CHR ''.'' \<notin> set (nat_str n)" by (auto simp: is_digit_def)
  show "\<not> quoted (CHR 0x22) (nat_str n)" "\<not> quoted (CHR 0x27) (nat_str n)"
    using c by (auto simp: quoted_def is_digit_def)
  show "integer_regex (nat_str n)" using c by (simp add: integer_regex_def)
qed

lemma neg_str_plain:
  "CHR ''.'' \<notin> set (CHR ''-'' # nat_str n)" "\<not> quoted q (CHR ''-'' # nat_str n) \<or> q = CHR ''-''"
  "integer_regex (CHR ''-'' # nat_str n)"
  using nat_str_plain [of n] nat_str_digits [of n] by (auto simp: quoted_def integer_regex_def)

lemma stoull_nat_str:
  "n < 2 ^ 64 \<Longrightarrow> stoull (nat_str n) = Some (of_nat n)"
  "n < 2 ^ 64 \<Longrightarrow> stoull (CHR ''-'' # nat_str n) = Some (- of_nat n)"
  using nat_str_digits [of n] scan_digits [of "nat_str n"] by (simp_all add: stoull_def)

lemma drop_bit_32_zero: "n < 2 ^ 64 \<Longrightarrow> drop_bit 32 (of_nat n :: u64) = 0 \<longleftrightarrow> n < 2 ^ 32"
proof -
  assume n: "n < 2 ^ 64"
  have "unat (drop_bit 32 (of_nat n :: u64)) = n div 2 ^ 32"
    using n by (subst unat_drop_bit_eq) (simp add: drop_bit_eq_div unat_of_nat)
  then show ?thesis by (metis div_eq_0_iff power_not_zero unat_eq_zero zero_neq_numeral)
qed

lemma checktype_nat_str:
  assumes "n < 2 ^ 64"
  shows "checktype (nat_str n) = Some (if n < 2 ^ 32 then 1 else 5)"
  using nat_str_plain [of n] stoull_nat_str(1) [OF assms] drop_bit_32_zero [OF assms] by (simp add: checktype_def)

lemma minus_of_nat_64: "0 < n \<Longrightarrow> n < 2 ^ 64 \<Longrightarrow> - (of_nat n :: u64) = of_nat (2 ^ 64 - n)"
  by (simp add: of_nat_diff)

lemma checktype_neg_str:
  assumes "0 < n" "n \<le> 2 ^ 64 - 2 ^ 32"
  shows "checktype (CHR ''-'' # nat_str n) = Some 5"
proof -
  have n: "n < 2 ^ 64" "\<not> 2 ^ 64 - n < (2 ^ 32 :: nat)" "2 ^ 64 - n < (2 ^ 64 :: nat)" using assms by simp_all
  have "drop_bit 32 (- of_nat n :: u64) \<noteq> 0"
    unfolding minus_of_nat_64 [OF assms(1) n(1)] drop_bit_32_zero [OF n(3)] using n(2) .
  then show ?thesis using neg_str_plain stoull_nat_str(2) [OF n(1)] by (auto simp: checktype_def)
qed

lemma atoi_nat_str:
  assumes "n < 2 ^ 32"
  shows "atoi (nat_str n) = (if n < 2 ^ 31 then int n else int n - 2 ^ 32)"
proof -
  have "strtol (nat_str n) = int n"
    using nat_str_digits [of n] scan_digits [of "nat_str n"] assms by (simp add: strtol_def)
  moreover have "sint (word_of_int (int n) :: u32) = (if n < 2 ^ 31 then int n else int n - 2 ^ 32)"
  proof (cases "n < 2 ^ 31")
    case True
    then show ?thesis unfolding int_word_sint by simp
  next
    case False
    have "(int n + 2 ^ 31) mod 2 ^ 32 = (int n - 2 ^ 31 + 2 ^ 32) mod 2 ^ 32" by (simp add: add.commute)
    also have "\<dots> = int n - 2 ^ 31" unfolding mod_add_self2 using assms False by (intro mod_pos_pos_trivial) auto
    finally show ?thesis unfolding int_word_sint using False by simp
  qed
  ultimately show ?thesis by (simp only: atoi_def)
qed

subsection \<open>Collections\<close>

fun tab_join :: "u8 list list \<Rightarrow> u8 list" where
  "tab_join [] = []"
| "tab_join [x] = x"
| "tab_join (x # y # xs) = x @ 9 # tab_join (y # xs)"

lemma tab_join_butlast: "xs \<noteq> [] \<Longrightarrow> butlast (concat (map (\<lambda>x. x @ [9]) xs)) = tab_join xs"
  by (induction xs rule: tab_join.induct) (auto simp: butlast_append)

lemma byte_char_tab: "byte_char b = TAB \<longleftrightarrow> b = 9"
proof
  assume "byte_char b = TAB"
  then have "char_byte (byte_char b) = char_byte TAB" by (rule arg_cong)
  moreover have "char_byte TAB = 9" by (simp add: char_byte_def TAB_def)
  ultimately show "b = 9" by (simp only: byte_char_inverse)
next
  assume "b = 9"
  moreover have "byte_char 9 = TAB" by code_simp
  ultimately show "byte_char b = TAB" by simp
qed

lemma split_token:
  assumes "t \<noteq> []" "set t \<inter> set sep = {}" "rest = [] \<or> hd rest \<in> set sep"
  shows "split (t @ rest) sep = t # split rest sep"
proof -
  obtain c r where t: "t = c # r" using assms(1) by (cases t) auto
  have d: "dropWhile (\<lambda>c. c \<in> set sep) (t @ rest) = t @ rest" using assms(2) t by auto
  have tw: "takeWhile (\<lambda>c. c \<notin> set sep) (t @ rest) = t" "dropWhile (\<lambda>c. c \<notin> set sep) (t @ rest) = rest"
    using assms(2,3) by (cases rest; auto simp: takeWhile_append dropWhile_append takeWhile_eq_all_conv)+
  show ?thesis using split.simps(2) [of c "r @ rest" sep] d tw t by (simp add: Let_def)
qed

lemma split_skip: "c \<in> set sep \<Longrightarrow> split (c # s) sep = split s sep"
proof (cases s)
  case Nil
  assume "c \<in> set sep"
  then show ?thesis by (simp add: Nil)
next
  case (Cons d r)
  assume "c \<in> set sep"
  then show ?thesis unfolding Cons by (simp add: Let_def)
qed

lemma split_tab_join:
  "\<forall>x\<in>set xs. x \<noteq> [] \<and> 9 \<notin> set x \<Longrightarrow> split (map byte_char (tab_join xs)) [TAB] = map (map byte_char) xs"
proof (induction xs rule: tab_join.induct)
  case (2 x)
  then have "TAB \<notin> set (map byte_char x)" by (auto dest: sym simp: byte_char_tab)
  then show ?case using split_token [of "map byte_char x" "[TAB]" "[]"] 2 by simp
next
  case (3 x y xs)
  let ?r = "byte_char 9 # map byte_char (tab_join (y # xs))"
  have "split (map byte_char x @ ?r) [TAB] = map byte_char x # split ?r [TAB]"
    using 3(2) byte_char_tab [of 9] by (intro split_token) (auto dest: sym simp: byte_char_tab)
  moreover have "split ?r [TAB] = split (map byte_char (tab_join (y # xs))) [TAB]"
    using byte_char_tab [of 9] by (intro split_skip) simp
  ultimately show ?case using 3 by simp
qed simp

lemma trim_nat_str: "trim (nat_str n) '' '' = nat_str n"
proof -
  have d: "\<forall>c\<in>set (nat_str n). c \<noteq> CHR '' ''" using nat_str_digits [of n] by (auto simp: list_all_iff is_digit_def)
  then have "dropWhile (\<lambda>c. c \<in> set '' '') (nat_str n) = nat_str n"
    "dropWhile (\<lambda>c. c \<in> set '' '') (rev (nat_str n)) = rev (nat_str n)"
    using hd_in_set [of "rev (nat_str n)"] by (auto simp: dropWhile_eq_self_iff)
  then show ?thesis by (simp add: trim_def)
qed

lemma str2value_nat_str:
  assumes "n < 2 ^ 31"
  shows "str2value_t atof (nat_str n) v = Some (True, int2value_t (int n) v)"
  using checktype_nat_str [of n] atoi_nat_str [of n] assms by (simp add: str2value_t_def str2int_def)

lemma vec2value_loop_ints:
  "\<forall>n\<in>set ns. n < 2 ^ 31 \<Longrightarrow>
   vec2value_loop atof 1 (map nat_str ns) v =
     Some (True, v\<lparr>v_content := v_content v @ concat (map (\<lambda>n. bytes_le 4 n @ [9]) ns), v_type := if ns = [] then v_type v else 1\<rparr>)"
proof (induction ns arbitrary: v)
  case (Cons n ns)
  have "unat (word_of_int (int n) :: u32) = n" using Cons.prems by (simp add: unat_of_nat)
  then show ?case using Cons checktype_nat_str [of n] str2value_nat_str [of n atof v]
    by (simp add: trim_nat_str int2value_t_def add_content_def)
qed simp

section \<open>Properties\<close>

text \<open>
  C29. Values of one type other than double are linearly ordered by the six comparison operators: none of
  them fails, exactly one of \<open><\<close>, \<open>==\<close> and \<open>>\<close> holds, \<open><=\<close>, \<open>>=\<close> and \<open>!=\<close> are what they should be, and
  \<open><\<close> is transitive.
\<close>

theorem value_order_linear:
  assumes "wf_value a" "wf_value b" "wf_value c" "v_type a = v_type b" "v_type b = v_type c" "v_type a \<noteq> 2"
  shows "(\<exists>l e g. value_less a b = Some l \<and> value_eq a b = Some e \<and> value_greater a b = Some g \<and>
      (l \<and> \<not> e \<and> \<not> g \<or> \<not> l \<and> e \<and> \<not> g \<or> \<not> l \<and> \<not> e \<and> g) \<and>
      value_leq a b = Some (l \<or> e) \<and> value_geq a b = Some (g \<or> e) \<and> value_neq a b = Some (\<not> e) \<and> value_less b a = Some g) \<and>
    (value_less a b = Some True \<and> value_less b c = Some True \<longrightarrow> value_less a c = Some True)"
proof -
  obtain l g where "value_less a b = Some l" "value_greater a b = Some g" "value_leq a b = Some (\<not> g)"
    "value_geq a b = Some (\<not> l)" "value_eq a b = Some (\<not> l \<and> \<not> g)" "value_neq a b = Some (l \<or> g)" "\<not> (l \<and> g)"
    "value_less b a = Some g"
    using value_ops_order [OF assms(1,2,4,6)] by blast
  then show ?thesis using value_less_trans [OF assms(1-6)]
    by (intro conjI exI [of _ l] exI [of _ "\<not> l \<and> \<not> g"] exI [of _ g]) auto
qed

theorem value_order_linear_witness:
  "value_less (int2value_t (-5) new_value) (int2value_t 3 new_value) = Some True \<and>
   value_less (int2value_t (-5) new_value) (int2value_t 7 new_value) = Some True"
proof -
  have "wf_value (int2value_t i new_value)" "v_type (int2value_t i new_value) = 1" for i
    by (simp_all add: wf_value_def int2value_t_def add_content_def new_value_def)
  moreover have "value_less (int2value_t (-5) new_value) (int2value_t 3 new_value) = Some True"
    "value_less (int2value_t 3 new_value) (int2value_t 7 new_value) = Some True"
    by (simp_all add: value_less_def value_rel_def value_t2int_int2value)
  ultimately show ?thesis
    using value_order_linear [of "int2value_t (-5) new_value" "int2value_t 3 new_value" "int2value_t 7 new_value"] by simp
qed

text \<open>
  The predicates of a query complement each other on values of one type: \<open>BETWEEN\<close> is the negation of
  \<open>OUTSIDE\<close>, \<open>INSIDE\<close> implies \<open>BETWEEN\<close>, \<open>GTE\<close> and \<open>LTE\<close> negate \<open>LT\<close> and \<open>GT\<close>, \<open>NEQ\<close> negates \<open>EQ\<close>, \<open>WITHOUT\<close>
  negates \<open>WITHIN\<close>, and none of them fails.
\<close>

lemma predicate_duality:
  assumes "wf_value x" "wf_value lo" "wf_value hi" "v_type x = v_type lo" "v_type x = v_type hi" "v_type x \<noteq> 2"
  shows "\<exists>outs ins lt gt eq w. Evaluate \<lparr>pred_type = OUTSIDE, pred_values = [lo, hi]\<rparr> (Some x) = Some outs \<and>
    Evaluate \<lparr>pred_type = BETWEEN, pred_values = [lo, hi]\<rparr> (Some x) = Some (\<not> outs) \<and>
    Evaluate \<lparr>pred_type = INSIDE, pred_values = [lo, hi]\<rparr> (Some x) = Some ins \<and> (ins \<longrightarrow> \<not> outs) \<and>
    Evaluate \<lparr>pred_type = LT, pred_values = [lo]\<rparr> (Some x) = Some lt \<and>
    Evaluate \<lparr>pred_type = GTE, pred_values = [lo]\<rparr> (Some x) = Some (\<not> lt) \<and>
    Evaluate \<lparr>pred_type = GT, pred_values = [lo]\<rparr> (Some x) = Some gt \<and>
    Evaluate \<lparr>pred_type = LTE, pred_values = [lo]\<rparr> (Some x) = Some (\<not> gt) \<and>
    Evaluate \<lparr>pred_type = EQ, pred_values = [lo]\<rparr> (Some x) = Some eq \<and>
    Evaluate \<lparr>pred_type = NEQ, pred_values = [lo]\<rparr> (Some x) = Some (\<not> eq) \<and>
    Evaluate \<lparr>pred_type = WITHIN, pred_values = [lo, hi]\<rparr> (Some x) = Some w \<and>
    Evaluate \<lparr>pred_type = WITHOUT, pred_values = [lo, hi]\<rparr> (Some x) = Some (\<not> w)"
proof -
  obtain l g where A: "value_less x lo = Some l" "value_greater x lo = Some g" "value_leq x lo = Some (\<not> g)"
    "value_geq x lo = Some (\<not> l)" "value_eq x lo = Some (\<not> l \<and> \<not> g)" "value_neq x lo = Some (l \<or> g)" "\<not> (l \<and> g)"
    using value_ops_order [OF assms(1,2,4,6)] by blast
  obtain l' g' where B: "value_less x hi = Some l'" "value_greater x hi = Some g'" "value_leq x hi = Some (\<not> g')"
    "\<not> (l' \<and> g')" using value_ops_order [OF assms(1,3,5,6)] by blast
  have C: "value_eq lo x = Some (v_content lo = v_content x)" "value_eq hi x = Some (v_content hi = v_content x)"
    using assms(4,5) by (simp_all add: value_eq_def)
  have "any_equal [lo, hi] x = Some (v_content lo = v_content x \<or> v_content hi = v_content x)" by (simp add: C)
  then show ?thesis using A B by (auto simp: Evaluate_def and_then_def or_else_def)
qed

lemma predicate_duality_example:
  "Evaluate \<lparr>pred_type = BETWEEN, pred_values = [int2value_t 1 new_value, int2value_t 9 new_value]\<rparr> (Some (int2value_t 4 new_value)) =
     Some True"
proof -
  have wf: "wf_value (int2value_t i new_value)" "v_type (int2value_t i new_value) = 1" for i
    by (simp_all add: wf_value_def int2value_t_def add_content_def new_value_def)
  have "Evaluate \<lparr>pred_type = OUTSIDE, pred_values = [int2value_t 1 new_value, int2value_t 9 new_value]\<rparr> (Some (int2value_t 4 new_value)) =
      Some False" by (simp add: Evaluate_def or_else_def value_less_def value_greater_def value_rel_def value_t2int_int2value)
  with predicate_duality [of "int2value_t 4 new_value" "int2value_t 1 new_value" "int2value_t 9 new_value"] wf
  show ?thesis by auto
qed

text \<open>
  An integer and a double are never equal for \<open>==\<close>, whatever they are: their texts are compared, and
  only the double's has a point or letters. So \<open>1 <= 1.0\<close> and \<open>1 >= 1.0\<close> hold while \<open>1 == 1.0\<close> does not.
\<close>

lemma int_never_equals_double:
  assumes "wf_value a" "wf_value b" "v_type a = 1" "v_type b = 2"
  shows "value_eq a b = Some False \<and> value_eq b a = Some False"
proof -
  obtain i d where i: "value_t2int a = Some i" "value_t2double b = Some d"
    using assms by (auto simp: wf_value_def value_t2int_def value_t2double_def)
  obtain c where c: "c \<in> set (strip_zeros (dbl_str d))" "\<not> is_digit c" "c \<noteq> CHR ''-''" using dbl_str_no_int [of d] by blast
  then have "c \<notin> set (int_str i)" using int_str_chars [of c i] by blast
  with c(1) have "int_str i \<noteq> strip_zeros (dbl_str d)" by metis
  then show ?thesis using assms i by (auto simp: value_eq_def DebugString_int DebugString_double)
qed

lemma int_never_equals_double_example:
  "value_eq (int2value_t 1 new_value) (double2value_t 0x3FF0000000000000 new_value) = Some False \<and>
   value_leq (int2value_t 1 new_value) (double2value_t 0x3FF0000000000000 new_value) = Some True \<and>
   value_geq (int2value_t 1 new_value) (double2value_t 0x3FF0000000000000 new_value) = Some True"
proof -
  have "dbl_of_bits 0x3FF0000000000000 = Fin 0x10000000000000 (- 52)" by code_simp
  then have "value_leq (int2value_t 1 new_value) (double2value_t 0x3FF0000000000000 new_value) = Some True"
    "value_geq (int2value_t 1 new_value) (double2value_t 0x3FF0000000000000 new_value) = Some True"
    by (simp_all add: value_leq_def value_geq_def value_rel_def value_t2int_int2value value_t2double_double dbl_leq_def fin_less_def)
  then show ?thesis
    using int_never_equals_double [of "int2value_t 1 new_value" "double2value_t 0x3FF0000000000000 new_value"]
    by (simp add: wf_value_def int2value_t_def double2value_t_def add_content_def new_value_def)
qed

text \<open>
  What an integer literal becomes. Below \<open>2^31\<close> it is an \<open>int\<close> with that value. From \<open>2^31\<close> to \<open>2^32\<close> it
  is an \<open>int\<close> too, but a negative one. Above, it is a \<open>uint64_t\<close>. A literal with a minus sign is a
  \<open>uint64_t\<close> as well: its value is \<open>2^64\<close> minus the number.
\<close>

lemma integer_literal_types:
  assumes "n < 2 ^ 64"
  shows "(\<exists>v. str2value_t atof (nat_str n) new_value = Some (True, v) \<and>
      (n < 2 ^ 31 \<longrightarrow> v_type v = 1 \<and> value_t2int v = Some (int n)) \<and>
      (2 ^ 31 \<le> n \<and> n < 2 ^ 32 \<longrightarrow> v_type v = 1 \<and> value_t2int v = Some (int n - 2 ^ 32)) \<and>
      (2 ^ 32 \<le> n \<longrightarrow> v_type v = 5 \<and> value_t2uint64_t v = Some (of_nat n))) \<and>
    (0 < n \<and> n \<le> 2 ^ 31 \<longrightarrow>
      (\<exists>v. str2value_t atof (CHR ''-'' # nat_str n) new_value = Some (True, v) \<and> v_type v = 5 \<and>
         value_t2uint64_t v = Some (- of_nat n)))"
proof (intro conjI impI)
  show "\<exists>v. str2value_t atof (nat_str n) new_value = Some (True, v) \<and>
      (n < 2 ^ 31 \<longrightarrow> v_type v = 1 \<and> value_t2int v = Some (int n)) \<and>
      (2 ^ 31 \<le> n \<and> n < 2 ^ 32 \<longrightarrow> v_type v = 1 \<and> value_t2int v = Some (int n - 2 ^ 32)) \<and>
      (2 ^ 32 \<le> n \<longrightarrow> v_type v = 5 \<and> value_t2uint64_t v = Some (of_nat n))"
  proof (cases "n < 2 ^ 32")
    case True
    then have "str2value_t atof (nat_str n) new_value = Some (True, int2value_t (atoi (nat_str n)) new_value)"
      using checktype_nat_str [OF assms] by (simp add: str2value_t_def str2int_def)
    moreover have "value_t2int (int2value_t (atoi (nat_str n)) new_value) = Some (atoi (nat_str n))"
      using True atoi_nat_str [OF True] by (intro value_t2int_int2value) auto
    ultimately show ?thesis using True atoi_nat_str [OF True] by (auto simp: int2value_t_def add_content_def)
  next
    case False
    then show ?thesis using checktype_nat_str [OF assms] stoull_nat_str(1) [OF assms] value_t2uint64_uint64 [of "of_nat n"]
      by (auto simp: str2value_t_def str2uint64_t_def uint64_t2value_t_def add_content_def)
  qed
next
  assume "0 < n \<and> n \<le> 2 ^ 31"
  then have "checktype (CHR ''-'' # nat_str n) = Some 5" by (intro checktype_neg_str) simp_all
  then have "str2value_t atof (CHR ''-'' # nat_str n) new_value = Some (True, uint64_t2value_t (- of_nat n) new_value)"
    using stoull_nat_str(2) [OF assms] by (simp add: str2value_t_def str2uint64_t_def)
  then show "\<exists>v. str2value_t atof (CHR ''-'' # nat_str n) new_value = Some (True, v) \<and> v_type v = 5 \<and>
      value_t2uint64_t v = Some (- of_nat n)"
    using value_t2uint64_uint64 [of "- of_nat n"] by (auto simp: uint64_t2value_t_def add_content_def)
qed

lemma integer_literal_types_example:
  "\<exists>v. str2value_t (\<lambda>_. 0) ''-5'' new_value = Some (True, v) \<and> v_type v = 5 \<and> value_t2uint64_t v = Some 0xFFFFFFFFFFFFFFFB"
proof -
  have "nat_str 5 = ''5''" by code_simp
  moreover have "(- of_nat 5 :: u64) = 0xFFFFFFFFFFFFFFFB" by simp
  ultimately show ?thesis using integer_literal_types [of 5 "\<lambda>_. 0"] by auto
qed

text \<open>
  A collection of integers goes through a value and back, provided no byte of its binary form is the
  tab that separates the elements.
\<close>

lemma int_collection_roundtrip:
  assumes "ns \<noteq> []" "\<forall>n\<in>set ns. n < 2 ^ 31 \<and> 9 \<notin> set (bytes_le 4 n)"
  shows "\<exists>v. vec2value_t atof (map nat_str ns) 1 new_value = Some (True, v) \<and>
    value_t2vec v = map (\<lambda>n. int2value_t (int n) new_value) ns"
proof -
  let ?c = "tab_join (map (bytes_le 4) ns)"
  have "concat (map (\<lambda>n. bytes_le 4 n @ [9]) ns) = concat (map (\<lambda>x. x @ [9]) (map (bytes_le 4) ns))" by (simp add: o_def)
  then have v: "vec2value_t atof (map nat_str ns) 1 new_value = Some (True, \<lparr>v_type = 17, v_content = ?c\<rparr>)"
    using vec2value_loop_ints [of ns atof new_value] assms tab_join_butlast [of "map (bytes_le 4) ns"]
    by (simp add: vec2value_t_def new_value_def)
  have "\<forall>x\<in>set (map (bytes_le 4) ns). x \<noteq> [] \<and> 9 \<notin> set x"
    using assms(2) length_bytes_le [of 4] by (metis (no_types, lifting) imageE list.set_map list.size(3) zero_neq_numeral)
  then have sp: "split (map byte_char ?c) [TAB] = map (map byte_char) (map (bytes_le 4) ns)" by (rule split_tab_join)
  have "unat (word_of_int (int n) :: u32) = n" if "n \<in> set ns" for n
    using that assms(2) by (fastforce simp: unat_of_nat)
  then have "value_t2vec \<lparr>v_type = 17, v_content = ?c\<rparr> = map (\<lambda>n. int2value_t (int n) new_value) ns"
    using sp by (auto simp: value_t2vec_def value_t2string_def str2str_def str_bytes_def add_content_def int2value_t_def new_value_def
        o_def)
  then show ?thesis using v by blast
qed

lemma int_collection_roundtrip_example:
  "\<exists>v. vec2value_t (\<lambda>_. 0) [''1'', ''22''] 1 new_value = Some (True, v) \<and>
     value_t2vec v = [int2value_t 1 new_value, int2value_t 22 new_value]"
proof -
  have "map nat_str [1, 22] = [''1'', ''22'']" by code_simp
  moreover have "\<forall>n\<in>set [1, 22]. n < 2 ^ 31 \<and> 9 \<notin> set (bytes_le 4 n)" by (simp add: bytes_le_4)
  ultimately show ?thesis using int_collection_roundtrip [of "[1, 22]" "\<lambda>_. 0"] by simp
qed

end
