(* ===== verification/Serialization.thy ===== *)
theory Serialization
  imports Values GT_Ids
begin

text \<open>
  The binary streams (src/base/serialization.hpp, .cpp and .tpp) and the streaming operators of the basic
  types (src/base/type.cpp).

  An \<open>ibinstream\<close> is the list of its bytes. Its \<open>raw_bytes\<close> takes an \<open>int\<close> size; a size of \<open>2^31\<close> or more
  is undefined: \<open>None\<close>. An \<open>obinstream\<close> has a buffer and an index; reading past the buffer is \<open>None\<close> too.
  \<open>double\<close> is its bit pattern. A \<open>std::map\<close> is the list of its pairs in key order, a \<open>std::set\<close> the list of
  its elements in order. The GNU hash containers, whose order of iteration is unspecified, are left out.
\<close>

type_synonym ibinstream = "u8 list"

record obinstream =
  o_buf :: "u8 list"
  o_size :: nat
  o_index :: nat

section \<open>Raw bytes\<close>

definition ib_raw_byte :: "ibinstream \<Rightarrow> u8 \<Rightarrow> ibinstream" where
  "ib_raw_byte m c = m @ [c]"

definition ib_raw_bytes :: "ibinstream \<Rightarrow> u8 list \<Rightarrow> ibinstream option" where
  "ib_raw_bytes m bs = (if length bs < 2 ^ 31 then Some (m @ bs) else None)"

definition ob_assign :: "u8 list \<Rightarrow> nat \<Rightarrow> obinstream" where
  "ob_assign b idx = \<lparr>o_buf = b, o_size = length b, o_index = idx\<rparr>"

definition ob_end :: "obinstream \<Rightarrow> bool" where
  "ob_end s = (o_size s \<le> o_index s)"

definition ob_raw_byte :: "obinstream \<Rightarrow> (u8 \<times> obinstream) option" where
  "ob_raw_byte s =
     (if o_index s < length (o_buf s) then Some (o_buf s ! o_index s, s\<lparr>o_index := o_index s + 1\<rparr>) else None)"

text \<open>
  \<open>raw_bytes(n)\<close> takes an \<open>unsigned int\<close>, so the index advances by \<open>n\<close> cut to 32 bits, while the caller reads
  \<open>n\<close> bytes from the pointer it gets.
\<close>

definition ob_raw_bytes :: "obinstream \<Rightarrow> nat \<Rightarrow> (u8 list \<times> obinstream) option" where
  "ob_raw_bytes s n =
     (if o_index s + n \<le> length (o_buf s)
      then Some (take n (drop (o_index s) (o_buf s)), s\<lparr>o_index := o_index s + n mod 2 ^ 32\<rparr>) else None)"

section \<open>Basic types\<close>

definition put_u64 :: "ibinstream \<Rightarrow> u64 \<Rightarrow> ibinstream option" where
  "put_u64 m i = ib_raw_bytes m (bytes_le 8 (unat i))"

definition put_bool :: "ibinstream \<Rightarrow> bool \<Rightarrow> ibinstream option" where
  "put_bool m b = ib_raw_bytes m [if b then 1 else 0]"

definition put_int :: "ibinstream \<Rightarrow> int \<Rightarrow> ibinstream option" where
  "put_int m i = ib_raw_bytes m (bytes_le 4 (unat (word_of_int i :: u32)))"

definition put_u8 :: "ibinstream \<Rightarrow> u8 \<Rightarrow> ibinstream option" where
  "put_u8 m i = Some (ib_raw_byte m i)"

definition put_u16 :: "ibinstream \<Rightarrow> u16 \<Rightarrow> ibinstream option" where
  "put_u16 m i = ib_raw_bytes m (bytes_le 2 (unat i))"

definition put_u32 :: "ibinstream \<Rightarrow> u32 \<Rightarrow> ibinstream option" where
  "put_u32 m i = ib_raw_bytes m (bytes_le 4 (unat i))"

definition put_size :: "ibinstream \<Rightarrow> nat \<Rightarrow> ibinstream option" where
  "put_size m n = put_u64 m (of_nat n)"

definition put_chars :: "ibinstream \<Rightarrow> u8 list \<Rightarrow> ibinstream option" where
  "put_chars m v = do { m \<leftarrow> put_size m (length v); ib_raw_bytes m v }"

definition put_ints :: "ibinstream \<Rightarrow> int list \<Rightarrow> ibinstream option" where
  "put_ints m v =
     do { m \<leftarrow> put_size m (length v);
          ib_raw_bytes m (concat (map (\<lambda>i. bytes_le 4 (unat (word_of_int i :: u32))) v)) }"

definition put_u64s :: "ibinstream \<Rightarrow> u64 list \<Rightarrow> ibinstream option" where
  "put_u64s m v =
     do { m \<leftarrow> put_size m (length v); ib_raw_bytes m (concat (map (\<lambda>i. bytes_le 8 (unat i)) v)) }"

definition put_string :: "ibinstream \<Rightarrow> string \<Rightarrow> ibinstream option" where
  "put_string m s = do { m \<leftarrow> put_size m (length s); ib_raw_bytes m (str_bytes s) }"

definition get_u64 :: "obinstream \<Rightarrow> (u64 \<times> obinstream) option" where
  "get_u64 s = do { (bs, s) \<leftarrow> ob_raw_bytes s 8; Some (of_nat (nat_le bs), s) }"

definition get_bool :: "obinstream \<Rightarrow> (bool \<times> obinstream) option" where
  "get_bool s = do { (bs, s) \<leftarrow> ob_raw_bytes s 1; Some (bs ! 0 \<noteq> 0, s) }"

definition get_int :: "obinstream \<Rightarrow> (int \<times> obinstream) option" where
  "get_int s = do { (bs, s) \<leftarrow> ob_raw_bytes s 4; Some (sint (of_nat (nat_le bs) :: u32), s) }"

definition get_u8 :: "obinstream \<Rightarrow> (u8 \<times> obinstream) option" where
  "get_u8 s = ob_raw_byte s"

definition get_u16 :: "obinstream \<Rightarrow> (u16 \<times> obinstream) option" where
  "get_u16 s = do { (bs, s) \<leftarrow> ob_raw_bytes s 2; Some (of_nat (nat_le bs), s) }"

definition get_u32 :: "obinstream \<Rightarrow> (u32 \<times> obinstream) option" where
  "get_u32 s = do { (bs, s) \<leftarrow> ob_raw_bytes s 4; Some (of_nat (nat_le bs), s) }"

definition get_size :: "obinstream \<Rightarrow> (nat \<times> obinstream) option" where
  "get_size s = do { (n, s) \<leftarrow> get_u64 s; Some (unat n, s) }"

fun chunks :: "nat \<Rightarrow> nat \<Rightarrow> u8 list \<Rightarrow> u8 list list" where
  "chunks k 0 bs = []"
| "chunks k (Suc n) bs = take k bs # chunks k n (drop k bs)"

definition get_chars :: "obinstream \<Rightarrow> (u8 list \<times> obinstream) option" where
  "get_chars s = do { (n, s) \<leftarrow> get_size s; ob_raw_bytes s n }"

definition get_ints :: "obinstream \<Rightarrow> (int list \<times> obinstream) option" where
  "get_ints s =
     do { (n, s) \<leftarrow> get_size s; (bs, s) \<leftarrow> ob_raw_bytes s (4 * n);
          Some (map (\<lambda>c. sint (of_nat (nat_le c) :: u32)) (chunks 4 n bs), s) }"

definition get_u64s :: "obinstream \<Rightarrow> (u64 list \<times> obinstream) option" where
  "get_u64s s =
     do { (n, s) \<leftarrow> get_size s; (bs, s) \<leftarrow> ob_raw_bytes s (8 * n);
          Some (map (\<lambda>c. of_nat (nat_le c)) (chunks 8 n bs), s) }"

definition get_string :: "obinstream \<Rightarrow> (string \<times> obinstream) option" where
  "get_string s = do { (n, s) \<leftarrow> get_size s; (bs, s) \<leftarrow> ob_raw_bytes s n; Some (map byte_char bs, s) }"

section \<open>Containers\<close>

type_synonym 'a writer = "ibinstream \<Rightarrow> 'a \<Rightarrow> ibinstream option"
type_synonym 'a reader = "obinstream \<Rightarrow> ('a \<times> obinstream) option"

fun put_all :: "'a writer \<Rightarrow> ibinstream \<Rightarrow> 'a list \<Rightarrow> ibinstream option" where
  "put_all put m [] = Some m"
| "put_all put m (x # xs) = do { m \<leftarrow> put m x; put_all put m xs }"

definition put_vector :: "'a writer \<Rightarrow> 'a list writer" where
  "put_vector put m v = do { m \<leftarrow> put_size m (length v); put_all put m v }"

definition put_pair :: "'a writer \<Rightarrow> 'b writer \<Rightarrow> ('a \<times> 'b) writer" where
  "put_pair put1 put2 m p = do { m \<leftarrow> put1 m (fst p); put2 m (snd p) }"

definition put_map :: "'k writer \<Rightarrow> 'v writer \<Rightarrow> ('k \<times> 'v) list writer" where
  "put_map putk putv m v = do { m \<leftarrow> put_size m (length v); put_all (put_pair putk putv) m v }"

fun get_all :: "'a reader \<Rightarrow> nat \<Rightarrow> obinstream \<Rightarrow> ('a list \<times> obinstream) option" where
  "get_all get 0 s = Some ([], s)"
| "get_all get (Suc n) s = do { (x, s) \<leftarrow> get s; (xs, s) \<leftarrow> get_all get n s; Some (x # xs, s) }"

definition get_vector :: "'a reader \<Rightarrow> 'a list reader" where
  "get_vector get s = do { (n, s) \<leftarrow> get_size s; get_all get n s }"

definition get_pair :: "'a reader \<Rightarrow> 'b reader \<Rightarrow> ('a \<times> 'b) reader" where
  "get_pair get1 get2 s = do { (x, s) \<leftarrow> get1 s; (y, s) \<leftarrow> get2 s; Some ((x, y), s) }"

text \<open>Insertion into an ordered container: an equal element stays (set) or gets the new value (map).\<close>

fun ordered_set_insert :: "'a::linorder \<Rightarrow> 'a list \<Rightarrow> 'a list" where
  "ordered_set_insert x [] = [x]"
| "ordered_set_insert x (y # ys) =
     (if x < y then x # y # ys else if x = y then y # ys else y # ordered_set_insert x ys)"

fun ordered_map_insert :: "'k::linorder \<Rightarrow> 'v \<Rightarrow> ('k \<times> 'v) list \<Rightarrow> ('k \<times> 'v) list" where
  "ordered_map_insert k v [] = [(k, v)]"
| "ordered_map_insert k v ((k', v') # r) =
     (if k < k' then (k, v) # (k', v') # r else if k = k' then (k, v) # r else (k', v') # ordered_map_insert k v r)"

fun get_set_loop :: "'a::linorder reader \<Rightarrow> nat \<Rightarrow> 'a list \<Rightarrow> obinstream \<Rightarrow> ('a list \<times> obinstream) option" where
  "get_set_loop get 0 v s = Some (v, s)"
| "get_set_loop get (Suc n) v s = do { (x, s) \<leftarrow> get s; get_set_loop get n (ordered_set_insert x v) s }"

definition get_set :: "'a::linorder reader \<Rightarrow> 'a list reader" where
  "get_set get s = do { (n, s) \<leftarrow> get_size s; get_set_loop get n [] s }"

fun get_map_loop :: "'k::linorder reader \<Rightarrow> 'v reader \<Rightarrow> nat \<Rightarrow> ('k \<times> 'v) list \<Rightarrow> obinstream \<Rightarrow>
    (('k \<times> 'v) list \<times> obinstream) option" where
  "get_map_loop getk getv 0 v s = Some (v, s)"
| "get_map_loop getk getv (Suc n) v s =
     do { (k, s) \<leftarrow> getk s; (x, s) \<leftarrow> getv s; get_map_loop getk getv n (ordered_map_insert k x v) s }"

definition get_map :: "'k::linorder reader \<Rightarrow> 'v reader \<Rightarrow> ('k \<times> 'v) list reader" where
  "get_map getk getv s = do { (n, s) \<leftarrow> get_size s; get_map_loop getk getv n [] s }"

section \<open>Identifiers and values\<close>

definition put_ptr_t :: "ptr_t writer" where
  "put_ptr_t m p = put_u64 m (ptr_t_value p)"

definition get_ptr_t :: "ptr_t reader" where
  "get_ptr_t s = do { (v, s) \<leftarrow> get_u64 s; Some (uint2ptr_t v, s) }"

definition put_vid_t :: "vid_t writer" where
  "put_vid_t m v = put_u32 m (vid_t_value v)"

definition get_vid_t :: "vid_t reader" where
  "get_vid_t s = do { (v, s) \<leftarrow> get_u32 s; Some (uint2vid_t v, s) }"

definition put_eid_t :: "eid_t writer" where
  "put_eid_t m e = put_u64 m (eid_t_value e)"

definition get_eid_t :: "eid_t reader" where
  "get_eid_t s = do { (v, s) \<leftarrow> get_u64 s; Some (uint2eid_t v, s) }"

definition put_vpid_t :: "vpid_t writer" where
  "put_vpid_t m p = put_u64 m (vpid_t_value p)"

definition get_vpid_t :: "vpid_t reader" where
  "get_vpid_t s = do { (v, s) \<leftarrow> get_u64 s; Some (uint2vpid_t v, s) }"

definition put_epid_t :: "epid_t writer" where
  "put_epid_t m p = put_u64 m (epid_t_value p)"

definition get_epid_t :: "epid_t reader" where
  "get_epid_t s = do { (v, s) \<leftarrow> get_u64 s; Some (uint2epid_t v, s) }"

definition put_value_t :: "value_t writer" where
  "put_value_t m v = do { m \<leftarrow> put_chars m (v_content v); put_u8 m (v_type v) }"

definition get_value_t :: "value_t reader" where
  "get_value_t s = do { (c, s) \<leftarrow> get_chars s; (ty, s) \<leftarrow> get_u8 s; Some (\<lparr>v_type = ty, v_content = c\<rparr>, s) }"

definition put_kv_pair :: "kv_pair writer" where
  "put_kv_pair m p = do { m \<leftarrow> put_u32 m (kv_key p); put_value_t m (kv_value p) }"

definition get_kv_pair :: "kv_pair reader" where
  "get_kv_pair s = do { (k, s) \<leftarrow> get_u32 s; (v, s) \<leftarrow> get_value_t s; Some (\<lparr>kv_key = k, kv_value = v\<rparr>, s) }"

record vp_list =
  vpl_vid :: vid_t
  vpl_pkeys :: "u16 list"

definition put_vp_list :: "vp_list writer" where
  "put_vp_list m p = do { m \<leftarrow> put_vid_t m (vpl_vid p); put_vector put_u16 m (vpl_pkeys p) }"

definition get_vp_list :: "vp_list reader" where
  "get_vp_list s =
     do { (v, s) \<leftarrow> get_vid_t s; (ks, s) \<leftarrow> get_vector get_u16 s; Some (\<lparr>vpl_vid = v, vpl_pkeys = ks\<rparr>, s) }"

text \<open>The reader of an \<open>elem_t\<close> allocates memory for the content and leaves it as it is (\<open>fresh\<close>).\<close>

definition put_elem_t :: "elem_t writer" where
  "put_elem_t m e = do { m \<leftarrow> put_u8 m (e_type e); put_chars m (take (unat (e_sz e)) (e_content e)) }"

definition get_elem_t :: "(nat \<Rightarrow> u8 list) \<Rightarrow> elem_t reader" where
  "get_elem_t fresh s =
     do { (ty, s) \<leftarrow> get_u8 s; (vec, s) \<leftarrow> get_chars s;
          Some (\<lparr>e_type = ty, e_sz = of_nat (length vec), e_content = fresh (length vec)\<rparr>, s) }"

datatype MSG_T = M_INIT | M_SPAWN | M_FEED | M_REPLY | M_BARRIER | M_BRANCH | M_EXIT | M_VALIDATION | M_COMMIT | M_ABORT
  | M_TERMINATE

datatype EXPERT_T = E_INIT | E_ADDE | E_ADDV | E_AGGREGATE | E_AS | E_BRANCH | E_BRANCHFILTER | E_CAP | E_CONFIG
  | E_COUNT | E_DEDUP | E_DROP | E_GROUP | E_HAS | E_HASLABEL | E_INDEX | E_IS | E_KEY | E_LABEL | E_MATH | E_ORDER
  | E_POSTVALIDATION | E_PROJECT | E_PROPERTIES | E_PROPERTY | E_RANGE | E_SELECT | E_TRAVERSAL | E_VALUES | E_WHERE
  | E_COIN | E_REPEAT | E_END | E_VALIDATION | E_TERMINATE | E_STATUS

definition all_MSG_T :: "MSG_T list" where
  "all_MSG_T = [M_INIT, M_SPAWN, M_FEED, M_REPLY, M_BARRIER, M_BRANCH, M_EXIT, M_VALIDATION, M_COMMIT, M_ABORT, M_TERMINATE]"

definition all_EXPERT_T :: "EXPERT_T list" where
  "all_EXPERT_T = [E_INIT, E_ADDE, E_ADDV, E_AGGREGATE, E_AS, E_BRANCH, E_BRANCHFILTER, E_CAP, E_CONFIG, E_COUNT, E_DEDUP,
     E_DROP, E_GROUP, E_HAS, E_HASLABEL, E_INDEX, E_IS, E_KEY, E_LABEL, E_MATH, E_ORDER, E_POSTVALIDATION, E_PROJECT,
     E_PROPERTIES, E_PROPERTY, E_RANGE, E_SELECT, E_TRAVERSAL, E_VALUES, E_WHERE, E_COIN, E_REPEAT, E_END, E_VALIDATION,
     E_TERMINATE, E_STATUS]"

fun index_of :: "'a \<Rightarrow> 'a list \<Rightarrow> nat" where
  "index_of x [] = 0"
| "index_of x (y # ys) = (if x = y then 0 else Suc (index_of x ys))"

definition enum_cast :: "'a list \<Rightarrow> int \<Rightarrow> 'a option" where
  "enum_cast all i = (if 0 \<le> i \<and> nat i < length all then Some (all ! nat i) else None)"

definition put_MSG_T :: "MSG_T writer" where
  "put_MSG_T m t = put_int m (int (index_of t all_MSG_T))"

definition get_MSG_T :: "MSG_T reader" where
  "get_MSG_T s = do { (i, s) \<leftarrow> get_int s; t \<leftarrow> enum_cast all_MSG_T i; Some (t, s) }"

definition put_EXPERT_T :: "EXPERT_T writer" where
  "put_EXPERT_T m t = put_int m (int (index_of t all_EXPERT_T))"

definition get_EXPERT_T :: "EXPERT_T reader" where
  "get_EXPERT_T s = do { (i, s) \<leftarrow> get_int s; t \<leftarrow> enum_cast all_EXPERT_T i; Some (t, s) }"

section \<open>The contract of a codec\<close>

text \<open>
  \<open>at pre post\<close> is a reader that has consumed \<open>pre\<close> and still has \<open>post\<close> before it. \<open>codes put get a bs\<close> says that
  \<open>bs\<close> is the code of \<open>a\<close>: writing appends it, whatever was written before, and reading consumes just these
  bytes, whatever follows, and gives \<open>a\<close> back.
\<close>

definition at :: "u8 list \<Rightarrow> u8 list \<Rightarrow> obinstream" where
  "at pre post = ob_assign (pre @ post) (length pre)"

definition codes :: "'a writer \<Rightarrow> 'a reader \<Rightarrow> 'a \<Rightarrow> u8 list \<Rightarrow> bool" where
  "codes put get a bs \<longleftrightarrow> (\<forall>m. put m a = Some (m @ bs)) \<and>
     (\<forall>pre post. get (at pre (bs @ post)) = Some (a, at (pre @ bs) post))"

locale codec =
  fixes put :: "'a writer"
    and get :: "'a reader"
    and ok :: "'a \<Rightarrow> bool"
  assumes has_code: "ok a \<Longrightarrow> \<exists>bs. codes put get a bs"
begin

lemma written_and_read:
  assumes "ok a"
  obtains bs where "\<And>m. put m a = Some (m @ bs)"
    and "\<And>pre post. get (at pre (bs @ post)) = Some (a, at (pre @ bs) post)"
  using has_code [OF assms] unfolding codes_def by blast

lemma sent_and_received:
  assumes "ok a"
  shows "\<exists>bs. put [] a = Some bs \<and> get (ob_assign bs 0) = Some (a, ob_assign bs (length bs))"
proof -
  obtain bs where p: "put [] a = Some ([] @ bs)"
    and g: "get (at [] (bs @ [])) = Some (a, at ([] @ bs) [])" using written_and_read [OF assms] by metis
  then show ?thesis by (intro exI [of _ bs]) (simp add: at_def)
qed

end

section \<open>Codecs of the basic types\<close>

lemma ob_raw_bytes_at:
  "length bs < 2 ^ 32 \<Longrightarrow> ob_raw_bytes (at pre (bs @ post)) (length bs) = Some (bs, at (pre @ bs) post)"
  by (simp add: ob_raw_bytes_def at_def ob_assign_def)

lemma ob_raw_byte_at: "ob_raw_byte (at pre (b # post)) = Some (b, at (pre @ [b]) post)"
  by (simp add: ob_raw_byte_def at_def ob_assign_def)

lemma ob_raw_bytes_le_at:
  "n < 2 ^ 32 \<Longrightarrow> ob_raw_bytes (at pre (bytes_le n x @ post)) n = Some (bytes_le n x, at (pre @ bytes_le n x) post)"
  using ob_raw_bytes_at [of "bytes_le n x"] by simp

lemma codesI:
  assumes "\<And>m. put m a = Some (m @ bs)"
    and "\<And>pre post. get (at pre (bs @ post)) = Some (a, at (pre @ bs) post)"
  shows "codes put get a bs"
  using assms by (simp add: codes_def)

lemma codesD:
  assumes "codes put get a bs"
  shows "put m a = Some (m @ bs)" and "get (at pre (bs @ post)) = Some (a, at (pre @ bs) post)"
  using assms by (simp_all add: codes_def)

lemma nat_le_word:
  "nat_le (bytes_le 8 (unat (w :: u64))) = unat w" "nat_le (bytes_le 4 (unat (x :: u32))) = unat x"
  "nat_le (bytes_le 2 (unat (y :: u16))) = unat y"
  using unat_less [of w] unat_less [of x] unat_less [of y] by (simp_all add: nat_le_bytes_le)

lemma sint_word_of_int: "- (2 ^ 31) \<le> i \<Longrightarrow> i < 2 ^ 31 \<Longrightarrow> sint (word_of_int i :: u32) = i"
  by (simp add: int_word_sint)

lemma codes_u64: "codes put_u64 get_u64 a (bytes_le 8 (unat a))"
  by (rule codesI) (simp_all add: put_u64_def get_u64_def ib_raw_bytes_def ob_raw_bytes_le_at nat_le_word)

lemma codes_u32: "codes put_u32 get_u32 a (bytes_le 4 (unat a))"
  by (rule codesI) (simp_all add: put_u32_def get_u32_def ib_raw_bytes_def ob_raw_bytes_le_at nat_le_word)

lemma codes_u16: "codes put_u16 get_u16 a (bytes_le 2 (unat a))"
  by (rule codesI) (simp_all add: put_u16_def get_u16_def ib_raw_bytes_def ob_raw_bytes_le_at nat_le_word)

lemma codes_u8: "codes put_u8 get_u8 a [a]"
  by (rule codesI) (simp_all add: put_u8_def get_u8_def ib_raw_byte_def ob_raw_byte_at)

lemma codes_bool: "codes put_bool get_bool a [if a then 1 else 0]"
  using ob_raw_bytes_at [of "[if a then 1 else 0]"]
  by (intro codesI) (simp_all add: put_bool_def get_bool_def ib_raw_bytes_def)

lemma codes_int:
  assumes "- (2 ^ 31) \<le> i" "i < 2 ^ 31"
  shows "codes put_int get_int i (bytes_le 4 (unat (word_of_int i :: u32)))"
  using sint_word_of_int [OF assms]
  by (intro codesI) (simp_all add: put_int_def get_int_def ib_raw_bytes_def ob_raw_bytes_le_at nat_le_word)

lemma codes_size: "n < 2 ^ 64 \<Longrightarrow> codes put_size get_size n (bytes_le 8 (unat (of_nat n :: u64)))"
  using codesD [OF codes_u64, of _ "of_nat n"]
  by (intro codesI) (simp_all add: put_size_def get_size_def unat_of_nat)

abbreviation int_ok :: "int \<Rightarrow> bool" where
  "int_ok i \<equiv> - (2 ^ 31) \<le> i \<and> i < 2 ^ 31"

interpretation u64: codec put_u64 get_u64 "\<lambda>_. True" by unfold_locales (blast intro: codes_u64)

interpretation u32: codec put_u32 get_u32 "\<lambda>_. True" by unfold_locales (blast intro: codes_u32)

interpretation u16: codec put_u16 get_u16 "\<lambda>_. True" by unfold_locales (blast intro: codes_u16)

interpretation u8: codec put_u8 get_u8 "\<lambda>_. True" by unfold_locales (blast intro: codes_u8)

interpretation bool: codec put_bool get_bool "\<lambda>_. True" by unfold_locales (blast intro: codes_bool)

interpretation int: codec put_int get_int int_ok by unfold_locales (blast intro: codes_int)

section \<open>Codecs of sequences and containers\<close>

lemma codes_chars:
  assumes "length v < 2 ^ 31"
  shows "codes put_chars get_chars v (bytes_le 8 (unat (of_nat (length v) :: u64)) @ v)"
proof (rule codesI)
  have s: "codes put_size get_size (length v) (bytes_le 8 (unat (of_nat (length v) :: u64)))"
    using assms by (intro codes_size) simp
  show "put_chars m v = Some (m @ bytes_le 8 (unat (of_nat (length v) :: u64)) @ v)" for m
    using assms by (simp add: put_chars_def codesD [OF s] ib_raw_bytes_def)
  show "get_chars (at pre ((bytes_le 8 (unat (of_nat (length v) :: u64)) @ v) @ post))
      = Some (v, at (pre @ bytes_le 8 (unat (of_nat (length v) :: u64)) @ v) post)" for pre post
    using assms by (simp add: get_chars_def codesD [OF s] ob_raw_bytes_at)
qed

lemma codes_string:
  assumes "length s < 2 ^ 31"
  shows "codes put_string get_string s (bytes_le 8 (unat (of_nat (length s) :: u64)) @ str_bytes s)"
proof (rule codesI)
  have e: "codes put_size get_size (length s) (bytes_le 8 (unat (of_nat (length s) :: u64)))"
    using assms by (intro codes_size) simp
  have b: "ob_raw_bytes (at pre (str_bytes s @ post)) (length s) = Some (str_bytes s, at (pre @ str_bytes s) post)" for pre post
    using ob_raw_bytes_at [of "str_bytes s"] assms by (simp add: str_bytes_def)
  have c: "map byte_char (str_bytes s) = s" by (simp add: str_bytes_def o_def)
  show "put_string m s = Some (m @ bytes_le 8 (unat (of_nat (length s) :: u64)) @ str_bytes s)" for m
    using assms by (simp add: put_string_def codesD [OF e] ib_raw_bytes_def str_bytes_def)
  show "get_string (at pre ((bytes_le 8 (unat (of_nat (length s) :: u64)) @ str_bytes s) @ post))
      = Some (s, at (pre @ bytes_le 8 (unat (of_nat (length s) :: u64)) @ str_bytes s) post)" for pre post
    by (simp add: get_string_def codesD [OF e] b c)
qed

interpretation chars: codec put_chars get_chars "\<lambda>v. length v < 2 ^ 31" by unfold_locales (blast intro: codes_chars)

interpretation string: codec put_string get_string "\<lambda>v. length v < 2 ^ 31" by unfold_locales (blast intro: codes_string)

lemma chunks_concat:
  "(\<And>x. length (f x) = k) \<Longrightarrow> chunks k (length xs) (concat (map f xs)) = map f xs"
  by (induction xs) simp_all

lemma length_concat_const: "(\<And>x. length (f x) = k) \<Longrightarrow> length (concat (map f xs)) = k * length xs"
  by (induction xs) simp_all

lemma codes_ints:
  assumes "4 * length v < 2 ^ 31" "\<forall>i\<in>set v. int_ok i"
  shows "\<exists>bs. codes put_ints get_ints v bs"
proof -
  define c where "c = (\<lambda>i. bytes_le 4 (unat (word_of_int i :: u32)))"
  have k: "length (c i) = 4" for i by (simp add: c_def)
  note l = length_concat_const [of c, OF k, of v]
  have s: "codes put_size get_size (length v) (bytes_le 8 (unat (of_nat (length v) :: u64)))"
    using assms by (intro codes_size) simp
  have r: "map ((\<lambda>c. sint (of_nat (nat_le c) :: u32)) \<circ> c) v = v"
    using assms(2) by (intro map_idI) (simp add: c_def nat_le_word sint_word_of_int)
  have b: "ob_raw_bytes (at pre (concat (map c v) @ post)) (4 * length v)
      = Some (concat (map c v), at (pre @ concat (map c v)) post)" for pre post
    using ob_raw_bytes_at [of "concat (map c v)"] l assms by simp
  show ?thesis
    using assms(1)
    by (intro exI [of _ "bytes_le 8 (unat (of_nat (length v) :: u64)) @ concat (map c v)"] codesI)
      (simp_all add: put_ints_def get_ints_def codesD [OF s] ib_raw_bytes_def b l chunks_concat [of c, OF k] r
        flip: c_def)
qed

lemma codes_u64s:
  assumes "8 * length v < 2 ^ 31"
  shows "\<exists>bs. codes put_u64s get_u64s v bs"
proof -
  define c where "c = (\<lambda>i. bytes_le 8 (unat (i :: u64)))"
  have k: "length (c i) = 8" for i by (simp add: c_def)
  note l = length_concat_const [of c, OF k, of v]
  have s: "codes put_size get_size (length v) (bytes_le 8 (unat (of_nat (length v) :: u64)))"
    using assms by (intro codes_size) simp
  have r: "map ((\<lambda>c. of_nat (nat_le c)) \<circ> c) v = v" by (intro map_idI) (simp add: c_def nat_le_word)
  have b: "ob_raw_bytes (at pre (concat (map c v) @ post)) (8 * length v)
      = Some (concat (map c v), at (pre @ concat (map c v)) post)" for pre post
    using ob_raw_bytes_at [of "concat (map c v)"] l assms by simp
  show ?thesis
    using assms(1)
    by (intro exI [of _ "bytes_le 8 (unat (of_nat (length v) :: u64)) @ concat (map c v)"] codesI)
      (simp_all add: put_u64s_def get_u64s_def codesD [OF s] ib_raw_bytes_def b l chunks_concat [of c, OF k] r
        flip: c_def)
qed

interpretation ints: codec put_ints get_ints "\<lambda>v. 4 * length v < 2 ^ 31 \<and> (\<forall>i\<in>set v. int_ok i)"
  by unfold_locales (blast intro: codes_ints)

interpretation u64s: codec put_u64s get_u64s "\<lambda>v. 8 * length v < 2 ^ 31"
  by unfold_locales (blast intro: codes_u64s)

locale two_codecs = a: codec put1 get1 ok1 + b: codec put2 get2 ok2
  for put1 :: "'a writer" and get1 and ok1 and put2 :: "'b writer" and get2 and ok2
begin

lemma codes_pair_of:
  assumes "codes put1 get1 (fst p) bs" "codes put2 get2 (snd p) cs"
  shows "codes (put_pair put1 put2) (get_pair get1 get2) p (bs @ cs)"
  by (rule codesI) (simp_all add: put_pair_def get_pair_def codesD [OF assms(1)] codesD [OF assms(2)])

lemma codes_pair: "ok1 (fst p) \<Longrightarrow> ok2 (snd p) \<Longrightarrow> \<exists>bs. codes (put_pair put1 put2) (get_pair get1 get2) p bs"
  using a.has_code b.has_code codes_pair_of by blast

end

sublocale two_codecs \<subseteq> pair: codec "put_pair put1 put2" "get_pair get1 get2" "\<lambda>p. ok1 (fst p) \<and> ok2 (snd p)"
  by unfold_locales (blast intro: codes_pair)

context codec
begin

lemma codes_all:
  assumes "\<forall>x\<in>set xs. ok x"
  shows "\<exists>bs. (\<forall>m. put_all put m xs = Some (m @ bs)) \<and>
    (\<forall>pre post. get_all get (length xs) (at pre (bs @ post)) = Some (xs, at (pre @ bs) post))"
  using assms
proof (induction xs)
  case (Cons x xs)
  obtain cs where c: "\<forall>m. put_all put m xs = Some (m @ cs)"
    "\<forall>pre post. get_all get (length xs) (at pre (cs @ post)) = Some (xs, at (pre @ cs) post)"
    using Cons by auto
  obtain bs where b: "codes put get x bs" using Cons.prems has_code by auto
  show ?case by (intro exI [of _ "bs @ cs"]) (simp add: c codesD [OF b])
qed simp

lemma codes_vector:
  assumes "length v < 2 ^ 64" "\<forall>x\<in>set v. ok x"
  shows "\<exists>bs. codes (put_vector put) (get_vector get) v bs"
proof -
  obtain cs where c: "\<forall>m. put_all put m v = Some (m @ cs)"
    "\<forall>pre post. get_all get (length v) (at pre (cs @ post)) = Some (v, at (pre @ cs) post)"
    using codes_all [OF assms(2)] by blast
  note s = codes_size [OF assms(1)]
  show ?thesis
    by (intro exI [of _ "bytes_le 8 (unat (of_nat (length v) :: u64)) @ cs"] codesI)
      (simp_all add: put_vector_def get_vector_def codesD [OF s] c)
qed

lemma vector_codec: "codec (put_vector put) (get_vector get) (\<lambda>v. length v < 2 ^ 64 \<and> (\<forall>x\<in>set v. ok x))"
  by unfold_locales (blast intro: codes_vector)

end

text \<open>The ordered containers are read back by insertion; on strictly increasing input this appends.\<close>

lemma ordered_set_insert_append: "\<forall>y\<in>set ys. y < x \<Longrightarrow> ordered_set_insert x ys = ys @ [x]"
  by (induction ys) auto

lemma ordered_map_insert_append: "\<forall>y\<in>fst ` set ys. y < k \<Longrightarrow> ordered_map_insert k v ys = ys @ [(k, v)]"
  by (induction ys) auto

lemma get_set_loop_all:
  "get_all get n s = Some (xs, s') \<Longrightarrow> sorted_wrt (<) (v @ xs) \<Longrightarrow> get_set_loop get n v s = Some (v @ xs, s')"
proof (induction get n s arbitrary: v xs rule: get_all.induct)
  case (2 get n s)
  then obtain x s1 ys where *: "get s = Some (x, s1)" "get_all get n s1 = Some (ys, s')" "xs = x # ys"
    by (auto split: bind_splits)
  have "ordered_set_insert x v = v @ [x]" using 2(3) * by (intro ordered_set_insert_append) (auto simp: sorted_wrt_append)
  then show ?case using 2(1) [OF * (1) refl *(2), of "v @ [x]"] 2(3) * by simp
qed simp

lemma get_map_loop_all:
  "get_all (get_pair getk getv) n s = Some (xs, s') \<Longrightarrow> sorted_wrt (<) (map fst (v @ xs)) \<Longrightarrow>
    get_map_loop getk getv n v s = Some (v @ xs, s')"
proof (induction n arbitrary: v xs s)
  case (Suc n)
  obtain p s2 ys where 1: "get_pair getk getv s = Some (p, s2)"
    "get_all (get_pair getk getv) n s2 = Some (ys, s')" "xs = p # ys"
    using Suc.prems(1) by (auto split: bind_splits)
  then obtain k x s1 where *: "getk s = Some (k, s1)" "getv s1 = Some (x, s2)"
    "get_all (get_pair getk getv) n s2 = Some (ys, s')" "xs = (k, x) # ys"
    by (auto simp: get_pair_def [of getk getv s] split: bind_splits)
  have "ordered_map_insert k x v = v @ [(k, x)]"
    using Suc.prems(2) * by (intro ordered_map_insert_append) (auto simp: sorted_wrt_append)
  then show ?case using Suc.IH [OF *(3), of "v @ [(k, x)]"] Suc.prems(2) * by simp
qed simp

context codec
begin

lemma codes_ordered:
  assumes "length v < 2 ^ 64" "\<forall>x\<in>set v. ok x"
  obtains bs where "\<And>m. put_vector put m v = Some (m @ bs)"
    and "\<And>pre post. \<exists>s. get_size (at pre (bs @ post)) = Some (length v, s) \<and>
      get_all get (length v) s = Some (v, at (pre @ bs) post)"
proof -
  obtain cs where c: "\<forall>m. put_all put m v = Some (m @ cs)"
    "\<forall>pre post. get_all get (length v) (at pre (cs @ post)) = Some (v, at (pre @ cs) post)"
    using codes_all [OF assms(2)] by blast
  note s = codes_size [OF assms(1)]
  show ?thesis
    by (rule that [of "bytes_le 8 (unat (of_nat (length v) :: u64)) @ cs"])
      (simp_all add: put_vector_def codesD [OF s] c)
qed

end

lemma codes_set:
  fixes put :: "'a::linorder writer"
  assumes "codec put get ok" "length v < 2 ^ 64" "\<forall>x\<in>set v. ok x" "sorted_wrt (<) v"
  shows "\<exists>bs. codes (put_vector put) (get_set get) v bs"
proof -
  obtain bs where b: "\<And>m. put_vector put m v = Some (m @ bs)"
    "\<And>pre post. \<exists>s. get_size (at pre (bs @ post)) = Some (length v, s) \<and>
      get_all get (length v) s = Some (v, at (pre @ bs) post)"
    using codec.codes_ordered [OF assms(1-3)] by blast
  show ?thesis
  proof (intro exI codesI)
    show "put_vector put m v = Some (m @ bs)" for m by (rule b(1))
    show "get_set get (at pre (bs @ post)) = Some (v, at (pre @ bs) post)" for pre post
      using b(2) [of pre post] get_set_loop_all [where v = "[]"] assms(4) by (auto simp: get_set_def)
  qed
qed

lemma codes_map:
  fixes putk :: "'k::linorder writer"
  assumes "two_codecs putk getk okk putv getv okv" "length v < 2 ^ 64" "\<forall>p\<in>set v. okk (fst p) \<and> okv (snd p)"
    "sorted_wrt (<) (map fst v)"
  shows "\<exists>bs. codes (put_map putk putv) (get_map getk getv) v bs"
proof -
  have c: "codec (put_pair putk putv) (get_pair getk getv) (\<lambda>p. okk (fst p) \<and> okv (snd p))"
    using two_codecs.codes_pair [OF assms(1)] by unfold_locales blast
  obtain bs where b: "\<And>m. put_vector (put_pair putk putv) m v = Some (m @ bs)"
    "\<And>pre post. \<exists>s. get_size (at pre (bs @ post)) = Some (length v, s) \<and>
      get_all (get_pair getk getv) (length v) s = Some (v, at (pre @ bs) post)"
    using codec.codes_ordered [OF c assms(2,3)] by blast
  show ?thesis
  proof (intro exI codesI)
    show "put_map putk putv m v = Some (m @ bs)" for m using b(1) by (simp add: put_map_def put_vector_def)
    show "get_map getk getv (at pre (bs @ post)) = Some (v, at (pre @ bs) post)" for pre post
      using b(2) [of pre post] get_map_loop_all [where v = "[]"] assms(4) by (auto simp: get_map_def)
  qed
qed

section \<open>Codecs of identifiers, values and enumerations\<close>

text \<open>A type that is written as the integer it is packed into has a codec because packing is reversible.\<close>

locale packed = codec putw getw "\<lambda>_. True"
  for putw :: "'w writer" and getw +
  fixes pack :: "'a \<Rightarrow> 'w"
    and unpack :: "'w \<Rightarrow> 'a"
    and putp :: "'a writer"
    and getp :: "'a reader"
  assumes unpack_pack: "unpack (pack a) = a"
    and putp_eq: "putp m a = putw m (pack a)"
    and getp_eq: "getp s = do { (v, s) \<leftarrow> getw s; Some (unpack v, s) }"
begin

lemma codes_packed: "\<exists>bs. codes putp getp a bs"
proof -
  obtain bs where "codes putw getw (pack a) bs" using has_code by blast
  then have "codes putp getp a bs" by (intro codesI) (simp_all add: putp_eq getp_eq codesD unpack_pack)
  then show ?thesis ..
qed

end

sublocale packed \<subseteq> packed: codec putp getp "\<lambda>_. True" by unfold_locales (rule codes_packed)

interpretation ptr_t: packed put_u64 get_u64 ptr_t_value uint2ptr_t put_ptr_t get_ptr_t
  by unfold_locales (simp_all add: ptr_t_roundtrip put_ptr_t_def get_ptr_t_def)

interpretation vid_t: packed put_u32 get_u32 vid_t_value uint2vid_t put_vid_t get_vid_t
  by unfold_locales (simp_all add: vid_t_roundtrip put_vid_t_def get_vid_t_def)

interpretation eid_t: packed put_u64 get_u64 eid_t_value uint2eid_t put_eid_t get_eid_t
  by unfold_locales (simp_all add: eid_t_roundtrip put_eid_t_def get_eid_t_def)

interpretation vpid_t: packed put_u64 get_u64 vpid_t_value uint2vpid_t put_vpid_t get_vpid_t
  by unfold_locales (simp_all add: vpid_t_roundtrip put_vpid_t_def get_vpid_t_def)

interpretation epid_t: packed put_u64 get_u64 epid_t_value uint2epid_t put_epid_t get_epid_t
  by unfold_locales (simp_all add: epid_t_roundtrip put_epid_t_def get_epid_t_def)

abbreviation value_ok :: "value_t \<Rightarrow> bool" where
  "value_ok v \<equiv> length (v_content v) < 2 ^ 31"

lemma codes_value_t:
  assumes "value_ok v"
  shows "\<exists>bs. codes put_value_t get_value_t v bs"
proof -
  obtain bs where b: "codes put_chars get_chars (v_content v) bs" using chars.has_code [OF assms] by blast
  show ?thesis
    by (intro exI [of _ "bs @ [v_type v]"] codesI)
      (simp_all add: put_value_t_def get_value_t_def codesD [OF b] codesD [OF codes_u8, simplified])
qed

interpretation value_t: codec put_value_t get_value_t value_ok by unfold_locales (rule codes_value_t)

lemma codes_kv_pair:
  assumes "value_ok (kv_value p)"
  shows "\<exists>bs. codes put_kv_pair get_kv_pair p bs"
proof -
  obtain bs where b: "codes put_value_t get_value_t (kv_value p) bs" using value_t.has_code [OF assms] by blast
  show ?thesis
    by (intro exI [of _ "bytes_le 4 (unat (kv_key p)) @ bs"] codesI)
      (simp_all add: put_kv_pair_def get_kv_pair_def codesD [OF codes_u32] codesD [OF b])
qed

interpretation kv_pair: codec put_kv_pair get_kv_pair "\<lambda>p. value_ok (kv_value p)" by unfold_locales (rule codes_kv_pair)

lemma codes_vp_list:
  assumes "length (vpl_pkeys p) < 2 ^ 64"
  shows "\<exists>bs. codes put_vp_list get_vp_list p bs"
proof -
  obtain bs where b: "codes put_vid_t get_vid_t (vpl_vid p) bs" using vid_t.codes_packed by blast
  obtain cs where c: "codes (put_vector put_u16) (get_vector get_u16) (vpl_pkeys p) cs"
    using u16.codes_vector [OF assms] by auto
  show ?thesis
    by (intro exI [of _ "bs @ cs"] codesI)
      (simp_all add: put_vp_list_def get_vp_list_def codesD [OF b] codesD [OF c])
qed

interpretation vp_list: codec put_vp_list get_vp_list "\<lambda>p. length (vpl_pkeys p) < 2 ^ 64"
  by unfold_locales (rule codes_vp_list)

lemma index_of_nth: "x \<in> set xs \<Longrightarrow> index_of x xs < length xs \<and> xs ! index_of x xs = x"
  by (induction xs) auto

lemma enum_cast_index_of: "x \<in> set xs \<Longrightarrow> enum_cast xs (int (index_of x xs)) = Some x"
  by (simp add: enum_cast_def index_of_nth)

lemma in_all_MSG_T: "t \<in> set all_MSG_T"
  by (cases t) (simp_all add: all_MSG_T_def)

lemma in_all_EXPERT_T: "t \<in> set all_EXPERT_T"
  by (cases t) (simp_all add: all_EXPERT_T_def)

lemma codes_enum:
  assumes "t \<in> set all" "length all < 2 ^ 31"
  shows "codes (\<lambda>m t. put_int m (int (index_of t all)))
    (\<lambda>s. do { (i, s) \<leftarrow> get_int s; t \<leftarrow> enum_cast all i; Some (t, s) }) t
    (bytes_le 4 (unat (word_of_int (int (index_of t all)) :: u32)))"
proof -
  have i: "codes put_int get_int (int (index_of t all)) (bytes_le 4 (unat (word_of_int (int (index_of t all)) :: u32)))"
    using index_of_nth [OF assms(1)] assms(2) by (intro codes_int) simp_all
  show ?thesis by (rule codesI) (simp_all add: codesD [OF i, simplified] enum_cast_index_of assms(1))
qed

interpretation MSG_T: codec put_MSG_T get_MSG_T "\<lambda>_. True"
proof (unfold_locales, rule exI)
  fix t
  show "codes put_MSG_T get_MSG_T t (bytes_le 4 (unat (word_of_int (int (index_of t all_MSG_T)) :: u32)))"
    using codes_enum [OF in_all_MSG_T, of t]
    unfolding put_MSG_T_def [abs_def] get_MSG_T_def [abs_def] by (simp add: all_MSG_T_def)
qed

interpretation EXPERT_T: codec put_EXPERT_T get_EXPERT_T "\<lambda>_. True"
proof (unfold_locales, rule exI)
  fix t
  show "codes put_EXPERT_T get_EXPERT_T t (bytes_le 4 (unat (word_of_int (int (index_of t all_EXPERT_T)) :: u32)))"
    using codes_enum [OF in_all_EXPERT_T, of t]
    unfolding put_EXPERT_T_def [abs_def] get_EXPERT_T_def [abs_def] by (simp add: all_EXPERT_T_def)
qed

end
