(* ===== verification/Exec_Plan.thy ===== *)
theory Exec_Plan
  imports Serialization
begin

text \<open>
  The execution plans: the steps of a query (src/expert/expert_object.cpp), the plan of a query and the plan of a
  transaction with the dependencies between its queries (src/core/exec_plan.cpp), and what the worker does with the
  plan when a query replies (src/driver/worker.hpp).

  The maps of a plan are lists of pairs in key order. Query numbers are bytes, the counters of open dependencies
  too: they wrap around. An access outside a vector is \<open>None\<close>.
\<close>

section \<open>Experts\<close>

record expert_object =
  ex_type :: EXPERT_T
  ex_params :: "value_t list"
  ex_next :: int
  ex_index :: int
  ex_send_remote :: bool

definition Expert_Object :: "EXPERT_T \<Rightarrow> expert_object" where
  "Expert_Object t = \<lparr>ex_type = t, ex_params = [], ex_next = -1, ex_index = 0, ex_send_remote = False\<rparr>"

text \<open>
  The constructors leave the index of an expert and the numbers of a query plan uninitialised; the model has 0 there.
  \<open>atof\<close> is the C library's conversion, as in the conversions of values.
\<close>

definition AddParam_int :: "int \<Rightarrow> expert_object \<Rightarrow> expert_object" where
  "AddParam_int key ex = ex\<lparr>ex_params := ex_params ex @ [str2int (int_str key) new_value]\<rparr>"

definition AddParam :: "(string \<Rightarrow> u64) \<Rightarrow> string \<Rightarrow> expert_object \<Rightarrow> (bool \<times> expert_object) option" where
  "AddParam atof s ex =
     do { (ok, v) \<leftarrow> str2value_t atof (trim s '' '') new_value;
          Some (if \<not> ok then (False, ex) else (True, ex\<lparr>ex_params := ex_params ex @ [v]\<rparr>)) }"

text \<open>\<open>index < params.size()\<close> compares as \<open>size_t\<close>, so a negative index is too large.\<close>

definition ModifyParam_int :: "int \<Rightarrow> int \<Rightarrow> expert_object \<Rightarrow> bool \<times> expert_object" where
  "ModifyParam_int key i ex =
     (let v = str2int (int_str key) new_value
      in if 0 \<le> i \<and> nat i < length (ex_params ex) then (True, ex\<lparr>ex_params := (ex_params ex)[nat i := v]\<rparr>)
         else (False, ex))"

definition ModifyParam :: "(string \<Rightarrow> u64) \<Rightarrow> string \<Rightarrow> int \<Rightarrow> expert_object \<Rightarrow> (bool \<times> expert_object) option" where
  "ModifyParam atof s i ex =
     do { (ok, v) \<leftarrow> str2value_t atof (trim s '' '') new_value;
          Some (if \<not> ok then (False, ex)
                else if 0 \<le> i \<and> nat i < length (ex_params ex) then (True, ex\<lparr>ex_params := (ex_params ex)[nat i := v]\<rparr>)
                else (False, ex)) }"

definition IsBarrier :: "EXPERT_T \<Rightarrow> bool" where
  "IsBarrier t =
     (t \<in> {E_AGGREGATE, E_COUNT, E_CAP, E_GROUP, E_DEDUP, E_MATH, E_ORDER, E_RANGE, E_COIN, E_END, E_POSTVALIDATION})"

definition put_Expert_Object :: "expert_object writer" where
  "put_Expert_Object m ex =
     do { m \<leftarrow> put_EXPERT_T m (ex_type ex); m \<leftarrow> put_int m (ex_index ex); m \<leftarrow> put_int m (ex_next ex);
          m \<leftarrow> put_bool m (ex_send_remote ex); put_vector put_value_t m (ex_params ex) }"

definition get_Expert_Object :: "expert_object reader" where
  "get_Expert_Object s =
     do { (t, s) \<leftarrow> get_EXPERT_T s; (i, s) \<leftarrow> get_int s; (n, s) \<leftarrow> get_int s; (r, s) \<leftarrow> get_bool s;
          (ps, s) \<leftarrow> get_vector get_value_t s;
          Some (\<lparr>ex_type = t, ex_params = ps, ex_next = n, ex_index = i, ex_send_remote = r\<rparr>, s) }"

section \<open>Plans of queries\<close>

record query_plan =
  qp_index :: u8
  qp_experts :: "expert_object list"
  qp_is_process :: bool
  qp_trxid :: u64
  qp_trx_type :: u8
  qp_st :: u64

definition put_QueryPlan :: "query_plan writer" where
  "put_QueryPlan m p =
     do { m \<leftarrow> put_u8 m (qp_index p); m \<leftarrow> put_vector put_Expert_Object m (qp_experts p);
          m \<leftarrow> put_bool m (qp_is_process p); m \<leftarrow> put_u8 m (qp_trx_type p); m \<leftarrow> put_u64 m (qp_trxid p);
          put_u64 m (qp_st p) }"

definition get_QueryPlan :: "query_plan reader" where
  "get_QueryPlan s =
     do { (i, s) \<leftarrow> get_u8 s; (es, s) \<leftarrow> get_vector get_Expert_Object s; (b, s) \<leftarrow> get_bool s; (ty, s) \<leftarrow> get_u8 s;
          (t, s) \<leftarrow> get_u64 s; (st, s) \<leftarrow> get_u64 s;
          Some (\<lparr>qp_index = i, qp_experts = es, qp_is_process = b, qp_trxid = t, qp_trx_type = ty, qp_st = st\<rparr>, s) }"

definition new_QueryPlan :: query_plan where
  "new_QueryPlan = \<lparr>qp_index = 0, qp_experts = [], qp_is_process = True, qp_trxid = 0, qp_trx_type = 0, qp_st = 0\<rparr>"

definition TRX_READONLY :: u8 where "TRX_READONLY = 0"
definition TRX_UPDATE :: u8 where "TRX_UPDATE = 1"
definition TRX_ADD :: u8 where "TRX_ADD = 2"
definition TRX_DELETE :: u8 where "TRX_DELETE = 4"

text \<open>In \<open>trx_type & TRX_ADD != 0\<close> the comparison binds first: the mask is the truth value of \<open>TRX_ADD != 0\<close>.\<close>

definition isTrxReadOnly :: "u8 \<Rightarrow> bool" where
  "isTrxReadOnly ty = (ty = TRX_READONLY)"

definition isTrxUpdate :: "u8 \<Rightarrow> bool" where
  "isTrxUpdate ty = (ty AND (if TRX_UPDATE \<noteq> 0 then 1 else 0) \<noteq> 0)"

definition isTrxAdd :: "u8 \<Rightarrow> bool" where
  "isTrxAdd ty = (ty AND (if TRX_ADD \<noteq> 0 then 1 else 0) \<noteq> 0)"

definition isTrxDelete :: "u8 \<Rightarrow> bool" where
  "isTrxDelete ty = (ty AND (if TRX_DELETE \<noteq> 0 then 1 else 0) \<noteq> 0)"

section \<open>Plans of transactions\<close>

datatype position_t = position_t (pos_query: int) (pos_expert: int) (pos_param: int)

record trx_plan =
  tp_trxid :: u64
  tp_client_host :: string
  tp_start_time :: u64
  tp_st :: u64
  tp_trx_type :: u8
  tp_is_abort :: bool
  tp_is_end :: bool
  tp_plans :: "query_plan list"
  tp_deps :: "(u8 \<times> u8) list"
  tp_topo :: "(u8 \<times> u8 list) list"
  tp_place :: "(u8 \<times> position_t list) list"
  tp_results :: "(int \<times> value_t list) list"

definition new_TrxPlan :: "u64 \<Rightarrow> string \<Rightarrow> u64 \<Rightarrow> trx_plan" where
  "new_TrxPlan t host now = \<lparr>tp_trxid = t, tp_client_host = host, tp_start_time = now, tp_st = 0,
     tp_trx_type = TRX_READONLY, tp_is_abort = False, tp_is_end = False, tp_plans = [], tp_deps = [], tp_topo = [],
     tp_place = [], tp_results = []\<rparr>"

text \<open>\<open>m[k]\<close> on a map: the value, or the default value which the access inserts.\<close>

definition map_at :: "('k \<times> 'v) list \<Rightarrow> 'k \<Rightarrow> 'v \<Rightarrow> 'v" where
  "map_at l k d = (case map_of l k of None \<Rightarrow> d | Some v \<Rightarrow> v)"

definition SetST :: "u64 \<Rightarrow> trx_plan \<Rightarrow> trx_plan" where
  "SetST st p = p\<lparr>tp_st := st\<rparr>"

definition RegDependency :: "u8 \<Rightarrow> u8 \<Rightarrow> trx_plan \<Rightarrow> trx_plan" where
  "RegDependency src dst p =
     (let kids = map_at (tp_topo p) src [];
          p' = p\<lparr>tp_topo := ordered_map_insert src (ordered_set_insert dst kids) (tp_topo p)\<rparr>
      in if dst \<notin> set kids then p'\<lparr>tp_deps := ordered_map_insert dst (map_at (tp_deps p) dst 0 + 1) (tp_deps p)\<rparr>
         else p')"

definition RegPlaceHolder :: "u8 \<Rightarrow> u8 \<Rightarrow> int \<Rightarrow> int \<Rightarrow> trx_plan \<Rightarrow> trx_plan" where
  "RegPlaceHolder src dst expert_index param_index p =
     RegDependency src dst
       (p\<lparr>tp_place := ordered_map_insert src
          (map_at (tp_place p) src [] @ [position_t (uint dst) expert_index param_index]) (tp_place p)\<rparr>)"

definition Abort :: "trx_plan \<Rightarrow> trx_plan option" where
  "Abort p =
     (if tp_is_abort p then Some p
      else do {
        CHECK (tp_plans p \<noteq> []);
        let i = length (tp_plans p) - 1;
        let plan = tp_plans p ! i;
        CHECK (2 \<le> length (qp_experts plan));
        Some (p\<lparr>tp_is_abort := True, tp_plans := (tp_plans p)[i := plan\<lparr>qp_experts := drop 2 (qp_experts plan)\<rparr>],
                tp_deps := [(of_nat i, 0)]\<rparr>) })"

text \<open>
  One placeholder of \<open>FillResult\<close>. The position is changed in place when it says \<open>-1\<close>. The result is whether
  the transaction goes on.
\<close>

definition fill_position :: "value_t list \<Rightarrow> trx_plan \<Rightarrow> position_t \<Rightarrow> (bool \<times> position_t \<times> trx_plan) option" where
  "fill_position vec p pos =
     do { CHECK (0 \<le> pos_query pos \<and> nat (pos_query pos) < length (tp_plans p));
          let plan = tp_plans p ! nat (pos_query pos);
          CHECK (0 \<le> pos_expert pos \<and> nat (pos_expert pos) < length (qp_experts plan));
          let ex = qp_experts plan ! nat (pos_expert pos);
          let prm = (if pos_param pos = -1 then int (length (ex_params ex)) else pos_param pos);
          let pos' = position_t (pos_query pos) (pos_expert pos) prm;
          let set_params = (\<lambda>ps. p\<lparr>tp_plans := (tp_plans p)[nat (pos_query pos) :=
                plan\<lparr>qp_experts := (qp_experts plan)[nat (pos_expert pos) := ex\<lparr>ex_params := ps\<rparr>]\<rparr>]\<rparr>);
          if ex_type ex = E_INIT then
            do { CHECK (0 \<le> prm \<and> nat prm \<le> length (ex_params ex));
                 Some (True, pos', set_params (take (nat prm) (ex_params ex) @ vec @ drop (nat prm) (ex_params ex))) }
          else if ex_type ex = E_ADDE then
            (if length vec = 1
             then do { CHECK (0 \<le> prm \<and> nat prm < length (ex_params ex));
                       Some (True, pos', set_params ((ex_params ex)[nat prm := vec ! 0])) }
             else do { p' \<leftarrow> Abort p; Some (False, pos', p') })
          else Some (True, pos', p) }"

fun fill_positions :: "value_t list \<Rightarrow> trx_plan \<Rightarrow> position_t list \<Rightarrow> (bool \<times> position_t list \<times> trx_plan) option" where
  "fill_positions vec p [] = Some (True, [], p)"
| "fill_positions vec p (pos # ps) =
     do { (ok, pos, p) \<leftarrow> fill_position vec p pos;
          if ok then do { (ok, ps, p) \<leftarrow> fill_positions vec p ps; Some (ok, pos # ps, p) }
          else Some (False, pos # ps, p) }"

definition dec_dep :: "u8 \<Rightarrow> (u8 \<times> u8) list \<Rightarrow> (u8 \<times> u8) list" where
  "dec_dep i deps = ordered_map_insert i (map_at deps i 0 - 1) deps"

text \<open>The comparison of the \<open>int\<close> query number with \<open>query_plans_.size() - 1\<close> is one of 64-bit numbers.\<close>

definition is_last_query :: "trx_plan \<Rightarrow> int \<Rightarrow> bool" where
  "is_last_query p q = ((word_of_int q :: u64) = of_nat (length (tp_plans p)) - 1)"

definition result_header :: "trx_plan \<Rightarrow> int \<Rightarrow> value_t list \<Rightarrow> value_t option" where
  "result_header p q vec =
     (if is_last_query p q
      then (case vec of [] \<Rightarrow> None | v # _ \<Rightarrow> map_option (\<lambda>s. str2str (''Status: '' @ s) new_value) (DebugString v))
      else Some (str2str (''Query '' @ int_str (q + 1) @ '': '' @ (if vec = [] then ''Empty'' else '''')) new_value))"

definition add_results :: "int \<Rightarrow> value_t list \<Rightarrow> trx_plan \<Rightarrow> trx_plan" where
  "add_results q vs p = p\<lparr>tp_results := ordered_map_insert q (map_at (tp_results p) q [] @ vs) (tp_results p)\<rparr>"

definition FillResult :: "int \<Rightarrow> value_t list \<Rightarrow> trx_plan \<Rightarrow> (bool \<times> trx_plan) option" where
  "FillResult q vec p =
     do { let key = (word_of_int q :: u8);
          (ok, ps, p) \<leftarrow> fill_positions vec p (map_at (tp_place p) key []);
          let p = p\<lparr>tp_place := ordered_map_insert key ps (tp_place p)\<rparr>;
          if \<not> ok then Some (False, p)
          else do {
            let p = (if tp_is_abort p then p
                     else p\<lparr>tp_deps := fold dec_dep (map_at (tp_topo p) key []) (tp_deps p)\<rparr>);
            p \<leftarrow> (if q \<noteq> -1 \<and> map_of (tp_results p) q = None
                  then do { h \<leftarrow> result_header p q vec; Some (add_results q [h] p) } else Some p);
            let p = (if (q = -1 \<or> \<not> is_last_query p q) \<and> vec \<noteq> [] then add_results q vec p else p);
            Some (True, if is_last_query p q \<or> q = -1 then p\<lparr>tp_is_end := True\<rparr> else p) } }"

definition send_query :: "trx_plan \<Rightarrow> u8 \<Rightarrow> (query_plan \<times> trx_plan) option" where
  "send_query p i =
     do { CHECK (unat i < length (tp_plans p));
          let plan = (tp_plans p ! unat i)\<lparr>qp_index := i, qp_trxid := tp_trxid p, qp_st := tp_st p, qp_trx_type := tp_trx_type p\<rparr>;
          Some (plan, p\<lparr>tp_plans := (tp_plans p)[unat i := plan\<lparr>qp_experts := []\<rparr>]\<rparr>) }"

fun next_queries_loop :: "trx_plan \<Rightarrow> (u8 \<times> u8) list \<Rightarrow> (query_plan list \<times> (u8 \<times> u8) list \<times> trx_plan) option" where
  "next_queries_loop p [] = Some ([], [], p)"
| "next_queries_loop p ((i, c) # r) =
     (if c = 0 then do { (q, p) \<leftarrow> send_query p i; (qs, deps, p) \<leftarrow> next_queries_loop p r; Some (q # qs, deps, p) }
      else do { (qs, deps, p) \<leftarrow> next_queries_loop p r; Some (qs, (i, c) # deps, p) })"

definition NextQueries :: "trx_plan \<Rightarrow> (bool \<times> query_plan list \<times> trx_plan) option" where
  "NextQueries p =
     (if tp_is_end p then Some (False, [], p)
      else do { (qs, deps, p) \<leftarrow> next_queries_loop p (tp_deps p); Some (True, qs, p\<lparr>tp_deps := deps\<rparr>) })"

definition GetResult :: "trx_plan \<Rightarrow> value_t list" where
  "GetResult p = concat (map snd (tp_results p))"

section \<open>Replies at the worker\<close>

datatype ReplyType = RESULT_NORMAL | RESULT_ABORT

text \<open>
  What the worker does with the plan when a query replies: it fills the result in, aborts the plan if the query
  aborted, and takes the next queries. The first component says whether the status of the transaction is set to
  aborted, the second what \<open>NextQueries\<close> returns.
\<close>

definition worker_reply :: "ReplyType \<Rightarrow> u8 \<Rightarrow> value_t list \<Rightarrow> trx_plan \<Rightarrow> (bool \<times> (bool \<times> query_plan list) \<times> trx_plan) option" where
  "worker_reply ty qid results p =
     do { (set_abort, p) \<leftarrow> (case ty of
              RESULT_ABORT \<Rightarrow> do { (_, p) \<leftarrow> FillResult (uint qid) results p; p \<leftarrow> Abort p; Some (False, p) }
            | RESULT_NORMAL \<Rightarrow> do { (ok, p) \<leftarrow> FillResult (uint qid) results p; Some (\<not> ok, p) });
          (more, qs, p) \<leftarrow> NextQueries p;
          Some (set_abort, (more, qs), p) }"

section \<open>Dependencies the parser registers\<close>

text \<open>
  After each line of a transaction the parser registers the dependencies of its query: an updating query waits for
  all queries from the last updating one on, a reading one for the last updating query. The commit statement at the
  end waits like an update.
\<close>

definition reg_range :: "u8 \<Rightarrow> u8 \<Rightarrow> trx_plan \<Rightarrow> trx_plan" where
  "reg_range begin line = fold (\<lambda>i. RegDependency (of_nat i) line) [unat begin ..< unat line]"

definition begin_line :: "u8 \<Rightarrow> trx_plan \<Rightarrow> trx_plan" where
  "begin_line line p = p\<lparr>tp_deps := ordered_map_insert line 0 (tp_deps p)\<rparr>"

definition register_line :: "u8 \<Rightarrow> bool \<Rightarrow> int \<Rightarrow> trx_plan \<Rightarrow> int \<times> trx_plan" where
  "register_line line is_read_only last_update p =
     (if \<not> is_read_only
      then (let begin = (if last_update > 0 then word_of_int last_update else 0) in (uint line, reg_range begin line p))
      else if last_update \<ge> 0 then (last_update, RegDependency (word_of_int last_update) line p)
      else (last_update, p))"

definition commit_experts :: "expert_object list" where
  "commit_experts = [Expert_Object E_VALIDATION\<lparr>ex_next := 1\<rparr>, Expert_Object E_POSTVALIDATION\<lparr>ex_next := 2\<rparr>,
     Expert_Object E_TERMINATE\<lparr>ex_next := 3\<rparr>]"

definition AddCommitStatement :: "u8 \<Rightarrow> int \<Rightarrow> trx_plan \<Rightarrow> trx_plan option" where
  "AddCommitStatement line last_update p =
     do { CHECK (unat line < length (tp_plans p));
          let p = p\<lparr>tp_plans := (tp_plans p)[unat line :=
            (tp_plans p ! unat line)\<lparr>qp_experts := commit_experts, qp_is_process := False\<rparr>]\<rparr>;
          let begin = (if last_update > 0 then word_of_int last_update else 0);
          Some (reg_range begin line (begin_line line p)) }"

section \<open>Codecs\<close>

abbreviation expert_ok :: "expert_object \<Rightarrow> bool" where
  "expert_ok ex \<equiv> int_ok (ex_index ex) \<and> int_ok (ex_next ex) \<and> length (ex_params ex) < 2 ^ 64 \<and>
     (\<forall>v\<in>set (ex_params ex). value_ok v)"

abbreviation plan_ok :: "query_plan \<Rightarrow> bool" where
  "plan_ok p \<equiv> length (qp_experts p) < 2 ^ 64 \<and> (\<forall>ex\<in>set (qp_experts p). expert_ok ex)"

lemma codes_Expert_Object:
  assumes "expert_ok ex"
  shows "\<exists>bs. codes put_Expert_Object get_Expert_Object ex bs"
proof -
  obtain b1 where 1: "codes put_EXPERT_T get_EXPERT_T (ex_type ex) b1" using EXPERT_T.has_code by blast
  obtain b2 where 2: "codes put_int get_int (ex_index ex) b2" using int.has_code assms by blast
  obtain b3 where 3: "codes put_int get_int (ex_next ex) b3" using int.has_code assms by blast
  obtain b4 where 4: "codes put_bool get_bool (ex_send_remote ex) b4" using codes_bool by blast
  obtain b5 where 5: "codes (put_vector put_value_t) (get_vector get_value_t) (ex_params ex) b5"
    using value_t.codes_vector assms by blast
  show ?thesis
    by (intro exI [of _ "b1 @ b2 @ b3 @ b4 @ b5"] codesI)
      (simp_all add: put_Expert_Object_def get_Expert_Object_def codesD [OF 1] codesD [OF 2] codesD [OF 3]
        codesD [OF 4] codesD [OF 5])
qed

interpretation Expert_Object: codec put_Expert_Object get_Expert_Object expert_ok
  by unfold_locales (rule codes_Expert_Object)

lemma codes_QueryPlan:
  assumes "plan_ok p"
  shows "\<exists>bs. codes put_QueryPlan get_QueryPlan p bs"
proof -
  obtain b1 where 1: "codes put_u8 get_u8 (qp_index p) b1" using codes_u8 by blast
  obtain b2 where 2: "codes (put_vector put_Expert_Object) (get_vector get_Expert_Object) (qp_experts p) b2"
    using Expert_Object.codes_vector assms by blast
  obtain b3 where 3: "codes put_bool get_bool (qp_is_process p) b3" using codes_bool by blast
  obtain b4 where 4: "codes put_u8 get_u8 (qp_trx_type p) b4" using codes_u8 by blast
  obtain b5 where 5: "codes put_u64 get_u64 (qp_trxid p) b5" using codes_u64 by blast
  obtain b6 where 6: "codes put_u64 get_u64 (qp_st p) b6" using codes_u64 by blast
  show ?thesis
    by (intro exI [of _ "b1 @ b2 @ b3 @ b4 @ b5 @ b6"] codesI)
      (simp_all add: put_QueryPlan_def get_QueryPlan_def codesD [OF 1] codesD [OF 2] codesD [OF 3] codesD [OF 4]
        codesD [OF 5] codesD [OF 6])
qed

interpretation QueryPlan: codec put_QueryPlan get_QueryPlan plan_ok
  by unfold_locales (rule codes_QueryPlan)

text \<open>All three tests of the type of a transaction test the bit of updates.\<close>

lemma isTrx_tests_update_bit: "isTrxAdd ty = isTrxUpdate ty" "isTrxDelete ty = isTrxUpdate ty"
  by (simp_all add: isTrxAdd_def isTrxDelete_def isTrxUpdate_def TRX_ADD_def TRX_DELETE_def TRX_UPDATE_def)

end
