(* ===== verification/Plan_Schedule.thy ===== *)
theory Plan_Schedule
  imports Exec_Plan
begin

text \<open>
  The order in which the queries of a transaction run: a plan the parser built, driven by \<open>NextQueries\<close> and
  \<open>FillResult\<close> (src/core/exec_plan.cpp), sends every query once and only after the queries it depends on, commits
  last and never gets stuck.
\<close>

section \<open>Ordered maps\<close>

abbreviation sorted_keys :: "('k::linorder \<times> 'v) list \<Rightarrow> bool" where
  "sorted_keys l \<equiv> sorted_wrt (<) (map fst l)"

lemma fst_ordered_map_insert: "fst ` set (ordered_map_insert k v l) = insert k (fst ` set l)"
  by (induction k v l rule: ordered_map_insert.induct) auto

lemma sorted_keys_insert: "sorted_keys l \<Longrightarrow> sorted_keys (ordered_map_insert k v l)"
proof (induction k v l rule: ordered_map_insert.induct)
  case (2 k v k' v' r)
  have "\<forall>y\<in>fst ` set (ordered_map_insert k v r). k' < y" if "k' < k"
    using 2(2) that unfolding fst_ordered_map_insert by simp
  then show ?case using 2 by auto
qed simp

lemma map_of_ordered_map_insert: "sorted_keys l \<Longrightarrow> map_of (ordered_map_insert k v l) = (map_of l)(k \<mapsto> v)"
  by (induction k v l rule: ordered_map_insert.induct) (auto simp: fun_eq_iff)

lemma set_ordered_set_insert: "set (ordered_set_insert x ys) = insert x (set ys)"
  by (induction x ys rule: ordered_set_insert.induct) auto

lemma sorted_ordered_set_insert: "sorted_wrt (<) ys \<Longrightarrow> sorted_wrt (<) (ordered_set_insert x ys)"
proof (induction x ys rule: ordered_set_insert.induct)
  case (2 x y ys)
  then show ?case by (auto simp: set_ordered_set_insert)
qed simp

lemma map_of_in_keys: "k \<in> fst ` set l \<longleftrightarrow> (\<exists>v. map_of l k = Some v)"
  by (metis map_of_eq_None_iff not_Some_eq)

lemma sorted_keys_map_of: "sorted_keys l \<Longrightarrow> (k, v) \<in> set l \<longleftrightarrow> map_of l k = Some v"
  using strict_sorted_iff distinct_map [of fst l] map_of_is_SomeI [of l k v] map_of_SomeD [of l k v] by blast

lemma sorted_keys_filter: "sorted_keys l \<Longrightarrow> sorted_keys (filter P l)"
  by (induction l) auto

section \<open>The state of the schedule\<close>

text \<open>
  \<open>depends p d q\<close>: query \<open>q\<close> waits for query \<open>d\<close>. \<open>schedule p W D\<close> relates the plan to the abstract state of the
  schedule: \<open>W\<close> are the queries not sent yet, \<open>D\<close> those that have replied. The counter of a waiting query is the
  number of its dependencies that have not replied.
\<close>

definition depends :: "trx_plan \<Rightarrow> u8 \<Rightarrow> u8 \<Rightarrow> bool" where
  "depends p d q \<longleftrightarrow> q \<in> set (map_at (tp_topo p) d [])"

definition open_deps :: "trx_plan \<Rightarrow> u8 set \<Rightarrow> u8 \<Rightarrow> u8 set" where
  "open_deps p D q = {d. depends p d q \<and> d \<notin> D}"

definition topo_ok :: "trx_plan \<Rightarrow> bool" where
  "topo_ok p \<longleftrightarrow> sorted_keys (tp_topo p) \<and> (\<forall>d. sorted_wrt (<) (map_at (tp_topo p) d [])) \<and>
     (\<forall>d q. depends p d q \<longrightarrow> d < q)"

definition schedule :: "trx_plan \<Rightarrow> u8 set \<Rightarrow> u8 set \<Rightarrow> bool" where
  "schedule p W D \<longleftrightarrow> topo_ok p \<and> sorted_keys (tp_deps p) \<and> fst ` set (tp_deps p) = W \<and>
     (\<forall>q\<in>W. unat q < length (tp_plans p) \<and> map_of (tp_deps p) q = Some (of_nat (card (open_deps p D q)))) \<and>
     (\<forall>d q. depends p d q \<and> d \<notin> D \<longrightarrow> q \<in> W) \<and> \<not> tp_is_abort p"

lemma card_open_deps: "topo_ok p \<Longrightarrow> card (open_deps p D q) < 256"
proof -
  assume "topo_ok p"
  then have "q \<notin> open_deps p D q" by (auto simp: open_deps_def topo_ok_def)
  then have "open_deps p D q \<subset> UNIV" by blast
  then have "card (open_deps p D q) < card (UNIV :: u8 set)" by (intro psubset_card_mono) simp_all
  then show ?thesis by (simp add: card_word)
qed

lemma count_zero: "topo_ok p \<Longrightarrow> (of_nat (card (open_deps p D q)) :: u8) = 0 \<longleftrightarrow> open_deps p D q = {}"
  using card_open_deps [of p D q] of_nat_word_inject [of "card (open_deps p D q)" 0, where 'a = 8] by simp

section \<open>Sending queries\<close>

definition prepared :: "trx_plan \<Rightarrow> u8 \<Rightarrow> query_plan" where
  "prepared p i = (tp_plans p ! unat i)\<lparr>qp_index := i, qp_trxid := tp_trxid p, qp_st := tp_st p, qp_trx_type := tp_trx_type p\<rparr>"

definition ready :: "(u8 \<times> u8) list \<Rightarrow> u8 list" where
  "ready l = map fst (filter (\<lambda>(i, c). c = 0) l)"

definition sent_out :: "u8 list \<Rightarrow> trx_plan \<Rightarrow> query_plan list" where
  "sent_out is p = fold (\<lambda>i ps. ps[unat i := prepared p i\<lparr>qp_experts := []\<rparr>]) is (tp_plans p)"

lemma nth_fold_update:
  "k \<notin> unat ` set is \<Longrightarrow> fold (\<lambda>i ps. ps[unat (i::u8) := f i]) is ps ! k = ps ! k"
  by (induction "is" arbitrary: ps) auto

lemma length_fold_update [simp]: "length (fold (\<lambda>i ps. ps[unat (i::u8) := f i]) is ps) = length ps"
  by (induction "is" arbitrary: ps) simp_all

lemma next_queries_loop_ready:
  assumes "distinct (map fst l)" "\<forall>(i, c)\<in>set l. unat i < length (tp_plans p)"
  shows "next_queries_loop p l = Some (map (prepared p) (ready l), filter (\<lambda>(i, c). c \<noteq> 0) l,
    p\<lparr>tp_plans := sent_out (ready l) p\<rparr>)"
  using assms
proof (induction p l rule: next_queries_loop.induct)
  case (1 p)
  then show ?case by (simp add: ready_def sent_out_def)
next
  case (2 p i c r)
  show ?case
  proof (cases "c = 0")
    case True
    define q where "q = prepared p i"
    define p1 where "p1 = p\<lparr>tp_plans := (tp_plans p)[unat i := q\<lparr>qp_experts := []\<rparr>]\<rparr>"
    have s: "send_query p i = Some (q, p1)"
      using 2(4) by (simp add: send_query_def q_def p1_def prepared_def Let_def)
    have e: "prepared p1 j = prepared p j" if "j \<in> set (ready r)" for j
    proof -
      have "j \<noteq> i" using that 2(3) by (force simp: ready_def)
      then have "unat i \<noteq> unat j" by (simp add: word_unat_eq_iff)
      then show ?thesis by (simp add: prepared_def p1_def)
    qed
    have o: "sent_out (ready r) p1 = sent_out (i # ready r) p"
      using e by (simp add: sent_out_def p1_def q_def cong: fold_cong)
    have n: "next_queries_loop p1 r = Some (map (prepared p1) (ready r), filter (\<lambda>(i, c). c \<noteq> 0) r,
        p1\<lparr>tp_plans := sent_out (ready r) p1\<rparr>)"
      using 2(3,4) by (intro 2(1) [OF True s refl]) (auto simp: p1_def)
    have "ready ((i, c) # r) = i # ready r" using True by (simp add: ready_def)
    then show ?thesis using True s n e o by (simp add: q_def) (simp add: p1_def)
  next
    case False
    then show ?thesis using 2 by (simp add: ready_def)
  qed
qed

lemma schedule_keys: "schedule p W D \<Longrightarrow> q \<in> W \<longleftrightarrow> (\<exists>c. (q, c) \<in> set (tp_deps p))"
proof -
  assume "schedule p W D"
  then have "W = fst ` set (tp_deps p)" by (simp add: schedule_def)
  then show ?thesis by force
qed

lemma ready_schedule:
  assumes "schedule p W D"
  shows "set (ready (tp_deps p)) = {q\<in>W. open_deps p D q = {}}"
proof -
  have "(q, 0) \<in> set (tp_deps p) \<longleftrightarrow> q \<in> W \<and> open_deps p D q = {}" for q
    using assms count_zero [of p D q] sorted_keys_map_of [of "tp_deps p"] schedule_keys [OF assms, of q]
    unfolding schedule_def by (metis option.inject)
  then show ?thesis by (auto simp: ready_def image_iff)
qed

lemma NextQueries_schedule:
  assumes s: "schedule p W D" and e: "\<not> tp_is_end p"
  defines "rs \<equiv> ready (tp_deps p)"
  obtains p' where "NextQueries p = Some (True, map (prepared p) rs, p')"
    and "schedule p' (W - set rs) D" and "tp_topo p' = tp_topo p" and "tp_is_end p' = tp_is_end p"
    and "length (tp_plans p') = length (tp_plans p)"
proof -
  define p' where "p' = p\<lparr>tp_plans := sent_out rs p, tp_deps := filter (\<lambda>(i, c). c \<noteq> 0) (tp_deps p)\<rparr>"
  have d: "distinct (map fst (tp_deps p))" using s strict_sorted_iff by (auto simp: schedule_def)
  have b: "\<forall>(i, c)\<in>set (tp_deps p). unat i < length (tp_plans p)" using s by (force simp: schedule_def)
  have n: "NextQueries p = Some (True, map (prepared p) rs, p')"
    using next_queries_loop_ready [OF d b] e by (simp add: NextQueries_def p'_def rs_def)
  have t: "topo_ok p' = topo_ok p" "depends p' = depends p" "open_deps p' = open_deps p"
    by (simp_all add: p'_def topo_ok_def depends_def [abs_def] open_deps_def [abs_def])
  have k: "q \<in> fst ` set (tp_deps p') \<longleftrightarrow> q \<in> W - set rs" for q
    using d schedule_keys [OF s, of q] eq_key_imp_eq_value [OF d, of q]
    by (force simp: p'_def rs_def ready_def image_iff)
  have m: "map_of (tp_deps p') q = map_of (tp_deps p) q" if "q \<in> W - set rs" for q
  proof -
    have sp: "sorted_keys (tp_deps p)" using s by (simp add: schedule_def)
    have "q \<in> fst ` set (tp_deps p')" using k that by blast
    then obtain c where c: "(q, c) \<in> set (tp_deps p')" by force
    then have "(q, c) \<in> set (tp_deps p)" by (simp add: p'_def)
    moreover have "sorted_keys (tp_deps p')" using sp by (simp add: p'_def sorted_keys_filter)
    ultimately show ?thesis using sorted_keys_map_of [OF sp, of q c] sorted_keys_map_of [of "tp_deps p'" q c] c by simp
  qed
  have "schedule p' (W - set rs) D"
    unfolding schedule_def t
  proof (intro conjI)
    show "topo_ok p" "\<not> tp_is_abort p'" using s by (simp_all add: schedule_def p'_def)
    show "sorted_keys (tp_deps p')" using s by (simp add: schedule_def p'_def sorted_keys_filter)
    show "fst ` set (tp_deps p') = W - set rs" using k by blast
    show "\<forall>q\<in>W - set rs. unat q < length (tp_plans p') \<and>
        map_of (tp_deps p') q = Some (of_nat (card (open_deps p D q)))"
      using m s by (auto simp: schedule_def p'_def sent_out_def)
    show "\<forall>d q. depends p d q \<and> d \<notin> D \<longrightarrow> q \<in> W - set rs"
      using s ready_schedule [OF s] by (auto simp: schedule_def rs_def open_deps_def)
  qed
  then show ?thesis using n by (intro that [of p']) (simp_all add: p'_def sent_out_def)
qed


section \<open>Filling in results\<close>

lemma fill_position_frame:
  assumes "fill_position vec p pos = Some (True, pos', p')"
  shows "tp_deps p' = tp_deps p \<and> tp_topo p' = tp_topo p \<and> tp_is_abort p' = tp_is_abort p \<and>
    length (tp_plans p') = length (tp_plans p) \<and> tp_is_end p' = tp_is_end p"
  using assms
  by (auto simp: fill_position_def Let_def Option.bind_eq_Some_conv split: if_split_asm)

lemma fill_positions_frame:
  assumes "fill_positions vec p ps = Some (True, ps', p')"
  shows "tp_deps p' = tp_deps p \<and> tp_topo p' = tp_topo p \<and> tp_is_abort p' = tp_is_abort p \<and>
    length (tp_plans p') = length (tp_plans p) \<and> tp_is_end p' = tp_is_end p"
  using assms
proof (induction vec p ps arbitrary: ps' rule: fill_positions.induct)
  case (2 vec p pos ps)
  obtain pos1 p1 ps1 where 1: "fill_position vec p pos = Some (True, pos1, p1)"
    "fill_positions vec p1 ps = Some (True, ps1, p')"
    using 2(2) by (auto split: bind_splits if_splits)
  show ?case using fill_position_frame [OF 1(1)] 2(1) [OF 1(1) refl refl _ 1(2)] by simp
qed simp

definition after_reply :: "trx_plan \<Rightarrow> u8 \<Rightarrow> (u8 \<times> u8) list" where
  "after_reply p q = fold dec_dep (map_at (tp_topo p) q []) (tp_deps p)"

lemma FillResult_frame:
  assumes "FillResult (uint q) vec p = Some (True, p')" "\<not> tp_is_abort p"
  shows "tp_deps p' = after_reply p q \<and> tp_topo p' = tp_topo p \<and> \<not> tp_is_abort p' \<and>
    length (tp_plans p') = length (tp_plans p) \<and> (tp_is_end p' \<longleftrightarrow> tp_is_end p \<or> is_last_query p (uint q))"
proof -
  have q: "uint q \<noteq> -1" using uint_ge_0 [of q] by linarith
  obtain ps p1 where f: "fill_positions vec p (map_at (tp_place p) q []) = Some (True, ps, p1)"
    using assms(1) by (auto simp: FillResult_def Let_def split: bind_splits if_splits)
  note fr = fill_positions_frame [OF f]
  then have l: "is_last_query p1 = is_last_query p" by (simp add: is_last_query_def [abs_def])
  show ?thesis using assms f fr q
    by (auto simp: FillResult_def Let_def add_results_def after_reply_def is_last_query_def split: bind_splits if_splits)
qed

lemma fold_dec_dep:
  assumes "sorted_keys deps" "distinct ks" "set ks \<subseteq> fst ` set deps"
  shows "sorted_keys (fold dec_dep ks deps) \<and> fst ` set (fold dec_dep ks deps) = fst ` set deps \<and>
    map_of (fold dec_dep ks deps) q = map_option (\<lambda>c. if q \<in> set ks then c - 1 else c) (map_of deps q)"
  using assms
proof (induction ks arbitrary: deps)
  case Nil
  then show ?case by (simp add: option.map_ident)
next
  case (Cons k ks)
  have k: "k \<in> fst ` set deps" using Cons.prems by simp
  then obtain c where c: "map_of deps k = Some c" unfolding map_of_in_keys by (elim exE)
  have d: "dec_dep k deps = ordered_map_insert k (c - 1) deps" by (simp add: dec_dep_def map_at_def c)
  have s: "sorted_keys (dec_dep k deps)" using Cons.prems by (simp add: d sorted_keys_insert)
  have f: "fst ` set (dec_dep k deps) = fst ` set deps" using k by (auto simp: d fst_ordered_map_insert)
  have m: "map_of (dec_dep k deps) = (map_of deps)(k \<mapsto> c - 1)" using Cons.prems by (simp add: d map_of_ordered_map_insert)
  show ?case using Cons.IH [OF s] Cons.prems f m c by (cases "q = k") auto
qed

lemma open_deps_insert:
  "open_deps p (insert q D) k = (if depends p q k \<and> q \<notin> D then open_deps p D k - {q} else open_deps p D k)"
  by (auto simp: open_deps_def)

lemma FillResult_schedule:
  assumes s: "schedule p W D" and q: "q \<notin> D" and f: "FillResult (uint q) vec p = Some (True, p')"
  shows "schedule p' W (insert q D)"
proof -
  define ks where "ks = map_at (tp_topo p) q []"
  have fr: "tp_deps p' = fold dec_dep ks (tp_deps p)" "tp_topo p' = tp_topo p" "\<not> tp_is_abort p'"
    "length (tp_plans p') = length (tp_plans p)"
    using FillResult_frame [OF f] s by (simp_all add: schedule_def after_reply_def ks_def)
  have t: "topo_ok p' = topo_ok p" "depends p' = depends p" "open_deps p' = open_deps p"
    using fr by (simp_all add: topo_ok_def depends_def [abs_def] open_deps_def [abs_def])
  have k: "k \<in> set ks \<longleftrightarrow> depends p q k" for k by (simp add: depends_def ks_def)
  have "distinct ks" using s by (auto simp: schedule_def topo_ok_def ks_def strict_sorted_iff)
  moreover have "set ks \<subseteq> fst ` set (tp_deps p)" using s q k unfolding schedule_def by blast
  ultimately have d: "sorted_keys (tp_deps p')" "fst ` set (tp_deps p') = W"
    "map_of (tp_deps p') r = map_option (\<lambda>c. if r \<in> set ks then c - 1 else c) (map_of (tp_deps p) r)" for r
    using s fold_dec_dep [of "tp_deps p" ks r] fr(1) by (simp_all add: schedule_def)
  have c: "map_of (tp_deps p') r = Some (of_nat (card (open_deps p (insert q D) r)))" if "r \<in> W" for r
  proof (cases "depends p q r")
    case True
    then have "q \<in> open_deps p D r" using q by (simp add: open_deps_def)
    then have "card (open_deps p D r) = Suc (card (open_deps p D r - {q}))" by (intro card.remove) simp_all
    then have n: "(of_nat (card (open_deps p D r)) :: u8) - 1 = of_nat (card (open_deps p (insert q D) r))"
      using True q by (simp add: open_deps_insert)
    have "map_of (tp_deps p) r = Some (of_nat (card (open_deps p D r)))" using s that unfolding schedule_def by blast
    then show ?thesis using True k d(3) [of r] n by simp
  next
    case False
    then show ?thesis using s that k d(3) [of r] by (simp add: schedule_def open_deps_insert)
  qed
  show ?thesis using s d c fr(3,4) unfolding schedule_def t by auto
qed

section \<open>Plans as the parser builds them\<close>

definition built :: "trx_plan \<Rightarrow> nat \<Rightarrow> bool" where
  "built p n \<longleftrightarrow> topo_ok p \<and> sorted_keys (tp_deps p) \<and> fst ` set (tp_deps p) = {q. unat q < n} \<and>
     (\<forall>q. unat q < n \<longrightarrow> map_of (tp_deps p) q = Some (of_nat (card (open_deps p {} q)))) \<and>
     (\<forall>d q. depends p d q \<longrightarrow> unat q < n) \<and> \<not> tp_is_abort p \<and> n \<le> 256"

lemma built_schedule: "built p n \<Longrightarrow> n \<le> length (tp_plans p) \<Longrightarrow> schedule p {q. unat q < n} {}"
  by (auto simp: built_def schedule_def)

lemma unat_u8_of_nat: "n < 256 \<Longrightarrow> unat (of_nat n :: u8) = n"
  by (simp add: unat_of_nat)

lemma unat_less_Suc_u8: "n < 256 \<Longrightarrow> unat (q :: u8) < Suc n \<longleftrightarrow> q = of_nat n \<or> unat q < n"
  using unat_u8_of_nat [of n] by (auto simp: less_Suc_eq)

lemma built_empty: "tp_deps p = [] \<Longrightarrow> tp_topo p = [] \<Longrightarrow> \<not> tp_is_abort p \<Longrightarrow> built p 0"
  by (simp add: built_def topo_ok_def depends_def map_at_def)

lemma built_begin_line:
  assumes b: "built p n" and n: "n < 256"
  shows "built (begin_line (of_nat n) p) (Suc n)"
proof -
  let ?p = "begin_line (of_nat n) p"
  have t: "topo_ok ?p = topo_ok p" "depends ?p = depends p" "open_deps ?p = open_deps p"
    by (simp_all add: begin_line_def topo_ok_def depends_def [abs_def] open_deps_def [abs_def])
  have s: "sorted_keys (tp_deps p)" using b by (simp add: built_def)
  have "\<not> depends p d (of_nat n)" for d
  proof
    assume "depends p d (of_nat n)"
    then have "unat (of_nat n :: u8) < n" using b unfolding built_def by blast
    then show False using unat_u8_of_nat [OF n] by simp
  qed
  then have e: "open_deps p {} (of_nat n) = {}" by (simp add: open_deps_def)
  show ?thesis
    unfolding built_def t
  proof (intro conjI)
    show "topo_ok p" "\<not> tp_is_abort ?p" "Suc n \<le> 256" using b n by (simp_all add: built_def begin_line_def)
    show "sorted_keys (tp_deps ?p)" using s by (simp add: begin_line_def sorted_keys_insert)
    show "fst ` set (tp_deps ?p) = {q. unat q < Suc n}"
      using b unat_less_Suc_u8 [OF n] by (auto simp: begin_line_def fst_ordered_map_insert built_def)
    show "\<forall>q. unat q < Suc n \<longrightarrow> map_of (tp_deps ?p) q = Some (of_nat (card (open_deps p {} q)))"
      using b e unat_less_Suc_u8 [OF n] s by (auto simp: begin_line_def map_of_ordered_map_insert built_def)
    show "\<forall>d q. depends p d q \<longrightarrow> unat q < Suc n" using b by (auto simp: built_def intro: less_SucI)
  qed
qed

lemma depends_RegDependency:
  assumes "topo_ok p"
  shows "depends (RegDependency s d p) a b \<longleftrightarrow> depends p a b \<or> a = s \<and> b = d"
  using assms
  by (auto simp: RegDependency_def Let_def depends_def map_at_def topo_ok_def map_of_ordered_map_insert
      set_ordered_set_insert split: option.splits)

lemma topo_ok_RegDependency:
  assumes "topo_ok p" "s < d"
  shows "topo_ok (RegDependency s d p)"
  using assms depends_RegDependency [OF assms(1), of s d]
  by (auto simp: topo_ok_def RegDependency_def Let_def map_at_def map_of_ordered_map_insert sorted_keys_insert
      sorted_ordered_set_insert)

lemma RegDependency_known: "topo_ok p \<Longrightarrow> depends p s d \<Longrightarrow> tp_deps (RegDependency s d p) = tp_deps p"
  by (simp add: RegDependency_def Let_def depends_def)

lemma RegDependency_frame [simp]:
  "tp_is_abort (RegDependency s d p) = tp_is_abort p" "tp_plans (RegDependency s d p) = tp_plans p"
  "tp_is_end (RegDependency s d p) = tp_is_end p"
  by (simp_all add: RegDependency_def Let_def)

lemma open_deps_RegDependency:
  "topo_ok p \<Longrightarrow> open_deps (RegDependency s d p) {} q = (if q = d then insert s (open_deps p {} q) else open_deps p {} q)"
  by (auto simp: open_deps_def depends_RegDependency)

lemma built_RegDependency:
  assumes b: "built p (Suc n)" and n: "n < 256" and s: "unat s < n"
  shows "built (RegDependency s (of_nat n) p) (Suc n)"
proof -
  let ?d = "of_nat n :: u8" and ?p = "RegDependency s (of_nat n) p"
  have t: "topo_ok p" and k: "sorted_keys (tp_deps p)" and d: "unat ?d = n"
    using b unat_u8_of_nat [OF n] by (simp_all add: built_def)
  have t': "topo_ok ?p" using t s d by (intro topo_ok_RegDependency) (simp_all add: word_less_nat_alt)
  have m: "map_of (tp_deps p) ?d = Some (of_nat (card (open_deps p {} ?d)))" using b d by (simp add: built_def)
  have deps: "tp_deps ?p = (if depends p s ?d then tp_deps p
      else ordered_map_insert ?d (of_nat (card (open_deps p {} ?d)) + 1) (tp_deps p))"
    using m by (simp add: RegDependency_def Let_def depends_def map_at_def [of "tp_deps p"])
  have c: "card (open_deps ?p {} ?d) = (if depends p s ?d then card (open_deps p {} ?d) else Suc (card (open_deps p {} ?d)))"
    using open_deps_RegDependency [OF t, of s ?d ?d] by (simp add: open_deps_def insert_absorb)
  show ?thesis
    unfolding built_def
  proof (intro conjI)
    show "topo_ok ?p" by (rule t')
    show "sorted_keys (tp_deps ?p)" using k by (simp add: deps sorted_keys_insert)
    show "fst ` set (tp_deps ?p) = {q. unat q < Suc n}"
      using b d by (auto simp: deps fst_ordered_map_insert built_def)
    show "\<forall>q. unat q < Suc n \<longrightarrow> map_of (tp_deps ?p) q = Some (of_nat (card (open_deps ?p {} q)))"
    proof (intro allI impI)
      fix q :: u8
      assume q: "unat q < Suc n"
      show "map_of (tp_deps ?p) q = Some (of_nat (card (open_deps ?p {} q)))"
      proof (cases "q = ?d")
        case True
        then show ?thesis using c m k by (simp add: deps map_of_ordered_map_insert)
      next
        case False
        then show ?thesis using b q k open_deps_RegDependency [OF t, of s ?d q]
          by (simp add: deps map_of_ordered_map_insert built_def)
      qed
    qed
    show "\<forall>e q. depends ?p e q \<longrightarrow> unat q < Suc n"
      using b d depends_RegDependency [OF t, of s ?d] by (auto simp: built_def)
    show "\<not> tp_is_abort ?p" "Suc n \<le> 256" using b n by (simp_all add: built_def)
  qed
qed

lemma built_reg_range_from:
  assumes "built p (Suc n)" "n < 256"
  shows "set is \<subseteq> {..<n} \<Longrightarrow> built (fold (\<lambda>i. RegDependency (of_nat i) (of_nat n)) is p) (Suc n) \<and>
    (\<forall>a b. depends (fold (\<lambda>i. RegDependency (of_nat i) (of_nat n)) is p) a b \<longleftrightarrow>
      depends p a b \<or> a \<in> of_nat ` set is \<and> b = of_nat n)"
  using assms
proof (induction "is" arbitrary: p)
  case (Cons i "is")
  have i: "unat (of_nat i :: u8) < n" using Cons.prems by (simp add: unat_u8_of_nat)
  have b: "built (RegDependency (of_nat i) (of_nat n) p) (Suc n)"
    by (rule built_RegDependency [OF Cons.prems(2,3) i])
  have t: "topo_ok p" using Cons.prems(2) by (simp add: built_def)
  show ?case using Cons.IH [OF _ b] Cons.prems depends_RegDependency [OF t, of "of_nat i" "of_nat n"] by auto
qed simp

lemma fold_RegDependency_frame:
  "tp_plans (fold (\<lambda>i. RegDependency (of_nat i) q) is p) = tp_plans p \<and>
   tp_is_end (fold (\<lambda>i. RegDependency (of_nat i) q) is p) = tp_is_end p"
  by (induction "is" arbitrary: p) simp_all

lemma built_reg_range:
  assumes "built p (Suc n)" "n < 256"
  shows "built (reg_range b (of_nat n) p) (Suc n)"
    and "depends (reg_range b (of_nat n) p) a c \<longleftrightarrow> depends p a c \<or> b \<le> a \<and> unat a < n \<and> c = of_nat n"
proof -
  have s: "set [unat b ..< n] \<subseteq> {..<n}" by auto
  note r = built_reg_range_from [OF assms s] and u = unat_u8_of_nat [OF assms(2)]
  have e: "a \<in> of_nat ` {unat b ..< n} \<longleftrightarrow> b \<le> a \<and> unat a < n" for a :: u8
    using assms(2) by (auto simp: word_le_nat_alt unat_u8_of_nat image_iff intro!: bexI [of _ "unat a"])
  show "built (reg_range b (of_nat n) p) (Suc n)" using r u by (simp add: reg_range_def)
  show "depends (reg_range b (of_nat n) p) a c \<longleftrightarrow> depends p a c \<or> b \<le> a \<and> unat a < n \<and> c = of_nat n"
    using r u e [of a] by (simp add: reg_range_def)
qed

lemma reg_range_frame [simp]:
  "tp_plans (reg_range b q p) = tp_plans p" "tp_is_end (reg_range b q p) = tp_is_end p"
  using fold_RegDependency_frame by (simp_all add: reg_range_def)

text \<open>
  The plan while the parser works: after \<open>n\<close> lines, with the last updating query and the set of all of them. Parsing line \<open>n\<close> resets its counter,
  registers placeholders that name earlier queries, sets experts and type, and ends with \<open>register_line\<close>.
\<close>

inductive parsed :: "trx_plan \<Rightarrow> nat \<Rightarrow> int \<Rightarrow> nat set \<Rightarrow> bool" where
  parsed_start: "\<lbrakk>tp_deps p = []; tp_topo p = []; \<not> tp_is_abort p\<rbrakk> \<Longrightarrow> parsed p 0 (-1) {}"
| parsed_line: "\<lbrakk>parsed p n lu U; n < 255; \<forall>ph\<in>set phs. unat (fst ph) < n;
     p1 = fold (\<lambda>(src, ex, prm). RegPlaceHolder src (of_nat n) ex prm) phs (begin_line (of_nat n) p);
     tp_deps p2 = tp_deps p1; tp_topo p2 = tp_topo p1; tp_is_abort p2 = tp_is_abort p1;
     register_line (of_nat n) ro lu p2 = (lu', p3)\<rbrakk> \<Longrightarrow> parsed p3 (Suc n) lu' (if ro then U else insert n U)"

text \<open>A run of the plan: queries are sent by \<open>NextQueries\<close> and reply in any order.\<close>

inductive sched_run :: "trx_plan \<Rightarrow> trx_plan \<Rightarrow> u8 list \<Rightarrow> u8 set \<Rightarrow> bool" for p0 where
  sched_start: "sched_run p0 p0 [] {}"
| sched_send: "\<lbrakk>sched_run p0 p sent D; NextQueries p = Some (True, qs, p')\<rbrakk> \<Longrightarrow> sched_run p0 p' (sent @ map qp_index qs) D"
| sched_reply: "\<lbrakk>sched_run p0 p sent D; q \<in> set sent; q \<notin> D; FillResult (uint q) vec p = Some (True, p')\<rbrakk> \<Longrightarrow>
     sched_run p0 p' sent (insert q D)"

lemma built_cong:
  "tp_deps p' = tp_deps p \<Longrightarrow> tp_topo p' = tp_topo p \<Longrightarrow> tp_is_abort p' = tp_is_abort p \<Longrightarrow>
    built p' n = built p n \<and> depends p' = depends p"
  by (simp add: built_def topo_ok_def depends_def [abs_def] open_deps_def)

lemma built_placeholders:
  assumes "built p (Suc n)" "n < 256" "\<forall>ph\<in>set phs. unat (fst ph) < n"
  shows "built (fold (\<lambda>(src, ex, prm). RegPlaceHolder src (of_nat n) ex prm) phs p) (Suc n) \<and>
    (\<forall>a b. depends p a b \<longrightarrow> depends (fold (\<lambda>(src, ex, prm). RegPlaceHolder src (of_nat n) ex prm) phs p) a b)"
  using assms(1,3)
proof (induction phs arbitrary: p)
  case (Cons ph phs)
  obtain s ex prm where ph: "ph = (s, ex, prm)" by (cases ph)
  define p1 where "p1 = p\<lparr>tp_place := ordered_map_insert s (map_at (tp_place p) s [] @
      [position_t (uint (of_nat n :: u8)) ex prm]) (tp_place p)\<rparr>"
  have r: "RegPlaceHolder s (of_nat n) ex prm p = RegDependency s (of_nat n) p1"
    by (simp add: RegPlaceHolder_def p1_def)
  have 1: "built p1 (Suc n)" "depends p1 = depends p"
    using built_cong [of p1 p "Suc n"] Cons.prems(1) by (simp_all add: p1_def)
  have 2: "built (RegDependency s (of_nat n) p1) (Suc n)"
    using Cons.prems(2) by (intro built_RegDependency [OF 1(1) assms(2)]) (simp add: ph)
  have 3: "depends p a b \<longrightarrow> depends (RegDependency s (of_nat n) p1) a b" for a b
    using depends_RegDependency [of p1 s "of_nat n" a b] 1 by (simp add: built_def)
  show ?case using Cons.IH [OF 2] Cons.prems(2) 3 by (simp add: ph r)
qed simp

abbreviation deps_of :: "trx_plan \<Rightarrow> (u8 \<times> u8) set" where
  "deps_of p \<equiv> {(a, b). depends p a b}"

lemma unat_less_uint: "unat (q :: u8) < n \<longleftrightarrow> uint q < int n"
proof -
  have "uint q = int (unat q)" by simp
  then show ?thesis by (simp only: of_nat_less_iff)
qed

lemma uint_word_of_int_u8: "0 \<le> i \<Longrightarrow> i < 256 \<Longrightarrow> uint (word_of_int i :: u8) = i"
  by (simp add: uint_word_of_int)

text \<open>A statement that waits for everything from the last update on waits, directly or not, for everything.\<close>

definition ordered_from :: "trx_plan \<Rightarrow> nat \<Rightarrow> nat set \<Rightarrow> bool" where
  "ordered_from p n U \<longleftrightarrow> (\<forall>i j. i < j \<and> j < n \<and> (i \<in> U \<or> j \<in> U) \<longrightarrow> (of_nat i, of_nat j) \<in> (deps_of p)\<^sup>+)"

definition chained :: "trx_plan \<Rightarrow> nat \<Rightarrow> int \<Rightarrow> nat set \<Rightarrow> bool" where
  "chained p n lu U \<longleftrightarrow> -1 \<le> lu \<and> lu < int n \<and> (0 \<le> lu \<longrightarrow> nat lu \<in> U) \<and> (\<forall>u\<in>U. int u \<le> lu) \<and> ordered_from p n U"

lemma ordered_from_mono:
  "ordered_from p n U \<Longrightarrow> deps_of p \<subseteq> deps_of p' \<Longrightarrow> ordered_from p' n U"
  unfolding ordered_from_def using trancl_mono_subset [of "deps_of p" "deps_of p'"] by blast

lemma ordered_from_Suc:
  "ordered_from p (Suc n) U \<longleftrightarrow> ordered_from p n U \<and> (\<forall>i<n. i \<in> U \<or> n \<in> U \<longrightarrow> (of_nat i, of_nat n) \<in> (deps_of p)\<^sup>+)"
  unfolding ordered_from_def less_Suc_eq by blast

lemma chained_before:
  assumes "chained p n lu U" "n < 256" "uint (q :: u8) < lu"
  shows "(q, word_of_int lu) \<in> (deps_of p)\<^sup>+"
proof -
  have lu: "0 \<le> lu" "nat lu \<in> U" "nat lu < n" using assms uint_ge_0 [of q] by (auto simp: chained_def)
  have "unat q < nat lu" using assms(3) lu(1) unat_less_uint [of q "nat lu"] by simp
  then have "(of_nat (unat q), of_nat (nat lu)) \<in> (deps_of p)\<^sup>+"
    using assms(1) lu unfolding chained_def ordered_from_def by blast
  then show ?thesis using lu(1) by simp
qed

lemma range_covers:
  assumes "built p (Suc n)" "n < 256" "chained p n lu U" "unat q < n"
  defines "b \<equiv> if lu > 0 then word_of_int lu else (0 :: u8)"
  shows "(q, of_nat n) \<in> (deps_of (reg_range b (of_nat n) p))\<^sup>+"
proof -
  note d = built_reg_range(2) [OF assms(1,2), of b]
  have sub: "(deps_of p)\<^sup>+ \<subseteq> (deps_of (reg_range b (of_nat n) p))\<^sup>+" using d by (intro trancl_mono_subset) auto
  show ?thesis
  proof (cases "b \<le> q")
    case True
    then show ?thesis using d [of q "of_nat n"] assms(4) by auto
  next
    case False
    then have lu: "0 < lu" "b = word_of_int lu" by (auto simp: b_def split: if_splits)
    have u: "uint b = lu" using lu assms(2,3) by (simp add: chained_def uint_word_of_int_u8)
    then have "uint q < lu" using False by (simp add: word_le_def)
    then have "(q, b) \<in> (deps_of (reg_range b (of_nat n) p))\<^sup>+" using chained_before [OF assms(3,2)] lu sub by auto
    moreover have "depends (reg_range b (of_nat n) p) b (of_nat n)"
      using d [of b "of_nat n"] u lu assms(3) by (simp add: chained_def unat_less_uint)
    ultimately show ?thesis by (simp add: trancl.trancl_into_trancl)
  qed
qed

lemma parsed_built: "parsed p n lu U \<Longrightarrow> built p n \<and> chained p n lu U"
proof (induction p n lu U rule: parsed.induct)
  case (parsed_start p)
  then show ?case using built_empty by (simp add: chained_def ordered_from_def)
next
  case (parsed_line p n lu U phs p1 p2 ro lu' p3)
  let ?n = "of_nat n :: u8"
  have n: "n < 256" using parsed_line(2) by simp
  define pb where "pb = begin_line ?n p"
  have b: "built pb (Suc n)" using parsed_line n unfolding pb_def by (intro built_begin_line) auto
  have "depends pb = depends p" by (simp add: pb_def begin_line_def depends_def [abs_def])
  then have 1: "built p1 (Suc n)" "\<forall>a b. depends p a b \<longrightarrow> depends p1 a b"
    using built_placeholders [OF b n parsed_line(3)] parsed_line(4) by (simp_all add: pb_def)
  then have 2: "built p2 (Suc n)" "\<forall>a b. depends p a b \<longrightarrow> depends p2 a b"
    using built_cong [OF parsed_line(5-7)] by simp_all
  then have "deps_of p \<subseteq> deps_of p2" by auto
  then have c2: "chained p2 n lu U" using parsed_line.IH ordered_from_mono unfolding chained_def by blast
  show ?case
  proof (cases ro)
    case False
    define b where "b = (if lu > 0 then word_of_int lu else (0 :: u8))"
    have r: "p3 = reg_range b ?n p2" "lu' = uint ?n"
      using parsed_line(8) False by (simp_all add: register_line_def b_def Let_def split: if_splits)
    have u: "uint ?n = int n" using n by (simp add: unat_u8_of_nat uint_nat)
    have "(of_nat i, ?n) \<in> (deps_of p3)\<^sup>+" if "i < n" for i
      using range_covers [OF 2(1) n c2, of "of_nat i"] that n by (simp add: r(1) b_def unat_u8_of_nat)
    moreover have "deps_of p2 \<subseteq> deps_of p3" using built_reg_range(2) [OF 2(1) n, of b] by (auto simp: r(1))
    then have "ordered_from p3 n U" using c2 ordered_from_mono unfolding chained_def by blast
    then have "ordered_from p3 n (insert n U)" by (auto simp: ordered_from_def)
    ultimately have "ordered_from p3 (Suc n) (insert n U)" by (simp add: ordered_from_Suc)
    then have "chained p3 (Suc n) lu' (insert n U)" using c2 unfolding chained_def r(2) u by fastforce
    then show ?thesis using built_reg_range(1) [OF 2(1) n] r False by simp
  next
    case True
    show ?thesis
    proof (cases "lu \<ge> 0")
      case True
      let ?s = "word_of_int lu :: u8"
      have s: "unat ?s < n" using c2 True n by (simp add: chained_def unat_less_uint uint_word_of_int_u8)
      have r: "p3 = RegDependency ?s ?n p2" "lu' = lu"
        using parsed_line(8) True \<open>ro\<close> by (auto simp: register_line_def)
      have t: "topo_ok p2" using 2(1) by (simp add: built_def)
      have d: "deps_of p2 \<subseteq> deps_of p3" "(?s, ?n) \<in> deps_of p3" using depends_RegDependency [OF t] by (auto simp: r(1))
      have o: "ordered_from p3 n U" using c2 d(1) ordered_from_mono unfolding chained_def by blast
      have "(of_nat i, ?n) \<in> (deps_of p3)\<^sup>+" if "i < n" "i \<in> U" for i
      proof (cases "int i = lu")
        case True
        then have "(of_nat i :: u8) = ?s" by auto
        then show ?thesis using d(2) by auto
      next
        case False
        then have "uint (of_nat i :: u8) < lu"
          using that c2 n by (auto simp: chained_def unat_u8_of_nat uint_nat)
        then have "(of_nat i, ?s) \<in> (deps_of p3)\<^sup>+"
          using chained_before [OF c2 n] trancl_mono_subset [OF d(1)] by blast
        then show ?thesis using d(2) by (meson trancl.trancl_into_trancl)
      qed
      moreover have "n \<notin> U" using c2 unfolding chained_def by fastforce
      ultimately have "ordered_from p3 (Suc n) U" using o by (simp add: ordered_from_Suc)
      then have "chained p3 (Suc n) lu' U" using c2 unfolding chained_def r(2) by simp
      then show ?thesis using built_RegDependency [OF 2(1) n s] r \<open>ro\<close> by simp
    next
      case False
      then have "p3 = p2" "lu' = lu" using parsed_line(8) \<open>ro\<close> by (simp_all add: register_line_def)
      moreover have "U = {}" using c2 False unfolding chained_def by force
      ultimately show ?thesis using 2(1) c2 False \<open>ro\<close> by (simp add: chained_def ordered_from_def)
    qed
  qed
qed

lemma AddCommitStatement_built:
  assumes "parsed p n lu U" "n < 256" "AddCommitStatement (of_nat n) lu p = Some p0"
  shows "built p0 (Suc n)" and "unat q < n \<Longrightarrow> (q, of_nat n) \<in> (deps_of p0)\<^sup>+"
    and "length (tp_plans p0) = length (tp_plans p)" and "tp_is_end p0 = tp_is_end p"
    and "qp_experts (tp_plans p0 ! n) = commit_experts"
    and "ordered_from p0 n U"
proof -
  let ?n = "of_nat n :: u8"
  define b where "b = (if lu > 0 then word_of_int lu else (0 :: u8))"
  define p1 where "p1 = p\<lparr>tp_plans := (tp_plans p)[unat ?n := (tp_plans p ! unat ?n)\<lparr>qp_experts := commit_experts, qp_is_process := False\<rparr>]\<rparr>"
  have r: "p0 = reg_range b ?n (begin_line ?n p1)" and l: "n < length (tp_plans p)"
    using assms(3) by (simp_all add: AddCommitStatement_def Let_def p1_def b_def unat_u8_of_nat [OF assms(2)])
  have 1: "built p1 n" "depends p1 = depends p" using parsed_built [OF assms(1)] built_cong [of p1 p n] by (simp_all add: p1_def)
  have 2: "built (begin_line ?n p1) (Suc n)" by (rule built_begin_line [OF 1(1) assms(2)])
  have "depends (begin_line ?n p1) = depends p" using 1(2) by (simp add: begin_line_def depends_def [abs_def])
  then have c: "chained (begin_line ?n p1) n lu U" using parsed_built [OF assms(1)] by (simp add: chained_def ordered_from_def)
  show "built p0 (Suc n)" using built_reg_range(1) [OF 2 assms(2)] r by simp
  show "(q, of_nat n) \<in> (deps_of p0)\<^sup>+" if "unat q < n"
    using range_covers [OF 2 assms(2) c that] by (simp add: r b_def)
  show "length (tp_plans p0) = length (tp_plans p)" "tp_is_end p0 = tp_is_end p"
    by (simp_all add: r begin_line_def p1_def)
  have "deps_of (begin_line ?n p1) \<subseteq> deps_of p0" using built_reg_range(2) [OF 2 assms(2)] by (auto simp: r)
  then show "ordered_from p0 n U" using c ordered_from_mono unfolding chained_def by blast
  show "qp_experts (tp_plans p0 ! n) = commit_experts"
    using l by (simp add: r begin_line_def p1_def unat_u8_of_nat [OF assms(2)])
qed

section \<open>Runs\<close>

lemma qp_index_prepared: "map qp_index (map (prepared p) is) = is"
  by (induction "is") (simp_all add: prepared_def)

lemma distinct_ready: "schedule p W D \<Longrightarrow> distinct (ready (tp_deps p))"
  unfolding schedule_def ready_def using sorted_keys_filter strict_sorted_iff by blast

lemma is_last_query_iff:
  assumes "length (tp_plans p) = Suc n" "n < 256"
  shows "is_last_query p (uint q) \<longleftrightarrow> unat (q :: u8) = n"
proof -
  have "(word_of_int (uint q) :: u64) = of_nat (unat q)" by simp
  then have "is_last_query p (uint q) \<longleftrightarrow> (of_nat (unat q) :: u64) = of_nat n"
    using assms(1) by (simp add: is_last_query_def)
  also have "\<dots> \<longleftrightarrow> unat q = n"
    using assms(2) by (intro of_nat_word_inject) (rule order.strict_trans [OF unat_u8_less], simp_all)
  finally show ?thesis .
qed

lemma sched_run_inv:
  assumes "sched_run p0 p sent D" "schedule p0 W0 {}"
  shows "schedule p (W0 - set sent) D \<and> tp_topo p = tp_topo p0 \<and> D \<subseteq> set sent \<and> set sent \<subseteq> W0 \<and> distinct sent \<and>
    length (tp_plans p) = length (tp_plans p0) \<and> (\<forall>q\<in>set sent. \<forall>d. depends p0 d q \<longrightarrow> d \<in> D)"
  using assms
proof (induction rule: sched_run.induct)
  case (sched_send p sent D qs p')
  let ?rs = "ready (tp_deps p)"
  have s: "schedule p (W0 - set sent) D" using sched_send by blast
  have e: "\<not> tp_is_end p" using sched_send(2) by (auto simp: NextQueries_def)
  have *: "qs = map (prepared p) ?rs" "schedule p' (W0 - set sent - set ?rs) D" "tp_topo p' = tp_topo p"
    "length (tp_plans p') = length (tp_plans p)"
    using NextQueries_schedule [OF s e] sched_send(2) by force+
  have "depends p d q \<longleftrightarrow> depends p0 d q" for d q using sched_send by (simp add: depends_def)
  then show ?case
    using * sched_send ready_schedule [OF s] distinct_ready [OF s] qp_index_prepared [of p ?rs]
    by (auto simp: open_deps_def Diff_eq Int_assoc)
next
  case (sched_reply p sent D q vec p')
  have s: "schedule p (W0 - set sent) D" using sched_reply by blast
  then have "\<not> tp_is_abort p" by (simp add: schedule_def)
  then show ?case
    using sched_reply FillResult_schedule [OF s sched_reply(3,4)] FillResult_frame [OF sched_reply(4)] by auto
qed simp

lemma sched_run_end:
  assumes "sched_run p0 p sent D" "schedule p0 W0 {}" "length (tp_plans p0) = Suc n" "n < 256" "\<not> tp_is_end p0"
  shows "tp_is_end p \<longleftrightarrow> of_nat n \<in> D"
  using assms
proof (induction rule: sched_run.induct)
  case (sched_send p sent D qs p')
  have s: "schedule p (W0 - set sent) D" using sched_run_inv sched_send by blast
  have e: "\<not> tp_is_end p" using sched_send(2) by (auto simp: NextQueries_def)
  obtain p1 where "NextQueries p = Some (True, map (prepared p) (ready (tp_deps p)), p1)" "tp_is_end p1 = tp_is_end p"
    by (rule NextQueries_schedule [OF s e])
  then have "tp_is_end p' = tp_is_end p" using sched_send(2) by (metis option.inject prod.inject)
  then show ?case using sched_send.IH [OF sched_send.prems] by (rule trans)
next
  case (sched_reply p sent D q vec p')
  have *: "length (tp_plans p) = Suc n" "\<not> tp_is_abort p"
    using sched_run_inv [OF sched_reply(1) sched_reply.prems(1)] sched_reply.prems(2) by (simp_all add: schedule_def)
  have "q = of_nat n \<longleftrightarrow> unat q = n" using sched_reply.prems(3) by (auto simp: unat_u8_of_nat)
  then show ?case using FillResult_frame [OF sched_reply(4) *(2)] is_last_query_iff [OF *(1) sched_reply.prems(3)]
      sched_reply.IH [OF sched_reply.prems] by auto
qed simp

lemma sent_closed:
  assumes "(q, c) \<in> (deps_of p0)\<^sup>+" "c \<in> set sent" "\<forall>q\<in>set sent. \<forall>d. depends p0 d q \<longrightarrow> d \<in> D" "D \<subseteq> set sent"
  shows "q \<in> D"
  using assms(1,2)
proof (induction rule: converse_trancl_induct)
  case (base q)
  then show ?case using assms by blast
next
  case (step q z)
  then show ?case using assms by blast
qed

lemma progress:
  assumes s: "schedule p W D" and e: "\<not> tp_is_end p" and w: "W \<noteq> {}"
    and closed: "\<forall>d q. depends p d q \<and> d \<notin> D \<longrightarrow> d \<in> W"
  shows "ready (tp_deps p) \<noteq> []"
proof -
  define q where "q = Min W"
  have q: "q \<in> W" "\<forall>r\<in>W. q \<le> r" using w by (simp_all add: q_def)
  have "open_deps p D q = {}"
  proof -
    have False if "depends p d q" "d \<notin> D" for d
      using that q closed s unfolding schedule_def topo_ok_def by (meson not_less)
    then show ?thesis by (auto simp: open_deps_def)
  qed
  then have "q \<in> set (ready (tp_deps p))" using ready_schedule [OF s] q by simp
  then show ?thesis by auto
qed

lemma ordered_queries:
  assumes "parsed p n lu U" "n < 256" "n < length (tp_plans p)" "AddCommitStatement (of_nat n) lu p = Some p0"
    and "sched_run p0 p' sent D" "i < j" "j < n" "i \<in> U \<or> j \<in> U" "of_nat j \<in> set sent"
  shows "of_nat i \<in> D"
proof -
  note a = AddCommitStatement_built [OF assms(1,2,4)]
  have "schedule p0 {q. unat q < Suc n} {}" using a(1,3) assms(3) by (intro built_schedule) simp_all
  note s = sched_run_inv [OF assms(5) this]
  have "(of_nat i, of_nat j) \<in> (deps_of p0)\<^sup>+" using a(6) assms(6-8) unfolding ordered_from_def by blast
  then show ?thesis using sent_closed [OF _ assms(9)] s by blast
qed

section \<open>An example\<close>

text \<open>A transaction of a reading and an updating query, and the run in which both reply and the commit is sent.\<close>

definition ex_plan :: trx_plan where
  "ex_plan = (new_TrxPlan 0 [] 0)\<lparr>tp_plans := replicate 3 new_QueryPlan\<rparr>"

definition ex_lines :: trx_plan where
  "ex_lines = snd (register_line 1 False (-1) (begin_line 1 (snd (register_line 0 True (-1) (begin_line 0 ex_plan)))))"

definition ex_commit :: trx_plan where
  "ex_commit = the (AddCommitStatement 2 1 ex_lines)"

definition ex_send :: "trx_plan \<Rightarrow> trx_plan" where
  "ex_send p = snd (snd (the (NextQueries p)))"

definition ex_reply :: "u8 \<Rightarrow> trx_plan \<Rightarrow> trx_plan" where
  "ex_reply q p = snd (the (FillResult (uint q) [] p))"

definition ex_half :: trx_plan where
  "ex_half = ex_reply 0 (ex_send ex_commit)"

definition ex_full :: trx_plan where
  "ex_full = ex_send (ex_reply 1 (ex_send ex_half))"

lemma ex_parsed: "parsed ex_lines 2 1 {1}"
proof -
  have 0: "parsed ex_plan 0 (-1) {}" by (rule parsed_start) (simp_all add: ex_plan_def new_TrxPlan_def)
  define p1 where "p1 = snd (register_line 0 True (-1) (begin_line 0 ex_plan))"
  have 1: "parsed p1 (Suc 0) (-1) {}"
    using parsed_line [OF 0, of "[]", OF _ _ refl refl refl refl, of True] by (simp add: p1_def register_line_def)
  have "parsed ex_lines (Suc (Suc 0)) 1 {1}"
    using parsed_line [OF 1, of "[]", OF _ _ refl refl refl refl, of False]
    by (simp add: ex_lines_def p1_def register_line_def)
  then show ?thesis by (simp add: numeral_2_eq_2)
qed

lemma ex_committed_plan: "AddCommitStatement 2 1 ex_lines = Some ex_commit"
proof -
  have "AddCommitStatement 2 1 ex_lines \<noteq> None" by code_simp
  then show ?thesis by (auto simp: ex_commit_def)
qed

lemma ex_send_run:
  assumes "sched_run p0 p sent D" "map_option (\<lambda>(b, qs, p'). (b, map qp_index qs)) (NextQueries p) = Some (True, is)"
  shows "sched_run p0 (ex_send p) (sent @ is) D"
proof -
  obtain qs p' where "NextQueries p = Some (True, qs, p')" "is = map qp_index qs" using assms(2) by auto
  then show ?thesis using sched_send [OF assms(1)] by (simp add: ex_send_def)
qed

lemma ex_reply_run:
  assumes "sched_run p0 p sent D" "q \<in> set sent" "q \<notin> D" "map_option fst (FillResult (uint q) [] p) = Some True"
  shows "sched_run p0 (ex_reply q p) sent (insert q D)"
proof -
  obtain p' where "FillResult (uint q) [] p = Some (True, p')" using assms(4) by auto
  then show ?thesis using sched_reply [OF assms(1-3)] by (simp add: ex_reply_def)
qed

lemma ex_half_run: "sched_run ex_commit ex_half [0] {0}"
proof -
  have 1: "sched_run ex_commit (ex_send ex_commit) ([] @ [0]) {}"
    by (rule ex_send_run [OF sched_start]) code_simp
  have "sched_run ex_commit ex_half ([] @ [0]) {0}"
    unfolding ex_half_def by (rule ex_reply_run [OF 1]) (simp, simp, code_simp)
  then show ?thesis by simp
qed

lemma ex_full_run: "sched_run ex_commit ex_full [0, 1, 2] {1, 0}"
proof -
  have 1: "sched_run ex_commit (ex_send ex_half) ([0] @ [1]) {0}" by (rule ex_send_run [OF ex_half_run]) code_simp
  have 2: "sched_run ex_commit (ex_reply 1 (ex_send ex_half)) ([0] @ [1]) {1, 0}"
    by (rule ex_reply_run [OF 1]) (simp, simp, code_simp)
  have "sched_run ex_commit ex_full (([0] @ [1]) @ [2]) {1, 0}"
    unfolding ex_full_def by (rule ex_send_run [OF 2]) code_simp
  then show ?thesis by simp
qed

lemma ex_lines_plans: "length (tp_plans ex_lines) = 3" "\<not> tp_is_end ex_lines"
  by (code_simp, code_simp)

section \<open>Properties\<close>

text \<open>
  C15. Scheduling is safe: in every run of a plan the parser built, no query is sent twice and a query is sent only
  after every query it depends on has replied.
\<close>

theorem queries_wait_for_dependencies:
  assumes "parsed p n lu U" "n < 256" "n < length (tp_plans p)" "AddCommitStatement (of_nat n) lu p = Some p0"
    and "sched_run p0 p' sent D"
  shows "distinct sent \<and> (\<forall>q\<in>set sent. unat q \<le> n \<and> (\<forall>d. depends p0 d q \<longrightarrow> d \<in> D))"
proof -
  note a = AddCommitStatement_built [OF assms(1,2,4)]
  have "schedule p0 {q. unat q < Suc n} {}" using a(1,3) assms(3) by (intro built_schedule) simp_all
  from sched_run_inv [OF assms(5) this] show ?thesis by (auto simp: less_Suc_eq_le)
qed

theorem queries_wait_for_dependencies_witness:
  "parsed ex_lines 2 1 {1} \<and> AddCommitStatement (of_nat 2) 1 ex_lines = Some ex_commit \<and>
   sched_run ex_commit ex_full [0, 1, 2] {1, 0} \<and>
   distinct [0, 1, 2 :: u8] \<and> {d. depends ex_commit d 2} \<subseteq> {1, 0}"
  using queries_wait_for_dependencies [OF ex_parsed _ _ _ ex_full_run] ex_parsed ex_committed_plan ex_full_run ex_lines_plans
  by (simp add: subset_eq)

text \<open>
  C10. The commit statement (validation and commit) is sent only after every other query of the transaction has
  replied, although it is registered to wait only for the queries from the last update on.
\<close>

theorem commit_after_all_queries:
  assumes "parsed p n lu U" "n < 256" "n < length (tp_plans p)" "AddCommitStatement (of_nat n) lu p = Some p0"
    and "sched_run p0 p' sent D" "of_nat n \<in> set sent"
  shows "\<forall>q. unat q < n \<longrightarrow> q \<in> D"
proof (intro allI impI)
  fix q :: u8
  assume q: "unat q < n"
  note a = AddCommitStatement_built [OF assms(1,2,4)]
  have "schedule p0 {q. unat q < Suc n} {}" using a(1,3) assms(3) by (intro built_schedule) simp_all
  note i = sched_run_inv [OF assms(5) this]
  show "q \<in> D" using sent_closed [OF a(2) [OF q] assms(6)] i by blast
qed

theorem commit_after_all_queries_witness:
  "parsed ex_lines 2 1 {1} \<and> AddCommitStatement (of_nat 2) 1 ex_lines = Some ex_commit \<and>
   sched_run ex_commit ex_full [0, 1, 2] {1, 0} \<and> of_nat 2 \<in> set [0, 1, 2 :: u8] \<and>
   {q. unat q < 2} \<subseteq> {1, 0 :: u8}"
  using commit_after_all_queries [OF ex_parsed _ _ _ ex_full_run] ex_parsed ex_committed_plan ex_full_run ex_lines_plans
  by (simp add: subset_eq)

text \<open>
  C16. The schedule never gets stuck: whenever every query sent so far has replied and the transaction is not
  complete, the next call of \<open>NextQueries\<close> sends at least one more query.
\<close>

theorem schedule_never_stuck:
  assumes "parsed p n lu U" "n < 256" "length (tp_plans p) = Suc n" "\<not> tp_is_end p"
    and "AddCommitStatement (of_nat n) lu p = Some p0" "sched_run p0 p' sent D" "set sent = D" "unat q \<le> n" "q \<notin> D"
  shows "\<exists>qs p''. NextQueries p' = Some (True, qs, p'') \<and> qs \<noteq> []"
proof -
  note a = AddCommitStatement_built [OF assms(1,2,5)]
  have s0: "schedule p0 {q. unat q < Suc n} {}" using a(1,3) assms(3) by (intro built_schedule) simp_all
  note i = sched_run_inv [OF assms(6) s0]
  have e: "tp_is_end p' \<longleftrightarrow> of_nat n \<in> D" using sched_run_end [OF assms(6) s0] a(3,4) assms(2,3,4) by simp
  have ne: "\<not> tp_is_end p'"
  proof
    assume "tp_is_end p'"
    then have "of_nat n \<in> D" using e by simp
    moreover from this have "unat q < n \<Longrightarrow> q \<in> D" using sent_closed [OF a(2)] i assms(7) by blast
    ultimately show False using assms(8,9) unat_less_Suc_u8 [OF assms(2), of q] by (auto simp: less_Suc_eq_le)
  qed
  let ?W = "{q. unat q < Suc n} - set sent"
  have s: "schedule p' ?W D" using i by blast
  have "\<forall>d q. depends p' d q \<and> d \<notin> D \<longrightarrow> d \<in> ?W"
  proof (intro allI impI)
    fix d q
    assume dq: "depends p' d q \<and> d \<notin> D"
    then have "d < q" "q \<in> ?W" using s unfolding schedule_def topo_ok_def by blast+
    then show "d \<in> ?W" using dq assms(7) by (auto simp: word_less_nat_alt)
  qed
  moreover have "?W \<noteq> {}" using assms(7-9) by (auto simp: less_Suc_eq_le)
  ultimately have "ready (tp_deps p') \<noteq> []" using progress [OF s ne] by blast
  then show ?thesis using NextQueries_schedule [OF s ne] by (metis map_is_Nil_conv)
qed

theorem schedule_never_stuck_witness:
  "parsed ex_lines 2 1 {1} \<and> AddCommitStatement (of_nat 2) 1 ex_lines = Some ex_commit \<and>
   sched_run ex_commit ex_half [0] {0} \<and> (1 :: u8) \<notin> {0} \<and>
   (\<exists>qs p''. NextQueries ex_half = Some (True, qs, p'') \<and> qs \<noteq> [])"
  using schedule_never_stuck [OF ex_parsed _ _ _ _ ex_half_run, of 1] ex_parsed ex_committed_plan ex_half_run ex_lines_plans
  by simp

text \<open>
  C30. Aborting a plan whose commit statement is still unsent leaves exactly one query to send, the commit statement
  without its validation steps, and a second abort changes nothing.
\<close>

theorem abort_sends_terminate:
  assumes "\<not> tp_is_abort p" "\<not> tp_is_end p" "tp_plans p \<noteq> []" "length (tp_plans p) \<le> 256"
    and "qp_experts (last (tp_plans p)) = commit_experts"
  shows "\<exists>p1 q p2. Abort p = Some p1 \<and> Abort p1 = Some p1 \<and> NextQueries p1 = Some (True, [q], p2) \<and>
    unat (qp_index q) = length (tp_plans p) - 1 \<and> map ex_type (qp_experts q) = [E_TERMINATE] \<and>
    NextQueries p2 = Some (True, [], p2)"
proof -
  define i where "i = length (tp_plans p) - 1"
  define w where "w = (of_nat i :: u8)"
  have il: "i < length (tp_plans p)" using assms(3) by (simp add: i_def)
  have i: "unat w = i" using assms(4) il unfolding w_def by (intro unat_u8_of_nat) simp
  have l: "tp_plans p ! i = last (tp_plans p)" using assms(3) by (simp add: last_conv_nth i_def)
  define pl where "pl = (tp_plans p ! i)\<lparr>qp_experts := drop 2 commit_experts\<rparr>"
  define p1 where "p1 = p\<lparr>tp_is_abort := True, tp_plans := (tp_plans p)[i := pl], tp_deps := [(w, 0)]\<rparr>"
  have a: "Abort p = Some p1" "Abort p1 = Some p1"
    using assms l unfolding Abort_def Let_def i_def [symmetric] w_def [symmetric]
    by (simp_all add: p1_def pl_def) (simp add: commit_experts_def)
  have n: "NextQueries p1 = Some (True, [prepared p1 w], p1\<lparr>tp_plans := sent_out [w] p1, tp_deps := []\<rparr>)"
    using assms(2) il next_queries_loop_ready [of "[(w, 0)]" p1] i by (simp add: NextQueries_def p1_def ready_def)
  have q: "unat (qp_index (prepared p1 w)) = i" "map ex_type (qp_experts (prepared p1 w)) = [E_TERMINATE]"
    using i il by (simp_all add: prepared_def p1_def pl_def commit_experts_def Expert_Object_def)
  show ?thesis
    using a n q assms(2) i_def
    by (intro exI [of _ p1] exI [of _ "prepared p1 w"] exI [of _ "p1\<lparr>tp_plans := sent_out [w] p1, tp_deps := []\<rparr>"])
      (simp add: NextQueries_def p1_def)
qed

theorem abort_sends_terminate_witness:
  "qp_experts (last (tp_plans ex_half)) = commit_experts \<and>
   (\<exists>p1 q p2. Abort ex_half = Some p1 \<and> Abort p1 = Some p1 \<and> NextQueries p1 = Some (True, [q], p2) \<and>
      unat (qp_index q) = length (tp_plans ex_half) - 1 \<and> map ex_type (qp_experts q) = [E_TERMINATE] \<and>
      NextQueries p2 = Some (True, [], p2))"
proof -
  have *: "\<not> tp_is_abort ex_half \<and> \<not> tp_is_end ex_half \<and> tp_plans ex_half \<noteq> [] \<and> length (tp_plans ex_half) \<le> 256 \<and>
      qp_experts (last (tp_plans ex_half)) = commit_experts"
    by code_simp
  then show ?thesis using abort_sends_terminate [of ex_half] by simp
qed

end
