(* ===== verification/Parser_Base.thy ===== *)
theory Parser_Base
  imports Plan_Schedule "HOL-Library.List_Lexorder" "HOL-Library.Char_ord"
begin

text \<open>
  What the query parser (src/core/parser.cpp, class ParserObject) is built from: the enumerations, its environment and
  state, its actions, and the splitting of parameters and predicates.

  A parsing action takes the state of the parser and gives an exception (\<open>Inl\<close> its message) or a result, with the
  new state: a thrown \<open>ParserException\<close> keeps what was changed before it. \<open>None\<close> is the end of the process, by an
  access outside a vector or by another exception (\<open>std::out_of_range\<close>), which nothing catches. What the parser reads
  of the rest of the system is a record: the string indexes, the configuration flag, the answers of the index store
  and the C library's \<open>atof\<close>.
\<close>

section \<open>Enumerations\<close>

datatype Step_T = S_IN | S_OUT | S_BOTH | S_INE | S_OUTE | S_BOTHE | S_INV | S_OUTV | S_BOTHV | S_ADDE | S_ADDV | S_AND
  | S_AGGREGATE | S_AS | S_CAP | S_COUNT | S_DEDUP | S_DROP | S_FROM | S_GROUP | S_GROUPCOUNT | S_HAS | S_HASLABEL
  | S_HASKEY | S_HASVALUE | S_HASNOT | S_IS | S_KEY | S_LABEL | S_LIMIT | S_MAX | S_MEAN | S_MIN | S_NOT | S_OR
  | S_ORDER | S_PROPERTIES | S_PROPERTY | S_RANGE | S_SELECT | S_SKIP | S_SUM | S_TO | S_UNION | S_VALUES | S_WHERE
  | S_COIN | S_REPEAT | S_STATUS

datatype Filter_T = F_AND | F_OR | F_NOT
datatype Math_T = MT_SUM | MT_MAX | MT_MIN | MT_MEAN
datatype Element_T = VERTEX | EDGE
datatype Direction_T = D_IN | D_OUT | D_BOTH
datatype Order_T = INCR | DECR
datatype AddEdgeMethodType = PlaceHolder | StepLabel | NotApplicable
datatype IO_T = IO_EDGE | IO_VERTEX | IO_VP | IO_EP | IO_INT | IO_DOUBLE | IO_CHAR | IO_STRING | IO_COLLECTION

definition str2step :: "(string \<times> Step_T) list" where
  "str2step = [(''in'', S_IN), (''out'', S_OUT), (''both'', S_BOTH), (''inE'', S_INE), (''outE'', S_OUTE), (''bothE'', S_BOTHE),
     (''inV'', S_INV), (''outV'', S_OUTV), (''bothV'', S_BOTHV), (''addE'', S_ADDE), (''addV'', S_ADDV), (''and'', S_AND),
     (''aggregate'', S_AGGREGATE), (''as'', S_AS), (''cap'', S_CAP), (''count'', S_COUNT), (''dedup'', S_DEDUP),
     (''drop'', S_DROP), (''from'', S_FROM), (''group'', S_GROUP), (''groupCount'', S_GROUPCOUNT), (''has'', S_HAS),
     (''hasLabel'', S_HASLABEL), (''hasKey'', S_HASKEY), (''hasValue'', S_HASVALUE), (''hasNot'', S_HASNOT), (''is'', S_IS),
     (''key'', S_KEY), (''label'', S_LABEL), (''limit'', S_LIMIT), (''max'', S_MAX), (''mean'', S_MEAN), (''min'', S_MIN),
     (''not'', S_NOT), (''or'', S_OR), (''order'', S_ORDER), (''property'', S_PROPERTY), (''properties'', S_PROPERTIES),
     (''range'', S_RANGE), (''select'', S_SELECT), (''skip'', S_SKIP), (''sum'', S_SUM), (''to'', S_TO), (''union'', S_UNION),
     (''values'', S_VALUES), (''where'', S_WHERE), (''coin'', S_COIN), (''repeat'', S_REPEAT)]"

definition str2pred :: "(string \<times> Predicate_T) list" where
  "str2pred = [(''eq'', EQ), (''neq'', NEQ), (''lt'', LT), (''lte'', LTE), (''gt'', GT), (''gte'', GTE), (''inside'', INSIDE),
     (''outside'', OUTSIDE), (''between'', BETWEEN), (''within'', WITHIN), (''without'', WITHOUT)]"

definition all_Predicate_T :: "Predicate_T list" where
  "all_Predicate_T = [ANY, NONE, EQ, NEQ, LT, LTE, GT, GTE, INSIDE, OUTSIDE, BETWEEN, WITHIN, WITHOUT]"

text \<open>The names of the input types; the array of the source has no entries for the two property types.\<close>

definition IO_names :: "string list" where
  "IO_names = [''edge'', ''vertex'', ''int'', ''double'', ''char'', ''string'', ''collection'']"

definition IOType :: "IO_T \<Rightarrow> string option" where
  "IOType io =
     (let i = index_of io [IO_EDGE, IO_VERTEX, IO_VP, IO_EP, IO_INT, IO_DOUBLE, IO_CHAR, IO_STRING, IO_COLLECTION]
      in if i < length IO_names then Some (IO_names ! i) else None)"

definition pred_int :: "Predicate_T \<Rightarrow> int" where "pred_int p = int (index_of p all_Predicate_T)"
definition element_int :: "Element_T \<Rightarrow> int" where "element_int e = int (index_of e [VERTEX, EDGE])"
definition filter_int :: "Filter_T \<Rightarrow> int" where "filter_int f = int (index_of f [F_AND, F_OR, F_NOT])"
definition math_int :: "Math_T \<Rightarrow> int" where "math_int f = int (index_of f [MT_SUM, MT_MAX, MT_MIN, MT_MEAN])"
definition direction_int :: "Direction_T \<Rightarrow> int" where "direction_int d = int (index_of d [D_IN, D_OUT, D_BOTH])"
definition order_int :: "Order_T \<Rightarrow> int" where "order_int d = int (index_of d [INCR, DECR])"
definition method_int :: "AddEdgeMethodType \<Rightarrow> int" where "method_int d = int (index_of d [PlaceHolder, StepLabel, NotApplicable])"
definition bool_int :: "bool \<Rightarrow> int" where "bool_int b = (if b then 1 else 0)"

section \<open>Environment and state\<close>

record string_index =
  str2el :: "(string \<times> u16) list"
  str2epk :: "(string \<times> u16) list"
  str2eptype :: "(string \<times> u8) list"
  str2vl :: "(string \<times> u16) list"
  str2vpk :: "(string \<times> u16) list"
  str2vptype :: "(string \<times> u8) list"

record parser_env =
  pe_indexes :: string_index
  pe_vpks_str :: string
  pe_vlks_str :: string
  pe_epks_str :: string
  pe_elks_str :: string
  pe_step_reorder :: bool
  pe_index_enabled :: "Element_T \<Rightarrow> int \<Rightarrow> PredicateValue option \<Rightarrow> bool \<times> u64"
  pe_atof :: "string \<Rightarrow> u64"

definition key_names :: "(string \<times> u16) list \<Rightarrow> string" where
  "key_names l = concat (map (\<lambda>(k, _). k @ '' '') l)"

definition LoadMapping :: "string_index \<Rightarrow> parser_env \<Rightarrow> parser_env" where
  "LoadMapping ix env = env\<lparr>pe_indexes := ix, pe_vpks_str := pe_vpks_str env @ key_names (str2vpk ix),
     pe_epks_str := pe_epks_str env @ key_names (str2epk ix), pe_vlks_str := pe_vlks_str env @ key_names (str2vl ix),
     pe_elks_str := pe_elks_str env @ key_names (str2el ix)\<rparr>"

definition GetPid :: "parser_env \<Rightarrow> Element_T \<Rightarrow> string \<Rightarrow> int" where
  "GetPid env ty property =
     (if property = ''label'' then 0
      else case map_of (if ty = VERTEX then str2vpk (pe_indexes env) else str2epk (pe_indexes env)) property of
             None \<Rightarrow> -1
           | Some pid \<Rightarrow> if \<not> fst (pe_index_enabled env ty (uint pid) None) then -1 else uint pid)"

record pstate =
  ps_place_holder :: "(string \<times> (int \<times> IO_T)) list"
  ps_expert_index :: int
  ps_line :: u8
  ps_last_update :: int
  ps_side_effect_key :: u8
  ps_plan :: trx_plan
  ps_read_only :: bool
  ps_io :: IO_T
  ps_first_in_sub :: int
  ps_index_count :: "u64 list"
  ps_min_count :: u64
  ps_str2ls :: "(string \<times> int) list"
  ps_str2se :: "(string \<times> int) list"
  ps_ls2type :: "(int \<times> IO_T) list"
  ps_experts :: "expert_object list"

section \<open>Actions\<close>

type_synonym 'a action = "pstate \<Rightarrow> ((string + 'a) \<times> pstate) option"

definition give :: "'a \<Rightarrow> 'a action" where "give a = (\<lambda>s. Some (Inr a, s))"
definition throw :: "string \<Rightarrow> 'a action" where "throw e = (\<lambda>s. Some (Inl e, s))"
definition look :: "(pstate \<Rightarrow> 'a) \<Rightarrow> 'a action" where "look f = (\<lambda>s. Some (Inr (f s), s))"
definition change :: "(pstate \<Rightarrow> pstate) \<Rightarrow> unit action" where "change f = (\<lambda>s. Some (Inr (), f s))"
definition expect :: "bool \<Rightarrow> string \<Rightarrow> unit action" where "expect b e = (if b then give () else throw e)"
definition must :: "'a option \<Rightarrow> 'a action" where "must x = (\<lambda>s. map_option (\<lambda>a. (Inr a, s)) x)"

definition andthen :: "'a action \<Rightarrow> ('a \<Rightarrow> 'b action) \<Rightarrow> 'b action" where
  "andthen m f = (\<lambda>s. case m s of None \<Rightarrow> None | Some (Inl e, s') \<Rightarrow> Some (Inl e, s') | Some (Inr a, s') \<Rightarrow> f a s')"

definition rethrow :: "(string \<Rightarrow> string) \<Rightarrow> 'a action \<Rightarrow> 'a action" where
  "rethrow f m = (\<lambda>s. case m s of Some (Inl e, s') \<Rightarrow> Some (Inl (f e), s') | r \<Rightarrow> r)"

fun in_order :: "unit action list \<Rightarrow> unit action" where
  "in_order [] = give ()"
| "in_order (m # ms) = andthen m (\<lambda>_. in_order ms)"

definition for_each :: "'a list \<Rightarrow> ('a \<Rightarrow> unit action) \<Rightarrow> unit action" where
  "for_each xs f = in_order (map f xs)"

definition set_io :: "IO_T \<Rightarrow> unit action" where "set_io io = change (\<lambda>s. s\<lparr>ps_io := io\<rparr>)"
definition set_updating :: "unit action" where "set_updating = change (\<lambda>s. s\<lparr>ps_read_only := False\<rparr>)"

definition add_trx_type :: "u8 \<Rightarrow> unit action" where
  "add_trx_type ty = change (\<lambda>s. s\<lparr>ps_plan := (ps_plan s)\<lparr>tp_trx_type := tp_trx_type (ps_plan s) OR ty\<rparr>\<rparr>)"

text \<open>The last expert of the query, which several methods extend.\<close>

definition on_last :: "(expert_object \<Rightarrow> expert_object) \<Rightarrow> unit action" where
  "on_last f = (\<lambda>s. if ps_experts s = [] then None
     else Some (Inr (), s\<lparr>ps_experts := butlast (ps_experts s) @ [f (last (ps_experts s))]\<rparr>))"

definition last_add_int :: "int \<Rightarrow> unit action" where
  "last_add_int i = on_last (AddParam_int i)"

definition last_add :: "parser_env \<Rightarrow> string \<Rightarrow> bool action" where
  "last_add env p = (\<lambda>s. if ps_experts s = [] then None
     else do { (ok, ex) \<leftarrow> AddParam (pe_atof env) p (last (ps_experts s));
               Some (Inr ok, s\<lparr>ps_experts := butlast (ps_experts s) @ [ex]\<rparr>) })"

definition last_push :: "value_t \<Rightarrow> unit action" where
  "last_push v = on_last (\<lambda>ex. ex\<lparr>ex_params := ex_params ex @ [v]\<rparr>)"

definition quote :: "string \<Rightarrow> string" where
  "quote t = [CHR 0x27] @ t @ [CHR 0x27]"

section \<open>Splitting parameters and predicates\<close>

definition balance_of :: "string \<Rightarrow> int" where
  "balance_of t = int (count_list t (CHR ''('')) - int (count_list t (CHR '')''))"

fun split_param_loop :: "string list \<Rightarrow> int \<Rightarrow> string \<Rightarrow> string list" where
  "split_param_loop [] balance p = []"
| "split_param_loop (t # ts) balance p =
     (let b = balance + balance_of t; p' = p @ '','' @ t
      in if b = 0 then trim p' '' ,'' # split_param_loop ts b '''' else split_param_loop ts b p')"

definition SplitParam :: "string \<Rightarrow> string list action" where
  "SplitParam param =
     (let param = trim param '' ''
      in if param \<noteq> [] \<and> last param = CHR '','' then throw (''unexpected ',' at: '' @ param)
         else give (split_param_loop (splitWithEscape param '','') 0 ''''))"

definition SplitPredicate :: "string \<Rightarrow> (Predicate_T \<times> string list) action" where
  "SplitPredicate param =
     (let param = trim param '' ''; pred = splitWithEscape param ''()''
      in case pred of
           [] \<Rightarrow> give (ANY, [''-1''])
         | [x] \<Rightarrow> give (EQ, [x])
         | [x, y] \<Rightarrow> (case map_of str2pred x of
                         Some p \<Rightarrow> andthen (SplitParam y) (\<lambda>ps. give (p, ps))
                       | None \<Rightarrow> throw (''unexpected predicate: '' @ param))
         | _ \<Rightarrow> throw (''unexpected predicate: '' @ param))"

section \<open>Types of inputs\<close>

definition IsNumber :: "IO_T \<Rightarrow> bool" where
  "IsNumber io = (io = IO_INT \<or> io = IO_DOUBLE)"

definition IsValue :: "IO_T \<Rightarrow> u8 option" where
  "IsValue io = (case io of IO_INT \<Rightarrow> Some 1 | IO_DOUBLE \<Rightarrow> Some 2 | IO_CHAR \<Rightarrow> Some 3 | IO_STRING \<Rightarrow> Some 4 | _ \<Rightarrow> None)"

definition IsElement :: "IO_T \<Rightarrow> bool" where
  "IsElement io = (io \<in> {IO_VERTEX, IO_EDGE, IO_VP, IO_EP})"

definition IsElement_type :: "IO_T \<Rightarrow> Element_T option" where
  "IsElement_type io = (case io of IO_VERTEX \<Rightarrow> Some VERTEX | IO_EDGE \<Rightarrow> Some EDGE | _ \<Rightarrow> None)"

definition Value2IO :: "u8 \<Rightarrow> IO_T action" where
  "Value2IO ty = (if ty = 1 then give IO_INT else if ty = 2 then give IO_DOUBLE else if ty = 3 then give IO_CHAR
     else if ty = 4 then give IO_STRING else throw ''unexpected error'')"

text \<open>The type of the elements that are the input, or the exception.\<close>

definition element_input :: "string \<Rightarrow> Element_T action" where
  "element_input e = andthen (look ps_io) (\<lambda>io. case IsElement_type io of Some t \<Rightarrow> give t | None \<Rightarrow> throw e)"

definition Parser_RegPlaceHolder :: "string \<Rightarrow> int \<Rightarrow> int \<Rightarrow> IO_T \<Rightarrow> unit action" where
  "Parser_RegPlaceHolder var step param_index ty =
     andthen (look (\<lambda>s. map_of (ps_place_holder s) var)) (\<lambda>r. case r of
       None \<Rightarrow> throw (''Unexpected variable '' @ quote var)
     | Some (q, io) \<Rightarrow>
         if io \<noteq> ty
         then andthen (must (IOType ty)) (\<lambda>a. andthen (must (IOType io)) (\<lambda>b.
                throw (''Expect '' @ a @ '' but get '' @ quote var @ '' with type '' @ b)))
         else change (\<lambda>s. s\<lparr>ps_plan := RegPlaceHolder (word_of_int q) (ps_line s) step param_index (ps_plan s)\<rparr>))"

end
