(* ===== verification/Parser.thy ===== *)
theory Parser
  imports Parser_Base
begin

text \<open>
  The query parser (src/core/parser.cpp, class ParserObject): a transaction, text of one query per line, becomes a
  transaction plan. One definition per method, in the order of the source.

  Parsing a query parses the sub-queries of its branching steps. The recursion is bounded by a fuel argument; the
  sub-queries are shorter than the query, so its length is enough.
\<close>

section \<open>Keys and experts\<close>

text \<open>The key map that belongs to the input type, and the types of properties by their identifier.\<close>

definition key_map :: "parser_env \<Rightarrow> IO_T \<Rightarrow> bool \<Rightarrow> ((string \<times> u16) list \<times> (string \<times> u8) list) option" where
  "key_map env io isLabel =
     (let ix = pe_indexes env
      in if io = IO_VERTEX then Some (if isLabel then str2vl ix else str2vpk ix, str2vptype ix)
         else if io = IO_EDGE then Some (if isLabel then str2el ix else str2epk ix, str2eptype ix)
         else None)"

definition ParseKeyId :: "parser_env \<Rightarrow> string \<Rightarrow> bool \<Rightarrow> int option action" where
  "ParseKeyId env key isLabel =
     look (\<lambda>s. case key_map env (ps_io s) isLabel of
       None \<Rightarrow> None
     | Some (kmap, _) \<Rightarrow> map_option uint (map_of kmap (trim key [CHR 0x22, CHR 0x27])))"

text \<open>With a place for the type of the property: \<open>vmap->at\<close> ends the process when the type is not registered.\<close>

definition ParseKeyId_type :: "parser_env \<Rightarrow> string \<Rightarrow> (int \<times> u8) option action" where
  "ParseKeyId_type env key =
     andthen (ParseKeyId env key False) (\<lambda>r. case r of
       None \<Rightarrow> give None
     | Some i \<Rightarrow> andthen (look ps_io) (\<lambda>io. andthen
         (must (case key_map env io False of None \<Rightarrow> None | Some (_, vmap) \<Rightarrow> map_of vmap (int_str i)))
         (\<lambda>ty. give (Some (i, ty)))))"

definition ExpectedKey :: "parser_env \<Rightarrow> IO_T \<Rightarrow> bool \<Rightarrow> string" where
  "ExpectedKey env io isLabel =
     (if io = IO_VERTEX then (if isLabel then pe_vlks_str env else pe_vpks_str env)
      else if io = IO_EDGE then (if isLabel then pe_elks_str env else pe_epks_str env)
      else ''ParserObject::ExpectedKey() no io_type'')"

text \<open>The key, or an exception that lists the keys there are.\<close>

definition key_or_throw :: "parser_env \<Rightarrow> string \<Rightarrow> bool \<Rightarrow> string \<Rightarrow> int action" where
  "key_or_throw env key isLabel e =
     andthen (ParseKeyId env key isLabel) (\<lambda>r. case r of
       Some i \<Rightarrow> give i
     | None \<Rightarrow> andthen (look ps_io) (\<lambda>io. throw (e @ key @ '', expected is '' @ ExpectedKey env io isLabel)))"

definition key_type_or_throw :: "parser_env \<Rightarrow> string \<Rightarrow> string \<Rightarrow> (int \<times> u8) action" where
  "key_type_or_throw env key e =
     andthen (ParseKeyId_type env key) (\<lambda>r. case r of
       Some p \<Rightarrow> give p
     | None \<Rightarrow> andthen (look ps_io) (\<lambda>io. throw (e @ key @ '', expected is '' @ ExpectedKey env io False)))"

definition AppendExpert :: "expert_object \<Rightarrow> unit action" where
  "AppendExpert ex = change (\<lambda>s. s\<lparr>ps_experts := ps_experts s @ [ex\<lparr>ex_next := int (length (ps_experts s)) + 1, ex_index := ps_expert_index s\<rparr>],
     ps_expert_index := ps_expert_index s + 1\<rparr>)"

definition RemoveLastExpert :: "unit action" where
  "RemoveLastExpert = (\<lambda>s. if ps_experts s = [] then None
     else Some (Inr (), s\<lparr>ps_experts := butlast (ps_experts s), ps_expert_index := ps_expert_index s - 1\<rparr>))"

text \<open>
  The loops that follow \<open>next_expert\<close> until it equals \<open>target\<close>. A walk that has taken as many steps as there are
  experts goes round in a circle, so that the loop never ends: \<open>None\<close>, like a step outside the vector.
\<close>

fun follow_next :: "nat \<Rightarrow> expert_object list \<Rightarrow> int \<Rightarrow> int \<Rightarrow> nat option" where
  "follow_next 0 es target i = None"
| "follow_next (Suc n) es target i =
     (if i < 0 \<or> length es \<le> nat i then None
      else if ex_next (es ! nat i) = target then Some (nat i)
      else follow_next n es target (ex_next (es ! nat i)))"

definition CheckLastExpert :: "EXPERT_T \<Rightarrow> bool action" where
  "CheckLastExpert ty =
     andthen (look (\<lambda>s. (ps_experts s, ps_first_in_sub s))) (\<lambda>(es, first).
       if int (length es) - 1 < first then give False
       else andthen (must (follow_next (length es) es (int (length es)) (int (length es) - 1)))
              (\<lambda>i. give (ex_type (es ! i) = ty)))"

definition CheckIfQuery :: "string \<Rightarrow> bool" where
  "CheckIfQuery param = (map_of str2step (takeWhile (\<lambda>c. c \<noteq> CHR ''('') param) \<noteq> None)"

definition GetStepPriority :: "Step_T \<Rightarrow> int" where
  "GetStepPriority t =
     (if t \<in> {S_IS, S_WHERE} then 0 else if t \<in> {S_HAS, S_HASNOT, S_HASKEY, S_HASVALUE} then 1
      else if t = S_HASLABEL then 2 else if t \<in> {S_AND, S_OR, S_NOT} then 3 else if t = S_DEDUP then 4
      else if t = S_AS then 5 else if t = S_ORDER then 6 else -1)"

section \<open>Commands that are not queries\<close>

definition ParseIndex :: "parser_env \<Rightarrow> string \<Rightarrow> unit action" where
  "ParseIndex env param =
     (case splitWithEscape param '',() '' of
        [_, p1, p2] \<Rightarrow>
          andthen (if p1 = ''V'' then andthen (set_io IO_VERTEX) (\<lambda>_. give VERTEX)
                   else if p1 = ''E'' then andthen (set_io IO_EDGE) (\<lambda>_. give EDGE)
                   else throw (''expect V/E but get: '' @ p1)) (\<lambda>ty.
          let p2 = trim p2 [CHR 0x22] in
          andthen (if p2 = ''label'' then give 0 else key_or_throw env p2 False ''unexpected property key: '') (\<lambda>key.
          in_order [AppendExpert (AddParam_int key (AddParam_int (element_int ty) (Expert_Object E_INDEX))), set_updating]))
      | _ \<Rightarrow> throw ''expect 2 parameters'')"

definition char0 :: "string \<Rightarrow> char" where
  "char0 t = (case t of [] \<Rightarrow> CHR 0x00 | c # _ \<Rightarrow> c)"

definition ParseSetConfig :: "string \<Rightarrow> unit action" where
  "ParseSetConfig param =
     (case splitWithEscape param '',() '' of
        [_, p1, p2] \<Rightarrow>
          let p1 = trim p1 [CHR 0x22]; p2 = trim p2 [CHR 0x22];
              ex = (Expert_Object E_CONFIG)\<lparr>ex_params := [str2str p1 new_value]\<rparr>
          in andthen
               (if p2 = ''enable'' \<or> char0 p2 = CHR ''y'' \<or> char0 p2 = CHR ''t'' then give (AddParam_int 1 ex)
                else if p2 = ''disable'' \<or> char0 p2 = CHR ''n'' \<or> char0 p2 = CHR ''f'' then give (AddParam_int 0 ex)
                else andthen (must (checktype p2)) (\<lambda>ct.
                  if ct = 1 \<or> ct = 4 then give (ex\<lparr>ex_params := ex_params ex @ [str2int p2 new_value]\<rparr>)
                  else throw (''expect 'enable' or 'y' or '' @ quote ''t'')))
               (\<lambda>ex. in_order [AppendExpert ex, set_updating])
      | _ \<Rightarrow> throw ''expect 2 parameters'')"

definition ParseDisplayStatus :: "string \<Rightarrow> unit action" where
  "ParseDisplayStatus param =
     (case splitWithEscape param '',() '' of
        [_, p1] \<Rightarrow> in_order [AppendExpert ((Expert_Object E_STATUS)\<lparr>ex_params := [str2str (trim p1 [CHR 0x22]) new_value]\<rparr>),
                            set_updating]
      | _ \<Rightarrow> throw ''expect 1 parameter'')"

definition ClearTrx :: "pstate \<Rightarrow> pstate" where
  "ClearTrx s = s\<lparr>ps_expert_index := 0, ps_line := 0, ps_side_effect_key := 0, ps_last_update := -1, ps_place_holder := []\<rparr>"

definition ClearQuery :: "pstate \<Rightarrow> pstate" where
  "ClearQuery s = s\<lparr>ps_experts := [], ps_index_count := [], ps_str2ls := [], ps_ls2type := [], ps_str2se := [],
     ps_min_count := -1, ps_first_in_sub := 0, ps_read_only := True\<rparr>"

section \<open>Steps of a query\<close>

text \<open>
  \<open>match_paren d s\<close>: the text up to the bracket that closes \<open>d\<close> open ones, and the text after it. In \<open>get_steps_loop\<close>
  the flag says that nothing has been read yet: there \<open>query.substr(pos - 1)\<close> has the position \<open>npos\<close> and raises
  \<open>std::out_of_range\<close>; later the character before \<open>pos\<close> is the dot.
\<close>

fun match_paren :: "nat \<Rightarrow> string \<Rightarrow> (string \<times> string) option" where
  "match_paren d [] = None"
| "match_paren d (c # s) =
     (if c = CHR ''('' then map_option (\<lambda>(p, r). (c # p, r)) (match_paren (d + 1) s)
      else if c = CHR '')''
           then (if d = 1 then Some ([], s) else map_option (\<lambda>(p, r). (c # p, r)) (match_paren (d - 1) s))
      else map_option (\<lambda>(p, r). (c # p, r)) (match_paren d s))"

lemma match_paren_length: "match_paren d s = Some (p, r) \<Longrightarrow> length p + length r < length s"
  by (induction d s arbitrary: p r rule: match_paren.induct) (auto split: if_splits)

datatype steps_result = Steps "(Step_T \<times> string) list" | Bad string | Out_of_range

definition add_step :: "Step_T \<times> string \<Rightarrow> steps_result \<Rightarrow> steps_result" where
  "add_step t r = (case r of Steps ts \<Rightarrow> Steps (t # ts) | _ \<Rightarrow> r)"

function get_steps_loop :: "bool \<Rightarrow> string \<Rightarrow> steps_result" where
  "get_steps_loop first q =
     (if CHR ''('' \<notin> set q
      then (if q = [] then Steps [] else if first then Out_of_range
            else Bad (''unexpected words at the end: '' @ quote (CHR ''.'' # q)))
      else let step = takeWhile (\<lambda>c. c \<noteq> CHR ''('') q; rest = tl (dropWhile (\<lambda>c. c \<noteq> CHR ''('') q) in
        case map_of str2step step of
          None \<Rightarrow> Bad (''unexpected step: '' @ step)
        | Some t \<Rightarrow>
            case match_paren 1 rest of
              None \<Rightarrow> Bad ''parentheses not balanced''
            | Some pr \<Rightarrow>
                if snd pr = [] then Steps [(t, trim (fst pr) '' '')]
                else if hd (snd pr) \<noteq> CHR ''.'' then Bad (''expect '.' after '' @ quote '')'')
                else add_step (t, trim (fst pr) '' '') (get_steps_loop False (tl (snd pr))))"
  by pat_completeness auto

termination
proof (relation "measure (\<lambda>(_, q). length q)")
  fix first :: bool and q step rest and t :: Step_T and pr :: "string \<times> string"
  assume r: "rest = tl (dropWhile (\<lambda>c. c \<noteq> CHR ''('') q)" and m: "match_paren 1 rest = Some pr" and n: "snd pr \<noteq> []"
  have "length (snd pr) < length rest" using match_paren_length [of 1 rest "fst pr" "snd pr"] m by simp
  moreover have "length (dropWhile (\<lambda>c. c \<noteq> CHR ''('') q) \<le> length q" by (rule length_dropWhile_le)
  then have "length rest \<le> length q" by (simp add: r)
  ultimately have "length (tl (snd pr)) < length q" by simp
  then show "((False, tl (snd pr)), (first, q)) \<in> measure (\<lambda>(_, q). length q)" by simp
qed simp

declare get_steps_loop.simps [simp del]

definition GetSteps :: "string \<Rightarrow> (Step_T \<times> string) list action" where
  "GetSteps query =
     (if query = [] then throw ''empty query''
      else case get_steps_loop True query of Steps ts \<Rightarrow> give ts | Bad e \<Rightarrow> throw e | Out_of_range \<Rightarrow> must None)"

text \<open>One step moves forward while the step before it has a higher priority.\<close>

fun move_forward :: "bool \<Rightarrow> int \<Rightarrow> nat \<Rightarrow> (Step_T \<times> string) list \<Rightarrow> (Step_T \<times> string) list" where
  "move_forward checkAs priority 0 ts = ts"
| "move_forward checkAs priority (Suc j) ts =
     (if checkAs \<and> fst (ts ! j) = S_AS then ts
      else if GetStepPriority (fst (ts ! j)) > priority
           then move_forward checkAs priority j (ts[Suc j := ts ! j, j := ts ! Suc j])
      else ts)"

definition reorder_step :: "nat \<Rightarrow> (Step_T \<times> string) list \<Rightarrow> (Step_T \<times> string) list" where
  "reorder_step i ts =
     (let (t, p) = ts ! i; priority = GetStepPriority t
      in if priority = -1 then ts
         else if t = S_WHERE
              then (if CheckIfQuery p then move_forward False (GetStepPriority S_AND) i ts
                    else move_forward True priority i ts)
         else if t = S_DEDUP then move_forward (p \<noteq> []) priority i ts
         else move_forward False priority i ts)"

definition ReOrderSteps :: "parser_env \<Rightarrow> (Step_T \<times> string) list \<Rightarrow> (Step_T \<times> string) list" where
  "ReOrderSteps env ts = (if pe_step_reorder env then fold reorder_step [1 ..< length ts] ts else ts)"

section \<open>Predicates and sub-queries\<close>

definition names_of_keys :: "(string \<times> int) list \<Rightarrow> string" where
  "names_of_keys l = concat (map (\<lambda>(k, _). k @ '' '') l)"

fun keys_to_ids :: "(string \<times> int) list \<Rightarrow> string list \<Rightarrow> string list action" where
  "keys_to_ids l [] = give []"
| "keys_to_ids l (p # ps) =
     (case map_of l p of
        None \<Rightarrow> throw (''unexpected key: '' @ p @ '', avail is '' @ names_of_keys l)
      | Some i \<Rightarrow> andthen (keys_to_ids l ps) (\<lambda>r. give (int_str i # r)))"

definition predicate_value :: "parser_env \<Rightarrow> string \<Rightarrow> u8 \<Rightarrow> Predicate_T \<Rightarrow> string list \<Rightarrow> value_t action" where
  "predicate_value env param ty p ps =
     (let collection = andthen (must (vec2value_t (pe_atof env) ps (uint ty) new_value))
            (\<lambda>(ok, v). if ok then give v else throw (''predicate type not match: '' @ param))
      in if p \<in> {GT, GTE, LT, LTE, EQ, NEQ, ANY}
         then (case ps of
                 [x] \<Rightarrow> andthen (must (str2value_t (pe_atof env) x new_value))
                          (\<lambda>(ok, v). if ok then give v else throw (''unexpected value: '' @ param))
               | _ \<Rightarrow> throw (''expect only one param: '' @ param))
         else if p \<in> {INSIDE, OUTSIDE, BETWEEN}
              then (if length ps \<noteq> 2 then throw (''expect two params: '' @ param) else collection)
         else if p \<in> {WITHIN, WITHOUT} then collection
         else give new_value)"

text \<open>The predicate's type and value become parameters of the last expert.\<close>

definition ParsePredicate :: "parser_env \<Rightarrow> string \<Rightarrow> u8 \<Rightarrow> bool \<Rightarrow> unit action" where
  "ParsePredicate env param ty toKey =
     andthen (SplitPredicate param) (\<lambda>(p, ps).
     andthen (if toKey
              then andthen (look (\<lambda>s. if p = WITHIN \<or> p = WITHOUT then ps_str2se s else ps_str2ls s)) (\<lambda>l. keys_to_ids l ps)
              else give ps) (\<lambda>ps.
     andthen (predicate_value env (trim param '' '') ty p ps) (\<lambda>v.
     in_order [last_add_int (pred_int p), last_push v])))"

definition set_next :: "nat \<Rightarrow> int \<Rightarrow> unit action" where
  "set_next i n = (\<lambda>s. if i < length (ps_experts s)
     then Some (Inr (), s\<lparr>ps_experts := (ps_experts s)[i := (ps_experts s ! i)\<lparr>ex_next := n\<rparr>]\<rparr>) else None)"

definition add_param_at :: "nat \<Rightarrow> int \<Rightarrow> unit action" where
  "add_param_at i n = (\<lambda>s. if i < length (ps_experts s)
     then Some (Inr (), s\<lparr>ps_experts := (ps_experts s)[i := AddParam_int n (ps_experts s ! i)]\<rparr>) else None)"

text \<open>
  One sub-query: the accumulator has the output type of the first sub-query and the place where the experts of this
  one begin. The last expert of the sub-query leads back to the branching expert.
\<close>

definition parse_one_sub :: "(string \<Rightarrow> unit action) \<Rightarrow> nat \<Rightarrow> bool \<Rightarrow> IO_T \<Rightarrow> string \<Rightarrow> IO_T option \<times> nat \<Rightarrow>
    (IO_T option \<times> nat) action" where
  "parse_one_sub pq current filterBranch current_type sub acc =
     andthen (in_order [set_io current_type, change (\<lambda>s. s\<lparr>ps_first_in_sub := int (length (ps_experts s))\<rparr>), pq sub]) (\<lambda>_.
     andthen (look ps_io) (\<lambda>io.
     andthen (expect (case fst acc of None \<Rightarrow> True | Some t \<Rightarrow> filterBranch \<or> t = io)
                ''expect same output type in sub queries'') (\<lambda>_.
     andthen (add_param_at current (int (snd acc))) (\<lambda>_.
     andthen (look ps_experts) (\<lambda>es.
     andthen (must (follow_next (length es) es (int (length es)) (int (length es) - 1))) (\<lambda>last_of_branch.
     andthen (set_next last_of_branch (int current)) (\<lambda>_.
     give (Some (case fst acc of None \<Rightarrow> io | Some t \<Rightarrow> t), length es))))))))"

fun parse_subs :: "(string \<Rightarrow> unit action) \<Rightarrow> nat \<Rightarrow> bool \<Rightarrow> IO_T \<Rightarrow> string list \<Rightarrow> IO_T option \<times> nat \<Rightarrow>
    (IO_T option \<times> nat) action" where
  "parse_subs pq current filterBranch current_type [] acc = give acc"
| "parse_subs pq current filterBranch current_type (sub # subs) acc =
     andthen (parse_one_sub pq current filterBranch current_type sub acc) (parse_subs pq current filterBranch current_type subs)"

definition ParseSub :: "(string \<Rightarrow> unit action) \<Rightarrow> string list \<Rightarrow> nat \<Rightarrow> bool \<Rightarrow> unit action" where
  "ParseSub pq params current filterBranch =
     andthen (look (\<lambda>s. (length (ps_experts s), ps_io s, ps_first_in_sub s))) (\<lambda>(sub_step, current_type, m_first_in_sub).
     andthen (parse_subs pq current filterBranch current_type params (None, sub_step)) (\<lambda>(_, sub_step).
     in_order [set_next current (int sub_step),
               (if filterBranch then set_io current_type else give ()),
               change (\<lambda>s. s\<lparr>ps_first_in_sub := m_first_in_sub\<rparr>)]))"

section \<open>Experts\<close>

fun find_sub :: "string \<Rightarrow> string \<Rightarrow> nat option" where
  "find_sub pat [] = (if pat = [] then Some 0 else None)"
| "find_sub pat (c # s) = (if take (length pat) (c # s) = pat then Some 0 else map_option Suc (find_sub pat s))"

text \<open>
  \<open>query.find("g.addV")\<close> is used as a truth value: it is false only for position 0. \<open>substr(2)\<close> raises
  \<open>std::out_of_range\<close> on a shorter text.
\<close>

definition drop_g :: "string \<Rightarrow> string action" where
  "drop_g q = must (if length q < 2 then None else Some (drop 2 q))"

definition init_element :: "string \<Rightarrow> string \<Rightarrow> IO_T \<Rightarrow> Element_T \<Rightarrow> (string \<times> string) action" where
  "init_element var_name query io ty =
     andthen (set_io io) (\<lambda>_.
       case find_sub '').'' query of
         None \<Rightarrow> throw ''Execute query with g.V() or g.E()''
       | Some idx \<Rightarrow>
           if idx < 4 then throw ''Execute query with g.V() or g.E()''
           else andthen (if idx > 4 then Parser_RegPlaceHolder (take (idx - 4) (drop 4 query)) 0 2 io else give ()) (\<lambda>_.
             let q = drop (idx + 2) query
             in if length q < 3 then throw (''Unexpected query ending with '' @ quote q @ [CHR 0x27])
                else andthen (AppendExpert (AddParam_int (bool_int (idx > 4)) (AddParam_int (element_int ty) (Expert_Object E_INIT))))
                       (\<lambda>_. give (var_name, q))))"

definition ParseInit :: "string \<Rightarrow> (string \<times> string) action" where
  "ParseInit line =
     andthen (if CHR ''='' \<in> set line
              then let var = trim (takeWhile (\<lambda>c. c \<noteq> CHR ''='') line) '' '';
                       query = trim (tl (dropWhile (\<lambda>c. c \<noteq> CHR ''='') line)) '' ''
                   in if var = [] then throw (''expect variable name at the left of '' @ quote ''='') else give (var, query)
              else give ([], line)) (\<lambda>(var_name, query).
     if find_sub ''g.V'' query = Some 0 then init_element var_name query IO_VERTEX VERTEX
     else if find_sub ''g.E'' query = Some 0 then init_element var_name query IO_EDGE EDGE
     else if find_sub ''g.addV'' query \<noteq> Some 0
          then andthen (set_io IO_VERTEX) (\<lambda>_. andthen (drop_g query) (\<lambda>q. give (var_name, q)))
     else if find_sub ''g.addE'' query \<noteq> Some 0
          then andthen (set_io IO_EDGE) (\<lambda>_. andthen (drop_g query) (\<lambda>q. give (var_name, q)))
     else throw ''Execute query with g.V or g.E'')"

definition ParseAddE :: "parser_env \<Rightarrow> string list \<Rightarrow> unit action" where
  "ParseAddE env params =
     (case params of
        [p] \<Rightarrow>
          andthen (look ps_io) (\<lambda>io.
          andthen (expect (io = IO_VERTEX) ''expect vertex before addE'') (\<lambda>_.
          andthen (set_io IO_EDGE) (\<lambda>_.
          andthen (key_or_throw env p True ''unexpected label in addE : '') (\<lambda>lid.
          in_order [AppendExpert ((Expert_Object E_ADDE)\<lparr>ex_params :=
                      [str2int (int_str lid) new_value, str2int (int_str (method_int NotApplicable)) new_value, new_value,
                       str2int (int_str (method_int NotApplicable)) new_value, new_value]\<rparr>),
                    add_trx_type TRX_ADD, set_updating]))))
      | _ \<Rightarrow> throw ''expect one parameter for addE'')"

definition ParseFromTo :: "string list \<Rightarrow> Step_T \<Rightarrow> unit action" where
  "ParseFromTo params ty =
     andthen (CheckLastExpert E_ADDE) (\<lambda>ok.
     andthen (expect ok ''expect 'addE()' before from/to'') (\<lambda>_.
     andthen (if ty = S_FROM then give 1 else if ty = S_TO then give 3 else throw ''unexpected error'') (\<lambda>param_index.
     case params of
       [] \<Rightarrow> must None
     | p # _ \<Rightarrow>
         andthen (look (\<lambda>s. (map_of (ps_str2ls s) p, map_of (ps_place_holder s) p, length (ps_experts s)))) (\<lambda>(ls, ph, n).
         andthen (case ls of
                    Some k \<Rightarrow> give (StepLabel, k)
                  | None \<Rightarrow> if ph \<noteq> None
                      then andthen (Parser_RegPlaceHolder p (int n - 1) (param_index + 1) IO_VERTEX) (\<lambda>_. give (PlaceHolder, -1))
                      else throw (''unexpected varaiable '' @ p)) (\<lambda>(method, key).
         on_last (\<lambda>ex. snd (ModifyParam_int key (param_index + 1)
           (snd (ModifyParam_int (method_int method) param_index ex))))))))) "

definition ParseAddV :: "parser_env \<Rightarrow> string list \<Rightarrow> unit action" where
  "ParseAddV env params =
     (case params of
        [p] \<Rightarrow>
          andthen (set_io IO_VERTEX) (\<lambda>_.
          andthen (key_or_throw env p True ''unexpected label in addV : '') (\<lambda>lid.
          in_order [AppendExpert (AddParam_int lid (Expert_Object E_ADDV)), add_trx_type TRX_ADD, set_updating]))
      | _ \<Rightarrow> throw ''expect one parameter for addV'')"

definition ParseAggregate :: "string list \<Rightarrow> unit action" where
  "ParseAggregate params =
     (case params of
        [key] \<Rightarrow>
          andthen (change (\<lambda>s. if map_of (ps_str2se s) key = None
                     then s\<lparr>ps_str2se := ordered_map_insert key (uint (ps_side_effect_key s)) (ps_str2se s),
                            ps_side_effect_key := ps_side_effect_key s + 1\<rparr> else s)) (\<lambda>_.
          andthen (look (\<lambda>s. (map_at (ps_str2se s) key 0, ps_io s))) (\<lambda>(k, io).
          AppendExpert ((AddParam_int k (Expert_Object E_AGGREGATE))\<lparr>ex_send_remote := IsElement io\<rparr>)))
      | _ \<Rightarrow> throw ''expect one parameter for aggregate'')"

definition ParseAs :: "string list \<Rightarrow> unit action" where
  "ParseAs params =
     (case params of
        [key] \<Rightarrow>
          andthen (look (\<lambda>s. (map_of (ps_str2ls s) key, int (length (ps_experts s))))) (\<lambda>(old, ls_id).
          andthen (expect (old = None) (''duplicated key: '' @ key)) (\<lambda>_.
          in_order [change (\<lambda>s. s\<lparr>ps_str2ls := ordered_map_insert key ls_id (ps_str2ls s),
                                ps_ls2type := ordered_map_insert ls_id (ps_io s) (ps_ls2type s)\<rparr>),
                    AppendExpert (AddParam_int ls_id (Expert_Object E_AS))]))
      | _ \<Rightarrow> throw ''expect one parameter for as'')"

text \<open>A branching expert is appended first and then gets its sub-queries.\<close>

definition parse_branching :: "(string \<Rightarrow> unit action) \<Rightarrow> expert_object \<Rightarrow> string list \<Rightarrow> bool \<Rightarrow> unit action" where
  "parse_branching pq ex params filterBranch =
     andthen (look (\<lambda>s. length (ps_experts s))) (\<lambda>current.
     andthen (AppendExpert ex) (\<lambda>_. ParseSub pq params current filterBranch))"

definition ParseBranch :: "(string \<Rightarrow> unit action) \<Rightarrow> string list \<Rightarrow> unit action" where
  "ParseBranch pq params =
     (if params = [] then throw ''expect at least one parameter for branch''
      else parse_branching pq (Expert_Object E_BRANCH) params False)"

definition ParseBranchFilter :: "(string \<Rightarrow> unit action) \<Rightarrow> string list \<Rightarrow> Step_T \<Rightarrow> unit action" where
  "ParseBranchFilter pq params ty =
     (if params = [] then throw ''expect at least one parameter for branch filter''
      else andthen (if ty = S_AND then give F_AND else if ty = S_OR then give F_OR else if ty = S_NOT then give F_NOT
                    else throw ''unexpected error'') (\<lambda>f.
        parse_branching pq (AddParam_int (filter_int f) (Expert_Object E_BRANCHFILTER)) params True))"

fun cap_params :: "parser_env \<Rightarrow> (string \<times> int) list \<Rightarrow> string list \<Rightarrow> expert_object \<Rightarrow> expert_object action" where
  "cap_params env l [] ex = give ex"
| "cap_params env l (key # keys) ex =
     (case map_of l key of
        None \<Rightarrow> throw (''unexpected key in cap: '' @ key)
      | Some k \<Rightarrow> andthen (must (AddParam (pe_atof env) key (AddParam_int k ex))) (\<lambda>(_, ex). cap_params env l keys ex))"

definition ParseCap :: "parser_env \<Rightarrow> string list \<Rightarrow> unit action" where
  "ParseCap env params =
     (if params = [] then throw ''expect at least one parameter for cap''
      else andthen (look ps_str2se) (\<lambda>l. andthen (cap_params env l params (Expert_Object E_CAP)) (\<lambda>ex.
        in_order [AppendExpert ex, set_io IO_COLLECTION])))"

definition ParseCount :: "string list \<Rightarrow> unit action" where
  "ParseCount params =
     (if params \<noteq> [] then throw ''expect no parameter for count''
      else in_order [AppendExpert (Expert_Object E_COUNT), set_io IO_INT])"

fun dedup_params :: "(string \<times> int) list \<Rightarrow> string list \<Rightarrow> expert_object \<Rightarrow> expert_object action" where
  "dedup_params l [] ex = give ex"
| "dedup_params l (key # keys) ex =
     (case map_of l key of
        None \<Rightarrow> throw (''unexpected key in dedup: '' @ key)
      | Some k \<Rightarrow> dedup_params l keys (AddParam_int k ex))"

definition ParseDedup :: "string list \<Rightarrow> unit action" where
  "ParseDedup params =
     andthen (look (\<lambda>s. (ps_str2ls s, ps_io s))) (\<lambda>(l, io).
     andthen (dedup_params l params (Expert_Object E_DEDUP)) (\<lambda>ex. AppendExpert (ex\<lparr>ex_send_remote := IsElement io\<rparr>)))"

definition drop_expert :: "Element_T \<Rightarrow> bool \<Rightarrow> expert_object" where
  "drop_expert ty isProperty = AddParam_int (bool_int isProperty) (AddParam_int (element_int ty) (Expert_Object E_DROP))"

definition ParseDrop :: "string list \<Rightarrow> unit action" where
  "ParseDrop params =
     (if params \<noteq> [] then throw ''expect no param in drop''
      else andthen (look ps_io) (\<lambda>io.
        andthen (case io of IO_VP \<Rightarrow> give (VERTEX, True) | IO_VERTEX \<Rightarrow> give (VERTEX, False) | IO_EP \<Rightarrow> give (EDGE, True)
                 | IO_EDGE \<Rightarrow> give (EDGE, False) | _ \<Rightarrow> throw ''Unexpected input type before drop'') (\<lambda>(ty, isProperty).
        in_order [AppendExpert (drop_expert ty isProperty),
                  (if io = IO_VERTEX then AppendExpert (drop_expert EDGE False) else give ()),
                  add_trx_type TRX_DELETE, set_updating])))"

definition ParseProject :: "Element_T \<Rightarrow> int \<Rightarrow> int \<Rightarrow> unit action" where
  "ParseProject ty key_id value_id =
     AppendExpert (AddParam_int value_id (AddParam_int key_id (AddParam_int (element_int ty) (Expert_Object E_PROJECT))))"

fun group_keys :: "parser_env \<Rightarrow> string list \<Rightarrow> int list action" where
  "group_keys env [] = give []"
| "group_keys env (p # ps) =
     andthen (if p \<noteq> ''label'' then key_or_throw env p False ''no such property key: '' else give 0) (\<lambda>k.
     andthen (group_keys env ps) (\<lambda>ks. give (k # ks)))"

definition ParseGroup :: "parser_env \<Rightarrow> string list \<Rightarrow> Step_T \<Rightarrow> unit action" where
  "ParseGroup env params ty =
     (if length params > 2 then throw ''expect at most two params in group''
      else andthen
        (if params = [] then give (-1)
         else andthen (element_input ''expect vertex/edge input for group by key'') (\<lambda>et.
              andthen (group_keys env params) (\<lambda>ks.
              andthen (look (\<lambda>s. int (length (ps_experts s)))) (\<lambda>ls_key.
              andthen (ParseProject et (ks ! 0) (if length ks = 2 then ks ! 1 else -1)) (\<lambda>_. give ls_key))))) (\<lambda>ls_key.
        in_order [AppendExpert (AddParam_int ls_key (AddParam_int (bool_int (ty = S_GROUPCOUNT)) (Expert_Object E_GROUP))),
                  set_io IO_COLLECTION]))"

text \<open>
  \<open>has\<close>: the predicates of the step become parameters of a \<open>HAS\<close> expert; when it follows the first expert and an index
  serves the predicate, they are moved to that expert. \<open>move_large\<close> then moves the predicates with too large a count
  back; the source computes their place as \<open>1 + 3 * i\<close>.
\<close>

fun move_large :: "u64 \<Rightarrow> u64 list \<Rightarrow> nat \<Rightarrow> value_t list \<Rightarrow> value_t list \<Rightarrow> (u64 list \<times> value_t list \<times> value_t list) option" where
  "move_large mc [] i init has = Some ([], init, has)"
| "move_large mc (c # cs) i init has =
     (if mc \<le> c div 3
      then let first = 1 + 3 * i in
           do { CHECK (first + 3 \<le> length init);
                move_large mc cs i (take first init @ drop (first + 3) init) (has @ take 3 (drop first init)) }
      else do { (cs, init, has) \<leftarrow> move_large mc cs (Suc i) init has; Some (c # cs, init, has) })"

definition move_to_init :: "u64 \<Rightarrow> expert_object \<Rightarrow> expert_object \<Rightarrow> unit action" where
  "move_to_init cnt init has = (\<lambda>s.
     do { let n = length (ex_params has);
          let init_params = ex_params init @ drop (n - 3) (ex_params has);
          let has_params = take (n - 3) (ex_params has);
          (counts, init_params, has_params) \<leftarrow>
            (if cnt < ps_min_count s then move_large cnt (ps_index_count s) 0 init_params has_params
             else Some (ps_index_count s, init_params, has_params));
          let s = s\<lparr>ps_experts := [init\<lparr>ex_params := init_params\<rparr>, has\<lparr>ex_params := has_params\<rparr>],
                    ps_index_count := counts @ [cnt],
                    ps_min_count := (if cnt < ps_min_count s then cnt else ps_min_count s)\<rparr>;
          (if length has_params = 1 then RemoveLastExpert s else Some (Inr (), s)) })"

definition index_has :: "parser_env \<Rightarrow> Element_T \<Rightarrow> int \<Rightarrow> unit action" where
  "index_has env ty key = (\<lambda>s.
     (case ps_experts s of
        [init, has] \<Rightarrow>
          if key = -1 then Some (Inr (), s)
          else do {
            let n = length (ex_params has);
            CHECK (3 \<le> n);
            pi \<leftarrow> value_t2int (ex_params has ! (n - 2));
            p \<leftarrow> enum_cast all_Predicate_T pi;
            let r = pe_index_enabled env ty key (Some (PredicateValue_of_value p (ex_params has ! (n - 1))));
            if fst r \<and> snd r div 3 < ps_min_count s then move_to_init (snd r) init has s else Some (Inr (), s) }
      | _ \<Rightarrow> Some (Inr (), s)))"

definition ParseHas :: "parser_env \<Rightarrow> string list \<Rightarrow> Step_T \<Rightarrow> unit action" where
  "ParseHas env params ty =
     (if params = [] then throw ''expect at least one param for has''
      else andthen (element_input ''expect vertex/edge input for has'') (\<lambda>et.
        andthen (CheckLastExpert E_HAS) (\<lambda>ok.
        andthen (if ok then give () else AppendExpert (AddParam_int (element_int et) (Expert_Object E_HAS))) (\<lambda>_.
        andthen
          (if ty = S_HAS then
             (if length params > 2 then throw ''expect at most two params for has''
              else andthen (key_type_or_throw env (params ! 0) ''Unexpected key: '') (\<lambda>(key, vtype).
                   andthen (last_add_int key) (\<lambda>_.
                   andthen (ParsePredicate env (if length params = 2 then params ! 1 else '''') vtype False) (\<lambda>_. give key))))
           else if ty = S_HASVALUE then
             andthen (for_each params (\<lambda>p. andthen (last_add_int (-1)) (\<lambda>_. andthen (last_add_int (pred_int EQ)) (\<lambda>_.
               andthen (last_add env p) (\<lambda>ok. expect ok (''unexpected value: '' @ p)))))) (\<lambda>_. give (-1))
           else if ty = S_HASNOT \<or> ty = S_HASKEY then
             (if length params \<noteq> 1
              then throw (''expect at most two params for '' @ (if ty = S_HASNOT then ''hasNot'' else ''hasKey''))
              else andthen (key_or_throw env (params ! 0) False
                     (''unexpected key in '' @ (if ty = S_HASNOT then ''hasNot'' else ''hasKey'') @ '' : '')) (\<lambda>key.
                   andthen (in_order [last_add_int key, last_add_int (pred_int (if ty = S_HASNOT then NONE else ANY)),
                                      last_add_int (-1)]) (\<lambda>_. give key)))
           else throw ''unexpected error'') (\<lambda>key.
        index_has env et key)))))"

definition index_hasLabel :: "parser_env \<Rightarrow> Element_T \<Rightarrow> unit action" where
  "index_hasLabel env ty = (\<lambda>s.
     (case ps_experts s of
        [init, has] \<Rightarrow>
          if ex_params has = [] then None
          else let pred_params = tl (ex_params has) in
            if fst (pe_index_enabled env ty 0 (Some \<lparr>pred_type = WITHIN, pred_values = pred_params\<rparr>))
            then Some (Inr (), s\<lparr>ps_expert_index := ps_expert_index s - 1,
              ps_experts := [let e = AddParam_int (pred_int WITHIN) (AddParam_int 0 init)
                             in e\<lparr>ex_params := ex_params e @ [snd (values2value_t pred_params new_value)]\<rparr>]\<rparr>)
            else Some (Inr (), s)
      | _ \<Rightarrow> Some (Inr (), s)))"

definition ParseHasLabel :: "parser_env \<Rightarrow> string list \<Rightarrow> unit action" where
  "ParseHasLabel env params =
     (if params = [] then throw ''expect at least one param for hasLabel''
      else andthen (element_input ''expect vertex/edge input for hasLabel'') (\<lambda>et.
        andthen (CheckLastExpert E_HASLABEL) (\<lambda>ok.
        in_order [(if ok then give () else AppendExpert (AddParam_int (element_int et) (Expert_Object E_HASLABEL))),
                  for_each params (\<lambda>p. andthen (key_or_throw env p True ''unexpected label in hasLabel : '') last_add_int),
                  index_hasLabel env et])))"

definition ParseIs :: "parser_env \<Rightarrow> string list \<Rightarrow> unit action" where
  "ParseIs env params =
     (if length params \<noteq> 1 then throw ''expect one param for is''
      else andthen (look ps_io) (\<lambda>io.
        case IsValue io of
          None \<Rightarrow> throw ''unexpected input type for is''
        | Some ty \<Rightarrow>
            andthen (CheckLastExpert E_IS) (\<lambda>ok.
            in_order [(if ok then give () else AppendExpert (Expert_Object E_IS)), ParsePredicate env (params ! 0) ty False])))"

definition ParseKey :: "string list \<Rightarrow> unit action" where
  "ParseKey params =
     (if params \<noteq> [] then throw ''expect no parameter for key''
      else andthen (element_input ''expect vertex/edge input for key'') (\<lambda>et.
        in_order [AppendExpert (AddParam_int (element_int et) (Expert_Object E_KEY)), set_io IO_STRING]))"

definition ParseLabel :: "string list \<Rightarrow> unit action" where
  "ParseLabel params =
     (if params \<noteq> [] then throw ''expect no parameter for label''
      else andthen (element_input ''expect vertex/edge input for label'') (\<lambda>et.
        in_order [AppendExpert (AddParam_int (element_int et) (Expert_Object E_LABEL)), set_io IO_STRING]))"

definition ParseMath :: "string list \<Rightarrow> Step_T \<Rightarrow> unit action" where
  "ParseMath params ty =
     (if params \<noteq> [] then throw ''expect no parameter for math''
      else andthen (look ps_io) (\<lambda>io.
        andthen (expect (IsNumber io) ''expect number input for math related step'') (\<lambda>_.
        andthen (if ty = S_MAX then give MT_MAX else if ty = S_MEAN then give MT_MEAN else if ty = S_MIN then give MT_MIN
                 else if ty = S_SUM then give MT_SUM else throw ''unexpected error'') (\<lambda>mt.
        in_order [AppendExpert (AddParam_int (math_int mt) (Expert_Object E_MATH)), set_io IO_DOUBLE]))))"

fun order_params :: "parser_env \<Rightarrow> string list \<Rightarrow> int \<times> Order_T \<Rightarrow> (int \<times> Order_T) action" where
  "order_params env [] acc = give acc"
| "order_params env (p # ps) acc =
     (if p = ''incr'' \<or> p = ''decr'' then order_params env ps (fst acc, if p = ''incr'' then INCR else DECR)
      else andthen (element_input ''expect vertex/edge input for order by key'') (\<lambda>et.
        andthen (if p \<noteq> ''label'' then key_or_throw env p False ''no such property key:'' else give 0) (\<lambda>key.
        andthen (look (\<lambda>s. int (length (ps_experts s)))) (\<lambda>ls_key.
        andthen (ParseProject et key (-1)) (\<lambda>_. order_params env ps (ls_key, snd acc))))))"

definition ParseOrder :: "parser_env \<Rightarrow> string list \<Rightarrow> unit action" where
  "ParseOrder env params =
     (if length params > 2 then throw ''expect at most two params in order''
      else andthen (order_params env params (-1, INCR)) (\<lambda>(ls_key, order).
        andthen (look ps_io) (\<lambda>io.
        AppendExpert ((AddParam_int (order_int order) (AddParam_int ls_key (Expert_Object E_ORDER)))\<lparr>ex_send_remote := IsElement io\<rparr>))))"

fun add_keys :: "parser_env \<Rightarrow> string \<Rightarrow> string list \<Rightarrow> expert_object \<Rightarrow> expert_object action" where
  "add_keys env e [] ex = give ex"
| "add_keys env e (p # ps) ex =
     andthen (key_or_throw env p False e) (\<lambda>key. add_keys env e ps (AddParam_int key ex))"

definition ParseProperties :: "parser_env \<Rightarrow> string list \<Rightarrow> unit action" where
  "ParseProperties env params =
     andthen (element_input ''expect vertex/edge input for properties'') (\<lambda>et.
     andthen (add_keys env ''unexpected key in ParseProperties: '' params
                (AddParam_int (element_int et) (Expert_Object E_PROPERTIES))) (\<lambda>ex.
     in_order [AppendExpert ex, set_io (if et = VERTEX then IO_VP else IO_EP)]))"

definition ParseProperty :: "parser_env \<Rightarrow> string list \<Rightarrow> unit action" where
  "ParseProperty env params =
     (case params of
        [p0, p1] \<Rightarrow>
          andthen (element_input ''expect vertex/edge input for property'') (\<lambda>et.
          andthen (key_type_or_throw env p0 ''unexpected key in property: '') (\<lambda>(key, key_type).
          andthen (must (checktype p1)) (\<lambda>value_type.
          andthen (expect (value_type = uint key_type) ''property key type no match with value type in property()'') (\<lambda>_.
          andthen (must (AddParam (pe_atof env) p1 (AddParam_int key (AddParam_int (element_int et) (Expert_Object E_PROPERTY)))))
            (\<lambda>(_, ex). in_order [AppendExpert ex, add_trx_type TRX_UPDATE, set_updating])))))
      | _ \<Rightarrow> throw ''expect two params for property'')"

fun range_numbers :: "string list \<Rightarrow> int list action" where
  "range_numbers [] = give []"
| "range_numbers (p # ps) =
     andthen (must (checktype p)) (\<lambda>ct.
     andthen (expect (ct = 1) (''expect number but get: '' @ p)) (\<lambda>_.
     andthen (range_numbers ps) (\<lambda>r. give (atoi p # r))))"

text \<open>\<open>vec[0] - 1\<close> overflows for the smallest \<open>int\<close>: undefined.\<close>

definition ParseRange :: "string list \<Rightarrow> Step_T \<Rightarrow> unit action" where
  "ParseRange params ty =
     andthen (range_numbers params) (\<lambda>vec.
     andthen
       (if ty = S_RANGE then (if length params \<noteq> 2 then throw ''expect two parameters for range'' else give (vec ! 0, vec ! 1))
        else if ty = S_LIMIT then
          (if length params \<noteq> 1 then throw ''expect one parameter for limit''
           else if vec ! 0 = - (2 ^ 31) then must None else give (0, vec ! 0 - 1))
        else if ty = S_SKIP then (if length params \<noteq> 1 then throw ''expect one parameter for skip'' else give (vec ! 0, -1))
        else throw ''unexpected error'') (\<lambda>(start, end).
     andthen (look ps_io) (\<lambda>io.
     AppendExpert ((AddParam_int end (AddParam_int start (Expert_Object E_RANGE)))\<lparr>ex_send_remote := IsElement io\<rparr>))))"

text \<open>\<open>0.0 <= val && val <= 1.0\<close> on the bit patterns of doubles.\<close>

definition ParseCoin :: "parser_env \<Rightarrow> string list \<Rightarrow> unit action" where
  "ParseCoin env params =
     (case params of
        [p] \<Rightarrow>
          andthen (expect (dbl_leq (dbl_of_bits 0) (dbl_of_bits (pe_atof env p)) \<and>
                      dbl_leq (dbl_of_bits (pe_atof env p)) (dbl_of_bits 0x3FF0000000000000))
                     ''expected a value in range [0.0, 1.0]'') (\<lambda>_.
          andthen (must (AddParam (pe_atof env) (if CHR ''.'' \<in> set p then p else p @ ''.0'') (Expert_Object E_COIN))) (\<lambda>(_, ex).
          andthen (look ps_io) (\<lambda>io. AppendExpert (ex\<lparr>ex_send_remote := IsElement io\<rparr>))))
      | _ \<Rightarrow> throw ''one parameter in range of [0, 1] of coin step is needed'')"

definition ParseRepeat :: "(string \<Rightarrow> unit action) \<Rightarrow> string list \<Rightarrow> unit action" where
  "ParseRepeat pq params =
     (if params = [] then throw ''expect at least one parameter for branch''
      else parse_branching pq (Expert_Object E_REPEAT) params False)"

fun select_params :: "parser_env \<Rightarrow> (string \<times> int) list \<Rightarrow> string list \<Rightarrow> expert_object \<times> int \<Rightarrow> (expert_object \<times> int) action" where
  "select_params env l [] acc = give acc"
| "select_params env l (p # ps) acc =
     (case map_of l p of
        None \<Rightarrow> throw (''unexpected label step: '' @ p)
      | Some key \<Rightarrow> andthen (must (AddParam (pe_atof env) p (AddParam_int key (fst acc)))) (\<lambda>(_, ex). select_params env l ps (ex, key)))"

definition ParseSelect :: "parser_env \<Rightarrow> string list \<Rightarrow> unit action" where
  "ParseSelect env params =
     (if params = [] then throw ''expect at least one params for select''
      else andthen (look ps_str2ls) (\<lambda>l.
        andthen (select_params env l params (Expert_Object E_SELECT, 0)) (\<lambda>(ex, key).
        if length params = 1
        then andthen (look (\<lambda>s. map_at (ps_ls2type s) key IO_EDGE)) (\<lambda>ty.
             in_order [set_io ty, AppendExpert (ex\<lparr>ex_send_remote := IsElement ty\<rparr>)])
        else in_order [set_io IO_COLLECTION, AppendExpert ex])))"

definition traversal_kind :: "Step_T \<Rightarrow> nat" where
  "traversal_kind t = index_of t [S_IN, S_OUT, S_BOTH, S_INE, S_OUTE, S_BOTHE, S_INV, S_OUTV, S_BOTHV]"

definition ParseTraversal :: "parser_env \<Rightarrow> string list \<Rightarrow> Step_T \<Rightarrow> unit action" where
  "ParseTraversal env params ty =
     (let k = traversal_kind ty; dir = (if k mod 3 = 0 then D_IN else if k mod 3 = 1 then D_OUT else D_BOTH) in
      andthen (look ps_io) (\<lambda>io.
      andthen
        (if k \<le> 2 then
           (if length params > 1 then throw ''expect at most one param for in/out/both''
            else if io \<noteq> IO_VERTEX then throw ''expect vertex input for in/out/both'' else give (VERTEX, VERTEX))
         else if k \<le> 5 then
           (if length params > 1 then throw ''expect at most one param for in/out/bothE''
            else if io \<noteq> IO_VERTEX then throw ''expect vertex input for in/out/bothE'' else give (VERTEX, EDGE))
         else
           (if params \<noteq> [] then throw ''expect no param for in/out/bothV''
            else if io \<noteq> IO_EDGE then throw ''expect vertex input for in/out/bothV'' else give (EDGE, VERTEX))) (\<lambda>(inType, outType).
      andthen (if length params = 1
               then andthen (set_io IO_EDGE) (\<lambda>_. key_or_throw env (params ! 0) True ''unexpected label: '')
               else give (-1)) (\<lambda>lid.
      in_order [AppendExpert ((AddParam_int lid (AddParam_int (direction_int dir) (AddParam_int (element_int outType)
                  (AddParam_int (element_int inType) (Expert_Object E_TRAVERSAL)))))\<lparr>ex_send_remote := True\<rparr>),
                set_io (if outType = EDGE then IO_EDGE else IO_VERTEX)]))))"

fun values_keys :: "parser_env \<Rightarrow> string list \<Rightarrow> bool \<times> u8 \<Rightarrow> expert_object \<Rightarrow> (u8 \<times> expert_object) action" where
  "values_keys env [] acc ex = give (snd acc, ex)"
| "values_keys env (p # ps) acc ex =
     andthen (key_type_or_throw env p ''unexpected key in ParseValues: '') (\<lambda>(key, vtype).
     if fst acc \<or> snd acc = vtype then values_keys env ps (False, vtype) (AddParam_int key ex)
     else throw ''expect same type of key in values'')"

definition ParseValues :: "parser_env \<Rightarrow> string list \<Rightarrow> unit action" where
  "ParseValues env params =
     andthen (element_input ''expect vertex/edge input for values'') (\<lambda>et.
     andthen (values_keys env params (True, 4) (AddParam_int (element_int et) (Expert_Object E_VALUES))) (\<lambda>(outType, ex).
     andthen (AppendExpert ex) (\<lambda>_. andthen (Value2IO outType) set_io)))"

definition ParseWhere :: "parser_env \<Rightarrow> (string \<Rightarrow> unit action) \<Rightarrow> string list \<Rightarrow> unit action" where
  "ParseWhere env pq params =
     (if length params > 2 \<or> params = [] then throw ''expect one or two params for where''
      else if length params = 1 \<and> CheckIfQuery (params ! 0)
           then rethrow (\<lambda>e. ''error when parsing where: '' @ e) (ParseBranchFilter pq params S_AND)
      else andthen
        (if length params = 2
         then andthen (look (\<lambda>s. map_of (ps_str2ls s) (params ! 0))) (\<lambda>r. case r of
                None \<Rightarrow> throw (''Unexpected label step: '' @ params ! 0) | Some k \<Rightarrow> give (k, params ! 1))
         else give (-1, params ! 0)) (\<lambda>(key, param).
        andthen (CheckLastExpert E_WHERE) (\<lambda>ok.
        in_order [(if ok then give () else AppendExpert (Expert_Object E_WHERE)), last_add_int key, ParsePredicate env param 1 True])))"

section \<open>Queries, lines and transactions\<close>

definition ParseStep :: "parser_env \<Rightarrow> (string \<Rightarrow> unit action) \<Rightarrow> Step_T \<Rightarrow> string list \<Rightarrow> unit action" where
  "ParseStep env pq ty params =
     (case ty of
        S_ADDE \<Rightarrow> ParseAddE env params
      | S_FROM \<Rightarrow> ParseFromTo params ty | S_TO \<Rightarrow> ParseFromTo params ty
      | S_ADDV \<Rightarrow> ParseAddV env params
      | S_AGGREGATE \<Rightarrow> ParseAggregate params
      | S_AS \<Rightarrow> ParseAs params
      | S_UNION \<Rightarrow> ParseBranch pq params
      | S_AND \<Rightarrow> ParseBranchFilter pq params ty | S_NOT \<Rightarrow> ParseBranchFilter pq params ty | S_OR \<Rightarrow> ParseBranchFilter pq params ty
      | S_CAP \<Rightarrow> ParseCap env params
      | S_COUNT \<Rightarrow> ParseCount params
      | S_DEDUP \<Rightarrow> ParseDedup params
      | S_DROP \<Rightarrow> ParseDrop params
      | S_GROUP \<Rightarrow> ParseGroup env params ty | S_GROUPCOUNT \<Rightarrow> ParseGroup env params ty
      | S_HAS \<Rightarrow> ParseHas env params ty | S_HASKEY \<Rightarrow> ParseHas env params ty | S_HASVALUE \<Rightarrow> ParseHas env params ty
      | S_HASNOT \<Rightarrow> ParseHas env params ty
      | S_HASLABEL \<Rightarrow> ParseHasLabel env params
      | S_IS \<Rightarrow> ParseIs env params
      | S_KEY \<Rightarrow> ParseKey params
      | S_LABEL \<Rightarrow> ParseLabel params
      | S_MAX \<Rightarrow> ParseMath params ty | S_MEAN \<Rightarrow> ParseMath params ty | S_MIN \<Rightarrow> ParseMath params ty | S_SUM \<Rightarrow> ParseMath params ty
      | S_ORDER \<Rightarrow> ParseOrder env params
      | S_PROPERTIES \<Rightarrow> ParseProperties env params
      | S_PROPERTY \<Rightarrow> ParseProperty env params
      | S_LIMIT \<Rightarrow> ParseRange params ty | S_RANGE \<Rightarrow> ParseRange params ty | S_SKIP \<Rightarrow> ParseRange params ty
      | S_COIN \<Rightarrow> ParseCoin env params
      | S_REPEAT \<Rightarrow> ParseRepeat pq params
      | S_SELECT \<Rightarrow> ParseSelect env params
      | S_VALUES \<Rightarrow> ParseValues env params
      | S_WHERE \<Rightarrow> ParseWhere env pq params
      | S_STATUS \<Rightarrow> throw ''Unexpected step''
      | _ \<Rightarrow> ParseTraversal env params ty)"

definition ParseSteps :: "parser_env \<Rightarrow> (string \<Rightarrow> unit action) \<Rightarrow> (Step_T \<times> string) list \<Rightarrow> unit action" where
  "ParseSteps env pq tokens = for_each tokens (\<lambda>(ty, p). andthen (SplitParam p) (ParseStep env pq ty))"

fun ParseQuery :: "parser_env \<Rightarrow> nat \<Rightarrow> string \<Rightarrow> unit action" where
  "ParseQuery env 0 query = must None"
| "ParseQuery env (Suc n) query =
     andthen (GetSteps query) (\<lambda>tokens. ParseSteps env (ParseQuery env n) (ReOrderSteps env tokens))"

text \<open>
  The check of the parameters of \<open>addE\<close> at the end of a line, and the experts that were moved into the plan before it
  failed.
\<close>

definition method_weight :: "value_t \<Rightarrow> int option" where
  "method_weight v = map_option (\<lambda>i. if i = method_int NotApplicable then 0 else if i = method_int PlaceHolder then 2 else 1)
     (value_t2int v)"

definition addE_ok :: "nat \<Rightarrow> expert_object \<Rightarrow> bool option" where
  "addE_ok i ex =
     (if ex_type ex \<noteq> E_ADDE then Some True
      else do { CHECK (4 \<le> length (ex_params ex));
                a \<leftarrow> method_weight (ex_params ex ! 1);
                b \<leftarrow> method_weight (ex_params ex ! 3);
                Some (if i = 0 then a + b = 4 else a + b \<noteq> 0 \<and> a + b \<noteq> 4) })"

fun moved_experts :: "nat \<Rightarrow> expert_object list \<Rightarrow> (bool \<times> expert_object list) option" where
  "moved_experts i [] = Some (True, [])"
| "moved_experts i (ex # es) =
     do { ok \<leftarrow> addE_ok i ex;
          if ok then do { (ok, r) \<leftarrow> moved_experts (Suc i) es; Some (ok, ex # r) } else Some (False, []) }"

definition add_to_plan :: "expert_object list \<Rightarrow> unit action" where
  "add_to_plan es = (\<lambda>s.
     (let i = unat (ps_line s); p = ps_plan s
      in if i < length (tp_plans p)
         then Some (Inr (), s\<lparr>ps_plan := p\<lparr>tp_plans := (tp_plans p)[i :=
                (tp_plans p ! i)\<lparr>qp_experts := qp_experts (tp_plans p ! i) @ es\<rparr>]\<rparr>\<rparr>)
         else None))"

definition line_error :: "string \<Rightarrow> u8 \<Rightarrow> string \<Rightarrow> string \<Rightarrow> string" where
  "line_error prefix line_index line e = prefix @ int_str (uint line_index + 1) @ '':'' @ [CHR 0x0A] @ line @ [CHR 0x0A] @ e"

definition parse_command :: "parser_env \<Rightarrow> string \<Rightarrow> unit action" where
  "parse_command env line =
     (if find_sub ''BuildIndex'' line = Some 0 then ParseIndex env line
      else if find_sub ''SetConfig'' line = Some 0 then ParseSetConfig line
      else if find_sub ''DisplayStatus'' line = Some 0 then ParseDisplayStatus line
      else andthen (ParseInit line) (\<lambda>(return_name, query).
           andthen (ParseQuery env (Suc (length query)) query) (\<lambda>_.
           change (\<lambda>s. if return_name \<noteq> []
             then s\<lparr>ps_place_holder := ordered_map_insert return_name (uint (ps_line s), ps_io s) (ps_place_holder s)\<rparr> else s))))"

definition error_prefix :: "string \<Rightarrow> string" where
  "error_prefix line =
     (if find_sub ''BuildIndex'' line = Some 0 then ''Build Index error: ''
      else if find_sub ''SetConfig'' line = Some 0 then ''Set Config error: ''
      else if find_sub ''DisplayStatus'' line = Some 0 then ''Display Status error''
      else ''Parser error at line '')"

text \<open>\<open>ParseLine\<close> returns false with a message when it fails: \<open>Inl\<close> that message.\<close>

definition ParseLine :: "parser_env \<Rightarrow> string \<Rightarrow> unit action" where
  "ParseLine env line =
     andthen (change ClearQuery) (\<lambda>_.
     andthen (look ps_line) (\<lambda>li.
     andthen (rethrow (line_error (error_prefix line) li line) (parse_command env line)) (\<lambda>_.
     andthen (look ps_experts) (\<lambda>es.
     andthen (must (moved_experts 0 es)) (\<lambda>(ok, es).
     andthen (add_to_plan es) (\<lambda>_.
     andthen (expect ok (line_error (error_prefix line) li line ''addE params not match'')) (\<lambda>_.
     add_to_plan [Expert_Object E_END])))))))"

definition parse_one_line :: "parser_env \<Rightarrow> string \<Rightarrow> unit action" where
  "parse_one_line env line =
     in_order [change (\<lambda>s. s\<lparr>ps_plan := begin_line (ps_line s) (ps_plan s)\<rparr>),
               ParseLine env (trim line '' ''),
               change (\<lambda>s. let (lu, p) = register_line (ps_line s) (ps_read_only s) (ps_last_update s) (ps_plan s)
                 in s\<lparr>ps_plan := p, ps_last_update := lu, ps_line := ps_line s + 1\<rparr>)]"

definition resize_plans :: "nat \<Rightarrow> trx_plan \<Rightarrow> trx_plan" where
  "resize_plans n p = p\<lparr>tp_plans := take n (tp_plans p) @ replicate (n - length (tp_plans p)) new_QueryPlan\<rparr>"

definition Parse :: "parser_env \<Rightarrow> string \<Rightarrow> unit action" where
  "Parse env trx_input =
     (let lines = split trx_input [CHR '';'', CHR 0x0A] in
      in_order [change ClearTrx,
                change (\<lambda>s. s\<lparr>ps_plan := resize_plans (Suc (length lines)) (ps_plan s)\<rparr>),
                for_each lines (parse_one_line env),
                (\<lambda>s. map_option (\<lambda>p. (Inr (), s\<lparr>ps_plan := p\<rparr>)) (AddCommitStatement (ps_line s) (ps_last_update s) (ps_plan s)))])"

end
