(* ===== verification/Parser_Keeps.thy ===== *)
theory Parser_Keeps
  imports Parser
begin

text \<open>
  What parsing a query leaves alone: a contract for relations between states of the parser (src/core/parser.cpp), and
  the proof, once for all such relations, that every method of the parser keeps them.
\<close>

section \<open>Relations the parser keeps\<close>

text \<open>
  A relation between states that every step of the parser keeps, whatever the query. The laws say what the primitive
  changes of the parser are; each method is then shown once to keep the relation.
\<close>

definition update_kinds :: "(EXPERT_T \<times> u8) set" where
  "update_kinds = {(E_ADDE, TRX_ADD), (E_ADDV, TRX_ADD), (E_DROP, TRX_DELETE), (E_PROPERTY, TRX_UPDATE)}"

lemma ex_type_AddParam_int [simp]: "ex_type (AddParam_int i ex) = ex_type ex"
  by (simp add: AddParam_int_def)

lemma ex_type_AddParam: "AddParam f p ex = Some (ok, ex') \<Longrightarrow> ex_type ex' = ex_type ex"
  by (auto simp: AddParam_def Option.bind_eq_Some_conv split: if_splits)

lemma ex_type_ModifyParam_int [simp]: "ex_type (snd (ModifyParam_int k i ex)) = ex_type ex"
  by (simp add: ModifyParam_int_def Let_def)

lemma ex_type_Expert_Object [simp]: "ex_type (Expert_Object t) = t"
  by (simp add: Expert_Object_def)

definition keeps :: "(pstate \<Rightarrow> pstate \<Rightarrow> bool) \<Rightarrow> 'a action \<Rightarrow> bool" where
  "keeps R m \<longleftrightarrow> (\<forall>s r s'. m s = Some (r, s') \<longrightarrow> R s s')"

locale parser_rel =
  fixes R :: "pstate \<Rightarrow> pstate \<Rightarrow> bool"
  assumes R_refl: "R s s"
    and R_trans: "R s t \<Longrightarrow> R t u \<Longrightarrow> R s u"
    and R_io: "R s (s\<lparr>ps_io := io\<rparr>)"
    and R_sub: "R s (s\<lparr>ps_first_in_sub := i\<rparr>)"
    and R_labels: "R s (s\<lparr>ps_str2ls := a, ps_ls2type := b\<rparr>)"
    and R_side: "R s (s\<lparr>ps_str2se := a', ps_side_effect_key := k\<rparr>)"
    and R_counters: "R s (s\<lparr>ps_expert_index := j, ps_index_count := c, ps_min_count := m\<rparr>)"
    and R_experts: "ex_type ` set es \<subseteq> ex_type ` set (ps_experts s) \<union> - fst ` update_kinds \<Longrightarrow> R s (s\<lparr>ps_experts := es\<rparr>)"
    and R_updating: "R s (s\<lparr>ps_read_only := False\<rparr>)"
    and R_place: "map_of (ps_place_holder s) var = Some (q, io') \<Longrightarrow>
      R s (s\<lparr>ps_plan := RegPlaceHolder (word_of_int q) (ps_line s) step prm (ps_plan s)\<rparr>)"
    and R_update: "(t', ty) \<in> update_kinds \<Longrightarrow> (\<forall>e\<in>set es'. ex_type e = t') \<Longrightarrow>
      R s (s\<lparr>ps_experts := ps_experts s @ es', ps_plan := (ps_plan s)\<lparr>tp_trx_type := tp_trx_type (ps_plan s) OR ty\<rparr>,
             ps_read_only := False\<rparr>)"
begin

lemma keepsI: "(\<And>s r s'. m s = Some (r, s') \<Longrightarrow> R s s') \<Longrightarrow> keeps R m"
  by (simp add: keeps_def)

lemma keepsD: "keeps R m \<Longrightarrow> m s = Some (r, s') \<Longrightarrow> R s s'"
  by (simp add: keeps_def)

lemma keeps_give: "keeps R (give a)" by (auto simp: keeps_def give_def R_refl)

lemma keeps_throw: "keeps R (throw e)" by (auto simp: keeps_def throw_def R_refl)

lemma keeps_look: "keeps R (look f)" by (auto simp: keeps_def look_def R_refl)

lemma keeps_must: "keeps R (must x)" by (auto simp: keeps_def must_def R_refl)

lemma keeps_expect: "keeps R (expect b e)" by (simp add: expect_def keeps_give keeps_throw)

lemma keeps_change: "(\<And>s. R s (f s)) \<Longrightarrow> keeps R (change f)"
  by (auto simp: keeps_def change_def)

lemma keeps_andthen: "keeps R m \<Longrightarrow> (\<And>x. keeps R (f x)) \<Longrightarrow> keeps R (andthen m f)"
  by (rule keepsI) (auto simp: andthen_def split: option.splits sum.splits prod.splits dest: keepsD intro: R_trans)

lemma keeps_rethrow: "keeps R m \<Longrightarrow> keeps R (rethrow f m)"
  by (rule keepsI) (auto simp: rethrow_def split: option.splits sum.splits prod.splits dest: keepsD)

lemma keeps_in_order_nil: "keeps R (in_order [])" by (simp add: keeps_give)

lemma keeps_in_order_cons: "keeps R m \<Longrightarrow> keeps R (in_order ms) \<Longrightarrow> keeps R (in_order (m # ms))"
  by (simp add: keeps_andthen)

lemma keeps_for_each: "(\<And>x. keeps R (f x)) \<Longrightarrow> keeps R (for_each xs f)"
  unfolding for_each_def by (induction xs) (simp_all add: keeps_give keeps_andthen)

lemma keeps_if: "(b \<Longrightarrow> keeps R m) \<Longrightarrow> (\<not> b \<Longrightarrow> keeps R n) \<Longrightarrow> keeps R (if b then m else n)" by simp

lemma keeps_option: "keeps R m \<Longrightarrow> (\<And>a. keeps R (f a)) \<Longrightarrow> keeps R (case x of None \<Rightarrow> m | Some a \<Rightarrow> f a)"
  by (cases x) simp_all

lemma keeps_prod: "(\<And>a b. keeps R (f a b)) \<Longrightarrow> keeps R (case x of (a, b) \<Rightarrow> f a b)" by (cases x) simp

lemma keeps_list: "keeps R m \<Longrightarrow> (\<And>a l. keeps R (f a l)) \<Longrightarrow> keeps R (case x of [] \<Rightarrow> m | a # l \<Rightarrow> f a l)"
  by (cases x) simp_all

lemma keeps_let: "(\<And>a. keeps R (f a)) \<Longrightarrow> keeps R (Let x f)" by simp

lemmas keeps_basic = keeps_give keeps_throw keeps_look keeps_must keeps_expect keeps_andthen keeps_rethrow keeps_in_order_nil
  keeps_in_order_cons keeps_for_each keeps_if keeps_option keeps_prod keeps_list keeps_let

lemma keeps_set_io: "keeps R (set_io io)" unfolding set_io_def by (rule keeps_change) (rule R_io)

lemma keeps_on_last:
  assumes "\<And>ex. ex_type (f ex) = ex_type ex"
  shows "keeps R (on_last f)"
proof (rule keepsI)
  fix s r s'
  assume "on_last f s = Some (r, s')"
  then have e: "ps_experts s \<noteq> []" "s' = s\<lparr>ps_experts := butlast (ps_experts s) @ [f (last (ps_experts s))]\<rparr>"
    by (auto simp: on_last_def split: if_splits)
  have "ex_type ` set (butlast (ps_experts s) @ [f (last (ps_experts s))]) \<subseteq> ex_type ` set (ps_experts s) \<union> - fst ` update_kinds"
    using e(1) assms by (auto dest: in_set_butlastD)
  then show "R s s'" unfolding e(2) by (rule R_experts)
qed

lemma keeps_last_add_int: "keeps R (last_add_int i)" unfolding last_add_int_def by (rule keeps_on_last) simp

lemma keeps_last_push: "keeps R (last_push v)" unfolding last_push_def by (rule keeps_on_last) simp

lemma keeps_last_add: "keeps R (last_add env p)"
proof (rule keepsI)
  fix s r s'
  assume "last_add env p s = Some (r, s')"
  then obtain ok ex where e: "ps_experts s \<noteq> []" "AddParam (pe_atof env) p (last (ps_experts s)) = Some (ok, ex)"
    "s' = s\<lparr>ps_experts := butlast (ps_experts s) @ [ex]\<rparr>"
    by (auto simp: last_add_def Option.bind_eq_Some_conv split: if_splits)
  have "ex_type ` set (butlast (ps_experts s) @ [ex]) \<subseteq> ex_type ` set (ps_experts s) \<union> - fst ` update_kinds"
    using e(1) ex_type_AddParam [OF e(2)] by (auto dest: in_set_butlastD)
  then show "R s s'" unfolding e(3) by (rule R_experts)
qed

lemma keeps_AppendExpert:
  assumes "ex_type ex \<notin> fst ` update_kinds"
  shows "keeps R (AppendExpert ex)"
  unfolding AppendExpert_def
proof (rule keeps_change)
  fix s :: pstate
  define es where "es = ps_experts s @ [ex\<lparr>ex_next := int (length (ps_experts s)) + 1, ex_index := ps_expert_index s\<rparr>]"
  have "R s (s\<lparr>ps_experts := es\<rparr>)" using assms by (intro R_experts) (auto simp: es_def)
  moreover have "R (s\<lparr>ps_experts := es\<rparr>) (s\<lparr>ps_experts := es, ps_expert_index := ps_expert_index s + 1\<rparr>)"
    using R_counters [where s = "s\<lparr>ps_experts := es\<rparr>" and j = "ps_expert_index s + 1" and c = "ps_index_count s" and m = "ps_min_count s"] by simp
  ultimately show "R s (s\<lparr>ps_experts := es, ps_expert_index := ps_expert_index s + 1\<rparr>)" by (rule R_trans)
qed

lemma keeps_set_at:
  assumes "\<And>ex. ex_type (f ex) = ex_type ex" "i < length (ps_experts s)"
  shows "R s (s\<lparr>ps_experts := (ps_experts s)[i := f (ps_experts s ! i)]\<rparr>)"
proof (rule R_experts)
  show "ex_type ` set ((ps_experts s)[i := f (ps_experts s ! i)]) \<subseteq> ex_type ` set (ps_experts s) \<union> - fst ` update_kinds"
    using assms set_update_subset_insert [of "ps_experts s" i] by fastforce
qed

lemma keeps_set_next: "keeps R (set_next i n)"
  using keeps_set_at [of "\<lambda>ex. ex\<lparr>ex_next := n\<rparr>" i] by (intro keepsI) (auto simp: set_next_def split: if_splits)

lemma keeps_add_param_at: "keeps R (add_param_at i n)"
  using keeps_set_at [of "AddParam_int n" i] by (intro keepsI) (auto simp: add_param_at_def split: if_splits)

lemma keeps_RegPlaceHolder: "keeps R (Parser_RegPlaceHolder var step prm ty)"
proof (rule keepsI)
  fix s r s'
  assume a: "Parser_RegPlaceHolder var step prm ty s = Some (r, s')"
  show "R s s'"
  proof (cases "map_of (ps_place_holder s) var")
    case None
    then show ?thesis using a by (auto simp: Parser_RegPlaceHolder_def andthen_def look_def throw_def R_refl)
  next
    case (Some p)
    obtain q io where p: "p = (q, io)" by (cases p)
    show ?thesis
    proof (cases "io = ty")
      case True
      then show ?thesis using a Some R_place [where s = s and var = var and q = q and io' = io and step = step and prm = prm]
        by (auto simp: Parser_RegPlaceHolder_def andthen_def look_def p change_def)
    next
      case False
      then show ?thesis using a Some
        by (auto simp: Parser_RegPlaceHolder_def andthen_def look_def p must_def throw_def R_refl split: option.splits)
    qed
  qed
qed

end

context parser_rel
begin

lemma keeps_SplitParam: "keeps R (SplitParam p)" by (simp add: SplitParam_def Let_def keeps_throw keeps_give)

lemma keeps_SplitPredicate: "keeps R (SplitPredicate p)"
  unfolding SplitPredicate_def by (intro keeps_basic keeps_SplitParam)

lemma keeps_Value2IO: "keeps R (Value2IO ty)" unfolding Value2IO_def by (intro keeps_basic)

lemma keeps_element_input: "keeps R (element_input e)" unfolding element_input_def by (intro keeps_basic)

lemma keeps_ParseKeyId: "keeps R (ParseKeyId env key b)" unfolding ParseKeyId_def by (rule keeps_look)

lemma keeps_ParseKeyId_type: "keeps R (ParseKeyId_type env key)"
  unfolding ParseKeyId_type_def by (intro keeps_basic keeps_ParseKeyId)

lemma keeps_key_or_throw: "keeps R (key_or_throw env key b e)"
  unfolding key_or_throw_def by (intro keeps_basic keeps_ParseKeyId)

lemma keeps_key_type_or_throw: "keeps R (key_type_or_throw env key e)"
  unfolding key_type_or_throw_def by (intro keeps_basic keeps_ParseKeyId_type)

lemma keeps_CheckLastExpert: "keeps R (CheckLastExpert ty)"
  unfolding CheckLastExpert_def by (intro keeps_basic)

lemma keeps_GetSteps: "keeps R (GetSteps q)"
  unfolding GetSteps_def by (simp add: keeps_throw keeps_give keeps_must split: steps_result.split)

lemma keeps_keys_to_ids: "keeps R (keys_to_ids l ps)"
  by (induction ps) (simp_all add: keeps_basic)

lemma keeps_predicate_value: "keeps R (predicate_value env param ty p ps)"
  unfolding predicate_value_def Let_def by (intro keeps_basic)

lemma keeps_ParsePredicate: "keeps R (ParsePredicate env param ty toKey)"
  unfolding ParsePredicate_def
  by (intro keeps_basic keeps_SplitPredicate keeps_keys_to_ids keeps_predicate_value keeps_last_add_int keeps_last_push)

lemma keeps_set_sub: "keeps R (change (\<lambda>s. s\<lparr>ps_first_in_sub := f s\<rparr>))"
  by (rule keeps_change) (rule R_sub)

lemma keeps_parse_one_sub:
  assumes "\<And>q. keeps R (pq q)"
  shows "keeps R (parse_one_sub pq current fb ct sub acc)"
  unfolding parse_one_sub_def
  by (intro keeps_basic keeps_set_io keeps_set_sub assms keeps_add_param_at keeps_set_next)

lemma keeps_parse_subs:
  assumes "\<And>q. keeps R (pq q)"
  shows "keeps R (parse_subs pq current fb ct subs acc)"
  by (induction subs arbitrary: acc) (simp_all add: keeps_give keeps_andthen keeps_parse_one_sub assms)

lemma keeps_ParseSub:
  assumes "\<And>q. keeps R (pq q)"
  shows "keeps R (ParseSub pq params current fb)"
  unfolding ParseSub_def by (intro keeps_basic keeps_parse_subs assms keeps_set_next keeps_set_io keeps_set_sub)

lemma keeps_init_element: "keeps R (init_element v q io ty)"
  unfolding init_element_def
  by (intro keeps_basic keeps_set_io keeps_RegPlaceHolder keeps_AppendExpert) (simp add: update_kinds_def)

lemma keeps_ParseInit: "keeps R (ParseInit line)"
  unfolding ParseInit_def drop_g_def Let_def by (intro keeps_basic keeps_set_io keeps_init_element)

text \<open>An updating expert is appended together with the change of the transaction's type.\<close>

lemma keeps_update:
  assumes "(ex_type ex, ty) \<in> update_kinds"
  shows "keeps R (in_order [AppendExpert ex, add_trx_type ty, set_updating])"
proof (rule keepsI)
  fix s r s'
  assume a: "in_order [AppendExpert ex, add_trx_type ty, set_updating] s = Some (r, s')"
  define e where "e = ex\<lparr>ex_next := int (length (ps_experts s)) + 1, ex_index := ps_expert_index s\<rparr>"
  define t where "t = s\<lparr>ps_experts := ps_experts s @ [e], ps_plan := (ps_plan s)\<lparr>tp_trx_type := tp_trx_type (ps_plan s) OR ty\<rparr>,
             ps_read_only := False\<rparr>"
  have "s' = t\<lparr>ps_expert_index := ps_expert_index s + 1, ps_index_count := ps_index_count s, ps_min_count := ps_min_count s\<rparr>"
    using a by (cases s) (auto simp: andthen_def AppendExpert_def add_trx_type_def set_updating_def change_def give_def t_def e_def)
  moreover have "R s t" unfolding t_def using assms by (intro R_update) (auto simp: e_def)
  ultimately show "R s s'" using R_counters R_trans by blast
qed

lemma keeps_ParseAddE: "keeps R (ParseAddE env params)"
  unfolding ParseAddE_def
  by (intro keeps_give keeps_throw keeps_look keeps_expect keeps_andthen keeps_list keeps_update keeps_set_io keeps_key_or_throw)
    (simp add: update_kinds_def)

lemma keeps_ParseAddV: "keeps R (ParseAddV env params)"
  unfolding ParseAddV_def
  by (intro keeps_throw keeps_andthen keeps_list keeps_update keeps_set_io keeps_key_or_throw) (simp add: update_kinds_def)

lemma keeps_ParseFromTo: "keeps R (ParseFromTo params ty)"
  unfolding ParseFromTo_def
  by (intro keeps_basic keeps_CheckLastExpert keeps_RegPlaceHolder keeps_on_last) simp

lemma keeps_ParseAggregate: "keeps R (ParseAggregate params)"
proof -
  have *: "keeps R (change (\<lambda>s. if map_of (ps_str2se s) key = None
       then s\<lparr>ps_str2se := ordered_map_insert key (uint (ps_side_effect_key s)) (ps_str2se s),
              ps_side_effect_key := ps_side_effect_key s + 1\<rparr> else s))" for key
    by (rule keeps_change) (simp add: R_side R_refl)
  show ?thesis unfolding ParseAggregate_def
    by (intro keeps_basic * keeps_AppendExpert) (simp add: update_kinds_def)
qed

lemma keeps_ParseAs: "keeps R (ParseAs params)"
proof -
  have *: "keeps R (change (\<lambda>s. s\<lparr>ps_str2ls := f s, ps_ls2type := g s\<rparr>))" for f g
    by (rule keeps_change) (rule R_labels)
  show ?thesis unfolding ParseAs_def by (intro keeps_basic * keeps_AppendExpert) (simp add: update_kinds_def)
qed

lemma keeps_parse_branching:
  assumes "\<And>q. keeps R (pq q)" "ex_type ex \<notin> fst ` update_kinds"
  shows "keeps R (parse_branching pq ex params fb)"
  unfolding parse_branching_def by (intro keeps_basic keeps_AppendExpert keeps_ParseSub assms)

lemma keeps_ParseBranch: "(\<And>q. keeps R (pq q)) \<Longrightarrow> keeps R (ParseBranch pq params)"
  unfolding ParseBranch_def by (intro keeps_basic keeps_parse_branching) (simp_all add: update_kinds_def)

lemma keeps_ParseRepeat: "(\<And>q. keeps R (pq q)) \<Longrightarrow> keeps R (ParseRepeat pq params)"
  unfolding ParseRepeat_def by (intro keeps_basic keeps_parse_branching) (simp_all add: update_kinds_def)

lemma keeps_ParseBranchFilter: "(\<And>q. keeps R (pq q)) \<Longrightarrow> keeps R (ParseBranchFilter pq params ty)"
  unfolding ParseBranchFilter_def by (intro keeps_basic keeps_parse_branching) (simp_all add: update_kinds_def)

lemma keeps_ParseCount: "keeps R (ParseCount params)"
  unfolding ParseCount_def by (intro keeps_basic keeps_AppendExpert keeps_set_io) (simp add: update_kinds_def)

lemma keeps_ParseKey: "keeps R (ParseKey params)"
  unfolding ParseKey_def by (intro keeps_basic keeps_element_input keeps_AppendExpert keeps_set_io) (simp add: update_kinds_def)

lemma keeps_ParseLabel: "keeps R (ParseLabel params)"
  unfolding ParseLabel_def by (intro keeps_basic keeps_element_input keeps_AppendExpert keeps_set_io) (simp add: update_kinds_def)

lemma keeps_ParseMath: "keeps R (ParseMath params ty)"
  unfolding ParseMath_def by (intro keeps_basic keeps_AppendExpert keeps_set_io) (simp add: update_kinds_def)

lemma keeps_ParseProject: "keeps R (ParseProject ty k v)"
  unfolding ParseProject_def by (rule keeps_AppendExpert) (simp add: update_kinds_def)

lemma keeps_group_keys: "keeps R (group_keys env ps)"
  by (induction ps) (simp_all add: keeps_basic keeps_key_or_throw)

lemma keeps_ParseGroup: "keeps R (ParseGroup env params ty)"
  unfolding ParseGroup_def
  by (intro keeps_basic keeps_element_input keeps_group_keys keeps_ParseProject keeps_AppendExpert keeps_set_io)
    (simp add: update_kinds_def)

lemma keeps_order_params: "keeps R (order_params env ps acc)"
  by (induction ps arbitrary: acc) (simp_all add: keeps_basic keeps_element_input keeps_key_or_throw keeps_ParseProject)

lemma keeps_ParseOrder: "keeps R (ParseOrder env params)"
  unfolding ParseOrder_def by (intro keeps_basic keeps_order_params keeps_AppendExpert) (simp add: update_kinds_def)

lemma keeps_range_numbers: "keeps R (range_numbers ps)"
  by (induction ps) (simp_all add: keeps_basic)

lemma keeps_ParseRange: "keeps R (ParseRange params ty)"
  unfolding ParseRange_def by (intro keeps_basic keeps_range_numbers keeps_AppendExpert) (simp add: update_kinds_def)

lemma keeps_ParseTraversal: "keeps R (ParseTraversal env params ty)"
  unfolding ParseTraversal_def Let_def
  by (intro keeps_basic keeps_set_io keeps_key_or_throw keeps_AppendExpert) (simp add: update_kinds_def)

end

text \<open>What a result satisfies, for the methods that build an expert before they append it.\<close>

definition gives :: "('a \<Rightarrow> bool) \<Rightarrow> 'a action \<Rightarrow> bool" where
  "gives P m \<longleftrightarrow> (\<forall>s a s'. m s = Some (Inr a, s') \<longrightarrow> P a)"

lemma gives_give: "P a \<Longrightarrow> gives P (give a)" by (simp add: gives_def give_def)

lemma gives_throw: "gives P (throw e)" by (simp add: gives_def throw_def)

lemma gives_must: "(\<And>a. x = Some a \<Longrightarrow> P a) \<Longrightarrow> gives P (must x)" by (auto simp: gives_def must_def)

lemma gives_andthen: "gives Q m \<Longrightarrow> (\<And>x. Q x \<Longrightarrow> gives P (f x)) \<Longrightarrow> gives P (andthen m f)"
  by (auto simp: gives_def andthen_def split: option.splits sum.splits prod.splits) blast+

lemma gives_any: "gives (\<lambda>_. True) m" by (simp add: gives_def)

lemma gives_AddParam: "ex_type ex = t \<Longrightarrow> gives (\<lambda>r. ex_type (snd r) = t) (must (AddParam f p ex))"
  by (rule gives_must) (auto dest: ex_type_AddParam)

lemma gives_cap_params: "ex_type ex = t \<Longrightarrow> gives (\<lambda>ex'. ex_type ex' = t) (cap_params env l ps ex)"
proof (induction ps arbitrary: ex)
  case (Cons p ps)
  have "gives (\<lambda>ex'. ex_type ex' = t)
      (andthen (must (AddParam (pe_atof env) p (AddParam_int k ex))) (\<lambda>(_, ex). cap_params env l ps ex))" for k
    using Cons by (intro gives_andthen [OF gives_AddParam]) (simp_all add: case_prod_beta)
  then show ?case by (simp add: gives_throw split: option.split)
qed (simp add: gives_give)

lemma gives_dedup_params: "ex_type ex = t \<Longrightarrow> gives (\<lambda>ex'. ex_type ex' = t) (dedup_params l ps ex)"
  by (induction ps arbitrary: ex) (simp_all add: gives_give gives_throw split: option.split)

lemma gives_add_keys: "ex_type ex = t \<Longrightarrow> gives (\<lambda>ex'. ex_type ex' = t) (add_keys env e ps ex)"
  by (induction ps arbitrary: ex) (simp_all add: gives_give gives_andthen [OF gives_any])

lemma gives_select_params: "ex_type (fst acc) = t \<Longrightarrow> gives (\<lambda>r. ex_type (fst r) = t) (select_params env l ps acc)"
proof (induction ps arbitrary: acc)
  case (Cons p ps)
  have "gives (\<lambda>r. ex_type (fst r) = t)
      (andthen (must (AddParam (pe_atof env) p (AddParam_int k (fst acc)))) (\<lambda>(_, ex). select_params env l ps (ex, k)))" for k
    using Cons.prems by (intro gives_andthen [OF gives_AddParam]) (simp, unfold case_prod_beta, rule Cons.IH, simp)
  then show ?case by (simp add: gives_throw split: option.split)
qed (simp add: gives_give)

lemma gives_values_keys: "ex_type ex = t \<Longrightarrow> gives (\<lambda>r. ex_type (snd r) = t) (values_keys env ps acc ex)"
proof (induction ps arbitrary: acc ex)
  case (Cons p ps)
  then show ?case by (simp add: case_prod_beta gives_throw gives_andthen [OF gives_any])
qed (simp add: gives_give)

context parser_rel
begin

lemma keeps_andthen_gives:
  "keeps R m \<Longrightarrow> gives P m \<Longrightarrow> (\<And>x. P x \<Longrightarrow> keeps R (f x)) \<Longrightarrow> keeps R (andthen m f)"
proof (rule keepsI)
  fix s r s'
  assume m: "keeps R m" and g: "gives P m" and f: "\<And>x. P x \<Longrightarrow> keeps R (f x)" and a: "andthen m f s = Some (r, s')"
  obtain x t where x: "m s = Some (x, t)" using a by (auto simp: andthen_def split: option.splits)
  show "R s s'"
  proof (cases x)
    case (Inl e)
    then show ?thesis using a x keepsD [OF m x] by (simp add: andthen_def)
  next
    case (Inr y)
    then have "P y" using g x unfolding gives_def by blast
    moreover have "f y t = Some (r, s')" using a x Inr by (simp add: andthen_def)
    ultimately show ?thesis using keepsD [OF m x] keepsD [OF f] R_trans by blast
  qed
qed

lemma keeps_cap_params: "keeps R (cap_params env l ps ex)"
  by (induction ps arbitrary: ex) (simp_all add: keeps_basic)

lemma keeps_dedup_params: "keeps R (dedup_params l ps ex)"
  by (induction ps arbitrary: ex) (simp_all add: keeps_basic)

lemma keeps_add_keys: "keeps R (add_keys env e ps ex)"
  by (induction ps arbitrary: ex) (simp_all add: keeps_basic keeps_key_or_throw)

lemma keeps_select_params: "keeps R (select_params env l ps acc)"
  by (induction ps arbitrary: acc) (simp_all add: keeps_basic)

lemma keeps_values_keys: "keeps R (values_keys env ps acc ex)"
  by (induction ps arbitrary: acc ex) (simp_all add: keeps_basic keeps_key_type_or_throw)

lemma keeps_ParseCap: "keeps R (ParseCap env params)"
  unfolding ParseCap_def
  by (intro keeps_if keeps_throw keeps_andthen keeps_look keeps_andthen_gives [OF keeps_cap_params gives_cap_params [where t = E_CAP]]
      keeps_in_order_cons keeps_in_order_nil keeps_AppendExpert keeps_set_io) (simp_all add: update_kinds_def)

lemma keeps_ParseDedup: "keeps R (ParseDedup params)"
  unfolding ParseDedup_def
  by (intro keeps_andthen keeps_look keeps_prod keeps_andthen_gives [OF keeps_dedup_params gives_dedup_params [where t = E_DEDUP]]
      keeps_AppendExpert) (simp_all add: update_kinds_def)

lemma keeps_ParseProperties: "keeps R (ParseProperties env params)"
  unfolding ParseProperties_def
  by (intro keeps_andthen keeps_element_input keeps_andthen_gives [OF keeps_add_keys gives_add_keys [where t = E_PROPERTIES]]
      keeps_in_order_cons keeps_in_order_nil keeps_AppendExpert keeps_set_io) (simp_all add: update_kinds_def)

lemma keeps_ParseSelect: "keeps R (ParseSelect env params)"
proof -
  have *: "keeps R (case r of (ex, key) \<Rightarrow> if length params = 1
        then andthen (look (\<lambda>s. map_at (ps_ls2type s) key IO_EDGE)) (\<lambda>ty.
             in_order [set_io ty, AppendExpert (ex\<lparr>ex_send_remote := IsElement ty\<rparr>)])
        else in_order [set_io IO_COLLECTION, AppendExpert ex])"
    if "ex_type (fst r) = E_SELECT" for r
    using that by (cases r) (auto intro!: keeps_basic keeps_set_io keeps_AppendExpert simp: update_kinds_def)
  show ?thesis unfolding ParseSelect_def
    by (intro keeps_if keeps_throw keeps_andthen keeps_look keeps_andthen_gives [OF keeps_select_params gives_select_params [where t = E_SELECT]] *) simp_all
qed

lemma keeps_ParseValues: "keeps R (ParseValues env params)"
proof -
  have *: "keeps R (case r of (outType, ex) \<Rightarrow> andthen (AppendExpert ex) (\<lambda>_. andthen (Value2IO outType) set_io))"
    if "ex_type (snd r) = E_VALUES" for r
    using that by (cases r) (auto intro!: keeps_andthen keeps_Value2IO keeps_set_io keeps_AppendExpert simp: update_kinds_def)
  show ?thesis unfolding ParseValues_def
    by (intro keeps_andthen keeps_element_input keeps_andthen_gives [OF keeps_values_keys gives_values_keys [where t = E_VALUES]] *) simp_all
qed

lemma keeps_ParseCoin: "keeps R (ParseCoin env params)"
proof -
  have *: "keeps R (case r of (_, ex) \<Rightarrow> andthen (look ps_io) (\<lambda>io. AppendExpert (ex\<lparr>ex_send_remote := IsElement io\<rparr>)))"
    if "ex_type (snd r) = E_COIN" for r
    using that by (cases r) (auto intro!: keeps_andthen keeps_look keeps_AppendExpert simp: update_kinds_def)
  show ?thesis unfolding ParseCoin_def
    by (intro keeps_list keeps_throw keeps_andthen keeps_expect keeps_andthen_gives [OF keeps_must gives_AddParam [where t = E_COIN]] *) simp_all
qed

lemma keeps_ParseProperty: "keeps R (ParseProperty env params)"
proof -
  have *: "keeps R (case r of (_, ex) \<Rightarrow> in_order [AppendExpert ex, add_trx_type TRX_UPDATE, set_updating])"
    if "ex_type (snd r) = E_PROPERTY" for r
  proof -
    obtain ok ex where r: "r = (ok, ex)" by (cases r)
    then have "ex_type ex = E_PROPERTY" using that by simp
    then have "keeps R (in_order [AppendExpert ex, add_trx_type TRX_UPDATE, set_updating])"
      by (intro keeps_update) (simp add: update_kinds_def)
    then show ?thesis unfolding r by simp
  qed
  show ?thesis unfolding ParseProperty_def
    by (intro keeps_list keeps_throw keeps_andthen keeps_prod keeps_element_input keeps_key_type_or_throw keeps_must
        keeps_expect keeps_andthen_gives [OF keeps_must gives_AddParam [where t = E_PROPERTY]] *) simp_all
qed

end

context parser_rel
begin

lemma keeps_set_updating: "keeps R set_updating"
  unfolding set_updating_def by (rule keeps_change) (rule R_updating)

lemma keeps_update_experts:
  assumes "(t, ty) \<in> update_kinds" "\<forall>e\<in>set es. ex_type e = t"
  shows "R s (s\<lparr>ps_experts := ps_experts s @ es, ps_expert_index := i,
    ps_plan := (ps_plan s)\<lparr>tp_trx_type := tp_trx_type (ps_plan s) OR ty\<rparr>, ps_read_only := False\<rparr>)"
proof -
  let ?t = "s\<lparr>ps_experts := ps_experts s @ es, ps_plan := (ps_plan s)\<lparr>tp_trx_type := tp_trx_type (ps_plan s) OR ty\<rparr>,
    ps_read_only := False\<rparr>"
  have 1: "R s ?t" by (rule R_update [OF assms])
  have "R ?t (?t\<lparr>ps_expert_index := i, ps_index_count := ps_index_count s, ps_min_count := ps_min_count s\<rparr>)" by (rule R_counters)
  moreover have "?t\<lparr>ps_expert_index := i, ps_index_count := ps_index_count s, ps_min_count := ps_min_count s\<rparr>
      = s\<lparr>ps_experts := ps_experts s @ es, ps_expert_index := i,
          ps_plan := (ps_plan s)\<lparr>tp_trx_type := tp_trx_type (ps_plan s) OR ty\<rparr>, ps_read_only := False\<rparr>"
    by (cases s) simp
  ultimately show ?thesis using R_trans [OF 1] by metis
qed

lemma keeps_drop_pair:
  "keeps R (in_order [AppendExpert (drop_expert ty b), (if c then AppendExpert (drop_expert EDGE False) else give ()),
     add_trx_type TRX_DELETE, set_updating])" (is "keeps R ?m")
proof (rule keepsI)
  fix s r s'
  assume a: "?m s = Some (r, s')"
  define e1 where "e1 = drop_expert ty b\<lparr>ex_next := int (length (ps_experts s)) + 1, ex_index := ps_expert_index s\<rparr>"
  define e2 where "e2 = drop_expert EDGE False\<lparr>ex_next := int (length (ps_experts s)) + 2, ex_index := ps_expert_index s + 1\<rparr>"
  define es where "es = (if c then [e1, e2] else [e1])"
  have t: "ex_type e1 = E_DROP" "ex_type e2 = E_DROP" by (simp_all add: e1_def e2_def drop_expert_def)
  have "s' = s\<lparr>ps_experts := ps_experts s @ es, ps_expert_index := ps_expert_index s + (if c then 2 else 1),
      ps_plan := (ps_plan s)\<lparr>tp_trx_type := tp_trx_type (ps_plan s) OR TRX_DELETE\<rparr>, ps_read_only := False\<rparr>"
    using a by (cases s) (auto simp: andthen_def AppendExpert_def add_trx_type_def set_updating_def change_def give_def es_def
        e1_def e2_def)
  moreover have "R s \<dots>" using t by (intro keeps_update_experts [of E_DROP]) (auto simp: update_kinds_def es_def)
  ultimately show "R s s'" by simp
qed

lemma keeps_ParseDrop: "keeps R (ParseDrop params)"
  unfolding ParseDrop_def
  by (intro keeps_if keeps_throw keeps_andthen keeps_look keeps_prod keeps_drop_pair)
    (simp add: keeps_give keeps_throw split: IO_T.split)

lemma R_reset:
  assumes "ex_type ` set es \<subseteq> ex_type ` set (ps_experts s)"
  shows "R s (s\<lparr>ps_experts := es, ps_expert_index := i, ps_index_count := c, ps_min_count := m\<rparr>)"
proof -
  have "R s (s\<lparr>ps_experts := es\<rparr>)" using assms by (intro R_experts) auto
  then show ?thesis using R_counters [of "s\<lparr>ps_experts := es\<rparr>"] R_trans by simp
qed

lemma R_reset_experts:
  assumes "ex_type ` set es \<subseteq> ex_type ` set (ps_experts s)"
  shows "R s (s\<lparr>ps_experts := es, ps_index_count := c, ps_min_count := m\<rparr>)"
proof -
  have "s\<lparr>ps_experts := es, ps_index_count := c, ps_min_count := m\<rparr> =
      s\<lparr>ps_experts := es, ps_expert_index := ps_expert_index s, ps_index_count := c, ps_min_count := m\<rparr>" by (cases s) simp
  then show ?thesis using R_reset [OF assms] by metis
qed

lemma keeps_RemoveLastExpert: "keeps R RemoveLastExpert"
proof (rule keepsI)
  fix s r s'
  assume "RemoveLastExpert s = Some (r, s')"
  then have "s' = s\<lparr>ps_experts := butlast (ps_experts s), ps_expert_index := ps_expert_index s - 1,
      ps_index_count := ps_index_count s, ps_min_count := ps_min_count s\<rparr>"
    by (cases s) (auto simp: RemoveLastExpert_def split: if_splits)
  moreover have "R s \<dots>" by (intro R_reset) (auto dest: in_set_butlastD)
  ultimately show "R s s'" by simp
qed

lemma R_move_to_init:
  assumes e: "ps_experts s = [init, has]" and a: "move_to_init cnt init has s = Some (r, s')"
  shows "R s s'"
proof -
  obtain ip hp c m where t: "(if length hp = 1
      then RemoveLastExpert (s\<lparr>ps_experts := [init\<lparr>ex_params := ip\<rparr>, has\<lparr>ex_params := hp\<rparr>], ps_index_count := c, ps_min_count := m\<rparr>)
      else Some (Inr (), s\<lparr>ps_experts := [init\<lparr>ex_params := ip\<rparr>, has\<lparr>ex_params := hp\<rparr>], ps_index_count := c, ps_min_count := m\<rparr>))
      = Some (r, s')"
    using a unfolding move_to_init_def Let_def Option.bind_eq_Some_conv split_beta by blast
  have "R s (s\<lparr>ps_experts := [init\<lparr>ex_params := ip\<rparr>, has\<lparr>ex_params := hp\<rparr>], ps_index_count := c, ps_min_count := m\<rparr>)"
    by (rule R_reset_experts) (simp add: e)
  then show ?thesis using t R_trans keepsD [OF keeps_RemoveLastExpert] by (auto split: if_split_asm)
qed

lemma keeps_index_has: "keeps R (index_has env ty key)"
proof (rule keepsI)
  fix s r s'
  assume a: "index_has env ty key s = Some (r, s')"
  show "R s s'"
  proof (cases "\<exists>init has. ps_experts s = [init, has]")
    case False
    then show ?thesis using a by (auto simp: index_has_def R_refl split: list.splits)
  next
    case True
    then obtain init has where e: "ps_experts s = [init, has]" by blast
    then have "s' = s \<or> (\<exists>cnt. move_to_init cnt init has s = Some (r, s'))"
      using a by (auto simp: index_has_def Let_def Option.bind_eq_Some_conv split: if_split_asm)
    then show ?thesis using R_move_to_init [OF e] R_refl by blast
  qed
qed

end

context parser_rel
begin

lemma keeps_index_hasLabel: "keeps R (index_hasLabel env ty)"
proof (rule keepsI)
  fix s r s'
  assume a: "index_hasLabel env ty s = Some (r, s')"
  have "s' = s\<lparr>ps_experts := ps_experts s', ps_expert_index := ps_expert_index s', ps_index_count := ps_index_count s',
        ps_min_count := ps_min_count s'\<rparr> \<and> ex_type ` set (ps_experts s') \<subseteq> ex_type ` set (ps_experts s)"
    using a by (cases s) (auto simp: index_hasLabel_def Let_def split: if_splits list.splits)
  then show "R s s'" using R_reset [of "ps_experts s'" s] by metis
qed

lemma keeps_ParseHas: "keeps R (ParseHas env params ty)"
  unfolding ParseHas_def
  by (intro keeps_basic keeps_element_input keeps_CheckLastExpert keeps_AppendExpert keeps_key_type_or_throw
      keeps_last_add_int keeps_ParsePredicate keeps_last_add keeps_key_or_throw keeps_index_has) (simp add: update_kinds_def)

lemma keeps_ParseHasLabel: "keeps R (ParseHasLabel env params)"
  unfolding ParseHasLabel_def
  by (intro keeps_basic keeps_element_input keeps_CheckLastExpert keeps_AppendExpert keeps_key_or_throw
      keeps_last_add_int keeps_index_hasLabel) (simp add: update_kinds_def)

lemma keeps_ParseIs: "keeps R (ParseIs env params)"
  unfolding ParseIs_def
  by (intro keeps_basic keeps_CheckLastExpert keeps_AppendExpert keeps_ParsePredicate) (simp add: update_kinds_def)

lemma keeps_ParseWhere: "(\<And>q. keeps R (pq q)) \<Longrightarrow> keeps R (ParseWhere env pq params)"
  unfolding ParseWhere_def
  by (intro keeps_basic keeps_ParseBranchFilter keeps_CheckLastExpert keeps_AppendExpert keeps_last_add_int keeps_ParsePredicate)
    (simp_all add: update_kinds_def)

lemmas keeps_methods = keeps_ParseAddE keeps_ParseFromTo keeps_ParseAddV keeps_ParseAggregate keeps_ParseAs
  keeps_ParseBranch keeps_ParseBranchFilter keeps_ParseCap keeps_ParseCount keeps_ParseDedup keeps_ParseDrop keeps_ParseGroup
  keeps_ParseHas keeps_ParseHasLabel keeps_ParseIs keeps_ParseKey keeps_ParseLabel keeps_ParseMath keeps_ParseOrder
  keeps_ParseProperties keeps_ParseProperty keeps_ParseRange keeps_ParseCoin keeps_ParseRepeat keeps_ParseSelect
  keeps_ParseTraversal keeps_ParseValues keeps_ParseWhere

lemma keeps_ParseStep: "(\<And>q. keeps R (pq q)) \<Longrightarrow> keeps R (ParseStep env pq ty params)"
  by (cases ty) (simp_all add: ParseStep_def keeps_methods keeps_throw)

lemma keeps_ParseSteps: "(\<And>q. keeps R (pq q)) \<Longrightarrow> keeps R (ParseSteps env pq tokens)"
  unfolding ParseSteps_def by (intro keeps_for_each keeps_prod keeps_andthen keeps_SplitParam keeps_ParseStep)

lemma keeps_ParseQuery: "keeps R (ParseQuery env n q)"
  by (induction n arbitrary: q) (simp_all add: keeps_must keeps_andthen keeps_GetSteps keeps_ParseSteps)

lemma keeps_ParseIndex: "keeps R (ParseIndex env p)"
  unfolding ParseIndex_def Let_def
  by (intro keeps_basic keeps_set_io keeps_key_or_throw keeps_AppendExpert keeps_set_updating) (simp add: update_kinds_def)

lemma keeps_ParseDisplayStatus: "keeps R (ParseDisplayStatus p)"
  unfolding ParseDisplayStatus_def
  by (intro keeps_basic keeps_AppendExpert keeps_set_updating) (simp add: update_kinds_def)

lemma keeps_ParseSetConfig: "keeps R (ParseSetConfig p)"
proof -
  have *: "keeps R (andthen m (\<lambda>ex. in_order [AppendExpert ex, set_updating]))"
    if "keeps R m" "gives (\<lambda>ex. ex_type ex = E_CONFIG) m" for m
    by (intro keeps_andthen_gives [OF that] keeps_basic keeps_AppendExpert keeps_set_updating) (simp add: update_kinds_def)
  show ?thesis unfolding ParseSetConfig_def Let_def
    by (intro keeps_list keeps_throw * keeps_if keeps_give keeps_andthen keeps_must)
      (auto intro!: gives_give gives_throw gives_andthen [OF gives_any])
qed

end

end
