(* ===== verification/Parser_Lemmas.thy ===== *)
theory Parser_Lemmas
  imports Parser_Keeps "HOL-Library.Multiset"
begin

text \<open>
  Facts about the parser model: what parsing one command and one line keeps of the transaction plan and of its type, the
  invariant \<open>lines_inv\<close> of the loop over the lines, the permutation done by \<open>ReOrderSteps\<close>, printing and reading
  of steps, and that the length of a query bounds the depth of its sub-queries.
\<close>

section \<open>The plan while a line is parsed\<close>

definition plan_eq :: "trx_plan \<Rightarrow> trx_plan \<Rightarrow> bool" where
  "plan_eq p q \<longleftrightarrow> tp_deps p = tp_deps q \<and> tp_topo p = tp_topo q \<and> tp_is_abort p = tp_is_abort q"

definition reg_all :: "u8 \<Rightarrow> (u8 \<times> int \<times> int) list \<Rightarrow> trx_plan \<Rightarrow> trx_plan" where
  "reg_all line phs = fold (\<lambda>(src, ex, prm). RegPlaceHolder src line ex prm) phs"

definition known :: "(string \<times> (int \<times> IO_T)) list \<Rightarrow> u8 \<Rightarrow> bool" where
  "known l src \<longleftrightarrow> (\<exists>var q io. map_of l var = Some (q, io) \<and> src = word_of_int q)"

text \<open>Parsing a query only registers placeholders for variables of earlier lines.\<close>

definition plan_rel :: "pstate \<Rightarrow> pstate \<Rightarrow> bool" where
  "plan_rel s s' \<longleftrightarrow> ps_line s' = ps_line s \<and> ps_place_holder s' = ps_place_holder s \<and> ps_last_update s' = ps_last_update s \<and>
     tp_plans (ps_plan s') = tp_plans (ps_plan s) \<and> tp_is_end (ps_plan s') = tp_is_end (ps_plan s) \<and>
     (\<exists>phs. (\<forall>ph\<in>set phs. known (ps_place_holder s) (fst ph)) \<and> plan_eq (ps_plan s') (reg_all (ps_line s) phs (ps_plan s)))"

text \<open>An updating expert shows in the type of the transaction and marks the line.\<close>

definition type_inv :: "pstate \<Rightarrow> bool" where
  "type_inv s \<longleftrightarrow> (\<forall>ex\<in>set (ps_experts s). \<forall>ty. (ex_type ex, ty) \<in> update_kinds \<longrightarrow>
     tp_trx_type (ps_plan s) AND ty = ty \<and> \<not> ps_read_only s)"

definition type_rel :: "pstate \<Rightarrow> pstate \<Rightarrow> bool" where
  "type_rel s s' \<longleftrightarrow> (type_inv s \<longrightarrow> type_inv s') \<and>
     (\<forall>ty. tp_trx_type (ps_plan s) AND ty = ty \<longrightarrow> tp_trx_type (ps_plan s') AND ty = ty) \<and>
     (\<not> ps_read_only s \<longrightarrow> \<not> ps_read_only s')"

lemma RegDependency_plan_eq: "plan_eq p q \<Longrightarrow> plan_eq (RegDependency a b p) (RegDependency a b q)"
  by (simp add: plan_eq_def RegDependency_def Let_def)

lemma RegPlaceHolder_plan_eq: "plan_eq p q \<Longrightarrow> plan_eq (RegPlaceHolder a b e i p) (RegPlaceHolder a b e i q)"
  unfolding RegPlaceHolder_def by (rule RegDependency_plan_eq) (simp add: plan_eq_def)

lemma reg_all_plan_eq: "plan_eq p q \<Longrightarrow> plan_eq (reg_all line phs p) (reg_all line phs q)"
  unfolding reg_all_def by (induction phs arbitrary: p q) (auto simp: RegPlaceHolder_plan_eq)

lemma plan_eq_trans: "plan_eq p q \<Longrightarrow> plan_eq q r \<Longrightarrow> plan_eq p r" by (simp add: plan_eq_def)

lemma RegPlaceHolder_frame [simp]:
  "tp_plans (RegPlaceHolder a b e i p) = tp_plans p" "tp_is_end (RegPlaceHolder a b e i p) = tp_is_end p"
  "tp_trx_type (RegPlaceHolder a b e i p) = tp_trx_type p"
  by (simp_all add: RegPlaceHolder_def RegDependency_def Let_def)

lemma plan_rel_refl: "plan_rel s s"
  unfolding plan_rel_def by (intro conjI exI [of _ "[]"]) (simp_all add: reg_all_def plan_eq_def)

lemma plan_rel_trans:
  assumes 1: "plan_rel s t" and 2: "plan_rel t u"
  shows "plan_rel s u"
proof -
  obtain a where a: "\<forall>ph\<in>set a. known (ps_place_holder s) (fst ph)" "plan_eq (ps_plan t) (reg_all (ps_line s) a (ps_plan s))"
    using 1 by (auto simp: plan_rel_def)
  obtain b where b: "\<forall>ph\<in>set b. known (ps_place_holder t) (fst ph)" "plan_eq (ps_plan u) (reg_all (ps_line t) b (ps_plan t))"
    using 2 by (auto simp: plan_rel_def)
  have "plan_eq (ps_plan u) (reg_all (ps_line s) (a @ b) (ps_plan s))"
    using plan_eq_trans [OF b(2) reg_all_plan_eq [OF a(2)]] 1 by (simp add: plan_rel_def reg_all_def)
  moreover have "\<forall>ph\<in>set (a @ b). known (ps_place_holder s) (fst ph)" using a(1) b(1) 1 by (auto simp: plan_rel_def)
  ultimately show ?thesis using 1 2 unfolding plan_rel_def by metis
qed

lemma plan_rel_same:
  "ps_line s' = ps_line s \<Longrightarrow> ps_place_holder s' = ps_place_holder s \<Longrightarrow> ps_last_update s' = ps_last_update s \<Longrightarrow>
   tp_plans (ps_plan s') = tp_plans (ps_plan s) \<Longrightarrow> tp_is_end (ps_plan s') = tp_is_end (ps_plan s) \<Longrightarrow>
   plan_eq (ps_plan s') (ps_plan s) \<Longrightarrow> plan_rel s s'"
  unfolding plan_rel_def by (intro conjI exI [of _ "[]"]) (simp_all add: reg_all_def)

interpretation pl: parser_rel plan_rel
proof (unfold_locales, rule plan_rel_refl, erule (1) plan_rel_trans)
  fix s :: pstate and var q io' step prm
  assume "map_of (ps_place_holder s) var = Some (q, io')"
  then show "plan_rel s (s\<lparr>ps_plan := RegPlaceHolder (word_of_int q) (ps_line s) step prm (ps_plan s)\<rparr>)"
    unfolding plan_rel_def
    by (intro conjI exI [of _ "[(word_of_int q, step, prm)]"]) (auto simp: reg_all_def plan_eq_def known_def)
qed (auto intro!: plan_rel_same simp: plan_eq_def)

lemma and_or_keeps: "a AND ty = ty \<Longrightarrow> (a OR b) AND ty = (ty :: u8)"
  by (rule bit_word_eqI) (metis bit_and_iff bit_or_iff)

lemma or_and_self: "(a OR ty) AND ty = (ty :: u8)"
  by (rule bit_word_eqI) (auto simp: bit_and_iff bit_or_iff)

lemma update_kinds_functional: "(t, a) \<in> update_kinds \<Longrightarrow> (t, b) \<in> update_kinds \<Longrightarrow> a = b"
  by (auto simp: update_kinds_def)

lemma type_inv_subset:
  assumes "type_inv s" "ex_type ` set es \<subseteq> ex_type ` set (ps_experts s) \<union> - fst ` update_kinds"
  shows "type_inv (s\<lparr>ps_experts := es\<rparr>)"
  unfolding type_inv_def
proof (intro ballI allI impI)
  fix ex ty
  assume ex: "ex \<in> set (ps_experts (s\<lparr>ps_experts := es\<rparr>))" and k: "(ex_type ex, ty) \<in> update_kinds"
  then have "ex_type ex \<in> fst ` update_kinds" by force
  then obtain e where "e \<in> set (ps_experts s)" "ex_type e = ex_type ex" using assms(2) ex by auto
  then show "tp_trx_type (ps_plan (s\<lparr>ps_experts := es\<rparr>)) AND ty = ty \<and> \<not> ps_read_only (s\<lparr>ps_experts := es\<rparr>)"
    using assms(1) k by (auto simp: type_inv_def)
qed

lemma type_rel_update:
  assumes "(t, ty) \<in> update_kinds" "\<forall>e\<in>set es. ex_type e = t"
  shows "type_rel s (s\<lparr>ps_experts := ps_experts s @ es, ps_plan := (ps_plan s)\<lparr>tp_trx_type := tp_trx_type (ps_plan s) OR ty\<rparr>,
    ps_read_only := False\<rparr>)"
proof -
  have "(tp_trx_type (ps_plan s) OR ty) AND ty' = ty'" if "(t, ty') \<in> update_kinds" for ty'
    using update_kinds_functional [OF assms(1) that] or_and_self by simp
  then show ?thesis using assms by (auto simp: type_rel_def type_inv_def and_or_keeps)
qed

interpretation ty: parser_rel type_rel
proof unfold_locales
  fix s :: pstate and es :: "expert_object list"
  assume "ex_type ` set es \<subseteq> ex_type ` set (ps_experts s) \<union> - fst ` update_kinds"
  then show "type_rel s (s\<lparr>ps_experts := es\<rparr>)" using type_inv_subset by (auto simp: type_rel_def)
next
  fix t ty and es :: "expert_object list" and s :: pstate
  assume "(t, ty) \<in> update_kinds" "\<forall>e\<in>set es. ex_type e = t"
  then show "type_rel s (s\<lparr>ps_experts := ps_experts s @ es, ps_plan := (ps_plan s)\<lparr>tp_trx_type := tp_trx_type (ps_plan s) OR ty\<rparr>,
    ps_read_only := False\<rparr>)" by (rule type_rel_update)
qed (auto simp: type_rel_def type_inv_def)

section \<open>Lines\<close>

lemma andthen_Inr:
  "andthen m f s = Some (Inr b, s') \<longleftrightarrow> (\<exists>a t. m s = Some (Inr a, t) \<and> f a t = Some (Inr b, s'))"
  by (auto simp: andthen_def split: option.splits sum.splits prod.splits)

lemma in_order_Inr:
  "in_order (m # ms) s = Some (Inr (), s') \<longleftrightarrow> (\<exists>t. m s = Some (Inr (), t) \<and> in_order ms t = Some (Inr (), s'))"
  by (simp add: andthen_Inr)

lemma rethrow_Inr: "rethrow f m s = Some (Inr b, s') \<longleftrightarrow> m s = Some (Inr b, s')"
  by (auto simp: rethrow_def split: option.splits sum.splits prod.splits)

lemma expect_Inr: "expect b e s = Some (Inr (), s') \<longleftrightarrow> b \<and> s' = s"
  by (auto simp: expect_def give_def throw_def)

lemma change_Inr: "change f s = Some (Inr (), s') \<longleftrightarrow> s' = f s"
  by (auto simp: change_def)

lemma look_Inr: "look f s = Some (Inr a, s') \<longleftrightarrow> a = f s \<and> s' = s"
  by (auto simp: look_def)

lemma must_Inr: "must x s = Some (Inr a, s') \<longleftrightarrow> x = Some a \<and> s' = s"
  by (auto simp: must_def)

lemma give_Inr: "give x s = Some (Inr a, s') \<longleftrightarrow> a = x \<and> s' = s"
  by (auto simp: give_def)

lemmas action_Inr = andthen_Inr in_order_Inr rethrow_Inr expect_Inr change_Inr look_Inr must_Inr give_Inr

lemma moved_experts_True: "moved_experts i es = Some (True, r) \<Longrightarrow> r = es"
  by (induction i es arbitrary: r rule: moved_experts.induct) (auto simp: Option.bind_eq_Some_conv split: if_splits)

definition name_result :: "string \<Rightarrow> pstate \<Rightarrow> pstate" where
  "name_result name s = (if name \<noteq> []
     then s\<lparr>ps_place_holder := ordered_map_insert name (uint (ps_line s), ps_io s) (ps_place_holder s)\<rparr> else s)"

lemma name_result_frame [simp]:
  "ps_experts (name_result n t) = ps_experts t" "ps_plan (name_result n t) = ps_plan t"
  "ps_read_only (name_result n t) = ps_read_only t" "ps_line (name_result n t) = ps_line t"
  "ps_last_update (name_result n t) = ps_last_update t"
  by (simp_all add: name_result_def)

context parser_rel
begin

lemma parse_command_rel:
  assumes "parse_command env line s = Some (Inr (), s')"
  obtains t name where "R s t" "s' = name_result name t"
proof (cases "find_sub ''BuildIndex'' line = Some 0 \<or> find_sub ''SetConfig'' line = Some 0 \<or> find_sub ''DisplayStatus'' line = Some 0")
  case True
  then have "R s s'"
    using assms keepsD [OF keeps_ParseIndex] keepsD [OF keeps_ParseSetConfig] keepsD [OF keeps_ParseDisplayStatus]
    by (auto simp: parse_command_def split: if_splits)
  then show ?thesis by (intro that [of s' "[]"]) (simp_all add: name_result_def)
next
  case False
  then obtain name query s1 t where *: "ParseInit line s = Some (Inr (name, query), s1)"
    "ParseQuery env (Suc (length query)) query s1 = Some (Inr (), t)" "s' = name_result name t"
    using assms by (auto simp: parse_command_def action_Inr name_result_def split: prod.splits)
  have "R s t" using keepsD [OF keeps_ParseInit *(1)] keepsD [OF keeps_ParseQuery *(2)] R_trans by blast
  then show ?thesis using *(3) by (rule that)
qed

end

text \<open>
  A line that parses: the query leaves a state \<open>t\<close>, whose experts, with an end expert, become those of the line.
\<close>

lemma ParseLine_rel:
  assumes "ParseLine env line s = Some (Inr (), s')"
  obtains t name es where "plan_rel (ClearQuery s) t" "type_rel (ClearQuery s) t" "es = ps_experts t @ [Expert_Object E_END]"
    and "unat (ps_line s) < length (tp_plans (ps_plan s))"
    and "s' = (name_result name t)\<lparr>ps_plan := (ps_plan t)\<lparr>tp_plans := (tp_plans (ps_plan t))[unat (ps_line s) :=
      (tp_plans (ps_plan t) ! unat (ps_line s))\<lparr>qp_experts := qp_experts (tp_plans (ps_plan t) ! unat (ps_line s)) @ es\<rparr>]\<rparr>\<rparr>"
proof -
  obtain u es where c: "parse_command env line (ClearQuery s) = Some (Inr (), u)"
    and m: "moved_experts 0 (ps_experts u) = Some (True, es)"
    and a': "andthen (add_to_plan es) (\<lambda>_. add_to_plan [Expert_Object E_END]) u = Some (Inr (), s')"
    using assms unfolding ParseLine_def by (auto simp: action_Inr split: prod.splits)
  note a = a' [unfolded moved_experts_True [OF m]]
  obtain t name where t: "plan_rel (ClearQuery s) t" "u = name_result name t" by (rule pl.parse_command_rel [OF c])
  obtain t' name' where t': "type_rel (ClearQuery s) t'" "u = name_result name' t'" by (rule ty.parse_command_rel [OF c])
  have "ps_experts t = ps_experts t'" "ps_plan t = ps_plan t'" "ps_read_only t = ps_read_only t'"
    using t(2) t'(2) name_result_frame by metis+
  then have "type_rel (ClearQuery s) t" using t'(1) by (simp add: type_rel_def type_inv_def)
  moreover have "ps_line t = ps_line s" "tp_plans (ps_plan t) = tp_plans (ps_plan s)"
    using t(1) by (simp_all add: plan_rel_def ClearQuery_def)
  ultimately show ?thesis
    using t a by (intro that [of t "ps_experts t @ [Expert_Object E_END]" name])
      (auto simp: add_to_plan_def andthen_def Let_def split: if_splits)
qed

section \<open>Transactions\<close>

definition updating :: "query_plan \<Rightarrow> bool" where
  "updating q \<longleftrightarrow> (\<exists>ex\<in>set (qp_experts q). ex_type ex \<in> fst ` update_kinds)"

definition experts_typed :: "query_plan list \<Rightarrow> u8 \<Rightarrow> nat set \<Rightarrow> bool" where
  "experts_typed qs tt U \<longleftrightarrow> (\<forall>k<length qs. \<forall>ex\<in>set (qp_experts (qs ! k)). \<forall>ty. (ex_type ex, ty) \<in> update_kinds \<longrightarrow>
     tt AND ty = ty \<and> k \<in> U)"

definition lines_inv :: "pstate \<Rightarrow> nat \<Rightarrow> nat set \<Rightarrow> nat \<Rightarrow> bool" where
  "lines_inv s n U N \<longleftrightarrow> parsed (ps_plan s) n (ps_last_update s) U \<and> ps_line s = of_nat n \<and>
     length (tp_plans (ps_plan s)) = N \<and> \<not> tp_is_end (ps_plan s) \<and>
     (\<forall>src. known (ps_place_holder s) src \<longrightarrow> unat src < n) \<and>
     experts_typed (tp_plans (ps_plan s)) (tp_trx_type (ps_plan s)) U"

lemma map_of_map_insert: "map_of (ordered_map_insert k v l) = (map_of l)(k \<mapsto> v)"
  by (induction k v l rule: ordered_map_insert.induct) (auto simp: fun_eq_iff)

lemma known_name_result:
  assumes "known (ps_place_holder (name_result name t)) src"
  shows "known (ps_place_holder t) src \<or> src = ps_line t"
  using assms by (auto simp: known_def name_result_def map_of_map_insert split: if_splits)

lemma RegDependency_trx_type [simp]: "tp_trx_type (RegDependency a b p) = tp_trx_type p"
  by (simp add: RegDependency_def Let_def)

lemma reg_range_trx_type [simp]: "tp_trx_type (reg_range b q p) = tp_trx_type p"
proof -
  have "tp_trx_type (fold (\<lambda>i. RegDependency (of_nat i) q) is p) = tp_trx_type p" for "is"
    by (induction "is" arbitrary: p) simp_all
  then show ?thesis by (simp add: reg_range_def)
qed

lemma register_line_frame:
  "register_line line ro lu p = (lu', p') \<Longrightarrow> tp_plans p' = tp_plans p \<and> tp_is_end p' = tp_is_end p \<and> tp_trx_type p' = tp_trx_type p"
  by (auto simp: register_line_def Let_def split: if_splits)

lemma experts_typed_update:
  assumes "experts_typed qs tt U" "\<And>ty. tt AND ty = ty \<Longrightarrow> tt' AND ty = ty" "U \<subseteq> U'"
    and "\<And>ex ty. ex \<in> set es \<Longrightarrow> (ex_type ex, ty) \<in> update_kinds \<Longrightarrow> tt' AND ty = ty \<and> n \<in> U'"
  shows "experts_typed (qs[n := (qs ! n)\<lparr>qp_experts := qp_experts (qs ! n) @ es\<rparr>]) tt' U'"
  unfolding experts_typed_def
proof (intro allI impI ballI)
  fix k ex ty
  assume k: "k < length (qs[n := (qs ! n)\<lparr>qp_experts := qp_experts (qs ! n) @ es\<rparr>])"
    and ex: "ex \<in> set (qp_experts (qs[n := (qs ! n)\<lparr>qp_experts := qp_experts (qs ! n) @ es\<rparr>] ! k))" and u: "(ex_type ex, ty) \<in> update_kinds"
  show "tt' AND ty = ty \<and> k \<in> U'"
  proof (cases "ex \<in> set (qp_experts (qs ! k))")
    case True
    then show ?thesis using assms(1-3) k u unfolding experts_typed_def by auto
  next
    case False
    then have "k = n \<and> ex \<in> set es" using ex k by (cases "k = n") auto
    then show ?thesis using assms(4) u by blast
  qed
qed

lemma parse_one_line_inv:
  assumes inv: "lines_inv s n U N" and n: "n < 255" and ok: "parse_one_line env line s = Some (Inr (), s')"
  shows "\<exists>U'. lines_inv s' (Suc n) U' N"
proof -
  let ?l = "of_nat n :: u8"
  have nl: "unat ?l = n" using n by (intro unat_u8_of_nat) simp
  define s1 where "s1 = s\<lparr>ps_plan := begin_line ?l (ps_plan s)\<rparr>"
  have l: "ps_line s = ?l" using inv by (simp add: lines_inv_def)
  obtain s2 where 2: "ParseLine env (trim line '' '') s1 = Some (Inr (), s2)"
    and sr: "s' = (let (lu, p) = register_line (ps_line s2) (ps_read_only s2) (ps_last_update s2) (ps_plan s2)
                 in s2\<lparr>ps_plan := p, ps_last_update := lu, ps_line := ps_line s2 + 1\<rparr>)"
    using ok l unfolding parse_one_line_def in_order.simps andthen_Inr give_Inr s1_def by (auto simp: change_Inr)
  obtain lu p3 where r: "register_line (ps_line s2) (ps_read_only s2) (ps_last_update s2) (ps_plan s2) = (lu, p3)"
    by (metis surj_pair)
  have s': "s' = s2\<lparr>ps_plan := p3, ps_last_update := lu, ps_line := ps_line s2 + 1\<rparr>" using sr r by simp
  obtain t name es where t: "plan_rel (ClearQuery s1) t" "type_rel (ClearQuery s1) t" "es = ps_experts t @ [Expert_Object E_END]"
    and s2: "s2 = (name_result name t)\<lparr>ps_plan := (ps_plan t)\<lparr>tp_plans := (tp_plans (ps_plan t))[unat (ps_line s1) :=
      (tp_plans (ps_plan t) ! unat (ps_line s1))\<lparr>qp_experts := qp_experts (tp_plans (ps_plan t) ! unat (ps_line s1)) @ es\<rparr>]\<rparr>\<rparr>"
    by (rule ParseLine_rel [OF 2])
  have tl: "ps_line t = ?l" "ps_place_holder t = ps_place_holder s" "ps_last_update t = ps_last_update s"
    "tp_plans (ps_plan t) = tp_plans (ps_plan s)" "tp_is_end (ps_plan t) = tp_is_end (ps_plan s)"
    using t(1) l by (simp_all add: plan_rel_def ClearQuery_def s1_def begin_line_def)
  obtain phs where phs: "\<forall>ph\<in>set phs. known (ps_place_holder s) (fst ph)"
    "plan_eq (ps_plan t) (reg_all ?l phs (begin_line ?l (ps_plan s)))"
    using t(1) l by (auto simp: plan_rel_def ClearQuery_def s1_def)
  define U' where "U' = (if ps_read_only s2 then U else insert n U)"
  have s2l: "ps_line s2 = ?l" "ps_last_update s2 = ps_last_update s" using tl by (simp_all add: s2)
  have parsed: "parsed p3 (Suc n) lu U'"
    unfolding U'_def
  proof (rule parsed_line)
    show "parsed (ps_plan s) n (ps_last_update s) U" using inv by (simp add: lines_inv_def)
    show "n < 255" by (rule n)
    show "\<forall>ph\<in>set phs. unat (fst ph) < n" using phs(1) inv by (auto simp: lines_inv_def)
    show "tp_deps (ps_plan s2) = tp_deps (reg_all ?l phs (begin_line ?l (ps_plan s)))"
      "tp_topo (ps_plan s2) = tp_topo (reg_all ?l phs (begin_line ?l (ps_plan s)))"
      "tp_is_abort (ps_plan s2) = tp_is_abort (reg_all ?l phs (begin_line ?l (ps_plan s)))"
      using phs(2) by (simp_all add: s2 plan_eq_def)
    show "register_line ?l (ps_read_only s2) (ps_last_update s) (ps_plan s2) = (lu, p3)" using r s2l by simp
  qed (simp add: reg_all_def)
  note fr = register_line_frame [OF r]
  have ty: "type_inv t" using t(2) by (simp add: type_rel_def type_inv_def ClearQuery_def)
  have "experts_typed (tp_plans (ps_plan s2)) (tp_trx_type (ps_plan s2)) U'"
  proof -
    have ro: "ps_read_only s2 = ps_read_only t" by (simp add: s2)
    have e: "tp_trx_type (ps_plan t) AND k = k \<and> n \<in> U'" if "ex \<in> set es" "(ex_type ex, k) \<in> update_kinds" for ex k
      using that ty ro by (auto simp: type_inv_def t(3) U'_def update_kinds_def)
    have m: "\<And>k. tp_trx_type (ps_plan s) AND k = k \<Longrightarrow> tp_trx_type (ps_plan t) AND k = k"
      using t(2) by (simp add: type_rel_def ClearQuery_def s1_def begin_line_def)
    have i: "experts_typed (tp_plans (ps_plan s)) (tp_trx_type (ps_plan s)) U" "U \<subseteq> U'"
      using inv by (auto simp: lines_inv_def U'_def)
    show ?thesis using experts_typed_update [OF i(1) m i(2) e] tl l nl by (simp add: s2 s1_def)
  qed
  moreover have "unat src < Suc n" if "known (ps_place_holder s') src" for src
    using that known_name_result [of name t src] tl inv nl by (auto simp: s' s2 lines_inv_def less_SucI)
  ultimately have "lines_inv s' (Suc n) U' N"
    using parsed fr inv s2l tl by (simp add: lines_inv_def s' s2)
  then show ?thesis ..
qed

lemma parse_lines_inv:
  assumes "lines_inv s n U N" "n + length lines \<le> 255" "for_each lines (parse_one_line env) s = Some (Inr (), s')"
  shows "\<exists>U'. lines_inv s' (n + length lines) U' N"
  using assms
proof (induction lines arbitrary: s n U)
  case Nil
  then show ?case by (auto simp: for_each_def give_def)
next
  case (Cons line lines)
  obtain s1 where 1: "parse_one_line env line s = Some (Inr (), s1)" "for_each lines (parse_one_line env) s1 = Some (Inr (), s')"
    using Cons.prems(3) by (auto simp: for_each_def andthen_Inr)
  obtain U1 where "lines_inv s1 (Suc n) U1 N" using parse_one_line_inv [OF Cons.prems(1) _ 1(1)] Cons.prems(2) by auto
  then show ?case using Cons.IH [of s1 "Suc n" U1] 1(2) Cons.prems(2) by simp
qed

definition trx_lines :: "string \<Rightarrow> string list" where
  "trx_lines input = split input [CHR '';'', CHR 0x0A]"

lemma Parse_inv:
  assumes "Parse env input s = Some (Inr (), s')" "ps_plan s = new_TrxPlan trxid host now" "length (trx_lines input) \<le> 255"
  obtains s2 U where "lines_inv s2 (length (trx_lines input)) U (Suc (length (trx_lines input)))"
    and "AddCommitStatement (of_nat (length (trx_lines input))) (ps_last_update s2) (ps_plan s2) = Some (ps_plan s')"
proof -
  define ls where "ls = trx_lines input"
  define s1 where "s1 = (ClearTrx s)\<lparr>ps_plan := resize_plans (Suc (length ls)) (ps_plan s)\<rparr>"
  obtain s2 p where 2: "for_each ls (parse_one_line env) s1 = Some (Inr (), s2)"
    and p: "AddCommitStatement (ps_line s2) (ps_last_update s2) (ps_plan s2) = Some p" "s' = s2\<lparr>ps_plan := p\<rparr>"
    using assms(1) by (auto simp: Parse_def Let_def action_Inr ls_def trx_lines_def s1_def ClearTrx_def)
  have "lines_inv s1 0 {} (Suc (length ls))"
    by (auto simp: lines_inv_def s1_def ClearTrx_def resize_plans_def assms(2) new_TrxPlan_def known_def experts_typed_def
        nth_replicate new_QueryPlan_def less_Suc_eq_0_disj nth_Cons' intro: parsed_start)
  then obtain U where i: "lines_inv s2 (length ls) U (Suc (length ls))"
    using parse_lines_inv [OF _ _ 2, of 0 "{}"] assms(3) by (auto simp: ls_def)
  then have "ps_line s2 = of_nat (length ls)" by (simp add: lines_inv_def)
  then show ?thesis using that [of s2 U] i p by (simp add: ls_def)
qed

section \<open>Reordering\<close>

lemma move_forward_perm:
  "k < length ts \<Longrightarrow> mset (move_forward c p k ts) = mset ts \<and> length (move_forward c p k ts) = length ts"
proof (induction k arbitrary: ts)
  case (Suc j)
  have "mset (ts[Suc j := ts ! j, j := ts ! Suc j]) = mset ts" using Suc.prems by (intro mset_swap) simp_all
  then show ?case using Suc by simp
qed simp

lemma move_forward_fixed:
  assumes "k < length ts" "0 \<le> p" "GetStepPriority (fst (ts ! k)) \<noteq> -1" "GetStepPriority (fst (ts ! i)) = -1"
  shows "move_forward c p k ts ! i = ts ! i"
  using assms
proof (induction k arbitrary: ts)
  case (Suc j)
  let ?ts = "ts[Suc j := ts ! j, j := ts ! Suc j]"
  show ?case
  proof (cases "GetStepPriority (fst (ts ! j)) > p \<and> \<not> (c \<and> fst (ts ! j) = S_AS)")
    case True
    then have i: "i \<noteq> j" "i \<noteq> Suc j" using Suc.prems by auto
    have "move_forward c p j ?ts ! i = ?ts ! i" using Suc.prems i by (intro Suc.IH) simp_all
    then show ?thesis using True i by simp
  next
    case False
    then show ?thesis by auto
  qed
qed simp

lemma GetStepPriority_range: "GetStepPriority t = -1 \<or> 0 \<le> GetStepPriority t"
  by (auto simp: GetStepPriority_def)

lemma reorder_step_cases:
  obtains "reorder_step i ts = ts" | c p where "reorder_step i ts = move_forward c p i ts" "0 \<le> p" "GetStepPriority (fst (ts ! i)) \<noteq> -1"
proof (cases "GetStepPriority (fst (ts ! i)) = -1")
  case True
  then show ?thesis using that(1) by (simp add: reorder_step_def case_prod_beta)
next
  case False
  then have "0 \<le> GetStepPriority (fst (ts ! i))" using GetStepPriority_range by blast
  moreover have "0 \<le> GetStepPriority S_AND" by (simp add: GetStepPriority_def)
  moreover define q where "q = (fst (ts ! i) = S_WHERE \<and> CheckIfQuery (snd (ts ! i)))"
  moreover define c where "c = (fst (ts ! i) = S_WHERE \<and> \<not> q \<or> fst (ts ! i) = S_DEDUP \<and> snd (ts ! i) \<noteq> [])"
  ultimately show ?thesis using False
    by (intro that(2) [of c "if q then GetStepPriority S_AND else GetStepPriority (fst (ts ! i))"])
      (simp_all add: reorder_step_def case_prod_beta Let_def)
qed

lemma reorder_steps_perm:
  assumes "\<forall>k\<in>set ks. k < length ts"
  shows "mset (fold reorder_step ks ts) = mset ts \<and> length (fold reorder_step ks ts) = length ts \<and>
    (\<forall>i. GetStepPriority (fst (ts ! i)) = -1 \<longrightarrow> fold reorder_step ks ts ! i = ts ! i)"
  using assms
proof (induction ks arbitrary: ts)
  case (Cons k ks)
  have k: "k < length ts" using Cons.prems by simp
  have 1: "mset (reorder_step k ts) = mset ts \<and> length (reorder_step k ts) = length ts \<and>
      (\<forall>i. GetStepPriority (fst (ts ! i)) = -1 \<longrightarrow> reorder_step k ts ! i = ts ! i)"
    by (rule reorder_step_cases [of k ts]) (use k move_forward_perm move_forward_fixed in auto)
  show ?case using Cons.IH [of "reorder_step k ts"] Cons.prems 1 by simp
qed simp

lemma ReOrderSteps_mset: "mset (ReOrderSteps env ts) = mset ts"
  using reorder_steps_perm [of "[1 ..< length ts]" ts] by (simp add: ReOrderSteps_def)

section \<open>Steps and their text\<close>

fun balanced :: "nat \<Rightarrow> string \<Rightarrow> bool" where
  "balanced d [] = (d = 0)"
| "balanced d (c # s) =
     (if c = CHR ''('' then balanced (d + 1) s else if c = CHR '')'' then d > 0 \<and> balanced (d - 1) s else balanced d s)"

fun print_steps :: "(string \<times> string) list \<Rightarrow> string" where
  "print_steps [] = []"
| "print_steps [(n, p)] = n @ ''('' @ p @ '')''"
| "print_steps ((n, p) # l) = n @ ''('' @ p @ '').'' @ print_steps l"

lemma match_paren_balanced: "balanced d p \<Longrightarrow> match_paren (Suc d) (p @ CHR '')'' # r) = Some (p, r)"
proof (induction d p rule: balanced.induct)
  case (2 d c s)
  then show ?case by (cases d) auto
qed simp

lemma str2step_no_bracket: "map_of str2step n = Some t \<Longrightarrow> CHR ''('' \<notin> set n"
proof -
  assume "map_of str2step n = Some t"
  then have "n \<in> fst ` set str2step" by (force dest: map_of_SomeD)
  moreover have "\<forall>n\<in>fst ` set str2step. CHR ''('' \<notin> set n" by (simp add: str2step_def)
  ultimately show ?thesis by blast
qed

lemma split_at_bracket:
  "CHR ''('' \<notin> set n \<Longrightarrow> takeWhile (\<lambda>c. c \<noteq> CHR ''('') (n @ CHR ''('' # r) = n \<and>
    tl (dropWhile (\<lambda>c. c \<noteq> CHR ''('') (n @ CHR ''('' # r)) = r"
  by (induction n) auto

lemma get_steps_print:
  assumes "l \<noteq> []" "\<forall>(n, p)\<in>set l. map_of str2step n \<noteq> None \<and> balanced 0 p \<and> trim p '' '' = p"
  shows "get_steps_loop first (print_steps l) = Steps (map (\<lambda>(n, p). (the (map_of str2step n), p)) l)"
  using assms
proof (induction l arbitrary: first rule: print_steps.induct)
  case (2 n p)
  then obtain t where t: "map_of str2step n = Some t" "balanced 0 p" "trim p '' '' = p" by auto
  note b = split_at_bracket [OF str2step_no_bracket [OF t(1)], of "p @ [CHR '')'']"]
  have m: "match_paren 1 (p @ [CHR '')'']) = Some (p, [])" using match_paren_balanced [OF t(2), of "[]"] by simp
  show ?case by (subst get_steps_loop.simps) (use b m t in simp)
next
  case (3 n p x l)
  then obtain t where t: "map_of str2step n = Some t" "balanced 0 p" "trim p '' '' = p" by auto
  let ?r = "CHR ''.'' # print_steps (x # l)"
  note b = split_at_bracket [OF str2step_no_bracket [OF t(1)], of "p @ CHR '')'' # ?r"]
  have m: "match_paren 1 (p @ CHR '')'' # ?r) = Some (p, ?r)" using match_paren_balanced [OF t(2)] by simp
  have ih: "get_steps_loop False (print_steps (x # l)) = Steps (map (\<lambda>(n, p). (the (map_of str2step n), p)) (x # l))"
    using 3 by (intro 3(1)) auto
  show ?case by (subst get_steps_loop.simps) (use b m t ih in \<open>simp add: add_step_def\<close>)
qed simp

section \<open>Queries that crash the process\<close>

lemma get_steps_no_bracket: "CHR ''('' \<notin> set w \<Longrightarrow> w \<noteq> [] \<Longrightarrow> get_steps_loop True w = Out_of_range"
  by (subst get_steps_loop.simps) simp

lemma ParseLine_no_step:
  assumes "CHR ''('' \<notin> set w" "CHR ''='' \<notin> set w" "3 \<le> length w"
  shows "ParseLine env (''g.V().'' @ w) s = None"
proof -
  let ?q = "''g.V().'' @ w"
  have f: "find_sub '').'' ?q = Some 4" "find_sub ''g.V'' ?q = Some 0" by (simp_all add: numeral_eq_Suc)
  have n: "find_sub ''BuildIndex'' ?q \<noteq> Some 0" "find_sub ''SetConfig'' ?q \<noteq> Some 0" "find_sub ''DisplayStatus'' ?q \<noteq> Some 0"
    by (simp_all add: numeral_eq_Suc)
  have d: "drop (4 + 2) ?q = w" by simp
  have w: "w \<noteq> []" using assms(3) by auto
  have i: "\<exists>t. ParseInit ?q s = Some (Inr ([], w), t)" for s
    using assms f d
    by (simp add: ParseInit_def init_element_def Let_def andthen_def give_def set_io_def change_def AppendExpert_def)
  have "GetSteps w t = None" for t using get_steps_no_bracket [OF assms(1) w] w by (simp add: GetSteps_def must_def)
  then have "ParseQuery env (Suc (length w)) w t = None" for t by (simp add: andthen_def)
  then have "parse_command env ?q s = None" for s
    using i [of s] n by (auto simp: parse_command_def andthen_def)
  then show ?thesis by (simp add: ParseLine_def andthen_def change_def look_def rethrow_def)
qed

lemma ParseLine_short:
  assumes "CHR ''='' \<notin> set w" "length w < 3"
  shows "\<exists>e s'. ParseLine env (''g.V().'' @ w) s = Some (Inl e, s')"
proof -
  let ?q = "''g.V().'' @ w"
  have f: "find_sub '').'' ?q = Some 4" "find_sub ''g.V'' ?q = Some 0" by (simp_all add: numeral_eq_Suc)
  have n: "find_sub ''BuildIndex'' ?q \<noteq> Some 0" "find_sub ''SetConfig'' ?q \<noteq> Some 0" "find_sub ''DisplayStatus'' ?q \<noteq> Some 0"
    by (simp_all add: numeral_eq_Suc)
  have d: "drop (4 + 2) ?q = w" by simp
  have i: "\<exists>e t. ParseInit ?q s = Some (Inl e, t)" for s
    using assms f d
    by (simp add: ParseInit_def init_element_def Let_def andthen_def give_def throw_def set_io_def change_def)
  obtain e t where "ParseInit ?q (ClearQuery s) = Some (Inl e, t)" using i by blast
  then have "parse_command env ?q (ClearQuery s) = Some (Inl e, t)" using n by (simp add: parse_command_def andthen_def)
  then show ?thesis by (simp add: ParseLine_def andthen_def change_def look_def rethrow_def)
qed

section \<open>The length of a query is enough fuel\<close>

lemma parse_one_sub_cong: "pq1 sub = pq2 sub \<Longrightarrow> parse_one_sub pq1 c f ct sub acc = parse_one_sub pq2 c f ct sub acc"
  by (simp add: parse_one_sub_def)

lemma parse_subs_cong:
  "\<forall>x\<in>set subs. pq1 x = pq2 x \<Longrightarrow> parse_subs pq1 c f ct subs acc = parse_subs pq2 c f ct subs acc"
proof (induction subs arbitrary: acc)
  case (Cons x subs)
  have "parse_subs pq1 c f ct subs = parse_subs pq2 c f ct subs" by (rule ext) (use Cons in simp)
  then show ?case using Cons.prems parse_one_sub_cong [of pq1 x pq2] by simp
qed simp

lemma parse_branching_cong:
  "\<forall>x\<in>set params. pq1 x = pq2 x \<Longrightarrow> parse_branching pq1 ex params f = parse_branching pq2 ex params f"
  using parse_subs_cong [of params pq1 pq2] by (simp add: parse_branching_def ParseSub_def)

lemma ParseStep_cong:
  assumes "\<forall>x\<in>set params. pq1 x = pq2 x"
  shows "ParseStep env pq1 ty params = ParseStep env pq2 ty params"
  using parse_branching_cong [OF assms]
  by (cases ty) (simp_all add: ParseStep_def ParseBranch_def ParseRepeat_def ParseWhere_def ParseBranchFilter_def)

lemma length_trim: "length (trim s sub) \<le> length s"
proof -
  let ?d = "dropWhile (\<lambda>c. c \<in> set sub) s"
  have "length (trim s sub) = length (dropWhile (\<lambda>c. c \<in> set sub) (rev ?d))" by (simp add: trim_def)
  also have "\<dots> \<le> length (rev ?d)" by (rule length_dropWhile_le)
  also have "\<dots> \<le> length s" by (simp add: length_dropWhile_le)
  finally show ?thesis .
qed

lemma length_trim_comma: "length (trim (CHR '','' # s) '' ,'') \<le> length s"
proof -
  have "trim (CHR '','' # s) '' ,'' = trim s '' ,''" by (simp add: trim_def)
  then show ?thesis using length_trim [of s] by simp
qed

definition text_size :: "string list \<Rightarrow> nat" where
  "text_size ts = (\<Sum>t\<leftarrow>ts. Suc (length t))"

lemma text_size_simps [simp]: "text_size [] = 0" "text_size (t # ts) = Suc (length t) + text_size ts"
  by (simp_all add: text_size_def)

lemma split_param_loop_length:
  assumes "x \<in> set (split_param_loop ts b p)" "p = [] \<or> hd p = CHR '',''"
  shows "Suc (length x) \<le> length p + text_size ts"
  using assms
proof (induction ts b p rule: split_param_loop.induct)
  case (2 t ts b p)
  let ?b = "b + balance_of t" and ?p = "p @ '','' @ t"
  obtain r where r: "?p = CHR '','' # r" using 2(4) by (cases p) auto
  have l: "length ?p = Suc (length r)" using r by simp
  then have lr: "Suc (length r) = length p + Suc (length t)" by simp
  show ?case
  proof (cases "?b = 0")
    case True
    then consider "x = trim ?p '' ,''" | "x \<in> set (split_param_loop ts ?b '''')" using 2(3) by (auto simp: Let_def)
    then show ?thesis
    proof cases
      case 1
      then show ?thesis using length_trim_comma [of r] lr unfolding r by simp
    next
      case 2
      then show ?thesis using "2.IH"(1) [OF refl refl True 2] by simp
    qed
  next
    case False
    then have "x \<in> set (split_param_loop ts ?b ?p)" using 2(3) by (simp add: Let_def)
    then have "Suc (length x) \<le> length ?p + text_size ts"
      using 2(4) by (intro "2.IH"(2) [OF refl refl False]) (auto simp: hd_append)
    then show ?thesis by simp
  qed
qed simp

lemma escaped_token_rest: "escaped_token q sep s = (tok, rest, q') \<Longrightarrow> rest = [] \<or> hd rest \<in> set sep"
proof (induction s arbitrary: q tok rest q')
  case (Cons c s)
  let ?q = "if c = CHR 0x22 then \<not> q else q"
  obtain tok1 rest1 q1 where r: "escaped_token ?q sep s = (tok1, rest1, q1)" by (metis prod_cases3)
  then show ?case using Cons.IH [OF r] Cons.prems by (cases "\<not> ?q \<and> c \<in> set sep") (auto simp: Let_def)
qed simp

lemma split_escape_size:
  "text_size (split_escape_loop q s sep) \<le> (if dropWhile (\<lambda>c. c \<in> set sep) s = [] then 0 else Suc (length (dropWhile (\<lambda>c. c \<in> set sep) s)))"
proof (induction q s sep rule: split_escape_loop.induct)
  case (2 q c s sep)
  let ?d = "dropWhile (\<lambda>c. c \<in> set sep) (c # s)"
  obtain tok rest q' where e: "escaped_token q sep ?d = (tok, rest, q')" by (metis prod_cases3)
  have tr: "tok @ rest = ?d" by (rule escaped_token_length [OF e])
  have sp: "split_escape_loop q (c # s) sep = (if tok \<noteq> [] then tok # split_escape_loop q' rest sep else split_escape_loop q' rest sep)"
    by (subst split_escape_loop.simps) (simp only: Let_def e fst_conv snd_conv)
  show ?case
  proof (cases "tok = []")
    case True
    then have "rest = []" using escaped_token_progress e by blast
    then show ?thesis using sp True by simp
  next
    case False
    have ih: "text_size (split_escape_loop q' rest sep) \<le>
        (if dropWhile (\<lambda>c. c \<in> set sep) rest = [] then 0 else Suc (length (dropWhile (\<lambda>c. c \<in> set sep) rest)))"
      using False by (intro 2(1) [OF e [symmetric]]) simp_all
    have "text_size (split_escape_loop q' rest sep) \<le> length rest"
    proof (cases rest)
      case Nil
      then show ?thesis by simp
    next
      case (Cons a r)
      then have "a \<in> set sep" using escaped_token_rest [OF e] by simp
      then have "length (dropWhile (\<lambda>c. c \<in> set sep) rest) \<le> length r" using Cons length_dropWhile_le [of _ r] by simp
      moreover have "length rest = Suc (length r)" using Cons by simp
      ultimately show ?thesis using ih by (auto split: if_split_asm simp del: split_escape_loop.simps)
    qed
    moreover have "length ?d = length tok + length rest" "?d \<noteq> []" using tr False by (metis length_append, force)
    ultimately show ?thesis using sp False by simp
  qed
qed simp

lemma SplitParam_length:
  assumes "x \<in> set (split_param_loop (splitWithEscape p '','') 0 '''')"
  shows "length x \<le> length p"
proof -
  have "Suc (length x) \<le> text_size (splitWithEscape p '','')" using split_param_loop_length [OF assms] by simp
  also have "\<dots> \<le> Suc (length (dropWhile (\<lambda>c. c \<in> set '','') p))"
    using split_escape_size [of False p "'',''"] unfolding splitWithEscape_def by (simp split: if_splits)
  also have "\<dots> \<le> Suc (length p)" by (simp add: length_dropWhile_le)
  finally show ?thesis by simp
qed

lemma get_steps_length:
  assumes "get_steps_loop first q = Steps ts" "(t, p) \<in> set ts"
  shows "length p < length q"
  using assms
proof (induction first q arbitrary: ts rule: get_steps_loop.induct)
  case (1 first q)
  show ?case
  proof (cases "CHR ''('' \<in> set q")
    case False
    then show ?thesis using "1.prems" by (simp add: get_steps_loop.simps [of first q] split: if_splits)
  next
    case True
    define step where "step = takeWhile (\<lambda>c. c \<noteq> CHR ''('') q"
    define rest where "rest = tl (dropWhile (\<lambda>c. c \<noteq> CHR ''('') q)"
    have rl: "length rest < length q"
    proof -
      have "dropWhile (\<lambda>c. c \<noteq> CHR ''('') q \<noteq> []" using True by (simp add: dropWhile_eq_Nil_conv)
      moreover have "length (dropWhile (\<lambda>c. c \<noteq> CHR ''('') q) \<le> length q" by (rule length_dropWhile_le)
      ultimately show ?thesis by (simp add: rest_def) (cases q, auto)
    qed
    obtain u pr where u: "map_of str2step step = Some u" "match_paren 1 rest = Some pr"
      using "1.prems"(1) True by (auto simp: get_steps_loop.simps [of first q] Let_def step_def rest_def split: option.splits)
    have l: "length (fst pr) + length (snd pr) < length rest" using match_paren_length u(2) by (metis prod.collapse)
    have e: "get_steps_loop first q = (if snd pr = [] then Steps [(u, trim (fst pr) '' '')]
        else if hd (snd pr) \<noteq> CHR ''.'' then Bad (''expect '.' after '' @ quote '')'')
        else add_step (u, trim (fst pr) '' '') (get_steps_loop False (tl (snd pr))))"
      using True u by (subst get_steps_loop.simps) (simp add: Let_def step_def rest_def)
    have tr: "length (trim (fst pr) '' '') < length q" using length_trim [of "fst pr" "'' ''"] l rl by linarith
    show ?thesis
    proof (cases "snd pr = []")
      case True
      then show ?thesis using e "1.prems" tr by simp
    next
      case False
      then obtain ts' where ts': "get_steps_loop False (tl (snd pr)) = Steps ts'" "ts = (u, trim (fst pr) '' '') # ts'"
        using e "1.prems"(1) by (auto simp: add_step_def split: if_splits steps_result.splits)
      show ?thesis
      proof (cases "(t, p) = (u, trim (fst pr) '' '')")
        case True
        then show ?thesis using tr by simp
      next
        case n: False
        have "hd (snd pr) = CHR ''.''" using e False "1.prems"(1) by (auto split: if_splits)
        then have "length p < length (tl (snd pr))"
          using "1.IH" [OF _ step_def rest_def u False _ ts'(1)] "1.prems"(2) ts'(2) n \<open>CHR ''('' \<in> set q\<close> by auto
        then show ?thesis using l rl by simp
      qed
    qed
  qed
qed

lemma ParseSteps_cong:
  assumes "\<And>t p x. (t, p) \<in> set tokens \<Longrightarrow> length x \<le> length p \<Longrightarrow> pq1 x = pq2 x"
  shows "ParseSteps env pq1 tokens = ParseSteps env pq2 tokens"
proof -
  have "andthen (SplitParam p) (ParseStep env pq1 t) = andthen (SplitParam p) (ParseStep env pq2 t)" if tp: "(t, p) \<in> set tokens" for t p
  proof -
    define w where "w = trim p '' ''"
    let ?xs = "split_param_loop (splitWithEscape w '','') 0 ''''"
    have "pq1 x = pq2 x" if "x \<in> set ?xs" for x
      using SplitParam_length [OF that] length_trim [of p "'' ''"] assms [OF tp] by (simp add: w_def)
    then have c: "ParseStep env pq1 t ?xs = ParseStep env pq2 t ?xs" by (intro ParseStep_cong) blast
    show ?thesis
      by (rule ext) (simp add: SplitParam_def Let_def andthen_def throw_def give_def c flip: w_def)
  qed
  then show ?thesis unfolding ParseSteps_def for_each_def by (auto intro!: arg_cong [where f = in_order] map_cong)
qed

text \<open>
  \<open>ParseQuery_out\<close> is \<open>ParseQuery\<close> with \<open>out\<close> in place of what is done when the fuel is used up, so that this can be
  told apart from a query that ends the process.
\<close>

fun ParseQuery_out :: "(string \<Rightarrow> unit action) \<Rightarrow> parser_env \<Rightarrow> nat \<Rightarrow> string \<Rightarrow> unit action" where
  "ParseQuery_out out env 0 query = out query"
| "ParseQuery_out out env (Suc n) query =
     andthen (GetSteps query) (\<lambda>tokens. ParseSteps env (ParseQuery_out out env n) (ReOrderSteps env tokens))"

lemma ParseQuery_out_None: "ParseQuery_out (\<lambda>_. must None) env n = ParseQuery env n"
proof (induction n)
  case (Suc n)
  show ?case by (rule ext) (simp add: Suc)
qed (rule ext, simp)

lemma ParseSteps_shorter:
  assumes "\<And>x. length x < length q \<Longrightarrow> pq1 x = pq2 x"
  shows "andthen (GetSteps q) (\<lambda>ts. ParseSteps env pq1 (ReOrderSteps env ts)) =
    andthen (GetSteps q) (\<lambda>ts. ParseSteps env pq2 (ReOrderSteps env ts))"
proof -
  have "ParseSteps env pq1 (ReOrderSteps env ts) = ParseSteps env pq2 (ReOrderSteps env ts)"
    if "get_steps_loop True q = Steps ts" for ts
  proof (rule ParseSteps_cong)
    fix t p and x :: string
    assume "(t, p) \<in> set (ReOrderSteps env ts)" "length x \<le> length p"
    moreover have "set (ReOrderSteps env ts) = set ts" using ReOrderSteps_mset mset_eq_setD by blast
    ultimately have "length x < length q" using get_steps_length [OF that, of t p] by simp
    then show "pq1 x = pq2 x" by (rule assms)
  qed
  then show ?thesis
    by (intro ext) (simp add: GetSteps_def andthen_def throw_def give_def must_def split: steps_result.split)
qed

lemma ParseQuery_fuel:
  assumes "length q < n" "length q < n'"
  shows "ParseQuery_out out env n q = ParseQuery_out out' env n' q"
  using assms
proof (induction "length q" arbitrary: q n n' rule: less_induct)
  case less
  obtain m m' where m: "n = Suc m" "n' = Suc m'" using less.prems by (metis less_nat_zero_code not0_implies_Suc)
  show ?case unfolding m ParseQuery_out.simps
    by (rule ParseSteps_shorter) (rule less.hyps, use less.prems m in auto)
qed

end
