(* ===== verification/Parser_Props.thy ===== *)
theory Parser_Props
  imports Parser_Lemmas
begin

text \<open>
  An example transaction and the properties of the parser: the order of updating queries, the type of the transaction,
  the round trip of steps, reordering, termination, and the inputs on which the parser fails.
\<close>

section \<open>An example\<close>

definition ex_env :: parser_env where
  "ex_env = \<lparr>pe_indexes = \<lparr>str2el = [], str2epk = [], str2eptype = [], str2vl = [(''person'', 1)], str2vpk = [(''age'', 1)],
       str2vptype = [(''1'', 1)]\<rparr>,
     pe_vpks_str = [], pe_vlks_str = [], pe_epks_str = [], pe_elks_str = [], pe_step_reorder = True,
     pe_index_enabled = (\<lambda>_ _ _. (False, 0)), pe_atof = (\<lambda>_. 0)\<rparr>"

definition ex_ps :: pstate where
  "ex_ps = \<lparr>ps_place_holder = [], ps_expert_index = 0, ps_line = 0, ps_last_update = 0, ps_side_effect_key = 0,
     ps_plan = new_TrxPlan 0 [] 0, ps_read_only = True, ps_io = IO_EDGE, ps_first_in_sub = 0, ps_index_count = [],
     ps_min_count = 0, ps_str2ls = [], ps_str2se = [], ps_ls2type = [], ps_experts = []\<rparr>"

definition ex_input :: string where
  "ex_input = ''g.V().count();g.addV(person)''"

definition ex_final_plan :: trx_plan where
  "ex_final_plan = (new_TrxPlan 0 [] 0)\<lparr>tp_trx_type := TRX_ADD,
     tp_plans := [new_QueryPlan\<lparr>qp_experts := [
           (AddParam_int 0 (AddParam_int 0 (Expert_Object E_INIT)))\<lparr>ex_next := 1\<rparr>,
           (Expert_Object E_COUNT)\<lparr>ex_next := 2, ex_index := 1\<rparr>, Expert_Object E_END]\<rparr>,
         new_QueryPlan\<lparr>qp_experts := [
           (AddParam_int 1 (Expert_Object E_ADDV))\<lparr>ex_next := 1, ex_index := 2\<rparr>, Expert_Object E_END]\<rparr>,
         new_QueryPlan\<lparr>qp_experts := commit_experts, qp_is_process := False\<rparr>],
     tp_deps := [(0, 0), (1, 1), (2, 1)], tp_topo := [(0, [1]), (1, [2])]\<rparr>"

lemma ex_parse: "\<exists>s'. Parse ex_env ex_input ex_ps = Some (Inr (), s') \<and> ps_plan s' = ex_final_plan"
proof -
  have "map_option (\<lambda>(r, s'). (r, ps_plan s')) (Parse ex_env ex_input ex_ps) = Some (Inr (), ex_final_plan)" by code_simp
  then show ?thesis by (cases "Parse ex_env ex_input ex_ps") auto
qed

lemma ex_input_lines: "length (trx_lines ex_input) = 2" by code_simp

lemma ex_final_run: "sched_run ex_final_plan (ex_send (ex_reply 0 (ex_send ex_final_plan))) [0, 1] {0}"
proof -
  have 1: "sched_run ex_final_plan (ex_send ex_final_plan) ([] @ [0]) {}"
    by (rule ex_send_run [OF sched_start]) code_simp
  have 2: "sched_run ex_final_plan (ex_reply 0 (ex_send ex_final_plan)) ([] @ [0]) {0}"
    by (rule ex_reply_run [OF 1]) (simp, simp, code_simp)
  have "sched_run ex_final_plan (ex_send (ex_reply 0 (ex_send ex_final_plan))) (([] @ [0]) @ [1]) {0}"
    by (rule ex_send_run [OF 2]) code_simp
  then show ?thesis by simp
qed

lemma ex_updating: "updating (tp_plans ex_final_plan ! 1)"
  by (simp add: updating_def ex_final_plan_def update_kinds_def AddParam_int_def Expert_Object_def)

section \<open>Properties\<close>

lemma AddCommitStatement_frame:
  assumes "AddCommitStatement (of_nat n) lu p = Some p0" "n < 256"
  shows "tp_trx_type p0 = tp_trx_type p" and "k < n \<Longrightarrow> tp_plans p0 ! k = tp_plans p ! k"
  using assms by (auto simp: AddCommitStatement_def Let_def begin_line_def unat_u8_of_nat)

lemma updating_marked:
  assumes "experts_typed qs tt U" "k < length qs" "updating (qs ! k)"
  shows "k \<in> U \<and> tt \<noteq> TRX_READONLY"
proof -
  obtain ex ty where ex: "ex \<in> set (qp_experts (qs ! k))" "(ex_type ex, ty) \<in> update_kinds"
    using assms(3) by (auto simp: updating_def)
  then have "k \<in> U" "tt AND ty = ty" using assms(1,2) unfolding experts_typed_def by blast+
  moreover have "ty \<noteq> 0" using ex(2) by (auto simp: update_kinds_def TRX_ADD_def TRX_DELETE_def TRX_UPDATE_def)
  ultimately show ?thesis by (auto simp: TRX_READONLY_def)
qed

text \<open>
  C9. Conflicting queries of a transaction run in the order they are written: if one of two queries of a parsed
  transaction contains an updating step, the later one is sent only after the earlier one has replied.
\<close>

theorem updates_run_in_order:
  assumes "Parse env input s = Some (Inr (), s')" "ps_plan s = new_TrxPlan trxid host now" "length (trx_lines input) \<le> 255"
    and "i < j" "j < length (trx_lines input)" "updating (tp_plans (ps_plan s') ! i) \<or> updating (tp_plans (ps_plan s') ! j)"
    and "sched_run (ps_plan s') p sent D" "of_nat j \<in> set sent"
  shows "of_nat i \<in> D"
proof -
  let ?n = "length (trx_lines input)"
  obtain s2 U where i: "lines_inv s2 ?n U (Suc ?n)"
    and c: "AddCommitStatement (of_nat ?n) (ps_last_update s2) (ps_plan s2) = Some (ps_plan s')"
    by (rule Parse_inv [OF assms(1-3)])
  have n: "?n < 256" using assms(3) by simp
  note pl = AddCommitStatement_frame(2) [OF c n]
  have p: "parsed (ps_plan s2) ?n (ps_last_update s2) U" "?n < length (tp_plans (ps_plan s2))"
    "experts_typed (tp_plans (ps_plan s2)) (tp_trx_type (ps_plan s2)) U" using i by (simp_all add: lines_inv_def)
  have "i \<in> U \<or> j \<in> U" using updating_marked [OF p(3)] pl [of i] pl [of j] assms(4-6) p(2) by auto
  then show ?thesis by (rule ordered_queries [OF p(1) n p(2) c assms(7,4,5) _ assms(8)])
qed

theorem updates_run_in_order_witness:
  "\<exists>s' p. Parse ex_env ex_input ex_ps = Some (Inr (), s') \<and> updating (tp_plans (ps_plan s') ! 1) \<and>
     sched_run (ps_plan s') p [0, 1] {0} \<and> of_nat 0 \<in> {0 :: u8}"
proof -
  obtain s' where s': "Parse ex_env ex_input ex_ps = Some (Inr (), s')" "ps_plan s' = ex_final_plan" using ex_parse by blast
  have "of_nat 0 \<in> {0 :: u8}"
    by (rule updates_run_in_order [OF s'(1), of 0 "[]" 0 0 1 "ex_send (ex_reply 0 (ex_send ex_final_plan))" "[0, 1]"])
      (use ex_input_lines ex_updating ex_final_run s'(2) in \<open>simp_all add: ex_ps_def\<close>)
  then show ?thesis using s' ex_updating ex_final_run by auto
qed

text \<open>
  C22. A transaction with an updating query is not of the read-only type, so that its validation is not skipped.
\<close>

theorem updating_trx_not_read_only:
  assumes "Parse env input s = Some (Inr (), s')" "ps_plan s = new_TrxPlan trxid host now" "length (trx_lines input) \<le> 255"
    and "k < length (trx_lines input)" "updating (tp_plans (ps_plan s') ! k)"
  shows "\<not> isTrxReadOnly (tp_trx_type (ps_plan s'))"
proof -
  let ?n = "length (trx_lines input)"
  obtain s2 U where i: "lines_inv s2 ?n U (Suc ?n)"
    and c: "AddCommitStatement (of_nat ?n) (ps_last_update s2) (ps_plan s2) = Some (ps_plan s')"
    by (rule Parse_inv [OF assms(1-3)])
  have n: "?n < 256" using assms(3) by simp
  have "experts_typed (tp_plans (ps_plan s2)) (tp_trx_type (ps_plan s2)) U" "k < length (tp_plans (ps_plan s2))"
    using i assms(4) by (simp_all add: lines_inv_def)
  then show ?thesis
    using updating_marked [of _ _ U k] AddCommitStatement_frame [OF c n] assms(4,5) by (auto simp: isTrxReadOnly_def)
qed

theorem updating_trx_not_read_only_witness:
  "\<exists>s'. Parse ex_env ex_input ex_ps = Some (Inr (), s') \<and> updating (tp_plans (ps_plan s') ! 1) \<and>
     \<not> isTrxReadOnly (tp_trx_type (ps_plan s'))"
proof -
  obtain s' where s': "Parse ex_env ex_input ex_ps = Some (Inr (), s')" "ps_plan s' = ex_final_plan" using ex_parse by blast
  have "\<not> isTrxReadOnly (tp_trx_type (ps_plan s'))"
    by (rule updating_trx_not_read_only [OF s'(1), of 0 "[]" 0 1])
      (use ex_input_lines ex_updating s'(2) in \<open>simp_all add: ex_ps_def\<close>)
  then show ?thesis using s' ex_updating by auto
qed

text \<open>
  C31. Parsing a query terminates, for queries that end the process too: with the length of the query as fuel the
  recursion over nested sub-queries never runs out. Whatever is put in place of running out of fuel (\<open>out\<close>), and
  however much more fuel there is, the result is that of \<open>ParseQuery\<close> with the fuel \<open>ParseLine\<close> gives it; and this
  result satisfies the recursion of the code, which has no fuel.
\<close>

theorem query_length_is_enough:
  shows "(\<forall>out n q. length q < n \<longrightarrow> ParseQuery_out out env n q = ParseQuery env (Suc (length q)) q) \<and>
    (\<forall>q. ParseQuery env (Suc (length q)) q =
       andthen (GetSteps q) (\<lambda>tokens. ParseSteps env (\<lambda>x. ParseQuery env (Suc (length x)) x) (ReOrderSteps env tokens)))"
proof -
  note f = ParseQuery_fuel [where env = env and out' = "\<lambda>_. must None", unfolded ParseQuery_out_None]
  have "ParseQuery_out out env n q = ParseQuery env (Suc (length q)) q" if "length q < n" for out n q
    by (rule f [OF that]) simp
  moreover have "ParseQuery env (Suc (length q)) q =
      andthen (GetSteps q) (\<lambda>tokens. ParseSteps env (\<lambda>x. ParseQuery env (Suc (length x)) x) (ReOrderSteps env tokens))" for q
    by (subst ParseQuery.simps, rule ParseSteps_shorter)
      (rule f [where out = "\<lambda>_. must None", unfolded ParseQuery_out_None], assumption, rule lessI)
  ultimately show ?thesis by blast
qed

theorem query_length_is_enough_witness:
  "ParseQuery_out (\<lambda>_. give ()) ex_env 100 ''and(out(),in())'' =
     ParseQuery ex_env (Suc (length ''and(out(),in())'')) ''and(out(),in())''"
  by (rule query_length_is_enough [of ex_env, THEN conjunct1, rule_format]) simp

text \<open>
  C32. The steps of a query are read back from their text: a sequence of known steps with balanced parameters, printed
  and parsed again, gives the same steps and parameters.
\<close>

theorem steps_roundtrip:
  assumes "l \<noteq> []" "\<forall>(n, p)\<in>set l. map_of str2step n \<noteq> None \<and> balanced 0 p \<and> trim p '' '' = p"
  shows "GetSteps (print_steps l) = give (map (\<lambda>(n, p). (the (map_of str2step n), p)) l)"
proof -
  have "print_steps l \<noteq> []" using assms(1) by (cases l rule: print_steps.cases) auto
  then show ?thesis using get_steps_print [OF assms, of True] by (simp add: GetSteps_def)
qed

theorem steps_roundtrip_witness:
  "balanced 0 ''age,gt(3)'' \<and>
   GetSteps (print_steps [(''has'', ''age,gt(3)''), (''count'', '''')]) = give [(S_HAS, ''age,gt(3)''), (S_COUNT, '''')]"
  using steps_roundtrip [of "[(''has'', ''age,gt(3)''), (''count'', '''')]"] by (simp add: str2step_def trim_def)

text \<open>
  C33. Reordering only permutes the steps, and it never moves a step that has no priority: traversals and aggregations
  stay where they are, and only filters, orderings, projections and labels move.
\<close>

theorem reorder_permutes_filters:
  "mset (ReOrderSteps env ts) = mset ts \<and>
   (\<forall>i<length ts. GetStepPriority (fst (ts ! i)) = -1 \<longrightarrow> ReOrderSteps env ts ! i = ts ! i)"
  using reorder_steps_perm [of "[1 ..< length ts]" ts] by (simp add: ReOrderSteps_def)

theorem reorder_permutes_filters_witness:
  "mset (ReOrderSteps ex_env [(S_OUT, ''''), (S_AS, ''a''), (S_HAS, ''age'')]) = mset [(S_OUT, ''''), (S_AS, ''a''), (S_HAS, ''age'')] \<and>
   ReOrderSteps ex_env [(S_OUT, ''''), (S_AS, ''a''), (S_HAS, ''age'')] ! 0 = (S_OUT, '''')"
  using reorder_permutes_filters [of ex_env "[(S_OUT, ''''), (S_AS, ''a''), (S_HAS, ''age'')]"] by (force simp: GetStepPriority_def)



text \<open>
  When a predicate with a large count is moved back from the first expert, the wrong three parameters are moved: the
  flag \<open>b\<close> that says whether the expert has input goes, and the predicate's value \<open>v\<close> takes its place.
\<close>

lemma index_removal_shifts_parameters:
  assumes "mc \<le> c div 3"
  shows "move_large mc [c] 0 ([ty, b, k, p, v] @ r) has = Some ([], [ty, v] @ r, has @ [b, k, p])"
  using assms by (simp add: numeral_eq_Suc)

lemma index_removal_shifts_parameters_example:
  "(1 :: u64) \<le> 6 div 3 \<and> move_large 1 [6] 0 ([new_value, new_value, new_value, new_value, str2str ''x'' new_value] @ []) []
     = Some ([], [new_value, str2str ''x'' new_value] @ [], [] @ [new_value, new_value, new_value])"
proof -
  have "(1 :: u64) \<le> 6 div 3" by simp
  then show ?thesis using index_removal_shifts_parameters [of 1 6] by blast
qed

end
