(* ===== verification/Core_Affinity.thy ===== *)
theory Core_Affinity
  imports Exec_Plan
begin

text \<open>
  The assignment of threads to cores and of experts to threads (src/base/core_affinity.hpp). The facts about the
  processor that \<open>CPUInfoUtil\<close> reads from the operating system are the record \<open>cpu_info\<close>. A read of a missing
  vector element, the assertions and the overflow of a signed counter are \<open>None\<close>.
\<close>

section \<open>Model\<close>

datatype ExpertDivisionType = CACHE_SEQ | CACHE_BARR | D_TRAVERSAL | NORMAL_BARR | NORMAL_BRANCH | NORMAL_SEQ

definition NUM_THREAD_DIVISION :: nat where "NUM_THREAD_DIVISION = 6"
definition NUM_RESIDENT_THREAD :: int where "NUM_RESIDENT_THREAD = 4"

definition division_index :: "ExpertDivisionType \<Rightarrow> nat" where
  "division_index d = index_of d [CACHE_SEQ, CACHE_BARR, D_TRAVERSAL, NORMAL_BARR, NORMAL_BRANCH, NORMAL_SEQ]"

record cpu_info =
  ci_total_thread_count :: int
  ci_total_core_count :: int
  ci_socket_count :: int
  ci_core_per_socket :: int
  ci_thread_per_core :: int
  ci_core_threads :: "int \<Rightarrow> int list"

record core_affinity =
  ca_enable_division :: bool
  ca_global_num_threads :: int
  ca_counter :: int
  ca_expert_division :: "EXPERT_T \<rightharpoonup> ExpertDivisionType"
  ca_core_pool :: "int list list"
  ca_core_pool_itr :: "nat list"
  ca_core_to_thread :: "int \<rightharpoonup> int"
  ca_thread_to_core :: "int \<rightharpoonup> int"
  ca_stealing :: "int \<rightharpoonup> int list"

text \<open>Reading \<open>map[key]\<close> of a missing key gives the default value.\<close>

definition map_get :: "'v \<Rightarrow> ('k \<rightharpoonup> 'v) \<Rightarrow> 'k \<Rightarrow> 'v" where
  "map_get d m k = (case m k of None \<Rightarrow> d | Some v \<Rightarrow> v)"

definition vec_at :: "'a list \<Rightarrow> int \<Rightarrow> 'a option" where
  "vec_at xs i = (if 0 \<le> i \<and> nat i < length xs then Some (xs ! nat i) else None)"

subsection \<open>Cores of the divisions\<close>

definition division_numerator :: "int list" where
  "division_numerator = [3, 2, 1, 2, 2, 2]"

definition division_denominator :: int where
  "division_denominator = 12"

fun core_by_numa :: "nat \<Rightarrow> int \<Rightarrow> int \<Rightarrow> int \<Rightarrow> int \<Rightarrow> int list" where
  "core_by_numa 0 sockets per_socket mapped numa = []"
| "core_by_numa (Suc n) sockets per_socket mapped numa =
     (mapped * sockets + numa) #
     (if mapped + 1 = per_socket then core_by_numa n sockets per_socket 0 (numa + 1)
      else core_by_numa n sockets per_socket (mapped + 1) numa)"

fun core_divisions :: "int \<Rightarrow> int list \<Rightarrow> int list \<Rightarrow> int \<Rightarrow> int \<Rightarrow> int list list" where
  "core_divisions n cores [] cur_step last_div = []"
| "core_divisions n cores (num # nums) cur_step last_div =
     (let cur_step = cur_step + num * n;
          cur_div = cur_step div division_denominator;
          (cur_step, cur_div) = (if cur_div - last_div = 0 then ((last_div + 1) * n, (last_div + 1) * n div n)
                                 else (cur_step, cur_div))
      in map (\<lambda>j. case vec_at cores j of None \<Rightarrow> 0 | Some c \<Rightarrow> c) [last_div..cur_div - 1] #
         core_divisions n cores nums cur_step cur_div)"

fun option_all :: "'a option list \<Rightarrow> 'a list option" where
  "option_all [] = Some []"
| "option_all (x # xs) = do { y \<leftarrow> x; ys \<leftarrow> option_all xs; Some (y # ys) }"

definition division_threads :: "cpu_info \<Rightarrow> int list \<Rightarrow> int list option" where
  "division_threads ci cores =
     option_all [vec_at (ci_core_threads ci c) j. j \<leftarrow> [0..ci_thread_per_core ci - 1], c \<leftarrow> cores]"

definition init_potential_core_pool :: "cpu_info \<Rightarrow> int list list option" where
  "init_potential_core_pool ci =
     (let cores = core_by_numa (nat (ci_total_core_count ci)) (ci_socket_count ci) (ci_core_per_socket ci) 0 0
      in option_all (map (division_threads ci) (core_divisions (ci_total_core_count ci) cores division_numerator 0 0)))"

subsection \<open>Threads of the divisions\<close>

definition multi_floor_3_2 :: "int \<Rightarrow> int" where "multi_floor_3_2 a = a * 3 div 2"
definition multi_ceil_1_2 :: "int \<Rightarrow> int" where "multi_ceil_1_2 a = (a + 1) div 2"

function assign_rest :: "nat \<Rightarrow> nat \<Rightarrow> int list \<Rightarrow> int list" where
  "assign_rest i free nt =
     (if i < free
      then let k = i mod 6
           in if k = division_index D_TRAVERSAL \<and> nt ! k = 2 then assign_rest (i + 1) (free + 1) nt
              else assign_rest (i + 1) free (nt[k := nt ! k + 1])
      else nt)"
  by auto
termination
proof (relation "measure (\<lambda>(i, free, _). 2 * (free - i) + (if i mod 6 = 2 then 1 else 0))", goal_cases)
  case (2 i free nt k)
  then have "i mod 6 = 2" by (simp add: division_index_def)
  then have "(i + 1) mod 6 \<noteq> 2" by presburger
  then show ?case using 2 \<open>i mod 6 = 2\<close> by simp
next
  case (3 i free nt k)
  then show ?case by auto
qed simp

text \<open>\<open>Some None\<close> is the answer \<open>false\<close>, given before any element of \<open>num_threads\<close> is assigned.\<close>

definition get_num_thread_for_each_division :: "int \<Rightarrow> int \<Rightarrow> int list option option" where
  "get_num_thread_for_each_division num_cores num_thread =
     do { CHECK (num_thread > 0 \<and> num_thread \<le> num_cores - NUM_RESIDENT_THREAD);
          let level = num_thread div int NUM_THREAD_DIVISION;
          let free_to_assign = num_thread mod int NUM_THREAD_DIVISION;
          if level = 0 then Some None
          else do { let nt = assign_rest 0 (nat free_to_assign)
                      [multi_floor_3_2 level, level, multi_ceil_1_2 level, level, level, level];
                    CHECK (sum_list nt = num_thread);
                    Some (Some nt) } }"

definition get_core_id_for_each_division :: "int list \<Rightarrow> int list list \<Rightarrow> int list list option" where
  "get_core_id_for_each_division nt pool =
     option_all (map (\<lambda>i. do { n \<leftarrow> vec_at nt i; p \<leftarrow> vec_at pool i; option_all (map (vec_at p) [0..n - 1]) })
       [0..int NUM_THREAD_DIVISION - 1])"

definition load_core_to_thread :: "int list list \<Rightarrow> int \<rightharpoonup> int" where
  "load_core_to_thread pools = map_of (rev (zip (concat pools) (map int [0..<length (concat pools)])))"

definition load_thread_to_core :: "int list list \<Rightarrow> int \<rightharpoonup> int" where
  "load_thread_to_core pools = map_of (zip (map int [0..<length (concat pools)]) (concat pools))"

definition steal_list_of :: "int list list \<Rightarrow> nat \<Rightarrow> int \<Rightarrow> int list \<Rightarrow> int list" where
  "steal_list_of pools i c old =
     removeAll c (old @ pools ! i) @
     (if c mod 2 = 0 then concat (map (\<lambda>j. if j \<noteq> i then pools ! j else []) [0..<NUM_THREAD_DIVISION])
      else concat (map (\<lambda>j. if j \<noteq> i then pools ! j else []) [NUM_THREAD_DIVISION div 2..<NUM_THREAD_DIVISION]) @
           concat (map (\<lambda>j. pools ! j) [0..<NUM_THREAD_DIVISION div 2]))"

fun load_steal_pairs :: "int list list \<Rightarrow> (nat \<times> int) list \<Rightarrow> (int \<rightharpoonup> int list) \<Rightarrow> (int \<rightharpoonup> int list)" where
  "load_steal_pairs pools [] t = t"
| "load_steal_pairs pools ((i, c) # cs) t = load_steal_pairs pools cs (t(c \<mapsto> steal_list_of pools i c (map_get [] t c)))"

definition load_steal_list :: "int list list \<Rightarrow> int \<rightharpoonup> int list" where
  "load_steal_list pools =
     load_steal_pairs pools [(i, c). i \<leftarrow> [0..<NUM_THREAD_DIVISION], c \<leftarrow> pools ! i] Map.empty"

definition load_expert_division :: "EXPERT_T \<rightharpoonup> ExpertDivisionType" where
  "load_expert_division = map_of
     [(E_LABEL, CACHE_SEQ), (E_HASLABEL, CACHE_SEQ), (E_PROPERTIES, CACHE_SEQ), (E_VALUES, CACHE_SEQ), (E_HAS, CACHE_SEQ),
      (E_KEY, CACHE_SEQ), (E_GROUP, CACHE_BARR), (E_ORDER, CACHE_BARR), (E_TRAVERSAL, D_TRAVERSAL), (E_INIT, D_TRAVERSAL),
      (E_INDEX, D_TRAVERSAL), (E_COUNT, NORMAL_BARR), (E_AGGREGATE, NORMAL_BARR), (E_CAP, NORMAL_BARR),
      (E_DEDUP, NORMAL_BARR), (E_MATH, NORMAL_BARR), (E_RANGE, NORMAL_BRANCH), (E_BRANCH, NORMAL_BRANCH),
      (E_BRANCHFILTER, NORMAL_BRANCH), (E_AS, NORMAL_SEQ), (E_SELECT, NORMAL_SEQ), (E_WHERE, NORMAL_SEQ), (E_IS, NORMAL_SEQ),
      (E_END, NORMAL_SEQ), (E_ADDV, NORMAL_SEQ), (E_ADDE, NORMAL_SEQ), (E_POSTVALIDATION, NORMAL_SEQ),
      (E_PROPERTY, NORMAL_SEQ), (E_VALIDATION, NORMAL_SEQ), (E_TERMINATE, NORMAL_SEQ)]"

text \<open>
  \<open>raw\<close> is what the uninitialised array \<open>num_threads\<close> holds: \<open>Init\<close> goes on with it when there are too few threads.
\<close>

definition CoreAffinity_Init :: "int list \<Rightarrow> cpu_info \<Rightarrow> bool \<Rightarrow> int \<Rightarrow> core_affinity option" where
  "CoreAffinity_Init raw ci enable global_num_threads =
     do { pool \<leftarrow> init_potential_core_pool ci;
          r \<leftarrow> get_num_thread_for_each_division (ci_total_thread_count ci) global_num_threads;
          pools \<leftarrow> get_core_id_for_each_division (case r of None \<Rightarrow> raw | Some nt \<Rightarrow> nt) pool;
          Some \<lparr>ca_enable_division = (enable \<and> r \<noteq> None), ca_global_num_threads = global_num_threads, ca_counter = 0,
                ca_expert_division = load_expert_division, ca_core_pool = pools,
                ca_core_pool_itr = replicate NUM_THREAD_DIVISION 0, ca_core_to_thread = load_core_to_thread pools,
                ca_thread_to_core = load_thread_to_core pools, ca_stealing = load_steal_list pools\<rparr> }"

subsection \<open>Queries\<close>

definition core_for_binding :: "cpu_info \<Rightarrow> core_affinity \<Rightarrow> int \<Rightarrow> int" where
  "core_for_binding ci ca tid =
     (if ca_enable_division ca then map_get 0 (ca_thread_to_core ca) tid else tid mod ci_total_thread_count ci)"

definition GetStealList :: "core_affinity \<Rightarrow> int \<Rightarrow> int list" where
  "GetStealList ca tid =
     map (map_get 0 (ca_core_to_thread ca)) (map_get [] (ca_stealing ca) (map_get 0 (ca_thread_to_core ca) tid))"

definition get_core_id_by_expert :: "EXPERT_T \<Rightarrow> core_affinity \<Rightarrow> (int \<times> core_affinity) option" where
  "get_core_id_by_expert t ca =
     (let ca = (if ca_expert_division ca t = None
                then ca\<lparr>ca_expert_division := (ca_expert_division ca)(t \<mapsto> NORMAL_SEQ)\<rparr> else ca);
          att = division_index (the (ca_expert_division ca t));
          pool = ca_core_pool ca ! att;
          k = ca_core_pool_itr ca ! att
      in if k < length pool
         then Some (pool ! k, ca\<lparr>ca_core_pool_itr := (ca_core_pool_itr ca)[att := if Suc k = length pool then 0 else Suc k]\<rparr>)
         else None)"

definition GetThreadIdForExpert :: "EXPERT_T \<Rightarrow> core_affinity \<Rightarrow> (int \<times> core_affinity) option" where
  "GetThreadIdForExpert t ca =
     (if ca_enable_division ca
      then do { (c, ca) \<leftarrow> get_core_id_by_expert t ca; Some (map_get 0 (ca_core_to_thread ca) c, ca) }
      else do { CHECK (ca_counter ca < 2 ^ 31 - 1);
                let ca = ca\<lparr>ca_counter := ca_counter ca + 1\<rparr>;
                CHECK (ca_global_num_threads ca > 0);
                Some (ca_counter ca mod ca_global_num_threads ca, ca) })"

section \<open>Correctness\<close>

definition affinity_ok :: "core_affinity \<Rightarrow> bool" where
  "affinity_ok ca \<longleftrightarrow>
     length (ca_core_pool ca) = NUM_THREAD_DIVISION \<and> length (ca_core_pool_itr ca) = NUM_THREAD_DIVISION \<and>
     distinct (concat (ca_core_pool ca)) \<and>
     (\<forall>i<NUM_THREAD_DIVISION. ca_core_pool_itr ca ! i < length (ca_core_pool ca ! i)) \<and>
     ca_core_to_thread ca = load_core_to_thread (ca_core_pool ca) \<and>
     ca_thread_to_core ca = load_thread_to_core (ca_core_pool ca) \<and>
     ca_stealing ca = load_steal_list (ca_core_pool ca) \<and>
     int (length (concat (ca_core_pool ca))) = ca_global_num_threads ca \<and> 0 \<le> ca_counter ca"

lemma division_index_less: "division_index d < NUM_THREAD_DIVISION"
  by (cases d) (simp_all add: division_index_def NUM_THREAD_DIVISION_def)

declare assign_rest.simps [simp del]

lemma sum_list_update_Suc: "k < length nt \<Longrightarrow> sum_list (nt[k := nt ! k + 1]) = sum_list nt + (1 :: int)"
  by (induction nt arbitrary: k) (auto simp: nth_Cons split: nat.splits)

lemma assign_rest_sum:
  "length nt = 6 \<Longrightarrow> i \<le> free \<Longrightarrow> \<forall>n\<in>set nt. 1 \<le> n \<Longrightarrow>
   length (assign_rest i free nt) = 6 \<and> sum_list (assign_rest i free nt) = sum_list nt + int (free - i) \<and>
   (\<forall>n\<in>set (assign_rest i free nt). 1 \<le> n)"
proof (induction i free nt rule: assign_rest.induct)
  case (1 i free nt)
  have k: "i mod 6 < length nt" using "1.prems"(1) by simp
  have "\<forall>n\<in>set (nt[i mod 6 := nt ! (i mod 6) + 1]). 1 \<le> n"
    using "1.prems"(3) k set_update_subset_insert [of nt "i mod 6"] nth_mem [OF k] by fastforce
  then show ?case
    using 1 sum_list_update_Suc [OF k] by (subst (1 2 3) assign_rest.simps) (auto simp: Let_def)
qed

lemma level_at_least: "1 \<le> level \<Longrightarrow> 1 \<le> multi_floor_3_2 level \<and> 1 \<le> multi_ceil_1_2 level"
  unfolding multi_floor_3_2_def multi_ceil_1_2_def by presburger

lemma level_sum: "multi_floor_3_2 level + level + multi_ceil_1_2 level + level + level + level = 6 * level"
  by (simp add: multi_floor_3_2_def multi_ceil_1_2_def)

lemma threads_for_divisions:
  assumes "6 \<le> n" "n \<le> cores - NUM_RESIDENT_THREAD"
  shows "\<exists>nt. get_num_thread_for_each_division cores n = Some (Some nt) \<and> length nt = 6 \<and> sum_list nt = n \<and> (\<forall>k\<in>set nt. 1 \<le> k)"
proof -
  let ?l = "n div 6" and ?nt = "[multi_floor_3_2 (n div 6), n div 6, multi_ceil_1_2 (n div 6), n div 6, n div 6, n div 6]"
  have l: "1 \<le> ?l" using assms(1) by simp
  then have "\<forall>k\<in>set ?nt. 1 \<le> k" using level_at_least by simp
  note a = assign_rest_sum [OF _ _ this, of 0 "nat (n mod 6)"]
  have "sum_list ?nt = 6 * ?l" using level_sum [of ?l] by simp
  moreover have "sum_list (assign_rest 0 (nat (n mod 6)) ?nt) = sum_list ?nt + int (nat (n mod 6))" using a by simp
  moreover have "6 * ?l + int (nat (n mod 6)) = n" by simp
  ultimately have s: "sum_list (assign_rest 0 (nat (n mod 6)) ?nt) = n" by metis
  have "get_num_thread_for_each_division cores n = Some (Some (assign_rest 0 (nat (n mod 6)) ?nt))"
    using assms l s by (simp add: get_num_thread_for_each_division_def NUM_THREAD_DIVISION_def CHECK_def Let_def)
  then show ?thesis using a s by simp
qed

lemma map_get_load_core_to_thread:
  assumes "distinct (concat pools)" "k < length (concat pools)"
  shows "map_get 0 (load_core_to_thread pools) (concat pools ! k) = int k"
proof -
  have "map_of (rev (zip (concat pools) (map int [0..<length (concat pools)]))) (concat pools ! k) = Some (int k)"
    using assms by (intro map_of_is_SomeI) (auto simp: rev_map [symmetric] distinct_rev set_zip)
  then show ?thesis by (simp add: map_get_def load_core_to_thread_def)
qed

lemma map_get_load_thread_to_core:
  assumes "k < length (concat pools)"
  shows "map_get 0 (load_thread_to_core pools) (int k) = concat pools ! k"
proof -
  have "map_of (zip (map int [0..<length (concat pools)]) (concat pools)) (int k) = Some (concat pools ! k)"
    using assms by (intro map_of_is_SomeI) (auto simp: distinct_map set_zip intro!: exI [of _ k])
  then show ?thesis by (simp add: map_get_def load_thread_to_core_def)
qed

lemma load_steal_pairs_notin: "c \<notin> snd ` set ps \<Longrightarrow> load_steal_pairs pools ps t c = t c"
  by (induction pools ps t rule: load_steal_pairs.induct) auto

lemma load_steal_pairs_in:
  "distinct (map snd ps) \<Longrightarrow> (i, c) \<in> set ps \<Longrightarrow>
   load_steal_pairs pools ps t c = Some (steal_list_of pools i c (map_get [] t c))"
proof (induction pools ps t rule: load_steal_pairs.induct)
  case (2 pools j d ps t)
  show ?case
  proof (cases "c = d")
    case True
    then have "c \<notin> snd ` set ps" using 2 by auto
    moreover have "i = j" using 2(2,3) True by (auto simp: image_iff)
    ultimately show ?thesis using True by (simp add: load_steal_pairs_notin)
  next
    case False
    let ?t = "t(d \<mapsto> steal_list_of pools j d (map_get [] t d))"
    have "load_steal_pairs pools ps ?t c = Some (steal_list_of pools i c (map_get [] ?t c))"
      by (rule "2.IH") (use "2.prems" False in auto)
    then show ?thesis using False by (simp add: map_get_def)
  qed
qed simp

lemma pool_pairs_snd:
  "length pools = NUM_THREAD_DIVISION \<Longrightarrow>
   map snd [(i, c). i \<leftarrow> [0..<NUM_THREAD_DIVISION], c \<leftarrow> pools ! i] = concat pools"
proof -
  assume l: "length pools = NUM_THREAD_DIVISION"
  have "map snd [(i, c). i \<leftarrow> xs, c \<leftarrow> pools ! i] = concat (map ((!) pools) xs)" for xs
    by (induction xs) (simp_all add: comp_def)
  then show ?thesis using map_nth [of pools] l by simp
qed

lemma load_steal_list_at:
  assumes "length pools = NUM_THREAD_DIVISION" "distinct (concat pools)" "i < NUM_THREAD_DIVISION" "c \<in> set (pools ! i)"
  shows "load_steal_list pools c = Some (steal_list_of pools i c [])"
proof -
  let ?ps = "[(i, c). i \<leftarrow> [0..<NUM_THREAD_DIVISION], c \<leftarrow> pools ! i]"
  have "distinct (map snd ?ps)" using pool_pairs_snd [OF assms(1)] assms(2) by metis
  moreover have "(i, c) \<in> set ?ps" using assms(3,4) by auto
  ultimately show ?thesis
    using load_steal_pairs_in [of ?ps i c pools Map.empty] by (simp add: load_steal_list_def map_get_def)
qed

lemma six_divisions: "length pools = NUM_THREAD_DIVISION \<Longrightarrow> \<exists>a b c d e f. pools = [a, b, c, d, e, f]"
  by (auto simp: NUM_THREAD_DIVISION_def numeral_eq_Suc length_Suc_conv)

lemma less_six: "i < NUM_THREAD_DIVISION \<Longrightarrow> i = 0 \<or> i = 1 \<or> i = 2 \<or> i = 3 \<or> i = 4 \<or> i = 5"
  by (auto simp: NUM_THREAD_DIVISION_def)

lemma steal_list_set:
  assumes "length pools = NUM_THREAD_DIVISION" "distinct (concat pools)" "i < NUM_THREAD_DIVISION" "c \<in> set (pools ! i)"
  shows "set (steal_list_of pools i c []) \<union> {c} = set (concat pools)"
    and "c mod 2 = 0 \<Longrightarrow> distinct (steal_list_of pools i c []) \<and> c \<notin> set (steal_list_of pools i c [])"
    and "c mod 2 \<noteq> 0 \<Longrightarrow> i < 3 \<Longrightarrow> c \<in> set (steal_list_of pools i c [])"
proof -
  obtain a b d e f g where p: "pools = [a, b, d, e, f, g]" using six_divisions [OF assms(1)] by blast
  have u: "[0..<NUM_THREAD_DIVISION] = [0, 1, 2, 3, 4, 5]" "[0..<NUM_THREAD_DIVISION div 2] = [0, 1, 2]"
    "[NUM_THREAD_DIVISION div 2..<NUM_THREAD_DIVISION] = [3, 4, 5]"
    by (simp_all add: NUM_THREAD_DIVISION_def upt_rec)
  note i = less_six [OF assms(3)]
  show "set (steal_list_of pools i c []) \<union> {c} = set (concat pools)"
    using i assms(4) by (elim disjE) (auto simp: steal_list_of_def p u)
  show "c mod 2 = 0 \<Longrightarrow> distinct (steal_list_of pools i c []) \<and> c \<notin> set (steal_list_of pools i c [])"
    using i assms(2,4) by (elim disjE) (auto simp: steal_list_of_def p u distinct_removeAll)
  show "c mod 2 \<noteq> 0 \<Longrightarrow> i < 3 \<Longrightarrow> c \<in> set (steal_list_of pools i c [])"
    using i assms(4) by (elim disjE) (auto simp: steal_list_of_def p u)
qed

lemma nth_concat_pool:
  assumes "k < length (concat pools)"
  shows "\<exists>i<length pools. concat pools ! k \<in> set (pools ! i)"
proof -
  obtain p where "p \<in> set pools" "concat pools ! k \<in> set p" using nth_mem [OF assms] by auto
  then show ?thesis by (metis in_set_conv_nth)
qed

lemma get_core_id_by_expert_ok:
  assumes "affinity_ok ca"
  shows "\<exists>c ca'. get_core_id_by_expert t ca = Some (c, ca') \<and> affinity_ok ca' \<and> c \<in> set (concat (ca_core_pool ca)) \<and>
    ca_core_pool ca' = ca_core_pool ca \<and> ca_global_num_threads ca' = ca_global_num_threads ca \<and> ca_counter ca' = ca_counter ca"
proof -
  define ca1 where "ca1 = (if ca_expert_division ca t = None
    then ca\<lparr>ca_expert_division := (ca_expert_division ca)(t \<mapsto> NORMAL_SEQ)\<rparr> else ca)"
  define att where "att = division_index (the (ca_expert_division ca1 t))"
  have a: "att < NUM_THREAD_DIVISION" by (simp add: att_def division_index_less)
  have ok: "affinity_ok ca1" "ca_core_pool ca1 = ca_core_pool ca" "ca_global_num_threads ca1 = ca_global_num_threads ca"
    "ca_counter ca1 = ca_counter ca"
    using assms by (simp_all add: ca1_def affinity_ok_def)
  then have k: "ca_core_pool_itr ca1 ! att < length (ca_core_pool ca1 ! att)" "att < length (ca_core_pool ca1)"
    "att < length (ca_core_pool_itr ca1)" using a by (simp_all add: affinity_ok_def)
  let ?k = "ca_core_pool_itr ca1 ! att" and ?pool = "ca_core_pool ca1 ! att"
  let ?ca2 = "ca1\<lparr>ca_core_pool_itr := (ca_core_pool_itr ca1)[att := if Suc ?k = length ?pool then 0 else Suc ?k]\<rparr>"
  have g: "get_core_id_by_expert t ca = Some (?pool ! ?k, ?ca2)"
    using k by (simp add: get_core_id_by_expert_def Let_def flip: ca1_def att_def)
  have "affinity_ok ?ca2" using ok(1) k by (auto simp: affinity_ok_def nth_list_update)
  moreover have "?pool ! ?k \<in> set (concat (ca_core_pool ca))" using k ok(2) by (auto intro!: bexI [of _ ?pool])
  ultimately show ?thesis using g ok by auto
qed

lemma GetThreadIdForExpert_ok:
  assumes "affinity_ok ca" "ca_counter ca < 2 ^ 31 - 1" "0 < ca_global_num_threads ca"
  shows "\<exists>tid ca'. GetThreadIdForExpert t ca = Some (tid, ca') \<and> affinity_ok ca' \<and> 0 \<le> tid \<and> tid < ca_global_num_threads ca \<and>
    ca_counter ca' \<le> ca_counter ca + 1 \<and> ca_global_num_threads ca' = ca_global_num_threads ca"
proof (cases "ca_enable_division ca")
  case True
  obtain c ca' where g: "get_core_id_by_expert t ca = Some (c, ca')" "affinity_ok ca'" "c \<in> set (concat (ca_core_pool ca))"
    "ca_core_pool ca' = ca_core_pool ca" "ca_global_num_threads ca' = ca_global_num_threads ca" "ca_counter ca' = ca_counter ca"
    using get_core_id_by_expert_ok [OF assms(1)] by blast
  obtain k where k: "k < length (concat (ca_core_pool ca))" "c = concat (ca_core_pool ca) ! k"
    using g(3) by (metis in_set_conv_nth)
  have "map_get 0 (ca_core_to_thread ca') c = int k"
    using map_get_load_core_to_thread [OF _ k(1)] k(2) g(2,4) assms(1) by (simp add: affinity_ok_def)
  then show ?thesis using g k assms(1) True by (auto simp: GetThreadIdForExpert_def affinity_ok_def)
next
  case False
  then show ?thesis using assms by (auto simp: GetThreadIdForExpert_def affinity_ok_def CHECK_def Let_def)
qed

lemma GetStealList_eq:
  assumes "affinity_ok ca" "0 \<le> tid" "tid < ca_global_num_threads ca"
  obtains i c where "i < NUM_THREAD_DIVISION" "c \<in> set (ca_core_pool ca ! i)" "c = concat (ca_core_pool ca) ! nat tid"
    "map_get 0 (ca_thread_to_core ca) tid = c"
    "GetStealList ca tid = map (map_get 0 (load_core_to_thread (ca_core_pool ca))) (steal_list_of (ca_core_pool ca) i c [])"
proof -
  let ?p = "ca_core_pool ca" and ?k = "nat tid"
  have k: "?k < length (concat ?p)" using assms by (simp only: affinity_ok_def) linarith
  obtain i where i: "i < NUM_THREAD_DIVISION" "concat ?p ! ?k \<in> set (?p ! i)"
    using nth_concat_pool [OF k] assms(1) by (auto simp: affinity_ok_def)
  have t: "map_get 0 (ca_thread_to_core ca) tid = concat ?p ! ?k"
    using map_get_load_thread_to_core [OF k] assms by (simp add: affinity_ok_def)
  have "map_get [] (ca_stealing ca) (concat ?p ! ?k) = steal_list_of ?p i (concat ?p ! ?k) []"
    using load_steal_list_at [OF _ _ i] assms(1) by (simp add: affinity_ok_def map_get_def)
  then have "GetStealList ca tid = map (map_get 0 (load_core_to_thread ?p)) (steal_list_of ?p i (concat ?p ! ?k) [])"
    using t assms(1) by (simp add: GetStealList_def affinity_ok_def)
  then show ?thesis using that [OF i refl] t by simp
qed

lemma core_to_thread_bij:
  assumes "distinct (concat pools)"
  shows "bij_betw (map_get 0 (load_core_to_thread pools)) (set (concat pools)) {0..<int (length (concat pools))}"
proof -
  let ?f = "map_get 0 (load_core_to_thread pools)" and ?xs = "concat pools"
  have "map ?f ?xs = map int [0..<length ?xs]"
    by (rule nth_equalityI) (simp_all add: map_get_load_core_to_thread [OF assms])
  then have d: "distinct (map ?f ?xs)" and s: "?f ` set ?xs = int ` set [0..<length ?xs]"
    by (simp add: distinct_map) (metis list.set_map \<open>map ?f ?xs = map int [0..<length ?xs]\<close>)
  have "inj_on ?f (set ?xs)" using d by (simp only: distinct_map)
  moreover have "?f ` set ?xs = {0..<int (length ?xs)}"
    unfolding s by (auto simp: image_iff intro!: bexI [of _ "nat x" for x])
  ultimately show ?thesis by (simp add: bij_betw_def)
qed

lemma option_all_Some: "option_all xs = Some ys \<longleftrightarrow> xs = map Some ys"
  by (induction xs arbitrary: ys) (auto simp: Option.bind_eq_Some_conv Cons_eq_map_conv)

lemma pool_prefixes:
  assumes "get_core_id_for_each_division nt pool = Some pools" "length nt = 6" "\<forall>n\<in>set nt. 1 \<le> n"
  shows "length pools = NUM_THREAD_DIVISION"
    and "i < NUM_THREAD_DIVISION \<Longrightarrow> pools ! i = take (nat (nt ! i)) (pool ! i) \<and> nat (nt ! i) \<le> length (pool ! i) \<and> i < length pool"
proof -
  let ?f = "\<lambda>i. do { n \<leftarrow> vec_at nt i; p \<leftarrow> vec_at pool i; option_all (map (vec_at p) [0..n - 1]) }"
  have m: "map ?f [0..int NUM_THREAD_DIVISION - 1] = map Some pools"
    using assms(1) by (simp add: get_core_id_for_each_division_def option_all_Some)
  from arg_cong [OF this, of length] show l: "length pools = NUM_THREAD_DIVISION" by simp
  assume i: "i < NUM_THREAD_DIVISION"
  have "?f (int i) = Some (pools ! i)" using arg_cong [OF m, of "\<lambda>xs. xs ! i"] i l by simp
  then obtain n p where n: "vec_at nt (int i) = Some n" "vec_at pool (int i) = Some p"
    and e: "map (vec_at p) [0..n - 1] = map Some (pools ! i)"
    by (auto simp: Option.bind_eq_Some_conv option_all_Some)
  have np: "n = nt ! i" "p = pool ! i" "i < length pool" "1 \<le> n"
    using n assms(2,3) i by (auto simp: vec_at_def NUM_THREAD_DIVISION_def split: if_splits)
  have len: "length (pools ! i) = nat n" using arg_cong [OF e, of length] by simp
  have at: "k < nat n \<Longrightarrow> k < length p \<and> pools ! i ! k = p ! k" for k
    using arg_cong [OF e, of "\<lambda>xs. xs ! k"] len by (auto simp: vec_at_def split: if_splits)
  have "nat n \<le> length p" using at [of "nat n - 1"] np(4) by (cases "nat n") auto
  moreover have "pools ! i = take (nat n) p" by (rule nth_equalityI) (use len at calculation in auto)
  ultimately show "pools ! i = take (nat (nt ! i)) (pool ! i) \<and> nat (nt ! i) \<le> length (pool ! i) \<and> i < length pool"
    using np by simp
qed

lemma Init_ok:
  assumes "CoreAffinity_Init raw ci enable n = Some ca" "6 \<le> n"
    and "\<And>pool. init_potential_core_pool ci = Some pool \<Longrightarrow> length pool = 6 \<and> distinct (concat pool)"
  shows "affinity_ok ca \<and> ca_global_num_threads ca = n \<and> ca_counter ca = 0"
proof -
  obtain pool r pools where p: "init_potential_core_pool ci = Some pool"
    and r: "get_num_thread_for_each_division (ci_total_thread_count ci) n = Some r"
    and g: "get_core_id_for_each_division (case r of None \<Rightarrow> raw | Some nt \<Rightarrow> nt) pool = Some pools"
    and ca: "ca_core_pool ca = pools" "ca_core_pool_itr ca = replicate NUM_THREAD_DIVISION 0" "ca_global_num_threads ca = n"
      "ca_core_to_thread ca = load_core_to_thread pools" "ca_thread_to_core ca = load_thread_to_core pools"
      "ca_stealing ca = load_steal_list pools" "ca_counter ca = 0"
    using assms(1) by (auto simp: CoreAffinity_Init_def Option.bind_eq_Some_conv)
  have "n \<le> ci_total_thread_count ci - NUM_RESIDENT_THREAD"
    using r by (auto simp: get_num_thread_for_each_division_def CHECK_def split: if_splits)
  from threads_for_divisions [OF assms(2) this] r obtain nt where nt: "r = Some nt" "length nt = 6" "sum_list nt = n"
    "\<forall>k\<in>set nt. 1 \<le> k" by auto
  note pre = pool_prefixes [OF g [unfolded nt(1) option.case] nt(2,4)]
  obtain a b c d e f where q: "pool = [a, b, c, d, e, f]"
    using assms(3) [OF p] six_divisions [of pool] by (auto simp: NUM_THREAD_DIVISION_def)
  obtain t0 t1 t2 t3 t4 t5 where t: "nt = [t0, t1, t2, t3, t4, t5]"
    using nt(2) six_divisions [of nt] by (auto simp: NUM_THREAD_DIVISION_def)
  obtain p0 p1 p2 p3 p4 p5 where ps: "pools = [p0, p1, p2, p3, p4, p5]" using six_divisions [OF pre(1)] by blast
  have pf: "p0 = take (nat t0) a \<and> nat t0 \<le> length a" "p1 = take (nat t1) b \<and> nat t1 \<le> length b"
    "p2 = take (nat t2) c \<and> nat t2 \<le> length c" "p3 = take (nat t3) d \<and> nat t3 \<le> length d"
    "p4 = take (nat t4) e \<and> nat t4 \<le> length e" "p5 = take (nat t5) f \<and> nat t5 \<le> length f"
    using pre(2) [of 0] pre(2) [of 1] pre(2) [of 2] pre(2) [of 3] pre(2) [of 4] pre(2) [of 5]
    by (simp_all add: ps t q NUM_THREAD_DIVISION_def)
  have "distinct (concat pools)"
    using assms(3) [OF p] pf by (auto simp: ps q dest!: in_set_takeD)
  moreover have "int (length (concat pools)) = n" using nt(3,4) pf by (simp add: ps t)
  moreover have "\<forall>i<NUM_THREAD_DIVISION. 0 < length (pools ! i)"
    using nt(4) pf by (auto dest!: less_six simp: ps t)
  ultimately show ?thesis using pre(1) ca by (simp add: affinity_ok_def)
qed

section \<open>Properties\<close>

fun assign_threads :: "EXPERT_T list \<Rightarrow> core_affinity \<Rightarrow> int list option" where
  "assign_threads [] ca = Some []"
| "assign_threads (t # ts) ca = do { (tid, ca) \<leftarrow> GetThreadIdForExpert t ca; tids \<leftarrow> assign_threads ts ca; Some (tid # tids) }"

lemma assign_threads_ok:
  "affinity_ok ca \<Longrightarrow> 0 < ca_global_num_threads ca \<Longrightarrow> ca_counter ca + int (length ts) < 2 ^ 31 \<Longrightarrow>
   \<exists>tids. assign_threads ts ca = Some tids \<and> set tids \<subseteq> {0..<ca_global_num_threads ca}"
proof (induction ts arbitrary: ca)
  case (Cons t ts)
  obtain tid ca' where g: "GetThreadIdForExpert t ca = Some (tid, ca')" "affinity_ok ca'" "0 \<le> tid" "tid < ca_global_num_threads ca"
    "ca_counter ca' \<le> ca_counter ca + 1" "ca_global_num_threads ca' = ca_global_num_threads ca"
    using GetThreadIdForExpert_ok [OF Cons.prems(1), of t] Cons.prems by auto
  then show ?case using Cons.IH [OF g(2)] Cons.prems by auto
qed simp

definition ex_cpu :: cpu_info where
  "ex_cpu = \<lparr>ci_total_thread_count = 12, ci_total_core_count = 12, ci_socket_count = 1, ci_core_per_socket = 12,
     ci_thread_per_core = 1, ci_core_threads = (\<lambda>c. [c])\<rparr>"

lemma ex_cpu_pool: "init_potential_core_pool ex_cpu = Some [[0, 1, 2], [3, 4], [5], [6, 7], [8, 9], [10, 11]]"
  by code_simp

lemma ex_cpu_init: "\<exists>ca. CoreAffinity_Init [] ex_cpu True 8 = Some ca \<and> map_get 0 (ca_thread_to_core ca) 0 = 0"
proof -
  have "map_option (\<lambda>ca. map_get 0 (ca_thread_to_core ca) 0) (CoreAffinity_Init [] ex_cpu True 8) = Some 0" by code_simp
  then show ?thesis by auto
qed

text \<open>
  Every message is given to an existing thread: after initialisation with at least six threads on cores that differ,
  every sequence of fewer than \<open>2 ^ 31\<close> assignments of experts yields thread numbers below the number of threads.
\<close>

lemma experts_get_existing_threads:
  assumes "CoreAffinity_Init raw ci enable n = Some ca" "6 \<le> n"
    and "init_potential_core_pool ci = Some pool" "length pool = 6" "distinct (concat pool)"
    and "length ts < 2 ^ 31"
  shows "\<exists>tids. assign_threads ts ca = Some tids \<and> set tids \<subseteq> {0..<n}"
proof -
  have "affinity_ok ca \<and> ca_global_num_threads ca = n \<and> ca_counter ca = 0"
    by (rule Init_ok [OF assms(1,2)]) (use assms(3-5) in auto)
  then show ?thesis using assign_threads_ok [of ca ts] assms(2,6) by auto
qed

lemma experts_get_existing_threads_example:
  "\<exists>ca tids. CoreAffinity_Init [] ex_cpu True 8 = Some ca \<and> assign_threads [E_INIT, E_HAS, E_INIT] ca = Some tids \<and>
     set tids \<subseteq> {0..<8}"
proof -
  obtain ca where ca: "CoreAffinity_Init [] ex_cpu True 8 = Some ca" using ex_cpu_init by blast
  show ?thesis
    using experts_get_existing_threads [OF ca _ ex_cpu_pool, of "[E_INIT, E_HAS, E_INIT]"] ca by auto
qed

text \<open>
  No thread is left out of work stealing: the steal list of a thread together with the thread itself has every
  thread, and the list of a thread on an even core has each of the others exactly once.
\<close>

lemma steal_lists_cover_all_threads:
  assumes "CoreAffinity_Init raw ci enable n = Some ca" "6 \<le> n"
    and "init_potential_core_pool ci = Some pool" "length pool = 6" "distinct (concat pool)"
    and "0 \<le> tid" "tid < n"
  shows "insert tid (set (GetStealList ca tid)) = {0..<n} \<and>
    (map_get 0 (ca_thread_to_core ca) tid mod 2 = 0 \<longrightarrow> distinct (GetStealList ca tid) \<and> tid \<notin> set (GetStealList ca tid))"
proof -
  have ok: "affinity_ok ca" and n: "ca_global_num_threads ca = n"
    using Init_ok [OF assms(1,2)] assms(3-5) by auto
  let ?p = "ca_core_pool ca" and ?f = "map_get 0 (load_core_to_thread (ca_core_pool ca))"
  obtain i c where c: "i < NUM_THREAD_DIVISION" "c \<in> set (?p ! i)" "c = concat ?p ! nat tid"
    "map_get 0 (ca_thread_to_core ca) tid = c" "GetStealList ca tid = map ?f (steal_list_of ?p i c [])"
    by (rule GetStealList_eq [OF ok assms(6)]) (use n assms(7) in auto)
  have p: "length ?p = NUM_THREAD_DIVISION" "distinct (concat ?p)" "int (length (concat ?p)) = n"
    using ok n unfolding affinity_ok_def by blast+
  note s = steal_list_set [OF p(1,2) c(1,2)]
  note b = core_to_thread_bij [OF p(2), unfolded p(3)]
  have t: "?f c = tid" using map_get_load_core_to_thread [OF p(2), of "nat tid"] c(3) assms(6,7) p(3) by simp
  have "insert tid (set (GetStealList ca tid)) = ?f ` (set (steal_list_of ?p i c []) \<union> {c})" using c(5) t by auto
  also have "\<dots> = {0..<n}" unfolding s(1) using b by (simp add: bij_betw_def)
  moreover have "inj_on ?f (insert c (set (steal_list_of ?p i c [])))"
    by (rule inj_on_subset [OF bij_betw_imp_inj_on [OF b]]) (use s(1) in auto)
  ultimately show ?thesis using s(2) c(4,5) t by (auto simp: distinct_map inj_on_def)
qed

lemma steal_lists_cover_all_threads_example:
  "\<exists>ca. CoreAffinity_Init [] ex_cpu True 8 = Some ca \<and> insert 0 (set (GetStealList ca 0)) = {0..<8} \<and>
     distinct (GetStealList ca 0)"
proof -
  obtain ca where ca: "CoreAffinity_Init [] ex_cpu True 8 = Some ca" "map_get 0 (ca_thread_to_core ca) 0 = 0"
    using ex_cpu_init by blast
  show ?thesis using steal_lists_cover_all_threads [OF ca(1) _ ex_cpu_pool, of 0] ca by auto
qed

end
