(* ===== verification/Message.thy ===== *)
theory Message
  imports Core_Affinity Parser_Base
begin

text \<open>
  The messages between experts (src/core/message.hpp, message.tpp, message.cpp): their serialization, the splitting of
  data into messages of bounded size, the routing to the next expert, and the messages created for a new query, a
  broadcast, an abort, a branch and a side effect.

  Sizes are \<open>size_t\<close>: the sums of \<open>MemSize\<close> are natural numbers taken modulo \<open>2 ^ 64\<close>, the free space of a
  message is a difference of 64-bit words. The number of machines the \<open>SimpleIdMapper\<close> divides by is the argument
  \<open>sz\<close>. An access outside a vector, an exception and a loop that does not end are \<open>None\<close>.
\<close>

section \<open>Data\<close>

record branch_info =
  bi_node_id :: int
  bi_thread_id :: int
  bi_index :: int
  bi_key :: int
  bi_msg_id :: u64
  bi_msg_path :: string

record meta =
  mt_qid :: u64
  mt_step :: int
  mt_query_count_in_trx :: u8
  mt_recver_nid :: int
  mt_recver_tid :: int
  mt_parent_nid :: int
  mt_parent_tid :: int
  mt_msg_type :: MSG_T
  mt_msg_path :: string
  mt_branch_infos :: "branch_info list"
  mt_qplan :: query_plan

type_synonym history_t = "(int \<times> value_t) list"
type_synonym traverser = "history_t \<times> value_t list"

record message =
  ms_meta :: meta
  ms_data :: "traverser list"
  ms_data_size :: u64
  ms_max_data_size :: u64

definition TEN_MB :: u64 where "TEN_MB = 1048576"

definition new_Message :: "meta \<Rightarrow> message" where
  "new_Message m = \<lparr>ms_meta = m, ms_data = [], ms_data_size = 8, ms_max_data_size = TEN_MB\<rparr>"

subsection \<open>Serialization\<close>

definition put_Branch_Info :: "branch_info writer" where
  "put_Branch_Info m i =
     do { m \<leftarrow> put_int m (bi_node_id i); m \<leftarrow> put_int m (bi_thread_id i); m \<leftarrow> put_int m (bi_index i);
          m \<leftarrow> put_int m (bi_key i); m \<leftarrow> put_u64 m (bi_msg_id i); put_string m (bi_msg_path i) }"

definition get_Branch_Info :: "branch_info reader" where
  "get_Branch_Info s =
     do { (n, s) \<leftarrow> get_int s; (t, s) \<leftarrow> get_int s; (i, s) \<leftarrow> get_int s; (k, s) \<leftarrow> get_int s; (d, s) \<leftarrow> get_u64 s;
          (p, s) \<leftarrow> get_string s;
          Some (\<lparr>bi_node_id = n, bi_thread_id = t, bi_index = i, bi_key = k, bi_msg_id = d, bi_msg_path = p\<rparr>, s) }"

definition put_Meta :: "meta writer" where
  "put_Meta m t =
     do { m \<leftarrow> put_u64 m (mt_qid t); m \<leftarrow> put_int m (mt_step t); m \<leftarrow> put_u8 m (mt_query_count_in_trx t);
          m \<leftarrow> put_MSG_T m (mt_msg_type t); m \<leftarrow> put_int m (mt_recver_nid t); m \<leftarrow> put_int m (mt_recver_tid t);
          m \<leftarrow> put_int m (mt_parent_nid t); m \<leftarrow> put_int m (mt_parent_tid t); m \<leftarrow> put_string m (mt_msg_path t);
          m \<leftarrow> put_vector put_Branch_Info m (mt_branch_infos t);
          if mt_msg_type t = M_INIT then put_QueryPlan m (mt_qplan t) else Some m }"

text \<open>A message that does not start a query carries no plan: the receiver's own, \<open>q0\<close>, stays.\<close>

definition get_Meta :: "query_plan \<Rightarrow> meta reader" where
  "get_Meta q0 s =
     do { (q, s) \<leftarrow> get_u64 s; (st, s) \<leftarrow> get_int s; (c, s) \<leftarrow> get_u8 s; (ty, s) \<leftarrow> get_MSG_T s; (rn, s) \<leftarrow> get_int s;
          (rt, s) \<leftarrow> get_int s; (pn, s) \<leftarrow> get_int s; (pt, s) \<leftarrow> get_int s; (p, s) \<leftarrow> get_string s;
          (bs, s) \<leftarrow> get_vector get_Branch_Info s;
          (pl, s) \<leftarrow> (if ty = M_INIT then get_QueryPlan s else Some (q0, s));
          Some (\<lparr>mt_qid = q, mt_step = st, mt_query_count_in_trx = c, mt_recver_nid = rn, mt_recver_tid = rt,
                 mt_parent_nid = pn, mt_parent_tid = pt, mt_msg_type = ty, mt_msg_path = p, mt_branch_infos = bs,
                 mt_qplan = pl\<rparr>, s) }"

definition put_data :: "traverser list writer" where
  "put_data = put_vector (put_pair (put_vector (put_pair put_int put_value_t)) (put_vector put_value_t))"

definition get_data :: "traverser list reader" where
  "get_data = get_vector (get_pair (get_vector (get_pair get_int get_value_t)) (get_vector get_value_t))"

definition put_Message :: "message writer" where
  "put_Message m msg =
     do { m \<leftarrow> put_Meta m (ms_meta msg); m \<leftarrow> put_data m (ms_data msg); m \<leftarrow> put_u64 m (ms_max_data_size msg);
          put_u64 m (ms_data_size msg) }"

definition get_Message :: "query_plan \<Rightarrow> message reader" where
  "get_Message q0 s =
     do { (t, s) \<leftarrow> get_Meta q0 s; (d, s) \<leftarrow> get_data s; (mx, s) \<leftarrow> get_u64 s; (sz, s) \<leftarrow> get_u64 s;
          Some (\<lparr>ms_meta = t, ms_data = d, ms_data_size = sz, ms_max_data_size = mx\<rparr>, s) }"

subsection \<open>Sizes and insertion\<close>

definition MemSize_vector :: "('a \<Rightarrow> nat) \<Rightarrow> 'a list \<Rightarrow> nat" where
  "MemSize_vector f xs = 8 + sum_list (map f xs)"

definition MemSize_value :: "value_t \<Rightarrow> nat" where
  "MemSize_value v = 1 + MemSize_vector (\<lambda>_. 1) (v_content v)"

definition MemSize_history :: "history_t \<Rightarrow> nat" where
  "MemSize_history h = MemSize_vector (\<lambda>(k, v). 4 + MemSize_value v) h"

definition MemSize_data :: "traverser list \<Rightarrow> nat" where
  "MemSize_data d = MemSize_vector (\<lambda>(h, vs). MemSize_history h + MemSize_vector MemSize_value vs) d"

fun fit_values :: "u64 \<Rightarrow> u64 \<Rightarrow> value_t list \<Rightarrow> u64 \<times> nat" where
  "fit_values space in_size [] = (in_size, 0)"
| "fit_values space in_size (v # vs) =
     (let s = of_nat (MemSize_value v)
      in if s + in_size \<le> space then (let (r, n) = fit_values space (in_size + s) vs in (r, Suc n)) else (in_size, 0))"

text \<open>The answer, the pair with the values that are left, and the message.\<close>

definition InsertPair :: "message \<Rightarrow> traverser \<Rightarrow> bool \<times> traverser \<times> message" where
  "InsertPair msg p =
     (let space = ms_max_data_size msg - ms_data_size msg;
          his_size = of_nat (MemSize_history (fst p)) + 8
      in if snd p = []
         then (True, p, msg\<lparr>ms_data := ms_data msg @ [p], ms_data_size := ms_data_size msg + his_size\<rparr>)
         else if his_size \<ge> space then (False, p, msg)
         else let (in_size, n) = fit_values space his_size (snd p)
              in if in_size \<noteq> his_size
                 then (drop n (snd p) = [], (fst p, drop n (snd p)),
                       msg\<lparr>ms_data := ms_data msg @ [(fst p, take n (snd p))], ms_data_size := ms_data_size msg + in_size\<rparr>)
                 else (False, p, msg))"

fun InsertData :: "traverser list \<Rightarrow> message \<Rightarrow> traverser list \<times> message" where
  "InsertData [] msg = ([], msg)"
| "InsertData (p # ps) msg =
     (let (ok, p', msg') = InsertPair msg p in if ok then InsertData ps msg' else (p' # ps, msg'))"

fun history_elements_eq :: "history_t \<Rightarrow> history_t \<Rightarrow> bool option" where
  "history_elements_eq ((k1, v1) # l) ((k2, v2) # r) =
     do { b \<leftarrow> (if k1 = k2 then value_eq v1 v2 else Some False); if b then history_elements_eq l r else Some False }"
| "history_elements_eq l r = Some True"

definition history_eq :: "history_t \<Rightarrow> history_t \<Rightarrow> bool option" where
  "history_eq l r = (if length l \<noteq> length r then Some False else history_elements_eq l r)"

section \<open>Routing\<close>

definition expert_at :: "expert_object list \<Rightarrow> int \<Rightarrow> expert_object option" where
  "expert_at experts i = vec_at experts i"

definition GetNodeId :: "int \<Rightarrow> value_t \<Rightarrow> bool \<Rightarrow> int option" where
  "GetNodeId sz v consider_both_edge =
     (if v_type v = 1 then do { i \<leftarrow> value_t2int v; Some (GetMachineIdForVertex sz (vid_t_of_int i)) }
      else if v_type v = 5
      then do { u \<leftarrow> value_t2uint64_t v; Some (GetMachineIdForEdge sz (uint2eid_t u) consider_both_edge) }
      else Some (-1))"

text \<open>\<open>cur\<close> is the step of the message that is being processed (\<open>this->meta.step\<close>).\<close>

function UpdateRoute :: "int \<Rightarrow> expert_object list \<Rightarrow> meta \<Rightarrow> (bool \<times> meta) option" where
  "UpdateRoute cur experts m =
     (case expert_at experts (mt_step m) of None \<Rightarrow> None
      | Some ex \<Rightarrow>
          if IsBarrier (ex_type ex)
          then Some (True, m\<lparr>mt_recver_nid := (if mt_branch_infos m \<noteq> [] then bi_node_id (last (mt_branch_infos m))
                                              else mt_parent_nid m), mt_msg_type := M_BARRIER\<rparr>)
          else if mt_step m \<le> cur
          then (if mt_branch_infos m = [] then None
                else if ex_type ex = E_BRANCH \<or> ex_type ex = E_REPEAT
                then UpdateRoute cur experts (m\<lparr>mt_step := ex_next ex, mt_branch_infos := butlast (mt_branch_infos m)\<rparr>)
                else Some (True, m\<lparr>mt_recver_nid := bi_node_id (last (mt_branch_infos m)),
                                   mt_recver_tid := bi_thread_id (last (mt_branch_infos m)), mt_msg_type := M_BRANCH\<rparr>))
          else Some (False, m\<lparr>mt_msg_type := M_SPAWN\<rparr>))"
  by auto
termination by (relation "measure (\<lambda>(_, _, m). length (mt_branch_infos m))") auto

declare UpdateRoute.simps [simp del]

text \<open>The loop of \<open>UpdateCollectionRoute\<close>; a negative step compares as a large unsigned number.\<close>

partial_function (option) collection_loop :: "int \<Rightarrow> expert_object list \<Rightarrow> meta \<Rightarrow> (bool \<times> meta) option" where
  "collection_loop cur experts m =
     (case expert_at experts (mt_step m) of None \<Rightarrow> Some (False, m)
      | Some ex \<Rightarrow>
          if IsBarrier (ex_type ex) then Some (True, m)
          else if ex_type ex = E_BRANCH \<or> ex_type ex = E_REPEAT
          then (if mt_step m \<le> cur
                then (if mt_branch_infos m = [] then None
                      else collection_loop cur experts (m\<lparr>mt_branch_infos := butlast (mt_branch_infos m), mt_step := ex_next ex\<rparr>))
                else Some (False, m))
          else if mt_step m \<le> cur then Some (False, m)
          else collection_loop cur experts (m\<lparr>mt_step := ex_next ex\<rparr>))"

declare collection_loop.simps [code]

definition UpdateCollectionRoute :: "int \<Rightarrow> expert_object list \<Rightarrow> meta \<Rightarrow> (bool \<times> meta) option" where
  "UpdateCollectionRoute cur experts m =
     do { (to_barrier, m) \<leftarrow> collection_loop cur experts m;
          (_, m) \<leftarrow> UpdateRoute cur experts m;
          Some (to_barrier, m) }"

section \<open>Edges to be added\<close>

definition eid_of_ints :: "int \<Rightarrow> int \<Rightarrow> value_t" where
  "eid_of_ints dst src = uint64_t2value_t (eid_t_value \<lparr>dst_v = word_of_int dst, src_v = word_of_int src\<rparr>) new_value"

text \<open>
  The search for a label in a history never moves its iterator: it looks at the first element again and again. An
  empty history is dereferenced at its end.
\<close>

partial_function (option) find_label :: "history_t \<Rightarrow> int \<Rightarrow> int option" where
  "find_label his step_param =
     (case his of [] \<Rightarrow> None
      | (k, v) # _ \<Rightarrow>
          if k = step_param then do { CHECK (v_type v = 1); value_t2int v } else find_label his step_param)"

partial_function (option) find_labels :: "history_t \<Rightarrow> int \<Rightarrow> int \<Rightarrow> int \<Rightarrow> int option \<Rightarrow> int option \<Rightarrow>
    (int option \<times> int option) option" where
  "find_labels his from_label to_label found_cnt f t =
     (case his of [] \<Rightarrow> None
      | (k, v) # _ \<Rightarrow>
          do { (found_cnt, f) \<leftarrow> (if k = from_label then do { CHECK (v_type v = 1); i \<leftarrow> value_t2int v; Some (found_cnt - 1, Some i) }
                                  else Some (found_cnt, f));
               (found_cnt, t) \<leftarrow> (if k = to_label then do { CHECK (v_type v = 1); i \<leftarrow> value_t2int v; Some (found_cnt - 1, Some i) }
                                  else Some (found_cnt, t));
               if found_cnt = 0 then Some (f, t) else find_labels his from_label to_label found_cnt f t })"

declare find_label.simps [code] find_labels.simps [code]

fun option_map :: "('a \<Rightarrow> 'b option) \<Rightarrow> 'a list \<Rightarrow> 'b list option" where
  "option_map f [] = Some []"
| "option_map f (x # xs) = do { y \<leftarrow> f x; ys \<leftarrow> option_map f xs; Some (y # ys) }"

definition GenerateEdgeWithData :: "int \<Rightarrow> int \<Rightarrow> bool \<Rightarrow> traverser list \<Rightarrow> traverser list option" where
  "GenerateEdgeWithData method step_param isFrom data =
     (let new_data = (\<lambda>other vals. option_map (\<lambda>v. do { d \<leftarrow> value_t2int v;
                        Some (if isFrom then eid_of_ints d other else eid_of_ints other d) }) vals)
      in if method = method_int PlaceHolder
         then option_map (\<lambda>(h, vals). do { n \<leftarrow> new_data step_param vals; Some (h, n) }) data
         else if method = method_int StepLabel
         then option_map (\<lambda>(h, vals). do { i \<leftarrow> find_label h step_param; n \<leftarrow> new_data i vals; Some (h, n) }) data
         else Some data)"

definition GenerateEdgeWithHistory :: "int \<Rightarrow> int \<Rightarrow> bool \<Rightarrow> traverser list \<Rightarrow> traverser list option" where
  "GenerateEdgeWithHistory step_param other_end_vid isFrom data =
     option_map (\<lambda>(h, vals). do { i \<leftarrow> find_label h step_param;
       Some (h, [if isFrom then eid_of_ints other_end_vid i else eid_of_ints i other_end_vid]) }) data"

definition GenerateEdgeWithBothHistory :: "int \<Rightarrow> int \<Rightarrow> traverser list \<Rightarrow> traverser list option" where
  "GenerateEdgeWithBothHistory from_label to_label data =
     option_map (\<lambda>(h, vals). do { (f, t) \<leftarrow> find_labels h from_label to_label 2 None None; f \<leftarrow> f; t \<leftarrow> t;
       Some (h, [eid_of_ints t f]) }) data"

definition param_int :: "expert_object \<Rightarrow> int \<Rightarrow> int option" where
  "param_int ex i = do { v \<leftarrow> vec_at (ex_params ex) i; value_t2int v }"

definition ConstructEdge :: "traverser list \<Rightarrow> expert_object \<Rightarrow> traverser list option" where
  "ConstructEdge data ex =
     do { CHECK (ex_type ex = E_ADDE);
          label_id \<leftarrow> param_int ex 0; from_method \<leftarrow> param_int ex 1; to_method \<leftarrow> param_int ex 3;
          let from_applicable = from_method \<noteq> method_int NotApplicable;
          let to_applicable = to_method \<noteq> method_int NotApplicable;
          from_params \<leftarrow> (if from_applicable then param_int ex 2 else Some 0);
          to_params \<leftarrow> (if to_applicable then param_int ex 4 else Some 0);
          if from_applicable \<and> to_applicable
          then (if from_method = method_int PlaceHolder \<and> to_method = method_int PlaceHolder
                then Some [([], [eid_of_ints to_params from_params])]
                else if from_method = method_int StepLabel \<and> to_method = method_int PlaceHolder
                then GenerateEdgeWithHistory from_params to_params True data
                else if from_method = method_int PlaceHolder \<and> to_method = method_int StepLabel
                then GenerateEdgeWithHistory to_params from_params False data
                else GenerateEdgeWithBothHistory from_params to_params data)
          else if from_applicable then GenerateEdgeWithData from_method from_params True data
          else if to_applicable then GenerateEdgeWithData to_method to_params False data
          else None }"

section \<open>Dispatching\<close>

text \<open>\<open>map[k].push_back(x)\<close> on a map in key order.\<close>

fun map_push :: "'k::linorder \<Rightarrow> 'a \<Rightarrow> ('k \<times> 'a list) list \<Rightarrow> ('k \<times> 'a list) list" where
  "map_push k x [] = [(k, [x])]"
| "map_push k x ((a, l) # m) =
     (if k < a then (k, [x]) # (a, l) # m else if k = a then (a, l @ [x]) # m else (a, l) # map_push k x m)"

fun route_values :: "int \<Rightarrow> bool \<Rightarrow> value_t list \<Rightarrow> (int \<times> value_t list) list \<Rightarrow> (int \<times> value_t list) list option" where
  "route_values sz both [] m = Some m"
| "route_values sz both (v # vs) m =
     do { (dst, m) \<leftarrow> (if both then do { d \<leftarrow> GetNodeId sz v True; Some (d, map_push d v m) } else Some (-1, m));
          node \<leftarrow> GetNodeId sz v False;
          route_values sz both vs (if node \<noteq> dst then map_push node v m else m) }"

type_synonym routed = "(int \<times> traverser list) list \<times> traverser list"

fun route_data :: "int \<Rightarrow> bool \<Rightarrow> bool \<Rightarrow> traverser list \<Rightarrow> routed \<Rightarrow> routed option" where
  "route_data sz both empty_to_barrier [] r = Some r"
| "route_data sz both empty_to_barrier ((h, vs) # ps) (id2data, empty_his) =
     (if vs = [] then route_data sz both empty_to_barrier ps (id2data, if empty_to_barrier then empty_his @ [(h, vs)] else empty_his)
      else do { m \<leftarrow> route_values sz both vs [];
                route_data sz both empty_to_barrier ps (fold (\<lambda>(n, l). map_push n (h, l)) m id2data, empty_his) })"

fun local_data :: "int \<Rightarrow> bool \<Rightarrow> bool \<Rightarrow> traverser list \<Rightarrow> routed \<Rightarrow> routed" where
  "local_data nid is_count empty_to_barrier [] r = r"
| "local_data nid is_count empty_to_barrier ((h, vs) # ps) (id2data, empty_his) =
     (if vs = [] then local_data nid is_count empty_to_barrier ps (id2data, if empty_to_barrier then empty_his @ [(h, vs)] else empty_his)
      else local_data nid is_count empty_to_barrier ps
        (map_push nid (h, if is_count then [str2int (nat_str (length vs)) new_value] else vs) id2data, empty_his))"

text \<open>The loop that fills messages until no data is left.\<close>

partial_function (option) fill_messages :: "u64 \<Rightarrow> EXPERT_T \<Rightarrow> meta \<Rightarrow> traverser list \<Rightarrow> core_affinity \<Rightarrow>
    (message list \<times> core_affinity) option" where
  "fill_messages max_size ty m items ca =
     do { (tid, ca1) \<leftarrow> GetThreadIdForExpert ty ca;
          let (rest, msg) = InsertData items ((new_Message (m\<lparr>mt_recver_tid := tid\<rparr>))\<lparr>ms_max_data_size := max_size\<rparr>);
          if rest \<noteq> []
          then do { (ms, ca2) \<leftarrow> fill_messages max_size ty m rest ca1; Some (msg # ms, ca2) }
          else Some ([msg], ca1) }"

declare fill_messages.simps [code]

text \<open>The first \<open>k\<close> rounds of that loop: the messages made so far and the data that is left.\<close>

fun fill_rounds :: "nat \<Rightarrow> u64 \<Rightarrow> EXPERT_T \<Rightarrow> meta \<Rightarrow> traverser list \<Rightarrow> core_affinity \<Rightarrow>
    (message list \<times> traverser list \<times> core_affinity) option" where
  "fill_rounds 0 max_size ty m items ca = Some ([], items, ca)"
| "fill_rounds (Suc k) max_size ty m items ca =
     do { (tid, ca) \<leftarrow> GetThreadIdForExpert ty ca;
          let (rest, msg) = InsertData items ((new_Message (m\<lparr>mt_recver_tid := tid\<rparr>))\<lparr>ms_max_data_size := max_size\<rparr>);
          if rest \<noteq> []
          then do { (ms, rest, ca) \<leftarrow> fill_rounds k max_size ty m rest ca; Some (msg # ms, rest, ca) }
          else Some ([msg], [], ca) }"

fun fill_nodes :: "u64 \<Rightarrow> EXPERT_T \<Rightarrow> meta \<Rightarrow> (int \<times> traverser list) list \<Rightarrow> core_affinity \<Rightarrow>
    (message list \<times> core_affinity) option" where
  "fill_nodes max_size ty m [] ca = Some ([], ca)"
| "fill_nodes max_size ty m ((nid, items) # l) ca =
     do { (ms, ca) \<leftarrow> fill_messages max_size ty (m\<lparr>mt_recver_nid := nid\<rparr>) items ca;
          (ms', ca) \<leftarrow> fill_nodes max_size ty m l ca;
          Some (ms @ ms', ca) }"

text \<open>Whether the data goes to both ends of an edge, and the data with the edges made for an \<open>addE\<close>.\<close>

definition edge_data :: "expert_object \<Rightarrow> traverser list \<Rightarrow> (bool \<times> traverser list) option" where
  "edge_data ex data =
     (if ex_type ex = E_DROP
      then do { inType \<leftarrow> param_int ex 0; isProperty \<leftarrow> param_int ex 1;
                Some (isProperty = 0 \<and> inType = element_int EDGE, data) }
      else if ex_type ex = E_ADDE then do { d \<leftarrow> ConstructEdge data ex; Some (True, d) }
      else Some (False, data))"

definition is_counted :: "expert_object list \<Rightarrow> int \<Rightarrow> bool option" where
  "is_counted experts step =
     do { ex \<leftarrow> expert_at experts step;
          if ex_type ex = E_COUNT then do { prev \<leftarrow> expert_at experts (step - 1); Some (ex_type prev \<noteq> E_INIT) }
          else Some False }"

definition gather_data :: "int \<Rightarrow> bool \<Rightarrow> bool \<Rightarrow> bool \<Rightarrow> bool \<Rightarrow> int \<Rightarrow> traverser list \<Rightarrow> routed option" where
  "gather_data sz remote both is_count empty_to_barrier nid data =
     do { (id2data, empty_his) \<leftarrow> (if remote then route_data sz both empty_to_barrier data ([], [])
                                   else Some (local_data nid is_count empty_to_barrier data ([], [])));
          Some (id2data, if id2data = [] \<and> empty_his = [] then [([], [])] else empty_his) }"

definition DispatchData :: "int \<Rightarrow> message \<Rightarrow> meta \<Rightarrow> expert_object list \<Rightarrow> traverser list \<Rightarrow> core_affinity \<Rightarrow>
    (message list \<times> core_affinity) option" where
  "DispatchData sz this m experts data ca =
     do { let cur = mt_step (ms_meta this);
          (route_assigned, rm) \<leftarrow> UpdateRoute cur experts m;
          (empty_to_barrier, cm) \<leftarrow> UpdateCollectionRoute cur experts m;
          is_count \<leftarrow> is_counted experts (mt_step rm);
          ex \<leftarrow> expert_at experts (mt_step rm);
          (both, data) \<leftarrow> edge_data ex data;
          remote \<leftarrow> (if route_assigned then Some False else do { e \<leftarrow> expert_at experts cur; Some (ex_send_remote e) });
          (id2data, empty_his) \<leftarrow> gather_data sz (remote \<or> both) both is_count empty_to_barrier (mt_recver_nid rm) data;
          (ms, ca) \<leftarrow> fill_nodes (ms_max_data_size this) (ex_type ex) rm id2data ca;
          (if empty_his = [] then Some (ms, ca)
           else do { cex \<leftarrow> expert_at experts (mt_step cm);
                     (ms', ca) \<leftarrow> fill_messages (ms_max_data_size this) (ex_type cex) cm empty_his ca;
                     Some (ms @ ms', ca) }) }"

section \<open>Creation of messages\<close>

definition add_path :: "string \<Rightarrow> message \<Rightarrow> message" where
  "add_path p msg = msg\<lparr>ms_meta := (ms_meta msg)\<lparr>mt_msg_path := mt_msg_path (ms_meta msg) @ p\<rparr>\<rparr>"

definition CreateNextMsg :: "int \<Rightarrow> message \<Rightarrow> expert_object list \<Rightarrow> traverser list \<Rightarrow> core_affinity \<Rightarrow>
    (message list \<times> core_affinity) option" where
  "CreateNextMsg sz this experts data ca =
     do { ex \<leftarrow> expert_at experts (mt_step (ms_meta this));
          (ms, ca) \<leftarrow> DispatchData sz this ((ms_meta this)\<lparr>mt_step := ex_next ex\<rparr>) experts data ca;
          let num = nat_str (length ms);
          let num = (if mt_msg_path (ms_meta this) \<noteq> [] then TAB # num else num);
          Some (map (add_path num) ms, ca) }"

fun dispatch_steps :: "int \<Rightarrow> message \<Rightarrow> meta \<Rightarrow> branch_info \<Rightarrow> expert_object list \<Rightarrow> traverser list \<Rightarrow> int \<Rightarrow> int list \<Rightarrow>
    core_affinity \<Rightarrow> (message list \<times> core_affinity) option" where
  "dispatch_steps sz this m info experts data i [] ca = Some ([], ca)"
| "dispatch_steps sz this m info experts data i (step # steps) ca =
     do { (ms, ca) \<leftarrow> DispatchData sz this
            (m\<lparr>mt_branch_infos := mt_branch_infos m @ [info\<lparr>bi_index := i + 1\<rparr>], mt_step := step\<rparr>) experts data ca;
          (ms', ca) \<leftarrow> dispatch_steps sz this m info experts data (i + 1) steps ca;
          Some (map (add_path (TAB # nat_str (length ms))) ms @ ms', ca) }"

definition branch_route :: "meta \<Rightarrow> nat \<Rightarrow> branch_info \<times> string" where
  "branch_route m step_count =
     (if mt_branch_infos m \<noteq> []
      then (let info = last (mt_branch_infos m)
            in (info\<lparr>bi_msg_path := bi_msg_path info @ TAB # nat_str step_count\<rparr>, bi_msg_path info))
      else (\<lparr>bi_node_id = mt_parent_nid m, bi_thread_id = mt_parent_tid m, bi_index = 0, bi_key = -1, bi_msg_id = 0,
             bi_msg_path = nat_str step_count\<rparr>, []))"

definition CreateBranchedMsg :: "int \<Rightarrow> message \<Rightarrow> expert_object list \<Rightarrow> int list \<Rightarrow> core_affinity \<Rightarrow>
    (message list \<times> core_affinity) option" where
  "CreateBranchedMsg sz this experts steps ca =
     do { let m = ms_meta this;
          let (info, parent_path) = branch_route m (length steps);
          CHECK (length parent_path \<le> length (mt_msg_path m));
          let tl = drop (length parent_path) (mt_msg_path m);
          let tl = (if tl \<noteq> [] \<and> hd tl \<noteq> TAB then TAB # tl else tl);
          dispatch_steps sz this (m\<lparr>mt_msg_path := bi_msg_path info @ tl\<rparr>) info experts (ms_data this) 0 steps ca }"

fun label_values :: "int \<Rightarrow> history_t \<Rightarrow> value_t list \<Rightarrow> nat \<Rightarrow> traverser list" where
  "label_values step h [] c = []"
| "label_values step h (v # vs) c = (h @ [(step, str2int (nat_str c) new_value)], [v]) # label_values step h vs (Suc c)"

fun label_data :: "int \<Rightarrow> traverser list \<Rightarrow> nat \<Rightarrow> traverser list" where
  "label_data step [] c = []"
| "label_data step ((h, vs) # ps) c =
     (if vs = [] then [(h, vs)] else []) @ label_values step h vs c @ label_data step ps (c + length vs)"

definition CreateBranchedMsgWithHisLabel :: "int \<Rightarrow> message \<Rightarrow> expert_object list \<Rightarrow> int list \<Rightarrow> u64 \<Rightarrow> core_affinity \<Rightarrow>
    (message list \<times> core_affinity) option" where
  "CreateBranchedMsgWithHisLabel sz this experts steps msg_id ca =
     (let m = ms_meta this;
          info = \<lparr>bi_node_id = mt_recver_nid m, bi_thread_id = mt_recver_tid m, bi_index = 0, bi_key = mt_step m,
                  bi_msg_id = msg_id, bi_msg_path = mt_msg_path m\<rparr>
      in dispatch_steps sz this m info experts (label_data (mt_step m) (ms_data this) 0) 0 steps ca)"

definition CreateBroadcastMsg :: "message \<Rightarrow> MSG_T \<Rightarrow> nat \<Rightarrow> message list" where
  "CreateBroadcastMsg this ty nodes_num =
     (let m = ms_meta this
      in map (\<lambda>i. new_Message (m\<lparr>mt_step := mt_step m + 1, mt_msg_type := ty, mt_recver_tid := mt_parent_tid m,
           mt_msg_path := nat_str nodes_num, mt_recver_nid := int i\<rparr>)) [0..<nodes_num])"

definition CreateAbortMsg :: "message \<Rightarrow> expert_object list \<Rightarrow> string \<Rightarrow> message" where
  "CreateAbortMsg this experts abort_info =
     (let m = ms_meta this;
          msg = new_Message (m\<lparr>mt_step := int (length experts) - 1, mt_msg_type := M_ABORT, mt_recver_nid := mt_parent_nid m,
                               mt_recver_tid := mt_parent_tid m\<rparr>)
      in if abort_info \<noteq> [] then msg\<lparr>ms_data := [([], [str2str abort_info new_value])]\<rparr> else msg)"

text \<open>The numbers of a new \<open>Meta\<close> that are not assigned are those of \<open>raw\<close>.\<close>

definition CreateFeedMsg :: "meta \<Rightarrow> message \<Rightarrow> int \<Rightarrow> nat \<Rightarrow> value_t list \<Rightarrow> message list" where
  "CreateFeedMsg raw this key nodes_num data =
     (let m = raw\<lparr>mt_msg_path := [], mt_branch_infos := [], mt_qplan := new_QueryPlan, mt_qid := mt_qid (ms_meta this),
                  mt_recver_tid := mt_parent_tid (ms_meta this), mt_step := key,
                  mt_query_count_in_trx := mt_query_count_in_trx (ms_meta this), mt_msg_type := M_FEED\<rparr>
      in map (\<lambda>i. (new_Message (m\<lparr>mt_recver_nid := int i\<rparr>))\<lparr>ms_data := [([], data)]\<rparr>)
           (filter (\<lambda>i. int i \<noteq> mt_parent_nid (ms_meta this)) [0..<nodes_num]))"

fun params_by_node :: "int \<Rightarrow> value_t list \<Rightarrow> (int \<times> value_t list) list \<Rightarrow> (int \<times> value_t list) list option" where
  "params_by_node sz [] m = Some m"
| "params_by_node sz (v # vs) m = do { n \<leftarrow> GetNodeId sz v False; params_by_node sz vs (map_push n v m) }"

definition set_params :: "value_t list \<Rightarrow> query_plan \<Rightarrow> query_plan" where
  "set_params ps q = q\<lparr>qp_experts := (qp_experts q)[0 := (qp_experts q ! 0)\<lparr>ex_params := ps\<rparr>]\<rparr>"

definition AssignParamsByLocality :: "int \<Rightarrow> nat \<Rightarrow> query_plan \<Rightarrow> query_plan list option" where
  "AssignParamsByLocality sz nodes_num q =
     do { CHECK (0 < nodes_num);
          ex \<leftarrow> vec_at (qp_experts q) 0;
          if ex_type ex = E_INIT
          then do { with_input \<leftarrow> param_int ex 1;
                    if with_input = 0 then Some (replicate nodes_num q)
                    else do { nid2data \<leftarrow> params_by_node sz (drop 2 (ex_params ex)) [];
                              Some (map (\<lambda>j. set_params (take 2 (ex_params ex) @
                                      (case map_of nid2data (int j) of None \<Rightarrow> [] | Some l \<Rightarrow> l)) q) [0..<nodes_num]) } }
          else Some (replicate nodes_num q) }"

definition init_data :: "bool \<Rightarrow> (value_t \<times> int \<times> int) option \<Rightarrow> int \<Rightarrow> int \<Rightarrow> traverser list" where
  "init_data isAddV edge parent_node i =
     (if isAddV \<and> i = parent_node then [([], [new_value])]
      else (case edge of Some (eid, src, dst) \<Rightarrow> if i = src \<or> i = dst then [([], [eid])] else [] | None \<Rightarrow> []))"

definition CreateInitMsg :: "int \<Rightarrow> u64 \<Rightarrow> u8 \<Rightarrow> int \<Rightarrow> nat \<Rightarrow> int \<Rightarrow> query_plan \<Rightarrow> message list option" where
  "CreateInitMsg sz qid query_count parent_node nodes_num recv_tid q =
     do { ex \<leftarrow> vec_at (qp_experts q) 0;
          edge \<leftarrow> (if ex_type ex = E_ADDE
                   then do { d \<leftarrow> ConstructEdge [] ex;
                             eid \<leftarrow> (case d of (_, v # _) # _ \<Rightarrow> Some v | _ \<Rightarrow> None);
                             src \<leftarrow> GetNodeId sz eid False; dst \<leftarrow> GetNodeId sz eid True; Some (Some (eid, src, dst)) }
                   else Some None);
          qplans \<leftarrow> AssignParamsByLocality sz nodes_num q;
          Some (map (\<lambda>(i, qp). (new_Message \<lparr>mt_qid = qid, mt_step = 0, mt_query_count_in_trx = query_count, mt_recver_nid = int i,
                     mt_recver_tid = recv_tid, mt_parent_nid = parent_node, mt_parent_tid = recv_tid, mt_msg_type = M_INIT,
                     mt_msg_path = nat_str nodes_num, mt_branch_infos = [], mt_qplan = qp\<rparr>)
                     \<lparr>ms_data := init_data (ex_type ex = E_ADDV) edge parent_node (int i)\<rparr>)
                 (zip [0..<nodes_num] qplans)) }"

end
