(* ===== verification/Message_Codec.thy ===== *)
theory Message_Codec
  imports Message
begin

text \<open>
  The codecs of the parts of a message and of messages: interpretations of the locale \<open>codec\<close>.
\<close>

section \<open>Codecs\<close>

abbreviation branch_info_ok :: "branch_info \<Rightarrow> bool" where
  "branch_info_ok i \<equiv> int_ok (bi_node_id i) \<and> int_ok (bi_thread_id i) \<and> int_ok (bi_index i) \<and> int_ok (bi_key i) \<and>
     length (bi_msg_path i) < 2 ^ 31"

abbreviation traverser_ok :: "traverser \<Rightarrow> bool" where
  "traverser_ok t \<equiv> (length (fst t) < 2 ^ 64 \<and> (\<forall>e\<in>set (fst t). int_ok (fst e) \<and> value_ok (snd e))) \<and>
     (length (snd t) < 2 ^ 64 \<and> (\<forall>v\<in>set (snd t). value_ok v))"

abbreviation data_ok :: "traverser list \<Rightarrow> bool" where
  "data_ok d \<equiv> length d < 2 ^ 64 \<and> (\<forall>t\<in>set d. traverser_ok t)"

text \<open>Only a message that starts a query may carry a plan other than the receiver's \<open>q0\<close>.\<close>

definition meta_ok :: "query_plan \<Rightarrow> meta \<Rightarrow> bool" where
  "meta_ok q0 m \<longleftrightarrow> int_ok (mt_step m) \<and> int_ok (mt_recver_nid m) \<and> int_ok (mt_recver_tid m) \<and> int_ok (mt_parent_nid m) \<and>
     int_ok (mt_parent_tid m) \<and> length (mt_msg_path m) < 2 ^ 31 \<and> length (mt_branch_infos m) < 2 ^ 64 \<and>
     (\<forall>i\<in>set (mt_branch_infos m). branch_info_ok i) \<and> (if mt_msg_type m = M_INIT then plan_ok (mt_qplan m) else mt_qplan m = q0)"

lemma codes_Branch_Info:
  assumes "branch_info_ok i"
  shows "\<exists>bs. codes put_Branch_Info get_Branch_Info i bs"
proof -
  obtain b1 where 1: "codes put_int get_int (bi_node_id i) b1" using int.has_code assms by blast
  obtain b2 where 2: "codes put_int get_int (bi_thread_id i) b2" using int.has_code assms by blast
  obtain b3 where 3: "codes put_int get_int (bi_index i) b3" using int.has_code assms by blast
  obtain b4 where 4: "codes put_int get_int (bi_key i) b4" using int.has_code assms by blast
  obtain b5 where 5: "codes put_u64 get_u64 (bi_msg_id i) b5" using codes_u64 by blast
  obtain b6 where 6: "codes put_string get_string (bi_msg_path i) b6" using string.has_code assms by blast
  show ?thesis
    by (intro exI [of _ "b1 @ b2 @ b3 @ b4 @ b5 @ b6"] codesI)
      (simp_all add: put_Branch_Info_def get_Branch_Info_def codesD [OF 1] codesD [OF 2] codesD [OF 3] codesD [OF 4]
        codesD [OF 5] codesD [OF 6])
qed

interpretation Branch_Info: codec put_Branch_Info get_Branch_Info branch_info_ok
  by unfold_locales (rule codes_Branch_Info)

lemma codes_Meta:
  assumes ok: "meta_ok q0 m"
  shows "\<exists>bs. codes put_Meta (get_Meta q0) m bs"
proof -
  note o = ok [unfolded meta_ok_def]
  obtain b1 where 1: "codes put_u64 get_u64 (mt_qid m) b1" using codes_u64 by blast
  obtain b2 where 2: "codes put_int get_int (mt_step m) b2" using int.has_code o by blast
  obtain b3 where 3: "codes put_u8 get_u8 (mt_query_count_in_trx m) b3" using codes_u8 by blast
  obtain b4 where 4: "codes put_MSG_T get_MSG_T (mt_msg_type m) b4" using MSG_T.has_code by blast
  obtain b5 where 5: "codes put_int get_int (mt_recver_nid m) b5" using int.has_code o by blast
  obtain b6 where 6: "codes put_int get_int (mt_recver_tid m) b6" using int.has_code o by blast
  obtain b7 where 7: "codes put_int get_int (mt_parent_nid m) b7" using int.has_code o by blast
  obtain b8 where 8: "codes put_int get_int (mt_parent_tid m) b8" using int.has_code o by blast
  obtain b9 where 9: "codes put_string get_string (mt_msg_path m) b9" using string.has_code o by blast
  obtain b10 where 10: "codes (put_vector put_Branch_Info) (get_vector get_Branch_Info) (mt_branch_infos m) b10"
    using Branch_Info.codes_vector o by blast
  note d = codesD [OF 1] codesD [OF 2] codesD [OF 3] codesD [OF 4] codesD [OF 5] codesD [OF 6] codesD [OF 7] codesD [OF 8]
    codesD [OF 9] codesD [OF 10]
  show ?thesis
  proof (cases "mt_msg_type m = M_INIT")
    case True
    then have "plan_ok (mt_qplan m)" using o by simp
    then obtain b11 where 11: "codes put_QueryPlan get_QueryPlan (mt_qplan m) b11" using QueryPlan.has_code by blast
    show ?thesis
      by (intro exI [of _ "b1 @ b2 @ b3 @ b4 @ b5 @ b6 @ b7 @ b8 @ b9 @ b10 @ b11"] codesI)
        (simp_all add: put_Meta_def get_Meta_def d True codesD [OF 4 [unfolded True]] codesD [OF 11])
  next
    case False
    then have q: "mt_qplan m = q0" using o by simp
    show ?thesis
      by (intro exI [of _ "b1 @ b2 @ b3 @ b4 @ b5 @ b6 @ b7 @ b8 @ b9 @ b10"] codesI)
        (simp_all add: put_Meta_def get_Meta_def d False flip: q)
  qed
qed

interpretation Meta: codec put_Meta "get_Meta q0" "meta_ok q0" for q0
  by unfold_locales (rule codes_Meta)

interpretation history_pair: two_codecs put_int get_int int_ok put_value_t get_value_t value_ok
  by unfold_locales

interpretation history: codec "put_vector (put_pair put_int put_value_t)" "get_vector (get_pair get_int get_value_t)"
    "\<lambda>h. length h < 2 ^ 64 \<and> (\<forall>e\<in>set h. int_ok (fst e) \<and> value_ok (snd e))"
  by (rule history_pair.pair.vector_codec)

interpretation value_vector: codec "put_vector put_value_t" "get_vector get_value_t"
    "\<lambda>v. length v < 2 ^ 64 \<and> (\<forall>x\<in>set v. value_ok x)"
  by (rule value_t.vector_codec)

interpretation traverser: two_codecs "put_vector (put_pair put_int put_value_t)" "get_vector (get_pair get_int get_value_t)"
    "\<lambda>h. length h < 2 ^ 64 \<and> (\<forall>e\<in>set h. int_ok (fst e) \<and> value_ok (snd e))"
    "put_vector put_value_t" "get_vector get_value_t" "\<lambda>v. length v < 2 ^ 64 \<and> (\<forall>x\<in>set v. value_ok x)"
  by unfold_locales

interpretation data: codec put_data get_data data_ok
  unfolding put_data_def get_data_def by (rule traverser.pair.vector_codec)

lemma codes_Message:
  assumes "meta_ok q0 (ms_meta a)" "data_ok (ms_data a)"
  shows "\<exists>bs. codes put_Message (get_Message q0) a bs"
proof -
  obtain b1 where 1: "codes put_Meta (get_Meta q0) (ms_meta a) b1" using Meta.has_code assms by blast
  obtain b2 where 2: "codes put_data get_data (ms_data a) b2" using data.has_code assms by blast
  obtain b3 where 3: "codes put_u64 get_u64 (ms_max_data_size a) b3" using codes_u64 by blast
  obtain b4 where 4: "codes put_u64 get_u64 (ms_data_size a) b4" using codes_u64 by blast
  show ?thesis
    by (intro exI [of _ "b1 @ b2 @ b3 @ b4"] codesI)
      (simp_all add: put_Message_def get_Message_def codesD [OF 1] codesD [OF 2] codesD [OF 3] codesD [OF 4])
qed

interpretation message_codec: codec put_Message "get_Message q0" "\<lambda>a. meta_ok q0 (ms_meta a) \<and> data_ok (ms_data a)" for q0
  by unfold_locales (blast intro: codes_Message)

end
