(* ===== verification/Message_Props.thy ===== *)
theory Message_Props
  imports Message_Codec "HOL-Library.Multiset"
begin

text \<open>
  Facts about messages: the splitting of data into messages keeps every value and respects the maximal size, the routing
  sends every value to the machine it is placed on, and the messages made for the next expert get a path that ends with
  their number.
\<close>

section \<open>Splitting data into messages\<close>

text \<open>The values of some data, each with its history; and the size a message has for its data.\<close>

definition flat :: "traverser list \<Rightarrow> (history_t \<times> value_t) list" where
  "flat d = concat (map (\<lambda>(h, vs). map (Pair h) vs) d)"

definition sized :: "message \<Rightarrow> bool" where
  "sized msg \<longleftrightarrow> ms_data_size msg = of_nat (MemSize_data (ms_data msg))"

lemma flat_simps [simp]: "flat [] = []" "flat ((h, vs) # d) = map (Pair h) vs @ flat d" "flat (d @ e) = flat d @ flat e"
  by (simp_all add: flat_def)

lemma MemSize_data_simps [simp]:
  "MemSize_data [] = 8"
  "MemSize_data (d @ [(h, vs)]) = MemSize_data d + MemSize_history h + 8 + sum_list (map MemSize_value vs)"
  by (simp_all add: MemSize_data_def MemSize_vector_def)

lemma MemSize_value_ge: "9 \<le> MemSize_value v"
  by (simp add: MemSize_value_def MemSize_vector_def)

lemma fit_values_eq:
  "fit_values space i vs = (r, n) \<Longrightarrow> n \<le> length vs \<and> r = i + of_nat (sum_list (map MemSize_value (take n vs))) \<and> (i \<le> space \<longrightarrow> r \<le> space)"
proof (induction space i vs arbitrary: r n rule: fit_values.induct)
  case (2 space i v vs)
  then show ?case by (auto simp: Let_def algebra_simps split: if_splits prod.splits)
qed auto

lemma new_Message_sized: "sized ((new_Message m)\<lparr>ms_max_data_size := k\<rparr>)"
  by (simp add: sized_def new_Message_def)

lemma InsertPair_cases:
  assumes "InsertPair msg (h, vs) = (ok, p', msg')"
  obtains (empty) "vs = []" "ok" "p' = (h, [])"
      "msg' = msg\<lparr>ms_data := ms_data msg @ [(h, [])], ms_data_size := ms_data_size msg + of_nat (MemSize_history h + 8)\<rparr>"
    | (full) "vs \<noteq> []" "\<not> ok" "p' = (h, vs)" "msg' = msg"
    | (part) n where "n \<le> length vs" "0 < n" "ok \<longleftrightarrow> drop n vs = []" "p' = (h, drop n vs)"
      "msg' = msg\<lparr>ms_data := ms_data msg @ [(h, take n vs)], ms_data_size := ms_data_size msg +
         of_nat (MemSize_history h + 8 + sum_list (map MemSize_value (take n vs)))\<rparr>"
      "of_nat (MemSize_history h + 8 + sum_list (map MemSize_value (take n vs))) \<le> ms_max_data_size msg - ms_data_size msg"
proof -
  obtain r n where f: "fit_values (ms_max_data_size msg - ms_data_size msg) (of_nat (MemSize_history h) + 8) vs = (r, n)"
    by fastforce
  note e = fit_values_eq [OF f]
  note d = InsertPair_def [of msg "(h, vs)", simplified Let_def fst_conv snd_conv f prod.case] assms
  consider "vs = []" | "vs \<noteq> []" "ms_max_data_size msg - ms_data_size msg \<le> of_nat (MemSize_history h) + 8"
    | "vs \<noteq> []" "r = of_nat (MemSize_history h) + 8"
    | "vs \<noteq> []" "\<not> ms_max_data_size msg - ms_data_size msg \<le> of_nat (MemSize_history h) + 8" "r \<noteq> of_nat (MemSize_history h) + 8"
    by blast
  then show ?thesis
  proof cases
    case 1
    then show ?thesis using d by (intro empty) auto
  next
    case 2
    then show ?thesis using d by (intro full) auto
  next
    case 3
    then show ?thesis using d by (intro full) (auto split: if_splits)
  next
    case 4
    moreover have "0 < n" using e 4(3) by (cases n) auto
    moreover have "r = of_nat (MemSize_history h + 8 + sum_list (map MemSize_value (take n vs)))" using e by simp
    moreover have "(ok, p', msg') = (drop n vs = [], (h, drop n vs), msg\<lparr>ms_data := ms_data msg @ [(h, take n vs)],
      ms_data_size := ms_data_size msg + r\<rparr>)" using d 4 by simp
    moreover have "r \<le> ms_max_data_size msg - ms_data_size msg" using e 4(2) by (meson linear)
    ultimately show ?thesis using e by (intro part [of n]) (simp_all only: prod.inject)
  qed
qed

lemma InsertPair_flat:
  assumes "InsertPair msg (h, vs) = (ok, p', msg')"
  obtains vs' where "p' = (h, vs')" "ok \<longleftrightarrow> vs' = []"
    "flat (ms_data msg') @ map (Pair h) vs' = flat (ms_data msg) @ map (Pair h) vs"
    "ms_max_data_size msg' = ms_max_data_size msg" "ms_meta msg' = ms_meta msg" "sized msg \<Longrightarrow> sized msg'"
    "\<exists>n. vs' = drop n vs"
  using assms
proof (cases rule: InsertPair_cases)
  case empty
  then show ?thesis by (intro that [of "[]"]) (auto simp: sized_def)
next
  case full
  then show ?thesis by (intro that [of vs]) (auto intro: exI [of _ 0])
next
  case (part n)
  have "map (Pair h) (take n vs) @ map (Pair h) (drop n vs) = map (Pair h) vs"
    by (metis append_take_drop_id map_append)
  then show ?thesis using part by (intro that [of "drop n vs"]) (auto simp: sized_def)
qed

lemma InsertData_flat:
  "InsertData ps msg = (rest, msg') \<Longrightarrow>
   flat (ms_data msg') @ flat rest = flat (ms_data msg) @ flat ps \<and> ms_max_data_size msg' = ms_max_data_size msg \<and>
   ms_meta msg' = ms_meta msg \<and> (sized msg \<longrightarrow> sized msg')"
proof (induction ps msg arbitrary: rest msg' rule: InsertData.induct)
  case (2 p ps msg)
  obtain h vs where p: "p = (h, vs)" by fastforce
  obtain ok p' msg1 where i: "InsertPair msg (h, vs) = (ok, p', msg1)" by (metis prod_cases3)
  obtain vs' where v: "p' = (h, vs')" "ok \<longleftrightarrow> vs' = []"
    "flat (ms_data msg1) @ map (Pair h) vs' = flat (ms_data msg) @ map (Pair h) vs"
    "ms_max_data_size msg1 = ms_max_data_size msg" "ms_meta msg1 = ms_meta msg" "sized msg \<Longrightarrow> sized msg1"
    by (rule InsertPair_flat [OF i]) blast
  show ?case
  proof (cases ok)
    case True
    then have "InsertData ps msg1 = (rest, msg')" using 2(2) i p by simp
    from 2(1) [OF i [folded p, symmetric] refl refl True this] show ?thesis using v True p by simp
  next
    case False
    then have "rest = p' # ps" "msg' = msg1" using 2(2) i p by simp_all
    then show ?thesis using v p by (simp flip: append_assoc)
  qed
qed simp

text \<open>
  \<open>within msg\<close>: the size a message has is that of its data and does not exceed the maximum. \<open>item_ok mx\<close>: each
  value of a pair fits with its history into a message of size \<open>mx\<close>. \<open>weight\<close> bounds the rounds data can take: one for
  each value, and one for a pair without values.
\<close>

definition within :: "message \<Rightarrow> bool" where
  "within msg \<longleftrightarrow> unat (ms_data_size msg) = MemSize_data (ms_data msg) \<and> MemSize_data (ms_data msg) \<le> unat (ms_max_data_size msg)"

definition pair_size :: "traverser \<Rightarrow> nat" where
  "pair_size p = MemSize_history (fst p) + 8 + sum_list (map MemSize_value (snd p))"

definition item_ok :: "u64 \<Rightarrow> traverser \<Rightarrow> bool" where
  "item_ok mx p \<longleftrightarrow> pair_size p < 2 ^ 64 \<and> (\<forall>v\<in>set (snd p). MemSize_history (fst p) + 16 + MemSize_value v \<le> unat mx)"

definition weight :: "traverser list \<Rightarrow> nat" where
  "weight ps = sum_list (map (\<lambda>p. max 1 (length (snd p))) ps)"

definition empties_of :: "traverser list \<Rightarrow> traverser list" where
  "empties_of ps = filter (\<lambda>p. snd p = []) ps"

lemma weight_simps [simp]: "weight [] = 0" "weight (p # ps) = max 1 (length (snd p)) + weight ps"
  by (simp_all add: weight_def)

lemma empties_of_simps [simp]: "empties_of [] = []" "empties_of (p # ps) = (if snd p = [] then [p] else []) @ empties_of ps"
  "empties_of (ps @ qs) = empties_of ps @ empties_of qs"
  by (simp_all add: empties_of_def)

lemma sum_take_le: "sum_list (map (f :: 'a \<Rightarrow> nat) (take n xs)) \<le> sum_list (map f xs)"
  by (metis append_take_drop_id le_add1 map_append sum_list_append)

lemma sum_drop_le: "sum_list (map (f :: 'a \<Rightarrow> nat) (drop n xs)) \<le> sum_list (map f xs)"
  by (metis append_take_drop_id le_add2 map_append sum_list_append)

lemma item_ok_drop: "item_ok mx (h, vs) \<Longrightarrow> item_ok mx (h, drop n vs)"
  using sum_drop_le [of MemSize_value n vs] by (auto simp: item_ok_def pair_size_def dest: in_set_dropD)

lemma InsertPair_within:
  assumes "InsertPair msg (h, vs) = (ok, p', msg')" "item_ok mx (h, vs)" "vs \<noteq> []" "within msg"
  shows "within msg'"
  using assms(1)
proof (cases rule: InsertPair_cases)
  case (part n)
  let ?k = "MemSize_history h + 8 + sum_list (map MemSize_value (take n vs))"
  have "?k < 2 ^ 64" using assms(2) sum_take_le [of MemSize_value n vs] by (simp add: item_ok_def pair_size_def)
  then have k: "unat (of_nat ?k :: u64) = ?k" by (intro unat_of_nat_less) simp
  have "ms_data_size msg \<le> ms_max_data_size msg" using assms(4) by (simp add: within_def word_le_nat_alt)
  then have "?k + unat (ms_data_size msg) \<le> unat (ms_max_data_size msg)"
    using part(6) k by (simp only: word_le_nat_alt unat_sub)
  moreover from this have "unat (ms_data_size msg + of_nat ?k) = unat (ms_data_size msg) + ?k"
    using k unat_less [of "ms_max_data_size msg"] by (simp only: unat_word_ariths(1)) simp
  ultimately show ?thesis using assms(4) part(5) by (simp add: within_def)
qed (use assms in auto)

lemma InsertData_within:
  "InsertData ps msg = (rest, msg') \<Longrightarrow> \<forall>p\<in>set ps. item_ok mx p \<Longrightarrow>
   (\<forall>p\<in>set rest. item_ok mx p) \<and>
   ((\<forall>p\<in>set ps. snd p \<noteq> []) \<longrightarrow> (\<forall>p\<in>set rest. snd p \<noteq> []) \<and> (within msg \<longrightarrow> within msg'))"
proof (induction ps msg arbitrary: rest msg' rule: InsertData.induct)
  case (2 p ps msg)
  obtain h vs where p: "p = (h, vs)" by fastforce
  obtain ok p' msg1 where i: "InsertPair msg (h, vs) = (ok, p', msg1)" by (metis prod_cases3)
  have it: "item_ok mx (h, vs)" using "2.prems"(2) p by simp
  note w = InsertPair_within [OF i it]
  show ?case
  proof (cases ok)
    case True
    then have "InsertData ps msg1 = (rest, msg')" using 2(2) i p by simp
    from 2(1) [OF i [folded p, symmetric] refl refl True this] show ?thesis using "2.prems"(2) w p by simp
  next
    case False
    obtain n where "p' = (h, drop n vs)" "drop n vs \<noteq> []" by (rule InsertPair_flat [OF i]) (use False in auto)
    moreover from this have "item_ok mx p'" using item_ok_drop it by simp
    moreover have "rest = p' # ps" "msg' = msg1" using 2(2) i p False by simp_all
    ultimately show ?thesis using w "2.prems"(2) p by auto
  qed
qed simp

lemma InsertData_empties:
  "InsertData ps msg = (rest, msg') \<Longrightarrow> empties_of (ms_data msg') @ empties_of rest = empties_of (ms_data msg) @ empties_of ps"
proof (induction ps msg arbitrary: rest msg' rule: InsertData.induct)
  case (2 p ps msg)
  obtain h vs where p: "p = (h, vs)" by fastforce
  obtain ok p' msg1 where i: "InsertPair msg (h, vs) = (ok, p', msg1)" by (metis prod_cases3)
  have e: "empties_of (ms_data msg1) = empties_of (ms_data msg) @ (if vs = [] then [(h, vs)] else []) \<and> (\<not> ok \<longrightarrow> snd p' \<noteq> [] \<and> vs \<noteq> [])"
    using i by (cases rule: InsertPair_cases) auto
  show ?case
  proof (cases ok)
    case True
    then have "InsertData ps msg1 = (rest, msg')" using 2(2) i p by simp
    from 2(1) [OF i [folded p, symmetric] refl refl True this] show ?thesis using e p by auto
  next
    case False
    then show ?thesis using 2(2) i p e by auto
  qed
qed simp

abbreviation fresh :: "u64 \<Rightarrow> meta \<Rightarrow> message" where
  "fresh mx m \<equiv> (new_Message m)\<lparr>ms_max_data_size := mx\<rparr>"

lemma fresh_within: "16 \<le> unat mx \<Longrightarrow> within (fresh mx m)"
  by (simp add: within_def new_Message_def)

lemma InsertPair_fresh_takes:
  assumes "InsertPair (fresh mx m) (h, vs) = (ok, p', msg')" "item_ok mx (h, vs)" "vs \<noteq> []"
  shows "length (snd p') < length vs"
proof -
  obtain v vs' where vs: "vs = v # vs'" using assms(3) by (cases vs) auto
  let ?H = "MemSize_history h" and ?s = "MemSize_value v"
  have b: "?H + 8 + ?s + sum_list (map MemSize_value vs') < 2 ^ 64" "?H + 16 + ?s \<le> unat mx" "9 \<le> ?s"
    using assms(2) MemSize_value_ge by (auto simp: item_ok_def pair_size_def vs)
  then have u: "unat (of_nat (?H + 8) :: u64) = ?H + 8" "unat (of_nat (?s + (?H + 8)) :: u64) = ?s + (?H + 8)"
    by (intro unat_of_nat_less; simp)+
  have sp: "unat (mx - 8) = unat mx - 8" using b by (subst unat_sub) (auto simp: word_le_nat_alt)
  have 1: "\<not> mx - 8 \<le> of_nat ?H + 8" using b u(1) sp by (simp add: word_le_nat_alt)
  have 2: "of_nat ?s + (of_nat ?H + 8) \<le> mx - 8" using b u(2) sp by (simp add: word_le_nat_alt)
  obtain r n where f: "fit_values (mx - 8) (of_nat ?H + 8) vs = (r, n)" by fastforce
  have n: "0 < n" using f 2 by (auto simp: vs Let_def split: prod.splits)
  let ?S = "sum_list (map MemSize_value (take n vs))"
  have "0 < ?S" using n b(3) by (cases n) (simp_all add: vs)
  moreover have "?S \<le> sum_list (map MemSize_value vs)" by (rule sum_take_le)
  moreover have "sum_list (map MemSize_value vs) < 2 ^ 64" using b(1) by (simp add: vs)
  ultimately have "0 < ?S" "?S < 2 ^ LENGTH(64)" by simp_all
  then have "(of_nat ?S :: u64) \<noteq> 0" by (metis unat_0 unat_of_nat_less less_irrefl)
  then have "r \<noteq> of_nat ?H + 8" using fit_values_eq [OF f] by simp
  then have "p' = (h, drop n vs)" using assms(1) 1 f by (auto simp: InsertPair_def Let_def new_Message_def vs)
  then show ?thesis using n by (simp add: vs)
qed

lemma InsertData_weight: "InsertData ps msg = (rest, msg') \<Longrightarrow> weight rest \<le> weight ps"
proof (induction ps msg arbitrary: rest msg' rule: InsertData.induct)
  case (2 p ps msg)
  obtain h vs where p: "p = (h, vs)" by fastforce
  obtain ok p' msg1 where i: "InsertPair msg (h, vs) = (ok, p', msg1)" by (metis prod_cases3)
  obtain vs' where v: "p' = (h, vs')" "\<exists>n. vs' = drop n vs" by (rule InsertPair_flat [OF i]) blast
  show ?case
  proof (cases ok)
    case True
    then have "InsertData ps msg1 = (rest, msg')" using 2(2) i p by simp
    from 2(1) [OF i [folded p, symmetric] refl refl True this] show ?thesis using p by simp
  next
    case False
    then show ?thesis using 2(2) i p v by auto
  qed
qed simp

lemma InsertData_fresh_takes:
  assumes "InsertData ps (fresh mx m) = (rest, msg')" "ps \<noteq> []" "\<forall>p\<in>set ps. item_ok mx p"
  shows "weight rest < weight ps"
proof -
  obtain h vs qs where ps: "ps = (h, vs) # qs" using assms(2) by (cases ps) auto
  obtain ok p' msg1 where i: "InsertPair (fresh mx m) (h, vs) = (ok, p', msg1)" by (metis prod_cases3)
  obtain vs' where v: "p' = (h, vs')" "ok \<longleftrightarrow> vs' = []" "\<exists>n. vs' = drop n vs" by (rule InsertPair_flat [OF i]) blast
  show ?thesis
  proof (cases ok)
    case True
    then have "InsertData qs msg1 = (rest, msg')" using assms(1) i ps by simp
    from InsertData_weight [OF this] show ?thesis using ps by simp
  next
    case False
    then have "length (snd p') < length vs"
      using v by (intro InsertPair_fresh_takes [OF i]) (use assms(3) ps in auto)
    then have "length vs' < length vs" "vs' \<noteq> []" using v(1,2) False by simp_all
    moreover have "rest = (h, vs') # qs" using assms(1) i ps v(1) False by simp
    ultimately show ?thesis using ps by (cases vs') auto
  qed
qed

lemma fill_messages_ok:
  assumes "affinity_ok ca" "0 < ca_global_num_threads ca" "ca_counter ca + int (weight items) < 2 ^ 31 - 1"
    and "16 \<le> unat mx" "\<forall>p\<in>set items. item_ok mx p"
  shows "\<exists>ms ca'. fill_messages mx ty m items ca = Some (ms, ca') \<and> flat (concat (map ms_data ms)) = flat items \<and>
    empties_of (concat (map ms_data ms)) = empties_of items \<and>
    ((\<forall>p\<in>set items. snd p \<noteq> []) \<longrightarrow> (\<forall>msg\<in>set ms. within msg \<and> ms_max_data_size msg = mx))"
  using assms
proof (induction "weight items" arbitrary: items ca rule: less_induct)
  case less
  obtain tid ca1 where g: "GetThreadIdForExpert ty ca = Some (tid, ca1)" "affinity_ok ca1" "0 \<le> tid" "tid < ca_global_num_threads ca"
    "ca_counter ca1 \<le> ca_counter ca + 1" "ca_global_num_threads ca1 = ca_global_num_threads ca"
    using GetThreadIdForExpert_ok [OF less.prems(1), of ty] less.prems(2,3) by auto
  let ?m = "m\<lparr>mt_recver_tid := tid\<rparr>"
  obtain rest msg where i: "InsertData items (fresh mx ?m) = (rest, msg)" by fastforce
  note fl = InsertData_flat [OF i] and wi = InsertData_within [OF i less.prems(5)] and em = InsertData_empties [OF i]
  have msg: "ms_max_data_size msg = mx" "flat (ms_data msg) @ flat rest = flat items"
    "empties_of (ms_data msg) @ empties_of rest = empties_of items"
    "\<forall>p\<in>set items. snd p \<noteq> [] \<Longrightarrow> within msg"
    using fl wi em fresh_within [OF less.prems(4)] by (simp_all add: new_Message_def)
  show ?case
  proof (cases "rest = []")
    case True
    then show ?thesis using g msg i by (subst fill_messages.simps) auto
  next
    case False
    then have "items \<noteq> []" using i by auto
    then have l: "weight rest < weight items" by (rule InsertData_fresh_takes [OF i _ less.prems(5)])
    obtain ms ca' where r: "fill_messages mx ty m rest ca1 = Some (ms, ca')"
      "flat (concat (map ms_data ms)) = flat rest" "empties_of (concat (map ms_data ms)) = empties_of rest"
      "(\<forall>p\<in>set rest. snd p \<noteq> []) \<longrightarrow> (\<forall>msg\<in>set ms. within msg \<and> ms_max_data_size msg = mx)"
      using less.hyps [OF l g(2)] less.prems g wi l by auto
    then show ?thesis using g msg i l False wi by (subst fill_messages.simps) auto
  qed
qed

text \<open>A value that does not fit into an empty message keeps the loop going for ever.\<close>

lemma InsertData_stuck:
  assumes "unat mx < MemSize_history h + 16 + MemSize_value v" "pair_size (h, v # vs) < 2 ^ 63" "16 \<le> unat mx"
  shows "InsertData ((h, v # vs) # ps) (fresh mx m) = ((h, v # vs) # ps, fresh mx m)"
proof -
  let ?H = "MemSize_history h" and ?s = "MemSize_value v"
  have b: "?H + 8 + ?s < 2 ^ 63" "9 \<le> ?s" using assms(2) MemSize_value_ge by (auto simp: pair_size_def)
  then have u: "unat (of_nat (?H + 8) :: u64) = ?H + 8" "unat (of_nat (?s + (?H + 8)) :: u64) = ?s + (?H + 8)"
    by (intro unat_of_nat_less; simp)+
  have sp: "unat (mx - 8) = unat mx - 8" using assms(3) by (subst unat_sub) (auto simp: word_le_nat_alt)
  have "\<not> of_nat ?s + (of_nat ?H + 8) \<le> mx - 8" using b u(2) sp assms(1) by (simp add: word_le_nat_alt)
  then show ?thesis by (simp add: InsertPair_def Let_def new_Message_def)
qed

lemma get_core_id_by_expert_division:
  "get_core_id_by_expert t ca = Some (c, ca') \<Longrightarrow> ca_enable_division ca' = ca_enable_division ca"
  by (auto simp: get_core_id_by_expert_def Let_def bind_eq_Some_conv split: if_splits)

lemma GetThreadIdForExpert_possible:
  assumes "affinity_ok ca" "0 < ca_global_num_threads ca" "ca_enable_division ca \<or> ca_counter ca < 2 ^ 31 - 1"
  shows "\<exists>tid ca'. GetThreadIdForExpert ty ca = Some (tid, ca') \<and> affinity_ok ca' \<and>
    ca_global_num_threads ca' = ca_global_num_threads ca \<and> ca_enable_division ca' = ca_enable_division ca \<and>
    ca_counter ca' \<le> ca_counter ca + 1"
proof (cases "ca_enable_division ca")
  case True
  obtain c ca' where "get_core_id_by_expert ty ca = Some (c, ca')" "affinity_ok ca'" "ca_global_num_threads ca' = ca_global_num_threads ca"
    "ca_counter ca' = ca_counter ca" using get_core_id_by_expert_ok [OF assms(1), of ty] by blast
  moreover from this(1) have "ca_enable_division ca' = ca_enable_division ca" by (rule get_core_id_by_expert_division)
  ultimately show ?thesis using True by (simp add: GetThreadIdForExpert_def)
next
  case False
  then show ?thesis using assms by (auto simp: GetThreadIdForExpert_def affinity_ok_def CHECK_def Let_def)
qed

lemma fill_rounds_stuck:
  assumes "unat mx < MemSize_history h + 16 + MemSize_value v" "pair_size (h, v # vs) < 2 ^ 63" "16 \<le> unat mx"
  shows "affinity_ok ca \<Longrightarrow> 0 < ca_global_num_threads ca \<Longrightarrow> ca_enable_division ca \<or> ca_counter ca + int k < 2 ^ 31 \<Longrightarrow>
    \<exists>ms ca'. fill_rounds k mx ty m ((h, v # vs) # ps) ca = Some (ms, (h, v # vs) # ps, ca') \<and> length ms = k \<and>
      (\<forall>msg\<in>set ms. ms_data msg = [])"
proof (induction k arbitrary: ca)
  case (Suc k)
  obtain tid ca1 where g: "GetThreadIdForExpert ty ca = Some (tid, ca1)" "affinity_ok ca1" "0 < ca_global_num_threads ca1"
    "ca_enable_division ca1 \<or> ca_counter ca1 + int k < 2 ^ 31"
    using GetThreadIdForExpert_possible [OF Suc.prems(1,2), of ty] Suc.prems(2,3) by auto
  from Suc.IH [OF g(2-4)] obtain ms ca' where "fill_rounds k mx ty m ((h, v # vs) # ps) ca1 = Some (ms, (h, v # vs) # ps, ca')"
    "length ms = k" "\<forall>msg\<in>set ms. ms_data msg = []" by blast
  then show ?case using g(1) InsertData_stuck [OF assms] by (auto simp: new_Message_def simp del: InsertData.simps)
qed simp

lemma fill_messages_stuck:
  assumes "unat mx < MemSize_history h + 16 + MemSize_value v" "pair_size (h, v # vs) < 2 ^ 63" "16 \<le> unat mx"
  shows "fill_messages mx ty m ((h, v # vs) # ps) ca = None"
proof -
  let ?P = "\<lambda>mx' ty m items ca r. mx' = mx \<longrightarrow> items = (h, v # vs) # ps \<longrightarrow> False"
  have "?P mx ty m ((h, v # vs) # ps) ca r" if "fill_messages mx ty m ((h, v # vs) # ps) ca = Some r" for r
    by (rule fill_messages.raw_induct [where P = ?P, OF _ that])
      (auto simp: Option.bind_eq_Some_conv InsertData_stuck [OF assms] simp del: InsertData.simps, blast)
  then show ?thesis by (cases "fill_messages mx ty m ((h, v # vs) # ps) ca") auto
qed

section \<open>Routing of data\<close>

text \<open>The machines a value is sent to.\<close>

definition nodes_of :: "int \<Rightarrow> bool \<Rightarrow> value_t \<Rightarrow> int list" where
  "nodes_of sz both v =
     (let src = the (GetNodeId sz v False); dst = the (GetNodeId sz v True)
      in if both then (if src \<noteq> dst then [dst, src] else [dst]) else (if src \<noteq> -1 then [src] else []))"

definition addressed :: "(int \<times> 'a list) list \<Rightarrow> (int \<times> 'a) list" where
  "addressed m = concat (map (\<lambda>(n, l). map (Pair n) l) m)"

definition copies :: "int \<Rightarrow> bool \<Rightarrow> (history_t \<times> value_t) list \<Rightarrow> (int \<times> history_t \<times> value_t) list" where
  "copies sz both l = concat (map (\<lambda>(h, v). map (\<lambda>n. (n, h, v)) (nodes_of sz both v)) l)"

definition sent :: "(int \<times> traverser list) list \<Rightarrow> (int \<times> history_t \<times> value_t) list" where
  "sent m = addressed (map (\<lambda>(n, d). (n, flat d)) m)"

lemma addressed_simps [simp]: "addressed [] = []" "addressed ((n, l) # m) = map (Pair n) l @ addressed m"
  by (simp_all add: addressed_def)

lemma copies_simps [simp]: "copies sz both [] = []"
  "copies sz both ((h, v) # l) = map (\<lambda>n. (n, h, v)) (nodes_of sz both v) @ copies sz both l"
  "copies sz both (l @ k) = copies sz both l @ copies sz both k"
  by (simp_all add: copies_def)

lemma sent_simps [simp]: "sent [] = []" "sent ((n, d) # m) = map (Pair n) (flat d) @ sent m"
  by (simp_all add: sent_def)

lemma map_push_addressed: "mset (addressed (map_push k x m)) = add_mset (k, x) (mset (addressed m))"
  by (induction k x m rule: map_push.induct) auto

lemma map_push_sent: "mset (sent (map_push k d m)) = mset (map (Pair k) (flat [d])) + mset (sent m)"
  by (induction k d m rule: map_push.induct) (auto simp: flat_def)

lemma route_values_addressed:
  "route_values sz both vs m = Some m' \<Longrightarrow>
   mset (addressed m') = mset (addressed m) + mset (concat (map (\<lambda>v. map (\<lambda>n. (n, v)) (nodes_of sz both v)) vs))"
proof (induction sz both vs m rule: route_values.induct)
  case (2 sz both v vs m)
  then show ?case
    by (auto simp: Option.bind_eq_Some_conv map_push_addressed nodes_of_def Let_def split: if_splits)
qed simp

lemma fold_push_sent:
  "mset (sent (fold (\<lambda>(n, l). map_push n (h, l)) m id2data)) =
   mset (sent id2data) + mset (map (\<lambda>(n, v). (n, h, v)) (addressed m))"
  by (induction m arbitrary: id2data) (auto simp: map_push_sent ac_simps comp_def multiset.map_comp)

lemma copies_one: "copies sz both (map (Pair h) vs) =
    map (\<lambda>(n, v). (n, h, v)) (concat (map (\<lambda>v. map (\<lambda>n. (n, v)) (nodes_of sz both v)) vs))"
  by (induction vs) (simp_all add: comp_def)

lemma route_data_sent:
  "route_data sz both e ps (id2data, eh) = Some (id2data', eh') \<Longrightarrow> flat eh = [] \<Longrightarrow>
   mset (sent id2data') = mset (sent id2data) + mset (copies sz both (flat ps)) \<and> flat eh' = []"
proof (induction sz both e ps "(id2data, eh)" arbitrary: id2data eh rule: route_data.induct)
  case (2 sz both e h vs ps id2data eh)
  show ?case
  proof (cases "vs = []")
    case True
    then show ?thesis using 2 by (auto split: if_splits)
  next
    case False
    then obtain m where m: "route_values sz both vs [] = Some m"
      "route_data sz both e ps (fold (\<lambda>(n, l). map_push n (h, l)) m id2data, eh) = Some (id2data', eh')"
      using "2.prems" by (auto simp: Option.bind_eq_Some_conv)
    show ?thesis
      using "2.hyps"(2) [OF False m "2.prems"(2)] route_values_addressed [OF m(1)]
      by (simp add: fold_push_sent copies_one mset_map)
  qed
qed simp

lemma local_data_sent:
  "local_data nid False e ps (id2data, eh) = (id2data', eh') \<Longrightarrow> flat eh = [] \<Longrightarrow>
   mset (sent id2data') = mset (sent id2data) + mset (map (Pair nid) (flat ps)) \<and> flat eh' = []"
proof (induction nid False e ps "(id2data, eh)" arbitrary: id2data eh rule: local_data.induct)
  case (2 nid e h vs ps id2data eh)
  then show ?case by (cases "vs = []") (auto simp: map_push_sent ac_simps split: if_splits)
qed simp

definition delivered :: "message list \<Rightarrow> (int \<times> history_t \<times> value_t) list" where
  "delivered ms = concat (map (\<lambda>msg. map (Pair (mt_recver_nid (ms_meta msg))) (flat (ms_data msg))) ms)"

lemma delivered_append [simp]: "delivered (ms @ ms') = delivered ms @ delivered ms'"
  by (simp add: delivered_def)

lemma delivered_same:
  "\<forall>msg\<in>set ms. mt_recver_nid (ms_meta msg) = n \<Longrightarrow> delivered ms = map (Pair n) (flat (concat (map ms_data ms)))"
  by (induction ms) (simp_all add: delivered_def)

lemma fill_messages_delivers:
  assumes "fill_messages mx ty m items ca = Some (ms, ca')"
  shows "flat (concat (map ms_data ms)) = flat items \<and> ms \<noteq> [] \<and> (\<forall>msg\<in>set ms. \<exists>tid. ms_meta msg = m\<lparr>mt_recver_tid := tid\<rparr>)"
proof -
  let ?P = "\<lambda>mx ty m items ca (ms, ca'). flat (concat (map ms_data ms)) = flat items \<and> ms \<noteq> [] \<and>
    (\<forall>msg\<in>set ms. \<exists>tid. ms_meta msg = m\<lparr>mt_recver_tid := tid\<rparr>)"
  have "?P mx ty m items ca (ms, ca')"
  proof (rule fill_messages.raw_induct [where P = ?P, OF _ assms], goal_cases)
    case (1 f mx ty m items ca r)
    obtain tid ca1 where g: "GetThreadIdForExpert ty ca = Some (tid, ca1)" using 1(2) by (auto simp: Option.bind_eq_Some_conv)
    obtain rest msg where i: "InsertData items (fresh mx (m\<lparr>mt_recver_tid := tid\<rparr>)) = (rest, msg)" by fastforce
    note fl = InsertData_flat [OF i]
    show ?case
    proof (cases "rest = []")
      case True
      then have "r = ([msg], ca1)" using 1(2) g i by simp
      then show ?thesis using fl True by (auto simp: new_Message_def)
    next
      case False
      then obtain ms2 ca2 where r: "f mx ty m rest ca1 = Some (ms2, ca2)" "r = (msg # ms2, ca2)"
        using 1(2) g i by (auto simp: Option.bind_eq_Some_conv)
      show ?thesis using 1(1) [OF r(1)] fl r(2) by (auto simp: new_Message_def)
    qed
  qed
  then show ?thesis by simp
qed

lemma fill_messages_delivered:
  assumes "fill_messages mx ty m items ca = Some (ms, ca')"
  shows "delivered ms = map (Pair (mt_recver_nid m)) (flat items)"
  using fill_messages_delivers [OF assms] by (subst delivered_same [of ms "mt_recver_nid m"]) auto

lemma fill_nodes_delivered:
  "fill_nodes mx ty m l ca = Some (ms, ca') \<Longrightarrow>
   delivered ms = sent l \<and> (l \<noteq> [] \<longrightarrow> ms \<noteq> []) \<and> (\<forall>msg\<in>set ms. \<exists>nid tid. ms_meta msg = m\<lparr>mt_recver_nid := nid, mt_recver_tid := tid\<rparr>)"
proof (induction mx ty m l ca arbitrary: ms ca' rule: fill_nodes.induct)
  case (2 mx ty m nid items l ca)
  then obtain ms1 ca1 ms2 where f: "fill_messages mx ty (m\<lparr>mt_recver_nid := nid\<rparr>) items ca = Some (ms1, ca1)"
    "fill_nodes mx ty m l ca1 = Some (ms2, ca')" "ms = ms1 @ ms2" by (auto simp: Option.bind_eq_Some_conv)
  show ?case using "2.IH" [OF f(1) refl f(2)] fill_messages_delivers [OF f(1)] fill_messages_delivered [OF f(1)] f(3) by (auto; blast)
qed (simp add: delivered_def)

lemma local_data_empty:
  "local_data nid c e ps (id2data, eh) = (id2data', eh') \<Longrightarrow> flat eh = [] \<Longrightarrow> flat eh' = []"
  by (induction nid c e ps "(id2data, eh)" arbitrary: id2data eh rule: local_data.induct) (auto split: if_splits)

lemma gather_data_sent:
  assumes "gather_data sz remote both is_count e nid data = Some (id2data, eh)"
  shows "remote \<Longrightarrow> mset (sent id2data) = mset (copies sz both (flat data))"
    and "\<not> remote \<Longrightarrow> \<not> is_count \<Longrightarrow> mset (sent id2data) = mset (map (Pair nid) (flat data))"
    and "flat eh = []" and "id2data \<noteq> [] \<or> eh \<noteq> []"
proof -
  obtain i1 e1 where r: "(if remote then route_data sz both e data ([], []) else Some (local_data nid is_count e data ([], []))) = Some (i1, e1)"
    "id2data = i1" "eh = (if i1 = [] \<and> e1 = [] then [([], [])] else e1)"
    using assms by (auto simp: gather_data_def Option.bind_eq_Some_conv)
  show "remote \<Longrightarrow> mset (sent id2data) = mset (copies sz both (flat data))"
    using r route_data_sent [of sz both e data "[]" "[]" i1 e1] by simp
  show "\<not> remote \<Longrightarrow> \<not> is_count \<Longrightarrow> mset (sent id2data) = mset (map (Pair nid) (flat data))"
    using r local_data_sent [of nid e data "[]" "[]" i1 e1] by simp
  have "flat e1 = []"
  proof (cases remote)
    case True
    then show ?thesis using r route_data_sent [of sz both e data "[]" "[]" i1 e1] by simp
  next
    case False
    then show ?thesis using r local_data_empty [of nid is_count e data "[]" "[]" i1 e1] by simp
  qed
  then show "flat eh = []" "id2data \<noteq> [] \<or> eh \<noteq> []" using r by auto
qed

section \<open>Routes and paths\<close>

lemma UpdateRoute_path: "UpdateRoute cur experts m = Some (b, m') \<Longrightarrow> mt_msg_path m' = mt_msg_path m \<and> mt_qid m' = mt_qid m"
proof (induction cur experts m arbitrary: b m' rule: UpdateRoute.induct)
  case (1 cur experts m)
  from "1.prems" show ?case
    by (subst (asm) UpdateRoute.simps) (auto split: option.splits if_splits dest: "1.IH")
qed

lemma collection_loop_path:
  assumes "collection_loop cur experts m = Some (b, m')"
  shows "mt_msg_path m' = mt_msg_path m \<and> mt_qid m' = mt_qid m"
proof -
  let ?P = "\<lambda>cur experts m (b, m'). mt_msg_path m' = mt_msg_path m \<and> mt_qid m' = mt_qid m"
  have "?P cur experts m (b, m')"
    by (rule collection_loop.raw_induct [where P = ?P, OF _ assms]) (fastforce split: option.splits if_splits)
  then show ?thesis by simp
qed

lemma UpdateCollectionRoute_path:
  "UpdateCollectionRoute cur experts m = Some (b, m') \<Longrightarrow> mt_msg_path m' = mt_msg_path m \<and> mt_qid m' = mt_qid m"
  by (auto simp: UpdateCollectionRoute_def Option.bind_eq_Some_conv dest!: collection_loop_path UpdateRoute_path)

lemma DispatchData_cases:
  assumes "DispatchData sz this m experts data ca = Some (ms, ca')"
  obtains ra rm e cm ic ex both data' remote id2data eh ms1 ms2 ca1
  where "UpdateRoute (mt_step (ms_meta this)) experts m = Some (ra, rm)"
    "UpdateCollectionRoute (mt_step (ms_meta this)) experts m = Some (e, cm)"
    "is_counted experts (mt_step rm) = Some ic" "expert_at experts (mt_step rm) = Some ex"
    "edge_data ex data = Some (both, data')"
    "(if ra then Some False else do { e \<leftarrow> expert_at experts (mt_step (ms_meta this)); Some (ex_send_remote e) }) = Some remote"
    "gather_data sz (remote \<or> both) both ic e (mt_recver_nid rm) data' = Some (id2data, eh)"
    "fill_nodes (ms_max_data_size this) (ex_type ex) rm id2data ca = Some (ms1, ca1)" "ms = ms1 @ ms2"
    "if eh = [] then ms2 = [] else \<exists>cex. expert_at experts (mt_step cm) = Some cex \<and>
       fill_messages (ms_max_data_size this) (ex_type cex) cm eh ca1 = Some (ms2, ca')"
proof -
  let ?cur = "mt_step (ms_meta this)" and ?mx = "ms_max_data_size this"
  obtain ra rm where 1: "UpdateRoute ?cur experts m = Some (ra, rm)"
    using assms by (auto simp: DispatchData_def Let_def Option.bind_eq_Some_conv)
  obtain e cm where 2: "UpdateCollectionRoute ?cur experts m = Some (e, cm)"
    using assms 1 by (auto simp: DispatchData_def Let_def Option.bind_eq_Some_conv)
  obtain ic ex where 3: "is_counted experts (mt_step rm) = Some ic" "expert_at experts (mt_step rm) = Some ex"
    using assms 1 2 by (auto simp: DispatchData_def Let_def Option.bind_eq_Some_conv)
  obtain both data' where 4: "edge_data ex data = Some (both, data')"
    using assms 1 2 3 by (auto simp: DispatchData_def Let_def Option.bind_eq_Some_conv)
  let ?r = "if ra then Some False else do { e \<leftarrow> expert_at experts ?cur; Some (ex_send_remote e) }"
  obtain remote where 5: "?r = Some remote"
    using assms 1 2 3 4 by (cases ?r) (auto simp: DispatchData_def Let_def)
  obtain id2data eh where 6: "gather_data sz (remote \<or> both) both ic e (mt_recver_nid rm) data' = Some (id2data, eh)"
    using assms 1 2 3 4 5 by (auto simp: DispatchData_def Let_def Option.bind_eq_Some_conv [of _ _ "(ms, ca')"])
  obtain ms1 ca1 where 7: "fill_nodes ?mx (ex_type ex) rm id2data ca = Some (ms1, ca1)"
    using assms 1 2 3 4 5 6 by (auto simp: DispatchData_def Let_def Option.bind_eq_Some_conv [of _ _ "(ms, ca')"])
  have 8: "(if eh = [] then Some (ms1, ca1) else do { cex \<leftarrow> expert_at experts (mt_step cm);
      (ms', ca) \<leftarrow> fill_messages ?mx (ex_type cex) cm eh ca1; Some (ms1 @ ms', ca) }) = Some (ms, ca')"
    using assms 1 2 3 4 5 6 7 by (simp add: DispatchData_def Let_def)
  show ?thesis
  proof (cases "eh = []")
    case True
    then show ?thesis using 8 by (intro that [OF 1 2 3 4 5 6 7, of "[]"]) auto
  next
    case False
    then obtain cex ms2 where "expert_at experts (mt_step cm) = Some cex"
      "fill_messages ?mx (ex_type cex) cm eh ca1 = Some (ms2, ca')" "ms = ms1 @ ms2"
      using 8 by (auto simp: Option.bind_eq_Some_conv)
    then show ?thesis using False by (intro that [OF 1 2 3 4 5 6 7, of ms2]) auto
  qed
qed

lemma DispatchData_paths:
  assumes "DispatchData sz this m experts data ca = Some (ms, ca')"
  shows "ms \<noteq> [] \<and> (\<forall>msg\<in>set ms. mt_msg_path (ms_meta msg) = mt_msg_path m \<and> mt_qid (ms_meta msg) = mt_qid m)"
  using assms
proof (cases rule: DispatchData_cases)
  case (1 ra rm e cm ic ex both data' remote id2data eh ms1 ms2 ca1)
  note g = gather_data_sent(4) [OF 1(7)] and f = fill_nodes_delivered [OF 1(8)]
    and p = UpdateRoute_path [OF 1(1)] UpdateCollectionRoute_path [OF 1(2)]
  have "\<forall>msg\<in>set ms1. mt_msg_path (ms_meta msg) = mt_msg_path m \<and> mt_qid (ms_meta msg) = mt_qid m"
    using f p(1) by fastforce
  moreover have "eh \<noteq> [] \<Longrightarrow> ms2 \<noteq> [] \<and> (\<forall>msg\<in>set ms2. mt_msg_path (ms_meta msg) = mt_msg_path m \<and> mt_qid (ms_meta msg) = mt_qid m)"
    using 1(10) p(2) by (fastforce dest: fill_messages_delivers)
  ultimately show ?thesis using f g 1(9,10) by (cases "eh = []") auto
qed

lemma DispatchData_delivered:
  assumes "DispatchData sz this m experts data ca = Some (ms, ca')"
    and "UpdateRoute (mt_step (ms_meta this)) experts m = Some (ra, rm)" "expert_at experts (mt_step rm) = Some ex"
    and "edge_data ex data = Some (both, data')" "expert_at experts (mt_step (ms_meta this)) = Some this_ex"
  shows "\<not> ra \<and> ex_send_remote this_ex \<or> both \<Longrightarrow> mset (delivered ms) = mset (copies sz both (flat data'))"
    and "\<not> (\<not> ra \<and> ex_send_remote this_ex \<or> both) \<Longrightarrow> is_counted experts (mt_step rm) = Some False \<Longrightarrow>
      mset (delivered ms) = mset (map (Pair (mt_recver_nid rm)) (flat data'))"
  using assms(1)
proof (atomize(full), cases rule: DispatchData_cases)
  case (1 ra2 rm2 e cm ic ex2 both2 data2 remote id2data eh ms1 ms2 ca1)
  have s: "ra2 = ra" "rm2 = rm" "ex2 = ex" "both2 = both" "data2 = data'" "remote = (\<not> ra \<and> ex_send_remote this_ex)"
    using 1 assms by (auto split: if_splits)
  have "delivered ms2 = []"
    using 1(10) gather_data_sent(3) [OF 1(7)] by (auto simp: delivered_def [of "[]"] fill_messages_delivered split: if_splits)
  then have d: "delivered ms = sent id2data" using fill_nodes_delivered [OF 1(8)] 1(9) by simp
  show "(\<not> ra \<and> ex_send_remote this_ex \<or> both \<longrightarrow> mset (delivered ms) = mset (copies sz both (flat data'))) \<and>
    (\<not> (\<not> ra \<and> ex_send_remote this_ex \<or> both) \<longrightarrow> is_counted experts (mt_step rm) = Some False \<longrightarrow>
      mset (delivered ms) = mset (map (Pair (mt_recver_nid rm)) (flat data')))"
    unfolding d using gather_data_sent(1,2) [OF 1(7)] s 1(3) by auto
qed

text \<open>The numbers along the path of a message, separated by tabs.\<close>

fun path_str :: "nat list \<Rightarrow> string" where
  "path_str [] = []"
| "path_str [n] = nat_str n"
| "path_str (n # ns) = nat_str n @ TAB # path_str ns"

lemma path_str_snoc: "path_str (ns @ [n]) = path_str ns @ (if ns = [] then nat_str n else TAB # nat_str n)"
  by (induction ns rule: path_str.induct) auto

lemma nat_str_nonempty [simp]: "nat_str n \<noteq> []"
  by (subst nat_str.simps) simp

lemma path_str_empty [simp]: "path_str ns = [] \<longleftrightarrow> ns = []"
  by (cases ns rule: path_str.cases) auto

lemma CreateNextMsg_paths:
  assumes "CreateNextMsg sz this experts data ca = Some (ms, ca')" "mt_msg_path (ms_meta this) = path_str ns"
  shows "ms \<noteq> [] \<and> (\<forall>msg\<in>set ms. mt_msg_path (ms_meta msg) = path_str (ns @ [length ms]) \<and> mt_qid (ms_meta msg) = mt_qid (ms_meta this))"
proof -
  let ?p = "\<lambda>n. if mt_msg_path (ms_meta this) \<noteq> [] then TAB # nat_str n else nat_str n"
  obtain ex where "expert_at experts (mt_step (ms_meta this)) = Some ex"
    using assms(1) by (cases "expert_at experts (mt_step (ms_meta this))") (simp_all add: CreateNextMsg_def)
  moreover obtain r where "DispatchData sz this ((ms_meta this)\<lparr>mt_step := ex_next ex\<rparr>) experts data ca = Some r"
    using assms(1) calculation by (auto simp: CreateNextMsg_def Option.bind_eq_Some_conv)
  ultimately have d: "DispatchData sz this ((ms_meta this)\<lparr>mt_step := ex_next ex\<rparr>) experts data ca = Some (fst r, ca')"
    "ms = map (add_path (?p (length (fst r)))) (fst r)"
    using assms(1) by (auto simp: CreateNextMsg_def Let_def split: prod.splits)
  then show ?thesis using DispatchData_paths [OF d(1)] assms(2) by (auto simp: add_path_def path_str_snoc)
qed

section \<open>Properties\<close>

definition ex_meta :: meta where
  "ex_meta = \<lparr>mt_qid = 256, mt_step = 0, mt_query_count_in_trx = 1, mt_recver_nid = 0, mt_recver_tid = 0, mt_parent_nid = 0,
     mt_parent_tid = 0, mt_msg_type = M_SPAWN, mt_msg_path = ''2'', mt_branch_infos = [], mt_qplan = new_QueryPlan\<rparr>"

definition ex_experts :: "expert_object list" where
  "ex_experts = [(Expert_Object E_INIT)\<lparr>ex_next := 1, ex_send_remote := True\<rparr>, (Expert_Object E_HAS)\<lparr>ex_next := 2\<rparr>,
     Expert_Object E_END]"

definition ex_data :: "traverser list" where
  "ex_data = [([], [int2value_t 4 new_value, int2value_t 7 new_value]), ([(1, int2value_t 4 new_value)], [int2value_t 3 new_value])]"

definition ex_message :: message where
  "ex_message = (new_Message ex_meta)\<lparr>ms_data := ex_data\<rparr>"

definition ex_affinity :: core_affinity where
  "ex_affinity = \<lparr>ca_enable_division = False, ca_global_num_threads = 6, ca_counter = 0, ca_expert_division = Map.empty,
     ca_core_pool = [[0], [1], [2], [3], [4], [5]], ca_core_pool_itr = [0, 0, 0, 0, 0, 0],
     ca_core_to_thread = load_core_to_thread [[0], [1], [2], [3], [4], [5]],
     ca_thread_to_core = load_thread_to_core [[0], [1], [2], [3], [4], [5]],
     ca_stealing = load_steal_list [[0], [1], [2], [3], [4], [5]]\<rparr>"

lemma ex_affinity_ok: "affinity_ok ex_affinity" "0 < ca_global_num_threads ex_affinity" "ca_counter ex_affinity = 0"
  "ca_global_num_threads ex_affinity = 6"
  by (auto simp: affinity_ok_def ex_affinity_def NUM_THREAD_DIVISION_def less_Suc_eq numeral_eq_Suc)

lemma ex_value_size: "MemSize_value (int2value_t i new_value) = 13"
  by (simp add: MemSize_value_def MemSize_vector_def int2value_t_def add_content_def new_value_def sum_list_triv)

text \<open>
  C35. A message is received as it was sent: reading the bytes of a message gives back its routing data, its plan if it
  starts a query, its traversers and its sizes, and consumes all bytes.
\<close>

theorem message_roundtrip:
  assumes "meta_ok q0 (ms_meta msg)" "data_ok (ms_data msg)"
  shows "\<exists>bs. put_Message [] msg = Some bs \<and> get_Message q0 (ob_assign bs 0) = Some (msg, ob_assign bs (length bs))"
  by (rule message_codec.sent_and_received) (use assms in blast)

theorem message_roundtrip_witness:
  "ms_data ex_message \<noteq> [] \<and>
   (\<exists>bs. put_Message [] ex_message = Some bs \<and> get_Message new_QueryPlan (ob_assign bs 0) = Some (ex_message, ob_assign bs (length bs)))"
proof -
  have "meta_ok new_QueryPlan (ms_meta ex_message)" by (simp add: meta_ok_def ex_message_def ex_meta_def new_Message_def)
  moreover have "data_ok (ms_data ex_message)"
    by (auto simp: ex_message_def ex_data_def int2value_t_def add_content_def new_value_def)
  ultimately show ?thesis using message_roundtrip [of new_QueryPlan ex_message] by (simp add: ex_message_def ex_data_def)
qed



text \<open>
  C36. A value that does not fit with its history into an empty message is never sent. The loop that fills messages makes
  no progress: after any number of rounds it has made that many messages, all of them empty, and the data that is left
  is the data it began with, so the loop does not return. (Without a division of the threads the rounds end when the
  counter of threads, an \<open>int\<close>, has no next value, which the bound on \<open>k\<close> says; with a division there is no bound.)
\<close>

theorem oversized_value_blocks_query:
  assumes "unat mx < MemSize_history h + 16 + MemSize_value v" "pair_size (h, v # vs) < 2 ^ 63" "16 \<le> unat mx"
    and "affinity_ok ca" "0 < ca_global_num_threads ca" "ca_enable_division ca \<or> ca_counter ca + int k < 2 ^ 31"
  shows "(\<exists>ms ca'. fill_rounds k mx ty m ((h, v # vs) # ps) ca = Some (ms, (h, v # vs) # ps, ca') \<and> length ms = k \<and>
      (\<forall>msg\<in>set ms. ms_data msg = [])) \<and>
    fill_messages mx ty m ((h, v # vs) # ps) ca = None"
  using fill_rounds_stuck [OF assms] fill_messages_stuck [OF assms(1-3)] by blast

theorem oversized_value_blocks_query_witness:
  "\<exists>ms ca'. fill_rounds 1000 24 E_HAS ex_meta (([], int2value_t 4 new_value # []) # []) ex_affinity =
       Some (ms, ([], int2value_t 4 new_value # []) # [], ca') \<and> length ms = 1000"
  using oversized_value_blocks_query [of 24 "[]" "int2value_t 4 new_value" "[]" ex_affinity 1000 E_HAS ex_meta "[]"] ex_affinity_ok
  by (auto simp: pair_size_def MemSize_history_def MemSize_vector_def ex_value_size)

text \<open>
  Where a value belongs, in terms of the identifiers: a vertex on the machine of its id, an edge on the machine of its source, and, when
  both ends matter, on the machine of its destination too. \<open>element v\<close>: the value is a vertex or an edge.
\<close>

definition element :: "value_t \<Rightarrow> bool" where
  "element v \<longleftrightarrow> v_type v = 1 \<and> value_t2int v \<noteq> None \<or> v_type v = 5 \<and> value_t2uint64_t v \<noteq> None"

definition homes :: "int \<Rightarrow> bool \<Rightarrow> value_t \<Rightarrow> int list" where
  "homes sz both v =
     (if v_type v = 1 then [uint (vid_t_value (vid_t_of_int (the (value_t2int v)))) mod sz]
      else let e = uint2eid_t (the (value_t2uint64_t v)); src = uint (src_v e) mod sz; dst = uint (dst_v e) mod sz
           in if both \<and> dst \<noteq> src then [dst, src] else [src])"

lemma nodes_of_homes:
  assumes "element v" "0 < sz"
  shows "nodes_of sz both v = homes sz both v"
proof -
  have "0 \<le> x mod sz" for x using assms(2) by simp
  then have "x mod sz \<noteq> - 1" for x by (metis le_minus_one_simps(3))
  then show ?thesis using assms(1)
    by (auto simp: nodes_of_def homes_def element_def GetNodeId_def GetMachineIdForVertex_def GetMachineIdForEdge_def Let_def)
qed

lemma copies_homes:
  assumes "\<forall>(h, v)\<in>set l. element v" "0 < sz"
  shows "copies sz both l = concat (map (\<lambda>(h, v). map (\<lambda>n. (n, h, v)) (homes sz both v)) l)"
  using assms by (induction l) (auto simp: nodes_of_homes)

text \<open>
  Which experts need both ends of an edge: \<open>addE\<close>, whose data are the edges made from the traversers, and \<open>drop\<close> of edges.
\<close>

definition needs_both_ends :: "expert_object \<Rightarrow> bool" where
  "needs_both_ends ex \<longleftrightarrow> ex_type ex = E_ADDE \<or>
     ex_type ex = E_DROP \<and> param_int ex 0 = Some (element_int EDGE) \<and> param_int ex 1 = Some 0"

definition data_for :: "expert_object \<Rightarrow> traverser list \<Rightarrow> traverser list" where
  "data_for ex data = (if ex_type ex = E_ADDE then the (ConstructEdge data ex) else data)"

lemma edge_data_eq:
  "edge_data ex data = Some (both, data') \<Longrightarrow> both = needs_both_ends ex \<and> data' = data_for ex data"
  by (auto simp: edge_data_def needs_both_ends_def data_for_def bind_eq_Some_conv split: if_splits)

text \<open>
  C19. Data reaches the machines that store it. When an expert sends to remote machines, or the next expert needs both ends of edges, the
  messages made for the next expert carry every value, with its history, once to each machine it belongs to and to no other: a
  vertex to the machine of its id, an edge to the machine of its source, and for \<open>addE\<close> and for \<open>drop\<close> of edges also
  to that of its destination. Otherwise all values go to the machine of the route, unless the next expert counts them.
  The values are vertices or edges.
\<close>

theorem values_reach_their_machines:
  assumes "DispatchData sz this m experts data ca = Some (ms, ca')" "0 < sz"
    and "UpdateRoute (mt_step (ms_meta this)) experts m = Some (route_assigned, rm)"
    and "expert_at experts (mt_step rm) = Some ex" "expert_at experts (mt_step (ms_meta this)) = Some this_ex"
    and "\<forall>(h, v)\<in>set (flat (data_for ex data)). element v"
  shows "(\<not> route_assigned \<and> ex_send_remote this_ex \<or> needs_both_ends ex \<longrightarrow>
      mset (delivered ms) = mset (concat (map (\<lambda>(h, v). map (\<lambda>n. (n, h, v)) (homes sz (needs_both_ends ex) v)) (flat (data_for ex data))))) \<and>
    (\<not> (\<not> route_assigned \<and> ex_send_remote this_ex \<or> needs_both_ends ex) \<and> ex_type ex \<noteq> E_COUNT \<longrightarrow>
      mset (delivered ms) = mset (map (Pair (mt_recver_nid rm)) (flat (data_for ex data))))"
proof -
  obtain both data' where e: "edge_data ex data = Some (both, data')"
    using assms(1,3,4) by (cases rule: DispatchData_cases) auto
  note D = DispatchData_delivered [OF assms(1,3,4) e assms(5)]
  have "is_counted experts (mt_step rm) = Some False" if "ex_type ex \<noteq> E_COUNT" using assms(4) that by (simp add: is_counted_def)
  then show ?thesis using D edge_data_eq [OF e] copies_homes [OF assms(6,2)] by simp
qed

definition ex_edge :: value_t where
  "ex_edge = uint64_t2value_t (eid_t_value \<lparr>dst_v = 0, src_v = 1\<rparr>) new_value"

definition ex_drop_experts :: "expert_object list" where
  "ex_drop_experts = [(Expert_Object E_INIT)\<lparr>ex_next := 1\<rparr>,
     (AddParam_int 0 (AddParam_int (element_int EDGE) (Expert_Object E_DROP)))\<lparr>ex_next := 2\<rparr>, Expert_Object E_END]"

text \<open>Vertices 4, 7 and 3 on two machines; and an edge from 1 to 0 that is dropped.\<close>

theorem values_reach_their_machines_witness:
  "(\<exists>ms ca'. DispatchData 2 ex_message (ex_meta\<lparr>mt_step := 1\<rparr>) ex_experts ex_data ex_affinity = Some (ms, ca') \<and>
     mset (delivered ms) = mset [(0, [], int2value_t 4 new_value), (1, [], int2value_t 7 new_value),
       (1, [(1, int2value_t 4 new_value)], int2value_t 3 new_value)]) \<and>
   (\<exists>ms ca'. DispatchData 2 ex_message (ex_meta\<lparr>mt_step := 1\<rparr>) ex_drop_experts [([], [ex_edge])] ex_affinity = Some (ms, ca') \<and>
     mset (delivered ms) = mset [(0, [], ex_edge), (1, [], ex_edge)])"
proof
  let ?m = "ex_meta\<lparr>mt_step := 1\<rparr>" and ?h = "(Expert_Object E_HAS)\<lparr>ex_next := 2\<rparr>"
    and ?d = "(AddParam_int 0 (AddParam_int (element_int EDGE) (Expert_Object E_DROP)))\<lparr>ex_next := 2\<rparr>"
  have "map_option fst (DispatchData 2 ex_message ?m ex_experts ex_data ex_affinity) \<noteq> None" by code_simp
  then obtain ms ca' where d: "DispatchData 2 ex_message ?m ex_experts ex_data ex_affinity = Some (ms, ca')" by auto
  have r: "UpdateRoute (mt_step (ms_meta ex_message)) ex_experts ?m = Some (False, ?m)" by code_simp
  have e: "expert_at ex_experts (mt_step ?m) = Some ?h"
    "expert_at ex_experts (mt_step (ms_meta ex_message)) = Some ((Expert_Object E_INIT)\<lparr>ex_next := 1, ex_send_remote := True\<rparr>)"
    "data_for ?h ex_data = ex_data" by code_simp+
  have f: "flat ex_data = [([], int2value_t 4 new_value), ([], int2value_t 7 new_value),
      ([(1, int2value_t 4 new_value)], int2value_t 3 new_value)]" by (simp add: ex_data_def)
  have n: "homes 2 (needs_both_ends ?h) (int2value_t 4 new_value) = [0]" "homes 2 (needs_both_ends ?h) (int2value_t 7 new_value) = [1]"
    "homes 2 (needs_both_ends ?h) (int2value_t 3 new_value) = [1]" "element (int2value_t 4 new_value)" "element (int2value_t 7 new_value)"
    "element (int2value_t 3 new_value)" by code_simp+
  show "\<exists>ms ca'. DispatchData 2 ex_message ?m ex_experts ex_data ex_affinity = Some (ms, ca') \<and>
     mset (delivered ms) = mset [(0, [], int2value_t 4 new_value), (1, [], int2value_t 7 new_value),
       (1, [(1, int2value_t 4 new_value)], int2value_t 3 new_value)]"
    using values_reach_their_machines [OF d _ r e(1,2), unfolded e(3) f] d n by auto
  have "map_option fst (DispatchData 2 ex_message ?m ex_drop_experts [([], [ex_edge])] ex_affinity) \<noteq> None" by code_simp
  then obtain ms ca' where d: "DispatchData 2 ex_message ?m ex_drop_experts [([], [ex_edge])] ex_affinity = Some (ms, ca')" by auto
  have r: "UpdateRoute (mt_step (ms_meta ex_message)) ex_drop_experts ?m = Some (False, ?m)" by code_simp
  have e: "expert_at ex_drop_experts (mt_step ?m) = Some ?d"
    "expert_at ex_drop_experts (mt_step (ms_meta ex_message)) = Some ((Expert_Object E_INIT)\<lparr>ex_next := 1\<rparr>)"
    "data_for ?d [([], [ex_edge])] = [([], [ex_edge])]" "needs_both_ends ?d" "homes 2 True ex_edge = [0, 1]" "element ex_edge" by code_simp+
  show "\<exists>ms ca'. DispatchData 2 ex_message ?m ex_drop_experts [([], [ex_edge])] ex_affinity = Some (ms, ca') \<and>
     mset (delivered ms) = mset [(0, [], ex_edge), (1, [], ex_edge)]"
    using values_reach_their_machines [OF d _ r e(1,2)] d e by auto
qed

end
