(* ===== verification/Barrier_Base.thy ===== *)
theory Barrier_Base
  imports Message_Props
begin

text \<open>
  The common part of the experts that collect messages (src/expert/barrier_expert.hpp and .tpp, and the base class of
  src/expert/labelled_branch_expert.hpp): the tables of pending data, and the counting of the paths of the messages
  that decides when the last message of a query or branch has arrived.

  A table of the library tbb is a map. What an expert does with a message is the argument \<open>do_work\<close>; the messages it
  sends and its other effects are a list.
\<close>

section \<open>Paths\<close>

text \<open>The number behind the last tab of a path, and the path before that tab.\<close>

definition last_part :: "string \<Rightarrow> string" where
  "last_part p = rev (takeWhile (\<lambda>c. c \<noteq> TAB) (rev p))"

definition front_part :: "string \<Rightarrow> string" where
  "front_part p = rev (tl (dropWhile (\<lambda>c. c \<noteq> TAB) (rev p)))"

lemma front_part_shorter: "last_part p \<noteq> [] \<Longrightarrow> length (front_part p) < length p"
proof -
  assume "last_part p \<noteq> []"
  then have "p \<noteq> []" by (auto simp: last_part_def)
  moreover have "takeWhile (\<lambda>c. c \<noteq> TAB) (rev p) \<noteq> []" using \<open>last_part p \<noteq> []\<close> by (simp add: last_part_def)
  moreover have "length (takeWhile (\<lambda>c. c \<noteq> TAB) (rev p)) + length (dropWhile (\<lambda>c. c \<noteq> TAB) (rev p)) = length p"
    by (metis length_append length_rev takeWhile_dropWhile_id)
  ultimately show ?thesis by (cases "takeWhile (\<lambda>c. c \<noteq> TAB) (rev p)") (auto simp: front_part_def)
qed

type_synonym path_counter = "string \<rightharpoonup> int"

text \<open>The loop of \<open>IsReady\<close>.\<close>

function count_path :: "string \<Rightarrow> string \<Rightarrow> path_counter \<Rightarrow> (bool \<times> path_counter) option" where
  "count_path end_path p c =
     (if p = end_path then Some (True, c)
      else if last_part p = [] then None
      else let n = (case c p of None \<Rightarrow> 0 | Some k \<Rightarrow> k) + 1
           in if n = atoi (last_part p) then count_path end_path (front_part p) (c(p \<mapsto> 0))
              else Some (False, c(p \<mapsto> n)))"
  by auto
termination by (relation "measure (\<lambda>(_, p, _). length p)") (auto simp: front_part_shorter)

declare count_path.simps [simp del]

definition IsReady :: "path_counter \<Rightarrow> meta \<Rightarrow> string \<Rightarrow> (bool \<times> path_counter \<times> meta) option" where
  "IsReady c m end_path =
     do { (r, c) \<leftarrow> count_path end_path (mt_msg_path m) c;
          Some (r, c, if r then m\<lparr>mt_msg_path := end_path\<rparr> else m) }"

text \<open>In a labelled branch the branches are counted too: \<open>(b1, b2)\<close> is the number of branches and of those complete.\<close>

definition Branch_IsReady :: "path_counter \<Rightarrow> int \<times> int \<Rightarrow> meta \<Rightarrow> string \<Rightarrow> (bool \<times> path_counter \<times> (int \<times> int) \<times> meta) option" where
  "Branch_IsReady c b m end_path =
     do { (r, c) \<leftarrow> count_path end_path (mt_msg_path m) c;
          if r then let b = (fst b, snd b + 1)
                    in Some (if fst b = snd b then (True, c, b, m\<lparr>mt_msg_path := end_path\<rparr>) else (False, c, b, m))
          else Some (False, c, b, m) }"

definition GetMsgInfo :: "meta \<Rightarrow> mkey_t \<times> string" where
  "GetMsgInfo m =
     (if mt_branch_infos m \<noteq> []
      then (let i = last (mt_branch_infos m) in (mkey_t (mt_qid m) (bi_msg_id i) (bi_index i), bi_msg_path i))
      else (mkey_t (mt_qid m) 0 0, []))"

definition Branch_GetMsgInfo :: "meta \<Rightarrow> mkey_t \<times> string" where
  "Branch_GetMsgInfo m =
     (let bs = mt_branch_infos m
      in if bs \<noteq> []
         then (mkey_t (mt_qid m) (bi_msg_id (last bs)) (if 2 \<le> length bs then bi_index (bs ! (length bs - 2)) else 0),
               bi_msg_path (last bs))
         else (mkey_t (mt_qid m) 0 0, []))"

section \<open>Histories\<close>

definition get_branch_key :: "meta \<Rightarrow> int" where
  "get_branch_key m = (if mt_branch_infos m \<noteq> [] then bi_key (last (mt_branch_infos m)) else -1)"

fun find_history :: "history_t \<Rightarrow> int \<Rightarrow> (value_t \<times> history_t) option" where
  "find_history [] key = None"
| "find_history ((k, v) # h) key =
     (if k = key then Some (v, [(k, v)])
      else case find_history h key of None \<Rightarrow> None | Some (x, pre) \<Rightarrow> Some (x, (k, v) # pre))"

text \<open>The value found, if any, and the history, cut after the key if asked for.\<close>

definition get_history_value :: "history_t \<Rightarrow> int \<Rightarrow> bool \<Rightarrow> value_t option \<times> history_t" where
  "get_history_value his key erase_his =
     (if key \<ge> 0
      then (case find_history his key of None \<Rightarrow> (None, his) | Some (v, pre) \<Rightarrow> (Some v, if erase_his then pre else his))
      else (None, his))"

definition get_branch_value :: "history_t \<Rightarrow> int \<Rightarrow> bool \<Rightarrow> (int \<times> history_t) option" where
  "get_branch_value his branch_key erase_his =
     (case get_history_value his branch_key erase_his of
        (None, h) \<Rightarrow> Some (-1, h)
      | (Some v, h) \<Rightarrow> do { i \<leftarrow> value_t2int v; Some (i, h) })"

definition is_next_barrier :: "expert_object list \<Rightarrow> int \<Rightarrow> bool option" where
  "is_next_barrier experts step =
     do { ex \<leftarrow> expert_at experts step;
          Some (case expert_at experts (ex_next ex) of None \<Rightarrow> False | Some nx \<Rightarrow> IsBarrier (ex_type nx)) }"

section \<open>Tables\<close>

datatype expert_effect = Send message | InsertResult u64 "value_t list" | InsertAbortResult u64 "value_t list"
  | InsertAggData agg_t "value_t list" | UpdateStatus u64

record 'd barrier_table =
  bt_data :: "mkey_t \<rightharpoonup> path_counter \<times> 'd"
  bt_trx :: "u64 \<rightharpoonup> mkey_t set"

type_synonym 'd work = "query_plan \<Rightarrow> message \<Rightarrow> 'd \<Rightarrow> bool \<Rightarrow> core_affinity \<Rightarrow>
    (message \<times> 'd \<times> expert_effect list \<times> core_affinity) option"

definition insert_key :: "'d \<Rightarrow> u64 \<Rightarrow> mkey_t \<Rightarrow> 'd barrier_table \<Rightarrow> 'd barrier_table" where
  "insert_key d0 trxid key t =
     (if bt_data t key = None
      then t\<lparr>bt_data := (bt_data t)(key \<mapsto> (Map.empty, d0)),
             bt_trx := (bt_trx t)(trxid \<mapsto> insert key (case bt_trx t trxid of None \<Rightarrow> {} | Some s \<Rightarrow> s))\<rparr>
      else t)"

definition erase_key :: "u64 \<Rightarrow> mkey_t \<Rightarrow> 'd barrier_table \<Rightarrow> 'd barrier_table" where
  "erase_key trxid key t =
     t\<lparr>bt_data := (bt_data t)(key := None),
       bt_trx := (case bt_trx t trxid of None \<Rightarrow> bt_trx t | Some s \<Rightarrow> (bt_trx t)(trxid \<mapsto> s - {key}))\<rparr>"

definition clean_trx_data :: "u64 \<Rightarrow> 'd barrier_table \<Rightarrow> 'd barrier_table" where
  "clean_trx_data trxid t =
     (case bt_trx t trxid of None \<Rightarrow> t
      | Some s \<Rightarrow> t\<lparr>bt_data := (\<lambda>k. if k \<in> s then None else bt_data t k), bt_trx := (bt_trx t)(trxid := None)\<rparr>)"

definition count_values :: "traverser list \<Rightarrow> traverser list" where
  "count_values d = map (\<lambda>(h, vs). (h, [str2int (nat_str (length vs)) new_value])) d"

definition next_step :: "expert_object list \<Rightarrow> message \<Rightarrow> message option" where
  "next_step experts msg =
     do { nb \<leftarrow> is_next_barrier experts (mt_step (ms_meta msg));
          if nb then do { ex \<leftarrow> expert_at experts (mt_step (ms_meta msg));
                          nx \<leftarrow> expert_at experts (ex_next ex);
                          let msg = msg\<lparr>ms_meta := (ms_meta msg)\<lparr>mt_step := ex_next ex\<rparr>\<rparr>;
                          Some (if ex_type nx = E_COUNT then msg\<lparr>ms_data := count_values (ms_data msg)\<rparr> else msg) }
          else Some msg }"

definition Barrier_process :: "'d work \<Rightarrow> 'd \<Rightarrow> query_plan \<Rightarrow> message \<Rightarrow> 'd barrier_table \<Rightarrow> core_affinity \<Rightarrow>
    (message \<times> expert_effect list \<times> 'd barrier_table \<times> core_affinity) option" where
  "Barrier_process do_work d0 q msg t ca =
     do { let (key, end_path) = GetMsgInfo (ms_meta msg);
          let t = insert_key d0 (qp_trxid q) key t;
          (c, d) \<leftarrow> bt_data t key;
          (isReady, c, m) \<leftarrow> IsReady c (ms_meta msg) end_path;
          (msg, d, effs, ca) \<leftarrow> do_work q (msg\<lparr>ms_meta := m\<rparr>) d isReady ca;
          if isReady then do { msg \<leftarrow> next_step (qp_experts q) msg; Some (msg, effs, erase_key (qp_trxid q) key t, ca) }
          else Some (msg, effs, t\<lparr>bt_data := (bt_data t)(key \<mapsto> (c, d))\<rparr>, ca) }"

text \<open>Passing the collected data on: to the next barrier in place, or in messages.\<close>

definition pass_on :: "int \<Rightarrow> query_plan \<Rightarrow> message \<Rightarrow> traverser list \<Rightarrow> core_affinity \<Rightarrow>
    (message \<times> expert_effect list \<times> core_affinity) option" where
  "pass_on sz q msg data ca =
     do { nb \<leftarrow> is_next_barrier (qp_experts q) (mt_step (ms_meta msg));
          if nb then Some (msg\<lparr>ms_data := data\<rparr>, [], ca)
          else do { (ms, ca) \<leftarrow> CreateNextMsg sz msg (qp_experts q) data ca; Some (msg, map Send ms, ca) } }"

section \<open>Counting arrivals\<close>

text \<open>
  Paths relative to the end path are lists of numbers. \<open>arrivals f q\<close> is the number of times a path \<open>q\<close> is reached when
  \<open>f\<close> says how often each path has arrived by itself: every \<open>n\<close> arrivals at \<open>q @ [n]\<close> are one arrival at \<open>q\<close>.
  The lengths of paths are bounded by \<open>K\<close>, their numbers by \<open>B\<close>.
\<close>

fun arrivals_to :: "nat \<Rightarrow> nat \<Rightarrow> (nat list \<Rightarrow> nat) \<Rightarrow> nat list \<Rightarrow> nat" where
  "arrivals_to B 0 f q = f q"
| "arrivals_to B (Suc k) f q = f q + (\<Sum>n\<in>{1..B}. arrivals_to B k f (q @ [n]) div n)"

definition arrivals :: "nat \<Rightarrow> nat \<Rightarrow> (nat list \<Rightarrow> nat) \<Rightarrow> nat list \<Rightarrow> nat" where
  "arrivals B K f q = arrivals_to B (K - length q) f q"

lemma arrivals_step:
  "length q < K \<Longrightarrow> arrivals B K f q = f q + (\<Sum>n\<in>{1..B}. arrivals B K f (q @ [n]) div n)"
  by (cases "K - length q") (auto simp: arrivals_def diff_Suc split: nat.splits)

lemma arrivals_end: "length q = K \<Longrightarrow> arrivals B K f q = f q"
  by (simp add: arrivals_def)

lemma arrivals_induct [consumes 1, case_names last step]:
  assumes "length q \<le> K"
    and "\<And>q. length q = K \<Longrightarrow> P q"
    and "\<And>q. length q < K \<Longrightarrow> (\<And>n. n \<in> {1..B} \<Longrightarrow> P (q @ [n])) \<Longrightarrow> P q"
  shows "P q"
  using assms(1)
proof (induction "K - length q" arbitrary: q)
  case 0
  then show ?case using assms(2) by simp
next
  case (Suc d)
  show ?case
  proof (rule assms(3))
    show "length q < K" using Suc.hyps(2) by simp
    show "P (q @ [n])" for n using Suc.hyps(1) [of "q @ [n]"] Suc.hyps(2) Suc.prems by simp
  qed
qed

lemma arrivals_cong:
  assumes "length q \<le> K" "\<And>s. f (q @ s) = g (q @ s)"
  shows "arrivals B K f q = arrivals B K g q"
  using assms
proof (induction rule: arrivals_induct [where B = B])
  case (last q)
  then show ?case using last(2) [of "[]"] by (simp add: arrivals_end)
next
  case (step q)
  have "arrivals B K f (q @ [n]) = arrivals B K g (q @ [n])" if "n \<in> {1..B}" for n
    using step(2) [OF that] step(3) by (metis append.assoc)
  then show ?case using step(3) [of "[]"] step(1) by (simp add: arrivals_step)
qed

text \<open>Replacing \<open>n\<close> arrivals at \<open>r @ [n]\<close> by one at \<open>r\<close>.\<close>

definition contract :: "nat list \<Rightarrow> nat \<Rightarrow> (nat list \<Rightarrow> nat) \<Rightarrow> nat list \<Rightarrow> nat" where
  "contract r n f = f(r @ [n] := f (r @ [n]) - n, r := f r + 1)"

lemma contract_child:
  assumes "length r < K"
  shows "arrivals B K (contract r n f) (r @ [n]) = arrivals B K f (r @ [n]) - n \<or> \<not> n \<le> f (r @ [n])"
proof -
  let ?g = "contract r n f"
  have g: "?g (r @ [n]) = f (r @ [n]) - n" "\<And>m s. ?g ((r @ [n]) @ m # s) = f ((r @ [n]) @ m # s)"
    by (auto simp: contract_def)
  show ?thesis
  proof (cases "length (r @ [n]) = K")
    case True
    then show ?thesis using g(1) by (simp add: arrivals_end)
  next
    case False
    then have l: "length (r @ [n]) < K" using assms by simp
    have "arrivals B K ?g ((r @ [n]) @ [m]) = arrivals B K f ((r @ [n]) @ [m])" for m
      using l g(2) by (intro arrivals_cong) auto
    then show ?thesis using arrivals_step [OF l, of B f] arrivals_step [OF l, of B ?g] g(1) by auto
  qed
qed

lemma sum_split_one:
  assumes "(n :: nat) \<in> {1..B}" "\<And>m. m \<in> {1..B} \<Longrightarrow> m \<noteq> n \<Longrightarrow> h m = (k m :: nat)" "Suc (h n) = k n"
  shows "Suc (sum h {1..B}) = sum k {1..B}"
proof -
  have "sum h ({1..B} - {n}) = sum k ({1..B} - {n})" by (rule sum.cong) (use assms(2) in auto)
  then show ?thesis using assms(3) sum.remove [OF finite_atLeastAtMost assms(1), of h]
    sum.remove [OF finite_atLeastAtMost assms(1), of k] by simp
qed

lemma contract_parent:
  assumes "length r < K" "n \<in> {1..B}" "n \<le> f (r @ [n])"
  shows "arrivals B K (contract r n f) r = arrivals B K f r"
proof -
  let ?g = "contract r n f"
  have c: "arrivals B K ?g (r @ [n]) = arrivals B K f (r @ [n]) - n" using contract_child [OF assms(1)] assms(3) by blast
  have "f (r @ [n]) \<le> arrivals B K f (r @ [n])"
    using assms(1) by (cases "length (r @ [n]) = K") (simp_all add: arrivals_end arrivals_step)
  then have n: "n \<le> arrivals B K f (r @ [n])" using assms(3) by simp
  have "arrivals B K ?g (r @ [m]) = arrivals B K f (r @ [m])" if "m \<noteq> n" for m
    using assms(1) that by (intro arrivals_cong) (auto simp: contract_def)
  then have "Suc (\<Sum>m\<in>{1..B}. arrivals B K ?g (r @ [m]) div m) = (\<Sum>m\<in>{1..B}. arrivals B K f (r @ [m]) div m)"
    using assms(2) c n by (intro sum_split_one [of n]) (auto simp: le_div_geq)
  moreover have "?g r = f r + 1" by (simp add: contract_def)
  ultimately show ?thesis using arrivals_step [OF assms(1), of B f] arrivals_step [OF assms(1), of B ?g] by simp
qed

lemma contract_arrivals:
  assumes "length r < K" "n \<in> {1..B}" "n \<le> f (r @ [n])" "length q \<le> K" "q \<noteq> r @ [n]"
  shows "arrivals B K (contract r n f) q = arrivals B K f q"
  using assms(4,5)
proof (induction rule: arrivals_induct [where B = B])
  case (last q)
  then show ?case using assms(1) by (auto simp: arrivals_end contract_def)
next
  case (step q)
  show ?case
  proof (cases "q = r")
    case True
    then show ?thesis using contract_parent [where f = f, OF assms(1-3)] by simp
  next
    case False
    have "arrivals B K (contract r n f) (q @ [m]) = arrivals B K f (q @ [m])" if "m \<in> {1..B}" for m
      using step(2) [OF that] False by auto
    moreover have "contract r n f q = f q" using False step(3) by (simp add: contract_def)
    ultimately show ?thesis using step(1) by (simp add: arrivals_step)
  qed
qed

text \<open>
  \<open>complete f\<close>: one message, split again and again, would arrive just like \<open>f\<close>. It holds for a single message and is
  kept when a message is split, and when the parts of a message are joined again.
\<close>

definition complete :: "nat \<Rightarrow> nat \<Rightarrow> (nat list \<Rightarrow> nat) \<Rightarrow> bool" where
  "complete B K f \<longleftrightarrow> arrivals B K f [] = 1 \<and> (\<forall>q n. length q < K \<longrightarrow> n \<in> {1..B} \<longrightarrow> n dvd arrivals B K f (q @ [n]))"

definition bounded :: "nat \<Rightarrow> nat \<Rightarrow> nat list \<Rightarrow> bool" where
  "bounded B K q \<longleftrightarrow> length q \<le> K \<and> set q \<subseteq> {1..B}"

lemma complete_contract:
  assumes "length r < K" "n \<in> {1..B}" "n \<le> f (r @ [n])"
  shows "complete B K (contract r n f) \<longleftrightarrow> complete B K f"
proof -
  note a = contract_arrivals [where f = f, OF assms]
  have c: "arrivals B K (contract r n f) (r @ [n]) = arrivals B K f (r @ [n]) - n"
    using contract_child [OF assms(1)] assms(3) by blast
  have "f (r @ [n]) \<le> arrivals B K f (r @ [n])"
    using assms(1) by (cases "length (r @ [n]) = K") (simp_all add: arrivals_end arrivals_step)
  then have "n dvd arrivals B K f (r @ [n]) \<longleftrightarrow> n dvd arrivals B K (contract r n f) (r @ [n])"
    using assms(3) c by (auto simp: dvd_minus_self)
  then have "m dvd arrivals B K f (q @ [m]) \<longleftrightarrow> m dvd arrivals B K (contract r n f) (q @ [m])" if "length q < K" for q m
    using a [of "q @ [m]"] that by (cases "q @ [m] = r @ [n]") auto
  then show ?thesis using a [of "[]"] by (auto simp: complete_def)
qed

lemma arrivals_zero: "length q \<le> K \<Longrightarrow> arrivals B K (\<lambda>_. 0) q = 0"
  by (induction rule: arrivals_induct [where B = B]) (simp_all add: arrivals_end arrivals_step)

lemma complete_one: "complete B K (\<lambda>q. if q = [] then 1 else 0)"
proof -
  let ?f = "\<lambda>q. if q = [] then 1 else 0 :: nat"
  have z: "arrivals B K ?f (q @ [n]) = 0" if "length q < K" for q n
    using arrivals_cong [of "q @ [n]" K ?f "\<lambda>_. 0" B] that arrivals_zero by simp
  then have "arrivals B K ?f [n] = 0" if "0 < K" for n using that z [of "[]"] by simp
  then have "arrivals B K ?f [] = 1" by (cases K) (simp_all add: arrivals_end arrivals_step)
  then show ?thesis using z by (simp add: complete_def)
qed

lemma complete_ends:
  assumes "complete B K f" "1 \<le> f []"
  shows "f [] = 1" and "bounded B K q \<Longrightarrow> q \<noteq> [] \<Longrightarrow> f q = 0"
proof -
  have d: "n dvd arrivals B K f (q @ [n])" if "length q < K" "n \<in> {1..B}" for q n using assms(1) that by (auto simp: complete_def)
  have one: "arrivals B K f [] = 1" using assms(1) by (simp add: complete_def)
  have s: "f [] + (if K = 0 then 0 else \<Sum>n\<in>{1..B}. arrivals B K f [n] div n) = 1"
    using one by (cases K) (simp_all add: arrivals_end arrivals_step)
  then show "f [] = 1" using assms(2) by simp
  have zero: "arrivals B K f (q @ [n]) = 0" if "length q < K" "n \<in> {1..B}" "(\<Sum>n\<in>{1..B}. arrivals B K f (q @ [n]) div n) = 0" for q n
    using dvd_div_mult_self [OF d [OF that(1,2)]] that(2,3) by simp
  have "q \<noteq> [] \<Longrightarrow> arrivals B K f q = 0" if "bounded B K q" for q
    using that
  proof (induction q rule: rev_induct)
    case (snoc n q)
    have q: "length q < K" "n \<in> {1..B}" "bounded B K q" using snoc.prems(2) by (auto simp: bounded_def)
    show ?case
    proof (cases "q = []")
      case True
      have "(\<Sum>n\<in>{1..B}. arrivals B K f [n] div n) = 0" using s assms(2) q(1) by (simp del: sum_eq_0_iff split: if_splits)
      then show ?thesis using zero [OF q(1,2)] True by simp
    next
      case False
      then have "arrivals B K f q = 0" using snoc.IH q(3) by simp
      then show ?thesis using arrivals_step [OF q(1), of B f] by (intro zero [OF q(1,2)]) simp
    qed
  qed simp
  moreover have "f q \<le> arrivals B K f q" if "bounded B K q" for q
    using that by (cases "length q = K") (simp_all add: arrivals_end arrivals_step bounded_def)
  ultimately show "bounded B K q \<Longrightarrow> q \<noteq> [] \<Longrightarrow> f q = 0" by fastforce
qed

lemma complete_not_small:
  assumes "complete B K f" "\<And>q n. f (q @ [n]) < max 1 n" "f [] = 0"
  shows False
proof -
  have "q \<noteq> [] \<longrightarrow> last q \<in> {1..B} \<longrightarrow> arrivals B K f q = 0" if "length q \<le> K" for q
    using that
  proof (induction rule: arrivals_induct [where B = B])
    case (last q)
    show ?case
    proof (cases q rule: rev_cases)
      case (snoc r n)
      then have "last q \<in> {1..B} \<Longrightarrow> n dvd f q" using assms(1) last by (auto simp: complete_def arrivals_end)
      then show ?thesis using assms(2) [of r n] snoc last by (auto simp: arrivals_end dest: nat_dvd_not_less [rotated])
    qed simp
  next
    case (step q)
    have z: "(\<Sum>n\<in>{1..B}. arrivals B K f (q @ [n]) div n) = 0" using step(2) by auto
    show ?case
    proof (cases q rule: rev_cases)
      case (snoc r n)
      have "arrivals B K f q = f q" using z step(1) by (simp add: arrivals_step)
      moreover have "last q \<in> {1..B} \<Longrightarrow> n dvd arrivals B K f q" using assms(1) snoc step(1) by (auto simp: complete_def)
      ultimately show ?thesis using assms(2) [of r n] snoc by (auto dest: nat_dvd_not_less [rotated])
    qed simp
  qed
  then have "arrivals B K f [n] = 0" if "0 < K" "n \<in> {1..B}" for n using that by force
  then have "arrivals B K f [] = 0" using assms(3) by (cases K) (simp_all add: arrivals_end arrivals_step)
  then show False using assms(1) by (simp add: complete_def)
qed

section \<open>The counters of a table\<close>

lemma TAB_not_in_nat_str: "TAB \<notin> set (nat_str n)"
  using nat_str_digits [of n] by (auto simp: list_all_iff is_digit_def TAB_def)

lemma takeWhile_upto: "c \<notin> set xs \<Longrightarrow> takeWhile (\<lambda>x. x \<noteq> c) (xs @ c # ys) = xs \<and> dropWhile (\<lambda>x. x \<noteq> c) (xs @ c # ys) = c # ys"
  by (induction xs) auto

lemma parts_of_path:
  assumes "TAB \<notin> set xs"
  shows "last_part (ys @ TAB # xs) = xs" "front_part (ys @ TAB # xs) = ys" "last_part xs = xs" "front_part xs = []"
proof -
  have "\<forall>c\<in>set (rev xs). c \<noteq> TAB" using assms by auto
  then have "takeWhile (\<lambda>c. c \<noteq> TAB) (rev xs) = rev xs" "dropWhile (\<lambda>c. c \<noteq> TAB) (rev xs) = []" by simp_all
  then show "last_part xs = xs" "front_part xs = []" by (simp_all only: last_part_def front_part_def rev_rev_ident list.sel rev.simps)
  show "last_part (ys @ TAB # xs) = xs" "front_part (ys @ TAB # xs) = ys"
    using takeWhile_upto [of TAB "rev xs" "rev ys"] assms by (simp_all add: last_part_def front_part_def)
qed

lemma path_str_parts:
  assumes "p = path_str (ns @ [n])"
  shows "last_part p = nat_str n" and "front_part p = path_str ns"
  using parts_of_path [OF TAB_not_in_nat_str] by (cases "ns = []"; simp add: assms path_str_snoc)+

lemma path_str_inject [simp]: "path_str ms = path_str ns \<longleftrightarrow> ms = ns"
proof
  show "path_str ms = path_str ns \<Longrightarrow> ms = ns"
  proof (induction ms arbitrary: ns rule: rev_induct)
    case Nil
    then show ?case using path_str_empty [of ns] by simp
  next
    case (snoc m ms)
    then obtain n ns' where ns: "ns = ns' @ [n]" using path_str_empty [of "ms @ [m]"] by (cases ns rule: rev_cases) auto
    then have "nat_str m = nat_str n" "path_str ms = path_str ns'"
      using snoc.prems path_str_parts [of _ ms m] path_str_parts [of _ ns' n] by metis+
    then show ?case using snoc.IH ns by simp
  qed
qed simp

text \<open>The arrivals a table still holds at the paths below the end path \<open>e\<close>.\<close>

definition held :: "nat list \<Rightarrow> path_counter \<Rightarrow> nat list \<Rightarrow> nat" where
  "held e c q = (if q = [] then 0 else case c (path_str (e @ q)) of None \<Rightarrow> 0 | Some k \<Rightarrow> nat k)"

definition settled :: "nat list \<Rightarrow> path_counter \<Rightarrow> bool" where
  "settled e c \<longleftrightarrow> (\<forall>q n k. c (path_str (e @ q @ [n])) = Some k \<longrightarrow> 0 \<le> k \<and> k < max 1 (int n))"

lemma held_small: "settled e c \<Longrightarrow> held e c (q @ [n]) < max 1 n"
  by (force simp: settled_def held_def split: option.splits)

lemma held_not_complete: "settled e c \<Longrightarrow> \<not> complete B K (held e c)"
  using complete_not_small [of B K "held e c"] held_small [of e c] by (auto simp: held_def)

lemma count_path_step:
  assumes "settled e c" "n < 2 ^ 31" "0 < n"
  shows "count_path (path_str e) (path_str (e @ q @ [n])) c =
     (let p = path_str (e @ q @ [n]); k = held e c (q @ [n]) + 1
      in if k = n then count_path (path_str e) (path_str (e @ q)) (c(p \<mapsto> 0)) else Some (False, c(p \<mapsto> int k)))"
proof -
  let ?p = "path_str (e @ q @ [n])"
  have p: "last_part ?p = nat_str n" "front_part ?p = path_str (e @ q)" "?p \<noteq> path_str e"
    using path_str_parts [of ?p "e @ q" n] by simp_all
  have a: "atoi (nat_str n) = int n" using assms(2) by (simp add: atoi_nat_str)
  have "(case c ?p of None \<Rightarrow> 0 | Some k \<Rightarrow> k) = int (held e c (q @ [n]))"
    using assms(1) by (auto simp: held_def settled_def split: option.splits)
  then show ?thesis using p a by (subst count_path.simps) (simp add: Let_def add.commute)
qed

lemma settled_upd: "settled e c \<Longrightarrow> k < max 1 n \<Longrightarrow> settled e (c(path_str (e @ q @ [n]) \<mapsto> int k))"
  by (auto simp: settled_def)

lemma held_upd: "held e (c(path_str (e @ q @ [n]) \<mapsto> int k)) = (held e c)(q @ [n] := k)"
  by (auto simp: held_def fun_eq_iff)

text \<open>One message: either more are to come, or it is the last.\<close>

lemma count_path_ok:
  assumes "B < 2 ^ 31" "settled e c" "bounded B K r" "complete B K (\<lambda>q. held e c q + g q + (if q = r then 1 else 0))"
  shows "\<exists>rdy c'. count_path (path_str e) (path_str (e @ r)) c = Some (rdy, c') \<and> settled e c' \<and>
     (if rdy then \<forall>q. bounded B K q \<longrightarrow> g q = 0 else complete B K (\<lambda>q. held e c' q + g q))"
  using assms(2-)
proof (induction r arbitrary: c rule: rev_induct)
  case Nil
  have c: "complete B K (\<lambda>q. held e c q + g q + (if q = [] then 1 else 0))" using Nil.prems(3) by simp
  have "g q = 0" if "bounded B K q" for q
    using complete_ends [OF c] that by (cases "q = []") auto
  then show ?case using Nil.prems(1) by (auto simp: count_path.simps)
next
  case (snoc n r)
  let ?p = "path_str (e @ r @ [n])" and ?f = "\<lambda>q. held e c q + g q + (if q = r @ [n] then 1 else 0)"
  let ?k = "held e c (r @ [n]) + 1"
  have n: "length r < K" "n \<in> {1..B}" "bounded B K r" using snoc.prems(2) by (auto simp: bounded_def)
  have s: "held e c (r @ [n]) < n" using held_small [OF snoc.prems(1), of r n] n(2) by simp
  note step = count_path_step [OF snoc.prems(1), of n r]
  show ?case
  proof (cases "?k = n")
    case True
    have "contract r n ?f = (\<lambda>q. held e (c(?p \<mapsto> int 0)) q + g q + (if q = r then 1 else 0))"
      unfolding held_upd contract_def using True by (auto simp: fun_eq_iff)
    moreover have "complete B K (contract r n ?f)" using complete_contract [of r K n B ?f] snoc.prems(3) n True by simp
    ultimately have co: "complete B K (\<lambda>q. held e (c(?p \<mapsto> int 0)) q + g q + (if q = r then 1 else 0))" by metis
    have eq: "count_path (path_str e) ?p c = count_path (path_str e) (path_str (e @ r)) (c(?p \<mapsto> int 0))"
      using step n assms(1) True by (simp add: Let_def)
    have "settled e (c(?p \<mapsto> int 0))" using settled_upd [OF snoc.prems(1), of 0 n r] by simp
    then show ?thesis unfolding eq using snoc.IH n(3) co by blast
  next
    case False
    have "(\<lambda>q. held e (c(?p \<mapsto> int ?k)) q + g q) = ?f" unfolding held_upd by (auto simp: fun_eq_iff)
    then have "complete B K (\<lambda>q. held e (c(?p \<mapsto> int ?k)) q + g q)" using snoc.prems(3) by simp
    moreover have "settled e (c(?p \<mapsto> int ?k))" using settled_upd [OF snoc.prems(1), of ?k n r] False s by simp
    moreover have "count_path (path_str e) ?p c = Some (False, c(?p \<mapsto> int ?k))" using step n assms(1) False by (simp add: Let_def)
    ultimately show ?thesis by auto
  qed
qed

section \<open>All messages of a query\<close>

text \<open>
  \<open>splits\<close>: the paths of the messages that one message becomes. A message with path \<open>p\<close> is replaced by \<open>n\<close> messages
  with path \<open>p @ [n]\<close>, as \<open>CreateNextMsg\<close> does.
\<close>

inductive splits :: "nat \<Rightarrow> nat \<Rightarrow> nat list multiset \<Rightarrow> bool" for B K where
  one: "splits B K {#[]#}"
| more: "splits B K (add_mset p M) \<Longrightarrow> 1 \<le> n \<Longrightarrow> n \<le> B \<Longrightarrow> length p < K \<Longrightarrow> splits B K (M + replicate_mset n (p @ [n]))"

lemma splits_bounded: "splits B K M \<Longrightarrow> q \<in># M \<Longrightarrow> bounded B K q"
proof (induction arbitrary: q rule: splits.induct)
  case (more p M n)
  have "bounded B K p" using more.IH by simp
  then have "bounded B K (p @ [n])" using more.hyps by (simp add: bounded_def)
  then show ?case using more.IH [of q] more.prems by (auto split: if_splits)
qed (simp add: bounded_def)

lemma splits_complete: "splits B K M \<Longrightarrow> complete B K (count M)"
proof (induction rule: splits.induct)
  case one
  have "count {#[]#} = (\<lambda>q :: nat list. if q = [] then 1 else 0)" by (auto simp: fun_eq_iff)
  then show ?case using complete_one by simp
next
  case (more p M n)
  let ?f = "count (M + replicate_mset n (p @ [n]))"
  have "contract p n ?f = count (add_mset p M)" by (auto simp: contract_def fun_eq_iff)
  moreover have "n \<le> ?f (p @ [n])" by simp
  ultimately show ?case using complete_contract [of p K n B ?f] more by (metis atLeastAtMost_iff)
qed

text \<open>The expert works on the messages of a query one after the other.\<close>

fun process_all :: "'d work \<Rightarrow> 'd \<Rightarrow> query_plan \<Rightarrow> message list \<Rightarrow> 'd barrier_table \<Rightarrow> core_affinity \<Rightarrow>
    ((message \<times> expert_effect list) list \<times> 'd barrier_table \<times> core_affinity) option" where
  "process_all w d0 q [] t ca = Some ([], t, ca)"
| "process_all w d0 q (msg # ms) t ca =
     do { (m, effs, t, ca) \<leftarrow> Barrier_process w d0 q msg t ca;
          (r, t, ca) \<leftarrow> process_all w d0 q ms t ca;
          Some ((m, effs) # r, t, ca) }"

text \<open>What it is to do: work on every message, and with the last one as the last one.\<close>

fun work_all :: "'d work \<Rightarrow> query_plan \<Rightarrow> message list \<Rightarrow> string \<Rightarrow> 'd \<Rightarrow> core_affinity \<Rightarrow>
    ((message \<times> expert_effect list) list \<times> core_affinity) option" where
  "work_all w q [] e d ca = None"
| "work_all w q [msg] e d ca =
     do { (m, d, effs, ca) \<leftarrow> w q (msg\<lparr>ms_meta := (ms_meta msg)\<lparr>mt_msg_path := e\<rparr>\<rparr>) d True ca;
          m \<leftarrow> next_step (qp_experts q) m;
          Some ([(m, effs)], ca) }"
| "work_all w q (msg # ms) e d ca =
     do { (m, d, effs, ca) \<leftarrow> w q msg d False ca;
          (r, ca) \<leftarrow> work_all w q ms e d ca;
          Some ((m, effs) # r, ca) }"

lemma Barrier_process_step:
  assumes "GetMsgInfo (ms_meta msg) = (key, path_str e)"
    and "bt_data (insert_key d0 (qp_trxid q) key t) key = Some (c, d)"
    and "count_path (path_str e) (mt_msg_path (ms_meta msg)) c = Some (rdy, c')"
  shows "Barrier_process w d0 q msg t ca =
     (if rdy
      then do { (m, d, effs, ca) \<leftarrow> w q (msg\<lparr>ms_meta := (ms_meta msg)\<lparr>mt_msg_path := path_str e\<rparr>\<rparr>) d True ca;
                m \<leftarrow> next_step (qp_experts q) m;
                Some (m, effs, erase_key (qp_trxid q) key (insert_key d0 (qp_trxid q) key t), ca) }
      else do { (m, d, effs, ca) \<leftarrow> w q msg d False ca;
                let t = insert_key d0 (qp_trxid q) key t;
                Some (m, effs, t\<lparr>bt_data := (bt_data t)(key \<mapsto> (c', d))\<rparr>, ca) })"
  using assms by (simp add: Barrier_process_def IsReady_def Let_def split: Option.bind_split)

lemma process_all_is_work_all:
  assumes "B < 2 ^ 31" "settled e c"
    and "\<And>msg. msg \<in> set ms \<Longrightarrow> GetMsgInfo (ms_meta msg) = (key, path_str e)"
    and "map (\<lambda>msg. mt_msg_path (ms_meta msg)) ms = map (\<lambda>r. path_str (e @ r)) rs"
    and "\<And>r. r \<in> set rs \<Longrightarrow> bounded B K r"
    and "complete B K (\<lambda>p. held e c p + count (mset rs) p)"
    and "bt_data (insert_key d0 (qp_trxid q) key t) key = Some (c, d)"
  shows "do { (r, t, ca) \<leftarrow> process_all w d0 q ms t ca; Some (r, bt_data t, ca) } =
     do { (r, ca) \<leftarrow> work_all w q ms (path_str e) d ca; Some (r, (bt_data t)(key := None), ca) }"
  using assms(2-)
proof (induction ms arbitrary: c rs t d ca)
  case Nil
  then show ?case using held_not_complete [of e c] by simp
next
  case (Cons msg ms)
  obtain r rs' where rs: "rs = r # rs'" "mt_msg_path (ms_meta msg) = path_str (e @ r)"
    "map (\<lambda>msg. mt_msg_path (ms_meta msg)) ms = map (\<lambda>r. path_str (e @ r)) rs'" using Cons.prems(3) by (cases rs) auto
  let ?t = "insert_key d0 (qp_trxid q) key t"
  have "(\<lambda>p. held e c p + count (mset rs) p) = (\<lambda>p. held e c p + count (mset rs') p + (if p = r then 1 else 0))"
    by (auto simp: fun_eq_iff rs(1))
  then have "complete B K (\<lambda>p. held e c p + count (mset rs') p + (if p = r then 1 else 0))" using Cons.prems(5) by simp
  then obtain rdy c' where c': "count_path (path_str e) (path_str (e @ r)) c = Some (rdy, c')" "settled e c'"
    "if rdy then \<forall>q. bounded B K q \<longrightarrow> count (mset rs') q = 0 else complete B K (\<lambda>q. held e c' q + count (mset rs') q)"
    using count_path_ok [OF assms(1) Cons.prems(1), of K r "count (mset rs')"] Cons.prems(4) rs(1) by auto
  note step = Barrier_process_step [OF Cons.prems(2) [OF list.set_intros(1)] Cons.prems(6), of rdy c' w ca]
  show ?case
  proof (cases rdy)
    case True
    then have "x \<notin> set rs'" for x using c'(3) Cons.prems(4) rs(1) by (metis count_mset_0_iff list.set_intros(2))
    then have "rs' = []" by (cases rs') auto
    then have "ms = []" using rs(3) by simp
    then show ?thesis using step True c'(1) rs(2) by (auto simp: erase_key_def insert_key_def split: Option.bind_split)
  next
    case False
    then have "ms \<noteq> []" using c'(2,3) held_not_complete [of e c'] rs(3) by auto
    then obtain m1 ms' where ms: "ms = m1 # ms'" by (cases ms) auto
    let ?t' = "\<lambda>d'. ?t\<lparr>bt_data := (bt_data ?t)(key \<mapsto> (c', d'))\<rparr>"
    have t': "(bt_data (?t' d'))(key := None) = (bt_data t)(key := None)"
      "bt_data (insert_key d0 (qp_trxid q) key (?t' d')) key = Some (c', d')" for d'
      by (auto simp: insert_key_def)
    have co: "complete B K (\<lambda>p. held e c' p + count (mset rs') p)" using c'(3) False by simp
    have IH: "do { (r, t, ca) \<leftarrow> process_all w d0 q ms (?t' d') ca'; Some (r, bt_data t, ca) } =
       do { (r, ca) \<leftarrow> work_all w q ms (path_str e) d' ca'; Some (r, (bt_data t)(key := None), ca) }" for d' ca'
      using Cons.IH [OF c'(2) Cons.prems(2) rs(3) Cons.prems(4) co t'(2), where ca = ca'] rs(1) unfolding t'(1) by (simp add: fun_upd_def)
    have wk: "work_all w q (msg # ms) (path_str e) d ca =
       do { (m, d, effs, ca) \<leftarrow> w q msg d False ca; (r, ca) \<leftarrow> work_all w q ms (path_str e) d ca; Some ((m, effs) # r, ca) }"
      by (simp add: ms)
    have pr: "Barrier_process w d0 q msg t ca = do { (m, d, effs, ca) \<leftarrow> w q msg d False ca; Some (m, effs, ?t' d, ca) }"
      using step False c'(1) rs(2) by (simp add: Let_def)
    show ?thesis
    proof (cases "w q msg d False ca")
      case (Some x)
      obtain m d' effs ca' where x: "x = (m, d', effs, ca')" by (cases x)
      show ?thesis
        using IH [of d' ca'] pr wk Some x
        by (cases "process_all w d0 q ms (?t' d') ca'"; cases "work_all w q ms (path_str e) d' ca'") (auto simp del: fun_upd_apply)
    qed (simp add: pr wk)
  qed
qed

text \<open>
  C17. Whatever the order in which the messages of a query reach a barrier expert, the expert works on each of them as
  soon as it arrives, takes the last one for the last and none before it, passes the query on once, and leaves no entry
  in its table. The messages are those that come from splitting one message, again and again, into \<open>n\<close> messages whose
  paths end with \<open>n\<close>.
\<close>

theorem barrier_waits_for_all_messages:
  assumes "splits B K (mset rs)" and "B < 2 ^ 31"
    and "map (\<lambda>msg. mt_msg_path (ms_meta msg)) ms = map (\<lambda>r. path_str (e @ r)) rs"
    and "\<And>msg. msg \<in> set ms \<Longrightarrow> GetMsgInfo (ms_meta msg) = (key, path_str e)"
    and "bt_data t key = None"
  shows "do { (r, t, ca) \<leftarrow> process_all w d0 q ms t ca; Some (r, bt_data t, ca) } =
     do { (r, ca) \<leftarrow> work_all w q ms (path_str e) d0 ca; Some (r, bt_data t, ca) }"
proof -
  have "held e Map.empty = (\<lambda>_. 0)" by (auto simp: held_def)
  then have "complete B K (\<lambda>p. held e Map.empty p + count (mset rs) p)" using splits_complete [OF assms(1)] by simp
  moreover have "settled e Map.empty" by (simp add: settled_def)
  moreover have "bt_data (insert_key d0 (qp_trxid q) key t) key = Some (Map.empty, d0)" using assms(5) by (simp add: insert_key_def)
  moreover have "bounded B K r" if "r \<in> set rs" for r using splits_bounded [OF assms(1)] that by simp
  moreover have "(bt_data t)(key := None) = bt_data t" using assms(5) by auto
  ultimately show ?thesis using process_all_is_work_all [OF assms(2) _ assms(4,3), of Map.empty K d0 q t d0 w ca] by simp
qed

definition ex_work :: "nat work" where
  "ex_work q msg d isReady ca = Some (msg, d + length (ms_data msg), if isReady then [InsertResult (qp_trxid q) (replicate (d + length (ms_data msg)) new_value)] else [], ca)"

definition ex_arrivals :: "message list" where
  "ex_arrivals = map (\<lambda>r. ex_message\<lparr>ms_meta := ex_meta\<lparr>mt_msg_path := path_str r\<rparr>\<rparr>) [[2, 2], [2], [2, 2]]"

lemma ex_arrivals_split: "splits 2 2 (mset [[2, 2], [2], [2, 2]])"
proof -
  have "splits 2 2 (add_mset [2] {#[2]#})" using splits.more [OF splits.one, of 2] by (simp add: numeral_2_eq_2)
  from splits.more [OF this, of 2] show ?thesis by (simp add: numeral_2_eq_2 add_mset_commute)
qed

theorem barrier_waits_for_all_messages_witness:
  "(let q = new_QueryPlan\<lparr>qp_experts := ex_experts\<rparr>; t = \<lparr>bt_data = Map.empty, bt_trx = Map.empty\<rparr>
    in do { (r, t, ca) \<leftarrow> process_all ex_work 0 q ex_arrivals t ex_affinity; Some (r, bt_data t, ca) } =
       do { (r, ca) \<leftarrow> work_all ex_work q ex_arrivals [] 0 ex_affinity; Some (r, bt_data t, ca) }) \<and>
   (case work_all ex_work (new_QueryPlan\<lparr>qp_experts := ex_experts\<rparr>) ex_arrivals [] 0 ex_affinity of
      None \<Rightarrow> False
    | Some (r, _) \<Rightarrow> map (length \<circ> snd) r = [0, 0, 1])"
proof -
  have "GetMsgInfo (ms_meta msg) = (mkey_t 256 0 0, path_str [])" if "msg \<in> set ex_arrivals" for msg
    using that by (auto simp: ex_arrivals_def GetMsgInfo_def ex_meta_def)
  moreover have "map (\<lambda>msg. mt_msg_path (ms_meta msg)) ex_arrivals = map (\<lambda>r. path_str ([] @ r)) [[2, 2], [2], [2, 2]]"
    by (simp add: ex_arrivals_def)
  ultimately have "do { (r, t, ca) \<leftarrow> process_all ex_work 0 q ex_arrivals t ex_affinity; Some (r, bt_data t, ca) } =
     do { (r, ca) \<leftarrow> work_all ex_work q ex_arrivals [] 0 ex_affinity; Some (r, bt_data t, ca) }"
    if "t = \<lparr>bt_data = Map.empty, bt_trx = Map.empty\<rparr>" for q t
    using barrier_waits_for_all_messages [OF ex_arrivals_split, of ex_arrivals "[]" "mkey_t 256 0 0" t ex_work 0 q ex_affinity] that by simp
  moreover have "case work_all ex_work (new_QueryPlan\<lparr>qp_experts := ex_experts\<rparr>) ex_arrivals [] 0 ex_affinity of
      None \<Rightarrow> False
    | Some (r, _) \<Rightarrow> map (length \<circ> snd) r = [0, 0, 1]" by code_simp
  ultimately show ?thesis by (simp add: Let_def)
qed

text \<open>What \<open>CreateNextMsg\<close> sends for one of the messages is such a splitting.\<close>

lemma CreateNextMsg_splits:
  assumes "CreateNextMsg sz msg experts data ca = Some (ms, ca')" "mt_msg_path (ms_meta msg) = path_str (e @ p)"
    and "splits B K (add_mset p M)" "length ms \<le> B" "length p < K"
  shows "splits B K (M + mset (replicate (length ms) (p @ [length ms])))"
    and "map (\<lambda>m. mt_msg_path (ms_meta m)) ms = map (\<lambda>r. path_str (e @ r)) (replicate (length ms) (p @ [length ms]))"
proof -
  note paths = CreateNextMsg_paths [OF assms(1,2)]
  then show "splits B K (M + mset (replicate (length ms) (p @ [length ms])))"
    using splits.more [OF assms(3) _ assms(4,5)] by (cases ms) simp_all
  show "map (\<lambda>m. mt_msg_path (ms_meta m)) ms = map (\<lambda>r. path_str (e @ r)) (replicate (length ms) (p @ [length ms]))"
    using paths by (intro nth_equalityI) auto
qed

end
