(* ===== verification/Barrier_Experts.thy ===== *)
theory Barrier_Experts
  imports Barrier_Base "HOL-Library.AList"
begin

text \<open>
  The barrier experts (src/expert/barrier_expert.cpp): what each of them collects from the messages of a query and what
  it sends when all have arrived.

  An unordered map is the list of its entries in the order of insertion. The order in which it is enumerated is not
  specified: it is the argument \<open>enum\<close>. A hash set finds an element iff it holds an equal one. Signed overflow,
  like every other undefined behaviour, is \<open>None\<close>.
\<close>

section \<open>Containers\<close>

fun fold_opt :: "('a \<Rightarrow> 's \<Rightarrow> 's option) \<Rightarrow> 'a list \<Rightarrow> 's \<Rightarrow> 's option" where
  "fold_opt f [] s = Some s"
| "fold_opt f (x # xs) s = do { s \<leftarrow> f x s; fold_opt f xs s }"

text \<open>The entry of \<open>k\<close>, made from \<open>d\<close> if there is none, is replaced by what \<open>f\<close> gives.\<close>

fun table_upd :: "'k \<Rightarrow> 'v \<Rightarrow> ('v \<Rightarrow> 'v option) \<Rightarrow> ('k \<times> 'v) list \<Rightarrow> ('k \<times> 'v) list option" where
  "table_upd k d f [] = do { v \<leftarrow> f d; Some [(k, v)] }"
| "table_upd k d f ((a, v) # t) =
     (if a = k then do { v \<leftarrow> f v; Some ((a, v) # t) } else do { t \<leftarrow> table_upd k d f t; Some ((a, v) # t) })"

definition table_get :: "('k \<times> 'v) list \<Rightarrow> 'k \<Rightarrow> 'v \<Rightarrow> 'v" where
  "table_get t k d = (case map_of t k of None \<Rightarrow> d | Some v \<Rightarrow> v)"

text \<open>The values under a history, which is appended if it is new.\<close>

fun at_history :: "history_t \<Rightarrow> (value_t list \<Rightarrow> value_t list) \<Rightarrow> traverser list \<Rightarrow> traverser list option" where
  "at_history h f [] = Some [(h, f [])]"
| "at_history h f ((g, vs) # d) =
     do { e \<leftarrow> history_eq g h;
          if e then Some ((g, f vs) # d) else do { d \<leftarrow> at_history h f d; Some ((g, vs) # d) } }"

definition int_add :: "int \<Rightarrow> int \<Rightarrow> int option" where
  "int_add a b = (if - (2 ^ 31) \<le> a + b \<and> a + b < 2 ^ 31 then Some (a + b) else None)"

text \<open>Texts that are too long for a message are cut into several values. With a size of 0 the loop does not end.\<close>

partial_function (option) split_text :: "u64 \<Rightarrow> string \<Rightarrow> value_t list option" where
  "split_text max_size temp =
     (let v = str2str (take (unat max_size) temp) new_value
      in if unat max_size < length temp then do { r \<leftarrow> split_text max_size (drop (unat max_size) temp); Some (v # r) }
         else Some [v])"

declare split_text.simps [code]

definition list_string :: "value_t list \<Rightarrow> string option" where
  "list_string vs =
     do { ss \<leftarrow> option_map DebugString vs;
          let t = concat (map (\<lambda>s. s @ '', '') ss);
          Some (if vs \<noteq> [] then butlast (butlast t) else t) }"

definition step_params :: "query_plan \<Rightarrow> message \<Rightarrow> value_t list option" where
  "step_params q msg = do { ex \<leftarrow> expert_at (qp_experts q) (mt_step (ms_meta msg)); Some (ex_params ex) }"

section \<open>End\<close>

record end_data =
  ed_result :: "value_t list"
  ed_is_abort :: bool

definition End_do_work :: "end_data work" where
  "End_do_work q msg d isReady ca =
     (let qid = mt_qid (ms_meta msg)
      in if ed_is_abort d then Some (msg, d, [], ca)
         else if mt_msg_type (ms_meta msg) = M_ABORT
         then do { r \<leftarrow> (case ms_data msg of [] \<Rightarrow> Some [] | p # _ \<Rightarrow> do { v \<leftarrow> vec_at (snd p) 0; Some [v] });
                   Some (msg, \<lparr>ed_result = r, ed_is_abort = True\<rparr>, [InsertAbortResult qid r], ca) }
         else let r = ed_result d @ concat (map snd (ms_data msg))
              in Some (msg, d\<lparr>ed_result := r\<rparr>, if isReady then [InsertResult qid r] else [], ca))"

section \<open>Aggregate\<close>

record agg_data =
  ad_agg_data :: "value_t list"
  ad_msg_data :: "traverser list"

definition collect_agg :: "traverser \<Rightarrow> agg_data \<Rightarrow> agg_data option" where
  "collect_agg p d =
     do { m \<leftarrow> at_history (fst p) (\<lambda>vs. vs @ snd p) (ad_msg_data d);
          Some \<lparr>ad_agg_data = ad_agg_data d @ snd p, ad_msg_data = m\<rparr> }"

definition Aggregate_do_work :: "meta \<Rightarrow> nat \<Rightarrow> int \<Rightarrow> agg_data work" where
  "Aggregate_do_work raw num_nodes sz q msg d isReady ca =
     do { d \<leftarrow> fold_opt collect_agg (ms_data msg) d;
          if isReady
          then do { params \<leftarrow> step_params q msg;
                    CHECK (length params = 1);
                    key \<leftarrow> value_t2int (params ! 0);
                    let feed = CreateFeedMsg raw msg key num_nodes (ad_agg_data d);
                    (m, effs, ca) \<leftarrow> pass_on sz q msg (ad_msg_data d) ca;
                    Some (m, d, InsertAggData (agg_t_make (mt_qid (ms_meta msg)) key) (ad_agg_data d) # map Send feed @ effs, ca) }
          else Some (msg, d, [], ca) }"

section \<open>Cap\<close>

text \<open>\<open>agg\<close> is what the data storage holds for a key.\<close>

fun cap_values :: "(agg_t \<Rightarrow> value_t list) \<Rightarrow> u64 \<Rightarrow> u64 \<Rightarrow> value_t list \<Rightarrow> value_t list option" where
  "cap_values agg qid max_size [] = Some []"
| "cap_values agg qid max_size [_] = None"
| "cap_values agg qid max_size (k # s # ps) =
     do { se_key \<leftarrow> value_t2int k;
          l \<leftarrow> list_string (agg (agg_t_make qid se_key));
          vs \<leftarrow> split_text max_size (value_t2string s @ '':['' @ l @ '']'');
          r \<leftarrow> cap_values agg qid max_size ps;
          Some (vs @ r) }"

definition Cap_do_work :: "(agg_t \<Rightarrow> value_t list) \<Rightarrow> int \<Rightarrow> unit work" where
  "Cap_do_work agg sz q msg d isReady ca =
     (if isReady
      then do { params \<leftarrow> step_params q msg;
                let max_size = ms_max_data_size msg - of_nat (MemSize_data [([], [])]) - of_nat (MemSize_value new_value);
                CHECK (length params mod 2 = 0);
                vs \<leftarrow> cap_values agg (mt_qid (ms_meta msg)) max_size params;
                (m, effs, ca) \<leftarrow> pass_on sz q msg [([], vs)] ca;
                Some (m, d, effs, ca) }
      else Some (msg, d, [], ca))"

section \<open>Count\<close>

type_synonym count_data = "(int \<times> history_t \<times> int) list"

definition collect_count :: "int \<Rightarrow> traverser \<Rightarrow> count_data \<Rightarrow> count_data option" where
  "collect_count branch_key p d =
     do { cnt \<leftarrow> (if snd p \<noteq> [] then value_t2int (hd (snd p)) else Some 0);
          (branch_value, h) \<leftarrow> get_branch_value (fst p) branch_key True;
          table_upd branch_value (h, 0) (\<lambda>(g, n). do { n \<leftarrow> int_add n cnt; Some (g, n) }) d }"

definition count_result :: "count_data \<Rightarrow> traverser list" where
  "count_result d = map (\<lambda>(_, h, n). (h, [str2int (int_str n) new_value])) d"

definition Count_do_work :: "(count_data \<Rightarrow> count_data) \<Rightarrow> int \<Rightarrow> count_data work" where
  "Count_do_work enum sz q msg d isReady ca =
     do { d \<leftarrow> fold_opt (collect_count (get_branch_key (ms_meta msg))) (ms_data msg) d;
          if isReady
          then do { (m, effs, ca) \<leftarrow> pass_on sz q msg (count_result (enum d)) ca; Some (m, d, effs, ca) }
          else Some (msg, d, [], ca) }"

section \<open>Dedup\<close>

record dedup_data =
  dd_data_map :: "(int \<times> traverser list) list"
  dd_his_map :: "(int \<times> history_t list) list"
  dd_val_map :: "(int \<times> value_t list) list"

text \<open>A history that came without values is dropped when the next one comes.\<close>

definition drop_empty :: "traverser list \<Rightarrow> traverser list" where
  "drop_empty dv = (case dv of (_, []) # _ \<Rightarrow> [] | _ \<Rightarrow> dv)"

fun fresh_values :: "value_t list \<Rightarrow> value_t list \<Rightarrow> value_t list \<times> value_t list" where
  "fresh_values [] seen = ([], seen)"
| "fresh_values (v # vs) seen =
     (if v \<in> set seen then fresh_values vs seen
      else case fresh_values vs (seen @ [v]) of (new, seen) \<Rightarrow> (v # new, seen))"

definition collect_dedup :: "int \<Rightarrow> int list \<Rightarrow> traverser \<Rightarrow> dedup_data \<Rightarrow> dedup_data option" where
  "collect_dedup branch_key key_set p d =
     do { (branch_value, _) \<leftarrow> get_branch_value (fst p) branch_key False;
          let (new, d) =
            (if key_set \<noteq> [] \<and> snd p \<noteq> []
             then let his = filter (\<lambda>(k, _). k \<in> set key_set) (fst p);
                      seen = table_get (dd_his_map d) branch_value []
                  in if his \<in> set seen then ([], d)
                     else ([hd (snd p)], d\<lparr>dd_his_map := AList.update branch_value (seen @ [his]) (dd_his_map d)\<rparr>)
             else case fresh_values (snd p) (table_get (dd_val_map d) branch_value []) of
                    (new, seen) \<Rightarrow> (new, d\<lparr>dd_val_map := AList.update branch_value seen (dd_val_map d)\<rparr>));
          m \<leftarrow> table_upd branch_value [] (\<lambda>dv. at_history (fst p) (\<lambda>vs. vs @ new) (drop_empty dv)) (dd_data_map d);
          Some (d\<lparr>dd_data_map := m\<rparr>) }"

definition dedup_result :: "(int \<times> traverser list) list \<Rightarrow> traverser list" where
  "dedup_result t = concat (map snd t)"

definition Dedup_do_work :: "((int \<times> traverser list) list \<Rightarrow> (int \<times> traverser list) list) \<Rightarrow> int \<Rightarrow> dedup_data work" where
  "Dedup_do_work enum sz q msg d isReady ca =
     do { params \<leftarrow> step_params q msg;
          key_set \<leftarrow> option_map value_t2int params;
          d \<leftarrow> fold_opt (collect_dedup (get_branch_key (ms_meta msg)) key_set) (ms_data msg) d;
          if isReady
          then do { (m, effs, ca) \<leftarrow> pass_on sz q msg (dedup_result (enum (dd_data_map d))) ca; Some (m, d, effs, ca) }
          else Some (msg, d, [], ca) }"

section \<open>Group\<close>

type_synonym group_data = "(int \<times> history_t \<times> (string \<times> value_t list) list) list"

definition collect_group :: "int \<Rightarrow> int \<Rightarrow> traverser \<Rightarrow> group_data \<Rightarrow> group_data option" where
  "collect_group branch_key label_step p d =
     do { key \<leftarrow> (case fst (get_history_value (fst p) label_step False) of None \<Rightarrow> Some [] | Some k \<Rightarrow> DebugString k);
          (branch_value, h) \<leftarrow> get_branch_value (fst p) branch_key True;
          table_upd branch_value (h, [])
            (\<lambda>(g, m). do { m \<leftarrow> fold_opt (\<lambda>val m. do { k \<leftarrow> (if label_step = -1 then DebugString val else Some key);
                                                  Some (map_push k val m) }) (snd p) m;
                           Some (g, m) }) d }"

definition map_string :: "bool \<Rightarrow> string \<times> value_t list \<Rightarrow> string option" where
  "map_string isCount item =
     (if isCount then Some (fst item @ '':'' @ nat_str (length (snd item)))
      else do { l \<leftarrow> list_string (snd item); Some (fst item @ '':['' @ l @ '']'') })"

definition group_entry :: "u64 \<Rightarrow> bool \<Rightarrow> int \<times> history_t \<times> (string \<times> value_t list) list \<Rightarrow> traverser list \<Rightarrow> traverser list option" where
  "group_entry max_data_size isCount p msg_data =
     (let (_, h, m) = p;
          max_size = max_data_size - of_nat (MemSize_data msg_data) - of_nat (MemSize_history h) - of_nat (MemSize_value new_value)
      in do { vs \<leftarrow> option_map (\<lambda>item. do { s \<leftarrow> map_string isCount item; split_text max_size s }) m;
              Some (msg_data @ [(h, concat vs)]) })"

definition Group_do_work :: "(group_data \<Rightarrow> group_data) \<Rightarrow> int \<Rightarrow> group_data work" where
  "Group_do_work enum sz q msg d isReady ca =
     do { params \<leftarrow> step_params q msg;
          CHECK (length params = 2);
          label_step \<leftarrow> value_t2int (params ! 1);
          d \<leftarrow> fold_opt (collect_group (get_branch_key (ms_meta msg)) label_step) (ms_data msg) d;
          if isReady
          then do { isCount \<leftarrow> value_t2int (params ! 0);
                    msg_data \<leftarrow> fold_opt (group_entry (ms_max_data_size msg) (isCount \<noteq> 0)) (enum d) [];
                    (m, effs, ca) \<leftarrow> pass_on sz q msg msg_data ca;
                    Some (m, d, effs, ca) }
          else Some (msg, d, [], ca) }"

section \<open>Order\<close>

text \<open>A \<open>multiset\<close> is the list of its elements in order; a new one goes before the first that is greater.\<close>

fun multiset_insert :: "value_t \<Rightarrow> value_t list \<Rightarrow> value_t list option" where
  "multiset_insert v [] = Some [v]"
| "multiset_insert v (w # ws) =
     do { l \<leftarrow> value_less v w; if l then Some (v # w # ws) else do { r \<leftarrow> multiset_insert v ws; Some (w # r) } }"

fun value_map_upd :: "value_t \<Rightarrow> ('a list \<Rightarrow> 'a list option) \<Rightarrow> (value_t \<times> 'a list) list \<Rightarrow> (value_t \<times> 'a list) list option" where
  "value_map_upd key f [] = do { x \<leftarrow> f []; Some [(key, x)] }"
| "value_map_upd key f ((k, x) # m) =
     do { l \<leftarrow> value_less key k;
          if l then do { y \<leftarrow> f []; Some ((key, y) # (k, x) # m) }
          else do { g \<leftarrow> value_less k key;
                    if g then do { m \<leftarrow> value_map_upd key f m; Some ((k, x) # m) }
                    else do { y \<leftarrow> f x; Some ((k, y) # m) } } }"

record order_data =
  od_data_map :: "(int \<times> history_t \<times> (value_t \<times> value_t list) list) list"
  od_data_set :: "(int \<times> history_t \<times> value_t list) list"

definition collect_set :: "int \<Rightarrow> traverser \<Rightarrow> (int \<times> history_t \<times> value_t list) list \<Rightarrow> (int \<times> history_t \<times> value_t list) list option" where
  "collect_set branch_key p t =
     do { (branch_value, h) \<leftarrow> get_branch_value (fst p) branch_key True;
          table_upd branch_value (h, []) (\<lambda>(g, s). do { s \<leftarrow> fold_opt multiset_insert (snd p) s; Some (g, s) }) t }"

definition collect_map :: "int \<Rightarrow> int \<Rightarrow> traverser \<Rightarrow> (int \<times> history_t \<times> (value_t \<times> value_t list) list) list \<Rightarrow>
    (int \<times> history_t \<times> (value_t \<times> value_t list) list) list option" where
  "collect_map branch_key label_step p t =
     do { let key = (case fst (get_history_value (fst p) label_step False) of None \<Rightarrow> new_value | Some k \<Rightarrow> k);
          (branch_value, h) \<leftarrow> get_branch_value (fst p) branch_key True;
          table_upd branch_value (h, [])
            (\<lambda>(g, m). do { m \<leftarrow> value_map_upd key (fold_opt multiset_insert (snd p)) m; Some (g, m) }) t }"

definition collect_order :: "int \<Rightarrow> int \<Rightarrow> traverser \<Rightarrow> order_data \<Rightarrow> order_data option" where
  "collect_order branch_key label_step p d =
     (if label_step < 0 then do { t \<leftarrow> collect_set branch_key p (od_data_set d); Some (d\<lparr>od_data_set := t\<rparr>) }
      else do { t \<leftarrow> collect_map branch_key label_step p (od_data_map d); Some (d\<lparr>od_data_map := t\<rparr>) })"

definition INCR :: int where "INCR = 0"

definition order_set :: "int \<Rightarrow> int \<times> history_t \<times> value_t list \<Rightarrow> traverser" where
  "order_set order p = (let (_, h, s) = p in (h, if order = INCR then s else rev s))"

definition order_map :: "int \<Rightarrow> int \<times> history_t \<times> (value_t \<times> value_t list) list \<Rightarrow> traverser" where
  "order_map order p = (let (_, h, m) = p in (h, if order = INCR then concat (map snd m) else concat (map (rev \<circ> snd) (rev m))))"

definition Order_do_work :: "((int \<times> history_t \<times> (value_t \<times> value_t list) list) list \<Rightarrow> (int \<times> history_t \<times> (value_t \<times> value_t list) list) list) \<Rightarrow>
    ((int \<times> history_t \<times> value_t list) list \<Rightarrow> (int \<times> history_t \<times> value_t list) list) \<Rightarrow> int \<Rightarrow> order_data work" where
  "Order_do_work enum_map enum_set sz q msg d isReady ca =
     do { params \<leftarrow> step_params q msg;
          CHECK (length params = 2);
          label_step \<leftarrow> value_t2int (params ! 0);
          d \<leftarrow> fold_opt (collect_order (get_branch_key (ms_meta msg)) label_step) (ms_data msg) d;
          if isReady
          then do { order \<leftarrow> value_t2int (params ! 1);
                    let msg_data = (if label_step < 0 then map (order_set order) (enum_set (od_data_set d))
                                    else map (order_map order) (enum_map (od_data_map d)));
                    (m, effs, ca) \<leftarrow> pass_on sz q msg msg_data ca;
                    Some (m, d, effs, ca) }
          else Some (msg, d, [], ca) }"

section \<open>Post-validation\<close>

text \<open>\<open>ct\<close> is the commit time that the status table gives after the status is updated.\<close>

definition PostValidation_do_work :: "u64 \<Rightarrow> nat \<Rightarrow> bool work" where
  "PostValidation_do_work ct num_nodes q msg isAbort isReady ca =
     (let isAbort = (mt_msg_type (ms_meta msg) = M_ABORT \<or> isAbort)
      in if isReady
         then if isAbort then Some (msg, isAbort, map Send (CreateBroadcastMsg msg M_ABORT num_nodes), ca)
              else do { CHECK (ct \<noteq> 0);
                        let data = [([], [uint64_t2value_t ct new_value])];
                        Some (msg, isAbort, UpdateStatus (qp_trxid q) #
                          map (\<lambda>m. Send (m\<lparr>ms_data := data\<rparr>)) (CreateBroadcastMsg msg M_COMMIT num_nodes), ca) }
         else Some (msg, isAbort, [], ca))"

section \<open>Range\<close>

type_synonym range_data = "(int \<times> int \<times> traverser list) list"

definition INT_MAX :: int where "INT_MAX = 2 ^ 31 - 1"

fun range_values :: "int \<Rightarrow> int \<Rightarrow> value_t list \<Rightarrow> int \<Rightarrow> (value_t list \<times> int) option" where
  "range_values start fin [] c = Some ([], c)"
| "range_values start fin (v # vs) c =
     (if c > fin then Some ([], c)
      else do { c1 \<leftarrow> int_add c 1; (r, c2) \<leftarrow> range_values start fin vs c1; Some (if start \<le> c then v # r else r, c2) })"

definition collect_range :: "int \<Rightarrow> int \<Rightarrow> int \<Rightarrow> traverser \<Rightarrow> range_data \<Rightarrow> range_data option" where
  "collect_range branch_key start fin p d =
     do { (branch_value, _) \<leftarrow> get_branch_value (fst p) branch_key False;
          table_upd branch_value (0, [])
            (\<lambda>(c, dv). if dv \<noteq> [] \<and> c > fin then Some (c, dv)
                       else do { (new, c) \<leftarrow> range_values start fin (snd p) c;
                                 dv \<leftarrow> at_history (fst p) (\<lambda>vs. vs @ new) (drop_empty dv);
                                 Some (c, dv) }) d }"

definition range_result :: "range_data \<Rightarrow> traverser list" where
  "range_result t = concat (map (snd \<circ> snd) t)"

definition Range_do_work :: "(range_data \<Rightarrow> range_data) \<Rightarrow> int \<Rightarrow> range_data work" where
  "Range_do_work enum sz q msg d isReady ca =
     do { params \<leftarrow> step_params q msg;
          CHECK (length params = 2);
          start \<leftarrow> value_t2int (params ! 0);
          e \<leftarrow> value_t2int (params ! 1);
          d \<leftarrow> fold_opt (collect_range (get_branch_key (ms_meta msg)) start (if e = -1 then INT_MAX else e)) (ms_data msg) d;
          if isReady
          then do { (m, effs, ca) \<leftarrow> pass_on sz q msg (range_result (enum d)) ca; Some (m, d, effs, ca) }
          else Some (msg, d, [], ca) }"

section \<open>Coin\<close>

text \<open>\<open>rng i n\<close> are the \<open>n\<close> random numbers that the library gives for the \<open>i\<close>th pair of the message.\<close>

definition coin_values :: "dbl \<Rightarrow> dbl list \<Rightarrow> value_t list \<Rightarrow> value_t list" where
  "coin_values rate rs vs = map snd (filter (\<lambda>(r, _). dbl_less r rate) (zip rs vs))"

definition collect_coin :: "int \<Rightarrow> dbl \<Rightarrow> dbl list \<Rightarrow> traverser \<Rightarrow> range_data \<Rightarrow> range_data option" where
  "collect_coin branch_key rate rs p d =
     do { (branch_value, _) \<leftarrow> get_branch_value (fst p) branch_key False;
          table_upd branch_value (0, [])
            (\<lambda>(c, dv). do { dv \<leftarrow> at_history (fst p) (\<lambda>vs. vs @ coin_values rate rs (snd p)) (drop_empty dv); Some (c, dv) }) d }"

definition Coin_do_work :: "(nat \<Rightarrow> nat \<Rightarrow> dbl list) \<Rightarrow> (range_data \<Rightarrow> range_data) \<Rightarrow> int \<Rightarrow> range_data work" where
  "Coin_do_work rng enum sz q msg d isReady ca =
     do { params \<leftarrow> step_params q msg;
          CHECK (length params = 1);
          rate \<leftarrow> value_t2double (params ! 0);
          d \<leftarrow> fold_opt (\<lambda>(i, p). collect_coin (get_branch_key (ms_meta msg)) (dbl_of_bits rate) (rng i (length (snd p))) p)
                 (enumerate 0 (ms_data msg)) d;
          if isReady
          then do { (m, effs, ca) \<leftarrow> pass_on sz q msg (range_result (enum d)) ca; Some (m, d, effs, ca) }
          else Some (msg, d, [], ca) }"

section \<open>Math\<close>

text \<open>
  Arithmetic of doubles: the exact result, rounded to the nearest double with ties to even. \<open>dbl_ratio s p q\<close> is the
  double nearest to \<open>p / q\<close> with the sign \<open>s\<close>.
\<close>

fun ilog2 :: "nat \<Rightarrow> nat" where
  "ilog2 n = (if n < 2 then 0 else Suc (ilog2 (n div 2)))"

declare ilog2.simps [simp del]

definition scaled_round :: "nat \<Rightarrow> nat \<Rightarrow> int \<Rightarrow> nat" where
  "scaled_round p q e = (if 0 \<le> e then round_half_even p (q * 2 ^ nat e) else round_half_even (p * 2 ^ nat (- e)) q)"

definition dbl_ratio :: "bool \<Rightarrow> nat \<Rightarrow> nat \<Rightarrow> u64" where
  "dbl_ratio s p q =
     (let k = int (ilog2 p) - int (ilog2 q);
          below = (if 0 \<le> k then p < q * 2 ^ nat k else p * 2 ^ nat (- k) < q);
          e = max (if below then k - 53 else k - 52) (- 1074);
          m = scaled_round p q e;
          bits = (if m < 2 ^ 52 then m else nat (e + 1075) * 2 ^ 52 + (m - 2 ^ 52))
      in (if s then push_bit 63 1 else 0) OR of_nat (min bits (0x7FF * 2 ^ 52)))"

definition dbl_nan :: u64 where "dbl_nan = 0xFFF8000000000000"

definition dbl_inf :: "bool \<Rightarrow> u64" where
  "dbl_inf s = (if s then 0xFFF0000000000000 else 0x7FF0000000000000)"

text \<open>The sign of a sum of opposite numbers is plus; a sum of two zeros is negative iff both are.\<close>

definition dbl_add :: "u64 \<Rightarrow> u64 \<Rightarrow> u64" where
  "dbl_add x y =
     (case (dbl_of_bits x, dbl_of_bits y) of
        (NotANumber, _) \<Rightarrow> x OR 0x8000000000000
      | (_, NotANumber) \<Rightarrow> y OR 0x8000000000000
      | (Inf a, Inf b) \<Rightarrow> if a = b then x else dbl_nan
      | (Inf a, Fin _ _) \<Rightarrow> x
      | (Fin _ _, Inf b) \<Rightarrow> y
      | (Fin m e, Fin n f) \<Rightarrow>
          let g = min e f; t = m * 2 ^ nat (e - g) + n * 2 ^ nat (f - g)
          in if t = 0 then (if bit x 63 \<and> bit y 63 then push_bit 63 1 else 0)
             else if 0 \<le> g then dbl_ratio (t < 0) (nat \<bar>t\<bar> * 2 ^ nat g) 1 else dbl_ratio (t < 0) (nat \<bar>t\<bar>) (2 ^ nat (- g)))"

definition dbl_of_int :: "int \<Rightarrow> u64" where
  "dbl_of_int i = (if i = 0 then 0 else dbl_ratio (i < 0) (nat \<bar>i\<bar>) 1)"

text \<open>The divisor is a positive number.\<close>

definition dbl_div_int :: "u64 \<Rightarrow> int \<Rightarrow> u64" where
  "dbl_div_int x n =
     (case dbl_of_bits x of
        NotANumber \<Rightarrow> x OR 0x8000000000000
      | Inf a \<Rightarrow> x
      | Fin m e \<Rightarrow>
          if m = 0 then x
          else if 0 \<le> e then dbl_ratio (m < 0) (nat \<bar>m\<bar> * 2 ^ nat e) (nat n)
          else dbl_ratio (m < 0) (nat \<bar>m\<bar>) (nat n * 2 ^ nat (- e)))"

record math_meta_t =
  mm_count :: int
  mm_value :: value_t
  mm_history :: history_t

type_synonym math_data = "(int \<times> math_meta_t) list"

definition Math_SUM :: int where "Math_SUM = 0"
definition Math_MAX :: int where "Math_MAX = 1"
definition Math_MIN :: int where "Math_MIN = 2"
definition Math_MEAN :: int where "Math_MEAN = 3"

definition math_sum :: "(string \<Rightarrow> u64) \<Rightarrow> math_meta_t \<Rightarrow> value_t \<Rightarrow> math_meta_t option" where
  "math_sum atof d v =
     do { n \<leftarrow> int_add (mm_count d) 1;
          let d = d\<lparr>mm_count := n\<rparr>;
          if n = 1 then Some (d\<lparr>mm_value := v\<rparr>)
          else let temp = mm_value d; cleared = temp\<lparr>v_content := []\<rparr>
               in if v_type v = 1
                  then do { a \<leftarrow> value_t2int temp; b \<leftarrow> value_t2int v; s \<leftarrow> int_add a b;
                            Some (d\<lparr>mm_value := str2int (int_str s) cleared\<rparr>) }
                  else if v_type v = 2
                  then do { a \<leftarrow> value_t2double temp; b \<leftarrow> value_t2double v;
                            Some (d\<lparr>mm_value := str2double atof (dbl_str (dbl_add a b)) cleared\<rparr>) }
                  else Some (d\<lparr>mm_value := cleared\<rparr>) }"

definition math_max :: "math_meta_t \<Rightarrow> value_t \<Rightarrow> math_meta_t option" where
  "math_max d v =
     do { b \<leftarrow> (if mm_count d = 0 then Some True else value_less (mm_value d) v);
          n \<leftarrow> int_add (mm_count d) 1;
          Some (d\<lparr>mm_value := (if b then v else mm_value d), mm_count := n\<rparr>) }"

definition math_min :: "math_meta_t \<Rightarrow> value_t \<Rightarrow> math_meta_t option" where
  "math_min d v =
     do { b \<leftarrow> (if mm_count d = 0 then Some True else value_greater (mm_value d) v);
          n \<leftarrow> int_add (mm_count d) 1;
          Some (d\<lparr>mm_value := (if b then v else mm_value d), mm_count := n\<rparr>) }"

definition to_double :: "(string \<Rightarrow> u64) \<Rightarrow> bool \<Rightarrow> math_meta_t \<Rightarrow> math_meta_t option" where
  "to_double atof isMean d =
     (let temp = mm_value d; cleared = temp\<lparr>v_content := []\<rparr>; n = (if isMean then mm_count d else 1)
      in if v_type temp = 1
         then do { a \<leftarrow> value_t2int temp;
                   Some (d\<lparr>mm_value := str2double atof (dbl_str (dbl_div_int (dbl_of_int a) n)) cleared\<rparr>) }
         else if v_type temp = 2
         then do { a \<leftarrow> value_t2double temp; Some (d\<lparr>mm_value := str2double atof (dbl_str (dbl_div_int a n)) cleared\<rparr>) }
         else Some (d\<lparr>mm_value := cleared\<rparr>))"

definition math_op :: "(string \<Rightarrow> u64) \<Rightarrow> int \<Rightarrow> math_meta_t \<Rightarrow> value_t \<Rightarrow> math_meta_t option" where
  "math_op atof math_type d v =
     (if math_type = Math_SUM \<or> math_type = Math_MEAN then math_sum atof d v
      else if math_type = Math_MAX then math_max d v
      else if math_type = Math_MIN then math_min d v
      else None)"

definition collect_math :: "(string \<Rightarrow> u64) \<Rightarrow> int \<Rightarrow> int \<Rightarrow> traverser \<Rightarrow> math_data \<Rightarrow> math_data option" where
  "collect_math atof branch_key math_type p d =
     do { (branch_value, h) \<leftarrow> get_branch_value (fst p) branch_key True;
          table_upd branch_value \<lparr>mm_count = 0, mm_value = new_value, mm_history = h\<rparr>
            (fold_opt (\<lambda>v m. math_op atof math_type m v) (snd p)) d }"

definition math_result :: "(string \<Rightarrow> u64) \<Rightarrow> bool \<Rightarrow> int \<times> math_meta_t \<Rightarrow> traverser option" where
  "math_result atof isMean p =
     (if mm_count (snd p) > 0 then do { d \<leftarrow> to_double atof isMean (snd p); Some (mm_history d, [mm_value d]) }
      else Some (mm_history (snd p), []))"

definition Math_do_work :: "(string \<Rightarrow> u64) \<Rightarrow> (math_data \<Rightarrow> math_data) \<Rightarrow> int \<Rightarrow> math_data work" where
  "Math_do_work atof enum sz q msg d isReady ca =
     do { params \<leftarrow> step_params q msg;
          CHECK (length params = 1);
          math_type \<leftarrow> value_t2int (params ! 0);
          d \<leftarrow> fold_opt (collect_math atof (get_branch_key (ms_meta msg)) math_type) (ms_data msg) d;
          if isReady
          then do { msg_data \<leftarrow> option_map (math_result atof (math_type = Math_MEAN)) (enum d);
                    (m, effs, ca) \<leftarrow> pass_on sz q msg msg_data ca;
                    Some (m, d, effs, ca) }
          else Some (msg, d, [], ca) }"

section \<open>Collecting by branch\<close>

text \<open>What a list of pairs makes of an entry, or of the absence of one.\<close>

fun entry_after :: "('p \<Rightarrow> 'v) \<Rightarrow> ('p \<Rightarrow> 'v \<Rightarrow> 'v option) \<Rightarrow> 'p list \<Rightarrow> 'v option \<Rightarrow> 'v option option" where
  "entry_after start upd [] v = Some v"
| "entry_after start upd (p # ps) v =
     do { w \<leftarrow> upd p (case v of None \<Rightarrow> start p | Some v \<Rightarrow> v); entry_after start upd ps (Some w) }"

lemma entry_after_Some: "entry_after start upd qs (Some v) = map_option Some (fold_opt upd qs v)"
  by (induction qs arbitrary: v) (auto split: Option.bind_split)

lemma entry_after_None: "entry_after start upd (p # qs) None = map_option Some (fold_opt upd (p # qs) (start p))"
  by (auto simp: entry_after_Some split: Option.bind_split)

lemma table_upd_Some:
  "table_upd k d f t = Some t' \<longleftrightarrow>
     (\<exists>w. f (case map_of t k of None \<Rightarrow> d | Some v \<Rightarrow> v) = Some w \<and> t' = AList.update k w t)"
  by (induction t arbitrary: t') (auto simp: bind_eq_Some_conv)

text \<open>
  An expert that keeps one entry for each branch value: every pair changes the entry of its branch. The table after any
  number of pairs is what the pairs of each branch, taken alone, make of that branch's entry.
\<close>

locale collector =
  fixes collect :: "'p \<Rightarrow> ('k \<times> 'v) list \<Rightarrow> ('k \<times> 'v) list option"
    and key :: "'p \<Rightarrow> 'k option" and start :: "'p \<Rightarrow> 'v" and upd :: "'p \<Rightarrow> 'v \<Rightarrow> 'v option"
  assumes collect_is_upd: "collect p t = do { k \<leftarrow> key p; table_upd k (start p) (upd p) t }"
begin

lemma collected:
  assumes "\<And>p. p \<in> set ps \<Longrightarrow> key p = Some (k p)"
    and "\<And>b. \<exists>v. entry_after start upd (filter (\<lambda>p. k p = b) ps) (map_of t b) = Some v"
  shows "\<exists>t'. fold_opt collect ps t = Some t' \<and> (\<forall>b. entry_after start upd (filter (\<lambda>p. k p = b) ps) (map_of t b) = Some (map_of t' b))"
  using assms
proof (induction ps arbitrary: t)
  case (Cons p ps)
  obtain v where v: "entry_after start upd (filter (\<lambda>q. k q = k p) (p # ps)) (map_of t (k p)) = Some v" using Cons.prems(2) by blast
  then obtain w where w: "upd p (case map_of t (k p) of None \<Rightarrow> start p | Some v \<Rightarrow> v) = Some w" by (auto split: Option.bind_splits)
  let ?t = "AList.update (k p) w t"
  have c: "collect p t = Some ?t" using w Cons.prems(1) [of p] by (simp add: collect_is_upd table_upd_Some)
  have e: "entry_after start upd (filter (\<lambda>q. k q = b) (p # ps)) (map_of t b) = entry_after start upd (filter (\<lambda>q. k q = b) ps) (map_of ?t b)" for b
    using w by (auto simp: update_conv' )
  have "\<exists>v. entry_after start upd (filter (\<lambda>q. k q = b) ps) (map_of ?t b) = Some v" for b using Cons.prems(2) [of b] unfolding e .
  then obtain t' where "fold_opt collect ps ?t = Some t'" "\<And>b. entry_after start upd (filter (\<lambda>q. k q = b) ps) (map_of ?t b) = Some (map_of t' b)"
    using Cons.IH [of ?t] Cons.prems(1) by auto
  then show ?case using c e by auto
qed simp

text \<open>From nothing: the branches that come, each with what its pairs make of it.\<close>

lemma collected_from_nothing:
  assumes "\<And>p. p \<in> set ps \<Longrightarrow> key p = Some (k p)"
    and "\<And>b p qs. filter (\<lambda>p. k p = b) ps = p # qs \<Longrightarrow> \<exists>v. fold_opt upd (p # qs) (start p) = Some v \<and> good b p qs (Some v)"
  shows "\<exists>t. fold_opt collect ps [] = Some t \<and>
     (\<forall>b. case filter (\<lambda>p. k p = b) ps of [] \<Rightarrow> map_of t b = None | p # qs \<Rightarrow> good b p qs (map_of t b))"
proof -
  have "\<exists>v. entry_after start upd (filter (\<lambda>p. k p = b) ps) (map_of [] b) = Some v" for b
    using assms(2) [of b] entry_after_None [of start upd] by (cases "filter (\<lambda>p. k p = b) ps") fastforce+
  from collected [OF assms(1) this] obtain t where t: "fold_opt collect ps [] = Some t"
    "\<And>b. entry_after start upd (filter (\<lambda>p. k p = b) ps) None = Some (map_of t b)" by auto
  have "case filter (\<lambda>p. k p = b) ps of [] \<Rightarrow> map_of t b = None | p # qs \<Rightarrow> good b p qs (map_of t b)" for b
    using assms(2) [of b] t(2) [of b] entry_after_None [of start upd] by (cases "filter (\<lambda>p. k p = b) ps") fastforce+
  then show ?thesis using t(1) by blast
qed

end

text \<open>The branch of a pair, if it can be determined, the history kept for it, and the number it carries.\<close>

definition branch_of :: "int \<Rightarrow> traverser \<Rightarrow> int option" where
  "branch_of branch_key p = map_option fst (get_branch_value (fst p) branch_key True)"

definition kept_history :: "int \<Rightarrow> traverser \<Rightarrow> history_t" where
  "kept_history branch_key p = (case get_branch_value (fst p) branch_key True of None \<Rightarrow> [] | Some (_, h) \<Rightarrow> h)"

definition count_of :: "traverser \<Rightarrow> int option" where
  "count_of p = (if snd p \<noteq> [] then value_t2int (hd (snd p)) else Some 0)"

lemma branch_of_keep: "branch_of branch_key p = map_option fst (get_branch_value (fst p) branch_key False)"
  by (auto simp: branch_of_def get_branch_value_def get_history_value_def split: option.splits Option.bind_split)

lemmas collector_defs = branch_of_def kept_history_def count_of_def map_option_case

interpretation counting: collector "collect_count branch_key"
    "\<lambda>p. do { _ \<leftarrow> count_of p; branch_of branch_key p }" "\<lambda>p. (kept_history branch_key p, 0)"
    "\<lambda>p (g, n). do { cnt \<leftarrow> count_of p; n \<leftarrow> int_add n cnt; Some (g, n) }"
  for branch_key
  by unfold_locales (auto simp: collect_count_def collector_defs split: Option.bind_split option.splits)

interpretation ordering: collector "collect_set branch_key" "branch_of branch_key" "\<lambda>p. (kept_history branch_key p, [])"
    "\<lambda>p (g, s). do { s \<leftarrow> fold_opt multiset_insert (snd p) s; Some (g, s) }"
  for branch_key
  by unfold_locales (auto simp: collect_set_def collector_defs split: Option.bind_split option.splits)

interpretation ranging: collector "collect_range branch_key first fin" "branch_of branch_key" "\<lambda>p. (0, [])"
    "\<lambda>p (c, dv). if dv \<noteq> [] \<and> c > fin then Some (c, dv)
       else do { (new, c) \<leftarrow> range_values first fin (snd p) c;
                 dv \<leftarrow> at_history (fst p) (\<lambda>vs. vs @ new) (drop_empty dv);
                 Some (c, dv) }"
  for branch_key first fin
  by unfold_locales (auto simp: collect_range_def branch_of_keep map_option_case split: Option.bind_split option.splits)

section \<open>Counting\<close>

lemma fold_counts:
  assumes "\<And>p. p \<in> set ps \<Longrightarrow> count_of p = Some (int (n p))" "m + (\<Sum>p\<leftarrow>ps. n p) < 2 ^ 31"
  shows "fold_opt (\<lambda>p (g, n). do { cnt \<leftarrow> count_of p; n \<leftarrow> int_add n cnt; Some (g, n) }) ps (h, int m) =
     Some (h, int (m + (\<Sum>p\<leftarrow>ps. n p)))"
  using assms
proof (induction ps arbitrary: m)
  case (Cons p ps)
  have "int_add (int m) (int (n p)) = Some (int (m + n p))" using Cons.prems(2) by (simp add: int_add_def)
  then show ?case using Cons.IH [of "m + n p"] Cons.prems by (simp add: add.assoc)
qed simp

text \<open>
  A count at a barrier adds up what it is sent: after any pairs, in any order, every branch that sent something has
  the sum of its counts, with the history of its first pair, and no other branch has an entry.
\<close>

lemma count_barrier_sums:
  assumes "\<And>p. p \<in> set ps \<Longrightarrow> branch_of branch_key p = Some (b p)"
    and "\<And>p. p \<in> set ps \<Longrightarrow> count_of p = Some (int (n p))"
    and "(\<Sum>p\<leftarrow>ps. n p) < 2 ^ 31"
  shows "\<exists>t. fold_opt (collect_count branch_key) ps [] = Some t \<and>
     (\<forall>x. case filter (\<lambda>p. b p = x) ps of
            [] \<Rightarrow> map_of t x = None
          | p # qs \<Rightarrow> map_of t x = Some (kept_history branch_key p, int (\<Sum>q\<leftarrow>p # qs. n q)))"
proof -
  have "\<exists>v. fold_opt (\<lambda>p (g, n). do { cnt \<leftarrow> count_of p; n \<leftarrow> int_add n cnt; Some (g, n) }) (p # qs) (kept_history branch_key p, 0) = Some v \<and>
      Some v = Some (kept_history branch_key p, int (\<Sum>q\<leftarrow>p # qs. n q))" if f: "filter (\<lambda>p. b p = x) ps = p # qs" for x p qs
  proof -
    have "set (p # qs) \<subseteq> set ps" using f by (metis filter_is_subset)
    moreover have "(\<Sum>q\<leftarrow>p # qs. n q) < 2 ^ 31" using sum_list_filter_le_nat [of n "\<lambda>p. b p = x" ps] assms(3) f by simp
    ultimately show ?thesis using fold_counts [of "p # qs" n 0 "kept_history branch_key p"] assms(2) by auto
  qed
  then show ?thesis by (intro counting.collected_from_nothing) (simp_all add: assms)
qed

lemma count_barrier_sums_example:
  "\<exists>t. fold_opt (collect_count (- 1)) [([], [int2value_t 4 new_value]), ([], [int2value_t 7 new_value])] [] = Some t \<and>
     map_of t (- 1) = Some ([], 11)"
proof -
  let ?p = "([], [int2value_t 4 new_value]) :: traverser" and ?q = "([], [int2value_t 7 new_value]) :: traverser"
  define n where "n = (\<lambda>p. if p = ?p then 4 else 7 :: nat)"
  have "count_of ?p = Some 4" "count_of ?q = Some 7" by (simp_all add: count_of_def value_t2int_int2value)
  moreover have "?p \<noteq> ?q" by code_simp
  moreover have "branch_of (- 1) p = Some (- 1)" for p by (simp add: branch_of_def get_branch_value_def get_history_value_def)
  ultimately have h: "\<And>p. p \<in> set [?p, ?q] \<Longrightarrow> branch_of (- 1) p = Some (- 1)"
    "\<And>p. p \<in> set [?p, ?q] \<Longrightarrow> count_of p = Some (int (n p))" "(\<Sum>p\<leftarrow>[?p, ?q]. n p) < 2 ^ 31"
    by (auto simp: n_def)
  obtain t where t: "fold_opt (collect_count (- 1)) [?p, ?q] [] = Some t"
    "\<forall>x. case filter (\<lambda>p. - 1 = x) [?p, ?q] of
            [] \<Rightarrow> map_of t x = None
          | p # qs \<Rightarrow> map_of t x = Some (kept_history (- 1) p, int (\<Sum>q\<leftarrow>p # qs. n q))"
    using count_barrier_sums [OF h] by blast
  from t(2) [THEN spec, of "- 1"] have "map_of t (- 1) = Some (kept_history (- 1) ?p, int (\<Sum>x\<leftarrow>[?p, ?q]. n x))" by simp
  then show ?thesis using t(1) \<open>?p \<noteq> ?q\<close>
    by (intro exI [of _ t]) (simp add: n_def kept_history_def get_branch_value_def get_history_value_def)
qed

section \<open>Ordering\<close>

definition one_type :: "u8 \<Rightarrow> value_t list \<Rightarrow> bool" where
  "one_type ty vs \<longleftrightarrow> ty \<noteq> 2 \<and> (\<forall>v\<in>set vs. wf_value v \<and> v_type v = ty)"

text \<open>\<open>value_sorted\<close>: no value is less than one before it.\<close>

definition value_sorted :: "value_t list \<Rightarrow> bool" where
  "value_sorted = sorted_wrt (\<lambda>a b. value_less b a = Some False)"

lemma value_eqI: "v_type a = v_type b \<Longrightarrow> v_content a = v_content b \<Longrightarrow> a = (b :: value_t)"
  by (cases a; cases b) simp

lemma not_less_trans:
  assumes "one_type ty [a, b, c]" "value_less b a = Some False" "value_less c b = Some False"
  shows "value_less c a = Some False"
proof -
  have wf: "wf_value a" "wf_value b" "wf_value c" "v_type a = ty" "v_type b = ty" "v_type c = ty" "ty \<noteq> 2"
    using assms(1) by (auto simp: one_type_def)
  obtain x where x: "value_less c a = Some x" using value_ops_order [of c a] wf by auto
  obtain y where y: "value_less b c = Some y" "value_eq c b = Some (\<not> y)"
    using value_ops_order [of c b] wf assms(3) by auto
  have "b = c" if "\<not> y" using y(2) that wf by (intro value_eqI) (simp_all add: value_eq_def)
  moreover have "value_less b a = Some True" if "x" "y" using x y(1) that wf by (intro value_less_trans [of b c a]) simp_all
  ultimately show ?thesis using x assms(2) by (cases y) auto
qed

lemma multiset_insert_ok:
  assumes "one_type ty (v # ws)" "value_sorted ws"
  shows "\<exists>ws'. multiset_insert v ws = Some ws' \<and> value_sorted ws' \<and> mset ws' = add_mset v (mset ws)"
  using assms
proof (induction ws)
  case (Cons w ws)
  have o: "one_type ty (v # ws)" "one_type ty [v, w]" using Cons.prems(1) by (auto simp: one_type_def)
  then obtain l g where l: "value_less v w = Some l" "value_less w v = Some g" "\<not> (l \<and> g)"
    using value_ops_order [of v w] by (auto simp: one_type_def)
  show ?case
  proof (cases l)
    case True
    have "value_less x v = Some False" if "x \<in> set ws" for x
      using Cons.prems that l True
      by (intro not_less_trans [of ty v w x]) (auto simp: one_type_def value_sorted_def)
    then show ?thesis using True l Cons.prems(2) by (auto simp: value_sorted_def)
  next
    case False
    obtain ws' where ws': "multiset_insert v ws = Some ws'" "value_sorted ws'" "mset ws' = add_mset v (mset ws)"
      using Cons.IH [OF o(1)] Cons.prems(2) by (auto simp: value_sorted_def)
    have "set ws' = insert v (set ws)" using arg_cong [OF ws'(3), of set_mset] by simp
    then have "value_sorted (w # ws')" using ws'(2) Cons.prems(2) l False by (auto simp: value_sorted_def)
    then show ?thesis using ws' l False by auto
  qed
qed (simp add: value_sorted_def)

lemma fold_multiset_insert:
  assumes "one_type ty (vs @ ws)" "value_sorted ws"
  shows "\<exists>ws'. fold_opt multiset_insert vs ws = Some ws' \<and> value_sorted ws' \<and> mset ws' = mset vs + mset ws"
  using assms
proof (induction vs arbitrary: ws)
  case (Cons v vs)
  have "one_type ty (v # ws)" using Cons.prems(1) by (auto simp: one_type_def)
  then obtain ws1 where w: "multiset_insert v ws = Some ws1" "value_sorted ws1" "mset ws1 = add_mset v (mset ws)"
    using multiset_insert_ok Cons.prems(2) by blast
  have "set ws1 = insert v (set ws)" using arg_cong [OF w(3), of set_mset] by simp
  then have "one_type ty (vs @ ws1)" using Cons.prems(1) by (auto simp: one_type_def)
  then obtain ws2 where "fold_opt multiset_insert vs ws1 = Some ws2" "value_sorted ws2" "mset ws2 = mset vs + mset ws1"
    using Cons.IH [OF _ w(2)] by blast
  then show ?case using w by (intro exI [of _ ws2]) simp
qed simp

lemma fold_sets:
  assumes "one_type ty (s @ concat (map snd ps))" "value_sorted s"
  shows "\<exists>s'. fold_opt (\<lambda>p (g, s). do { s \<leftarrow> fold_opt multiset_insert (snd p) s; Some (g, s) }) ps (h, s) = Some (h, s') \<and>
     value_sorted s' \<and> mset s' = mset s + mset (concat (map snd ps))"
  using assms
proof (induction ps arbitrary: s)
  case (Cons p ps)
  have "one_type ty (snd p @ s)" using Cons.prems(1) by (auto simp: one_type_def)
  then obtain s1 where s1: "fold_opt multiset_insert (snd p) s = Some s1" "value_sorted s1" "mset s1 = mset (snd p) + mset s"
    using fold_multiset_insert Cons.prems(2) by blast
  have "set s1 = set (snd p) \<union> set s" using arg_cong [OF s1(3), of set_mset] by simp
  then have "one_type ty (s1 @ concat (map snd ps))" using Cons.prems(1) by (auto simp: one_type_def)
  then obtain s2 where "fold_opt (\<lambda>p (g, s). do { s \<leftarrow> fold_opt multiset_insert (snd p) s; Some (g, s) }) ps (h, s1) = Some (h, s2)"
    "value_sorted s2" "mset s2 = mset s1 + mset (concat (map snd ps))" using Cons.IH [OF _ s1(2)] by blast
  then show ?case using s1 by (intro exI [of _ s2]) simp
qed simp

text \<open>
  C37. An order step sorts: when the values are of one type other than double, every branch that sent something is given
  all values that its pairs carry, each as often as it was sent, from the least to the greatest; turned round, they are
  in descending order.
\<close>

theorem order_barrier_sorts:
  assumes "\<And>p. p \<in> set ps \<Longrightarrow> branch_of branch_key p = Some (b p)" and "one_type ty (concat (map snd ps))"
  shows "\<exists>t. fold_opt (collect_set branch_key) ps [] = Some t \<and>
     (\<forall>x. case filter (\<lambda>p. b p = x) ps of
            [] \<Rightarrow> map_of t x = None
          | p # qs \<Rightarrow> \<exists>s. map_of t x = Some (kept_history branch_key p, s) \<and>
              mset s = mset (concat (map snd (p # qs))) \<and>
              value_sorted (snd (order_set INCR (x, kept_history branch_key p, s))) \<and>
              value_sorted (rev (snd (order_set 1 (x, kept_history branch_key p, s)))))"
proof -
  have "\<exists>v. fold_opt (\<lambda>p (g, s). do { s \<leftarrow> fold_opt multiset_insert (snd p) s; Some (g, s) }) (p # qs) (kept_history branch_key p, []) = Some v \<and>
      (\<exists>s. Some v = Some (kept_history branch_key p, s) \<and> mset s = mset (concat (map snd (p # qs))) \<and>
         value_sorted (snd (order_set INCR (x, kept_history branch_key p, s))) \<and>
         value_sorted (rev (snd (order_set 1 (x, kept_history branch_key p, s)))))"
    if f: "filter (\<lambda>p. b p = x) ps = p # qs" for x p qs
  proof -
    have "set (p # qs) \<subseteq> set ps" using f by (metis filter_is_subset)
    then have "one_type ty ([] @ concat (map snd (p # qs)))" using assms(2) by (auto simp: one_type_def)
    from fold_sets [OF this, of "kept_history branch_key p"] show ?thesis
      by (auto simp: value_sorted_def order_set_def INCR_def simp del: fold_opt.simps)
  qed
  then show ?thesis by (intro ordering.collected_from_nothing) (simp_all add: assms del: fold_opt.simps)
qed

theorem order_barrier_sorts_witness:
  "\<exists>t s. fold_opt (collect_set (- 1)) [([], [int2value_t 7 new_value, int2value_t 4 new_value]), ([], [int2value_t 5 new_value])] [] = Some t \<and>
     map_of t (- 1) = Some ([], s) \<and> value_sorted s \<and>
     mset s = {#int2value_t 4 new_value, int2value_t 5 new_value, int2value_t 7 new_value#}"
proof -
  let ?ps = "[([], [int2value_t 7 new_value, int2value_t 4 new_value]), ([], [int2value_t 5 new_value])] :: traverser list"
  have h: "\<And>p. p \<in> set ?ps \<Longrightarrow> branch_of (- 1) p = Some (- 1)" "one_type 1 (concat (map snd ?ps))"
    by (simp_all add: branch_of_def get_branch_value_def get_history_value_def one_type_def wf_value_def int2value_t_def
        add_content_def new_value_def)
  obtain t where t: "fold_opt (collect_set (- 1)) ?ps [] = Some t"
    "\<forall>x. case filter (\<lambda>p. - 1 = x) ?ps of
            [] \<Rightarrow> map_of t x = None
          | p # qs \<Rightarrow> \<exists>s. map_of t x = Some (kept_history (- 1) p, s) \<and> mset s = mset (concat (map snd (p # qs))) \<and>
              value_sorted (snd (order_set INCR (x, kept_history (- 1) p, s))) \<and>
              value_sorted (rev (snd (order_set 1 (x, kept_history (- 1) p, s))))"
    using order_barrier_sorts [OF h] by blast
  from t(2) [THEN spec, of "- 1"] t(1) show ?thesis
    by (auto simp: kept_history_def get_branch_value_def get_history_value_def order_set_def INCR_def)
qed

section \<open>Histories of well-formed values\<close>

definition wf_history :: "history_t \<Rightarrow> bool" where
  "wf_history h \<longleftrightarrow> (\<forall>v\<in>snd ` set h. wf_value v)"

lemma value_eq_wf:
  assumes "wf_value a" "wf_value b"
  shows "value_eq a b = Some (a = b)"
proof (cases "v_type a = v_type b")
  case True
  then show ?thesis using value_eqI [of a b] by (auto simp: value_eq_def)
next
  case False
  then show ?thesis using int_never_equals_double [of a b] int_never_equals_double [of b a] assms
    by (cases "v_type a = 1 \<and> v_type b = 2 \<or> v_type a = 2 \<and> v_type b = 1") (auto simp: value_eq_def)
qed

lemma history_eq_wf:
  assumes "wf_history g" "wf_history h"
  shows "history_eq g h = Some (g = h)"
proof -
  have "length g = length h \<Longrightarrow> history_elements_eq g h = Some (g = h)"
    using assms by (induction g h rule: history_elements_eq.induct) (auto simp: wf_history_def value_eq_wf)
  then show ?thesis by (auto simp: history_eq_def)
qed

definition wf_data :: "traverser list \<Rightarrow> bool" where
  "wf_data d \<longleftrightarrow> (\<forall>p\<in>set d. wf_history (fst p))"

text \<open>A list of pairs never has a history without values before another one.\<close>

definition tidy :: "traverser list \<Rightarrow> bool" where
  "tidy d \<longleftrightarrow> wf_data d \<and> (case d of (_, []) # d' \<Rightarrow> d' = [] | _ \<Rightarrow> True)"

lemma at_history_ok:
  assumes "wf_data d" "wf_history h"
  shows "\<exists>d'. at_history h (\<lambda>vs. vs @ new) d = Some d' \<and> wf_data d' \<and>
     mset (flat d') = mset (flat d) + mset (map (Pair h) new) \<and>
     mset (concat (map snd d')) = mset (concat (map snd d)) + mset new \<and>
     (d = [] \<longrightarrow> d' = [(h, new)]) \<and> (\<forall>g v vs r. d = (g, v # vs) # r \<longrightarrow> (\<exists>vs' r'. d' = (g, v # vs') # r'))"
  using assms
proof (induction d)
  case (Cons p d)
  obtain g vs where p: "p = (g, vs)" by (cases p)
  have e: "history_eq g h = Some (g = h)" using Cons.prems p by (intro history_eq_wf) (auto simp: wf_data_def)
  obtain d' where "at_history h (\<lambda>vs. vs @ new) d = Some d'" "wf_data d'" "mset (flat d') = mset (flat d) + mset (map (Pair h) new)"
    "mset (concat (map snd d')) = mset (concat (map snd d)) + mset new"
    using Cons by (auto simp: wf_data_def)
  then show ?case using e p Cons.prems by (cases "g = h") (auto simp: wf_data_def flat_def)
qed (auto simp: wf_data_def flat_def)

lemma drop_empty_tidy:
  assumes "tidy d"
  shows "flat (drop_empty d) = flat d" "concat (map snd (drop_empty d)) = concat (map snd d)" "wf_data (drop_empty d)"
  using assms by (auto simp: tidy_def drop_empty_def wf_data_def flat_def split: list.splits)

lemma add_to_history:
  assumes "tidy d" "wf_history h"
  shows "\<exists>d'. at_history h (\<lambda>vs. vs @ new) (drop_empty d) = Some d' \<and> tidy d' \<and> d' \<noteq> [] \<and>
     mset (flat d') = mset (flat d) + mset (map (Pair h) new) \<and>
     mset (concat (map snd d')) = mset (concat (map snd d)) + mset new"
proof -
  obtain d' where d': "at_history h (\<lambda>vs. vs @ new) (drop_empty d) = Some d'" "wf_data d'"
    "mset (flat d') = mset (flat d) + mset (map (Pair h) new)" "mset (concat (map snd d')) = mset (concat (map snd d)) + mset new"
    "drop_empty d = [] \<Longrightarrow> d' = [(h, new)]"
    "\<And>g v vs r. drop_empty d = (g, v # vs) # r \<Longrightarrow> \<exists>vs' r'. d' = (g, v # vs') # r'"
    using at_history_ok [OF drop_empty_tidy(3) [OF assms(1)] assms(2), of new] drop_empty_tidy [OF assms(1)] by auto
  have "drop_empty d = [] \<or> (\<exists>g v vs r. drop_empty d = (g, v # vs) # r)"
    by (auto simp: drop_empty_def split: list.splits)
  then have "tidy d'" "d' \<noteq> []" using d'(2,5,6) by (auto simp: tidy_def split: list.splits)
  then show ?thesis using d' by blast
qed

section \<open>Ranges\<close>

lemma range_values_ok:
  assumes "k + length vs < 2 ^ 31" "k \<le> nat (fin + 1)"
  shows "range_values start fin vs (int k) =
     Some (drop (nat start - k) (take (nat (fin + 1) - k) vs), int (k + min (length vs) (nat (fin + 1) - k)))"
  using assms
proof (induction vs arbitrary: k)
  case (Cons v vs)
  show ?case
  proof (cases "fin < int k")
    case True
    then have "nat (fin + 1) - k = 0" by simp
    then show ?thesis using True by simp
  next
    case False
    then obtain j where j: "nat (fin + 1) - k = Suc j" "nat (fin + 1) - Suc k = j"
      by (cases "nat (fin + 1) - k") auto
    have "int_add (int k) 1 = Some (int (Suc k))" using Cons.prems(1) by (simp add: int_add_def)
    moreover have "range_values start fin vs (int (Suc k)) = Some (drop (nat start - Suc k) (take j vs), int (Suc k + min (length vs) j))"
      using Cons.IH [of "Suc k"] Cons.prems False j by simp
    moreover have "(if start \<le> int k then v # drop (nat start - Suc k) (take j vs) else drop (nat start - Suc k) (take j vs)) =
        drop (nat start - k) (take (Suc j) (v # vs))"
    proof (cases "start \<le> int k")
      case True
      then have "nat start - k = 0" "nat start - Suc k = 0" by simp_all
      then show ?thesis using True by simp
    next
      case False
      then have "nat start - k = Suc (nat start - Suc k)" by simp
      then show ?thesis using False by simp
    qed
    ultimately show ?thesis using False j by (simp del: of_nat_Suc)
  qed
qed simp

lemma flat_part: "map (Pair h) (drop a (take b vs)) = drop a (take b (map (Pair h) vs))"
  by (simp add: drop_map take_map)

text \<open>The pairs that are kept from \<open>xs\<close> followed by \<open>ys\<close>, when \<open>xs\<close> have been seen.\<close>

lemma drop_take_append:
  "drop a (take b (xs @ ys)) = drop a (take b xs) @ drop (a - min (length xs) b) (take (b - min (length xs) b) ys)"
  by (cases "length xs \<le> b") (simp_all add: min_def)

lemma min_plus_min: "min (l + m) n = min l n + min m (n - min l n)" for l m n :: nat
  by (auto simp: min_def)

lemma fold_ranges:
  assumes "tidy dv" "wf_data ps" "length (xs @ flat ps) < 2 ^ 31"
    and "mset (flat dv) = mset (drop (nat start) (take (nat (fin + 1)) xs))"
  shows "\<exists>c' dv'. fold_opt (\<lambda>p (c, dv). if dv \<noteq> [] \<and> c > fin then Some (c, dv)
       else do { (new, c) \<leftarrow> range_values start fin (snd p) c;
                 dv \<leftarrow> at_history (fst p) (\<lambda>vs. vs @ new) (drop_empty dv);
                 Some (c, dv) }) ps (int (min (length xs) (nat (fin + 1))), dv) = Some (c', dv') \<and>
     mset (flat dv') = mset (drop (nat start) (take (nat (fin + 1)) (xs @ flat ps)))"
  using assms
proof (induction ps arbitrary: xs dv)
  case (Cons p ps)
  obtain h vs where p: "p = (h, vs)" by (cases p)
  let ?N = "nat (fin + 1)" and ?k = "min (length xs) (nat (fin + 1))"
  let ?new = "drop (nat start - ?k) (take (?N - ?k) vs)" and ?xs = "xs @ map (Pair h) vs"
  have wf: "wf_history h" "wf_data ps" using Cons.prems(2) p by (auto simp: wf_data_def)
  have len: "length (?xs @ flat ps) < 2 ^ 31" using Cons.prems(3) p by simp
  have part: "mset (drop (nat start) (take ?N ?xs)) = mset (drop (nat start) (take ?N xs)) + mset (map (Pair h) ?new)"
    by (simp only: drop_take_append flat_part mset_append)
  have k: "int (min (length ?xs) ?N) = int (?k + min (length vs) (?N - ?k))"
    using min_plus_min [of "length xs" "length vs" ?N] by (simp only: length_append length_map)
  note IH = Cons.IH [OF _ wf(2) len]
  show ?case
  proof (cases "dv \<noteq> [] \<and> int ?k > fin")
    case True
    then have "?N - ?k = 0" "?N = ?k" by auto
    then have "mset (flat dv) = mset (drop (nat start) (take ?N ?xs))" "int (min (length ?xs) ?N) = int ?k"
      using part k Cons.prems(4) by simp_all
    then show ?thesis using IH [OF Cons.prems(1)] True p by (simp add: append.assoc)
  next
    case False
    have r: "range_values start fin vs (int ?k) = Some (?new, int (min (length ?xs) ?N))"
      unfolding k by (rule range_values_ok) (use len in auto)
    obtain dv1 where dv1: "at_history h (\<lambda>vs. vs @ ?new) (drop_empty dv) = Some dv1" "tidy dv1"
      "mset (flat dv1) = mset (flat dv) + mset (map (Pair h) ?new)"
      using add_to_history [OF Cons.prems(1) wf(1), of ?new] by blast
    have "mset (flat dv1) = mset (drop (nat start) (take ?N ?xs))" using dv1(3) part Cons.prems(4) by simp
    from IH [OF dv1(2) this] show ?thesis using False r dv1(1) p by (simp only: fold_opt.simps prod.case fst_conv snd_conv if_False Option.bind_lunit flat_simps append.assoc)
  qed
qed simp

lemma flat_filter_le: "length (flat (filter P ps)) \<le> length (flat ps)"
  by (induction ps) auto

text \<open>
  C38. A range at a barrier selects by position: of the values that the pairs of a branch carry, in the order of their
  arrival and counted from 0, exactly those at the positions from \<open>start\<close> to \<open>end\<close> are kept, each with its history.
\<close>

theorem range_barrier_selects:
  assumes "\<And>p. p \<in> set ps \<Longrightarrow> branch_of branch_key p = Some (b p)" and "wf_data ps" and "length (flat ps) < 2 ^ 31"
  shows "\<exists>t. fold_opt (collect_range branch_key start fin) ps [] = Some t \<and>
     (\<forall>x. case filter (\<lambda>p. b p = x) ps of
            [] \<Rightarrow> map_of t x = None
          | p # qs \<Rightarrow> \<exists>c dv. map_of t x = Some (c, dv) \<and>
              mset (flat dv) = mset (drop (nat start) (take (nat (fin + 1)) (flat (p # qs)))))"
proof -
  have "\<exists>v. fold_opt (\<lambda>p (c, dv). if dv \<noteq> [] \<and> c > fin then Some (c, dv)
       else do { (new, c) \<leftarrow> range_values start fin (snd p) c;
                 dv \<leftarrow> at_history (fst p) (\<lambda>vs. vs @ new) (drop_empty dv);
                 Some (c, dv) }) (p # qs) (0, []) = Some v \<and>
      (\<exists>c dv. Some v = Some (c, dv) \<and> mset (flat dv) = mset (drop (nat start) (take (nat (fin + 1)) (flat (p # qs)))))"
    if f: "filter (\<lambda>p. b p = x) ps = p # qs" for x p qs
  proof -
    have "wf_data (p # qs)" "length (flat (p # qs)) \<le> length (flat ps)"
      using assms(2) flat_filter_le [of "\<lambda>p. b p = x" ps] unfolding f [symmetric] by (auto simp: wf_data_def)
    then show ?thesis using fold_ranges [of "[]" "p # qs" "[]" start fin] assms(3) by (auto simp: tidy_def wf_data_def simp del: fold_opt.simps)
  qed
  then show ?thesis by (intro ranging.collected_from_nothing) (simp_all add: assms(1) del: fold_opt.simps)
qed

theorem range_barrier_selects_witness:
  "\<exists>t c dv. fold_opt (collect_range (- 1) 1 1) [([], [int2value_t 4 new_value]), ([], [int2value_t 7 new_value])] [] = Some t \<and>
     map_of t (- 1) = Some (c, dv) \<and> mset (flat dv) = {#([], int2value_t 7 new_value)#}"
proof -
  let ?ps = "[([], [int2value_t 4 new_value]), ([], [int2value_t 7 new_value])] :: traverser list"
  have h: "\<And>p. p \<in> set ?ps \<Longrightarrow> branch_of (- 1) p = Some (- 1)" "wf_data ?ps" "length (flat ?ps) < 2 ^ 31"
    by (simp_all add: branch_of_def get_branch_value_def get_history_value_def wf_data_def wf_history_def)
  obtain t where t: "fold_opt (collect_range (- 1) 1 1) ?ps [] = Some t"
    "\<forall>x. case filter (\<lambda>p. - 1 = x) ?ps of [] \<Rightarrow> map_of t x = None
      | p # qs \<Rightarrow> \<exists>c dv. map_of t x = Some (c, dv) \<and> mset (flat dv) = mset (drop (nat 1) (take (nat (1 + 1)) (flat (p # qs))))"
    using range_barrier_selects [OF h, of 1 1] by blast
  from t(2) [THEN spec, of "- 1"] t(1) show ?thesis by (auto simp: numeral_2_eq_2)
qed

section \<open>Removing duplicates\<close>

lemma fresh_values_ok:
  assumes "fresh_values vs seen = (new, seen')" "distinct seen"
  shows "seen' = seen @ new \<and> distinct seen' \<and> set seen' = set seen \<union> set vs"
  using assms by (induction vs arbitrary: seen new) (fastforce split: if_splits prod.splits)+

text \<open>The values of a branch that have been seen are the values that are kept.\<close>

definition dedup_ok :: "dedup_data \<Rightarrow> bool" where
  "dedup_ok d \<longleftrightarrow> (\<forall>x. tidy (table_get (dd_data_map d) x []) \<and> distinct (table_get (dd_val_map d) x []) \<and>
     mset (concat (map snd (table_get (dd_data_map d) x []))) = mset (table_get (dd_val_map d) x []))"

lemma table_get_update: "table_get (AList.update k v t) x d = (if x = k then v else table_get t x d)"
  by (simp add: table_get_def update_conv')

lemma collect_dedup_ok:
  assumes "dedup_ok d" "branch_of branch_key p = Some b" "wf_history (fst p)"
  shows "\<exists>d'. collect_dedup branch_key [] p d = Some d' \<and> dedup_ok d' \<and>
     (\<forall>x. set (table_get (dd_val_map d') x []) = set (table_get (dd_val_map d) x []) \<union> (if x = b then set (snd p) else {}))"
proof -
  obtain h where b: "get_branch_value (fst p) branch_key False = Some (b, h)" using assms(2) by (auto simp: branch_of_keep)
  let ?dv = "table_get (dd_data_map d) b []" and ?seen = "table_get (dd_val_map d) b []"
  obtain new seen where f: "fresh_values (snd p) ?seen = (new, seen)" by (cases "fresh_values (snd p) ?seen")
  note f' = fresh_values_ok [OF f]
  have ok: "tidy ?dv" "distinct ?seen" "mset (concat (map snd ?dv)) = mset ?seen" using assms(1) by (auto simp: dedup_ok_def)
  obtain dv' where dv': "at_history (fst p) (\<lambda>vs. vs @ new) (drop_empty ?dv) = Some dv'" "tidy dv'"
    "mset (concat (map snd dv')) = mset (concat (map snd ?dv)) + mset new"
    using add_to_history [OF ok(1) assms(3), of new] by blast
  let ?d = "d\<lparr>dd_data_map := AList.update b dv' (dd_data_map d), dd_val_map := AList.update b seen (dd_val_map d)\<rparr>"
  have "table_upd b [] (\<lambda>dv. at_history (fst p) (\<lambda>vs. vs @ new) (drop_empty dv)) (dd_data_map d) = Some (AList.update b dv' (dd_data_map d))"
    using dv'(1) by (auto simp: table_upd_Some table_get_def)
  then have "collect_dedup branch_key [] p d = Some ?d" using b f by (simp add: collect_dedup_def)
  moreover have "dedup_ok ?d" using assms(1) dv'(2,3) ok f' by (auto simp: dedup_ok_def table_get_update)
  moreover have "set (table_get (dd_val_map ?d) x []) = set (table_get (dd_val_map d) x []) \<union> (if x = b then set (snd p) else {})" for x
    using conjunct2 [OF conjunct2 [OF f' [OF ok(2)]]] by (simp add: table_get_update)
  ultimately show ?thesis by blast
qed

lemma fold_dedup:
  assumes "dedup_ok d" "\<And>p. p \<in> set ps \<Longrightarrow> branch_of branch_key p = Some (b p)" "wf_data ps"
  shows "\<exists>d'. fold_opt (collect_dedup branch_key []) ps d = Some d' \<and> dedup_ok d' \<and>
     (\<forall>x. set (table_get (dd_val_map d') x []) = set (table_get (dd_val_map d) x []) \<union> (\<Union>p\<in>{p \<in> set ps. b p = x}. set (snd p)))"
  using assms
proof (induction ps arbitrary: d)
  case (Cons p ps)
  obtain d1 where d1: "collect_dedup branch_key [] p d = Some d1" "dedup_ok d1"
    "\<And>x. set (table_get (dd_val_map d1) x []) = set (table_get (dd_val_map d) x []) \<union> (if x = b p then set (snd p) else {})"
    using collect_dedup_ok [OF Cons.prems(1), of branch_key p "b p"] Cons.prems(2,3) by (auto simp: wf_data_def)
  obtain d2 where d2: "fold_opt (collect_dedup branch_key []) ps d1 = Some d2" "dedup_ok d2"
    "\<And>x. set (table_get (dd_val_map d2) x []) = set (table_get (dd_val_map d1) x []) \<union> (\<Union>p\<in>{p \<in> set ps. b p = x}. set (snd p))"
    using Cons.IH [OF d1(2)] Cons.prems(2,3) by (auto simp: wf_data_def)
  have "set (table_get (dd_val_map d2) x []) = set (table_get (dd_val_map d) x []) \<union> (\<Union>p\<in>{q \<in> set (p # ps). b q = x}. set (snd p))" for x
    using d1(3) [of x] d2(3) [of x] by auto
  then show ?case using d1(1) d2(1,2) by auto
qed simp

text \<open>
  A dedup without keys keeps one of each: for every branch, the values that are kept are distinct, and they are the
  values that the pairs of that branch carry.
\<close>

lemma dedup_barrier_keeps_one:
  assumes "\<And>p. p \<in> set ps \<Longrightarrow> branch_of branch_key p = Some (b p)" and "wf_data ps"
  shows "\<exists>d. fold_opt (collect_dedup branch_key []) ps \<lparr>dd_data_map = [], dd_his_map = [], dd_val_map = []\<rparr> = Some d \<and>
     (\<forall>x. distinct (concat (map snd (table_get (dd_data_map d) x []))) \<and>
          set (concat (map snd (table_get (dd_data_map d) x []))) = (\<Union>p\<in>{p \<in> set ps. b p = x}. set (snd p)))"
proof -
  let ?d0 = "\<lparr>dd_data_map = [], dd_his_map = [], dd_val_map = []\<rparr>"
  have "dedup_ok ?d0" by (simp add: dedup_ok_def table_get_def tidy_def wf_data_def)
  then obtain d where d: "fold_opt (collect_dedup branch_key []) ps ?d0 = Some d" "dedup_ok d"
    "\<And>x. set (table_get (dd_val_map d) x []) = (\<Union>p\<in>{p \<in> set ps. b p = x}. set (snd p))"
    using fold_dedup [OF _ assms, of ?d0] by (auto simp: table_get_def)
  have "distinct (concat (map snd (table_get (dd_data_map d) x []))) \<and>
      set (concat (map snd (table_get (dd_data_map d) x []))) = set (table_get (dd_val_map d) x [])" for x
    using d(2) mset_eq_imp_distinct_iff mset_eq_setD unfolding dedup_ok_def by metis
  then show ?thesis using d(1,3) by auto
qed

lemma dedup_barrier_keeps_one_example:
  "\<exists>d. fold_opt (collect_dedup (- 1) [])
      [([], [int2value_t 4 new_value, int2value_t 7 new_value]), ([], [int2value_t 7 new_value])]
      \<lparr>dd_data_map = [], dd_his_map = [], dd_val_map = []\<rparr> = Some d \<and>
     distinct (concat (map snd (table_get (dd_data_map d) (- 1) []))) \<and>
     set (concat (map snd (table_get (dd_data_map d) (- 1) []))) = {int2value_t 4 new_value, int2value_t 7 new_value}"
proof -
  let ?ps = "[([], [int2value_t 4 new_value, int2value_t 7 new_value]), ([], [int2value_t 7 new_value])] :: traverser list"
  have h: "\<And>p. p \<in> set ?ps \<Longrightarrow> branch_of (- 1) p = Some (- 1)" "wf_data ?ps"
    by (simp_all add: branch_of_def get_branch_value_def get_history_value_def wf_data_def wf_history_def)
  obtain d where d: "fold_opt (collect_dedup (- 1) []) ?ps \<lparr>dd_data_map = [], dd_his_map = [], dd_val_map = []\<rparr> = Some d"
    "\<forall>x. distinct (concat (map snd (table_get (dd_data_map d) x []))) \<and>
       set (concat (map snd (table_get (dd_data_map d) x []))) = (\<Union>p\<in>{p \<in> set ?ps. - 1 = x}. set (snd p))"
    using dedup_barrier_keeps_one [OF h] by blast
  have a: "{p \<in> A. - 1 = (- 1 :: int)} = A" for A :: "traverser set" by simp
  have e: "(\<Union>p\<in>{p \<in> set [([] :: history_t, [v, w]), ([], [w])]. - 1 = (- 1 :: int)}. set (snd p)) = {v, w}" for v w :: value_t
    unfolding a by (simp add: insert_commute)
  show ?thesis by (rule exI [of _ d]) (rule conjI [OF d(1) d(2) [THEN spec, of "- 1", unfolded e]])
qed

end
