(* ===== verification/Branch_Experts.thy ===== *)
theory Branch_Experts
  imports Barrier_Experts
begin

text \<open>
  The experts that branch (src/expert/labelled_branch_expert.hpp, branch_expert.hpp and repeat_expert.hpp): copying a
  message to the steps of a branch, and the branch filter, which labels every value, sends the values through each of
  the branches, notes which branches gave a result for which value, and keeps the values that \<open>and\<close>, \<open>or\<close> or
  \<open>not\<close> asks for.
\<close>

section \<open>Branches without labels\<close>

definition branch_steps :: "expert_object \<Rightarrow> int list option" where
  "branch_steps ex = do { CHECK (length (ex_params ex) \<ge> 1); option_map value_t2int (ex_params ex) }"

text \<open>\<open>BranchExpert\<close> and \<open>RepeatExpert\<close>. A message of another type ends the program.\<close>

definition Branch_process :: "int \<Rightarrow> query_plan \<Rightarrow> message \<Rightarrow> core_affinity \<Rightarrow> (expert_effect list \<times> core_affinity) option" where
  "Branch_process sz q msg ca =
     (if mt_msg_type (ms_meta msg) = M_SPAWN
      then do { ex \<leftarrow> expert_at (qp_experts q) (mt_step (ms_meta msg));
                steps \<leftarrow> branch_steps ex;
                (ms, ca) \<leftarrow> CreateBranchedMsg sz msg (qp_experts q) steps ca;
                Some (map Send ms, ca) }
      else None)"

definition Repeat_process :: "int \<Rightarrow> query_plan \<Rightarrow> message \<Rightarrow> core_affinity \<Rightarrow> (expert_effect list \<times> core_affinity) option" where
  "Repeat_process = Branch_process"

section \<open>The branch filter\<close>

text \<open>The counters of a filter: for every value the set of the branches that had a result for it, as bits.\<close>

record branch_filter_data =
  bf_counter :: "int \<Rightarrow> u32"
  bf_data :: "traverser list"

definition update_counter :: "u32 \<Rightarrow> int \<Rightarrow> u32 option" where
  "update_counter c branch_index =
     (if 1 \<le> branch_index \<and> branch_index \<le> 32 then Some (c OR push_bit (nat (branch_index - 1)) 1) else None)"

definition all_success :: "u32 \<Rightarrow> int \<Rightarrow> bool option" where
  "all_success c n = (if 0 \<le> n \<and> n \<le> 30 then Some (c = push_bit (nat n) 1 - 1) else None)"

definition none_success :: "u32 \<Rightarrow> int \<Rightarrow> bool option" where
  "none_success c n = Some (c = 0)"

definition any_success :: "u32 \<Rightarrow> int \<Rightarrow> bool option" where
  "any_success c n = Some (c \<ge> 1)"

definition Filter_AND :: int where "Filter_AND = 0"
definition Filter_OR :: int where "Filter_OR = 1"
definition Filter_NOT :: int where "Filter_NOT = 2"

definition pass :: "int \<Rightarrow> u32 \<Rightarrow> int \<Rightarrow> bool option" where
  "pass filter_type =
     (if filter_type = Filter_AND then all_success
      else if filter_type = Filter_OR then any_success
      else if filter_type = Filter_NOT then none_success
      else (\<lambda>_ _. None))"

fun filter_values :: "(int \<Rightarrow> bool option) \<Rightarrow> value_t list \<Rightarrow> int \<Rightarrow> (value_t list \<times> int) option" where
  "filter_values ok [] i = Some ([], i)"
| "filter_values ok (v # vs) i =
     do { b \<leftarrow> ok i; (r, j) \<leftarrow> filter_values ok vs (i + 1); Some (if b then v # r else r, j) }"

fun filter_data :: "(int \<Rightarrow> bool option) \<Rightarrow> traverser list \<Rightarrow> int \<Rightarrow> traverser list option" where
  "filter_data ok [] i = Some []"
| "filter_data ok ((h, vs) # d) i =
     do { (vs, i) \<leftarrow> filter_values ok vs i; d \<leftarrow> filter_data ok d i; Some ((h, vs) # d) }"

definition note_branch :: "int \<Rightarrow> int \<Rightarrow> traverser \<Rightarrow> (int \<Rightarrow> u32) \<Rightarrow> (int \<Rightarrow> u32) option" where
  "note_branch his_key branch_index p counter =
     (if snd p = [] then Some counter
      else case map_of (fst p) his_key of
             None \<Rightarrow> Some counter
           | Some v \<Rightarrow> do { i \<leftarrow> value_t2int v; c \<leftarrow> update_counter (counter i) branch_index; Some (counter(i := c)) })"

definition filter_steps :: "expert_object \<Rightarrow> int list option" where
  "filter_steps ex = do { CHECK (length (ex_params ex) > 1); option_map value_t2int (tl (ex_params ex)) }"

definition filter_steps_count :: "expert_object \<Rightarrow> int" where
  "filter_steps_count ex = int (length (ex_params ex)) - 1"

definition process_spawn :: "message \<Rightarrow> branch_filter_data \<Rightarrow> branch_filter_data" where
  "process_spawn msg d = d\<lparr>bf_data := ms_data msg\<rparr>"

definition process_branch :: "int \<Rightarrow> expert_object list \<Rightarrow> message \<Rightarrow> int \<Rightarrow> bool \<Rightarrow> branch_filter_data \<Rightarrow> core_affinity \<Rightarrow>
    (expert_effect list \<times> branch_filter_data \<times> core_affinity) option" where
  "process_branch sz experts msg num_of_branch isReady d ca =
     do { let m = ms_meta msg;
          CHECK (mt_branch_infos m \<noteq> []);
          let info = last (mt_branch_infos m);
          counter \<leftarrow> fold_opt (note_branch (bi_key info) (bi_index info)) (ms_data msg) (bf_counter d);
          if isReady
          then do { ex \<leftarrow> expert_at experts (mt_step m);
                    p \<leftarrow> vec_at (ex_params ex) 0;
                    filter_type \<leftarrow> value_t2int p;
                    data \<leftarrow> filter_data (\<lambda>i. pass filter_type (counter i) num_of_branch) (bf_data d) 0;
                    (ms, ca) \<leftarrow> CreateNextMsg sz (msg\<lparr>ms_meta := m\<lparr>mt_branch_infos := butlast (mt_branch_infos m)\<rparr>\<rparr>) experts data ca;
                    Some (map Send ms, \<lparr>bf_counter = counter, bf_data = data\<rparr>, ca) }
          else Some ([], d\<lparr>bf_counter := counter\<rparr>, ca) }"

section \<open>Messages of a labelled branch\<close>

record branch_table =
  lb_data :: "mkey_t \<rightharpoonup> path_counter \<times> (int \<times> int) \<times> branch_filter_data"
  lb_trx :: "u64 \<rightharpoonup> mkey_t set"
  lb_next_id :: u64

definition AssignId :: "branch_table \<Rightarrow> u64 \<times> branch_table" where
  "AssignId t = (lb_next_id t, t\<lparr>lb_next_id := lb_next_id t + 1\<rparr>)"

definition spawn_key :: "meta \<Rightarrow> u64 \<Rightarrow> mkey_t" where
  "spawn_key m msg_id =
     mkey_t (mt_qid m) msg_id (if mt_branch_infos m \<noteq> [] then bi_index (last (mt_branch_infos m)) else 0)"

definition new_filter_data :: branch_filter_data where
  "new_filter_data = \<lparr>bf_counter = (\<lambda>_. 0), bf_data = []\<rparr>"

definition branch_insert :: "u64 \<Rightarrow> mkey_t \<Rightarrow> branch_table \<Rightarrow> branch_table" where
  "branch_insert trxid key t =
     (if lb_data t key = None
      then t\<lparr>lb_data := (lb_data t)(key \<mapsto> (Map.empty, (0, 0), new_filter_data)),
             lb_trx := (lb_trx t)(trxid \<mapsto> insert key (case lb_trx t trxid of None \<Rightarrow> {} | Some s \<Rightarrow> s))\<rparr>
      else t)"

definition send_branch_msg :: "int \<Rightarrow> expert_object list \<Rightarrow> message \<Rightarrow> u64 \<Rightarrow> core_affinity \<Rightarrow> (expert_effect list \<times> core_affinity) option" where
  "send_branch_msg sz experts msg msg_id ca =
     do { ex \<leftarrow> expert_at experts (mt_step (ms_meta msg));
          steps \<leftarrow> filter_steps ex;
          (ms, ca) \<leftarrow> CreateBranchedMsgWithHisLabel sz msg experts steps msg_id ca;
          Some (map Send ms, ca) }"

definition LabelledBranch_process :: "int \<Rightarrow> query_plan \<Rightarrow> message \<Rightarrow> branch_table \<Rightarrow> core_affinity \<Rightarrow>
    (expert_effect list \<times> branch_table \<times> core_affinity) option" where
  "LabelledBranch_process sz q msg t ca =
     (let m = ms_meta msg; experts = qp_experts q
      in if mt_msg_type m = M_SPAWN
         then do { let (msg_id, t) = AssignId t;
                   let key = spawn_key m msg_id;
                   let t = branch_insert (qp_trxid q) key t;
                   (effs, ca) \<leftarrow> send_branch_msg sz experts msg msg_id ca;
                   ex \<leftarrow> expert_at experts (mt_step m);
                   (c, b, d) \<leftarrow> lb_data t key;
                   Some (effs, t\<lparr>lb_data := (lb_data t)(key \<mapsto> (c, (filter_steps_count ex, 0), process_spawn msg d))\<rparr>, ca) }
         else if mt_msg_type m = M_BRANCH
         then do { let (key, end_path) = Branch_GetMsgInfo m;
                   (c, b, d) \<leftarrow> lb_data t key;
                   (isReady, c, b, m) \<leftarrow> Branch_IsReady c b m end_path;
                   (effs, d, ca) \<leftarrow> process_branch sz experts (msg\<lparr>ms_meta := m\<rparr>) (fst b) isReady d ca;
                   Some (effs, t\<lparr>lb_data := (lb_data t)(key := (if isReady then None else Some (c, b, d)))\<rparr>, ca) }
         else None)"

definition branch_clean_trx_data :: "u64 \<Rightarrow> branch_table \<Rightarrow> branch_table" where
  "branch_clean_trx_data trxid t =
     (case lb_trx t trxid of None \<Rightarrow> t
      | Some s \<Rightarrow> t\<lparr>lb_data := (\<lambda>k. if k \<in> s then None else lb_data t k), lb_trx := (lb_trx t)(trxid := None)\<rparr>)"

section \<open>What a filter keeps\<close>

definition label_of :: "int \<Rightarrow> traverser \<Rightarrow> int option" where
  "label_of his_key p = (if snd p = [] then None else case map_of (fst p) his_key of None \<Rightarrow> None | Some v \<Rightarrow> value_t2int v)"

text \<open>\<open>answered his_key as b i\<close>: among the pairs that came back there is one from the branch \<open>b\<close> for the value number \<open>i\<close>.\<close>

definition answered :: "int \<Rightarrow> (int \<times> traverser) list \<Rightarrow> int \<Rightarrow> int \<Rightarrow> bool" where
  "answered his_key as b i \<longleftrightarrow> (\<exists>p. (b, p) \<in> set as \<and> label_of his_key p = Some i)"

definition note_all :: "int \<Rightarrow> (int \<times> traverser) list \<Rightarrow> (int \<Rightarrow> u32) \<Rightarrow> (int \<Rightarrow> u32) option" where
  "note_all his_key = fold_opt (\<lambda>(b, p). note_branch his_key b p)"

text \<open>The labels of the pairs are integers, and their branches are numbered from 1 to \<open>n\<close>.\<close>

definition labelled_arrivals :: "int \<Rightarrow> int \<Rightarrow> (int \<times> traverser) list \<Rightarrow> bool" where
  "labelled_arrivals his_key n as \<longleftrightarrow>
     (\<forall>(b, p)\<in>set as. 1 \<le> b \<and> b \<le> n \<and> (case map_of (fst p) his_key of None \<Rightarrow> True | Some v \<Rightarrow> value_t2int v \<noteq> None))"

lemma note_all_ok:
  assumes "labelled_arrivals his_key n as" "n \<le> 30"
  shows "\<exists>c'. note_all his_key as c = Some c' \<and>
     (\<forall>i j. bit (c' i) j \<longleftrightarrow> bit (c i) j \<or> answered his_key as (int j + 1) i)"
  using assms
proof (induction as arbitrary: c)
  case (Cons a as)
  obtain b p where a: "a = (b, p)" by (cases a)
  have b: "1 \<le> b" "b \<le> 30" "labelled_arrivals his_key n as" using Cons.prems a by (auto simp: labelled_arrivals_def)
  have "\<exists>c1. note_branch his_key b p c = Some c1 \<and>
      (\<forall>i j. bit (c1 i) j \<longleftrightarrow> bit (c i) j \<or> b = int j + 1 \<and> label_of his_key p = Some i)"
  proof (cases "label_of his_key p")
    case None
    then have "note_branch his_key b p c = Some c"
      using Cons.prems(1) a by (auto simp: label_of_def note_branch_def labelled_arrivals_def split: option.splits if_splits)
    then show ?thesis using None by simp
  next
    case (Some i)
    have "note_branch his_key b p c = Some (c(i := c i OR push_bit (nat (b - 1)) 1))"
      using Some b by (auto simp: label_of_def note_branch_def update_counter_def split: option.splits if_splits)
    moreover have "bit (push_bit (nat (b - 1)) (1 :: u32)) j \<longleftrightarrow> b = int j + 1" for j
      using b by (auto simp: push_bit_of_1 bit_exp_iff)
    ultimately show ?thesis using Some by (auto simp: bit_or_iff)
  qed
  then obtain c1 where c1: "note_branch his_key b p c = Some c1"
    "\<And>i j. bit (c1 i) j \<longleftrightarrow> bit (c i) j \<or> b = int j + 1 \<and> label_of his_key p = Some i" by blast
  obtain c2 where c2: "note_all his_key as c1 = Some c2" "\<And>i j. bit (c2 i) j \<longleftrightarrow> bit (c1 i) j \<or> answered his_key as (int j + 1) i"
    using Cons.IH [OF b(3) Cons.prems(2), of c1] by blast
  have "note_all his_key (a # as) c = Some c2" using c1(1) c2(1) a by (simp add: note_all_def)
  moreover have "answered his_key (a # as) x i \<longleftrightarrow> x = b \<and> label_of his_key p = Some i \<or> answered his_key as x i" for x i
    unfolding answered_def list.set a by blast
  ultimately show ?case using c1(2) c2(2) by auto
qed (simp add: note_all_def answered_def)

lemma bit_all_ones: "n \<le> 30 \<Longrightarrow> bit (2 ^ n - 1 :: u32) j \<longleftrightarrow> j < n"
  by (auto simp: bit_mask_iff simp flip: mask_eq_exp_minus_1)

lemma pass_ok:
  assumes "\<And>j. bit c j \<longleftrightarrow> A (int j + 1)" "\<And>b. A b \<Longrightarrow> 1 \<le> b \<and> b \<le> n" "0 \<le> n" "n \<le> 30"
  shows "pass Filter_AND c n = Some (\<forall>b. 1 \<le> b \<and> b \<le> n \<longrightarrow> A b)"
    and "pass Filter_OR c n = Some (\<exists>b. A b)" and "pass Filter_NOT c n = Some (\<nexists>b. A b)"
proof -
  have nat_b: "int (nat (b - 1)) + 1 = b" if "1 \<le> b" for b using that by simp
  have zero: "c = 0 \<longleftrightarrow> (\<nexists>b. A b)"
  proof
    assume "c = 0"
    then show "\<nexists>b. A b" using assms(1) assms(2) nat_b by (metis bit_0_eq bot_apply bot_bool_def)
  next
    assume "\<nexists>b. A b"
    then show "c = 0" using assms(1) by (intro bit_eqI) simp
  qed
  have "c = 2 ^ nat n - 1 \<longleftrightarrow> (\<forall>b. 1 \<le> b \<and> b \<le> n \<longrightarrow> A b)"
  proof
    assume c: "c = 2 ^ nat n - 1"
    have "A b" if "1 \<le> b" "b \<le> n" for b
    proof -
      have "bit c (nat (b - 1))" unfolding c using that assms(4) by (subst bit_all_ones) auto
      then show ?thesis using assms(1) nat_b that by metis
    qed
    then show "\<forall>b. 1 \<le> b \<and> b \<le> n \<longrightarrow> A b" by blast
  next
    assume all: "\<forall>b. 1 \<le> b \<and> b \<le> n \<longrightarrow> A b"
    have "bit c j \<longleftrightarrow> j < nat n" for j using assms(2) [of "int j + 1"] all by (auto simp: assms(1))
    then show "c = 2 ^ nat n - 1" using assms(4) by (intro bit_eqI) (simp add: bit_all_ones)
  qed
  then show "pass Filter_AND c n = Some (\<forall>b. 1 \<le> b \<and> b \<le> n \<longrightarrow> A b)"
    using assms(3,4) by (simp add: pass_def all_success_def)
  have "1 \<le> c \<longleftrightarrow> c \<noteq> 0" using word_less_1 [of c] linorder_not_less [of c 1] by simp
  then show "pass Filter_OR c n = Some (\<exists>b. A b)" "pass Filter_NOT c n = Some (\<nexists>b. A b)"
    using zero by (simp_all add: pass_def any_success_def none_success_def Filter_AND_def Filter_OR_def Filter_NOT_def)
qed

lemma filter_values_ok:
  assumes "\<And>i. ok i = Some (good i)"
  shows "filter_values ok vs i = Some (map snd (filter (good \<circ> fst) (zip [i..i + int (length vs) - 1] vs)), i + int (length vs))"
proof (induction vs arbitrary: i)
  case (Cons v vs)
  have "[i..i + int (length (v # vs)) - 1] = i # [i + 1..i + 1 + int (length vs) - 1]" by (simp add: upto_rec1)
  then show ?case using Cons.IH [of "i + 1"] assms by (simp add: algebra_simps)
qed simp

lemma filter_data_ok:
  assumes "\<And>i. ok i = Some (good i)"
  shows "\<exists>d'. filter_data ok d i = Some d' \<and> map fst d' = map fst d \<and>
     flat d' = map snd (filter (good \<circ> fst) (zip [i..i + int (length (flat d)) - 1] (flat d)))"
proof (induction d arbitrary: i)
  case (Cons p d)
  obtain h vs where p: "p = (h, vs)" by (cases p)
  let ?j = "i + int (length vs)"
  obtain d' where d': "filter_data ok d ?j = Some d'" "map fst d' = map fst d"
    "flat d' = map snd (filter (good \<circ> fst) (zip [?j..?j + int (length (flat d)) - 1] (flat d)))" using Cons.IH by blast
  have u: "[i..i + int (length (flat (p # d))) - 1] = [i..?j - 1] @ [?j..?j + int (length (flat d)) - 1]"
  proof (cases "flat d = []")
    case False
    then have "0 < length (flat d)" by simp
    then show ?thesis using upto_split1 [of i ?j "?j + int (length (flat d)) - 1"] p by (simp add: algebra_simps Suc_le_eq)
  qed (simp add: p)
  have "map (Pair h) (map snd (filter (good \<circ> fst) (zip is vs))) = map snd (filter (good \<circ> fst) (zip is (map (Pair h) vs)))" for "is"
    by (induction "is" vs rule: list_induct2') auto
  then have "flat ((h, map snd (filter (good \<circ> fst) (zip [i..?j - 1] vs))) # d') =
     map snd (filter (good \<circ> fst) (zip [i..i + int (length (flat (p # d))) - 1] (flat (p # d))))"
    unfolding u using d'(3) p by (simp add: zip_append1 take_map drop_map)
  then show ?case using filter_values_ok [of ok good vs i, OF assms] d' p by (auto simp: comp_def)
qed simp

text \<open>
  C21. The branch filter keeps the right values. Let the pairs that come back from the branches 1 to \<open>n\<close> arrive in any
  order. Of the values the filter was given, numbered from 0, \<open>and\<close> keeps those for which every branch gave a result,
  \<open>or\<close> those for which some branch did and \<open>not\<close> those for which none did, with their histories and in their order.
\<close>

theorem branch_filter_keeps:
  assumes "labelled_arrivals his_key n as" and "0 \<le> n" and "n \<le> 30"
  shows "\<exists>c. note_all his_key as (\<lambda>_. 0) = Some c \<and>
     (\<forall>(ty, keep)\<in>{(Filter_AND, \<lambda>i. \<forall>b. 1 \<le> b \<and> b \<le> n \<longrightarrow> answered his_key as b i),
                   (Filter_OR, \<lambda>i. \<exists>b. answered his_key as b i), (Filter_NOT, \<lambda>i. \<nexists>b. answered his_key as b i)}.
        \<exists>d'. filter_data (\<lambda>i. pass ty (c i) n) d 0 = Some d' \<and>
          flat d' = map snd (filter (keep \<circ> fst) (zip [0..int (length (flat d)) - 1] (flat d))))"
proof -
  obtain c where c: "note_all his_key as (\<lambda>_. 0) = Some c" "\<And>i j. bit (c i) j \<longleftrightarrow> answered his_key as (int j + 1) i"
    using note_all_ok [OF assms(1,3), of "\<lambda>_. 0"] by auto
  have r: "answered his_key as b i \<Longrightarrow> 1 \<le> b \<and> b \<le> n" for b i using assms(1) by (auto simp: answered_def labelled_arrivals_def)
  let ?K = "\<lambda>ty keep. \<exists>d'. filter_data (\<lambda>i. pass ty (c i) n) d 0 = Some d' \<and>
      flat d' = map snd (filter (keep \<circ> fst) (zip [0..int (length (flat d)) - 1] (flat d)))"
  have K: "?K ty keep" if "\<And>i. pass ty (c i) n = Some (keep i)" for ty keep
    using filter_data_ok [of "\<lambda>i. pass ty (c i) n" keep d 0] that by auto
  have "pass Filter_AND (c i) n = Some (\<forall>b. 1 \<le> b \<and> b \<le> n \<longrightarrow> answered his_key as b i)"
    "pass Filter_OR (c i) n = Some (\<exists>b. answered his_key as b i)" "pass Filter_NOT (c i) n = Some (\<nexists>b. answered his_key as b i)" for i
    using pass_ok [of "c i" "\<lambda>b. answered his_key as b i" n] c(2) r assms(2,3) by blast+
  then have "?K Filter_AND (\<lambda>i. \<forall>b. 1 \<le> b \<and> b \<le> n \<longrightarrow> answered his_key as b i)" "?K Filter_OR (\<lambda>i. \<exists>b. answered his_key as b i)"
    "?K Filter_NOT (\<lambda>i. \<nexists>b. answered his_key as b i)"
    by (intro K; simp)+
  then show ?thesis using c(1) by (intro exI [of _ c]) simp
qed

definition ex_answers :: "(int \<times> traverser) list" where
  "ex_answers = [(2, [(3, int2value_t 1 new_value)], [int2value_t 8 new_value]),
     (1, [(3, int2value_t 1 new_value)], [int2value_t 9 new_value]), (1, [(3, int2value_t 0 new_value)], [int2value_t 5 new_value])]"

theorem branch_filter_keeps_witness:
  "labelled_arrivals 3 2 ex_answers \<and>
   (\<exists>c d'. note_all 3 ex_answers (\<lambda>_. 0) = Some c \<and>
      filter_data (\<lambda>i. pass Filter_AND (c i) 2) ex_data 0 = Some d' \<and> flat d' = [([], int2value_t 7 new_value)])"
proof -
  have v: "value_t2int (int2value_t i new_value) = Some i" if "0 \<le> i" "i < 10" for i using that by (simp add: value_t2int_int2value)
  have l: "labelled_arrivals 3 2 ex_answers" by (simp add: labelled_arrivals_def ex_answers_def v)
  have a: "(\<forall>b. 1 \<le> b \<and> b \<le> 2 \<longrightarrow> answered 3 ex_answers b i) \<longleftrightarrow> i = 1" for i
  proof
    assume "\<forall>b. 1 \<le> b \<and> b \<le> 2 \<longrightarrow> answered 3 ex_answers b i"
    then have "answered 3 ex_answers 2 i" by simp
    then show "i = 1" by (auto simp: answered_def ex_answers_def label_of_def v split: if_splits)
  next
    assume "i = 1"
    then have "label_of 3 ([(3, int2value_t 1 new_value)], [w]) = Some i" for w by (simp add: label_of_def v)
    then have "answered 3 ex_answers 1 i" "answered 3 ex_answers 2 i" unfolding answered_def ex_answers_def by fastforce+
    moreover have "b = 1 \<or> b = 2" if "1 \<le> b" "b \<le> 2" for b :: int using that by linarith
    ultimately show "\<forall>b. 1 \<le> b \<and> b \<le> 2 \<longrightarrow> answered 3 ex_answers b i" by blast
  qed
  have "zip [0..int (length (flat ex_data)) - 1] (flat ex_data) =
     [(0, [], int2value_t 4 new_value), (1, [], int2value_t 7 new_value), (2, [(1, int2value_t 4 new_value)], int2value_t 3 new_value)]"
    by (simp add: ex_data_def upto.simps)
  then have "map snd (filter ((\<lambda>i. \<forall>b. 1 \<le> b \<and> b \<le> 2 \<longrightarrow> answered 3 ex_answers b i) \<circ> fst)
      (zip [0..int (length (flat ex_data)) - 1] (flat ex_data))) = [([], int2value_t 7 new_value)]" unfolding a comp_def by simp
  then show ?thesis using l branch_filter_keeps [OF l, of ex_data] by auto
qed

end
