(* ===== verification/Row_List.thy ===== *)
theory Row_List
  imports Mem_Pool
begin

text \<open>
  The rows in which the properties of a vertex or edge and the edges of a vertex are kept: what
  \<open>PropertyRowList\<close> (src/layout/property_row_list.tpp) and \<open>TopologyRowList\<close> (src/layout/topology_row_list.cpp)
  have in common. Rows of \<open>R\<close> cells come from a memory pool and are linked through \<open>next_\<close>; the cells are numbered
  through, and the number of cells in use says how far a list reaches. A row that is fetched from the pool is not
  initialised, so its \<open>next_\<close> is whatever the memory holds.

  Dereferencing \<open>nullptr\<close> and a failed \<open>CHECK\<close> are \<open>None\<close>.
\<close>

section \<open>State\<close>

record 'c row =
  next_row :: "nat option"
  cells :: "nat \<Rightarrow> 'c"

record 'c row_mem =
  rows :: "nat \<Rightarrow> 'c row"
  row_pool :: mem_pool

record row_list =
  rl_count :: nat
  rl_head :: "nat option"
  rl_tail :: "nat option"

definition empty_rows :: row_list where
  "empty_rows = \<lparr>rl_count = 0, rl_head = None, rl_tail = None\<rparr>"

definition upd_cell :: "nat \<Rightarrow> nat \<Rightarrow> 'c \<Rightarrow> 'c row_mem \<Rightarrow> 'c row_mem" where
  "upd_cell a c x M = M\<lparr>rows := (rows M)(a := (rows M a)\<lparr>cells := (cells (rows M a))(c := x)\<rparr>)\<rparr>"

definition set_next :: "nat \<Rightarrow> nat option \<Rightarrow> 'c row_mem \<Rightarrow> 'c row_mem" where
  "set_next a n M = M\<lparr>rows := (rows M)(a := (rows M a)\<lparr>next_row := n\<rparr>)\<rparr>"

definition cell_at :: "'c row_mem \<Rightarrow> nat \<Rightarrow> nat \<Rightarrow> 'c" where
  "cell_at M a c = cells (rows M a) c"

section \<open>Walking along the rows\<close>

text \<open>
  The loop over the cells \<open>i, i + 1, ...\<close> that all operations share; \<open>row\<close> is the row of the cell before. The body
  gets the number of the cell, its row and its place in the row, and can leave the loop.
\<close>

datatype ('s, 'r) loop = Continue 's | Stop 'r

fun row_loop :: "nat \<Rightarrow> 'c row_mem \<Rightarrow> (nat \<Rightarrow> nat \<Rightarrow> nat \<Rightarrow> 's \<Rightarrow> ('s, 'r) loop option) \<Rightarrow> nat \<Rightarrow> nat \<Rightarrow>
    nat option \<Rightarrow> 's \<Rightarrow> ('s, 'r) loop option" where
  "row_loop R M f i 0 row s = Some (Continue s)"
| "row_loop R M f i (Suc k) row s =
     do { b \<leftarrow> row;
          a \<leftarrow> (if i > 0 \<and> i mod R = 0 then next_row (rows M b) else Some b);
          r \<leftarrow> f i a (i mod R) s;
          (case r of Continue s' \<Rightarrow> row_loop R M f (Suc i) k (Some a) s' | Stop x \<Rightarrow> Some (Stop x)) }"

fun list_loop :: "('a \<Rightarrow> 's \<Rightarrow> ('s, 'r) loop option) \<Rightarrow> 'a list \<Rightarrow> 's \<Rightarrow> ('s, 'r) loop option" where
  "list_loop f [] s = Some (Continue s)"
| "list_loop f (x # xs) s =
     do { r \<leftarrow> f x s; (case r of Continue s' \<Rightarrow> list_loop f xs s' | Stop y \<Rightarrow> Some (Stop y)) }"

section \<open>A new cell\<close>

text \<open>The place of the next cell, in a new row if the last one is full.\<close>

definition next_place :: "nat \<Rightarrow> nat \<Rightarrow> 'c row_mem \<Rightarrow> row_list \<Rightarrow> (nat \<times> nat \<times> 'c row_mem \<times> row_list) option" where
  "next_place R tid M l =
     (let cell_id = rl_count l; c = cell_id mod R
      in if c = 0
         then do { (a, p) \<leftarrow> MemPool_Get (row_pool M) tid;
                   let M = M\<lparr>row_pool := p\<rparr>;
                   if cell_id = 0 then Some (a, c, M, l\<lparr>rl_head := Some a, rl_tail := Some a\<rparr>)
                   else do { t \<leftarrow> rl_tail l; Some (a, c, set_next t (Some a) M, l\<lparr>rl_tail := Some a\<rparr>) } }
         else do { t \<leftarrow> rl_tail l; Some (t, c, M, l) })"

definition append_cell :: "nat \<Rightarrow> nat \<Rightarrow> 'c \<Rightarrow> 'c row_mem \<Rightarrow> row_list \<Rightarrow> (nat \<times> nat \<times> 'c row_mem \<times> row_list) option" where
  "append_cell R tid x M l =
     do { (a, c, M, l) \<leftarrow> next_place R tid M l; Some (a, c, upd_cell a c x M, l\<lparr>rl_count := rl_count l + 1\<rparr>) }"

section \<open>Defragmentation\<close>

definition rows_for :: "nat \<Rightarrow> nat \<Rightarrow> nat" where
  "rows_for R n = (let k = n div R; k = (if k * R \<noteq> n then k + 1 else k) in if k = 0 then 1 else k)"

definition ptr_at :: "'a list \<Rightarrow> nat \<Rightarrow> 'a option" where
  "ptr_at xs i = (if i < length xs then Some (xs ! i) else None)"

text \<open>
  Cells from the end of the list are copied into the empty cells, first come first served. \<open>state_of\<close> tells
  whether a cell is empty. \<open>n\<close> is the number of cells, \<open>i\<close> the cell that is looked at, \<open>ri\<close> the number of its row.
\<close>

fun move_cells :: "nat \<Rightarrow> ('c \<Rightarrow> bool option) \<Rightarrow> nat list \<Rightarrow> nat \<Rightarrow> nat \<Rightarrow> nat \<Rightarrow> nat \<Rightarrow> (nat \<times> nat) list \<Rightarrow>
    'c row_mem \<Rightarrow> 'c row_mem option" where
  "move_cells R state_of ptrs n i ri movable queue M =
     do { ri \<leftarrow> (if i mod R = R - 1 \<and> i \<noteq> n - 1 then (if ri = 0 then None else Some (ri - 1)) else Some ri);
          a \<leftarrow> ptr_at ptrs ri;
          let x = cell_at M a (i mod R);
          e \<leftarrow> state_of x;
          (movable, queue, M) \<leftarrow>
            (if e then Some (movable, queue, M)
             else case queue of
                    [] \<Rightarrow> None
                  | (br, bc) # q \<Rightarrow> do { b \<leftarrow> ptr_at ptrs br; Some (movable - 1, q, upd_cell b bc x M) });
          if queue = [] \<or> movable = 0 then Some M
          else (case i of 0 \<Rightarrow> Some M | Suc j \<Rightarrow> move_cells R state_of ptrs n j ri movable queue M) }"

fun recycle_rows :: "nat \<Rightarrow> nat list \<Rightarrow> nat \<Rightarrow> nat \<Rightarrow> 'c row_mem \<Rightarrow> 'c row_mem option" where
  "recycle_rows tid ptrs keep 0 M = Some M"
| "recycle_rows tid ptrs keep (Suc i) M =
     (if keep \<le> i
      then do { M \<leftarrow> (if i = 0 then Some M else do { b \<leftarrow> ptr_at ptrs (i - 1); Some (set_next b None M) });
                a \<leftarrow> ptr_at ptrs i;
                recycle_rows tid ptrs keep i (M\<lparr>row_pool := MemPool_Free (row_pool M) a tid\<rparr>) }
      else Some M)"

definition defragment :: "nat \<Rightarrow> nat \<Rightarrow> ('c \<Rightarrow> bool option) \<Rightarrow> nat list \<Rightarrow> (nat \<times> nat) list \<Rightarrow> 'c row_mem \<Rightarrow> row_list \<Rightarrow>
    ('c row_mem \<times> row_list) option" where
  "defragment R tid state_of ptrs queue M l =
     do { let n = rl_count l;
          let cur = n - length queue;
          let keep = (if cur mod R = 0 then cur div R else cur div R + 1);
          M \<leftarrow> move_cells R state_of ptrs n (n - 1) (rows_for R n - 1) cur queue M;
          M \<leftarrow> recycle_rows tid ptrs keep (rows_for R n) M;
          t \<leftarrow> (if keep = 0 then Some None else do { a \<leftarrow> ptr_at ptrs (keep - 1); Some (Some a) });
          Some (M, l\<lparr>rl_count := cur, rl_tail := t, rl_head := (if keep = 0 then None else rl_head l)\<rparr>) }"

section \<open>The rows of a list\<close>

definition row_chain :: "nat \<Rightarrow> 'c row_mem \<Rightarrow> row_list \<Rightarrow> nat list \<Rightarrow> bool" where
  "row_chain R M l rs \<longleftrightarrow>
     0 < R \<and> distinct rs \<and> length rs = (if rl_count l mod R = 0 then rl_count l div R else rl_count l div R + 1) \<and>
     rl_head l = (if rs = [] then None else Some (hd rs)) \<and> rl_tail l = (if rs = [] then None else Some (last rs)) \<and>
     (\<forall>i. Suc i < length rs \<longrightarrow> next_row (rows M (rs ! i)) = Some (rs ! Suc i))"

definition the_cells :: "nat \<Rightarrow> 'c row_mem \<Rightarrow> nat list \<Rightarrow> nat \<Rightarrow> 'c list" where
  "the_cells R M rs n = map (\<lambda>i. cell_at M (rs ! (i div R)) (i mod R)) [0..<n]"

lemma length_the_cells [simp]: "length (the_cells R M rs n) = n"
  by (simp add: the_cells_def)

lemma the_cells_nth: "i < n \<Longrightarrow> the_cells R M rs n ! i = cell_at M (rs ! (i div R)) (i mod R)"
  by (simp add: the_cells_def)

lemma row_in_chain:
  assumes "row_chain R M l rs" "i < rl_count l"
  shows "i div R < length rs"
proof -
  have R: "0 < R" and len: "length rs = (if rl_count l mod R = 0 then rl_count l div R else rl_count l div R + 1)"
    using assms(1) by (simp_all add: row_chain_def)
  have "i div R \<le> rl_count l div R" using assms(2) by (simp add: div_le_mono)
  moreover have "i div R < rl_count l div R" if "rl_count l mod R = 0"
    using assms(2) R that by (metis div_less_iff_less_mult mod_0_imp_dvd dvd_div_mult_self)
  ultimately show ?thesis using len by auto
qed

lemma row_loop_list:
  assumes c: "row_chain R M l rs" and "i + k \<le> rl_count l" and "k \<noteq> 0 \<Longrightarrow> row = Some (rs ! ((i - 1) div R))"
  shows "row_loop R M f i k row s = list_loop (\<lambda>i. f i (rs ! (i div R)) (i mod R)) [i..<i + k] s"
  using assms(2,3)
proof (induction k arbitrary: i row s)
  case (Suc k)
  have i: "i div R < length rs" using row_in_chain [OF c] Suc.prems(1) by simp
  have R: "0 < R" using c by (simp add: row_chain_def)
  have e: "(if i > 0 \<and> i mod R = 0 then next_row (rows M (rs ! ((i - 1) div R))) else Some (rs ! ((i - 1) div R))) = Some (rs ! (i div R))"
  proof (cases "i > 0 \<and> i mod R = 0")
    case True
    then have "i div R = Suc ((i - 1) div R)" using R
      by (metis Suc_diff_1 div_Suc mod_Suc)
    then show ?thesis using True i c by (simp add: row_chain_def)
  next
    case False
    then have "i div R = (i - 1) div R" by (cases i) (auto simp: div_Suc)
    then show ?thesis using False by auto
  qed
  have u: "[i..<i + Suc k] = i # [Suc i..<Suc i + k]" by (simp add: upt_conv_Cons)
  have IH: "row_loop R M f (Suc i) k (Some (rs ! (i div R))) =
     list_loop (\<lambda>i. f i (rs ! (i div R)) (i mod R)) [Suc i..<Suc i + k]"
    using Suc.IH [of "Suc i" "Some (rs ! (i div R))"] Suc.prems(1) by (intro ext) simp
  have row: "row = Some (rs ! ((i - 1) div R))" using Suc.prems(2) by simp
  show ?case unfolding row u row_loop.simps list_loop.simps Option.bind_lunit e IH ..
qed simp

lemma row_loop_all:
  assumes "row_chain R M l rs"
  shows "row_loop R M f 0 (rl_count l) (rl_head l) s = list_loop (\<lambda>i. f i (rs ! (i div R)) (i mod R)) [0..<rl_count l] s"
proof -
  have "rl_head l = Some (rs ! 0)" if "rl_count l \<noteq> 0"
    using assms row_in_chain [OF assms, of 0] that by (auto simp: row_chain_def hd_conv_nth)
  then show ?thesis using row_loop_list [OF assms, of 0 "rl_count l" "rl_head l" f s] by simp
qed

lemma same_place_iff:
  assumes "distinct rs" "0 < R" "i div R < length rs" "j div R < length rs"
  shows "rs ! (i div R) = rs ! (j div R) \<and> i mod R = j mod R \<longleftrightarrow> i = j"
proof
  assume "rs ! (i div R) = rs ! (j div R) \<and> i mod R = j mod R"
  then have "i div R = j div R" "i mod R = j mod R" using nth_eq_iff_index_eq [OF assms(1,3,4)] by simp_all
  then show "i = j" by (metis div_mult_mod_eq)
qed simp

lemma cell_at_upd: "cell_at (upd_cell b d x M) a c = (if a = b \<and> c = d then x else cell_at M a c)"
  by (simp add: cell_at_def upd_cell_def)

lemma cell_at_set_next [simp]: "cell_at (set_next b n M) a c = cell_at M a c"
  by (simp add: cell_at_def set_next_def)

lemma cell_at_pool [simp]: "cell_at (M\<lparr>row_pool := p\<rparr>) a c = cell_at M a c"
  by (simp add: cell_at_def)

lemma next_row_simps [simp]:
  "next_row (rows (upd_cell b d x M) a) = next_row (rows M a)"
  "next_row (rows (set_next b n M) a) = (if a = b then n else next_row (rows M a))"
  "row_pool (upd_cell b d x M) = row_pool M" "row_pool (set_next b n M) = row_pool M"
  by (simp_all add: upd_cell_def set_next_def)

lemma the_cells_upd:
  assumes "distinct rs" "0 < R" "n \<le> length rs * R" "j div R < length rs"
  shows "the_cells R (upd_cell (rs ! (j div R)) (j mod R) x M) rs n = (the_cells R M rs n)[j := x]"
proof (rule nth_equalityI)
  fix i assume "i < length (the_cells R (upd_cell (rs ! (j div R)) (j mod R) x M) rs n)"
  then have i: "i < n" "i div R < length rs" using assms(3) by (simp_all add: less_mult_imp_div_less)
  then show "the_cells R (upd_cell (rs ! (j div R)) (j mod R) x M) rs n ! i = (the_cells R M rs n)[j := x] ! i"
    using same_place_iff [OF assms(1,2) i(2) assms(4)]
    by (auto simp: the_cells_nth cell_at_upd nth_list_update)
qed simp

lemma ceil_rows:
  assumes "0 < R" "(k :: nat) = (if n mod R = 0 then n div R else n div R + 1)"
  shows "n \<le> k * R" "k * R < n + R"
proof -
  obtain q r where q: "n = R * q + r" "r < R" "n div R = q" "n mod R = r"
    using assms(1) mult_div_mod_eq [of R n] by (metis mod_less_divisor)
  then have "k = (if r = 0 then q else q + 1)" using assms(2) by simp
  then show "n \<le> k * R" "k * R < n + R" using q(1,2) by (auto simp: algebra_simps)
qed

lemma chain_covers:
  assumes "row_chain R M l rs"
  shows "rl_count l \<le> length rs * R" "length rs * R < rl_count l + R"
  using assms ceil_rows [of R "length rs" "rl_count l"] by (simp_all add: row_chain_def)

lemma row_chain_unique:
  assumes "row_chain R M l rs" "row_chain R M l rs'"
  shows "rs = rs'"
proof (rule nth_equalityI)
  show len: "length rs = length rs'" using assms by (simp add: row_chain_def)
  show "i < length rs \<Longrightarrow> rs ! i = rs' ! i" for i
  proof (induction i)
    case 0
    then have "rs \<noteq> []" "rs' \<noteq> []" using len by auto
    then show ?case using assms by (auto simp: row_chain_def hd_conv_nth)
  next
    case (Suc i)
    have c: "\<forall>i. Suc i < length rs \<longrightarrow> next_row (rows M (rs ! i)) = Some (rs ! Suc i)"
      "\<forall>i. Suc i < length rs' \<longrightarrow> next_row (rows M (rs' ! i)) = Some (rs' ! Suc i)"
      using assms unfolding row_chain_def by blast+
    have "next_row (rows M (rs ! i)) = Some (rs ! Suc i)" "next_row (rows M (rs' ! i)) = Some (rs' ! Suc i)"
      using c(1) [rule_format, of i] c(2) [rule_format, of i] Suc.prems len by simp_all
    then show ?case using Suc by simp
  qed
qed

text \<open>A new cell comes after all others; no cell in use is touched.\<close>

lemma append_cell_ok:
  assumes c: "row_chain R M l rs" and u: "pool_used (row_pool M) U" "set rs \<subseteq> U" "tid < nthreads (row_pool M)"
    and a: "append_cell R tid x M l = Some (a, d, M', l')"
  obtains rs' U' where "row_chain R M' l' rs'" "pool_used (row_pool M') U'" "set rs' \<subseteq> U'" "nthreads (row_pool M') = nthreads (row_pool M)"
    "rl_count l' = Suc (rl_count l)" "a = rs' ! (rl_count l div R)" "d = rl_count l mod R"
    "the_cells R M' rs' (Suc (rl_count l)) = the_cells R M rs (rl_count l) @ [x]" "\<exists>ys. rs' = rs @ ys" "U \<subseteq> U'" "U' - U = set rs' - set rs"
proof -
  let ?n = "rl_count l"
  have R: "0 < R" and dist: "distinct rs" using c by (simp_all add: row_chain_def)
  show ?thesis
  proof (cases "?n mod R = 0")
    case False
    then have t: "rs \<noteq> []" "rl_tail l = Some (last rs)" "length rs = ?n div R + 1" using c by (auto simp: row_chain_def)
    have last: "last rs = rs ! (?n div R)" using t by (simp add: last_conv_nth)
    have r: "a = rs ! (?n div R)" "d = ?n mod R" "M' = upd_cell a d x M" "l' = l\<lparr>rl_count := Suc ?n\<rparr>"
      using a False t last by (auto simp: append_cell_def next_place_def Let_def)
    have "Suc ?n mod R = 0 \<Longrightarrow> Suc ?n div R = ?n div R + 1" "Suc ?n mod R \<noteq> 0 \<Longrightarrow> Suc ?n div R = ?n div R"
      by (auto simp: div_Suc)
    then have "row_chain R M' l' rs" using c r t False by (auto simp: row_chain_def)
    moreover have "Suc ?n \<le> length rs * R" using chain_covers [OF c] calculation chain_covers [of R M' l' rs] r by simp
    then have "the_cells R M' rs (Suc ?n) = (the_cells R M rs (Suc ?n))[?n := x]"
      unfolding r using the_cells_upd [OF dist R _, of "Suc ?n" ?n x M] t(3) by simp
    then have "the_cells R M' rs (Suc ?n) = the_cells R M rs ?n @ [x]" by (simp add: the_cells_def list_update_append)
    ultimately show ?thesis using that [of rs U] u r by auto
  next
    case True
    then have len: "length rs = ?n div R" using c by (simp add: row_chain_def)
    obtain p where g: "MemPool_Get (row_pool M) tid = Some (a, p)"
      using a True by (auto simp: append_cell_def next_place_def Let_def bind_eq_Some_conv split: if_splits)
    have p: "a \<notin> U" "pool_used p (insert a U)" "nthreads p = nthreads (row_pool M)" using pool_used_get [OF u(1,3) g] by auto
    define M1 where "M1 = (if rs = [] then M\<lparr>row_pool := p\<rparr> else set_next (last rs) (Some a) (M\<lparr>row_pool := p\<rparr>))"
    have empty: "?n = 0 \<longleftrightarrow> rs = []" using len True R by (auto simp: div_eq_0_iff)
    have tl: "rl_tail l = (if rs = [] then None else Some (last rs))" "rl_head l = (if rs = [] then None else Some (hd rs))"
      using c by (simp_all add: row_chain_def)
    have r: "d = 0" "M' = upd_cell a 0 x M1" "l' = l\<lparr>rl_count := Suc ?n, rl_head := Some (hd (rs @ [a])), rl_tail := Some a\<rparr>"
      using a True g empty tl by (auto simp: append_cell_def next_place_def Let_def M1_def hd_append)
    have a': "a \<notin> set rs" using p(1) u(2) by auto
    have nx: "next_row (rows M1 (rs ! i)) = Some ((rs @ [a]) ! Suc i)" if "i < length rs" for i
    proof (cases "Suc i < length rs")
      case True
      then have "rs \<noteq> []" by auto
      then have "rs ! i \<noteq> last rs" using dist True nth_eq_iff_index_eq [of rs i "length rs - 1"] by (auto simp: last_conv_nth)
      then show ?thesis using True c by (auto simp: M1_def nth_append row_chain_def)
    next
      case False
      then have "Suc i = length rs" "rs \<noteq> []" using that by auto
      then have "rs ! i = last rs" "rs \<noteq> []" "Suc i = length rs" by (simp_all add: last_conv_nth flip: \<open>Suc i = length rs\<close>)
      then show ?thesis by (simp add: M1_def nth_append)
    qed
    have "Suc ?n mod R \<noteq> 0 \<Longrightarrow> Suc ?n div R = ?n div R" "Suc ?n mod R = 0 \<Longrightarrow> Suc ?n div R = ?n div R + 1" by (auto simp: div_Suc)
    then have ch: "row_chain R M' l' (rs @ [a])" using R dist a' len nx r tl
      by (auto simp: row_chain_def nth_append)
    have "cell_at M' ((rs @ [a]) ! (i div R)) (i mod R) = cell_at M (rs ! (i div R)) (i mod R)" if "i < ?n" for i
      using row_in_chain [OF c that] a' r nth_mem [of "i div R" rs] by (auto simp: cell_at_upd nth_append M1_def)
    then have "the_cells R M' (rs @ [a]) (Suc ?n) = the_cells R M rs ?n @ [x]"
      using len True r by (auto simp: the_cells_def cell_at_upd nth_append)
    moreover have "row_pool M' = p" using r(2) by (simp add: M1_def)
    ultimately show ?thesis using that [of "rs @ [a]" "insert a U"] ch p u(2) r(1,3) len True a' by (auto simp: nth_append)
  qed
qed

section \<open>Defragmentation keeps the cells in use\<close>

text \<open>
  On the list of the cells: the same loop. \<open>E\<close> are the numbers of the empty cells that are still to be filled.
\<close>

fun move_list :: "('c \<Rightarrow> bool) \<Rightarrow> nat \<Rightarrow> nat \<Rightarrow> nat list \<Rightarrow> 'c list \<Rightarrow> 'c list option" where
  "move_list unused i movable E xs =
     do { let x = xs ! i;
          (movable, E, xs) \<leftarrow> (if unused x then Some (movable, E, xs)
             else case E of [] \<Rightarrow> None | e # q \<Rightarrow> Some (movable - 1, q, xs[e := x]));
          if E = [] \<or> movable = 0 then Some xs
          else (case i of 0 \<Rightarrow> Some xs | Suc j \<Rightarrow> move_list unused j movable E xs) }"

declare move_list.simps [simp del] move_cells.simps [simp del]

definition empties :: "('c \<Rightarrow> bool) \<Rightarrow> 'c list \<Rightarrow> nat \<Rightarrow> nat \<Rightarrow> nat list" where
  "empties unused xs a b = filter (\<lambda>i. unused (xs ! i)) [a..<b]"

definition used_cells :: "('c \<Rightarrow> bool) \<Rightarrow> 'c list \<Rightarrow> 'c list" where
  "used_cells unused = filter (\<lambda>x. \<not> unused x)"

lemma used_cells_simps [simp]:
  "used_cells unused [] = []" "used_cells unused (xs @ ys) = used_cells unused xs @ used_cells unused ys"
  "used_cells unused (x # xs) = (if unused x then used_cells unused xs else x # used_cells unused xs)"
  by (simp_all add: used_cells_def)

text \<open>
  Once the cells in front are filled, the loop only writes behind them.
\<close>

lemma move_list_behind:
  assumes "\<And>j. j < m \<Longrightarrow> \<not> unused (xs ! j)" "i < m" "\<And>e. e \<in> set E \<Longrightarrow> m \<le> e" "E \<noteq> []" "m \<le> length xs"
  shows "\<exists>xs'. move_list unused i movable E xs = Some xs' \<and> take m xs' = take m xs \<and> length xs' = length xs"
  using assms
proof (induction i arbitrary: E xs movable)
  case 0
  obtain e q where E: "E = e # q" using 0(4) by (cases E) auto
  show ?case using 0 E by (subst move_list.simps) (auto simp: Let_def)
next
  case (Suc i)
  obtain e q where E: "E = e # q" using Suc(5) by (cases E) auto
  have e: "m \<le> e" using Suc(4) E by simp
  let ?xs = "xs[e := xs ! Suc i]"
  have t: "take m ?xs = take m xs" using e by (simp add: take_update_cancel)
  have n: "\<not> unused (?xs ! j)" if "j < m" for j using Suc(2) [OF that] e that by simp
  show ?case
  proof (cases "q = [] \<or> movable - 1 = 0")
    case True
    then show ?thesis using E t Suc(2) [OF Suc(3)] by (subst move_list.simps) (auto simp: Let_def)
  next
    case False
    then have "\<exists>xs'. move_list unused i (movable - 1) q ?xs = Some xs' \<and> take m xs' = take m ?xs \<and> length xs' = length ?xs"
      using Suc.prems(3,5) n E Suc.prems(2) by (intro Suc.IH) auto
    then show ?thesis using False E t Suc(2) [OF Suc(3)] by (subst move_list.simps) (auto simp: Let_def)
  qed
qed

text \<open>
  The cells behind \<open>m\<close>, from the last one on: those in use are copied into the empty cells before \<open>m\<close>, of which
  there are as many. \<open>G\<close> are the empty cells behind \<open>m\<close>.
\<close>

lemma filter_update_mset:
  assumes "e < length ys" "unused (ys ! e)" "\<not> unused x"
  shows "mset (used_cells unused (ys[e := x])) = add_mset x (mset (used_cells unused ys))"
proof -
  have "used_cells unused ys = used_cells unused (take e ys @ ys ! e # drop (Suc e) ys)" using id_take_nth_drop [OF assms(1)] by simp
  then show ?thesis using assms by (simp add: upd_conv_take_nth_drop)
qed

lemma empties_update:
  assumes "empties unused xs 0 m = e # F" "\<not> unused x" "m \<le> length xs"
  shows "empties unused (xs[e := x]) 0 m = F" "e < m" "unused (xs ! e)"
proof -
  have "e \<in> set (empties unused xs 0 m)" using assms(1) by simp
  then show e: "e < m" "unused (xs ! e)" by (auto simp: empties_def)
  have "distinct (e # F)" unfolding assms(1) [symmetric] by (simp add: empties_def)
  moreover have "empties unused (xs[e := x]) 0 m = filter (\<lambda>j. j \<noteq> e) (empties unused xs 0 m)"
    using assms(2,3) e by (auto simp: empties_def nth_list_update intro!: filter_cong)
  ultimately show "empties unused (xs[e := x]) 0 m = F" using assms(1) by (auto simp: filter_id_conv)
qed

lemma full_front: "empties unused xs 0 m = [] \<Longrightarrow> m \<le> length xs \<Longrightarrow> used_cells unused (take m xs) = take m xs"
  by (auto simp: used_cells_def empties_def filter_id_conv filter_empty_conv in_set_conv_nth)

lemma drop_take_Suc: "m \<le> i \<Longrightarrow> i < length xs \<Longrightarrow> drop m (take (Suc i) xs) = drop m (take i xs) @ [xs ! i]"
  by (simp add: take_Suc_conv_app_nth)

lemma move_list_front:
  assumes "m \<le> i" "i < length xs" "F @ G \<noteq> []" "\<forall>e\<in>set G. m \<le> e"
    and "F = empties unused xs 0 m" "length F = length (used_cells unused (drop m (take (Suc i) xs)))"
    and "movable = c + length F"
  shows "\<exists>xs'. move_list unused i movable (F @ G) xs = Some xs' \<and> length xs' = length xs \<and>
     mset (take m xs') = mset (used_cells unused (take m xs)) + mset (used_cells unused (drop m (take (Suc i) xs)))"
  using assms
proof (induction i arbitrary: F xs movable)
  case (0 F xs movable)
  then have F: "F = []" "m = 0" "take (Suc 0) xs = [xs ! 0]" by (simp_all add: empties_def take_Suc_conv_app_nth)
  then have "unused (xs ! 0)" using 0(6) by (simp split: if_splits)
  then show ?case using 0(3) F by (subst move_list.simps) (simp add: Let_def)
next
  case (Suc i)
  let ?x = "xs ! Suc i" and ?T = "\<lambda>i xs. used_cells unused (drop m (take (Suc i) xs))"
  have T: "drop m (take (Suc (Suc i)) xs) = drop m (take (Suc i) xs) @ [?x]" using drop_take_Suc [of m "Suc i" xs] Suc.prems by simp
  have len: "m \<le> length xs" using Suc.prems by simp
  have on: "\<exists>xs'. move_list unused i mv (F' @ G) ys = Some xs' \<and> length xs' = length ys \<and>
      mset (take m xs') = mset (used_cells unused (take m ys)) + mset (?T i ys)"
    if F': "F' = empties unused ys 0 m" "length F' = length (?T i ys)" "mv = c + length F'" "length ys = length xs"
      and "m \<le> i" "(F' @ G = [] \<or> mv = 0) = False" for F' mv ys
    using Suc.prems(2,4) that by (intro Suc.IH) (simp_all add: comp_def)
  text \<open>Leaving the cell \<open>Suc i\<close>: either the loop goes on with \<open>i\<close>, or everything is in its place.\<close>
  have rest: "\<exists>xs'. (if F' @ G = [] \<or> mv = 0 then Some ys else move_list unused i mv (F' @ G) ys) = Some xs' \<and> length xs' = length ys \<and>
      mset (take m xs') = mset (used_cells unused (take m ys)) + mset (?T i ys)"
    if F': "F' = empties unused ys 0 m" "length F' = length (?T i ys)" "mv = c + length F'" "length ys = length xs" for F' mv ys
  proof (cases "F' = []")
    case True
    then have e: "?T i ys = []" "used_cells unused (take m ys) = take m ys" using F' full_front [of unused ys m] len by simp_all
    have "\<not> unused (ys ! j)" if "j < m" for j using True F'(1) that by (auto simp: empties_def filter_empty_conv)
    then show ?thesis
    proof (cases "G = [] \<or> mv = 0 \<or> m = Suc i")
      case True
      note G = this
      show ?thesis
      proof (cases "G = [] \<or> mv = 0")
        case False
        then have "m = Suc i" "G \<noteq> []" using G by auto
        then show ?thesis
          using move_list_behind [of m unused ys i G mv] \<open>\<And>j. j < m \<Longrightarrow> \<not> unused (ys ! j)\<close> Suc.prems(4) e \<open>F' = []\<close> False F'(4) len
          by (metis append_Nil lessI mset_append self_append_conv)
      qed (use e \<open>F' = []\<close> in auto)
    next
      case False
      then have "(F' @ G = [] \<or> mv = 0) = False" "m \<le> i" using Suc.prems(1) by auto
      then show ?thesis using on [OF F'] by (simp only: if_False)
    qed
  next
    case False
    then have "drop m (take (Suc i) ys) \<noteq> []" using F'(2) by auto
    then have "(F' @ G = [] \<or> mv = 0) = False" "m \<le> i" using Suc.prems(1) False F'(3) by (cases "m = Suc i"; auto)+
    then show ?thesis using on [OF F'] by (simp only: if_False)
  qed
  show ?case
  proof (cases "unused ?x")
    case True
    then have step: "move_list unused (Suc i) movable (F @ G) xs = (if F @ G = [] \<or> movable = 0 then Some xs else move_list unused i movable (F @ G) xs)"
      by (subst move_list.simps) (simp add: Let_def)
    show ?thesis unfolding step T using rest [of F xs movable] Suc.prems(5-7) T True by simp
  next
    case False
    then obtain e F' where F: "F = e # F'" using Suc.prems(6) T by (cases F) auto
    let ?ys = "xs[e := ?x]"
    have e: "empties unused ?ys 0 m = F'" "e < m" "unused (xs ! e)" using empties_update [of unused xs m e F' ?x] F Suc.prems(5) False len by simp_all
    have d: "drop m (take (Suc i) ?ys) = drop m (take (Suc i) xs)" using e(2) by (simp add: take_update_swap drop_update_cancel)
    have "take m ?ys = (take m xs)[e := ?x]" by (simp add: take_update_swap)
    then have ms: "mset (used_cells unused (take m ?ys)) = add_mset ?x (mset (used_cells unused (take m xs)))"
      using filter_update_mset [of e "take m xs" unused ?x] e len False by simp
    have step: "move_list unused (Suc i) movable (F @ G) xs =
        (if F' @ G = [] \<or> movable - 1 = 0 then Some ?ys else move_list unused i (movable - 1) (F' @ G) ?ys)"
      using False F by (subst move_list.simps) (simp add: Let_def)
    show ?thesis unfolding step T using rest [of F' ?ys "movable - 1"] Suc.prems(6,7) F False T e(1) d ms by simp
  qed
qed

lemma row_index:
  assumes "0 < R" "i < n" "ri = (if i = n - 1 then i div R else Suc i div R)"
  shows "(if i mod R = R - 1 \<and> i \<noteq> n - 1 then (if ri = 0 then None else Some (ri - 1)) else Some ri) = Some (i div R)"
proof -
  have "Suc i mod R = 0 \<longleftrightarrow> i mod R = R - 1" using assms(1) by (auto simp: mod_Suc)
  then show ?thesis using assms by (auto simp: div_Suc split: if_splits)
qed

lemma move_cells_cell:
  assumes "0 < R" "i < n" "ri = (if i = n - 1 then i div R else Suc i div R)" "n \<le> length rs * R"
    and "x = the_cells R M rs n ! i" "state_of x = Some (unused x)" "\<And>e. e \<in> set E \<Longrightarrow> e < n" "\<not> unused x \<Longrightarrow> E \<noteq> []"
  shows "move_cells R state_of rs n i ri movable (map (\<lambda>e. (e div R, e mod R)) E) M =
     (let mv = (if unused x then movable else movable - 1); q = (if unused x then E else tl E);
          M' = (if unused x then M else upd_cell (rs ! (hd E div R)) (hd E mod R) x M)
      in if q = [] \<or> mv = 0 then Some M'
         else case i of 0 \<Rightarrow> Some M' | Suc j \<Rightarrow> move_cells R state_of rs n j (i div R) mv (map (\<lambda>e. (e div R, e mod R)) q) M')"
proof -
  have dv: "e div R < length rs" if "e < n" for e using that assms(4) by (simp add: less_mult_imp_div_less)
  have x: "cell_at M (rs ! (i div R)) (i mod R) = x" using assms(2,5) by (simp add: the_cells_nth)
  show ?thesis
  proof (cases "unused x")
    case True
    then show ?thesis unfolding move_cells.simps [of _ _ _ _ i] row_index [OF assms(1-3)]
      using x dv [OF assms(2)] assms(6) by (simp add: Let_def ptr_at_def)
  next
    case False
    then obtain e q where E: "E = e # q" using assms(8) by (cases E) auto
    then show ?thesis unfolding move_cells.simps [of _ _ _ _ i] row_index [OF assms(1-3)]
      using x dv [OF assms(2)] dv [of e] assms(6,7) False by (simp add: Let_def ptr_at_def)
  qed
qed

lemma move_cells_list:
  assumes "distinct rs" "0 < R" "n \<le> length rs * R" "i < n"
    and "ri = (if i = n - 1 then i div R else Suc i div R)" "\<And>e. e \<in> set E \<Longrightarrow> e < n"
    and "\<And>x. x \<in> set (the_cells R M rs n) \<Longrightarrow> state_of x = Some (unused x)"
    and "move_list unused i movable E (the_cells R M rs n) = Some xs'"
  shows "\<exists>M'. move_cells R state_of rs n i ri movable (map (\<lambda>e. (e div R, e mod R)) E) M = Some M' \<and>
     the_cells R M' rs n = xs' \<and> row_pool M' = row_pool M \<and> (\<forall>a. next_row (rows M' a) = next_row (rows M a))"
  using assms(4-)
proof (induction i arbitrary: ri movable E M)
  case 0
  let ?x = "the_cells R M rs n ! 0"
  have ne: "\<not> unused ?x \<Longrightarrow> E \<noteq> []" using 0(5) by (subst (asm) move_list.simps) (auto simp: Let_def)
  have x: "state_of ?x = Some (unused ?x)" using 0(1,4) by simp
  show ?case
    using move_cells_cell [where unused = unused and state_of = state_of, OF assms(2) 0(1,2) assms(3) refl x 0(3) ne] 0(3,5) ne
      the_cells_upd [OF assms(1-3), of "hd E" ?x M] less_mult_imp_div_less [OF less_le_trans [OF 0(3) [of "hd E"] assms(3)]]
    by (subst (asm) move_list.simps) (cases E, auto simp: Let_def split: if_splits)
next
  case (Suc i)
  let ?x = "the_cells R M rs n ! Suc i"
  have ne: "\<not> unused ?x \<Longrightarrow> E \<noteq> []" using Suc(6) by (subst (asm) move_list.simps) (auto simp: Let_def)
  have x: "state_of ?x = Some (unused ?x)" "?x \<in> set (the_cells R M rs n)" using Suc(2,5) by simp_all
  note step = move_cells_cell [where unused = unused and state_of = state_of, OF assms(2) Suc(2,3) assms(3) refl x(1) Suc(4) ne]
  define mv q M1 where "mv = (if unused ?x then movable else movable - 1)" and "q = (if unused ?x then E else tl E)"
    and "M1 = (if unused ?x then M else upd_cell (rs ! (hd E div R)) (hd E mod R) ?x M)"
  have dv: "hd E div R < length rs" if "E \<noteq> []"
    using Suc(4) [OF hd_in_set [OF that]] assms(3) by (simp add: less_mult_imp_div_less)
  have M1: "the_cells R M1 rs n = (if unused ?x then the_cells R M rs n else (the_cells R M rs n)[hd E := ?x])"
    using the_cells_upd [OF assms(1-3), of "hd E" ?x M] ne dv by (simp add: M1_def)
  have q: "set q \<subseteq> set E" by (cases E) (auto simp: q_def)
  have ml: "move_list unused (Suc i) movable E (the_cells R M rs n) =
     (if q = [] \<or> mv = 0 then Some (the_cells R M1 rs n) else move_list unused i mv q (the_cells R M1 rs n))"
    unfolding M1 using ne by (subst move_list.simps) (cases E, auto simp: Let_def q_def mv_def)
  have same: "row_pool M1 = row_pool M" "next_row (rows M1 a) = next_row (rows M a)" for a by (simp_all add: M1_def)
  show ?case
  proof (cases "q = [] \<or> mv = 0")
    case True
    then show ?thesis using step Suc(6) ml same by (auto simp: Let_def mv_def q_def M1_def split: if_splits)
  next
    case False
    have "state_of y = Some (unused y)" if "y \<in> set (the_cells R M1 rs n)" for y
      using that Suc(5) x(2) M1 set_update_subset_insert [of "the_cells R M rs n" "hd E" ?x] by (auto split: if_splits)
    moreover have "Suc i div R = (if i = n - 1 then i div R else Suc i div R)" using Suc(2) by auto
    ultimately obtain M' where "move_cells R state_of rs n i (Suc i div R) mv (map (\<lambda>e. (e div R, e mod R)) q) M1 = Some M'"
      "the_cells R M' rs n = xs'" "row_pool M' = row_pool M1" "\<And>a. next_row (rows M' a) = next_row (rows M1 a)"
      using Suc.IH [of "Suc i div R" q M1 mv] Suc(2,4,6) False ml q by (auto simp: subset_iff)
    then show ?thesis using step False same by (auto simp: Let_def mv_def q_def M1_def)
  qed
qed

lemma recycle_rows_ok:
  assumes "pool_used (row_pool M) U" "set rs \<subseteq> U" "distinct (rs @ ys)" "tid < nthreads (row_pool M)" "keep \<le> length rs"
  shows "\<exists>M'. recycle_rows tid (rs @ ys) keep (length rs) M = Some M' \<and> pool_used (row_pool M') (U - set (drop keep rs)) \<and>
     nthreads (row_pool M') = nthreads (row_pool M) \<and> (\<forall>a c. cell_at M' a c = cell_at M a c) \<and>
     (\<forall>j. Suc j < keep \<longrightarrow> next_row (rows M' (rs ! j)) = next_row (rows M (rs ! j)))"
  using assms
proof (induction rs arbitrary: M U ys rule: rev_induct)
  case (snoc r rs)
  show ?case
  proof (cases "keep \<le> length rs")
    case True
    define M1 where "M1 = (if length rs = 0 then M else set_next (rs ! (length rs - 1)) None M)"
    let ?M = "M1\<lparr>row_pool := MemPool_Free (row_pool M1) r tid\<rparr>"
    have p: "row_pool M1 = row_pool M" by (simp add: M1_def)
    have f: "pool_used (MemPool_Free (row_pool M) r tid) (U - {r})" "nthreads (MemPool_Free (row_pool M) r tid) = nthreads (row_pool M)"
      using pool_used_free [OF snoc.prems(1,4), of r] snoc.prems(2) by auto
    have step: "recycle_rows tid ((rs @ [r]) @ ys) keep (length (rs @ [r])) M = recycle_rows tid (rs @ r # ys) keep (length rs) ?M"
      using True by (cases "rs = []") (auto simp: ptr_at_def M1_def nth_append)
    have r: "r \<notin> set rs" using snoc.prems(3) by auto
    obtain M' where M': "recycle_rows tid (rs @ r # ys) keep (length rs) ?M = Some M'" "pool_used (row_pool M') (U - {r} - set (drop keep rs))"
      "nthreads (row_pool M') = nthreads (row_pool M)" "\<And>a c. cell_at M' a c = cell_at ?M a c"
      "\<And>j. Suc j < keep \<Longrightarrow> next_row (rows M' (rs ! j)) = next_row (rows ?M (rs ! j))"
      using snoc.IH [of ?M "U - {r}" "r # ys"] f p snoc.prems r True by auto
    have "next_row (rows ?M (rs ! j)) = next_row (rows M (rs ! j))" if "Suc j < keep" for j
    proof -
      have "rs ! j \<noteq> rs ! (length rs - 1)" using that True snoc.prems(3) by (subst nth_eq_iff_index_eq) auto
      then show ?thesis by (simp add: M1_def)
    qed
    moreover have "U - set (drop keep (rs @ [r])) = U - {r} - set (drop keep rs)" using True by auto
    moreover have "cell_at ?M a c = cell_at M a c" for a c by (simp add: M1_def)
    ultimately show ?thesis using step M' True by (auto simp: nth_append)
  next
    case False
    then have "keep = length (rs @ [r])" using snoc.prems(5) by simp
    then show ?thesis using snoc.prems(1) by simp
  qed
qed simp

lemma rows_for_chain:
  assumes "row_chain R M l rs" "rl_count l \<noteq> 0"
  shows "rows_for R (rl_count l) = length rs"
proof -
  have "rl_count l div R * R = rl_count l \<longleftrightarrow> rl_count l mod R = 0" by (metis dvd_div_mult_self mod_0_imp_dvd mod_mult_self2_is_0)
  then show ?thesis using assms row_in_chain [OF assms(1), of 0] by (auto simp: rows_for_def row_chain_def Let_def)
qed

lemma used_and_empty:
  assumes "m \<le> length xs"
  shows "length (used_cells unused (drop m xs)) + length (empties unused xs m (length xs)) = length xs - m"
proof -
  have "map ((!) xs) [m..<length xs] = drop m xs" by (rule nth_equalityI) auto
  then have "filter unused (drop m xs) = map ((!) xs) (empties unused xs m (length xs))" by (simp add: empties_def filter_map comp_def flip: \<open>_ = drop m xs\<close>)
  then have "length (empties unused xs m (length xs)) = length (filter unused (drop m xs))" by simp
  then show ?thesis using sum_length_filter_compl [of unused "drop m xs"] by (simp add: used_cells_def)
qed

text \<open>
  The list after defragmentation holds exactly the cells in use, in as many rows as they need; the other rows are back
  in the pool.
\<close>

lemma defragment_ok:
  assumes c: "row_chain R M l rs" and u: "pool_used (row_pool M) U" "set rs \<subseteq> U" "tid < nthreads (row_pool M)"
    and xs: "xs = the_cells R M rs (rl_count l)" and st: "\<And>x. x \<in> set xs \<Longrightarrow> state_of x = Some (unused x)"
    and E: "E = empties unused xs 0 (rl_count l)" "E \<noteq> []"
  obtains M' l' rs' where "defragment R tid state_of rs (map (\<lambda>e. (e div R, e mod R)) E) M l = Some (M', l')"
    "row_chain R M' l' rs'" "pool_used (row_pool M') (U - (set rs - set rs'))" "set rs' \<subseteq> set rs"
    "rl_count l' = length (used_cells unused xs)" "mset (the_cells R M' rs' (rl_count l')) = mset (used_cells unused xs)"
    "nthreads (row_pool M') = nthreads (row_pool M)"
proof -
  let ?n = "rl_count l" and ?m = "rl_count l - length E"
  let ?F = "empties unused xs 0 ?m" and ?G = "empties unused xs ?m ?n"
  have R: "0 < R" "distinct rs" using c by (simp_all add: row_chain_def)
  have len: "length xs = ?n" using xs by simp
  have le: "length E \<le> ?n" using E(1) by (simp add: empties_def) (metis length_filter_le length_upt minus_nat.diff_0)
  have n: "?n \<noteq> 0" "?m \<le> ?n - 1" "Suc (?n - 1) = ?n" using E(2) le by (cases E; simp)+
  have split: "E = ?F @ ?G" unfolding E(1) empties_def
    by (metis filter_append le_add_diff_inverse diff_le_self upt_add_eq_append zero_le)
  have lenE: "length E = length ?F + length ?G" by (metis length_append split)
  have cnt: "length (used_cells unused xs) = ?m" using used_and_empty [of 0 xs unused] len E(1) by simp
  have F: "length ?F = length (used_cells unused (drop ?m (take (Suc (?n - 1)) xs)))"
    using used_and_empty [of ?m xs unused] len n lenE le by simp
  have "length ?F \<le> ?m" by (simp add: empties_def) (metis length_filter_le length_upt minus_nat.diff_0)
  then have mF: "?m = (?m - length ?F) + length ?F" by simp
  have g: "\<forall>e\<in>set ?G. ?m \<le> e" by (auto simp: empties_def)
  have ne: "?F @ ?G \<noteq> []" using E(2) split by metis
  have "?n - 1 < length xs" using n len by simp
  from move_list_front [OF n(2) this ne g refl F mF]
  obtain xs' where xs': "move_list unused (?n - 1) ?m E xs = Some xs'" "length xs' = length xs"
    "mset (take ?m xs') = mset (used_cells unused (take ?m xs)) + mset (used_cells unused (drop ?m (take (Suc (?n - 1)) xs)))"
    unfolding split [symmetric] by blast
  then have ms: "mset (take ?m xs') = mset (used_cells unused xs)"
    using n len by (metis append_take_drop_id mset_append order_refl take_all used_cells_simps(2))
  have cov: "?n \<le> length rs * R" using chain_covers [OF c] by simp
  obtain M1 where M1: "move_cells R state_of rs ?n (?n - 1) (length rs - 1) ?m (map (\<lambda>e. (e div R, e mod R)) E) M = Some M1"
    "the_cells R M1 rs ?n = xs'" "row_pool M1 = row_pool M" "\<And>a. next_row (rows M1 a) = next_row (rows M a)"
  proof -
    have "length rs - 1 = (?n - 1) div R"
    proof -
      have l: "length rs = (if ?n mod R = 0 then ?n div R else ?n div R + 1)" using c by (simp add: row_chain_def)
      have "?n div R = (if ?n mod R = 0 then Suc ((?n - 1) div R) else (?n - 1) div R)" using div_Suc [of "?n - 1" R] unfolding n(3) .
      then show ?thesis using l by simp
    qed
    moreover have "e < ?n" if "e \<in> set E" for e using that E(1) by (auto simp: empties_def)
    ultimately show ?thesis
      using move_cells_list [OF R(2,1) cov, of "?n - 1" "length rs - 1" E M state_of unused ?m xs'] that xs st xs'(1) n by auto
  qed
  define keep where "keep = (if ?m mod R = 0 then ?m div R else ?m div R + 1)"
  note kc = ceil_rows [OF R(1) keep_def]
  have "keep * R < (length rs + 1) * R" using kc(2) cov by simp
  then have keep: "keep \<le> length rs" using R(1) by (metis Suc_eq_plus1 less_Suc_eq_le mult_less_cancel2)
  obtain M2 where M2: "recycle_rows tid rs keep (length rs) M1 = Some M2" "pool_used (row_pool M2) (U - set (drop keep rs))"
    "nthreads (row_pool M2) = nthreads (row_pool M)" "\<And>a c. cell_at M2 a c = cell_at M1 a c"
    "\<And>j. Suc j < keep \<Longrightarrow> next_row (rows M2 (rs ! j)) = next_row (rows M1 (rs ! j))"
    using recycle_rows_ok [of M1 U rs "[]" tid keep] M1(3) u R(2) keep by auto
  let ?rs = "take keep rs" and ?l = "l\<lparr>rl_count := ?m, rl_tail := (if keep = 0 then None else Some (rs ! (keep - 1))), rl_head := (if keep = 0 then None else rl_head l)\<rparr>"
  have "defragment R tid state_of rs (map (\<lambda>e. (e div R, e mod R)) E) M l = Some (M2, ?l)"
    using M1(1) M2(1) keep rows_for_chain [OF c n(1)] by (auto simp: defragment_def Let_def keep_def [symmetric] ptr_at_def)
  moreover have "row_chain R M2 ?l ?rs"
  proof -
    have h: "rs \<noteq> [] \<Longrightarrow> rl_head l = Some (hd rs)" "\<And>i. Suc i < length rs \<Longrightarrow> next_row (rows M (rs ! i)) = Some (rs ! Suc i)"
      using c by (auto simp: row_chain_def)
    have k: "?rs = [] \<longleftrightarrow> keep = 0" "length ?rs = keep" using keep by auto
    have e: "last ?rs = rs ! (keep - 1)" if "keep \<noteq> 0" using that k by (subst last_conv_nth) auto
    have f: "hd ?rs = hd rs" "rs \<noteq> []" if "keep \<noteq> 0" using that k(1) by (auto simp: hd_take)
    show ?thesis unfolding row_chain_def
    proof (intro conjI)
      show "length ?rs = (if rl_count ?l mod R = 0 then rl_count ?l div R else rl_count ?l div R + 1)"
        using k(2) unfolding keep_def by simp
      show "rl_head ?l = (if ?rs = [] then None else Some (hd ?rs))" using k(1) h(1) f by simp
      show "rl_tail ?l = (if ?rs = [] then None else Some (last ?rs))" using k(1) e by simp
      show "\<forall>i. Suc i < length ?rs \<longrightarrow> next_row (rows M2 (?rs ! i)) = Some (?rs ! Suc i)"
        using k(2) keep h(2) M1(4) M2(5) by simp
    qed (use R in simp_all)
  qed
  moreover have "the_cells R M2 ?rs ?m = take ?m xs'"
  proof (rule nth_equalityI)
    fix i assume "i < length (the_cells R M2 ?rs ?m)"
    then have i: "i < ?m" "i < ?n" "i div R < keep" using kc(1) by (auto simp: less_mult_imp_div_less)
    then show "the_cells R M2 ?rs ?m ! i = take ?m xs' ! i"
      using M2(4) M1(2) [symmetric] by (simp add: the_cells_nth)
  qed (use xs'(2) len in simp)
  moreover have "set (drop keep rs) = set rs - set ?rs"
  proof -
    have "set rs = set ?rs \<union> set (drop keep rs)" by (metis append_take_drop_id set_append)
    then show ?thesis using R(2) set_take_disj_set_drop_if_distinct [of rs keep keep] by auto
  qed
  ultimately show ?thesis
    using that [of M2 ?l ?rs] M2(2,3) ms cnt set_take_subset [of keep rs] by simp
qed

end
