(* ===== verification/Property_Rows.thy ===== *)
theory Property_Rows
  imports Row_List Value_Store MVCC_List GT_Ids
begin

text \<open>
  The properties of a vertex or edge: \<open>PropertyRowList\<close> (src/layout/property_row_list.tpp), with the cells of
  src/layout/layout_type.hpp. A cell holds the id of a property and the list of its versions; every version is a
  \<open>ValueHeader\<close> that refers to the bytes of a value in the value store. When a list has grown past one row, a hash map
  from property keys to cells is built beside it.

  The template is used for vertices and for edges. \<open>'p\<close> is the type of the property ids and \<open>key\<close> the function that
  gives the key (\<open>pid.pid\<close>); \<open>R\<close> is the number of cells of a row. \<open>new MVCCList\<close> takes an address that was never used,
  \<open>delete\<close> removes the object, and a use of a deleted object is \<open>None\<close>, like every other undefined behaviour.
\<close>

section \<open>State\<close>

definition InferElementCount :: "nat \<Rightarrow> nat \<Rightarrow> nat \<Rightarrow> nat" where
  "InferElementCount cell_size preferred_size taken_size = (preferred_size - taken_size) div cell_size"

text \<open>A property id takes eight bytes and a pointer eight.\<close>

definition VP_ROW_CELL_COUNT :: nat where
  "VP_ROW_CELL_COUNT = InferElementCount 16 128 8"

definition EP_ROW_CELL_COUNT :: nat where
  "EP_ROW_CELL_COUNT = InferElementCount 16 64 8"

record 'p prop_cell =
  cell_pid :: 'p
  cell_list :: "nat option"

text \<open>\<open>cell_map_\<close>: a null pointer, a map, or a pointer to a map that has been deleted.\<close>

datatype map_ptr = NoMap | HasMap "12 word \<Rightarrow> (nat \<times> nat) option" | Deleted

record property_row_list =
  pl_rows :: row_list
  cell_map :: map_ptr

record 'p prop_store =
  prop_rows :: "'p prop_cell row_mem"
  prop_lists :: "nat \<Rightarrow> mvcc_list option"
  fresh_list :: nat
  prop_mvcc :: "(ValueHeader, value_store) mvcc_mem"

definition PropertyRowList_Init :: property_row_list where
  "PropertyRowList_Init = \<lparr>pl_rows = empty_rows, cell_map = NoMap\<rparr>"

text \<open>\<open>NeedGC\<close> and \<open>ValueGC\<close> of the versions of a property.\<close>

definition Property_NeedGC :: "ValueHeader \<Rightarrow> bool" where
  "Property_NeedGC h = (\<not> IsEmpty h)"

definition Property_ValueGC :: "nat \<Rightarrow> ValueHeader \<Rightarrow> value_store \<Rightarrow> value_store" where
  "Property_ValueGC tid h s = FreeValue s h tid"

section \<open>Finding a cell\<close>

text \<open>What \<open>LocateCell\<close> reads under the lock; the search itself runs without it.\<close>

record locate_snapshot =
  snap_map :: bool
  snap_count :: nat
  snap_head :: "nat option"
  snap_tail :: "nat option"

definition LocateCell_snapshot :: "property_row_list \<Rightarrow> locate_snapshot" where
  "LocateCell_snapshot l =
     \<lparr>snap_map = (cell_map l \<noteq> NoMap), snap_count = rl_count (pl_rows l), snap_head = rl_head (pl_rows l),
      snap_tail = rl_tail (pl_rows l)\<rparr>"

definition search_cells :: "nat \<Rightarrow> 'p prop_cell row_mem \<Rightarrow> nat \<Rightarrow> nat \<Rightarrow> nat option \<Rightarrow> 'p \<Rightarrow> (nat \<times> nat) option option" where
  "search_cells R M i k row pid =
     do { r \<leftarrow> row_loop R M (\<lambda>_ a c _. if cell_pid (cell_at M a c) = pid then Some (Stop (a, c)) else Some (Continue ()))
                 i k row ();
          Some (case r of Stop x \<Rightarrow> Some x | Continue _ \<Rightarrow> None) }"

definition LocateCell_find :: "nat \<Rightarrow> ('p \<Rightarrow> 12 word) \<Rightarrow> 'p \<Rightarrow> locate_snapshot \<Rightarrow> 'p prop_cell row_mem \<Rightarrow> property_row_list \<Rightarrow>
    (nat \<times> nat) option option" where
  "LocateCell_find R key pid sn M l =
     (if snap_map sn
      then (case cell_map l of HasMap m \<Rightarrow> Some (m (key pid)) | _ \<Rightarrow> None)
      else search_cells R M 0 (snap_count sn) (snap_head sn) pid)"

definition LocateCell :: "nat \<Rightarrow> ('p \<Rightarrow> 12 word) \<Rightarrow> 'p \<Rightarrow> 'p prop_cell row_mem \<Rightarrow> property_row_list \<Rightarrow> (nat \<times> nat) option option" where
  "LocateCell R key pid M l = LocateCell_find R key pid (LocateCell_snapshot l) M l"

section \<open>A new cell\<close>

definition build_map :: "nat \<Rightarrow> ('p \<Rightarrow> 12 word) \<Rightarrow> 'p prop_cell row_mem \<Rightarrow> nat option \<Rightarrow> nat \<Rightarrow> (12 word \<Rightarrow> (nat \<times> nat) option) option" where
  "build_map R key M h n =
     do { r \<leftarrow> row_loop R M (\<lambda>_ a c m. Some (Continue (m(key (cell_pid (cell_at M a c)) \<mapsto> (a, c))))) 0 n h Map.empty;
          (case r of Continue m \<Rightarrow> Some m | Stop (_ :: unit) \<Rightarrow> None) }"

text \<open>\<open>None\<close> for \<open>nullptr\<close>: another thread has allocated a cell for the same property since the snapshot.\<close>

definition AllocateCell :: "nat \<Rightarrow> ('p \<Rightarrow> 12 word) \<Rightarrow> nat \<Rightarrow> 'p \<Rightarrow> nat \<Rightarrow> nat option \<Rightarrow> 'p prop_cell row_mem \<Rightarrow> property_row_list \<Rightarrow>
    ((nat \<times> nat) option \<times> 'p prop_cell row_mem \<times> property_row_list) option" where
  "AllocateCell R key tid pid recent_count recent_tail M l =
     do { let n = rl_count (pl_rows l);
          already \<leftarrow> (if recent_count \<noteq> n
                     then search_cells R M recent_count (n - recent_count)
                            (if recent_tail = None then rl_head (pl_rows l) else recent_tail) pid
                     else Some None);
          if already \<noteq> None then Some (None, M, l)
          else do {
            (a, c, M, rl) \<leftarrow> append_cell R tid \<lparr>cell_pid = pid, cell_list = None\<rparr> M (pl_rows l);
            cm \<leftarrow> (if n \<ge> R
                  then do { m \<leftarrow> (case cell_map l of NoMap \<Rightarrow> build_map R key M (rl_head rl) (n + 1)
                                  | HasMap m \<Rightarrow> Some m | Deleted \<Rightarrow> None);
                            Some (HasMap (m(key pid \<mapsto> (a, c)))) }
                  else Some (cell_map l));
            Some (Some (a, c), M, \<lparr>pl_rows = rl, cell_map = cm\<rparr>) } }"

definition InsertInitialCell :: "nat \<Rightarrow> nat \<Rightarrow> 'p \<Rightarrow> value_t \<Rightarrow> 'p prop_store \<Rightarrow> property_row_list \<Rightarrow>
    ('p prop_store \<times> property_row_list) option" where
  "InsertInitialCell R tid pid v S l =
     do { (b, m, ml) \<leftarrow> AppendInitialVersion tid (prop_mvcc S) empty_list;
          (h, vs) \<leftarrow> InsertValue (val_store m) v tid;
          let p = fresh_list S;
          (a, c, M, rl) \<leftarrow> append_cell R tid \<lparr>cell_pid = pid, cell_list = Some p\<rparr> (prop_rows S) (pl_rows l);
          Some (S\<lparr>prop_rows := M, prop_lists := (prop_lists S)(p \<mapsto> ml), fresh_list := p + 1,
                  prop_mvcc := write_val b h (m\<lparr>val_store := vs\<rparr>)\<rparr>, l\<lparr>pl_rows := rl\<rparr>) }"

section \<open>Reading\<close>

datatype READ_STAT = ABORT | NOTFOUND | SUCCESS

text \<open>Who reads, and how: the transaction, its begin time, and the settings the version lists consult.\<close>

record read_context =
  rc_level :: ISOLATION_LEVEL
  rc_preread :: bool
  rc_status :: "u64 \<Rightarrow> TRX_STAT \<times> u64"
  rc_trx :: u64
  rc_begin :: u64
  rc_read_only :: bool

definition visible_version :: "read_context \<Rightarrow> 'p prop_store \<Rightarrow> nat \<Rightarrow> dep_trx_map \<Rightarrow>
    (ValueHeader read_result \<times> dep_trx_map) option" where
  "visible_version x S p deps =
     do { ml \<leftarrow> prop_lists S p;
          GetVisibleVersion (rc_level x) (rc_preread x) (rc_status x) (rc_trx x) (rc_begin x) (rc_read_only x)
            (items (prop_mvcc S)) ml deps }"

text \<open>
  A version that says the property was dropped: the function ends without a \<open>return\<close>.
\<close>

definition ReadProperty :: "nat \<Rightarrow> ('p \<Rightarrow> 12 word) \<Rightarrow> read_context \<Rightarrow> 'p \<Rightarrow> 'p prop_store \<Rightarrow> property_row_list \<Rightarrow> dep_trx_map \<Rightarrow>
    value_t \<Rightarrow> (READ_STAT \<times> value_t \<times> dep_trx_map) option" where
  "ReadProperty R key x pid S l deps ret =
     do { cell \<leftarrow> LocateCell R key pid (prop_rows S) l;
          (case cell of
             None \<Rightarrow> Some (NOTFOUND, ret, deps)
           | Some (a, c) \<Rightarrow>
               (case cell_list (cell_at (prop_rows S) a c) of
                  None \<Rightarrow> Some (if rc_read_only x then NOTFOUND else ABORT, ret, deps)
                | Some p \<Rightarrow>
                    do { (r, deps) \<leftarrow> visible_version x S p deps;
                         (case r of
                            ReadAbort \<Rightarrow> Some (ABORT, ret, deps)
                          | NoVersion \<Rightarrow> Some (NOTFOUND, ret, deps)
                          | Visible h \<Rightarrow>
                              if IsEmpty h then None
                              else Some (SUCCESS, ReadValue (val_store (prop_mvcc S)) h ret, deps)) })) }"

text \<open>
  The body of the reading loops: \<open>emit\<close> extends the result by what a visible version contributes.
\<close>

definition read_cell_body :: "read_context \<Rightarrow> 'p prop_store \<Rightarrow> ('p \<Rightarrow> ValueHeader \<Rightarrow> 'r list \<Rightarrow> 'r list) \<Rightarrow> 'p prop_cell \<Rightarrow>
    'r list \<times> dep_trx_map \<Rightarrow> ('r list \<times> dep_trx_map, READ_STAT \<times> 'r list \<times> dep_trx_map) loop option" where
  "read_cell_body x S emit cell s =
     (case s of (ret, deps) \<Rightarrow>
        (case cell_list cell of
           None \<Rightarrow> Some (if rc_read_only x then Continue (ret, deps) else Stop (ABORT, ret, deps))
         | Some p \<Rightarrow>
             do { (r, deps) \<leftarrow> visible_version x S p deps;
                  Some (case r of
                          ReadAbort \<Rightarrow> Stop (ABORT, ret, deps)
                        | NoVersion \<Rightarrow> Continue (ret, deps)
                        | Visible h \<Rightarrow> Continue (if IsEmpty h then ret else emit (cell_pid cell) h ret, deps)) }))"

text \<open>\<open>value_t v\<close> before \<open>ReadValue\<close>: an empty content, and a type that \<open>ReadValue\<close> overwrites.\<close>

definition emit_property :: "('p \<Rightarrow> 12 word) \<Rightarrow> value_store \<Rightarrow> 'p \<Rightarrow> ValueHeader \<Rightarrow> (12 word \<times> value_t) list \<Rightarrow> (12 word \<times> value_t) list" where
  "emit_property key vs pid h ret = ret @ [(key pid, ReadValue vs h \<lparr>v_type = 0, v_content = []\<rparr>)]"

definition emit_pid :: "'p \<Rightarrow> ValueHeader \<Rightarrow> 'p list \<Rightarrow> 'p list" where
  "emit_pid pid h ret = ret @ [pid]"

definition finish_read :: "READ_STAT \<Rightarrow> ('r list \<times> dep_trx_map, READ_STAT \<times> 'r list \<times> dep_trx_map) loop \<Rightarrow>
    READ_STAT \<times> 'r list \<times> dep_trx_map" where
  "finish_read st r = (case r of Stop y \<Rightarrow> y | Continue (ret, deps) \<Rightarrow> (st, ret, deps))"

definition ReadAllProperty :: "nat \<Rightarrow> ('p \<Rightarrow> 12 word) \<Rightarrow> read_context \<Rightarrow> 'p prop_store \<Rightarrow> property_row_list \<Rightarrow> dep_trx_map \<Rightarrow>
    (READ_STAT \<times> (12 word \<times> value_t) list \<times> dep_trx_map) option" where
  "ReadAllProperty R key x S l deps =
     do { r \<leftarrow> row_loop R (prop_rows S)
                 (\<lambda>_ a c. read_cell_body x S (emit_property key (val_store (prop_mvcc S))) (cell_at (prop_rows S) a c))
                 0 (rl_count (pl_rows l)) (rl_head (pl_rows l)) ([], deps);
          Some (finish_read SUCCESS r) }"

definition ReadPidList :: "nat \<Rightarrow> read_context \<Rightarrow> 'p prop_store \<Rightarrow> property_row_list \<Rightarrow> dep_trx_map \<Rightarrow>
    (READ_STAT \<times> 'p list \<times> dep_trx_map) option" where
  "ReadPidList R x S l deps =
     do { r \<leftarrow> row_loop R (prop_rows S) (\<lambda>_ a c. read_cell_body x S emit_pid (cell_at (prop_rows S) a c))
                 0 (rl_count (pl_rows l)) (rl_head (pl_rows l)) ([], deps);
          Some (finish_read SUCCESS r) }"

text \<open>
  With a set of keys. The loop over the cells leaves when every key has been met; the loop over the map follows the
  keys as they were given.
\<close>

definition pkey_body :: "('p \<Rightarrow> 12 word) \<Rightarrow> read_context \<Rightarrow> 'p prop_store \<Rightarrow> 'p prop_cell \<Rightarrow> 12 word set \<times> (12 word \<times> value_t) list \<times> dep_trx_map \<Rightarrow>
    (12 word set \<times> (12 word \<times> value_t) list \<times> dep_trx_map, READ_STAT \<times> (12 word \<times> value_t) list \<times> dep_trx_map) loop option" where
  "pkey_body key x S cell s =
     (case s of (ks, ret, deps) \<Rightarrow>
        if key (cell_pid cell) \<in> ks
        then do { r \<leftarrow> read_cell_body x S (emit_property key (val_store (prop_mvcc S))) cell (ret, deps);
                  Some (case r of Stop y \<Rightarrow> Stop y | Continue (ret, deps) \<Rightarrow> Continue (ks - {key (cell_pid cell)}, ret, deps)) }
        else Some (Continue (ks, ret, deps)))"

definition found_or_not :: "READ_STAT \<times> 'r list \<times> dep_trx_map \<Rightarrow> READ_STAT \<times> 'r list \<times> dep_trx_map" where
  "found_or_not y = (case y of (st, ret, deps) \<Rightarrow> (if st = SUCCESS \<and> ret = [] then NOTFOUND else st, ret, deps))"

definition ReadPropertyByPKeyList :: "nat \<Rightarrow> ('p \<Rightarrow> 12 word) \<Rightarrow> read_context \<Rightarrow> 12 word list \<Rightarrow> 'p prop_store \<Rightarrow> property_row_list \<Rightarrow>
    dep_trx_map \<Rightarrow> (READ_STAT \<times> (12 word \<times> value_t) list \<times> dep_trx_map) option" where
  "ReadPropertyByPKeyList R key x p_key S l deps =
     (if rl_head (pl_rows l) = None then Some (NOTFOUND, [], deps)
      else case cell_map l of
        NoMap \<Rightarrow>
          do { r \<leftarrow> row_loop R (prop_rows S)
                      (\<lambda>_ a c s. if fst s = {} then Some (Stop (SUCCESS, snd s)) else pkey_body key x S (cell_at (prop_rows S) a c) s)
                      0 (rl_count (pl_rows l)) (rl_head (pl_rows l)) (set p_key, [], deps);
               Some (found_or_not (case r of Stop y \<Rightarrow> y | Continue (_, ret, deps) \<Rightarrow> (SUCCESS, ret, deps))) }
      | HasMap m \<Rightarrow>
          do { r \<leftarrow> list_loop (\<lambda>k s. case m k of
                        None \<Rightarrow> Some (Continue s)
                      | Some (a, c) \<Rightarrow> read_cell_body x S (emit_property key (val_store (prop_mvcc S))) (cell_at (prop_rows S) a c) s)
                      p_key ([], deps);
               Some (found_or_not (finish_read SUCCESS r)) }
      | Deleted \<Rightarrow> None)"

section \<open>Writing\<close>

definition read_old :: "value_store \<Rightarrow> (ValueHeader, value_store) append_result \<Rightarrow> value_t \<Rightarrow> value_t" where
  "read_old vs r old_val =
     (if app_old_exists r
      then ReadValue vs (case app_old r of None \<Rightarrow> \<lparr>head_offset = 0, byte_count = 0\<rparr> | Some h \<Rightarrow> h) old_val
      else old_val)"

text \<open>
  The part of \<open>ProcessModifyProperty\<close> behind the cell: a new version is appended to the list \<open>p\<close>. \<open>modify_flag\<close>
  tells whether the cell had been there.
\<close>

definition modify_cell :: "nat \<Rightarrow> nat \<times> nat \<Rightarrow> nat \<Rightarrow> bool \<Rightarrow> value_t \<Rightarrow> u64 \<Rightarrow> u64 \<Rightarrow> 'p prop_store \<Rightarrow> value_t \<Rightarrow>
    ((bool \<times> nat option) \<times> value_t \<times> 'p prop_store) option" where
  "modify_cell tid ac p modify_flag v trx_id bt S old_val =
     do { ml \<leftarrow> prop_lists S p;
          r \<leftarrow> AppendVersion Property_NeedGC (Property_ValueGC tid) tid trx_id bt (prop_mvcc S) ml;
          let old_val = read_old (val_store (app_mem r)) r old_val;
          let S = S\<lparr>prop_mvcc := app_mem r, prop_lists := (prop_lists S)(p \<mapsto> app_list r)\<rparr>;
          (case app_item r of
             None \<Rightarrow> Some ((True, None), old_val, S)
           | Some b \<Rightarrow>
               do { (h, vs) \<leftarrow> InsertValue (val_store (prop_mvcc S)) v tid;
                    let S = S\<lparr>prop_mvcc := write_val b h ((prop_mvcc S)\<lparr>val_store := vs\<rparr>)\<rparr>;
                    let cell = cell_at (prop_rows S) (fst ac) (snd ac);
                    let S = (if modify_flag then S
                             else S\<lparr>prop_rows := upd_cell (fst ac) (snd ac) (cell\<lparr>cell_list := Some p\<rparr>) (prop_rows S)\<rparr>);
                    Some ((modify_flag, Some p), old_val, S) }) }"

definition ProcessModifyProperty :: "nat \<Rightarrow> ('p \<Rightarrow> 12 word) \<Rightarrow> nat \<Rightarrow> 'p \<Rightarrow> value_t \<Rightarrow> u64 \<Rightarrow> u64 \<Rightarrow> 'p prop_store \<Rightarrow>
    property_row_list \<Rightarrow> value_t \<Rightarrow> ((bool \<times> nat option) \<times> value_t \<times> 'p prop_store \<times> property_row_list) option" where
  "ProcessModifyProperty R key tid pid v trx_id bt S l old_val =
     do { let sn = LocateCell_snapshot l;
          cell \<leftarrow> LocateCell_find R key pid sn (prop_rows S) l;
          (case cell of
             None \<Rightarrow>
               do { (ret, M, l) \<leftarrow> AllocateCell R key tid pid (snap_count sn) (snap_tail sn) (prop_rows S) l;
                    let S = S\<lparr>prop_rows := M\<rparr>;
                    (case ret of
                       None \<Rightarrow> Some ((False, None), old_val, S, l)
                     | Some ac \<Rightarrow>
                         do { let p = fresh_list S;
                              let S = S\<lparr>prop_lists := (prop_lists S)(p \<mapsto> empty_list), fresh_list := p + 1\<rparr>;
                              (y, old_val, S) \<leftarrow> modify_cell tid ac p False v trx_id bt S old_val;
                              Some (y, old_val, S, l) }) }
           | Some ac \<Rightarrow>
               (case cell_list (cell_at (prop_rows S) (fst ac) (snd ac)) of
                  None \<Rightarrow> Some ((True, None), old_val, S, l)
                | Some p \<Rightarrow> do { (y, old_val, S) \<leftarrow> modify_cell tid ac p True v trx_id bt S old_val; Some (y, old_val, S, l) })) }"

definition ProcessDropProperty :: "nat \<Rightarrow> ('p \<Rightarrow> 12 word) \<Rightarrow> nat \<Rightarrow> 'p \<Rightarrow> u64 \<Rightarrow> u64 \<Rightarrow> 'p prop_store \<Rightarrow> property_row_list \<Rightarrow> value_t \<Rightarrow>
    (nat option \<times> value_t \<times> 'p prop_store) option" where
  "ProcessDropProperty R key tid pid trx_id bt S l old_val =
     do { cell \<leftarrow> LocateCell R key pid (prop_rows S) l;
          (a, c) \<leftarrow> cell;
          p \<leftarrow> cell_list (cell_at (prop_rows S) a c);
          ml \<leftarrow> prop_lists S p;
          r \<leftarrow> AppendVersion Property_NeedGC (Property_ValueGC tid) tid trx_id bt (prop_mvcc S) ml;
          let old_val = read_old (val_store (app_mem r)) r old_val;
          let S = S\<lparr>prop_mvcc := app_mem r, prop_lists := (prop_lists S)(p \<mapsto> app_list r)\<rparr>;
          Some (case app_item r of
                  None \<Rightarrow> (None, old_val, S)
                | Some b \<Rightarrow>
                    (Some p, old_val,
                     S\<lparr>prop_mvcc := upd_item b (\<lambda>it. it\<lparr>val := (val it)\<lparr>byte_count := 0\<rparr>\<rparr>) (prop_mvcc S)\<rparr>)) }"

section \<open>Garbage collection\<close>

text \<open>\<open>SelfGarbageCollect\<close> of the list \<open>p\<close> and \<open>delete\<close>.\<close>

definition delete_list :: "nat \<Rightarrow> nat \<Rightarrow> 'p prop_store \<Rightarrow> 'p prop_store option" where
  "delete_list tid p S =
     do { ml \<leftarrow> prop_lists S p;
          (m, _) \<leftarrow> SelfGarbageCollect Property_NeedGC (Property_ValueGC tid) tid (prop_mvcc S) ml;
          Some (S\<lparr>prop_mvcc := m, prop_lists := (prop_lists S)(p := None)\<rparr>) }"

text \<open>\<open>row_ptrs\<close>: the head, and then every row the loop comes to.\<close>

definition next_ptrs :: "nat \<Rightarrow> nat \<Rightarrow> nat \<Rightarrow> nat list \<Rightarrow> nat list" where
  "next_ptrs i a c ptrs = (if i > 0 \<and> c = 0 then ptrs @ [a] else ptrs)"

fun free_rows :: "nat \<Rightarrow> nat list \<Rightarrow> nat \<Rightarrow> mem_pool \<Rightarrow> mem_pool option" where
  "free_rows tid ptrs 0 p = Some p"
| "free_rows tid ptrs (Suc i) p = do { a \<leftarrow> ptr_at ptrs i; free_rows tid ptrs i (MemPool_Free p a tid) }"

text \<open>The number of cells is not reset, and the pointer to the map stays.\<close>

definition PropertyRowList_SelfGarbageCollect :: "nat \<Rightarrow> nat \<Rightarrow> 'p prop_store \<Rightarrow> property_row_list \<Rightarrow>
    ('p prop_store \<times> property_row_list) option" where
  "PropertyRowList_SelfGarbageCollect R tid S l =
     (case rl_head (pl_rows l) of
        None \<Rightarrow> Some (S, l)
      | Some h \<Rightarrow>
          do { let n = rl_count (pl_rows l);
               r \<leftarrow> row_loop R (prop_rows S)
                      (\<lambda>i a c (ptrs, S). do { p \<leftarrow> cell_list (cell_at (prop_rows S) a c); S \<leftarrow> delete_list tid p S;
                                             Some (Continue (next_ptrs i a c ptrs, S)) })
                      0 n (Some h) ([h], S);
               (case r of
                  Stop (_ :: unit) \<Rightarrow> None
                | Continue (ptrs, S) \<Rightarrow>
                    do { p \<leftarrow> free_rows tid ptrs (rows_for R n) (row_pool (prop_rows S));
                         Some (S\<lparr>prop_rows := (prop_rows S)\<lparr>row_pool := p\<rparr>\<rparr>,
                               l\<lparr>pl_rows := (pl_rows l)\<lparr>rl_head := None, rl_tail := None\<rparr>,
                                 cell_map := (case cell_map l of NoMap \<Rightarrow> NoMap | _ \<Rightarrow> Deleted)\<rparr>) }) })"

text \<open>
  \<open>SelfDefragment\<close>: first the cells whose version list has become empty are collected, their lists deleted and their
  keys erased from the map, \<dots>
\<close>

definition collect_body :: "nat \<Rightarrow> ('p \<Rightarrow> 12 word) \<Rightarrow> nat \<Rightarrow> nat \<Rightarrow> nat \<Rightarrow> nat \<Rightarrow> nat list \<times> (nat \<times> nat) list \<times> 'p prop_store \<times> map_ptr \<Rightarrow>
    (nat list \<times> (nat \<times> nat) list \<times> 'p prop_store \<times> map_ptr, unit) loop option" where
  "collect_body R key tid i a c s =
     (case s of (ptrs, queue, S, cm) \<Rightarrow>
        do { let ptrs = next_ptrs i a c ptrs;
             let cell = cell_at (prop_rows S) a c;
             p \<leftarrow> cell_list cell;
             ml \<leftarrow> prop_lists S p;
             if head ml = None
             then do { S \<leftarrow> delete_list tid p S;
                       cm \<leftarrow> (case cm of NoMap \<Rightarrow> Some NoMap | HasMap m \<Rightarrow> Some (HasMap (m(key (cell_pid cell) := None))) | Deleted \<Rightarrow> None);
                       Some (Continue (ptrs, queue @ [(i div R, c)],
                               S\<lparr>prop_rows := upd_cell a c (cell\<lparr>cell_list := None\<rparr>) (prop_rows S)\<rparr>, cm)) }
             else Some (Continue (ptrs, queue, S, cm)) })"

definition cell_empty :: "'p prop_store \<Rightarrow> 'p prop_cell \<Rightarrow> bool option" where
  "cell_empty S cell =
     (case cell_list cell of
        None \<Rightarrow> Some True
      | Some p \<Rightarrow> do { ml \<leftarrow> prop_lists S p; CHECK (head ml \<noteq> None); Some False })"

text \<open>\<dots> then the cells behind fill the gaps, and the map is told where the cells are now.\<close>

definition reindex :: "nat \<Rightarrow> ('p \<Rightarrow> 12 word) \<Rightarrow> 'p prop_cell row_mem \<Rightarrow> row_list \<Rightarrow> (12 word \<Rightarrow> (nat \<times> nat) option) \<Rightarrow>
    (12 word \<Rightarrow> (nat \<times> nat) option) option" where
  "reindex R key M l m =
     do { r \<leftarrow> row_loop R M (\<lambda>_ a c m. do { let k = key (cell_pid (cell_at M a c)); CHECK (m k \<noteq> None);
                                            Some (Continue (m(k \<mapsto> (a, c)))) })
                 0 (rl_count l) (rl_head l) m;
          (case r of Continue m \<Rightarrow> Some m | Stop (_ :: unit) \<Rightarrow> None) }"

definition PropertyRowList_SelfDefragment :: "nat \<Rightarrow> ('p \<Rightarrow> 12 word) \<Rightarrow> nat \<Rightarrow> 'p prop_store \<Rightarrow> property_row_list \<Rightarrow>
    ('p prop_store \<times> property_row_list) option" where
  "PropertyRowList_SelfDefragment R key tid S l =
     (case rl_head (pl_rows l) of
        None \<Rightarrow> Some (S, l)
      | Some h \<Rightarrow>
          do { r \<leftarrow> row_loop R (prop_rows S) (collect_body R key tid) 0 (rl_count (pl_rows l)) (Some h) ([h], [], S, cell_map l);
               (case r of
                  Stop _ \<Rightarrow> None
                | Continue (ptrs, queue, S, cm) \<Rightarrow>
                    if queue = [] then Some (S, l\<lparr>cell_map := cm\<rparr>)
                    else do { (M, rl) \<leftarrow> defragment R tid (cell_empty S) ptrs queue (prop_rows S) (pl_rows l);
                              cm \<leftarrow> (case cm of NoMap \<Rightarrow> Some NoMap
                                     | HasMap m \<Rightarrow> do { m \<leftarrow> reindex R key M rl m; Some (HasMap m) }
                                     | Deleted \<Rightarrow> None);
                              Some (S\<lparr>prop_rows := M\<rparr>, \<lparr>pl_rows = rl, cell_map = cm\<rparr>) }) })"

end
