(* ===== verification/Property_Cells.thy ===== *)
theory Property_Cells
  imports Property_Rows
begin

text \<open>
  The cells of a list of properties (\<open>Property_Rows\<close>): searching and allocating, and many threads that do so at the same
  time, in the steps between which other threads can run (src/layout/property_row_list.tpp).
\<close>

section \<open>The cells of a list and its map\<close>

definition place :: "nat \<Rightarrow> nat list \<Rightarrow> nat \<Rightarrow> nat \<times> nat" where
  "place R rs i = (rs ! (i div R), i mod R)"

definition keys_of :: "('p \<Rightarrow> 12 word) \<Rightarrow> 'p prop_cell list \<Rightarrow> 12 word list" where
  "keys_of key cs = map (\<lambda>c. key (cell_pid c)) cs"

definition indexes :: "nat \<Rightarrow> nat list \<Rightarrow> 12 word list \<Rightarrow> (12 word \<Rightarrow> (nat \<times> nat) option) \<Rightarrow> bool" where
  "indexes R rs ks m \<longleftrightarrow> (\<forall>i<length ks. m (ks ! i) = Some (place R rs i)) \<and> (\<forall>k. k \<notin> set ks \<longrightarrow> m k = None)"

text \<open>
  The invariant: the rows are linked, all properties belong to the same element (\<open>P\<close> are its property ids, told apart
  by their keys), no property has two cells, and the map knows the place of every cell.
\<close>

definition prop_list_ok :: "nat \<Rightarrow> ('p \<Rightarrow> 12 word) \<Rightarrow> 'p set \<Rightarrow> 'p prop_cell row_mem \<Rightarrow> property_row_list \<Rightarrow> nat list \<Rightarrow> bool" where
  "prop_list_ok R key P M l rs \<longleftrightarrow>
     row_chain R M (pl_rows l) rs \<and> inj_on key P \<and>
     (let cs = the_cells R M rs (rl_count (pl_rows l))
      in cell_pid ` set cs \<subseteq> P \<and> distinct (map cell_pid cs) \<and>
         (case cell_map l of NoMap \<Rightarrow> True | HasMap m \<Rightarrow> indexes R rs (keys_of key cs) m | Deleted \<Rightarrow> False))"

lemma keys_of_simps [simp]:
  "length (keys_of key cs) = length cs" "keys_of key (cs @ ds) = keys_of key cs @ keys_of key ds"
  "keys_of key [c] = [key (cell_pid c)]" "i < length cs \<Longrightarrow> keys_of key cs ! i = key (cell_pid (cs ! i))"
  by (simp_all add: keys_of_def)

lemma keys_distinct:
  assumes "inj_on key P" "cell_pid ` set cs \<subseteq> P" "distinct (map cell_pid cs)"
  shows "distinct (keys_of key cs)"
proof -
  have "keys_of key cs = map key (map cell_pid cs)" by (simp add: keys_of_def)
  moreover have "distinct (map key xs)" if "distinct xs" "set xs \<subseteq> P" for xs
    using that assms(1) by (simp add: distinct_map inj_on_subset)
  then have "distinct (map key (map cell_pid cs))" using assms(2,3) by (metis set_map)
  ultimately show ?thesis by simp
qed

lemma key_in_keys:
  assumes "inj_on key P" "cell_pid ` set cs \<subseteq> P" "pid \<in> P"
  shows "key pid \<in> set (keys_of key cs) \<longleftrightarrow> pid \<in> cell_pid ` set cs"
proof -
  have "set (keys_of key cs) = key ` cell_pid ` set cs" by (auto simp: keys_of_def)
  then show ?thesis using inj_on_image_mem_iff [OF assms(1,3,2)] by simp
qed

lemma list_loop_search:
  "list_loop (\<lambda>i (_ :: unit). if Q i then Some (Stop (g i)) else Some (Continue ())) xs () =
     Some (case find Q xs of None \<Rightarrow> Continue () | Some i \<Rightarrow> Stop (g i))"
  by (induction xs) auto

lemma list_loop_fold: "list_loop (\<lambda>i s. Some (Continue (f i s))) xs s = Some (Continue (fold f xs s))"
  by (induction xs arbitrary: s) auto

lemma search_cells_ok:
  assumes c: "row_chain R M l rs" and k: "i + k \<le> rl_count l" "k \<noteq> 0 \<Longrightarrow> row = Some (rs ! ((i - 1) div R))"
  shows "search_cells R M i k row pid =
    Some (map_option (place R rs) (find (\<lambda>j. cell_pid (the_cells R M rs (rl_count l) ! j) = pid) [i..<i + k]))"
proof -
  have "find (\<lambda>j. cell_pid (cell_at M (rs ! (j div R)) (j mod R)) = pid) [i..<i + k] =
      find (\<lambda>j. cell_pid (the_cells R M rs (rl_count l) ! j) = pid) [i..<i + k]"
    using k(1) by (intro find_cong) (auto simp: the_cells_nth)
  then show ?thesis
    by (simp add: search_cells_def row_loop_list [OF c k] place_def [abs_def] list_loop_search split: option.splits)
qed

lemma find_upt_None: "find Q [i..<j] = None \<longleftrightarrow> (\<forall>k. i \<le> k \<and> k < j \<longrightarrow> \<not> Q k)"
  by (auto simp: find_None_iff)

lemma find_upt_Some: "find Q [i..<j] = Some k \<Longrightarrow> i \<le> k \<and> k < j \<and> Q k"
  by (auto simp: find_Some_iff)

text \<open>Both ways of searching give the cell with the property, if there is one.\<close>

lemma LocateCell_ok:
  assumes ok: "prop_list_ok R key P M l rs" and pid: "pid \<in> P" and cs: "cs = the_cells R M rs (rl_count (pl_rows l))"
  shows "LocateCell R key pid M l =
    Some (map_option (place R rs) (find (\<lambda>i. cell_pid (cs ! i) = pid) [0..<length cs]))"
proof -
  have c: "row_chain R M (pl_rows l) rs" and inj: "inj_on key P" and sub: "cell_pid ` set cs \<subseteq> P"
    and d: "distinct (map cell_pid cs)"
    using ok cs by (auto simp: prop_list_ok_def Let_def)
  let ?Q = "\<lambda>i. cell_pid (cs ! i) = pid"
  show ?thesis
  proof (cases "cell_map l")
    case NoMap
    have "rl_head (pl_rows l) = Some (rs ! 0)" if "rl_count (pl_rows l) \<noteq> 0"
      using c row_in_chain [OF c, of 0] that by (auto simp: row_chain_def hd_conv_nth)
    then show ?thesis using NoMap search_cells_ok [OF c, of 0 "rl_count (pl_rows l)" "rl_head (pl_rows l)" pid] cs
      by (simp add: LocateCell_def LocateCell_find_def LocateCell_snapshot_def)
  next
    case (HasMap m)
    have m: "indexes R rs (keys_of key cs) m" using ok HasMap cs by (simp add: prop_list_ok_def Let_def)
    have "m (key pid) = map_option (place R rs) (find ?Q [0..<length cs])"
    proof (cases "find ?Q [0..<length cs]")
      case None
      then have "pid \<notin> cell_pid ` set cs" by (auto simp: find_upt_None in_set_conv_nth)
      then show ?thesis using m None key_in_keys [OF inj sub pid] by (simp add: indexes_def)
    next
      case (Some i)
      then have "i < length cs" "cell_pid (cs ! i) = pid" using find_upt_Some by fastforce+
      then show ?thesis using m Some by (auto simp: indexes_def)
    qed
    then show ?thesis using HasMap by (simp add: LocateCell_def LocateCell_find_def LocateCell_snapshot_def)
  next
    case Deleted
    then show ?thesis using ok by (simp add: prop_list_ok_def Let_def)
  qed
qed

lemma fold_map_indexes:
  assumes "distinct ks"
  shows "indexes R rs ks (fold (\<lambda>i m. m(ks ! i \<mapsto> place R rs i)) [0..<length ks] Map.empty)"
proof -
  have "(\<forall>i<n. fold (\<lambda>i m. m(ks ! i \<mapsto> place R rs i)) [0..<n] Map.empty (ks ! i) = Some (place R rs i)) \<and>
      (\<forall>k. k \<notin> set (take n ks) \<longrightarrow> fold (\<lambda>i m. m(ks ! i \<mapsto> place R rs i)) [0..<n] Map.empty k = None)" if "n \<le> length ks" for n
    using that
  proof (induction n)
    case (Suc n)
    then show ?case using assms by (auto simp: less_Suc_eq nth_eq_iff_index_eq take_Suc_conv_app_nth)
  qed simp
  then show ?thesis by (simp add: indexes_def)
qed

lemma indexes_snoc:
  assumes "indexes R rs ks m" "k \<notin> set ks" "\<And>i. i < length ks \<Longrightarrow> place R rs' i = place R rs i"
  shows "indexes R rs' (ks @ [k]) (m(k \<mapsto> place R rs' (length ks)))"
  using assms by (auto simp: indexes_def nth_append less_Suc_eq)

lemma indexes_update: "indexes R rs ks m \<Longrightarrow> i < length ks \<Longrightarrow> m(ks ! i \<mapsto> place R rs i) = m"
  by (auto simp: indexes_def)

lemma indexes_dom: "indexes R rs ks m \<Longrightarrow> m k \<noteq> None \<longleftrightarrow> k \<in> set ks"
  unfolding indexes_def by (metis in_set_conv_nth option.distinct(1))

section \<open>Threads that add properties at the same time\<close>

definition snap_ok :: "nat \<Rightarrow> nat list \<Rightarrow> property_row_list \<Rightarrow> locate_snapshot \<Rightarrow> bool" where
  "snap_ok R rs l sn \<longleftrightarrow>
     snap_count sn \<le> rl_count (pl_rows l) \<and> (snap_map sn \<longrightarrow> cell_map l \<noteq> NoMap) \<and>
     snap_head sn = (if snap_count sn = 0 then None else Some (rs ! 0)) \<and>
     snap_tail sn = (if snap_count sn = 0 then None else Some (rs ! ((snap_count sn - 1) div R)))"

lemma chain_last_row:
  assumes "row_chain R M l rs" "rl_count l \<noteq> 0"
  shows "length rs = Suc ((rl_count l - 1) div R)"
proof -
  obtain k where k: "rl_count l = Suc k" using assms(2) by (cases "rl_count l") auto
  have "length rs = (if rl_count l mod R = 0 then rl_count l div R else rl_count l div R + 1)" using assms(1) by (simp add: row_chain_def)
  then show ?thesis unfolding k by (auto simp: div_Suc)
qed

lemma chain_ends:
  assumes "row_chain R M l rs"
  shows "rl_head l = (if rl_count l = 0 then None else Some (rs ! 0))"
    "rl_tail l = (if rl_count l = 0 then None else Some (rs ! ((rl_count l - 1) div R)))"
proof -
  have ne: "rs = [] \<longleftrightarrow> rl_count l = 0"
    using chain_covers [OF assms] row_in_chain [OF assms, of 0] by fastforce
  show "rl_head l = (if rl_count l = 0 then None else Some (rs ! 0))"
    using assms ne by (simp add: row_chain_def hd_conv_nth)
  show "rl_tail l = (if rl_count l = 0 then None else Some (rs ! ((rl_count l - 1) div R)))"
    using assms ne chain_last_row [OF assms] by (simp add: row_chain_def last_conv_nth)
qed

lemma snap_ok_now:
  assumes "prop_list_ok R key P M l rs"
  shows "snap_ok R rs l (LocateCell_snapshot l)"
  using chain_ends [of R M "pl_rows l" rs] assms
  by (auto simp: snap_ok_def LocateCell_snapshot_def prop_list_ok_def)

lemma build_map_ok:
  assumes c: "row_chain R M rl rs" and cs: "cs = the_cells R M rs (rl_count rl)" and d: "distinct (keys_of key cs)"
  obtains m where "build_map R key M (rl_head rl) (rl_count rl) = Some m" "indexes R rs (keys_of key cs) m"
proof -
  have "fold (\<lambda>i m. m(key (cell_pid (cell_at M (rs ! (i div R)) (i mod R))) \<mapsto> (rs ! (i div R), i mod R))) [0..<rl_count rl] Map.empty =
      fold (\<lambda>i m. m(keys_of key cs ! i \<mapsto> place R rs i)) [0..<length (keys_of key cs)] Map.empty"
    using cs by (intro fold_cong) (auto simp: place_def the_cells_nth)
  then show ?thesis
    using that [OF _ fold_map_indexes [OF d]] by (simp add: build_map_def row_loop_all [OF c] list_loop_fold)
qed

lemma place_append:
  assumes "row_chain R M l rs" "i < rl_count l"
  shows "place R (rs @ ys) i = place R rs i"
  using row_in_chain [OF assms] by (simp add: place_def nth_append)

lemma AllocateCell_search:
  assumes c: "row_chain R M (pl_rows l) rs" and s: "snap_ok R rs l sn"
    and cs: "cs = the_cells R M rs (rl_count (pl_rows l))"
  shows "search_cells R M (snap_count sn) (rl_count (pl_rows l) - snap_count sn)
      (if snap_tail sn = None then rl_head (pl_rows l) else snap_tail sn) pid =
    Some (map_option (place R rs) (find (\<lambda>i. cell_pid (cs ! i) = pid) [snap_count sn..<length cs]))"
proof -
  have "snap_count sn + (rl_count (pl_rows l) - snap_count sn) = rl_count (pl_rows l)" using s by (simp add: snap_ok_def)
  then show ?thesis
    using search_cells_ok [OF c, of "snap_count sn" "rl_count (pl_rows l) - snap_count sn"
        "if snap_tail sn = None then rl_head (pl_rows l) else snap_tail sn" pid] chain_ends(1) [OF c] s cs
    by (auto simp: snap_ok_def)
qed

lemma AllocateCell_ok:
  assumes ok: "prop_list_ok R key P M l rs" and u: "pool_used (row_pool M) U" "set rs \<subseteq> U" "tid < nthreads (row_pool M)"
    and pid: "pid \<in> P" and s: "snap_ok R rs l sn" and cs: "cs = the_cells R M rs (rl_count (pl_rows l))"
    and new: "\<forall>i < snap_count sn. cell_pid (cs ! i) \<noteq> pid"
    and full: "cell_map l \<noteq> NoMap \<longrightarrow> R \<le> rl_count (pl_rows l)"
    and A: "AllocateCell R key tid pid (snap_count sn) (snap_tail sn) M l = Some (ret, M', l')"
  obtains (already) "ret = None" "M' = M" "l' = l" "pid \<in> cell_pid ` set cs"
  | (allocated) rs' U' where "pid \<notin> cell_pid ` set cs" "ret = Some (place R rs' (length cs))"
      "prop_list_ok R key P M' l' rs'" "pool_used (row_pool M') U'" "set rs' \<subseteq> U'"
      "nthreads (row_pool M') = nthreads (row_pool M)" "\<exists>ys. rs' = rs @ ys" "rl_count (pl_rows l') = Suc (length cs)"
      "the_cells R M' rs' (Suc (length cs)) = cs @ [\<lparr>cell_pid = pid, cell_list = None\<rparr>]"
      "cell_map l \<noteq> NoMap \<Longrightarrow> cell_map l' \<noteq> NoMap" "cell_map l' \<noteq> NoMap \<longrightarrow> R \<le> rl_count (pl_rows l')"
proof -
  let ?n = "rl_count (pl_rows l)" and ?x = "\<lparr>cell_pid = pid, cell_list = None\<rparr>"
  have c: "row_chain R M (pl_rows l) rs" and inj: "inj_on key P" and sub: "cell_pid ` set cs \<subseteq> P"
    and d: "distinct (map cell_pid cs)" and del: "cell_map l \<noteq> Deleted"
    using ok cs by (auto simp: prop_list_ok_def Let_def split: map_ptr.splits)
  have len: "length cs = ?n" using cs by simp
  define already where "already = find (\<lambda>i. cell_pid (cs ! i) = pid) [snap_count sn..<length cs]"
  have al: "(if snap_count sn \<noteq> ?n then search_cells R M (snap_count sn) (?n - snap_count sn)
        (if snap_tail sn = None then rl_head (pl_rows l) else snap_tail sn) pid else Some None) =
      Some (map_option (place R rs) already)"
    using AllocateCell_search [OF c s cs, of pid] s len by (auto simp: already_def snap_ok_def)
  show ?thesis
  proof (cases already)
    case (Some i)
    then have "i < length cs" "cell_pid (cs ! i) = pid" using find_upt_Some unfolding already_def by fastforce+
    then have "pid \<in> cell_pid ` set cs" by auto
    then show ?thesis using already A al Some unfolding AllocateCell_def by (simp add: Let_def)
  next
    case None
    have fresh: "pid \<notin> cell_pid ` set cs"
      using None new unfolding already_def by (auto simp: find_upt_None in_set_conv_nth) (metis not_le)
    obtain a e M1 rl where a: "append_cell R tid ?x M (pl_rows l) = Some (a, e, M1, rl)"
      using A al None unfolding AllocateCell_def by (cases "append_cell R tid ?x M (pl_rows l)") (auto simp: Let_def)
    obtain rs' U' where r: "row_chain R M1 rl rs'" "pool_used (row_pool M1) U'" "set rs' \<subseteq> U'"
      "nthreads (row_pool M1) = nthreads (row_pool M)" "rl_count rl = Suc ?n" "a = rs' ! (?n div R)" "e = ?n mod R"
      "the_cells R M1 rs' (Suc ?n) = cs @ [?x]" "\<exists>ys. rs' = rs @ ys"
      using append_cell_ok [OF c u a] cs by metis
    have d': "distinct (map cell_pid (cs @ [?x]))" and sub': "cell_pid ` set (cs @ [?x]) \<subseteq> P"
      using d fresh sub pid by auto
    have ae: "(a, e) = place R rs' (length cs)" using r(6,7) len by (simp add: place_def)
    have kfresh: "key pid \<notin> set (keys_of key cs)" using key_in_keys [OF inj sub pid] fresh by simp
    have same: "place R rs' i = place R rs i" if "i < length (keys_of key cs)" for i
      using place_append [OF c] that len r(9) by auto
    obtain mb where mb: "build_map R key M1 (rl_head rl) (rl_count rl) = Some mb" "indexes R rs' (keys_of key (cs @ [?x])) mb"
      using build_map_ok [OF r(1) refl, of key] keys_distinct [OF inj sub' d'] r(5,8) by auto
    have upd: "mb(key pid \<mapsto> place R rs' (length cs)) = mb"
      using indexes_update [OF mb(2), of "length cs"] by (simp add: nth_append)
    let ?cm = "if R \<le> ?n then HasMap ((case cell_map l of HasMap m \<Rightarrow> m | _ \<Rightarrow> mb)(key pid \<mapsto> (a, e))) else cell_map l"
    have "AllocateCell R key tid pid (snap_count sn) (snap_tail sn) M l = Some (Some (a, e), M1, \<lparr>pl_rows = rl, cell_map = ?cm\<rparr>)"
      unfolding AllocateCell_def Let_def al using None a mb(1) r(5) del by (cases "cell_map l") simp_all
    then have R1: "ret = Some (a, e)" "M' = M1" "pl_rows l' = rl" and R2: "cell_map l' = ?cm" using A by auto
    have "case cell_map l' of NoMap \<Rightarrow> True | HasMap m \<Rightarrow> indexes R rs' (keys_of key (cs @ [?x])) m | Deleted \<Rightarrow> False"
    proof (cases "cell_map l")
      case NoMap
      then show ?thesis using R2 mb(2) upd ae by simp
    next
      case (HasMap m)
      then have "indexes R rs (keys_of key cs) m" using ok cs by (simp add: prop_list_ok_def Let_def)
      then have "indexes R rs' (keys_of key cs @ [key pid]) (m(key pid \<mapsto> place R rs' (length (keys_of key cs))))"
        by (rule indexes_snoc [OF _ kfresh same])
      then show ?thesis using R2 HasMap ae full by simp
    qed (use del in simp)
    then have "prop_list_ok R key P M' l' rs'"
      unfolding prop_list_ok_def using R1 r(1,5,8) inj d' sub' by (simp add: Let_def)
    then show ?thesis using allocated [OF fresh _ _ _ _ _ r(9)] R1 R2 r ae len full by (auto split: if_splits)
  qed
qed

text \<open>
  \<open>ProcessModifyProperty\<close> cut at the points where other threads can come in between: the snapshot under the read
  lock, the search, \<open>AllocateCell\<close> under the write lock, and the new version behind the cell. A thread that holds a
  cell also holds the list of the cell, a new list if the cell is new (\<open>False\<close>).
\<close>

datatype 'p modifier = Idle | Located 'p locate_snapshot | Missing 'p locate_snapshot | Holding 'p "nat \<times> nat" nat bool

inductive modify_step :: "nat \<Rightarrow> ('p \<Rightarrow> 12 word) \<Rightarrow> 'p set \<Rightarrow> 'p prop_store \<times> property_row_list \<times> (nat \<Rightarrow> 'p modifier) \<Rightarrow>
    'p prop_store \<times> property_row_list \<times> (nat \<Rightarrow> 'p modifier) \<Rightarrow> bool" for R key P where
  load: "(\<And>t. th t = Idle) \<Longrightarrow> tid < nthreads (row_pool (prop_rows S)) \<Longrightarrow> pid \<in> P \<Longrightarrow>
    LocateCell R key pid (prop_rows S) l = Some None \<Longrightarrow> cell_map l = NoMap \<Longrightarrow>
    InsertInitialCell R tid pid v S l = Some (S', l') \<Longrightarrow> modify_step R key P (S, l, th) (S', l', th)"
| snapshot: "th t = Idle \<Longrightarrow> t < nthreads (row_pool (prop_rows S)) \<Longrightarrow> pid \<in> P \<Longrightarrow>
    modify_step R key P (S, l, th) (S, l, th(t := Located pid (LocateCell_snapshot l)))"
| hit: "th t = Located pid sn \<Longrightarrow> LocateCell_find R key pid sn (prop_rows S) l = Some (Some (a, c)) \<Longrightarrow>
    cell_list (cell_at (prop_rows S) a c) = Some p \<Longrightarrow>
    modify_step R key P (S, l, th) (S, l, th(t := Holding pid (a, c) p True))"
| busy: "th t = Located pid sn \<Longrightarrow> LocateCell_find R key pid sn (prop_rows S) l = Some (Some (a, c)) \<Longrightarrow>
    cell_list (cell_at (prop_rows S) a c) = None \<Longrightarrow> modify_step R key P (S, l, th) (S, l, th(t := Idle))"
| miss: "th t = Located pid sn \<Longrightarrow> LocateCell_find R key pid sn (prop_rows S) l = Some None \<Longrightarrow>
    modify_step R key P (S, l, th) (S, l, th(t := Missing pid sn))"
| allocate: "th t = Missing pid sn \<Longrightarrow> t < nthreads (row_pool (prop_rows S)) \<Longrightarrow>
    AllocateCell R key t pid (snap_count sn) (snap_tail sn) (prop_rows S) l = Some (Some ac, M', l') \<Longrightarrow> p = fresh_list S \<Longrightarrow>
    modify_step R key P (S, l, th)
      (S\<lparr>prop_rows := M', prop_lists := (prop_lists S)(p \<mapsto> empty_list), fresh_list := p + 1\<rparr>, l', th(t := Holding pid ac p False))"
| lost: "th t = Missing pid sn \<Longrightarrow> t < nthreads (row_pool (prop_rows S)) \<Longrightarrow>
    AllocateCell R key t pid (snap_count sn) (snap_tail sn) (prop_rows S) l = Some (None, M', l') \<Longrightarrow>
    modify_step R key P (S, l, th) (S\<lparr>prop_rows := M'\<rparr>, l', th(t := Idle))"
| version: "th t = Holding pid ac p flag \<Longrightarrow> modify_cell t ac p flag v trx_id bt S old_val = Some (y, old_val', S') \<Longrightarrow>
    modify_step R key P (S, l, th) (S', l, th(t := Idle))"

inductive_cases modify_stepE: "modify_step R key P s s'"

definition thread_ok :: "nat \<Rightarrow> nat list \<Rightarrow> 'p prop_cell list \<Rightarrow> 'p set \<Rightarrow> property_row_list \<Rightarrow> 'p modifier \<Rightarrow> bool" where
  "thread_ok R rs cs P l st =
     (case st of
        Idle \<Rightarrow> True
      | Located pid sn \<Rightarrow> pid \<in> P \<and> snap_ok R rs l sn
      | Missing pid sn \<Rightarrow> pid \<in> P \<and> snap_ok R rs l sn \<and> (\<forall>i < snap_count sn. cell_pid (cs ! i) \<noteq> pid)
      | Holding pid ac p flag \<Rightarrow>
          (\<exists>i < length cs. ac = place R rs i \<and> cs ! i = \<lparr>cell_pid = pid, cell_list = (if flag then Some p else None)\<rparr>))"

definition publishes :: "'p modifier \<Rightarrow> (nat \<times> nat) option" where
  "publishes st = (case st of Holding pid ac p flag \<Rightarrow> if flag then None else Some ac | _ \<Rightarrow> None)"

definition one_publisher :: "(nat \<Rightarrow> 'p modifier) \<Rightarrow> bool" where
  "one_publisher th \<longleftrightarrow> (\<forall>t u. publishes (th t) \<noteq> None \<longrightarrow> publishes (th t) = publishes (th u) \<longrightarrow> t = u)"

definition modify_inv :: "nat \<Rightarrow> ('p \<Rightarrow> 12 word) \<Rightarrow> 'p set \<Rightarrow> 'p prop_store \<times> property_row_list \<times> (nat \<Rightarrow> 'p modifier) \<Rightarrow> nat list \<Rightarrow> nat set \<Rightarrow> bool" where
  "modify_inv R key P s rs U =
     (case s of (S, l, th) \<Rightarrow>
        prop_list_ok R key P (prop_rows S) l rs \<and> (cell_map l \<noteq> NoMap \<longrightarrow> R \<le> rl_count (pl_rows l)) \<and>
        pool_used (row_pool (prop_rows S)) U \<and> set rs \<subseteq> U \<and> one_publisher th \<and>
        (\<forall>t. thread_ok R rs (the_cells R (prop_rows S) rs (rl_count (pl_rows l))) P l (th t)))"

lemma thread_ok_Idle [simp]: "thread_ok R rs cs P l Idle"
  by (simp add: thread_ok_def)

lemma publishes_simps [simp]:
  "publishes Idle = None" "publishes (Located pid sn) = None" "publishes (Missing pid sn) = None"
  "publishes (Holding pid ac p True) = None" "publishes (Holding pid ac p False) = Some ac"
  by (simp_all add: publishes_def)

lemma one_publisher_None: "one_publisher th \<Longrightarrow> publishes st = None \<Longrightarrow> one_publisher (th(t := st))"
  by (auto simp: one_publisher_def)

lemma one_publisher_new: "one_publisher th \<Longrightarrow> (\<And>u. publishes (th u) \<noteq> Some ac) \<Longrightarrow> one_publisher (th(t := Holding pid ac p False))"
  unfolding one_publisher_def by (metis fun_upd_apply publishes_simps(5))

text \<open>A search that began with an old snapshot.\<close>

lemma LocateCell_find_ok:
  assumes ok: "prop_list_ok R key P M l rs" and pid: "pid \<in> P" and s: "snap_ok R rs l sn"
    and cs: "cs = the_cells R M rs (rl_count (pl_rows l))"
  obtains r where "LocateCell_find R key pid sn M l = Some r"
    "\<And>ac. r = Some ac \<Longrightarrow> \<exists>i < length cs. ac = place R rs i \<and> cell_pid (cs ! i) = pid"
    "r = None \<Longrightarrow> \<forall>i < snap_count sn. cell_pid (cs ! i) \<noteq> pid"
proof (cases "snap_map sn")
  case True
  then have m: "LocateCell_find R key pid sn M l = LocateCell R key pid M l"
    using s by (simp add: LocateCell_find_def LocateCell_def LocateCell_snapshot_def snap_ok_def)
  have sc: "snap_count sn \<le> length cs" using s cs by (simp add: snap_ok_def)
  show ?thesis
    by (rule that [OF trans [OF m LocateCell_ok [OF ok pid cs]]])
      (use sc in \<open>auto simp: find_upt_None dest: find_upt_Some\<close>)
next
  case False
  have c: "row_chain R M (pl_rows l) rs" using ok by (simp add: prop_list_ok_def)
  have sc: "snap_count sn \<le> length cs" using s cs by (simp add: snap_ok_def)
  have "LocateCell_find R key pid sn M l =
      Some (map_option (place R rs) (find (\<lambda>i. cell_pid (cs ! i) = pid) [0..<0 + snap_count sn]))"
    using False search_cells_ok [OF c, of 0 "snap_count sn" "snap_head sn" pid] s cs
    by (simp add: LocateCell_find_def snap_ok_def)
  then show ?thesis
  proof (rule that)
    show "\<exists>i < length cs. ac = place R rs i \<and> cell_pid (cs ! i) = pid"
      if e: "map_option (place R rs) (find (\<lambda>i. cell_pid (cs ! i) = pid) [0..<0 + snap_count sn]) = Some ac" for ac
    proof -
      obtain i where "find (\<lambda>i. cell_pid (cs ! i) = pid) [0..<0 + snap_count sn] = Some i" "ac = place R rs i" using e by auto
      then show ?thesis using sc find_upt_Some [of "\<lambda>i. cell_pid (cs ! i) = pid" 0 "0 + snap_count sn" i] by (intro exI [of _ i]) auto
    qed
  qed (auto simp: find_upt_None)
qed


lemma thread_ok_grow:
  assumes "thread_ok R rs cs P l st" "row_chain R M (pl_rows l) rs" "length cs = rl_count (pl_rows l)"
    "rl_count (pl_rows l') \<ge> length cs" "cell_map l \<noteq> NoMap \<Longrightarrow> cell_map l' \<noteq> NoMap"
  shows "thread_ok R (rs @ ys) (cs @ xs) P l' st"
proof -
  have "place R (rs @ ys) i = place R rs i" "i div R < length rs" if "i < length cs" for i
    using place_append [OF assms(2)] row_in_chain [OF assms(2)] that assms(3) by auto
  moreover have "snap_ok R (rs @ ys) l' sn" if "snap_ok R rs l sn" for sn
  proof -
    have "0 div R < length rs" "(snap_count sn - 1) div R < length rs" if "snap_count sn \<noteq> 0"
      using that \<open>snap_ok R rs l sn\<close> row_in_chain [OF assms(2), of "snap_count sn - 1"] row_in_chain [OF assms(2), of 0]
      by (auto simp: snap_ok_def)
    then show ?thesis using that assms(3,4,5) by (auto simp: snap_ok_def nth_append)
  qed
  moreover have "snap_count sn \<le> length cs" if "snap_ok R rs l sn" for sn using that assms(3) by (simp add: snap_ok_def)
  ultimately show ?thesis using assms(1)
    by (auto simp: thread_ok_def nth_append split: modifier.splits) (metis (no_types, lifting) less_le_trans trans_less_add1)+
qed

lemma modify_cell_rows:
  assumes "modify_cell t ac p flag v trx_id bt S old_val = Some (y, old_val', S')"
  shows "prop_rows S' = prop_rows S \<or> \<not> flag \<and> prop_rows S' =
    upd_cell (fst ac) (snd ac) ((cell_at (prop_rows S) (fst ac) (snd ac))\<lparr>cell_list := Some p\<rparr>) (prop_rows S)"
  using assms by (auto simp: modify_cell_def Let_def bind_eq_Some_conv split: option.splits if_splits)

text \<open>Writing to a cell keeps everything if the property stays the same.\<close>

lemma prop_list_ok_upd:
  assumes ok: "prop_list_ok R key P M l rs" and i: "i < rl_count (pl_rows l)"
    and x: "cell_pid x = cell_pid (the_cells R M rs (rl_count (pl_rows l)) ! i)" and ac: "(a, c) = place R rs i"
  shows "prop_list_ok R key P (upd_cell a c x M) l rs"
    "the_cells R (upd_cell a c x M) rs (rl_count (pl_rows l)) = (the_cells R M rs (rl_count (pl_rows l)))[i := x]"
proof -
  let ?cs = "the_cells R M rs (rl_count (pl_rows l))"
  have ch: "row_chain R M (pl_rows l) rs" using ok by (simp add: prop_list_ok_def)
  then have "distinct rs" "0 < R" by (simp_all add: row_chain_def)
  then show t: "the_cells R (upd_cell a c x M) rs (rl_count (pl_rows l)) = ?cs[i := x]"
    using the_cells_upd chain_covers(1) [OF ch] row_in_chain [OF ch i] ac by (simp add: place_def)
  have p: "map cell_pid (?cs[i := x]) = map cell_pid ?cs"
    using x i by (metis list_update_id map_update)
  have "keys_of key (?cs[i := x]) = keys_of key ?cs" using arg_cong [OF p, of "map key"] by (simp add: keys_of_def comp_def)
  moreover have "cell_pid ` set (?cs[i := x]) = cell_pid ` set ?cs" using arg_cong [OF p, of set] by simp
  moreover have "row_chain R (upd_cell a c x M) (pl_rows l) rs" using ch by (simp add: row_chain_def)
  ultimately show "prop_list_ok R key P (upd_cell a c x M) l rs"
    using ok t p by (cases "cell_map l") (simp_all add: prop_list_ok_def Let_def)
qed

lemma modify_invI:
  assumes "prop_list_ok R key P (prop_rows S) l rs" "cell_map l \<noteq> NoMap \<Longrightarrow> R \<le> rl_count (pl_rows l)"
    "pool_used (row_pool (prop_rows S)) U" "set rs \<subseteq> U" "one_publisher th"
    "\<And>t. thread_ok R rs (the_cells R (prop_rows S) rs (rl_count (pl_rows l))) P l (th t)"
  shows "modify_inv R key P (S, l, th) rs U"
  using assms by (simp add: modify_inv_def)

lemma modify_inv_thread:
  assumes "modify_inv R key P (S, l, th) rs U" "publishes st = None"
    "thread_ok R rs (the_cells R (prop_rows S) rs (rl_count (pl_rows l))) P l st"
  shows "modify_inv R key P (S, l, th(t := st)) rs U"
  using assms one_publisher_None [of th st t] by (simp add: modify_inv_def)

text \<open>A cell that is loaded comes behind the others, with its list.\<close>

lemma InsertInitialCell_ok:
  assumes ok: "prop_list_ok R key P (prop_rows S) l rs" and u: "pool_used (row_pool (prop_rows S)) U" "set rs \<subseteq> U"
    "tid < nthreads (row_pool (prop_rows S))" and pid: "pid \<in> P" and cs: "cs = the_cells R (prop_rows S) rs (rl_count (pl_rows l))"
    and new: "LocateCell R key pid (prop_rows S) l = Some None" and m: "cell_map l = NoMap"
    and i: "InsertInitialCell R tid pid v S l = Some (S', l')"
  obtains rs' U' where "prop_list_ok R key P (prop_rows S') l' rs'" "pool_used (row_pool (prop_rows S')) U'" "set rs' \<subseteq> U'"
    "nthreads (row_pool (prop_rows S')) = nthreads (row_pool (prop_rows S))" "cell_map l' = NoMap" "rl_count (pl_rows l') = Suc (length cs)"
    "the_cells R (prop_rows S') rs' (Suc (length cs)) = cs @ [\<lparr>cell_pid = pid, cell_list = Some (fresh_list S)\<rparr>]" "pid \<notin> cell_pid ` set cs"
proof -
  let ?x = "\<lparr>cell_pid = pid, cell_list = Some (fresh_list S)\<rparr>"
  have c: "row_chain R (prop_rows S) (pl_rows l) rs" using ok by (simp add: prop_list_ok_def)
  obtain a d rl where a: "append_cell R tid ?x (prop_rows S) (pl_rows l) = Some (a, d, prop_rows S', rl)" and l': "l' = l\<lparr>pl_rows := rl\<rparr>"
    using i by (auto simp: InsertInitialCell_def Let_def bind_eq_Some_conv)
  obtain rs' U' where r: "row_chain R (prop_rows S') rl rs'" "pool_used (row_pool (prop_rows S')) U'" "set rs' \<subseteq> U'"
    "nthreads (row_pool (prop_rows S')) = nthreads (row_pool (prop_rows S))" "rl_count rl = Suc (length cs)"
    "the_cells R (prop_rows S') rs' (Suc (length cs)) = cs @ [?x]"
    using append_cell_ok [OF c u a] cs by (metis length_the_cells)
  have fresh: "pid \<notin> cell_pid ` set cs"
    using LocateCell_ok [OF ok pid cs] new by (auto simp: find_upt_None in_set_conv_nth)
  then have "prop_list_ok R key P (prop_rows S') l' rs'" using ok r m l' pid cs by (simp add: prop_list_ok_def Let_def)
  then show ?thesis using that r fresh l' m by simp
qed

lemma load_inv:
  assumes inv: "modify_inv R key P (S, l, th) rs U" and idle: "\<And>t. th t = Idle"
    and t: "tid < nthreads (row_pool (prop_rows S))" and pid: "pid \<in> P"
    and new: "LocateCell R key pid (prop_rows S) l = Some None" and m: "cell_map l = NoMap"
    and i: "InsertInitialCell R tid pid v S l = Some (S', l')"
  shows "\<exists>rs' U'. modify_inv R key P (S', l', th) rs' U'"
proof -
  have ok: "prop_list_ok R key P (prop_rows S) l rs" and u: "pool_used (row_pool (prop_rows S)) U" "set rs \<subseteq> U"
    using inv by (simp_all add: modify_inv_def)
  obtain rs' U' where "prop_list_ok R key P (prop_rows S') l' rs'" "pool_used (row_pool (prop_rows S')) U'" "set rs' \<subseteq> U'" "cell_map l' = NoMap"
    by (rule InsertInitialCell_ok [OF ok u t pid refl new m i])
  then show ?thesis using idle by (intro exI modify_invI) (auto simp: one_publisher_def)
qed

lemma allocate_inv:
  assumes inv: "modify_inv R key P (S, l, th) rs U" and th: "th t = Missing pid sn"
    and t: "t < nthreads (row_pool (prop_rows S))"
    and A: "AllocateCell R key t pid (snap_count sn) (snap_tail sn) (prop_rows S) l = Some (ret, M', l')"
    and rows: "prop_rows S' = M'"
    and st: "st = (case ret of None \<Rightarrow> Idle | Some ac \<Rightarrow> Holding pid ac p False)"
  shows "\<exists>rs' U'. modify_inv R key P (S', l', th(t := st)) rs' U'"
proof -
  let ?cs = "the_cells R (prop_rows S) rs (rl_count (pl_rows l))"
  have ok: "prop_list_ok R key P (prop_rows S) l rs" and u: "pool_used (row_pool (prop_rows S)) U" "set rs \<subseteq> U"
    and full: "cell_map l \<noteq> NoMap \<longrightarrow> R \<le> rl_count (pl_rows l)" and one: "one_publisher th"
    and T: "\<And>t. thread_ok R rs ?cs P l (th t)"
    using inv by (simp_all add: modify_inv_def)
  have c: "row_chain R (prop_rows S) (pl_rows l) rs" using ok by (simp add: prop_list_ok_def)
  have m: "pid \<in> P" "snap_ok R rs l sn" "\<forall>i < snap_count sn. cell_pid (?cs ! i) \<noteq> pid"
    using T [of t] th by (simp_all add: thread_ok_def)
  from ok u t m(1,2) refl m(3) full A show ?thesis
  proof (cases rule: AllocateCell_ok)
    case already
    then have "modify_inv R key P (S', l', th(t := st)) rs U"
      using inv st rows one_publisher_None [OF one, of Idle t] by (simp add: modify_inv_def)
    then show ?thesis by blast
  next
    case (allocated rs' U')
    obtain ys where ys: "rs' = rs @ ys" using allocated(7) by blast
    have T': "thread_ok R rs' (?cs @ [\<lparr>cell_pid = pid, cell_list = None\<rparr>]) P l' (th s)" for s
      unfolding ys by (rule thread_ok_grow [OF T c]) (use allocated(8,10) in auto)
    have "publishes (th s) \<noteq> Some (place R rs' (length ?cs))" for s
    proof
      assume "publishes (th s) = Some (place R rs' (length ?cs))"
      then obtain q p where "th s = Holding q (place R rs' (length ?cs)) p False"
        by (auto simp: publishes_def split: modifier.splits if_splits)
      then obtain i where i: "i < length ?cs" "place R rs' (length ?cs) = place R rs i"
        using T [of s] by (auto simp: thread_ok_def)
      have "distinct rs'" "0 < R" "row_chain R M' (pl_rows l') rs'" using allocated(3) by (auto simp: prop_list_ok_def row_chain_def)
      then have "i = length ?cs"
        using same_place_iff [of rs' R i "length ?cs"] i place_append [OF c, of i ys] row_in_chain [of R M' "pl_rows l'" rs'] allocated(8)
        by (auto simp: place_def ys)
      then show False using i(1) by simp
    qed
    then have "one_publisher (th(t := st))" using one_publisher_new [OF one] st allocated(2) by simp
    moreover have "thread_ok R rs' (?cs @ [\<lparr>cell_pid = pid, cell_list = None\<rparr>]) P l' st"
      using st allocated(2) by (auto simp: thread_ok_def nth_append intro!: exI [of _ "length ?cs"])
    ultimately have "modify_inv R key P (S', l', th(t := st)) rs' U'"
      using allocated(3,4,5,8,9,11) rows T'
      by (intro modify_invI) (auto simp: allocated(9) [symmetric])
    then show ?thesis by blast
  qed
qed


lemma version_inv:
  assumes inv: "modify_inv R key P (S, l, th) rs U" and th: "th t = Holding pid ac p flag"
    and v: "modify_cell t ac p flag v trx_id bt S old_val = Some (y, old_val', S')"
  shows "modify_inv R key P (S', l, th(t := Idle)) rs U"
proof -
  let ?cs = "the_cells R (prop_rows S) rs (rl_count (pl_rows l))"
  have ok: "prop_list_ok R key P (prop_rows S) l rs" and u: "pool_used (row_pool (prop_rows S)) U" "set rs \<subseteq> U"
    and full: "cell_map l \<noteq> NoMap \<longrightarrow> R \<le> rl_count (pl_rows l)" and one: "one_publisher th"
    and T: "\<And>t. thread_ok R rs ?cs P l (th t)"
    using inv by (simp_all add: modify_inv_def)
  note one' = one_publisher_None [OF one, of Idle t, simplified]
  obtain i where i: "i < rl_count (pl_rows l)" "ac = place R rs i" "?cs ! i = \<lparr>cell_pid = pid, cell_list = (if flag then Some p else None)\<rparr>"
    using T [of t] th by (auto simp: thread_ok_def)
  let ?x = "\<lparr>cell_pid = pid, cell_list = Some p\<rparr>"
  have old: "cell_at (prop_rows S) (fst ac) (snd ac) = ?cs ! i" using i by (simp add: the_cells_nth place_def)
  consider "prop_rows S' = prop_rows S" | "\<not> flag" "prop_rows S' = upd_cell (fst ac) (snd ac) ?x (prop_rows S)"
    using modify_cell_rows [OF v] old i(3) by fastforce
  then show ?thesis
  proof cases
    case 1
    then show ?thesis using inv one' by (simp add: modify_inv_def)
  next
    case 2
    have w: "prop_list_ok R key P (prop_rows S') l rs" "the_cells R (prop_rows S') rs (rl_count (pl_rows l)) = ?cs[i := ?x]"
      using prop_list_ok_upd [OF ok i(1), of ?x "fst ac" "snd ac"] i(2,3) 2(2) by simp_all
    have "thread_ok R rs (?cs[i := ?x]) P l (th s)" if "s \<noteq> t" for s
    proof (cases "th s")
      case (Missing q sn)
      then show ?thesis using T [of s] i by (auto simp: thread_ok_def snap_ok_def nth_list_update)
    next
      case (Holding q ac' p' flag')
      then obtain j where j: "j < length ?cs" "ac' = place R rs j" "?cs ! j = \<lparr>cell_pid = q, cell_list = (if flag' then Some p' else None)\<rparr>"
        using T [of s] by (auto simp: thread_ok_def)
      have "j \<noteq> i"
      proof
        assume "j = i"
        then have "flag' = False" using j(3) i(3) 2(1) by (auto split: if_splits)
        then show False using one \<open>j = i\<close> j(2) i(2) Holding th 2(1) that by (auto simp: one_publisher_def)
      qed
      then show ?thesis using Holding j by (auto simp: thread_ok_def)
    qed (use T [of s] in \<open>simp_all add: thread_ok_def\<close>)
    then show ?thesis using w 2(2) u full one' by (intro modify_invI) auto
  qed
qed

lemma modify_step_inv:
  assumes "modify_step R key P s s'" "modify_inv R key P s rs U"
  shows "\<exists>rs' U'. modify_inv R key P s' rs' U'"
  using assms
proof (induction rule: modify_step.induct)
  case (load th tid S pid l v S' l')
  then show ?case by (intro load_inv)
next
  case (snapshot th t S pid l)
  then have "thread_ok R rs (the_cells R (prop_rows S) rs (rl_count (pl_rows l))) P l (Located pid (LocateCell_snapshot l))"
    using snap_ok_now [of R key P "prop_rows S" l rs] by (simp add: thread_ok_def modify_inv_def)
  then show ?case using modify_inv_thread [OF snapshot(4), of "Located pid (LocateCell_snapshot l)" t] by auto
next
  case (hit th t pid sn S l a c p)
  let ?cs = "the_cells R (prop_rows S) rs (rl_count (pl_rows l))"
  have T: "thread_ok R rs ?cs P l (th t)" using hit(4) by (simp add: modify_inv_def)
  have inv: "prop_list_ok R key P (prop_rows S) l rs" "pid \<in> P" "snap_ok R rs l sn"
    using hit(4) T hit(1) by (simp_all add: modify_inv_def thread_ok_def)
  obtain i where "i < length ?cs" "(a, c) = place R rs i" "cell_pid (?cs ! i) = pid"
    using LocateCell_find_ok [OF inv refl] hit(2) by (metis option.inject)
  then have "thread_ok R rs ?cs P l (Holding pid (a, c) p True)"
    using hit(3) by (auto simp: thread_ok_def place_def the_cells_nth intro!: exI [of _ i])
  then show ?case using modify_inv_thread [OF hit(4), of "Holding pid (a, c) p True" t] by auto
next
  case (busy th t pid sn S l a c)
  then show ?case using modify_inv_thread [of R key P S l th rs U Idle t] by auto
next
  case (miss th t pid sn S l)
  let ?cs = "the_cells R (prop_rows S) rs (rl_count (pl_rows l))"
  have T: "thread_ok R rs ?cs P l (th t)" using miss(3) by (simp add: modify_inv_def)
  have inv: "prop_list_ok R key P (prop_rows S) l rs" "pid \<in> P" "snap_ok R rs l sn"
    using miss(3) T miss(1) by (simp_all add: modify_inv_def thread_ok_def)
  have "\<forall>i < snap_count sn. cell_pid (?cs ! i) \<noteq> pid"
    using LocateCell_find_ok [OF inv refl] miss(2) by (metis option.inject)
  then have "thread_ok R rs ?cs P l (Missing pid sn)" using inv by (simp add: thread_ok_def)
  then show ?case using modify_inv_thread [OF miss(3), of "Missing pid sn" t] by auto
next
  case (allocate th t pid sn S l ac M' l' p)
  then show ?case by (intro allocate_inv) auto
next
  case (lost th t pid sn S l M' l')
  then show ?case by (intro allocate_inv) auto
next
  case (version th t pid ac p flag v trx_id bt S old_val y old_val' S' l)
  then show ?case by (blast intro: version_inv)
qed

section \<open>Properties\<close>

definition blank_store :: "mem_pool \<Rightarrow> value_store \<Rightarrow> 12 word prop_store" where
  "blank_store p vs =
     \<lparr>prop_rows = \<lparr>rows = \<lambda>_. \<lparr>next_row = None, cells = \<lambda>_. \<lparr>cell_pid = 0, cell_list = None\<rparr>\<rparr>, row_pool = p\<rparr>,
      prop_lists = \<lambda>_. None, fresh_list = 0,
      prop_mvcc = \<lparr>items = \<lambda>_. \<lparr>begin_time = 0, end_time = 0, next_item = None, val = \<lparr>head_offset = 0, byte_count = 0\<rparr>\<rparr>,
                   item_pool = p, val_store = vs\<rparr>\<rparr>"

lemma modify_run_inv:
  assumes "(modify_step R key P)\<^sup>*\<^sup>* s s'" "modify_inv R key P s rs U"
  shows "\<exists>rs' U'. modify_inv R key P s' rs' U'"
  using assms by (induction rule: rtranclp_induct) (blast dest: modify_step_inv)+

lemma modify_inv_init:
  assumes "MemPool_Init B n threads rec = Some (row_pool (prop_rows S))" "2 \<le> B" "0 < threads" "0 < R" "inj_on key P"
  shows "modify_inv R key P (S, PropertyRowList_Init, \<lambda>_. Idle) [] {}"
  using MemPool_Init_used [OF assms(1-3)] assms(4,5)
  by (intro modify_invI)
    (auto simp: prop_list_ok_def row_chain_def PropertyRowList_Init_def empty_rows_def the_cells_def one_publisher_def)

text \<open>
  C4. Any number of threads add and modify the properties of an element at the same time, each in the steps of
  \<open>ProcessModifyProperty\<close>, after cells have been loaded. However the steps interleave, no property ever has two cells;
  a thread that holds a cell holds the cell of its property, with the version list it took from it or, if it created the cell,
  still without one; two threads that work on the same property hold the same cell; and the search with an old snapshot
  never follows a null pointer.
\<close>

theorem concurrent_properties_unique:
  assumes "MemPool_Init B n threads rec = Some (row_pool (prop_rows S0))" "2 \<le> B" "0 < threads" "0 < R" "inj_on key P"
    and run: "(modify_step R key P)\<^sup>*\<^sup>* (S0, PropertyRowList_Init, \<lambda>_. Idle) (S, l, th)"
  shows "(\<exists>rs. row_chain R (prop_rows S) (pl_rows l) rs \<and> distinct (map cell_pid (the_cells R (prop_rows S) rs (rl_count (pl_rows l))))) \<and>
    (\<forall>t pid a c p flag. th t = Holding pid (a, c) p flag \<longrightarrow>
       cell_at (prop_rows S) a c = \<lparr>cell_pid = pid, cell_list = (if flag then Some p else None)\<rparr>) \<and>
    (\<forall>t u pid ac p flag ac' p' flag'. th t = Holding pid ac p flag \<longrightarrow> th u = Holding pid ac' p' flag' \<longrightarrow> ac = ac') \<and>
    (\<forall>t pid sn. th t = Located pid sn \<longrightarrow> LocateCell_find R key pid sn (prop_rows S) l \<noteq> None)"
proof -
  obtain rs U where inv: "modify_inv R key P (S, l, th) rs U"
    using modify_run_inv [OF run modify_inv_init [OF assms(1-5)]] by blast
  let ?cs = "the_cells R (prop_rows S) rs (rl_count (pl_rows l))"
  have ok: "prop_list_ok R key P (prop_rows S) l rs" and T: "\<And>t. thread_ok R rs ?cs P l (th t)"
    using inv by (simp_all add: modify_inv_def)
  have d: "distinct (map cell_pid ?cs)" using ok by (simp add: prop_list_ok_def Let_def)
  have H: "\<exists>i < length ?cs. ac = place R rs i \<and> ?cs ! i = \<lparr>cell_pid = pid, cell_list = (if flag then Some p else None)\<rparr>"
    if "th t = Holding pid ac p flag" for t pid ac p flag using T [of t] that by (simp add: thread_ok_def)
  have "ac = ac'" if h: "th t = Holding pid ac p flag" "th u = Holding pid ac' p' flag'" for t u pid ac p flag ac' p' flag'
  proof -
    obtain i j where "i < length ?cs" "ac = place R rs i" "cell_pid (?cs ! i) = pid" "j < length ?cs" "ac' = place R rs j" "cell_pid (?cs ! j) = pid"
      using H [OF h(1)] H [OF h(2)] by auto
    then show ?thesis using d nth_eq_iff_index_eq [of "map cell_pid ?cs" i j] by simp
  qed
  moreover have "LocateCell_find R key pid sn (prop_rows S) l \<noteq> None" if "th t = Located pid sn" for t pid sn
  proof -
    have "pid \<in> P" "snap_ok R rs l sn" using T [of t] that by (simp_all add: thread_ok_def)
    then show ?thesis by (rule LocateCell_find_ok [OF ok _ _ refl]) auto
  qed
  moreover have "cell_at (prop_rows S) a c = \<lparr>cell_pid = pid, cell_list = (if flag then Some p else None)\<rparr>"
    if "th t = Holding pid (a, c) p flag" for t pid a c p flag
    using H [OF that] by (auto simp: place_def the_cells_nth)
  ultimately show ?thesis using ok d unfolding prop_list_ok_def by blast
qed


definition sample_store :: "12 word prop_store" where
  "sample_store = blank_store (the (MemPool_Init 4 40 2 False)) (the (ValueStore_Init (\<lambda>_. 0) 4 40 2 False))"

lemma sample_store_pool: "MemPool_Init 4 40 2 False = Some (row_pool (prop_rows sample_store))"
proof -
  have "MemPool_Init 4 40 2 False \<noteq> None" by code_simp
  then show ?thesis by (auto simp: sample_store_def blank_store_def)
qed

lemma AllocateCell_lost: "map_option fst (AllocateCell R key t pid n tail0 M l) = Some None \<Longrightarrow> AllocateCell R key t pid n tail0 M l = Some (None, M, l)"
  by (auto simp: AllocateCell_def Let_def bind_eq_Some_conv split: if_splits)

text \<open>Two threads miss the same property; the first one gets a cell, the second one is sent away.\<close>

theorem concurrent_properties_unique_witness:
  "\<exists>S l th. (modify_step 3 id UNIV)\<^sup>*\<^sup>* (sample_store, PropertyRowList_Init, \<lambda>_. Idle) (S, l, th) \<and>
     th 0 = Holding 5 (0, 0) 0 False \<and> th 1 = Missing 5 (LocateCell_snapshot PropertyRowList_Init) \<and>
     AllocateCell 3 id 1 5 0 None (prop_rows S) l = Some (None, prop_rows S, l) \<and>
     cell_at (prop_rows S) 0 0 = \<lparr>cell_pid = 5, cell_list = None\<rparr>"
proof -
  let ?l = PropertyRowList_Init let ?sn = "LocateCell_snapshot ?l" let ?S = sample_store
  let ?st = "modify_step 3 id (UNIV :: 12 word set)"
  have t: "0 < nthreads (row_pool (prop_rows ?S))" "1 < nthreads (row_pool (prop_rows ?S))" by code_simp+
  have m: "LocateCell_find 3 id 5 ?sn (prop_rows ?S) ?l = Some None" by code_simp
  let ?A = "AllocateCell 3 id 0 5 0 None (prop_rows ?S) ?l"
  have A: "case ?A of None \<Rightarrow> False | Some (ret, M', l') \<Rightarrow>
      ret = Some (0, 0) \<and> map_option fst (AllocateCell 3 id 1 5 0 None M' l') = Some None" by code_simp
  obtain ret M' l' where "?A = Some (ret, M', l')" using A by (cases ?A) auto
  with A have a: "?A = Some (Some (0, 0), M', l')" and b: "map_option fst (AllocateCell 3 id 1 5 0 None M' l') = Some None"
    by simp_all
  have sn: "snap_count ?sn = 0" "snap_tail ?sn = None" by code_simp+
  let ?t1 = "(\<lambda>_. Idle)(0 := Located 5 ?sn)" let ?t2 = "?t1(1 := Located 5 ?sn)"
  let ?t3 = "?t2(0 := Missing 5 ?sn)" let ?t4 = "?t3(1 := Missing 5 ?sn)"
  let ?S' = "?S\<lparr>prop_rows := M', prop_lists := (prop_lists ?S)(0 \<mapsto> empty_list), fresh_list := 0 + 1\<rparr>"
  let ?t5 = "?t4(0 := Holding 5 (0, 0) 0 False)"
  have s1: "?st (?S, ?l, \<lambda>_. Idle) (?S, ?l, ?t1)" using t(1) by (intro modify_step.snapshot) auto
  have s2: "?st (?S, ?l, ?t1) (?S, ?l, ?t2)" using t(2) by (intro modify_step.snapshot) auto
  have s3: "?st (?S, ?l, ?t2) (?S, ?l, ?t3)" using m by (intro modify_step.miss) auto
  have s4: "?st (?S, ?l, ?t3) (?S, ?l, ?t4)" using m by (intro modify_step.miss) auto
  have s5: "?st (?S, ?l, ?t4) (?S', l', ?t5)"
    using a t(1) sn by (intro modify_step.allocate) (auto simp: sample_store_def blank_store_def)
  note c = converse_rtranclp_into_rtranclp [of ?st]
  have run: "?st\<^sup>*\<^sup>* (?S, ?l, \<lambda>_. Idle) (?S', l', ?t5)"
    by (rule c [OF s1] c [OF s2] c [OF s3] c [OF s4] r_into_rtranclp [of ?st, OF s5])+
  have "cell_at (prop_rows ?S') 0 0 = \<lparr>cell_pid = 5, cell_list = None\<rparr>"
    using concurrent_properties_unique [OF sample_store_pool _ _ _ _ run, THEN conjunct2, THEN conjunct1, rule_format, of 0 5 0 0 0 False]
    by simp
  moreover have "AllocateCell 3 id 1 5 0 None M' l' = Some (None, M', l')"
    using b by (rule AllocateCell_lost)
  ultimately show ?thesis using run by (intro exI [of _ ?S'] exI [of _ l'] exI [of _ ?t5]) simp
qed

end
