(* ===== verification/Property_Defrag.thy ===== *)
theory Property_Defrag
  imports Property_Cells
begin

text \<open>
  Defragmentation of a list of properties: it keeps every property that still has a version, and what it does to the map
  (src/layout/property_row_list.tpp, \<open>SelfDefragment\<close>).
\<close>

section \<open>Defragmentation keeps the properties\<close>

lemma list_loop_inv:
  assumes "Inv k s" "k \<le> n" "\<And>j s. k \<le> j \<Longrightarrow> j < n \<Longrightarrow> Inv j s \<Longrightarrow> \<exists>s'. f j s = Some (Continue s') \<and> Inv (Suc j) s'"
  shows "\<exists>s'. list_loop f [k..<n] s = Some (Continue s') \<and> Inv n s'"
  using assms
proof (induction "n - k" arbitrary: k s)
  case (Suc d)
  then have "k < n" by simp
  with Suc(5) [of k s] Suc(3) obtain s' where "f k s = Some (Continue s')" "Inv (Suc k) s'" by auto
  moreover have "\<exists>s''. list_loop f [Suc k..<n] s' = Some (Continue s'') \<and> Inv n s''"
    by (rule Suc(1)) (use Suc \<open>k < n\<close> calculation in auto)
  ultimately show ?case using \<open>k < n\<close> by (simp add: upt_conv_Cons)
qed simp

definition empty_cell :: "'p prop_store \<Rightarrow> 'p prop_cell \<Rightarrow> bool" where
  "empty_cell S c =
     (case cell_list c of None \<Rightarrow> True
      | Some p \<Rightarrow> (case prop_lists S p of None \<Rightarrow> True | Some ml \<Rightarrow> head ml = None))"

text \<open>Every cell has its own version list.\<close>

definition own_lists :: "'p prop_store \<Rightarrow> 'p prop_cell list \<Rightarrow> bool" where
  "own_lists S cs \<longleftrightarrow> distinct (map cell_list cs) \<and> (\<forall>c\<in>set cs. \<exists>p ml. cell_list c = Some p \<and> prop_lists S p = Some ml)"

definition cleared :: "'p prop_store \<Rightarrow> 'p prop_cell list \<Rightarrow> nat \<Rightarrow> 'p prop_cell list" where
  "cleared S cs j = map (\<lambda>i. if i < j \<and> empty_cell S (cs ! i) then (cs ! i)\<lparr>cell_list := None\<rparr> else cs ! i) [0..<length cs]"

definition dead_lists :: "'p prop_store \<Rightarrow> 'p prop_cell list \<Rightarrow> nat set" where
  "dead_lists S cs = {p. \<exists>c\<in>set cs. empty_cell S c \<and> cell_list c = Some p}"

definition erased :: "('p \<Rightarrow> 12 word) \<Rightarrow> 'p prop_store \<Rightarrow> 'p prop_cell list \<Rightarrow> map_ptr \<Rightarrow> map_ptr" where
  "erased key S cs cm =
     (case cm of HasMap m \<Rightarrow> HasMap (m |` (- set (keys_of key (filter (empty_cell S) cs)))) | _ \<Rightarrow> cm)"

definition collected :: "nat \<Rightarrow> ('p \<Rightarrow> 12 word) \<Rightarrow> 'p prop_store \<Rightarrow> property_row_list \<Rightarrow> nat list \<Rightarrow> nat \<Rightarrow>
    nat list \<times> (nat \<times> nat) list \<times> 'p prop_store \<times> map_ptr \<Rightarrow> bool" where
  "collected R key S l rs j s =
     (case s of (ptrs, queue, S', cm) \<Rightarrow>
        let cs = the_cells R (prop_rows S) rs (rl_count (pl_rows l)) in
        ptrs = take (Suc ((j - 1) div R)) rs \<and>
        queue = map (\<lambda>e. (e div R, e mod R)) (empties (empty_cell S) cs 0 j) \<and>
        prop_mvcc S' = prop_mvcc S \<and> fresh_list S' = fresh_list S \<and>
        prop_lists S' = prop_lists S |` (- dead_lists S (take j cs)) \<and>
        cm = erased key S (take j cs) (cell_map l) \<and>
        row_chain R (prop_rows S') (pl_rows l) rs \<and> row_pool (prop_rows S') = row_pool (prop_rows S) \<and>
        the_cells R (prop_rows S') rs (rl_count (pl_rows l)) = cleared S cs j)"

lemma cleared_simps [simp]:
  "length (cleared S cs j) = length cs" "cleared S cs 0 = cs"
  "i < length cs \<Longrightarrow> cleared S cs j ! i = (if i < j \<and> empty_cell S (cs ! i) then (cs ! i)\<lparr>cell_list := None\<rparr> else cs ! i)"
  by (simp_all add: cleared_def map_nth)

lemma cleared_Suc:
  assumes "j < length cs"
  shows "cleared S cs (Suc j) = (if empty_cell S (cs ! j) then (cleared S cs j)[j := (cs ! j)\<lparr>cell_list := None\<rparr>] else cleared S cs j)"
  using assms by (intro nth_equalityI) (auto simp: nth_list_update less_Suc_eq)

lemma empties_Suc: "empties unused xs 0 (Suc j) = empties unused xs 0 j @ (if unused (xs ! j) then [j] else [])"
  by (simp add: empties_def)

lemma delete_list_empty:
  assumes "prop_lists S p = Some ml" "head ml = None"
  shows "delete_list tid p S = Some (S\<lparr>prop_lists := (prop_lists S)(p := None)\<rparr>)"
  using assms by (simp add: delete_list_def SelfGarbageCollect_def gc_loop.simps)

lemma next_ptrs_take:
  assumes c: "row_chain R M l rs" and j: "j < rl_count l"
  shows "next_ptrs j (rs ! (j div R)) (j mod R) (take (Suc ((j - 1) div R)) rs) = take (Suc (j div R)) rs"
proof (cases "j > 0 \<and> j mod R = 0")
  case True
  then obtain k where k: "j = Suc k" by (cases j) auto
  have R: "0 < R" using c by (simp add: row_chain_def)
  have "j div R = Suc (k div R)" using True R unfolding k by (auto simp: div_Suc)
  then show ?thesis using True row_in_chain [OF c j] k by (simp add: next_ptrs_def take_Suc_conv_app_nth)
next
  case False
  then have "j div R = (j - 1) div R" by (cases j) (auto simp: div_Suc)
  then show ?thesis using False by (auto simp: next_ptrs_def)
qed

lemma dead_lists_Suc:
  assumes "j < length cs" "cell_list (cs ! j) = Some p"
  shows "dead_lists S (take (Suc j) cs) = (if empty_cell S (cs ! j) then insert p (dead_lists S (take j cs)) else dead_lists S (take j cs))"
  using assms by (auto simp: dead_lists_def take_Suc_conv_app_nth)

lemma erased_Suc:
  assumes "j < length cs"
  shows "erased key S (take (Suc j) cs) cm =
    (if empty_cell S (cs ! j)
     then (case erased key S (take j cs) cm of HasMap m \<Rightarrow> HasMap (m(key (cell_pid (cs ! j)) := None)) | y \<Rightarrow> y)
     else erased key S (take j cs) cm)"
  using assms by (cases cm) (auto simp: erased_def take_Suc_conv_app_nth restrict_map_def fun_eq_iff keys_of_def)

lemma own_lists_alive:
  assumes own: "own_lists S cs" and j: "j < length cs" "cell_list (cs ! j) = Some p"
  shows "p \<notin> dead_lists S (take j cs)"
proof
  assume "p \<in> dead_lists S (take j cs)"
  then obtain i where "i < j" "cell_list (cs ! i) = Some p" using j(1) by (auto simp: dead_lists_def in_set_conv_nth)
  then show False using own j nth_eq_iff_index_eq [of "map cell_list cs" i j] by (simp add: own_lists_def)
qed

lemma collect_step:
  assumes ok: "prop_list_ok R key P (prop_rows S) l rs" and cs: "cs = the_cells R (prop_rows S) rs (rl_count (pl_rows l))"
    and own: "own_lists S cs" and j: "j < rl_count (pl_rows l)" and s: "collected R key S l rs j s"
  shows "\<exists>s'. collect_body R key tid j (rs ! (j div R)) (j mod R) s = Some (Continue s') \<and> collected R key S l rs (Suc j) s'"
proof -
  obtain ptrs queue S' cm where s': "s = (ptrs, queue, S', cm)" by (cases s) auto
  have I: "ptrs = take (Suc ((j - 1) div R)) rs" "queue = map (\<lambda>e. (e div R, e mod R)) (empties (empty_cell S) cs 0 j)"
    "prop_mvcc S' = prop_mvcc S" "prop_lists S' = prop_lists S |` (- dead_lists S (take j cs))" "fresh_list S' = fresh_list S"
    "cm = erased key S (take j cs) (cell_map l)" "row_chain R (prop_rows S') (pl_rows l) rs"
    "row_pool (prop_rows S') = row_pool (prop_rows S)"
    "the_cells R (prop_rows S') rs (rl_count (pl_rows l)) = cleared S cs j"
    using s unfolding s' collected_def cs by (simp_all add: Let_def)
  have j': "j < length cs" using j cs by simp
  let ?a = "rs ! (j div R)" and ?c = "j mod R"
  have cell: "cell_at (prop_rows S') ?a ?c = cs ! j"
    using arg_cong [OF I(9), of "\<lambda>xs. xs ! j"] j j' by (simp add: the_cells_nth)
  obtain p ml where p: "cell_list (cs ! j) = Some p" "prop_lists S p = Some ml" using own nth_mem [OF j'] unfolding own_lists_def by blast
  have pS: "prop_lists S' p = Some ml" using I(4) p own_lists_alive [OF own j' p(1)] by simp
  have e: "empty_cell S (cs ! j) \<longleftrightarrow> head ml = None" using p by (simp add: empty_cell_def)
  have R: "distinct rs" "0 < R" using I(7) by (simp_all add: row_chain_def)
  have np: "next_ptrs j ?a ?c ptrs = take (Suc (j div R)) rs" using next_ptrs_take [OF I(7) j] I(1) by simp
  have del: "cell_map l \<noteq> Deleted" using ok by (auto simp: prop_list_ok_def Let_def)
  show ?thesis
  proof (cases "empty_cell S (cs ! j)")
    case True
    let ?M = "upd_cell ?a ?c ((cs ! j)\<lparr>cell_list := None\<rparr>) (prop_rows S')"
    let ?cm = "case cm of HasMap m \<Rightarrow> HasMap (m(key (cell_pid (cs ! j)) := None)) | y \<Rightarrow> y"
    let ?S = "S'\<lparr>prop_lists := (prop_lists S')(p := None), prop_rows := ?M\<rparr>"
    have "collect_body R key tid j ?a ?c s = Some (Continue (take (Suc (j div R)) rs, queue @ [(j div R, ?c)], ?S, ?cm))"
      using True e p pS cell np del I(6) delete_list_empty [OF pS]
      by (cases "cell_map l") (simp_all add: s' collect_body_def Let_def erased_def)
    moreover have "the_cells R ?M rs (rl_count (pl_rows l)) = cleared S cs (Suc j)"
      using the_cells_upd [OF R chain_covers(1) [OF I(7)] row_in_chain [OF I(7) j], of "(cs ! j)\<lparr>cell_list := None\<rparr>" "prop_rows S'"] I(9) cleared_Suc [OF j', of S] True by simp
    moreover have "row_chain R ?M (pl_rows l) rs" using I(7) by (simp add: row_chain_def)
    moreover have "(prop_lists S')(p := None) = prop_lists S |` (- dead_lists S (take (Suc j) cs))"
      using I(4) dead_lists_Suc [OF j' p(1), of S] True by (auto simp: restrict_map_def)
    ultimately show ?thesis
      using I(2,3,5,6,8) True erased_Suc [OF j', of key S "cell_map l"] cs by (simp add: collected_def empties_Suc)
  next
    case False
    then have "collect_body R key tid j ?a ?c s = Some (Continue (take (Suc (j div R)) rs, queue, S', cm))"
      using e p pS cell np by (auto simp: s' collect_body_def Let_def)
    then show ?thesis
      using I False erased_Suc [OF j', of key S "cell_map l"] dead_lists_Suc [OF j' p(1), of S] cleared_Suc [OF j', of S] cs
      by (simp add: collected_def empties_Suc)
  qed
qed

lemma collect_all:
  assumes ok: "prop_list_ok R key P (prop_rows S) l rs" and cs: "cs = the_cells R (prop_rows S) rs (rl_count (pl_rows l))"
    and own: "own_lists S cs" and h: "rl_head (pl_rows l) = Some h"
  obtains s where "row_loop R (prop_rows S) (collect_body R key tid) 0 (rl_count (pl_rows l)) (Some h) ([h], [], S, cell_map l) = Some (Continue s)"
    "collected R key S l rs (rl_count (pl_rows l)) s"
proof -
  have c: "row_chain R (prop_rows S) (pl_rows l) rs" using ok by (simp add: prop_list_ok_def)
  have "take (Suc 0) rs = [h]" using c h by (cases rs) (auto simp: row_chain_def)
  then have "collected R key S l rs 0 ([h], [], S, cell_map l)"
    using c by (cases "cell_map l") (auto simp: collected_def empties_def dead_lists_def erased_def keys_of_def Let_def)
  from list_loop_inv [where Inv = "collected R key S l rs", OF this, of "rl_count (pl_rows l)"
      "\<lambda>i. collect_body R key tid i (rs ! (i div R)) (i mod R)"] collect_step [OF ok cs own, of _ _ tid]
  show ?thesis using that by (auto simp: row_loop_all [OF c] h [symmetric])
qed

text \<open>The well-formed stores: what every operation on a list expects and keeps.\<close>

definition prop_store_ok :: "nat \<Rightarrow> ('p \<Rightarrow> 12 word) \<Rightarrow> 'p set \<Rightarrow> 'p prop_store \<Rightarrow> property_row_list \<Rightarrow> bool" where
  "prop_store_ok R key P S l \<longleftrightarrow>
     (\<exists>rs U. prop_list_ok R key P (prop_rows S) l rs \<and> pool_used (row_pool (prop_rows S)) U \<and> set rs \<subseteq> U \<and>
        own_lists S (the_cells R (prop_rows S) rs (rl_count (pl_rows l))) \<and> (\<forall>p \<ge> fresh_list S. prop_lists S p = None))"

definition property_cell :: "nat \<Rightarrow> ('p \<Rightarrow> 12 word) \<Rightarrow> 'p \<Rightarrow> 'p prop_store \<Rightarrow> property_row_list \<Rightarrow> 'p prop_cell option option" where
  "property_cell R key pid S l =
     do { r \<leftarrow> LocateCell R key pid (prop_rows S) l; Some (map_option (\<lambda>(a, c). cell_at (prop_rows S) a c) r) }"

lemma find_nth: "map_option (nth xs) (find (\<lambda>i. Q (xs ! i)) [0..<length xs]) = find Q xs"
proof (induction xs)
  case (Cons x xs)
  have "find (\<lambda>i. Q ((x # xs) ! i)) [0..<length (x # xs)] =
      (if Q x then Some 0 else map_option Suc (find (\<lambda>i. Q (xs ! i)) [0..<length xs]))"
  proof -
    have "find f (map Suc ys) = map_option Suc (find (\<lambda>i. f (Suc i)) ys)" for f and ys :: "nat list" by (induction ys) auto
    moreover have "[0..<length (x # xs)] = 0 # map Suc [0..<length xs]" by (simp add: map_Suc_upt upt_conv_Cons del: upt_Suc)
    ultimately show ?thesis by simp
  qed
  then show ?case using Cons by (auto simp: option.map_comp comp_def)
qed simp

lemma property_cell_find:
  assumes "prop_list_ok R key P (prop_rows S) l rs" "pid \<in> P"
  shows "property_cell R key pid S l = Some (find (\<lambda>c. cell_pid c = pid) (the_cells R (prop_rows S) rs (rl_count (pl_rows l))))"
proof -
  let ?cs = "the_cells R (prop_rows S) rs (rl_count (pl_rows l))"
  have "map_option (\<lambda>(a, c). cell_at (prop_rows S) a c) (map_option (place R rs) (find (\<lambda>i. cell_pid (?cs ! i) = pid) [0..<length ?cs])) =
      map_option (nth ?cs) (find (\<lambda>i. cell_pid (?cs ! i) = pid) [0..<length ?cs])"
    by (cases "find (\<lambda>i. cell_pid (?cs ! i) = pid) [0..<length ?cs]") (auto simp: place_def the_cells_nth dest!: find_upt_Some)
  then show ?thesis using LocateCell_ok [OF assms refl] find_nth [of ?cs "\<lambda>c. cell_pid c = pid"] by (simp add: property_cell_def)
qed

lemma find_eq_if_distinct:
  assumes "distinct (map cell_pid cs)"
  shows "find (\<lambda>c. cell_pid c = pid) cs = Some c \<longleftrightarrow> c \<in> set cs \<and> cell_pid c = pid"
  using assms by (induction cs) (auto simp: image_iff)

lemma find_filtered:
  assumes "distinct (map cell_pid cs)" "mset ds = mset (filter Q cs)"
  shows "find (\<lambda>c. cell_pid c = pid) ds = Option.bind (find (\<lambda>c. cell_pid c = pid) cs) (\<lambda>c. if Q c then Some c else None)"
proof -
  have "distinct (map cell_pid ds)"
    using assms mset_eq_imp_distinct_iff [of "map cell_pid ds" "map cell_pid (filter Q cs)"] by (simp add: distinct_map_filter)
  moreover have "set ds = {c \<in> set cs. Q c}" using mset_eq_setD [OF assms(2)] by simp
  ultimately have d: "distinct (map cell_pid ds)" "set ds = {c \<in> set cs. Q c}" by blast+
  show ?thesis
  proof (cases "find (\<lambda>c. cell_pid c = pid) cs")
    case None
    then have "find (\<lambda>c. cell_pid c = pid) ds = None" using d(2) by (auto simp: find_None_iff)
    then show ?thesis using None by simp
  next
    case (Some c)
    then have c: "c \<in> set cs" "cell_pid c = pid" using find_eq_if_distinct [OF assms(1)] by blast+
    show ?thesis
    proof (cases "Q c")
      case True
      then show ?thesis using Some c d find_eq_if_distinct [OF d(1)] by auto
    next
      case False
      have "e = c" if "e \<in> set cs" "cell_pid e = pid" for e
        using find_eq_if_distinct [OF assms(1), of pid e] Some that by simp
      then have "find (\<lambda>c. cell_pid c = pid) ds = None" using False d(2) by (auto simp: find_None_iff)
      then show ?thesis using Some False by simp
    qed
  qed
qed

lemma reindex_ok:
  assumes c: "row_chain R M l rs" and ks: "ks = keys_of key (the_cells R M rs (rl_count l))" "distinct ks"
    and m: "\<And>k. m k \<noteq> None \<longleftrightarrow> k \<in> set ks"
  obtains m' where "reindex R key M l m = Some m'" "indexes R rs ks m'"
proof -
  define Inv where "Inv j m' \<longleftrightarrow> (\<forall>i<j. m' (ks ! i) = Some (place R rs i)) \<and> (\<forall>k. m' k \<noteq> None \<longleftrightarrow> k \<in> set ks)" for j and m' :: "12 word \<Rightarrow> (nat \<times> nat) option"
  let ?f = "\<lambda>i m. do { let k = key (cell_pid (cell_at M (rs ! (i div R)) (i mod R))); CHECK (m k \<noteq> None);
                       Some (Continue (m(k \<mapsto> (rs ! (i div R), i mod R))) :: (_, unit) loop) }"
  have n: "length ks = rl_count l" using ks(1) by simp
  have k: "key (cell_pid (cell_at M (rs ! (j div R)) (j mod R))) = ks ! j" if "j < rl_count l" for j
    using that ks(1) by (simp add: the_cells_nth)
  have "\<exists>m'. list_loop ?f [0..<rl_count l] m = Some (Continue m') \<and> Inv (rl_count l) m'"
  proof (rule list_loop_inv)
    show "Inv 0 m" using m by (simp add: Inv_def)
    fix j m1 assume j: "j < rl_count l" and I: "Inv j m1"
    have "m1 (ks ! j) \<noteq> None" using I j n by (simp add: Inv_def)
    then have "?f j m1 = Some (Continue (m1(ks ! j \<mapsto> place R rs j)))" using k [OF j] by (simp add: Let_def place_def)
    moreover have "Inv (Suc j) (m1(ks ! j \<mapsto> place R rs j))"
      using I j n ks(2) by (auto simp: Inv_def less_Suc_eq nth_eq_iff_index_eq)
    ultimately show "\<exists>m'. ?f j m1 = Some (Continue m') \<and> Inv (Suc j) m'" by blast
  qed simp
  then obtain m' where "list_loop ?f [0..<rl_count l] m = Some (Continue m')" and I: "Inv (rl_count l) m'" by blast
  moreover have "indexes R rs ks m'" using I unfolding indexes_def Inv_def n by blast
  ultimately show ?thesis using that [of m'] by (simp add: reindex_def row_loop_all [OF c])
qed

definition live_cells :: "'p prop_store \<Rightarrow> 'p prop_cell list \<Rightarrow> 'p prop_cell list" where
  "live_cells S cs = filter (\<lambda>c. \<not> empty_cell S c) cs"

lemma cleared_all: "cleared S cs (length cs) = map (\<lambda>c. if empty_cell S c then c\<lparr>cell_list := None\<rparr> else c) cs"
  by (rule nth_equalityI) auto

lemma no_list_empty: "cell_list c = None \<Longrightarrow> empty_cell S c"
  by (simp add: empty_cell_def)

lemma list_of_live: "\<not> empty_cell S c \<Longrightarrow> \<exists>p. cell_list c = Some p"
  by (cases "cell_list c") (simp_all add: no_list_empty)

lemma cleared_used: "used_cells (\<lambda>c. cell_list c = None) (cleared S cs (length cs)) = live_cells S cs"
  unfolding cleared_all by (induction cs) (auto simp: live_cells_def dest: no_list_empty)

lemma cleared_empties:
  "n = length cs \<Longrightarrow> empties (\<lambda>c. cell_list c = None) (cleared S cs n) 0 n = empties (empty_cell S) cs 0 n"
  unfolding empties_def by (intro filter_cong) (auto dest: list_of_live)

lemma live_list:
  assumes own: "own_lists S cs" and c: "c \<in> set cs" "\<not> empty_cell S c"
  obtains p ml where "cell_list c = Some p" "prop_lists S p = Some ml" "head ml \<noteq> None" "p \<notin> dead_lists S cs"
proof -
  obtain p ml where p: "cell_list c = Some p" "prop_lists S p = Some ml" using own c(1) unfolding own_lists_def by blast
  have "e = c" if "e \<in> set cs" "cell_list e = Some p" for e
    using own that c(1) p(1) unfolding own_lists_def distinct_map by (metis inj_onD)
  then have "p \<notin> dead_lists S cs" using c(2) by (auto simp: dead_lists_def)
  then show ?thesis using that p c(2) by (simp add: empty_cell_def)
qed

lemma cleared_state:
  assumes own: "own_lists S cs" and S': "prop_lists S' = prop_lists S |` (- dead_lists S cs)" and x: "x \<in> set (cleared S cs (length cs))"
  shows "cell_empty S' x = Some (cell_list x = None)"
proof -
  obtain c where c: "c \<in> set cs" "x = (if empty_cell S c then c\<lparr>cell_list := None\<rparr> else c)"
    using x by (auto simp: cleared_all)
  show ?thesis
  proof (cases "empty_cell S c")
    case False
    obtain p ml where "cell_list c = Some p" "prop_lists S p = Some ml" "head ml \<noteq> None" "p \<notin> dead_lists S cs"
      by (rule live_list [OF own c(1) False])
    then show ?thesis using c(2) False S' by (simp add: cell_empty_def)
  qed (use c in \<open>simp add: cell_empty_def\<close>)
qed

lemma own_lists_live:
  assumes own: "own_lists S cs" and S': "prop_lists S' = prop_lists S |` (- dead_lists S cs)" and m: "mset ds = mset (live_cells S cs)"
  shows "own_lists S' ds"
proof -
  have d: "set ds = {c \<in> set cs. \<not> empty_cell S c}" using mset_eq_setD [OF m] by (simp add: live_cells_def)
  have "distinct (map cell_list ds)"
    using own m mset_eq_imp_distinct_iff [of "map cell_list ds" "map cell_list (live_cells S cs)"]
    by (simp add: own_lists_def live_cells_def distinct_map_filter)
  moreover have "\<exists>p ml. cell_list c = Some p \<and> prop_lists S' p = Some ml" if c: "c \<in> set ds" for c
  proof -
    obtain p ml where "cell_list c = Some p" "prop_lists S p = Some ml" "p \<notin> dead_lists S cs"
      by (rule live_list [OF own, of c]) (use c d in auto)
    then show ?thesis using S' by simp
  qed
  ultimately show ?thesis by (simp add: own_lists_def)
qed

lemma live_keys:
  assumes "inj_on key P" "cell_pid ` set cs \<subseteq> P" "distinct (map cell_pid cs)" "mset ds = mset (live_cells S cs)"
  shows "cell_pid ` set ds \<subseteq> P" "distinct (map cell_pid ds)" "distinct (keys_of key ds)"
    "set (keys_of key ds) = set (keys_of key cs) - set (keys_of key (filter (empty_cell S) cs))"
proof -
  have d: "set ds = {c \<in> set cs. \<not> empty_cell S c}" using mset_eq_setD [OF assms(4)] by (simp add: live_cells_def)
  show s: "cell_pid ` set ds \<subseteq> P" using d assms(2) by auto
  show p: "distinct (map cell_pid ds)"
    using assms(3,4) mset_eq_imp_distinct_iff [of "map cell_pid ds" "map cell_pid (live_cells S cs)"]
    by (simp add: live_cells_def distinct_map_filter)
  show "distinct (keys_of key ds)" by (rule keys_distinct [OF assms(1) s p])
  have "inj_on (\<lambda>c. key (cell_pid c)) (set cs)"
    using keys_distinct [OF assms(1-3)] by (simp add: keys_of_def distinct_map)
  then show "set (keys_of key ds) = set (keys_of key cs) - set (keys_of key (filter (empty_cell S) cs))"
    using d by (auto simp: keys_of_def dest: inj_onD)
qed

lemma SelfDefragment_ok:
  assumes ok: "prop_list_ok R key P (prop_rows S) l rs" and u: "pool_used (row_pool (prop_rows S)) U" "set rs \<subseteq> U"
    "tid < nthreads (row_pool (prop_rows S))" and cs: "cs = the_cells R (prop_rows S) rs (rl_count (pl_rows l))" and own: "own_lists S cs"
  obtains S' l' rs' where "PropertyRowList_SelfDefragment R key tid S l = Some (S', l')"
    "prop_list_ok R key P (prop_rows S') l' rs'" "pool_used (row_pool (prop_rows S')) (U - (set rs - set rs'))" "set rs' \<subseteq> set rs"
    "mset (the_cells R (prop_rows S') rs' (rl_count (pl_rows l'))) = mset (live_cells S cs)"
    "prop_lists S' = prop_lists S |` (- dead_lists S cs)" "prop_mvcc S' = prop_mvcc S" "fresh_list S' = fresh_list S"
proof (cases "rl_head (pl_rows l)")
  case None
  have c: "row_chain R (prop_rows S) (pl_rows l) rs" using ok by (simp add: prop_list_ok_def)
  have "cs = []" using None chain_ends(1) [OF c] cs by (auto simp: the_cells_def split: if_splits)
  then show ?thesis
    using that [of S l rs] None ok u cs by (simp add: PropertyRowList_SelfDefragment_def live_cells_def dead_lists_def restrict_map_def)
next
  case (Some h)
  let ?n = "rl_count (pl_rows l)"
  have c: "row_chain R (prop_rows S) (pl_rows l) rs" and inj: "inj_on key P" and sub: "cell_pid ` set cs \<subseteq> P"
    and d: "distinct (map cell_pid cs)" and del: "cell_map l \<noteq> Deleted"
    using ok cs by (auto simp: prop_list_ok_def Let_def split: map_ptr.splits)
  have n: "length cs = ?n" "?n \<noteq> 0" using cs Some chain_ends(1) [OF c] by (auto split: if_splits)
  obtain ptrs queue S1 cm where loop: "row_loop R (prop_rows S) (collect_body R key tid) 0 ?n (Some h) ([h], [], S, cell_map l) = Some (Continue (ptrs, queue, S1, cm))"
    and col: "collected R key S l rs ?n (ptrs, queue, S1, cm)"
    by (rule collect_all [OF ok cs own Some]) auto
  define E where "E = empties (empty_cell S) cs 0 ?n"
  have I: "ptrs = take (Suc ((?n - 1) div R)) rs" "queue = map (\<lambda>e. (e div R, e mod R)) E"
    "prop_mvcc S1 = prop_mvcc S" "prop_lists S1 = prop_lists S |` (- dead_lists S cs)" "fresh_list S1 = fresh_list S"
    "cm = erased key S cs (cell_map l)" "row_chain R (prop_rows S1) (pl_rows l) rs"
    "row_pool (prop_rows S1) = row_pool (prop_rows S)" "the_cells R (prop_rows S1) rs ?n = cleared S cs ?n"
    using col n unfolding collected_def cs E_def by (simp_all add: Let_def)
  have ptrs: "ptrs = rs"
    using I(1) chain_last_row [OF c n(2)] by simp
  show ?thesis
  proof (cases "E = []")
    case True
    then have live: "\<not> empty_cell S c" if "c \<in> set cs" for c
      using that n(1) by (auto simp: E_def empties_def filter_empty_conv in_set_conv_nth)
    then have "live_cells S cs = cs" "dead_lists S cs = {}" "filter (empty_cell S) cs = []" "cleared S cs ?n = cs"
      using n(1) by (auto simp: live_cells_def dead_lists_def cleared_all [of S cs, unfolded n(1)] filter_empty_conv intro: map_idI)
    moreover from this have "cm = cell_map l" using I(6) by (cases "cell_map l") (auto simp: erased_def keys_of_def)
    moreover have "prop_list_ok R key P (prop_rows S1) l rs"
      using ok I(7,9) calculation(4) cs by (simp add: prop_list_ok_def)
    ultimately show ?thesis
      using that [of S1 l rs] Some loop True I u cs by (simp add: PropertyRowList_SelfDefragment_def)
  next
    case False
    have xs: "cleared S cs ?n = the_cells R (prop_rows S1) rs ?n" using I(9) by simp
    have st: "cell_empty S1 x = Some (cell_list x = None)" if "x \<in> set (cleared S cs ?n)" for x
      using cleared_state [OF own I(4)] that n(1) by simp
    have E: "E = empties (\<lambda>c. cell_list c = None) (cleared S cs ?n) 0 ?n"
      using cleared_empties [of ?n cs S] n(1) E_def by simp
    obtain M' rl rs' where D: "defragment R tid (cell_empty S1) rs (map (\<lambda>e. (e div R, e mod R)) E) (prop_rows S1) (pl_rows l) = Some (M', rl)"
      "row_chain R M' rl rs'" "pool_used (row_pool M') (U - (set rs - set rs'))" "set rs' \<subseteq> set rs"
      "mset (the_cells R M' rs' (rl_count rl)) = mset (live_cells S cs)"
      by (rule defragment_ok [OF I(7) _ u(2) _ xs st E False]) (use u(1,3) I(8) cleared_used [of S cs] n(1) in auto)
    let ?ds = "the_cells R M' rs' (rl_count rl)"
    note K = live_keys [OF inj sub d D(5)]
    obtain cm' where cm': "(case cm of NoMap \<Rightarrow> Some NoMap | HasMap m \<Rightarrow> do { m \<leftarrow> reindex R key M' rl m; Some (HasMap m) } | Deleted \<Rightarrow> None) = Some cm'"
      "case cm' of NoMap \<Rightarrow> True | HasMap m \<Rightarrow> indexes R rs' (keys_of key ?ds) m | Deleted \<Rightarrow> False"
    proof (cases "cell_map l")
      case (HasMap m)
      have "indexes R rs (keys_of key cs) m" using ok HasMap cs by (simp add: prop_list_ok_def Let_def)
      then have m: "m k \<noteq> None \<longleftrightarrow> k \<in> set (keys_of key cs)" for k
        by (rule indexes_dom)
      have "(m |` (- set (keys_of key (filter (empty_cell S) cs)))) k \<noteq> None \<longleftrightarrow> k \<in> set (keys_of key ?ds)" for k
        using m K(4) by (auto simp: restrict_map_def)
      then obtain m' where "reindex R key M' rl (m |` (- set (keys_of key (filter (empty_cell S) cs)))) = Some m'" "indexes R rs' (keys_of key ?ds) m'"
        using reindex_ok [OF D(2) refl K(3)] by blast
      then show ?thesis using that [of "HasMap m'"] I(6) HasMap by (simp add: erased_def)
    qed (use I(6) del that [of NoMap] in \<open>simp_all add: erased_def\<close>)
    have "PropertyRowList_SelfDefragment R key tid S l = Some (S1\<lparr>prop_rows := M'\<rparr>, \<lparr>pl_rows = rl, cell_map = cm'\<rparr>)"
      using Some loop I(2) False ptrs D(1) cm'(1) by (simp add: PropertyRowList_SelfDefragment_def)
    moreover have "prop_list_ok R key P M' \<lparr>pl_rows = rl, cell_map = cm'\<rparr> rs'"
      using D(2) inj K(1,2) cm'(2) by (simp add: prop_list_ok_def Let_def)
    ultimately show ?thesis
      using that [of "S1\<lparr>prop_rows := M'\<rparr>" "\<lparr>pl_rows = rl, cell_map = cm'\<rparr>" rs'] D I by auto
  qed
qed

lemma own_lists_mono:
  assumes "own_lists S cs" "\<And>p. prop_lists S p \<noteq> None \<Longrightarrow> prop_lists S' p \<noteq> None"
  shows "own_lists S' cs"
proof -
  have "\<exists>p ml. cell_list c = Some p \<and> prop_lists S' p = Some ml" if "c \<in> set cs" for c
    using assms that unfolding own_lists_def by (metis option.distinct(1) option.exhaust)
  then show ?thesis using assms(1) by (simp add: own_lists_def)
qed

lemma own_lists_snoc:
  "own_lists S cs \<Longrightarrow> cell_list x = Some p \<Longrightarrow> prop_lists S p = Some ml \<Longrightarrow> (\<And>c. c \<in> set cs \<Longrightarrow> cell_list c \<noteq> Some p) \<Longrightarrow> own_lists S (cs @ [x])"
  by (auto simp: own_lists_def)

lemma InsertInitialCell_store_ok:
  assumes ok: "prop_store_ok R key P S l" and t: "tid < nthreads (row_pool (prop_rows S))" and pid: "pid \<in> P"
    and new: "LocateCell R key pid (prop_rows S) l = Some None" and m: "cell_map l = NoMap"
    and i: "InsertInitialCell R tid pid v S l = Some (S', l')"
  shows "prop_store_ok R key P S' l'"
proof -
  obtain rs U where P: "prop_list_ok R key P (prop_rows S) l rs" and u: "pool_used (row_pool (prop_rows S)) U" "set rs \<subseteq> U"
    and own: "own_lists S (the_cells R (prop_rows S) rs (rl_count (pl_rows l)))" and fresh: "\<forall>p \<ge> fresh_list S. prop_lists S p = None"
    using ok by (auto simp: prop_store_ok_def)
  let ?cs = "the_cells R (prop_rows S) rs (rl_count (pl_rows l))" let ?p = "fresh_list S"
  let ?x = "\<lparr>cell_pid = pid, cell_list = Some ?p\<rparr>"
  obtain rs' U' where r: "prop_list_ok R key P (prop_rows S') l' rs'" "pool_used (row_pool (prop_rows S')) U'" "set rs' \<subseteq> U'"
    "rl_count (pl_rows l') = Suc (length ?cs)" "the_cells R (prop_rows S') rs' (Suc (length ?cs)) = ?cs @ [?x]"
    by (rule InsertInitialCell_ok [OF P u t pid refl new m i])
  obtain ml where S': "prop_lists S' = (prop_lists S)(?p \<mapsto> ml)" "fresh_list S' = ?p + 1"
    using i by (auto simp: InsertInitialCell_def Let_def bind_eq_Some_conv)
  have "own_lists S' (?cs @ [?x])"
  proof -
    have "cell_list c \<noteq> Some ?p" if "c \<in> set ?cs" for c using own fresh that unfolding own_lists_def by fastforce
    moreover have "own_lists S' ?cs" by (rule own_lists_mono [OF own]) (simp add: S'(1))
    ultimately show ?thesis using S'(1) by (intro own_lists_snoc [of _ _ _ ?p ml]) auto
  qed
  then show ?thesis using r S' fresh unfolding prop_store_ok_def by (intro exI [of _ rs'] exI [of _ U']) simp
qed

lemma prop_store_ok_list:
  assumes "prop_store_ok R key P S l" "prop_lists S p \<noteq> None"
  shows "prop_store_ok R key P (S\<lparr>prop_lists := (prop_lists S)(p \<mapsto> ml)\<rparr>) l"
proof -
  have "own_lists (S\<lparr>prop_lists := (prop_lists S)(p \<mapsto> ml)\<rparr>) cs" if "own_lists S cs" for cs
    by (rule own_lists_mono [OF that]) simp
  moreover have "p < fresh_list S" using assms by (auto simp: prop_store_ok_def intro: not_le_imp_less)
  ultimately show ?thesis using assms(1) unfolding prop_store_ok_def by auto
qed

lemma prop_store_ok_init:
  assumes "MemPool_Init B n threads rec = Some (row_pool (prop_rows S))" "2 \<le> B" "0 < threads" "0 < R" "inj_on key P"
    "prop_lists S = Map.empty"
  shows "prop_store_ok R key P S PropertyRowList_Init"
  using MemPool_Init_used [OF assms(1-3)] assms(4-6) unfolding prop_store_ok_def
  by (intro exI [of _ "[]"] exI [of _ "{}"])
    (simp add: prop_list_ok_def row_chain_def PropertyRowList_Init_def empty_rows_def the_cells_def own_lists_def)

lemma SelfDefragment_keeps:
  assumes "prop_store_ok R key P S l" "tid < nthreads (row_pool (prop_rows S))"
  shows "\<exists>S' l'. PropertyRowList_SelfDefragment R key tid S l = Some (S', l') \<and> prop_store_ok R key P S' l' \<and>
    prop_mvcc S' = prop_mvcc S \<and> (\<forall>p ml. prop_lists S' p = Some ml \<longrightarrow> prop_lists S p = Some ml) \<and>
    (\<forall>pid\<in>P. property_cell R key pid S' l' =
       map_option (\<lambda>r. Option.bind r (\<lambda>c. if empty_cell S c then None else Some c)) (property_cell R key pid S l)) \<and>
    (\<forall>pid\<in>P. \<forall>c p. property_cell R key pid S' l' = Some (Some c) \<longrightarrow> cell_list c = Some p \<longrightarrow> prop_lists S' p = prop_lists S p)"
proof -
  obtain rs U where P: "prop_list_ok R key P (prop_rows S) l rs" and u: "pool_used (row_pool (prop_rows S)) U" "set rs \<subseteq> U"
    and own: "own_lists S (the_cells R (prop_rows S) rs (rl_count (pl_rows l)))" and fresh: "\<forall>p \<ge> fresh_list S. prop_lists S p = None"
    using assms(1) by (auto simp: prop_store_ok_def)
  define cs where "cs = the_cells R (prop_rows S) rs (rl_count (pl_rows l))"
  obtain S' l' rs' where D: "PropertyRowList_SelfDefragment R key tid S l = Some (S', l')"
    "prop_list_ok R key P (prop_rows S') l' rs'" "pool_used (row_pool (prop_rows S')) (U - (set rs - set rs'))" "set rs' \<subseteq> set rs"
    "mset (the_cells R (prop_rows S') rs' (rl_count (pl_rows l'))) = mset (live_cells S cs)"
    "prop_lists S' = prop_lists S |` (- dead_lists S cs)" "prop_mvcc S' = prop_mvcc S" "fresh_list S' = fresh_list S"
    by (rule SelfDefragment_ok [OF P u assms(2) cs_def own [folded cs_def]])
  have d: "distinct (map cell_pid cs)" using P by (simp add: prop_list_ok_def Let_def cs_def)
  have own': "own_lists S' (the_cells R (prop_rows S') rs' (rl_count (pl_rows l')))"
    by (rule own_lists_live [OF own [folded cs_def] D(6,5)])
  have "set rs' \<subseteq> U - (set rs - set rs')" using D(4) u(2) by auto
  then have "prop_store_ok R key P S' l'"
    using own' D(2,3,6,8) fresh unfolding prop_store_ok_def by (intro exI [of _ rs'] exI [of _ "U - (set rs - set rs')"]) (auto simp: restrict_map_def)
  moreover have cell: "property_cell R key pid S' l' =
       map_option (\<lambda>r. Option.bind r (\<lambda>c. if empty_cell S c then None else Some c)) (property_cell R key pid S l)" if "pid \<in> P" for pid
    using find_filtered [OF d D(5) [unfolded live_cells_def], of pid] property_cell_find [OF P that] property_cell_find [OF D(2) that]
    by (simp add: cs_def if_not_P [symmetric] cong: if_cong) (metis (no_types, lifting))
  moreover have "prop_lists S' p = prop_lists S p"
    if h: "pid \<in> P" "property_cell R key pid S' l' = Some (Some c)" "cell_list c = Some p" for pid c p
  proof -
    have "c \<in> set (the_cells R (prop_rows S') rs' (rl_count (pl_rows l')))"
      using h property_cell_find [OF D(2) h(1)] by (auto simp: find_Some_iff)
    then obtain ml where "prop_lists S' p = Some ml" using own' h(3) unfolding own_lists_def by fastforce
    then show ?thesis using D(6) by (auto simp: restrict_map_def split: if_splits)
  qed
  moreover have "\<forall>p ml. prop_lists S' p = Some ml \<longrightarrow> prop_lists S p = Some ml" using D(6) by (auto simp: restrict_map_def)
  ultimately show ?thesis using D(1,7) by blast
qed


text \<open>Defragmentation gives back the rows it no longer needs, and those only.\<close>

lemma SelfDefragment_rows:
  assumes ok: "prop_store_ok R key P S l" and tid: "tid < nthreads (row_pool (prop_rows S))"
    and D: "PropertyRowList_SelfDefragment R key tid S l = Some (S', l')"
    and P: "prop_list_ok R key P (prop_rows S) l rs" and u: "pool_used (row_pool (prop_rows S)) U" "set rs \<subseteq> U"
  shows "\<exists>rs'. prop_list_ok R key P (prop_rows S') l' rs' \<and> set rs' \<subseteq> set rs \<and>
    pool_used (row_pool (prop_rows S')) (U - (set rs - set rs'))"
proof -
  obtain rs0 where P0: "prop_list_ok R key P (prop_rows S) l rs0"
    and own: "own_lists S (the_cells R (prop_rows S) rs0 (rl_count (pl_rows l)))" using ok by (auto simp: prop_store_ok_def)
  have "rs0 = rs" by (rule row_chain_unique [of R "prop_rows S" "pl_rows l"]) (use P P0 in \<open>simp_all add: prop_list_ok_def\<close>)
  with own show ?thesis using SelfDefragment_ok [OF P u tid refl, of thesis for thesis] D by force
qed

lemma count_of_properties:
  assumes "prop_list_ok R key P (prop_rows S) l rs"
  shows "rl_count (pl_rows l) = card {pid \<in> P. \<exists>c. property_cell R key pid S l = Some (Some c)}"
proof -
  let ?cs = "the_cells R (prop_rows S) rs (rl_count (pl_rows l))"
  have d: "distinct (map cell_pid ?cs)" "cell_pid ` set ?cs \<subseteq> P" using assms by (auto simp: prop_list_ok_def Let_def)
  have "(\<exists>c. property_cell R key pid S l = Some (Some c)) \<longleftrightarrow> pid \<in> cell_pid ` set ?cs" if "pid \<in> P" for pid
    using property_cell_find [OF assms that] find_eq_if_distinct [OF d(1), of pid] by auto
  then have "{pid \<in> P. \<exists>c. property_cell R key pid S l = Some (Some c)} = set (map cell_pid ?cs)" using d(2) by auto
  then show ?thesis using distinct_card [OF d(1)] by simp
qed

text \<open>
  C5. \<open>SelfDefragment\<close> on any well-formed list succeeds and leaves a well-formed list. The properties whose version list has
  become empty are gone; every other property is found again, with the same version list, although its cell may
  have moved. No version and no value is touched, and the lists of the remaining properties are as before. The list counts
  the properties that are left and keeps as many of its rows as they need; every other row of it is given back to the pool, and no other
  row is.
\<close>

theorem defragment_keeps_properties:
  assumes "prop_store_ok R key P S l" "tid < nthreads (row_pool (prop_rows S))"
  shows "\<exists>S' l'. PropertyRowList_SelfDefragment R key tid S l = Some (S', l') \<and> prop_store_ok R key P S' l' \<and>
    prop_mvcc S' = prop_mvcc S \<and>
    (\<forall>pid\<in>P. property_cell R key pid S' l' =
       map_option (\<lambda>r. Option.bind r (\<lambda>c. if empty_cell S c then None else Some c)) (property_cell R key pid S l)) \<and>
    (\<forall>pid\<in>P. \<forall>c p. property_cell R key pid S' l' = Some (Some c) \<longrightarrow> cell_list c = Some p \<longrightarrow> prop_lists S' p = prop_lists S p) \<and>
    rl_count (pl_rows l') = card {pid \<in> P. \<exists>c. property_cell R key pid S' l' = Some (Some c)} \<and>
    (\<forall>rs U. prop_list_ok R key P (prop_rows S) l rs \<and> pool_used (row_pool (prop_rows S)) U \<and> set rs \<subseteq> U \<longrightarrow>
       (\<exists>rs'. prop_list_ok R key P (prop_rows S') l' rs' \<and> set rs' \<subseteq> set rs \<and>
          rl_count (pl_rows l') \<le> length rs' * R \<and> length rs' * R < rl_count (pl_rows l') + R \<and>
          pool_used (row_pool (prop_rows S')) (U - (set rs - set rs'))))"
proof -
  obtain S' l' where D: "PropertyRowList_SelfDefragment R key tid S l = Some (S', l')" "prop_store_ok R key P S' l'"
    "prop_mvcc S' = prop_mvcc S"
    "\<forall>pid\<in>P. property_cell R key pid S' l' =
       map_option (\<lambda>r. Option.bind r (\<lambda>c. if empty_cell S c then None else Some c)) (property_cell R key pid S l)"
    "\<forall>pid\<in>P. \<forall>c p. property_cell R key pid S' l' = Some (Some c) \<longrightarrow> cell_list c = Some p \<longrightarrow> prop_lists S' p = prop_lists S p"
    using SelfDefragment_keeps [OF assms] by (elim exE conjE)
  have "\<exists>rs'. prop_list_ok R key P (prop_rows S') l' rs' \<and> set rs' \<subseteq> set rs \<and>
      rl_count (pl_rows l') \<le> length rs' * R \<and> length rs' * R < rl_count (pl_rows l') + R \<and>
      pool_used (row_pool (prop_rows S')) (U - (set rs - set rs'))"
    if "prop_list_ok R key P (prop_rows S) l rs \<and> pool_used (row_pool (prop_rows S)) U \<and> set rs \<subseteq> U" for rs U
    using SelfDefragment_rows [OF assms D(1), of rs U] that chain_covers [of R "prop_rows S'" "pl_rows l'"]
    by (auto simp: prop_list_ok_def)
  moreover have "rl_count (pl_rows l') = card {pid \<in> P. \<exists>c. property_cell R key pid S' l' = Some (Some c)}"
    using D(2) count_of_properties unfolding prop_store_ok_def by blast
  ultimately show ?thesis using D by (intro exI [of _ S'] exI [of _ l'] conjI) simp_all
qed

text \<open>Loading the properties \<open>pids\<close>, each with the type of its value as key.\<close>

fun load_all :: "nat \<Rightarrow> 12 word list \<Rightarrow> 12 word prop_store \<times> property_row_list \<Rightarrow> (12 word prop_store \<times> property_row_list) option" where
  "load_all R [] s = Some s"
| "load_all R (k # ks) (S, l) =
     do { r \<leftarrow> LocateCell R id k (prop_rows S) l;
          (case r of Some _ \<Rightarrow> None
           | None \<Rightarrow> do { s \<leftarrow> InsertInitialCell R 0 k \<lparr>v_type = 4, v_content = [ucast k]\<rparr> S l; load_all R ks s }) }"

lemma load_all_ok:
  assumes "load_all R ks (S, l) = Some (S', l')" "prop_store_ok R id UNIV S l" "cell_map l = NoMap" "0 < nthreads (row_pool (prop_rows S))"
  shows "prop_store_ok R id UNIV S' l' \<and> cell_map l' = NoMap \<and> 0 < nthreads (row_pool (prop_rows S'))"
  using assms
proof (induction R ks "(S, l)" arbitrary: S l rule: load_all.induct)
  case (2 R k ks S l)
  obtain r where r: "LocateCell R id k (prop_rows S) l = Some r" using 2(2) by (cases "LocateCell R id k (prop_rows S) l") auto
  have r0: "r = None" using 2(2) r by (cases r) auto
  obtain S1 l1 where i: "LocateCell R id k (prop_rows S) l = Some None" "InsertInitialCell R 0 k \<lparr>v_type = 4, v_content = [ucast k]\<rparr> S l = Some (S1, l1)"
    "load_all R ks (S1, l1) = Some (S', l')" using 2(2) r r0 by (auto simp: bind_eq_Some_conv)
  obtain rs U where o: "prop_list_ok R id UNIV (prop_rows S) l rs" "pool_used (row_pool (prop_rows S)) U" "set rs \<subseteq> U"
    using 2(3) by (auto simp: prop_store_ok_def)
  have "cell_map l1 = NoMap" "0 < nthreads (row_pool (prop_rows S1))"
    by (rule InsertInitialCell_ok [OF o 2(5) UNIV_I refl i(1) 2(4) i(2)], use 2(5) in simp)+
  then show ?case using 2(1) [OF i(1) refl i(2,3)] InsertInitialCell_store_ok [OF 2(3,5) _ i(1) 2(4) i(2)] by simp
qed simp


text \<open>Four properties in two rows; the second one has lost all its versions. Its place is taken by the last one.\<close>

theorem defragment_keeps_properties_witness:
  "\<exists>S l S' l'. load_all 3 [1, 2, 3, 4] (sample_store, PropertyRowList_Init) = Some (S, l) \<and>
     PropertyRowList_SelfDefragment 3 id 0 (S\<lparr>prop_lists := (prop_lists S)(1 \<mapsto> empty_list)\<rparr>) l = Some (S', l') \<and>
     property_cell 3 id 2 S' l' = Some None \<and> property_cell 3 id 4 S' l' = Some (Some \<lparr>cell_pid = 4, cell_list = Some 3\<rparr>) \<and>
     prop_lists S' 3 = prop_lists S 3 \<and> rl_count (pl_rows l') = card {pid. \<exists>c. property_cell 3 id pid S' l' = Some (Some c)}"
proof -
  let ?L = "load_all 3 [1, 2, 3, 4] (sample_store, PropertyRowList_Init)"
  let ?D = "\<lambda>S. S\<lparr>prop_lists := (prop_lists S)(1 \<mapsto> empty_list)\<rparr>"
  have e: "case ?L of None \<Rightarrow> False | Some (S, l) \<Rightarrow> prop_lists S 1 \<noteq> None \<and>
      property_cell 3 id 2 (?D S) l = Some (Some \<lparr>cell_pid = 2, cell_list = Some 1\<rparr>) \<and>
      property_cell 3 id 4 (?D S) l = Some (Some \<lparr>cell_pid = 4, cell_list = Some 3\<rparr>) \<and>
      \<not> empty_cell (?D S) \<lparr>cell_pid = 4, cell_list = Some 3\<rparr>" by code_simp
  then obtain S l where L: "?L = Some (S, l)" by (cases ?L) auto
  have "prop_store_ok 3 id UNIV sample_store PropertyRowList_Init"
    using prop_store_ok_init [OF sample_store_pool] by (simp add: sample_store_def blank_store_def)
  moreover have "0 < nthreads (row_pool (prop_rows sample_store))" "cell_map PropertyRowList_Init = NoMap" by code_simp+
  ultimately have S: "prop_store_ok 3 id UNIV S l" "0 < nthreads (row_pool (prop_rows S))" using load_all_ok [OF L] by auto
  have c: "prop_lists S 1 \<noteq> None" "property_cell 3 id 2 (?D S) l = Some (Some \<lparr>cell_pid = 2, cell_list = Some 1\<rparr>)"
    "property_cell 3 id 4 (?D S) l = Some (Some \<lparr>cell_pid = 4, cell_list = Some 3\<rparr>)"
    "\<not> empty_cell (?D S) \<lparr>cell_pid = 4, cell_list = Some 3\<rparr>" using e L by simp_all
  have e2: "empty_cell (?D S) \<lparr>cell_pid = 2, cell_list = Some 1\<rparr>" by (simp add: empty_cell_def empty_list_def)
  have ok: "prop_store_ok 3 id UNIV (?D S) l" using prop_store_ok_list [OF S(1) c(1)] by simp
  have "0 < nthreads (row_pool (prop_rows (?D S)))" using S(2) by simp
  from defragment_keeps_properties [OF ok this] obtain S' l' where D: "PropertyRowList_SelfDefragment 3 id 0 (?D S) l = Some (S', l')"
    "\<And>pid. property_cell 3 id pid S' l' = map_option (\<lambda>r. Option.bind r (\<lambda>c. if empty_cell (?D S) c then None else Some c)) (property_cell 3 id pid (?D S) l)"
    "\<And>pid c p. property_cell 3 id pid S' l' = Some (Some c) \<Longrightarrow> cell_list c = Some p \<Longrightarrow> prop_lists S' p = prop_lists (?D S) p"
    "rl_count (pl_rows l') = card {pid. \<exists>c. property_cell 3 id pid S' l' = Some (Some c)}" by (elim exE conjE) simp
  have "property_cell 3 id 4 S' l' = Some (Some \<lparr>cell_pid = 4, cell_list = Some 3\<rparr>)" using D(2) [of 4] c(3,4) by simp
  moreover from this have "prop_lists S' 3 = prop_lists S 3" using D(3) [of 4] by simp
  moreover have "property_cell 3 id 2 S' l' = Some None" using D(2) [of 2] c(2) e2 by simp
  ultimately show ?thesis using L D(1,4) by blast
qed

lemma row_loop_keeps:
  assumes "row_loop R M f i k row s = Some (Continue s')" "I s" "\<And>i a c s s'. I s \<Longrightarrow> f i a c s = Some (Continue s') \<Longrightarrow> I s'"
  shows "I s'"
  using assms(1,2)
proof (induction k arbitrary: i row s)
  case (Suc k)
  obtain b a r where "f i a (i mod R) s = Some r" "(case r of Continue s1 \<Rightarrow> row_loop R M f (Suc i) k (Some a) s1 | Stop x \<Rightarrow> Some (Stop x)) = Some (Continue s')"
    using Suc.prems(1) by (auto simp: bind_eq_Some_conv)
  then show ?case using Suc.IH Suc.prems(2) assms(3) by (cases r) auto
qed simp

lemma collect_body_keeps_map:
  assumes "snd (snd (snd s)) \<noteq> NoMap" "collect_body R key tid i a c s = Some (Continue s')"
  shows "snd (snd (snd s')) \<noteq> NoMap"
  using assms by (cases s; cases "snd (snd (snd s))") (auto simp: collect_body_def Let_def bind_eq_Some_conv split: if_splits)

lemma SelfDefragment_keeps_map:
  assumes D: "PropertyRowList_SelfDefragment R key tid S l = Some (S', l')" and m: "cell_map l \<noteq> NoMap"
  shows "cell_map l' \<noteq> NoMap"
proof (cases "rl_head (pl_rows l)")
  case (Some h)
  let ?L = "row_loop R (prop_rows S) (collect_body R key tid) 0 (rl_count (pl_rows l)) (Some h) ([h], [], S, cell_map l)"
  obtain r where r: "?L = Some r" using D Some by (cases ?L) (simp_all add: PropertyRowList_SelfDefragment_def)
  obtain ptrs queue S1 cm where L: "?L = Some (Continue (ptrs, queue, S1, cm))"
  proof (cases r)
    case (Continue s)
    then show ?thesis using that r by (cases s) auto
  qed (use D Some r in \<open>simp add: PropertyRowList_SelfDefragment_def\<close>)
  have E: "cell_map l' = cm \<or> (\<exists>M rl. (case cm of NoMap \<Rightarrow> Some NoMap | HasMap m \<Rightarrow> do { m \<leftarrow> reindex R key M rl m; Some (HasMap m) } | Deleted \<Rightarrow> None) = Some (cell_map l'))"
    using D Some L by (cases "queue = []") (auto simp: PropertyRowList_SelfDefragment_def bind_eq_Some_conv)
  have "cm \<noteq> NoMap"
    using row_loop_keeps [where I = "\<lambda>s. snd (snd (snd s)) \<noteq> NoMap", OF L _ collect_body_keeps_map] m by simp
  then show ?thesis using E m by (cases cm) (auto simp: bind_eq_Some_conv)
qed (use D m in \<open>simp add: PropertyRowList_SelfDefragment_def\<close>)

text \<open>
  C39. A list that has a map, and that a defragmentation has left with fewer cells than a row holds: \<open>AllocateCell\<close>
  puts the next new property into a cell but not into the map (the map is only kept up while the number of cells has
  reached \<open>MAP_THRESHOLD\<close>), and from then on \<open>LocateCell\<close>, which asks the map, does not find it.
\<close>

theorem property_lost_after_defragment:
  assumes "PropertyRowList_SelfDefragment R key tid S l = Some (S', l')" "cell_map l \<noteq> NoMap"
    "rl_count (pl_rows l') < R" "LocateCell R key pid (prop_rows S') l' = Some None"
    and A: "AllocateCell R key tid pid (rl_count (pl_rows l')) (rl_tail (pl_rows l')) (prop_rows S') l' = Some (Some ac, M, l'')"
  shows "cell_pid (cell_at M (fst ac) (snd ac)) = pid \<and> LocateCell R key pid M l'' = Some None"
proof -
  have "cell_map l' \<noteq> NoMap" by (rule SelfDefragment_keeps_map [OF assms(1,2)])
  moreover have "cell_map l' \<noteq> Deleted"
    using assms(4) by (auto simp: LocateCell_def LocateCell_find_def LocateCell_snapshot_def)
  ultimately obtain m where m: "cell_map l' = HasMap m" by (cases "cell_map l'") auto
  then have "m (key pid) = None" using assms(4) by (simp add: LocateCell_def LocateCell_find_def LocateCell_snapshot_def)
  moreover obtain a c M1 rl where N: "next_place R tid (prop_rows S') (pl_rows l') = Some (a, c, M1, rl)"
    and r: "ac = (a, c)" "M = upd_cell a c \<lparr>cell_pid = pid, cell_list = None\<rparr> M1" "cell_map l'' = cell_map l'"
    using A assms(3) by (auto simp: AllocateCell_def append_cell_def Let_def bind_eq_Some_conv split: if_splits)
  ultimately show ?thesis
    using m by (simp add: LocateCell_def LocateCell_find_def LocateCell_snapshot_def cell_at_upd)
qed


declare gc_loop.simps [code]

text \<open>The third property brings the map; two properties are collected; the next one, 9, is lost.\<close>

definition grown_store :: "(12 word prop_store \<times> property_row_list) option" where
  "grown_store =
     do { (S, l) \<leftarrow> load_all 2 [1, 2] (sample_store, PropertyRowList_Init);
          (_, _, S, l) \<leftarrow> ProcessModifyProperty 2 id 0 3 \<lparr>v_type = 4, v_content = [7]\<rparr> 0x8000000000000100 5 S l \<lparr>v_type = 0, v_content = []\<rparr>;
          Some (S\<lparr>prop_lists := (prop_lists S)(0 \<mapsto> empty_list, 1 \<mapsto> empty_list)\<rparr>, l) }"

theorem property_lost_after_defragment_witness:
  "\<exists>S l S' l' a c M l''. grown_store = Some (S, l) \<and> PropertyRowList_SelfDefragment 2 id 0 S l = Some (S', l') \<and>
     AllocateCell 2 id 0 9 (rl_count (pl_rows l')) (rl_tail (pl_rows l')) (prop_rows S') l' = Some (Some (a, c), M, l'') \<and>
     cell_pid (cell_at M a c) = 9 \<and> LocateCell 2 id 9 M l'' = Some None"
proof -
  let ?G = grown_store let ?D = "\<lambda>S l. PropertyRowList_SelfDefragment 2 id 0 S l"
  let ?A = "\<lambda>S l. AllocateCell 2 id 0 9 (rl_count (pl_rows l)) (rl_tail (pl_rows l)) (prop_rows S) l"
  have g: "case ?G of None \<Rightarrow> False | Some (S, l) \<Rightarrow> (case cell_map l of HasMap _ \<Rightarrow> True | _ \<Rightarrow> False) \<and>
      (case ?D S l of None \<Rightarrow> False | Some (S', l') \<Rightarrow> rl_count (pl_rows l') < 2 \<and> LocateCell 2 id 9 (prop_rows S') l' = Some None \<and>
         (case ?A S' l' of None \<Rightarrow> False | Some (ret, _) \<Rightarrow> ret \<noteq> None))" by code_simp
  obtain S l where G: "?G = Some (S, l)" using g by (cases ?G) auto
  note g1 = g [unfolded G option.case prod.case]
  obtain S' l' where D: "?D S l = Some (S', l')" using g1 by (cases "?D S l") auto
  note g2 = g1 [unfolded D option.case prod.case]
  obtain ret M l'' where A: "?A S' l' = Some (ret, M, l'')" using g2 by (cases "?A S' l'") auto
  obtain ac where r: "ret = Some ac" using g2 [unfolded A option.case prod.case] by auto
  have h: "cell_map l \<noteq> NoMap" "rl_count (pl_rows l') < 2" "LocateCell 2 id 9 (prop_rows S') l' = Some None"
    using g2 by (auto split: map_ptr.splits)
  from property_lost_after_defragment [OF D h A [unfolded r]] show ?thesis
    using G D A r by (intro exI [of _ S] exI [of _ l] exI [of _ S'] exI [of _ l'] exI [of _ "fst ac"] exI [of _ "snd ac"] exI [of _ M] exI [of _ l'']) simp
qed

end
