(* ===== verification/Topology_Rows.thy ===== *)
theory Topology_Rows
  imports Property_Defrag Parser_Base
begin

text \<open>
  The edges of a vertex (\<open>TopologyRowList\<close>, src/layout/topology_row_list.cpp): cells in rows, like the properties, but
  without a map. A cell names the other vertex and points to the version list of the edge. The versions are
  \<open>EdgeVersion\<close>s (src/layout/mvcc_definition.hpp); a version of an outgoing edge owns the list of the properties of the
  edge, so that collecting it (\<open>EdgeMVCCItem::ValueGC\<close>) collects a property list as well. Such a collection can meet
  undefined behaviour, and the state behind the version lists is \<open>None\<close> from then on.
\<close>

section \<open>State\<close>

type_synonym label_t = "16 word"

record EdgeVersion =
  ev_label :: label_t
  ep_row_list :: "nat option"

definition EdgeVersion_Exist :: "EdgeVersion \<Rightarrow> bool" where
  "EdgeVersion_Exist v = (ev_label v \<noteq> 0)"

text \<open>The property lists of edges, by address, and the memory they share.\<close>

record edge_props =
  ep_mem :: "epid_t prop_store"
  ep_lists :: "nat \<Rightarrow> property_row_list option"
  fresh_ep :: nat

type_synonym edge_mem = "(EdgeVersion, edge_props option) mvcc_mem"

record EdgeHeader =
  is_out :: bool
  conn_vtx_id :: vid_t
  edge_list :: nat

text \<open>A flag, a vertex id of four bytes, and a pointer.\<close>

definition VE_ROW_CELL_COUNT :: nat where
  "VE_ROW_CELL_COUNT = InferElementCount 16 128 8"

record topology_row_list =
  tl_rows :: row_list
  my_vid :: vid_t

record topo_store =
  topo_rows :: "EdgeHeader row_mem"
  edge_lists :: "nat \<Rightarrow> mvcc_list option"
  fresh_edge :: nat
  edge_mvcc :: edge_mem

definition TopologyRowList_Init :: "vid_t \<Rightarrow> topology_row_list" where
  "TopologyRowList_Init v = \<lparr>tl_rows = empty_rows, my_vid = v\<rparr>"

definition cell_eid :: "vid_t \<Rightarrow> EdgeHeader \<Rightarrow> eid_t" where
  "cell_eid me c =
     (if is_out c then \<lparr>dst_v = conn_vtx_id c, src_v = me\<rparr> else \<lparr>dst_v = me, src_v = conn_vtx_id c\<rparr>)"

section \<open>The values of edge versions\<close>

definition Edge_NeedGC :: "EdgeVersion \<Rightarrow> bool" where
  "Edge_NeedGC v = (ep_row_list v \<noteq> None)"

definition collect_ep :: "nat \<Rightarrow> nat \<Rightarrow> edge_props \<Rightarrow> edge_props option" where
  "collect_ep tid q E =
     do { pl \<leftarrow> ep_lists E q;
          (S, pl) \<leftarrow> PropertyRowList_SelfGarbageCollect EP_ROW_CELL_COUNT tid (ep_mem E) pl;
          Some (E\<lparr>ep_mem := S, ep_lists := (ep_lists E)(q \<mapsto> pl)\<rparr>) }"

text \<open>
  \<open>ValueGC\<close> also sets the pointer in the item to \<open>nullptr\<close>; the item is freed or overwritten right after it.
\<close>

definition Edge_ValueGC :: "nat \<Rightarrow> EdgeVersion \<Rightarrow> edge_props option \<Rightarrow> edge_props option" where
  "Edge_ValueGC tid v s =
     do { E \<leftarrow> s;
          (case ep_row_list v of
             None \<Rightarrow> Some E
           | Some q \<Rightarrow> do { E \<leftarrow> collect_ep tid q E; Some (E\<lparr>ep_lists := (ep_lists E)(q := None)\<rparr>) }) }"

definition new_ep_list :: "edge_props \<Rightarrow> nat \<times> edge_props" where
  "new_ep_list E =
     (fresh_ep E, E\<lparr>ep_lists := (ep_lists E)(fresh_ep E \<mapsto> PropertyRowList_Init), fresh_ep := fresh_ep E + 1\<rparr>)"

section \<open>New edges\<close>

definition Topology_AllocateCell :: "nat \<Rightarrow> bool \<Rightarrow> vid_t \<Rightarrow> nat \<Rightarrow> topo_store \<Rightarrow> topology_row_list \<Rightarrow>
    (topo_store \<times> topology_row_list) option" where
  "Topology_AllocateCell tid out v p S l =
     do { (_, _, M, rl) \<leftarrow> append_cell VE_ROW_CELL_COUNT tid \<lparr>is_out = out, conn_vtx_id = v, edge_list = p\<rparr> (topo_rows S) (tl_rows l);
          Some (S\<lparr>topo_rows := M\<rparr>, l\<lparr>tl_rows := rl\<rparr>) }"

definition Topology_InsertInitialCell :: "nat \<Rightarrow> bool \<Rightarrow> vid_t \<Rightarrow> label_t \<Rightarrow> nat option \<Rightarrow> topo_store \<Rightarrow> topology_row_list \<Rightarrow>
    (nat \<times> topo_store \<times> topology_row_list) option" where
  "Topology_InsertInitialCell tid out v label ep S l =
     do { (b, m, ml) \<leftarrow> AppendInitialVersion tid (edge_mvcc S) empty_list;
          let p = fresh_edge S;
          let S = S\<lparr>edge_mvcc := write_val b \<lparr>ev_label = label, ep_row_list = ep\<rparr> m,
                    edge_lists := (edge_lists S)(p \<mapsto> ml), fresh_edge := p + 1\<rparr>;
          (S, l) \<leftarrow> Topology_AllocateCell tid out v p S l;
          Some (p, S, l) }"

definition ProcessAddEdge :: "nat \<Rightarrow> bool \<Rightarrow> vid_t \<Rightarrow> label_t \<Rightarrow> nat option \<Rightarrow> u64 \<Rightarrow> u64 \<Rightarrow> topo_store \<Rightarrow> topology_row_list \<Rightarrow>
    (nat \<times> topo_store \<times> topology_row_list) option" where
  "ProcessAddEdge tid out v label ep trx_id bt S l =
     do { r \<leftarrow> AppendVersion Edge_NeedGC (Edge_ValueGC tid) tid trx_id bt (edge_mvcc S) empty_list;
          b \<leftarrow> app_item r;
          let p = fresh_edge S;
          let S = S\<lparr>edge_mvcc := write_val b \<lparr>ev_label = label, ep_row_list = ep\<rparr> (app_mem r),
                    edge_lists := (edge_lists S)(p \<mapsto> app_list r), fresh_edge := p + 1\<rparr>;
          (S, l) \<leftarrow> Topology_AllocateCell tid out v p S l;
          Some (p, S, l) }"

section \<open>Reading\<close>

definition visible_edge :: "read_context \<Rightarrow> topo_store \<Rightarrow> nat \<Rightarrow> dep_trx_map \<Rightarrow> (EdgeVersion read_result \<times> dep_trx_map) option" where
  "visible_edge x S p deps =
     do { ml \<leftarrow> edge_lists S p;
          GetVisibleVersion (rc_level x) (rc_preread x) (rc_status x) (rc_trx x) (rc_begin x) (rc_read_only x)
            (items (edge_mvcc S)) ml deps }"

definition direction_fits :: "Direction_T \<Rightarrow> EdgeHeader \<Rightarrow> bool" where
  "direction_fits dir c \<longleftrightarrow> dir = D_BOTH \<or> is_out c = (dir = D_OUT)"

definition label_fits :: "label_t \<Rightarrow> EdgeVersion \<Rightarrow> bool" where
  "label_fits label v \<longleftrightarrow> EdgeVersion_Exist v \<and> (label = 0 \<or> label = ev_label v)"

text \<open>The body of the two reading loops; \<open>emit\<close> gives what a cell contributes.\<close>

definition edge_cell_body :: "read_context \<Rightarrow> topo_store \<Rightarrow> Direction_T \<Rightarrow> label_t \<Rightarrow> (EdgeHeader \<Rightarrow> 'r) \<Rightarrow> EdgeHeader \<Rightarrow>
    'r list \<times> dep_trx_map \<Rightarrow> ('r list \<times> dep_trx_map, READ_STAT \<times> 'r list \<times> dep_trx_map) loop option" where
  "edge_cell_body x S dir label emit c s =
     (case s of (ret, deps) \<Rightarrow>
        if direction_fits dir c
        then do { (r, deps) \<leftarrow> visible_edge x S (edge_list c) deps;
                  Some (case r of
                          ReadAbort \<Rightarrow> Stop (ABORT, ret, deps)
                        | NoVersion \<Rightarrow> Continue (ret, deps)
                        | Visible v \<Rightarrow> Continue (if label_fits label v then ret @ [emit c] else ret, deps)) }
        else Some (Continue (ret, deps)))"

definition read_edges :: "(topology_row_list \<Rightarrow> EdgeHeader \<Rightarrow> 'r) \<Rightarrow> read_context \<Rightarrow> Direction_T \<Rightarrow> label_t \<Rightarrow> topo_store \<Rightarrow>
    topology_row_list \<Rightarrow> dep_trx_map \<Rightarrow> (READ_STAT \<times> 'r list \<times> dep_trx_map) option" where
  "read_edges emit x dir label S l deps =
     (case rl_head (tl_rows l) of
        None \<Rightarrow> Some (SUCCESS, [], deps)
      | Some h \<Rightarrow>
          do { r \<leftarrow> row_loop VE_ROW_CELL_COUNT (topo_rows S)
                      (\<lambda>_ a c. edge_cell_body x S dir label (emit l) (cell_at (topo_rows S) a c))
                      0 (rl_count (tl_rows l)) (Some h) ([], deps);
               Some (finish_read SUCCESS r) })"

definition ReadConnectedVertex :: "read_context \<Rightarrow> Direction_T \<Rightarrow> label_t \<Rightarrow> topo_store \<Rightarrow> topology_row_list \<Rightarrow> dep_trx_map \<Rightarrow>
    (READ_STAT \<times> vid_t list \<times> dep_trx_map) option" where
  "ReadConnectedVertex = read_edges (\<lambda>_. conn_vtx_id)"

definition ReadConnectedEdge :: "read_context \<Rightarrow> Direction_T \<Rightarrow> label_t \<Rightarrow> topo_store \<Rightarrow> topology_row_list \<Rightarrow> dep_trx_map \<Rightarrow>
    (READ_STAT \<times> eid_t list \<times> dep_trx_map) option" where
  "ReadConnectedEdge = read_edges (\<lambda>l. cell_eid (my_vid l))"

section \<open>Garbage collection\<close>

text \<open>The loop of \<open>SelfGarbageCollect\<close> over the versions of an edge: it empties their property lists.\<close>

partial_function (option) collect_eps :: "nat \<Rightarrow> nat option \<Rightarrow> edge_mem \<Rightarrow> edge_mem option" where
  "collect_eps tid itr m =
     (case itr of
        None \<Rightarrow> Some m
      | Some a \<Rightarrow>
          (case ep_row_list (val (items m a)) of
             None \<Rightarrow> collect_eps tid (next_item (items m a)) m
           | Some q \<Rightarrow>
               do { E \<leftarrow> val_store m; E \<leftarrow> collect_ep tid q E;
                    collect_eps tid (next_item (items m a)) (m\<lparr>val_store := Some E\<rparr>) }))"

declare collect_eps.simps [code]

definition collect_edge :: "nat \<Rightarrow> nat \<Rightarrow> topo_store \<Rightarrow> topo_store option" where
  "collect_edge tid p S =
     do { ml \<leftarrow> edge_lists S p;
          m \<leftarrow> collect_eps tid (head ml) (edge_mvcc S);
          (m, ml) \<leftarrow> SelfGarbageCollect Edge_NeedGC (Edge_ValueGC tid) tid m ml;
          CHECK (val_store m \<noteq> None);
          Some (S\<lparr>edge_mvcc := m, edge_lists := (edge_lists S)(p \<mapsto> ml)\<rparr>) }"

text \<open>
  The ids of the edges, with their direction, are added to the vector \<open>gcable_eids\<close>. The version lists are emptied
  but not deleted: the edge maps still refer to them.
\<close>

definition TopologyRowList_SelfGarbageCollect :: "nat \<Rightarrow> (eid_t \<times> bool) list \<Rightarrow> topo_store \<Rightarrow> topology_row_list \<Rightarrow>
    ((eid_t \<times> bool) list \<times> topo_store \<times> topology_row_list) option" where
  "TopologyRowList_SelfGarbageCollect tid eids S l =
     (case rl_head (tl_rows l) of
        None \<Rightarrow> Some (eids, S, l)
      | Some h \<Rightarrow>
          do { let n = rl_count (tl_rows l);
               r \<leftarrow> row_loop VE_ROW_CELL_COUNT (topo_rows S)
                      (\<lambda>i a c (ptrs, eids, S).
                         do { let x = cell_at (topo_rows S) a c;
                              S \<leftarrow> collect_edge tid (edge_list x) S;
                              Some (Continue (next_ptrs i a c ptrs, eids @ [(cell_eid (my_vid l) x, is_out x)], S)) })
                      0 n (Some h) ([h], eids, S);
               (case r of
                  Stop (_ :: unit) \<Rightarrow> None
                | Continue (ptrs, eids, S) \<Rightarrow>
                    do { p \<leftarrow> free_rows tid ptrs (rows_for VE_ROW_CELL_COUNT n) (row_pool (topo_rows S));
                         Some (eids, S\<lparr>topo_rows := (topo_rows S)\<lparr>row_pool := p\<rparr>\<rparr>,
                               l\<lparr>tl_rows := (tl_rows l)\<lparr>rl_head := None, rl_tail := None\<rparr>\<rparr>) }) })"

text \<open>The cells whose version list is empty.\<close>

definition edge_cell_empty :: "topo_store \<Rightarrow> EdgeHeader \<Rightarrow> bool option" where
  "edge_cell_empty S c = do { ml \<leftarrow> edge_lists S (edge_list c); Some (head ml = None) }"

definition gather_body :: "topo_store \<Rightarrow> vid_t \<Rightarrow> nat \<Rightarrow> nat \<Rightarrow> nat \<Rightarrow> nat list \<times> (nat \<times> nat) list \<times> (eid_t \<times> bool) list \<Rightarrow>
    (nat list \<times> (nat \<times> nat) list \<times> (eid_t \<times> bool) list, unit) loop option" where
  "gather_body S me i a c s =
     (case s of (ptrs, queue, eids) \<Rightarrow>
        do { let x = cell_at (topo_rows S) a c;
             e \<leftarrow> edge_cell_empty S x;
             Some (Continue (next_ptrs i a c ptrs,
                     if e then queue @ [(i div VE_ROW_CELL_COUNT, c)] else queue,
                     if e then eids @ [(cell_eid me x, is_out x)] else eids)) })"

definition TopologyRowList_SelfDefragment :: "nat \<Rightarrow> (eid_t \<times> bool) list \<Rightarrow> topo_store \<Rightarrow> topology_row_list \<Rightarrow>
    ((eid_t \<times> bool) list \<times> topo_store \<times> topology_row_list) option" where
  "TopologyRowList_SelfDefragment tid eids S l =
     (case rl_head (tl_rows l) of
        None \<Rightarrow> Some (eids, S, l)
      | Some h \<Rightarrow>
          do { r \<leftarrow> row_loop VE_ROW_CELL_COUNT (topo_rows S) (gather_body S (my_vid l)) 0 (rl_count (tl_rows l)) (Some h) ([h], [], eids);
               (case r of
                  Stop _ \<Rightarrow> None
                | Continue (ptrs, queue, eids) \<Rightarrow>
                    if queue = [] then Some (eids, S, l)
                    else do { (M, rl) \<leftarrow> defragment VE_ROW_CELL_COUNT tid (edge_cell_empty S) ptrs queue (topo_rows S) (tl_rows l);
                              Some (eids, S\<lparr>topo_rows := M\<rparr>, l\<lparr>tl_rows := rl\<rparr>) }) })"

end
