(* ===== verification/Property_Lists.thy ===== *)
theory Property_Lists
  imports Property_Defrag MVCC_Run
begin

text \<open>
  The version lists of many properties over one item pool and one value store (src/layout/mvcc_list.hpp,
  src/layout/mvcc_value_store.cpp): every list stands for its committed values and at most one pending value, and an
  operation on one list keeps what the others stand for.
\<close>

section \<open>Version lists over the value store\<close>

type_synonym header_list = "nat list \<times> ValueHeader versions \<times> ValueHeader pending"

definition pending_headers :: "ValueHeader pending \<Rightarrow> ValueHeader list" where
  "pending_headers u = (case u of None \<Rightarrow> [] | Some (_, _, h) \<Rightarrow> [h])"

text \<open>The headers of a list that refer to values. The pending one does not count while it is being written (\<open>dirty\<close>).\<close>

definition live_headers :: "bool \<Rightarrow> header_list \<Rightarrow> ValueHeader list" where
  "live_headers dirty x = (case x of (as, vs, u) \<Rightarrow>
     filter (\<lambda>h. \<not> IsEmpty h) (map snd vs @ (if dirty then [] else pending_headers u)))"

definition lists_ok :: "(ValueHeader, value_store) mvcc_mem \<Rightarrow> (nat \<Rightarrow> mvcc_list option) \<Rightarrow> (ValueHeader \<rightharpoonup> value_t) \<Rightarrow>
    (nat \<Rightarrow> header_list) \<Rightarrow> nat option \<Rightarrow> bool" where
  "lists_ok m L V A D \<longleftrightarrow>
     (\<exists>U. pool_used (item_pool m) U \<and> store_abs (val_store m) V \<and>
        (\<forall>p ml. L p = Some ml \<longrightarrow>
           (case A p of (as, vs, u) \<Rightarrow> set as \<subseteq> U \<and> list_rep (items m) ml as vs u) \<and>
           set (live_headers (D = Some p) (A p)) \<subseteq> dom V \<and> distinct (live_headers (D = Some p) (A p))) \<and>
        (\<forall>p q. p \<noteq> q \<longrightarrow> L p \<noteq> None \<longrightarrow> L q \<noteq> None \<longrightarrow> set (fst (A p)) \<inter> set (fst (A q)) = {} \<and>
           set (live_headers (D = Some p) (A p)) \<inter> set (live_headers (D = Some q) (A q)) = {}))"

lemma lists_ok_dest:
  assumes "lists_ok m L V A D" "L p = Some ml" "A p = (as, vs, u)"
  obtains U where "mvcc_inv m U ml as vs u" "store_abs (val_store m) V"
    "set (live_headers (D = Some p) (as, vs, u)) \<subseteq> dom V" "distinct (live_headers (D = Some p) (as, vs, u))"
    "\<forall>q ml' bs ws w. q \<noteq> p \<longrightarrow> L q = Some ml' \<longrightarrow> A q = (bs, ws, w) \<longrightarrow>
       list_rep (items m) ml' bs ws w \<and> set bs \<subseteq> U - set as \<and>
       set (live_headers (D = Some q) (bs, ws, w)) \<subseteq> dom V \<and> distinct (live_headers (D = Some q) (bs, ws, w)) \<and>
       set (live_headers (D = Some q) (bs, ws, w)) \<inter> set (live_headers (D = Some p) (as, vs, u)) = {}"
    "pool_used (item_pool m) U"
proof -
  obtain U where U: "pool_used (item_pool m) U" "store_abs (val_store m) V"
    and I: "\<And>p ml. L p = Some ml \<Longrightarrow> (case A p of (as, vs, u) \<Rightarrow> set as \<subseteq> U \<and> list_rep (items m) ml as vs u) \<and>
           set (live_headers (D = Some p) (A p)) \<subseteq> dom V \<and> distinct (live_headers (D = Some p) (A p))"
    and J: "\<And>p q. p \<noteq> q \<Longrightarrow> L p \<noteq> None \<Longrightarrow> L q \<noteq> None \<Longrightarrow> set (fst (A p)) \<inter> set (fst (A q)) = {} \<and>
           set (live_headers (D = Some p) (A p)) \<inter> set (live_headers (D = Some q) (A q)) = {}"
    using assms(1) unfolding lists_ok_def by blast
  have p: "set as \<subseteq> U" "list_rep (items m) ml as vs u" "set (live_headers (D = Some p) (as, vs, u)) \<subseteq> dom V"
    "distinct (live_headers (D = Some p) (as, vs, u))" using I [OF assms(2)] assms(3) by simp_all
  have q: "list_rep (items m) ml' bs ws w \<and> set bs \<subseteq> U - set as \<and>
       set (live_headers (D = Some q) (bs, ws, w)) \<subseteq> dom V \<and> distinct (live_headers (D = Some q) (bs, ws, w)) \<and>
       set (live_headers (D = Some q) (bs, ws, w)) \<inter> set (live_headers (D = Some p) (as, vs, u)) = {}"
    if "q \<noteq> p" "L q = Some ml'" "A q = (bs, ws, w)" for q ml' bs ws w
    using I [OF that(2)] J [OF that(1)] that assms(2,3) by auto
  show ?thesis by (rule that [OF _ U(2) p(3,4) _ U(1)]) (use p U q in \<open>auto simp: mvcc_inv_def\<close>)
qed

lemma lists_okI:
  assumes inv: "mvcc_inv m U ml as vs u" and st: "store_abs (val_store m) V"
    and h: "set (live_headers (D = Some p) (as, vs, u)) \<subseteq> dom V" "distinct (live_headers (D = Some p) (as, vs, u))"
    and q: "\<And>q ml' bs ws w. q \<noteq> p \<Longrightarrow> L q = Some ml' \<Longrightarrow> A q = (bs, ws, w) \<Longrightarrow>
       list_rep (items m) ml' bs ws w \<and> set bs \<subseteq> U - set as \<and>
       set (live_headers (D = Some q) (bs, ws, w)) \<subseteq> dom V \<and> distinct (live_headers (D = Some q) (bs, ws, w)) \<and>
       set (live_headers (D = Some q) (bs, ws, w)) \<inter> set (live_headers (D = Some p) (as, vs, u)) = {}"
    and qr: "\<And>q r. q \<noteq> p \<Longrightarrow> r \<noteq> p \<Longrightarrow> q \<noteq> r \<Longrightarrow> L q \<noteq> None \<Longrightarrow> L r \<noteq> None \<Longrightarrow> set (fst (A q)) \<inter> set (fst (A r)) = {} \<and>
           set (live_headers (D = Some q) (A q)) \<inter> set (live_headers (D = Some r) (A r)) = {}"
  shows "lists_ok m (L(p \<mapsto> ml)) V (A(p := (as, vs, u))) D"
proof -
  have q': "list_rep (items m) ml' (fst (A q)) (fst (snd (A q))) (snd (snd (A q))) \<and> set (fst (A q)) \<subseteq> U - set as \<and>
      set (live_headers (D = Some q) (A q)) \<subseteq> dom V \<and> distinct (live_headers (D = Some q) (A q)) \<and>
      set (live_headers (D = Some q) (A q)) \<inter> set (live_headers (D = Some p) (as, vs, u)) = {}"
    if "q \<noteq> p" "L q = Some ml'" for q ml' using q [OF that, of "fst (A q)" "fst (snd (A q))" "snd (snd (A q))"] by simp
  show ?thesis unfolding lists_ok_def
  proof (intro exI conjI allI impI)
    show "pool_used (item_pool m) U" "store_abs (val_store m) V" using inv st by (simp_all add: mvcc_inv_def)
  next
    fix q ml' assume L: "(L(p \<mapsto> ml)) q = Some ml'"
    show "case (A(p := (as, vs, u))) q of (as, vs, u) \<Rightarrow> set as \<subseteq> U \<and> list_rep (items m) ml' as vs u"
      using L inv q' [of q ml'] by (cases "q = p") (auto simp: mvcc_inv_def split: prod.splits)
    show "set (live_headers (D = Some q) ((A(p := (as, vs, u))) q)) \<subseteq> dom V" "distinct (live_headers (D = Some q) ((A(p := (as, vs, u))) q))"
      using L h q' [of q ml'] by (cases "q = p"; simp)+
  next
    fix q r assume "q \<noteq> r" "(L(p \<mapsto> ml)) q \<noteq> None" "(L(p \<mapsto> ml)) r \<noteq> None"
    then show "set (fst ((A(p := (as, vs, u))) q)) \<inter> set (fst ((A(p := (as, vs, u))) r)) = {}"
      "set (live_headers (D = Some q) ((A(p := (as, vs, u))) q)) \<inter> set (live_headers (D = Some r) ((A(p := (as, vs, u))) r)) = {}"
      using q' qr by (cases "q = p"; cases "r = p"; fastforce)+
  qed
qed

lemma lists_ok_apart:
  assumes "lists_ok m L V A D" "q \<noteq> r" "L q \<noteq> None" "L r \<noteq> None"
  shows "set (fst (A q)) \<inter> set (fst (A r)) = {} \<and> set (live_headers (D = Some q) (A q)) \<inter> set (live_headers (D = Some r) (A r)) = {}"
  using assms unfolding lists_ok_def by blast

lemma lists_ok_live: "lists_ok m L V A D \<Longrightarrow> L p \<noteq> None \<Longrightarrow> set (live_headers (D = Some p) (A p)) \<subseteq> dom V"
  unfolding lists_ok_def by fastforce

lemma lists_ok_update:
  assumes ok: "lists_ok m L V A D" and p: "L p = Some ml" "A p = (as, vs, u)"
    and upd: "\<And>U. mvcc_inv m U ml as vs u \<Longrightarrow> \<exists>U'. mvcc_inv m' U' ml' as' vs' u' \<and> keeps_others m U as m' U' as'"
    and st: "store_abs (val_store m') V'" and D: "\<And>q. q \<noteq> p \<Longrightarrow> (D' = Some q) = (D = Some q)"
    and h: "set (live_headers (D' = Some p) (as', vs', u')) \<subseteq> dom V'" "distinct (live_headers (D' = Some p) (as', vs', u'))"
    and q: "\<And>q. q \<noteq> p \<Longrightarrow> L q \<noteq> None \<Longrightarrow> set (live_headers (D = Some q) (A q)) \<subseteq> dom V' \<and>
      set (live_headers (D = Some q) (A q)) \<inter> set (live_headers (D' = Some p) (as', vs', u')) = {}"
  shows "lists_ok m' (L(p \<mapsto> ml')) V' (A(p := (as', vs', u'))) D'"
proof -
  obtain U where inv: "mvcc_inv m U ml as vs u" and "store_abs (val_store m) V"
    and "set (live_headers (D = Some p) (as, vs, u)) \<subseteq> dom V" "distinct (live_headers (D = Some p) (as, vs, u))"
    and Q: "\<forall>q ml' bs ws w. q \<noteq> p \<longrightarrow> L q = Some ml' \<longrightarrow> A q = (bs, ws, w) \<longrightarrow>
       list_rep (items m) ml' bs ws w \<and> set bs \<subseteq> U - set as \<and>
       set (live_headers (D = Some q) (bs, ws, w)) \<subseteq> dom V \<and> distinct (live_headers (D = Some q) (bs, ws, w)) \<and>
       set (live_headers (D = Some q) (bs, ws, w)) \<inter> set (live_headers (D = Some p) (as, vs, u)) = {}"
    and "pool_used (item_pool m) U"
    by (rule lists_ok_dest [OF ok p])
  obtain U' where U': "mvcc_inv m' U' ml' as' vs' u'" "keeps_others m U as m' U' as'" using upd [OF inv] by blast
  show ?thesis
  proof (rule lists_okI [OF U'(1) st h])
    fix q mq bs ws w assume a: "q \<noteq> p" "L q = Some mq" "A q = (bs, ws, w)"
    have k: "list_rep (items m) mq bs ws w" "set bs \<subseteq> U - set as" using Q a by blast+
    show "list_rep (items m') mq bs ws w \<and> set bs \<subseteq> U' - set as' \<and>
       set (live_headers (D' = Some q) (bs, ws, w)) \<subseteq> dom V' \<and> distinct (live_headers (D' = Some q) (bs, ws, w)) \<and>
       set (live_headers (D' = Some q) (bs, ws, w)) \<inter> set (live_headers (D' = Some p) (as', vs', u')) = {}"
      using other_list_kept [OF k U'(2)] Q [rule_format, OF a] q [OF a(1)] D [OF a(1)] a by simp
  next
    fix q r assume a: "q \<noteq> p" "r \<noteq> p" "q \<noteq> r" "L q \<noteq> None" "L r \<noteq> None"
    show "set (fst (A q)) \<inter> set (fst (A r)) = {} \<and>
           set (live_headers (D' = Some q) (A q)) \<inter> set (live_headers (D' = Some r) (A r)) = {}"
      using lists_ok_apart [OF ok a(3-5)] D a(1,2) by simp
  qed
qed

text \<open>Values that no list refers to may come and go.\<close>

lemma lists_ok_store:
  assumes ok: "lists_ok m L V A D" and st: "store_abs s V'" and V: "\<And>p. L p \<noteq> None \<Longrightarrow> set (live_headers (D = Some p) (A p)) \<subseteq> dom V'"
  shows "lists_ok (m\<lparr>val_store := s\<rparr>) L V' A D"
proof -
  obtain U where "pool_used (item_pool m) U" "store_abs (val_store m) V"
    and I: "\<And>p ml. L p = Some ml \<Longrightarrow> (case A p of (as, vs, u) \<Rightarrow> set as \<subseteq> U \<and> list_rep (items m) ml as vs u) \<and>
           set (live_headers (D = Some p) (A p)) \<subseteq> dom V \<and> distinct (live_headers (D = Some p) (A p))"
    and J: "\<And>p q. p \<noteq> q \<Longrightarrow> L p \<noteq> None \<Longrightarrow> L q \<noteq> None \<Longrightarrow> set (fst (A p)) \<inter> set (fst (A q)) = {} \<and>
           set (live_headers (D = Some p) (A p)) \<inter> set (live_headers (D = Some q) (A q)) = {}"
    using ok unfolding lists_ok_def by blast
  then show ?thesis unfolding lists_ok_def using st V by (intro exI [of _ U]) (auto split: prod.splits)
qed

lemma InsertValue_lists_ok:
  assumes ok: "lists_ok m L V A D" and t: "tid < nthreads (val_store m)" and f: "fits v"
    and i: "InsertValue (val_store m) v tid = Some (h, s)"
  shows "lists_ok (m\<lparr>val_store := s\<rparr>) L (V(h \<mapsto> v)) A D" "V h = None" "\<not> IsEmpty h" "nthreads s = nthreads (val_store m)"
proof -
  have st: "store_abs (val_store m) V" using ok by (auto simp: lists_ok_def)
  have a: "V h = None" "store_abs s (V(h \<mapsto> v))" "nthreads s = nthreads (val_store m)"
    using store_abs_insert [OF st t f i] by auto
  show "lists_ok (m\<lparr>val_store := s\<rparr>) L (V(h \<mapsto> v)) A D"
    by (rule lists_ok_store [OF ok a(2)]) (use lists_ok_live [OF ok] in fastforce)
  show "V h = None" "nthreads s = nthreads (val_store m)" by (fact a)+
  show "\<not> IsEmpty h" using i fits_mod(2) [OF f] by (auto simp: InsertValue_def Let_def IsEmpty_def split: option.splits)
qed

text \<open>The pending header is replaced by a header that no list has, or by an empty one.\<close>

lemma write_lists_ok:
  assumes ok: "lists_ok m L V A (Some p)" and p: "L p = Some ml" "A p = (as, vs, Some (t, b, g))"
    and h: "IsEmpty h \<or> h \<in> dom V \<and> (\<forall>q. L q \<noteq> None \<longrightarrow> h \<notin> set (live_headers (Some p = Some q) (A q)))"
  shows "lists_ok (write_val (last as) h m) L V (A(p := (as, vs, Some (t, b, h)))) None"
proof -
  have "lists_ok (write_val (last as) h m) (L(p \<mapsto> ml)) V (A(p := (as, vs, Some (t, b, h)))) None"
  proof (rule lists_ok_update [OF ok p])
    show "\<exists>U'. mvcc_inv (write_val (last as) h m) U' ml as vs (Some (t, b, h)) \<and> keeps_others m U as (write_val (last as) h m) U' as"
      if "mvcc_inv m U ml as vs (Some (t, b, g))" for U using write_val_pending [OF that] by blast
    show "store_abs (val_store (write_val (last as) h m)) V" using ok by (auto simp: lists_ok_def write_val_def upd_item_def)
    have e: "live_headers (None = Some p) (as, vs, Some (t, b, h)) =
        live_headers (Some p = Some p) (as, vs, Some (t, b, g)) @ (if IsEmpty h then [] else [h])"
      by (simp add: live_headers_def pending_headers_def)
    have own: "set (live_headers (Some p = Some p) (as, vs, Some (t, b, g))) \<subseteq> dom V" "distinct (live_headers (Some p = Some p) (as, vs, Some (t, b, g)))"
      by (rule lists_ok_dest [OF ok p], simp)+
    then show "set (live_headers (None = Some p) (as, vs, Some (t, b, h))) \<subseteq> dom V" using e h by auto
    show "distinct (live_headers (None = Some p) (as, vs, Some (t, b, h)))" using e h p own by auto
    fix q assume q: "q \<noteq> p" "L q \<noteq> None"
    show "set (live_headers (Some p = Some q) (A q)) \<subseteq> dom V \<and>
      set (live_headers (Some p = Some q) (A q)) \<inter> set (live_headers (None = Some p) (as, vs, Some (t, b, h))) = {}"
      using lists_ok_live [OF ok q(2)] lists_ok_apart [OF ok q(1), of] q h p e by auto
  qed auto
  moreover have "L(p \<mapsto> ml) = L" using p(1) by auto
  ultimately show ?thesis by simp
qed

definition tid_ok :: "nat \<Rightarrow> (ValueHeader, value_store) mvcc_mem \<Rightarrow> bool" where
  "tid_ok tid m \<longleftrightarrow> tid < nthreads (item_pool m) \<and> tid < nthreads (val_store m)"

definition same_threads :: "(ValueHeader, value_store) mvcc_mem \<Rightarrow> (ValueHeader, value_store) mvcc_mem \<Rightarrow> bool" where
  "same_threads m m' \<longleftrightarrow> nthreads (item_pool m') = nthreads (item_pool m) \<and> nthreads (val_store m') = nthreads (val_store m)"

lemma same_threads_simps [simp]:
  "same_threads m m" "same_threads m m1 \<Longrightarrow> same_threads m1 m2 \<Longrightarrow> same_threads m m2"
  "same_threads m m' \<Longrightarrow> tid_ok tid m' = tid_ok tid m"
  by (simp_all add: same_threads_def tid_ok_def)

lemma write_val_threads [simp]: "same_threads m (write_val b h m)"
  by (simp add: same_threads_def write_val_def upd_item_def)

definition freed :: "ValueHeader \<Rightarrow> (ValueHeader \<rightharpoonup> value_t) \<Rightarrow> (ValueHeader \<rightharpoonup> value_t)" where
  "freed h V = (if IsEmpty h then V else V(h := None))"

lemma AppendVersion_gets:
  assumes "list_rep (items m) ml as vs None" "AppendVersion G F tid trx_id bt m ml = Some r"
  shows "\<exists>a p. MemPool_Get (item_pool m) tid = Some (a, p)"
proof (cases "as = []")
  case True
  then have "head ml = None" using list_rep_cells [OF assms(1)] by simp
  then show ?thesis using assms(2) by (auto simp: AppendVersion_def bind_eq_Some_conv)
next
  case False
  note T = tail_committed [OF assms(1) False]
  have "head ml \<noteq> None" using list_rep_cells(3) [OF assms(1)] False by (cases as) auto
  then show ?thesis using assms(2) T by (auto simp: AppendVersion_def bind_eq_Some_conv Let_def split: option.splits)
qed

lemma gc_value_property:
  assumes "store_abs (val_store m) V" "tid < nthreads (val_store m)" "val (items m a) = h" "IsEmpty h \<or> h \<in> dom V"
  shows "store_abs (val_store (gc_value Property_NeedGC (Property_ValueGC tid) a m)) (freed h V)"
    "nthreads (val_store (gc_value Property_NeedGC (Property_ValueGC tid) a m)) = nthreads (val_store m)"
  using assms store_abs_free [OF assms(1,2), of h]
  by (auto simp: gc_value_def Property_NeedGC_def Property_ValueGC_def freed_def)

lemma append_new_lists_ok:
  assumes ok: "lists_ok m L V A None" and p: "L p = Some ml" "A p = (as, vs, None)" and t: "tid_ok tid m" and v: "IS_VALID_TRX_ID trx_id"
    and r: "AppendVersion Property_NeedGC (Property_ValueGC tid) tid trx_id bt m ml = Some r"
  obtains as' g where "app_item r = Some (last as')" "same_threads m (app_mem r)"
    "lists_ok (app_mem r) (L(p \<mapsto> app_list r)) V (A(p := (as', vs, Some (trx_id, bt, g)))) (Some p)"
proof -
  have st: "store_abs (val_store m) V" using ok by (auto simp: lists_ok_def)
  have rep: "list_rep (items m) ml as vs None" by (rule lists_ok_dest [OF ok p]) (simp add: mvcc_inv_def)
  have own: "set (live_headers False (as, vs, None)) \<subseteq> dom V" "distinct (live_headers False (as, vs, None))"
    by (rule lists_ok_dest [OF ok p], simp)+
  obtain a q where g: "MemPool_Get (item_pool m) tid = Some (a, q)" using AppendVersion_gets [OF rep r] by blast
  let ?u = "Some (trx_id, bt, val (items m a))"
  have new: "\<exists>U'. mvcc_inv (app_mem r) U' (app_list r) (as @ [a]) vs ?u \<and>
      keeps_others m U as (app_mem r) U' (as @ [a]) \<and> app_item r = Some a \<and> val_store (app_mem r) = val_store m"
    if "mvcc_inv m U ml as vs None" for U
    using AppendVersion_new [OF that _ v g, of Property_NeedGC "Property_ValueGC tid" bt] t r by (auto simp: tid_ok_def)
  obtain U where U: "mvcc_inv m U ml as vs None" by (rule lists_ok_dest [OF ok p])
  have i: "app_item r = Some a" "val_store (app_mem r) = val_store m" "nthreads (item_pool (app_mem r)) = nthreads (item_pool m)"
    using new [OF U] by (auto simp: keeps_others_def)
  have e: "live_headers (Some p = Some p) (as @ [a], vs, ?u) = live_headers False (as, vs, None)"
    by (simp add: live_headers_def pending_headers_def)
  have "lists_ok (app_mem r) (L(p \<mapsto> app_list r)) V (A(p := (as @ [a], vs, ?u))) (Some p)"
  proof (rule lists_ok_update [OF ok p])
    show "\<exists>U'. mvcc_inv (app_mem r) U' (app_list r) (as @ [a]) vs ?u \<and> keeps_others m U as (app_mem r) U' (as @ [a])"
      if "mvcc_inv m U ml as vs None" for U using new [OF that] by blast
    fix q assume q: "q \<noteq> p" "L q \<noteq> None"
    show "set (live_headers (None = Some q) (A q)) \<subseteq> dom V \<and>
      set (live_headers (None = Some q) (A q)) \<inter> set (live_headers (Some p = Some p) (as @ [a], vs, ?u)) = {}"
      using lists_ok_live [OF ok q(2)] lists_ok_apart [OF ok q(1,2)] p e by simp
  qed (use st i e own in auto)
  then show ?thesis using that [of "as @ [a]"] i by (simp add: same_threads_def)
qed

lemma append_own_lists_ok:
  assumes ok: "lists_ok m L V A None" and p: "L p = Some ml" "A p = (as, vs, Some (trx_id, b, h))" and t: "tid_ok tid m"
    and r: "AppendVersion Property_NeedGC (Property_ValueGC tid) tid trx_id bt m ml = Some r"
  shows "app_item r = Some (last as)" "same_threads m (app_mem r)" "app_list r = ml" "lists_ok (app_mem r) L (freed h V) A (Some p)"
proof -
  let ?m = "gc_value Property_NeedGC (Property_ValueGC tid) (last as) m" and ?u = "Some (trx_id, b, h)"
  have st: "store_abs (val_store m) V" using ok by (auto simp: lists_ok_def)
  have rep: "list_rep (items m) ml as vs ?u" by (rule lists_ok_dest [OF ok p]) (simp add: mvcc_inv_def)
  have own: "set (live_headers False (as, vs, ?u)) \<subseteq> dom V" "distinct (live_headers False (as, vs, ?u))"
    by (rule lists_ok_dest [OF ok p], simp)+
  show i: "app_item r = Some (last as)" "app_list r = ml" using AppendVersion_own [OF rep] r by auto
  have m: "app_mem r = ?m" using AppendVersion_own [OF rep] r by auto
  have hv: "val (items m (last as)) = h" using tail_pending(2) [OF rep] by simp
  have hV: "IsEmpty h \<or> h \<in> dom V" using own(1) by (auto simp: live_headers_def pending_headers_def)
  note gc = gc_value_property [OF st _ hv hV, of tid]
  show "same_threads m (app_mem r)" using m gc(2) t by (simp add: same_threads_def tid_ok_def)
  have e: "live_headers False (as, vs, ?u) = live_headers True (as, vs, ?u) @ (if IsEmpty h then [] else [h])"
    by (simp add: live_headers_def pending_headers_def)
  have "lists_ok ?m (L(p \<mapsto> ml)) (freed h V) (A(p := (as, vs, ?u))) (Some p)"
  proof (rule lists_ok_update [OF ok p])
    show "\<exists>U'. mvcc_inv ?m U' ml as vs ?u \<and> keeps_others m U as ?m U' as" if "mvcc_inv m U ml as vs ?u" for U
      using that by (intro exI [of _ U]) (simp add: mvcc_inv_def keeps_others_def)
    show "set (live_headers (Some p = Some p) (as, vs, ?u)) \<subseteq> dom (freed h V)" "distinct (live_headers (Some p = Some p) (as, vs, ?u))"
      using own e by (auto simp: freed_def split: if_splits)
    fix q assume q: "q \<noteq> p" "L q \<noteq> None"
    have "set (live_headers False (A q)) \<subseteq> dom V" "set (live_headers False (A q)) \<inter> set (live_headers False (as, vs, ?u)) = {}"
      using lists_ok_live [OF ok q(2)] lists_ok_apart [OF ok q(1,2)] p by simp_all
    then show "set (live_headers (None = Some q) (A q)) \<subseteq> dom (freed h V) \<and>
      set (live_headers (None = Some q) (A q)) \<inter> set (live_headers (Some p = Some p) (as, vs, ?u)) = {}"
      using e by (auto simp: freed_def split: if_splits)
  qed (use gc t in \<open>auto simp: tid_ok_def\<close>)
  moreover have "L(p \<mapsto> ml) = L" "A(p := (as, vs, ?u)) = A" using p by auto
  ultimately show "lists_ok (app_mem r) L (freed h V) A (Some p)" using m by simp
qed

lemma append_conflict_lists_ok:
  assumes ok: "lists_ok m L V A D" and p: "L p = Some ml" "A p = (as, vs, Some (t, b, h))" and t: "t \<noteq> trx_id"
    and r: "AppendVersion Property_NeedGC (Property_ValueGC tid) tid trx_id bt m ml = Some r"
  shows "app_item r = None" "app_mem r = m" "app_list r = ml"
proof -
  have rep: "list_rep (items m) ml as vs (Some (t, b, h))" by (rule lists_ok_dest [OF ok p]) (simp add: mvcc_inv_def)
  show "app_item r = None" "app_mem r = m" "app_list r = ml" using AppendVersion_conflict [OF rep t] r by auto
qed

text \<open>Commit and abort of the pending version.\<close>

lemma commit_lists_ok:
  assumes ok: "lists_ok m L V A None" and p: "L p = Some ml" "A p = (as, vs, Some (t, b, h))"
    and c: "c < MAX_TIME" "\<forall>d\<in>set (map fst vs). d < c"
  obtains m' ml' where "CommitVersion t c m ml = Some (m', ml')" "same_threads m m'"
    "lists_ok m' (L(p \<mapsto> ml')) V (A(p := (as, vs @ [(c, h)], None))) None"
proof -
  obtain U where U: "mvcc_inv m U ml as vs (Some (t, b, h))" by (rule lists_ok_dest [OF ok p])
  obtain m' ml' where C: "CommitVersion t c m ml = Some (m', ml')" "keeps_others m U as m' U as" "val_store m' = val_store m"
    using CommitVersion_rep [OF U c] by metis
  have e: "live_headers False (as, vs @ [(c, h)], None) = live_headers False (as, vs, Some (t, b, h))"
    by (simp add: live_headers_def pending_headers_def)
  have own: "set (live_headers False (as, vs, Some (t, b, h))) \<subseteq> dom V" "distinct (live_headers False (as, vs, Some (t, b, h)))"
    by (rule lists_ok_dest [OF ok p], simp)+
  have "lists_ok m' (L(p \<mapsto> ml')) V (A(p := (as, vs @ [(c, h)], None))) None"
  proof (rule lists_ok_update [OF ok p])
    show "\<exists>U'. mvcc_inv m' U' ml' as (vs @ [(c, h)]) None \<and> keeps_others m U as m' U' as" if "mvcc_inv m U ml as vs (Some (t, b, h))" for U
      using CommitVersion_rep [OF that c] C(1) by (metis option.inject prod.inject)
    show "store_abs (val_store m') V" using ok C(3) by (auto simp: lists_ok_def)
    fix q assume q: "q \<noteq> p" "L q \<noteq> None"
    show "set (live_headers (None = Some q) (A q)) \<subseteq> dom V \<and>
      set (live_headers (None = Some q) (A q)) \<inter> set (live_headers (None = Some p) (as, vs @ [(c, h)], None)) = {}"
      using lists_ok_live [OF ok q(2)] lists_ok_apart [OF ok q(1,2)] p e by simp
  qed (use own e in auto)
  then show ?thesis using that [OF C(1)] C(2,3) by (simp add: same_threads_def keeps_others_def)
qed

lemma abort_lists_ok:
  assumes ok: "lists_ok m L V A None" and p: "L p = Some ml" "A p = (as, vs, Some (t, b, h))" and t: "tid_ok tid m"
  obtains m' ml' where "AbortVersion Property_NeedGC (Property_ValueGC tid) tid t m ml = Some (m', ml')" "same_threads m m'"
    "lists_ok m' (L(p \<mapsto> ml')) (freed h V) (A(p := (butlast as, vs, None))) None"
proof -
  let ?u = "Some (t, b, h)" and ?A = "AbortVersion Property_NeedGC (Property_ValueGC tid) tid t m ml"
  have tid: "tid < nthreads (item_pool m)" "tid < nthreads (val_store m)" using t by (simp_all add: tid_ok_def)
  have st: "store_abs (val_store m) V" using ok by (auto simp: lists_ok_def)
  obtain U where U: "mvcc_inv m U ml as vs ?u" by (rule lists_ok_dest [OF ok p])
  obtain m' ml' where C: "?A = Some (m', ml')" "keeps_others m U as m' (U - {last as}) (butlast as)"
    "val_store m' = (if Property_NeedGC h then Property_ValueGC tid h (val_store m) else val_store m)"
    using AbortVersion_rep [OF U tid(1)] by metis
  have own: "set (live_headers False (as, vs, ?u)) \<subseteq> dom V" "distinct (live_headers False (as, vs, ?u))"
    by (rule lists_ok_dest [OF ok p], simp)+
  have e: "live_headers False (as, vs, ?u) = live_headers False (butlast as, vs, None) @ (if IsEmpty h then [] else [h])"
    by (simp add: live_headers_def pending_headers_def)
  have s: "store_abs (val_store m') (freed h V)" "nthreads (val_store m') = nthreads (val_store m)"
    using C(3) st store_abs_free [OF st tid(2), of h] own(1) e
    by (auto simp: Property_NeedGC_def Property_ValueGC_def freed_def split: if_splits)
  have "lists_ok m' (L(p \<mapsto> ml')) (freed h V) (A(p := (butlast as, vs, None))) None"
  proof (rule lists_ok_update [OF ok p _ s(1)])
    show "\<exists>U'. mvcc_inv m' U' ml' (butlast as) vs None \<and> keeps_others m U as m' U' (butlast as)" if "mvcc_inv m U ml as vs ?u" for U
      using AbortVersion_rep [OF that tid(1)] C(1) by (metis option.inject prod.inject)
    show "set (live_headers (None = Some p) (butlast as, vs, None)) \<subseteq> dom (freed h V)" "distinct (live_headers (None = Some p) (butlast as, vs, None))"
      using own e by (auto simp: freed_def split: if_splits)
    fix q assume q: "q \<noteq> p" "L q \<noteq> None"
    have "set (live_headers False (A q)) \<subseteq> dom V" "set (live_headers False (A q)) \<inter> set (live_headers False (as, vs, ?u)) = {}"
      using lists_ok_live [OF ok q(2)] lists_ok_apart [OF ok q(1,2)] p by simp_all
    then show "set (live_headers (None = Some q) (A q)) \<subseteq> dom (freed h V) \<and>
      set (live_headers (None = Some q) (A q)) \<inter> set (live_headers (None = Some p) (butlast as, vs, None)) = {}"
      using e by (auto simp: freed_def split: if_splits)
  qed auto
  then show ?thesis using that [OF C(1)] C(2) s(2) by (simp add: same_threads_def keeps_others_def)
qed

section \<open>The values of the versions\<close>

type_synonym prop_versions = "value_t option versions \<times> value_t option pending"

text \<open>\<open>None\<close>: the property was dropped.\<close>

definition hval :: "(ValueHeader \<rightharpoonup> value_t) \<Rightarrow> ValueHeader \<Rightarrow> value_t option" where
  "hval V h = (if IsEmpty h then None else V h)"

definition avals :: "(ValueHeader \<rightharpoonup> value_t) \<Rightarrow> header_list \<Rightarrow> prop_versions" where
  "avals V x = (case x of (as, vs, u) \<Rightarrow> (map (map_prod id (hval V)) vs, map_option (\<lambda>(t, b, h). (t, b, hval V h)) u))"

lemma avals_cong:
  assumes "\<And>h. h \<in> set (live_headers False x) \<Longrightarrow> V' h = V h"
  shows "avals V' x = avals V x"
proof -
  obtain as vs u where x: "x = (as, vs, u)" by (cases x)
  have H: "hval V' h = hval V h" if "h \<in> set (map snd vs @ pending_headers u)" for h
    using assms that by (auto simp: x live_headers_def hval_def)
  have "map (map_prod id (hval V')) vs = map (map_prod id (hval V)) vs"
  proof (rule map_cong)
    fix x assume "x \<in> set vs"
    then have "hval V' (snd x) = hval V (snd x)" by (intro H) auto
    then show "map_prod id (hval V') x = map_prod id (hval V) x" by (cases x) simp
  qed simp
  moreover have "map_option (\<lambda>(t, b, h). (t, b, hval V' h)) u = map_option (\<lambda>(t, b, h). (t, b, hval V h)) u"
    using H by (cases u) (auto simp: pending_headers_def)
  ultimately show ?thesis by (simp add: x avals_def)
qed

lemma avals_committed_cong:
  assumes "\<And>h. h \<in> set (live_headers True (as, vs, u)) \<Longrightarrow> V' h = V h"
  shows "map (map_prod id (hval V')) vs = map (map_prod id (hval V)) vs"
  using avals_cong [of "(as, vs, None)" V' V] assms by (simp add: avals_def live_headers_def pending_headers_def)

definition spec_write :: "u64 \<Rightarrow> u64 \<Rightarrow> value_t option \<Rightarrow> prop_versions \<Rightarrow> prop_versions option" where
  "spec_write trx_id bt x y =
     (case y of
        (vs, None) \<Rightarrow> Some (vs, Some (trx_id, bt, x))
      | (vs, Some (t, b, _)) \<Rightarrow> if t = trx_id then Some (vs, Some (t, b, x)) else None)"

text \<open>
  What a write of \<open>x\<close> to the list \<open>p\<close> does: the pending version of \<open>p\<close> is \<open>x\<close> now, the other lists stay.
\<close>

definition written :: "(nat \<Rightarrow> mvcc_list option) \<Rightarrow> (ValueHeader \<rightharpoonup> value_t) \<Rightarrow> (nat \<Rightarrow> header_list) \<Rightarrow> nat \<Rightarrow> prop_versions \<Rightarrow>
    (ValueHeader, value_store) mvcc_mem \<Rightarrow> (nat \<Rightarrow> mvcc_list option) \<Rightarrow> bool" where
  "written L V A p y m' L' \<longleftrightarrow>
     (\<exists>V' A'. lists_ok m' L' V' A' None \<and> dom L' = dom L \<and> avals V' (A' p) = y \<and>
        (\<forall>q. q \<noteq> p \<longrightarrow> L q \<noteq> None \<longrightarrow> avals V' (A' q) = avals V (A q)))"

lemma append_written:
  assumes ok: "lists_ok m L V A None" and p: "L p = Some ml" and t: "tid_ok tid m" and v: "IS_VALID_TRX_ID trx_id"
    and r: "AppendVersion Property_NeedGC (Property_ValueGC tid) tid trx_id bt m ml = Some r"
  obtains (conflict) "spec_write trx_id bt x (avals V (A p)) = None" "app_item r = None" "app_mem r = m" "app_list r = ml"
  | (append) as' V1 A1 b y where "app_item r = Some (last as')" "same_threads m (app_mem r)"
      "lists_ok (app_mem r) (L(p \<mapsto> app_list r)) V1 A1 (Some p)" "A1 p = (as', b, y)" "\<And>q. q \<noteq> p \<Longrightarrow> A1 q = A q"
      "\<exists>b0 g. y = Some (trx_id, b0, g) \<and> spec_write trx_id bt x (avals V (A p)) = Some (fst (avals V (A p)), Some (trx_id, b0, x))"
      "fst (avals V (A p)) = map (map_prod id (hval V)) b"
      "\<And>q h. L q \<noteq> None \<Longrightarrow> h \<in> set (live_headers (q = p) (A1 q)) \<Longrightarrow> V1 h = V h \<and> h \<in> dom V1"
proof -
  obtain as vs u where A: "A p = (as, vs, u)" by (cases "A p")
  show ?thesis
  proof (cases u)
    case None
    obtain as' g where n: "app_item r = Some (last as')" "same_threads m (app_mem r)"
      "lists_ok (app_mem r) (L(p \<mapsto> app_list r)) V (A(p := (as', vs, Some (trx_id, bt, g)))) (Some p)"
      by (rule append_new_lists_ok [OF ok p A [unfolded None] t v r])
    show ?thesis
    proof (rule append [OF n])
      fix q h assume q: "L q \<noteq> None" "h \<in> set (live_headers (q = p) ((A(p := (as', vs, Some (trx_id, bt, g)))) q))"
      have "(L(p \<mapsto> app_list r)) q \<noteq> None" using q(1) by simp
      from lists_ok_live [OF n(3) this] q(2) show "V h = V h \<and> h \<in> dom V" by (auto simp: eq_commute [of p q])
    qed (use A None in \<open>auto simp: spec_write_def avals_def\<close>)
  next
    case (Some w)
    obtain s b h where w: "w = (s, b, h)" by (cases w)
    show ?thesis
    proof (cases "s = trx_id")
      case False
      show ?thesis
        by (rule conflict) (use append_conflict_lists_ok [OF ok p A [unfolded Some w] False r] False A Some w in \<open>auto simp: spec_write_def avals_def\<close>)
    next
      case True
      note n = append_own_lists_ok [OF ok p A [unfolded Some w True] t r]
      have L: "L(p \<mapsto> app_list r) = L" using p n(3) by auto
      show ?thesis
      proof (rule append [OF n(1,2)])
        show "lists_ok (app_mem r) (L(p \<mapsto> app_list r)) (freed h V) A (Some p)" unfolding L by (rule n(4))
        fix q h' assume q: "L q \<noteq> None" "h' \<in> set (live_headers (q = p) (A q))"
        then have "h' \<in> dom (freed h V)" using lists_ok_live [OF n(4) q(1)] by (auto simp: eq_commute [of p q])
        then show "freed h V h' = V h' \<and> h' \<in> dom (freed h V)" by (auto simp: freed_def split: if_splits)
      qed (use A Some w True in \<open>auto simp: spec_write_def avals_def\<close>)
    qed
  qed
qed

lemma pending_written:
  assumes ok: "lists_ok m L1 V2 A1 (Some p)" and p: "L1 p = Some ml" "A1 p = (as', b, Some (trx_id, b0, g))" and dom: "dom L1 = dom L"
    and h: "IsEmpty h \<or> h \<in> dom V2 \<and> (\<forall>q. L1 q \<noteq> None \<longrightarrow> h \<notin> set (live_headers (Some p = Some q) (A1 q)))"
    and A: "\<And>q. q \<noteq> p \<Longrightarrow> A1 q = A q"
    and V: "\<And>q h. L q \<noteq> None \<Longrightarrow> h \<in> set (live_headers (q = p) (A1 q)) \<Longrightarrow> V2 h = V h"
  shows "written L V A p (map (map_prod id (hval V)) b, Some (trx_id, b0, hval V2 h)) (write_val (last as') h m) L1"
  unfolding written_def
proof (intro exI conjI allI impI)
  let ?A = "A1(p := (as', b, Some (trx_id, b0, h)))"
  show "lists_ok (write_val (last as') h m) L1 V2 ?A None" by (rule write_lists_ok [OF ok p h])
  have Lp: "L p \<noteq> None" using p(1) dom by (metis domI domIff)
  have "map (map_prod id (hval V2)) b = map (map_prod id (hval V)) b"
    by (rule avals_committed_cong [of as' _ "Some (trx_id, b0, g)"]) (use V [OF Lp] p(2) in simp)
  then show "avals V2 (?A p) = (map (map_prod id (hval V)) b, Some (trx_id, b0, hval V2 h))" by (simp add: avals_def)
  fix q assume q: "q \<noteq> p" "L q \<noteq> None"
  show "avals V2 (?A q) = avals V (A q)"
    using avals_cong [of "A q" V2 V] V [OF q(2)] A [OF q(1)] q(1) by simp
qed (fact dom)

lemma modify_cell_written:
  assumes ok: "lists_ok (prop_mvcc S) (prop_lists S) V A None" and p: "prop_lists S p = Some ml" and t: "tid_ok tid (prop_mvcc S)"
    and v: "IS_VALID_TRX_ID trx_id" and f: "fits x" and M: "modify_cell tid ac p flag x trx_id bt S old_val = Some (y, old_val', S')"
  obtains (conflict) "spec_write trx_id bt (Some x) (avals V (A p)) = None" "S' = S" "y = (True, None)"
  | (modified) z where "spec_write trx_id bt (Some x) (avals V (A p)) = Some z" "y = (flag, Some p)"
      "written (prop_lists S) V A p z (prop_mvcc S') (prop_lists S')" "same_threads (prop_mvcc S) (prop_mvcc S')" "fresh_list S' = fresh_list S"
      "prop_rows S' = (if flag then prop_rows S
         else upd_cell (fst ac) (snd ac) ((cell_at (prop_rows S) (fst ac) (snd ac))\<lparr>cell_list := Some p\<rparr>) (prop_rows S))"
proof -
  obtain r where r: "AppendVersion Property_NeedGC (Property_ValueGC tid) tid trx_id bt (prop_mvcc S) ml = Some r"
    using M p by (cases "AppendVersion Property_NeedGC (Property_ValueGC tid) tid trx_id bt (prop_mvcc S) ml") (auto simp: modify_cell_def)
  from ok p t v r show ?thesis
  proof (cases rule: append_written [where x = "Some x"])
    case c: conflict
    have "(prop_lists S)(p \<mapsto> ml) = prop_lists S" using p by auto
    then show ?thesis using conflict [OF c(1)] M p r c by (auto simp: modify_cell_def Let_def)
  next
    case a: (append as' V1 A1 b w)
    obtain b0 g where w: "w = Some (trx_id, b0, g)" "spec_write trx_id bt (Some x) (avals V (A p)) = Some (fst (avals V (A p)), Some (trx_id, b0, Some x))"
      using a(6) by blast
    obtain h s where i: "InsertValue (val_store (app_mem r)) x tid = Some (h, s)"
      using M p r a(1) by (auto simp: modify_cell_def Let_def bind_eq_Some_conv)
    let ?L = "(prop_lists S)(p \<mapsto> app_list r)"
    have t': "tid < nthreads (val_store (app_mem r))" using a(2) t by (simp add: same_threads_def tid_ok_def)
    note I = InsertValue_lists_ok [OF a(3) t' f i]
    have S': "y = (flag, Some p)" "prop_mvcc S' = write_val (last as') h ((app_mem r)\<lparr>val_store := s\<rparr>)" "prop_lists S' = ?L" "fresh_list S' = fresh_list S"
      "prop_rows S' = (if flag then prop_rows S
         else upd_cell (fst ac) (snd ac) ((cell_at (prop_rows S) (fst ac) (snd ac))\<lparr>cell_list := Some p\<rparr>) (prop_rows S))"
      using M p r a(1) i by (auto simp: modify_cell_def Let_def)
    have fresh: "h \<notin> set (live_headers (Some p = Some q) (A1 q))" if "?L q \<noteq> None" for q
      using lists_ok_live [OF a(3) that] I(2) by auto
    have "written (prop_lists S) V A p (map (map_prod id (hval V)) b, Some (trx_id, b0, hval (V1(h \<mapsto> x)) h))
        (write_val (last as') h ((app_mem r)\<lparr>val_store := s\<rparr>)) ?L"
    proof (rule pending_written [OF I(1) _ a(4) [unfolded w(1)]])
      show "(V1(h \<mapsto> x)) h' = V h'" if "prop_lists S q \<noteq> None" "h' \<in> set (live_headers (q = p) (A1 q))" for q h'
        using a(8) [OF that] I(2) by auto
    qed (use p fresh a(5) in auto)
    moreover have "hval (V1(h \<mapsto> x)) h = Some x" using I(3) by (simp add: hval_def)
    moreover have "same_threads (prop_mvcc S) (prop_mvcc S')"
      using a(2) I(4) by (simp add: S'(2) same_threads_def write_val_def upd_item_def)
    ultimately show ?thesis using modified [OF w(2) S'(1)] S' a(7) by simp
  qed
qed

lemma drop_written:
  assumes ok: "lists_ok m L V A None" and p: "L p = Some ml" and t: "tid_ok tid m" and v: "IS_VALID_TRX_ID trx_id"
    and r: "AppendVersion Property_NeedGC (Property_ValueGC tid) tid trx_id bt m ml = Some r"
    and b: "app_item r = Some b"
  obtains z where "spec_write trx_id bt None (avals V (A p)) = Some z"
    "written L V A p z (upd_item b (\<lambda>it. it\<lparr>val := (val it)\<lparr>byte_count := 0\<rparr>\<rparr>) (app_mem r)) (L(p \<mapsto> app_list r))"
    "same_threads m (upd_item b (\<lambda>it. it\<lparr>val := (val it)\<lparr>byte_count := 0\<rparr>\<rparr>) (app_mem r))"
  using ok p t v r
proof (cases rule: append_written [where x = None])
  case conflict
  then show ?thesis using b by simp
next
  case a: (append as' V1 A1 vs w)
  obtain b0 g where w: "w = Some (trx_id, b0, g)" "spec_write trx_id bt None (avals V (A p)) = Some (fst (avals V (A p)), Some (trx_id, b0, None))"
    using a(6) by blast
  let ?L = "L(p \<mapsto> app_list r)" and ?h = "(val (items (app_mem r) (last as')))\<lparr>byte_count := 0\<rparr>"
  have "written L V A p (map (map_prod id (hval V)) vs, Some (trx_id, b0, hval V1 ?h)) (write_val (last as') ?h (app_mem r)) ?L"
    by (rule pending_written [OF a(3) _ a(4) [unfolded w(1)]]) (use p a(5,8) in \<open>auto simp: IsEmpty_def\<close>)
  moreover have "write_val (last as') ?h (app_mem r) = upd_item b (\<lambda>it. it\<lparr>val := (val it)\<lparr>byte_count := 0\<rparr>\<rparr>) (app_mem r)"
    using a(1) b by (simp add: write_val_def upd_item_def)
  moreover have "hval V1 ?h = None" by (simp add: hval_def IsEmpty_def)
  ultimately show ?thesis using that [OF w(2)] a(2,7) by (simp add: same_threads_def upd_item_def)
qed

lemma new_list_ok:
  assumes ok: "lists_ok m L V A None" and p: "L p = None"
  shows "lists_ok m (L(p \<mapsto> empty_list)) V (A(p := ([], [], None))) None"
proof -
  obtain U where U: "pool_used (item_pool m) U" "store_abs (val_store m) V"
    and I: "\<And>p ml. L p = Some ml \<Longrightarrow> (case A p of (as, vs, u) \<Rightarrow> set as \<subseteq> U \<and> list_rep (items m) ml as vs u) \<and>
           set (live_headers (None = Some p) (A p)) \<subseteq> dom V \<and> distinct (live_headers (None = Some p) (A p))"
    using ok unfolding lists_ok_def by blast
  have "mvcc_inv m U empty_list [] [] None" using U(1) by (auto simp: mvcc_inv_def list_rep_empty empty_list_def)
  then show ?thesis
  proof (rule lists_okI [OF _ U(2)])
    fix q mq bs ws w assume a: "q \<noteq> p" "L q = Some mq" "A q = (bs, ws, w)"
    show "list_rep (items m) mq bs ws w \<and> set bs \<subseteq> U - set [] \<and>
       set (live_headers (None = Some q) (bs, ws, w)) \<subseteq> dom V \<and> distinct (live_headers (None = Some q) (bs, ws, w)) \<and>
       set (live_headers (None = Some q) (bs, ws, w)) \<inter> set (live_headers (None = Some p) ([], [], None)) = {}"
      using I [OF a(2)] a(3) by (simp add: live_headers_def pending_headers_def)
  next
    fix q r assume a: "q \<noteq> r" "L q \<noteq> None" "L r \<noteq> None"
    show "set (fst (A q)) \<inter> set (fst (A r)) = {} \<and> set (live_headers (None = Some q) (A q)) \<inter> set (live_headers (None = Some r) (A r)) = {}"
      by (rule lists_ok_apart [OF ok a])
  qed (simp_all add: live_headers_def pending_headers_def)
qed

lemma sub_lists_ok:
  assumes ok: "lists_ok m L V A D" and L: "\<And>p ml. L' p = Some ml \<Longrightarrow> L p = Some ml"
  shows "lists_ok m L' V A D"
proof -
  obtain U where "pool_used (item_pool m) U" "store_abs (val_store m) V"
    and I: "\<And>p ml. L p = Some ml \<Longrightarrow> (case A p of (as, vs, u) \<Rightarrow> set as \<subseteq> U \<and> list_rep (items m) ml as vs u) \<and>
           set (live_headers (D = Some p) (A p)) \<subseteq> dom V \<and> distinct (live_headers (D = Some p) (A p))"
    using ok unfolding lists_ok_def by blast
  moreover have n: "L p \<noteq> None" if "L' p \<noteq> None" for p using that L by (metis option.exhaust option.distinct(1))
  moreover have "(case A p of (as, vs, u) \<Rightarrow> set as \<subseteq> U \<and> list_rep (items m) ml as vs u) \<and>
           set (live_headers (D = Some p) (A p)) \<subseteq> dom V \<and> distinct (live_headers (D = Some p) (A p))" if "L' p = Some ml" for p ml
    by (rule I [OF L [OF that]])
  ultimately show ?thesis unfolding lists_ok_def using lists_ok_apart [OF ok _ n n] by (intro exI [of _ U]) simp
qed

lemma initial_list_ok:
  assumes ok: "lists_ok m L V A None" and p: "L p = None" and t: "tid_ok tid m" and f: "fits v"
    and a: "AppendInitialVersion tid m empty_list = Some (b, m1, ml)" and i: "InsertValue (val_store m1) v tid = Some (h, s)"
  shows "lists_ok (write_val b h (m1\<lparr>val_store := s\<rparr>)) (L(p \<mapsto> ml)) (V(h \<mapsto> v)) (A(p := ([b], [(0, h)], None))) None"
    "V h = None" "\<not> IsEmpty h" "same_threads m (write_val b h (m1\<lparr>val_store := s\<rparr>))"
proof -
  let ?m = "write_val b h (m1\<lparr>val_store := s\<rparr>)"
  obtain U where U: "pool_used (item_pool m) U" "store_abs (val_store m) V"
    and I: "\<And>p ml. L p = Some ml \<Longrightarrow> (case A p of (as, vs, u) \<Rightarrow> set as \<subseteq> U \<and> list_rep (items m) ml as vs u) \<and>
           set (live_headers (None = Some p) (A p)) \<subseteq> dom V \<and> distinct (live_headers (None = Some p) (A p))"
    using ok unfolding lists_ok_def by blast
  obtain q where g: "MemPool_Get (item_pool m) tid = Some (b, q)" and m1: "m1 = upd_item b (Item_Init MIN_TIME MAX_TIME) (m\<lparr>item_pool := q\<rparr>)"
    and ml: "ml = empty_list\<lparr>head := Some b, tail := Some b, pre_tail := Some b\<rparr>"
    using a by (auto simp: AppendInitialVersion_def bind_eq_Some_conv)
  have G: "b \<notin> U" "pool_used q (insert b U)" "nthreads q = nthreads (item_pool m)"
    using pool_used_get [OF U(1) _ g] t by (auto simp: tid_ok_def)
  have st: "V h = None" "store_abs s (V(h \<mapsto> v))" "nthreads s = nthreads (val_store m)"
    using store_abs_insert [of "val_store m" V tid v h s] U(2) t f i m1 by (auto simp: tid_ok_def upd_item_def)
  show "V h = None" by (fact st)
  show ne: "\<not> IsEmpty h" using i fits_mod(2) [OF f] by (auto simp: InsertValue_def Let_def IsEmpty_def split: option.splits)
  show "same_threads m ?m" using G(3) st(3) m1 by (simp add: same_threads_def write_val_def upd_item_def)
  have "list_rep (items ?m) ml [b] [(0, h)] None"
    by (simp add: list_rep_def times_ok_def m1 ml write_val_def upd_item_def Item_Init_def until_def empty_list_def pre_cell_def last_cell_def MAX_TIMESTAMP_def)
  then have inv: "mvcc_inv ?m (insert b U) ml [b] [(0, h)] None" using G(2) m1 by (simp add: mvcc_inv_def write_val_def upd_item_def)
  have keep: "keeps_others m U [] ?m (insert b U) [b]"
    using G m1 by (auto simp: keeps_others_def write_val_def upd_item_def)
  have sV: "store_abs (val_store ?m) (V(h \<mapsto> v))" using st(2) by (simp add: write_val_def upd_item_def)
  from inv sV show "lists_ok ?m (L(p \<mapsto> ml)) (V(h \<mapsto> v)) (A(p := ([b], [(0, h)], None))) None"
  proof (rule lists_okI)
    fix q mq bs ws w assume a: "q \<noteq> p" "L q = Some mq" "A q = (bs, ws, w)"
    have k: "list_rep (items m) mq bs ws w" "set bs \<subseteq> U - set []" "set (live_headers False (bs, ws, w)) \<subseteq> dom V" "distinct (live_headers False (bs, ws, w))"
      using I [OF a(2)] a(3) by simp_all
    show "list_rep (items ?m) mq bs ws w \<and> set bs \<subseteq> insert b U - set [b] \<and>
       set (live_headers (None = Some q) (bs, ws, w)) \<subseteq> dom (V(h \<mapsto> v)) \<and> distinct (live_headers (None = Some q) (bs, ws, w)) \<and>
       set (live_headers (None = Some q) (bs, ws, w)) \<inter> set (live_headers (None = Some p) ([b], [(0, h)], None)) = {}"
      using other_list_kept [OF k(1,2) keep] k(3,4) st(1) ne by (auto simp: live_headers_def [of _ "([b], [(0, h)], None)"] pending_headers_def)
  next
    fix q r assume a: "q \<noteq> r" "L q \<noteq> None" "L r \<noteq> None"
    show "set (fst (A q)) \<inter> set (fst (A r)) = {} \<and> set (live_headers (None = Some q) (A q)) \<inter> set (live_headers (None = Some r) (A r)) = {}"
      by (rule lists_ok_apart [OF ok a])
  qed (auto simp: live_headers_def pending_headers_def)
qed

end
