(* ===== verification/Property_Versions.thy ===== *)
theory Property_Versions
  imports Property_Lists
begin

text \<open>
  The operations on the properties of an element, seen as steps on a map from properties to versions (a simulation), and what
  \<open>ReadProperty\<close> returns in every state that can be reached.
\<close>

section \<open>The store as a map of versions\<close>

type_synonym 'p prop_state = "'p prop_store \<times> property_row_list \<times> u64"
type_synonym 'p prop_spec = "('p \<Rightarrow> prop_versions option) \<times> u64"

definition times_before :: "u64 \<Rightarrow> prop_versions \<Rightarrow> bool" where
  "times_before now y \<longleftrightarrow> (\<forall>c\<in>set (map fst (fst y)). c \<le> now)"

definition versions_of :: "nat \<Rightarrow> ('p \<Rightarrow> 12 word) \<Rightarrow> 'p set \<Rightarrow> 'p prop_store \<Rightarrow> property_row_list \<Rightarrow> (nat \<Rightarrow> prop_versions) \<Rightarrow> 'p \<Rightarrow> prop_versions option" where
  "versions_of R key P S l B pid =
     (if pid \<in> P then map_option (\<lambda>c. B (the (cell_list c))) (the (property_cell R key pid S l)) else None)"

definition prop_abs :: "nat \<Rightarrow> ('p \<Rightarrow> 12 word) \<Rightarrow> 'p set \<Rightarrow> 'p prop_state \<Rightarrow> 'p prop_spec \<Rightarrow> bool" where
  "prop_abs R key P s f =
     (case s of (S, l, now) \<Rightarrow> snd f = now \<and> prop_store_ok R key P S l \<and>
        (\<exists>V A. lists_ok (prop_mvcc S) (prop_lists S) V A None \<and>
           (\<forall>p. prop_lists S p \<noteq> None \<longrightarrow> times_before now (avals V (A p))) \<and>
           fst f = versions_of R key P S l (\<lambda>p. avals V (A p))))"

lemma property_cell_Some:
  assumes "prop_store_ok R key P S l" "pid \<in> P"
  obtains r where "property_cell R key pid S l = Some r"
    "\<And>c. r = Some c \<Longrightarrow> cell_pid c = pid \<and> (\<exists>p. cell_list c = Some p \<and> prop_lists S p \<noteq> None)"
proof -
  obtain rs where ok: "prop_list_ok R key P (prop_rows S) l rs" and own: "own_lists S (the_cells R (prop_rows S) rs (rl_count (pl_rows l)))"
    using assms(1) by (auto simp: prop_store_ok_def)
  show ?thesis
  proof (rule that [OF property_cell_find [OF ok assms(2)]])
    fix c assume "find (\<lambda>c. cell_pid c = pid) (the_cells R (prop_rows S) rs (rl_count (pl_rows l))) = Some c"
    then have "c \<in> set (the_cells R (prop_rows S) rs (rl_count (pl_rows l)))" "cell_pid c = pid" by (auto simp: find_Some_iff)
    then show "cell_pid c = pid \<and> (\<exists>p. cell_list c = Some p \<and> prop_lists S p \<noteq> None)" using own unfolding own_lists_def by fastforce
  qed
qed

lemma property_cells_apart:
  assumes "prop_store_ok R key P S l" "pid \<in> P" "pid' \<in> P" "property_cell R key pid S l = Some (Some c)"
    "property_cell R key pid' S l = Some (Some c')" "cell_list c = cell_list c'"
  shows "pid = pid'"
proof -
  obtain rs where ok: "prop_list_ok R key P (prop_rows S) l rs" and own: "own_lists S (the_cells R (prop_rows S) rs (rl_count (pl_rows l)))"
    using assms(1) by (auto simp: prop_store_ok_def)
  let ?cs = "the_cells R (prop_rows S) rs (rl_count (pl_rows l))"
  have "c \<in> set ?cs" "cell_pid c = pid" "c' \<in> set ?cs" "cell_pid c' = pid'"
    using assms(4,5) property_cell_find [OF ok assms(2)] property_cell_find [OF ok assms(3)] by (auto simp: find_Some_iff)
  moreover have "inj_on cell_list (set ?cs)" using own by (simp add: own_lists_def distinct_map)
  ultimately show ?thesis using assms(6) by (metis inj_onD)
qed

text \<open>A write to the list of one property.\<close>

lemma prop_abs_written:
  assumes ok: "prop_store_ok R key P S l" and t: "\<forall>q. prop_lists S q \<noteq> None \<longrightarrow> times_before now (avals V (A q))"
    and pid: "pid \<in> P" "property_cell R key pid S l = Some (Some c)" "cell_list c = Some p"
    and W: "written (prop_lists S) V A p z (prop_mvcc S') (prop_lists S')" and z: "times_before now' z" "now \<le> now'"
    and S': "prop_rows S' = prop_rows S" "fresh_list S' = fresh_list S"
  shows "prop_abs R key P (S', l, now') ((versions_of R key P S l (\<lambda>p. avals V (A p)))(pid \<mapsto> z), now')"
proof -
  obtain V' A' where W': "lists_ok (prop_mvcc S') (prop_lists S') V' A' None" "dom (prop_lists S') = dom (prop_lists S)" "avals V' (A' p) = z"
    "\<forall>q. q \<noteq> p \<longrightarrow> prop_lists S q \<noteq> None \<longrightarrow> avals V' (A' q) = avals V (A q)"
    using W unfolding written_def by blast
  have N: "prop_lists S' q \<noteq> None \<longleftrightarrow> prop_lists S q \<noteq> None" for q using W'(2) by (metis domIff)
  have "prop_store_ok R key P S' l"
  proof -
    have "own_lists S' cs" if "own_lists S cs" for cs by (rule own_lists_mono [OF that]) (use N in blast)
    moreover have "prop_lists S' q = None \<longleftrightarrow> prop_lists S q = None" for q using N by blast
    ultimately show ?thesis using ok S' unfolding prop_store_ok_def by auto
  qed
  moreover have pc: "property_cell R key q S' l = property_cell R key q S l" for q using S'(1) by (simp add: property_cell_def)
  have "times_before now' (avals V' (A' q))" if "prop_lists S' q \<noteq> None" for q
    using that W'(3,4) t z N by (cases "q = p") (auto simp: times_before_def intro: order_trans)
  moreover have "(versions_of R key P S l (\<lambda>p. avals V (A p)))(pid \<mapsto> z) = versions_of R key P S' l (\<lambda>p. avals V' (A' p))"
  proof
    fix q
    show "((versions_of R key P S l (\<lambda>p. avals V (A p)))(pid \<mapsto> z)) q = versions_of R key P S' l (\<lambda>p. avals V' (A' p)) q"
    proof (cases "q \<in> P \<and> q \<noteq> pid")
      case False
      then show ?thesis using pid W'(3) pc by (cases "q = pid") (simp_all add: versions_of_def)
    next
      case True
      obtain r where r: "property_cell R key q S l = Some r" "\<And>c. r = Some c \<Longrightarrow> cell_pid c = q \<and> (\<exists>p. cell_list c = Some p \<and> prop_lists S p \<noteq> None)"
        by (rule property_cell_Some [OF ok, of q]) (use True in auto)
      show ?thesis
      proof (cases r)
        case (Some d)
        obtain p' where p': "cell_list d = Some p'" "prop_lists S p' \<noteq> None" using r(2) [OF Some] by blast
        have "p' \<noteq> p" using property_cells_apart [OF ok pid(1) _ pid(2), of q d] r Some True p' pid(3) by auto
        then show ?thesis using W'(4) p' r Some True pc by (simp add: versions_of_def)
      qed (use r True pc in \<open>simp add: versions_of_def\<close>)
    qed
  qed
  ultimately show ?thesis using W'(1) unfolding prop_abs_def by auto
qed

lemma pending_of_tail:
  assumes rep: "list_rep I ml as vs u" and a: "tail ml = Some a" "GetTransactionID (I a) = t" and v: "IS_VALID_TRX_ID t"
  obtains b h where "u = Some (t, b, h)"
proof (cases u)
  case None
  have "as \<noteq> []" using a(1) rep by (auto simp: list_rep_def)
  then show ?thesis using tail_committed [OF rep [unfolded None]] a valid_trx_id_nonzero [OF v] by simp
next
  case (Some w)
  obtain t' b h where w: "w = (t', b, h)" by (cases w)
  show ?thesis using that tail_pending(1,3) [OF rep [unfolded Some w]] a Some w by simp
qed

lemma commit_written:
  assumes ok: "lists_ok m L V A None" and p: "L p = Some ml" and v: "IS_VALID_TRX_ID t" and t: "times_before now (avals V (A p))"
    and c: "now < c" "c < MAX_TIME" and C: "CommitVersion t c m ml = Some (m', ml')"
  obtains vs b x where "avals V (A p) = (vs, Some (t, b, x))" "written L V A p (vs @ [(c, x)], None) m' (L(p \<mapsto> ml'))"
proof -
  obtain as vs u where A: "A p = (as, vs, u)" by (cases "A p")
  have rep: "list_rep (items m) ml as vs u" by (rule lists_ok_dest [OF ok p A]) (simp add: mvcc_inv_def)
  obtain a where a: "tail ml = Some a" "GetTransactionID (items m a) = t"
    using C by (auto simp: CommitVersion_def bind_eq_Some_conv CHECK_def split: if_splits)
  obtain b h where u: "u = Some (t, b, h)" by (rule pending_of_tail [OF rep a v])
  have vs: "\<forall>d\<in>set (map fst vs). d < c"
    using t c(1) A by (auto simp: times_before_def avals_def)
  have L: "lists_ok m' (L(p \<mapsto> ml')) V (A(p := (as, vs @ [(c, h)], None))) None"
    by (rule commit_lists_ok [OF ok p A [unfolded u] c(2) vs]) (use C in simp)
  have "written L V A p (map (map_prod id (hval V)) vs @ [(c, hval V h)], None) m' (L(p \<mapsto> ml'))"
    unfolding written_def using L p by (intro exI [of _ V] exI [of _ "A(p := (as, vs @ [(c, h)], None))"]) (auto simp: avals_def)
  then show ?thesis using that [of "map (map_prod id (hval V)) vs" b "hval V h"] A u by (simp add: avals_def)
qed

lemma abort_written:
  assumes ok: "lists_ok m L V A None" and p: "L p = Some ml" and v: "IS_VALID_TRX_ID t" and tid: "tid_ok tid m"
    and C: "AbortVersion Property_NeedGC (Property_ValueGC tid) tid t m ml = Some (m', ml')"
  obtains vs b x where "avals V (A p) = (vs, Some (t, b, x))" "written L V A p (vs, None) m' (L(p \<mapsto> ml'))"
proof -
  obtain as vs u where A: "A p = (as, vs, u)" by (cases "A p")
  have rep: "list_rep (items m) ml as vs u" by (rule lists_ok_dest [OF ok p A]) (simp add: mvcc_inv_def)
  obtain a where a: "tail ml = Some a" "GetTransactionID (items m a) = t"
    using C by (auto simp: AbortVersion_def bind_eq_Some_conv CHECK_def split: if_splits)
  obtain b h where u: "u = Some (t, b, h)" by (rule pending_of_tail [OF rep a v])
  let ?A = "A(p := (butlast as, vs, None))" and ?V = "freed h V"
  have L: "lists_ok m' (L(p \<mapsto> ml')) ?V ?A None" by (rule abort_lists_ok [OF ok p A [unfolded u] tid]) (use C in simp)
  have same: "?V g = V g" if "(L(p \<mapsto> ml')) q \<noteq> None" "g \<in> set (live_headers False (?A q))" for q g
    using lists_ok_live [OF L that(1)] that(2) by (auto simp: freed_def split: if_splits)
  have "map (map_prod id (hval ?V)) vs = map (map_prod id (hval V)) vs"
    by (rule avals_committed_cong [of "butlast as" _ None]) (use same [of p] in \<open>simp add: live_headers_def pending_headers_def\<close>)
  moreover have "avals ?V (?A q) = avals V (A q)" if "q \<noteq> p" "L q \<noteq> None" for q
    using avals_cong [of "A q" ?V V] same [of q] that by simp
  moreover have "avals ?V (?A p) = (map (map_prod id (hval ?V)) vs, None)" by (simp add: avals_def)
  ultimately have "written L V A p (map (map_prod id (hval V)) vs, None) m' (L(p \<mapsto> ml'))"
    unfolding written_def using L p by (intro exI [of _ ?V] exI [of _ ?A]) auto
  then show ?thesis using that [of "map (map_prod id (hval V)) vs" b "hval V h"] A u by (simp add: avals_def)
qed

section \<open>Steps\<close>

text \<open>
  One operation at a time, with its arguments and its answer: loading, \<open>ProcessModifyProperty\<close> (whether the property had a cell,
  and whether the write was accepted), \<open>ProcessDropProperty\<close> (whether it was accepted), commit and abort of the pending version of
  a property, and \<open>SelfDefragment\<close>. Commit times grow. A property is added only while the map, if there is one, is kept
  up. The values written fit the 32-bit size of a header.
\<close>

definition ids_ok :: "nat \<Rightarrow> 'p prop_store \<Rightarrow> bool" where
  "ids_ok tid S \<longleftrightarrow> tid < nthreads (row_pool (prop_rows S)) \<and> tid_ok tid (prop_mvcc S)"

datatype 'p prop_action =
    Op_load 'p value_t
  | Op_modify 'p value_t u64 u64 bool bool
  | Op_drop 'p u64 u64 bool
  | Op_commit 'p u64 u64
  | Op_abort 'p u64
  | Op_defragment

inductive prop_act :: "nat \<Rightarrow> ('p \<Rightarrow> 12 word) \<Rightarrow> 'p set \<Rightarrow> 'p prop_action \<Rightarrow> 'p prop_state \<Rightarrow> 'p prop_state \<Rightarrow> bool" for R key P where
  load: "ids_ok tid S \<Longrightarrow> pid \<in> P \<Longrightarrow> fits v \<Longrightarrow> LocateCell R key pid (prop_rows S) l = Some None \<Longrightarrow> cell_map l = NoMap \<Longrightarrow>
    InsertInitialCell R tid pid v S l = Some (S', l') \<Longrightarrow> prop_act R key P (Op_load pid v) (S, l, now) (S', l', now)"
| modify: "ids_ok tid S \<Longrightarrow> pid \<in> P \<Longrightarrow> fits v \<Longrightarrow> IS_VALID_TRX_ID trx_id \<Longrightarrow> (cell_map l \<noteq> NoMap \<longrightarrow> R \<le> rl_count (pl_rows l)) \<Longrightarrow>
    ProcessModifyProperty R key tid pid v trx_id bt S l old_val = Some (y, old_val', S', l') \<Longrightarrow>
    prop_act R key P (Op_modify pid v trx_id bt (fst y) (snd y \<noteq> None)) (S, l, now) (S', l', now)"
| drop: "ids_ok tid S \<Longrightarrow> pid \<in> P \<Longrightarrow> IS_VALID_TRX_ID trx_id \<Longrightarrow>
    ProcessDropProperty R key tid pid trx_id bt S l old_val = Some (r, old_val', S') \<Longrightarrow>
    prop_act R key P (Op_drop pid trx_id bt (r \<noteq> None)) (S, l, now) (S', l, now)"
| commit: "pid \<in> P \<Longrightarrow> IS_VALID_TRX_ID trx_id \<Longrightarrow> now < c \<Longrightarrow> c < MAX_TIME \<Longrightarrow> property_cell R key pid S l = Some (Some cell) \<Longrightarrow>
    cell_list cell = Some p \<Longrightarrow> prop_lists S p = Some ml \<Longrightarrow> CommitVersion trx_id c (prop_mvcc S) ml = Some (m', ml') \<Longrightarrow>
    prop_act R key P (Op_commit pid trx_id c) (S, l, now) (S\<lparr>prop_mvcc := m', prop_lists := (prop_lists S)(p \<mapsto> ml')\<rparr>, l, c)"
| abort: "ids_ok tid S \<Longrightarrow> pid \<in> P \<Longrightarrow> IS_VALID_TRX_ID trx_id \<Longrightarrow> property_cell R key pid S l = Some (Some cell) \<Longrightarrow>
    cell_list cell = Some p \<Longrightarrow> prop_lists S p = Some ml \<Longrightarrow>
    AbortVersion Property_NeedGC (Property_ValueGC tid) tid trx_id (prop_mvcc S) ml = Some (m', ml') \<Longrightarrow>
    prop_act R key P (Op_abort pid trx_id) (S, l, now) (S\<lparr>prop_mvcc := m', prop_lists := (prop_lists S)(p \<mapsto> ml')\<rparr>, l, now)"
| defragment: "ids_ok tid S \<Longrightarrow> PropertyRowList_SelfDefragment R key tid S l = Some (S', l') \<Longrightarrow>
    prop_act R key P Op_defragment (S, l, now) (S', l', now)"

text \<open>
  The specification: a map from properties to their versions, and one outcome for every action with every answer; an answer that does
  not belong to the state is \<open>None\<close>.
\<close>

fun spec_prop_act :: "'p prop_action \<Rightarrow> 'p prop_spec \<Rightarrow> 'p prop_spec option" where
  "spec_prop_act (Op_load pid v) (F, now) = (if F pid = None then Some (F(pid \<mapsto> ([(0, Some v)], None)), now) else None)"
| "spec_prop_act (Op_modify pid v trx_id bt existed ok) (F, now) =
     (case F pid of
        None \<Rightarrow> if \<not> existed \<and> ok then Some (F(pid \<mapsto> ([], Some (trx_id, bt, Some v))), now) else None
      | Some y \<Rightarrow>
          (case spec_write trx_id bt (Some v) y of
             None \<Rightarrow> if existed \<and> \<not> ok then Some (F, now) else None
           | Some z \<Rightarrow> if existed \<and> ok then Some (F(pid \<mapsto> z), now) else None))"
| "spec_prop_act (Op_drop pid trx_id bt ok) (F, now) =
     (case F pid of
        None \<Rightarrow> None
      | Some y \<Rightarrow>
          (case spec_write trx_id bt None y of
             None \<Rightarrow> if ok then None else Some (F, now)
           | Some z \<Rightarrow> if ok then Some (F(pid \<mapsto> z), now) else None))"
| "spec_prop_act (Op_commit pid trx_id c) (F, now) =
     (case F pid of
        Some (vs, Some (t, b, x)) \<Rightarrow> if t = trx_id \<and> now < c then Some (F(pid \<mapsto> (vs @ [(c, x)], None)), c) else None
      | _ \<Rightarrow> None)"
| "spec_prop_act (Op_abort pid trx_id) (F, now) =
     (case F pid of
        Some (vs, Some (t, b, x)) \<Rightarrow> if t = trx_id then Some (F(pid \<mapsto> (vs, None)), now) else None
      | _ \<Rightarrow> None)"
| "spec_prop_act Op_defragment (F, now) = Some (\<lambda>pid. if F pid = Some ([], None) then None else F pid, now)"

text \<open>What a transaction reads, on the versions of a property.\<close>

definition spec_read :: "read_context \<Rightarrow> 'v versions \<Rightarrow> 'v pending \<Rightarrow> dep_trx_map \<Rightarrow> 'v read_result \<times> dep_trx_map" where
  "spec_read x vs u deps =
     (case rc_level x of
        SERIALIZABLE \<Rightarrow> serial_read (rc_preread x) (rc_status x) (rc_trx x) (rc_begin x) (rc_read_only x) vs u deps
      | SNAPSHOT \<Rightarrow> (case snapshot_read (rc_trx x) (rc_begin x) vs u of None \<Rightarrow> NoVersion | Some v \<Rightarrow> Visible v, deps))"

definition prop_reads :: "read_context \<Rightarrow> prop_versions option \<Rightarrow> value_t \<Rightarrow> dep_trx_map \<Rightarrow> (READ_STAT \<times> value_t \<times> dep_trx_map) option" where
  "prop_reads x y ret deps =
     (case y of None \<Rightarrow> Some (NOTFOUND, ret, deps)
      | Some (vs, u) \<Rightarrow>
          (case spec_read x vs u deps of
             (ReadAbort, deps) \<Rightarrow> Some (ABORT, ret, deps)
           | (NoVersion, deps) \<Rightarrow> Some (NOTFOUND, ret, deps)
           | (Visible None, deps) \<Rightarrow> None
           | (Visible (Some v), deps) \<Rightarrow> Some (SUCCESS, v, deps)))"

lemma prop_absE:
  assumes "prop_abs R key P (S, l, now) (F, now')"
  obtains V A where "now' = now" "prop_store_ok R key P S l" "lists_ok (prop_mvcc S) (prop_lists S) V A None"
    "\<forall>q. prop_lists S q \<noteq> None \<longrightarrow> times_before now (avals V (A q))" "F = versions_of R key P S l (\<lambda>p. avals V (A p))"
  using assms unfolding prop_abs_def by auto

lemma prop_absI:
  "prop_store_ok R key P S l \<Longrightarrow> lists_ok (prop_mvcc S) (prop_lists S) V A None \<Longrightarrow>
   (\<And>q. prop_lists S q \<noteq> None \<Longrightarrow> times_before now (avals V (A q))) \<Longrightarrow> F = versions_of R key P S l (\<lambda>p. avals V (A p)) \<Longrightarrow>
   prop_abs R key P (S, l, now) (F, now)"
  unfolding prop_abs_def by auto

lemma versions_of_cell:
  "pid \<in> P \<Longrightarrow> property_cell R key pid S l = Some (Some c) \<Longrightarrow> cell_list c = Some p \<Longrightarrow> versions_of R key P S l B pid = Some (B p)"
  by (simp add: versions_of_def)

lemma commit_sim:
  assumes abs: "prop_abs R key P (S, l, now) (F, n)" and pid: "pid \<in> P" "property_cell R key pid S l = Some (Some cell)" "cell_list cell = Some p"
    and v: "IS_VALID_TRX_ID trx_id" and c: "now < c" "c < MAX_TIME" and p: "prop_lists S p = Some ml"
    and C: "CommitVersion trx_id c (prop_mvcc S) ml = Some (m', ml')"
  shows "\<exists>f'. spec_prop_act (Op_commit pid trx_id c) (F, n) = Some f' \<and> prop_abs R key P (S\<lparr>prop_mvcc := m', prop_lists := (prop_lists S)(p \<mapsto> ml')\<rparr>, l, c) f'"
proof -
  obtain V A where a: "n = now" "prop_store_ok R key P S l" "lists_ok (prop_mvcc S) (prop_lists S) V A None"
    "\<forall>q. prop_lists S q \<noteq> None \<longrightarrow> times_before now (avals V (A q))" "F = versions_of R key P S l (\<lambda>p. avals V (A p))"
    by (rule prop_absE [OF abs])
  have t: "times_before now (avals V (A p))" using a(4) p by simp
  obtain vs b x where W: "avals V (A p) = (vs, Some (trx_id, b, x))" "written (prop_lists S) V A p (vs @ [(c, x)], None) m' ((prop_lists S)(p \<mapsto> ml'))"
    by (rule commit_written [OF a(3) p v t c C])
  have "F pid = Some (vs, Some (trx_id, b, x))" using versions_of_cell [OF pid] W(1) a(5) by simp
  moreover have "times_before c (vs @ [(c, x)], None)" using t W(1) c(1) by (auto simp: times_before_def intro: order_trans)
  ultimately show ?thesis
    using prop_abs_written [OF a(2,4) pid, of _ "S\<lparr>prop_mvcc := m', prop_lists := (prop_lists S)(p \<mapsto> ml')\<rparr>" c] W(2) c a(1,5)
    by (intro exI [of _ "(F(pid \<mapsto> (vs @ [(c, x)], None)), c)"]) auto
qed

lemma abort_sim:
  assumes abs: "prop_abs R key P (S, l, now) (F, n)" and pid: "pid \<in> P" "property_cell R key pid S l = Some (Some cell)" "cell_list cell = Some p"
    and v: "IS_VALID_TRX_ID trx_id" and t: "ids_ok tid S" and p: "prop_lists S p = Some ml"
    and C: "AbortVersion Property_NeedGC (Property_ValueGC tid) tid trx_id (prop_mvcc S) ml = Some (m', ml')"
  shows "\<exists>f'. spec_prop_act (Op_abort pid trx_id) (F, n) = Some f' \<and> prop_abs R key P (S\<lparr>prop_mvcc := m', prop_lists := (prop_lists S)(p \<mapsto> ml')\<rparr>, l, now) f'"
proof -
  obtain V A where a: "n = now" "prop_store_ok R key P S l" "lists_ok (prop_mvcc S) (prop_lists S) V A None"
    "\<forall>q. prop_lists S q \<noteq> None \<longrightarrow> times_before now (avals V (A q))" "F = versions_of R key P S l (\<lambda>p. avals V (A p))"
    by (rule prop_absE [OF abs])
  have tid: "tid_ok tid (prop_mvcc S)" using t by (simp add: ids_ok_def)
  obtain vs b x where W: "avals V (A p) = (vs, Some (trx_id, b, x))" "written (prop_lists S) V A p (vs, None) m' ((prop_lists S)(p \<mapsto> ml'))"
    by (rule abort_written [OF a(3) p v tid C])
  have "F pid = Some (vs, Some (trx_id, b, x))" using versions_of_cell [OF pid] W(1) a(5) by simp
  moreover have "times_before now (vs, None)"
    using spec [OF a(4), of p] p W(1) by (simp add: times_before_def)
  ultimately show ?thesis
    using prop_abs_written [OF a(2,4) pid, of _ "S\<lparr>prop_mvcc := m', prop_lists := (prop_lists S)(p \<mapsto> ml')\<rparr>" now] W(2) a(1,5)
    by (intro exI [of _ "(F(pid \<mapsto> (vs, None)), now)"]) auto
qed

lemma property_cell_Locate: "LocateCell R key pid (prop_rows S) l = Some r \<Longrightarrow> property_cell R key pid S l = Some (map_option (\<lambda>(a, c). cell_at (prop_rows S) a c) r)"
  by (simp add: property_cell_def)

text \<open>A new cell behind the others.\<close>

lemma property_cell_snoc:
  assumes ok: "prop_list_ok R key P (prop_rows S) l rs" and ok': "prop_list_ok R key P (prop_rows S') l' rs'"
    and cs: "the_cells R (prop_rows S') rs' (rl_count (pl_rows l')) = the_cells R (prop_rows S) rs (rl_count (pl_rows l)) @ [x]"
    and new: "cell_pid x \<notin> cell_pid ` set (the_cells R (prop_rows S) rs (rl_count (pl_rows l)))" and q: "q \<in> P"
  shows "property_cell R key q S' l' = (if q = cell_pid x then Some (Some x) else property_cell R key q S l)"
proof -
  have "find (\<lambda>c. cell_pid c = q) (cs @ [x]) = (if q = cell_pid x then Some x else find (\<lambda>c. cell_pid c = q) cs)"
    if "cell_pid x \<notin> cell_pid ` set cs" for cs
    using that by (induction cs) auto
  then show ?thesis using property_cell_find [OF ok q] property_cell_find [OF ok' q] cs new by auto
qed

text \<open>A property that had no cell.\<close>

lemma prop_abs_added:
  assumes a: "prop_store_ok R key P S l" "\<forall>q. prop_lists S q \<noteq> None \<longrightarrow> times_before now (avals V (A q))"
    and ok': "prop_store_ok R key P S' l'" and pid: "pid \<in> P" "property_cell R key pid S' l' = Some (Some c)" "cell_list c = Some p"
    and others: "\<And>q. q \<in> P \<Longrightarrow> q \<noteq> pid \<Longrightarrow> property_cell R key q S' l' = property_cell R key q S l"
    and p: "prop_lists S p = None" and L: "\<And>q. prop_lists S' q \<noteq> None \<Longrightarrow> q = p \<or> prop_lists S q \<noteq> None"
    and l': "lists_ok (prop_mvcc S') (prop_lists S') V' A' None" and z: "avals V' (A' p) = z" "times_before now z"
    and same: "\<And>q. q \<noteq> p \<Longrightarrow> prop_lists S q \<noteq> None \<Longrightarrow> avals V' (A' q) = avals V (A q)"
  shows "prop_abs R key P (S', l', now) ((versions_of R key P S l (\<lambda>p. avals V (A p)))(pid \<mapsto> z), now)"
proof (rule prop_absI [OF ok' l'])
  fix q assume q: "prop_lists S' q \<noteq> None"
  show "times_before now (avals V' (A' q))"
  proof (cases "q = p")
    case False
    then have "prop_lists S q \<noteq> None" using L [OF q] by simp
    then show ?thesis using same [OF False] a(2) by simp
  qed (use z in simp)
next
  show "(versions_of R key P S l (\<lambda>p. avals V (A p)))(pid \<mapsto> z) = versions_of R key P S' l' (\<lambda>p. avals V' (A' p))"
  proof
    fix q
    show "((versions_of R key P S l (\<lambda>p. avals V (A p)))(pid \<mapsto> z)) q = versions_of R key P S' l' (\<lambda>p. avals V' (A' p)) q"
    proof (cases "q \<in> P \<and> q \<noteq> pid")
      case False
      then show ?thesis using pid z(1) by (cases "q = pid") (simp_all add: versions_of_def)
    next
      case True
      obtain r where r: "property_cell R key q S l = Some r" "\<And>c. r = Some c \<Longrightarrow> cell_pid c = q \<and> (\<exists>p. cell_list c = Some p \<and> prop_lists S p \<noteq> None)"
        by (rule property_cell_Some [OF a(1), of q]) (use True in auto)
      show ?thesis
      proof (cases r)
        case (Some d)
        obtain p' where p': "cell_list d = Some p'" "prop_lists S p' \<noteq> None" using r(2) [OF Some] by blast
        then have "p' \<noteq> p" using p by auto
        then show ?thesis using same p' r Some True others by (simp add: versions_of_def)
      qed (use r True others in \<open>simp add: versions_of_def\<close>)
    qed
  qed
qed

lemma load_sim:
  assumes abs: "prop_abs R key P (S, l, now) (F, n)" and t: "ids_ok tid S" and pid: "pid \<in> P" and f: "fits v"
    and new: "LocateCell R key pid (prop_rows S) l = Some None" and m: "cell_map l = NoMap"
    and i: "InsertInitialCell R tid pid v S l = Some (S', l')"
  shows "\<exists>f'. spec_prop_act (Op_load pid v) (F, n) = Some f' \<and> prop_abs R key P (S', l', now) f'"
proof -
  obtain V A where a: "n = now" "prop_store_ok R key P S l" "lists_ok (prop_mvcc S) (prop_lists S) V A None"
    "\<forall>q. prop_lists S q \<noteq> None \<longrightarrow> times_before now (avals V (A q))" "F = versions_of R key P S l (\<lambda>p. avals V (A p))"
    by (rule prop_absE [OF abs])
  obtain rs U where P: "prop_list_ok R key P (prop_rows S) l rs" "pool_used (row_pool (prop_rows S)) U" "set rs \<subseteq> U"
    and fresh: "\<forall>p \<ge> fresh_list S. prop_lists S p = None" using a(2) by (auto simp: prop_store_ok_def)
  have tid: "tid < nthreads (row_pool (prop_rows S))" "tid_ok tid (prop_mvcc S)" using t by (simp_all add: ids_ok_def)
  let ?p = "fresh_list S" let ?x = "\<lparr>cell_pid = pid, cell_list = Some ?p\<rparr>" let ?cs = "the_cells R (prop_rows S) rs (rl_count (pl_rows l))"
  obtain rs' where r: "prop_list_ok R key P (prop_rows S') l' rs'" "rl_count (pl_rows l') = Suc (length ?cs)"
    "the_cells R (prop_rows S') rs' (Suc (length ?cs)) = ?cs @ [?x]" "pid \<notin> cell_pid ` set ?cs"
    by (rule InsertInitialCell_ok [OF P tid(1) pid refl new m i])
  obtain b m1 ml h s where I: "AppendInitialVersion tid (prop_mvcc S) empty_list = Some (b, m1, ml)" "InsertValue (val_store m1) v tid = Some (h, s)"
    "prop_mvcc S' = write_val b h (m1\<lparr>val_store := s\<rparr>)" "prop_lists S' = (prop_lists S)(?p \<mapsto> ml)"
    using i by (auto simp: InsertInitialCell_def Let_def bind_eq_Some_conv)
  have p: "prop_lists S ?p = None" using fresh by simp
  note L = initial_list_ok [OF a(3) p tid(2) f I(1,2)]
  let ?A = "A(?p := ([b], [(0, h)], None))" and ?V = "V(h \<mapsto> v)"
  have pc: "property_cell R key q S' l' = (if q = pid then Some (Some ?x) else property_cell R key q S l)" if "q \<in> P" for q
    using property_cell_snoc [OF P(1) r(1), of ?x q] r(2,3,4) that by simp
  have "prop_abs R key P (S', l', now) ((versions_of R key P S l (\<lambda>p. avals V (A p)))(pid \<mapsto> ([(0, Some v)], None)), now)"
  proof (rule prop_abs_added [OF a(2,4)])
    show "prop_store_ok R key P S' l'" by (rule InsertInitialCell_store_ok [OF a(2) tid(1) pid new m i])
    show "lists_ok (prop_mvcc S') (prop_lists S') ?V ?A None" using L(1) I(3,4) by simp
    show "avals ?V (?A ?p) = ([(0, Some v)], None)" using L(3) by (simp add: avals_def hval_def)
    fix q assume q: "q \<noteq> ?p" "prop_lists S q \<noteq> None"
    have "avals ?V (A q) = avals V (A q)" by (rule avals_cong) (use lists_ok_live [OF a(3) q(2)] L(2) in auto)
    then show "avals ?V (?A q) = avals V (A q)" using q(1) by simp
  qed (use pid pc p I(4) in \<open>auto simp: times_before_def split: if_splits\<close>)
  moreover have "F pid = None"
    using a(5) pid property_cell_Locate [OF new] by (simp add: versions_of_def)
  ultimately show ?thesis using a(1,5) by simp
qed


lemma add_sim:
  assumes abs: "prop_abs R key P (S, l, now) (F, n)" and t: "ids_ok tid S" and pid: "pid \<in> P" and v: "IS_VALID_TRX_ID trx_id" and f: "fits x"
    and full: "cell_map l \<noteq> NoMap \<longrightarrow> R \<le> rl_count (pl_rows l)" and new: "LocateCell R key pid (prop_rows S) l = Some None"
    and al: "AllocateCell R key tid pid (rl_count (pl_rows l)) (rl_tail (pl_rows l)) (prop_rows S) l = Some (ret, M', l')"
    and p: "p = fresh_list S" and S1: "S1 = S\<lparr>prop_rows := M', prop_lists := (prop_lists S)(p \<mapsto> empty_list), fresh_list := p + 1\<rparr>"
  obtains ac where "ret = Some ac" "\<And>y old_val' S'. modify_cell tid ac p False x trx_id bt S1 old_val = Some (y, old_val', S') \<Longrightarrow>
    y = (False, Some p) \<and> (\<exists>f'. spec_prop_act (Op_modify pid x trx_id bt False True) (F, n) = Some f' \<and> prop_abs R key P (S', l', now) f')"
proof -
  obtain V A where a: "n = now" "prop_store_ok R key P S l" "lists_ok (prop_mvcc S) (prop_lists S) V A None"
    "\<forall>q. prop_lists S q \<noteq> None \<longrightarrow> times_before now (avals V (A q))" "F = versions_of R key P S l (\<lambda>p. avals V (A p))"
    by (rule prop_absE [OF abs])
  obtain rs U where P: "prop_list_ok R key P (prop_rows S) l rs" and u: "pool_used (row_pool (prop_rows S)) U" "set rs \<subseteq> U"
    and own: "own_lists S (the_cells R (prop_rows S) rs (rl_count (pl_rows l)))" and fresh: "\<forall>p \<ge> fresh_list S. prop_lists S p = None"
    using a(2) by (auto simp: prop_store_ok_def)
  define cs where "cs = the_cells R (prop_rows S) rs (rl_count (pl_rows l))"
  have tid: "tid < nthreads (row_pool (prop_rows S))" "tid_ok tid (prop_mvcc S)" using t by (simp_all add: ids_ok_def)
  have miss: "pid \<notin> cell_pid ` set cs" using LocateCell_ok [OF P pid cs_def] new by (auto simp: find_upt_None in_set_conv_nth)
  let ?sn = "LocateCell_snapshot l"
  have al': "AllocateCell R key tid pid (snap_count ?sn) (snap_tail ?sn) (prop_rows S) l = Some (ret, M', l')"
    using al by (simp add: LocateCell_snapshot_def)
  have new': "\<forall>i < snap_count ?sn. cell_pid (cs ! i) \<noteq> pid" using miss by (auto simp: LocateCell_snapshot_def cs_def)
  obtain rs' U' where r: "ret = Some (place R rs' (length cs))" "prop_list_ok R key P M' l' rs'" "pool_used (row_pool M') U'" "set rs' \<subseteq> U'"
    "rl_count (pl_rows l') = Suc (length cs)" "the_cells R M' rs' (Suc (length cs)) = cs @ [\<lparr>cell_pid = pid, cell_list = None\<rparr>]"
    by (rule AllocateCell_ok [OF P u tid(1) pid snap_ok_now [OF P] cs_def new' full al']) (use miss in auto)
  let ?ac = "place R rs' (length cs)" let ?x = "\<lparr>cell_pid = pid, cell_list = Some p\<rparr>"
  have pN: "prop_lists S p = None" using fresh p by simp
  note L1 = new_list_ok [OF a(3) pN]
  show ?thesis
  proof (rule that [OF r(1)])
    fix y old_val' S' assume M: "modify_cell tid ?ac p False x trx_id bt S1 old_val = Some (y, old_val', S')"
    have ok1: "lists_ok (prop_mvcc S1) (prop_lists S1) V (A(p := ([], [], None))) None" and p1: "prop_lists S1 p = Some empty_list"
      and t1: "tid_ok tid (prop_mvcc S1)" using L1 S1 tid(2) by simp_all
    have w: "spec_write trx_id bt (Some x) (avals V ((A(p := ([], [], None))) p)) = Some ([], Some (trx_id, bt, Some x))"
      by (simp add: spec_write_def avals_def)
    obtain V' A' where m: "lists_ok (prop_mvcc S') (prop_lists S') V' A' None" "dom (prop_lists S') = dom (prop_lists S1)"
      "avals V' (A' p) = ([], Some (trx_id, bt, Some x))" "\<forall>q. q \<noteq> p \<longrightarrow> prop_lists S q \<noteq> None \<longrightarrow> avals V' (A' q) = avals V (A q)"
      "fresh_list S' = p + 1" "y = (False, Some p)" "prop_rows S' = upd_cell (fst ?ac) (snd ?ac) ((cell_at M' (fst ?ac) (snd ?ac))\<lparr>cell_list := Some p\<rparr>) M'"
      using ok1 p1 t1 v f M
    proof (cases rule: modify_cell_written)
      case (modified z)
      then show ?thesis using that w S1 unfolding written_def by (auto split: if_splits)
    qed (use w in simp)
    have "cell_at M' (fst ?ac) (snd ?ac) = \<lparr>cell_pid = pid, cell_list = None\<rparr>"
      using arg_cong [OF r(6), of "\<lambda>xs. xs ! length cs"] by (simp add: the_cells_nth place_def)
    then have rows: "prop_rows S' = upd_cell (fst ?ac) (snd ?ac) ?x M'" using m(7) by simp
    have ok': "prop_list_ok R key P (prop_rows S') l' rs'" "the_cells R (prop_rows S') rs' (Suc (length cs)) = cs @ [?x]"
      using prop_list_ok_upd [OF r(2), of "length cs" ?x "fst ?ac" "snd ?ac"] r(5,6) rows by simp_all
    have N: "prop_lists S' q \<noteq> None \<longleftrightarrow> q = p \<or> prop_lists S q \<noteq> None" for q using m(2) S1 by (auto simp: dom_def set_eq_iff)
    have "own_lists S' (cs @ [?x])"
    proof -
      obtain ml where ml: "prop_lists S' p = Some ml" using N [of p] by auto
      have "cell_list c \<noteq> Some p" if "c \<in> set cs" for c using own pN that unfolding own_lists_def cs_def by fastforce
      moreover have "own_lists S' cs" by (rule own_lists_mono [OF own [folded cs_def]]) (use N in blast)
      ultimately show ?thesis using ml by (intro own_lists_snoc [of _ _ _ p ml]) auto
    qed
    moreover have "\<forall>q \<ge> fresh_list S'. prop_lists S' q = None"
      using fresh p m(5) N by (metis Suc_eq_plus1 Suc_leD Suc_n_not_le_n)
    moreover have "row_pool (prop_rows S') = row_pool M'" using rows by simp
    ultimately have store': "prop_store_ok R key P S' l'"
      unfolding prop_store_ok_def using ok' r(3,4,5) by (intro exI [of _ rs'] exI [of _ U']) simp
    have pc: "property_cell R key q S' l' = (if q = pid then Some (Some ?x) else property_cell R key q S l)" if "q \<in> P" for q
      using property_cell_snoc [OF P ok'(1), of ?x q] r(5) ok'(2) miss that by (simp add: cs_def)
    have "prop_abs R key P (S', l', now) ((versions_of R key P S l (\<lambda>p. avals V (A p)))(pid \<mapsto> ([], Some (trx_id, bt, Some x))), now)"
      by (rule prop_abs_added [OF a(2,4) store' pid _ _ _ pN _ m(1,3)]) (use pid pc N m(4) in \<open>auto simp: times_before_def split: if_splits\<close>)
    moreover have "F pid = None" using a(5) pid property_cell_Locate [OF new] by (simp add: versions_of_def)
    ultimately show "y = (False, Some p) \<and> (\<exists>f'. spec_prop_act (Op_modify pid x trx_id bt False True) (F, n) = Some f' \<and> prop_abs R key P (S', l', now) f')"
      using a(1,5) m(6) by simp
  qed
qed

lemma located_cell:
  assumes ok: "prop_store_ok R key P S l" and pid: "pid \<in> P" and L: "LocateCell R key pid (prop_rows S) l = Some (Some ac)"
  obtains p where "property_cell R key pid S l = Some (Some (cell_at (prop_rows S) (fst ac) (snd ac)))"
    "cell_list (cell_at (prop_rows S) (fst ac) (snd ac)) = Some p" "prop_lists S p \<noteq> None"
  by (rule property_cell_Some [OF ok pid]) (use that property_cell_Locate [OF L] in \<open>auto split: prod.splits\<close>)

lemma modify_sim:
  assumes abs: "prop_abs R key P (S, l, now) (F, n)" and t: "ids_ok tid S" and pid: "pid \<in> P" and v: "IS_VALID_TRX_ID trx_id" and f: "fits x"
    and full: "cell_map l \<noteq> NoMap \<longrightarrow> R \<le> rl_count (pl_rows l)"
    and M: "ProcessModifyProperty R key tid pid x trx_id bt S l old_val = Some (y, old_val', S', l')"
  shows "\<exists>f'. spec_prop_act (Op_modify pid x trx_id bt (fst y) (snd y \<noteq> None)) (F, n) = Some f' \<and> prop_abs R key P (S', l', now) f'"
proof -
  obtain V A where a: "n = now" "prop_store_ok R key P S l" "lists_ok (prop_mvcc S) (prop_lists S) V A None"
    "\<forall>q. prop_lists S q \<noteq> None \<longrightarrow> times_before now (avals V (A q))" "F = versions_of R key P S l (\<lambda>p. avals V (A p))"
    by (rule prop_absE [OF abs])
  have tid: "tid_ok tid (prop_mvcc S)" using t by (simp add: ids_ok_def)
  obtain r where r: "LocateCell R key pid (prop_rows S) l = Some r"
    using M by (cases "LocateCell R key pid (prop_rows S) l") (simp_all add: ProcessModifyProperty_def LocateCell_def Let_def)
  show ?thesis
  proof (cases r)
    case None
    let ?p = "fresh_list S"
    obtain ret M' l1 where al: "AllocateCell R key tid pid (rl_count (pl_rows l)) (rl_tail (pl_rows l)) (prop_rows S) l = Some (ret, M', l1)"
      using M r None by (cases "AllocateCell R key tid pid (rl_count (pl_rows l)) (rl_tail (pl_rows l)) (prop_rows S) l")
        (auto simp: ProcessModifyProperty_def LocateCell_def LocateCell_snapshot_def Let_def)
    let ?S = "S\<lparr>prop_rows := M', prop_lists := (prop_lists S)(?p \<mapsto> empty_list), fresh_list := ?p + 1\<rparr>"
    obtain ac where ac: "ret = Some ac" "\<And>y old_val' S'. modify_cell tid ac ?p False x trx_id bt ?S old_val = Some (y, old_val', S') \<Longrightarrow>
        y = (False, Some ?p) \<and> (\<exists>f'. spec_prop_act (Op_modify pid x trx_id bt False True) (F, n) = Some f' \<and> prop_abs R key P (S', l1, now) f')"
      by (rule add_sim [OF abs t pid v f full r [unfolded None] al refl refl, of bt old_val]) (rule that)
    have mc: "modify_cell tid ac ?p False x trx_id bt ?S old_val = Some (y, old_val', S')" "l1 = l'"
      using M r None al ac(1) by (auto simp: ProcessModifyProperty_def LocateCell_def LocateCell_snapshot_def Let_def bind_eq_Some_conv)
    show ?thesis using ac(2) [OF mc(1)] mc(2) by (simp del: spec_prop_act.simps)
  next
    case (Some ac)
    let ?c = "cell_at (prop_rows S) (fst ac) (snd ac)"
    obtain p where c: "property_cell R key pid S l = Some (Some ?c)" "cell_list ?c = Some p" "prop_lists S p \<noteq> None"
      by (rule located_cell [OF a(2) pid r [unfolded Some]])
    obtain ml where p: "prop_lists S p = Some ml" using c(3) by auto
    have mc: "modify_cell tid ac p True x trx_id bt S old_val = Some (y, old_val', S')" and l': "l' = l"
      using M r Some c(2) by (auto simp: ProcessModifyProperty_def LocateCell_def Let_def bind_eq_Some_conv)
    have F: "F pid = Some (avals V (A p))" using versions_of_cell [OF pid c(1,2)] a(5) by simp
    from a(3) p tid v f mc show ?thesis
    proof (cases rule: modify_cell_written)
      case conflict
      then show ?thesis using F abs a(1) l' by simp
    next
      case (modified z)
      have "times_before now z" using modified(1) spec [OF a(4), of p] p
        by (auto simp: times_before_def spec_write_def split: prod.splits option.splits if_splits)
      then have "prop_abs R key P (S', l, now) (F(pid \<mapsto> z), now)"
        using prop_abs_written [OF a(2,4) pid c(1,2) modified(3) _ order_refl] modified(5,6) a(5) by simp
      then show ?thesis using F modified(1,2) a(1) l' by simp
    qed
  qed
qed

lemma drop_sim:
  assumes abs: "prop_abs R key P (S, l, now) (F, n)" and t: "ids_ok tid S" and pid: "pid \<in> P" and v: "IS_VALID_TRX_ID trx_id"
    and M: "ProcessDropProperty R key tid pid trx_id bt S l old_val = Some (y, old_val', S')"
  shows "\<exists>f'. spec_prop_act (Op_drop pid trx_id bt (y \<noteq> None)) (F, n) = Some f' \<and> prop_abs R key P (S', l, now) f'"
proof -
  obtain V A where a: "n = now" "prop_store_ok R key P S l" "lists_ok (prop_mvcc S) (prop_lists S) V A None"
    "\<forall>q. prop_lists S q \<noteq> None \<longrightarrow> times_before now (avals V (A q))" "F = versions_of R key P S l (\<lambda>p. avals V (A p))"
    by (rule prop_absE [OF abs])
  have tid: "tid_ok tid (prop_mvcc S)" using t by (simp add: ids_ok_def)
  obtain ac p ml r where L: "LocateCell R key pid (prop_rows S) l = Some (Some ac)"
    and p: "cell_list (cell_at (prop_rows S) (fst ac) (snd ac)) = Some p" "prop_lists S p = Some ml"
    and r: "AppendVersion Property_NeedGC (Property_ValueGC tid) tid trx_id bt (prop_mvcc S) ml = Some r"
    and S': "S' = (case app_item r of None \<Rightarrow> S\<lparr>prop_mvcc := app_mem r, prop_lists := (prop_lists S)(p \<mapsto> app_list r)\<rparr>
      | Some b \<Rightarrow> S\<lparr>prop_lists := (prop_lists S)(p \<mapsto> app_list r), prop_mvcc := upd_item b (\<lambda>it. it\<lparr>val := (val it)\<lparr>byte_count := 0\<rparr>\<rparr>) (app_mem r)\<rparr>)"
    and y: "y \<noteq> None \<longleftrightarrow> app_item r \<noteq> None"
    using M by (auto simp: ProcessDropProperty_def Let_def bind_eq_Some_conv split: option.splits)
  have c: "property_cell R key pid S l = Some (Some (cell_at (prop_rows S) (fst ac) (snd ac)))"
    using property_cell_Locate [OF L] by (cases ac) simp
  have F: "F pid = Some (avals V (A p))" using versions_of_cell [OF pid c p(1)] a(5) by simp
  show ?thesis
  proof (cases "app_item r")
    case None
    from a(3) p(2) tid v r show ?thesis
    proof (cases rule: append_written [where x = None])
      case conflict
      have "(prop_lists S)(p \<mapsto> ml) = prop_lists S" using p(2) by auto
      then have "S' = S" using S' None conflict by simp
      then show ?thesis using F abs a(1) y None conflict(1) by simp
    qed (use None in simp)
  next
    case (Some b)
    obtain z where z: "spec_write trx_id bt None (avals V (A p)) = Some z" "written (prop_lists S) V A p z (prop_mvcc S') (prop_lists S')"
      by (rule drop_written [OF a(3) p(2) tid v r Some]) (use S' Some in simp)
    have "times_before now z" using z(1) spec [OF a(4), of p] p(2)
      by (auto simp: times_before_def spec_write_def split: prod.splits option.splits if_splits)
    then have "prop_abs R key P (S', l, now) (F(pid \<mapsto> z), now)"
      using prop_abs_written [OF a(2,4) pid c p(1) z(2) _ order_refl] S' Some a(5) by simp
    then show ?thesis using F z(1) y Some a(1) by simp
  qed
qed

lemma defragment_sim:
  assumes abs: "prop_abs R key P (S, l, now) (F, n)" and t: "ids_ok tid S"
    and D: "PropertyRowList_SelfDefragment R key tid S l = Some (S', l')"
  shows "\<exists>f'. spec_prop_act (Op_defragment) (F, n) = Some f' \<and> prop_abs R key P (S', l', now) f'"
proof -
  obtain V A where a: "n = now" "prop_store_ok R key P S l" "lists_ok (prop_mvcc S) (prop_lists S) V A None"
    "\<forall>q. prop_lists S q \<noteq> None \<longrightarrow> times_before now (avals V (A q))" "F = versions_of R key P S l (\<lambda>p. avals V (A p))"
    by (rule prop_absE [OF abs])
  have K: "prop_store_ok R key P S' l'" "prop_mvcc S' = prop_mvcc S" "\<forall>p ml. prop_lists S' p = Some ml \<longrightarrow> prop_lists S p = Some ml"
    "\<forall>pid\<in>P. property_cell R key pid S' l' =
       map_option (\<lambda>r. Option.bind r (\<lambda>c. if empty_cell S c then None else Some c)) (property_cell R key pid S l)"
    using SelfDefragment_keeps [OF a(2), of tid] t D by (auto simp: ids_ok_def)
  have e: "empty_cell S c \<longleftrightarrow> avals V (A p) = ([], None)" if h: "cell_list c = Some p" "prop_lists S p \<noteq> None" for c p
  proof -
    obtain ml where ml: "prop_lists S p = Some ml" using h(2) by auto
    obtain as vs u where A: "A p = (as, vs, u)" by (cases "A p")
    have rep: "list_rep (items (prop_mvcc S)) ml as vs u" by (rule lists_ok_dest [OF a(3) ml A]) (simp add: mvcc_inv_def)
    have "head ml = None \<longleftrightarrow> as = []" using list_rep_cells(3) [OF rep] by (cases as) auto
    then show ?thesis using h(1) ml A list_rep_cells(1) [OF rep] by (simp add: empty_cell_def avals_def)
  qed
  let ?F = "\<lambda>pid. if F pid = Some ([], None) then None else F pid"
  have "prop_abs R key P (S', l', now) (?F, now)"
  proof (rule prop_absI [OF K(1)])
    show "lists_ok (prop_mvcc S') (prop_lists S') V A None" unfolding K(2) by (rule sub_lists_ok [OF a(3)]) (use K(3) in blast)
    show "times_before now (avals V (A q))" if "prop_lists S' q \<noteq> None" for q
      using that K(3) a(4) by (metis option.distinct(1) option.exhaust)
    show "?F = versions_of R key P S' l' (\<lambda>p. avals V (A p))"
    proof
      fix q
      show "?F q = versions_of R key P S' l' (\<lambda>p. avals V (A p)) q"
      proof (cases "q \<in> P")
        case True
        obtain r where r: "property_cell R key q S l = Some r" "\<And>c. r = Some c \<Longrightarrow> cell_pid c = q \<and> (\<exists>p. cell_list c = Some p \<and> prop_lists S p \<noteq> None)"
          by (rule property_cell_Some [OF a(2), of q]) (use True in auto)
        show ?thesis
        proof (cases r)
          case (Some c)
          obtain p where p: "cell_list c = Some p" "prop_lists S p \<noteq> None" using r(2) [OF Some] by blast
          show ?thesis using K(4) True r(1) Some p e [OF p] a(5) by (simp add: versions_of_def)
        qed (use K(4) True r(1) a(5) in \<open>simp add: versions_of_def\<close>)
      qed (use a(5) in \<open>simp add: versions_of_def\<close>)
    qed
  qed
  then show ?thesis using a(1) by simp
qed

lemma prop_act_sim:
  assumes "prop_act R key P x s s'" "prop_abs R key P s f"
  shows "\<exists>f'. spec_prop_act x f = Some f' \<and> prop_abs R key P s' f'"
proof -
  obtain F n where f: "f = (F, n)" by (cases f)
  show ?thesis using assms unfolding f
    by (cases rule: prop_act.cases) (blast intro: load_sim modify_sim drop_sim commit_sim abort_sim defragment_sim)+
qed

interpretation pv: simulation "prop_act R key P" spec_prop_act "prop_abs R key P" for R key P
  by unfold_locales (rule prop_act_sim)

section \<open>Reading\<close>

lemma visible_at_map: "visible_at bt (map (map_prod id f) vs) = map_option f (visible_at bt vs)"
proof -
  have "filter (\<lambda>(c, _). c \<le> bt) (map (map_prod id f) vs) = map (map_prod id f) (filter (\<lambda>(c, _). c \<le> bt) vs)"
    by (induction vs) auto
  then show ?thesis by (auto simp: visible_at_def rev_map [symmetric] split: list.splits)
qed

lemma snapshot_read_map:
  "snapshot_read t bt (map (map_prod id f) vs) (map_option (\<lambda>(t, b, h). (t, b, f h)) u) = map_option f (snapshot_read t bt vs u)"
  by (cases u) (auto simp: snapshot_read_def visible_at_map)

lemma visible_at_in: "visible_at bt vs = Some h \<Longrightarrow> h \<in> snd ` set vs"
proof -
  assume "visible_at bt vs = Some h"
  then obtain c xs where "rev (filter (\<lambda>(c, _). c \<le> bt) vs) = (c, h) # xs" by (auto simp: visible_at_def split: list.splits)
  then have "(c, h) \<in> set (rev (filter (\<lambda>(c, _). c \<le> bt) vs))" by simp
  then show ?thesis by force
qed

lemma serial_read_map:
  "serial_read opt st t bt ro (map (map_prod id f) vs) (map_option (\<lambda>(t, b, h). (t, b, f h)) u) deps =
     map_prod (map_read_result f) id (serial_read opt st t bt ro vs u deps)"
  by (cases u; cases "visible_at bt vs"; cases "vs = []")
    (auto simp: serial_read_def visible_at_map last_map Let_def split: prod.splits)

lemma spec_read_map:
  "spec_read x (map (map_prod id f) vs) (map_option (\<lambda>(t, b, h). (t, b, f h)) u) deps = map_prod (map_read_result f) id (spec_read x vs u deps)"
  by (auto simp: spec_read_def snapshot_read_map serial_read_map split: ISOLATION_LEVEL.splits option.splits)

lemma snapshot_read_in: "snapshot_read t bt vs u = Some h \<Longrightarrow> h \<in> set (map snd vs @ pending_headers u)"
  by (auto simp: snapshot_read_def pending_headers_def dest: visible_at_in split: option.splits prod.splits if_splits)

lemma serial_read_in: "serial_read opt st t bt ro vs u deps = (Visible h, d) \<Longrightarrow> h \<in> set (map snd vs @ pending_headers u)"
  by (auto simp: serial_read_def pending_headers_def Let_def dest: visible_at_in split: option.splits prod.splits if_splits)

lemma spec_read_in: "spec_read x vs u deps = (Visible h, d) \<Longrightarrow> h \<in> set (map snd vs @ pending_headers u)"
  unfolding spec_read_def using serial_read_in [of _ _ _ _ _ vs u deps h d] snapshot_read_in [of _ _ vs u h]
  by (auto split: ISOLATION_LEVEL.splits option.splits)

lemma GetVisibleVersion_rep:
  assumes "list_rep I l as vs u" "rc_begin x < MAX_TIME" "IS_VALID_TRX_ID (rc_trx x)"
  shows "GetVisibleVersion (rc_level x) (rc_preread x) (rc_status x) (rc_trx x) (rc_begin x) (rc_read_only x) I l deps = Some (spec_read x vs u deps)"
  using SnapshotLevel_rep [OF assms] SerializableLevel_rep [OF assms]
  by (simp add: GetVisibleVersion_def spec_read_def split: ISOLATION_LEVEL.splits)

lemma ReadProperty_abs:
  assumes abs: "prop_abs R key P (S, l, now) (F, n)" and pid: "pid \<in> P" and x: "rc_begin x < MAX_TIME" "IS_VALID_TRX_ID (rc_trx x)"
  shows "ReadProperty R key x pid S l deps ret = prop_reads x (F pid) ret deps"
proof -
  obtain V A where a: "n = now" "prop_store_ok R key P S l" "lists_ok (prop_mvcc S) (prop_lists S) V A None"
    "\<forall>q. prop_lists S q \<noteq> None \<longrightarrow> times_before now (avals V (A q))" "F = versions_of R key P S l (\<lambda>p. avals V (A p))"
    by (rule prop_absE [OF abs])
  obtain rs where P: "prop_list_ok R key P (prop_rows S) l rs" using a(2) by (auto simp: prop_store_ok_def)
  obtain r where L: "LocateCell R key pid (prop_rows S) l = Some r" using LocateCell_ok [OF P pid refl] by blast
  show ?thesis
  proof (cases r)
    case None
    then show ?thesis using L pid a(5) property_cell_Locate [OF L] by (simp add: ReadProperty_def prop_reads_def versions_of_def)
  next
    case (Some ac)
    let ?c = "cell_at (prop_rows S) (fst ac) (snd ac)"
    obtain p where c: "property_cell R key pid S l = Some (Some ?c)" "cell_list ?c = Some p" "prop_lists S p \<noteq> None"
      by (rule located_cell [OF a(2) pid L [unfolded Some]])
    obtain ml where ml: "prop_lists S p = Some ml" using c(3) by auto
    obtain as vs u where A: "A p = (as, vs, u)" by (cases "A p")
    have rep: "list_rep (items (prop_mvcc S)) ml as vs u" by (rule lists_ok_dest [OF a(3) ml A]) (simp add: mvcc_inv_def)
    have st: "store_abs (val_store (prop_mvcc S)) V" using a(3) by (auto simp: lists_ok_def)
    have F: "F pid = Some (map (map_prod id (hval V)) vs, map_option (\<lambda>(t, b, h). (t, b, hval V h)) u)"
      using versions_of_cell [OF pid c(1,2)] a(5) A by (simp add: avals_def)
    obtain y d where y: "spec_read x vs u deps = (y, d)" by (cases "spec_read x vs u deps")
    have R: "ReadProperty R key x pid S l deps ret =
        (case y of ReadAbort \<Rightarrow> Some (ABORT, ret, d) | NoVersion \<Rightarrow> Some (NOTFOUND, ret, d)
         | Visible h \<Rightarrow> if IsEmpty h then None else Some (SUCCESS, ReadValue (val_store (prop_mvcc S)) h ret, d))"
      using L Some c(2) ml GetVisibleVersion_rep [OF rep x] y
      by (cases ac) (simp add: ReadProperty_def visible_version_def)
    have "IsEmpty h \<or> h \<in> dom V" if "y = Visible h" for h
      using spec_read_in [of x vs u deps h d] y that lists_ok_live [OF a(3) c(3)] A by (auto simp: live_headers_def)
    then show ?thesis
      using R F y spec_read_map [of x "hval V" vs u deps] store_abs_read [OF st]
      by (cases y) (auto simp: prop_reads_def hval_def)
  qed
qed

definition prop_store_start :: "nat \<Rightarrow> nat \<Rightarrow> nat \<Rightarrow> 'p prop_store \<Rightarrow> bool" where
  "prop_store_start B n threads S \<longleftrightarrow>
     2 \<le> B \<and> 0 < threads \<and> MemPool_Init B n threads False = Some (row_pool (prop_rows S)) \<and>
     MemPool_Init B n threads False = Some (item_pool (prop_mvcc S)) \<and>
     (\<exists>mem. ValueStore_Init mem B n threads False = Some (val_store (prop_mvcc S))) \<and> prop_lists S = Map.empty"

lemma prop_abs_start:
  assumes "prop_store_start B n threads S" "0 < R" "inj_on key P"
  shows "prop_abs R key P (S, PropertyRowList_Init, 0) (Map.empty, 0)"
proof -
  have s: "2 \<le> B" "0 < threads" "MemPool_Init B n threads False = Some (row_pool (prop_rows S))"
    "MemPool_Init B n threads False = Some (item_pool (prop_mvcc S))" "prop_lists S = Map.empty"
    using assms(1) unfolding prop_store_start_def by blast+
  obtain mem where v: "ValueStore_Init mem B n threads False = Some (val_store (prop_mvcc S))" using assms(1) by (auto simp: prop_store_start_def)
  have ok: "prop_store_ok R key P S PropertyRowList_Init" by (rule prop_store_ok_init [OF s(3,1,2) assms(2,3) s(5)])
  have "lists_ok (prop_mvcc S) (prop_lists S) Map.empty (\<lambda>_. ([], [], None)) None"
    unfolding lists_ok_def using MemPool_Init_used(1) [OF s(4,1,2)] ValueStore_Init_abs(1) [OF v s(1,2)] s(5)
    by (intro exI [of _ "{}"]) simp
  moreover have "Map.empty = versions_of R key P S PropertyRowList_Init (\<lambda>p. avals Map.empty ([], [], None))"
    using ok by (auto simp: versions_of_def property_cell_def LocateCell_def LocateCell_find_def LocateCell_snapshot_def
        PropertyRowList_Init_def empty_rows_def search_cells_def fun_eq_iff)
  ultimately show ?thesis using s(5) by (intro prop_absI [OF ok]) auto
qed


lemma sample_store_start: "prop_store_start 4 40 2 sample_store"
proof -
  have "ValueStore_Init (\<lambda>_. 0) 4 40 2 False \<noteq> None" "MemPool_Init 4 40 2 False \<noteq> None" by code_simp+
  then show ?thesis by (auto simp: prop_store_start_def sample_store_def blank_store_def)
qed

definition sample_reader :: "u64 \<Rightarrow> read_context" where
  "sample_reader t = \<lparr>rc_level = SERIALIZABLE, rc_preread = False, rc_status = (\<lambda>_. (PROCESSING, 0)), rc_trx = t, rc_begin = 9, rc_read_only = True\<rparr>"


end
