(* ===== verification/List_Family.thy ===== *)
theory List_Family
  imports Property_Versions
begin

text \<open>
  Many version lists over one pool of items, whatever their values are (src/layout/mvcc_list.hpp): each list stands for its
  committed versions and at most one pending version, and an operation on one list keeps what all others stand for.
\<close>

section \<open>Families of version lists\<close>

type_synonym 'v history = "'v versions \<times> 'v pending"

definition fam_cells :: "('v, 's) mvcc_mem \<Rightarrow> (nat \<Rightarrow> mvcc_list option) \<Rightarrow> (nat \<Rightarrow> 'v history) \<Rightarrow> nat set \<Rightarrow> (nat \<Rightarrow> nat list) \<Rightarrow> bool" where
  "fam_cells m L A U C \<longleftrightarrow>
     pool_used (item_pool m) U \<and>
     (\<forall>p ml. L p = Some ml \<longrightarrow> set (C p) \<subseteq> U \<and> list_rep (items m) ml (C p) (fst (A p)) (snd (A p))) \<and>
     (\<forall>p q. p \<noteq> q \<longrightarrow> L p \<noteq> None \<longrightarrow> L q \<noteq> None \<longrightarrow> set (C p) \<inter> set (C q) = {})"

definition fam_ok :: "('v, 's) mvcc_mem \<Rightarrow> (nat \<Rightarrow> mvcc_list option) \<Rightarrow> (nat \<Rightarrow> 'v history) \<Rightarrow> bool" where
  "fam_ok m L A \<longleftrightarrow> (\<exists>U C. fam_cells m L A U C)"

lemma fam_okE:
  assumes "fam_ok m L A"
  obtains U C where "fam_cells m L A U C"
  using assms by (auto simp: fam_ok_def)

lemma fam_rep:
  assumes "fam_ok m L A" "L p = Some ml"
  obtains as where "list_rep (items m) ml as (fst (A p)) (snd (A p))"
  using assms unfolding fam_ok_def fam_cells_def by blast

lemma fam_inv: "fam_cells m L A U C \<Longrightarrow> L p = Some ml \<Longrightarrow> A p = (vs, u) \<Longrightarrow> mvcc_inv m U ml (C p) vs u"
  unfolding fam_cells_def mvcc_inv_def by (metis fst_conv snd_conv)

lemma fam_update:
  assumes ok: "fam_ok m L A" and p: "L p = Some ml" "A p = (vs, u)"
    and upd: "\<And>U as. mvcc_inv m U ml as vs u \<Longrightarrow> \<exists>U' as'. mvcc_inv m' U' ml' as' vs' u' \<and> keeps_others m U as m' U' as'"
  shows "fam_ok m' (L(p \<mapsto> ml')) (A(p := (vs', u')))"
proof -
  obtain U C where F: "fam_cells m L A U C" by (rule fam_okE [OF ok])
  obtain U' as' where U: "mvcc_inv m' U' ml' as' vs' u'" "keeps_others m U (C p) m' U' as'" using upd [OF fam_inv [OF F p]] by blast
  have other: "list_rep (items m') mq (C q) (fst (A q)) (snd (A q)) \<and> set (C q) \<subseteq> U' - set as'" if q: "q \<noteq> p" "L q = Some mq" for q mq
  proof -
    have "set (C q) \<inter> set (C p) = {}" using F q p(1) unfolding fam_cells_def by (metis option.distinct(1))
    then have "list_rep (items m) mq (C q) (fst (A q)) (snd (A q))" "set (C q) \<subseteq> U - set (C p)" using F q unfolding fam_cells_def by blast+
    then show ?thesis using other_list_kept [OF _ _ U(2)] by blast
  qed
  have "fam_cells m' (L(p \<mapsto> ml')) (A(p := (vs', u'))) U' (C(p := as'))"
    unfolding fam_cells_def
  proof (intro conjI allI impI)
    fix q r assume a: "q \<noteq> r" "(L(p \<mapsto> ml')) q \<noteq> None" "(L(p \<mapsto> ml')) r \<noteq> None"
    show "set ((C(p := as')) q) \<inter> set ((C(p := as')) r) = {}"
    proof (cases "q = p \<or> r = p")
      case True
      then show ?thesis using a other by fastforce
    next
      case False
      then show ?thesis using a F unfolding fam_cells_def by simp
    qed
  next
    fix q mq assume q: "(L(p \<mapsto> ml')) q = Some mq"
    show "set ((C(p := as')) q) \<subseteq> U'" using q U(1) other by (cases "q = p") (auto simp: mvcc_inv_def)
    show "list_rep (items m') mq ((C(p := as')) q) (fst ((A(p := (vs', u'))) q)) (snd ((A(p := (vs', u'))) q))"
      using q U(1) other by (cases "q = p") (auto simp: mvcc_inv_def)
  qed (use U(1) in \<open>simp add: mvcc_inv_def\<close>)
  then show ?thesis unfolding fam_ok_def by blast
qed

lemma fam_store: "fam_ok (m\<lparr>val_store := s\<rparr>) L A = fam_ok m L A"
  by (simp add: fam_ok_def fam_cells_def)

lemma fam_new:
  assumes "fam_ok m L A" "L p = None"
  shows "fam_ok m (L(p \<mapsto> empty_list)) (A(p := ([], None)))"
proof -
  obtain U C where F: "fam_cells m L A U C" by (rule fam_okE [OF assms(1)])
  have "fam_cells m (L(p \<mapsto> empty_list)) (A(p := ([], None))) U (C(p := []))"
    using F assms(2) unfolding fam_cells_def by (auto simp: list_rep_empty empty_list_def)
  then show ?thesis unfolding fam_ok_def by blast
qed

lemma fam_sub:
  assumes "fam_ok m L A" "\<And>p ml. L' p = Some ml \<Longrightarrow> L p = Some ml"
  shows "fam_ok m L' A"
proof -
  obtain U C where F: "fam_cells m L A U C" by (rule fam_okE [OF assms(1)])
  have "L p \<noteq> None" if "L' p \<noteq> None" for p using that assms(2) by (metis option.exhaust option.distinct(1))
  then have "fam_cells m L' A U C" using F assms(2) unfolding fam_cells_def by (metis (no_types, lifting))
  then show ?thesis unfolding fam_ok_def by blast
qed

section \<open>Operations on one list of a family\<close>

lemma fam_write:
  assumes ok: "fam_ok m L A" and p: "L p = Some ml" "A p = (vs, Some (t, b, v))" and a: "tail ml = Some a"
  shows "fam_ok (write_val a w m) L (A(p := (vs, Some (t, b, w))))"
proof -
  have "fam_ok (write_val a w m) (L(p \<mapsto> ml)) (A(p := (vs, Some (t, b, w))))"
  proof (rule fam_update [OF ok p])
    fix U as assume i: "mvcc_inv m U ml as vs (Some (t, b, v))"
    have "last as = a" using tail_pending [of "items m" ml as vs t b v] i a by (simp add: mvcc_inv_def)
    then show "\<exists>U' as'. mvcc_inv (write_val a w m) U' ml as' vs (Some (t, b, w)) \<and> keeps_others m U as (write_val a w m) U' as'"
      using write_val_pending(1,2) [OF i, of w] by blast
  qed
  moreover have "L(p \<mapsto> ml) = L" using p(1) by auto
  ultimately show ?thesis by simp
qed

lemma fam_commit:
  assumes ok: "fam_ok m L A" and p: "L p = Some ml" "A p = (vs, Some (t, b, v))" and c: "c < MAX_TIME" "\<forall>d\<in>set (map fst vs). d < c"
  obtains m' ml' where "CommitVersion t c m ml = Some (m', ml')" "val_store m' = val_store m" "nthreads (item_pool m') = nthreads (item_pool m)"
    "fam_ok m' (L(p \<mapsto> ml')) (A(p := (vs @ [(c, v)], None)))"
proof -
  obtain U C where F: "fam_cells m L A U C" by (rule fam_okE [OF ok])
  obtain m' ml' where C: "CommitVersion t c m ml = Some (m', ml')" "keeps_others m U (C p) m' U (C p)" "val_store m' = val_store m"
    using CommitVersion_rep [OF fam_inv [OF F p] c] by metis
  have "fam_ok m' (L(p \<mapsto> ml')) (A(p := (vs @ [(c, v)], None)))"
  proof (rule fam_update [OF ok p])
    show "\<exists>U' as'. mvcc_inv m' U' ml' as' (vs @ [(c, v)]) None \<and> keeps_others m U as m' U' as'" if "mvcc_inv m U ml as vs (Some (t, b, v))" for U as
      using CommitVersion_rep [OF that c] C(1) by (metis option.inject prod.inject)
  qed
  then show ?thesis using that [OF C(1,3)] C(2) by (simp add: keeps_others_def)
qed

lemma fam_abort:
  assumes ok: "fam_ok m L A" and p: "L p = Some ml" "A p = (vs, Some (t, b, v))" and tid: "tid < nthreads (item_pool m)"
  obtains m' ml' where "AbortVersion G F tid t m ml = Some (m', ml')" "val_store m' = (if G v then F v (val_store m) else val_store m)"
    "nthreads (item_pool m') = nthreads (item_pool m)" "fam_ok m' (L(p \<mapsto> ml')) (A(p := (vs, None)))"
proof -
  obtain U C where X: "fam_cells m L A U C" by (rule fam_okE [OF ok])
  obtain m' ml' where C: "AbortVersion G F tid t m ml = Some (m', ml')" "keeps_others m U (C p) m' (U - {last (C p)}) (butlast (C p))"
    "val_store m' = (if G v then F v (val_store m) else val_store m)"
    using AbortVersion_rep [OF fam_inv [OF X p] tid] by metis
  have "fam_ok m' (L(p \<mapsto> ml')) (A(p := (vs, None)))"
  proof (rule fam_update [OF ok p])
    show "\<exists>U' as'. mvcc_inv m' U' ml' as' vs None \<and> keeps_others m U as m' U' as'" if "mvcc_inv m U ml as vs (Some (t, b, v))" for U as
      using AbortVersion_rep [OF that tid] C(1) by (metis option.inject prod.inject)
  qed
  then show ?thesis using that [OF C(1,3)] C(2) by (simp add: keeps_others_def)
qed

lemma fam_append_new:
  assumes ok: "fam_ok m L A" and p: "L p = Some ml" "A p = (vs, None)" and t: "tid < nthreads (item_pool m)" and v: "IS_VALID_TRX_ID trx_id"
    and r: "AppendVersion G F tid trx_id bt m ml = Some r"
  obtains a g where "app_item r = Some a" "tail (app_list r) = Some a" "nthreads (item_pool (app_mem r)) = nthreads (item_pool m)" "val_store (app_mem r) = val_store m"
    "fam_ok (app_mem r) (L(p \<mapsto> app_list r)) (A(p := (vs, Some (trx_id, bt, g))))"
proof -
  obtain U C where X: "fam_cells m L A U C" by (rule fam_okE [OF ok])
  have rep: "list_rep (items m) ml (C p) vs None" using fam_inv [OF X p] by (simp add: mvcc_inv_def)
  obtain a q where g: "MemPool_Get (item_pool m) tid = Some (a, q)" using AppendVersion_gets [OF rep r] by blast
  let ?u = "Some (trx_id, bt, val (items m a))"
  have new: "\<exists>U'. mvcc_inv (app_mem r) U' (app_list r) (as @ [a]) vs ?u \<and>
      keeps_others m U as (app_mem r) U' (as @ [a]) \<and> app_item r = Some a \<and> val_store (app_mem r) = val_store m"
    if "mvcc_inv m U ml as vs None" for U as using AppendVersion_new [OF that t v g, of G F bt] r by auto
  have i: "app_item r = Some a" "val_store (app_mem r) = val_store m" "nthreads (item_pool (app_mem r)) = nthreads (item_pool m)"
    "tail (app_list r) = Some a"
    using new [OF fam_inv [OF X p]] tail_pending(1) [of "items (app_mem r)" "app_list r" "C p @ [a]" vs]
    by (auto simp: keeps_others_def mvcc_inv_def)
  have "fam_ok (app_mem r) (L(p \<mapsto> app_list r)) (A(p := (vs, ?u)))"
    by (rule fam_update [OF ok p]) (use new in blast)
  then show ?thesis using that i by blast
qed

lemma fam_append_own:
  assumes ok: "fam_ok m L A" and p: "L p = Some ml" "A p = (vs, Some (trx_id, b, v))"
    and r: "AppendVersion G F tid trx_id bt m ml = Some r"
  shows "app_item r = tail ml" "app_list r = ml" "nthreads (item_pool (app_mem r)) = nthreads (item_pool m)"
    "val_store (app_mem r) = (if G v then F v (val_store m) else val_store m)" "fam_ok (app_mem r) L A" "tail ml \<noteq> None"
proof -
  obtain U C where X: "fam_cells m L A U C" by (rule fam_okE [OF ok])
  have rep: "list_rep (items m) ml (C p) vs (Some (trx_id, b, v))" using fam_inv [OF X p] by (simp add: mvcc_inv_def)
  have m: "app_mem r = gc_value G F (last (C p)) m" "app_list r = ml" "app_item r = Some (last (C p))"
    using AppendVersion_own [OF rep] r by auto
  have v: "val (items m (last (C p))) = v" "tail ml = Some (last (C p))" using tail_pending [OF rep] by simp_all
  show "app_item r = tail ml" "app_list r = ml" "tail ml \<noteq> None" "nthreads (item_pool (app_mem r)) = nthreads (item_pool m)"
    "val_store (app_mem r) = (if G v then F v (val_store m) else val_store m)"
    using m v by (simp_all add: gc_value_def)
  have "fam_cells (app_mem r) L A U C" using X by (simp add: m gc_value_def fam_cells_def)
  then show "fam_ok (app_mem r) L A" unfolding fam_ok_def by blast
qed

lemma fam_append_conflict:
  assumes ok: "fam_ok m L A" and p: "L p = Some ml" "A p = (vs, Some (t, b, v))" and t: "t \<noteq> trx_id"
    and r: "AppendVersion G F tid trx_id bt m ml = Some r"
  shows "app_item r = None" "app_mem r = m" "app_list r = ml"
proof -
  obtain as where as: "list_rep (items m) ml as vs (Some (t, b, v))" using fam_rep [OF ok p(1)] p(2) by auto
  show "app_item r = None" "app_mem r = m" "app_list r = ml" using AppendVersion_conflict [OF as t, of G F tid bt] r by auto
qed

end
