(* ===== verification/Topology_Props.thy ===== *)
theory Topology_Props
  imports Topology_Rows List_Family
begin

text \<open>
  The edges of a vertex: what a transaction reads from them, how an edge is added, and that defragmentation changes nothing
  that can be read (src/layout/topology_row_list.cpp).
\<close>

section \<open>What a read returns\<close>

text \<open>
  The list \<open>l\<close> holds the cells \<open>cs\<close>, and every version list stands for the committed and pending versions that \<open>A\<close> gives.
\<close>

definition topo_ok :: "topo_store \<Rightarrow> topology_row_list \<Rightarrow> EdgeHeader list \<Rightarrow> (nat \<Rightarrow> EdgeVersion history) \<Rightarrow> bool" where
  "topo_ok S l cs A \<longleftrightarrow>
     (\<exists>rs U. row_chain VE_ROW_CELL_COUNT (topo_rows S) (tl_rows l) rs \<and> pool_used (row_pool (topo_rows S)) U \<and> set rs \<subseteq> U \<and>
        cs = the_cells VE_ROW_CELL_COUNT (topo_rows S) rs (rl_count (tl_rows l))) \<and>
     (\<forall>c\<in>set cs. edge_lists S (edge_list c) \<noteq> None) \<and> fam_ok (edge_mvcc S) (edge_lists S) A \<and>
     (\<forall>p \<ge> fresh_edge S. edge_lists S p = None)"

definition edge_read :: "read_context \<Rightarrow> (nat \<Rightarrow> EdgeVersion history) \<Rightarrow> EdgeHeader \<Rightarrow> EdgeVersion read_result" where
  "edge_read x A c = fst (spec_read x (fst (A (edge_list c))) (snd (A (edge_list c))) Map.empty)"

definition edge_wanted :: "read_context \<Rightarrow> Direction_T \<Rightarrow> label_t \<Rightarrow> (nat \<Rightarrow> EdgeVersion history) \<Rightarrow>
    EdgeHeader \<Rightarrow> bool" where
  "edge_wanted x dir label A c \<longleftrightarrow>
     direction_fits dir c \<and> (case edge_read x A c of Visible v \<Rightarrow> label_fits label v | _ \<Rightarrow> False)"

definition edge_aborts :: "read_context \<Rightarrow> Direction_T \<Rightarrow> (nat \<Rightarrow> EdgeVersion history) \<Rightarrow> EdgeHeader \<Rightarrow> bool" where
  "edge_aborts x dir A c \<longleftrightarrow> direction_fits dir c \<and> edge_read x A c = ReadAbort"

lemma preread_result: "fst (preread opt read_ct trx_id bt read_only t deps) = fst (preread opt read_ct trx_id bt read_only t deps')"
  by (auto simp: preread_def split: prod.splits TRX_STAT.splits)

lemma serial_read_result:
  "fst (serial_read opt read_ct trx_id bt read_only vs u deps) = fst (serial_read opt read_ct trx_id bt read_only vs u deps')"
proof (cases u)
  case (Some y)
  obtain t b w where y: "y = (t, b, w)" by (cases y)
  obtain pr d d' where "preread opt read_ct trx_id bt read_only t deps = (pr, d)" "preread opt read_ct trx_id bt read_only t deps' = (pr, d')"
    using preread_result [of opt read_ct trx_id bt read_only t deps deps'] by (metis fst_conv surj_pair)
  then show ?thesis using Some y by (simp add: serial_read_def)
qed (simp add: serial_read_def)

lemma spec_read_result: "fst (spec_read x vs u deps) = fst (spec_read x vs u deps')"
  by (cases "rc_level x") (simp_all add: spec_read_def serial_read_result [of _ _ _ _ _ _ _ deps deps'])

lemma edge_read_deps: "fst (spec_read x (fst (A (edge_list c))) (snd (A (edge_list c))) deps) = edge_read x A c"
  unfolding edge_read_def by (rule spec_read_result)

lemma edge_cell_body_ok:
  assumes c: "edge_lists S (edge_list c) = Some ml" "list_rep (items (edge_mvcc S)) ml as (fst (A (edge_list c))) (snd (A (edge_list c)))"
    and x: "rc_begin x < MAX_TIME" "IS_VALID_TRX_ID (rc_trx x)"
  shows "\<exists>deps'. edge_cell_body x S dir label emit c (ret, deps) =
    Some (if edge_aborts x dir A c then Stop (ABORT, ret, deps')
          else Continue (if edge_wanted x dir label A c then ret @ [emit c] else ret, deps'))"
proof (cases "direction_fits dir c")
  case True
  obtain r d where r: "spec_read x (fst (A (edge_list c))) (snd (A (edge_list c))) deps = (r, d)" by fastforce
  then have "edge_read x A c = r" using edge_read_deps [of x A c deps] by simp
  then show ?thesis using True c(1) GetVisibleVersion_rep [OF c(2) x, of deps] r
    by (cases r) (auto simp: edge_cell_body_def visible_edge_def edge_aborts_def edge_wanted_def intro!: exI [of _ d])
qed (simp add: edge_cell_body_def edge_aborts_def edge_wanted_def)

lemma edge_loop_ok:
  assumes "\<forall>c\<in>set cs. \<exists>ml as. edge_lists S (edge_list c) = Some ml \<and>
        list_rep (items (edge_mvcc S)) ml as (fst (A (edge_list c))) (snd (A (edge_list c)))"
    and x: "rc_begin x < MAX_TIME" "IS_VALID_TRX_ID (rc_trx x)"
  shows "\<exists>st ret' deps'. map_option (finish_read SUCCESS) (list_loop (edge_cell_body x S dir label emit) cs (ret, deps)) = Some (st, ret', deps') \<and>
    (if \<exists>c\<in>set cs. edge_aborts x dir A c then st = ABORT
     else st = SUCCESS \<and> ret' = ret @ map emit (filter (edge_wanted x dir label A) cs))"
  using assms(1)
proof (induction cs arbitrary: ret deps)
  case (Cons c cs)
  obtain ml as where c: "edge_lists S (edge_list c) = Some ml" "list_rep (items (edge_mvcc S)) ml as (fst (A (edge_list c))) (snd (A (edge_list c)))"
    using Cons.prems by auto
  obtain d where d: "edge_cell_body x S dir label emit c (ret, deps) =
      Some (if edge_aborts x dir A c then Stop (ABORT, ret, d)
            else Continue (if edge_wanted x dir label A c then ret @ [emit c] else ret, d))"
    using edge_cell_body_ok [where A = A, OF c x] by blast
  show ?case
  proof (cases "edge_aborts x dir A c")
    case False
    have "\<forall>c\<in>set cs. \<exists>ml as. edge_lists S (edge_list c) = Some ml \<and>
        list_rep (items (edge_mvcc S)) ml as (fst (A (edge_list c))) (snd (A (edge_list c)))" using Cons.prems by simp
    from Cons.IH [OF this, of "if edge_wanted x dir label A c then ret @ [emit c] else ret" d]
    obtain st ret' deps' where "map_option (finish_read SUCCESS) (list_loop (edge_cell_body x S dir label emit) cs
          (if edge_wanted x dir label A c then ret @ [emit c] else ret, d)) = Some (st, ret', deps')"
      "if \<exists>c\<in>set cs. edge_aborts x dir A c then st = ABORT
       else st = SUCCESS \<and> ret' = (if edge_wanted x dir label A c then ret @ [emit c] else ret) @ map emit (filter (edge_wanted x dir label A) cs)"
      by blast
    then show ?thesis using False d by (intro exI [of _ st] exI [of _ ret'] exI [of _ deps']) (simp split: if_splits)
  qed (use d in \<open>simp add: finish_read_def\<close>)
qed (simp add: finish_read_def)

lemma list_loop_map: "list_loop (\<lambda>i. f (g i)) xs = list_loop f (map g xs)"
  by (induction xs) (intro ext, simp)+

lemma read_edges_ok:
  assumes ok: "topo_ok S l cs A" and x: "rc_begin x < MAX_TIME" "IS_VALID_TRX_ID (rc_trx x)"
  shows "\<exists>st ret deps'. read_edges emit x dir label S l deps = Some (st, ret, deps') \<and>
    (if \<exists>c\<in>set cs. edge_aborts x dir A c then st = ABORT
     else st = SUCCESS \<and> ret = map (emit l) (filter (edge_wanted x dir label A) cs))"
proof -
  obtain rs where c: "row_chain VE_ROW_CELL_COUNT (topo_rows S) (tl_rows l) rs" "cs = the_cells VE_ROW_CELL_COUNT (topo_rows S) rs (rl_count (tl_rows l))"
    and L: "\<forall>c\<in>set cs. edge_lists S (edge_list c) \<noteq> None" and fam: "fam_ok (edge_mvcc S) (edge_lists S) A"
    using ok unfolding topo_ok_def by blast
  have reps: "\<forall>c\<in>set cs. \<exists>ml as. edge_lists S (edge_list c) = Some ml \<and>
        list_rep (items (edge_mvcc S)) ml as (fst (A (edge_list c))) (snd (A (edge_list c)))"
    using L fam_rep [OF fam] by (metis option.exhaust)
  show ?thesis
  proof (cases "rl_head (tl_rows l)")
    case None
    have "rs = []" using c(1) None by (cases rs) (auto simp: row_chain_def)
    then have "cs = []" using c row_in_chain [OF c(1), of 0] by (cases "rl_count (tl_rows l)") (auto simp: the_cells_def)
    then show ?thesis using None by (simp add: read_edges_def)
  next
    case (Some h)
    have "read_edges emit x dir label S l deps =
        map_option (finish_read SUCCESS) (list_loop (edge_cell_body x S dir label (emit l)) cs ([], deps))"
      using Some c(2) row_loop_all [OF c(1), of "\<lambda>_ a c. edge_cell_body x S dir label (emit l) (cell_at (topo_rows S) a c)" "([], deps)"]
      by (simp add: read_edges_def map_conv_bind_option comp_def the_cells_def flip: list_loop_map)
    then show ?thesis using edge_loop_ok [where A = A, OF reps x, of dir label "emit l" "[]" deps] by (simp only: append_Nil)
  qed
qed


section \<open>New edges\<close>

lemma VE_positive: "0 < VE_ROW_CELL_COUNT"
  by (simp add: VE_ROW_CELL_COUNT_def InferElementCount_def)

lemma topo_okE:
  assumes "topo_ok S l cs A"
  obtains rs U where "row_chain VE_ROW_CELL_COUNT (topo_rows S) (tl_rows l) rs" "pool_used (row_pool (topo_rows S)) U" "set rs \<subseteq> U"
    "cs = the_cells VE_ROW_CELL_COUNT (topo_rows S) rs (rl_count (tl_rows l))" "\<forall>c\<in>set cs. edge_lists S (edge_list c) \<noteq> None"
    "fam_ok (edge_mvcc S) (edge_lists S) A" "\<forall>p \<ge> fresh_edge S. edge_lists S p = None"
  using assms unfolding topo_ok_def by blast

lemma AllocateCell_topo:
  assumes ok: "topo_ok S l cs A" and tid: "tid < nthreads (row_pool (topo_rows S))" and p: "edge_lists S p \<noteq> None"
    and a: "Topology_AllocateCell tid out v p S l = Some (S', l')"
  shows "topo_ok S' l' (cs @ [\<lparr>is_out = out, conn_vtx_id = v, edge_list = p\<rparr>]) A" "my_vid l' = my_vid l"
    "nthreads (row_pool (topo_rows S')) = nthreads (row_pool (topo_rows S))" "edge_mvcc S' = edge_mvcc S" "edge_lists S' = edge_lists S"
proof -
  let ?c = "\<lparr>is_out = out, conn_vtx_id = v, edge_list = p\<rparr>"
  obtain rs U where T: "row_chain VE_ROW_CELL_COUNT (topo_rows S) (tl_rows l) rs" "pool_used (row_pool (topo_rows S)) U" "set rs \<subseteq> U"
    "cs = the_cells VE_ROW_CELL_COUNT (topo_rows S) rs (rl_count (tl_rows l))" "\<forall>c\<in>set cs. edge_lists S (edge_list c) \<noteq> None"
    "fam_ok (edge_mvcc S) (edge_lists S) A" "\<forall>p \<ge> fresh_edge S. edge_lists S p = None"
    by (rule topo_okE [OF ok])
  obtain b d M rl where A: "append_cell VE_ROW_CELL_COUNT tid ?c (topo_rows S) (tl_rows l) = Some (b, d, M, rl)"
    "S' = S\<lparr>topo_rows := M\<rparr>" "l' = l\<lparr>tl_rows := rl\<rparr>"
    using a by (auto simp: Topology_AllocateCell_def bind_eq_Some_conv)
  obtain rs' U' where R: "row_chain VE_ROW_CELL_COUNT M rl rs'" "pool_used (row_pool M) U'" "set rs' \<subseteq> U'"
    "nthreads (row_pool M) = nthreads (row_pool (topo_rows S))" "rl_count rl = Suc (rl_count (tl_rows l))"
    "the_cells VE_ROW_CELL_COUNT M rs' (Suc (rl_count (tl_rows l))) = the_cells VE_ROW_CELL_COUNT (topo_rows S) rs (rl_count (tl_rows l)) @ [?c]"
    by (rule append_cell_ok [OF T(1-3) tid A(1)])
  show "topo_ok S' l' (cs @ [?c]) A" unfolding topo_ok_def
  proof (intro conjI exI)
    show "row_chain VE_ROW_CELL_COUNT (topo_rows S') (tl_rows l') rs'" "pool_used (row_pool (topo_rows S')) U'" "set rs' \<subseteq> U'"
      "cs @ [?c] = the_cells VE_ROW_CELL_COUNT (topo_rows S') rs' (rl_count (tl_rows l'))"
      using R A T(4) by simp_all
  qed (use A T p in auto)
  show "my_vid l' = my_vid l" "nthreads (row_pool (topo_rows S')) = nthreads (row_pool (topo_rows S))"
    "edge_mvcc S' = edge_mvcc S" "edge_lists S' = edge_lists S" using A R(4) by simp_all
qed

text \<open>
  A new edge is one more cell at the end; its list has one version, which is pending.
\<close>

lemma ProcessAddEdge_ok:
  assumes ok: "topo_ok S l cs A" and tid: "tid < nthreads (row_pool (topo_rows S))" "tid < nthreads (item_pool (edge_mvcc S))"
    and v: "IS_VALID_TRX_ID trx_id" and a: "ProcessAddEdge tid out v label ep trx_id bt S l = Some (p, S', l')"
  shows "p = fresh_edge S" "topo_ok S' l' (cs @ [\<lparr>is_out = out, conn_vtx_id = v, edge_list = p\<rparr>])
    (A(p := ([], Some (trx_id, bt, \<lparr>ev_label = label, ep_row_list = ep\<rparr>))))"
proof -
  let ?v = "\<lparr>ev_label = label, ep_row_list = ep\<rparr>"
  obtain rs U where T: "row_chain VE_ROW_CELL_COUNT (topo_rows S) (tl_rows l) rs" "pool_used (row_pool (topo_rows S)) U" "set rs \<subseteq> U"
    "cs = the_cells VE_ROW_CELL_COUNT (topo_rows S) rs (rl_count (tl_rows l))" "\<forall>c\<in>set cs. edge_lists S (edge_list c) \<noteq> None"
    "fam_ok (edge_mvcc S) (edge_lists S) A" "\<forall>p \<ge> fresh_edge S. edge_lists S p = None"
    by (rule topo_okE [OF ok])
  define q where "q = fresh_edge S"
  obtain r b where r: "AppendVersion Edge_NeedGC (Edge_ValueGC tid) tid trx_id bt (edge_mvcc S) empty_list = Some r" "app_item r = Some b"
    and al: "Topology_AllocateCell tid out v q (S\<lparr>edge_mvcc := write_val b ?v (app_mem r), edge_lists := (edge_lists S)(q \<mapsto> app_list r),
        fresh_edge := q + 1\<rparr>) l = Some (S', l')" and p: "p = q"
    using a by (auto simp: ProcessAddEdge_def bind_eq_Some_conv Let_def q_def)
  let ?S = "S\<lparr>edge_mvcc := write_val b ?v (app_mem r), edge_lists := (edge_lists S)(q \<mapsto> app_list r), fresh_edge := q + 1\<rparr>"
  have fam: "fam_ok (edge_mvcc S) ((edge_lists S)(q \<mapsto> empty_list)) (A(q := ([], None)))"
    using fam_new [OF T(6)] T(7) by (simp add: q_def)
  obtain c g where F: "app_item r = Some c" "tail (app_list r) = Some c"
    "fam_ok (app_mem r) ((edge_lists S)(q \<mapsto> empty_list, q \<mapsto> app_list r)) (A(q := ([], None), q := ([], Some (trx_id, bt, g))))"
    by (rule fam_append_new [OF fam _ _ tid(2) v r(1), of q "[]"]) simp_all
  have F': "fam_ok (app_mem r) ((edge_lists S)(q \<mapsto> app_list r)) (A(q := ([], Some (trx_id, bt, g))))" using F(3) by simp
  have "fam_ok (write_val b ?v (app_mem r)) ((edge_lists S)(q \<mapsto> app_list r)) (A(q := ([], Some (trx_id, bt, ?v))))"
    using fam_write [OF F', of q "app_list r" "[]" trx_id bt g b ?v] F(1,2) r(2) by simp
  then have "topo_ok ?S l cs (A(q := ([], Some (trx_id, bt, ?v))))"
    using T unfolding topo_ok_def by (auto simp: q_def)
  from AllocateCell_topo(1) [OF this _ _ al] show "topo_ok S' l' (cs @ [\<lparr>is_out = out, conn_vtx_id = v, edge_list = p\<rparr>])
    (A(p := ([], Some (trx_id, bt, ?v))))" using tid(1) p by simp
  show "p = fresh_edge S" using p by (simp add: q_def)
qed

section \<open>Defragmentation\<close>

definition edge_empty :: "topo_store \<Rightarrow> EdgeHeader \<Rightarrow> bool" where
  "edge_empty S c = (case edge_lists S (edge_list c) of None \<Rightarrow> True | Some ml \<Rightarrow> head ml = None)"

definition gathered :: "topo_store \<Rightarrow> vid_t \<Rightarrow> nat list \<Rightarrow> EdgeHeader list \<Rightarrow> (eid_t \<times> bool) list \<Rightarrow> nat \<Rightarrow>
    nat list \<times> (nat \<times> nat) list \<times> (eid_t \<times> bool) list \<Rightarrow> bool" where
  "gathered S me rs cs eids j s \<longleftrightarrow>
     s = (take (Suc ((j - 1) div VE_ROW_CELL_COUNT)) rs,
          map (\<lambda>e. (e div VE_ROW_CELL_COUNT, e mod VE_ROW_CELL_COUNT)) (empties (edge_empty S) cs 0 j),
          eids @ map (\<lambda>c. (cell_eid me c, is_out c)) (filter (edge_empty S) (take j cs)))"

lemma edge_cell_empty_ok: "edge_lists S (edge_list c) \<noteq> None \<Longrightarrow> edge_cell_empty S c = Some (edge_empty S c)"
  by (auto simp: edge_cell_empty_def edge_empty_def)

lemma gather_step:
  assumes c: "row_chain VE_ROW_CELL_COUNT (topo_rows S) l rs" and cs: "cs = the_cells VE_ROW_CELL_COUNT (topo_rows S) rs (rl_count l)"
    and L: "\<forall>c\<in>set cs. edge_lists S (edge_list c) \<noteq> None" and j: "j < rl_count l" and s: "gathered S me rs cs eids j s"
  shows "\<exists>s'. gather_body S me j (rs ! (j div VE_ROW_CELL_COUNT)) (j mod VE_ROW_CELL_COUNT) s = Some (Continue s') \<and>
    gathered S me rs cs eids (Suc j) s'"
proof -
  let ?R = VE_ROW_CELL_COUNT
  have x: "cell_at (topo_rows S) (rs ! (j div ?R)) (j mod ?R) = cs ! j" "j < length cs"
    using j cs by (simp_all add: the_cells_nth)
  have np: "next_ptrs j (rs ! (j div ?R)) (j mod ?R) (take (Suc ((j - 1) div ?R)) rs) = take (Suc (j div ?R)) rs"
    by (rule next_ptrs_take [OF c j])
  have e: "edge_cell_empty S (cs ! j) = Some (edge_empty S (cs ! j))" using L nth_mem [OF x(2)] edge_cell_empty_ok by blast
  show ?thesis using s np e x by (simp add: gathered_def gather_body_def Let_def empties_Suc take_Suc_conv_app_nth)
qed

lemma gather_all:
  assumes c: "row_chain VE_ROW_CELL_COUNT (topo_rows S) l rs" and cs: "cs = the_cells VE_ROW_CELL_COUNT (topo_rows S) rs (rl_count l)"
    and L: "\<forall>c\<in>set cs. edge_lists S (edge_list c) \<noteq> None" and h: "rl_head l = Some h"
  shows "row_loop VE_ROW_CELL_COUNT (topo_rows S) (gather_body S me) 0 (rl_count l) (Some h) ([h], [], eids) =
    Some (Continue (rs, map (\<lambda>e. (e div VE_ROW_CELL_COUNT, e mod VE_ROW_CELL_COUNT)) (empties (edge_empty S) cs 0 (rl_count l)),
      eids @ map (\<lambda>c. (cell_eid me c, is_out c)) (filter (edge_empty S) cs)))"
proof -
  let ?R = VE_ROW_CELL_COUNT
  have "rs \<noteq> []" "hd rs = h" using c h by (auto simp: row_chain_def split: if_splits)
  then have "gathered S me rs cs eids 0 ([h], [], eids)" by (cases rs) (auto simp: gathered_def empties_def)
  from list_loop_inv [where Inv = "gathered S me rs cs eids", OF this, of "rl_count l"
      "\<lambda>i. gather_body S me i (rs ! (i div ?R)) (i mod ?R)"] gather_step [OF c cs L]
  obtain s where s: "list_loop (\<lambda>i. gather_body S me i (rs ! (i div ?R)) (i mod ?R)) [0..<rl_count l] ([h], [], eids) = Some (Continue s)"
    "gathered S me rs cs eids (rl_count l) s" by auto
  have "length rs \<le> Suc ((rl_count l - 1) div ?R)"
  proof (cases "rl_count l = 0")
    case True
    then show ?thesis using c \<open>rs \<noteq> []\<close> by (simp add: row_chain_def)
  next
    case False
    then obtain k where k: "rl_count l = Suc k" by (cases "rl_count l") auto
    then show ?thesis using c by (auto simp: row_chain_def div_Suc mod_Suc split: if_splits)
  qed
  then have "take (Suc ((rl_count l - 1) div ?R)) rs = rs" by simp
  moreover have "take (rl_count l) cs = cs" using cs by simp
  ultimately show ?thesis using s row_loop_all [OF c, of "gather_body S me" "([h], [], eids)"] h by (simp add: gathered_def)
qed

lemma defragment_topo:
  assumes ok: "topo_ok S l cs A" and tid: "tid < nthreads (row_pool (topo_rows S))"
  obtains S' l' ds where "TopologyRowList_SelfDefragment tid eids S l =
      Some (eids @ map (\<lambda>c. (cell_eid (my_vid l) c, is_out c)) (filter (edge_empty S) cs), S', l')"
    "topo_ok S' l' ds A" "mset ds = mset (filter (\<lambda>c. \<not> edge_empty S c) cs)" "my_vid l' = my_vid l"
    "edge_mvcc S' = edge_mvcc S" "edge_lists S' = edge_lists S"
proof -
  let ?R = VE_ROW_CELL_COUNT
  obtain rs U where T: "row_chain ?R (topo_rows S) (tl_rows l) rs" "pool_used (row_pool (topo_rows S)) U" "set rs \<subseteq> U"
    "cs = the_cells ?R (topo_rows S) rs (rl_count (tl_rows l))" "\<forall>c\<in>set cs. edge_lists S (edge_list c) \<noteq> None"
    "fam_ok (edge_mvcc S) (edge_lists S) A" "\<forall>p \<ge> fresh_edge S. edge_lists S p = None"
    by (rule topo_okE [OF ok])
  define E where "E = empties (edge_empty S) cs 0 (rl_count (tl_rows l))"
  have len: "length cs = rl_count (tl_rows l)" using T(4) by simp
  show ?thesis
  proof (cases "rl_head (tl_rows l)")
    case None
    then have "rs = []" using T(1) by (cases rs) (auto simp: row_chain_def)
    then have "cs = []" using T row_in_chain [OF T(1), of 0] by (cases "rl_count (tl_rows l)") (auto simp: the_cells_def)
    then show ?thesis using that [of S l cs] None ok by (simp add: TopologyRowList_SelfDefragment_def)
  next
    case (Some h)
    note g = gather_all [OF T(1,4,5) Some, of "my_vid l" eids, folded E_def]
    show ?thesis
    proof (cases "E = []")
      case True
      then have "filter (edge_empty S) cs = []"
        using len by (auto simp: E_def empties_def filter_empty_conv in_set_conv_nth)
      then show ?thesis using that [of S l cs] True Some g ok
        by (simp add: TopologyRowList_SelfDefragment_def filter_empty_conv)
    next
      case False
      obtain M rl rs' where D: "defragment ?R tid (edge_cell_empty S) rs (map (\<lambda>e. (e div ?R, e mod ?R)) E) (topo_rows S) (tl_rows l) = Some (M, rl)"
        "row_chain ?R M rl rs'" "pool_used (row_pool M) (U - (set rs - set rs'))" "set rs' \<subseteq> set rs"
        "mset (the_cells ?R M rs' (rl_count rl)) = mset (used_cells (edge_empty S) cs)"
        by (rule defragment_ok [OF T(1-3) tid T(4) _ E_def False, of "edge_cell_empty S"]) (use T(5) edge_cell_empty_ok in blast)+
      let ?ds = "the_cells ?R M rs' (rl_count rl)"
      have m: "mset ?ds = mset (filter (\<lambda>c. \<not> edge_empty S c) cs)" using D(5) by (simp add: used_cells_def)
      then have "set ?ds \<subseteq> set cs" using mset_eq_setD by fastforce
      then have "topo_ok (S\<lparr>topo_rows := M\<rparr>) (l\<lparr>tl_rows := rl\<rparr>) ?ds A"
        using T D unfolding topo_ok_def by (intro conjI exI [of _ rs'] exI [of _ "U - (set rs - set rs')"]) auto
      then show ?thesis using that [OF _ _ m] Some g D(1) False by (simp add: TopologyRowList_SelfDefragment_def)
    qed
  qed
qed

lemma empty_history:
  assumes "fam_ok m L A" "L p = Some ml" "head ml = None"
  shows "A p = ([], None)"
proof -
  obtain as where as: "list_rep (items m) ml as (fst (A p)) (snd (A p))" by (rule fam_rep [OF assms(1,2)])
  have "as = []" using list_rep_cells(3) [OF as] assms(3) by (cases as) (auto simp: first_cell_def)
  then show ?thesis using as list_rep_cells by (cases "A p"; cases "fst (A p)"; cases "snd (A p)") (auto simp: list_rep_def)
qed

lemma edge_empty_unread:
  assumes "topo_ok S l cs A" "c \<in> set cs" "edge_empty S c"
  shows "edge_read x A c = NoVersion"
proof -
  obtain ml where "edge_lists S (edge_list c) = Some ml" "head ml = None"
    using assms unfolding topo_ok_def edge_empty_def by (auto split: option.splits)
  then have "A (edge_list c) = ([], None)" using empty_history assms(1) unfolding topo_ok_def by blast
  then show ?thesis by (cases "rc_level x") (simp_all add: edge_read_def spec_read_def serial_read_def snapshot_read_def visible_at_def)
qed

text \<open>
  C7. Defragmentation of the edges of a vertex succeeds and does not change what any transaction reads: before and after
  it, at both isolation levels, a read of the connected edges has the same status, and if it is successful returns the
  same edges with the same multiplicities (cells move, so their order may change). The edges it reports for removal from
  the edge maps are exactly those whose version list is empty.
\<close>

theorem defragment_keeps_edges:
  assumes "topo_ok S l cs A" "tid < nthreads (row_pool (topo_rows S))" "rc_begin x < MAX_TIME" "IS_VALID_TRX_ID (rc_trx x)"
  shows "\<exists>S' l' st ret ret' deps1 deps2.
    TopologyRowList_SelfDefragment tid eids S l =
      Some (eids @ map (\<lambda>c. (cell_eid (my_vid l) c, is_out c)) (filter (edge_empty S) cs), S', l') \<and>
    ReadConnectedEdge x dir label S l deps = Some (st, ret, deps1) \<and>
    ReadConnectedEdge x dir label S' l' deps = Some (st, ret', deps2) \<and>
    (st = SUCCESS \<longrightarrow> mset ret' = mset ret)"
proof -
  obtain S' l' ds where D: "TopologyRowList_SelfDefragment tid eids S l =
      Some (eids @ map (\<lambda>c. (cell_eid (my_vid l) c, is_out c)) (filter (edge_empty S) cs), S', l')"
    "topo_ok S' l' ds A" "mset ds = mset (filter (\<lambda>c. \<not> edge_empty S c) cs)" "my_vid l' = my_vid l"
    by (rule defragment_topo [OF assms(1,2)])
  have set: "set ds = {c \<in> set cs. \<not> edge_empty S c}" using mset_eq_setD [OF D(3)] by simp
  have dead: "\<not> edge_aborts x dir A c" "\<not> edge_wanted x dir label A c" if "c \<in> set cs" "edge_empty S c" for c
    using edge_empty_unread [OF assms(1) that, of x] by (simp_all add: edge_aborts_def edge_wanted_def)
  have same: "(\<exists>c\<in>set ds. edge_aborts x dir A c) \<longleftrightarrow> (\<exists>c\<in>set cs. edge_aborts x dir A c)" using set dead(1) by blast
  have "filter (edge_wanted x dir label A) (filter (\<lambda>c. \<not> edge_empty S c) cs) = filter (edge_wanted x dir label A) cs"
    using dead(2) by (auto intro!: filter_cong)
  then have wanted: "mset (filter (edge_wanted x dir label A) ds) = mset (filter (edge_wanted x dir label A) cs)"
    using D(3) mset_filter [of "edge_wanted x dir label A"] by metis
  obtain st1 ret1 d1 where r1: "ReadConnectedEdge x dir label S l deps = Some (st1, ret1, d1)"
    "if \<exists>c\<in>set cs. edge_aborts x dir A c then st1 = ABORT
     else st1 = SUCCESS \<and> ret1 = map (cell_eid (my_vid l)) (filter (edge_wanted x dir label A) cs)"
    using read_edges_ok [OF assms(1,3,4)] unfolding ReadConnectedEdge_def by blast
  obtain st2 ret2 d2 where r2: "ReadConnectedEdge x dir label S' l' deps = Some (st2, ret2, d2)"
    "if \<exists>c\<in>set ds. edge_aborts x dir A c then st2 = ABORT
     else st2 = SUCCESS \<and> ret2 = map (cell_eid (my_vid l')) (filter (edge_wanted x dir label A) ds)"
    using read_edges_ok [OF D(2) assms(3,4)] unfolding ReadConnectedEdge_def by blast
  have st: "st2 = st1 \<and> (st1 = SUCCESS \<longrightarrow> mset ret2 = mset ret1)"
  proof (cases "\<exists>c\<in>set cs. edge_aborts x dir A c")
    case False
    then have "st1 = SUCCESS" "st2 = SUCCESS" "ret1 = map (cell_eid (my_vid l)) (filter (edge_wanted x dir label A) cs)"
      "ret2 = map (cell_eid (my_vid l)) (filter (edge_wanted x dir label A) ds)"
      using r1(2) r2(2) same D(4) by simp_all
    then show ?thesis using wanted by (simp del: mset_filter)
  qed (use r1(2) r2(2) same in simp)
  have "ReadConnectedEdge x dir label S' l' deps = Some (st1, ret2, d2)" using r2(1) st by simp
  then show ?thesis using D(1) r1(1) st by blast
qed

section \<open>Examples\<close>

lemma topo_ok_start:
  assumes "MemPool_Init B n threads rec = Some (row_pool (topo_rows S))" "MemPool_Init B' n' threads' rec' = Some (item_pool (edge_mvcc S))"
    "2 \<le> B" "2 \<le> B'" "0 < threads" "0 < threads'" "edge_lists S = (\<lambda>_. None)"
  shows "topo_ok S (TopologyRowList_Init v) [] A"
proof -
  have "pool_used (row_pool (topo_rows S)) {}" "pool_used (item_pool (edge_mvcc S)) {}"
    using MemPool_Init_used(1) [OF assms(1,3,5)] MemPool_Init_used(1) [OF assms(2,4,6)] by simp_all
  then show ?thesis
    using assms(7) VE_positive unfolding topo_ok_def fam_ok_def fam_cells_def
    by (intro conjI exI [of _ "[]"] exI [of _ "{}"]) (auto simp: row_chain_def TopologyRowList_Init_def empty_rows_def the_cells_def)
qed

definition blank_topo :: topo_store where
  "blank_topo =
     (let p = the (MemPool_Init 4 40 2 False) in
      \<lparr>topo_rows = \<lparr>rows = \<lambda>_. \<lparr>next_row = None, cells = \<lambda>_. \<lparr>is_out = False, conn_vtx_id = 0, edge_list = 0\<rparr>\<rparr>, row_pool = p\<rparr>,
       edge_lists = \<lambda>_. None, fresh_edge = 0,
       edge_mvcc = \<lparr>items = \<lambda>_. \<lparr>begin_time = 0, end_time = 0, next_item = None, val = \<lparr>ev_label = 0, ep_row_list = None\<rparr>\<rparr>,
                    item_pool = p, val_store = None\<rparr>\<rparr>)"

lemma blank_topo_ok: "topo_ok blank_topo (TopologyRowList_Init v) [] A"
proof -
  have p: "MemPool_Init 4 40 2 False = Some (row_pool (topo_rows blank_topo))" "MemPool_Init 4 40 2 False = Some (item_pool (edge_mvcc blank_topo))"
  proof -
    have "MemPool_Init 4 40 2 False \<noteq> None" by code_simp
    then show "MemPool_Init 4 40 2 False = Some (row_pool (topo_rows blank_topo))" "MemPool_Init 4 40 2 False = Some (item_pool (edge_mvcc blank_topo))"
      by (auto simp: blank_topo_def Let_def)
  qed
  show ?thesis by (rule topo_ok_start [OF p]) (simp_all add: blank_topo_def Let_def)
qed

definition sample_edges :: "(topo_store \<times> topology_row_list) option" where
  "sample_edges =
     do { (_, S, l) \<leftarrow> ProcessAddEdge 0 True 9 3 None 0x8000000000000100 5 blank_topo (TopologyRowList_Init 7);
          (_, S, l) \<leftarrow> ProcessAddEdge 0 False 8 4 None 0x8000000000000100 5 S l;
          ml \<leftarrow> edge_lists S 1;
          (m, ml) \<leftarrow> AbortVersion Edge_NeedGC (Edge_ValueGC 0) 0 0x8000000000000100 (edge_mvcc S) ml;
          Some (S\<lparr>edge_mvcc := m, edge_lists := (edge_lists S)(1 \<mapsto> ml)\<rparr>, l) }"

text \<open>A vertex with one outgoing edge, which is pending, and one incoming edge, whose only version was aborted.\<close>

definition sample_history :: "nat \<Rightarrow> EdgeVersion history" where
  "sample_history = (\<lambda>_. ([], None))(0 := ([], Some (0x8000000000000100, 5, \<lparr>ev_label = 3, ep_row_list = None\<rparr>)))"

lemma sample_edges_ok:
  assumes "sample_edges = Some (S, l)"
  shows "topo_ok S l [\<lparr>is_out = True, conn_vtx_id = 9, edge_list = 0\<rparr>, \<lparr>is_out = False, conn_vtx_id = 8, edge_list = 1\<rparr>] sample_history"
proof -
  let ?t = "0x8000000000000100 :: u64" and ?A = "\<lambda>_. ([], None) :: EdgeVersion history"
  let ?v = "\<lambda>n. \<lparr>ev_label = n, ep_row_list = None\<rparr>" and ?c = "\<lparr>is_out = True, conn_vtx_id = 9, edge_list = 0\<rparr>"
  obtain p1 S1 l1 p2 S2 l2 ml m ml' where s: "ProcessAddEdge 0 True 9 3 None ?t 5 blank_topo (TopologyRowList_Init 7) = Some (p1, S1, l1)"
    "ProcessAddEdge 0 False 8 4 None ?t 5 S1 l1 = Some (p2, S2, l2)" "edge_lists S2 1 = Some ml"
    "AbortVersion Edge_NeedGC (Edge_ValueGC 0) 0 ?t (edge_mvcc S2) ml = Some (m, ml')"
    and e: "S = S2\<lparr>edge_mvcc := m, edge_lists := (edge_lists S2)(1 \<mapsto> ml')\<rparr>" "l = l2"
    using assms by (auto simp: sample_edges_def bind_eq_Some_conv)
  have "case ProcessAddEdge 0 True 9 3 None ?t 5 blank_topo (TopologyRowList_Init 7) of None \<Rightarrow> False | Some (p1, S1, l1) \<Rightarrow>
      p1 = 0 \<and> fresh_edge S1 = 1 \<and> 0 < nthreads (row_pool (topo_rows S1)) \<and> 0 < nthreads (item_pool (edge_mvcc S1)) \<and>
      (case ProcessAddEdge 0 False 8 4 None ?t 5 S1 l1 of None \<Rightarrow> False | Some (p2, S2, l2) \<Rightarrow> 0 < nthreads (item_pool (edge_mvcc S2)))"
    by code_simp
  note n = this [unfolded s(1) s(2) option.case prod.case, unfolded s(2) option.case prod.case]
  have v: "IS_VALID_TRX_ID ?t" by (simp add: IS_VALID_TRX_ID_iff MAX_TIMESTAMP_def)
  have n0: "0 < nthreads (row_pool (topo_rows blank_topo))" "0 < nthreads (item_pool (edge_mvcc blank_topo))" by code_simp+
  have k1: "topo_ok S1 l1 [?c] (?A(0 := ([], Some (?t, 5, ?v 3))))"
    using ProcessAddEdge_ok [OF blank_topo_ok [of 7 ?A] n0 v s(1)] n by simp
  have "topo_ok S2 l2 [?c, \<lparr>is_out = False, conn_vtx_id = 8, edge_list = 1\<rparr>] (?A(0 := ([], Some (?t, 5, ?v 3)), 1 := ([], Some (?t, 5, ?v 4))))"
    using ProcessAddEdge_ok [OF k1 _ _ v s(2)] n by simp
  then have T: "topo_ok S2 l2 [?c, \<lparr>is_out = False, conn_vtx_id = 8, edge_list = 1\<rparr>] (sample_history(1 := ([], Some (?t, 5, ?v 4))))"
    by (simp add: sample_history_def)
  obtain m1 ml1 where "AbortVersion Edge_NeedGC (Edge_ValueGC 0) 0 ?t (edge_mvcc S2) ml = Some (m1, ml1)"
    "fam_ok m1 ((edge_lists S2)(1 \<mapsto> ml1)) (sample_history(1 := ([], Some (?t, 5, ?v 4)), 1 := ([], None)))"
  proof (rule fam_abort [of "edge_mvcc S2" "edge_lists S2" "sample_history(1 := ([], Some (?t, 5, ?v 4)))" 1 ml "[]" ?t 5 "?v 4" 0 Edge_NeedGC "Edge_ValueGC 0"])
    show "fam_ok (edge_mvcc S2) (edge_lists S2) (sample_history(1 := ([], Some (?t, 5, ?v 4))))" using T by (simp add: topo_ok_def)
  qed (use s(3) n in simp_all)
  moreover have "sample_history(1 := ([], None)) = sample_history" by (simp add: sample_history_def fun_eq_iff)
  ultimately show ?thesis using T s(3,4) e unfolding topo_ok_def by auto
qed

lemma sample_edges_vid: "case sample_edges of None \<Rightarrow> False | Some (S, l) \<Rightarrow>
    my_vid l = 7 \<and> 0 < nthreads (row_pool (topo_rows S)) \<and> (case edge_lists S 0 of None \<Rightarrow> False | Some ml \<Rightarrow> head ml \<noteq> None) \<and>
    (case edge_lists S 1 of None \<Rightarrow> False | Some ml \<Rightarrow> head ml = None)"
  by code_simp


theorem defragment_keeps_edges_witness:
  "\<exists>S l S' l' ret deps. sample_edges = Some (S, l) \<and>
     TopologyRowList_SelfDefragment 0 [] S l = Some ([(\<lparr>dst_v = 7, src_v = 8\<rparr>, False)], S', l') \<and>
     ReadConnectedEdge (sample_reader 0x8000000000000100) D_BOTH 0 S' l' Map.empty = Some (SUCCESS, ret, deps) \<and>
     mset ret = {#\<lparr>dst_v = 9, src_v = 7\<rparr>#}"
proof -
  let ?x = "sample_reader 0x8000000000000100"
  let ?c1 = "\<lparr>is_out = True, conn_vtx_id = 9, edge_list = 0\<rparr>" and ?c2 = "\<lparr>is_out = False, conn_vtx_id = 8, edge_list = 1\<rparr>"
  have g: "case sample_edges of None \<Rightarrow> False | Some (S, l) \<Rightarrow>
      map_option (\<lambda>(st, ret, _). (st, ret)) (ReadConnectedEdge ?x D_BOTH 0 S l Map.empty) = Some (SUCCESS, [\<lparr>dst_v = 9, src_v = 7\<rparr>])" by code_simp
  obtain S l where s: "sample_edges = Some (S, l)" using sample_edges_vid by (cases sample_edges) auto
  note n = sample_edges_vid [unfolded s option.case prod.case]
  have v: "my_vid l = 7" "0 < nthreads (row_pool (topo_rows S))" "\<not> edge_empty S ?c1" "edge_empty S ?c2"
    using n by (auto simp: edge_empty_def split: option.splits)
  have x: "rc_begin ?x < MAX_TIME" "IS_VALID_TRX_ID (rc_trx ?x)" by (simp_all add: sample_reader_def IS_VALID_TRX_ID_iff MAX_TIMESTAMP_def)
  obtain S' l' st ret ret' deps1 deps2 where D: "TopologyRowList_SelfDefragment 0 [] S l =
      Some ([] @ map (\<lambda>c. (cell_eid (my_vid l) c, is_out c)) (filter (edge_empty S) [?c1, ?c2]), S', l')"
    "ReadConnectedEdge ?x D_BOTH 0 S l Map.empty = Some (st, ret, deps1)"
    "ReadConnectedEdge ?x D_BOTH 0 S' l' Map.empty = Some (st, ret', deps2)" "st = SUCCESS \<longrightarrow> mset ret' = mset ret"
    using defragment_keeps_edges [OF sample_edges_ok [OF s] v(2) x, of "[]" D_BOTH 0 Map.empty] by blast
  have "st = SUCCESS" "ret = [\<lparr>dst_v = 9, src_v = 7\<rparr>]" using g [unfolded s option.case prod.case] D(2) by simp_all
  then have "TopologyRowList_SelfDefragment 0 [] S l = Some ([(\<lparr>dst_v = 7, src_v = 8\<rparr>, False)], S', l')"
    "ReadConnectedEdge ?x D_BOTH 0 S' l' Map.empty = Some (SUCCESS, ret', deps2)" "mset ret' = {#\<lparr>dst_v = 9, src_v = 7\<rparr>#}"
    using D v by (simp_all add: cell_eid_def)
  then show ?thesis using s by blast
qed

end
