(* ===== verification/Data_Storage.thy ===== *)
theory Data_Storage
  imports Topology_Props
begin

text \<open>
  \<open>DataStorage\<close> (src/layout/data_storage.cpp): the vertices and edges of a worker with their properties, reads and writes of
  transactions, and their commit and abort. A vertex has a label, a version list that says whether it exists, its edges and
  its properties; the edge maps lead from edge ids to the version lists that the edges of the vertices share.

  Every call is one step. \<open>update_status\<close> of the transaction table and the queues of the garbage collector are recorded in
  the order of the calls. \<open>None\<close> is a failed \<open>CHECK\<close> or undefined behaviour.
\<close>

section \<open>State\<close>

record Vertex =
  v_label :: label_t
  ve_row_list :: "topology_row_list option"
  vp_row_list :: "property_row_list option"
  v_list :: "nat option"

definition new_Vertex :: Vertex where
  "new_Vertex = \<lparr>v_label = 0, ve_row_list = None, vp_row_list = None, v_list = None\<rparr>"

datatype ProcessType =
    PROCESS_ADD_V | PROCESS_ADD_E | PROCESS_DROP_V | PROCESS_DROP_E | PROCESS_ADD_VP | PROCESS_ADD_EP
  | PROCESS_DROP_VP | PROCESS_DROP_EP | PROCESS_MODIFY_VP | PROCESS_MODIFY_EP

text \<open>A pointer to a version list; the lists of vertices, edges and properties are different objects.\<close>

datatype list_ptr = VList nat | EList nat | VPList nat | EPList nat

record ProcessRecord =
  pr_type :: ProcessType
  pr_list :: list_ptr

record TrxProcessHistory =
  process_vector :: "ProcessRecord list"
  mvcclist_to_vid_map :: "nat \<Rightarrow> u32 option"

record data_storage =
  worker_rank :: int
  worker_size :: int
  vertex_map :: "u32 \<Rightarrow> Vertex option"
  out_edge_map :: "u64 \<Rightarrow> nat option option"
  in_edge_map :: "u64 \<Rightarrow> nat option option"
  v_lists :: "nat \<Rightarrow> mvcc_list option"
  fresh_v :: nat
  v_mvcc :: "(bool, unit) mvcc_mem"
  vp_mem :: "vpid_t prop_store"
  topo :: topo_store
  num_of_vertex_local :: int
  trx_process_history :: "u64 \<Rightarrow> TrxProcessHistory option"
  agg_data_table :: "agg_t \<Rightarrow> value_t list option"
  ds_deps :: dep_trx_map
  status_updates :: "(u64 \<times> TRX_STAT) list"
  gcable_eid_queue :: "(eid_t \<times> bool) list list"
  gcable_vid_queue :: "vid_t list"

definition update_status :: "u64 \<Rightarrow> TRX_STAT \<Rightarrow> data_storage \<Rightarrow> data_storage" where
  "update_status t st D = D\<lparr>status_updates := status_updates D @ [(t, st)]\<rparr>"

definition abort_on :: "read_context \<Rightarrow> READ_STAT \<Rightarrow> data_storage \<Rightarrow> data_storage" where
  "abort_on x st D = (if st = READ_STAT.ABORT then update_status (rc_trx x) TRX_STAT.ABORT D else D)"

text \<open>The versions of a vertex are flags; they need no collection.\<close>

definition Vertex_NeedGC :: "bool \<Rightarrow> bool" where "Vertex_NeedGC v = False"

definition Vertex_ValueGC :: "bool \<Rightarrow> unit \<Rightarrow> unit" where "Vertex_ValueGC v s = s"

section \<open>Finding vertices and edges\<close>

definition read_stat_of :: "('v \<Rightarrow> bool) \<Rightarrow> 'v read_result \<Rightarrow> READ_STAT" where
  "read_stat_of exists r =
     (case r of ReadAbort \<Rightarrow> READ_STAT.ABORT | NoVersion \<Rightarrow> NOTFOUND | Visible v \<Rightarrow> if exists v then SUCCESS else NOTFOUND)"

definition visible_vertex :: "read_context \<Rightarrow> nat \<Rightarrow> data_storage \<Rightarrow> (bool read_result \<times> data_storage) option" where
  "visible_vertex x p D =
     do { ml \<leftarrow> v_lists D p;
          (r, deps) \<leftarrow> GetVisibleVersion (rc_level x) (rc_preread x) (rc_status x) (rc_trx x) (rc_begin x) (rc_read_only x)
                        (items (v_mvcc D)) ml (ds_deps D);
          Some (r, D\<lparr>ds_deps := deps\<rparr>) }"

definition CheckVertexVisibility :: "read_context \<Rightarrow> Vertex \<Rightarrow> data_storage \<Rightarrow> (READ_STAT \<times> data_storage) option" where
  "CheckVertexVisibility x v D =
     do { p \<leftarrow> v_list v; (r, D) \<leftarrow> visible_vertex x p D; Some (read_stat_of id r, D) }"

definition GetVertexIterator :: "read_context \<Rightarrow> vid_t \<Rightarrow> data_storage \<Rightarrow> (READ_STAT \<times> data_storage) option" where
  "GetVertexIterator x vid D =
     (case vertex_map D (vid_t_value vid) of
        None \<Rightarrow> Some (NOTFOUND, D)
      | Some v \<Rightarrow> do { (st, D) \<leftarrow> CheckVertexVisibility x v D; Some (st, abort_on x st D) })"

definition visible_edge_at :: "read_context \<Rightarrow> nat \<Rightarrow> data_storage \<Rightarrow> (EdgeVersion read_result \<times> data_storage) option" where
  "visible_edge_at x p D =
     do { (r, deps) \<leftarrow> visible_edge x (topo D) p (ds_deps D); Some (r, D\<lparr>ds_deps := deps\<rparr>) }"

text \<open>\<open>version_ref\<close> keeps its value if there is no visible version.\<close>

definition GetOutEdgeVersion :: "read_context \<Rightarrow> eid_t \<Rightarrow> data_storage \<Rightarrow> (READ_STAT \<times> EdgeVersion option \<times> data_storage) option" where
  "GetOutEdgeVersion x eid D =
     (case out_edge_map D (eid_t_value eid) of
        None \<Rightarrow> Some (NOTFOUND, None, D)
      | Some ptr \<Rightarrow>
          do { p \<leftarrow> ptr;
               (r, D) \<leftarrow> visible_edge_at x p D;
               let st = read_stat_of EdgeVersion_Exist r;
               Some (st, case r of Visible v \<Rightarrow> Some v | _ \<Rightarrow> None, abort_on x st D) })"

section \<open>Reading vertices\<close>

text \<open>
  The frame that all readers of a vertex share. \<open>body\<close> gets the vertex that \<open>find\<close> returned; \<open>none\<close> is the result as the
  caller passed it in.
\<close>

definition with_vertex :: "read_context \<Rightarrow> vid_t \<Rightarrow> 'r \<Rightarrow> data_storage \<Rightarrow> (Vertex \<Rightarrow> data_storage \<Rightarrow> (READ_STAT \<times> 'r \<times> dep_trx_map) option) \<Rightarrow>
    (READ_STAT \<times> 'r \<times> data_storage) option" where
  "with_vertex x vid none D body =
     do { (st, D) \<leftarrow> GetVertexIterator x vid D;
          if st \<noteq> SUCCESS then Some (st, none, D)
          else do { v \<leftarrow> vertex_map D (vid_t_value vid);
                    (st, ret, deps) \<leftarrow> body v D;
                    Some (st, ret, abort_on x st (D\<lparr>ds_deps := deps\<rparr>)) } }"

definition GetVPByPKey :: "read_context \<Rightarrow> vpid_t \<Rightarrow> value_t \<Rightarrow> data_storage \<Rightarrow> (READ_STAT \<times> value_t \<times> data_storage) option" where
  "GetVPByPKey x pid ret D =
     with_vertex x (vp_vid pid) ret D (\<lambda>v D.
       do { pl \<leftarrow> vp_row_list v; ReadProperty VP_ROW_CELL_COUNT vp_pid x pid (vp_mem D) pl (ds_deps D) ret })"

definition GetAllVP :: "read_context \<Rightarrow> vid_t \<Rightarrow> data_storage \<Rightarrow> (READ_STAT \<times> (12 word \<times> value_t) list \<times> data_storage) option" where
  "GetAllVP x vid D =
     with_vertex x vid [] D (\<lambda>v D. do { pl \<leftarrow> vp_row_list v; ReadAllProperty VP_ROW_CELL_COUNT vp_pid x (vp_mem D) pl (ds_deps D) })"

definition GetVPByPKeyList :: "read_context \<Rightarrow> vid_t \<Rightarrow> 12 word list \<Rightarrow> data_storage \<Rightarrow> (READ_STAT \<times> (12 word \<times> value_t) list \<times> data_storage) option" where
  "GetVPByPKeyList x vid p_key D =
     with_vertex x vid [] D (\<lambda>v D.
       do { pl \<leftarrow> vp_row_list v; ReadPropertyByPKeyList VP_ROW_CELL_COUNT vp_pid x p_key (vp_mem D) pl (ds_deps D) })"

definition GetVPidList :: "read_context \<Rightarrow> vid_t \<Rightarrow> data_storage \<Rightarrow> (READ_STAT \<times> vpid_t list \<times> data_storage) option" where
  "GetVPidList x vid D =
     with_vertex x vid [] D (\<lambda>v D. do { pl \<leftarrow> vp_row_list v; ReadPidList VP_ROW_CELL_COUNT x (vp_mem D) pl (ds_deps D) })"

definition GetVL :: "read_context \<Rightarrow> vid_t \<Rightarrow> label_t \<Rightarrow> data_storage \<Rightarrow> (READ_STAT \<times> label_t \<times> data_storage) option" where
  "GetVL x vid ret D = with_vertex x vid ret D (\<lambda>v D. Some (SUCCESS, v_label v, ds_deps D))"

definition GetConnectedVertexList :: "read_context \<Rightarrow> vid_t \<Rightarrow> label_t \<Rightarrow> Direction_T \<Rightarrow> data_storage \<Rightarrow> (READ_STAT \<times> vid_t list \<times> data_storage) option" where
  "GetConnectedVertexList x vid edge_label direction D =
     with_vertex x vid [] D (\<lambda>v D. do { l \<leftarrow> ve_row_list v; ReadConnectedVertex x direction edge_label (topo D) l (ds_deps D) })"

definition GetConnectedEdgeList :: "read_context \<Rightarrow> vid_t \<Rightarrow> label_t \<Rightarrow> Direction_T \<Rightarrow> data_storage \<Rightarrow> (READ_STAT \<times> eid_t list \<times> data_storage) option" where
  "GetConnectedEdgeList x vid edge_label direction D =
     with_vertex x vid [] D (\<lambda>v D. do { l \<leftarrow> ve_row_list v; ReadConnectedEdge x direction edge_label (topo D) l (ds_deps D) })"

definition CheckVertexVisibilityWithVid :: "read_context \<Rightarrow> vid_t \<Rightarrow> data_storage \<Rightarrow> (bool \<times> data_storage) option" where
  "CheckVertexVisibilityWithVid x vid D =
     (case vertex_map D (vid_t_value vid) of
        None \<Rightarrow> Some (False, D)
      | Some v \<Rightarrow> do { (st, D) \<leftarrow> CheckVertexVisibility x v D; Some (st = SUCCESS, D) })"

section \<open>Reading edges\<close>

definition with_edge :: "read_context \<Rightarrow> eid_t \<Rightarrow> 'r \<Rightarrow> data_storage \<Rightarrow>
    (edge_props \<Rightarrow> property_row_list \<Rightarrow> dep_trx_map \<Rightarrow> (READ_STAT \<times> 'r \<times> dep_trx_map) option) \<Rightarrow> (READ_STAT \<times> 'r \<times> data_storage) option" where
  "with_edge x eid none D body =
     do { (st, v, D) \<leftarrow> GetOutEdgeVersion x eid D;
          if st \<noteq> SUCCESS then Some (st, none, D)
          else do { v \<leftarrow> v; q \<leftarrow> ep_row_list v; E \<leftarrow> val_store (edge_mvcc (topo D)); pl \<leftarrow> ep_lists E q;
                    (st, ret, deps) \<leftarrow> body E pl (ds_deps D);
                    Some (st, ret, abort_on x st (D\<lparr>ds_deps := deps\<rparr>)) } }"

definition epid_eid :: "epid_t \<Rightarrow> eid_t" where
  "epid_eid pid = \<lparr>dst_v = ep_dst_vid pid, src_v = ep_src_vid pid\<rparr>"

definition GetEPByPKey :: "read_context \<Rightarrow> epid_t \<Rightarrow> value_t \<Rightarrow> data_storage \<Rightarrow> (READ_STAT \<times> value_t \<times> data_storage) option" where
  "GetEPByPKey x pid ret D =
     with_edge x (epid_eid pid) ret D (\<lambda>E pl deps. ReadProperty EP_ROW_CELL_COUNT ep_pid x pid (ep_mem E) pl deps ret)"

definition GetAllEP :: "read_context \<Rightarrow> eid_t \<Rightarrow> data_storage \<Rightarrow> (READ_STAT \<times> (12 word \<times> value_t) list \<times> data_storage) option" where
  "GetAllEP x eid D = with_edge x eid [] D (\<lambda>E pl deps. ReadAllProperty EP_ROW_CELL_COUNT ep_pid x (ep_mem E) pl deps)"

definition GetEPByPKeyList :: "read_context \<Rightarrow> eid_t \<Rightarrow> 12 word list \<Rightarrow> data_storage \<Rightarrow> (READ_STAT \<times> (12 word \<times> value_t) list \<times> data_storage) option" where
  "GetEPByPKeyList x eid p_key D =
     with_edge x eid [] D (\<lambda>E pl deps. ReadPropertyByPKeyList EP_ROW_CELL_COUNT ep_pid x p_key (ep_mem E) pl deps)"

definition GetEPidList :: "read_context \<Rightarrow> eid_t \<Rightarrow> data_storage \<Rightarrow> (READ_STAT \<times> epid_t list \<times> data_storage) option" where
  "GetEPidList x eid D = with_edge x eid [] D (\<lambda>E pl deps. ReadPidList EP_ROW_CELL_COUNT x (ep_mem E) pl deps)"

definition GetEL :: "read_context \<Rightarrow> eid_t \<Rightarrow> label_t \<Rightarrow> data_storage \<Rightarrow> (READ_STAT \<times> label_t \<times> data_storage) option" where
  "GetEL x eid ret D =
     do { (st, v, D) \<leftarrow> GetOutEdgeVersion x eid D;
          if st \<noteq> SUCCESS then Some (st, ret, D) else do { v \<leftarrow> v; Some (SUCCESS, ev_label v, D) } }"

definition CheckEdgeVisibilityWithEid :: "read_context \<Rightarrow> eid_t \<Rightarrow> data_storage \<Rightarrow> (bool \<times> data_storage) option" where
  "CheckEdgeVisibilityWithEid x eid D = do { (st, _, D) \<leftarrow> GetOutEdgeVersion x eid D; Some (st = SUCCESS, D) }"

section \<open>All vertices and all edges\<close>

text \<open>\<open>keys\<close>: the keys of the map in the order in which its iterator visits them.\<close>

fun GetAllVertices :: "read_context \<Rightarrow> u32 list \<Rightarrow> vid_t list \<Rightarrow> data_storage \<Rightarrow> (READ_STAT \<times> vid_t list \<times> data_storage) option" where
  "GetAllVertices x [] ret D = Some (SUCCESS, ret, D)"
| "GetAllVertices x (k # keys) ret D =
     do { v \<leftarrow> vertex_map D k;
          (case v_list v of
             None \<Rightarrow> GetAllVertices x keys ret D
           | Some p \<Rightarrow>
               do { (r, D) \<leftarrow> visible_vertex x p D;
                    (case r of
                       ReadAbort \<Rightarrow> Some (READ_STAT.ABORT, ret, update_status (rc_trx x) TRX_STAT.ABORT D)
                     | NoVersion \<Rightarrow> GetAllVertices x keys ret D
                     | Visible e \<Rightarrow> GetAllVertices x keys (if e then ret @ [uint2vid_t k] else ret) D) }) }"

fun GetAllEdges :: "read_context \<Rightarrow> u64 list \<Rightarrow> eid_t list \<Rightarrow> data_storage \<Rightarrow> (READ_STAT \<times> eid_t list \<times> data_storage) option" where
  "GetAllEdges x [] ret D = Some (SUCCESS, ret, D)"
| "GetAllEdges x (k # keys) ret D =
     do { ptr \<leftarrow> out_edge_map D k;
          (case ptr of
             None \<Rightarrow> GetAllEdges x keys ret D
           | Some p \<Rightarrow>
               do { (r, D) \<leftarrow> visible_edge_at x p D;
                    (case r of
                       ReadAbort \<Rightarrow> Some (READ_STAT.ABORT, ret, update_status (rc_trx x) TRX_STAT.ABORT D)
                     | NoVersion \<Rightarrow> GetAllEdges x keys ret D
                     | Visible v \<Rightarrow> GetAllEdges x keys (if EdgeVersion_Exist v then ret @ [eid_t_of_map_key k] else ret) D) }) }"

section \<open>The history of a transaction\<close>

definition history_of :: "data_storage \<Rightarrow> u64 \<Rightarrow> TrxProcessHistory" where
  "history_of D t = (case trx_process_history D t of None \<Rightarrow> \<lparr>process_vector = [], mvcclist_to_vid_map = \<lambda>_. None\<rparr> | Some h \<Rightarrow> h)"

definition add_record :: "u64 \<Rightarrow> ProcessType \<Rightarrow> list_ptr \<Rightarrow> data_storage \<Rightarrow> data_storage" where
  "add_record t ty p D =
     D\<lparr>trx_process_history := (trx_process_history D)
         (t \<mapsto> (history_of D t)\<lparr>process_vector := process_vector (history_of D t) @ [\<lparr>pr_type = ty, pr_list = p\<rparr>]\<rparr>)\<rparr>"

definition InsertTrxProcessHistory :: "u64 \<Rightarrow> ProcessType \<Rightarrow> list_ptr \<Rightarrow> data_storage \<Rightarrow> data_storage option" where
  "InsertTrxProcessHistory t ty p D = do { CHECK (ty \<noteq> PROCESS_ADD_V); Some (add_record t ty p D) }"

definition InsertTrxAddVHistory :: "u64 \<Rightarrow> nat \<Rightarrow> vid_t \<Rightarrow> data_storage \<Rightarrow> data_storage" where
  "InsertTrxAddVHistory t p vid D =
     (let D = add_record t PROCESS_ADD_V (VList p) D
      in D\<lparr>trx_process_history := (trx_process_history D)
             (t \<mapsto> (history_of D t)\<lparr>mvcclist_to_vid_map := (mvcclist_to_vid_map (history_of D t))(p \<mapsto> vid_t_value vid)\<rparr>)\<rparr>)"

datatype PROCESS_STAT =
    P_SUCCESS | P_ABORT | ABORT_DROP_V_GET_CONN_E | ABORT_DROP_V_APPEND | ABORT_ADD_E_INVISIBLE_V | ABORT_ADD_E_APPEND
  | ABORT_ADD_E_SAME_VID | ABORT_DROP_E_APPEND | ABORT_MODIFY_VP_INVISIBLE_V | ABORT_MODIFY_VP_APPEND | ABORT_MODIFY_EP_EITEM
  | ABORT_MODIFY_EP_DELETED_E | ABORT_MODIFY_EP_MODIFY | ABORT_DROP_VP_INVISIBLE_V | ABORT_DROP_VP_DROP | ABORT_DROP_EP_EITEM
  | ABORT_DROP_EP_DELETED_E | ABORT_DROP_EP_DROP | ABORT_MULTIPLE_TRX_ADD_SAME_EDGE

section \<open>Vertices\<close>

text \<open>The counter of local vertices is an \<open>int\<close>; its overflow is undefined.\<close>

definition AssignVID :: "data_storage \<Rightarrow> (vid_t \<times> data_storage) option" where
  "AssignVID D =
     do { let local_vid = num_of_vertex_local D + 1;
          let v = local_vid * worker_size D + worker_rank D;
          CHECK (local_vid < 2 ^ 31 \<and> v < 2 ^ 31);
          Some (vid_t_of_int v, D\<lparr>num_of_vertex_local := local_vid\<rparr>) }"

definition ProcessAddV :: "nat \<Rightarrow> label_t \<Rightarrow> u64 \<Rightarrow> u64 \<Rightarrow> data_storage \<Rightarrow> (vid_t \<times> data_storage) option" where
  "ProcessAddV tid label trx_id bt D =
     do { (vid, D) \<leftarrow> AssignVID D;
          CHECK (vertex_map D (vid_t_value vid) = None);
          r \<leftarrow> AppendVersion Vertex_NeedGC Vertex_ValueGC tid trx_id bt (v_mvcc D) empty_list;
          a \<leftarrow> app_item r;
          let p = fresh_v D;
          let v = \<lparr>v_label = label, ve_row_list = Some (TopologyRowList_Init vid), vp_row_list = Some PropertyRowList_Init, v_list = Some p\<rparr>;
          let D = D\<lparr>v_mvcc := write_val a True (app_mem r), v_lists := (v_lists D)(p \<mapsto> app_list r), fresh_v := p + 1,
                    vertex_map := (vertex_map D)(vid_t_value vid \<mapsto> v)\<rparr>;
          Some (vid, InsertTrxAddVHistory trx_id p vid D) }"

definition updating :: "read_context \<Rightarrow> read_context" where
  "updating x = x\<lparr>rc_read_only := False\<rparr>"

text \<open>
  \<open>GetConnectedEdgeList\<close> is called with \<open>need_read_lock = false\<close>. The edges are sorted into outgoing and incoming ones.
\<close>

definition ProcessDropV :: "nat \<Rightarrow> read_context \<Rightarrow> vid_t \<Rightarrow> data_storage \<Rightarrow> (PROCESS_STAT \<times> eid_t list \<times> eid_t list \<times> data_storage) option" where
  "ProcessDropV tid x vid D =
     do { (st, D) \<leftarrow> GetVertexIterator (updating x) vid D;
          if st \<noteq> SUCCESS then Some (if st = NOTFOUND then P_SUCCESS else P_ABORT, [], [], D)
          else do {
            (st, eids, D) \<leftarrow> GetConnectedEdgeList (updating x) vid 0 D_BOTH D;
            if st \<noteq> SUCCESS then Some (ABORT_DROP_V_GET_CONN_E, [], [], update_status (rc_trx x) TRX_STAT.ABORT D)
            else do {
              v \<leftarrow> vertex_map D (vid_t_value vid); p \<leftarrow> v_list v; ml \<leftarrow> v_lists D p;
              r \<leftarrow> AppendVersion Vertex_NeedGC Vertex_ValueGC tid (rc_trx x) (rc_begin x) (v_mvcc D) ml;
              let D = D\<lparr>v_mvcc := app_mem r, v_lists := (v_lists D)(p \<mapsto> app_list r)\<rparr>;
              (case app_item r of
                 None \<Rightarrow> Some (ABORT_DROP_V_APPEND, [], [], update_status (rc_trx x) TRX_STAT.ABORT D)
               | Some a \<Rightarrow>
                   do { D \<leftarrow> InsertTrxProcessHistory (rc_trx x) PROCESS_DROP_V (VList p) (D\<lparr>v_mvcc := write_val a False (v_mvcc D)\<rparr>);
                        Some (P_SUCCESS, filter (\<lambda>e. src_v e \<noteq> vid) eids, filter (\<lambda>e. src_v e = vid) eids, D) }) } } }"

section \<open>Edges\<close>

definition edge_map :: "bool \<Rightarrow> data_storage \<Rightarrow> u64 \<Rightarrow> nat option option" where
  "edge_map out D = (if out then out_edge_map D else in_edge_map D)"

definition set_edge :: "bool \<Rightarrow> eid_t \<Rightarrow> nat option \<Rightarrow> data_storage \<Rightarrow> data_storage" where
  "set_edge out eid p D =
     (if out then D\<lparr>out_edge_map := (out_edge_map D)(eid_t_value eid \<mapsto> p)\<rparr>
      else D\<lparr>in_edge_map := (in_edge_map D)(eid_t_value eid \<mapsto> p)\<rparr>)"

text \<open>A property list for an outgoing edge, \<open>nullptr\<close> for an incoming one.\<close>

definition new_ep_row_list :: "bool \<Rightarrow> topo_store \<Rightarrow> (nat option \<times> topo_store) option" where
  "new_ep_row_list out S =
     (if out
      then do { E \<leftarrow> val_store (edge_mvcc S);
                let (q, E) = new_ep_list E;
                Some (Some q, S\<lparr>edge_mvcc := (edge_mvcc S)\<lparr>val_store := Some E\<rparr>\<rparr>) }
      else Some (None, S))"

text \<open>A new version of an edge that is in the map: \<open>None\<close> if the list has a pending version of another transaction.\<close>

definition append_edge :: "nat \<Rightarrow> u64 \<Rightarrow> u64 \<Rightarrow> nat \<Rightarrow> topo_store \<Rightarrow> (nat option \<times> topo_store) option" where
  "append_edge tid trx_id bt p S =
     do { ml \<leftarrow> edge_lists S p;
          r \<leftarrow> AppendVersion Edge_NeedGC (Edge_ValueGC tid) tid trx_id bt (edge_mvcc S) ml;
          CHECK (val_store (app_mem r) \<noteq> None);
          Some (app_item r, S\<lparr>edge_mvcc := app_mem r, edge_lists := (edge_lists S)(p \<mapsto> app_list r)\<rparr>) }"

definition ProcessAddE :: "nat \<Rightarrow> read_context \<Rightarrow> eid_t \<Rightarrow> label_t \<Rightarrow> bool \<Rightarrow> data_storage \<Rightarrow> (PROCESS_STAT \<times> data_storage) option" where
  "ProcessAddE tid x eid label out D =
     (if src_v eid = dst_v eid then Some (ABORT_ADD_E_SAME_VID, update_status (rc_trx x) TRX_STAT.ABORT D)
      else do {
        let vid = (if out then src_v eid else dst_v eid);
        let adj_vid = (if out then dst_v eid else src_v eid);
        (st, D) \<leftarrow> GetVertexIterator (updating x) vid D;
        if st \<noteq> SUCCESS
        then Some (ABORT_ADD_E_INVISIBLE_V, if st \<noteq> READ_STAT.ABORT then update_status (rc_trx x) TRX_STAT.ABORT D else D)
        else (case edge_map out D (eid_t_value eid) of
          None \<Rightarrow>
            do { (ep, S) \<leftarrow> new_ep_row_list out (topo D);
                 v \<leftarrow> vertex_map D (vid_t_value vid); l \<leftarrow> ve_row_list v;
                 (p, S, l) \<leftarrow> ProcessAddEdge tid out adj_vid label ep (rc_trx x) (rc_begin x) S l;
                 let D = D\<lparr>topo := S, vertex_map := (vertex_map D)(vid_t_value vid \<mapsto> v\<lparr>ve_row_list := Some l\<rparr>)\<rparr>;
                 D \<leftarrow> InsertTrxProcessHistory (rc_trx x) PROCESS_ADD_E (EList p) (set_edge out eid (Some p) D);
                 Some (P_SUCCESS, D) }
        | Some None \<Rightarrow> Some (ABORT_MULTIPLE_TRX_ADD_SAME_EDGE, D)
        | Some (Some p) \<Rightarrow>
            do { (a, S) \<leftarrow> append_edge tid (rc_trx x) (rc_begin x) p (topo D);
                 (case a of
                    None \<Rightarrow> Some (ABORT_ADD_E_APPEND, update_status (rc_trx x) TRX_STAT.ABORT (D\<lparr>topo := S\<rparr>))
                  | Some a \<Rightarrow>
                      do { (ep, S) \<leftarrow> new_ep_row_list out S;
                           let S = S\<lparr>edge_mvcc := write_val a \<lparr>ev_label = label, ep_row_list = ep\<rparr> (edge_mvcc S)\<rparr>;
                           D \<leftarrow> InsertTrxProcessHistory (rc_trx x) PROCESS_ADD_E (EList p) (D\<lparr>topo := S\<rparr>);
                           Some (P_SUCCESS, D) }) }) })"

definition ProcessDropE :: "nat \<Rightarrow> eid_t \<Rightarrow> bool \<Rightarrow> u64 \<Rightarrow> u64 \<Rightarrow> data_storage \<Rightarrow> (PROCESS_STAT \<times> data_storage) option" where
  "ProcessDropE tid eid out trx_id bt D =
     (case edge_map out D (eid_t_value eid) of
        None \<Rightarrow> Some (P_SUCCESS, D)
      | Some ptr \<Rightarrow>
          do { p \<leftarrow> ptr;
               (a, S) \<leftarrow> append_edge tid trx_id bt p (topo D);
               (case a of
                  None \<Rightarrow> Some (ABORT_DROP_E_APPEND, update_status trx_id TRX_STAT.ABORT (D\<lparr>topo := S\<rparr>))
                | Some a \<Rightarrow>
                    do { let S = S\<lparr>edge_mvcc := write_val a \<lparr>ev_label = 0, ep_row_list = None\<rparr> (edge_mvcc S)\<rparr>;
                         D \<leftarrow> InsertTrxProcessHistory trx_id PROCESS_DROP_E (EList p) (D\<lparr>topo := S\<rparr>);
                         Some (P_SUCCESS, D) }) })"

section \<open>Properties\<close>

definition invisible_vertex :: "read_context \<Rightarrow> READ_STAT \<Rightarrow> data_storage \<Rightarrow> data_storage" where
  "invisible_vertex x st D = (if st \<noteq> READ_STAT.ABORT then update_status (rc_trx x) TRX_STAT.ABORT D else D)"

definition ProcessModifyVP :: "nat \<Rightarrow> read_context \<Rightarrow> vpid_t \<Rightarrow> value_t \<Rightarrow> value_t \<Rightarrow> data_storage \<Rightarrow> (PROCESS_STAT \<times> value_t \<times> data_storage) option" where
  "ProcessModifyVP tid x pid w old D =
     do { (st, D) \<leftarrow> GetVertexIterator (updating x) (vp_vid pid) D;
          if st \<noteq> SUCCESS then Some (ABORT_MODIFY_VP_INVISIBLE_V, old, invisible_vertex x st D)
          else do {
            v \<leftarrow> vertex_map D (vid_t_value (vp_vid pid)); pl \<leftarrow> vp_row_list v;
            ((existed, ret), old, S, pl) \<leftarrow> ProcessModifyProperty VP_ROW_CELL_COUNT vp_pid tid pid w (rc_trx x) (rc_begin x) (vp_mem D) pl old;
            let D = D\<lparr>vp_mem := S, vertex_map := (vertex_map D)(vid_t_value (vp_vid pid) \<mapsto> v\<lparr>vp_row_list := Some pl\<rparr>)\<rparr>;
            (case ret of
               None \<Rightarrow> Some (ABORT_MODIFY_VP_APPEND, old, update_status (rc_trx x) TRX_STAT.ABORT D)
             | Some p \<Rightarrow>
                 do { D \<leftarrow> InsertTrxProcessHistory (rc_trx x) (if existed then PROCESS_MODIFY_VP else PROCESS_ADD_VP) (VPList p) D;
                      Some (P_SUCCESS, old, D) }) } }"

definition ProcessDropVP :: "nat \<Rightarrow> read_context \<Rightarrow> vpid_t \<Rightarrow> value_t \<Rightarrow> data_storage \<Rightarrow> (PROCESS_STAT \<times> value_t \<times> data_storage) option" where
  "ProcessDropVP tid x pid old D =
     do { (st, D) \<leftarrow> GetVertexIterator (updating x) (vp_vid pid) D;
          if st \<noteq> SUCCESS then Some (ABORT_MODIFY_VP_INVISIBLE_V, old, invisible_vertex x st D)
          else do {
            v \<leftarrow> vertex_map D (vid_t_value (vp_vid pid)); pl \<leftarrow> vp_row_list v;
            (ret, old, S) \<leftarrow> ProcessDropProperty VP_ROW_CELL_COUNT vp_pid tid pid (rc_trx x) (rc_begin x) (vp_mem D) pl old;
            let D = D\<lparr>vp_mem := S\<rparr>;
            (case ret of
               None \<Rightarrow> Some (ABORT_DROP_VP_DROP, old, update_status (rc_trx x) TRX_STAT.ABORT D)
             | Some p \<Rightarrow> do { D \<leftarrow> InsertTrxProcessHistory (rc_trx x) PROCESS_DROP_VP (VPList p) D; Some (P_SUCCESS, old, D) }) } }"

text \<open>The property list of the version of the edge that the transaction sees, and the assignment to it.\<close>

definition edge_ep_list :: "EdgeVersion \<Rightarrow> data_storage \<Rightarrow> (nat \<times> edge_props \<times> property_row_list) option" where
  "edge_ep_list v D =
     do { q \<leftarrow> ep_row_list v; E \<leftarrow> val_store (edge_mvcc (topo D)); pl \<leftarrow> ep_lists E q; Some (q, E, pl) }"

definition set_ep :: "nat \<Rightarrow> epid_t prop_store \<Rightarrow> property_row_list \<Rightarrow> edge_props \<Rightarrow> data_storage \<Rightarrow> data_storage" where
  "set_ep q S pl E D =
     D\<lparr>topo := (topo D)\<lparr>edge_mvcc := (edge_mvcc (topo D))\<lparr>val_store := Some (E\<lparr>ep_mem := S, ep_lists := (ep_lists E)(q \<mapsto> pl)\<rparr>)\<rparr>\<rparr>\<rparr>"

definition ProcessModifyEP :: "nat \<Rightarrow> read_context \<Rightarrow> epid_t \<Rightarrow> value_t \<Rightarrow> value_t \<Rightarrow> data_storage \<Rightarrow> (PROCESS_STAT \<times> value_t \<times> data_storage) option" where
  "ProcessModifyEP tid x pid w old D =
     do { (st, v, D) \<leftarrow> GetOutEdgeVersion (updating x) (epid_eid pid) D;
          if st \<noteq> SUCCESS then Some (ABORT_MODIFY_EP_DELETED_E, old, update_status (rc_trx x) TRX_STAT.ABORT D)
          else do {
            v \<leftarrow> v; (q, E, pl) \<leftarrow> edge_ep_list v D;
            ((existed, ret), old, S, pl) \<leftarrow> ProcessModifyProperty EP_ROW_CELL_COUNT ep_pid tid pid w (rc_trx x) (rc_begin x) (ep_mem E) pl old;
            let D = set_ep q S pl E D;
            (case ret of
               None \<Rightarrow> Some (ABORT_MODIFY_EP_MODIFY, old, update_status (rc_trx x) TRX_STAT.ABORT D)
             | Some p \<Rightarrow>
                 do { D \<leftarrow> InsertTrxProcessHistory (rc_trx x) (if existed then PROCESS_MODIFY_EP else PROCESS_ADD_EP) (EPList p) D;
                      Some (P_SUCCESS, old, D) }) } }"

definition ProcessDropEP :: "nat \<Rightarrow> read_context \<Rightarrow> epid_t \<Rightarrow> value_t \<Rightarrow> data_storage \<Rightarrow> (PROCESS_STAT \<times> value_t \<times> data_storage) option" where
  "ProcessDropEP tid x pid old D =
     do { (st, v, D) \<leftarrow> GetOutEdgeVersion (updating x) (epid_eid pid) D;
          if st \<noteq> SUCCESS then Some (ABORT_DROP_EP_DELETED_E, old, update_status (rc_trx x) TRX_STAT.ABORT D)
          else do {
            v \<leftarrow> v; (q, E, pl) \<leftarrow> edge_ep_list v D;
            (ret, old, S) \<leftarrow> ProcessDropProperty EP_ROW_CELL_COUNT ep_pid tid pid (rc_trx x) (rc_begin x) (ep_mem E) pl old;
            let D = set_ep q S pl E D;
            (case ret of
               None \<Rightarrow> Some (ABORT_DROP_EP_DROP, old, update_status (rc_trx x) TRX_STAT.ABORT D)
             | Some p \<Rightarrow> do { D \<leftarrow> InsertTrxProcessHistory (rc_trx x) PROCESS_DROP_EP (EPList p) D; Some (P_SUCCESS, old, D) }) } }"

section \<open>Commit and abort\<close>

text \<open>
  One record is \<open>CommitVersion\<close> of the version list it points to; the type of the record says whose list it is. A record
  is skipped if an earlier one has the same list.
\<close>

definition commit_prop :: "u64 \<Rightarrow> u64 \<Rightarrow> nat \<Rightarrow> 'p prop_store \<Rightarrow> 'p prop_store option" where
  "commit_prop t c p S =
     do { ml \<leftarrow> prop_lists S p; (m, ml) \<leftarrow> CommitVersion t c (prop_mvcc S) ml;
          Some (S\<lparr>prop_mvcc := m, prop_lists := (prop_lists S)(p \<mapsto> ml)\<rparr>) }"

definition commit_edge :: "u64 \<Rightarrow> u64 \<Rightarrow> nat \<Rightarrow> topo_store \<Rightarrow> topo_store option" where
  "commit_edge t c p S =
     do { ml \<leftarrow> edge_lists S p; (m, ml) \<leftarrow> CommitVersion t c (edge_mvcc S) ml;
          Some (S\<lparr>edge_mvcc := m, edge_lists := (edge_lists S)(p \<mapsto> ml)\<rparr>) }"

definition on_edge_props :: "(edge_props \<Rightarrow> edge_props option) \<Rightarrow> topo_store \<Rightarrow> topo_store option" where
  "on_edge_props f S =
     do { E \<leftarrow> val_store (edge_mvcc S); E \<leftarrow> f E; Some (S\<lparr>edge_mvcc := (edge_mvcc S)\<lparr>val_store := Some E\<rparr>\<rparr>) }"

definition commit_record :: "u64 \<Rightarrow> u64 \<Rightarrow> list_ptr \<Rightarrow> data_storage \<Rightarrow> data_storage option" where
  "commit_record t c ptr D =
     (case ptr of
        VPList p \<Rightarrow> do { S \<leftarrow> commit_prop t c p (vp_mem D); Some (D\<lparr>vp_mem := S\<rparr>) }
      | EPList p \<Rightarrow> do { S \<leftarrow> on_edge_props (\<lambda>E. do { S \<leftarrow> commit_prop t c p (ep_mem E); Some (E\<lparr>ep_mem := S\<rparr>) }) (topo D);
                        Some (D\<lparr>topo := S\<rparr>) }
      | VList p \<Rightarrow> do { ml \<leftarrow> v_lists D p; (m, ml) \<leftarrow> CommitVersion t c (v_mvcc D) ml;
                       Some (D\<lparr>v_mvcc := m, v_lists := (v_lists D)(p \<mapsto> ml)\<rparr>) }
      | EList p \<Rightarrow> do { S \<leftarrow> commit_edge t c p (topo D); Some (D\<lparr>topo := S\<rparr>) })"

fun commit_records :: "u64 \<Rightarrow> u64 \<Rightarrow> list_ptr set \<Rightarrow> ProcessRecord list \<Rightarrow> data_storage \<Rightarrow> data_storage option" where
  "commit_records t c touched [] D = Some D"
| "commit_records t c touched (r # rs) D =
     (if pr_list r \<in> touched then commit_records t c touched rs D
      else do { D \<leftarrow> commit_record t c (pr_list r) D; commit_records t c (insert (pr_list r) touched) rs D })"

definition Commit :: "u64 \<Rightarrow> u64 \<Rightarrow> data_storage \<Rightarrow> data_storage option" where
  "Commit t c D =
     (case trx_process_history D t of
        None \<Rightarrow> Some D
      | Some h \<Rightarrow>
          do { D \<leftarrow> commit_records t c {} (process_vector h) D;
               Some (D\<lparr>trx_process_history := (trx_process_history D)(t := None)\<rparr>) })"

definition abort_prop :: "nat \<Rightarrow> u64 \<Rightarrow> nat \<Rightarrow> 'p prop_store \<Rightarrow> 'p prop_store option" where
  "abort_prop tid t p S =
     do { ml \<leftarrow> prop_lists S p; (m, ml) \<leftarrow> AbortVersion Property_NeedGC (Property_ValueGC tid) tid t (prop_mvcc S) ml;
          Some (S\<lparr>prop_mvcc := m, prop_lists := (prop_lists S)(p \<mapsto> ml)\<rparr>) }"

definition abort_edge :: "nat \<Rightarrow> u64 \<Rightarrow> nat \<Rightarrow> topo_store \<Rightarrow> topo_store option" where
  "abort_edge tid t p S =
     do { ml \<leftarrow> edge_lists S p; (m, ml) \<leftarrow> AbortVersion Edge_NeedGC (Edge_ValueGC tid) tid t (edge_mvcc S) ml;
          CHECK (val_store m \<noteq> None);
          Some (S\<lparr>edge_mvcc := m, edge_lists := (edge_lists S)(p \<mapsto> ml)\<rparr>) }"

text \<open>
  Aborting the creation of a vertex also collects its edges and properties and hands the vertex to the garbage
  collector. \<open>operator[]\<close> of the map gives 0 for a list it does not have.
\<close>

definition discard_vertex :: "nat \<Rightarrow> u32 \<Rightarrow> data_storage \<Rightarrow> data_storage option" where
  "discard_vertex tid k D =
     do { v \<leftarrow> vertex_map D k;
          l \<leftarrow> ve_row_list v;
          (eids, S, l) \<leftarrow> TopologyRowList_SelfGarbageCollect tid [] (topo D) l;
          pl \<leftarrow> vp_row_list v;
          (PS, pl) \<leftarrow> PropertyRowList_SelfGarbageCollect VP_ROW_CELL_COUNT tid (vp_mem D) pl;
          p \<leftarrow> v_list v; ml \<leftarrow> v_lists D p;
          (m, ml) \<leftarrow> SelfGarbageCollect Vertex_NeedGC Vertex_ValueGC tid (v_mvcc D) ml;
          Some (D\<lparr>topo := S, vp_mem := PS, v_mvcc := m, v_lists := (v_lists D)(p \<mapsto> ml),
                  vertex_map := (vertex_map D)(k \<mapsto> v\<lparr>ve_row_list := None, vp_row_list := None\<rparr>),
                  gcable_eid_queue := gcable_eid_queue D @ [eids], gcable_vid_queue := gcable_vid_queue D @ [uint2vid_t k]\<rparr>) }"

definition abort_record :: "nat \<Rightarrow> u64 \<Rightarrow> (nat \<Rightarrow> u32 option) \<Rightarrow> ProcessRecord \<Rightarrow> data_storage \<Rightarrow> data_storage option" where
  "abort_record tid t vids r D =
     (case pr_list r of
        VPList p \<Rightarrow> do { S \<leftarrow> abort_prop tid t p (vp_mem D); Some (D\<lparr>vp_mem := S\<rparr>) }
      | EPList p \<Rightarrow> do { S \<leftarrow> on_edge_props (\<lambda>E. do { S \<leftarrow> abort_prop tid t p (ep_mem E); Some (E\<lparr>ep_mem := S\<rparr>) }) (topo D);
                        Some (D\<lparr>topo := S\<rparr>) }
      | VList p \<Rightarrow>
          do { ml \<leftarrow> v_lists D p; (m, ml) \<leftarrow> AbortVersion Vertex_NeedGC Vertex_ValueGC tid t (v_mvcc D) ml;
               let D = D\<lparr>v_mvcc := m, v_lists := (v_lists D)(p \<mapsto> ml)\<rparr>;
               if pr_type r = PROCESS_ADD_V then discard_vertex tid (case vids p of None \<Rightarrow> 0 | Some k \<Rightarrow> k) D else Some D }
      | EList p \<Rightarrow> do { S \<leftarrow> abort_edge tid t p (topo D); Some (D\<lparr>topo := S\<rparr>) })"

fun abort_records :: "nat \<Rightarrow> u64 \<Rightarrow> (nat \<Rightarrow> u32 option) \<Rightarrow> list_ptr set \<Rightarrow> ProcessRecord list \<Rightarrow> data_storage \<Rightarrow> data_storage option" where
  "abort_records tid t vids touched [] D = Some D"
| "abort_records tid t vids touched (r # rs) D =
     (if pr_list r \<in> touched then abort_records tid t vids touched rs D
      else do { D \<leftarrow> abort_record tid t vids r D; abort_records tid t vids (insert (pr_list r) touched) rs D })"

text \<open>The last record comes first.\<close>

definition DataStorage_Abort :: "nat \<Rightarrow> u64 \<Rightarrow> data_storage \<Rightarrow> data_storage option" where
  "DataStorage_Abort tid t D =
     (case trx_process_history D t of
        None \<Rightarrow> Some D
      | Some h \<Rightarrow>
          do { D \<leftarrow> abort_records tid t (mvcclist_to_vid_map h) {} (rev (process_vector h)) D;
               Some (D\<lparr>trx_process_history := (trx_process_history D)(t := None)\<rparr>) })"

section \<open>Aggregated data, dependencies and names\<close>

definition InsertAggData :: "agg_t \<Rightarrow> value_t list \<Rightarrow> data_storage \<Rightarrow> data_storage" where
  "InsertAggData key data D =
     D\<lparr>agg_data_table := (agg_data_table D)
         (key \<mapsto> (case agg_data_table D key of None \<Rightarrow> data | Some old \<Rightarrow> old @ data))\<rparr>"

definition GetAggData :: "agg_t \<Rightarrow> value_t list \<Rightarrow> data_storage \<Rightarrow> value_t list" where
  "GetAggData key data D = (case agg_data_table D key of None \<Rightarrow> data | Some d \<Rightarrow> d)"

text \<open>The label is a \<open>uint8_t\<close> that wraps around; \<open>se_label\<close> is the one to be looked up.\<close>

partial_function (option) delete_agg :: "u64 \<Rightarrow> u8 \<Rightarrow> (agg_t \<Rightarrow> value_t list option) \<Rightarrow> (agg_t \<Rightarrow> value_t list option) option" where
  "delete_agg qid se_label T =
     (let key = agg_t_make qid (uint se_label)
      in case T key of None \<Rightarrow> Some T | Some _ \<Rightarrow> delete_agg qid (se_label + 1) (T(key := None)))"

declare delete_agg.simps [code]

definition DeleteAggData :: "u64 \<Rightarrow> data_storage \<Rightarrow> data_storage option" where
  "DeleteAggData qid D = do { T \<leftarrow> delete_agg qid 0 (agg_data_table D); Some (D\<lparr>agg_data_table := T\<rparr>) }"

definition GetDepReadTrxList :: "u64 \<Rightarrow> u64 set \<Rightarrow> u64 set \<Rightarrow> data_storage \<Rightarrow> u64 set \<times> u64 set" where
  "GetDepReadTrxList t homo hetero D =
     (case ds_deps D t of None \<Rightarrow> (homo, hetero) | Some d \<Rightarrow> (homo_trx_list d, hetero_trx_list d))"

definition CleanDepReadTrxList :: "u64 \<Rightarrow> data_storage \<Rightarrow> data_storage" where
  "CleanDepReadTrxList t D = D\<lparr>ds_deps := (ds_deps D)(t := None)\<rparr>"

section \<open>Loading\<close>

record TMPVertex =
  tv_id :: vid_t
  tv_label :: label_t
  vp_label_list :: "label_t list"
  vp_value_list :: "value_t list"

record TMPOutEdge =
  te_id :: eid_t
  te_label :: label_t
  ep_label_list :: "label_t list"
  ep_value_list :: "value_t list"

record TMPInEdge =
  ti_id :: eid_t
  ti_label :: label_t

text \<open>The properties of an element; a missing value is an access beyond the end of the vector.\<close>

fun load_props :: "nat \<Rightarrow> nat \<Rightarrow> (label_t \<Rightarrow> 'p) \<Rightarrow> label_t list \<Rightarrow> value_t list \<Rightarrow> 'p prop_store \<Rightarrow> property_row_list \<Rightarrow>
    ('p prop_store \<times> property_row_list) option" where
  "load_props R tid pid [] vs S l = Some (S, l)"
| "load_props R tid pid (k # ks) [] S l = None"
| "load_props R tid pid (k # ks) (v # vs) S l = do { (S, l) \<leftarrow> InsertInitialCell R tid (pid k) v S l; load_props R tid pid ks vs S l }"

definition load_vertex :: "nat \<Rightarrow> TMPVertex \<Rightarrow> data_storage \<Rightarrow> data_storage option" where
  "load_vertex tid tv D =
     do { (a, m, ml) \<leftarrow> AppendInitialVersion tid (v_mvcc D) empty_list;
          let p = fresh_v D;
          (S, pl) \<leftarrow> load_props VP_ROW_CELL_COUNT tid (\<lambda>k. \<lparr>vp_vid = tv_id tv, vp_pid = ucast k\<rparr>) (vp_label_list tv) (vp_value_list tv)
                      (vp_mem D) PropertyRowList_Init;
          let v = \<lparr>v_label = tv_label tv, ve_row_list = Some (TopologyRowList_Init (tv_id tv)), vp_row_list = Some pl, v_list = Some p\<rparr>;
          Some (D\<lparr>v_mvcc := write_val a True m, v_lists := (v_lists D)(p \<mapsto> ml), fresh_v := p + 1, vp_mem := S,
                  vertex_map := (vertex_map D)(vid_t_value (tv_id tv) \<mapsto> v)\<rparr>) }"

definition max_vid :: "int \<Rightarrow> TMPVertex list \<Rightarrow> int" where
  "max_vid r tvs = foldl (\<lambda>a tv. if a < uint (vid_t_value (tv_id tv)) then uint (vid_t_value (tv_id tv)) else a) r tvs"

fun load_vertices :: "nat \<Rightarrow> TMPVertex list \<Rightarrow> data_storage \<Rightarrow> data_storage option" where
  "load_vertices tid [] D = Some D"
| "load_vertices tid (tv # tvs) D = do { D \<leftarrow> load_vertex tid tv D; load_vertices tid tvs D }"

definition FillVertexContainer :: "nat \<Rightarrow> TMPVertex list \<Rightarrow> data_storage \<Rightarrow> data_storage option" where
  "FillVertexContainer tid tvs D =
     do { D \<leftarrow> load_vertices tid tvs D;
          Some (D\<lparr>num_of_vertex_local := (max_vid (worker_rank D) tvs - worker_rank D) div worker_size D\<rparr>) }"

text \<open>A cell for an edge at the vertex \<open>vid\<close>, and the entry of the edge map.\<close>

definition load_cell :: "nat \<Rightarrow> bool \<Rightarrow> vid_t \<Rightarrow> vid_t \<Rightarrow> eid_t \<Rightarrow> label_t \<Rightarrow> nat option \<Rightarrow> data_storage \<Rightarrow> (nat \<times> data_storage) option" where
  "load_cell tid out vid conn eid label ep D =
     do { v \<leftarrow> vertex_map D (vid_t_value vid); l \<leftarrow> ve_row_list v;
          (p, S, l) \<leftarrow> Topology_InsertInitialCell tid out conn label ep (topo D) l;
          Some (p, set_edge out eid (Some p)
                 (D\<lparr>topo := S, vertex_map := (vertex_map D)(vid_t_value vid \<mapsto> v\<lparr>ve_row_list := Some l\<rparr>)\<rparr>)) }"

text \<open>\<open>x\<close> is the reader with transaction id and begin time 0 that finds the version just written.\<close>

definition load_out_edge :: "nat \<Rightarrow> read_context \<Rightarrow> TMPOutEdge \<Rightarrow> data_storage \<Rightarrow> data_storage option" where
  "load_out_edge tid x e D =
     do { (ep, S) \<leftarrow> new_ep_row_list True (topo D);
          (p, D) \<leftarrow> load_cell tid True (src_v (te_id e)) (dst_v (te_id e)) (te_id e) (te_label e) ep (D\<lparr>topo := S\<rparr>);
          (r, D) \<leftarrow> visible_edge_at (x\<lparr>rc_trx := 0, rc_begin := 0, rc_read_only := True\<rparr>) p D;
          v \<leftarrow> (case r of Visible v \<Rightarrow> Some v | _ \<Rightarrow> None);
          (q, E, pl) \<leftarrow> edge_ep_list v D;
          (S, pl) \<leftarrow> load_props EP_ROW_CELL_COUNT tid (\<lambda>k. \<lparr>ep_dst_vid = dst_v (te_id e), ep_src_vid = src_v (te_id e), ep_pid = ucast k\<rparr>)
                      (ep_label_list e) (ep_value_list e) (ep_mem E) pl;
          let D = set_ep q S pl E D;
          if GetMachineIdForVertex (worker_size D) (dst_v (te_id e)) = worker_rank D
          then do { (_, D) \<leftarrow> load_cell tid False (dst_v (te_id e)) (src_v (te_id e)) (te_id e) (te_label e) None D; Some D }
          else Some D }"

fun load_out_edges :: "nat \<Rightarrow> read_context \<Rightarrow> TMPOutEdge list \<Rightarrow> data_storage \<Rightarrow> data_storage option" where
  "load_out_edges tid x [] D = Some D"
| "load_out_edges tid x (e # es) D = do { D \<leftarrow> load_out_edge tid x e D; load_out_edges tid x es D }"

fun load_in_edges :: "nat \<Rightarrow> TMPInEdge list \<Rightarrow> data_storage \<Rightarrow> data_storage option" where
  "load_in_edges tid [] D = Some D"
| "load_in_edges tid (e # es) D =
     do { (_, D) \<leftarrow> load_cell tid False (dst_v (ti_id e)) (src_v (ti_id e)) (ti_id e) (ti_label e) None D; load_in_edges tid es D }"

definition FillEdgeContainer :: "nat \<Rightarrow> read_context \<Rightarrow> TMPOutEdge list \<Rightarrow> TMPInEdge list \<Rightarrow> data_storage \<Rightarrow> data_storage option" where
  "FillEdgeContainer tid x outs ins D = do { D \<leftarrow> load_out_edges tid x outs D; load_in_edges tid ins D }"

end
