(* ===== verification/Storage_Commit.thy ===== *)
theory Storage_Commit
  imports Data_Storage
begin

text \<open>
  Commit and abort of \<open>DataStorage\<close>: the history of a transaction names exactly the version lists that hold a pending
  version of it, so that a commit publishes all its writes together (src/layout/data_storage.cpp).
\<close>

section \<open>The version lists of a storage\<close>

record storage_hist =
  hv :: "nat \<Rightarrow> bool history"
  he :: "nat \<Rightarrow> EdgeVersion history"
  hp :: "nat \<Rightarrow> ValueHeader history"
  hx :: "nat \<Rightarrow> ValueHeader history"

definition edge_store :: "data_storage \<Rightarrow> edge_props option" where
  "edge_store D = val_store (edge_mvcc (topo D))"

definition storage_rep :: "data_storage \<Rightarrow> storage_hist \<Rightarrow> bool" where
  "storage_rep D H \<longleftrightarrow>
     fam_ok (v_mvcc D) (v_lists D) (hv H) \<and> fam_ok (edge_mvcc (topo D)) (edge_lists (topo D)) (he H) \<and>
     fam_ok (prop_mvcc (vp_mem D)) (prop_lists (vp_mem D)) (hp H) \<and>
     (\<exists>E. edge_store D = Some E \<and> fam_ok (prop_mvcc (ep_mem E)) (prop_lists (ep_mem E)) (hx H))"

text \<open>The list a pointer refers to, and its versions.\<close>

definition alive :: "data_storage \<Rightarrow> list_ptr \<Rightarrow> bool" where
  "alive D ptr =
     (case ptr of
        VList p \<Rightarrow> v_lists D p \<noteq> None | EList p \<Rightarrow> edge_lists (topo D) p \<noteq> None | VPList p \<Rightarrow> prop_lists (vp_mem D) p \<noteq> None
      | EPList p \<Rightarrow> (case edge_store D of None \<Rightarrow> False | Some E \<Rightarrow> prop_lists (ep_mem E) p \<noteq> None))"

definition owned :: "u64 \<Rightarrow> 'v history \<Rightarrow> bool" where
  "owned t h \<longleftrightarrow> (case snd h of None \<Rightarrow> False | Some (t', _, _) \<Rightarrow> t' = t)"

definition before :: "u64 \<Rightarrow> 'v history \<Rightarrow> bool" where
  "before c h \<longleftrightarrow> (\<forall>d\<in>set (map fst (fst h)). d < c)"

text \<open>The pending version of \<open>t\<close> becomes a committed one (\<open>Some\<close> of its commit time), or is withdrawn (\<open>None\<close>).\<close>

definition settle :: "u64 \<Rightarrow> u64 option \<Rightarrow> 'v history \<Rightarrow> 'v history" where
  "settle t oc h =
     (case snd h of
        None \<Rightarrow> h
      | Some (t', _, v) \<Rightarrow> if t' = t then (case oc of None \<Rightarrow> fst h | Some c \<Rightarrow> fst h @ [(c, v)], None) else h)"

definition ptr_owned :: "u64 \<Rightarrow> storage_hist \<Rightarrow> list_ptr \<Rightarrow> bool" where
  "ptr_owned t H ptr =
     (case ptr of VList p \<Rightarrow> owned t (hv H p) | EList p \<Rightarrow> owned t (he H p) | VPList p \<Rightarrow> owned t (hp H p) | EPList p \<Rightarrow> owned t (hx H p))"

definition ptr_before :: "u64 \<Rightarrow> storage_hist \<Rightarrow> list_ptr \<Rightarrow> bool" where
  "ptr_before c H ptr =
     (case ptr of VList p \<Rightarrow> before c (hv H p) | EList p \<Rightarrow> before c (he H p) | VPList p \<Rightarrow> before c (hp H p) | EPList p \<Rightarrow> before c (hx H p))"

definition settle_at :: "u64 \<Rightarrow> u64 option \<Rightarrow> list_ptr set \<Rightarrow> storage_hist \<Rightarrow> storage_hist" where
  "settle_at t oc X H =
     \<lparr>hv = \<lambda>p. if VList p \<in> X then settle t oc (hv H p) else hv H p, he = \<lambda>p. if EList p \<in> X then settle t oc (he H p) else he H p,
      hp = \<lambda>p. if VPList p \<in> X then settle t oc (hp H p) else hp H p, hx = \<lambda>p. if EPList p \<in> X then settle t oc (hx H p) else hx H p\<rparr>"

section \<open>Commit\<close>

lemma fam_commit_owned:
  assumes "fam_ok m L A" "L p \<noteq> None" "owned t (A p)" "before c (A p)" "c < MAX_TIME"
  obtains ml m' ml' where "L p = Some ml" "CommitVersion t c m ml = Some (m', ml')" "val_store m' = val_store m"
    "nthreads (item_pool m') = nthreads (item_pool m)" "fam_ok m' (L(p \<mapsto> ml')) (A(p := settle t (Some c) (A p)))"
proof -
  obtain ml where ml: "L p = Some ml" using assms(2) by auto
  obtain b v where o: "snd (A p) = Some (t, b, v)" using assms(3) by (auto simp: owned_def split: option.splits)
  then have A: "A p = (fst (A p), Some (t, b, v))" by (metis prod.collapse)
  obtain m' ml' where "CommitVersion t c m ml = Some (m', ml')" "val_store m' = val_store m" "nthreads (item_pool m') = nthreads (item_pool m)"
    "fam_ok m' (L(p \<mapsto> ml')) (A(p := (fst (A p) @ [(c, v)], None)))"
    by (rule fam_commit [OF assms(1) ml A assms(5)]) (use assms(4) in \<open>simp add: before_def\<close>)
  then show ?thesis using that [OF ml] o by (simp add: settle_def)
qed

definition unused_above :: "nat \<Rightarrow> (nat \<Rightarrow> mvcc_list option) \<Rightarrow> bool" where
  "unused_above n L \<longleftrightarrow> (\<forall>p \<ge> n. L p = None)"

definition fresh_ok :: "data_storage \<Rightarrow> bool" where
  "fresh_ok D \<longleftrightarrow>
     unused_above (fresh_v D) (v_lists D) \<and> unused_above (fresh_edge (topo D)) (edge_lists (topo D)) \<and>
     unused_above (fresh_list (vp_mem D)) (prop_lists (vp_mem D)) \<and>
     (\<forall>E. edge_store D = Some E \<longrightarrow> unused_above (fresh_list (ep_mem E)) (prop_lists (ep_mem E)))"

definition threads_ok :: "nat \<Rightarrow> data_storage \<Rightarrow> bool" where
  "threads_ok n D \<longleftrightarrow>
     nthreads (item_pool (v_mvcc D)) = n \<and> nthreads (item_pool (edge_mvcc (topo D))) = n \<and>
     nthreads (item_pool (prop_mvcc (vp_mem D))) = n \<and>
     (\<forall>E. edge_store D = Some E \<longrightarrow> nthreads (item_pool (prop_mvcc (ep_mem E))) = n)"

lemma unused_above_upd [simp]: "unused_above n L \<Longrightarrow> L p = Some ml \<Longrightarrow> unused_above n (L(p \<mapsto> ml'))"
  by (auto simp: unused_above_def)

definition same_but_lists :: "data_storage \<Rightarrow> data_storage \<Rightarrow> bool" where
  "same_but_lists D D' \<longleftrightarrow> trx_process_history D' = trx_process_history D \<and> (\<forall>ptr. alive D' ptr = alive D ptr) \<and>
     (fresh_ok D \<longrightarrow> fresh_ok D') \<and> (\<forall>n. threads_ok n D \<longrightarrow> threads_ok n D')"

lemma commit_record_ok:
  assumes rep: "storage_rep D H" and a: "alive D ptr" "ptr_owned t H ptr" "ptr_before c H ptr" and c: "c < MAX_TIME"
  obtains D' where "commit_record t c ptr D = Some D'" "storage_rep D' (settle_at t (Some c) {ptr} H)" "same_but_lists D D'"
proof -
  obtain E where R: "fam_ok (v_mvcc D) (v_lists D) (hv H)" "fam_ok (edge_mvcc (topo D)) (edge_lists (topo D)) (he H)"
    "fam_ok (prop_mvcc (vp_mem D)) (prop_lists (vp_mem D)) (hp H)"
    "edge_store D = Some E" "fam_ok (prop_mvcc (ep_mem E)) (prop_lists (ep_mem E)) (hx H)"
    using rep by (auto simp: storage_rep_def)
  have upd: "(\<lambda>q. if q = p then settle t (Some c) (A q) else A q) = A(p := settle t (Some c) (A p))" for p and A :: "nat \<Rightarrow> 'v history" by auto
  note defs = commit_record_def commit_prop_def commit_edge_def on_edge_props_def storage_rep_def settle_at_def same_but_lists_def alive_def edge_store_def fresh_ok_def threads_ok_def
  show ?thesis
  proof (cases ptr)
    case (VList p)
    obtain ml m' ml' where C: "v_lists D p = Some ml" "CommitVersion t c (v_mvcc D) ml = Some (m', ml')" "nthreads (item_pool m') = nthreads (item_pool (v_mvcc D))"
      "fam_ok m' ((v_lists D)(p \<mapsto> ml')) ((hv H)(p := settle t (Some c) (hv H p)))"
      by (rule fam_commit_owned [OF R(1) _ _ _ c, of p t]) (use a VList in \<open>auto simp: alive_def ptr_owned_def ptr_before_def\<close>)
    show ?thesis
      by (rule that) (use C R VList in \<open>auto simp: defs upd split: list_ptr.splits if_splits\<close>)
  next
    case (EList p)
    obtain ml m' ml' where C: "edge_lists (topo D) p = Some ml" "CommitVersion t c (edge_mvcc (topo D)) ml = Some (m', ml')"
      "val_store m' = val_store (edge_mvcc (topo D))" "nthreads (item_pool m') = nthreads (item_pool (edge_mvcc (topo D)))"
      "fam_ok m' ((edge_lists (topo D))(p \<mapsto> ml')) ((he H)(p := settle t (Some c) (he H p)))"
      by (rule fam_commit_owned [OF R(2) _ _ _ c, of p t]) (use a EList in \<open>auto simp: alive_def ptr_owned_def ptr_before_def\<close>)
    show ?thesis
      by (rule that) (use C R EList in \<open>auto simp: defs upd split: list_ptr.splits if_splits\<close>)
  next
    case (VPList p)
    obtain ml m' ml' where C: "prop_lists (vp_mem D) p = Some ml" "CommitVersion t c (prop_mvcc (vp_mem D)) ml = Some (m', ml')"
      "nthreads (item_pool m') = nthreads (item_pool (prop_mvcc (vp_mem D)))"
      "fam_ok m' ((prop_lists (vp_mem D))(p \<mapsto> ml')) ((hp H)(p := settle t (Some c) (hp H p)))"
      by (rule fam_commit_owned [OF R(3) _ _ _ c, of p t]) (use a VPList in \<open>auto simp: alive_def ptr_owned_def ptr_before_def\<close>)
    show ?thesis
      by (rule that) (use C R VPList in \<open>auto simp: defs upd split: list_ptr.splits if_splits\<close>)
  next
    case (EPList p)
    obtain ml m' ml' where C: "prop_lists (ep_mem E) p = Some ml" "CommitVersion t c (prop_mvcc (ep_mem E)) ml = Some (m', ml')"
      "nthreads (item_pool m') = nthreads (item_pool (prop_mvcc (ep_mem E)))"
      "fam_ok m' ((prop_lists (ep_mem E))(p \<mapsto> ml')) ((hx H)(p := settle t (Some c) (hx H p)))"
      by (rule fam_commit_owned [OF R(5) _ _ _ c, of p t]) (use a EPList R(4) in \<open>auto simp: alive_def ptr_owned_def ptr_before_def\<close>)
    show ?thesis
      by (rule that) (use C R EPList in \<open>auto simp: defs upd fam_store split: list_ptr.splits if_splits\<close>)
  qed
qed

lemma settle_at_insert:
  assumes "ptr \<notin> X"
  shows "settle_at t oc X (settle_at t oc {ptr} H) = settle_at t oc (insert ptr X) H"
  using assms by (auto simp: settle_at_def fun_eq_iff)

lemma settle_at_other:
  assumes "q \<noteq> ptr"
  shows "ptr_owned s (settle_at t oc {ptr} H) q = ptr_owned s H q" "ptr_before d (settle_at t oc {ptr} H) q = ptr_before d H q"
  using assms by (auto simp: settle_at_def ptr_owned_def ptr_before_def split: list_ptr.splits)

lemma commit_records_ok:
  assumes "storage_rep D H" "\<forall>r\<in>set rs. pr_list r \<notin> touched \<longrightarrow> alive D (pr_list r) \<and> ptr_owned t H (pr_list r) \<and> ptr_before c H (pr_list r)"
    and c: "c < MAX_TIME"
  shows "\<exists>D'. commit_records t c touched rs D = Some D' \<and> storage_rep D' (settle_at t (Some c) (pr_list ` set rs - touched) H) \<and> same_but_lists D D'"
  using assms(1,2)
proof (induction rs arbitrary: touched D H)
  case Nil
  have "settle_at t (Some c) {} H = H" by (simp add: settle_at_def)
  then show ?case using Nil by (simp add: same_but_lists_def)
next
  case (Cons r rs)
  let ?p = "pr_list r"
  show ?case
  proof (cases "?p \<in> touched")
    case True
    then show ?thesis using Cons.IH [of D H touched] Cons.prems by simp
  next
    case False
    obtain D1 where D1: "commit_record t c ?p D = Some D1" "storage_rep D1 (settle_at t (Some c) {?p} H)" "same_but_lists D D1"
      by (rule commit_record_ok [OF Cons.prems(1) _ _ _ c, of ?p t]) (use Cons.prems(2) False in auto)
    have "\<forall>r\<in>set rs. pr_list r \<notin> insert ?p touched \<longrightarrow> alive D1 (pr_list r) \<and>
        ptr_owned t (settle_at t (Some c) {?p} H) (pr_list r) \<and> ptr_before c (settle_at t (Some c) {?p} H) (pr_list r)"
      using Cons.prems(2) D1(3) by (auto simp: same_but_lists_def settle_at_other)
    from Cons.IH [OF D1(2) this] obtain D2 where D2: "commit_records t c (insert ?p touched) rs D1 = Some D2"
      "storage_rep D2 (settle_at t (Some c) (pr_list ` set rs - insert ?p touched) (settle_at t (Some c) {?p} H))" "same_but_lists D1 D2" by blast
    have "insert ?p (pr_list ` set rs - insert ?p touched) = pr_list ` set (r # rs) - touched" using False by auto
    then have "settle_at t (Some c) (pr_list ` set rs - insert ?p touched) (settle_at t (Some c) {?p} H) = settle_at t (Some c) (pr_list ` set (r # rs) - touched) H"
      using settle_at_insert [of ?p "pr_list ` set rs - insert ?p touched"] by simp
    then show ?thesis using D1 D2 False by (auto simp: same_but_lists_def)
  qed
qed

section \<open>The invariant\<close>

definition recorded :: "data_storage \<Rightarrow> u64 \<Rightarrow> list_ptr set" where
  "recorded D t = pr_list ` set (process_vector (history_of D t))"

definition times_upto :: "u64 \<Rightarrow> 'v history \<Rightarrow> bool" where
  "times_upto n h \<longleftrightarrow> (\<forall>d\<in>set (map fst (fst h)). d \<le> n)"

definition ptr_upto :: "u64 \<Rightarrow> storage_hist \<Rightarrow> list_ptr \<Rightarrow> bool" where
  "ptr_upto n H ptr =
     (case ptr of VList p \<Rightarrow> times_upto n (hv H p) | EList p \<Rightarrow> times_upto n (he H p) | VPList p \<Rightarrow> times_upto n (hp H p) | EPList p \<Rightarrow> times_upto n (hx H p))"

text \<open>
  \<open>now\<close> is the newest commit time. The history of a transaction names exactly the lists with a pending version of it.
\<close>

definition storage_inv :: "nat \<Rightarrow> u64 \<Rightarrow> data_storage \<Rightarrow> storage_hist \<Rightarrow> bool" where
  "storage_inv n now D H \<longleftrightarrow>
     storage_rep D H \<and> fresh_ok D \<and> threads_ok n D \<and> (\<forall>ptr. alive D ptr \<longrightarrow> ptr_upto now H ptr) \<and>
     (\<forall>t ptr. ptr \<in> recorded D t \<longleftrightarrow> alive D ptr \<and> ptr_owned t H ptr)"

definition settle_all :: "u64 \<Rightarrow> u64 option \<Rightarrow> storage_hist \<Rightarrow> storage_hist" where
  "settle_all t oc H = \<lparr>hv = settle t oc \<circ> hv H, he = settle t oc \<circ> he H, hp = settle t oc \<circ> hp H, hx = settle t oc \<circ> hx H\<rparr>"

lemma not_owned_settle: "\<not> owned t h \<Longrightarrow> settle t oc h = h"
  by (auto simp: owned_def settle_def split: option.splits)

text \<open>What dead pointers stand for does not matter.\<close>

lemma fam_cong:
  assumes "fam_ok m L A" "\<And>p. L p \<noteq> None \<Longrightarrow> B p = A p"
  shows "fam_ok m L B"
proof -
  obtain U C where "fam_cells m L A U C" by (rule fam_okE [OF assms(1)])
  then have "fam_cells m L B U C" using assms(2) unfolding fam_cells_def by auto
  then show ?thesis unfolding fam_ok_def by blast
qed

lemma settle_recorded:
  assumes inv: "storage_inv n now D H" and rep: "storage_rep D' (settle_at t oc (recorded D t) H)" and same: "\<forall>ptr. alive D' ptr = alive D ptr"
  shows "storage_rep D' (settle_all t oc H)"
proof -
  have r: "ptr \<in> recorded D t \<longleftrightarrow> alive D' ptr \<and> ptr_owned t H ptr" for ptr using inv same unfolding storage_inv_def by blast
  have e: "(if ptr \<in> recorded D t then settle t oc h else h) = settle t oc h" if "alive D' ptr" "ptr_owned t H ptr = owned t h" for ptr and h :: "'v history"
    using r [of ptr] that not_owned_settle by metis
  obtain E where R: "fam_ok (v_mvcc D') (v_lists D') (hv (settle_at t oc (recorded D t) H))"
    "fam_ok (edge_mvcc (topo D')) (edge_lists (topo D')) (he (settle_at t oc (recorded D t) H))"
    "fam_ok (prop_mvcc (vp_mem D')) (prop_lists (vp_mem D')) (hp (settle_at t oc (recorded D t) H))"
    "edge_store D' = Some E" "fam_ok (prop_mvcc (ep_mem E)) (prop_lists (ep_mem E)) (hx (settle_at t oc (recorded D t) H))"
    using rep by (auto simp: storage_rep_def)
  have "fam_ok (v_mvcc D') (v_lists D') (settle t oc \<circ> hv H)"
    by (rule fam_cong [OF R(1)]) (simp add: settle_at_def e [of "VList _", symmetric] alive_def ptr_owned_def)
  moreover have "fam_ok (edge_mvcc (topo D')) (edge_lists (topo D')) (settle t oc \<circ> he H)"
    by (rule fam_cong [OF R(2)]) (simp add: settle_at_def e [of "EList _", symmetric] alive_def ptr_owned_def)
  moreover have "fam_ok (prop_mvcc (vp_mem D')) (prop_lists (vp_mem D')) (settle t oc \<circ> hp H)"
    by (rule fam_cong [OF R(3)]) (simp add: settle_at_def e [of "VPList _", symmetric] alive_def ptr_owned_def)
  moreover have "fam_ok (prop_mvcc (ep_mem E)) (prop_lists (ep_mem E)) (settle t oc \<circ> hx H)"
    by (rule fam_cong [OF R(5)]) (simp add: settle_at_def e [of "EPList _", symmetric] alive_def ptr_owned_def R(4))
  ultimately show ?thesis using R(4) by (simp add: storage_rep_def settle_all_def)
qed

lemma owned_settle: "owned s (settle t oc h) \<longleftrightarrow> owned s h \<and> s \<noteq> t"
  by (auto simp: owned_def settle_def split: option.splits)

definition latest :: "u64 \<Rightarrow> u64 option \<Rightarrow> u64" where
  "latest now oc = (case oc of None \<Rightarrow> now | Some c \<Rightarrow> c)"

lemma upto_settle: "times_upto now h \<Longrightarrow> now \<le> latest now oc \<Longrightarrow> times_upto (latest now oc) (settle t oc h)"
  by (force simp: times_upto_def settle_def latest_def split: option.splits)

lemma settle_all_ptr:
  "ptr_owned s (settle_all t oc H) ptr \<longleftrightarrow> ptr_owned s H ptr \<and> s \<noteq> t"
  "ptr_upto now H ptr \<Longrightarrow> now \<le> latest now oc \<Longrightarrow> ptr_upto (latest now oc) (settle_all t oc H) ptr"
  by (auto simp: ptr_owned_def ptr_upto_def settle_all_def owned_settle upto_settle split: list_ptr.splits)

lemma before_upto: "ptr_upto now H ptr \<Longrightarrow> now < c \<Longrightarrow> ptr_before c H ptr"
  by (force simp: ptr_upto_def ptr_before_def times_upto_def before_def split: list_ptr.splits)

lemma same_but_lists_trans_history: "same_but_lists D D' \<Longrightarrow> history_of D' t = history_of D t"
  by (simp add: same_but_lists_def history_of_def)

lemma storage_rep_history [simp]:
  "storage_rep (D\<lparr>trx_process_history := x\<rparr>) H = storage_rep D H" "fresh_ok (D\<lparr>trx_process_history := x\<rparr>) = fresh_ok D"
  "threads_ok n (D\<lparr>trx_process_history := x\<rparr>) = threads_ok n D" "alive (D\<lparr>trx_process_history := x\<rparr>) = alive D"
  by (simp_all add: storage_rep_def fresh_ok_def threads_ok_def alive_def edge_store_def fun_eq_iff split: list_ptr.splits)

text \<open>The end of a transaction: its history is forgotten.\<close>

definition forget :: "u64 \<Rightarrow> data_storage \<Rightarrow> data_storage" where
  "forget t D = D\<lparr>trx_process_history := (trx_process_history D)(t := None)\<rparr>"

lemma forget_none: "trx_process_history D t = None \<Longrightarrow> forget t D = D"
  by (simp add: forget_def fun_upd_idem)

lemma settle_inv:
  assumes inv: "storage_inv n now D H" and rep: "storage_rep D1 (settle_at t oc (recorded D t) H)" and same: "same_but_lists D D1"
    and c: "now \<le> latest now oc"
  shows "storage_inv n (latest now oc) (forget t D1) (settle_all t oc H)" "alive (forget t D1) = alive D"
proof -
  let ?D = "forget t D1"
  have own: "\<And>t ptr. ptr \<in> recorded D t \<longleftrightarrow> alive D ptr \<and> ptr_owned t H ptr"
    and times: "\<And>ptr. alive D ptr \<Longrightarrow> ptr_upto now H ptr" and ok: "fresh_ok D" "threads_ok n D"
    using inv unfolding storage_inv_def by blast+
  have S: "\<forall>ptr. alive D1 ptr = alive D ptr" "trx_process_history D1 = trx_process_history D" "fresh_ok D1" "threads_ok n D1"
    using same ok by (simp_all add: same_but_lists_def)
  have r: "ptr \<in> recorded ?D s \<longleftrightarrow> ptr \<in> recorded D s \<and> s \<noteq> t" for ptr s
    using S(2) by (auto simp: recorded_def history_of_def forget_def)
  show al: "alive ?D = alive D" using S(1) by (auto simp: forget_def)
  show "storage_inv n (latest now oc) ?D (settle_all t oc H)" unfolding storage_inv_def
  proof (intro conjI allI impI)
    show "storage_rep ?D (settle_all t oc H)" using settle_recorded [OF inv rep S(1)] by (simp add: forget_def)
    fix ptr assume "alive ?D ptr"
    then show "ptr_upto (latest now oc) (settle_all t oc H) ptr" using al times settle_all_ptr(2) c by simp
  next
    fix s ptr show "ptr \<in> recorded ?D s \<longleftrightarrow> alive ?D ptr \<and> ptr_owned s (settle_all t oc H) ptr"
      using r own al by (auto simp: settle_all_ptr(1))
  qed (use S in \<open>simp_all add: forget_def\<close>)
qed

lemma settle_at_empty [simp]: "settle_at t oc {} H = H"
  by (simp add: settle_at_def)

lemma Commit_ok:
  assumes inv: "storage_inv n now D H" and c: "now < c" "c < MAX_TIME"
  obtains D' where "Commit t c D = Some D'" "storage_inv n c D' (settle_all t (Some c) H)" "alive D' = alive D" "trx_process_history D' t = None"
proof -
  have rep: "storage_rep D H" and own: "\<And>t ptr. ptr \<in> recorded D t \<longleftrightarrow> alive D ptr \<and> ptr_owned t H ptr"
    and times: "\<And>ptr. alive D ptr \<Longrightarrow> ptr_upto now H ptr"
    using inv unfolding storage_inv_def by blast+
  obtain D1 where D1: "Commit t c D = Some (forget t D1)" "storage_rep D1 (settle_at t (Some c) (recorded D t) H)" "same_but_lists D D1"
  proof (cases "trx_process_history D t")
    case None
    then show ?thesis using that [of D] rep by (simp add: recorded_def history_of_def same_but_lists_def Commit_def forget_none)
  next
    case (Some h)
    have "\<forall>r\<in>set (process_vector h). pr_list r \<notin> {} \<longrightarrow> alive D (pr_list r) \<and> ptr_owned t H (pr_list r) \<and> ptr_before c H (pr_list r)"
      using own [of _ t] times before_upto [OF _ c(1)] Some unfolding recorded_def history_of_def by fastforce
    from commit_records_ok [OF rep this c(2)] show ?thesis using that Some by (auto simp: recorded_def history_of_def Commit_def forget_def)
  qed
  have "now \<le> latest now (Some c)" using c(1) by (simp add: latest_def)
  note s = settle_inv [OF inv D1(2,3) this]
  show ?thesis by (rule that [OF D1(1)]) (use s in \<open>simp_all add: latest_def forget_def\<close>)
qed

section \<open>Writing one list\<close>

definition list_wrote :: "u64 \<Rightarrow> nat \<Rightarrow> ('v, 's) mvcc_mem \<Rightarrow> (nat \<Rightarrow> mvcc_list option) \<Rightarrow> (nat \<Rightarrow> 'v history) \<Rightarrow>
    ('v, 's) mvcc_mem \<Rightarrow> (nat \<Rightarrow> mvcc_list option) \<Rightarrow> (nat \<Rightarrow> 'v history) \<Rightarrow> bool" where
  "list_wrote t p m L A m' L' A' \<longleftrightarrow>
     fam_ok m' L' A' \<and> nthreads (item_pool m') = nthreads (item_pool m) \<and> (\<exists>ml. L' = L(p \<mapsto> ml)) \<and>
     (\<exists>vs b w. A' = A(p := (vs, Some (t, b, w))) \<and> (L p = None \<longrightarrow> vs = []) \<and>
        (L p \<noteq> None \<longrightarrow> vs = fst (A p) \<and> (snd (A p) = None \<or> owned t (A p))))"

lemma AppendVersion_wrote:
  assumes ok: "fam_ok m L A" and p: "L p = Some ml" and t: "tid < nthreads (item_pool m)" "IS_VALID_TRX_ID t"
    and r: "AppendVersion G F tid t bt m ml = Some r"
  shows "app_item r = None \<Longrightarrow> app_mem r = m \<and> app_list r = ml"
    "app_item r = Some a \<Longrightarrow> \<exists>b. list_wrote t p m L A (write_val a w (app_mem r)) (L(p \<mapsto> app_list r)) (A(p := (fst (A p), Some (t, b, w))))"
    "app_item r = Some a \<Longrightarrow> (\<And>v b. A p = (fst (A p), Some (t, b, v)) \<Longrightarrow> \<not> G v) \<Longrightarrow> val_store (app_mem r) = val_store m"
proof -
  obtain vs u where A: "A p = (vs, u)" by fastforce
  have "(app_item r = None \<longrightarrow> app_mem r = m \<and> app_list r = ml) \<and>
    (\<forall>a. app_item r = Some a \<longrightarrow> (\<exists>b. list_wrote t p m L A (write_val a w (app_mem r)) (L(p \<mapsto> app_list r)) (A(p := (vs, Some (t, b, w)))))) \<and>
    (\<forall>a. app_item r = Some a \<longrightarrow> (\<forall>v b. u = Some (t, b, v) \<longrightarrow> \<not> G v) \<longrightarrow> val_store (app_mem r) = val_store m)"
  proof (cases u)
    case None
    obtain a g where a: "app_item r = Some a" "tail (app_list r) = Some a" "nthreads (item_pool (app_mem r)) = nthreads (item_pool m)"
      "val_store (app_mem r) = val_store m" "fam_ok (app_mem r) (L(p \<mapsto> app_list r)) (A(p := (vs, Some (t, bt, g))))"
      by (rule fam_append_new [OF ok p A [unfolded None] t r])
    have "fam_ok (write_val a w (app_mem r)) (L(p \<mapsto> app_list r)) (A(p := (vs, Some (t, bt, w))))"
      using fam_write [OF a(5), of p "app_list r" vs t bt g a w] a(2) by simp
    then have "list_wrote t p m L A (write_val a w (app_mem r)) (L(p \<mapsto> app_list r)) (A(p := (vs, Some (t, bt, w))))"
      using a(3) A p None by (auto simp: list_wrote_def write_val_def upd_item_def)
    then show ?thesis using a(1,4) by auto
  next
    case (Some y)
    obtain s b v where y: "y = (s, b, v)" by (cases y)
    show ?thesis
    proof (cases "s = t")
      case True
      note o = fam_append_own [OF ok p A [unfolded Some y True] r]
      obtain a where a: "tail ml = Some a" using o(6) by auto
      have "fam_ok (write_val a w (app_mem r)) (L(p \<mapsto> app_list r)) (A(p := (vs, Some (t, b, w))))"
        using fam_write [OF o(5) p A [unfolded Some y True] a, of w] p o(2) by (simp add: fun_upd_idem)
      then have "list_wrote t p m L A (write_val a w (app_mem r)) (L(p \<mapsto> app_list r)) (A(p := (vs, Some (t, b, w))))"
        using o(2,3) A p Some y True by (auto simp: list_wrote_def write_val_def upd_item_def owned_def)
      then show ?thesis using o(1,4) a Some y True by auto
    next
      case False
      note o = fam_append_conflict [OF ok p A [unfolded Some y] False r]
      then show ?thesis by simp
    qed
  qed
  then show "app_item r = None \<Longrightarrow> app_mem r = m \<and> app_list r = ml"
    "app_item r = Some a \<Longrightarrow> \<exists>b. list_wrote t p m L A (write_val a w (app_mem r)) (L(p \<mapsto> app_list r)) (A(p := (fst (A p), Some (t, b, w))))"
    "app_item r = Some a \<Longrightarrow> (\<And>v b. A p = (fst (A p), Some (t, b, v)) \<Longrightarrow> \<not> G v) \<Longrightarrow> val_store (app_mem r) = val_store m"
    using A by auto
qed

text \<open>A list that has just been created.\<close>

lemma new_list_wrote:
  assumes ok: "fam_ok m L A" and p: "L p = None" and w: "list_wrote t p m (L(p \<mapsto> empty_list)) (A(p := ([], None))) m' L' A'"
  shows "list_wrote t p m L A m' L' A'"
proof -
  obtain vs b x ml where w': "A' = (A(p := ([], None)))(p := (vs, Some (t, b, x)))" "L' = (L(p \<mapsto> empty_list))(p \<mapsto> ml)" "vs = []"
    "fam_ok m' L' A'" "nthreads (item_pool m') = nthreads (item_pool m)" using w by (auto simp: list_wrote_def)
  then show ?thesis using p unfolding list_wrote_def
    by (intro conjI exI [of _ ml] exI [of _ vs] exI [of _ b] exI [of _ x]) auto
qed

lemma list_wrote_store [simp]: "list_wrote t p m L A (m'\<lparr>val_store := s\<rparr>) L' A' = list_wrote t p m L A m' L' A'"
  by (simp add: list_wrote_def fam_store)

lemma write_val_store: "write_val a v (m\<lparr>val_store := s\<rparr>) = (write_val a v m)\<lparr>val_store := s\<rparr>"
  by (simp add: write_val_def upd_item_def)

section \<open>Writing a property\<close>

definition prop_effect :: "u64 \<Rightarrow> nat option \<Rightarrow> 'p prop_store \<Rightarrow> (nat \<Rightarrow> ValueHeader history) \<Rightarrow> 'p prop_store \<Rightarrow> bool" where
  "prop_effect t ret S A S' \<longleftrightarrow>
     (case ret of
        None \<Rightarrow> prop_mvcc S' = prop_mvcc S \<and> prop_lists S' = prop_lists S \<and> fresh_list S' = fresh_list S
      | Some p \<Rightarrow> unused_above (fresh_list S') (prop_lists S') \<and>
          (\<exists>A'. list_wrote t p (prop_mvcc S) (prop_lists S) A (prop_mvcc S') (prop_lists S') A'))"

lemma modify_cell_effect:
  assumes ok: "fam_ok (prop_mvcc S) (prop_lists S) A" and p: "prop_lists S p = Some ml" and t: "tid < nthreads (item_pool (prop_mvcc S))" "IS_VALID_TRX_ID t"
    and m: "modify_cell tid ac p flag v t bt S old = Some ((ex, ret), old', S')"
  shows "ret = None \<longrightarrow> prop_mvcc S' = prop_mvcc S \<and> prop_lists S' = prop_lists S" "fresh_list S' = fresh_list S"
    "ret \<noteq> None \<longrightarrow> ret = Some p \<and> (\<exists>A'. list_wrote t p (prop_mvcc S) (prop_lists S) A (prop_mvcc S') (prop_lists S') A')"
    "snd (A p) = None \<Longrightarrow> ret \<noteq> None"
proof -
  obtain r where r: "AppendVersion Property_NeedGC (Property_ValueGC tid) tid t bt (prop_mvcc S) ml = Some r"
    using m p by (auto simp: modify_cell_def bind_eq_Some_conv)
  note w = AppendVersion_wrote [OF ok p t r]
  have "(ret = None \<longrightarrow> prop_mvcc S' = prop_mvcc S \<and> prop_lists S' = prop_lists S) \<and> fresh_list S' = fresh_list S \<and>
    (ret \<noteq> None \<longrightarrow> ret = Some p \<and> (\<exists>A'. list_wrote t p (prop_mvcc S) (prop_lists S) A (prop_mvcc S') (prop_lists S') A')) \<and>
    (snd (A p) = None \<longrightarrow> ret \<noteq> None)"
  proof (cases "app_item r")
    case None
    have "snd (A p) \<noteq> None"
      using fam_append_new [OF ok p _ t r, of "fst (A p)"] None by (metis option.distinct(1) prod.collapse)
    then show ?thesis using None m p r w(1) by (auto simp: modify_cell_def Let_def fun_upd_idem)
  next
    case (Some a)
    obtain h vs where h: "InsertValue (val_store (app_mem r)) v tid = Some (h, vs)" and ret: "ret = Some p"
      and S': "prop_mvcc S' = (write_val a h (app_mem r))\<lparr>val_store := vs\<rparr>" "prop_lists S' = (prop_lists S)(p \<mapsto> app_list r)" "fresh_list S' = fresh_list S"
      using Some m p r by (auto simp: modify_cell_def Let_def bind_eq_Some_conv write_val_store)
    then show ?thesis using w(2) [OF Some, of h] by auto
  qed
  then show "ret = None \<longrightarrow> prop_mvcc S' = prop_mvcc S \<and> prop_lists S' = prop_lists S" "fresh_list S' = fresh_list S"
    "ret \<noteq> None \<longrightarrow> ret = Some p \<and> (\<exists>A'. list_wrote t p (prop_mvcc S) (prop_lists S) A (prop_mvcc S') (prop_lists S') A')"
    "snd (A p) = None \<Longrightarrow> ret \<noteq> None" by blast+
qed

lemma list_wrote_unused:
  assumes "list_wrote t p m L A m' L' A'" "unused_above n L" "p < n"
  shows "unused_above n L'"
  using assms by (auto simp: list_wrote_def unused_above_def)

lemma used_below: "unused_above n L \<Longrightarrow> L p = Some ml \<Longrightarrow> p < n"
  by (metis not_le option.distinct(1) unused_above_def)

lemma ProcessModifyProperty_effect:
  assumes ok: "fam_ok (prop_mvcc S) (prop_lists S) A" "unused_above (fresh_list S) (prop_lists S)"
    and t: "tid < nthreads (item_pool (prop_mvcc S))" "IS_VALID_TRX_ID t"
    and m: "ProcessModifyProperty R key tid pid v t bt S l old = Some ((ex, ret), old', S', l')"
  shows "prop_effect t ret S A S'"
proof -
  let ?sn = "LocateCell_snapshot l"
  obtain cell where c: "LocateCell_find R key pid ?sn (prop_rows S) l = Some cell"
    using m by (auto simp: ProcessModifyProperty_def Let_def bind_eq_Some_conv)
  show ?thesis
  proof (cases cell)
    case None
    obtain ac M l1 where a: "AllocateCell R key tid pid (snap_count ?sn) (snap_tail ?sn) (prop_rows S) l = Some (ac, M, l1)"
      using m c None by (auto simp: ProcessModifyProperty_def Let_def bind_eq_Some_conv)
    show ?thesis
    proof (cases ac)
      case None
      then show ?thesis using m c \<open>cell = None\<close> a by (auto simp: ProcessModifyProperty_def Let_def prop_effect_def)
    next
      case (Some x)
      let ?p = "fresh_list S"
      let ?S = "S\<lparr>prop_rows := M, prop_lists := (prop_lists S)(?p \<mapsto> empty_list), fresh_list := ?p + 1\<rparr>"
      have mc: "modify_cell tid x ?p False v t bt ?S old = Some ((ex, ret), old', S')"
        using m c \<open>cell = None\<close> a Some by (auto simp: ProcessModifyProperty_def bind_eq_Some_conv Let_def)
      have n: "prop_lists S ?p = None" using ok(2) by (simp add: unused_above_def)
      have "fam_ok (prop_mvcc ?S) (prop_lists ?S) (A(?p := ([], None)))" using fam_new [OF ok(1) n] by simp
      note e = modify_cell_effect [OF this _ _ t(2) mc]
      have "ret = Some ?p" "fresh_list S' = ?p + 1" using e t(1) by auto
      moreover obtain A' where A': "list_wrote t ?p (prop_mvcc S) ((prop_lists S)(?p \<mapsto> empty_list)) (A(?p := ([], None))) (prop_mvcc S') (prop_lists S') A'"
        using e(3) t(1) calculation by auto
      moreover have "unused_above (?p + 1) ((prop_lists S)(?p \<mapsto> empty_list))" using ok(2) by (auto simp: unused_above_def)
      then have "unused_above (?p + 1) (prop_lists S')" by (rule list_wrote_unused [OF A']) simp
      ultimately show ?thesis using new_list_wrote [OF ok(1) n A'] by (auto simp: prop_effect_def)
    qed
  next
    case (Some x)
    show ?thesis
    proof (cases "cell_list (cell_at (prop_rows S) (fst x) (snd x))")
      case None
      then show ?thesis using m c Some by (auto simp: ProcessModifyProperty_def Let_def prop_effect_def)
    next
      case (Some p)
      have mc: "modify_cell tid x p True v t bt S old = Some ((ex, ret), old', S')"
        using m c \<open>cell = Some x\<close> Some by (auto simp: ProcessModifyProperty_def Let_def bind_eq_Some_conv)
      then obtain ml where ml: "prop_lists S p = Some ml" by (auto simp: modify_cell_def bind_eq_Some_conv)
      note e = modify_cell_effect [OF ok(1) ml t mc]
      show ?thesis
      proof (cases ret)
        case None
        then show ?thesis using e by (simp add: prop_effect_def)
      next
        case (Some q)
        then obtain A' where "q = p" "list_wrote t p (prop_mvcc S) (prop_lists S) A (prop_mvcc S') (prop_lists S') A'" using e(3) by auto
        then show ?thesis using Some e(2) list_wrote_unused [OF _ ok(2) used_below [OF ok(2) ml]] by (auto simp: prop_effect_def)
      qed
    qed
  qed
qed

lemma ProcessDropProperty_effect:
  assumes ok: "fam_ok (prop_mvcc S) (prop_lists S) A" "unused_above (fresh_list S) (prop_lists S)"
    and t: "tid < nthreads (item_pool (prop_mvcc S))" "IS_VALID_TRX_ID t"
    and m: "ProcessDropProperty R key tid pid t bt S l old = Some (ret, old', S')"
  shows "prop_effect t ret S A S'"
proof -
  obtain p ml r where p: "prop_lists S p = Some ml" and r: "AppendVersion Property_NeedGC (Property_ValueGC tid) tid t bt (prop_mvcc S) ml = Some r"
    and y: "(ret, old', S') = (let S1 = S\<lparr>prop_mvcc := app_mem r, prop_lists := (prop_lists S)(p \<mapsto> app_list r)\<rparr>;
          o' = read_old (val_store (app_mem r)) r old in
        case app_item r of None \<Rightarrow> (None, o', S1)
        | Some b \<Rightarrow> (Some p, o', S1\<lparr>prop_mvcc := upd_item b (\<lambda>it. it\<lparr>val := (val it)\<lparr>byte_count := 0\<rparr>\<rparr>) (prop_mvcc S1)\<rparr>))"
    using m by (auto simp: ProcessDropProperty_def Let_def bind_eq_Some_conv split: prod.splits)
  note w = AppendVersion_wrote [OF ok(1) p t r]
  show ?thesis
  proof (cases "app_item r")
    case None
    then show ?thesis using y w(1) p by (auto simp: prop_effect_def Let_def fun_upd_idem)
  next
    case (Some a)
    let ?h = "(val (items (app_mem r) a))\<lparr>byte_count := 0\<rparr>"
    have S': "ret = Some p" "prop_mvcc S' = write_val a ?h (app_mem r)" "prop_lists S' = (prop_lists S)(p \<mapsto> app_list r)" "fresh_list S' = fresh_list S"
      using y Some by (auto simp: Let_def write_val_def upd_item_def)
    then show ?thesis using w(2) [OF Some, of ?h] list_wrote_unused [OF _ ok(2) used_below [OF ok(2) p]] by (auto simp: prop_effect_def)
  qed
qed

section \<open>Steps of the storage\<close>

text \<open>A write by \<open>t\<close> to the list \<open>ptr\<close>, before it is recorded.\<close>

definition wrote :: "u64 \<Rightarrow> list_ptr \<Rightarrow> data_storage \<Rightarrow> storage_hist \<Rightarrow> data_storage \<Rightarrow> storage_hist \<Rightarrow> bool" where
  "wrote t ptr D H D' H' \<longleftrightarrow>
     storage_rep D' H' \<and> fresh_ok D' \<and> (\<forall>n. threads_ok n D \<longrightarrow> threads_ok n D') \<and> trx_process_history D' = trx_process_history D \<and>
     (\<forall>q. alive D' q \<longleftrightarrow> alive D q \<or> q = ptr) \<and> (\<forall>s q. ptr_owned s H' q \<longleftrightarrow> (if q = ptr then s = t else ptr_owned s H q)) \<and>
     (\<forall>s. alive D ptr \<longrightarrow> ptr_owned s H ptr \<longrightarrow> s = t) \<and>
     (\<forall>k q. (q = ptr \<longrightarrow> alive D ptr \<longrightarrow> ptr_upto k H q) \<longrightarrow> (q \<noteq> ptr \<longrightarrow> ptr_upto k H q) \<longrightarrow> ptr_upto k H' q)"

text \<open>A step that leaves all version lists as they are.\<close>

definition quiet :: "data_storage \<Rightarrow> data_storage \<Rightarrow> bool" where
  "quiet D D' \<longleftrightarrow>
     v_mvcc D' = v_mvcc D \<and> v_lists D' = v_lists D \<and> fresh_v D' = fresh_v D \<and>
     (\<exists>s. edge_mvcc (topo D') = (edge_mvcc (topo D))\<lparr>val_store := s\<rparr>) \<and> edge_lists (topo D') = edge_lists (topo D) \<and> fresh_edge (topo D') = fresh_edge (topo D) \<and>
     prop_mvcc (vp_mem D') = prop_mvcc (vp_mem D) \<and> prop_lists (vp_mem D') = prop_lists (vp_mem D) \<and> fresh_list (vp_mem D') = fresh_list (vp_mem D) \<and>
     (\<forall>E. edge_store D = Some E \<longrightarrow> (\<exists>E'. edge_store D' = Some E' \<and> prop_mvcc (ep_mem E') = prop_mvcc (ep_mem E) \<and>
        prop_lists (ep_mem E') = prop_lists (ep_mem E) \<and> fresh_list (ep_mem E') = fresh_list (ep_mem E))) \<and>
     trx_process_history D' = trx_process_history D"

lemma quietI:
  assumes "v_mvcc D' = v_mvcc D" "v_lists D' = v_lists D" "fresh_v D' = fresh_v D" "topo D' = topo D" "vp_mem D' = vp_mem D"
    "trx_process_history D' = trx_process_history D"
  shows "quiet D D'"
  using assms by (auto simp: quiet_def edge_store_def intro!: exI [of _ "val_store (edge_mvcc (topo D))"])

lemma storage_repE:
  assumes "storage_rep D H"
  obtains E where "fam_ok (v_mvcc D) (v_lists D) (hv H)" "fam_ok (edge_mvcc (topo D)) (edge_lists (topo D)) (he H)"
    "fam_ok (prop_mvcc (vp_mem D)) (prop_lists (vp_mem D)) (hp H)"
    "edge_store D = Some E" "fam_ok (prop_mvcc (ep_mem E)) (prop_lists (ep_mem E)) (hx H)"
  using assms unfolding storage_rep_def by blast

lemma storage_invE:
  assumes "storage_inv n now D H"
  obtains E where "fam_ok (v_mvcc D) (v_lists D) (hv H)" "fam_ok (edge_mvcc (topo D)) (edge_lists (topo D)) (he H)"
    "fam_ok (prop_mvcc (vp_mem D)) (prop_lists (vp_mem D)) (hp H)"
    "edge_store D = Some E" "fam_ok (prop_mvcc (ep_mem E)) (prop_lists (ep_mem E)) (hx H)"
    "unused_above (fresh_v D) (v_lists D)" "unused_above (fresh_edge (topo D)) (edge_lists (topo D))"
    "unused_above (fresh_list (vp_mem D)) (prop_lists (vp_mem D))" "unused_above (fresh_list (ep_mem E)) (prop_lists (ep_mem E))"
    "nthreads (item_pool (v_mvcc D)) = n" "nthreads (item_pool (edge_mvcc (topo D))) = n" "nthreads (item_pool (prop_mvcc (vp_mem D))) = n"
    "nthreads (item_pool (prop_mvcc (ep_mem E))) = n"
proof -
  have i: "storage_rep D H" "fresh_ok D" "threads_ok n D" using assms by (simp_all add: storage_inv_def)
  obtain E where "fam_ok (v_mvcc D) (v_lists D) (hv H)" "fam_ok (edge_mvcc (topo D)) (edge_lists (topo D)) (he H)"
    "fam_ok (prop_mvcc (vp_mem D)) (prop_lists (vp_mem D)) (hp H)"
    "edge_store D = Some E" "fam_ok (prop_mvcc (ep_mem E)) (prop_lists (ep_mem E)) (hx H)" by (rule storage_repE [OF i(1)])
  then show ?thesis using that i(2,3) by (simp add: fresh_ok_def threads_ok_def)
qed

lemma quiet_inv:
  assumes inv: "storage_inv n now D H" and q: "quiet D D'"
  shows "storage_inv n now D' H"
proof -
  obtain E where I: "fam_ok (v_mvcc D) (v_lists D) (hv H)" "fam_ok (edge_mvcc (topo D)) (edge_lists (topo D)) (he H)"
    "fam_ok (prop_mvcc (vp_mem D)) (prop_lists (vp_mem D)) (hp H)"
    "edge_store D = Some E" "fam_ok (prop_mvcc (ep_mem E)) (prop_lists (ep_mem E)) (hx H)"
    "unused_above (fresh_v D) (v_lists D)" "unused_above (fresh_edge (topo D)) (edge_lists (topo D))"
    "unused_above (fresh_list (vp_mem D)) (prop_lists (vp_mem D))" "unused_above (fresh_list (ep_mem E)) (prop_lists (ep_mem E))"
    "nthreads (item_pool (v_mvcc D)) = n" "nthreads (item_pool (edge_mvcc (topo D))) = n" "nthreads (item_pool (prop_mvcc (vp_mem D))) = n"
    "nthreads (item_pool (prop_mvcc (ep_mem E))) = n" by (rule storage_invE [OF inv])
  obtain E' s where E': "edge_store D' = Some E'" "prop_mvcc (ep_mem E') = prop_mvcc (ep_mem E)" "prop_lists (ep_mem E') = prop_lists (ep_mem E)"
    "fresh_list (ep_mem E') = fresh_list (ep_mem E)" "edge_mvcc (topo D') = (edge_mvcc (topo D))\<lparr>val_store := s\<rparr>"
    using q I(4) unfolding quiet_def by blast
  have Q: "v_mvcc D' = v_mvcc D" "v_lists D' = v_lists D" "fresh_v D' = fresh_v D" "edge_lists (topo D') = edge_lists (topo D)"
    "fresh_edge (topo D') = fresh_edge (topo D)" "prop_mvcc (vp_mem D') = prop_mvcc (vp_mem D)" "prop_lists (vp_mem D') = prop_lists (vp_mem D)"
    "fresh_list (vp_mem D') = fresh_list (vp_mem D)" "trx_process_history D' = trx_process_history D"
    using q unfolding quiet_def by simp_all
  have a: "alive D' = alive D" using Q E' I(4) by (auto simp: alive_def fun_eq_iff split: list_ptr.splits)
  have r: "recorded D' = recorded D" using Q(9) by (simp add: recorded_def history_of_def fun_eq_iff)
  have "storage_rep D' H" "fresh_ok D'" "threads_ok n D'"
    using I Q E' by (simp_all add: storage_rep_def fresh_ok_def threads_ok_def fam_store)
  then show ?thesis using inv a r by (simp add: storage_inv_def)
qed

lemma recorded_add: "recorded (add_record t ty ptr D) s = (if s = t then insert ptr (recorded D t) else recorded D s)"
  by (auto simp: recorded_def add_record_def history_of_def)

lemma add_record_simps [simp]:
  "storage_rep (add_record t ty ptr D) H = storage_rep D H" "fresh_ok (add_record t ty ptr D) = fresh_ok D"
  "threads_ok n (add_record t ty ptr D) = threads_ok n D" "alive (add_record t ty ptr D) = alive D"
  by (simp_all add: add_record_def)

lemma wrote_inv:
  assumes inv: "storage_inv n now D H" and w: "wrote t ptr D H D' H'"
  shows "storage_inv n now (add_record t ty ptr D') H'"
proof -
  have I: "threads_ok n D" "\<And>ptr. alive D ptr \<Longrightarrow> ptr_upto now H ptr" "\<And>t ptr. ptr \<in> recorded D t \<longleftrightarrow> alive D ptr \<and> ptr_owned t H ptr"
    using inv unfolding storage_inv_def by blast+
  have W: "storage_rep D' H'" "fresh_ok D'" "threads_ok n D'" "trx_process_history D' = trx_process_history D"
    "\<And>q. alive D' q \<longleftrightarrow> alive D q \<or> q = ptr" "\<And>s q. ptr_owned s H' q \<longleftrightarrow> (if q = ptr then s = t else ptr_owned s H q)"
    "\<And>s. alive D ptr \<Longrightarrow> ptr_owned s H ptr \<Longrightarrow> s = t"
    "\<And>k q. (q = ptr \<longrightarrow> alive D ptr \<longrightarrow> ptr_upto k H q) \<Longrightarrow> (q \<noteq> ptr \<longrightarrow> ptr_upto k H q) \<Longrightarrow> ptr_upto k H' q"
    using w I(1) unfolding wrote_def by blast+
  have r: "recorded D' = recorded D" using W(4) by (simp add: recorded_def history_of_def fun_eq_iff)
  show ?thesis unfolding storage_inv_def
  proof (intro conjI allI impI)
    fix q assume "alive (add_record t ty ptr D') q"
    then show "ptr_upto now H' q" using W(5,8) I(2) by auto
  next
    fix s q show "q \<in> recorded (add_record t ty ptr D') s \<longleftrightarrow> alive (add_record t ty ptr D') q \<and> ptr_owned s H' q"
      using r I(3) W(5,6,7) by (auto simp: recorded_add)
  qed (use W in simp_all)
qed

lemma list_wrote_simps:
  assumes "list_wrote t p m L A m' L' A'"
  shows "fam_ok m' L' A'" "nthreads (item_pool m') = nthreads (item_pool m)" "L' q \<noteq> None \<longleftrightarrow> L q \<noteq> None \<or> q = p"
    "owned s (A' q) \<longleftrightarrow> (if q = p then s = t else owned s (A q))" "L p \<noteq> None \<Longrightarrow> owned s (A p) \<Longrightarrow> s = t"
    "(q = p \<Longrightarrow> L p \<noteq> None \<Longrightarrow> times_upto k (A q)) \<Longrightarrow> (q \<noteq> p \<Longrightarrow> times_upto k (A q)) \<Longrightarrow> times_upto k (A' q)"
proof -
  obtain ml vs b w where w: "fam_ok m' L' A'" "nthreads (item_pool m') = nthreads (item_pool m)" "L' = L(p \<mapsto> ml)"
    "A' = A(p := (vs, Some (t, b, w)))" "L p = None \<longrightarrow> vs = []" "L p \<noteq> None \<longrightarrow> vs = fst (A p) \<and> (snd (A p) = None \<or> owned t (A p))"
    using assms unfolding list_wrote_def by (elim conjE exE) metis
  then show "fam_ok m' L' A'" "nthreads (item_pool m') = nthreads (item_pool m)" "L' q \<noteq> None \<longleftrightarrow> L q \<noteq> None \<or> q = p"
    "owned s (A' q) \<longleftrightarrow> (if q = p then s = t else owned s (A q))" "L p \<noteq> None \<Longrightarrow> owned s (A p) \<Longrightarrow> s = t"
    by (auto simp: owned_def split: option.splits)
  show "times_upto k (A' q)" if "q = p \<Longrightarrow> L p \<noteq> None \<Longrightarrow> times_upto k (A q)" "q \<noteq> p \<Longrightarrow> times_upto k (A q)"
    using w that by (cases "q = p"; cases "L p") (simp_all add: times_upto_def)
qed

lemma wrote_v:
  assumes rep: "storage_rep D H" "fresh_ok D" and w: "list_wrote t p (v_mvcc D) (v_lists D) (hv H) (v_mvcc D') (v_lists D') A'"
    and o: "topo D' = topo D" "vp_mem D' = vp_mem D" "trx_process_history D' = trx_process_history D" "unused_above (fresh_v D') (v_lists D')"
  shows "wrote t (VList p) D H D' (H\<lparr>hv := A'\<rparr>)"
  using rep o list_wrote_simps [OF w]
  unfolding wrote_def storage_rep_def fresh_ok_def threads_ok_def alive_def edge_store_def ptr_owned_def ptr_upto_def
  by (auto split: list_ptr.splits if_splits)

lemma wrote_vp:
  assumes rep: "storage_rep D H" "fresh_ok D"
    and w: "list_wrote t p (prop_mvcc (vp_mem D)) (prop_lists (vp_mem D)) (hp H) (prop_mvcc (vp_mem D')) (prop_lists (vp_mem D')) A'"
    and o: "topo D' = topo D" "v_mvcc D' = v_mvcc D" "v_lists D' = v_lists D" "fresh_v D' = fresh_v D"
      "trx_process_history D' = trx_process_history D" "unused_above (fresh_list (vp_mem D')) (prop_lists (vp_mem D'))"
  shows "wrote t (VPList p) D H D' (H\<lparr>hp := A'\<rparr>)"
  using rep o list_wrote_simps [OF w]
  unfolding wrote_def storage_rep_def fresh_ok_def threads_ok_def alive_def edge_store_def ptr_owned_def ptr_upto_def
  by (auto split: list_ptr.splits if_splits)

lemma wrote_e:
  assumes rep: "storage_rep D H" "fresh_ok D"
    and w: "list_wrote t p (edge_mvcc (topo D)) (edge_lists (topo D)) (he H) (edge_mvcc (topo D')) (edge_lists (topo D')) A'"
    and o: "vp_mem D' = vp_mem D" "v_mvcc D' = v_mvcc D" "v_lists D' = v_lists D" "fresh_v D' = fresh_v D"
      "trx_process_history D' = trx_process_history D" "unused_above (fresh_edge (topo D')) (edge_lists (topo D'))"
      "map_option ep_mem (edge_store D') = map_option ep_mem (edge_store D)"
  shows "wrote t (EList p) D H D' (H\<lparr>he := A'\<rparr>)"
proof -
  obtain E where E: "edge_store D = Some E" by (rule storage_repE [OF rep(1)])
  then obtain E' where E': "edge_store D' = Some E'" "ep_mem E' = ep_mem E" using o(7) by auto
  show ?thesis
    using rep o list_wrote_simps [OF w] E E'
    unfolding wrote_def storage_rep_def fresh_ok_def threads_ok_def alive_def ptr_owned_def ptr_upto_def
    by (auto split: list_ptr.splits if_splits)
qed

lemma wrote_x:
  assumes rep: "storage_rep D H" "fresh_ok D" and E: "edge_store D = Some E" "edge_store D' = Some E'"
    and w: "list_wrote t p (prop_mvcc (ep_mem E)) (prop_lists (ep_mem E)) (hx H) (prop_mvcc (ep_mem E')) (prop_lists (ep_mem E')) A'"
    and o: "vp_mem D' = vp_mem D" "v_mvcc D' = v_mvcc D" "v_lists D' = v_lists D" "fresh_v D' = fresh_v D"
      "trx_process_history D' = trx_process_history D" "unused_above (fresh_list (ep_mem E')) (prop_lists (ep_mem E'))"
      "edge_mvcc (topo D') = (edge_mvcc (topo D))\<lparr>val_store := s\<rparr>" "edge_lists (topo D') = edge_lists (topo D)" "fresh_edge (topo D') = fresh_edge (topo D)"
  shows "wrote t (EPList p) D H D' (H\<lparr>hx := A'\<rparr>)"
  using rep o list_wrote_simps [OF w] E
  unfolding wrote_def storage_rep_def fresh_ok_def threads_ok_def alive_def ptr_owned_def ptr_upto_def
  by (auto simp: fam_store split: list_ptr.splits if_splits)

section \<open>Reading is quiet\<close>

lemma quietD:
  assumes "quiet D D'"
  shows "v_mvcc D' = v_mvcc D" "v_lists D' = v_lists D" "fresh_v D' = fresh_v D" "edge_lists (topo D') = edge_lists (topo D)"
    "fresh_edge (topo D') = fresh_edge (topo D)" "prop_mvcc (vp_mem D') = prop_mvcc (vp_mem D)" "prop_lists (vp_mem D') = prop_lists (vp_mem D)"
    "fresh_list (vp_mem D') = fresh_list (vp_mem D)" "trx_process_history D' = trx_process_history D"
    "\<exists>s. edge_mvcc (topo D') = (edge_mvcc (topo D))\<lparr>val_store := s\<rparr>"
  using assms unfolding quiet_def by blast+

lemma quiet_trans:
  assumes a: "quiet D D1" and b: "quiet D1 D2"
  shows "quiet D D2"
  unfolding quiet_def
proof (intro conjI allI impI)
  show "\<exists>s. edge_mvcc (topo D2) = (edge_mvcc (topo D))\<lparr>val_store := s\<rparr>" using quietD(10) [OF a] quietD(10) [OF b] by (elim exE) (simp, blast)
  fix E assume "edge_store D = Some E"
  then obtain E1 where E1: "edge_store D1 = Some E1" "prop_mvcc (ep_mem E1) = prop_mvcc (ep_mem E)"
      "prop_lists (ep_mem E1) = prop_lists (ep_mem E)" "fresh_list (ep_mem E1) = fresh_list (ep_mem E)" using a unfolding quiet_def by blast
  obtain E2 where "edge_store D2 = Some E2" "prop_mvcc (ep_mem E2) = prop_mvcc (ep_mem E1)"
      "prop_lists (ep_mem E2) = prop_lists (ep_mem E1)" "fresh_list (ep_mem E2) = fresh_list (ep_mem E1)"
    using b E1(1) unfolding quiet_def by blast
  then show "\<exists>E'. edge_store D2 = Some E' \<and> prop_mvcc (ep_mem E') = prop_mvcc (ep_mem E) \<and>
      prop_lists (ep_mem E') = prop_lists (ep_mem E) \<and> fresh_list (ep_mem E') = fresh_list (ep_mem E)" using E1 by simp
qed (use quietD(1-9) [OF a] quietD(1-9) [OF b] in simp_all)

lemma quiet_simps [simp]:
  "quiet D D" "quiet D (update_status t ts D)" "quiet D (abort_on x st D)" "quiet D (D\<lparr>ds_deps := d\<rparr>)" "quiet D (invisible_vertex x st D)"
  by (rule quietI; simp add: update_status_def abort_on_def invisible_vertex_def)+

lemma quiet_read [simp]: "quiet D (abort_on x st (D\<lparr>ds_deps := d\<rparr>))"
  by (rule quietI; simp add: update_status_def abort_on_def)

lemma GetVertexIterator_quiet: "GetVertexIterator x vid D = Some (st, D') \<Longrightarrow> quiet D D'"
  by (auto simp: GetVertexIterator_def CheckVertexVisibility_def visible_vertex_def bind_eq_Some_conv split: option.splits)

lemma with_vertex_quiet:
  assumes "with_vertex x vid none D body = Some (st, ret, D')"
  shows "quiet D D'"
proof -
  obtain st1 D1 where D1: "GetVertexIterator x vid D = Some (st1, D1)" "D' = D1 \<or> (\<exists>d. D' = abort_on x st (D1\<lparr>ds_deps := d\<rparr>))"
    using assms by (auto simp: with_vertex_def bind_eq_Some_conv split: if_splits)
  then have "quiet D1 D'" by auto
  then show ?thesis by (rule quiet_trans [OF GetVertexIterator_quiet [OF D1(1)]])
qed

lemma GetOutEdgeVersion_quiet: "GetOutEdgeVersion x eid D = Some (st, v, D') \<Longrightarrow> quiet D D'"
  by (auto simp: GetOutEdgeVersion_def visible_edge_at_def bind_eq_Some_conv Let_def split: option.splits)

lemma with_edge_quiet:
  assumes "with_edge x eid none D body = Some (st, ret, D')"
  shows "quiet D D'"
proof -
  obtain st1 v D1 where D1: "GetOutEdgeVersion x eid D = Some (st1, v, D1)" "D' = D1 \<or> (\<exists>d. D' = abort_on x st (D1\<lparr>ds_deps := d\<rparr>))"
    using assms by (auto simp: with_edge_def bind_eq_Some_conv split: if_splits)
  then have "quiet D1 D'" by auto
  then show ?thesis by (rule quiet_trans [OF GetOutEdgeVersion_quiet [OF D1(1)]])
qed

section \<open>The operations keep the invariant\<close>

lemma recorded_inv:
  assumes "storage_inv n now D H" "wrote t ptr D H D1 H1" "InsertTrxProcessHistory t ty ptr D1 = Some D'"
  shows "\<exists>H'. storage_inv n now D' H'"
  using assms wrote_inv [OF assms(1,2), of ty] by (auto simp: InsertTrxProcessHistory_def bind_eq_Some_conv)

lemma inv_rep: "storage_inv n now D H \<Longrightarrow> storage_rep D H" "storage_inv n now D H \<Longrightarrow> fresh_ok D"
  by (simp_all add: storage_inv_def)

lemma AddV_history_inv:
  assumes "storage_inv n now (add_record t PROCESS_ADD_V (VList p) D) H"
  shows "storage_inv n now (InsertTrxAddVHistory t p vid D) H"
proof -
  let ?D = "InsertTrxAddVHistory t p vid D" and ?R = "add_record t PROCESS_ADD_V (VList p) D"
  have "recorded ?D s = recorded ?R s" for s
    by (auto simp: InsertTrxAddVHistory_def Let_def recorded_def history_of_def)
  then show ?thesis using assms unfolding storage_inv_def by (simp add: InsertTrxAddVHistory_def Let_def)
qed

lemma new_append_wrote:
  assumes ok: "fam_ok m L A" and p: "L p = None" and t: "tid < nthreads (item_pool m)" "IS_VALID_TRX_ID t"
    and r: "AppendVersion G F tid t bt m empty_list = Some r" "app_item r = Some a"
  shows "\<exists>A'. list_wrote t p m L A (write_val a w (app_mem r)) (L(p \<mapsto> app_list r)) A'" "val_store (app_mem r) = val_store m"
proof -
  let ?L = "L(p \<mapsto> empty_list)" and ?A = "A(p := ([], None))"
  have f: "fam_ok m ?L ?A" by (rule fam_new [OF ok p])
  have pp: "?L p = Some empty_list" by simp
  note w = AppendVersion_wrote [OF f pp t r(1)]
  obtain b where "list_wrote t p m ?L ?A (write_val a w (app_mem r)) (?L(p \<mapsto> app_list r)) (?A(p := (fst (?A p), Some (t, b, w))))"
    using w(2) [OF r(2)] by blast
  then have "list_wrote t p m ?L ?A (write_val a w (app_mem r)) (L(p \<mapsto> app_list r)) (?A(p := (fst (?A p), Some (t, b, w))))" by simp
  from new_list_wrote [OF ok p this] show "\<exists>A'. list_wrote t p m L A (write_val a w (app_mem r)) (L(p \<mapsto> app_list r)) A'" by blast
  show "val_store (app_mem r) = val_store m" by (rule w(3) [OF r(2)]) simp
qed

lemma ProcessAddV_inv:
  assumes inv: "storage_inv n now D H" and t: "tid < n" "IS_VALID_TRX_ID t" and a: "ProcessAddV tid label t bt D = Some (vid, D')"
  shows "\<exists>H'. storage_inv n now D' H'"
proof -
  obtain D1 r b where r: "AppendVersion Vertex_NeedGC Vertex_ValueGC tid t bt (v_mvcc D) empty_list = Some r" "app_item r = Some b"
    and D1: "D' = InsertTrxAddVHistory t (fresh_v D) vid D1" "v_mvcc D1 = write_val b True (app_mem r)"
      "v_lists D1 = (v_lists D)(fresh_v D \<mapsto> app_list r)" "fresh_v D1 = Suc (fresh_v D)" "topo D1 = topo D" "vp_mem D1 = vp_mem D"
      "trx_process_history D1 = trx_process_history D"
    using a by (auto simp: ProcessAddV_def AssignVID_def Let_def bind_eq_Some_conv)
  obtain E where I: "fam_ok (v_mvcc D) (v_lists D) (hv H)" "unused_above (fresh_v D) (v_lists D)" "nthreads (item_pool (v_mvcc D)) = n"
    by (rule storage_invE [OF inv])
  let ?p = "fresh_v D"
  have n: "v_lists D ?p = None" using I(2) by (simp add: unused_above_def)
  have nt: "tid < nthreads (item_pool (v_mvcc D))" using t(1) I(3) by simp
  obtain A' where "list_wrote t ?p (v_mvcc D) (v_lists D) (hv H) (v_mvcc D1) (v_lists D1) A'"
    using new_append_wrote(1) [OF I(1) n nt t(2) r, of True] D1(2,3) by auto
  then have "wrote t (VList ?p) D H D1 (H\<lparr>hv := A'\<rparr>)"
    by (rule wrote_v [OF inv_rep [OF inv]]) (use D1 I(2) in \<open>auto simp: unused_above_def\<close>)
  from AddV_history_inv [OF wrote_inv [OF inv this]] D1(1) show ?thesis by blast
qed

lemma quiet_update: "quiet D D' \<Longrightarrow> quiet D (update_status t st D')"
  by (rule quiet_trans [OF _ quiet_simps(2)])

lemma drop_vertex_inv:
  assumes inv: "storage_inv n now D H" and t: "tid < n" "IS_VALID_TRX_ID t" and p: "v_lists D p = Some ml"
    and r: "AppendVersion Vertex_NeedGC Vertex_ValueGC tid t bt (v_mvcc D) ml = Some r"
  shows "app_item r = None \<Longrightarrow> quiet D (D\<lparr>v_mvcc := app_mem r, v_lists := (v_lists D)(p \<mapsto> app_list r)\<rparr>)"
    "app_item r = Some a \<Longrightarrow> InsertTrxProcessHistory t ty (VList p)
       (D\<lparr>v_lists := (v_lists D)(p \<mapsto> app_list r), v_mvcc := write_val a w (app_mem r)\<rparr>) = Some D' \<Longrightarrow> \<exists>H'. storage_inv n now D' H'"
proof -
  obtain E where I: "fam_ok (v_mvcc D) (v_lists D) (hv H)" "unused_above (fresh_v D) (v_lists D)" "nthreads (item_pool (v_mvcc D)) = n"
    by (rule storage_invE [OF inv])
  have nt: "tid < nthreads (item_pool (v_mvcc D))" using t(1) I(3) by simp
  note a = AppendVersion_wrote [OF I(1) p nt t(2) r]
  show "quiet D (D\<lparr>v_mvcc := app_mem r, v_lists := (v_lists D)(p \<mapsto> app_list r)\<rparr>)" if "app_item r = None"
    using a(1) [OF that] p by (intro quietI) (simp_all add: fun_upd_idem)
  let ?D = "D\<lparr>v_lists := (v_lists D)(p \<mapsto> app_list r), v_mvcc := write_val a w (app_mem r)\<rparr>"
  assume s: "app_item r = Some a" and D': "InsertTrxProcessHistory t ty (VList p) ?D = Some D'"
  obtain A' where "list_wrote t p (v_mvcc D) (v_lists D) (hv H) (v_mvcc ?D) (v_lists ?D) A'" using a(2) [OF s, of w] by auto
  then have "wrote t (VList p) D H ?D (H\<lparr>hv := A'\<rparr>)"
    by (rule wrote_v [OF inv_rep [OF inv]]) (use p I(2) in simp_all)
  then show "\<exists>H'. storage_inv n now D' H'" using recorded_inv [OF inv _ D'] by blast
qed

lemma ProcessDropV_inv:
  assumes inv: "storage_inv n now D H" and t: "tid < n" "IS_VALID_TRX_ID (rc_trx x)" and a: "ProcessDropV tid x vid D = Some (ps, ins, outs, D')"
  shows "\<exists>H'. storage_inv n now D' H'"
proof -
  obtain st D1 where D1: "GetVertexIterator (updating x) vid D = Some (st, D1)" using a by (auto simp: ProcessDropV_def bind_eq_Some_conv)
  have q1: "quiet D D1" by (rule GetVertexIterator_quiet [OF D1])
  show ?thesis
  proof (cases "st = SUCCESS")
    case False
    then have "D' = D1" using a D1 by (auto simp: ProcessDropV_def)
    then show ?thesis using quiet_inv [OF inv q1] by blast
  next
    case True
    then obtain st2 eids D2 where D2: "GetConnectedEdgeList (updating x) vid 0 D_BOTH D1 = Some (st2, eids, D2)"
      using a D1 by (auto simp: ProcessDropV_def bind_eq_Some_conv)
    have "quiet D1 D2" using D2 unfolding GetConnectedEdgeList_def by (rule with_vertex_quiet)
    then have q2: "quiet D D2" by (rule quiet_trans [OF q1])
    note inv2 = quiet_inv [OF inv q2]
    show ?thesis
    proof (cases "st2 = SUCCESS")
      case False
      then have "D' = update_status (rc_trx x) TRX_STAT.ABORT D2" using a D1 D2 True by (auto simp: ProcessDropV_def)
      then show ?thesis using quiet_inv [OF inv quiet_update [OF q2]] by blast
    next
      case ok: True
      obtain v p ml r where r: "vertex_map D2 (vid_t_value vid) = Some v" "v_list v = Some p" "v_lists D2 p = Some ml"
        "AppendVersion Vertex_NeedGC Vertex_ValueGC tid (rc_trx x) (rc_begin x) (v_mvcc D2) ml = Some r"
        using a D1 D2 True ok by (auto simp: ProcessDropV_def bind_eq_Some_conv)
      note w = drop_vertex_inv [OF inv2 t r(3,4)]
      let ?D = "D2\<lparr>v_mvcc := app_mem r, v_lists := (v_lists D2)(p \<mapsto> app_list r)\<rparr>"
      show ?thesis
      proof (cases "app_item r")
        case None
        have "D' = update_status (rc_trx x) TRX_STAT.ABORT ?D" using a D1 D2 True ok r None by (simp add: ProcessDropV_def Let_def)
        then show ?thesis using quiet_inv [OF inv quiet_update [OF quiet_trans [OF q2 w(1) [OF None]]]] by blast
      next
        case (Some b)
        then have "InsertTrxProcessHistory (rc_trx x) PROCESS_DROP_V (VList p)
            (D2\<lparr>v_lists := (v_lists D2)(p \<mapsto> app_list r), v_mvcc := write_val b False (app_mem r)\<rparr>) = Some D'"
          using a D1 D2 True ok r by (auto simp: ProcessDropV_def Let_def bind_eq_Some_conv)
        then show ?thesis by (rule w(2) [OF Some])
      qed
    qed
  qed
qed

section \<open>Vertex and edge properties\<close>

lemma vp_effect_inv:
  assumes inv: "storage_inv n now D H" and e: "prop_effect t ret (vp_mem D) (hp H) S"
    and D1: "vp_mem D1 = S" "topo D1 = topo D" "v_mvcc D1 = v_mvcc D" "v_lists D1 = v_lists D" "fresh_v D1 = fresh_v D"
      "trx_process_history D1 = trx_process_history D"
  shows "ret = None \<Longrightarrow> quiet D D1"
    "ret = Some p \<Longrightarrow> InsertTrxProcessHistory t ty (VPList p) D1 = Some D' \<Longrightarrow> \<exists>H'. storage_inv n now D' H'"
proof -
  show "quiet D D1" if "ret = None"
    using that e D1 by (auto simp: quiet_def prop_effect_def edge_store_def intro!: exI [of _ "val_store (edge_mvcc (topo D))"])
  assume r: "ret = Some p" and i: "InsertTrxProcessHistory t ty (VPList p) D1 = Some D'"
  obtain A' where A': "list_wrote t p (prop_mvcc (vp_mem D)) (prop_lists (vp_mem D)) (hp H) (prop_mvcc (vp_mem D1)) (prop_lists (vp_mem D1)) A'"
    "unused_above (fresh_list (vp_mem D1)) (prop_lists (vp_mem D1))"
    using e r D1(1) by (auto simp: prop_effect_def)
  have "wrote t (VPList p) D H D1 (H\<lparr>hp := A'\<rparr>)" by (rule wrote_vp [OF inv_rep [OF inv] A'(1)]) (use D1 A'(2) in simp_all)
  then show "\<exists>H'. storage_inv n now D' H'" using recorded_inv [OF inv _ i] by blast
qed

lemma ProcessModifyVP_inv:
  assumes inv: "storage_inv n now D H" and t: "tid < n" "IS_VALID_TRX_ID (rc_trx x)" and a: "ProcessModifyVP tid x pid w old D = Some (ps, old', D')"
  shows "\<exists>H'. storage_inv n now D' H'"
proof -
  obtain st D1 where D1: "GetVertexIterator (updating x) (vp_vid pid) D = Some (st, D1)" using a by (auto simp: ProcessModifyVP_def bind_eq_Some_conv)
  have q1: "quiet D D1" by (rule GetVertexIterator_quiet [OF D1])
  note inv1 = quiet_inv [OF inv q1]
  show ?thesis
  proof (cases "st = SUCCESS")
    case False
    then have "D' = invisible_vertex x st D1" using a D1 by (auto simp: ProcessModifyVP_def)
    then show ?thesis using quiet_inv [OF inv1 quiet_simps(5)] by blast
  next
    case True
    obtain v pl ex ret old1 S pl' where m: "vertex_map D1 (vid_t_value (vp_vid pid)) = Some v" "vp_row_list v = Some pl"
      "ProcessModifyProperty VP_ROW_CELL_COUNT vp_pid tid pid w (rc_trx x) (rc_begin x) (vp_mem D1) pl old = Some ((ex, ret), old1, S, pl')"
      using a D1 True by (auto simp: ProcessModifyVP_def bind_eq_Some_conv)
    let ?D = "D1\<lparr>vp_mem := S, vertex_map := (vertex_map D1)(vid_t_value (vp_vid pid) \<mapsto> v\<lparr>vp_row_list := Some pl'\<rparr>)\<rparr>"
    obtain E where I: "fam_ok (prop_mvcc (vp_mem D1)) (prop_lists (vp_mem D1)) (hp H)"
      "unused_above (fresh_list (vp_mem D1)) (prop_lists (vp_mem D1))" "nthreads (item_pool (prop_mvcc (vp_mem D1))) = n"
      by (rule storage_invE [OF inv1])
    have nt: "tid < nthreads (item_pool (prop_mvcc (vp_mem D1)))" using t(1) I(3) by simp
    note e = vp_effect_inv [OF inv1 ProcessModifyProperty_effect [OF I(1,2) nt t(2) m(3)], of ?D]
    show ?thesis
    proof (cases ret)
      case None
      have "D' = update_status (rc_trx x) TRX_STAT.ABORT ?D" using a D1 True m None by (simp add: ProcessModifyVP_def Let_def)
      moreover have "quiet D1 ?D" using e(1) None by simp
      ultimately show ?thesis using quiet_inv [OF inv1 quiet_update] by blast
    next
      case (Some p)
      have "InsertTrxProcessHistory (rc_trx x) (if ex then PROCESS_MODIFY_VP else PROCESS_ADD_VP) (VPList p) ?D = Some D'"
        using a D1 True m Some by (auto simp: ProcessModifyVP_def Let_def bind_eq_Some_conv)
      then show ?thesis using e(2) [OF _ _ _ _ _ _ Some] by simp
    qed
  qed
qed

lemma ProcessDropVP_inv:
  assumes inv: "storage_inv n now D H" and t: "tid < n" "IS_VALID_TRX_ID (rc_trx x)" and a: "ProcessDropVP tid x pid old D = Some (ps, old', D')"
  shows "\<exists>H'. storage_inv n now D' H'"
proof -
  obtain st D1 where D1: "GetVertexIterator (updating x) (vp_vid pid) D = Some (st, D1)" using a by (auto simp: ProcessDropVP_def bind_eq_Some_conv)
  have q1: "quiet D D1" by (rule GetVertexIterator_quiet [OF D1])
  note inv1 = quiet_inv [OF inv q1]
  show ?thesis
  proof (cases "st = SUCCESS")
    case False
    then have "D' = invisible_vertex x st D1" using a D1 by (auto simp: ProcessDropVP_def)
    then show ?thesis using quiet_inv [OF inv1 quiet_simps(5)] by blast
  next
    case True
    obtain v pl ret old1 S where m: "vertex_map D1 (vid_t_value (vp_vid pid)) = Some v" "vp_row_list v = Some pl"
      "ProcessDropProperty VP_ROW_CELL_COUNT vp_pid tid pid (rc_trx x) (rc_begin x) (vp_mem D1) pl old = Some (ret, old1, S)"
      using a D1 True by (auto simp: ProcessDropVP_def bind_eq_Some_conv)
    obtain E where I: "fam_ok (prop_mvcc (vp_mem D1)) (prop_lists (vp_mem D1)) (hp H)"
      "unused_above (fresh_list (vp_mem D1)) (prop_lists (vp_mem D1))" "nthreads (item_pool (prop_mvcc (vp_mem D1))) = n"
      by (rule storage_invE [OF inv1])
    have nt: "tid < nthreads (item_pool (prop_mvcc (vp_mem D1)))" using t(1) I(3) by simp
    note e = vp_effect_inv [OF inv1 ProcessDropProperty_effect [OF I(1,2) nt t(2) m(3)], of "D1\<lparr>vp_mem := S\<rparr>"]
    show ?thesis
    proof (cases ret)
      case None
      have "D' = update_status (rc_trx x) TRX_STAT.ABORT (D1\<lparr>vp_mem := S\<rparr>)" using a D1 True m None by (simp add: ProcessDropVP_def Let_def)
      moreover have "quiet D1 (D1\<lparr>vp_mem := S\<rparr>)" using e(1) None by simp
      ultimately show ?thesis using quiet_inv [OF inv1 quiet_update] by blast
    next
      case (Some p)
      have "InsertTrxProcessHistory (rc_trx x) PROCESS_DROP_VP (VPList p) (D1\<lparr>vp_mem := S\<rparr>) = Some D'"
        using a D1 True m Some by (auto simp: ProcessDropVP_def Let_def bind_eq_Some_conv)
      then show ?thesis using e(2) [OF _ _ _ _ _ _ Some] by simp
    qed
  qed
qed

end
