(* ===== verification/Storage_Runs.thy ===== *)
theory Storage_Runs
  imports Storage_Commit
begin

text \<open>
  Whole runs of \<open>DataStorage\<close> (src/layout/data_storage.cpp): edges and their properties, loading and abort keep the
  invariant of \<open>Storage_Commit\<close>, so after any run a commit or an abort settles all writes of its transaction; and
  two cases that the code does not handle.
\<close>

section \<open>Edges\<close>

text \<open>
  A pending version of the transaction itself that owns a property list. Writing the edge again would collect that list,
  although the history of the transaction may still name its version lists.
\<close>

definition own_props :: "u64 \<Rightarrow> nat \<Rightarrow> topo_store \<Rightarrow> bool" where
  "own_props t p S =
     (case edge_lists S p of
        None \<Rightarrow> False
      | Some ml \<Rightarrow>
          (case tail ml of
             None \<Rightarrow> False
           | Some a \<Rightarrow> GetTransactionID (items (edge_mvcc S) a) = t \<and> Edge_NeedGC (val (items (edge_mvcc S) a))))"

lemma append_edge_store:
  assumes "append_edge tid t bt p S = Some (a, S')" "\<not> own_props t p S"
  shows "val_store (edge_mvcc S') = val_store (edge_mvcc S)"
  using assms
  by (auto simp: append_edge_def own_props_def AppendVersion_def gc_value_def upd_item_def Let_def bind_eq_Some_conv split: option.splits if_splits)

lemma append_edge_wrote:
  assumes inv: "storage_inv n now D H" and t: "tid < n" "IS_VALID_TRX_ID t" and a: "append_edge tid t bt p (topo D) = Some (a, S)"
  shows "a = None \<Longrightarrow> edge_mvcc S = edge_mvcc (topo D) \<and> edge_lists S = edge_lists (topo D)" "fresh_edge S = fresh_edge (topo D)"
    "a = Some b \<Longrightarrow> \<exists>A'. list_wrote t p (edge_mvcc (topo D)) (edge_lists (topo D)) (he H) (write_val b w (edge_mvcc S)) (edge_lists S) A'"
    "unused_above (fresh_edge S) (edge_lists S)"
proof -
  obtain E where I: "fam_ok (edge_mvcc (topo D)) (edge_lists (topo D)) (he H)" "unused_above (fresh_edge (topo D)) (edge_lists (topo D))"
    "nthreads (item_pool (edge_mvcc (topo D))) = n" by (rule storage_invE [OF inv])
  obtain ml r where r: "edge_lists (topo D) p = Some ml"
    "AppendVersion Edge_NeedGC (Edge_ValueGC tid) tid t bt (edge_mvcc (topo D)) ml = Some r" "a = app_item r"
    "S = (topo D)\<lparr>edge_mvcc := app_mem r, edge_lists := (edge_lists (topo D))(p \<mapsto> app_list r)\<rparr>"
    using a by (auto simp: append_edge_def bind_eq_Some_conv split: if_splits)
  have nt: "tid < nthreads (item_pool (edge_mvcc (topo D)))" using t(1) I(3) by simp
  note w = AppendVersion_wrote [OF I(1) r(1) nt t(2) r(2)]
  show "a = None \<Longrightarrow> edge_mvcc S = edge_mvcc (topo D) \<and> edge_lists S = edge_lists (topo D)" using w(1) r by (simp add: fun_upd_idem)
  show "\<exists>A'. list_wrote t p (edge_mvcc (topo D)) (edge_lists (topo D)) (he H) (write_val b w (edge_mvcc S)) (edge_lists S) A'" if "a = Some b"
    using w(2) [of b w] r that by auto
  show "fresh_edge S = fresh_edge (topo D)" "unused_above (fresh_edge S) (edge_lists S)" using I(2) r by auto
qed

text \<open>The common end of the operations on an edge that is in the map.\<close>

lemma edge_quiet:
  assumes "edge_mvcc S = edge_mvcc (topo D)" "edge_lists S = edge_lists (topo D)" "fresh_edge S = fresh_edge (topo D)"
  shows "quiet D (D\<lparr>topo := S\<rparr>)"
  using assms by (auto simp: quiet_def edge_store_def intro!: exI [of _ "val_store (edge_mvcc (topo D))"])

lemma edge_wrote_inv:
  assumes inv: "storage_inv n now D H"
    and w: "list_wrote t p (edge_mvcc (topo D)) (edge_lists (topo D)) (he H) (edge_mvcc (topo D1)) (edge_lists (topo D1)) A'"
    and o: "vp_mem D1 = vp_mem D" "v_mvcc D1 = v_mvcc D" "v_lists D1 = v_lists D" "fresh_v D1 = fresh_v D"
      "trx_process_history D1 = trx_process_history D" "unused_above (fresh_edge (topo D1)) (edge_lists (topo D1))"
      "map_option ep_mem (val_store (edge_mvcc (topo D1))) = map_option ep_mem (val_store (edge_mvcc (topo D)))"
    and i: "InsertTrxProcessHistory t ty (EList p) D1 = Some D'"
  shows "\<exists>H'. storage_inv n now D' H'"
proof -
  have "wrote t (EList p) D H D1 (H\<lparr>he := A'\<rparr>)"
    by (rule wrote_e [OF inv_rep [OF inv] w]) (use o in \<open>simp_all add: edge_store_def\<close>)
  then show ?thesis by (rule recorded_inv [OF inv _ i])
qed

lemma write_val_fields [simp]: "val_store (write_val a v m) = val_store m" "item_pool (write_val a v m) = item_pool m"
  by (simp_all add: write_val_def upd_item_def)

definition rewrites_own_edge :: "u64 \<Rightarrow> eid_t \<Rightarrow> bool \<Rightarrow> data_storage \<Rightarrow> bool" where
  "rewrites_own_edge t eid out D =
     (case edge_map out D (eid_t_value eid) of Some (Some p) \<Rightarrow> own_props t p (topo D) | _ \<Rightarrow> False)"

lemma ProcessDropE_inv:
  assumes inv: "storage_inv n now D H" and t: "tid < n" "IS_VALID_TRX_ID t" and g: "\<not> rewrites_own_edge t eid out D"
    and a: "ProcessDropE tid eid out t bt D = Some (ps, D')"
  shows "\<exists>H'. storage_inv n now D' H'"
proof (cases "edge_map out D (eid_t_value eid)")
  case None
  then show ?thesis using a inv by (auto simp: ProcessDropE_def)
next
  case (Some ptr)
  then obtain p b S where p: "ptr = Some p" "append_edge tid t bt p (topo D) = Some (b, S)"
    using a by (auto simp: ProcessDropE_def bind_eq_Some_conv)
  note w = append_edge_wrote [OF inv t p(2)]
  have s: "val_store (edge_mvcc S) = val_store (edge_mvcc (topo D))"
    by (rule append_edge_store [OF p(2)]) (use g Some p(1) in \<open>simp add: rewrites_own_edge_def\<close>)
  show ?thesis
  proof (cases b)
    case None
    have "D' = update_status t TRX_STAT.ABORT (D\<lparr>topo := S\<rparr>)" using a Some p None by (simp add: ProcessDropE_def)
    moreover have "quiet D (D\<lparr>topo := S\<rparr>)" using edge_quiet w(1,2) None by blast
    ultimately show ?thesis using quiet_inv [OF inv quiet_update] by blast
  next
    case c: (Some c)
    let ?S = "S\<lparr>edge_mvcc := write_val c \<lparr>ev_label = 0, ep_row_list = None\<rparr> (edge_mvcc S)\<rparr>"
    have i: "InsertTrxProcessHistory t PROCESS_DROP_E (EList p) (D\<lparr>topo := ?S\<rparr>) = Some D'"
      using a Some p c by (auto simp: ProcessDropE_def Let_def bind_eq_Some_conv)
    obtain A' where A': "list_wrote t p (edge_mvcc (topo D)) (edge_lists (topo D)) (he H) (edge_mvcc (topo (D\<lparr>topo := ?S\<rparr>))) (edge_lists (topo (D\<lparr>topo := ?S\<rparr>))) A'"
      using w(3) [OF c] by auto
    show ?thesis by (rule edge_wrote_inv [OF inv A' _ _ _ _ _ _ _ i]) (use w s in simp_all)
  qed
qed

lemma new_ep_row_listD:
  assumes "new_ep_row_list out S = Some (ep, S')"
  shows "\<exists>s. edge_mvcc S' = (edge_mvcc S)\<lparr>val_store := s\<rparr>" "edge_lists S' = edge_lists S" "fresh_edge S' = fresh_edge S"
    "map_option ep_mem (val_store (edge_mvcc S')) = map_option ep_mem (val_store (edge_mvcc S))"
proof -
  have "(\<exists>s. S' = S\<lparr>edge_mvcc := (edge_mvcc S)\<lparr>val_store := s\<rparr>\<rparr> \<and> map_option ep_mem s = map_option ep_mem (val_store (edge_mvcc S)))"
    using assms by (cases out) (force simp: new_ep_row_list_def new_ep_list_def bind_eq_Some_conv intro: exI [of _ "val_store (edge_mvcc S)"])+
  then obtain s where s: "S' = S\<lparr>edge_mvcc := (edge_mvcc S)\<lparr>val_store := s\<rparr>\<rparr>" "map_option ep_mem s = map_option ep_mem (val_store (edge_mvcc S))" by blast
  then show "\<exists>s. edge_mvcc S' = (edge_mvcc S)\<lparr>val_store := s\<rparr>" "edge_lists S' = edge_lists S" "fresh_edge S' = fresh_edge S"
    "map_option ep_mem (val_store (edge_mvcc S')) = map_option ep_mem (val_store (edge_mvcc S))" by auto
qed

lemma ProcessAddEdge_wrote:
  assumes inv: "storage_inv n now D H" and t: "tid < n" "IS_VALID_TRX_ID t" and e: "new_ep_row_list out (topo D) = Some (ep, S)"
    and a: "ProcessAddEdge tid out v label ep t bt S l = Some (p, S', l')"
  shows "\<exists>A'. list_wrote t p (edge_mvcc (topo D)) (edge_lists (topo D)) (he H) (edge_mvcc S') (edge_lists S') A'"
    "unused_above (fresh_edge S') (edge_lists S')"
    "map_option ep_mem (val_store (edge_mvcc S')) = map_option ep_mem (val_store (edge_mvcc (topo D)))"
proof -
  obtain E where I: "fam_ok (edge_mvcc (topo D)) (edge_lists (topo D)) (he H)" "unused_above (fresh_edge (topo D)) (edge_lists (topo D))"
    "nthreads (item_pool (edge_mvcc (topo D))) = n" by (rule storage_invE [OF inv])
  obtain s where s: "edge_mvcc S = (edge_mvcc (topo D))\<lparr>val_store := s\<rparr>" "edge_lists S = edge_lists (topo D)" "fresh_edge S = fresh_edge (topo D)"
    "map_option ep_mem s = map_option ep_mem (val_store (edge_mvcc (topo D)))"
    using new_ep_row_listD [OF e] by auto
  obtain r b where r: "AppendVersion Edge_NeedGC (Edge_ValueGC tid) tid t bt (edge_mvcc S) empty_list = Some r" "app_item r = Some b"
    "p = fresh_edge S" "edge_mvcc S' = write_val b \<lparr>ev_label = label, ep_row_list = ep\<rparr> (app_mem r)"
    "edge_lists S' = (edge_lists S)(p \<mapsto> app_list r)" "fresh_edge S' = Suc p"
    using a by (auto simp: ProcessAddEdge_def Topology_AllocateCell_def Let_def bind_eq_Some_conv)
  have f: "fam_ok (edge_mvcc S) (edge_lists S) (he H)" using I(1) s(1,2) by (simp add: fam_store)
  have n: "edge_lists S p = None" using I(2) s(2,3) r(3) by (simp add: unused_above_def)
  have nt: "tid < nthreads (item_pool (edge_mvcc S))" using t(1) I(3) s(1) by simp
  note w = new_append_wrote(1) [OF f n nt t(2) r(1,2), of "\<lparr>ev_label = label, ep_row_list = ep\<rparr>"] new_append_wrote(2) [OF f n nt t(2) r(1,2)]
  have "list_wrote t p (edge_mvcc S) L A m' L' A' = list_wrote t p (edge_mvcc (topo D)) L A m' L' A'" for L A m' L' A'
    by (simp add: list_wrote_def s(1))
  then show "\<exists>A'. list_wrote t p (edge_mvcc (topo D)) (edge_lists (topo D)) (he H) (edge_mvcc S') (edge_lists S') A'"
    using w(1) r(4,5) s(2) by simp
  show "unused_above (fresh_edge S') (edge_lists S')" using I(2) r(3,5,6) s(2,3) by (simp add: unused_above_def)
  show "map_option ep_mem (val_store (edge_mvcc S')) = map_option ep_mem (val_store (edge_mvcc (topo D)))"
    using w(2) r(4) s(1,4) by simp
qed

lemma set_edge_fields [simp]:
  "topo (set_edge out eid p D) = topo D" "vp_mem (set_edge out eid p D) = vp_mem D" "v_mvcc (set_edge out eid p D) = v_mvcc D"
  "v_lists (set_edge out eid p D) = v_lists D" "fresh_v (set_edge out eid p D) = fresh_v D"
  "trx_process_history (set_edge out eid p D) = trx_process_history D"
  by (simp_all add: set_edge_def)

lemma new_edge_inv:
  assumes inv: "storage_inv n now D H" and t: "tid < n" "IS_VALID_TRX_ID t" and e: "new_ep_row_list out (topo D) = Some (ep, S)"
    and a: "ProcessAddEdge tid out v label ep t bt S l = Some (p, S', l')"
    and i: "InsertTrxProcessHistory t ty (EList p) (set_edge out eid q (D\<lparr>topo := S', vertex_map := vm\<rparr>)) = Some D'"
  shows "\<exists>H'. storage_inv n now D' H'"
proof -
  let ?D = "set_edge out eid q (D\<lparr>topo := S', vertex_map := vm\<rparr>)"
  note w = ProcessAddEdge_wrote [OF inv t e a]
  obtain A' where A': "list_wrote t p (edge_mvcc (topo D)) (edge_lists (topo D)) (he H) (edge_mvcc (topo ?D)) (edge_lists (topo ?D)) A'"
    using w(1) by auto
  show ?thesis by (rule edge_wrote_inv [OF inv A' _ _ _ _ _ _ _ i]) (use w in simp_all)
qed

lemma old_edge_inv:
  assumes inv: "storage_inv n now D H" and t: "tid < n" "IS_VALID_TRX_ID t" and a: "append_edge tid t bt p (topo D) = Some (Some b, S)"
    and g: "\<not> own_props t p (topo D)" and e: "new_ep_row_list out S = Some (ep, S')"
    and i: "InsertTrxProcessHistory t ty (EList p) (D\<lparr>topo := S'\<lparr>edge_mvcc := write_val b w (edge_mvcc S')\<rparr>\<rparr>) = Some D'"
  shows "\<exists>H'. storage_inv n now D' H'"
proof -
  let ?D = "D\<lparr>topo := S'\<lparr>edge_mvcc := write_val b w (edge_mvcc S')\<rparr>\<rparr>"
  note w = append_edge_wrote [OF inv t a] and s = append_edge_store [OF a g] and e' = new_ep_row_listD [OF e]
  obtain s where s': "edge_mvcc S' = (edge_mvcc S)\<lparr>val_store := s\<rparr>" using e'(1) by blast
  obtain A' where "list_wrote t p (edge_mvcc (topo D)) (edge_lists (topo D)) (he H) (write_val b w (edge_mvcc S)) (edge_lists S) A'"
    using w(3) [of b w] by auto
  then have A': "list_wrote t p (edge_mvcc (topo D)) (edge_lists (topo D)) (he H) (edge_mvcc (topo ?D)) (edge_lists (topo ?D)) A'"
    by (simp add: s' e'(2) write_val_store)
  show ?thesis by (rule edge_wrote_inv [OF inv A' _ _ _ _ _ _ _ i]) (use w s e' in simp_all)
qed

lemma visible_same_edges:
  assumes "GetVertexIterator x vid D = Some (st, D')"
  shows "edge_map out D' = edge_map out D" "topo D' = topo D"
  using assms by (auto simp: GetVertexIterator_def CheckVertexVisibility_def visible_vertex_def bind_eq_Some_conv abort_on_def update_status_def
      edge_map_def split: option.splits)

lemma ProcessAddE_inv:
  assumes inv: "storage_inv n now D H" and t: "tid < n" "IS_VALID_TRX_ID (rc_trx x)" and g: "\<not> rewrites_own_edge (rc_trx x) eid out D"
    and a: "ProcessAddE tid x eid label out D = Some (ps, D')"
  shows "\<exists>H'. storage_inv n now D' H'"
proof (cases "src_v eid = dst_v eid")
  case True
  then have "D' = update_status (rc_trx x) TRX_STAT.ABORT D" using a by (simp add: ProcessAddE_def)
  then show ?thesis using quiet_inv [OF inv quiet_simps(2)] by blast
next
  case False
  let ?vid = "if out then src_v eid else dst_v eid" and ?k = "eid_t_value eid"
  obtain st D1 where D1: "GetVertexIterator (updating x) ?vid D = Some (st, D1)"
    using a False by (auto simp: ProcessAddE_def Let_def bind_eq_Some_conv)
  have q1: "quiet D D1" by (rule GetVertexIterator_quiet [OF D1])
  note inv1 = quiet_inv [OF inv q1] and same = visible_same_edges [OF D1]
  note unf = ProcessAddE_def Let_def False D1
  show ?thesis
  proof (cases "st = SUCCESS")
    case f: False
    then have "D' = D1 \<or> D' = update_status (rc_trx x) TRX_STAT.ABORT D1" using a by (auto simp: unf split: if_splits)
    then show ?thesis using quiet_inv [OF inv1 quiet_simps(2)] inv1 by auto
  next
    case True
    consider "edge_map out D1 ?k = None" | "edge_map out D1 ?k = Some None" | p where "edge_map out D1 ?k = Some (Some p)" by fastforce
    then show ?thesis
    proof cases
      case 1
      then obtain ep S v l p S' l' where n: "new_ep_row_list out (topo D1) = Some (ep, S)" "ProcessAddEdge tid out (if out then dst_v eid else src_v eid) label ep (rc_trx x) (rc_begin x) S l = Some (p, S', l')"
        "InsertTrxProcessHistory (rc_trx x) PROCESS_ADD_E (EList p) (set_edge out eid (Some p)
           (D1\<lparr>topo := S', vertex_map := (vertex_map D1)(vid_t_value ?vid \<mapsto> v\<lparr>ve_row_list := Some l'\<rparr>)\<rparr>)) = Some D'"
        using a True by (auto simp: unf bind_eq_Some_conv split del: if_split)
      show ?thesis by (rule new_edge_inv [OF inv1 t n])
    next
      case 2
      then show ?thesis using a True inv1 by (auto simp: unf split del: if_split)
    next
      case 3
      then obtain b S where b: "append_edge tid (rc_trx x) (rc_begin x) p (topo D1) = Some (b, S)"
        using a True by (auto simp: unf bind_eq_Some_conv split del: if_split)
      have o: "\<not> own_props (rc_trx x) p (topo D1)" using g 3 same by (simp add: rewrites_own_edge_def)
      note w = append_edge_wrote [OF inv1 t b]
      show ?thesis
      proof (cases b)
        case None
        have "D' = update_status (rc_trx x) TRX_STAT.ABORT (D1\<lparr>topo := S\<rparr>)" using a True 3 b None by (simp add: unf split del: if_split)
        moreover have "quiet D1 (D1\<lparr>topo := S\<rparr>)" using edge_quiet w(1,2) None by blast
        ultimately show ?thesis using quiet_inv [OF inv1 quiet_update] by blast
      next
        case (Some c)
        then obtain ep S' where e: "new_ep_row_list out S = Some (ep, S')"
          "InsertTrxProcessHistory (rc_trx x) PROCESS_ADD_E (EList p)
             (D1\<lparr>topo := S'\<lparr>edge_mvcc := write_val c \<lparr>ev_label = label, ep_row_list = ep\<rparr> (edge_mvcc S')\<rparr>\<rparr>) = Some D'"
          using a True 3 b by (auto simp: unf bind_eq_Some_conv split del: if_split)
        show ?thesis by (rule old_edge_inv [OF inv1 t b [unfolded Some] o e])
      qed
    qed
  qed
qed

section \<open>Edge properties\<close>

lemma set_ep_fields [simp]:
  "vp_mem (set_ep q S pl E D) = vp_mem D" "v_mvcc (set_ep q S pl E D) = v_mvcc D" "v_lists (set_ep q S pl E D) = v_lists D"
  "fresh_v (set_ep q S pl E D) = fresh_v D" "trx_process_history (set_ep q S pl E D) = trx_process_history D"
  "edge_mvcc (topo (set_ep q S pl E D)) = (edge_mvcc (topo D))\<lparr>val_store := Some (E\<lparr>ep_mem := S, ep_lists := (ep_lists E)(q \<mapsto> pl)\<rparr>)\<rparr>"
  "edge_lists (topo (set_ep q S pl E D)) = edge_lists (topo D)" "fresh_edge (topo (set_ep q S pl E D)) = fresh_edge (topo D)"
  "edge_store (set_ep q S pl E D) = Some (E\<lparr>ep_mem := S, ep_lists := (ep_lists E)(q \<mapsto> pl)\<rparr>)"
  by (simp_all add: set_ep_def edge_store_def)

lemma ep_effect_inv:
  assumes inv: "storage_inv n now D H" and E: "edge_store D = Some E" and e: "prop_effect t ret (ep_mem E) (hx H) S"
  shows "ret = None \<Longrightarrow> quiet D (set_ep q S pl E D)"
    "ret = Some p \<Longrightarrow> InsertTrxProcessHistory t ty (EPList p) (set_ep q S pl E D) = Some D' \<Longrightarrow> \<exists>H'. storage_inv n now D' H'"
proof -
  let ?D = "set_ep q S pl E D" and ?E = "E\<lparr>ep_mem := S, ep_lists := (ep_lists E)(q \<mapsto> pl)\<rparr>"
  show "quiet D ?D" if "ret = None" using that e E by (auto simp: quiet_def prop_effect_def)
  assume r: "ret = Some p" and i: "InsertTrxProcessHistory t ty (EPList p) ?D = Some D'"
  obtain A' where A': "list_wrote t p (prop_mvcc (ep_mem E)) (prop_lists (ep_mem E)) (hx H) (prop_mvcc (ep_mem ?E)) (prop_lists (ep_mem ?E)) A'"
    "unused_above (fresh_list (ep_mem ?E)) (prop_lists (ep_mem ?E))"
    using e r by (auto simp: prop_effect_def)
  have "wrote t (EPList p) D H ?D (H\<lparr>hx := A'\<rparr>)"
    by (rule wrote_x [OF inv_rep [OF inv] E _ A'(1), where s = "Some ?E"]) (use A'(2) in simp_all)
  then show "\<exists>H'. storage_inv n now D' H'" by (rule recorded_inv [OF inv _ i])
qed

lemma edge_ep_listD: "edge_ep_list v D = Some (q, E, pl) \<Longrightarrow> edge_store D = Some E"
  by (auto simp: edge_ep_list_def edge_store_def bind_eq_Some_conv)

lemma ProcessModifyEP_inv:
  assumes inv: "storage_inv n now D H" and t: "tid < n" "IS_VALID_TRX_ID (rc_trx x)" and a: "ProcessModifyEP tid x pid w old D = Some (ps, old', D')"
  shows "\<exists>H'. storage_inv n now D' H'"
proof -
  obtain st v D1 where D1: "GetOutEdgeVersion (updating x) (epid_eid pid) D = Some (st, v, D1)"
    using a by (auto simp: ProcessModifyEP_def bind_eq_Some_conv)
  note inv1 = quiet_inv [OF inv GetOutEdgeVersion_quiet [OF D1]]
  show ?thesis
  proof (cases "st = SUCCESS")
    case False
    then have "D' = update_status (rc_trx x) TRX_STAT.ABORT D1" using a D1 by (simp add: ProcessModifyEP_def)
    then show ?thesis using quiet_inv [OF inv1 quiet_simps(2)] by blast
  next
    case True
    obtain u q E pl ex ret old1 S pl' where m: "v = Some u" "edge_ep_list u D1 = Some (q, E, pl)"
      "ProcessModifyProperty EP_ROW_CELL_COUNT ep_pid tid pid w (rc_trx x) (rc_begin x) (ep_mem E) pl old = Some ((ex, ret), old1, S, pl')"
      using a D1 True by (auto simp: ProcessModifyEP_def bind_eq_Some_conv)
    have E: "edge_store D1 = Some E" by (rule edge_ep_listD [OF m(2)])
    have I: "fam_ok (prop_mvcc (ep_mem E)) (prop_lists (ep_mem E)) (hx H)" "unused_above (fresh_list (ep_mem E)) (prop_lists (ep_mem E))"
      "tid < nthreads (item_pool (prop_mvcc (ep_mem E)))" by (rule storage_invE [OF inv1]; use E t(1) in simp)+
    note e = ep_effect_inv [OF inv1 E ProcessModifyProperty_effect [OF I t(2) m(3)]]
    show ?thesis
    proof (cases ret)
      case None
      have "D' = update_status (rc_trx x) TRX_STAT.ABORT (set_ep q S pl' E D1)" using a D1 True m None by (simp add: ProcessModifyEP_def Let_def)
      then show ?thesis using quiet_inv [OF inv1 quiet_update [OF e(1) [OF None]]] by blast
    next
      case (Some p)
      have "InsertTrxProcessHistory (rc_trx x) (if ex then PROCESS_MODIFY_EP else PROCESS_ADD_EP) (EPList p) (set_ep q S pl' E D1) = Some D'"
        using a D1 True m Some by (auto simp: ProcessModifyEP_def Let_def bind_eq_Some_conv)
      then show ?thesis by (rule e(2) [OF Some])
    qed
  qed
qed

lemma ProcessDropEP_inv:
  assumes inv: "storage_inv n now D H" and t: "tid < n" "IS_VALID_TRX_ID (rc_trx x)" and a: "ProcessDropEP tid x pid old D = Some (ps, old', D')"
  shows "\<exists>H'. storage_inv n now D' H'"
proof -
  obtain st v D1 where D1: "GetOutEdgeVersion (updating x) (epid_eid pid) D = Some (st, v, D1)"
    using a by (auto simp: ProcessDropEP_def bind_eq_Some_conv)
  note inv1 = quiet_inv [OF inv GetOutEdgeVersion_quiet [OF D1]]
  show ?thesis
  proof (cases "st = SUCCESS")
    case False
    then have "D' = update_status (rc_trx x) TRX_STAT.ABORT D1" using a D1 by (simp add: ProcessDropEP_def)
    then show ?thesis using quiet_inv [OF inv1 quiet_simps(2)] by blast
  next
    case True
    obtain u q E pl ret old1 S where m: "v = Some u" "edge_ep_list u D1 = Some (q, E, pl)"
      "ProcessDropProperty EP_ROW_CELL_COUNT ep_pid tid pid (rc_trx x) (rc_begin x) (ep_mem E) pl old = Some (ret, old1, S)"
      using a D1 True by (auto simp: ProcessDropEP_def bind_eq_Some_conv)
    have E: "edge_store D1 = Some E" by (rule edge_ep_listD [OF m(2)])
    have I: "fam_ok (prop_mvcc (ep_mem E)) (prop_lists (ep_mem E)) (hx H)" "unused_above (fresh_list (ep_mem E)) (prop_lists (ep_mem E))"
      "tid < nthreads (item_pool (prop_mvcc (ep_mem E)))" by (rule storage_invE [OF inv1]; use E t(1) in simp)+
    note e = ep_effect_inv [OF inv1 E ProcessDropProperty_effect [OF I t(2) m(3)]]
    show ?thesis
    proof (cases ret)
      case None
      have "D' = update_status (rc_trx x) TRX_STAT.ABORT (set_ep q S pl E D1)" using a D1 True m None by (simp add: ProcessDropEP_def Let_def)
      then show ?thesis using quiet_inv [OF inv1 quiet_update [OF e(1) [OF None]]] by blast
    next
      case (Some p)
      have "InsertTrxProcessHistory (rc_trx x) PROCESS_DROP_EP (EPList p) (set_ep q S pl E D1) = Some D'"
        using a D1 True m Some by (auto simp: ProcessDropEP_def Let_def bind_eq_Some_conv)
      then show ?thesis by (rule e(2) [OF Some])
    qed
  qed
qed

section \<open>Loading\<close>

text \<open>New lists whose versions are committed at time 0; the others are as before.\<close>

definition fam_added :: "('v, 's) mvcc_mem \<Rightarrow> (nat \<Rightarrow> mvcc_list option) \<Rightarrow> (nat \<Rightarrow> 'v history) \<Rightarrow>
    ('v, 's) mvcc_mem \<Rightarrow> (nat \<Rightarrow> mvcc_list option) \<Rightarrow> (nat \<Rightarrow> 'v history) \<Rightarrow> bool" where
  "fam_added m L A m' L' A' \<longleftrightarrow>
     fam_ok m' L' A' \<and> nthreads (item_pool m') = nthreads (item_pool m) \<and>
     (\<forall>p. L p \<noteq> None \<longrightarrow> L' p \<noteq> None \<and> A' p = A p) \<and>
     (\<forall>p. L p = None \<longrightarrow> L' p \<noteq> None \<longrightarrow> snd (A' p) = None \<and> (\<forall>d\<in>set (map fst (fst (A' p))). d = 0))"

lemma fam_added_refl: "fam_ok m L A \<Longrightarrow> fam_added m L A m L A"
  by (simp add: fam_added_def)

lemma fam_added_trans: "fam_added m L A m1 L1 A1 \<Longrightarrow> fam_added m1 L1 A1 m2 L2 A2 \<Longrightarrow> fam_added m L A m2 L2 A2"
  unfolding fam_added_def by (metis option.distinct(1))

lemma fam_added_store [simp]:
  "fam_added m L A (m'\<lparr>val_store := s\<rparr>) L' A' = fam_added m L A m' L' A'" "fam_added (m\<lparr>val_store := s\<rparr>) L A m' L' A' = fam_added m L A m' L' A'"
  by (simp_all add: fam_added_def fam_store)

lemma fam_initial:
  assumes ok: "fam_ok m L A" and p: "L p = None" and t: "tid < nthreads (item_pool m)" and r: "AppendInitialVersion tid m empty_list = Some (a, m', ml)"
  shows "fam_added m L A (write_val a w m') (L(p \<mapsto> ml)) (A(p := ([(0, w)], None)))" "val_store m' = val_store m"
proof -
  have f: "fam_ok m (L(p \<mapsto> empty_list)) (A(p := ([], None)))" by (rule fam_new [OF ok p])
  obtain q where q: "MemPool_Get (item_pool m) tid = Some (a, q)" "m' = upd_item a (Item_Init MIN_TIME MAX_TIME) (m\<lparr>item_pool := q\<rparr>)"
    "ml = empty_list\<lparr>head := Some a, tail := Some a, pre_tail := Some a\<rparr>"
    using r by (auto simp: AppendInitialVersion_def bind_eq_Some_conv)
  have "fam_ok (write_val a w m') ((L(p \<mapsto> empty_list))(p \<mapsto> ml)) ((A(p := ([], None)))(p := ([(0, w)], None)))"
  proof (rule fam_update [OF f])
    fix U as assume i: "mvcc_inv m U empty_list as [] None"
    have "as = []" and u: "pool_used (item_pool m) U" using i by (cases as; auto simp: mvcc_inv_def list_rep_def empty_list_def first_cell_def)+
    note P = pool_used_get [OF u t q(1)]
    have "mvcc_inv (write_val a w m') (insert a U) ml [a] [(0, w)] None"
      using P by (simp add: mvcc_inv_def list_rep_def times_ok_def write_val_def upd_item_def q(2,3) Item_Init_eq until_def last_cell_def MAX_TIMESTAMP_def)
    moreover have "keeps_others m U as (write_val a w m') (insert a U) [a]"
      using P \<open>as = []\<close> by (auto simp: keeps_others_def write_val_def upd_item_def q(2))
    ultimately show "\<exists>U' as'. mvcc_inv (write_val a w m') U' ml as' [(0, w)] None \<and> keeps_others m U as (write_val a w m') U' as'" by blast
  qed simp_all
  moreover have "nthreads (item_pool m') = nthreads (item_pool m)"
  proof -
    obtain U C where "fam_cells m L A U C" by (rule fam_okE [OF ok])
    then have u: "pool_used (item_pool m) U" by (simp add: fam_cells_def)
    show ?thesis using pool_used_get [OF u t q(1)] q(2) by (simp add: upd_item_def)
  qed
  ultimately show "fam_added m L A (write_val a w m') (L(p \<mapsto> ml)) (A(p := ([(0, w)], None)))" using p by (auto simp: fam_added_def)
  show "val_store m' = val_store m" using q(2) by (simp add: upd_item_def)
qed

lemma added_inv:
  assumes inv: "storage_inv n now D H" and E: "edge_store D = Some E" "edge_store D' = Some E'"
    and a: "fam_added (v_mvcc D) (v_lists D) (hv H) (v_mvcc D') (v_lists D') (hv H')"
      "fam_added (edge_mvcc (topo D)) (edge_lists (topo D)) (he H) (edge_mvcc (topo D')) (edge_lists (topo D')) (he H')"
      "fam_added (prop_mvcc (vp_mem D)) (prop_lists (vp_mem D)) (hp H) (prop_mvcc (vp_mem D')) (prop_lists (vp_mem D')) (hp H')"
      "fam_added (prop_mvcc (ep_mem E)) (prop_lists (ep_mem E)) (hx H) (prop_mvcc (ep_mem E')) (prop_lists (ep_mem E')) (hx H')"
    and f: "unused_above (fresh_v D') (v_lists D')" "unused_above (fresh_edge (topo D')) (edge_lists (topo D'))"
      "unused_above (fresh_list (vp_mem D')) (prop_lists (vp_mem D'))" "unused_above (fresh_list (ep_mem E')) (prop_lists (ep_mem E'))"
    and h: "trx_process_history D' = trx_process_history D"
  shows "storage_inv n now D' H'"
proof -
  have I: "threads_ok n D" "\<And>ptr. alive D ptr \<Longrightarrow> ptr_upto now H ptr" "\<And>t ptr. ptr \<in> recorded D t \<longleftrightarrow> alive D ptr \<and> ptr_owned t H ptr"
    using inv unfolding storage_inv_def by blast+
  note defs = alive_def ptr_owned_def ptr_upto_def E option.case list_ptr.case
  have old: "alive D' q" "ptr_owned s H' q = ptr_owned s H q" "ptr_upto k H' q = ptr_upto k H q" if "alive D q" for q s k
    using that a by (cases q; simp only: defs fam_added_def; simp)+
  have new: "\<not> ptr_owned s H' q" "ptr_upto k H' q" if "alive D' q" "\<not> alive D q" for q s k
    using that a by (cases q; force simp: defs fam_added_def owned_def times_upto_def)+
  have r: "recorded D' = recorded D" using h by (simp add: recorded_def history_of_def fun_eq_iff)
  show ?thesis unfolding storage_inv_def
  proof (intro conjI allI impI)
    show "storage_rep D' H'" "fresh_ok D'" "threads_ok n D'"
      using a f I(1) E by (auto simp: storage_rep_def fresh_ok_def threads_ok_def fam_added_def)
    show "ptr_upto now H' q" if "alive D' q" for q using that old new I(2) by metis
    show "q \<in> recorded D' s \<longleftrightarrow> alive D' q \<and> ptr_owned s H' q" for s q using r I(3) old new by metis
  qed
qed

lemma unused_above_new: "unused_above n L \<Longrightarrow> unused_above (Suc n) (L(n \<mapsto> ml))"
  by (simp add: unused_above_def)

lemma InsertInitialCell_added:
  assumes ok: "fam_ok (prop_mvcc S) (prop_lists S) A" "unused_above (fresh_list S) (prop_lists S)" and t: "tid < nthreads (item_pool (prop_mvcc S))"
    and i: "InsertInitialCell R tid pid v S l = Some (S', l')"
  shows "\<exists>A'. fam_added (prop_mvcc S) (prop_lists S) A (prop_mvcc S') (prop_lists S') A'" "unused_above (fresh_list S') (prop_lists S')"
proof -
  obtain b m ml h vs where r: "AppendInitialVersion tid (prop_mvcc S) empty_list = Some (b, m, ml)"
    and S': "prop_mvcc S' = write_val b h (m\<lparr>val_store := vs\<rparr>)" "prop_lists S' = (prop_lists S)(fresh_list S \<mapsto> ml)" "fresh_list S' = Suc (fresh_list S)"
    using i by (auto simp: InsertInitialCell_def Let_def bind_eq_Some_conv)
  have n: "prop_lists S (fresh_list S) = None" using ok(2) by (simp add: unused_above_def)
  have "fam_added (prop_mvcc S) (prop_lists S) A (prop_mvcc S') (prop_lists S') (A(fresh_list S := ([(0, h)], None)))"
    using fam_initial(1) [OF ok(1) n t r, of h] by (simp add: S'(1,2) write_val_store)
  then show "\<exists>A'. fam_added (prop_mvcc S) (prop_lists S) A (prop_mvcc S') (prop_lists S') A'" by blast
  show "unused_above (fresh_list S') (prop_lists S')" using ok(2) by (simp add: S'(2,3) unused_above_new)
qed

lemma load_props_added:
  assumes "fam_ok (prop_mvcc S) (prop_lists S) A" "unused_above (fresh_list S) (prop_lists S)" "tid < nthreads (item_pool (prop_mvcc S))"
    and "load_props R tid pid ks vs S l = Some (S', l')"
  shows "(\<exists>A'. fam_added (prop_mvcc S) (prop_lists S) A (prop_mvcc S') (prop_lists S') A') \<and> unused_above (fresh_list S') (prop_lists S')"
  using assms
proof (induction R tid pid ks vs S l arbitrary: A rule: load_props.induct)
  case (1 R tid pid vs S l)
  then show ?case using fam_added_refl by auto
next
  case (3 R tid pid k ks v vs S l)
  obtain S1 l1 where i: "InsertInitialCell R tid (pid k) v S l = Some (S1, l1)" "load_props R tid pid ks vs S1 l1 = Some (S', l')"
    using "3.prems"(4) by (auto simp: bind_eq_Some_conv)
  note a = InsertInitialCell_added [OF "3.prems"(1-3) i(1)]
  obtain A1 where A1: "fam_added (prop_mvcc S) (prop_lists S) A (prop_mvcc S1) (prop_lists S1) A1" using a(1) by blast
  have f: "fam_ok (prop_mvcc S1) (prop_lists S1) A1" "tid < nthreads (item_pool (prop_mvcc S1))"
    using A1 "3.prems"(3) by (simp_all add: fam_added_def)
  show ?case using "3.IH" [OF i(1) _ f(1) a(2) f(2) i(2)] fam_added_trans [OF A1] by blast
qed simp

text \<open>Steps of the loader, each on the whole storage.\<close>

lemma load_vertex_inv:
  assumes inv: "storage_inv n now D H" and t: "tid < n" and l: "load_vertex tid tv D = Some D'"
  shows "\<exists>H'. storage_inv n now D' H'"
proof -
  obtain E where I: "fam_ok (v_mvcc D) (v_lists D) (hv H)" "fam_ok (edge_mvcc (topo D)) (edge_lists (topo D)) (he H)"
    "fam_ok (prop_mvcc (vp_mem D)) (prop_lists (vp_mem D)) (hp H)"
    "edge_store D = Some E" "fam_ok (prop_mvcc (ep_mem E)) (prop_lists (ep_mem E)) (hx H)"
    "unused_above (fresh_v D) (v_lists D)" "unused_above (fresh_edge (topo D)) (edge_lists (topo D))"
    "unused_above (fresh_list (vp_mem D)) (prop_lists (vp_mem D))" "unused_above (fresh_list (ep_mem E)) (prop_lists (ep_mem E))"
    "nthreads (item_pool (v_mvcc D)) = n" "nthreads (item_pool (prop_mvcc (vp_mem D))) = n" by (rule storage_invE [OF inv])
  obtain a m ml S pl where r: "AppendInitialVersion tid (v_mvcc D) empty_list = Some (a, m, ml)"
    and p: "load_props VP_ROW_CELL_COUNT tid (\<lambda>k. \<lparr>vp_vid = tv_id tv, vp_pid = ucast k\<rparr>) (vp_label_list tv) (vp_value_list tv) (vp_mem D) PropertyRowList_Init = Some (S, pl)"
    and D': "v_mvcc D' = write_val a True m" "v_lists D' = (v_lists D)(fresh_v D \<mapsto> ml)" "fresh_v D' = Suc (fresh_v D)" "vp_mem D' = S" "topo D' = topo D"
      "trx_process_history D' = trx_process_history D"
    using l by (auto simp: load_vertex_def Let_def bind_eq_Some_conv)
  have nt: "tid < nthreads (item_pool (v_mvcc D))" "tid < nthreads (item_pool (prop_mvcc (vp_mem D)))" using I t by simp_all
  have n: "v_lists D (fresh_v D) = None" using I(6) by (simp add: unused_above_def)
  note v = fam_initial(1) [OF I(1) n nt(1) r, of True]
  obtain A' where A': "fam_added (prop_mvcc (vp_mem D)) (prop_lists (vp_mem D)) (hp H) (prop_mvcc S) (prop_lists S) A'" "unused_above (fresh_list S) (prop_lists S)"
    using load_props_added [OF I(3,8) nt(2) p] by blast
  have "storage_inv n now D' (H\<lparr>hv := (hv H)(fresh_v D := ([(0, True)], None)), hp := A'\<rparr>)"
    by (rule added_inv [OF inv I(4), of _ E])
      (use v A' I D' in \<open>simp_all add: edge_store_def fam_added_refl unused_above_new\<close>)
  then show ?thesis by blast
qed

lemma load_cell_inv:
  assumes inv: "storage_inv n now D H" and t: "tid < n" and l: "load_cell tid out vid conn eid label ep D = Some (p, D')"
  shows "\<exists>H'. storage_inv n now D' H'"
proof -
  obtain E where I: "fam_ok (v_mvcc D) (v_lists D) (hv H)" "fam_ok (edge_mvcc (topo D)) (edge_lists (topo D)) (he H)"
    "fam_ok (prop_mvcc (vp_mem D)) (prop_lists (vp_mem D)) (hp H)"
    "edge_store D = Some E" "fam_ok (prop_mvcc (ep_mem E)) (prop_lists (ep_mem E)) (hx H)"
    "unused_above (fresh_v D) (v_lists D)" "unused_above (fresh_edge (topo D)) (edge_lists (topo D))"
    "unused_above (fresh_list (vp_mem D)) (prop_lists (vp_mem D))" "unused_above (fresh_list (ep_mem E)) (prop_lists (ep_mem E))"
    "nthreads (item_pool (edge_mvcc (topo D))) = n" by (rule storage_invE [OF inv])
  obtain b m ml where r: "AppendInitialVersion tid (edge_mvcc (topo D)) empty_list = Some (b, m, ml)"
    and D': "edge_mvcc (topo D') = write_val b \<lparr>ev_label = label, ep_row_list = ep\<rparr> m" "edge_lists (topo D') = (edge_lists (topo D))(fresh_edge (topo D) \<mapsto> ml)"
      "fresh_edge (topo D') = Suc (fresh_edge (topo D))" "v_mvcc D' = v_mvcc D" "v_lists D' = v_lists D" "fresh_v D' = fresh_v D"
      "vp_mem D' = vp_mem D" "trx_process_history D' = trx_process_history D"
    using l by (auto simp: load_cell_def Topology_InsertInitialCell_def Topology_AllocateCell_def Let_def bind_eq_Some_conv)
  have nt: "tid < nthreads (item_pool (edge_mvcc (topo D)))" using I t by simp
  have n: "edge_lists (topo D) (fresh_edge (topo D)) = None" using I(7) by (simp add: unused_above_def)
  note e = fam_initial(1) [OF I(2) n nt r, of "\<lparr>ev_label = label, ep_row_list = ep\<rparr>"] fam_initial(2) [OF I(2) n nt r]
  have "storage_inv n now D' (H\<lparr>he := (he H)(fresh_edge (topo D) := ([(0, \<lparr>ev_label = label, ep_row_list = ep\<rparr>)], None))\<rparr>)"
    by (rule added_inv [OF inv I(4), of _ E])
      (use e I D' in \<open>simp_all add: edge_store_def fam_added_refl unused_above_new\<close>)
  then show ?thesis by blast
qed

lemma load_ep_inv:
  assumes inv: "storage_inv n now D H" and t: "tid < n" and E: "edge_store D = Some E" and l: "load_props R tid pid ks vs (ep_mem E) pl = Some (S, pl')"
  shows "\<exists>H'. storage_inv n now (set_ep q S pl' E D) H'"
proof -
  obtain E0 where I: "fam_ok (v_mvcc D) (v_lists D) (hv H)" "fam_ok (edge_mvcc (topo D)) (edge_lists (topo D)) (he H)"
    "fam_ok (prop_mvcc (vp_mem D)) (prop_lists (vp_mem D)) (hp H)"
    "edge_store D = Some E0" "fam_ok (prop_mvcc (ep_mem E0)) (prop_lists (ep_mem E0)) (hx H)"
    "unused_above (fresh_v D) (v_lists D)" "unused_above (fresh_edge (topo D)) (edge_lists (topo D))"
    "unused_above (fresh_list (vp_mem D)) (prop_lists (vp_mem D))" "unused_above (fresh_list (ep_mem E0)) (prop_lists (ep_mem E0))"
    "nthreads (item_pool (prop_mvcc (ep_mem E0))) = n" by (rule storage_invE [OF inv])
  have e: "E0 = E" using E I(4) by simp
  have nt: "tid < nthreads (item_pool (prop_mvcc (ep_mem E)))" using I(10) t e by simp
  obtain A' where A': "fam_added (prop_mvcc (ep_mem E)) (prop_lists (ep_mem E)) (hx H) (prop_mvcc S) (prop_lists S) A'" "unused_above (fresh_list S) (prop_lists S)"
    using load_props_added [OF I(5,9) [unfolded e] nt l] by blast
  have "storage_inv n now (set_ep q S pl' E D) (H\<lparr>hx := A'\<rparr>)"
    by (rule added_inv [OF inv E set_ep_fields(9)]) (use A' I in \<open>simp_all add: fam_added_refl\<close>)
  then show ?thesis by blast
qed

lemma new_ep_quiet:
  assumes "new_ep_row_list out (topo D) = Some (ep, S)"
  shows "quiet D (D\<lparr>topo := S\<rparr>)"
proof -
  note e = new_ep_row_listD [OF assms]
  have "\<exists>E'. edge_store (D\<lparr>topo := S\<rparr>) = Some E' \<and> ep_mem E' = ep_mem E" if "edge_store D = Some E" for E
    using that e(4) by (auto simp: edge_store_def)
  then show ?thesis using e(1-3) by (fastforce simp: quiet_def)
qed

lemma visible_edge_at_quiet: "visible_edge_at x p D = Some (r, D') \<Longrightarrow> quiet D D'"
  by (auto simp: visible_edge_at_def bind_eq_Some_conv)

lemma load_out_edge_inv:
  assumes inv: "storage_inv n now D H" and t: "tid < n" and l: "load_out_edge tid x e D = Some D'"
  shows "\<exists>H'. storage_inv n now D' H'"
proof -
  let ?x = "x\<lparr>rc_trx := 0, rc_begin := 0, rc_read_only := True\<rparr>" and ?out = "load_cell tid True (src_v (te_id e)) (dst_v (te_id e)) (te_id e) (te_label e)"
    and ?pid = "\<lambda>k. \<lparr>ep_dst_vid = dst_v (te_id e), ep_src_vid = src_v (te_id e), ep_pid = ucast k\<rparr>"
  obtain ep S p D1 r D2 where a: "new_ep_row_list True (topo D) = Some (ep, S)" "?out ep (D\<lparr>topo := S\<rparr>) = Some (p, D1)"
    "visible_edge_at ?x p D1 = Some (r, D2)"
    using l by (auto simp: load_out_edge_def bind_eq_Some_conv)
  obtain v where v: "r = Visible v" using l a by (auto simp: load_out_edge_def split: read_result.split_asm)
  obtain q E pl where q: "edge_ep_list v D2 = Some (q, E, pl)" using l a v by (auto simp: load_out_edge_def bind_eq_Some_conv)
  obtain S' pl' where p: "load_props EP_ROW_CELL_COUNT tid ?pid (ep_label_list e) (ep_value_list e) (ep_mem E) pl = Some (S', pl')"
    using l a v q by (auto simp: load_out_edge_def bind_eq_Some_conv)
  have D': "D' = set_ep q S' pl' E D2 \<or>
      (\<exists>p'. load_cell tid False (dst_v (te_id e)) (src_v (te_id e)) (te_id e) (te_label e) None (set_ep q S' pl' E D2) = Some (p', D'))"
    using l a v q p by (auto simp: load_out_edge_def Let_def bind_eq_Some_conv split: if_split_asm)
  obtain H1 where "storage_inv n now D1 H1" using load_cell_inv [OF quiet_inv [OF inv new_ep_quiet [OF a(1)]] t a(2)] by blast
  then have "storage_inv n now D2 H1" by (rule quiet_inv [OF _ visible_edge_at_quiet [OF a(3)]])
  then obtain H2 where H2: "storage_inv n now (set_ep q S' pl' E D2) H2" using load_ep_inv [OF _ t edge_ep_listD [OF q] p] by blast
  show ?thesis using D' H2 load_cell_inv [OF H2 t] by blast
qed

lemma load_vertices_inv: "storage_inv n now D H \<Longrightarrow> tid < n \<Longrightarrow> load_vertices tid tvs D = Some D' \<Longrightarrow> \<exists>H'. storage_inv n now D' H'"
proof (induction tid tvs D arbitrary: H rule: load_vertices.induct)
  case (2 tid tv tvs D)
  then obtain D1 where D1: "load_vertex tid tv D = Some D1" "load_vertices tid tvs D1 = Some D'" by (auto simp: bind_eq_Some_conv)
  show ?case using load_vertex_inv [OF "2.prems"(1,2) D1(1)] "2.IH" [OF D1(1) _ "2.prems"(2) D1(2)] by blast
qed auto

lemma FillVertexContainer_inv:
  assumes "storage_inv n now D H" "tid < n" "FillVertexContainer tid tvs D = Some D'"
  shows "\<exists>H'. storage_inv n now D' H'"
proof -
  obtain D1 where D1: "load_vertices tid tvs D = Some D1" "D' = D1\<lparr>num_of_vertex_local := (max_vid (worker_rank D1) tvs - worker_rank D1) div worker_size D1\<rparr>"
    using assms(3) by (auto simp: FillVertexContainer_def bind_eq_Some_conv)
  have "quiet D1 D'" unfolding D1(2) by (rule quietI) simp_all
  then show ?thesis using load_vertices_inv [OF assms(1,2) D1(1)] quiet_inv by blast
qed

lemma load_out_edges_inv: "storage_inv n now D H \<Longrightarrow> tid < n \<Longrightarrow> load_out_edges tid x es D = Some D' \<Longrightarrow> \<exists>H'. storage_inv n now D' H'"
proof (induction tid x es D arbitrary: H rule: load_out_edges.induct)
  case (2 tid x e es D)
  then obtain D1 where D1: "load_out_edge tid x e D = Some D1" "load_out_edges tid x es D1 = Some D'" by (auto simp: bind_eq_Some_conv)
  show ?case using load_out_edge_inv [OF "2.prems"(1,2) D1(1)] "2.IH" [OF D1(1) _ "2.prems"(2) D1(2)] by blast
qed auto

lemma load_in_edges_inv: "storage_inv n now D H \<Longrightarrow> tid < n \<Longrightarrow> load_in_edges tid es D = Some D' \<Longrightarrow> \<exists>H'. storage_inv n now D' H'"
proof (induction es arbitrary: D H)
  case (Cons e es)
  then obtain p D1 where D1: "load_cell tid False (dst_v (ti_id e)) (src_v (ti_id e)) (ti_id e) (ti_label e) None D = Some (p, D1)" "load_in_edges tid es D1 = Some D'"
    by (auto simp: bind_eq_Some_conv)
  show ?case using load_cell_inv [OF Cons.prems(1,2) D1(1)] Cons.IH [OF _ Cons.prems(2) D1(2)] by blast
qed auto

lemma FillEdgeContainer_inv:
  assumes "storage_inv n now D H" "tid < n" "FillEdgeContainer tid x outs ins D = Some D'"
  shows "\<exists>H'. storage_inv n now D' H'"
proof -
  obtain D1 where "load_out_edges tid x outs D = Some D1" "load_in_edges tid ins D1 = Some D'"
    using assms(3) by (auto simp: FillEdgeContainer_def bind_eq_Some_conv)
  then show ?thesis using load_out_edges_inv [OF assms(1,2)] load_in_edges_inv [OF _ assms(2)] by blast
qed

section \<open>Abort\<close>

text \<open>What the guard on edges means for the versions an edge stands for.\<close>

lemma own_props_iff:
  assumes "fam_ok (edge_mvcc S) (edge_lists S) A" "edge_lists S p = Some ml" "IS_VALID_TRX_ID t"
  shows "own_props t p S \<longleftrightarrow> (\<exists>b v. snd (A p) = Some (t, b, v) \<and> Edge_NeedGC v)"
proof -
  obtain as where r: "list_rep (items (edge_mvcc S)) ml as (fst (A p)) (snd (A p))" by (rule fam_rep [OF assms(1,2)])
  show ?thesis
  proof
    assume "own_props t p S"
    then obtain a where a: "tail ml = Some a" "GetTransactionID (items (edge_mvcc S) a) = t" "Edge_NeedGC (val (items (edge_mvcc S) a))"
      using assms(2) by (auto simp: own_props_def split: option.splits)
    obtain b v where u: "snd (A p) = Some (t, b, v)" using pending_owner [OF r a(1,2) assms(3)] by blast
    then show "\<exists>b v. snd (A p) = Some (t, b, v) \<and> Edge_NeedGC v" using tail_pending(1,2) [OF r [unfolded u]] a(1,3) by auto
  next
    assume "\<exists>b v. snd (A p) = Some (t, b, v) \<and> Edge_NeedGC v"
    then obtain b v where u: "snd (A p) = Some (t, b, v)" "Edge_NeedGC v" by blast
    then show "own_props t p S" using tail_pending(1-3) [OF r [unfolded u(1)]] assms(2) by (simp add: own_props_def)
  qed
qed

lemma fam_abort_owned:
  assumes "fam_ok m L A" "L p \<noteq> None" "owned t (A p)" "tid < nthreads (item_pool m)"
  obtains ml m' ml' where "L p = Some ml" "AbortVersion G F tid t m ml = Some (m', ml')"
    "nthreads (item_pool m') = nthreads (item_pool m)" "fam_ok m' (L(p \<mapsto> ml')) (A(p := settle t None (A p)))"
    "(\<forall>b v. snd (A p) = Some (t, b, v) \<longrightarrow> \<not> G v) \<longrightarrow> val_store m' = val_store m"
proof -
  obtain ml where ml: "L p = Some ml" using assms(2) by auto
  obtain b v where o: "snd (A p) = Some (t, b, v)" using assms(3) by (auto simp: owned_def split: option.splits)
  then have A: "A p = (fst (A p), Some (t, b, v))" by (metis prod.collapse)
  obtain m' ml' where "AbortVersion G F tid t m ml = Some (m', ml')" "val_store m' = (if G v then F v (val_store m) else val_store m)"
    "nthreads (item_pool m') = nthreads (item_pool m)" "fam_ok m' (L(p \<mapsto> ml')) (A(p := (fst (A p), None)))"
    by (rule fam_abort [OF assms(1) ml A assms(4)])
  then show ?thesis using that [OF ml] o by (simp add: settle_def)
qed

definition clean :: "u64 \<Rightarrow> storage_hist \<Rightarrow> list_ptr \<Rightarrow> bool" where
  "clean t H ptr \<longleftrightarrow> (case ptr of EList p \<Rightarrow> \<forall>b v. snd (he H p) = Some (t, b, v) \<longrightarrow> \<not> Edge_NeedGC v | _ \<Rightarrow> True)"

lemma abort_record_ok:
  assumes rep: "storage_rep D H" "threads_ok n D" and a: "alive D (pr_list r)" "ptr_owned t H (pr_list r)" "clean t H (pr_list r)"
    and t: "tid < n" "pr_type r \<noteq> PROCESS_ADD_V"
  obtains D' where "abort_record tid t vids r D = Some D'" "storage_rep D' (settle_at t None {pr_list r} H)" "same_but_lists D D'"
proof -
  obtain E where R: "fam_ok (v_mvcc D) (v_lists D) (hv H)" "fam_ok (edge_mvcc (topo D)) (edge_lists (topo D)) (he H)"
    "fam_ok (prop_mvcc (vp_mem D)) (prop_lists (vp_mem D)) (hp H)"
    "edge_store D = Some E" "fam_ok (prop_mvcc (ep_mem E)) (prop_lists (ep_mem E)) (hx H)"
    using rep(1) by (auto simp: storage_rep_def)
  have nt: "tid < nthreads (item_pool (v_mvcc D))" "tid < nthreads (item_pool (edge_mvcc (topo D)))"
    "tid < nthreads (item_pool (prop_mvcc (vp_mem D)))" "tid < nthreads (item_pool (prop_mvcc (ep_mem E)))"
    using rep(2) t(1) R(4) by (simp_all add: threads_ok_def)
  have upd: "(\<lambda>q. if q = p then settle t None (A q) else A q) = A(p := settle t None (A p))" for p and A :: "nat \<Rightarrow> 'v history" by auto
  note defs = abort_record_def abort_prop_def abort_edge_def on_edge_props_def storage_rep_def settle_at_def same_but_lists_def alive_def edge_store_def
    fresh_ok_def threads_ok_def
  show ?thesis
  proof (cases "pr_list r")
    case (VList p)
    obtain ml m' ml' where C: "v_lists D p = Some ml" "AbortVersion Vertex_NeedGC Vertex_ValueGC tid t (v_mvcc D) ml = Some (m', ml')"
      "nthreads (item_pool m') = nthreads (item_pool (v_mvcc D))" "fam_ok m' ((v_lists D)(p \<mapsto> ml')) ((hv H)(p := settle t None (hv H p)))"
      by (rule fam_abort_owned [OF R(1) _ _ nt(1), of p t Vertex_NeedGC Vertex_ValueGC]) (use a VList in \<open>auto simp: alive_def ptr_owned_def\<close>)
    show ?thesis by (rule that) (use C R VList t(2) in \<open>auto simp: defs upd Let_def split: list_ptr.splits if_splits\<close>)
  next
    case (EList p)
    obtain ml m' ml' where C: "edge_lists (topo D) p = Some ml" "AbortVersion Edge_NeedGC (Edge_ValueGC tid) tid t (edge_mvcc (topo D)) ml = Some (m', ml')"
      "nthreads (item_pool m') = nthreads (item_pool (edge_mvcc (topo D)))"
      "fam_ok m' ((edge_lists (topo D))(p \<mapsto> ml')) ((he H)(p := settle t None (he H p)))" "val_store m' = val_store (edge_mvcc (topo D))"
      by (rule fam_abort_owned [OF R(2) _ _ nt(2), of p t Edge_NeedGC "Edge_ValueGC tid"]) (use a EList in \<open>auto simp: alive_def ptr_owned_def clean_def\<close>)
    show ?thesis by (rule that) (use C R EList in \<open>auto simp: defs upd split: list_ptr.splits if_splits\<close>)
  next
    case (VPList p)
    obtain ml m' ml' where C: "prop_lists (vp_mem D) p = Some ml" "AbortVersion Property_NeedGC (Property_ValueGC tid) tid t (prop_mvcc (vp_mem D)) ml = Some (m', ml')"
      "nthreads (item_pool m') = nthreads (item_pool (prop_mvcc (vp_mem D)))" "fam_ok m' ((prop_lists (vp_mem D))(p \<mapsto> ml')) ((hp H)(p := settle t None (hp H p)))"
      by (rule fam_abort_owned [OF R(3) _ _ nt(3), of p t Property_NeedGC "Property_ValueGC tid"]) (use a VPList in \<open>auto simp: alive_def ptr_owned_def\<close>)
    show ?thesis by (rule that) (use C R VPList in \<open>auto simp: defs upd split: list_ptr.splits if_splits\<close>)
  next
    case (EPList p)
    obtain ml m' ml' where C: "prop_lists (ep_mem E) p = Some ml" "AbortVersion Property_NeedGC (Property_ValueGC tid) tid t (prop_mvcc (ep_mem E)) ml = Some (m', ml')"
      "nthreads (item_pool m') = nthreads (item_pool (prop_mvcc (ep_mem E)))" "fam_ok m' ((prop_lists (ep_mem E))(p \<mapsto> ml')) ((hx H)(p := settle t None (hx H p)))"
      by (rule fam_abort_owned [OF R(5) _ _ nt(4), of p t Property_NeedGC "Property_ValueGC tid"]) (use a EPList R(4) in \<open>auto simp: alive_def ptr_owned_def\<close>)
    show ?thesis by (rule that) (use C R EPList in \<open>auto simp: defs upd fam_store split: list_ptr.splits if_splits\<close>)
  qed
qed

lemma clean_other: "q \<noteq> ptr \<Longrightarrow> clean s (settle_at t oc {ptr} H) q = clean s H q"
  by (auto simp: clean_def settle_at_def split: list_ptr.splits)

lemma abort_records_ok:
  assumes "storage_rep D H" "threads_ok n D" and t: "tid < n"
    and "\<forall>r\<in>set rs. pr_type r \<noteq> PROCESS_ADD_V \<and> (pr_list r \<notin> touched \<longrightarrow> alive D (pr_list r) \<and> ptr_owned t H (pr_list r) \<and> clean t H (pr_list r))"
  shows "\<exists>D'. abort_records tid t vids touched rs D = Some D' \<and> storage_rep D' (settle_at t None (pr_list ` set rs - touched) H) \<and> same_but_lists D D'"
  using assms(1,2,4)
proof (induction rs arbitrary: touched D H)
  case Nil
  then show ?case by (simp add: same_but_lists_def)
next
  case (Cons r rs)
  let ?p = "pr_list r"
  show ?case
  proof (cases "?p \<in> touched")
    case True
    then show ?thesis using Cons.IH [of D H touched] Cons.prems by simp
  next
    case False
    obtain D1 where D1: "abort_record tid t vids r D = Some D1" "storage_rep D1 (settle_at t None {?p} H)" "same_but_lists D D1"
      by (rule abort_record_ok [OF Cons.prems(1,2) _ _ _ t]) (use Cons.prems(3) False in auto)
    have n: "threads_ok n D1" using D1(3) Cons.prems(2) by (simp add: same_but_lists_def)
    have "\<forall>r\<in>set rs. pr_type r \<noteq> PROCESS_ADD_V \<and> (pr_list r \<notin> insert ?p touched \<longrightarrow> alive D1 (pr_list r) \<and>
        ptr_owned t (settle_at t None {?p} H) (pr_list r) \<and> clean t (settle_at t None {?p} H) (pr_list r))"
      using Cons.prems(3) D1(3) by (auto simp: same_but_lists_def settle_at_other clean_other)
    from Cons.IH [OF D1(2) n this] obtain D2 where D2: "abort_records tid t vids (insert ?p touched) rs D1 = Some D2"
      "storage_rep D2 (settle_at t None (pr_list ` set rs - insert ?p touched) (settle_at t None {?p} H))" "same_but_lists D1 D2" by blast
    have "insert ?p (pr_list ` set rs - insert ?p touched) = pr_list ` set (r # rs) - touched" using False by auto
    then have "settle_at t None (pr_list ` set rs - insert ?p touched) (settle_at t None {?p} H) = settle_at t None (pr_list ` set (r # rs) - touched) H"
      using settle_at_insert [of ?p "pr_list ` set rs - insert ?p touched"] by simp
    then show ?thesis using D1 D2 False by (auto simp: same_but_lists_def)
  qed
qed

text \<open>
  Transactions that neither added a vertex nor have a pending edge version with a property list; aborting one of the others
  collects row lists.
\<close>

definition plain_abort :: "u64 \<Rightarrow> data_storage \<Rightarrow> bool" where
  "plain_abort t D \<longleftrightarrow>
     (\<forall>r\<in>set (process_vector (history_of D t)). pr_type r \<noteq> PROCESS_ADD_V \<and> (case pr_list r of EList p \<Rightarrow> \<not> own_props t p (topo D) | _ \<Rightarrow> True))"

lemma Abort_ok:
  assumes inv: "storage_inv n now D H" and t: "tid < n" "IS_VALID_TRX_ID t" and p: "plain_abort t D"
  obtains D' where "DataStorage_Abort tid t D = Some D'" "storage_inv n now D' (settle_all t None H)" "alive D' = alive D" "trx_process_history D' t = None"
proof -
  have rep: "storage_rep D H" "threads_ok n D" and own: "\<And>t ptr. ptr \<in> recorded D t \<longleftrightarrow> alive D ptr \<and> ptr_owned t H ptr"
    using inv unfolding storage_inv_def by blast+
  obtain E where I: "fam_ok (edge_mvcc (topo D)) (edge_lists (topo D)) (he H)" by (rule storage_invE [OF inv])
  have c: "clean t H (EList p)" if "alive D (EList p)" "\<not> own_props t p (topo D)" for p
    using that own_props_iff [OF I _ t(2), of p] by (auto simp: clean_def alive_def)
  have c': "pr_type r \<noteq> PROCESS_ADD_V \<and> (pr_list r \<notin> {} \<longrightarrow> alive D (pr_list r) \<and> ptr_owned t H (pr_list r) \<and> clean t H (pr_list r))"
    if "r \<in> set (process_vector (history_of D t))" for r
  proof -
    have "pr_list r \<in> recorded D t" using that by (simp add: recorded_def)
    then have "alive D (pr_list r)" "ptr_owned t H (pr_list r)" using own by blast+
    then show ?thesis using p that c by (cases "pr_list r") (auto simp: plain_abort_def clean_def)
  qed
  obtain D1 where D1: "DataStorage_Abort tid t D = Some (forget t D1)" "storage_rep D1 (settle_at t None (recorded D t) H)" "same_but_lists D D1"
  proof (cases "trx_process_history D t")
    case None
    then show ?thesis using that [of D] rep by (simp add: recorded_def history_of_def same_but_lists_def DataStorage_Abort_def forget_none)
  next
    case (Some h)
    have "\<forall>r\<in>set (rev (process_vector h)). pr_type r \<noteq> PROCESS_ADD_V \<and> (pr_list r \<notin> {} \<longrightarrow> alive D (pr_list r) \<and> ptr_owned t H (pr_list r) \<and> clean t H (pr_list r))"
      using c' Some by (simp add: history_of_def)
    from abort_records_ok [OF rep t(1) this, of "mvcclist_to_vid_map h"] show ?thesis
      using that Some by (auto simp: recorded_def history_of_def DataStorage_Abort_def forget_def)
  qed
  have "now \<le> latest now None" by (simp add: latest_def)
  note s = settle_inv [OF inv D1(2,3) this]
  show ?thesis by (rule that [OF D1(1)]) (use s in \<open>simp_all add: latest_def forget_def\<close>)
qed

section \<open>Runs of the storage\<close>

text \<open>The reads; they change the storage only in the dependencies they register and the aborts they report.\<close>

inductive storage_read :: "read_context \<Rightarrow> data_storage \<Rightarrow> data_storage \<Rightarrow> bool" where
  "GetVPByPKey x pid ret D = Some (st, w, D') \<Longrightarrow> storage_read x D D'"
| "GetAllVP x vid D = Some (st, ps, D') \<Longrightarrow> storage_read x D D'"
| "GetVPByPKeyList x vid ks D = Some (st, ps, D') \<Longrightarrow> storage_read x D D'"
| "GetVPidList x vid D = Some (st, vps, D') \<Longrightarrow> storage_read x D D'"
| "GetVL x vid label D = Some (st, label', D') \<Longrightarrow> storage_read x D D'"
| "GetConnectedVertexList x vid label dir D = Some (st, vids, D') \<Longrightarrow> storage_read x D D'"
| "GetConnectedEdgeList x vid label dir D = Some (st, eids, D') \<Longrightarrow> storage_read x D D'"
| "GetEPByPKey x epid ret D = Some (st, w, D') \<Longrightarrow> storage_read x D D'"
| "GetAllEP x eid D = Some (st, ps, D') \<Longrightarrow> storage_read x D D'"
| "GetEPByPKeyList x eid ks D = Some (st, ps, D') \<Longrightarrow> storage_read x D D'"
| "GetEPidList x eid D = Some (st, eps, D') \<Longrightarrow> storage_read x D D'"
| "GetEL x eid label D = Some (st, label', D') \<Longrightarrow> storage_read x D D'"
| "CheckVertexVisibilityWithVid x vid D = Some (b, D') \<Longrightarrow> storage_read x D D'"
| "CheckEdgeVisibilityWithEid x eid D = Some (b, D') \<Longrightarrow> storage_read x D D'"
| "GetAllVertices x keys vids D = Some (st, vids', D') \<Longrightarrow> storage_read x D D'"
| "GetAllEdges x ekeys eids D = Some (st, eids', D') \<Longrightarrow> storage_read x D D'"

lemma visible_vertex_quiet: "visible_vertex x p D = Some (r, D') \<Longrightarrow> quiet D D'"
  by (auto simp: visible_vertex_def bind_eq_Some_conv)

lemma GetAllVertices_quiet: "GetAllVertices x keys ret D = Some (st, ret', D') \<Longrightarrow> quiet D D'"
proof (induction keys arbitrary: ret D)
  case (Cons k keys)
  obtain v where v: "vertex_map D k = Some v" using Cons.prems by (auto simp: bind_eq_Some_conv)
  show ?case
  proof (cases "v_list v")
    case None
    then show ?thesis using Cons v by simp
  next
    case (Some p)
    then obtain r D1 where r: "visible_vertex x p D = Some (r, D1)" using Cons.prems v by (auto simp: bind_eq_Some_conv)
    have "quiet D1 D'" using Cons v Some r by (cases r) auto
    then show ?thesis by (rule quiet_trans [OF visible_vertex_quiet [OF r]])
  qed
qed simp

lemma GetAllEdges_quiet: "GetAllEdges x keys ret D = Some (st, ret', D') \<Longrightarrow> quiet D D'"
proof (induction keys arbitrary: ret D)
  case (Cons k keys)
  obtain ptr where v: "out_edge_map D k = Some ptr" using Cons.prems by (auto simp: bind_eq_Some_conv)
  show ?case
  proof (cases ptr)
    case None
    then show ?thesis using Cons v by simp
  next
    case (Some p)
    then obtain r D1 where r: "visible_edge_at x p D = Some (r, D1)" using Cons.prems v by (auto simp: bind_eq_Some_conv)
    have "quiet D1 D'" using Cons v Some r by (cases r) auto
    then show ?thesis by (rule quiet_trans [OF visible_edge_at_quiet [OF r]])
  qed
qed simp

lemma storage_read_quiet: "storage_read x D D' \<Longrightarrow> quiet D D'"
proof (induction rule: storage_read.induct)
  case (12 x eid label D st label' D')
  then show ?case using GetOutEdgeVersion_quiet by (auto simp: GetEL_def bind_eq_Some_conv split: if_splits)
next
  case (13 x vid D b D')
  then show ?case by (auto simp: CheckVertexVisibilityWithVid_def CheckVertexVisibility_def visible_vertex_def bind_eq_Some_conv split: option.splits)
next
  case (14 x eid D b D')
  then show ?case using GetOutEdgeVersion_quiet by (auto simp: CheckEdgeVisibilityWithEid_def bind_eq_Some_conv)
qed (simp_all add: GetVPByPKey_def GetAllVP_def GetVPByPKeyList_def GetVPidList_def GetVL_def GetConnectedVertexList_def GetConnectedEdgeList_def
    GetEPByPKey_def GetAllEP_def GetEPByPKeyList_def GetEPidList_def with_vertex_quiet with_edge_quiet GetAllVertices_quiet GetAllEdges_quiet)

text \<open>
  One call of \<open>DataStorage\<close> by one of \<open>n\<close> threads, with the newest commit time. Commit times come in increasing order. A
  transaction does not write an outgoing edge again that it has added itself, and a transaction that aborts is a plain one.
\<close>

inductive storage_step :: "nat \<Rightarrow> data_storage \<times> u64 \<Rightarrow> data_storage \<times> u64 \<Rightarrow> bool" for n where
  load_v: "tid < n \<Longrightarrow> FillVertexContainer tid tvs D = Some D' \<Longrightarrow> storage_step n (D, now) (D', now)"
| load_e: "tid < n \<Longrightarrow> FillEdgeContainer tid x outs ins D = Some D' \<Longrightarrow> storage_step n (D, now) (D', now)"
| read: "storage_read x D D' \<Longrightarrow> storage_step n (D, now) (D', now)"
| add_v: "tid < n \<Longrightarrow> IS_VALID_TRX_ID t \<Longrightarrow> ProcessAddV tid label t bt D = Some (vid, D') \<Longrightarrow> storage_step n (D, now) (D', now)"
| drop_v: "tid < n \<Longrightarrow> IS_VALID_TRX_ID (rc_trx x) \<Longrightarrow> ProcessDropV tid x vid D = Some (ps, ins', outs', D') \<Longrightarrow> storage_step n (D, now) (D', now)"
| add_e: "tid < n \<Longrightarrow> IS_VALID_TRX_ID (rc_trx x) \<Longrightarrow> \<not> rewrites_own_edge (rc_trx x) eid out D \<Longrightarrow>
    ProcessAddE tid x eid label out D = Some (ps, D') \<Longrightarrow> storage_step n (D, now) (D', now)"
| drop_e: "tid < n \<Longrightarrow> IS_VALID_TRX_ID t \<Longrightarrow> \<not> rewrites_own_edge t eid out D \<Longrightarrow>
    ProcessDropE tid eid out t bt D = Some (ps, D') \<Longrightarrow> storage_step n (D, now) (D', now)"
| modify_vp: "tid < n \<Longrightarrow> IS_VALID_TRX_ID (rc_trx x) \<Longrightarrow> ProcessModifyVP tid x pid w old D = Some (ps, old', D') \<Longrightarrow> storage_step n (D, now) (D', now)"
| drop_vp: "tid < n \<Longrightarrow> IS_VALID_TRX_ID (rc_trx x) \<Longrightarrow> ProcessDropVP tid x pid old D = Some (ps, old', D') \<Longrightarrow> storage_step n (D, now) (D', now)"
| modify_ep: "tid < n \<Longrightarrow> IS_VALID_TRX_ID (rc_trx x) \<Longrightarrow> ProcessModifyEP tid x epid w old D = Some (ps, old', D') \<Longrightarrow> storage_step n (D, now) (D', now)"
| drop_ep: "tid < n \<Longrightarrow> IS_VALID_TRX_ID (rc_trx x) \<Longrightarrow> ProcessDropEP tid x epid old D = Some (ps, old', D') \<Longrightarrow> storage_step n (D, now) (D', now)"
| commit: "now < c \<Longrightarrow> c < MAX_TIME \<Longrightarrow> Commit t c D = Some D' \<Longrightarrow> storage_step n (D, now) (D', c)"
| abort: "tid < n \<Longrightarrow> IS_VALID_TRX_ID t \<Longrightarrow> plain_abort t D \<Longrightarrow> DataStorage_Abort tid t D = Some D' \<Longrightarrow> storage_step n (D, now) (D', now)"

lemma storage_step_inv:
  assumes "storage_step n s s'" "\<exists>H. storage_inv n (snd s) (fst s) H"
  shows "\<exists>H. storage_inv n (snd s') (fst s') H"
  using assms
proof (induction rule: storage_step.induct)
  case (commit now c t D D')
  then obtain H where "storage_inv n now D H" by auto
  then show ?case by (rule Commit_ok [OF _ commit(1,2), of n D H t]) (use commit(3) in auto)
next
  case (abort tid t D D' now)
  then obtain H where "storage_inv n now D H" by auto
  then show ?case by (rule Abort_ok [OF _ abort(1-3)]) (use abort(4) in auto)
qed (auto intro: FillVertexContainer_inv FillEdgeContainer_inv quiet_inv storage_read_quiet ProcessAddV_inv ProcessDropV_inv ProcessAddE_inv ProcessDropE_inv
    ProcessModifyVP_inv ProcessDropVP_inv ProcessModifyEP_inv ProcessDropEP_inv)

text \<open>A storage without elements, on freshly initialised pools.\<close>

definition storage_start :: "nat \<Rightarrow> nat \<Rightarrow> nat \<Rightarrow> data_storage \<Rightarrow> bool" where
  "storage_start B k n D \<longleftrightarrow>
     2 \<le> B \<and> 0 < n \<and> v_lists D = Map.empty \<and> edge_lists (topo D) = Map.empty \<and> prop_lists (vp_mem D) = Map.empty \<and> trx_process_history D = Map.empty \<and>
     MemPool_Init B k n False = Some (item_pool (v_mvcc D)) \<and> MemPool_Init B k n False = Some (item_pool (edge_mvcc (topo D))) \<and>
     MemPool_Init B k n False = Some (item_pool (prop_mvcc (vp_mem D))) \<and>
     (\<exists>E. val_store (edge_mvcc (topo D)) = Some E \<and> prop_lists (ep_mem E) = Map.empty \<and> MemPool_Init B k n False = Some (item_pool (prop_mvcc (ep_mem E))))"

lemma fam_none: "pool_used (item_pool m) U \<Longrightarrow> fam_ok m Map.empty A"
  by (auto simp: fam_ok_def fam_cells_def)

lemma storage_start_inv:
  assumes "storage_start B k n D"
  shows "storage_inv n 0 D H"
proof -
  have s: "2 \<le> B" "0 < n" "v_lists D = Map.empty" "edge_lists (topo D) = Map.empty" "prop_lists (vp_mem D) = Map.empty" "trx_process_history D = Map.empty"
    "MemPool_Init B k n False = Some (item_pool (v_mvcc D))" "MemPool_Init B k n False = Some (item_pool (edge_mvcc (topo D)))"
    "MemPool_Init B k n False = Some (item_pool (prop_mvcc (vp_mem D)))"
    using assms unfolding storage_start_def by blast+
  obtain E where E: "edge_store D = Some E" "prop_lists (ep_mem E) = Map.empty" "MemPool_Init B k n False = Some (item_pool (prop_mvcc (ep_mem E)))"
    using assms unfolding storage_start_def edge_store_def by blast
  note u = MemPool_Init_used(1,2) [OF _ s(1,2)]
  have "storage_rep D H" using s E u by (auto simp: storage_rep_def intro!: fam_none)
  moreover have "threads_ok n D" using s E u by (auto simp: threads_ok_def)
  moreover have "fresh_ok D" using s E by (auto simp: fresh_ok_def unused_above_def)
  moreover have "\<not> alive D ptr" for ptr using s E by (cases ptr) (auto simp: alive_def)
  moreover have "recorded D t = {}" for t using s(6) by (simp add: recorded_def history_of_def)
  ultimately show ?thesis by (simp add: storage_inv_def)
qed

lemma storage_run_inv:
  assumes "storage_start B k n D0" "(storage_step n)\<^sup>*\<^sup>* (D0, 0) (D, now)"
  obtains H where "storage_inv n now D H"
proof -
  have "\<exists>H. storage_inv n (snd s) (fst s) H" if "(storage_step n)\<^sup>*\<^sup>* (D0, 0) s" for s
    using that by induction (use storage_start_inv [OF assms(1)] storage_step_inv in auto)
  from this [OF assms(2)] show ?thesis using that by auto
qed




text \<open>A storage to try them on.\<close>

definition sample_props :: "'p \<Rightarrow> 'p prop_store" where
  "sample_props k = (let p = the (MemPool_Init 4 40 2 False) in
     \<lparr>prop_rows = \<lparr>rows = \<lambda>_. \<lparr>next_row = None, cells = \<lambda>_. \<lparr>cell_pid = k, cell_list = None\<rparr>\<rparr>, row_pool = p\<rparr>,
      prop_lists = \<lambda>_. None, fresh_list = 0,
      prop_mvcc = \<lparr>items = \<lambda>_. \<lparr>begin_time = 0, end_time = 0, next_item = None, val = \<lparr>head_offset = 0, byte_count = 0\<rparr>\<rparr>,
                   item_pool = p, val_store = the (ValueStore_Init (\<lambda>_. 0) 4 40 2 False)\<rparr>\<rparr>)"

definition sample_topo :: topo_store where
  "sample_topo = (let p = the (MemPool_Init 4 40 2 False) in
     \<lparr>topo_rows = \<lparr>rows = \<lambda>_. \<lparr>next_row = None, cells = \<lambda>_. \<lparr>is_out = False, conn_vtx_id = 0, edge_list = 0\<rparr>\<rparr>, row_pool = p\<rparr>,
      edge_lists = \<lambda>_. None, fresh_edge = 0,
      edge_mvcc = \<lparr>items = \<lambda>_. \<lparr>begin_time = 0, end_time = 0, next_item = None, val = \<lparr>ev_label = 0, ep_row_list = None\<rparr>\<rparr>, item_pool = p,
                   val_store = Some \<lparr>ep_mem = sample_props \<lparr>ep_dst_vid = 0, ep_src_vid = 0, ep_pid = 0\<rparr>, ep_lists = \<lambda>_. None, fresh_ep = 0\<rparr>\<rparr>\<rparr>)"

definition sample_storage :: data_storage where
  "sample_storage =
     \<lparr>worker_rank = 0, worker_size = 1, vertex_map = \<lambda>_. None, out_edge_map = \<lambda>_. None, in_edge_map = \<lambda>_. None, v_lists = \<lambda>_. None, fresh_v = 0,
      v_mvcc = \<lparr>items = \<lambda>_. \<lparr>begin_time = 0, end_time = 0, next_item = None, val = False\<rparr>, item_pool = the (MemPool_Init 4 40 2 False), val_store = ()\<rparr>,
      vp_mem = sample_props \<lparr>vp_vid = 0, vp_pid = 0\<rparr>, topo = sample_topo, num_of_vertex_local = 0, trx_process_history = \<lambda>_. None,
      agg_data_table = \<lambda>_. None, ds_deps = \<lambda>_. None, status_updates = [], gcable_eid_queue = [], gcable_vid_queue = []\<rparr>"

definition sample_writer :: "u64 \<Rightarrow> u64 \<Rightarrow> read_context" where
  "sample_writer t b = \<lparr>rc_level = SERIALIZABLE, rc_preread = False, rc_status = (\<lambda>_. (PROCESSING, 0)), rc_trx = t, rc_begin = b, rc_read_only = False\<rparr>"

lemma sample_storage_start: "storage_start 4 40 2 sample_storage"
proof -
  have "MemPool_Init 4 40 2 False \<noteq> None" by code_simp
  then show ?thesis by (auto simp: storage_start_def sample_storage_def sample_topo_def sample_props_def Let_def)
qed

text \<open>A transaction adds a vertex and gives it a property with the byte \<open>b\<close>.\<close>

definition sample_pid :: vpid_t where "sample_pid = \<lparr>vp_vid = 1, vp_pid = 5\<rparr>"

definition byte :: "8 word \<Rightarrow> value_t" where "byte b = \<lparr>v_type = 4, v_content = [b]\<rparr>"

definition sample_added :: "(vid_t \<times> data_storage) option" where
  "sample_added = ProcessAddV 0 3 0x8000000000000100 2 sample_storage"

definition sample_set :: "u64 \<Rightarrow> u64 \<Rightarrow> 8 word \<Rightarrow> data_storage \<Rightarrow> (PROCESS_STAT \<times> value_t \<times> data_storage) option" where
  "sample_set t b w D = ProcessModifyVP 0 (sample_writer t b) sample_pid (byte w) (byte 0) D"

definition sample_get :: "data_storage \<Rightarrow> (READ_STAT \<times> value_t) option" where
  "sample_get D = map_option (\<lambda>(st, v, _). (st, v)) (GetVPByPKey (sample_reader 0x8000000000000300) sample_pid (byte 0) D)"

lemma sample_run_evaluates:
  "case sample_added of None \<Rightarrow> False | Some (vid, D1) \<Rightarrow>
     (case sample_set 0x8000000000000100 2 7 D1 of None \<Rightarrow> False | Some (ps, old, D2) \<Rightarrow>
        (case sample_get D2 of None \<Rightarrow> False | Some (st, v) \<Rightarrow> st \<noteq> SUCCESS) \<and>
        (case Commit 0x8000000000000100 7 D2 of None \<Rightarrow> False | Some D3 \<Rightarrow>
           (case sample_get D3 of None \<Rightarrow> False | Some (st, v) \<Rightarrow> st = SUCCESS \<and> v = byte 7) \<and>
           (case sample_set 0x8000000000000200 8 9 D3 of None \<Rightarrow> False | Some (ps, old, D4) \<Rightarrow>
              (case DataStorage_Abort 0 0x8000000000000200 D4 of None \<Rightarrow> False | Some D5 \<Rightarrow>
                 (case sample_get D5 of None \<Rightarrow> False | Some (st, v) \<Rightarrow> st = SUCCESS \<and> v = byte 7)) \<and>
              plain_abort 0x8000000000000200 D4)))"
  by code_simp

lemma sample_added_step: "sample_added = Some (vid, D1) \<Longrightarrow> storage_step 2 (sample_storage, now) (D1, now)"
  unfolding sample_added_def by (rule storage_step.add_v [of 0 _ "0x8000000000000100"]) (simp_all add: IS_VALID_TRX_ID_iff MAX_TIMESTAMP_def)

lemma sample_set_step: "sample_set t b w D = Some (ps, old, D') \<Longrightarrow> IS_VALID_TRX_ID t \<Longrightarrow> storage_step 2 (D, now) (D', now)"
  unfolding sample_set_def by (rule storage_step.modify_vp [of 0 _ "sample_writer t b"]) (simp_all add: sample_writer_def)



section \<open>Where commit and abort go wrong\<close>

text \<open>A transaction adds two vertices, an edge between them and a property of the edge.\<close>

definition sample_eid :: eid_t where "sample_eid = \<lparr>dst_v = 2, src_v = 1\<rparr>"

definition edge_with_property :: "data_storage option" where
  "edge_with_property =
     do { let x = sample_writer 0x8000000000000100 2;
          (_, D) \<leftarrow> sample_added; (_, D) \<leftarrow> ProcessAddV 0 3 (rc_trx x) (rc_begin x) D;
          (_, D) \<leftarrow> ProcessAddE 0 x sample_eid 3 True D;
          (_, _, D) \<leftarrow> ProcessModifyEP 0 x \<lparr>ep_dst_vid = 2, ep_src_vid = 1, ep_pid = 4\<rparr> (byte 7) (byte 0) D;
          Some D }"


text \<open>
  The abort of a transaction that has added a vertex hands the vertex to the garbage collector. If the transaction has
  also dropped it, the record of the drop comes first in the reverse order and covers the version list, so that the record of the
  addition is skipped: the vertex keeps its row lists and is never collected.
\<close>

lemma dropped_new_vertex_stays:
  "case sample_added of
     None \<Rightarrow> False
   | Some (v, D) \<Rightarrow>
       (case DataStorage_Abort 0 0x8000000000000100 D of None \<Rightarrow> False | Some D' \<Rightarrow> gcable_vid_queue D' = [v]) \<and>
       (case ProcessDropV 0 (sample_writer 0x8000000000000100 2) v D of
          None \<Rightarrow> False
        | Some (st, _, _, D1) \<Rightarrow>
            (case DataStorage_Abort 0 0x8000000000000100 D1 of None \<Rightarrow> False | Some D' \<Rightarrow> gcable_vid_queue D' = []))"
  by code_simp

end
